(* ===== verification/Gateway_Prelude.thy ===== *)
theory Gateway_Prelude
  imports Main "HOL-Library.Word" "HOL-Library.Monad_Syntax"
begin

unbundle bit_operations_syntax

text \<open>
  The prelude of the development: machine words and byte order as the i386 build of the
  gateway sees them, byte buffers with bounds (an access outside a buffer is \<^verbatim>\<open>None\<close>),
  and the list and word lemmas that the components share. The collections \<^verbatim>\<open>word_conv\<close>
  and \<^verbatim>\<open>buffer_simps\<close> carry the byte order and the buffer facts into the component proofs.
\<close>

named_theorems word_conv \<open>conversions between words, their bytes and natural numbers\<close>

named_theorems buffer_simps \<open>lengths and contents of buffers after a write\<close>

type_synonym byte = "8 word"
type_synonym u16 = "16 word"
type_synonym u32 = "32 word"

section \<open>Byte order\<close>

text \<open>
  A 16-bit field of a packet structure is a little-endian load of two bytes (the host is an
  i386), and \<^verbatim>\<open>htons\<close>/\<^verbatim>\<open>ntohs\<close> swap the two bytes of a word.
\<close>

definition load16 :: "byte \<Rightarrow> byte \<Rightarrow> u16" where
  "load16 b0 b1 = ucast b0 OR push_bit 8 (ucast b1)"

definition lo8 :: "u16 \<Rightarrow> byte" where
  "lo8 w = ucast w"

definition hi8 :: "u16 \<Rightarrow> byte" where
  "hi8 w = ucast (drop_bit 8 w)"

definition le16 :: "u16 \<Rightarrow> byte list" where
  "le16 w = [lo8 w, hi8 w]"

definition htons :: "u16 \<Rightarrow> u16" where
  "htons w = push_bit 8 w OR drop_bit 8 w"

abbreviation ntohs :: "u16 \<Rightarrow> u16" where
  "ntohs \<equiv> htons"

text \<open>An \<^verbatim>\<open>int\<close> copied to and from memory, and the bytes of a C string literal without its NUL.\<close>

definition le32 :: "u32 \<Rightarrow> byte list" where
  "le32 w = [ucast w, ucast (drop_bit 8 w), ucast (drop_bit 16 w), ucast (drop_bit 24 w)]"

definition load32 :: "byte list \<Rightarrow> u32" where
  "load32 bs = ucast (bs ! 0) OR push_bit 8 (ucast (bs ! 1)) OR push_bit 16 (ucast (bs ! 2)) OR
     push_bit 24 (ucast (bs ! 3))"

definition cstr :: "string \<Rightarrow> byte list" where
  "cstr s = map of_char s"

text \<open>The shift and add by which the tag walkers read a 16-bit big-endian number.\<close>

definition be16 :: "byte \<Rightarrow> byte \<Rightarrow> u16" where
  "be16 b0 b1 = push_bit 8 (ucast b0) + ucast b1"

section \<open>Buffers\<close>

text \<open>Reads and writes of a byte array at an offset; \<^verbatim>\<open>None\<close> is an access out of bounds.\<close>

definition rd :: "byte list \<Rightarrow> nat \<Rightarrow> byte option" where
  "rd buf i = (if i < length buf then Some (buf ! i) else None)"

definition bslice :: "byte list \<Rightarrow> nat \<Rightarrow> nat \<Rightarrow> byte list" where
  "bslice buf off n = take n (drop off buf)"

definition memcpy_at :: "byte list \<Rightarrow> nat \<Rightarrow> byte list \<Rightarrow> byte list option" where
  "memcpy_at buf off bs =
     (if off + length bs \<le> length buf
      then Some (take off buf @ bs @ drop (off + length bs) buf) else None)"

text \<open>A read of \<^verbatim>\<open>n\<close> bytes at an offset, undefined outside the buffer.\<close>

definition mem_read :: "byte list \<Rightarrow> nat \<Rightarrow> nat \<Rightarrow> byte list option" where
  "mem_read buf off n = (if off + n \<le> length buf then Some (bslice buf off n) else None)"

section \<open>Lemmas on words\<close>

lemma bit_byteD: "bit (b :: byte) n \<Longrightarrow> n < 8"
  using bit_imp_le_length [of b n] by simp

lemma htons_htons [simp]: "htons (htons w) = w"
  by (rule bit_word_eqI) (auto simp: htons_def bit_simps)

lemma htons_eq_iff [simp]: "htons a = htons b \<longleftrightarrow> a = b"
  by (metis htons_htons)

lemma load16_lo_hi [simp]: "load16 (lo8 w) (hi8 w) = w"
  by (rule bit_word_eqI) (auto simp: load16_def lo8_def hi8_def bit_simps)

lemma lo8_load16 [simp]: "lo8 (load16 a b) = a"
  by (rule bit_word_eqI) (auto simp: load16_def lo8_def bit_simps dest: bit_byteD)

lemma hi8_load16 [simp]: "hi8 (load16 a b) = b"
  by (rule bit_word_eqI) (auto simp: load16_def hi8_def bit_simps dest: bit_byteD)

lemma length_le16 [simp]: "length (le16 w) = 2"
  by (simp add: le16_def)

lemma length_le32 [simp]: "length (le32 w) = 4"
  by (simp add: le32_def)

lemma load32_le32 [simp]: "load32 (le32 w @ bs) = w"
proof (rule bit_word_eqI)
  fix n assume "n < LENGTH(32)"
  then consider "n < 8" | "8 \<le> n \<and> n < 16" | "16 \<le> n \<and> n < 24" | "24 \<le> n \<and> n < 32" by fastforce
  then show "bit (load32 (le32 w @ bs)) n = bit w n"
    by cases (auto simp: load32_def le32_def bit_simps)
qed

lemma le32_load: "le32 (load32 [b0, b1, b2, b3]) = [b0, b1, b2, b3]"
proof -
  have "ucast (load32 [b0, b1, b2, b3]) = b0" "ucast (drop_bit 8 (load32 [b0, b1, b2, b3])) = b1"
    "ucast (drop_bit 16 (load32 [b0, b1, b2, b3])) = b2" "ucast (drop_bit 24 (load32 [b0, b1, b2, b3])) = b3"
    by (rule bit_word_eqI, auto simp: load32_def bit_simps dest: bit_byteD)+
  then show ?thesis by (simp add: le32_def)
qed

lemma length_cstr [simp]: "length (cstr s) = length s"
  by (simp add: cstr_def)

lemma be16_load16 [word_conv]: "be16 a b = ntohs (load16 a b)"
proof -
  have "push_bit 8 (ucast a) + ucast b = (push_bit 8 (ucast a) OR ucast b :: u16)"
    by (rule disjunctive_add) (auto simp: bit_simps dest: bit_byteD)
  moreover have "(push_bit 8 (ucast a) OR ucast b :: u16) = htons (load16 a b)"
    by (rule bit_word_eqI) (auto simp: load16_def htons_def bit_simps dest: bit_byteD)
  ultimately show ?thesis by (simp add: be16_def)
qed

lemma htons_0 [simp]: "htons 0 = 0"
  by (simp add: htons_def)

lemma htons_0_iff [simp]: "htons w = 0 \<longleftrightarrow> w = 0"
proof
  assume "htons w = 0"
  then have "htons (htons w) = htons 0" by simp
  moreover have "htons 0 = 0" by (simp add: htons_def)
  ultimately show "w = 0" by simp
qed (simp add: htons_def)

lemma unat_of_nat_u16 [word_conv]: "n < 65536 \<Longrightarrow> unat (of_nat n :: u16) = n"
  by (simp add: unat_of_nat)

lemma of_nat_u16_inj [word_conv]:
  "m < 65536 \<Longrightarrow> n < 65536 \<Longrightarrow> (of_nat m :: u16) = of_nat n \<longleftrightarrow> m = n"
  by (metis unat_of_nat_u16)

lemma unat_u16_less [simp]: "unat (w :: u16) < 65536"
  using unsigned_less [of w] by simp

section \<open>Lemmas on buffers\<close>

lemma memcpy_at_Some [buffer_simps]:
  "off + length bs \<le> length buf \<Longrightarrow>
    memcpy_at buf off bs = Some (take off buf @ bs @ drop (off + length bs) buf)"
  by (simp add: memcpy_at_def)

lemma memcpy_at_None [buffer_simps]:
  "memcpy_at buf off bs = None \<longleftrightarrow> length buf < off + length bs"
  by (auto simp: memcpy_at_def)

lemma mem_read_Some [buffer_simps]: "off + n \<le> length buf \<Longrightarrow> mem_read buf off n = Some (bslice buf off n)"
  by (simp add: mem_read_def)

lemma memcpy_at_length: "memcpy_at buf off bs = Some buf' \<Longrightarrow> length buf' = length buf"
  by (auto simp: memcpy_at_def split: if_splits)

lemma memcpy_at_prefix:
  "memcpy_at buf off bs = Some buf' \<Longrightarrow> take (off + length bs) buf' = take off buf @ bs"
  by (auto simp: memcpy_at_def split: if_splits)

lemma length_bslice [buffer_simps]: "off + n \<le> length buf \<Longrightarrow> length (bslice buf off n) = n"
  by (simp add: bslice_def)

lemma bslice_append_right [buffer_simps]:
  "off = length xs \<Longrightarrow> bslice (xs @ ys) off n = take n ys"
  by (simp add: bslice_def)

lemma rd_nth [buffer_simps]: "i < length buf \<Longrightarrow> rd buf i = Some (buf ! i)"
  by (simp add: rd_def)

lemma rd_None [buffer_simps]: "rd buf i = None \<longleftrightarrow> length buf \<le> i"
  by (simp add: rd_def)

end
