(* ===== verification/Linked_Lists.thy ===== *)
theory Linked_Lists
  imports Gateway_Prelude
begin

text \<open>
  Linked lists in an array of structures. A pointer is an index into the array or NULL
  (\<^verbatim>\<open>None\<close>); a store is a function from indices to structures. \<^verbatim>\<open>chain\<close> and \<^verbatim>\<open>backlink\<close> relate the
  next and the previous pointers to the list of indices they run through, and the locale
  \<^verbatim>\<open>dll_store\<close> states what inserting at the head and unlinking do to the pointers, for any
  state that keeps such a list. The lists of the PPPoE relay (the active sessions and the
  hash chains) are its instances.
\<close>

section \<open>Chains of pointers\<close>

primrec chain :: "(nat \<Rightarrow> nat option) \<Rightarrow> nat option \<Rightarrow> nat list \<Rightarrow> bool" where
  "chain nx p [] \<longleftrightarrow> p = None"
| "chain nx p (x # xs) \<longleftrightarrow> p = Some x \<and> chain nx (nx x) xs"

primrec backlink :: "(nat \<Rightarrow> nat option) \<Rightarrow> nat option \<Rightarrow> nat list \<Rightarrow> bool" where
  "backlink pv q [] \<longleftrightarrow> True"
| "backlink pv q (x # xs) \<longleftrightarrow> pv x = q \<and> backlink pv (Some x) xs"

definition dll :: "(nat \<Rightarrow> nat option) \<Rightarrow> (nat \<Rightarrow> nat option) \<Rightarrow> nat option \<Rightarrow> nat list \<Rightarrow> bool" where
  "dll nx pv p xs \<longleftrightarrow> chain nx p xs \<and> backlink pv None xs \<and> distinct xs"

lemma chain_None [simp]: "chain nx None xs \<longleftrightarrow> xs = []"
  by (cases xs) auto

lemma chain_Some: "chain nx (Some x) xs \<longleftrightarrow> (\<exists>ys. xs = x # ys \<and> chain nx (nx x) ys)"
  by (cases xs) auto

lemma chain_cong: "(\<And>x. x \<in> set xs \<Longrightarrow> nx x = nx' x) \<Longrightarrow> chain nx p xs \<longleftrightarrow> chain nx' p xs"
  by (induction xs arbitrary: p) auto

lemma backlink_cong: "(\<And>x. x \<in> set xs \<Longrightarrow> pv x = pv' x) \<Longrightarrow> backlink pv q xs \<longleftrightarrow> backlink pv' q xs"
  by (induction xs arbitrary: q) auto

lemma chain_upd [simp]: "x \<notin> set xs \<Longrightarrow> chain (nx(x := v)) p xs \<longleftrightarrow> chain nx p xs"
  by (rule chain_cong) auto

lemma backlink_upd [simp]: "x \<notin> set xs \<Longrightarrow> backlink (pv(x := v)) q xs \<longleftrightarrow> backlink pv q xs"
  by (rule backlink_cong) auto

lemma chain_unique: "chain nx p xs \<Longrightarrow> chain nx p ys \<Longrightarrow> xs = ys"
proof (induction xs arbitrary: p ys)
  case Nil
  then show ?case by simp
next
  case (Cons x xs)
  then show ?case by (cases ys) auto
qed

lemma chain_suffix: "chain nx p (as @ bs) \<Longrightarrow> \<exists>q. chain nx q bs"
  by (induction as arbitrary: p) auto

lemma chain_next: "chain nx p (as @ x # bs) \<Longrightarrow> chain nx (nx x) bs"
  by (induction as arbitrary: p) auto

lemma chain_next_hd: "chain nx p (as @ x # bs) \<Longrightarrow>
    nx x = (case bs of [] \<Rightarrow> None | y # _ \<Rightarrow> Some y)"
  by (drule chain_next) (auto split: list.splits)

lemma back_prev: "backlink pv q (as @ x # bs) \<Longrightarrow> pv x = (if as = [] then q else Some (last as))"
  by (induction as arbitrary: q) auto

lemma chain_drop_mid:
  "chain nx p (as @ x # bs) \<Longrightarrow> distinct (as @ x # bs) \<Longrightarrow>
    (if as = [] then chain nx (nx x) bs else chain (nx(last as := nx x)) p (as @ bs))"
proof (induction as arbitrary: p)
  case Nil
  then show ?case by simp
next
  case (Cons a as)
  show ?case
  proof (cases as)
    case Nil
    with Cons.prems show ?thesis by simp
  next
    case (Cons a' as')
    with Cons.prems Cons.IH [of "nx a"] show ?thesis by auto
  qed
qed

lemma back_drop_mid:
  "backlink pv q (as @ x # bs) \<Longrightarrow> distinct (as @ x # bs) \<Longrightarrow>
    backlink (case bs of [] \<Rightarrow> pv | y # _ \<Rightarrow> pv(y := pv x)) q (as @ bs)"
proof (induction as arbitrary: q)
  case Nil
  then show ?case
  proof (cases bs)
    case (Cons y ys)
    have "backlink (pv(y := pv x)) (Some y) ys"
      using Nil.prems Cons backlink_upd [of y ys pv "pv x" "Some y"] by auto
    moreover have "(pv(y := pv x)) y = q" using Nil.prems by simp
    ultimately show ?thesis
      unfolding Cons append_Nil list.case backlink.simps by (rule conjI [rotated])
  qed simp
next
  case (Cons a as)
  then show ?case by (cases bs) auto
qed

section \<open>Insertion at the head and unlinking\<close>

locale dll_store =
  fixes next_of :: "'s \<Rightarrow> nat \<Rightarrow> nat option"
    and prev_of :: "'s \<Rightarrow> nat \<Rightarrow> nat option"
    and head_of :: "'s \<Rightarrow> nat option"
    and push :: "nat \<Rightarrow> 's \<Rightarrow> 's"
    and unlink :: "nat \<Rightarrow> 's \<Rightarrow> 's"
  assumes next_push: "next_of (push x s) = (next_of s)(x := head_of s)"
    and prev_push: "head_of s \<noteq> Some x \<Longrightarrow> prev_of (push x s) =
      (case head_of s of None \<Rightarrow> prev_of s | Some y \<Rightarrow> (prev_of s)(y := Some x))(x := None)"
    and head_push: "head_of (push x s) = Some x"
    and next_unlink: "next_of (unlink x s) =
      (case prev_of s x of None \<Rightarrow> next_of s | Some q \<Rightarrow> (next_of s)(q := next_of s x))"
    and prev_unlink: "prev_of (unlink x s) =
      (case next_of s x of None \<Rightarrow> prev_of s | Some y \<Rightarrow> (prev_of s)(y := prev_of s x))"
    and head_unlink: "head_of (unlink x s) =
      (case prev_of s x of None \<Rightarrow> next_of s x | Some q \<Rightarrow> head_of s)"
begin

definition lists :: "'s \<Rightarrow> nat list \<Rightarrow> bool" where
  "lists s xs \<longleftrightarrow> dll (next_of s) (prev_of s) (head_of s) xs"

lemma push_lists:
  assumes "lists s xs" and "x \<notin> set xs"
  shows "lists (push x s) (x # xs)"
proof (cases xs)
  case Nil
  with assms show ?thesis
    by (simp add: lists_def dll_def next_push prev_push head_push)
next
  case (Cons y ys)
  with assms show ?thesis
    by (auto simp: lists_def dll_def next_push prev_push head_push)
qed

lemma unlink_lists:
  assumes "lists s (as @ x # bs)"
  shows "lists (unlink x s) (as @ bs)"
proof -
  have c: "chain (next_of s) (head_of s) (as @ x # bs)"
    and b: "backlink (prev_of s) None (as @ x # bs)" and d: "distinct (as @ x # bs)"
    using assms by (simp_all add: lists_def dll_def)
  have p: "prev_of s x = (if as = [] then None else Some (last as))"
    using back_prev [OF b] .
  have n: "next_of s x = (case bs of [] \<Rightarrow> None | y # _ \<Rightarrow> Some y)"
    using chain_next_hd [OF c] .
  have "chain (next_of (unlink x s)) (head_of (unlink x s)) (as @ bs)"
    using chain_drop_mid [OF c d] by (simp add: next_unlink head_unlink p split: if_splits)
  moreover have "backlink (prev_of (unlink x s)) None (as @ bs)"
    using back_drop_mid [OF b d] by (simp add: prev_unlink n split: list.splits)
  ultimately show ?thesis
    using d by (simp add: lists_def dll_def)
qed

lemma lists_cong:
  assumes "lists s xs" and "head_of s' = head_of s"
    and "\<And>x. x \<in> set xs \<Longrightarrow> next_of s' x = next_of s x \<and> prev_of s' x = prev_of s x"
  shows "lists s' xs"
  using assms chain_cong [of xs "next_of s'" "next_of s"] backlink_cong [of xs "prev_of s'" "prev_of s"]
  by (simp add: lists_def dll_def)

lemma lists_distinct: "lists s xs \<Longrightarrow> distinct xs"
  by (simp add: lists_def dll_def)

lemma lists_neighbours:
  assumes "lists s (as @ x # bs)"
  shows "next_of s x = (case bs of [] \<Rightarrow> None | y # _ \<Rightarrow> Some y)"
    and "prev_of s x = (if as = [] then None else Some (last as))"
  using assms chain_next_hd [of "next_of s" "head_of s" as x bs]
    back_prev [of "prev_of s" None as x bs] by (simp_all add: lists_def dll_def)

lemma lists_head: "lists s xs \<Longrightarrow> head_of s = (case xs of [] \<Rightarrow> None | x # _ \<Rightarrow> Some x)"
  by (auto simp: lists_def dll_def split: list.splits)

text \<open>Structures outside the list keep their pointers.\<close>

lemma push_frame: "z \<noteq> x \<Longrightarrow> next_of (push x s) z = next_of s z"
  by (simp add: next_push)

lemma unlink_frame:
  assumes "lists s (as @ x # bs)" and "z \<notin> set (as @ bs)"
  shows "next_of (unlink x s) z = next_of s z"
proof -
  have "prev_of s x = (if as = [] then None else Some (last as))"
    using assms(1) back_prev [of "prev_of s" None as x bs] by (simp add: lists_def dll_def)
  then show ?thesis
    using assms(2) by (auto simp: next_unlink split: if_splits)
qed

end

end
