(* ===== verification/PPPoE_Packet.thy ===== *)
theory PPPoE_Packet
  imports Gateway_Prelude
begin

unbundle bit_operations_syntax

text \<open>
  The PPPoE packet (rp-pppoe, \<^verbatim>\<open>pppoe.h\<close>, \<^verbatim>\<open>common.c\<close>, the packet editing functions of
  \<^verbatim>\<open>relay.c\<close> and the raw socket functions of \<^verbatim>\<open>if.c\<close>): the structure with its in-memory
  byte image, the tag walkers \<^verbatim>\<open>parsePacket\<close> and \<^verbatim>\<open>findTag\<close>, and \<^verbatim>\<open>insertBytes\<close>,
  \<^verbatim>\<open>removeBytes\<close> and \<^verbatim>\<open>addTag\<close>. The 16-bit fields hold the value in memory, that is in
  network byte order, as the C structure does.
\<close>

section \<open>Constants of pppoe.h\<close>

definition ETH_ALEN :: nat where [simp]: "ETH_ALEN = 6"
definition ETH_DATA_LEN :: nat where [simp]: "ETH_DATA_LEN = 1500"
definition PPPOE_OVERHEAD :: nat where [simp]: "PPPOE_OVERHEAD = 6"
definition HDR_SIZE :: nat where [simp]: "HDR_SIZE = 20"
definition MAX_PPPOE_PAYLOAD :: nat where [simp]: "MAX_PPPOE_PAYLOAD = 1494"
definition TAG_HDR_SIZE :: nat where [simp]: "TAG_HDR_SIZE = 4"
definition SIZEOF_PACKET :: nat where [simp]: "SIZEOF_PACKET = 1520"
definition SIZEOF_TAG :: nat where [simp]: "SIZEOF_TAG = 1504"

definition ETH_PPPOE_DISCOVERY :: u16 where [simp]: "ETH_PPPOE_DISCOVERY = 0x8863"
definition ETH_PPPOE_SESSION :: u16 where [simp]: "ETH_PPPOE_SESSION = 0x8864"

definition CODE_PADI :: byte where [simp]: "CODE_PADI = 0x09"
definition CODE_PADO :: byte where [simp]: "CODE_PADO = 0x07"
definition CODE_PADR :: byte where [simp]: "CODE_PADR = 0x19"
definition CODE_PADS :: byte where [simp]: "CODE_PADS = 0x65"
definition CODE_PADT :: byte where [simp]: "CODE_PADT = 0xA7"
definition CODE_SESS :: byte where [simp]: "CODE_SESS = 0x00"

definition TAG_END_OF_LIST :: u16 where [simp]: "TAG_END_OF_LIST = 0x0000"
definition TAG_SERVICE_NAME :: u16 where [simp]: "TAG_SERVICE_NAME = 0x0101"
definition TAG_AC_NAME :: u16 where [simp]: "TAG_AC_NAME = 0x0102"
definition TAG_HOST_UNIQ :: u16 where [simp]: "TAG_HOST_UNIQ = 0x0103"
definition TAG_AC_COOKIE :: u16 where [simp]: "TAG_AC_COOKIE = 0x0104"
definition TAG_RELAY_SESSION_ID :: u16 where [simp]: "TAG_RELAY_SESSION_ID = 0x0110"
definition TAG_SERVICE_NAME_ERROR :: u16 where [simp]: "TAG_SERVICE_NAME_ERROR = 0x0201"
definition TAG_AC_SYSTEM_ERROR :: u16 where [simp]: "TAG_AC_SYSTEM_ERROR = 0x0202"
definition TAG_GENERIC_ERROR :: u16 where [simp]: "TAG_GENERIC_ERROR = 0x0203"

section \<open>The packet and the tag structures\<close>

text \<open>
  The bit fields \<^verbatim>\<open>ver\<close> and \<^verbatim>\<open>type\<close> share one byte, \<^verbatim>\<open>ver\<close> in the low nibble.
\<close>

record PPPoEPacket =
  h_dest :: "byte list"
  h_source :: "byte list"
  h_proto :: u16
  pver :: "4 word"
  ptype :: "4 word"
  code :: byte
  session :: u16
  plength :: u16
  payload :: "byte list"

record PPPoETag =
  ttype :: u16
  tlength :: u16
  tpayload :: "byte list"

definition wf_packet :: "PPPoEPacket \<Rightarrow> bool" where
  "wf_packet p \<longleftrightarrow> length (h_dest p) = ETH_ALEN \<and> length (h_source p) = ETH_ALEN \<and>
     length (payload p) = ETH_DATA_LEN"

definition wf_tag :: "PPPoETag \<Rightarrow> bool" where
  "wf_tag t \<longleftrightarrow> length (tpayload t) = ETH_DATA_LEN"

definition nibbles :: "4 word \<Rightarrow> 4 word \<Rightarrow> byte" where
  "nibbles v t = ucast v OR push_bit 4 (ucast t)"

definition packet_bytes :: "PPPoEPacket \<Rightarrow> byte list" where
  "packet_bytes p = h_dest p @ h_source p @ le16 (h_proto p) @ [nibbles (pver p) (ptype p), code p] @
     le16 (session p) @ le16 (plength p) @ payload p"

definition load_packet :: "byte list \<Rightarrow> PPPoEPacket" where
  "load_packet bs =
     \<lparr>h_dest = take 6 bs, h_source = take 6 (drop 6 bs),
      h_proto = load16 (bs ! 12) (bs ! 13),
      pver = ucast (bs ! 14), ptype = ucast (drop_bit 4 (bs ! 14)),
      code = bs ! 15, session = load16 (bs ! 16) (bs ! 17),
      plength = load16 (bs ! 18) (bs ! 19), payload = drop 20 bs\<rparr>"

definition tag_bytes :: "PPPoETag \<Rightarrow> byte list" where
  "tag_bytes t = le16 (ttype t) @ le16 (tlength t) @ tpayload t"

text \<open>\<^verbatim>\<open>ntohs(packet->length)\<close> and \<^verbatim>\<open>ntohs(tag.length)\<close> as numbers, and the payload they cover.\<close>

definition pkt_len :: "PPPoEPacket \<Rightarrow> nat" where
  "pkt_len p = unat (ntohs (plength p))"

definition tag_len :: "PPPoETag \<Rightarrow> nat" where
  "tag_len t = unat (ntohs (tlength t))"

definition pkt_data :: "PPPoEPacket \<Rightarrow> byte list" where
  "pkt_data p = take (pkt_len p) (payload p)"

text \<open>\<^verbatim>\<open>NOT_UNICAST\<close> and \<^verbatim>\<open>NOT_BROADCAST\<close> of pppoe.h.\<close>

definition NOT_UNICAST :: "byte list \<Rightarrow> bool" where
  "NOT_UNICAST e \<longleftrightarrow> (e ! 0) AND 0x01 \<noteq> 0"

definition NOT_BROADCAST :: "byte list \<Rightarrow> bool" where
  "NOT_BROADCAST e \<longleftrightarrow>
     (e ! 0) AND (e ! 1) AND (e ! 2) AND (e ! 3) AND (e ! 4) AND (e ! 5) \<noteq> 0xFF"

section \<open>Sending and receiving\<close>

text \<open>
  A frame handed to a raw socket. \<^verbatim>\<open>sendPacket\<close> writes \<^verbatim>\<open>size\<close> bytes from the structure, and
  reads past it when \<^verbatim>\<open>size\<close> exceeds its size. \<^verbatim>\<open>receivePacket\<close> overwrites the front of the
  structure with at most \<^verbatim>\<open>sizeof(PPPoEPacket)\<close> bytes of the frame.
\<close>

datatype frame = Sent (out_sock: int) (out_bytes: "byte list")

definition sendPacket :: "int \<Rightarrow> PPPoEPacket \<Rightarrow> int \<Rightarrow> frame option" where
  "sendPacket sock pkt sz =
     (if 0 \<le> sz \<and> sz \<le> int SIZEOF_PACKET
      then Some (Sent sock (take (nat sz) (packet_bytes pkt))) else None)"

definition receivePacket :: "PPPoEPacket \<Rightarrow> byte list \<Rightarrow> PPPoEPacket \<times> int" where
  "receivePacket pkt frm =
     (let n = min (length frm) SIZEOF_PACKET
      in (load_packet (take n frm @ drop n (packet_bytes pkt)), int n))"

definition etherType :: "PPPoEPacket \<Rightarrow> u16" where
  "etherType p = ntohs (h_proto p)"

section \<open>The tag walkers\<close>

text \<open>
  \<^verbatim>\<open>parsePacket\<close> calls \<^verbatim>\<open>func\<close> for each tag. The callback gets the type, the length and the
  data of the tag and the value behind \<^verbatim>\<open>extra\<close>; it may end the process (\<^verbatim>\<open>Inl\<close>). The
  result is \<^verbatim>\<open>None\<close> for a read outside the payload array, otherwise the exit or the return
  code with the value behind \<^verbatim>\<open>extra\<close>.
\<close>

type_synonym ('x, 'e) ParseFunc = "u16 \<Rightarrow> u16 \<Rightarrow> byte list \<Rightarrow> 'e \<Rightarrow> 'x + 'e"

function parsePacket_loop ::
  "byte list \<Rightarrow> nat \<Rightarrow> nat \<Rightarrow> ('x, 'e) ParseFunc \<Rightarrow> 'e \<Rightarrow> ('x + int \<times> 'e) option" where
  "parsePacket_loop pl len off func extra =
     (if off < len then
        (if off + 3 < length pl then
           (let tagType = be16 (pl ! off) (pl ! (off + 1));
                tagLen = be16 (pl ! (off + 2)) (pl ! (off + 3))
            in if tagType = TAG_END_OF_LIST then Some (Inr (0, extra))
               else if off + unat tagLen + TAG_HDR_SIZE > len then Some (Inr (-1, extra))
               else if off + TAG_HDR_SIZE + unat tagLen > length pl then None
               else (case func tagType tagLen (bslice pl (off + TAG_HDR_SIZE) (unat tagLen)) extra of
                       Inl x \<Rightarrow> Some (Inl x)
                     | Inr extra' \<Rightarrow>
                         parsePacket_loop pl len (off + TAG_HDR_SIZE + unat tagLen) func extra'))
         else None)
      else Some (Inr (0, extra)))"
  by pat_completeness auto
termination
  by (relation "measure (\<lambda>(pl, len, off, func, extra). len - off)") auto

declare parsePacket_loop.simps [simp del]

definition parsePacket ::
  "PPPoEPacket \<Rightarrow> ('x, 'e) ParseFunc \<Rightarrow> 'e \<Rightarrow> ('x + int \<times> 'e) option" where
  "parsePacket packet func extra =
     (if pver packet \<noteq> 1 then Some (Inr (-1, extra))
      else if ptype packet \<noteq> 1 then Some (Inr (-1, extra))
      else if pkt_len packet > ETH_DATA_LEN - 6 then Some (Inr (-1, extra))
      else parsePacket_loop (payload packet) (pkt_len packet) 0 func extra)"

text \<open>
  \<^verbatim>\<open>findTag\<close> copies the first tag of the wanted type into \<^verbatim>\<open>tag\<close> and returns its place, here
  its offset in the payload; \<^verbatim>\<open>tag\<close> keeps its old bytes after the copied ones.
\<close>

definition copy_tag :: "byte list \<Rightarrow> nat \<Rightarrow> nat \<Rightarrow> PPPoETag \<Rightarrow> PPPoETag" where
  "copy_tag pl off n tag =
     \<lparr>ttype = load16 (pl ! off) (pl ! (off + 1)),
      tlength = load16 (pl ! (off + 2)) (pl ! (off + 3)),
      tpayload = bslice pl (off + TAG_HDR_SIZE) n @ drop n (tpayload tag)\<rparr>"

function findTag_loop ::
  "byte list \<Rightarrow> nat \<Rightarrow> nat \<Rightarrow> u16 \<Rightarrow> PPPoETag \<Rightarrow> (nat \<times> PPPoETag) option option" where
  "findTag_loop pl len off type tag =
     (if off < len then
        (if off + 3 < length pl then
           (let tagType = be16 (pl ! off) (pl ! (off + 1));
                tagLen = be16 (pl ! (off + 2)) (pl ! (off + 3))
            in if tagType = TAG_END_OF_LIST then Some None
               else if off + unat tagLen + TAG_HDR_SIZE > len then Some None
               else if tagType = type then
                 (if unat tagLen + TAG_HDR_SIZE \<le> SIZEOF_TAG \<and> off + TAG_HDR_SIZE + unat tagLen \<le> length pl
                  then Some (Some (off, copy_tag pl off (unat tagLen) tag)) else None)
               else findTag_loop pl len (off + TAG_HDR_SIZE + unat tagLen) type tag)
         else None)
      else Some None)"
  by pat_completeness auto
termination
  by (relation "measure (\<lambda>(pl, len, off, type, tag). len - off)") auto

declare findTag_loop.simps [simp del]

definition findTag :: "PPPoEPacket \<Rightarrow> u16 \<Rightarrow> PPPoETag \<Rightarrow> (nat \<times> PPPoETag) option option" where
  "findTag packet type tag =
     (if pver packet \<noteq> 1 then Some None
      else if ptype packet \<noteq> 1 then Some None
      else if pkt_len packet > ETH_DATA_LEN - 6 then Some None
      else findTag_loop (payload packet) (pkt_len packet) 0 type tag)"

section \<open>Editing a packet\<close>

text \<open>
  The place is an offset into the payload. \<^verbatim>\<open>insertBytes\<close> and \<^verbatim>\<open>removeBytes\<close> return \<^verbatim>\<open>-1\<close> and
  leave the packet alone when the request does not fit; \<^verbatim>\<open>None\<close> is a move or a copy outside
  the payload array.
\<close>

definition insertBytes ::
  "PPPoEPacket \<Rightarrow> int \<Rightarrow> byte list \<Rightarrow> int \<Rightarrow> (int \<times> PPPoEPacket) option" where
  "insertBytes packet loc bytes len =
     (let plen = int (pkt_len packet)
      in if loc < 0 \<or> loc > plen \<or> len + plen > int MAX_PPPOE_PAYLOAD then Some (-1, packet)
         else if len < 0 \<or> int (length bytes) < len then None
         else do {
           tail \<leftarrow> mem_read (payload packet) (nat loc) (nat (plen - loc));
           moved \<leftarrow> memcpy_at (payload packet) (nat (loc + len)) tail;
           filled \<leftarrow> memcpy_at moved (nat loc) (take (nat len) bytes);
           Some (len, packet\<lparr>payload := filled, plength := htons (word_of_int (plen + len))\<rparr>)
         })"

definition removeBytes ::
  "PPPoEPacket \<Rightarrow> int \<Rightarrow> int \<Rightarrow> (int \<times> PPPoEPacket) option" where
  "removeBytes packet loc len =
     (let plen = int (pkt_len packet)
      in if len < 0 \<or> len > plen \<or> loc < 0 \<or> loc + len > plen then Some (-1, packet)
         else do {
           tail \<leftarrow> mem_read (payload packet) (nat (loc + len)) (nat (plen - loc - len));
           moved \<leftarrow> memcpy_at (payload packet) (nat loc) tail;
           Some (len, packet\<lparr>payload := moved, plength := htons (word_of_int (plen - len))\<rparr>)
         })"

definition addTag :: "PPPoEPacket \<Rightarrow> PPPoETag \<Rightarrow> (int \<times> PPPoEPacket) option" where
  "addTag packet tag =
     insertBytes packet 0 (tag_bytes tag) (int (tag_len tag + TAG_HDR_SIZE))"

section \<open>What the tag walkers compute\<close>

text \<open>
  The reference: the tags of a payload with their offsets, and the code \<^verbatim>\<open>parsePacket\<close> returns
  after them; a callback run over a list of tags; the encoding of a tag in a packet.
\<close>

function scan_tags :: "byte list \<Rightarrow> nat \<Rightarrow> nat \<Rightarrow> int \<times> (nat \<times> u16 \<times> byte list) list" where
  "scan_tags pl len off =
     (if off < len then
        (let t = be16 (pl ! off) (pl ! (off + 1)); l = unat (be16 (pl ! (off + 2)) (pl ! (off + 3)))
         in if t = 0 then (0, [])
            else if off + l + 4 > len then (-1, [])
            else (let (rc, ts) = scan_tags pl len (off + 4 + l)
                  in (rc, (off, t, bslice pl (off + 4) l) # ts)))
      else (0, []))"
  by pat_completeness auto
termination
  by (relation "measure (\<lambda>(pl, len, off). len - off)") auto

declare scan_tags.simps [simp del]

fun walk :: "('x, 'e) ParseFunc \<Rightarrow> 'e \<Rightarrow> (nat \<times> u16 \<times> byte list) list \<Rightarrow> 'x + 'e" where
  "walk f e [] = Inr e"
| "walk f e ((off, t, d) # ts) =
     (case f t (of_nat (length d)) d e of Inl x \<Rightarrow> Inl x | Inr e' \<Rightarrow> walk f e' ts)"

definition packet_tags :: "PPPoEPacket \<Rightarrow> int \<times> (nat \<times> u16 \<times> byte list) list" where
  "packet_tags p =
     (if pver p = 1 \<and> ptype p = 1 \<and> pkt_len p \<le> 1494
      then scan_tags (payload p) (pkt_len p) 0 else (-1, []))"

definition be_bytes :: "u16 \<Rightarrow> byte list" where
  "be_bytes w = [hi8 w, lo8 w]"

definition encode_tag :: "u16 \<times> byte list \<Rightarrow> byte list" where
  "encode_tag td = be_bytes (fst td) @ be_bytes (of_nat (length (snd td))) @ snd td"

definition encode_tags :: "(u16 \<times> byte list) list \<Rightarrow> byte list" where
  "encode_tags ts = concat (map encode_tag ts)"

text \<open>A PADI packet with an empty service name tag and a host-unique tag, for the witnesses.\<close>

definition sample_padi :: PPPoEPacket where
  "sample_padi =
     \<lparr>h_dest = replicate 6 0xFF, h_source = [2, 0, 0, 0, 0, 1], h_proto = htons 0x8863,
      pver = 1, ptype = 1, code = CODE_PADI, session = 0, plength = htons 12,
      payload = [1, 1, 0, 0, 1, 3, 0, 4, 7, 0, 0, 0] @ replicate 1488 0\<rparr>"

definition sample_tag :: PPPoETag where
  "sample_tag = \<lparr>ttype = 0, tlength = 0, tpayload = replicate 1500 0\<rparr>"

section \<open>Lemmas\<close>

lemma be16_be_bytes [simp]: "be16 (hi8 w) (lo8 w) = w"
  by (rule bit_word_eqI) (auto simp: be16_load16 load16_def htons_def lo8_def hi8_def bit_simps)

lemma parsePacket_loop_walk:
  assumes "len + 3 \<le> length pl"
  shows "parsePacket_loop pl len off f e =
    Some (case walk f e (snd (scan_tags pl len off)) of
            Inl x \<Rightarrow> Inl x | Inr e' \<Rightarrow> Inr (fst (scan_tags pl len off), e'))"
  using assms
proof (induction pl len off f e rule: parsePacket_loop.induct)
  case (1 pl len off f e)
  define t l where "t = be16 (pl ! off) (pl ! (off + 1))"
    and "l = be16 (pl ! (off + 2)) (pl ! (off + 3))"
  show ?case
  proof (cases "off < len \<and> t \<noteq> 0 \<and> off + unat l + 4 \<le> len")
    case True
    have IH: "f t l (bslice pl (off + 4) (unat l)) e = Inr e' \<Longrightarrow>
        parsePacket_loop pl len (off + 4 + unat l) f e' =
        Some (case walk f e' (snd (scan_tags pl len (off + 4 + unat l))) of
            Inl x \<Rightarrow> Inl x | Inr e' \<Rightarrow> Inr (fst (scan_tags pl len (off + 4 + unat l)), e'))" for e'
      by (rule 1(1) [unfolded TAG_HDR_SIZE_def TAG_END_OF_LIST_def, OF _ _ t_def l_def])
        (use 1(2) True in auto)
    have len: "length (bslice pl (off + 4) (unat l)) = unat l"
      using True 1(2) by (simp add: length_bslice)
    have step: "parsePacket_loop pl len off f e =
        (case f t l (bslice pl (off + 4) (unat l)) e of Inl x \<Rightarrow> Some (Inl x)
         | Inr e' \<Rightarrow> parsePacket_loop pl len (off + 4 + unat l) f e')"
      by (subst parsePacket_loop.simps) (use True 1(2) in \<open>simp add: Let_def t_def l_def split: sum.split\<close>)
    have scan: "scan_tags pl len off =
        (fst (scan_tags pl len (off + 4 + unat l)),
         (off, t, bslice pl (off + 4) (unat l)) # snd (scan_tags pl len (off + 4 + unat l)))"
      by (subst scan_tags.simps) (use True in \<open>simp add: Let_def t_def l_def split: prod.splits\<close>)
    show ?thesis
      unfolding step scan by (simp add: len IH split: sum.split)
  next
    case False
    then show ?thesis
      using 1(2) by (auto simp: parsePacket_loop.simps [of pl len off] scan_tags.simps [of pl len off]
          Let_def t_def l_def)
  qed
qed

lemma scan_tags_sound:
  assumes "len \<le> length pl" and "(off, t, d) \<in> set (snd (scan_tags pl len off0))"
  shows "off0 \<le> off \<and> off + 4 + length d \<le> len \<and> d = bslice pl (off + 4) (length d) \<and>
    t = be16 (pl ! off) (pl ! (off + 1)) \<and> t \<noteq> 0 \<and>
    of_nat (length d) = be16 (pl ! (off + 2)) (pl ! (off + 3))"
  using assms
proof (induction pl len off0 rule: scan_tags.induct)
  case (1 pl len off1)
  show ?case
  proof (cases "(off, t, d) \<in> set (snd (scan_tags pl len (off1 + 4 + unat (be16 (pl ! (off1 + 2)) (pl ! (off1 + 3))))))")
    case True
    show ?thesis using 1(1)[OF _ refl refl _ _ 1(2) True] 1(3)
      by (auto simp: scan_tags.simps [of pl len off1] Let_def split: if_splits prod.splits)
  next
    case False
    with 1(2,3) show ?thesis
      by (auto simp: scan_tags.simps [of pl len off1] Let_def length_bslice split: if_splits prod.splits)
  qed
qed

lemma findTag_loop_find:
  assumes "len + 3 \<le> length pl" and "len \<le> 1500"
  shows "findTag_loop pl len off type tag =
    Some (case find (\<lambda>(o', t, d). t = type) (snd (scan_tags pl len off)) of
            None \<Rightarrow> None
          | Some (o', t, d) \<Rightarrow> Some (o', copy_tag pl o' (length d) tag))"
  using assms
proof (induction pl len off type tag rule: findTag_loop.induct)
  case (1 pl len off type tag)
  then show ?case
    by (auto simp: findTag_loop.simps [of pl len off] scan_tags.simps [of pl len off] Let_def
        length_bslice split: prod.splits)
qed

lemma scan_tags_encode:
  assumes "\<forall>(t, d) \<in> set ts. t \<noteq> 0 \<and> length d < 65536"
  shows "map snd (snd (scan_tags (pre @ encode_tags ts @ post) (length pre + length (encode_tags ts)) (length pre))) = ts
       \<and> fst (scan_tags (pre @ encode_tags ts @ post) (length pre + length (encode_tags ts)) (length pre)) = 0"
  using assms
proof (induction ts arbitrary: pre)
  case Nil
  then show ?case by (simp add: encode_tags_def scan_tags.simps)
next
  case (Cons td ts)
  obtain t d where td: "td = (t, d)" by force
  have l: "unat (of_nat (length d) :: u16) = length d" and t: "t \<noteq> 0"
    using Cons.prems by (auto simp: td unat_of_nat_u16)
  let ?pl = "pre @ encode_tags (td # ts) @ post"
  let ?len = "length pre + length (encode_tags (td # ts))"
  have pl: "?pl = (pre @ encode_tag td) @ encode_tags ts @ post"
    by (simp add: encode_tags_def)
  have len: "?len = length (pre @ encode_tag td) + length (encode_tags ts)"
    by (simp add: encode_tags_def)
  have pos: "length (pre @ encode_tag td) = length pre + 4 + length d"
    by (simp add: td encode_tag_def be_bytes_def)
  have "\<forall>(t, d) \<in> set ts. t \<noteq> 0 \<and> length d < 65536"
    using Cons.prems by simp
  then have IH: "map snd (snd (scan_tags ?pl ?len (length pre + 4 + length d))) = ts
       \<and> fst (scan_tags ?pl ?len (length pre + 4 + length d)) = 0"
    unfolding pl len pos [symmetric] by (rule Cons.IH)
  have n: "?pl ! length pre = hi8 t" "?pl ! (length pre + 1) = lo8 t"
    "?pl ! (length pre + 2) = hi8 (of_nat (length d))" "?pl ! (length pre + 3) = lo8 (of_nat (length d))"
    unfolding nth_append_length_plus by (simp_all add: encode_tags_def encode_tag_def td be_bytes_def nth_append)
  have d: "bslice ?pl (length pre + 4) (length d) = d"
    by (simp add: bslice_def encode_tags_def encode_tag_def td be_bytes_def)
  have len2: "length pre + length d + 4 \<le> ?len" "length pre < ?len"
    by (simp_all add: encode_tags_def encode_tag_def td be_bytes_def)
  show ?case
    apply (subst scan_tags.simps [of ?pl ?len "length pre"]) apply (subst scan_tags.simps [of ?pl ?len "length pre"])
    unfolding n be16_be_bytes l using t len2 IH d
    by (simp add: Let_def td case_prod_unfold)
qed

lemma nibbles_ver [simp]: "ucast (nibbles v t) = v"
  by (rule bit_word_eqI) (auto simp: nibbles_def bit_simps)

lemma bit_nibbleD: "bit (v :: 4 word) n \<Longrightarrow> n < 4"
  using bit_imp_le_length [of v n] by simp

lemma nibbles_type [simp]: "ucast (drop_bit 4 (nibbles v t)) = t"
  by (rule bit_word_eqI) (auto simp: nibbles_def bit_simps dest: bit_nibbleD)

lemma length_packet_bytes [buffer_simps]: "wf_packet p \<Longrightarrow> length (packet_bytes p) = 1520"
  by (simp add: packet_bytes_def wf_packet_def)

lemma list_of_6: "length xs = 6 \<Longrightarrow> xs = [xs ! 0, xs ! 1, xs ! 2, xs ! 3, xs ! 4, xs ! 5]"
  by (rule nth_equalityI) (auto simp: less_Suc_eq numeral_eq_Suc)

lemma pkt_len_less [simp]: "pkt_len p < 65536"
  by (simp add: pkt_len_def)

lemma tag_len_less [simp]: "tag_len t < 65536"
  by (simp add: tag_len_def)

lemma pkt_len_upd [simp]:
  "n < 65536 \<Longrightarrow> pkt_len (p\<lparr>plength := htons (of_nat n)\<rparr>) = n"
  "pkt_len (p\<lparr>payload := pl\<rparr>) = pkt_len p"
  "pkt_len (p\<lparr>session := se\<rparr>) = pkt_len p"
  "pkt_len (p\<lparr>h_source := m\<rparr>) = pkt_len p"
  "pkt_len (p\<lparr>h_dest := m\<rparr>) = pkt_len p"
  by (simp_all add: pkt_len_def unat_of_nat_u16)

lemma length_pkt_data: "wf_packet p \<Longrightarrow> pkt_len p \<le> 1500 \<Longrightarrow> length (pkt_data p) = pkt_len p"
  by (simp add: pkt_data_def wf_packet_def)

lemma unat_word_of_int_u16: "0 \<le> i \<Longrightarrow> i < 65536 \<Longrightarrow> unat (word_of_int i :: u16) = nat i"
  by (simp add: unsigned_of_int take_bit_eq_mod)

lemma insertBytes_reject:
  "loc > pkt_len p \<or> len + pkt_len p > 1494 \<Longrightarrow> insertBytes p (int loc) bytes (int len) = Some (-1, p)"
  by (auto simp: insertBytes_def Let_def)

lemma pkt_len_inj: "pkt_len p = pkt_len q \<longleftrightarrow> plength p = plength q"
  by (metis htons_eq_iff pkt_len_def unsigned_word_eqI)

lemma insertBytes_accept:
  assumes wf: "wf_packet p" and loc: "loc \<le> pkt_len p" and room: "len + pkt_len p \<le> 1494"
    and len: "len \<le> length bytes"
  obtains p' where "insertBytes p (int loc) bytes (int len) = Some (int len, p')"
    and "wf_packet p'" and "pkt_len p' = pkt_len p + len"
    and "pkt_data p' = take loc (pkt_data p) @ take len bytes @ drop loc (pkt_data p)"
    and "p' = p\<lparr>payload := payload p', plength := plength p'\<rparr>"
proof -
  obtain k where k: "pkt_len p = loc + k" using loc le_Suc_ex by blast
  have l: "length (payload p) = 1500" using wf by (simp add: wf_packet_def)
  let ?m = "take (loc + len) (payload p) @ bslice (payload p) loc k @
      drop (len + pkt_len p) (payload p)"
  let ?pl = "take loc (payload p) @ take len bytes @ drop (loc + len) ?m"
  define p' where "p' = p\<lparr>payload := ?pl, plength := htons (of_nat (pkt_len p + len))\<rparr>"
  have m: "memcpy_at (payload p) (loc + len) (bslice (payload p) loc k) = Some ?m"
    using l k room by (simp add: memcpy_at_def length_bslice ac_simps)
  have f: "memcpy_at ?m loc (take len bytes) = Some ?pl"
    using l k room len by (simp add: memcpy_at_def length_bslice min_def)
  have t: "mem_read (payload p) loc k = Some (bslice (payload p) loc k)"
    using l k room by (simp add: mem_read_def)
  show thesis
  proof (rule that [of p'])
    have nl: "nat (int loc + int len) = loc + len" "nat (int (pkt_len p) - int loc) = k"
      using k by simp_all
    have w: "(word_of_int (int (pkt_len p) + int len) :: u16) = of_nat (pkt_len p + len)"
      by simp
    show "insertBytes p (int loc) bytes (int len) = Some (int len, p')"
      unfolding insertBytes_def Let_def nl w using t m f loc room len by (simp add: p'_def)
    show "wf_packet p'"
      using wf k room len by (simp add: wf_packet_def length_bslice p'_def)
    show plen: "pkt_len p' = pkt_len p + len"
      using room by (simp add: p'_def del: of_nat_add)
    show "pkt_data p' = take loc (pkt_data p) @ take len bytes @ drop loc (pkt_data p)"
      unfolding pkt_data_def [of p'] plen
      using l room len by (simp add: p'_def pkt_data_def bslice_def length_bslice k drop_take)
    show "p' = p\<lparr>payload := payload p', plength := plength p'\<rparr>"
      by (simp add: p'_def)
  qed
qed

lemma removeBytes_accept:
  assumes wf: "wf_packet p" and fits: "loc + len \<le> pkt_len p" and small: "pkt_len p \<le> 1500"
  obtains p' where "removeBytes p (int loc) (int len) = Some (int len, p')"
    and "wf_packet p'" and "pkt_len p' = pkt_len p - len"
    and "pkt_data p' = take loc (pkt_data p) @ drop (loc + len) (pkt_data p)"
    and "p' = p\<lparr>payload := payload p', plength := plength p'\<rparr>"
proof -
  obtain k where k: "pkt_len p = loc + len + k" using fits le_Suc_ex by blast
  have l: "length (payload p) = 1500" using wf by (simp add: wf_packet_def)
  let ?pl = "take loc (payload p) @ bslice (payload p) (loc + len) k @ drop (loc + k) (payload p)"
  define p' where "p' = p\<lparr>payload := ?pl, plength := htons (of_nat (pkt_len p - len))\<rparr>"
  have m: "memcpy_at (payload p) loc (bslice (payload p) (loc + len) k) = Some ?pl"
    using l k small by (simp add: memcpy_at_def length_bslice)
  have t: "mem_read (payload p) (loc + len) k = Some (bslice (payload p) (loc + len) k)"
    using l k small by (simp add: mem_read_def)
  show thesis
  proof (rule that [of p'])
    have nl: "nat (int loc + int len) = loc + len"
        "nat (int (pkt_len p) - int loc - int len) = k"
      using k by linarith+
    have w: "(word_of_int (int (pkt_len p) - int len) :: u16) = of_nat (pkt_len p - len)"
      by (simp add: k)
    show "removeBytes p (int loc) (int len) = Some (int len, p')"
      unfolding removeBytes_def Let_def nl w using t m fits by (simp add: p'_def)
    show "wf_packet p'"
      using wf k small by (simp add: wf_packet_def length_bslice p'_def)
    show plen: "pkt_len p' = pkt_len p - len"
      using small by (simp add: p'_def)
    show "pkt_data p' = take loc (pkt_data p) @ drop (loc + len) (pkt_data p)"
      unfolding pkt_data_def [of p'] plen
      using l small by (simp add: p'_def pkt_data_def bslice_def length_bslice k drop_take ac_simps)
    show "p' = p\<lparr>payload := payload p', plength := plength p'\<rparr>"
      by (simp add: p'_def)
  qed
qed

lemma wf_sample_padi [simp]: "wf_packet sample_padi"
  by (simp add: sample_padi_def wf_packet_def)

lemma pkt_len_sample_padi [simp]: "pkt_len sample_padi = 12"
  by (simp add: sample_padi_def pkt_len_def)

lemma sample_padi_tags [simp]:
  "packet_tags sample_padi = (0, [(0, 0x0101, []), (4, 0x0103, [7, 0, 0, 0])])"
  by code_simp

lemma receivePacket_wf:
  assumes "wf_packet pkt" and "receivePacket pkt frm = (p, sz)"
  shows "wf_packet p" and "0 \<le> sz" and "sz \<le> 1520" and "sz \<le> int (length frm)"
  using assms length_packet_bytes [OF assms(1)]
  by (auto simp: receivePacket_def Let_def load_packet_def wf_packet_def min_def split: if_splits)

lemma sendPacket_some [simp]:
  "0 \<le> sz \<Longrightarrow> sz \<le> 1520 \<Longrightarrow> sendPacket sock p sz = Some (Sent sock (take (nat sz) (packet_bytes p)))"
  by (simp add: sendPacket_def)

section \<open>Frames\<close>

text \<open>The 20 bytes in front of the payload, and the frame of a packet without padding.\<close>

definition hdr_bytes :: "PPPoEPacket \<Rightarrow> byte list" where
  "hdr_bytes p = h_dest p @ h_source p @ le16 (h_proto p) @ [nibbles (pver p) (ptype p), code p] @
     le16 (session p) @ le16 (plength p)"

lemma packet_bytes_hdr: "packet_bytes p = hdr_bytes p @ payload p"
  by (simp add: packet_bytes_def hdr_bytes_def)

lemma length_hdr_bytes: "wf_packet p \<Longrightarrow> length (hdr_bytes p) = 20"
  by (simp add: hdr_bytes_def wf_packet_def)

lemma take_packet_bytes:
  "wf_packet p \<Longrightarrow> take (pkt_len p + 20) (packet_bytes p) = hdr_bytes p @ pkt_data p"
  by (simp add: packet_bytes_hdr length_hdr_bytes pkt_data_def)

lemma addTag_accept:
  assumes "wf_packet p" and "wf_tag t" and "tag_len t + 4 + pkt_len p \<le> 1494"
  obtains p' where "addTag p t = Some (int (tag_len t + 4), p')" and "wf_packet p'"
    and "pkt_len p' = pkt_len p + (tag_len t + 4)"
    and "pkt_data p' = take (tag_len t + 4) (tag_bytes t) @ pkt_data p"
    and "p' = p\<lparr>payload := payload p', plength := plength p'\<rparr>"
proof -
  have l: "tag_len t + 4 \<le> length (tag_bytes t)"
    using assms by (simp add: tag_bytes_def wf_tag_def)
  show thesis
    by (rule insertBytes_accept [OF assms(1), of 0 "tag_len t + 4" "tag_bytes t"])
      (use assms l that in \<open>auto simp: addTag_def\<close>)
qed

lemma addTag_reject:
  "tag_len t + 4 + pkt_len p > 1494 \<Longrightarrow> addTag p t = Some (-1, p)"
  using insertBytes_reject [where loc = 0 and p = p and len = "tag_len t + 4"] by (simp add: addTag_def)

text \<open>The bytes of a tag as they stand in a packet.\<close>

lemma le16_htons [simp]: "le16 (htons w) = be_bytes w"
  by (auto simp: le16_def be_bytes_def lo8_def hi8_def htons_def bit_eq_iff bit_simps)

lemma take_tag_bytes:
  assumes "ttype t = htons ty" and "tlength t = htons (of_nat (length d))" and "length d \<le> 1500"
    and "take (length d) (tpayload t) = d"
  shows "take (length d + 4) (tag_bytes t) = encode_tag (ty, d)" and "tag_len t = length d"
proof -
  have e: "length d + 4 = Suc (Suc (Suc (Suc (length d))))" by simp
  show "take (length d + 4) (tag_bytes t) = encode_tag (ty, d)"
    unfolding e using assms(1,2,4) by (simp add: tag_bytes_def encode_tag_def be_bytes_def)
  show "tag_len t = length d"
    using assms(2,3) by (simp add: tag_len_def unat_of_nat_u16)
qed


definition mk_header :: "byte list \<Rightarrow> byte list \<Rightarrow> u16 \<Rightarrow> byte \<Rightarrow> u16 \<Rightarrow> nat \<Rightarrow> byte list" where
  "mk_header dst src proto cd ses n = dst @ src @ be_bytes proto @ [0x11, cd] @ le16 ses @ be_bytes (of_nat n)"

lemma addTag_encode:
  assumes "wf_packet p" and "wf_tag t" and "length d + 4 + pkt_len p \<le> 1494"
    and "ttype t = htons ty" and "tlength t = htons (of_nat (length d))" and "take (length d) (tpayload t) = d"
  obtains p' where "addTag p t = Some (int (length d + 4), p')" and "wf_packet p'"
    and "pkt_len p' = pkt_len p + (length d + 4)" and "pkt_data p' = encode_tag (ty, d) @ pkt_data p"
    and "p' = p\<lparr>payload := payload p', plength := plength p'\<rparr>"
proof -
  have t: "take (length d + 4) (tag_bytes t) = encode_tag (ty, d)" "tag_len t = length d"
    using take_tag_bytes [OF assms(4,5) _ assms(6)] assms(3) by auto
  show thesis
    by (rule addTag_accept [OF assms(1,2)]) (use t assms(3) that in auto)
qed

lemma nibbles_11 [simp]: "nibbles 1 1 = 0x11"
  by (simp add: nibbles_def)

lemma plength_pkt_len: "plength p = htons (of_nat (pkt_len p))"
  by (simp add: pkt_len_def)

lemma length_encode_tag [simp]: "length (encode_tag (ty, d)) = length d + 4"
  by (simp add: encode_tag_def be_bytes_def)

lemma encode_tags_simps [simp]: "encode_tags [] = []" "encode_tags (t # ts) = encode_tag t @ encode_tags ts"
  by (simp_all add: encode_tags_def)

section \<open>Properties\<close>

lemma packet_tags_bound:
  assumes "wf_packet p" and "(off, t, d) \<in> set (snd (packet_tags p))"
  shows "off + 4 + length d \<le> pkt_len p \<and> pkt_len p \<le> 1494 \<and> t \<noteq> 0 \<and>
    d = bslice (payload p) (off + 4) (length d) \<and>
    t = be16 (payload p ! off) (payload p ! (off + 1)) \<and>
    of_nat (length d) = be16 (payload p ! (off + 2)) (payload p ! (off + 3))"
  using assms scan_tags_sound [of "pkt_len p" "payload p" off t d 0]
  by (auto simp: packet_tags_def wf_packet_def split: if_splits)

lemma findTag_some:
  assumes "wf_packet p"
  obtains r where "findTag p type tag = Some r"
    and "\<And>loc t. r = Some (loc, t) \<Longrightarrow> loc + 4 + tag_len t \<le> pkt_len p \<and> pkt_len p \<le> 1494 \<and>
       ntohs (ttype t) = type \<and> (loc, type, bslice (payload p) (loc + 4) (tag_len t)) \<in> set (snd (packet_tags p)) \<and>
       tpayload t = bslice (payload p) (loc + 4) (tag_len t) @ drop (tag_len t) (tpayload tag)"
    and "find (\<lambda>(off, t, d). t = type) (snd (packet_tags p)) =
       (case r of None \<Rightarrow> None | Some (loc, t) \<Rightarrow> Some (loc, type, bslice (payload p) (loc + 4) (tag_len t)))"
proof -
  let ?f = "find (\<lambda>(off, t, d). t = type) (snd (packet_tags p))"
  have e: "findTag p type tag = Some (case ?f of None \<Rightarrow> None
          | Some (off, t, d) \<Rightarrow> Some (off, copy_tag (payload p) off (length d) tag))"
    using assms by (auto simp: findTag_def packet_tags_def wf_packet_def findTag_loop_find)
  show thesis
  proof (cases ?f)
    case None
    then show thesis using that [OF e] by simp
  next
    case (Some x)
    obtain off t d where x: "x = (off, t, d)" by (cases x)
    have m: "(off, t, d) \<in> set (snd (packet_tags p))" and t: "t = type"
      using Some x by (auto simp: find_Some_iff in_set_conv_nth)
    note b = packet_tags_bound [OF assms m]
    have "unat (of_nat (length d) :: u16) = length d" using b by (intro unat_of_nat_u16) simp
    then have l: "tag_len (copy_tag (payload p) off (length d) tag) = length d"
      using b by (simp add: tag_len_def copy_tag_def be16_load16)
    show thesis
      by (rule that [OF e]) (use Some x b m t l in \<open>auto simp: copy_tag_def be16_load16\<close>)
  qed
qed

lemma parsePacket_walk:
  assumes "wf_packet p"
  shows "parsePacket p f e =
    Some (case walk f e (snd (packet_tags p)) of
            Inl x \<Rightarrow> Inl x | Inr e' \<Rightarrow> Inr (fst (packet_tags p), e'))"
  using assms by (auto simp: parsePacket_def packet_tags_def wf_packet_def parsePacket_loop_walk
      split: sum.split)

text \<open>An invariant of the callback on the tags of a packet holds after the walk.\<close>

lemma walk_inv:
  assumes "walk f e ts = Inr e'" and "I e"
    and "\<And>off t d e e'. (off, t, d) \<in> set ts \<Longrightarrow> I e \<Longrightarrow> f t (of_nat (length d)) d e = Inr e' \<Longrightarrow> I e'"
  shows "I e'"
  using assms
proof (induction f e ts rule: walk.induct)
  case (1 f e)
  then show ?case by simp
next
  case (2 f e off t d ts)
  then obtain e1 where 1: "f t (of_nat (length d)) d e = Inr e1" "walk f e1 ts = Inr e'"
    by (auto split: sum.splits)
  have "I e1" by (rule 2(4) [of off, OF _ 2(3) 1(1)]) simp
  then show ?case using 2(1) [OF 1(1,2)] 2(4) by (meson list.set_intros(2))
qed

lemma parsePacket_inv:
  assumes "wf_packet p" and "parsePacket p f e = Some (Inr (rc, e'))" and "I e"
    and "\<And>off t d e e'. (off, t, d) \<in> set (snd (packet_tags p)) \<Longrightarrow> length d \<le> 1490 \<Longrightarrow> I e \<Longrightarrow>
       f t (of_nat (length d)) d e = Inr e' \<Longrightarrow> I e'"
  shows "I e'"
proof -
  have w: "walk f e (snd (packet_tags p)) = Inr e'"
    using assms(1,2) by (auto simp: parsePacket_walk split: sum.splits)
  show ?thesis
  proof (rule walk_inv [where I = I, OF w assms(3)])
    fix off t d e e' assume t: "(off, t, d) \<in> set (snd (packet_tags p))" "I e" "f t (of_nat (length d)) d e = Inr e'"
    have "length d \<le> 1490" using packet_tags_bound [OF assms(1) t(1)] by simp
    then show "I e'" using assms(4) t by blast
  qed
qed

text \<open>
  C28. On a packet structure of the right shape \<^verbatim>\<open>parsePacket\<close> never reads outside the payload
  array, whatever the length fields say, and it calls the callback on exactly the tags of the
  reference scan, in order, stopping where the callback ends the process; a bad version, type
  or length, or a tag that runs past the packet, gives the return code -1.
\<close>

theorem parsePacket_correct:
  assumes "wf_packet p"
  shows "parsePacket p f e =
    Some (case walk f e (snd (packet_tags p)) of
            Inl x \<Rightarrow> Inl x | Inr e' \<Rightarrow> Inr (fst (packet_tags p), e'))"
  using assms by (rule parsePacket_walk)

theorem parsePacket_correct_witness:
  "wf_packet sample_padi \<and>
   parsePacket sample_padi (\<lambda>t l d ts. Inr (ts @ [t]) :: unit + u16 list) [] =
     Some (Inr (0, [0x0101, 0x0103]))"
  using parsePacket_correct [OF wf_sample_padi, of "\<lambda>t l d ts. Inr (ts @ [t]) :: unit + u16 list" "[]"]
  by simp

text \<open>
  \<^verbatim>\<open>findTag\<close> stays inside the packet and the tag structure and returns the first tag of the
  wanted type, at its offset and with its type, length and data copied, or nothing when the
  reference scan has no tag of that type.
\<close>

theorem findTag_correct:
  assumes "wf_packet p"
  shows "findTag p type tag =
    Some (case find (\<lambda>(off, t, d). t = type) (snd (packet_tags p)) of
            None \<Rightarrow> None
          | Some (off, t, d) \<Rightarrow> Some (off, copy_tag (payload p) off (length d) tag))"
  using assms by (auto simp: findTag_def packet_tags_def wf_packet_def findTag_loop_find)

theorem findTag_correct_witness:
  "wf_packet sample_padi \<and>
   findTag sample_padi TAG_HOST_UNIQ sample_tag =
     Some (case find (\<lambda>(off, t, d). t = TAG_HOST_UNIQ) (snd (packet_tags sample_padi)) of
             None \<Rightarrow> None
           | Some (off, t, d) \<Rightarrow> Some (off, copy_tag (payload sample_padi) off (length d) sample_tag)) \<and>
   find (\<lambda>(off, t, d). t = TAG_HOST_UNIQ) (snd (packet_tags sample_padi)) =
     Some (4, 0x0103, [7, 0, 0, 0])"
  using findTag_correct [OF wf_sample_padi, of TAG_HOST_UNIQ sample_tag]
  by simp

text \<open>
  Round trip: a packet that carries the encoding of a list of tags (types not zero,
  encoding of at most 1494 bytes) is scanned back to exactly that list, with code 0.
\<close>

theorem packet_tags_encode:
  assumes "pver p = 1" and "ptype p = 1" and "pkt_len p \<le> 1494"
    and "pkt_data p = encode_tags ts"
    and "wf_packet p" and "\<forall>(t, d) \<in> set ts. t \<noteq> 0"
  shows "fst (packet_tags p) = 0 \<and> map snd (snd (packet_tags p)) = ts"
proof -
  have len: "length (encode_tags ts) = pkt_len p"
    using assms length_pkt_data [of p] by simp
  have small: "length d < 65536" if "(t, d) \<in> set ts" for t d
  proof -
    have "length (encode_tag (t, d)) \<in> set (map (length \<circ> encode_tag) ts)" using that by force
    then have "length (encode_tag (t, d)) \<le> length (encode_tags ts)"
      unfolding encode_tags_def length_concat map_map by (rule member_le_sum_list) simp
    then show ?thesis using len assms(3) by simp
  qed
  have pl: "payload p = encode_tags ts @ drop (pkt_len p) (payload p)"
    using assms(4) by (metis append_take_drop_id pkt_data_def)
  have "\<forall>(t, d) \<in> set ts. t \<noteq> 0 \<and> length d < 65536"
    using small assms(6) by auto
  from scan_tags_encode [OF this, of "[]" "drop (pkt_len p) (payload p)"]
  have "map snd (snd (scan_tags (payload p) (pkt_len p) 0)) = ts \<and>
      fst (scan_tags (payload p) (pkt_len p) 0) = 0"
    using pl len by simp
  then show ?thesis using assms by (simp add: packet_tags_def)
qed

theorem packet_tags_encode_witness:
  "pkt_data sample_padi = encode_tags [(0x0101, []), (0x0103, [7, 0, 0, 0])] \<and>
   map snd (snd (packet_tags sample_padi)) = [(0x0101, []), (0x0103, [7, 0, 0, 0])]"
proof -
  have d: "pkt_data sample_padi = encode_tags [(0x0101, []), (0x0103, [7, 0, 0, 0])]"
    by (simp add: pkt_data_def) (simp add: sample_padi_def encode_tags_def encode_tag_def be_bytes_def
        hi8_def lo8_def)
  have v: "pver sample_padi = 1" "ptype sample_padi = 1" by (simp_all add: sample_padi_def)
  show ?thesis
    using packet_tags_encode [OF v _ d wf_sample_padi] d by simp
qed

lemma load_packet_image:
  assumes "wf_packet p"
  shows "load_packet (packet_bytes p) = p"
proof -
  obtain a0 a1 a2 a3 a4 a5 where d: "h_dest p = [a0, a1, a2, a3, a4, a5]"
    using assms list_of_6 unfolding wf_packet_def ETH_ALEN_def by metis
  obtain b0 b1 b2 b3 b4 b5 where s: "h_source p = [b0, b1, b2, b3, b4, b5]"
    using assms list_of_6 unfolding wf_packet_def ETH_ALEN_def by metis
  show ?thesis
    by (cases p) (use d s in \<open>simp add: load_packet_def packet_bytes_def le16_def\<close>)
qed

text \<open>
  Round trip: reading back the in-memory image of a packet gives the packet, so the bit
  fields and the byte order of the header are laid out consistently.
\<close>

theorem load_packet_bytes:
  assumes "wf_packet p"
  shows "load_packet (packet_bytes p) = p"
  by (rule load_packet_image [OF assms])

theorem load_packet_bytes_witness:
  "wf_packet sample_padi \<and> load_packet (packet_bytes sample_padi) = sample_padi"
  using load_packet_bytes [OF wf_sample_padi] by simp

text \<open>
  \<^verbatim>\<open>removeBytes\<close> undoes \<^verbatim>\<open>insertBytes\<close>: inserting bytes that fit anywhere in the payload
  and removing as many at the same place gives back the payload, its length and the header.
\<close>

theorem insert_remove:
  assumes wf: "wf_packet p" and loc: "loc \<le> pkt_len p" and room: "length bytes + pkt_len p \<le> 1494"
  shows "\<exists>p' p''. insertBytes p (int loc) bytes (int (length bytes)) = Some (int (length bytes), p') \<and>
     removeBytes p' (int loc) (int (length bytes)) = Some (int (length bytes), p'') \<and>
     pkt_data p'' = pkt_data p \<and> p'' = p\<lparr>payload := payload p''\<rparr>"
proof -
  let ?n = "length bytes"
  obtain p' where ins: "insertBytes p (int loc) bytes (int ?n) = Some (int ?n, p')"
    and wf': "wf_packet p'" and len: "pkt_len p' = pkt_len p + ?n"
    and d: "pkt_data p' = take loc (pkt_data p) @ bytes @ drop loc (pkt_data p)"
    and p': "p' = p\<lparr>payload := payload p', plength := plength p'\<rparr>"
    using insertBytes_accept [OF wf loc room order_refl] by (metis take_all order_refl)
  have "loc + ?n \<le> pkt_len p'" and "pkt_len p' \<le> 1500" using len loc room by simp_all
  then obtain p'' where rem: "removeBytes p' (int loc) (int ?n) = Some (int ?n, p'')"
    and len': "pkt_len p'' = pkt_len p' - ?n"
    and d': "pkt_data p'' = take loc (pkt_data p') @ drop (loc + ?n) (pkt_data p')"
    and p'': "p'' = p'\<lparr>payload := payload p'', plength := plength p''\<rparr>"
    using removeBytes_accept [OF wf'] by metis
  have "min (length (pkt_data p)) loc = loc"
    using wf loc room by (simp add: length_pkt_data)
  then have "pkt_data p'' = pkt_data p" using d d' by simp
  moreover have "plength p'' = plength p" using len len' pkt_len_inj [of p'' p] by simp
  moreover have "p'' = p\<lparr>payload := payload p''\<rparr>"
    by (subst p'', subst p') (simp add: \<open>plength p'' = plength p\<close>)
  ultimately show ?thesis using ins rem by blast
qed

theorem insert_remove_witness:
  "wf_packet sample_padi \<and>
   (\<exists>p' p''. insertBytes sample_padi (int 4) [1, 2, 0, 0] (int (length [1, 2, 0, 0 :: byte])) =
        Some (int (length [1, 2, 0, 0 :: byte]), p') \<and>
     removeBytes p' (int 4) (int (length [1, 2, 0, 0 :: byte])) =
        Some (int (length [1, 2, 0, 0 :: byte]), p'') \<and>
     pkt_data p'' = pkt_data sample_padi \<and> p'' = sample_padi\<lparr>payload := payload p''\<rparr>)"
  using insert_remove [OF wf_sample_padi, of 4 "[1, 2, 0, 0]"] by simp

end
