(* ===== verification/Relay_Table.thy ===== *)
theory Relay_Table
  imports Linked_Lists PPPoE_Packet
begin

unbundle bit_operations_syntax

text \<open>
  The session and hash tables of the PPPoE relay (\<^verbatim>\<open>relay.h\<close>, \<^verbatim>\<open>relay.c\<close>): the arrays
  \<^verbatim>\<open>AllSessions\<close> and \<^verbatim>\<open>AllHashes\<close> with the lists threaded through them (free sessions, active
  sessions, free hashes, one chain per bucket), and \<^verbatim>\<open>initRelay\<close>, \<^verbatim>\<open>createSession\<close>,
  \<^verbatim>\<open>freeSession\<close>, \<^verbatim>\<open>addHash\<close>, \<^verbatim>\<open>unhash\<close> and \<^verbatim>\<open>findSession\<close> on them. A pointer into an array is
  an index or \<^verbatim>\<open>None\<close>; an operation that dereferences NULL gives \<^verbatim>\<open>None\<close>. The invariant
  \<^verbatim>\<open>table_ok\<close> ties the arrays to the lists they stand for.
\<close>

section \<open>The structures of relay.h\<close>

record PPPoEInterface =
  if_name :: string
  discoverySock :: int
  sessionSock :: int
  clientOK :: bool
  acOK :: bool
  if_mac :: "byte list"

record PPPoESession =
  s_next :: "nat option"
  s_prev :: "nat option"
  acHash :: "nat option"
  clientHash :: "nat option"
  epoch :: u32
  s_sesNum :: u16

record SessionHash =
  sh_next :: "nat option"
  sh_prev :: "nat option"
  sh_peer :: "nat option"
  sh_interface :: nat
  peerMac :: "byte list"
  sh_sesNum :: u16
  sh_ses :: "nat option"

record relay =
  Interfaces :: "PPPoEInterface list"
  NumSessions :: nat
  MaxSessions :: nat
  AllSessions :: "nat \<Rightarrow> PPPoESession"
  FreeSessions :: "nat option"
  ActiveSessions :: "nat option"
  AllHashes :: "nat \<Rightarrow> SessionHash"
  FreeHashes :: "nat option"
  Buckets :: "nat \<Rightarrow> nat option"
  Epoch :: u32
  CleanCounter :: u32
  CleanPeriod :: u32
  IdleTimeout :: u32
  CleanPipe :: nat

definition HASHTAB_SIZE :: nat where
  "HASHTAB_SIZE = 18917"

text \<open>The zero bytes of \<^verbatim>\<open>calloc\<close>.\<close>

definition zero_session :: PPPoESession where
  "zero_session = \<lparr>s_next = None, s_prev = None, acHash = None, clientHash = None, epoch = 0,
     s_sesNum = 0\<rparr>"

definition zero_hash :: SessionHash where
  "zero_hash = \<lparr>sh_next = None, sh_prev = None, sh_peer = None, sh_interface = 0,
     peerMac = replicate 6 0, sh_sesNum = 0, sh_ses = None\<rparr>"

definition upd_ses :: "nat \<Rightarrow> (PPPoESession \<Rightarrow> PPPoESession) \<Rightarrow> relay \<Rightarrow> relay" where
  "upd_ses i f st = st\<lparr>AllSessions := (AllSessions st)(i := f (AllSessions st i))\<rparr>"

definition upd_sh :: "nat \<Rightarrow> (SessionHash \<Rightarrow> SessionHash) \<Rightarrow> relay \<Rightarrow> relay" where
  "upd_sh i f st = st\<lparr>AllHashes := (AllHashes st)(i := f (AllHashes st i))\<rparr>"

section \<open>Initialisation\<close>

text \<open>The loops of \<^verbatim>\<open>initRelay\<close> write one array element per step.\<close>

definition for_upd :: "nat list \<Rightarrow> (nat \<Rightarrow> 'a \<Rightarrow> 'a) \<Rightarrow> (nat \<Rightarrow> 'a) \<Rightarrow> nat \<Rightarrow> 'a" where
  "for_upd is f arr = fold (\<lambda>i a. a(i := f i (a i))) is arr"

definition init_sessions :: "nat \<Rightarrow> nat \<Rightarrow> PPPoESession" where
  "init_sessions n =
     (let a0 = (\<lambda>_. zero_session);
          a1 = a0(0 := (a0 0)\<lparr>s_prev := None, s_next := (if n > 1 then Some 1 else None)\<rparr>);
          a2 = for_upd [1..<n - 1] (\<lambda>i s. s\<lparr>s_prev := Some (i - 1), s_next := Some (i + 1)\<rparr>) a1;
          a3 = (if n > 1 then a2(n - 1 := (a2 (n - 1))\<lparr>s_prev := Some (n - 2), s_next := None\<rparr>)
                else a2)
      in for_upd [0..<n] (\<lambda>i s. s\<lparr>s_sesNum := htons (of_nat i + 1)\<rparr>) a3)"

definition init_hashes :: "nat \<Rightarrow> nat \<Rightarrow> SessionHash" where
  "init_hashes n =
     (let a0 = (\<lambda>_. zero_hash);
          a1 = a0(0 := (a0 0)\<lparr>sh_prev := None, sh_next := Some 1\<rparr>);
          a2 = for_upd [1..<2 * n - 1] (\<lambda>i h. h\<lparr>sh_prev := Some (i - 1), sh_next := Some (i + 1)\<rparr>) a1
      in a2(2 * n - 1 := (a2 (2 * n - 1))\<lparr>sh_prev := Some (2 * n - 2), sh_next := None\<rparr>))"

definition initRelay :: "nat \<Rightarrow> relay \<Rightarrow> relay" where
  "initRelay nsess st =
     st\<lparr>NumSessions := 0, MaxSessions := nsess,
        AllSessions := init_sessions nsess, AllHashes := init_hashes nsess,
        FreeSessions := Some 0, ActiveSessions := None, FreeHashes := Some 0\<rparr>"

section \<open>The hash table\<close>

definition hash :: "byte list \<Rightarrow> u16 \<Rightarrow> u32" where
  "hash mac sesNum =
     (let ans1 = ucast (mac ! 0) OR push_bit 8 (ucast (mac ! 1)) OR push_bit 16 (ucast (mac ! 2)) OR
            push_bit 24 (ucast (mac ! 3));
          ans2 = ucast sesNum OR push_bit 16 (ucast (mac ! 4)) OR push_bit 24 (ucast (mac ! 5))
      in ans1 XOR ans2)"

definition bucket :: "byte list \<Rightarrow> u16 \<Rightarrow> nat" where
  "bucket mac sesNum = unat (hash mac sesNum) mod HASHTAB_SIZE"

abbreviation bucket_of :: "relay \<Rightarrow> nat \<Rightarrow> nat" where
  "bucket_of st i \<equiv> bucket (peerMac (AllHashes st i)) (sh_sesNum (AllHashes st i))"

definition link_bucket :: "nat \<Rightarrow> nat \<Rightarrow> relay \<Rightarrow> relay" where
  "link_bucket b sh st =
     (let st1 = upd_sh sh (\<lambda>h. h\<lparr>sh_next := Buckets st b, sh_prev := None\<rparr>) st;
          st2 = (case Buckets st b of None \<Rightarrow> st1
                 | Some y \<Rightarrow> upd_sh y (\<lambda>h. h\<lparr>sh_prev := Some sh\<rparr>) st1)
      in st2\<lparr>Buckets := (Buckets st)(b := Some sh)\<rparr>)"

definition unlink_bucket :: "nat \<Rightarrow> nat \<Rightarrow> relay \<Rightarrow> relay" where
  "unlink_bucket b sh st =
     (let nx = sh_next (AllHashes st sh); pv = sh_prev (AllHashes st sh);
          st1 = (case pv of Some q \<Rightarrow> upd_sh q (\<lambda>h. h\<lparr>sh_next := nx\<rparr>) st
                 | None \<Rightarrow> st\<lparr>Buckets := (Buckets st)(b := nx)\<rparr>)
      in case nx of None \<Rightarrow> st1 | Some y \<Rightarrow> upd_sh y (\<lambda>h. h\<lparr>sh_prev := pv\<rparr>) st1)"

definition addHash :: "nat \<Rightarrow> relay \<Rightarrow> relay" where
  "addHash sh st = link_bucket (bucket_of st sh) sh st"

definition unhash :: "nat \<Rightarrow> relay \<Rightarrow> relay" where
  "unhash sh st =
     (let st1 = unlink_bucket (bucket_of st sh) sh st
      in (upd_sh sh (\<lambda>h. h\<lparr>sh_next := FreeHashes st1\<rparr>) st1)\<lparr>FreeHashes := Some sh\<rparr>)"

text \<open>
  \<^verbatim>\<open>findSession\<close> walks a chain. \<^verbatim>\<open>None\<close> is a walk that does not end, \<^verbatim>\<open>Some None\<close> is the NULL it
  returns when no entry matches.
\<close>

partial_function (option) findSession_loop ::
  "relay \<Rightarrow> byte list \<Rightarrow> u16 \<Rightarrow> nat option \<Rightarrow> nat option option" where
  "findSession_loop st mac sesNum sh =
     (if sh = None then Some None
      else if mac = peerMac (AllHashes st (the sh)) \<and> sesNum = sh_sesNum (AllHashes st (the sh))
      then Some sh
      else findSession_loop st mac sesNum (sh_next (AllHashes st (the sh))))"

definition findSession :: "relay \<Rightarrow> byte list \<Rightarrow> u16 \<Rightarrow> nat option option" where
  "findSession st mac sesNum =
     findSession_loop st mac sesNum (Buckets st (bucket mac sesNum))"

section \<open>Creating and freeing sessions\<close>

definition link_active :: "nat \<Rightarrow> relay \<Rightarrow> relay" where
  "link_active sess st =
     (let st1 = upd_ses sess (\<lambda>s. s\<lparr>s_next := ActiveSessions st\<rparr>) st;
          st2 = (case ActiveSessions st of None \<Rightarrow> st1
                 | Some y \<Rightarrow> upd_ses y (\<lambda>s. s\<lparr>s_prev := Some sess\<rparr>) st1)
      in upd_ses sess (\<lambda>s. s\<lparr>s_prev := None\<rparr>) (st2\<lparr>ActiveSessions := Some sess\<rparr>))"

definition unlink_active :: "nat \<Rightarrow> relay \<Rightarrow> relay" where
  "unlink_active ses st =
     (let nx = s_next (AllSessions st ses); pv = s_prev (AllSessions st ses);
          st1 = (case pv of Some q \<Rightarrow> upd_ses q (\<lambda>s. s\<lparr>s_next := nx\<rparr>) st
                 | None \<Rightarrow> st\<lparr>ActiveSessions := nx\<rparr>)
      in case nx of None \<Rightarrow> st1 | Some y \<Rightarrow> upd_ses y (\<lambda>s. s\<lparr>s_prev := pv\<rparr>) st1)"

text \<open>
  \<^verbatim>\<open>createSession\<close> returns the new session, or NULL (\<^verbatim>\<open>Some (None, st)\<close>) when the table is full;
  \<^verbatim>\<open>None\<close> would be a NULL dereference on an empty free list. Interfaces are indices into
  \<^verbatim>\<open>Interfaces\<close>.
\<close>

definition createSession ::
  "nat \<Rightarrow> nat \<Rightarrow> byte list \<Rightarrow> byte list \<Rightarrow> u16 \<Rightarrow> relay \<Rightarrow> (nat option \<times> relay) option" where
  "createSession ac cli acMac cliMac acSes st =
     (if NumSessions st \<ge> MaxSessions st then Some (None, st)
      else do {
        sess \<leftarrow> FreeSessions st;
        let st = st\<lparr>FreeSessions := s_next (AllSessions st sess), NumSessions := NumSessions st + 1\<rparr>;
        let st = link_active sess st;
        let st = upd_ses sess (\<lambda>s. s\<lparr>epoch := Epoch st\<rparr>) st;
        acH \<leftarrow> FreeHashes st;
        cliH \<leftarrow> sh_next (AllHashes st acH);
        let st = st\<lparr>FreeHashes := sh_next (AllHashes st cliH)\<rparr>;
        let st = upd_sh acH (\<lambda>h. h\<lparr>sh_peer := Some cliH\<rparr>) st;
        let st = upd_sh cliH (\<lambda>h. h\<lparr>sh_peer := Some acH\<rparr>) st;
        let st = upd_ses sess (\<lambda>s. s\<lparr>acHash := Some acH, clientHash := Some cliH\<rparr>) st;
        let st = upd_sh acH (\<lambda>h. h\<lparr>sh_interface := ac\<rparr>) st;
        let st = upd_sh cliH (\<lambda>h. h\<lparr>sh_interface := cli\<rparr>) st;
        let st = upd_sh acH (\<lambda>h. h\<lparr>peerMac := acMac, sh_sesNum := acSes, sh_ses := Some sess\<rparr>) st;
        let st = upd_sh cliH (\<lambda>h. h\<lparr>peerMac := cliMac,
                   sh_sesNum := s_sesNum (AllSessions st sess), sh_ses := Some sess\<rparr>) st;
        let st = addHash acH st;
        let st = addHash cliH st;
        Some (Some sess, st)
      })"

definition freeSession :: "nat \<Rightarrow> relay \<Rightarrow> relay option" where
  "freeSession ses st =
     do {
       acH \<leftarrow> acHash (AllSessions st ses);
       cliH \<leftarrow> clientHash (AllSessions st ses);
       let st = unlink_active ses st;
       let st = (upd_ses ses (\<lambda>s. s\<lparr>s_next := FreeSessions st\<rparr>) st)\<lparr>FreeSessions := Some ses\<rparr>;
       let st = unhash acH st;
       let st = unhash cliH st;
       Some (st\<lparr>NumSessions := NumSessions st - 1\<rparr>)
     }"

section \<open>The lists in the arrays\<close>

text \<open>
  The active sessions and every bucket are doubly linked lists in the sense of \<^verbatim>\<open>dll_store\<close>: the
  four linking operations of \<^verbatim>\<open>relay.c\<close> satisfy its laws.
\<close>

interpretation active: dll_store "\<lambda>st i. s_next (AllSessions st i)" "\<lambda>st i. s_prev (AllSessions st i)"
  ActiveSessions link_active unlink_active
  by unfold_locales
    (auto simp: link_active_def unlink_active_def upd_ses_def Let_def fun_eq_iff split: option.splits)

interpretation chains: dll_store "\<lambda>st i. sh_next (AllHashes st i)" "\<lambda>st i. sh_prev (AllHashes st i)"
  "\<lambda>st. Buckets st b" "link_bucket b" "unlink_bucket b" for b
  by unfold_locales
    (auto simp: link_bucket_def unlink_bucket_def upd_sh_def Let_def fun_eq_iff split: option.splits)

definition put_session :: "nat \<Rightarrow> relay \<Rightarrow> relay" where
  "put_session x st =
     (let st = unlink_active x st
      in (upd_ses x (\<lambda>s. s\<lparr>s_next := FreeSessions st\<rparr>) st)\<lparr>FreeSessions := Some x\<rparr>)"

lemma upd_ses_sel [simp]:
  "Interfaces (upd_ses i f st) = Interfaces st"
  "NumSessions (upd_ses i f st) = NumSessions st"
  "MaxSessions (upd_ses i f st) = MaxSessions st"
  "FreeSessions (upd_ses i f st) = FreeSessions st"
  "ActiveSessions (upd_ses i f st) = ActiveSessions st"
  "AllHashes (upd_ses i f st) = AllHashes st"
  "FreeHashes (upd_ses i f st) = FreeHashes st"
  "Buckets (upd_ses i f st) = Buckets st"
  "Epoch (upd_ses i f st) = Epoch st"
  "CleanCounter (upd_ses i f st) = CleanCounter st"
  "CleanPeriod (upd_ses i f st) = CleanPeriod st"
  "IdleTimeout (upd_ses i f st) = IdleTimeout st"
  "CleanPipe (upd_ses i f st) = CleanPipe st"
  by (simp_all add: upd_ses_def)

lemma upd_sh_sel [simp]:
  "Interfaces (upd_sh i f st) = Interfaces st"
  "NumSessions (upd_sh i f st) = NumSessions st"
  "MaxSessions (upd_sh i f st) = MaxSessions st"
  "AllSessions (upd_sh i f st) = AllSessions st"
  "FreeSessions (upd_sh i f st) = FreeSessions st"
  "ActiveSessions (upd_sh i f st) = ActiveSessions st"
  "FreeHashes (upd_sh i f st) = FreeHashes st"
  "Buckets (upd_sh i f st) = Buckets st"
  "Epoch (upd_sh i f st) = Epoch st"
  "CleanCounter (upd_sh i f st) = CleanCounter st"
  "CleanPeriod (upd_sh i f st) = CleanPeriod st"
  "IdleTimeout (upd_sh i f st) = IdleTimeout st"
  "CleanPipe (upd_sh i f st) = CleanPipe st"
  by (simp_all add: upd_sh_def)

lemma link_active_sel [simp]:
  "Interfaces (link_active x st) = Interfaces st"
  "NumSessions (link_active x st) = NumSessions st"
  "MaxSessions (link_active x st) = MaxSessions st"
  "FreeSessions (link_active x st) = FreeSessions st"
  "AllHashes (link_active x st) = AllHashes st"
  "FreeHashes (link_active x st) = FreeHashes st"
  "Buckets (link_active x st) = Buckets st"
  "Epoch (link_active x st) = Epoch st"
  "CleanCounter (link_active x st) = CleanCounter st"
  "CleanPeriod (link_active x st) = CleanPeriod st"
  "IdleTimeout (link_active x st) = IdleTimeout st"
  "CleanPipe (link_active x st) = CleanPipe st"
  by (simp_all add: link_active_def Let_def split: option.split)

lemma unlink_active_sel [simp]:
  "Interfaces (unlink_active x st) = Interfaces st"
  "NumSessions (unlink_active x st) = NumSessions st"
  "MaxSessions (unlink_active x st) = MaxSessions st"
  "FreeSessions (unlink_active x st) = FreeSessions st"
  "AllHashes (unlink_active x st) = AllHashes st"
  "FreeHashes (unlink_active x st) = FreeHashes st"
  "Buckets (unlink_active x st) = Buckets st"
  "Epoch (unlink_active x st) = Epoch st"
  "CleanCounter (unlink_active x st) = CleanCounter st"
  "CleanPeriod (unlink_active x st) = CleanPeriod st"
  "IdleTimeout (unlink_active x st) = IdleTimeout st"
  "CleanPipe (unlink_active x st) = CleanPipe st"
  by (simp_all add: unlink_active_def Let_def split: option.split)

lemma link_bucket_sel [simp]:
  "Interfaces (link_bucket b x st) = Interfaces st"
  "NumSessions (link_bucket b x st) = NumSessions st"
  "MaxSessions (link_bucket b x st) = MaxSessions st"
  "AllSessions (link_bucket b x st) = AllSessions st"
  "FreeSessions (link_bucket b x st) = FreeSessions st"
  "ActiveSessions (link_bucket b x st) = ActiveSessions st"
  "FreeHashes (link_bucket b x st) = FreeHashes st"
  "Epoch (link_bucket b x st) = Epoch st"
  "CleanCounter (link_bucket b x st) = CleanCounter st"
  "CleanPeriod (link_bucket b x st) = CleanPeriod st"
  "IdleTimeout (link_bucket b x st) = IdleTimeout st"
  "CleanPipe (link_bucket b x st) = CleanPipe st"
  by (simp_all add: link_bucket_def Let_def split: option.split)

lemma unlink_bucket_sel [simp]:
  "Interfaces (unlink_bucket b x st) = Interfaces st"
  "NumSessions (unlink_bucket b x st) = NumSessions st"
  "MaxSessions (unlink_bucket b x st) = MaxSessions st"
  "AllSessions (unlink_bucket b x st) = AllSessions st"
  "FreeSessions (unlink_bucket b x st) = FreeSessions st"
  "ActiveSessions (unlink_bucket b x st) = ActiveSessions st"
  "FreeHashes (unlink_bucket b x st) = FreeHashes st"
  "Epoch (unlink_bucket b x st) = Epoch st"
  "CleanCounter (unlink_bucket b x st) = CleanCounter st"
  "CleanPeriod (unlink_bucket b x st) = CleanPeriod st"
  "IdleTimeout (unlink_bucket b x st) = IdleTimeout st"
  "CleanPipe (unlink_bucket b x st) = CleanPipe st"
  by (simp_all add: unlink_bucket_def Let_def split: option.split)

lemma addHash_sel [simp]:
  "Interfaces (addHash x st) = Interfaces st"
  "NumSessions (addHash x st) = NumSessions st"
  "MaxSessions (addHash x st) = MaxSessions st"
  "AllSessions (addHash x st) = AllSessions st"
  "FreeSessions (addHash x st) = FreeSessions st"
  "ActiveSessions (addHash x st) = ActiveSessions st"
  "FreeHashes (addHash x st) = FreeHashes st"
  "Epoch (addHash x st) = Epoch st"
  "CleanCounter (addHash x st) = CleanCounter st"
  "CleanPeriod (addHash x st) = CleanPeriod st"
  "IdleTimeout (addHash x st) = IdleTimeout st"
  "CleanPipe (addHash x st) = CleanPipe st"
  by (simp_all add: addHash_def)

lemma unhash_sel [simp]:
  "Interfaces (unhash x st) = Interfaces st"
  "NumSessions (unhash x st) = NumSessions st"
  "MaxSessions (unhash x st) = MaxSessions st"
  "AllSessions (unhash x st) = AllSessions st"
  "FreeSessions (unhash x st) = FreeSessions st"
  "ActiveSessions (unhash x st) = ActiveSessions st"
  "Epoch (unhash x st) = Epoch st"
  "CleanCounter (unhash x st) = CleanCounter st"
  "CleanPeriod (unhash x st) = CleanPeriod st"
  "IdleTimeout (unhash x st) = IdleTimeout st"
  "CleanPipe (unhash x st) = CleanPipe st"
  by (simp_all add: unhash_def Let_def)

lemma put_session_sel [simp]:
  "Interfaces (put_session x st) = Interfaces st"
  "NumSessions (put_session x st) = NumSessions st"
  "MaxSessions (put_session x st) = MaxSessions st"
  "AllHashes (put_session x st) = AllHashes st"
  "FreeHashes (put_session x st) = FreeHashes st"
  "Buckets (put_session x st) = Buckets st"
  "Epoch (put_session x st) = Epoch st"
  "CleanCounter (put_session x st) = CleanCounter st"
  "CleanPeriod (put_session x st) = CleanPeriod st"
  "IdleTimeout (put_session x st) = IdleTimeout st"
  "CleanPipe (put_session x st) = CleanPipe st"
  by (simp_all add: put_session_def Let_def)


definition used :: "(nat \<Rightarrow> nat list) \<Rightarrow> nat set" where
  "used bk = (\<Union>b < HASHTAB_SIZE. set (bk b))"

definition hlists :: "relay \<Rightarrow> (nat \<Rightarrow> nat list) \<Rightarrow> bool" where
  "hlists st bk \<longleftrightarrow> (\<forall>b < HASHTAB_SIZE. chains.lists b st (bk b)) \<and>
     (\<forall>b < HASHTAB_SIZE. \<forall>i \<in> set (bk b). bucket_of st i = b)"

definition slists :: "relay \<Rightarrow> nat list \<Rightarrow> nat list \<Rightarrow> bool" where
  "slists st act fs \<longleftrightarrow> active.lists st act \<and> chain (\<lambda>i. s_next (AllSessions st i)) (FreeSessions st) fs \<and>
     distinct (act @ fs) \<and> set (act @ fs) = {..<MaxSessions st} \<and> NumSessions st = length act"

lemma bucket_less [simp]: "bucket m s < HASHTAB_SIZE"
  by (simp add: bucket_def HASHTAB_SIZE_def)


text \<open>The fields of the structures that the list operations leave alone.\<close>

definition sh_core :: "SessionHash \<Rightarrow> nat option \<times> nat \<times> byte list \<times> u16 \<times> nat option" where
  "sh_core h = (sh_peer h, sh_interface h, peerMac h, sh_sesNum h, sh_ses h)"

definition s_core :: "PPPoESession \<Rightarrow> nat option \<times> nat option \<times> u16" where
  "s_core s = (acHash s, clientHash s, s_sesNum s)"

lemma link_bucket_frame:
  "sh_core (AllHashes (link_bucket b x st) i) = sh_core (AllHashes st i)"
  "b' \<noteq> b \<Longrightarrow> Buckets (link_bucket b x st) b' = Buckets st b'"
  "i \<noteq> x \<Longrightarrow> Buckets st b \<noteq> Some i \<Longrightarrow> AllHashes (link_bucket b x st) i = AllHashes st i"
  by (auto simp: link_bucket_def upd_sh_def Let_def sh_core_def split: option.splits)

lemma unlink_bucket_frame:
  "sh_core (AllHashes (unlink_bucket b x st) i) = sh_core (AllHashes st i)"
  "b' \<noteq> b \<Longrightarrow> Buckets (unlink_bucket b x st) b' = Buckets st b'"
  "sh_next (AllHashes st x) \<noteq> Some i \<Longrightarrow> sh_prev (AllHashes st x) \<noteq> Some i \<Longrightarrow>
     AllHashes (unlink_bucket b x st) i = AllHashes st i"
  by (auto simp: unlink_bucket_def upd_sh_def Let_def sh_core_def split: option.splits)

lemma sh_coreD:
  assumes "sh_core h = sh_core h'"
  shows "sh_peer h = sh_peer h'" and "sh_interface h = sh_interface h'" and "peerMac h = peerMac h'"
    and "sh_sesNum h = sh_sesNum h'" and "sh_ses h = sh_ses h'"
  using assms by (simp_all add: sh_core_def)

lemma hlists_in_bucket:
  "hlists st bk \<Longrightarrow> i \<in> used bk \<longleftrightarrow> i \<in> set (bk (bucket_of st i))"
  by (auto simp: hlists_def used_def)

lemma hlists_cong:
  assumes "hlists st bk"
    and "\<And>i. i \<in> used bk \<Longrightarrow> AllHashes st' i = AllHashes st i"
    and "\<And>b. b < HASHTAB_SIZE \<Longrightarrow> Buckets st' b = Buckets st b"
  shows "hlists st' bk"
proof -
  have eq: "AllHashes st' i = AllHashes st i" if "i \<in> set (bk b)" "b < HASHTAB_SIZE" for i b
    using assms(2) that by (auto simp: used_def)
  have "chains.lists b st' (bk b)" if b: "b < HASHTAB_SIZE" for b
    by (rule chains.lists_cong [of b st]) (use assms(1,3) b eq in \<open>simp_all add: hlists_def\<close>)
  then show ?thesis using assms(1) eq by (simp add: hlists_def)
qed

lemma used_add: "b < HASHTAB_SIZE \<Longrightarrow> used (bk(b := x # bk b)) = insert x (used bk)"
  by (auto simp: used_def split: if_splits)

lemma used_remove:
  assumes "hlists st bk"
  shows "used (bk(bucket_of st x := remove1 x (bk (bucket_of st x)))) = used bk - {x}"
proof -
  define B where "B = bucket_of st x"
  have d: "distinct (bk B)"
    using assms by (simp add: hlists_def chains.lists_def dll_def B_def)
  have other: "x \<notin> set (bk b)" if "b \<noteq> B" "b < HASHTAB_SIZE" for b
  proof
    assume "x \<in> set (bk b)"
    with assms that(2) have "bucket_of st x = b" unfolding hlists_def by blast
    with that(1) show False by (simp add: B_def)
  qed
  have "set ((bk(B := remove1 x (bk B))) b) = set (bk b) - {x}" if "b < HASHTAB_SIZE" for b
  proof (cases "b = B")
    case True
    with d show ?thesis by simp
  next
    case False
    with other [OF False that] show ?thesis by simp
  qed
  then show ?thesis by (simp add: used_def B_def [symmetric])
qed

lemma chains_other:
  assumes "hlists st bk" and "b < HASHTAB_SIZE" and "b' < HASHTAB_SIZE" and "b \<noteq> b'"
  shows "set (bk b) \<inter> set (bk b') = {}"
proof -
  have "bucket_of st i = b" if "i \<in> set (bk b)" for i using assms(1,2) that by (simp add: hlists_def)
  moreover have "bucket_of st i = b'" if "i \<in> set (bk b')" for i
    using assms(1,3) that by (simp add: hlists_def)
  ultimately show ?thesis using assms(4) by blast
qed

lemma addHash_hlists:
  assumes h: "hlists st bk" and x: "x \<notin> used bk"
  shows "hlists (addHash x st) (bk(bucket_of st x := x # bk (bucket_of st x)))"
proof -
  let ?b = "bucket_of st x"
  let ?st = "link_bucket ?b x st"
  have core: "bucket_of ?st i = bucket_of st i" for i
    using sh_coreD [OF link_bucket_frame(1)] by simp
  have "chains.lists b ?st ((bk(?b := x # bk ?b)) b)" if b: "b < HASHTAB_SIZE" for b
  proof (cases "b = ?b")
    case True
    have "chains.lists ?b st (bk ?b)" using h by (simp add: hlists_def)
    moreover have "x \<notin> set (bk ?b)" using x hlists_in_bucket [OF h] by blast
    ultimately show ?thesis
      using chains.push_lists True by auto
  next
    case False
    have head: "Buckets st ?b \<noteq> Some i \<and> i \<noteq> x" if i: "i \<in> set (bk b)" for i
    proof -
      have "i \<notin> set (bk ?b)" using chains_other [OF h b _ False] i by auto
      moreover have "chains.lists ?b st (bk ?b)" using h by (simp add: hlists_def)
      ultimately have "Buckets st ?b \<noteq> Some i"
        by (auto dest: chains.lists_head split: list.splits)
      then show ?thesis using i x b by (auto simp: used_def)
    qed
    have "chains.lists b st (bk b)" using h b by (simp add: hlists_def)
    then have "chains.lists b ?st (bk b)"
      by (rule chains.lists_cong) (use False head in \<open>simp_all add: link_bucket_frame(2,3)\<close>)
    then show ?thesis using False by simp
  qed
  moreover have "bucket_of ?st i = b" if "i \<in> set ((bk(?b := x # bk ?b)) b)" "b < HASHTAB_SIZE" for i b
    using that h unfolding core by (auto simp: hlists_def split: if_splits)
  ultimately show ?thesis by (simp add: addHash_def hlists_def)
qed

lemma remove1_split: "distinct xs \<Longrightarrow> x \<in> set xs \<Longrightarrow> \<exists>as bs. xs = as @ x # bs \<and> remove1 x xs = as @ bs"
  by (metis remove1_append remove1.simps(2) split_list_first)

lemma unlink_bucket_hlists:
  assumes h: "hlists st bk" and x: "x \<in> used bk"
  shows "hlists (unlink_bucket (bucket_of st x) x st)
    (bk(bucket_of st x := remove1 x (bk (bucket_of st x))))"
proof -
  let ?b = "bucket_of st x"
  let ?st = "unlink_bucket ?b x st"
  have core: "bucket_of ?st i = bucket_of st i" for i
    using sh_coreD [OF unlink_bucket_frame(1)] by simp
  have lb: "chains.lists ?b st (bk ?b)" using h by (simp add: hlists_def)
  have "x \<in> set (bk ?b)" using h x hlists_in_bucket by blast
  then obtain as bs where s: "bk ?b = as @ x # bs" and r: "remove1 x (bk ?b) = as @ bs"
    using lb remove1_split by (metis chains.lists_def dll_def)
  have "chains.lists b ?st ((bk(?b := remove1 x (bk ?b))) b)" if b: "b < HASHTAB_SIZE" for b
  proof (cases "b = ?b")
    case True
    then show ?thesis using chains.unlink_lists [of ?b st as x bs] lb s r by simp
  next
    case False
    have nb: "sh_next (AllHashes st x) \<noteq> Some i \<and> sh_prev (AllHashes st x) \<noteq> Some i"
      if i: "i \<in> set (bk b)" for i
    proof -
      have "i \<notin> set (bk ?b)" using chains_other [OF h b _ False] i by auto
      then show ?thesis
        using chains.lists_neighbours [of ?b st as x bs] lb unfolding s
        by (auto split: list.splits if_splits)
    qed
    have "chains.lists b st (bk b)" using h b by (simp add: hlists_def)
    then have "chains.lists b ?st (bk b)"
      by (rule chains.lists_cong) (use False nb in \<open>simp_all add: unlink_bucket_frame(2,3)\<close>)
    then show ?thesis using False by simp
  qed
  moreover have "bucket_of ?st i = b"
    if "i \<in> set ((bk(?b := remove1 x (bk ?b))) b)" "b < HASHTAB_SIZE" for i b
    using that h unfolding core hlists_def
    by (cases "b = ?b") (auto dest: in_set_remove1 [THEN iffD1, rotated] set_remove1_subset [THEN subsetD])
  ultimately show ?thesis by (simp add: hlists_def)
qed

lemma unhash_frame:
  "sh_core (AllHashes (unhash x st) i) = sh_core (AllHashes st i)"
  "FreeHashes (unhash x st) = Some x"
  using unlink_bucket_frame(1) [of "bucket_of st x" x st i]
  by (cases "i = x"; simp add: unhash_def Let_def upd_sh_def sh_core_def)+

lemma addHash_frame: "sh_core (AllHashes (addHash x st) i) = sh_core (AllHashes st i)"
  unfolding addHash_def by (rule link_bucket_frame)

lemma unhash_hlists:
  assumes h: "hlists st bk" and x: "x \<in> used bk"
  shows "hlists (unhash x st) (bk(bucket_of st x := remove1 x (bk (bucket_of st x))))"
proof (rule hlists_cong [OF unlink_bucket_hlists [OF h x]])
  show "AllHashes (unhash x st) i = AllHashes (unlink_bucket (bucket_of st x) x st) i"
    if "i \<in> used (bk(bucket_of st x := remove1 x (bk (bucket_of st x))))" for i
    using that used_remove [OF h] by (simp add: unhash_def Let_def upd_sh_def)
qed (simp add: unhash_def Let_def upd_sh_def)

lemma chain_in_used:
  assumes "hlists st bk" and "x \<in> used bk"
  shows "sh_next (AllHashes st x) = Some i \<Longrightarrow> i \<in> used bk"
    and "sh_prev (AllHashes st x) = Some i \<Longrightarrow> i \<in> used bk"
proof -
  let ?b = "bucket_of st x"
  have lb: "chains.lists ?b st (bk ?b)" using assms by (simp add: hlists_def)
  have "x \<in> set (bk ?b)" using assms hlists_in_bucket by blast
  then obtain as bs where s: "bk ?b = as @ x # bs" by (meson split_list)
  have sub: "set (bk ?b) \<subseteq> used bk" unfolding used_def using bucket_less by blast
  show "sh_next (AllHashes st x) = Some i \<Longrightarrow> i \<in> used bk"
    and "sh_prev (AllHashes st x) = Some i \<Longrightarrow> i \<in> used bk"
    using chains.lists_neighbours [of ?b st as x bs] lb sub unfolding s
    by (auto split: list.splits if_splits)
qed

lemma bucket_head_used: "hlists st bk \<Longrightarrow> b < HASHTAB_SIZE \<Longrightarrow> Buckets st b = Some i \<Longrightarrow> i \<in> used bk"
  by (auto simp: hlists_def used_def dest!: spec [of _ b] chains.lists_head split: list.splits
      intro!: bexI [of _ b])

lemma addHash_free_chain:
  assumes "hlists st bk" and "set fh \<inter> used bk = {}" and "x \<notin> set fh"
    and "chain (\<lambda>i. sh_next (AllHashes st i)) p fh"
  shows "chain (\<lambda>i. sh_next (AllHashes (addHash x st) i)) p fh"
proof -
  have "AllHashes (addHash x st) i = AllHashes st i" if "i \<in> set fh" for i
    unfolding addHash_def
    by (rule link_bucket_frame(3)) (use assms that bucket_head_used [OF assms(1) bucket_less] in auto)
  then show ?thesis using assms(4) by (simp cong: chain_cong)
qed

lemma unhash_free_chain:
  assumes "hlists st bk" and "set fh \<inter> used bk = {}" and "x \<in> used bk"
    and "chain (\<lambda>i. sh_next (AllHashes st i)) (FreeHashes st) fh"
  shows "chain (\<lambda>i. sh_next (AllHashes (unhash x st) i)) (FreeHashes (unhash x st)) (x # fh)"
proof -
  have "AllHashes (unlink_bucket (bucket_of st x) x st) i = AllHashes st i" if "i \<in> set fh" for i
    by (rule unlink_bucket_frame(3)) (use assms that chain_in_used [OF assms(1,3)] in auto)
  moreover have "x \<notin> set fh" using assms by auto
  ultimately have "chain (\<lambda>i. sh_next (AllHashes (unhash x st) i)) (FreeHashes st) fh"
    by (subst chain_cong [where nx' = "\<lambda>i. sh_next (AllHashes st i)"])
      (use assms(4) in \<open>auto simp: unhash_def Let_def upd_sh_def\<close>)
  moreover have "sh_next (AllHashes (unhash x st) x) = FreeHashes st" "FreeHashes (unhash x st) = Some x"
    by (simp_all add: unhash_def Let_def upd_sh_def)
  ultimately show ?thesis by simp
qed

subsection \<open>The session lists\<close>

lemma link_active_frame:
  "s_core (AllSessions (link_active x st) i) = s_core (AllSessions st i)"
  "epoch (AllSessions (link_active x st) i) = epoch (AllSessions st i)"
  "ActiveSessions (link_active x st) = Some x"
  by (auto simp: link_active_def upd_ses_def Let_def s_core_def split: option.splits)

lemma unlink_active_frame:
  "s_core (AllSessions (unlink_active x st) i) = s_core (AllSessions st i)"
  "epoch (AllSessions (unlink_active x st) i) = epoch (AllSessions st i)"
  by (auto simp: unlink_active_def upd_ses_def Let_def s_core_def split: option.splits)

lemma slists_cong:
  assumes "slists st act fs"
    and "\<And>i. s_next (AllSessions st' i) = s_next (AllSessions st i)"
    and "\<And>i. s_prev (AllSessions st' i) = s_prev (AllSessions st i)"
    and "ActiveSessions st' = ActiveSessions st" and "FreeSessions st' = FreeSessions st"
    and "MaxSessions st' = MaxSessions st" and "NumSessions st' = NumSessions st"
  shows "slists st' act fs"
  using assms active.lists_cong [of st act st'] by (simp add: slists_def)

lemma take_session_slists:
  assumes "slists st act (x # fs)"
  shows "slists (link_active x
     (st\<lparr>FreeSessions := s_next (AllSessions st x), NumSessions := NumSessions st + 1\<rparr>)) (x # act) fs"
proof -
  let ?st = "st\<lparr>FreeSessions := s_next (AllSessions st x), NumSessions := NumSessions st + 1\<rparr>"
  have "active.lists ?st act"
    by (rule active.lists_cong [of st]) (use assms in \<open>simp_all add: slists_def\<close>)
  then have l: "active.lists (link_active x ?st) (x # act)"
    by (rule active.push_lists) (use assms in \<open>auto simp: slists_def\<close>)
  have "s_next (AllSessions (link_active x ?st) i) = s_next (AllSessions st i)" if "i \<in> set fs" for i
    using active.push_frame [of i x ?st] that assms by (auto simp: slists_def)
  then have "chain (\<lambda>i. s_next (AllSessions (link_active x ?st) i)) (s_next (AllSessions st x)) fs"
    using assms by (simp add: slists_def cong: chain_cong)
  then show ?thesis
    using l assms by (simp add: slists_def)
qed

lemma put_session_frame:
  "s_core (AllSessions (put_session x st) i) = s_core (AllSessions st i)"
  "epoch (AllSessions (put_session x st) i) = epoch (AllSessions st i)"
  "FreeSessions (put_session x st) = Some x"
  using unlink_active_frame(1,2) [of x st i]
  by (cases "i = x"; simp add: put_session_def upd_ses_def s_core_def Let_def)+

lemma put_session_slists:
  assumes "slists st (as @ x # bs) fs"
  shows "slists (put_session x st\<lparr>NumSessions := NumSessions st - 1\<rparr>) (as @ bs) (x # fs)"
proof -
  let ?u = "unlink_active x st" and ?st = "put_session x st\<lparr>NumSessions := NumSessions st - 1\<rparr>"
  have la: "active.lists st (as @ x # bs)" using assms by (simp add: slists_def)
  have d: "distinct (as @ x # bs @ fs)" using assms by (simp add: slists_def)
  have "active.lists ?u (as @ bs)" using la by (rule active.unlink_lists)
  then have 1: "active.lists ?st (as @ bs)"
    by (rule active.lists_cong) (use d in \<open>auto simp: put_session_def Let_def upd_ses_def\<close>)
  have "s_next (AllSessions ?u i) = s_next (AllSessions st i)" if "i \<in> set fs" for i
    by (rule active.unlink_frame [OF la]) (use d that in auto)
  then have "chain (\<lambda>i. s_next (AllSessions ?st i)) (FreeSessions st) fs"
    by (subst chain_cong [where nx' = "\<lambda>i. s_next (AllSessions st i)"])
      (use assms d in \<open>auto simp: slists_def put_session_def Let_def upd_ses_def\<close>)
  then have 2: "chain (\<lambda>i. s_next (AllSessions ?st i)) (FreeSessions ?st) (x # fs)"
    by (simp add: put_session_def Let_def upd_ses_def)
  show ?thesis
    using 1 2 assms by (auto simp: slists_def)
qed

subsection \<open>The invariant\<close>

definition links_ok :: "relay \<Rightarrow> nat set \<Rightarrow> nat set \<Rightarrow> bool" where
  "links_ok st A U \<longleftrightarrow>
     (\<forall>s \<in> A. \<exists>a c. acHash (AllSessions st s) = Some a \<and> clientHash (AllSessions st s) = Some c \<and>
        a \<noteq> c \<and> a \<in> U \<and> c \<in> U \<and>
        sh_peer (AllHashes st a) = Some c \<and> sh_peer (AllHashes st c) = Some a \<and>
        sh_ses (AllHashes st a) = Some s \<and> sh_ses (AllHashes st c) = Some s \<and>
        sh_sesNum (AllHashes st c) = s_sesNum (AllSessions st s)) \<and>
     (\<forall>i \<in> U. sh_interface (AllHashes st i) < length (Interfaces st) \<and>
        length (peerMac (AllHashes st i)) = 6 \<and>
        (\<exists>s \<in> A. sh_ses (AllHashes st i) = Some s \<and>
           (acHash (AllSessions st s) = Some i \<or> clientHash (AllSessions st s) = Some i)))"

definition table_ok ::
  "relay \<Rightarrow> nat list \<Rightarrow> nat list \<Rightarrow> (nat \<Rightarrow> nat list) \<Rightarrow> nat list \<Rightarrow> bool" where
  "table_ok st act fs bk fh \<longleftrightarrow> slists st act fs \<and> hlists st bk \<and>
     chain (\<lambda>i. sh_next (AllHashes st i)) (FreeHashes st) fh \<and> distinct fh \<and>
     set fh \<inter> used bk = {} \<and> set fh \<union> used bk = {..<2 * MaxSessions st} \<and>
     length fh = 2 * length fs \<and> links_ok st (set act) (used bk) \<and>
     (\<forall>i < MaxSessions st. s_sesNum (AllSessions st i) = htons (of_nat (Suc i))) \<and>
     0 < MaxSessions st \<and> MaxSessions st \<le> 65534"

definition relay_inv :: "relay \<Rightarrow> bool" where
  "relay_inv st \<longleftrightarrow> (\<exists>act fs bk fh. table_ok st act fs bk fh)"

text \<open>The links of one session and of one entry, on the fields that the list operations keep.\<close>

definition ses_link where
  "ses_link SC HC U s \<longleftrightarrow> (\<exists>a c n ia ma na ic mc. SC s = (Some a, Some c, n) \<and> a \<noteq> c \<and> a \<in> U \<and> c \<in> U \<and>
     HC a = (Some c, ia, ma, na, Some s) \<and> HC c = (Some a, ic, mc, n, Some s))"

definition sh_link where
  "sh_link SC HC n A i \<longleftrightarrow> (\<exists>p f m k s. HC i = (p, f, m, k, Some s) \<and> f < n \<and> length m = 6 \<and> s \<in> A \<and>
     (fst (SC s) = Some i \<or> fst (snd (SC s)) = Some i))"

lemma links_ok_core:
  "links_ok st A U \<longleftrightarrow>
     (\<forall>s \<in> A. ses_link (\<lambda>i. s_core (AllSessions st i)) (\<lambda>i. sh_core (AllHashes st i)) U s) \<and>
     (\<forall>i \<in> U. sh_link (\<lambda>i. s_core (AllSessions st i)) (\<lambda>i. sh_core (AllHashes st i))
        (length (Interfaces st)) A i)"
  unfolding links_ok_def ses_link_def sh_link_def s_core_def sh_core_def by fastforce

definition core_owner :: "nat option \<times> nat \<times> byte list \<times> u16 \<times> nat option \<Rightarrow> nat option" where
  "core_owner hc = snd (snd (snd (snd hc)))"

lemma ses_link_transfer:
  assumes "ses_link SC HC U s" and "SC' s = SC s"
    and "\<And>i. i \<in> U \<Longrightarrow> core_owner (HC i) = Some s \<Longrightarrow> HC' i = HC i \<and> i \<in> U'"
  shows "ses_link SC' HC' U' s"
proof -
  obtain a c n ia ma na ic mc where s: "SC s = (Some a, Some c, n)" "a \<noteq> c" "a \<in> U" "c \<in> U"
    and h: "HC a = (Some c, ia, ma, na, Some s)" "HC c = (Some a, ic, mc, n, Some s)"
    using assms(1) unfolding ses_link_def by blast
  have "HC' a = HC a \<and> a \<in> U'" "HC' c = HC c \<and> c \<in> U'"
    using assms(3) [of a] assms(3) [of c] s h by (simp_all add: core_owner_def)
  then show ?thesis using s h assms(2) by (simp add: ses_link_def)
qed

lemma sh_link_transfer:
  assumes "sh_link SC HC n A i" and "HC' i = HC i"
    and "\<And>s. s \<in> A \<Longrightarrow> fst (SC s) = Some i \<or> fst (snd (SC s)) = Some i \<Longrightarrow> SC' s = SC s \<and> s \<in> A'"
  shows "sh_link SC' HC' n A' i"
proof -
  obtain p f m k s where h: "HC i = (p, f, m, k, Some s)" "f < n" "length m = 6" and s: "s \<in> A"
    and l: "fst (SC s) = Some i \<or> fst (snd (SC s)) = Some i"
    using assms(1) unfolding sh_link_def by blast
  have "SC' s = SC s \<and> s \<in> A'" using assms(3) [OF s l] .
  then show ?thesis using h l assms(2) by (simp add: sh_link_def)
qed

text \<open>The state of \<^verbatim>\<open>createSession\<close> before the two entries are hashed.\<close>

definition prepared :: "nat \<Rightarrow> nat \<Rightarrow> nat \<Rightarrow> nat \<Rightarrow> nat \<Rightarrow> byte list \<Rightarrow> byte list \<Rightarrow> u16 \<Rightarrow> relay \<Rightarrow> relay" where
  "prepared x a c ac cli acMac cliMac acSes st =
     (let st1 = link_active x (st\<lparr>FreeSessions := s_next (AllSessions st x), NumSessions := NumSessions st + 1\<rparr>)
      in st1\<lparr>AllSessions := (AllSessions st1)(x := (AllSessions st1 x)\<lparr>epoch := Epoch st,
                 acHash := Some a, clientHash := Some c\<rparr>),
             FreeHashes := sh_next (AllHashes st c),
             AllHashes := (AllHashes st)
               (a := (AllHashes st a)\<lparr>sh_peer := Some c, sh_interface := ac, peerMac := acMac,
                        sh_sesNum := acSes, sh_ses := Some x\<rparr>,
                c := (AllHashes st c)\<lparr>sh_peer := Some a, sh_interface := cli, peerMac := cliMac,
                        sh_sesNum := s_sesNum (AllSessions st x), sh_ses := Some x\<rparr>)\<rparr>)"

lemma link_active_sesNum: "s_sesNum (AllSessions (link_active x st) i) = s_sesNum (AllSessions st i)"
  using link_active_frame(1) [of x st i] by (simp add: s_core_def)

lemma createSession_prepared:
  assumes "NumSessions st < MaxSessions st" and "FreeSessions st = Some x"
    and "FreeHashes st = Some a" and "sh_next (AllHashes st a) = Some c" and "a \<noteq> c"
  shows "createSession ac cli acMac cliMac acSes st =
    Some (Some x, addHash c (addHash a (prepared x a c ac cli acMac cliMac acSes st)))"
  using assms
  by (simp add: createSession_def prepared_def Let_def)
     (rule arg_cong [where f = "\<lambda>s. addHash c (addHash a s)"], rule relay.equality;
      simp add: upd_ses_def upd_sh_def link_active_sesNum fun_upd_twist)

lemma table_ok_free:
  assumes "table_ok st act fs bk fh" and "NumSessions st < MaxSessions st"
  obtains x fs' a c fh' where "fs = x # fs'" and "fh = a # c # fh'" and "a \<noteq> c"
    and "FreeSessions st = Some x" and "FreeHashes st = Some a" and "sh_next (AllHashes st a) = Some c"
proof -
  have "length act + length fs = MaxSessions st"
    using assms(1) distinct_card [of "act @ fs"] by (simp add: table_ok_def slists_def)
  then have "fs \<noteq> []" using assms by (auto simp: table_ok_def slists_def)
  then obtain x fs' where fs: "fs = x # fs'" by (cases fs) auto
  then obtain a c fh' where fh: "fh = a # c # fh'"
    using assms(1) by (auto simp: table_ok_def length_Suc_conv numeral_2_eq_2 Suc_length_conv)
  show thesis
    by (rule that [OF fs fh]) (use assms(1) in \<open>auto simp: fs fh table_ok_def slists_def\<close>)
qed

lemma createSession_ok:
  fixes acSes :: u16
  assumes ok: "table_ok st act (x # fs) bk (a # c # fh)"
    and ifs: "ac < length (Interfaces st)" "cli < length (Interfaces st)"
    and macs: "length acMac = 6" "length cliMac = 6"
  defines "st3 \<equiv> prepared x a c ac cli acMac cliMac acSes st"
  defines "bk1 \<equiv> bk(bucket acMac acSes := a # bk (bucket acMac acSes))"
  defines "b2 \<equiv> bucket cliMac (s_sesNum (AllSessions st x))"
  shows "table_ok (addHash c (addHash a st3)) (x # act) fs (bk1(b2 := c # bk1 b2)) fh"
proof -
  have neq: "a \<noteq> c" and nu: "a \<notin> used bk" "c \<notin> used bk" and nf: "a \<notin> set fh" "c \<notin> set fh"
    using ok by (auto simp: table_ok_def)
  have s3: "slists st3 (x # act) fs"
    by (rule slists_cong [OF take_session_slists]) (use ok in \<open>auto simp: table_ok_def st3_def prepared_def Let_def\<close>)
  have h3: "hlists st3 bk"
    by (rule hlists_cong [of st]) (use ok nu in \<open>auto simp: table_ok_def st3_def prepared_def Let_def\<close>)
  have ac: "bucket_of st3 a = bucket acMac acSes" and cc: "bucket_of st3 c = b2"
    using neq by (simp_all add: st3_def prepared_def Let_def b2_def)
  have h4: "hlists (addHash a st3) bk1"
    using addHash_hlists [OF h3 nu(1)] unfolding ac bk1_def .
  have u1: "used bk1 = insert a (used bk)" unfolding bk1_def by (rule used_add) simp
  have cc4: "bucket_of (addHash a st3) c = b2"
    using sh_coreD [OF addHash_frame [of a st3 c]] cc by simp
  have h5: "hlists (addHash c (addHash a st3)) (bk1(b2 := c # bk1 b2))"
    using addHash_hlists [OF h4, of c] nu neq unfolding cc4 u1 by simp
  have u2: "used (bk1(b2 := c # bk1 b2)) = insert c (insert a (used bk))"
    unfolding u1 [symmetric] by (rule used_add) (simp add: b2_def)
  have s5: "slists (addHash c (addHash a st3)) (x # act) fs"
    by (rule slists_cong [OF s3]) simp_all
  have f3: "chain (\<lambda>i. sh_next (AllHashes st3 i)) (FreeHashes st3) fh"
  proof -
    have "chain (\<lambda>i. sh_next (AllHashes st i)) (sh_next (AllHashes st c)) fh"
      using ok by (auto simp: table_ok_def)
    moreover have "sh_next (AllHashes st3 i) = sh_next (AllHashes st i)" for i
      by (simp add: st3_def prepared_def Let_def)
    ultimately show ?thesis by (simp add: st3_def prepared_def Let_def)
  qed
  have f4: "chain (\<lambda>i. sh_next (AllHashes (addHash a st3) i)) (FreeHashes st3) fh"
    by (rule addHash_free_chain [OF h3 _ nf(1) f3]) (use ok in \<open>auto simp: table_ok_def\<close>)
  have f5: "chain (\<lambda>i. sh_next (AllHashes (addHash c (addHash a st3)) i)) (FreeHashes st3) fh"
    by (rule addHash_free_chain [OF h4 _ nf(2) f4]) (use ok nf u1 in \<open>auto simp: table_ok_def\<close>)
  have core: "sh_core (AllHashes (addHash c (addHash a st3)) i) = sh_core (AllHashes st3 i)" for i
    by (simp add: addHash_frame)
  have x: "x \<notin> set act" using ok by (auto simp: table_ok_def slists_def)
  have score: "s_core (AllSessions st3 i) = (if i = x then (Some a, Some c, s_sesNum (AllSessions st x))
      else s_core (AllSessions st i))" for i
    using link_active_frame(1) [of x _ i]
    by (simp add: st3_def prepared_def Let_def s_core_def link_active_sesNum)
  have links: "links_ok (addHash c (addHash a st3)) (set (x # act)) (insert c (insert a (used bk)))"
  proof -
    let ?st = "addHash c (addHash a st3)"
    have hc: "sh_core (AllHashes ?st i) =
        (if i = c then (Some a, cli, cliMac, s_sesNum (AllSessions st x), Some x)
         else if i = a then (Some c, ac, acMac, acSes, Some x) else sh_core (AllHashes st i))" for i
      using neq by (simp add: addHash_frame) (simp add: st3_def prepared_def Let_def sh_core_def)
    have sc: "s_core (AllSessions ?st i) = (if i = x then (Some a, Some c, s_sesNum (AllSessions st x))
      else s_core (AllSessions st i))" for i
      using score by simp
    have ifs': "Interfaces ?st = Interfaces st" by (simp add: st3_def prepared_def Let_def)
    have old: "links_ok st (set act) (used bk)" using ok by (simp add: table_ok_def)
    have U: "ses_link (\<lambda>i. s_core (AllSessions st i)) (\<lambda>i. sh_core (AllHashes st i)) (used bk) s"
      if "s \<in> set act" for s using old that unfolding links_ok_core by blast
    have V: "sh_link (\<lambda>i. s_core (AllSessions st i)) (\<lambda>i. sh_core (AllHashes st i))
        (length (Interfaces st)) (set act) i" if "i \<in> used bk" for i
      using old that unfolding links_ok_core by blast
    show ?thesis
      unfolding links_ok_core hc sc ifs'
    proof (intro conjI ballI)
      fix s assume s: "s \<in> set (x # act)"
      show "ses_link (\<lambda>i. if i = x then (Some a, Some c, s_sesNum (AllSessions st x)) else s_core (AllSessions st i))
          (\<lambda>i. if i = c then (Some a, cli, cliMac, s_sesNum (AllSessions st x), Some x)
             else if i = a then (Some c, ac, acMac, acSes, Some x) else sh_core (AllHashes st i))
          (insert c (insert a (used bk))) s"
      proof (cases "s = x")
        case True
        then show ?thesis using neq by (simp add: ses_link_def)
      next
        case False
        with s have "s \<in> set act" by simp
        from U [OF this] show ?thesis
          by (rule ses_link_transfer) (use False nu in auto)
      qed
    next
      fix i assume i: "i \<in> insert c (insert a (used bk))"
      show "sh_link (\<lambda>i. if i = x then (Some a, Some c, s_sesNum (AllSessions st x)) else s_core (AllSessions st i))
          (\<lambda>i. if i = c then (Some a, cli, cliMac, s_sesNum (AllSessions st x), Some x)
             else if i = a then (Some c, ac, acMac, acSes, Some x) else sh_core (AllHashes st i))
          (length (Interfaces st)) (set (x # act)) i"
      proof (cases "i \<in> used bk")
        case True
        from V [OF this] show ?thesis
          by (rule sh_link_transfer) (use True nu x in auto)
      next
        case False
        with i ifs macs neq show ?thesis by (auto simp: sh_link_def)
      qed
    qed
  qed
  have nums: "\<forall>i < MaxSessions st. s_sesNum (AllSessions st3 i) = htons (of_nat (Suc i))"
  proof (intro allI impI)
    fix i assume i: "i < MaxSessions st"
    have "s_sesNum (AllSessions st3 i) = s_sesNum (AllSessions st i)"
      using score [of i] by (auto simp: s_core_def split: if_splits)
    then show "s_sesNum (AllSessions st3 i) = htons (of_nat (Suc i))"
      using ok i by (simp add: table_ok_def)
  qed
  have ms: "MaxSessions st3 = MaxSessions st" by (simp add: st3_def prepared_def Let_def)
  show ?thesis
    using ok s5 h5 f5 links nums u2 neq nf ms
    by (auto simp: table_ok_def)
qed

lemma find_remove1:
  "List.find P xs \<noteq> Some x \<Longrightarrow> List.find P (remove1 x xs) = List.find P xs"
  by (induction xs) auto

lemma slists_remove: "slists st act fs \<Longrightarrow> x \<in> set act \<Longrightarrow>
    \<exists>as bs. act = as @ x # bs \<and> remove1 x act = as @ bs"
  by (rule remove1_split) (auto simp: slists_def)

lemma freeSession_ok:
  assumes ok: "table_ok st act fs bk fh" and x: "x \<in> set act"
  obtains a c st' bk' where "acHash (AllSessions st x) = Some a" and "clientHash (AllSessions st x) = Some c"
    and "freeSession x st = Some st'"
    and "table_ok st' (remove1 x act) (x # fs) bk' (c # a # fh)"
    and "used bk' = used bk - {a, c}"
    and "\<And>b P. List.find P (bk b) \<noteq> Some a \<Longrightarrow> List.find P (bk b) \<noteq> Some c \<Longrightarrow>
        List.find P (bk' b) = List.find P (bk b)"
    and "\<And>i. sh_core (AllHashes st' i) = sh_core (AllHashes st i)"
    and "\<And>i. s_core (AllSessions st' i) = s_core (AllSessions st i)"
    and "\<And>i. epoch (AllSessions st' i) = epoch (AllSessions st i)"
    and "Interfaces st' = Interfaces st" and "Epoch st' = Epoch st" and "IdleTimeout st' = IdleTimeout st"
    and "MaxSessions st' = MaxSessions st"
proof -
  have links: "links_ok st (set act) (used bk)" and h: "hlists st bk"
    and fd: "set fh \<inter> used bk = {}" and fc: "chain (\<lambda>i. sh_next (AllHashes st i)) (FreeHashes st) fh"
    using ok by (auto simp: table_ok_def)
  obtain a c where a: "acHash (AllSessions st x) = Some a" and c: "clientHash (AllSessions st x) = Some c"
    and ac: "a \<noteq> c" "a \<in> used bk" "c \<in> used bk"
    and sa: "sh_ses (AllHashes st a) = Some x" "sh_ses (AllHashes st c) = Some x"
    using links x unfolding links_ok_def by blast
  obtain as bs where act: "act = as @ x # bs" and rem: "remove1 x act = as @ bs"
    using slists_remove [of st act fs x] ok x by (auto simp: table_ok_def)
  let ?p = "put_session x st"
  let ?u = "unhash a ?p"
  define st' where "st' = (unhash c ?u)\<lparr>NumSessions := NumSessions st - 1\<rparr>"
  let ?b1 = "bucket_of ?p a"
  define bk1 where "bk1 = bk(?b1 := remove1 a (bk ?b1))"
  let ?b2 = "bucket_of ?u c"
  define bk2 where "bk2 = bk1(?b2 := remove1 c (bk1 ?b2))"
  have f: "freeSession x st = Some st'"
    by (simp add: freeSession_def a c st'_def put_session_def Let_def)
  have hp: "hlists ?p bk" by (rule hlists_cong [OF h]) simp_all
  have hu: "hlists ?u bk1" unfolding bk1_def by (rule unhash_hlists [OF hp ac(2)])
  have u1: "used bk1 = used bk - {a}" unfolding bk1_def by (rule used_remove [OF hp])
  have c1: "c \<in> used bk1" using ac u1 by simp
  have h2: "hlists st' bk2"
    by (rule hlists_cong [OF unhash_hlists [OF hu c1], folded bk2_def]) (simp_all add: st'_def)
  have u2: "used bk2 = used bk - {a, c}"
    using used_remove [OF hu, of c] u1 unfolding bk2_def by auto
  have "slists (?p\<lparr>NumSessions := NumSessions st - 1\<rparr>) (as @ bs) (x # fs)"
    by (rule put_session_slists) (use ok act in \<open>auto simp: table_ok_def\<close>)
  then have sl: "slists st' (as @ bs) (x # fs)"
    by (rule slists_cong) (simp_all add: st'_def)
  have "chain (\<lambda>i. sh_next (AllHashes ?u i)) (FreeHashes ?u) (a # fh)"
    by (rule unhash_free_chain [OF hp fd ac(2)]) (use fc in simp)
  then have "chain (\<lambda>i. sh_next (AllHashes (unhash c ?u) i)) (FreeHashes (unhash c ?u)) (c # a # fh)"
    using unhash_free_chain [OF hu _ c1, of "a # fh"] fd u1 by auto
  then have ch: "chain (\<lambda>i. sh_next (AllHashes st' i)) (FreeHashes st') (c # a # fh)"
    by (simp add: st'_def)
  have hc: "sh_core (AllHashes st' i) = sh_core (AllHashes st i)" for i
    by (simp add: st'_def unhash_frame(1))
  have sc: "s_core (AllSessions st' i) = s_core (AllSessions st i)" for i
    by (simp add: st'_def put_session_frame(1))
  have lk: "links_ok st' (set (as @ bs)) (used bk - {a, c})"
    unfolding links_ok_core hc sc
  proof (intro conjI ballI)
    fix s assume s: "s \<in> set (as @ bs)"
    have "s \<noteq> x" and "s \<in> set act" using s ok act by (auto simp: table_ok_def slists_def)
    then have "ses_link (\<lambda>i. s_core (AllSessions st i)) (\<lambda>i. sh_core (AllHashes st i)) (used bk) s"
      using links unfolding links_ok_core by blast
    then show "ses_link (\<lambda>i. s_core (AllSessions st i)) (\<lambda>i. sh_core (AllHashes st i)) (used bk - {a, c}) s"
      by (rule ses_link_transfer) (use sa \<open>s \<noteq> x\<close> in \<open>auto simp: core_owner_def sh_core_def\<close>)
  next
    fix i assume i: "i \<in> used bk - {a, c}"
    then have "sh_link (\<lambda>i. s_core (AllSessions st i)) (\<lambda>i. sh_core (AllHashes st i))
        (length (Interfaces st)) (set act) i"
      using links unfolding links_ok_core by blast
    then show "sh_link (\<lambda>i. s_core (AllSessions st i)) (\<lambda>i. sh_core (AllHashes st i))
        (length (Interfaces st')) (set (as @ bs)) i"
      using i a c act by (auto simp: st'_def s_core_def elim!: sh_link_transfer)
  qed
  have "table_ok st' (as @ bs) (x # fs) bk2 (c # a # fh)"
    using ok sl h2 ch u2 lk ac fd sc
    by (auto simp: table_ok_def st'_def s_core_def)
  moreover have "List.find P (bk2 b) = List.find P (bk b)"
    if "List.find P (bk b) \<noteq> Some a" "List.find P (bk b) \<noteq> Some c" for P b
  proof -
    have eq: "List.find P (bk1 b) = List.find P (bk b)"
      using that(1) find_remove1 [of P "bk b" a] unfolding bk1_def by (metis fun_upd_apply)
    moreover have "List.find P (bk2 b) = List.find P (bk1 b)"
      using that(2) eq find_remove1 [of P "bk1 b" c] unfolding bk2_def by (metis fun_upd_apply)
    ultimately show ?thesis by simp
  qed
  ultimately show thesis
    using that [OF a c f] rem u2 hc sc by (simp add: st'_def put_session_frame(2))
qed

section \<open>Initialisation establishes the invariant\<close>

lemma for_upd_nth:
  "distinct is \<Longrightarrow> for_upd is f arr i = (if i \<in> set is then f i (arr i) else arr i)"
  unfolding for_upd_def by (induction "is" arbitrary: arr) auto

lemma chain_upto:
  assumes "\<And>i. i < n \<Longrightarrow> nx i = (if Suc i < n then Some (Suc i) else None)" and "k < n"
  shows "chain nx (Some k) [k..<n]"
  using assms(2)
proof (induction "n - k" arbitrary: k)
  case 0
  then show ?case by simp
next
  case (Suc m)
  show ?case
  proof (cases "Suc k < n")
    case True
    then have "chain nx (Some (Suc k)) [Suc k..<n]" using Suc by auto
    then show ?thesis using True Suc.prems assms(1) by (simp add: upt_conv_Cons)
  next
    case False
    then have "n = Suc k" using Suc.prems by simp
    then show ?thesis using assms(1) by simp
  qed
qed

lemma init_sessions_fields:
  assumes "i < n"
  shows "s_next (init_sessions n i) = (if Suc i < n then Some (Suc i) else None)"
    and "s_sesNum (init_sessions n i) = htons (of_nat (Suc i))"
  using assms by (auto simp: init_sessions_def Let_def for_upd_nth zero_session_def)

lemma init_hashes_next:
  assumes "i < 2 * n"
  shows "sh_next (init_hashes n i) = (if Suc i < 2 * n then Some (Suc i) else None)"
  using assms by (auto simp: init_hashes_def Let_def for_upd_nth zero_hash_def)

lemma initRelay_ok:
  assumes "1 \<le> n" and "n \<le> 65534" and "\<And>b. b < HASHTAB_SIZE \<Longrightarrow> Buckets st b = None"
  shows "table_ok (initRelay n st) [] [0..<n] (\<lambda>_. []) [0..<2 * n]"
proof -
  let ?st = "initRelay n st"
  have "slists ?st [] [0..<n]"
    unfolding slists_def active.lists_def dll_def
    using assms(1) chain_upto [of n "\<lambda>i. s_next (AllSessions ?st i)" 0]
    by (auto simp: initRelay_def init_sessions_fields)
  moreover have "hlists ?st (\<lambda>_. [])"
    using assms(3) by (simp add: hlists_def chains.lists_def dll_def initRelay_def)
  moreover have "chain (\<lambda>i. sh_next (AllHashes ?st i)) (FreeHashes ?st) [0..<2 * n]"
    using assms(1) chain_upto [of "2 * n" "\<lambda>i. sh_next (AllHashes ?st i)" 0]
    by (auto simp: initRelay_def init_hashes_next)
  ultimately show ?thesis
    using assms(1,2)
    by (auto simp: table_ok_def used_def links_ok_def initRelay_def init_sessions_fields)
qed

section \<open>Lookup\<close>

definition entry_matches :: "relay \<Rightarrow> byte list \<Rightarrow> u16 \<Rightarrow> nat \<Rightarrow> bool" where
  "entry_matches st mac sesNum i \<longleftrightarrow>
     peerMac (AllHashes st i) = mac \<and> sh_sesNum (AllHashes st i) = sesNum"

lemma findSession_loop_chain:
  "chain (\<lambda>i. sh_next (AllHashes st i)) p xs \<Longrightarrow>
     findSession_loop st mac sesNum p = Some (List.find (entry_matches st mac sesNum) xs)"
proof (induction xs arbitrary: p)
  case Nil
  then show ?case by (simp add: findSession_loop.simps)
next
  case (Cons x xs)
  moreover have "entry_matches st mac sesNum x \<longleftrightarrow>
      mac = peerMac (AllHashes st x) \<and> sesNum = sh_sesNum (AllHashes st x)"
    by (auto simp: entry_matches_def)
  ultimately show ?case
    by (subst findSession_loop.simps) auto
qed

lemma findSession_find:
  assumes "table_ok st act fs bk fh"
  shows "findSession st mac sesNum =
    Some (List.find (entry_matches st mac sesNum) (bk (bucket mac sesNum)))"
proof -
  have "chains.lists (bucket mac sesNum) st (bk (bucket mac sesNum))"
    using assms by (simp add: table_ok_def hlists_def)
  then show ?thesis
    by (simp add: findSession_def chains.lists_def dll_def findSession_loop_chain)
qed

lemma findSession_Some:
  assumes "table_ok st act fs bk fh" and "findSession st mac sesNum = Some (Some i)"
  shows "i \<in> used bk" and "entry_matches st mac sesNum i"
  using assms findSession_find [OF assms(1), of mac sesNum]
  by (auto simp: find_Some_iff used_def intro!: bexI [of _ "bucket mac sesNum"])

lemma find_cong_set:
  "(\<And>x. x \<in> set xs \<Longrightarrow> P x = Q x) \<Longrightarrow> List.find P xs = List.find Q xs"
  by (induction xs) auto

lemma createSession_full:
  "NumSessions st \<ge> MaxSessions st \<Longrightarrow> createSession ac cli acMac cliMac acSes st = Some (None, st)"
  by (simp add: createSession_def)


lemma link_active_acHash: "acHash (AllSessions (link_active x st) i) = acHash (AllSessions st i)"
  and link_active_clientHash: "clientHash (AllSessions (link_active x st) i) = clientHash (AllSessions st i)"
  using link_active_frame(1) [of x st i] by (simp_all add: s_core_def)

lemma createSession_obtain:
  assumes ok: "table_ok st act fs bk fh" and room: "NumSessions st < MaxSessions st"
    and ifs: "ac < length (Interfaces st)" "cli < length (Interfaces st)"
    and macs: "length acMac = 6" "length cliMac = 6"
  obtains x fs' a c fh' st' bk1 bk2 where "fs = x # fs'" and "fh = a # c # fh'" and "a \<noteq> c"
    and "createSession ac cli acMac cliMac acSes st = Some (Some x, st')"
    and "table_ok st' (x # act) fs' bk2 fh'"
    and "bk1 = bk(bucket acMac acSes := a # bk (bucket acMac acSes))"
    and "bk2 = bk1(bucket cliMac (s_sesNum (AllSessions st x)) :=
           c # bk1 (bucket cliMac (s_sesNum (AllSessions st x))))"
    and "\<And>i. sh_core (AllHashes st' i) =
        (if i = c then (Some a, cli, cliMac, s_sesNum (AllSessions st x), Some x)
         else if i = a then (Some c, ac, acMac, acSes, Some x) else sh_core (AllHashes st i))"
    and "\<And>i. s_core (AllSessions st' i) =
        (if i = x then (Some a, Some c, s_sesNum (AllSessions st x)) else s_core (AllSessions st i))"
    and "epoch (AllSessions st' x) = Epoch st"
    and "\<And>i. i \<noteq> x \<Longrightarrow> epoch (AllSessions st' i) = epoch (AllSessions st i)"
    and "Interfaces st' = Interfaces st" and "MaxSessions st' = MaxSessions st"
    and "Epoch st' = Epoch st" and "IdleTimeout st' = IdleTimeout st"
proof -
  obtain x fs' a c fh' where f: "fs = x # fs'" "fh = a # c # fh'" "a \<noteq> c"
    and g: "FreeSessions st = Some x" "FreeHashes st = Some a" "sh_next (AllHashes st a) = Some c"
    using table_ok_free [OF ok room] by blast
  let ?p = "prepared x a c ac cli acMac cliMac acSes st"
  have cr: "createSession ac cli acMac cliMac acSes st = Some (Some x, addHash c (addHash a ?p))"
    by (rule createSession_prepared [OF room g f(3)])
  have t: "table_ok st act (x # fs') bk (a # c # fh')" using ok f by simp
  show thesis
    by (rule that [OF f cr createSession_ok [OF t ifs macs] refl refl])
      (use f(3) in \<open>simp_all add: addHash_frame\<close>,
       simp_all add: prepared_def Let_def sh_core_def s_core_def link_active_sesNum
         link_active_acHash link_active_clientHash link_active_frame(2))
qed


lemma core_matches:
  "sh_core (AllHashes st' i) = sh_core (AllHashes st i) \<Longrightarrow>
     entry_matches st' mac n i \<longleftrightarrow> entry_matches st mac n i"
  by (auto simp: entry_matches_def dest: sh_coreD)

lemma bucket_in_used: "i \<in> set (bk (bucket mac n)) \<Longrightarrow> i \<in> used bk"
  by (auto simp: used_def intro!: bexI [of _ "bucket mac n"])

lemma find_push_miss:
  "\<not> P x \<Longrightarrow> List.find P ((bk(b := x # bk b)) b') = List.find P (bk b')"
  by simp

lemma find_create:
  assumes ok: "table_ok st act fs bk fh"
    and ifs: "ac < length (Interfaces st)" "cli < length (Interfaces st)"
    and macs: "length acMac = 6" "length cliMac = 6"
    and cr: "createSession ac cli acMac cliMac acSes st = Some (Some s, st')"
  shows "findSession st' mac n =
    (if mac = cliMac \<and> n = s_sesNum (AllSessions st' s) then Some (clientHash (AllSessions st' s))
     else if mac = acMac \<and> n = acSes then Some (acHash (AllSessions st' s))
     else findSession st mac n)"
proof -
  have room: "NumSessions st < MaxSessions st"
    using cr createSession_full [of st] by (cases "NumSessions st < MaxSessions st") auto
  obtain x fs' a c fh' st'' bk1 bk2 where f: "fs = x # fs'" "fh = a # c # fh'" "a \<noteq> c"
    and cr'': "createSession ac cli acMac cliMac acSes st = Some (Some x, st'')"
    and ok'': "table_ok st'' (x # act) fs' bk2 fh'"
    and b1: "bk1 = bk(bucket acMac acSes := a # bk (bucket acMac acSes))"
    and b2: "bk2 = bk1(bucket cliMac (s_sesNum (AllSessions st x)) :=
           c # bk1 (bucket cliMac (s_sesNum (AllSessions st x))))"
    and hc'': "\<And>i. sh_core (AllHashes st'' i) =
        (if i = c then (Some a, cli, cliMac, s_sesNum (AllSessions st x), Some x)
         else if i = a then (Some c, ac, acMac, acSes, Some x) else sh_core (AllHashes st i))"
    and sc'': "\<And>i. s_core (AllSessions st'' i) =
        (if i = x then (Some a, Some c, s_sesNum (AllSessions st x)) else s_core (AllSessions st i))"
    by (rule createSession_obtain [OF ok room ifs macs]) blast
  have x: "s = x" and st: "st'' = st'" using cr cr'' by simp_all
  note ok' = ok'' [unfolded st] and hc = hc'' [unfolded st] and sc = sc'' [unfolded st]
  define k where "k = s_sesNum (AllSessions st x)"
  have nu: "a \<notin> used bk" "c \<notin> used bk" using ok f by (auto simp: table_ok_def)
  have mc: "entry_matches st' mac n c \<longleftrightarrow> mac = cliMac \<and> n = k"
    using hc [of c] by (auto simp: entry_matches_def sh_core_def k_def)
  have ma: "entry_matches st' mac n a \<longleftrightarrow> mac = acMac \<and> n = acSes"
    using hc [of a] f(3) by (auto simp: entry_matches_def sh_core_def)
  have old: "List.find (entry_matches st' mac n) (bk (bucket mac n)) =
      List.find (entry_matches st mac n) (bk (bucket mac n))"
  proof (rule find_cong_set)
    fix i assume "i \<in> set (bk (bucket mac n))"
    then have "i \<noteq> a" "i \<noteq> c" using nu by (auto dest: bucket_in_used)
    then show "entry_matches st' mac n i = entry_matches st mac n i"
      by (intro core_matches) (simp add: hc)
  qed
  have s: "clientHash (AllSessions st' s) = Some c" "acHash (AllSessions st' s) = Some a"
      "s_sesNum (AllSessions st' s) = k"
    using sc [of x] x by (simp_all add: s_core_def k_def)
  have "List.find (entry_matches st' mac n) (bk2 (bucket mac n)) =
      (if mac = cliMac \<and> n = k then Some c else if mac = acMac \<and> n = acSes then Some a
       else List.find (entry_matches st mac n) (bk (bucket mac n)))"
  proof (cases "mac = cliMac \<and> n = k")
    case True
    then show ?thesis using mc by (simp add: b2 k_def)
  next
    case False
    have "List.find (entry_matches st' mac n) (bk2 (bucket mac n)) =
        List.find (entry_matches st' mac n) (bk1 (bucket mac n))"
      unfolding b2 by (rule find_push_miss) (use False mc in blast)
    moreover have "List.find (entry_matches st' mac n) (bk1 (bucket mac n)) =
        (if mac = acMac \<and> n = acSes then Some a
         else List.find (entry_matches st mac n) (bk (bucket mac n)))"
      using ma old by (cases "mac = acMac \<and> n = acSes") (auto simp: find_push_miss b1)
    ultimately show ?thesis by (simp only: False if_False)
  qed
  then show ?thesis
    unfolding findSession_find [OF ok'] findSession_find [OF ok] s by (simp only: if_distrib [of Some])
qed

lemma find_free:
  assumes ok: "table_ok st act fs bk fh" and x: "x \<in> set act"
    and fr: "freeSession x st = Some st'"
    and i: "findSession st mac n = Some (Some i)" and other: "sh_ses (AllHashes st i) \<noteq> Some x"
  shows "findSession st' mac n = Some (Some i)"
proof -
  obtain a c st'' bk' where ac: "acHash (AllSessions st x) = Some a" "clientHash (AllSessions st x) = Some c"
    and fr': "freeSession x st = Some st''" and ok': "table_ok st'' (remove1 x act) (x # fs) bk' (c # a # fh)"
    and fd: "\<And>b P. List.find P (bk b) \<noteq> Some a \<Longrightarrow> List.find P (bk b) \<noteq> Some c \<Longrightarrow>
        List.find P (bk' b) = List.find P (bk b)"
    and hc: "\<And>i. sh_core (AllHashes st'' i) = sh_core (AllHashes st i)"
    by (rule freeSession_ok [OF ok x]) blast
  have "links_ok st (set act) (used bk)" using ok by (simp add: table_ok_def)
  then have "sh_ses (AllHashes st a) = Some x" "sh_ses (AllHashes st c) = Some x"
    using x ac by (auto simp: links_ok_def)
  then have "i \<noteq> a" "i \<noteq> c" using other by auto
  moreover have m: "entry_matches st'' mac n = entry_matches st mac n"
    using core_matches [OF hc] by auto
  ultimately show ?thesis
    using i fr fr' fd [of "entry_matches st mac n" "bucket mac n"] findSession_find [OF ok']
    by (simp add: findSession_find [OF ok])
qed

lemma find_free_none:
  assumes ok: "table_ok st act fs bk fh" and x: "x \<in> set act"
    and fr: "freeSession x st = Some st'"
    and i: "findSession st' mac n = Some (Some i)"
  shows "sh_ses (AllHashes st' i) \<noteq> Some x"
proof -
  obtain bk' fh' where ok': "table_ok st' (remove1 x act) (x # fs) bk' fh'"
    by (rule freeSession_ok [OF ok x]) (use fr in auto)
  have "i \<in> used bk'" by (rule findSession_Some(1) [OF ok' i])
  then obtain s where "sh_ses (AllHashes st' i) = Some s" "s \<in> set (remove1 x act)"
    using ok' by (auto simp: table_ok_def links_ok_def)
  then show ?thesis using ok x by (auto simp: table_ok_def slists_def)
qed


section \<open>The interface of the session table\<close>

text \<open>
  What the handlers of the relay use: a lookup that always returns, the session that owns an
  entry, creation and release. \<^verbatim>\<open>ok\<close> is the invariant of the provider, \<^verbatim>\<open>live\<close> the set of active
  sessions and \<^verbatim>\<open>nif\<close> the number of interfaces.
\<close>

locale session_table =
  fixes ok :: "'s \<Rightarrow> bool"
    and lookup :: "'s \<Rightarrow> byte list \<Rightarrow> u16 \<Rightarrow> nat option option"
    and owner :: "'s \<Rightarrow> nat \<Rightarrow> nat option"
    and live :: "'s \<Rightarrow> nat set"
    and nif :: "'s \<Rightarrow> nat"
    and create :: "nat \<Rightarrow> nat \<Rightarrow> byte list \<Rightarrow> byte list \<Rightarrow> u16 \<Rightarrow> 's \<Rightarrow> (nat option \<times> 's) option"
    and free :: "nat \<Rightarrow> 's \<Rightarrow> 's option"
  assumes lookup_total: "ok s \<Longrightarrow> \<exists>r. lookup s mac n = Some r"
    and lookup_owner: "ok s \<Longrightarrow> lookup s mac n = Some (Some e) \<Longrightarrow> \<exists>x \<in> live s. owner s e = Some x"
    and create_ok: "ok s \<Longrightarrow> ac < nif s \<Longrightarrow> cli < nif s \<Longrightarrow> length acMac = 6 \<Longrightarrow> length cliMac = 6 \<Longrightarrow>
      \<exists>r s'. create ac cli acMac cliMac acSes s = Some (r, s') \<and> ok s' \<and> nif s' = nif s \<and>
        (case r of None \<Rightarrow> s' = s | Some x \<Rightarrow> x \<notin> live s \<and> live s' = insert x (live s))"
    and free_ok: "ok s \<Longrightarrow> x \<in> live s \<Longrightarrow>
      \<exists>s'. free x s = Some s' \<and> ok s' \<and> nif s' = nif s \<and> live s' = live s - {x}"
    and live_finite: "ok s \<Longrightarrow> finite (live s)"
begin

lemma close_found:
  assumes "ok s" and "lookup s mac n = Some (Some e)"
  obtains x s' where "owner s e = Some x" and "x \<in> live s" and "free x s = Some s'" and "ok s'"
    and "nif s' = nif s" and "live s' = live s - {x}"
  using lookup_owner [OF assms] free_ok [OF assms(1)] by blast

lemma gone:
  assumes "ok s" and "x \<in> live s" and "free x s = Some s'" and "lookup s' mac n = Some (Some e)"
  shows "owner s' e \<noteq> Some x"
proof -
  have "ok s'" and live: "live s' = live s - {x}" using free_ok [OF assms(1,2)] assms(3) by auto
  then obtain y where "y \<in> live s'" "owner s' e = Some y" using lookup_owner [OF _ assms(4)] by blast
  then show ?thesis using live by auto
qed

lemma create_count:
  assumes "ok s" and "ac < nif s" "cli < nif s" and "length acMac = 6" "length cliMac = 6"
    and "create ac cli acMac cliMac acSes s = Some (Some x, s')"
  shows "card (live s') = Suc (card (live s))"
  using create_ok [OF assms(1-5), of acSes] assms(6) live_finite [OF assms(1)] by auto

text \<open>Releasing the sessions of a list one after the other never fails.\<close>

lemma free_many:
  assumes "ok s" and "distinct xs" and "set xs \<subseteq> live s"
  shows "\<exists>s'. fold (\<lambda>x r. Option.bind r (free x)) xs (Some s) = Some s' \<and> ok s' \<and>
    nif s' = nif s \<and> live s' = live s - set xs"
  using assms
proof (induction xs arbitrary: s)
  case Nil
  then show ?case by simp
next
  case (Cons x xs)
  then obtain s1 where 1: "free x s = Some s1" "ok s1" "nif s1 = nif s" "live s1 = live s - {x}"
    using free_ok [of s x] by auto
  with Cons.prems have "set xs \<subseteq> live s1" by auto
  with Cons.IH [of s1] Cons.prems 1 show ?case by auto
qed

end

definition actives :: "relay \<Rightarrow> nat set" where
  "actives st = {x. \<exists>act fs bk fh. table_ok st act fs bk fh \<and> x \<in> set act}"

lemma actives_eq: "table_ok st act fs bk fh \<Longrightarrow> actives st = set act"
proof -
  assume t: "table_ok st act fs bk fh"
  have "act' = act" if "table_ok st act' fs' bk' fh'" for act' fs' bk' fh'
    using that t chain_unique [of "\<lambda>i. s_next (AllSessions st i)" "ActiveSessions st" act' act]
    by (simp add: table_ok_def slists_def active.lists_def dll_def)
  then have "x \<in> actives st \<longleftrightarrow> x \<in> set act" for x
    using t unfolding actives_def by blast
  then show ?thesis by blast
qed

lemma relay_inv_lookup:
  assumes "relay_inv st"
  shows "\<exists>r. findSession st mac n = Some r"
    and "findSession st mac n = Some (Some e) \<Longrightarrow> \<exists>x \<in> actives st. sh_ses (AllHashes st e) = Some x"
proof -
  obtain act fs bk fh where t: "table_ok st act fs bk fh" using assms by (auto simp: relay_inv_def)
  show "\<exists>r. findSession st mac n = Some r" using findSession_find [OF t] by blast
  assume "findSession st mac n = Some (Some e)"
  then have "e \<in> used bk" using findSession_Some(1) [OF t] by blast
  then show "\<exists>x \<in> actives st. sh_ses (AllHashes st e) = Some x"
    using t actives_eq [OF t] by (auto simp: table_ok_def links_ok_def)
qed

lemma relay_inv_create:
  assumes "relay_inv st" and "ac < length (Interfaces st)" "cli < length (Interfaces st)"
    and "length acMac = 6" "length cliMac = 6"
  shows "\<exists>r st'. createSession ac cli acMac cliMac acSes st = Some (r, st') \<and> relay_inv st' \<and>
    length (Interfaces st') = length (Interfaces st) \<and>
    (case r of None \<Rightarrow> st' = st | Some x \<Rightarrow> x \<notin> actives st \<and> actives st' = insert x (actives st))"
proof (cases "NumSessions st < MaxSessions st")
  case False
  then show ?thesis using assms(1) createSession_full [of st] by auto
next
  case True
  obtain act fs bk fh where t: "table_ok st act fs bk fh" using assms by (auto simp: relay_inv_def)
  obtain x fs' st' bk2 fh' where "fs = x # fs'" and c: "createSession ac cli acMac cliMac acSes st = Some (Some x, st')"
    and t': "table_ok st' (x # act) fs' bk2 fh'" and i: "Interfaces st' = Interfaces st"
    by (rule createSession_obtain [OF t True assms(2-5)]) blast
  moreover from this have "x \<notin> set act" using t by (auto simp: table_ok_def slists_def)
  ultimately show ?thesis
    using actives_eq [OF t] actives_eq [OF t'] by (auto simp: relay_inv_def)
qed

lemma relay_inv_free:
  assumes "relay_inv st" and "x \<in> actives st"
  shows "\<exists>st'. freeSession x st = Some st' \<and> relay_inv st' \<and>
    length (Interfaces st') = length (Interfaces st) \<and> actives st' = actives st - {x}"
proof -
  obtain act fs bk fh where t: "table_ok st act fs bk fh" using assms by (auto simp: relay_inv_def)
  then have x: "x \<in> set act" and d: "distinct act"
    using assms(2) actives_eq [OF t] by (auto simp: table_ok_def slists_def)
  obtain st' bk' fh' where "freeSession x st = Some st'"
    and t': "table_ok st' (remove1 x act) (x # fs) bk' fh'" and "Interfaces st' = Interfaces st"
    by (rule freeSession_ok [OF t x]) blast
  then show ?thesis
    using d actives_eq [OF t] actives_eq [OF t'] by (auto simp: relay_inv_def)
qed

interpretation tbl: session_table relay_inv findSession "\<lambda>st i. sh_ses (AllHashes st i)" actives
  "\<lambda>st. length (Interfaces st)" createSession freeSession
proof unfold_locales
  show "finite (actives st)" if "relay_inv st" for st
    using that actives_eq by (auto simp: relay_inv_def)
qed (blast intro: relay_inv_lookup relay_inv_create relay_inv_free)+

lemma relay_inv_num:
  assumes "relay_inv st"
  shows "NumSessions st = card (actives st)" and "NumSessions st \<le> MaxSessions st"
proof -
  obtain act fs bk fh where t: "table_ok st act fs bk fh" using assms by (auto simp: relay_inv_def)
  then have "distinct act" "NumSessions st = length act" "set act \<subseteq> {..<MaxSessions st}"
    by (auto simp: table_ok_def slists_def)
  then show "NumSessions st = card (actives st)" "NumSessions st \<le> MaxSessions st"
    using actives_eq [OF t] card_mono [of "{..<MaxSessions st}" "set act"] by (auto simp: distinct_card)
qed

section \<open>Properties of the session table\<close>

text \<open>The globals of the relay when it starts, with two interfaces, and two small tables.\<close>

definition blank_relay :: relay where
  "blank_relay = \<lparr>Interfaces = [\<lparr>if_name = ''eth0'', discoverySock = 3, sessionSock = 4, clientOK = True,
       acOK = False, if_mac = [2, 0, 0, 0, 0, 1]\<rparr>,
     \<lparr>if_name = ''eth1'', discoverySock = 5, sessionSock = 6, clientOK = False, acOK = True,
       if_mac = [2, 0, 0, 0, 0, 2]\<rparr>],
     NumSessions = 0, MaxSessions = 0, AllSessions = (\<lambda>_. zero_session), FreeSessions = None,
     ActiveSessions = None, AllHashes = (\<lambda>_. zero_hash), FreeHashes = None, Buckets = (\<lambda>_. None),
     Epoch = 0, CleanCounter = 0, CleanPeriod = 30, IdleTimeout = 600, CleanPipe = 0\<rparr>"

definition demo_empty :: relay where
  "demo_empty = initRelay 2 blank_relay"

definition demo_one :: relay where
  "demo_one = snd (the (createSession 1 0 [2, 0, 0, 0, 0, 9] [2, 0, 0, 0, 0, 7] 0x500 demo_empty))"

lemma demo_empty_ok: "table_ok demo_empty [] [0..<2] (\<lambda>_. []) [0..<2 * 2]"
  unfolding demo_empty_def by (rule initRelay_ok) (simp_all add: blank_relay_def)

lemma demo_empty_fields: "length (Interfaces demo_empty) = 2" "NumSessions demo_empty = 0" "MaxSessions demo_empty = 2"
  by (simp_all add: demo_empty_def initRelay_def blank_relay_def)

lemma demo_one_facts:
  shows "\<exists>bk fh. table_ok demo_one [0] [1] bk fh" and "MaxSessions demo_one = 2"
    and "length (Interfaces demo_one) = 2" and "Interfaces demo_one = Interfaces demo_empty"
proof -
  have room: "NumSessions demo_empty < MaxSessions demo_empty" by (simp add: demo_empty_fields)
  have up: "[0..<2] = [0, Suc 0]" by (simp add: numeral_2_eq_2)
  obtain x fs' st' bk2 fh' where "[0..<2] = x # fs'"
    and c: "createSession 1 0 [2, 0, 0, 0, 0, 9] [2, 0, 0, 0, 0, 7] 0x500 demo_empty = Some (Some x, st')"
    and t: "table_ok st' [x] fs' bk2 fh'" "Interfaces st' = Interfaces demo_empty"
      "MaxSessions st' = MaxSessions demo_empty"
    by (rule createSession_obtain [OF demo_empty_ok room, of 1 0 "[2, 0, 0, 0, 0, 9]" "[2, 0, 0, 0, 0, 7]" "0x500"])
      (auto simp: demo_empty_fields)
  then have "x = 0" "fs' = [1]" "st' = demo_one" by (simp_all add: up demo_one_def)
  then show "\<exists>bk fh. table_ok demo_one [0] [1] bk fh" "MaxSessions demo_one = 2"
    "length (Interfaces demo_one) = 2" "Interfaces demo_one = Interfaces demo_empty"
    using t by (auto simp: demo_empty_fields)
qed

lemma demo_one_inv: "relay_inv demo_one" "actives demo_one = {0}" "NumSessions demo_one = 1"
proof -
  obtain bk fh where t: "table_ok demo_one [0] [1] bk fh" using demo_one_facts(1) by blast
  show "relay_inv demo_one" using t unfolding relay_inv_def by blast
  show "actives demo_one = {0}" using actives_eq [OF t] by simp
  show "NumSessions demo_one = 1" using t by (simp add: table_ok_def slists_def)
qed

text \<open>
  \<^verbatim>\<open>initRelay\<close> (after the zeroed buckets of the program start, with a session count in the
  range that \<^verbatim>\<open>main\<close> accepts) builds a table that satisfies the invariant, with no session active.
\<close>

theorem initRelay_correct:
  assumes "1 \<le> n" and "n \<le> 65534" and "\<forall>b < HASHTAB_SIZE. Buckets st b = None"
  shows "relay_inv (initRelay n st) \<and> NumSessions (initRelay n st) = 0 \<and> actives (initRelay n st) = {}"
proof -
  have t: "table_ok (initRelay n st) [] [0..<n] (\<lambda>_. []) [0..<2 * n]"
    using assms by (intro initRelay_ok) auto
  moreover have "NumSessions (initRelay n st) = 0" by (simp add: initRelay_def)
  ultimately show ?thesis using actives_eq [OF t] unfolding relay_inv_def by auto
qed

theorem initRelay_correct_witness:
  "Buckets blank_relay = (\<lambda>b. None) \<and> relay_inv (initRelay 5 blank_relay) \<and>
   actives (initRelay 5 blank_relay) = {}"
  using initRelay_correct [of 5 blank_relay] by (simp add: blank_relay_def)

text \<open>
  \<^verbatim>\<open>findSession\<close> always returns on a table that satisfies the invariant. What it returns is an
  entry of an active session with the address and number asked for; when it returns NULL, no
  active session has such an entry.
\<close>

theorem findSession_correct:
  assumes "relay_inv st"
  shows "\<exists>r. findSession st mac n = Some r \<and> (case r of
      Some i \<Rightarrow> peerMac (AllHashes st i) = mac \<and> sh_sesNum (AllHashes st i) = n \<and>
        (\<exists>x \<in> actives st. sh_ses (AllHashes st i) = Some x \<and>
           (acHash (AllSessions st x) = Some i \<or> clientHash (AllSessions st x) = Some i))
    | None \<Rightarrow> \<forall>x \<in> actives st. \<forall>i. acHash (AllSessions st x) = Some i \<or> clientHash (AllSessions st x) = Some i \<longrightarrow>
        \<not> (peerMac (AllHashes st i) = mac \<and> sh_sesNum (AllHashes st i) = n))"
proof -
  obtain act fs bk fh where t: "table_ok st act fs bk fh" using assms by (auto simp: relay_inv_def)
  have l: "links_ok st (set act) (used bk)" and h: "hlists st bk" using t by (simp_all add: table_ok_def)
  show ?thesis
  proof (cases "List.find (entry_matches st mac n) (bk (bucket mac n))")
    case (Some i)
    then have f: "findSession st mac n = Some (Some i)" by (simp add: findSession_find [OF t])
    have "i \<in> used bk" by (rule findSession_Some(1) [OF t f])
    then show ?thesis
      using f l findSession_Some(2) [OF t f] actives_eq [OF t] unfolding links_ok_def entry_matches_def by auto
  next
    case None
    have "\<not> (peerMac (AllHashes st i) = mac \<and> sh_sesNum (AllHashes st i) = n)"
      if "x \<in> set act" "acHash (AllSessions st x) = Some i \<or> clientHash (AllSessions st x) = Some i" for x i
    proof
      assume m: "peerMac (AllHashes st i) = mac \<and> sh_sesNum (AllHashes st i) = n"
      have "i \<in> used bk" using l that unfolding links_ok_def by auto
      then have "i \<in> set (bk (bucket mac n))" using m hlists_in_bucket [OF h, of i] by simp
      then show False using None m by (auto simp: find_None_iff entry_matches_def)
    qed
    then show ?thesis
      using None actives_eq [OF t] by (auto simp: findSession_find [OF t])
  qed
qed

theorem findSession_correct_witness:
  "relay_inv demo_one \<and> (\<exists>r. findSession demo_one [2, 0, 0, 0, 0, 7] 0x100 = Some r)"
  using findSession_correct [OF demo_one_inv(1), of "[2, 0, 0, 0, 0, 7]" "0x100"] demo_one_inv(1) by blast

text \<open>
  \<^verbatim>\<open>createSession\<close> refuses when the table is full and changes nothing. Otherwise it activates a
  session that was free, keeps the invariant, and afterwards a lookup finds the client entry
  under the client's address and the new session number, the access concentrator entry under
  its address and number, and for every other key what it found before.
\<close>

theorem createSession_correct:
  assumes "relay_inv st" and "ac < length (Interfaces st)" and "cli < length (Interfaces st)"
    and "length acMac = 6" and "length cliMac = 6"
  shows "if NumSessions st \<ge> MaxSessions st
     then createSession ac cli acMac cliMac acSes st = Some (None, st)
     else \<exists>x st'. createSession ac cli acMac cliMac acSes st = Some (Some x, st') \<and> relay_inv st' \<and>
       x \<notin> actives st \<and> actives st' = insert x (actives st) \<and> NumSessions st' = NumSessions st + 1 \<and>
       (\<forall>mac n. findSession st' mac n =
         (if mac = cliMac \<and> n = s_sesNum (AllSessions st' x) then Some (clientHash (AllSessions st' x))
          else if mac = acMac \<and> n = acSes then Some (acHash (AllSessions st' x))
          else findSession st mac n))"
proof (cases "NumSessions st \<ge> MaxSessions st")
  case True
  then show ?thesis by (simp add: createSession_full)
next
  case False
  obtain act fs bk fh where t: "table_ok st act fs bk fh" using assms by (auto simp: relay_inv_def)
  obtain x st' fs' bk2 fh' where fs: "fs = x # fs'"
    and c: "createSession ac cli acMac cliMac acSes st = Some (Some x, st')"
    and t': "table_ok st' (x # act) fs' bk2 fh'"
    by (rule createSession_obtain [OF t _ assms(2-5)]) (use False in auto)
  have "x \<notin> set act" "NumSessions st' = NumSessions st + 1"
    using t t' by (auto simp: table_ok_def slists_def fs)
  moreover have "relay_inv st'" using t' by (auto simp: relay_inv_def)
  ultimately show ?thesis
    using False c find_create [OF t assms(2-5) c] actives_eq [OF t] actives_eq [OF t'] by auto
qed

theorem createSession_correct_witness:
  "relay_inv demo_one \<and> NumSessions demo_one < MaxSessions demo_one \<and>
   (\<exists>x st'. createSession 1 0 [2, 0, 0, 0, 0, 9] [2, 0, 0, 0, 0, 8] 0x600 demo_one = Some (Some x, st') \<and>
      relay_inv st')"
  using createSession_correct [OF demo_one_inv(1), of 1 0 "[2, 0, 0, 0, 0, 9]" "[2, 0, 0, 0, 0, 8]" "0x600"]
    demo_one_inv demo_one_facts(2,3) by auto

text \<open>
  \<^verbatim>\<open>freeSession\<close> on an active session returns, keeps the invariant and removes exactly that
  session: lookups that found an entry of another session still find it, and no lookup finds
  an entry of the freed one.
\<close>

theorem freeSession_correct:
  assumes "relay_inv st" and "x \<in> actives st"
  shows "\<exists>st'. freeSession x st = Some st' \<and> relay_inv st' \<and> actives st' = actives st - {x} \<and>
    NumSessions st' = NumSessions st - 1 \<and>
    (\<forall>mac n i. findSession st mac n = Some (Some i) \<and> sh_ses (AllHashes st i) \<noteq> Some x \<longrightarrow>
       findSession st' mac n = Some (Some i)) \<and>
    (\<forall>mac n i. findSession st' mac n = Some (Some i) \<longrightarrow> sh_ses (AllHashes st' i) \<noteq> Some x)"
proof -
  obtain act fs bk fh where t: "table_ok st act fs bk fh" using assms by (auto simp: relay_inv_def)
  have x: "x \<in> set act" using assms(2) actives_eq [OF t] by simp
  obtain st' where s: "freeSession x st = Some st'" "relay_inv st'" "actives st' = actives st - {x}"
    using relay_inv_free [OF assms] by blast
  have "NumSessions st' = NumSessions st - 1"
    using relay_inv_num(1) [OF assms(1)] relay_inv_num(1) [OF s(2)] assms(2) s(3)
      tbl.live_finite [OF assms(1)] by simp
  then show ?thesis
    using s find_free [OF t x s(1)] find_free_none [OF t x s(1)] by blast
qed

theorem freeSession_correct_witness:
  "relay_inv demo_one \<and> 0 \<in> actives demo_one \<and> (\<exists>st'. freeSession 0 demo_one = Some st' \<and> actives st' = {})"
  using freeSession_correct [of demo_one 0] demo_one_inv by auto

text \<open>
  The session numbers that the relay hands out are distinct, and none is 0 or 0xFFFF, the two
  values that the protocol reserves.
\<close>

theorem session_numbers:
  assumes "relay_inv st" and "x < MaxSessions st"
  shows "ntohs (s_sesNum (AllSessions st x)) \<noteq> 0 \<and> ntohs (s_sesNum (AllSessions st x)) \<noteq> 0xFFFF \<and>
    (\<forall>y < MaxSessions st. s_sesNum (AllSessions st y) = s_sesNum (AllSessions st x) \<longrightarrow> y = x)"
proof -
  obtain act fs bk fh where t: "table_ok st act fs bk fh" using assms by (auto simp: relay_inv_def)
  have m: "MaxSessions st \<le> 65534" and n: "\<And>i. i < MaxSessions st \<Longrightarrow> s_sesNum (AllSessions st i) = htons (of_nat (Suc i))"
    using t by (auto simp: table_ok_def)
  have u: "unat (of_nat (Suc i) :: u16) = Suc i" if "i < MaxSessions st" for i
    using that m by (intro unat_of_nat_u16) simp
  have "ntohs (s_sesNum (AllSessions st x)) = of_nat (Suc x)"
    using n [OF assms(2)] by simp
  then have v: "unat (ntohs (s_sesNum (AllSessions st x))) = Suc x"
    using u [OF assms(2)] by simp
  have "y = x" if "y < MaxSessions st" "s_sesNum (AllSessions st y) = s_sesNum (AllSessions st x)" for y
    using n [OF that(1)] that v u [OF that(1)] by (metis Suc_inject htons_htons)
  moreover have "unat (0xFFFF :: u16) = 65535" by simp
  ultimately show ?thesis using v assms(2) m by fastforce
qed

theorem session_numbers_witness:
  "relay_inv demo_one \<and> 0 < MaxSessions demo_one \<and> ntohs (s_sesNum (AllSessions demo_one 0)) \<noteq> 0"
  using session_numbers [OF demo_one_inv(1), of 0] demo_one_inv(1) demo_one_facts(2) by simp

end
