(* ===== verification/Relay.thy ===== *)
theory Relay
  imports Relay_Table
begin

unbundle bit_operations_syntax

text \<open>
  The PPPoE relay daemon (\<^verbatim>\<open>relay.c\<close>): the handlers of discovery and session packets, the error
  frames, the idle-session cleaner, the alarm handler, one round of \<^verbatim>\<open>relayLoop\<close> and the set-up
  of \<^verbatim>\<open>main\<close>. A handler maps the state and the packet to the new state and the frames it sends;
  \<^verbatim>\<open>None\<close> is undefined behaviour (a NULL dereference, an access out of bounds, a list walk
  that does not end). Stack variables that the code leaves uninitialised are the record
  \<^verbatim>\<open>relay_stack\<close>, a parameter of every handler. Log messages are not modelled.
\<close>

section \<open>Definitions\<close>

definition MY_RELAY_TAG_LEN :: nat where [simp]: "MY_RELAY_TAG_LEN = 10"
definition MAX_INTERFACES :: nat where [simp]: "MAX_INTERFACES = 8"
definition DEFAULT_SESSIONS :: int where [simp]: "DEFAULT_SESSIONS = 5000"
definition MIN_CLEAN_PERIOD :: u32 where [simp]: "MIN_CLEAN_PERIOD = 30"
definition TIMEOUT_DIVISOR :: u32 where [simp]: "TIMEOUT_DIVISOR = 20"
definition IFNAMSIZ :: nat where [simp]: "IFNAMSIZ = 16"

record relay_stack =
  u_packet :: PPPoEPacket
  u_tag :: PPPoETag
  u_hostUniq :: PPPoETag
  u_errPacket :: PPPoEPacket
  u_errTag :: PPPoETag

type_synonym relay_result = "(relay \<times> frame list) option"

text \<open>
  Access to \<^verbatim>\<open>Interfaces[k]\<close>, undefined outside the \<^verbatim>\<open>NumInterfaces\<close> entries in use (the array has
  \<^verbatim>\<open>MAX_INTERFACES\<close> elements, so this is stricter than the language). A pointer to an interface
  is its index.
\<close>

definition iface_at :: "relay \<Rightarrow> int \<Rightarrow> PPPoEInterface option" where
  "iface_at st k = (if 0 \<le> k \<and> k < int (length (Interfaces st)) then Some (Interfaces st ! nat k) else None)"

definition relaySendError ::
  "relay_stack \<Rightarrow> byte \<Rightarrow> u16 \<Rightarrow> PPPoEInterface \<Rightarrow> byte list \<Rightarrow> PPPoETag option \<Rightarrow> byte list \<Rightarrow> frame list option" where
  "relaySendError stk cd ses iface mac hostUniq errMsg =
     (let packet = (u_errPacket stk)\<lparr>h_source := if_mac iface, h_dest := mac,
                     h_proto := htons ETH_PPPOE_DISCOVERY, ptype := 1, pver := 1, code := cd,
                     session := ses, plength := htons 0\<rparr>
      in do {
        (r, packet) \<leftarrow> (case hostUniq of None \<Rightarrow> Some (0, packet) | Some hu \<Rightarrow> addTag packet hu);
        if r < 0 then Some []
        else do {
          str \<leftarrow> memcpy_at (tpayload (u_errTag stk)) 0 (errMsg @ [0]);
          let errTag = \<lparr>ttype = htons TAG_GENERIC_ERROR, tlength = htons (of_nat (length errMsg)),
                        tpayload = str\<rparr>;
          (r, packet) \<leftarrow> addTag packet errTag;
          if r < 0 then Some []
          else do {
            let sz = int (pkt_len packet + HDR_SIZE);
            frm \<leftarrow> (if cd = CODE_PADT then sendPacket (discoverySock iface) packet sz
                    else sendPacket (sessionSock iface) packet sz);
            Some [frm]
          }
        }
      })"

definition relayHandlePADT :: "nat \<Rightarrow> PPPoEPacket \<Rightarrow> int \<Rightarrow> relay \<Rightarrow> relay_result" where
  "relayHandlePADT i packet sz st =
     do {
       found \<leftarrow> findSession st (h_source packet) (session packet);
       case found of None \<Rightarrow> Some (st, [])
       | Some sh0 \<Rightarrow> do {
           sh \<leftarrow> sh_peer (AllHashes st sh0);
           ses \<leftarrow> sh_ses (AllHashes st sh);
           iface \<leftarrow> iface_at st (int (sh_interface (AllHashes st sh)));
           let packet = packet\<lparr>session := sh_sesNum (AllHashes st sh), h_source := if_mac iface,
                               h_dest := peerMac (AllHashes st sh)\<rparr>;
           frm \<leftarrow> sendPacket (sessionSock iface) packet sz;
           st \<leftarrow> freeSession ses st;
           Some (st, [frm])
         }
     }"

fun send_all :: "nat list \<Rightarrow> (nat \<Rightarrow> frame list option) \<Rightarrow> frame list option" where
  "send_all [] f = Some []"
| "send_all (x # xs) f = do { ys \<leftarrow> f x; zs \<leftarrow> send_all xs f; Some (ys @ zs) }"

definition relayHandlePADI :: "relay_stack \<Rightarrow> nat \<Rightarrow> PPPoEPacket \<Rightarrow> int \<Rightarrow> relay \<Rightarrow> relay_result" where
  "relayHandlePADI stk i packet sz st = do {
      iface \<leftarrow> iface_at st (int i);
      if \<not> clientOK iface then Some (st, [])
      else if NOT_UNICAST (h_source packet) then Some (st, [])
      else if NOT_BROADCAST (h_dest packet) then Some (st, [])
      else do {
        loc \<leftarrow> findTag packet TAG_RELAY_SESSION_ID (u_tag stk);
        case loc of Some _ \<Rightarrow> Some (st, [])
        | None \<Rightarrow> do {
            pl \<leftarrow> memcpy_at (tpayload (u_tag stk)) 0 (le32 (of_nat i));
            pl \<leftarrow> memcpy_at pl 4 (h_source packet);
            let tag = \<lparr>ttype = htons TAG_RELAY_SESSION_ID, tlength = htons (of_nat MY_RELAY_TAG_LEN),
                       tpayload = pl\<rparr>;
            (r, packet) \<leftarrow> addTag packet tag;
            if r < 0 then Some (st, [])
            else do {
              let sz = sz + r;
              frms \<leftarrow> send_all (filter (\<lambda>k. k \<noteq> i) [0..<length (Interfaces st)])
                (\<lambda>k. do {
                   out \<leftarrow> iface_at st (int k);
                   if \<not> acOK out then Some []
                   else do { frm \<leftarrow> sendPacket (discoverySock out) (packet\<lparr>h_source := if_mac out\<rparr>) sz; Some [frm] }
                 });
              Some (st, frms)
            }
          }
      }
    }"

definition relayHandlePADO :: "relay_stack \<Rightarrow> nat \<Rightarrow> PPPoEPacket \<Rightarrow> int \<Rightarrow> relay \<Rightarrow> relay_result" where
  "relayHandlePADO stk i packet sz st = do {
      iface \<leftarrow> iface_at st (int i);
      if \<not> acOK iface then Some (st, [])
      else if NOT_UNICAST (h_source packet) then Some (st, [])
      else if h_dest packet \<noteq> if_mac iface then Some (st, [])
      else do {
        found \<leftarrow> findTag packet TAG_RELAY_SESSION_ID (u_tag stk);
        case found of None \<Rightarrow> Some (st, [])
        | Some (loc, tag) \<Rightarrow>
            if tag_len tag \<noteq> MY_RELAY_TAG_LEN then Some (st, [])
            else do {
              idx \<leftarrow> mem_read (tpayload tag) 0 4;
              let ifIndex = sint (load32 idx);
              if ifIndex < 0 \<or> ifIndex \<ge> int (length (Interfaces st)) then Some (st, [])
              else do {
                out \<leftarrow> iface_at st ifIndex;
                if \<not> clientOK out \<or> int i = ifIndex then Some (st, [])
                else do {
                  pl \<leftarrow> memcpy_at (payload packet) (loc + TAG_HDR_SIZE) (le32 (of_nat i));
                  pl \<leftarrow> memcpy_at pl (loc + TAG_HDR_SIZE + 4) (h_source packet);
                  mac \<leftarrow> mem_read (tpayload tag) 4 ETH_ALEN;
                  let packet = packet\<lparr>payload := pl, h_dest := mac, h_source := if_mac out\<rparr>;
                  frm \<leftarrow> sendPacket (discoverySock out) packet sz;
                  Some (st, [frm])
                }
              }
            }
      }
    }"

definition relayHandlePADR :: "relay_stack \<Rightarrow> nat \<Rightarrow> PPPoEPacket \<Rightarrow> int \<Rightarrow> relay \<Rightarrow> relay_result" where
  "relayHandlePADR stk i packet sz st = do {
      iface \<leftarrow> iface_at st (int i);
      if \<not> clientOK iface then Some (st, [])
      else if NOT_UNICAST (h_source packet) then Some (st, [])
      else if h_dest packet \<noteq> if_mac iface then Some (st, [])
      else do {
        found \<leftarrow> findTag packet TAG_RELAY_SESSION_ID (u_tag stk);
        case found of None \<Rightarrow> Some (st, [])
        | Some (loc, tag) \<Rightarrow>
            if tag_len tag \<noteq> MY_RELAY_TAG_LEN then Some (st, [])
            else do {
              idx \<leftarrow> mem_read (tpayload tag) 0 4;
              let ifIndex = sint (load32 idx);
              if ifIndex < 0 \<or> ifIndex \<ge> int (length (Interfaces st)) then Some (st, [])
              else do {
                out \<leftarrow> iface_at st ifIndex;
                if \<not> acOK out \<or> int i = ifIndex then Some (st, [])
                else do {
                  pl \<leftarrow> memcpy_at (payload packet) (loc + TAG_HDR_SIZE) (le32 (of_nat i));
                  pl \<leftarrow> memcpy_at pl (loc + TAG_HDR_SIZE + 4) (h_source packet);
                  mac \<leftarrow> mem_read (tpayload tag) 4 ETH_ALEN;
                  let packet = packet\<lparr>payload := pl, h_dest := mac, h_source := if_mac out\<rparr>;
                  frm \<leftarrow> sendPacket (discoverySock out) packet sz;
                  Some (st, [frm])
                }
              }
            }
      }
    }"

definition relay_alloc_msg :: "byte list" where
  "relay_alloc_msg = cstr ''RP-PPPoE: Relay: Unable to allocate session''"

definition relay_idle_msg :: "byte list" where
  "relay_idle_msg = cstr ''RP-PPPoE: Relay: Session exceeded idle timeout''"

text \<open>
  The middle of \<^verbatim>\<open>relayHandlePADS\<close>, which finds or creates the session: \<^verbatim>\<open>Inl\<close> the error frames when
  none can be allocated, \<^verbatim>\<open>Inr\<close> the session number for the client otherwise.
\<close>

definition pads_session ::
  "relay_stack \<Rightarrow> nat \<Rightarrow> nat \<Rightarrow> PPPoEPacket \<Rightarrow> nat \<Rightarrow> relay \<Rightarrow> (relay \<times> (frame list + u16)) option" where
  "pads_session stk i cli packet loc st =
     (if session packet = htons 0 then Some (st, Inr (session packet))
      else do {
        sh \<leftarrow> findSession st (h_source packet) (session packet);
        cliMac \<leftarrow> mem_read (payload packet) (loc + TAG_HDR_SIZE + 4) ETH_ALEN;
        (ses, st) \<leftarrow> (case Option.bind sh (\<lambda>h. sh_ses (AllHashes st h)) of
            Some ses \<Rightarrow> Some (Some ses, st)
          | None \<Rightarrow> createSession i cli (h_source packet) cliMac (session packet) st);
        case ses of Some ses \<Rightarrow> Some (st, Inr (s_sesNum (AllSessions st ses)))
        | None \<Rightarrow> do {
            hu \<leftarrow> findTag packet TAG_HOST_UNIQ (u_hostUniq stk);
            out \<leftarrow> iface_at st (int cli);
            e1 \<leftarrow> relaySendError stk CODE_PADS (htons 0) out cliMac (map_option snd hu) relay_alloc_msg;
            iface \<leftarrow> iface_at st (int i);
            e2 \<leftarrow> relaySendError stk CODE_PADT (session packet) iface (h_source packet) None relay_alloc_msg;
            Some (st, Inl (e1 @ e2))
          }
      })"

definition relayHandlePADS :: "relay_stack \<Rightarrow> nat \<Rightarrow> PPPoEPacket \<Rightarrow> int \<Rightarrow> relay \<Rightarrow> relay_result" where
  "relayHandlePADS stk i packet sz st = do {
      iface \<leftarrow> iface_at st (int i);
      if \<not> acOK iface then Some (st, [])
      else if NOT_UNICAST (h_source packet) then Some (st, [])
      else if h_dest packet \<noteq> if_mac iface then Some (st, [])
      else do {
        found \<leftarrow> findTag packet TAG_RELAY_SESSION_ID (u_tag stk);
        case found of None \<Rightarrow> Some (st, [])
        | Some (loc, tag) \<Rightarrow>
            if tag_len tag \<noteq> MY_RELAY_TAG_LEN then Some (st, [])
            else do {
              idx \<leftarrow> mem_read (tpayload tag) 0 4;
              let ifIndex = sint (load32 idx);
              if ifIndex < 0 \<or> ifIndex \<ge> int (length (Interfaces st)) then Some (st, [])
              else do {
                out \<leftarrow> iface_at st ifIndex;
                if \<not> clientOK out \<or> int i = ifIndex then Some (st, [])
                else do {
                  (st, r) \<leftarrow> pads_session stk i (nat ifIndex) packet loc st;
                  case r of Inl errs \<Rightarrow> Some (st, errs)
                  | Inr num \<Rightarrow> do {
                      (_, packet) \<leftarrow> removeBytes (packet\<lparr>session := num\<rparr>) (int loc)
                                       (int (MY_RELAY_TAG_LEN + TAG_HDR_SIZE));
                      let sz = sz - int (MY_RELAY_TAG_LEN + TAG_HDR_SIZE);
                      mac \<leftarrow> mem_read (tpayload tag) 4 ETH_ALEN;
                      let packet = packet\<lparr>h_dest := mac, h_source := if_mac out\<rparr>;
                      frm \<leftarrow> sendPacket (discoverySock out) packet sz;
                      Some (st, [frm])
                    }
                }
              }
            }
      }
    }"

text \<open>
  Both receive functions get the frame that \<^verbatim>\<open>recv\<close> stores into the uninitialised packet;
  \<^verbatim>\<open>None\<close> is a failed receive. The socket is read from the interface, which must exist.
\<close>

definition relayGotDiscoveryPacket ::
  "relay_stack \<Rightarrow> nat \<Rightarrow> byte list option \<Rightarrow> relay \<Rightarrow> relay_result" where
  "relayGotDiscoveryPacket stk i input st = do {
     _ \<leftarrow> iface_at st (int i);
     (case input of None \<Rightarrow> Some (st, [])
      | Some frm \<Rightarrow>
          (let (packet, sz) = receivePacket (u_packet stk) frm
           in if pver packet \<noteq> 1 \<or> ptype packet \<noteq> 1 then Some (st, [])
              else if int (pkt_len packet + HDR_SIZE) > sz then Some (st, [])
              else (let sz = (if sz > int (pkt_len packet + HDR_SIZE) then int (pkt_len packet + HDR_SIZE) else sz)
                in if code packet = CODE_PADT then relayHandlePADT i packet sz st
                   else if code packet = CODE_PADI then relayHandlePADI stk i packet sz st
                   else if code packet = CODE_PADO then relayHandlePADO stk i packet sz st
                   else if code packet = CODE_PADR then relayHandlePADR stk i packet sz st
                   else if code packet = CODE_PADS then relayHandlePADS stk i packet sz st
                   else Some (st, []))))
   }"

definition relayGotSessionPacket ::
  "relay_stack \<Rightarrow> nat \<Rightarrow> byte list option \<Rightarrow> relay \<Rightarrow> relay_result" where
  "relayGotSessionPacket stk i input st = do {
     iface \<leftarrow> iface_at st (int i);
     (case input of None \<Rightarrow> Some (st, [])
      | Some frm \<Rightarrow>
          (let (packet, sz) = receivePacket (u_packet stk) frm
           in if pver packet \<noteq> 1 \<or> ptype packet \<noteq> 1 then Some (st, [])
              else if code packet \<noteq> CODE_SESS then Some (st, [])
              else if h_dest packet \<noteq> if_mac iface then Some (st, [])
              else if int (pkt_len packet + HDR_SIZE) > sz then Some (st, [])
              else do {
                found \<leftarrow> findSession st (h_source packet) (session packet);
                case found of None \<Rightarrow> Some (st, [])
                | Some sh0 \<Rightarrow> do {
                    ses \<leftarrow> sh_ses (AllHashes st sh0);
                    let st = upd_ses ses (\<lambda>s. s\<lparr>epoch := Epoch st\<rparr>) st;
                    sh \<leftarrow> sh_peer (AllHashes st sh0);
                    out \<leftarrow> iface_at st (int (sh_interface (AllHashes st sh)));
                    let packet = packet\<lparr>session := sh_sesNum (AllHashes st sh), h_source := if_mac out,
                                        h_dest := peerMac (AllHashes st sh)\<rparr>;
                    frm \<leftarrow> sendPacket (sessionSock out) packet sz;
                    Some (st, [frm])
                  }
              }))
   }"

subsection \<open>Time and the cleaner\<close>

text \<open>\<^verbatim>\<open>CleanPipe\<close> counts the bytes in the pipe.\<close>

definition alarmHandler :: "relay \<Rightarrow> relay" where
  "alarmHandler st =
     (let st = st\<lparr>Epoch := Epoch st + 1, CleanCounter := CleanCounter st + 1\<rparr>
      in if CleanCounter st = CleanPeriod st then st\<lparr>CleanPipe := CleanPipe st + 1\<rparr> else st)"

definition clean_one :: "relay_stack \<Rightarrow> nat \<Rightarrow> relay \<Rightarrow> relay_result" where
  "clean_one stk cur st =
     (if Epoch st - epoch (AllSessions st cur) > IdleTimeout st
      then do {
        acH \<leftarrow> acHash (AllSessions st cur);
        acIf \<leftarrow> iface_at st (int (sh_interface (AllHashes st acH)));
        e1 \<leftarrow> relaySendError stk CODE_PADT (sh_sesNum (AllHashes st acH)) acIf (peerMac (AllHashes st acH))
               None relay_idle_msg;
        cliH \<leftarrow> clientHash (AllSessions st cur);
        cliIf \<leftarrow> iface_at st (int (sh_interface (AllHashes st cliH)));
        e2 \<leftarrow> relaySendError stk CODE_PADT (sh_sesNum (AllHashes st cliH)) cliIf (peerMac (AllHashes st cliH))
               None relay_idle_msg;
        st \<leftarrow> freeSession cur st;
        Some (st, e1 @ e2)
      }
      else Some (st, []))"

partial_function (option) cleanSessions_loop :: "relay_stack \<Rightarrow> nat option \<Rightarrow> relay \<Rightarrow> relay_result" where
  "cleanSessions_loop stk cur st =
     (if cur = None then Some (st, [])
      else do {
        let nxt = s_next (AllSessions st (the cur));
        (st1, es) \<leftarrow> clean_one stk (the cur) st;
        (st2, rest) \<leftarrow> cleanSessions_loop stk nxt st1;
        Some (st2, es @ rest)
      })"

definition cleanSessions :: "relay_stack \<Rightarrow> relay \<Rightarrow> relay_result" where
  "cleanSessions stk st = cleanSessions_loop stk (ActiveSessions st) st"

text \<open>
  One round of \<^verbatim>\<open>relayLoop\<close> after \<^verbatim>\<open>select\<close>: \<^verbatim>\<open>ses\<close> and \<^verbatim>\<open>dis\<close> hold the frame waiting on the
  sockets of each interface, \<^verbatim>\<open>clean\<close> whether the pipe is readable.
\<close>

fun run_handlers ::
  "(nat \<Rightarrow> byte list option \<Rightarrow> relay \<Rightarrow> relay_result) \<Rightarrow> (nat \<Rightarrow> byte list option) \<Rightarrow> nat list \<Rightarrow>
     relay \<Rightarrow> relay_result" where
  "run_handlers h inp [] st = Some (st, [])"
| "run_handlers h inp (i # is) st =
     do { (st1, out1) \<leftarrow> h i (inp i) st; (st2, out2) \<leftarrow> run_handlers h inp is st1; Some (st2, out1 @ out2) }"

definition clean_step :: "relay_stack \<Rightarrow> relay \<Rightarrow> relay_result" where
  "clean_step stk st =
     (let st = st\<lparr>CleanCounter := 0, CleanPipe := CleanPipe st - 1\<rparr>
      in if IdleTimeout st \<noteq> 0 then cleanSessions stk st else Some (st, []))"

definition relayLoop_round ::
  "relay_stack \<Rightarrow> (nat \<Rightarrow> byte list option) \<Rightarrow> (nat \<Rightarrow> byte list option) \<Rightarrow> bool \<Rightarrow> relay \<Rightarrow> relay_result" where
  "relayLoop_round stk ses dis clean st =
     do {
       (st1, out1) \<leftarrow> run_handlers (relayGotSessionPacket stk) ses [0..<length (Interfaces st)] st;
       (st2, out2) \<leftarrow> run_handlers (relayGotDiscoveryPacket stk) dis [0..<length (Interfaces st)] st1;
       (st3, out3) \<leftarrow> (if clean then clean_step stk st2 else Some (st2, []));
       Some (st3, out1 @ out2 @ out3)
     }"

subsection \<open>Set-up\<close>

text \<open>
  The arguments of \<^verbatim>\<open>main\<close> after \<^verbatim>\<open>getopt\<close>; \<^verbatim>\<open>None\<close> in \<^verbatim>\<open>Opt_i\<close> and \<^verbatim>\<open>Opt_n\<close> is a number that
  \<^verbatim>\<open>sscanf\<close> does not accept. \<^verbatim>\<open>openi\<close> stands for \<^verbatim>\<open>openInterface\<close>: the socket and the hardware
  address for an interface name and an Ethernet type. \<^verbatim>\<open>Inl\<close> is an exit with its status.
\<close>

datatype relay_opt = Opt_h | Opt_F | Opt_C string | Opt_S string | Opt_B string
  | Opt_i "u32 option" | Opt_n "int option" | Opt_bad

definition addInterface ::
  "(string \<Rightarrow> u16 \<Rightarrow> int \<times> byte list) \<Rightarrow> string \<Rightarrow> bool \<Rightarrow> bool \<Rightarrow> relay \<Rightarrow> int + relay" where
  "addInterface openi ifname cli ac st =
     (if length (Interfaces st) \<ge> MAX_INTERFACES then Inl 1
      else Inr (st\<lparr>Interfaces := Interfaces st @
             [\<lparr>if_name = take IFNAMSIZ ifname,
               discoverySock = fst (openi ifname ETH_PPPOE_DISCOVERY),
               sessionSock = fst (openi ifname ETH_PPPOE_SESSION),
               clientOK = cli, acOK = ac,
               if_mac = snd (openi ifname ETH_PPPOE_DISCOVERY)\<rparr>]\<rparr>))"

definition relay_option ::
  "(string \<Rightarrow> u16 \<Rightarrow> int \<times> byte list) \<Rightarrow> relay_opt \<Rightarrow> int \<times> bool \<times> relay \<Rightarrow> int + (int \<times> bool \<times> relay)" where
  "relay_option openi opt s =
     (let (nsess, beDaemon, st) = s;
          add = (\<lambda>n c a. case addInterface openi n c a st of Inl x \<Rightarrow> Inl x
                         | Inr st \<Rightarrow> Inr (nsess, beDaemon, st))
      in case opt of
        Opt_h \<Rightarrow> Inl 0
      | Opt_F \<Rightarrow> Inr (nsess, False, st)
      | Opt_C n \<Rightarrow> add n True False
      | Opt_S n \<Rightarrow> add n False True
      | Opt_B n \<Rightarrow> add n True True
      | Opt_i None \<Rightarrow> Inl 1
      | Opt_i (Some t) \<Rightarrow>
          (let p = t div TIMEOUT_DIVISOR
           in Inr (nsess, beDaemon, st\<lparr>IdleTimeout := t,
                CleanPeriod := (if p < MIN_CLEAN_PERIOD then MIN_CLEAN_PERIOD else p)\<rparr>))
      | Opt_n None \<Rightarrow> Inl 1
      | Opt_n (Some n) \<Rightarrow> if n < 1 \<or> n > 65534 then Inl 1 else Inr (n, beDaemon, st)
      | Opt_bad \<Rightarrow> Inl 0)"

fun relay_options ::
  "(string \<Rightarrow> u16 \<Rightarrow> int \<times> byte list) \<Rightarrow> relay_opt list \<Rightarrow> int \<times> bool \<times> relay \<Rightarrow> int + (int \<times> bool \<times> relay)" where
  "relay_options openi [] s = Inr s"
| "relay_options openi (a # as) s =
     (case relay_option openi a s of Inl x \<Rightarrow> Inl x | Inr s \<Rightarrow> relay_options openi as s)"

definition relay_globals :: relay where
  "relay_globals = \<lparr>Interfaces = [], NumSessions = 0, MaxSessions = 0, AllSessions = (\<lambda>_. zero_session),
     FreeSessions = None, ActiveSessions = None, AllHashes = (\<lambda>_. zero_hash), FreeHashes = None,
     Buckets = (\<lambda>_. None), Epoch = 0, CleanCounter = 0, CleanPeriod = MIN_CLEAN_PERIOD,
     IdleTimeout = MIN_CLEAN_PERIOD * TIMEOUT_DIVISOR, CleanPipe = 0\<rparr>"

definition relay_main ::
  "(string \<Rightarrow> u16 \<Rightarrow> int \<times> byte list) \<Rightarrow> relay_opt list \<Rightarrow> int + relay" where
  "relay_main openi args =
     (case relay_options openi args (DEFAULT_SESSIONS, True, relay_globals) of
        Inl x \<Rightarrow> Inl x
      | Inr (nsess, beDaemon, st) \<Rightarrow>
          if length (Interfaces st) < 2 then Inl 1 else Inr (initRelay (nat nsess) st))"

definition keepDescriptor :: "int \<times> int \<Rightarrow> relay \<Rightarrow> int \<Rightarrow> bool" where
  "keepDescriptor pipefd st fd \<longleftrightarrow> fd = fst pipefd \<or> fd = snd pipefd \<or>
     list_ex (\<lambda>i. fd = discoverySock i \<or> fd = sessionSock i) (Interfaces st)"

lemma iface_at_nat [simp]: "k < length (Interfaces st) \<Longrightarrow> iface_at st (int k) = Some (Interfaces st ! k)"
  by (simp add: iface_at_def)

lemma iface_at_cong: "Interfaces st' = Interfaces st \<Longrightarrow> iface_at st' k = iface_at st k"
  by (simp add: iface_at_def)

section \<open>The invariant of the daemon\<close>

definition relay_ok :: "relay \<Rightarrow> bool" where
  "relay_ok st \<longleftrightarrow> relay_inv st \<and> (\<forall>f \<in> set (Interfaces st). length (if_mac f) = 6) \<and>
     length (Interfaces st) \<le> MAX_INTERFACES"

definition stack_ok :: "relay_stack \<Rightarrow> bool" where
  "stack_ok stk \<longleftrightarrow> wf_packet (u_packet stk) \<and> wf_tag (u_tag stk) \<and> wf_tag (u_hostUniq stk) \<and>
     wf_packet (u_errPacket stk) \<and> wf_tag (u_errTag stk)"

lemma table_ok_cong:
  assumes "table_ok st act fs bk fh"
    and "AllHashes st' = AllHashes st" "Buckets st' = Buckets st" "FreeHashes st' = FreeHashes st"
    and "FreeSessions st' = FreeSessions st" "ActiveSessions st' = ActiveSessions st"
    and "NumSessions st' = NumSessions st" "MaxSessions st' = MaxSessions st" "Interfaces st' = Interfaces st"
    and s: "\<And>i. s_next (AllSessions st' i) = s_next (AllSessions st i)"
      "\<And>i. s_prev (AllSessions st' i) = s_prev (AllSessions st i)"
      "\<And>i. s_core (AllSessions st' i) = s_core (AllSessions st i)"
  shows "table_ok st' act fs bk fh"
proof -
  have sl: "slists st' act fs" by (rule slists_cong [of st]) (use assms in \<open>simp_all add: table_ok_def\<close>)
  have hl: "hlists st' bk" by (rule hlists_cong [of st]) (use assms in \<open>simp_all add: table_ok_def\<close>)
  have lk: "links_ok st' (set act) (used bk)"
    using assms by (simp add: table_ok_def links_ok_core)
  have "s_sesNum (AllSessions st' i) = s_sesNum (AllSessions st i)" for i
    using s(3) [of i] by (simp add: s_core_def)
  then show ?thesis using assms(1-9) sl hl lk by (simp add: table_ok_def)
qed

lemma relay_inv_cong:
  assumes "relay_inv st"
    and "AllHashes st' = AllHashes st" "Buckets st' = Buckets st" "FreeHashes st' = FreeHashes st"
    and "FreeSessions st' = FreeSessions st" "ActiveSessions st' = ActiveSessions st"
    and "NumSessions st' = NumSessions st" "MaxSessions st' = MaxSessions st" "Interfaces st' = Interfaces st"
    and "\<And>i. s_next (AllSessions st' i) = s_next (AllSessions st i)"
      "\<And>i. s_prev (AllSessions st' i) = s_prev (AllSessions st i)"
      "\<And>i. s_core (AllSessions st' i) = s_core (AllSessions st i)"
  shows "relay_inv st'" and "actives st' = actives st"
proof -
  obtain act fs bk fh where t: "table_ok st act fs bk fh" using assms(1) by (auto simp: relay_inv_def)
  then have t': "table_ok st' act fs bk fh" by (rule table_ok_cong) (use assms in simp_all)
  then show "relay_inv st'" unfolding relay_inv_def by blast
  show "actives st' = actives st" using actives_eq [OF t] actives_eq [OF t'] by simp
qed

lemma relay_ok_epoch:
  assumes "relay_ok st"
  shows "relay_ok (upd_ses x (\<lambda>s. s\<lparr>epoch := e\<rparr>) st)"
    and "actives (upd_ses x (\<lambda>s. s\<lparr>epoch := e\<rparr>) st) = actives st"
  using assms relay_inv_cong [of st "upd_ses x (\<lambda>s. s\<lparr>epoch := e\<rparr>) st"]
  by (simp_all add: relay_ok_def upd_ses_def s_core_def)

lemma found_links:
  assumes "relay_inv st" and "findSession st mac n = Some (Some e)"
  obtains p x where "sh_peer (AllHashes st e) = Some p" and "sh_peer (AllHashes st p) = Some e"
    and "e \<noteq> p" and "sh_ses (AllHashes st e) = Some x" and "sh_ses (AllHashes st p) = Some x"
    and "x \<in> actives st"
    and "sh_interface (AllHashes st p) < length (Interfaces st)" and "length (peerMac (AllHashes st p)) = 6"
    and "peerMac (AllHashes st e) = mac" and "sh_sesNum (AllHashes st e) = n"
proof -
  obtain act fs bk fh where t: "table_ok st act fs bk fh" using assms(1) by (auto simp: relay_inv_def)
  have e: "e \<in> used bk" and m: "entry_matches st mac n e" by (rule findSession_Some [OF t assms(2)])+
  have l: "links_ok st (set act) (used bk)" using t by (simp add: table_ok_def)
  obtain x where x: "sh_ses (AllHashes st e) = Some x" "x \<in> set act"
    and o: "acHash (AllSessions st x) = Some e \<or> clientHash (AllSessions st x) = Some e"
    using l e unfolding links_ok_def by blast
  obtain a c where ac: "acHash (AllSessions st x) = Some a" "clientHash (AllSessions st x) = Some c"
    "a \<noteq> c" "a \<in> used bk" "c \<in> used bk" "sh_peer (AllHashes st a) = Some c" "sh_peer (AllHashes st c) = Some a"
    "sh_ses (AllHashes st a) = Some x" "sh_ses (AllHashes st c) = Some x"
    using l x(2) unfolding links_ok_def by blast
  have u: "sh_interface (AllHashes st i) < length (Interfaces st) \<and> length (peerMac (AllHashes st i)) = 6"
    if "i \<in> used bk" for i using l that unfolding links_ok_def by blast
  have A: "x \<in> actives st" using actives_eq [OF t] x by simp
  show thesis
    by (rule that [of "if e = a then c else a" x]) (use ac o u x A m in \<open>auto simp: entry_matches_def\<close>)
qed

section \<open>Error frames\<close>

definition error_frame :: "byte \<Rightarrow> u16 \<Rightarrow> PPPoEInterface \<Rightarrow> byte list \<Rightarrow> (u16 \<times> byte list) list \<Rightarrow> frame" where
  "error_frame cd ses iface mac tags =
     Sent (if cd = CODE_PADT then discoverySock iface else sessionSock iface)
       (mk_header mac (if_mac iface) ETH_PPPOE_DISCOVERY cd ses (length (encode_tags tags)) @ encode_tags tags)"

text \<open>The packet that \<^verbatim>\<open>relaySendError\<close> starts from.\<close>

definition error_packet :: "relay_stack \<Rightarrow> byte \<Rightarrow> u16 \<Rightarrow> PPPoEInterface \<Rightarrow> byte list \<Rightarrow> PPPoEPacket" where
  "error_packet stk cd ses iface mac = (u_errPacket stk)\<lparr>h_source := if_mac iface, h_dest := mac,
     h_proto := htons ETH_PPPOE_DISCOVERY, ptype := 1, pver := 1, code := cd, session := ses, plength := htons 0\<rparr>"

lemma error_packet_facts:
  assumes "stack_ok stk" and "length mac = 6" and "length (if_mac iface) = 6"
  shows "wf_packet (error_packet stk cd ses iface mac)" and "pkt_len (error_packet stk cd ses iface mac) = 0"
    and "pkt_data (error_packet stk cd ses iface mac) = []"
  using assms by (simp_all add: error_packet_def stack_ok_def wf_packet_def pkt_len_def pkt_data_def)

lemma send_error_packet:
  assumes "wf_packet p" and "pkt_len p \<le> 1494" and "pkt_data p = encode_tags tags"
    and "p = (error_packet stk cd ses iface mac)\<lparr>payload := payload p, plength := plength p\<rparr>"
  shows "(if cd = CODE_PADT then sendPacket (discoverySock iface) p (int (pkt_len p + HDR_SIZE))
     else sendPacket (sessionSock iface) p (int (pkt_len p + HDR_SIZE))) = Some (error_frame cd ses iface mac tags)"
proof -
  have n: "nat (int (pkt_len p + 20)) = pkt_len p + 20" by simp
  have l: "pkt_len p = length (encode_tags tags)"
    using assms(1-3) length_pkt_data [of p] by simp
  have "hdr_bytes p = mk_header mac (if_mac iface) ETH_PPPOE_DISCOVERY cd ses (pkt_len p)"
    by (subst assms(4)) (simp add: hdr_bytes_def mk_header_def error_packet_def, simp add: plength_pkt_len)
  then show ?thesis
    using assms(1-3) take_packet_bytes [OF assms(1)] l by (simp add: error_frame_def sendPacket_def n del: of_nat_add)
qed

lemma relaySendError_plain:
  assumes "stack_ok stk" and "length mac = 6" and "length (if_mac iface) = 6" and "length msg \<le> 1490"
  shows "relaySendError stk cd ses iface mac None msg =
    Some [error_frame cd ses iface mac [(TAG_GENERIC_ERROR, msg)]]"
proof -
  let ?p = "error_packet stk cd ses iface mac"
  let ?str = "(msg @ [0]) @ drop (length (msg @ [0])) (tpayload (u_errTag stk))"
  let ?t = "\<lparr>ttype = htons TAG_GENERIC_ERROR, tlength = htons (of_nat (length msg)), tpayload = ?str\<rparr>"
  have m: "memcpy_at (tpayload (u_errTag stk)) 0 (msg @ [0]) = Some ?str"
    using assms(1,4) by (simp add: memcpy_at_def stack_ok_def wf_tag_def)
  obtain p' where a: "addTag ?p ?t = Some (int (length msg + 4), p')" "wf_packet p'"
    "pkt_len p' = pkt_len ?p + (length msg + 4)" "pkt_data p' = encode_tag (TAG_GENERIC_ERROR, msg) @ pkt_data ?p"
    "p' = ?p\<lparr>payload := payload p', plength := plength p'\<rparr>"
    by (rule addTag_encode [of ?p ?t msg TAG_GENERIC_ERROR])
      (use assms error_packet_facts [OF assms(1-3)] in \<open>auto simp: wf_tag_def stack_ok_def\<close>)
  have s: "(if cd = CODE_PADT then sendPacket (discoverySock iface) p' (int (pkt_len p' + HDR_SIZE))
     else sendPacket (sessionSock iface) p' (int (pkt_len p' + HDR_SIZE))) =
     Some (error_frame cd ses iface mac [(TAG_GENERIC_ERROR, msg)])"
    by (rule send_error_packet [OF a(2) _ _ a(5)])
      (use a assms(4) error_packet_facts [OF assms(1-3)] in \<open>simp_all add: encode_tags_def\<close>)
  show ?thesis
    unfolding relaySendError_def Let_def error_packet_def [symmetric] using m a(1) s by simp
qed

lemma relaySendError_hostUniq:
  assumes "stack_ok stk" and "length mac = 6" and "length (if_mac iface) = 6" and "length msg \<le> 1490"
    and hu: "wf_tag hu" "ttype hu = htons ty" "tlength hu = htons (of_nat (length d))" "length d \<le> 1490"
      "take (length d) (tpayload hu) = d"
  shows "relaySendError stk cd ses iface mac (Some hu) msg =
    Some (if length d + length msg + 8 \<le> 1494
          then [error_frame cd ses iface mac [(TAG_GENERIC_ERROR, msg), (ty, d)]] else [])"
proof -
  let ?p = "error_packet stk cd ses iface mac"
  let ?str = "(msg @ [0]) @ drop (length (msg @ [0])) (tpayload (u_errTag stk))"
  let ?t = "\<lparr>ttype = htons TAG_GENERIC_ERROR, tlength = htons (of_nat (length msg)), tpayload = ?str\<rparr>"
  have m: "memcpy_at (tpayload (u_errTag stk)) 0 (msg @ [0]) = Some ?str"
    using assms(1,4) by (simp add: memcpy_at_def stack_ok_def wf_tag_def)
  have wt: "wf_tag ?t" using assms(1,4) by (simp add: wf_tag_def stack_ok_def)
  have tl: "tag_len ?t = length msg" using assms(4) by (simp add: tag_len_def unat_of_nat_u16)
  obtain q where a: "addTag ?p hu = Some (int (length d + 4), q)" "wf_packet q"
    "pkt_len q = pkt_len ?p + (length d + 4)" "pkt_data q = encode_tag (ty, d) @ pkt_data ?p"
    "q = ?p\<lparr>payload := payload q, plength := plength q\<rparr>"
    by (rule addTag_encode [of ?p hu d ty])
      (use assms error_packet_facts [OF assms(1-3)] in auto)
  note q0 = error_packet_facts [OF assms(1-3), of cd ses]
  show ?thesis
  proof (cases "length d + length msg + 8 \<le> 1494")
    case False
    then have "addTag q ?t = Some (-1, q)"
      using a(3) q0 tl by (intro addTag_reject) simp
    then show ?thesis
      unfolding relaySendError_def Let_def error_packet_def [symmetric] using m a(1) False by simp
  next
    case True
    obtain p' where b: "addTag q ?t = Some (int (length msg + 4), p')" "wf_packet p'"
      "pkt_len p' = pkt_len q + (length msg + 4)" "pkt_data p' = encode_tag (TAG_GENERIC_ERROR, msg) @ pkt_data q"
      "p' = q\<lparr>payload := payload p', plength := plength p'\<rparr>"
      by (rule addTag_encode [of q ?t msg TAG_GENERIC_ERROR]) (use a q0 True wt in auto)
    have "p' = ?p\<lparr>payload := payload p', plength := plength p'\<rparr>"
      by (subst b(5), subst a(5)) simp
    then have s: "(if cd = CODE_PADT then sendPacket (discoverySock iface) p' (int (pkt_len p' + HDR_SIZE))
       else sendPacket (sessionSock iface) p' (int (pkt_len p' + HDR_SIZE))) =
       Some (error_frame cd ses iface mac [(TAG_GENERIC_ERROR, msg), (ty, d)])"
      by (intro send_error_packet [OF b(2)]) (use b a q0 True in auto)
    show ?thesis
      unfolding relaySendError_def Let_def error_packet_def [symmetric] using m a(1) b(1) s True by simp
  qed
qed

section \<open>Discovery packets between clients and concentrators\<close>

text \<open>
  Where a packet with a relay tag goes: the place of its first relay tag, the interface it names
  and the address behind it.
\<close>

definition relay_target ::
  "relay \<Rightarrow> (PPPoEInterface \<Rightarrow> bool) \<Rightarrow> nat \<Rightarrow> PPPoEPacket \<Rightarrow> (nat \<times> nat \<times> byte list) option" where
  "relay_target st allowed i p =
     (case find (\<lambda>(off, t, d). t = TAG_RELAY_SESSION_ID) (snd (packet_tags p)) of
        None \<Rightarrow> None
      | Some (off, t, d) \<Rightarrow>
          (let k = sint (load32 d)
           in if length d = 10 \<and> 0 \<le> k \<and> k < int (length (Interfaces st)) \<and> allowed (Interfaces st ! nat k) \<and> int i \<noteq> k
              then Some (off, nat k, drop 4 d) else None))"

definition fwd_packet :: "relay \<Rightarrow> nat \<Rightarrow> nat \<times> nat \<times> byte list \<Rightarrow> PPPoEPacket \<Rightarrow> PPPoEPacket" where
  "fwd_packet st i tgt p =
     (let (off, k, mac) = tgt
      in p\<lparr>payload := take (off + 4) (payload p) @ le32 (of_nat i) @ h_source p @ drop (off + 14) (payload p),
           h_dest := mac, h_source := if_mac (Interfaces st ! k)\<rparr>)"

lemma relay_target_bound:
  assumes "wf_packet p" and "relay_target st allowed i p = Some (off, k, mac)"
  shows "off + 14 \<le> pkt_len p" and "pkt_len p \<le> 1494" and "k < length (Interfaces st)" and "k \<noteq> i"
    and "allowed (Interfaces st ! k)" and "mac = bslice (payload p) (off + 8) 6" and "length mac = 6"
proof -
  obtain t d where f: "find (\<lambda>(off, t, d). t = TAG_RELAY_SESSION_ID) (snd (packet_tags p)) = Some (off, t, d)"
    and l: "length d = 10" and k: "0 \<le> sint (load32 d)" "sint (load32 d) < int (length (Interfaces st))"
      "allowed (Interfaces st ! nat (sint (load32 d)))" "int i \<noteq> sint (load32 d)"
    and d: "k = nat (sint (load32 d))" "mac = drop 4 d"
    using assms(2) unfolding relay_target_def Let_def by (auto split: option.splits if_splits)
  have "(off, t, d) \<in> set (snd (packet_tags p))"
    using f by (auto simp: find_Some_iff in_set_conv_nth)
  from packet_tags_bound [OF assms(1) this] l
  have b: "off + 14 \<le> pkt_len p" "pkt_len p \<le> 1494" "d = bslice (payload p) (off + 4) 10" by auto
  show "off + 14 \<le> pkt_len p" "pkt_len p \<le> 1494" by fact+
  show "k < length (Interfaces st)" "k \<noteq> i" "allowed (Interfaces st ! k)" using k d by auto
  show "mac = bslice (payload p) (off + 8) 6" using b(3) d(2) by (simp add: bslice_def drop_take add.commute)
  show "length mac = 6" using d(2) l by simp
qed

lemma load32_prefix: "4 \<le> length d \<Longrightarrow> load32 (d @ bs) = load32 d"
proof -
  assume "4 \<le> length d"
  then have "(d @ bs) ! i = d ! i" if "i < 4" for i using that by (simp add: nth_append)
  then show ?thesis by (simp add: load32_def)
qed

text \<open>The part that the PADO, PADR and PADS handlers share: reading the relay tag.\<close>

lemma target_body:
  assumes wf: "wf_packet p" and utag: "wf_tag utag"
  obtains tag where
    "\<And>off k mac. relay_target st allowed i p = Some (off, k, mac) \<Longrightarrow> mem_read (tpayload tag) 4 6 = Some mac"
    and "\<And>K. do {
        found \<leftarrow> findTag p TAG_RELAY_SESSION_ID utag;
        case found of None \<Rightarrow> Some (st, [])
        | Some (loc, tag) \<Rightarrow>
            if tag_len tag \<noteq> MY_RELAY_TAG_LEN then Some (st, [])
            else do {
              idx \<leftarrow> mem_read (tpayload tag) 0 4;
              let ifIndex = sint (load32 idx);
              if ifIndex < 0 \<or> ifIndex \<ge> int (length (Interfaces st)) then Some (st, [])
              else do {
                out \<leftarrow> iface_at st ifIndex;
                if \<not> allowed out \<or> int i = ifIndex then Some (st, [])
                else K loc tag ifIndex out
              }
            }
      } = (case relay_target st allowed i p of None \<Rightarrow> Some (st, [])
           | Some (off, k, mac) \<Rightarrow>
               (K :: nat \<Rightarrow> PPPoETag \<Rightarrow> int \<Rightarrow> PPPoEInterface \<Rightarrow> relay_result) off tag (int k) (Interfaces st ! k))"
proof -
  obtain r where f: "findTag p TAG_RELAY_SESSION_ID utag = Some r"
    and b: "\<And>loc t. r = Some (loc, t) \<Longrightarrow> loc + 4 + tag_len t \<le> pkt_len p \<and> pkt_len p \<le> 1494 \<and>
       ntohs (ttype t) = TAG_RELAY_SESSION_ID \<and>
       (loc, TAG_RELAY_SESSION_ID, bslice (payload p) (loc + 4) (tag_len t)) \<in> set (snd (packet_tags p)) \<and>
       tpayload t = bslice (payload p) (loc + 4) (tag_len t) @ drop (tag_len t) (tpayload utag)"
    and fd: "find (\<lambda>(off, t, d). t = TAG_RELAY_SESSION_ID) (snd (packet_tags p)) =
       (case r of None \<Rightarrow> None | Some (loc, t) \<Rightarrow>
          Some (loc, TAG_RELAY_SESSION_ID, bslice (payload p) (loc + 4) (tag_len t)))"
    by (rule findTag_some [OF wf]) blast
  show thesis
  proof (cases r)
    case None
    have t: "relay_target st allowed i p = None" using fd None by (simp add: relay_target_def)
    show thesis by (rule that) (use t f None in simp_all)
  next
    case (Some lt)
    obtain loc t where lt: "lt = (loc, t)" by (cases lt)
    note B = b [OF Some [unfolded lt]]
    define d where "d = bslice (payload p) (loc + 4) (tag_len t)"
    have ld: "length d = tag_len t" using B wf by (simp add: d_def length_bslice wf_packet_def)
    have tp: "tpayload t = d @ drop (tag_len t) (tpayload utag)" using B by (simp add: d_def)
    have fd': "find (\<lambda>(off, t, d). t = TAG_RELAY_SESSION_ID) (snd (packet_tags p)) =
        Some (loc, TAG_RELAY_SESSION_ID, d)"
      using fd Some lt by (simp add: d_def)
    have tgt: "relay_target st allowed i p = (let k = sint (load32 d)
           in if length d = 10 \<and> 0 \<le> k \<and> k < int (length (Interfaces st)) \<and> allowed (Interfaces st ! nat k) \<and> int i \<noteq> k
              then Some (loc, nat k, drop 4 d) else None)"
      unfolding relay_target_def fd' by simp
    have k: "mem_read (tpayload t) 0 4 = Some (take 4 d)" and m: "mem_read (tpayload t) 4 6 = Some (drop 4 d)"
      if "tag_len t = 10" using tp ld that utag by (simp_all add: mem_read_def bslice_def wf_tag_def)
    have k4: "load32 (take 4 d) = load32 d" by (simp add: load32_def)
    show thesis
      by (rule that [of t]) (use tgt f Some lt ld k k4 m in \<open>auto simp: Let_def iface_at_def split: if_splits\<close>)
  qed
qed

text \<open>The body that the PADO and PADR handlers share after their guards.\<close>

lemma forward_body:
  assumes wf: "wf_packet p" and utag: "wf_tag utag" and sz: "0 \<le> sz" "sz \<le> 1520" and src: "length (h_source p) = 6"
  shows "do {
        found \<leftarrow> findTag p TAG_RELAY_SESSION_ID utag;
        case found of None \<Rightarrow> Some (st, [])
        | Some (loc, tag) \<Rightarrow>
            if tag_len tag \<noteq> MY_RELAY_TAG_LEN then Some (st, [])
            else do {
              idx \<leftarrow> mem_read (tpayload tag) 0 4;
              let ifIndex = sint (load32 idx);
              if ifIndex < 0 \<or> ifIndex \<ge> int (length (Interfaces st)) then Some (st, [])
              else do {
                out \<leftarrow> iface_at st ifIndex;
                if \<not> allowed out \<or> int i = ifIndex then Some (st, [])
                else do {
                  pl \<leftarrow> memcpy_at (payload p) (loc + TAG_HDR_SIZE) (le32 (of_nat i));
                  pl \<leftarrow> memcpy_at pl (loc + TAG_HDR_SIZE + 4) (h_source p);
                  mac \<leftarrow> mem_read (tpayload tag) 4 ETH_ALEN;
                  let packet = p\<lparr>payload := pl, h_dest := mac, h_source := if_mac out\<rparr>;
                  frm \<leftarrow> sendPacket (discoverySock out) packet sz;
                  Some (st, [frm])
                }
              }
            }
      } =
    Some (st, case relay_target st allowed i p of None \<Rightarrow> []
      | Some (off, k, mac) \<Rightarrow> [Sent (discoverySock (Interfaces st ! k))
          (take (nat sz) (packet_bytes (fwd_packet st i (off, k, mac) p)))])"
proof (rule target_body [OF wf utag, of st allowed i], goal_cases)
  case (1 tag)
  show ?case
    unfolding 1(2)
  proof (cases "relay_target st allowed i p", goal_cases)
    case 1
    then show ?case by simp
  next
    case (2 t)
    obtain off k mac where t: "t = (off, k, mac)" by (cases t)
    have l: "length (payload p) = 1500" "off + 14 \<le> 1494"
      using relay_target_bound(1,2) [OF wf 2 [unfolded t]] wf by (auto simp: wf_packet_def)
    let ?pl = "take (off + 4) (payload p) @ le32 (of_nat i) @ drop (off + 8) (payload p)"
    have c1: "memcpy_at (payload p) (off + 4) (le32 (of_nat i)) = Some ?pl"
      using l by (simp add: memcpy_at_def add.commute)
    have c2: "memcpy_at ?pl (off + 4 + 4) (h_source p) =
        Some (take (off + 4) (payload p) @ le32 (of_nat i) @ h_source p @ drop (off + 14) (payload p))"
      using l src by (simp add: memcpy_at_def add.commute)
    show ?case
      using 2 t c1 c2 sz 1(1) [of off k mac] by (simp add: fwd_packet_def)
  qed
qed

definition padi_guard :: "relay \<Rightarrow> nat \<Rightarrow> PPPoEPacket \<Rightarrow> bool" where
  "padi_guard st i p \<longleftrightarrow> clientOK (Interfaces st ! i) \<and> \<not> NOT_UNICAST (h_source p) \<and> \<not> NOT_BROADCAST (h_dest p)"

definition unicast_guard :: "(PPPoEInterface \<Rightarrow> bool) \<Rightarrow> relay \<Rightarrow> nat \<Rightarrow> PPPoEPacket \<Rightarrow> bool" where
  "unicast_guard allowed st i p \<longleftrightarrow> allowed (Interfaces st ! i) \<and> \<not> NOT_UNICAST (h_source p) \<and>
     h_dest p = if_mac (Interfaces st ! i)"

definition forwarded :: "(PPPoEInterface \<Rightarrow> bool) \<Rightarrow> relay \<Rightarrow> nat \<Rightarrow> PPPoEPacket \<Rightarrow> nat \<Rightarrow> frame list" where
  "forwarded allowed st i p n =
     (case relay_target st allowed i p of None \<Rightarrow> []
      | Some (off, k, mac) \<Rightarrow> [Sent (discoverySock (Interfaces st ! k))
          (take n (packet_bytes (fwd_packet st i (off, k, mac) p)))])"

lemma relayHandlePADO_eq:
  assumes "wf_packet p" and "wf_tag (u_tag stk)" and "0 \<le> sz" "sz \<le> 1520" and "i < length (Interfaces st)"
  shows "relayHandlePADO stk i p sz st =
    Some (st, if unicast_guard acOK st i p then forwarded clientOK st i p (nat sz) else [])"
proof -
  have src: "length (h_source p) = 6" using assms(1) by (simp add: wf_packet_def)
  show ?thesis
    unfolding relayHandlePADO_def forward_body [OF assms(1-4) src]
    using assms(5) by (simp add: unicast_guard_def forwarded_def)
qed

lemma relayHandlePADR_eq:
  assumes "wf_packet p" and "wf_tag (u_tag stk)" and "0 \<le> sz" "sz \<le> 1520" and "i < length (Interfaces st)"
  shows "relayHandlePADR stk i p sz st =
    Some (st, if unicast_guard clientOK st i p then forwarded acOK st i p (nat sz) else [])"
proof -
  have src: "length (h_source p) = 6" using assms(1) by (simp add: wf_packet_def)
  show ?thesis
    unfolding relayHandlePADR_def forward_body [OF assms(1-4) src]
    using assms(5) by (simp add: unicast_guard_def forwarded_def)
qed

subsection \<open>PADI\<close>

lemma send_all_map:
  "(\<And>x. x \<in> set xs \<Longrightarrow> f x = Some (if P x then [g x] else [])) \<Longrightarrow> send_all xs f = Some (map g (filter P xs))"
  by (induction xs) auto

definition relay_id :: "nat \<Rightarrow> byte list \<Rightarrow> byte list" where
  "relay_id i mac = le32 (of_nat i) @ mac"

definition padi_frame :: "relay \<Rightarrow> nat \<Rightarrow> PPPoEPacket \<Rightarrow> nat \<Rightarrow> frame" where
  "padi_frame st i p k =
     Sent (discoverySock (Interfaces st ! k))
       (hdr_bytes (p\<lparr>h_source := if_mac (Interfaces st ! k), plength := htons (of_nat (pkt_len p + 14))\<rparr>) @
        encode_tags [(TAG_RELAY_SESSION_ID, relay_id i (h_source p))] @ pkt_data p)"

definition padi_out :: "relay \<Rightarrow> nat \<Rightarrow> PPPoEPacket \<Rightarrow> frame list" where
  "padi_out st i p =
     (if padi_guard st i p \<and> pkt_len p + 14 \<le> 1494 \<and>
         (\<forall>(off, t, d) \<in> set (snd (packet_tags p)). t \<noteq> TAG_RELAY_SESSION_ID)
      then map (padi_frame st i p) (filter (\<lambda>k. k \<noteq> i \<and> acOK (Interfaces st ! k)) [0..<length (Interfaces st)])
      else [])"

lemma relayHandlePADI_eq:
  assumes wf: "wf_packet p" and tag: "wf_tag (u_tag stk)"
    and macs: "\<forall>f \<in> set (Interfaces st). length (if_mac f) = 6" and i: "i < length (Interfaces st)"
  shows "relayHandlePADI stk i p (int (pkt_len p + HDR_SIZE)) st = Some (st, padi_out st i p)"
proof -
  obtain r where f: "findTag p TAG_RELAY_SESSION_ID (u_tag stk) = Some r"
    and fd: "find (\<lambda>(off, t, d). t = TAG_RELAY_SESSION_ID) (snd (packet_tags p)) =
       (case r of None \<Rightarrow> None | Some (loc, t) \<Rightarrow>
          Some (loc, TAG_RELAY_SESSION_ID, bslice (payload p) (loc + 4) (tag_len t)))"
    by (rule findTag_some [OF wf]) blast
  have none: "r = None \<longleftrightarrow> (\<forall>(off, t, d) \<in> set (snd (packet_tags p)). t \<noteq> TAG_RELAY_SESSION_ID)"
    using fd find_None_iff [of "\<lambda>(off, t, d). t = TAG_RELAY_SESSION_ID" "snd (packet_tags p)"]
    by (auto split: option.splits)
  have src: "length (h_source p) = 6" using wf by (simp add: wf_packet_def)
  show ?thesis
  proof (cases "padi_guard st i p \<and> r = None")
    case False
    then have "padi_out st i p = []" using none by (auto simp: padi_out_def)
    moreover have "relayHandlePADI stk i p (int (pkt_len p + HDR_SIZE)) st = Some (st, [])"
      using False f i by (auto simp: relayHandlePADI_def padi_guard_def)
    ultimately show ?thesis by simp
  next
    case True
    let ?pl = "le32 (of_nat i) @ drop 4 (tpayload (u_tag stk))"
    let ?pl2 = "relay_id i (h_source p) @ drop 10 (tpayload (u_tag stk))"
    let ?t = "\<lparr>ttype = htons TAG_RELAY_SESSION_ID, tlength = htons (of_nat MY_RELAY_TAG_LEN), tpayload = ?pl2\<rparr>"
    have m1: "memcpy_at (tpayload (u_tag stk)) 0 (le32 (of_nat i)) = Some ?pl"
      using tag by (simp add: memcpy_at_def wf_tag_def)
    have m2: "memcpy_at ?pl 4 (h_source p) = Some ?pl2"
      using tag src by (simp add: memcpy_at_def wf_tag_def relay_id_def)
    have l10: "length (relay_id i (h_source p)) = 10" using src by (simp add: relay_id_def)
    have wt: "wf_tag ?t" using tag l10 by (simp add: wf_tag_def)
    have tl: "tag_len ?t = 10" by (simp add: tag_len_def)
    have body: "relayHandlePADI stk i p sz st =
      do { (r, packet) \<leftarrow> addTag p ?t;
            if r < 0 then Some (st, [])
            else do {
              let sz = sz + r;
              frms \<leftarrow> send_all (filter (\<lambda>k. k \<noteq> i) [0..<length (Interfaces st)])
                (\<lambda>k. do {
                   out \<leftarrow> iface_at st (int k);
                   if \<not> acOK out then Some []
                   else do { frm \<leftarrow> sendPacket (discoverySock out) (packet\<lparr>h_source := if_mac out\<rparr>) sz; Some [frm] }
                 });
              Some (st, frms)
            } }" for sz
      using True f m1 m2 i by (simp add: relayHandlePADI_def padi_guard_def)
    show ?thesis
    proof (cases "pkt_len p + 14 \<le> 1494")
      case False
      then have "addTag p ?t = Some (-1, p)" using tl by (intro addTag_reject) simp
      then show ?thesis unfolding body using False by (simp add: padi_out_def)
    next
      case fits: True
      obtain q where a: "addTag p ?t = Some (int (10 + 4), q)" "wf_packet q" "pkt_len q = pkt_len p + (10 + 4)"
        "pkt_data q = encode_tag (TAG_RELAY_SESSION_ID, relay_id i (h_source p)) @ pkt_data p"
        "q = p\<lparr>payload := payload q, plength := plength q\<rparr>"
        using addTag_encode [of p ?t "relay_id i (h_source p)" TAG_RELAY_SESSION_ID] wf wt fits l10 by auto
      have send: "sendPacket (discoverySock (Interfaces st ! k)) (q\<lparr>h_source := if_mac (Interfaces st ! k)\<rparr>)
          (int (pkt_len p + HDR_SIZE) + int (10 + 4)) = Some (padi_frame st i p k)"
        if "k < length (Interfaces st)" for k
      proof -
        let ?q = "q\<lparr>h_source := if_mac (Interfaces st ! k)\<rparr>"
        have w: "wf_packet ?q" using a(2) macs that by (simp add: wf_packet_def)
        have n: "nat (int (pkt_len p + HDR_SIZE) + int (10 + 4)) = pkt_len ?q + 20" using a(3) by simp
        have h: "hdr_bytes ?q = hdr_bytes (p\<lparr>h_source := if_mac (Interfaces st ! k), plength := htons (of_nat (pkt_len p + 14))\<rparr>)"
          by (subst a(5)) (simp add: hdr_bytes_def plength_pkt_len [of q] a(3))
        have "pkt_data ?q = pkt_data q" by (simp add: pkt_data_def)
        then show ?thesis
          using take_packet_bytes [OF w] fits
          unfolding n [symmetric] h by (simp add: padi_frame_def a(4) del: of_nat_add)
      qed
      show ?thesis
        unfolding body using a(1) True fits none
        by (simp add: padi_out_def)
          (subst send_all_map [where g = "padi_frame st i p" and P = "\<lambda>k. acOK (Interfaces st ! k)"];
            use send in \<open>auto simp: conj_commute\<close>)
    qed
  qed
qed

section \<open>Session packets and PADT\<close>

lemma freeSession_rest:
  assumes "freeSession x st = Some st'"
  shows "Interfaces st' = Interfaces st" "Epoch st' = Epoch st" "IdleTimeout st' = IdleTimeout st"
    "CleanCounter st' = CleanCounter st" "CleanPeriod st' = CleanPeriod st" "CleanPipe st' = CleanPipe st"
  using assms by (auto simp: freeSession_def Let_def bind_eq_Some_conv)

lemma createSession_rest:
  assumes "createSession ac cli acMac cliMac acSes st = Some (r, st')"
  shows "Interfaces st' = Interfaces st" "Epoch st' = Epoch st" "IdleTimeout st' = IdleTimeout st"
    "CleanCounter st' = CleanCounter st" "CleanPeriod st' = CleanPeriod st" "CleanPipe st' = CleanPipe st"
  using assms by (auto simp: createSession_def Let_def bind_eq_Some_conv split: if_splits)

lemma relay_ok_free:
  assumes "relay_ok st" and "x \<in> actives st"
  obtains st' where "freeSession x st = Some st'" and "relay_ok st'" and "actives st' = actives st - {x}"
    and "Interfaces st' = Interfaces st"
proof -
  have inv: "relay_inv st" using assms(1) by (simp add: relay_ok_def)
  obtain st' where f: "freeSession x st = Some st'" "relay_inv st'" "actives st' = actives st - {x}"
    using tbl.free_ok [OF inv assms(2)] by blast
  show thesis
    by (rule that [OF f(1) _ f(3) freeSession_rest(1) [OF f(1)]])
      (use assms(1) f(2) freeSession_rest(1) [OF f(1)] in \<open>simp add: relay_ok_def\<close>)
qed

text \<open>A packet readdressed to the peer behind a hash entry.\<close>

definition peer_packet :: "relay \<Rightarrow> nat \<Rightarrow> PPPoEPacket \<Rightarrow> PPPoEPacket" where
  "peer_packet st sh p = p\<lparr>session := sh_sesNum (AllHashes st sh),
     h_source := if_mac (Interfaces st ! sh_interface (AllHashes st sh)), h_dest := peerMac (AllHashes st sh)\<rparr>"

definition peer_frame :: "relay \<Rightarrow> nat \<Rightarrow> PPPoEPacket \<Rightarrow> int \<Rightarrow> frame" where
  "peer_frame st sh p sz = Sent (sessionSock (Interfaces st ! sh_interface (AllHashes st sh)))
     (take (nat sz) (packet_bytes (peer_packet st sh p)))"

lemma relayHandlePADT_found:
  assumes "relay_ok st" and "0 \<le> sz" "sz \<le> 1520"
    and "findSession st (h_source p) (session p) = Some (Some e)"
  obtains pr x st' where "sh_peer (AllHashes st e) = Some pr" and "sh_ses (AllHashes st e) = Some x"
    and "x \<in> actives st" and "relay_ok st'" and "actives st' = actives st - {x}" and "Interfaces st' = Interfaces st"
    and "freeSession x st = Some st'" and "relayHandlePADT i p sz st = Some (st', [peer_frame st pr p sz])"
proof -
  have inv: "relay_inv st" using assms(1) by (simp add: relay_ok_def)
  obtain pr x where l: "sh_peer (AllHashes st e) = Some pr" "sh_ses (AllHashes st e) = Some x"
    "sh_ses (AllHashes st pr) = Some x" "x \<in> actives st" "sh_interface (AllHashes st pr) < length (Interfaces st)"
    by (rule found_links [OF inv assms(4)]) blast
  obtain st' where f: "freeSession x st = Some st'" "relay_ok st'" "actives st' = actives st - {x}"
    "Interfaces st' = Interfaces st"
    by (rule relay_ok_free [OF assms(1) l(4)]) blast
  have "relayHandlePADT i p sz st = Some (st', [peer_frame st pr p sz])"
    using assms(2-4) l f(1) by (simp add: relayHandlePADT_def peer_frame_def peer_packet_def Let_def)
  with that l(1,2,4) f show thesis by blast
qed

lemma relayHandlePADT_unknown:
  "findSession st (h_source p) (session p) = Some None \<Longrightarrow> relayHandlePADT i p sz st = Some (st, [])"
  by (simp add: relayHandlePADT_def)

definition session_guard :: "relay \<Rightarrow> nat \<Rightarrow> PPPoEPacket \<Rightarrow> int \<Rightarrow> bool" where
  "session_guard st i p sz \<longleftrightarrow> i < length (Interfaces st) \<and> pver p = 1 \<and> ptype p = 1 \<and> code p = CODE_SESS \<and>
     h_dest p = if_mac (Interfaces st ! i) \<and> int (pkt_len p + HDR_SIZE) \<le> sz"

definition touch :: "nat \<Rightarrow> relay \<Rightarrow> relay" where
  "touch x st = upd_ses x (\<lambda>s. s\<lparr>epoch := Epoch st\<rparr>) st"

lemma relayGotSessionPacket_found:
  assumes "relay_ok st" and "wf_packet (u_packet stk)" and "receivePacket (u_packet stk) frm = (p, sz)"
    and "session_guard st i p sz"
    and "findSession st (h_source p) (session p) = Some (Some e)"
  obtains pr x where "sh_peer (AllHashes st e) = Some pr" and "sh_ses (AllHashes st e) = Some x"
    and "x \<in> actives st"
    and "relayGotSessionPacket stk i (Some frm) st = Some (touch x st, [peer_frame st pr p sz])"
proof -
  have inv: "relay_inv st" using assms(1) by (simp add: relay_ok_def)
  obtain pr x where l: "sh_peer (AllHashes st e) = Some pr" "sh_ses (AllHashes st e) = Some x" "x \<in> actives st"
    "sh_interface (AllHashes st pr) < length (Interfaces st)"
    by (rule found_links [OF inv assms(5)]) blast
  note r = receivePacket_wf [OF assms(2,3)]
  have "relayGotSessionPacket stk i (Some frm) st = Some (touch x st, [peer_frame st pr p sz])"
    using assms(3-5) l r
    by (simp add: relayGotSessionPacket_def session_guard_def peer_frame_def peer_packet_def touch_def Let_def iface_at_def)
  with that l show thesis by blast
qed

lemma relayGotSessionPacket_drop:
  assumes "receivePacket (u_packet stk) frm = (p, sz)" and "i < length (Interfaces st)"
    and "session_guard st i p sz \<longrightarrow> findSession st (h_source p) (session p) = Some None"
  shows "relayGotSessionPacket stk i (Some frm) st = Some (st, [])"
  using assms by (auto simp: relayGotSessionPacket_def session_guard_def)

lemma relay_ok_touch: "relay_ok st \<Longrightarrow> relay_ok (touch x st)" "relay_ok st \<Longrightarrow> actives (touch x st) = actives st"
  unfolding touch_def by (rule relay_ok_epoch; assumption)+

section \<open>PADS\<close>

lemma relay_ok_create:
  assumes "relay_ok st" and "ac < length (Interfaces st)" "cli < length (Interfaces st)"
    and "length acMac = 6" "length cliMac = 6"
  obtains r st' where "createSession ac cli acMac cliMac acSes st = Some (r, st')" and "relay_ok st'"
    and "Interfaces st' = Interfaces st"
    and "case r of None \<Rightarrow> st' = st \<and> NumSessions st = MaxSessions st
         | Some x \<Rightarrow> x \<notin> actives st \<and> actives st' = insert x (actives st)"
proof -
  have inv: "relay_inv st" using assms(1) by (simp add: relay_ok_def)
  obtain r st' where c: "createSession ac cli acMac cliMac acSes st = Some (r, st')" "relay_inv st'"
    "case r of None \<Rightarrow> st' = st | Some x \<Rightarrow> x \<notin> actives st \<and> actives st' = insert x (actives st)"
    using tbl.create_ok [OF inv assms(2-5), of acSes] by blast
  have "NumSessions st = MaxSessions st" if "r = None"
  proof (rule ccontr)
    assume "NumSessions st \<noteq> MaxSessions st"
    then have room: "NumSessions st < MaxSessions st" using relay_inv_num(2) [OF inv] by simp
    obtain act fs bk fh where t: "table_ok st act fs bk fh" using inv by (auto simp: relay_inv_def)
    show False
      by (rule createSession_obtain [OF t room assms(2-5), of acSes]) (use c(1) that in simp)
  qed
  then show thesis
    using that [OF c(1)] c(2,3) assms(1) createSession_rest(1) [OF c(1)]
    by (auto simp: relay_ok_def split: option.splits)
qed

lemma findTag_hostUniq:
  assumes "wf_packet p" and "wf_tag tag"
  obtains r where "findTag p TAG_HOST_UNIQ tag = Some r"
    and "\<And>loc t. r = Some (loc, t) \<Longrightarrow> wf_tag t \<and> (\<exists>d. ttype t = htons TAG_HOST_UNIQ \<and>
      tlength t = htons (of_nat (length d)) \<and> length d \<le> 1490 \<and> take (length d) (tpayload t) = d)"
proof -
  obtain r where f: "findTag p TAG_HOST_UNIQ tag = Some r"
    and b: "\<And>loc t. r = Some (loc, t) \<Longrightarrow> loc + 4 + tag_len t \<le> pkt_len p \<and> pkt_len p \<le> 1494 \<and>
       ntohs (ttype t) = TAG_HOST_UNIQ \<and>
       (loc, TAG_HOST_UNIQ, bslice (payload p) (loc + 4) (tag_len t)) \<in> set (snd (packet_tags p)) \<and>
       tpayload t = bslice (payload p) (loc + 4) (tag_len t) @ drop (tag_len t) (tpayload tag)"
    by (rule findTag_some [OF assms(1)]) blast
  show thesis
  proof (rule that [OF f])
    fix loc t assume "r = Some (loc, t)"
    note B = b [OF this]
    define d where "d = bslice (payload p) (loc + 4) (tag_len t)"
    have ld: "length d = tag_len t"
      using B assms(1) unfolding d_def by (intro length_bslice) (simp add: wf_packet_def)
    have "tlength t = htons (of_nat (length d))" by (simp add: ld tag_len_def)
    moreover have "ttype t = htons TAG_HOST_UNIQ" using B by (metis htons_htons)
    moreover have "tpayload t = d @ drop (tag_len t) (tpayload tag)" using B by (simp add: d_def)
    ultimately show "wf_tag t \<and> (\<exists>d. ttype t = htons TAG_HOST_UNIQ \<and>
      tlength t = htons (of_nat (length d)) \<and> length d \<le> 1490 \<and> take (length d) (tpayload t) = d)"
      using ld B assms(2) by (intro conjI exI [of _ d]) (auto simp: wf_tag_def)
  qed
qed

lemma relay_msgs: "length relay_alloc_msg = 43" "length relay_idle_msg = 46"
  by (simp_all add: relay_alloc_msg_def relay_idle_msg_def)

lemma pads_errors_some:
  assumes "relay_ok st" and "stack_ok stk" and "wf_packet p"
    and "cli < length (Interfaces st)" "i < length (Interfaces st)" and "length mac = 6"
  shows "\<exists>fs. do {
            hu \<leftarrow> findTag p TAG_HOST_UNIQ (u_hostUniq stk);
            out \<leftarrow> iface_at st (int cli);
            e1 \<leftarrow> relaySendError stk CODE_PADS (htons 0) out mac (map_option snd hu) relay_alloc_msg;
            iface \<leftarrow> iface_at st (int i);
            e2 \<leftarrow> relaySendError stk CODE_PADT (session p) iface (h_source p) None relay_alloc_msg;
            Some (st, Inl (e1 @ e2) :: frame list + u16) } = Some (st, Inl fs)"
proof -
  have mi: "length (if_mac (Interfaces st ! cli)) = 6" "length (if_mac (Interfaces st ! i)) = 6"
    and ms: "length (h_source p) = 6"
    using assms by (auto simp: relay_ok_def wf_packet_def)
  have hw: "wf_tag (u_hostUniq stk)" using assms(2) by (simp add: stack_ok_def)
  obtain r where f: "findTag p TAG_HOST_UNIQ (u_hostUniq stk) = Some r"
    and hu: "\<And>loc t. r = Some (loc, t) \<Longrightarrow> wf_tag t \<and> (\<exists>d. ttype t = htons TAG_HOST_UNIQ \<and>
      tlength t = htons (of_nat (length d)) \<and> length d \<le> 1490 \<and> take (length d) (tpayload t) = d)"
    by (rule findTag_hostUniq [OF assms(3) hw]) blast
  have e2: "\<exists>es. relaySendError stk CODE_PADT (session p) (Interfaces st ! i) (h_source p) None relay_alloc_msg = Some es"
    using relaySendError_plain [OF assms(2) ms mi(2)] relay_msgs by auto
  have e1: "\<exists>es. relaySendError stk CODE_PADS (htons 0) (Interfaces st ! cli) mac (map_option snd r) relay_alloc_msg = Some es"
  proof (cases r)
    case None
    then show ?thesis using relaySendError_plain [OF assms(2,6) mi(1)] relay_msgs by auto
  next
    case (Some lt)
    obtain loc t where "lt = (loc, t)" by (cases lt)
    with Some hu obtain d where "wf_tag t" "ttype t = htons TAG_HOST_UNIQ" "tlength t = htons (of_nat (length d))"
      "length d \<le> 1490" "take (length d) (tpayload t) = d" by blast
    from relaySendError_hostUniq [OF assms(2,6) mi(1) _ this] show ?thesis
      using Some \<open>lt = (loc, t)\<close> relay_msgs by auto
  qed
  show ?thesis using f e1 e2 assms(4,5) by auto
qed

text \<open>The PADS frame for the client, with the relay tag at \<^verbatim>\<open>off\<close> cut out.\<close>

definition pads_frame :: "relay \<Rightarrow> nat \<times> nat \<times> byte list \<Rightarrow> u16 \<Rightarrow> PPPoEPacket \<Rightarrow> frame" where
  "pads_frame st tgt num p =
     (let (off, k, mac) = tgt
      in Sent (discoverySock (Interfaces st ! k))
           (hdr_bytes (p\<lparr>h_dest := mac, h_source := if_mac (Interfaces st ! k), session := num,
                         plength := htons (of_nat (pkt_len p - 14))\<rparr>) @
            take off (pkt_data p) @ drop (off + 14) (pkt_data p)))"

lemma pads_tail:
  assumes wf: "wf_packet p" and fits: "off + 14 \<le> pkt_len p" "pkt_len p \<le> 1494" and mac: "length mac = 6"
    and ifm: "length (if_mac (Interfaces st ! k)) = 6" and tag: "mem_read (tpayload tag) 4 6 = Some mac"
    and out: "out = Interfaces st ! k"
  shows "do {
       (_, packet) \<leftarrow> removeBytes (p\<lparr>session := num\<rparr>) (int off) (int (MY_RELAY_TAG_LEN + TAG_HDR_SIZE));
       let sz = int (pkt_len p + HDR_SIZE) - int (MY_RELAY_TAG_LEN + TAG_HDR_SIZE);
       mac \<leftarrow> mem_read (tpayload tag) 4 ETH_ALEN;
       let packet = packet\<lparr>h_dest := mac, h_source := if_mac out\<rparr>;
       frm \<leftarrow> sendPacket (discoverySock out) packet sz;
       Some (st, [frm]) } = Some (st, [pads_frame st (off, k, mac) num p])"
proof -
  let ?p = "p\<lparr>session := num\<rparr>"
  have w: "wf_packet ?p" using wf by (simp add: wf_packet_def)
  obtain q where r: "removeBytes ?p (int off) (int 14) = Some (int 14, q)" "wf_packet q"
    "pkt_len q = pkt_len ?p - 14" "pkt_data q = take off (pkt_data ?p) @ drop (off + 14) (pkt_data ?p)"
    "q = ?p\<lparr>payload := payload q, plength := plength q\<rparr>"
    by (rule removeBytes_accept [OF w, of off 14]) (use fits in auto)
  let ?q = "q\<lparr>h_dest := mac, h_source := if_mac (Interfaces st ! k)\<rparr>"
  have wq: "wf_packet ?q" using r(2) mac ifm by (simp add: wf_packet_def)
  have n: "nat (int (pkt_len p + 20) - 14) = pkt_len ?q + 20" using r(3) fits by simp
  have d: "pkt_data ?p = pkt_data p" "pkt_data ?q = pkt_data q" by (simp_all add: pkt_data_def)
  have h: "hdr_bytes ?q = hdr_bytes (p\<lparr>h_dest := mac, h_source := if_mac (Interfaces st ! k), session := num,
                         plength := htons (of_nat (pkt_len p - 14))\<rparr>)"
    by (subst r(5)) (simp add: hdr_bytes_def plength_pkt_len [of q] r(3))
  have s: "sendPacket (discoverySock (Interfaces st ! k)) ?q (int (pkt_len p + 20) - 14) =
      Some (pads_frame st (off, k, mac) num p)"
    using take_packet_bytes [OF wq] fits unfolding sendPacket_def n d h r(4)
    by (simp add: pads_frame_def d)
  show ?thesis
    using r(1) s tag out by simp
qed

lemma pads_session_cases:
  assumes ok: "relay_ok st" and stk: "stack_ok stk" and wf: "wf_packet p" and i: "i < length (Interfaces st)"
    and tgt: "relay_target st clientOK i p = Some (off, k, mac)"
  obtains (zero) "session p = 0" and "pads_session stk i k p off st = Some (st, Inr 0)"
  | (dup) e x where "session p \<noteq> 0" and "findSession st (h_source p) (session p) = Some (Some e)"
      and "sh_ses (AllHashes st e) = Some x" and "x \<in> actives st"
      and "pads_session stk i k p off st = Some (st, Inr (s_sesNum (AllSessions st x)))"
  | (full) fs where "session p \<noteq> 0" and "findSession st (h_source p) (session p) = Some None"
      and "NumSessions st = MaxSessions st" and "pads_session stk i k p off st = Some (st, Inl fs)"
  | (fresh) x st' where "session p \<noteq> 0" and "findSession st (h_source p) (session p) = Some None"
      and "createSession i k (h_source p) mac (session p) st = Some (Some x, st')" and "relay_ok st'"
      and "Interfaces st' = Interfaces st" and "x \<notin> actives st" and "actives st' = insert x (actives st)"
      and "pads_session stk i k p off st = Some (st', Inr (s_sesNum (AllSessions st' x)))"
proof -
  have inv: "relay_inv st" using ok by (simp add: relay_ok_def)
  note b = relay_target_bound [OF wf tgt]
  have src: "length (h_source p) = 6" using wf by (simp add: wf_packet_def)
  have cm: "mem_read (payload p) (off + 4 + 4) 6 = Some mac"
    using b(1,2,6) wf by (simp add: mem_read_def wf_packet_def add.commute)
  show thesis
  proof (cases "session p = 0")
    case True
    then show thesis using zero by (simp add: pads_session_def)
  next
    case nz: False
    obtain r where f: "findSession st (h_source p) (session p) = Some r"
      using tbl.lookup_total [OF inv] by blast
    show thesis
    proof (cases r)
      case (Some e)
      then have fe: "findSession st (h_source p) (session p) = Some (Some e)" using f by simp
      obtain x where x: "x \<in> actives st" "sh_ses (AllHashes st e) = Some x"
        using tbl.lookup_owner [OF inv fe] by blast
      show thesis by (rule dup [OF nz fe x(2,1)]) (use nz fe x cm in \<open>simp add: pads_session_def\<close>)
    next
      case None
      with f have fn: "findSession st (h_source p) (session p) = Some None" by simp
      obtain c st' where c: "createSession i k (h_source p) mac (session p) st = Some (c, st')" "relay_ok st'"
        "Interfaces st' = Interfaces st" "case c of None \<Rightarrow> st' = st \<and> NumSessions st = MaxSessions st
         | Some x \<Rightarrow> x \<notin> actives st \<and> actives st' = insert x (actives st)"
        by (rule relay_ok_create [OF ok i b(3) src b(7)]) blast
      show thesis
      proof (cases c)
        case (Some x)
        show thesis
          by (rule fresh [OF nz fn c(1) [unfolded Some] c(2,3)]) (use nz fn c Some cm in \<open>simp_all add: pads_session_def\<close>)
      next
        case none: None
        have st': "st' = st" "NumSessions st = MaxSessions st" using c(4) none by simp_all
        obtain fs where "do {
            hu \<leftarrow> findTag p TAG_HOST_UNIQ (u_hostUniq stk);
            out \<leftarrow> iface_at st (int k);
            e1 \<leftarrow> relaySendError stk CODE_PADS (htons 0) out mac (map_option snd hu) relay_alloc_msg;
            iface \<leftarrow> iface_at st (int i);
            e2 \<leftarrow> relaySendError stk CODE_PADT (session p) iface (h_source p) None relay_alloc_msg;
            Some (st, Inl (e1 @ e2) :: frame list + u16) } = Some (st, Inl fs)"
          using pads_errors_some [OF ok stk wf b(3) i b(7)] by blast
        then have "pads_session stk i k p off st = Some (st, Inl fs)"
          using nz fn c(1) none st' cm by (simp add: pads_session_def)
        with full [OF nz fn st'(2)] show thesis by blast
      qed
    qed
  qed
qed

lemma pads_session_keep:
  assumes "pads_session stk i k p off st = Some (st', r)"
  shows "Interfaces st' = Interfaces st"
  using assms createSession_rest(1)
  by (auto simp: pads_session_def Let_def bind_eq_Some_conv split: if_splits option.splits prod.splits)

lemma relayHandlePADS_eq:
  assumes ok: "relay_ok st" and wf: "wf_packet p" and stk: "stack_ok stk" and i: "i < length (Interfaces st)"
  shows "relayHandlePADS stk i p (int (pkt_len p + HDR_SIZE)) st =
    (if unicast_guard acOK st i p
     then (case relay_target st clientOK i p of None \<Rightarrow> Some (st, [])
           | Some (off, k, mac) \<Rightarrow>
               map_option (\<lambda>(st', r). (st', case r of Inl errs \<Rightarrow> errs
                                        | Inr num \<Rightarrow> [pads_frame st' (off, k, mac) num p]))
                 (pads_session stk i k p off st))
     else Some (st, []))"
proof (rule target_body [OF wf, of "u_tag stk" st clientOK i], goal_cases)
  case 1
  show ?case using stk by (simp add: stack_ok_def)
next
  case (2 tag)
  show ?case
  proof (cases "unicast_guard acOK st i p")
    case False
    then show ?thesis using i by (auto simp: relayHandlePADS_def unicast_guard_def)
  next
    case True
    let ?s = st
    have A: "relayHandlePADS stk i p (int (pkt_len p + HDR_SIZE)) st =
      (case relay_target st clientOK i p of None \<Rightarrow> Some (st, []) | Some (off, k, mac) \<Rightarrow>
         do { (st, r) \<leftarrow> pads_session stk i (nat (int k)) p off st;
                   case r of Inl errs \<Rightarrow> Some (st, errs)
                   | Inr num \<Rightarrow> do {
                       (_, packet) \<leftarrow> removeBytes (p\<lparr>session := num\<rparr>) (int off)
                                        (int (MY_RELAY_TAG_LEN + TAG_HDR_SIZE));
                       let sz = int (pkt_len p + HDR_SIZE) - int (MY_RELAY_TAG_LEN + TAG_HDR_SIZE);
                       mac \<leftarrow> mem_read (tpayload tag) 4 ETH_ALEN;
                       let packet = packet\<lparr>h_dest := mac, h_source := if_mac (Interfaces ?s ! k)\<rparr>;
                       frm \<leftarrow> sendPacket (discoverySock (Interfaces ?s ! k)) packet sz;
                       Some (st, [frm])
                     } })"
      using True i unfolding relayHandlePADS_def 2(2) by (simp add: unicast_guard_def)
    have B: "(do { (st, r) \<leftarrow> pads_session stk i (nat (int k)) p off st;
                   case r of Inl errs \<Rightarrow> Some (st, errs)
                   | Inr num \<Rightarrow> do {
                       (_, packet) \<leftarrow> removeBytes (p\<lparr>session := num\<rparr>) (int off)
                                        (int (MY_RELAY_TAG_LEN + TAG_HDR_SIZE));
                       let sz = int (pkt_len p + HDR_SIZE) - int (MY_RELAY_TAG_LEN + TAG_HDR_SIZE);
                       mac \<leftarrow> mem_read (tpayload tag) 4 ETH_ALEN;
                       let packet = packet\<lparr>h_dest := mac, h_source := if_mac (Interfaces ?s ! k)\<rparr>;
                       frm \<leftarrow> sendPacket (discoverySock (Interfaces ?s ! k)) packet sz;
                       Some (st, [frm])
                     } }) = map_option (\<lambda>(st', r). (st', case r of Inl errs \<Rightarrow> errs
                                        | Inr num \<Rightarrow> [pads_frame st' (off, k, mac) num p]))
                 (pads_session stk i k p off st)"
      if t: "relay_target st clientOK i p = Some (off, k, mac)" for off k mac
    proof (cases "pads_session stk i k p off st")
      case None
      then show ?thesis by simp
    next
      case (Some sr)
      obtain st' r where sr: "sr = (st', r)" by (cases sr)
      note b = relay_target_bound [OF wf t]
      have same: "Interfaces st' = Interfaces st" by (rule pads_session_keep) (use Some sr in blast)
      have "length (if_mac (Interfaces st' ! k)) = 6"
        unfolding same using ok b(3) by (simp add: relay_ok_def)
      from pads_tail [OF wf b(1,2,7) this 2(1) [OF t]] show ?thesis
        using Some sr same by (cases r) simp_all
    qed
    show ?thesis
    proof (cases "relay_target st clientOK i p")
      case None
      then show ?thesis unfolding A using True by simp
    next
      case (Some t)
      obtain off k mac where t: "t = (off, k, mac)" by (cases t)
      show ?thesis
        unfolding A Some t option.case prod.case B [OF Some [unfolded t]] using True by simp
    qed
  qed
qed

lemma relayHandlePADS_safe:
  assumes "relay_ok st" and "stack_ok stk" and "wf_packet p" and "i < length (Interfaces st)"
  shows "\<exists>st' out. relayHandlePADS stk i p (int (pkt_len p + HDR_SIZE)) st = Some (st', out) \<and> relay_ok st' \<and>
    Interfaces st' = Interfaces st"
proof (cases "unicast_guard acOK st i p \<and> relay_target st clientOK i p \<noteq> None")
  case False
  then show ?thesis using assms(1) unfolding relayHandlePADS_eq [OF assms(1,3,2,4)]
    by (cases "relay_target st clientOK i p") auto
next
  case True
  then obtain off k mac where t: "relay_target st clientOK i p = Some (off, k, mac)" by auto
  show ?thesis
    using True t unfolding relayHandlePADS_eq [OF assms(1,3,2,4)]
    by (cases rule: pads_session_cases [OF assms t]) (use assms(1) in simp_all)
qed

section \<open>The cleaner\<close>

definition idle :: "relay \<Rightarrow> nat \<Rightarrow> bool" where
  "idle st x \<longleftrightarrow> Epoch st - epoch (AllSessions st x) > IdleTimeout st"

definition entry_padt :: "relay \<Rightarrow> nat \<Rightarrow> frame" where
  "entry_padt st h = error_frame CODE_PADT (sh_sesNum (AllHashes st h))
     (Interfaces st ! sh_interface (AllHashes st h)) (peerMac (AllHashes st h)) [(TAG_GENERIC_ERROR, relay_idle_msg)]"

definition idle_frames :: "relay \<Rightarrow> nat \<Rightarrow> frame list" where
  "idle_frames st x = (if idle st x then map (entry_padt st) [the (acHash (AllSessions st x)), the (clientHash (AllSessions st x))]
     else [])"

definition hd_opt :: "nat list \<Rightarrow> nat option" where
  "hd_opt xs = (case xs of [] \<Rightarrow> None | x # _ \<Rightarrow> Some x)"

lemma table_next: "table_ok st (as @ x # xs) fs bk fh \<Longrightarrow> s_next (AllSessions st x) = hd_opt xs"
  using active.lists_neighbours(1) [of st as x xs] by (simp add: table_ok_def slists_def hd_opt_def)

lemma clean_one_ok:
  assumes ok: "relay_ok st" and stk: "stack_ok stk" and t: "table_ok st (as @ x # xs) fs bk fh"
  obtains st' where "clean_one stk x st = Some (st', idle_frames st x)" and "relay_ok st'"
    and "\<exists>as' fs bk fh. table_ok st' (as' @ xs) fs bk fh \<and> set as' = (if idle st x then set as else insert x (set as))"
    and "\<And>i. sh_core (AllHashes st' i) = sh_core (AllHashes st i)"
    and "\<And>i. s_core (AllSessions st' i) = s_core (AllSessions st i)"
    and "\<And>i. epoch (AllSessions st' i) = epoch (AllSessions st i)"
    and "Interfaces st' = Interfaces st" "Epoch st' = Epoch st" "IdleTimeout st' = IdleTimeout st"
proof (cases "idle st x")
  case False
  then have "clean_one stk x st = Some (st, idle_frames st x)"
    by (simp add: clean_one_def idle_def idle_frames_def)
  moreover have "\<exists>as' fs bk fh. table_ok st (as' @ xs) fs bk fh \<and> set as' = (if idle st x then set as else insert x (set as))"
    using t False by (intro exI [of _ "as @ [x]"] exI [of _ fs] exI [of _ bk] exI [of _ fh]) simp
  ultimately show thesis using that ok by blast
next
  case True
  have x: "x \<in> set (as @ x # xs)" by simp
  obtain a c st' bk' where ac: "acHash (AllSessions st x) = Some a" "clientHash (AllSessions st x) = Some c"
    and f: "freeSession x st = Some st'"
    and t': "table_ok st' (remove1 x (as @ x # xs)) (x # fs) bk' (c # a # fh)"
    and core: "\<And>i. sh_core (AllHashes st' i) = sh_core (AllHashes st i)"
      "\<And>i. s_core (AllSessions st' i) = s_core (AllSessions st i)"
      "\<And>i. epoch (AllSessions st' i) = epoch (AllSessions st i)"
      "Interfaces st' = Interfaces st" "Epoch st' = Epoch st" "IdleTimeout st' = IdleTimeout st"
    by (rule freeSession_ok [OF t x]) blast
  have "distinct (as @ x # xs)" using t by (auto simp: table_ok_def slists_def)
  then have r: "remove1 x (as @ x # xs) = as @ xs" by (simp add: remove1_append)
  have lk: "links_ok st (set (as @ x # xs)) (used bk)" using t by (simp add: table_ok_def)
  then have "a \<in> used bk" "c \<in> used bk" using ac unfolding links_ok_def by auto
  then have e: "sh_interface (AllHashes st h) < length (Interfaces st)" "length (peerMac (AllHashes st h)) = 6"
    if "h \<in> {a, c}" for h using lk that unfolding links_ok_def by auto
  have s: "relaySendError stk CODE_PADT (sh_sesNum (AllHashes st h)) (Interfaces st ! sh_interface (AllHashes st h))
      (peerMac (AllHashes st h)) None relay_idle_msg = Some [entry_padt st h]" if "h \<in> {a, c}" for h
    unfolding entry_padt_def
    by (rule relaySendError_plain [OF stk e(2) [OF that]])
      (use ok e(1) [OF that] relay_msgs in \<open>simp_all add: relay_ok_def\<close>)
  have "clean_one stk x st = Some (st', idle_frames st x)"
    using True s [of a] s [of c] e(1) [of a] e(1) [of c] ac f unfolding clean_one_def idle_def [symmetric]
    by (simp add: idle_frames_def)
  moreover have "relay_inv st'" using t' unfolding relay_inv_def by blast
  then have "relay_ok st'" using ok core(4) by (simp add: relay_ok_def)
  moreover have "\<exists>as' fs bk fh. table_ok st' (as' @ xs) fs bk fh \<and> set as' = (if idle st x then set as else insert x (set as))"
    using t' r True by auto
  ultimately show thesis using that core by blast
qed

lemma core_frames:
  assumes "\<And>i. sh_core (AllHashes st' i) = sh_core (AllHashes st i)"
    and "\<And>i. s_core (AllSessions st' i) = s_core (AllSessions st i)"
    and "\<And>i. epoch (AllSessions st' i) = epoch (AllSessions st i)"
    and "Interfaces st' = Interfaces st" "Epoch st' = Epoch st" "IdleTimeout st' = IdleTimeout st"
  shows "idle_frames st' x = idle_frames st x" and "idle st' x = idle st x"
proof -
  show i: "idle st' x = idle st x" using assms by (simp add: idle_def)
  have "entry_padt st' h = entry_padt st h" for h
    using sh_coreD [OF assms(1) [of h]] assms(4) by (simp add: entry_padt_def)
  moreover have "acHash (AllSessions st' x) = acHash (AllSessions st x)" "clientHash (AllSessions st' x) = clientHash (AllSessions st x)"
    using assms(2) [of x] by (simp_all add: s_core_def)
  ultimately show "idle_frames st' x = idle_frames st x" by (simp add: idle_frames_def i)
qed

lemma cleanSessions_loop_ok:
  assumes "relay_ok st" and "stack_ok stk" and "table_ok st (as @ xs) fs bk fh"
  shows "\<exists>st'. cleanSessions_loop stk (hd_opt xs) st = Some (st', concat (map (idle_frames st) xs)) \<and> relay_ok st' \<and>
    Interfaces st' = Interfaces st \<and> actives st' = set as \<union> {x \<in> set xs. \<not> idle st x}"
  using assms
proof (induction xs arbitrary: st as fs bk fh)
  case Nil
  then show ?case using actives_eq [OF Nil(3)] by (simp add: cleanSessions_loop.simps hd_opt_def)
next
  case (Cons x xs)
  obtain st1 as' fs' bk' fh' where c: "clean_one stk x st = Some (st1, idle_frames st x)" and ok1: "relay_ok st1"
    and t1: "table_ok st1 (as' @ xs) fs' bk' fh'" and as': "set as' = (if idle st x then set as else insert x (set as))"
    and core: "\<And>i. sh_core (AllHashes st1 i) = sh_core (AllHashes st i)"
      "\<And>i. s_core (AllSessions st1 i) = s_core (AllSessions st i)"
      "\<And>i. epoch (AllSessions st1 i) = epoch (AllSessions st i)"
      "Interfaces st1 = Interfaces st" "Epoch st1 = Epoch st" "IdleTimeout st1 = IdleTimeout st"
    by (rule clean_one_ok [OF Cons.prems]) blast
  note cf = core_frames [OF core]
  have fr: "idle_frames st1 = idle_frames st" using cf(1) by auto
  obtain st' where l: "cleanSessions_loop stk (hd_opt xs) st1 = Some (st', concat (map (idle_frames st1) xs))" "relay_ok st'"
    "Interfaces st' = Interfaces st1" "actives st' = set as' \<union> {x \<in> set xs. \<not> idle st1 x}"
    using Cons.IH [OF ok1 Cons.prems(2) t1] by blast
  have "cleanSessions_loop stk (hd_opt (x # xs)) st = Some (st', idle_frames st x @ concat (map (idle_frames st) xs))"
    by (subst cleanSessions_loop.simps) (use table_next [OF Cons.prems(3)] c l(1) in \<open>simp add: hd_opt_def fr\<close>)
  moreover have "actives st' = set as \<union> {y \<in> set (x # xs). \<not> idle st y}"
    using l(4) as' by (auto simp: cf split: if_splits)
  ultimately show ?case using l core(4) by auto
qed

section \<open>Safety of every handler\<close>

definition safe_result :: "relay \<Rightarrow> relay_result \<Rightarrow> bool" where
  "safe_result st res \<longleftrightarrow> (\<exists>st' out. res = Some (st', out) \<and> relay_ok st' \<and> Interfaces st' = Interfaces st)"

lemma relayHandlePADT_safe:
  assumes "relay_ok st" and "0 \<le> sz" "sz \<le> 1520"
  shows "safe_result st (relayHandlePADT i p sz st)"
proof -
  have "relay_inv st" using assms(1) by (simp add: relay_ok_def)
  then obtain r where r: "findSession st (h_source p) (session p) = Some r" using tbl.lookup_total by blast
  show ?thesis
  proof (cases r)
    case None
    then show ?thesis using r assms(1) relayHandlePADT_unknown unfolding safe_result_def by blast
  next
    case (Some e)
    show ?thesis
      by (rule relayHandlePADT_found [OF assms]) (use r Some in \<open>auto simp: safe_result_def\<close>)
  qed
qed

lemma relayGotDiscoveryPacket_safe:
  assumes "relay_ok st" and "stack_ok stk" and "i < length (Interfaces st)"
  shows "safe_result st (relayGotDiscoveryPacket stk i inp st)"
proof (cases inp)
  case None
  then show ?thesis using assms(1,3) by (simp add: relayGotDiscoveryPacket_def safe_result_def)
next
  case (Some frm)
  obtain p sz where r: "receivePacket (u_packet stk) frm = (p, sz)" by fastforce
  have wf: "wf_packet p" "0 \<le> sz" "sz \<le> 1520"
    using receivePacket_wf [OF _ r] assms(2) by (simp_all add: stack_ok_def)
  show ?thesis
  proof (cases "pver p = 1 \<and> ptype p = 1 \<and> int (pkt_len p + HDR_SIZE) \<le> sz")
    case False
    then show ?thesis using assms(1,3) r Some by (auto simp: relayGotDiscoveryPacket_def safe_result_def)
  next
    case True
    let ?n = "int (pkt_len p + HDR_SIZE)"
    have n: "0 \<le> ?n" "?n \<le> 1520" using True wf by auto
    have m: "\<forall>f \<in> set (Interfaces st). length (if_mac f) = 6" using assms(1) by (simp add: relay_ok_def)
    have t: "wf_tag (u_tag stk)" using assms(2) by (simp add: stack_ok_def)
    have "safe_result st (relayHandlePADT i p ?n st)" by (rule relayHandlePADT_safe [OF assms(1) n])
    moreover have "safe_result st (relayHandlePADI stk i p ?n st)"
      using relayHandlePADI_eq [OF wf(1) t m assms(3)] assms(1) by (auto simp: safe_result_def)
    moreover have "safe_result st (relayHandlePADO stk i p ?n st)" "safe_result st (relayHandlePADR stk i p ?n st)"
      using relayHandlePADO_eq [OF wf(1) t n assms(3)] relayHandlePADR_eq [OF wf(1) t n assms(3)] assms(1)
      by (auto simp: safe_result_def)
    moreover have "safe_result st (relayHandlePADS stk i p ?n st)"
      unfolding safe_result_def by (rule relayHandlePADS_safe [OF assms(1,2) wf(1) assms(3)])
    moreover have "safe_result st (Some (st, []))" using assms(1) by (simp add: safe_result_def)
    moreover have "(if sz > ?n then ?n else sz) = ?n" using True by simp
    ultimately show ?thesis
      using True Some assms(3) unfolding relayGotDiscoveryPacket_def Some option.case r prod.case Let_def by simp
  qed
qed

lemma relayGotSessionPacket_safe:
  assumes "relay_ok st" and "stack_ok stk" and "i < length (Interfaces st)"
  shows "safe_result st (relayGotSessionPacket stk i inp st)"
proof (cases inp)
  case None
  then show ?thesis using assms(1,3) by (simp add: relayGotSessionPacket_def safe_result_def)
next
  case (Some frm)
  obtain p sz where r: "receivePacket (u_packet stk) frm = (p, sz)" by fastforce
  have wp: "wf_packet (u_packet stk)" using assms(2) by (simp add: stack_ok_def)
  have "relay_inv st" using assms(1) by (simp add: relay_ok_def)
  then obtain f where f: "findSession st (h_source p) (session p) = Some f" using tbl.lookup_total by blast
  show ?thesis
  proof (cases "session_guard st i p sz \<and> f \<noteq> None")
    case False
    then have "relayGotSessionPacket stk i (Some frm) st = Some (st, [])"
      by (intro relayGotSessionPacket_drop [OF r assms(3)]) (use f in auto)
    then show ?thesis using Some assms(1) by (simp add: safe_result_def)
  next
    case True
    then obtain e where "f = Some e" by auto
    then have fe: "findSession st (h_source p) (session p) = Some (Some e)" using f by simp
    obtain pr x where "relayGotSessionPacket stk i (Some frm) st = Some (touch x st, [peer_frame st pr p sz])"
      by (rule relayGotSessionPacket_found [OF assms(1) wp r _ fe]) (use True in auto)
    then show ?thesis
      using Some relay_ok_touch(1) [OF assms(1)] by (simp add: safe_result_def touch_def)
  qed
qed

lemma run_handlers_safe:
  assumes "\<And>s i. relay_ok s \<Longrightarrow> Interfaces s = Interfaces st \<Longrightarrow> i \<in> set is \<Longrightarrow> safe_result s (h i (inp i) s)"
    and "relay_ok st"
  shows "safe_result st (run_handlers h inp is st)"
  using assms
proof (induction "is" arbitrary: st)
  case Nil
  then show ?case by (simp add: safe_result_def)
next
  case (Cons i "is")
  then obtain s1 o1 where 1: "h i (inp i) st = Some (s1, o1)" "relay_ok s1" "Interfaces s1 = Interfaces st"
    unfolding safe_result_def by (metis list.set_intros(1))
  have "safe_result s1 (run_handlers h inp is s1)"
    by (rule Cons.IH) (use Cons.prems 1 in auto)
  then show ?case using 1 by (auto simp: safe_result_def)
qed

lemma relay_ok_counters:
  "relay_ok st \<Longrightarrow> relay_ok (st\<lparr>CleanCounter := a, CleanPipe := b\<rparr>)"
  "relay_ok st \<Longrightarrow> relay_ok (alarmHandler st)"
  "relay_ok st \<Longrightarrow> actives (alarmHandler st) = actives st"
  using relay_inv_cong [of st "st\<lparr>CleanCounter := a, CleanPipe := b\<rparr>"] relay_inv_cong [of st "alarmHandler st"]
  by (simp_all add: relay_ok_def alarmHandler_def Let_def)

lemma cleanSessions_ok:
  assumes "relay_ok st" and "stack_ok stk"
  obtains st' xs where "cleanSessions stk st = Some (st', concat (map (idle_frames st) xs))" and "relay_ok st'"
    and "Interfaces st' = Interfaces st" and "distinct xs" and "set xs = actives st"
    and "actives st' = {x \<in> actives st. \<not> idle st x}"
proof -
  obtain act fs bk fh where t: "table_ok st act fs bk fh"
    using assms(1) by (auto simp: relay_ok_def relay_inv_def)
  have h: "ActiveSessions st = hd_opt act"
    using t active.lists_head [of st act] by (simp add: table_ok_def slists_def hd_opt_def)
  have d: "distinct act" using t by (auto simp: table_ok_def slists_def)
  have t0: "table_ok st ([] @ act) fs bk fh" using t by simp
  obtain st' where
    "cleanSessions_loop stk (hd_opt act) st = Some (st', concat (map (idle_frames st) act))" "relay_ok st'"
    "Interfaces st' = Interfaces st" "actives st' = {x \<in> set act. \<not> idle st x}"
    using cleanSessions_loop_ok [OF assms t0] by auto
  with that [of st' act] d actives_eq [OF t] h show thesis by (simp add: cleanSessions_def)
qed

lemma clean_step_safe:
  assumes "relay_ok st" and "stack_ok stk"
  shows "safe_result st (clean_step stk st)"
proof -
  let ?st = "st\<lparr>CleanCounter := 0, CleanPipe := CleanPipe st - 1\<rparr>"
  have ok: "relay_ok ?st" by (rule relay_ok_counters(1) [OF assms(1)])
  obtain st' out where "cleanSessions stk ?st = Some (st', out)" "relay_ok st'" "Interfaces st' = Interfaces ?st"
    by (rule cleanSessions_ok [OF ok assms(2)]) blast
  then show ?thesis using ok by (auto simp: clean_step_def safe_result_def Let_def)
qed

lemma safe_result_bind:
  assumes "safe_result st r"
    and "\<And>s out. relay_ok s \<Longrightarrow> Interfaces s = Interfaces st \<Longrightarrow> safe_result s (k s out)"
  shows "safe_result st (Option.bind r (\<lambda>(s, out). k s out))"
  using assms unfolding safe_result_def by fastforce

lemma relayLoop_round_safe:
  assumes "relay_ok st" and "stack_ok stk"
  shows "safe_result st (relayLoop_round stk ses dis clean st)"
  unfolding relayLoop_round_def
proof (rule safe_result_bind, goal_cases)
  case 1
  show ?case by (rule run_handlers_safe [OF relayGotSessionPacket_safe [OF _ assms(2)] assms(1)]) auto
next
  case (2 s1 o1)
  show ?case
  proof (rule safe_result_bind, goal_cases)
    case 1
    show ?case
      by (rule run_handlers_safe [OF relayGotDiscoveryPacket_safe [OF _ assms(2)]]) (use 2 in auto)
  next
    case (2 s2 o2)
    have "safe_result s2 (if clean then clean_step stk s2 else Some (s2, []))"
      using clean_step_safe [OF 2(1) assms(2)] 2(1) by (cases clean) (simp_all add: safe_result_def)
    then show ?case by (rule safe_result_bind) (simp add: safe_result_def)
  qed
qed

section \<open>Set-up\<close>

definition setup_ok :: "int \<times> bool \<times> relay \<Rightarrow> bool" where
  "setup_ok s = (case s of (nsess, d, st) \<Rightarrow> 1 \<le> nsess \<and> nsess \<le> 65534 \<and> length (Interfaces st) \<le> MAX_INTERFACES \<and>
     (\<forall>f \<in> set (Interfaces st). length (if_mac f) = 6) \<and> (\<forall>b < HASHTAB_SIZE. Buckets st b = None) \<and>
     CleanPeriod st \<ge> MIN_CLEAN_PERIOD \<and> CleanCounter st = 0 \<and> CleanPipe st = 0)"

lemma relay_option_setup:
  assumes "\<And>n t. length (snd (openi n t)) = 6" and "setup_ok s" and "relay_option openi a s = Inr s'"
  shows "setup_ok s'"
  using assms
  by (auto simp: setup_ok_def relay_option_def addInterface_def Let_def
      split: relay_opt.splits if_splits option.splits)

lemma relay_options_setup:
  assumes "\<And>n t. length (snd (openi n t)) = 6" and "setup_ok s" and "relay_options openi as s = Inr s'"
  shows "setup_ok s'"
  using assms(2,3)
proof (induction "as" arbitrary: s)
  case Nil
  then show ?case by simp
next
  case (Cons a "as")
  then obtain s1 where "relay_option openi a s = Inr s1" "relay_options openi as s1 = Inr s'"
    by (auto split: sum.splits)
  moreover from this have "setup_ok s1" by (intro relay_option_setup [OF assms(1) Cons.prems(1)])
  ultimately show ?case using Cons.IH by blast
qed

lemma relay_main_ok:
  assumes "\<And>n t. length (snd (openi n t)) = 6" and "relay_main openi args = Inr st"
  shows "relay_ok st" and "2 \<le> length (Interfaces st)" and "actives st = {}" and "CleanPeriod st \<ge> MIN_CLEAN_PERIOD"
    and "CleanCounter st = 0" and "CleanPipe st = 0"
proof -
  obtain nsess d s where o: "relay_options openi args (DEFAULT_SESSIONS, True, relay_globals) = Inr (nsess, d, s)"
    and st: "2 \<le> length (Interfaces s)" "st = initRelay (nat nsess) s"
    using assms(2) by (auto simp: relay_main_def split: sum.splits if_splits)
  have "setup_ok (DEFAULT_SESSIONS, True, relay_globals)" by (simp add: setup_ok_def relay_globals_def)
  from relay_options_setup [OF assms(1) this o]
  have s: "setup_ok (nsess, d, s)" .
  have t: "table_ok st [] [0..<nat nsess] (\<lambda>_. []) [0..<2 * nat nsess]"
    unfolding st(2) by (rule initRelay_ok) (use s in \<open>auto simp: setup_ok_def\<close>)
  then have "relay_inv st" unfolding relay_inv_def by blast
  then show "relay_ok st" using s by (simp add: relay_ok_def st(2) initRelay_def setup_ok_def)
  show "2 \<le> length (Interfaces st)" "CleanPeriod st \<ge> MIN_CLEAN_PERIOD" "CleanCounter st = 0" "CleanPipe st = 0"
    using s st by (simp_all add: initRelay_def setup_ok_def)
  show "actives st = {}" using actives_eq [OF t] by simp
qed

section \<open>The daemon as a state machine\<close>

text \<open>
  The events of the running daemon: a tick of the alarm, a frame on a session or a discovery
  socket, and the cleaner when a byte waits in the pipe. The events of one round of
  \<^verbatim>\<open>relayLoop\<close> are a sequence of such steps, and the alarm may come between any two of them.
\<close>

inductive relay_step :: "relay \<Rightarrow> frame list \<Rightarrow> relay \<Rightarrow> bool" where
  tick: "relay_step st [] (alarmHandler st)"
| session_frame: "stack_ok stk \<Longrightarrow> i < length (Interfaces st) \<Longrightarrow>
    relayGotSessionPacket stk i inp st = Some (st', out) \<Longrightarrow> relay_step st out st'"
| discovery_frame: "stack_ok stk \<Longrightarrow> i < length (Interfaces st) \<Longrightarrow>
    relayGotDiscoveryPacket stk i inp st = Some (st', out) \<Longrightarrow> relay_step st out st'"
| clean: "stack_ok stk \<Longrightarrow> CleanPipe st > 0 \<Longrightarrow> clean_step stk st = Some (st', out) \<Longrightarrow> relay_step st out st'"

inductive relay_reach :: "(string \<Rightarrow> u16 \<Rightarrow> int \<times> byte list) \<Rightarrow> relay \<Rightarrow> bool" for openi where
  start: "relay_main openi args = Inr st \<Longrightarrow> relay_reach openi st"
| step: "relay_reach openi st \<Longrightarrow> relay_step st out st' \<Longrightarrow> relay_reach openi st'"

inductive_cases relay_step_cases: "relay_step st out st'"

lemma relay_step_ok:
  assumes "relay_step st out st'" and "relay_ok st"
  shows "relay_ok st' \<and> Interfaces st' = Interfaces st"
  using assms
proof (induction rule: relay_step.induct)
  case (tick st)
  then show ?case using relay_ok_counters(2) by (simp add: alarmHandler_def Let_def)
next
  case (session_frame stk i st inp st' out)
  then show ?case using relayGotSessionPacket_safe [of st stk i inp] by (simp add: safe_result_def)
next
  case (discovery_frame stk i st inp st' out)
  then show ?case using relayGotDiscoveryPacket_safe [of st stk i inp] by (simp add: safe_result_def)
next
  case (clean stk st st' out)
  then show ?case using clean_step_safe [of st stk] by (simp add: safe_result_def)
qed

lemma relay_reach_ok:
  assumes "\<And>n t. length (snd (openi n t)) = 6" and "relay_reach openi st"
  shows "relay_ok st \<and> 2 \<le> length (Interfaces st)"
  using assms(2)
proof (induction rule: relay_reach.induct)
  case (start args st)
  then show ?case using relay_main_ok(1,2) [OF assms(1) start] by simp
next
  case (step st out st')
  then show ?case using relay_step_ok by metis
qed

section \<open>Properties of the relay\<close>

text \<open>A set-up with two interfaces, for the witnesses.\<close>

definition demo_open :: "string \<Rightarrow> u16 \<Rightarrow> int \<times> byte list" where
  "demo_open n t = (if n = ''eth0'' then (if t = ETH_PPPOE_DISCOVERY then 3 else 4, [2, 0, 0, 0, 0, 1])
     else (if t = ETH_PPPOE_DISCOVERY then 5 else 6, [2, 0, 0, 0, 0, 2]))"

definition demo_args :: "relay_opt list" where
  "demo_args = [Opt_C ''eth0'', Opt_S ''eth1'', Opt_n (Some 2)]"

definition demo_stack :: relay_stack where
  "demo_stack = \<lparr>u_packet = sample_padi, u_tag = sample_tag, u_hostUniq = sample_tag,
     u_errPacket = sample_padi, u_errTag = sample_tag\<rparr>"

lemma demo_open_mac: "length (snd (demo_open n t)) = 6"
  by (simp add: demo_open_def)

lemma demo_stack_ok: "stack_ok demo_stack"
  by (simp add: demo_stack_def stack_ok_def wf_tag_def sample_tag_def)

lemma demo_main: "relay_main demo_open demo_args = Inr demo_empty"
  by (simp add: relay_main_def demo_args_def relay_option_def addInterface_def relay_globals_def demo_open_def
      initRelay_def demo_empty_def blank_relay_def)

lemma demo_reach: "relay_reach demo_open demo_empty"
  by (rule relay_reach.start [OF demo_main])

text \<open>
  C1. In every state that the relay reaches, from any accepted command line and under any
  sequence of frames, alarms and cleaner runs, the session table invariant holds: the active
  list, the free lists and the hash chains are well formed and disjoint, every active session
  owns two entries that are peers of each other and point to existing interfaces, and the
  number of sessions is the number of active ones and within the limit.
\<close>

theorem relay_invariant:
  assumes "\<forall>n t. length (snd (openi n t)) = 6" and "relay_reach openi st"
  shows "relay_inv st \<and> NumSessions st = card (actives st) \<and> NumSessions st \<le> MaxSessions st \<and>
    2 \<le> length (Interfaces st) \<and> length (Interfaces st) \<le> MAX_INTERFACES"
proof -
  have "relay_ok st \<and> 2 \<le> length (Interfaces st)"
    by (rule relay_reach_ok) (use assms in auto)
  then show ?thesis using relay_inv_num by (simp add: relay_ok_def)
qed

theorem relay_invariant_witness:
  "(\<forall>n t. length (snd (demo_open n t)) = 6) \<and> relay_reach demo_open demo_empty \<and>
   relay_inv demo_empty \<and> 2 \<le> length (Interfaces demo_empty)"
  using relay_invariant [of demo_open demo_empty] demo_open_mac demo_reach by auto

text \<open>
  C2. In every reachable state a whole round of \<^verbatim>\<open>relayLoop\<close> is defined, whatever frames wait on
  the sockets (any bytes, any length) and whatever the uninitialised stack variables hold: no
  NULL dereference, no read or write outside a packet or tag structure, no access to an entry of
  the interface table that is not in use (the index in a relay tag comes from the network), and every
  walk of a hash chain and of the active list ends.
\<close>

theorem relayLoop_defined:
  assumes "\<forall>n t. length (snd (openi n t)) = 6" and "relay_reach openi st" and "stack_ok stk"
  shows "\<exists>st' out. relayLoop_round stk ses dis clean st = Some (st', out) \<and> relay_inv st' \<and>
    Interfaces st' = Interfaces st"
proof -
  have "relay_ok st" using relay_reach_ok [of openi st] assms by auto
  from relayLoop_round_safe [OF this assms(3), of ses dis clean] show ?thesis
    by (auto simp: safe_result_def relay_ok_def)
qed

theorem relayLoop_defined_witness:
  "(\<forall>n t. length (snd (demo_open n t)) = 6) \<and> relay_reach demo_open demo_empty \<and> stack_ok demo_stack \<and>
   (\<exists>st' out. relayLoop_round demo_stack (\<lambda>_. None) (\<lambda>_. Some (packet_bytes sample_padi)) True demo_empty =
      Some (st', out))"
  using relayLoop_defined [of demo_open demo_empty demo_stack] demo_open_mac demo_reach demo_stack_ok by blast

text \<open>
  C35. The cleaner ends, keeps the invariant, and releases exactly the sessions that have been idle
  for longer than the timeout (the ages are differences of the wrapping epoch counter); for each
  of them it sends one PADT to the concentrator and one to the client, and nothing else.
\<close>

theorem cleanSessions_correct:
  assumes "relay_ok st" and "stack_ok stk"
  shows "\<exists>st' xs. cleanSessions stk st = Some (st', concat (map (idle_frames st) xs)) \<and> relay_ok st' \<and>
    distinct xs \<and> set xs = actives st \<and>
    actives st' = {x \<in> actives st. \<not> (Epoch st - epoch (AllSessions st x) > IdleTimeout st)}"
  by (rule cleanSessions_ok [OF assms]) (auto simp: idle_def)

lemma demo_one_ok: "relay_ok demo_one"
  using demo_one_inv(1) demo_one_facts(4) by (simp add: relay_ok_def demo_empty_def initRelay_def blank_relay_def)

theorem cleanSessions_correct_witness:
  "relay_ok demo_one \<and> stack_ok demo_stack \<and> (\<exists>st' out. cleanSessions demo_stack demo_one = Some (st', out))"
  using cleanSessions_correct [OF demo_one_ok demo_stack_ok] demo_one_ok demo_stack_ok by blast

lemma sint_of_nat_u32: "n < 8 \<Longrightarrow> sint (of_nat n :: u32) = int n"
  by (simp add: signed_of_nat signed_take_bit_int_eq_self)

lemma create_entries:
  assumes inv: "relay_inv st" and ifs: "ac < length (Interfaces st)" "cli < length (Interfaces st)"
    and macs: "length acMac = 6" "length cliMac = 6"
    and cr: "createSession ac cli acMac cliMac acSes st = Some (Some x, st')"
  obtains a c where "acHash (AllSessions st' x) = Some a" and "clientHash (AllSessions st' x) = Some c"
    and "sh_core (AllHashes st' a) = (Some c, ac, acMac, acSes, Some x)"
    and "sh_core (AllHashes st' c) = (Some a, cli, cliMac, s_sesNum (AllSessions st' x), Some x)"
    and "s_sesNum (AllSessions st' x) \<noteq> 0"
    and "\<And>mac n. findSession st' mac n =
      (if mac = cliMac \<and> n = s_sesNum (AllSessions st' x) then Some (Some c)
       else if mac = acMac \<and> n = acSes then Some (Some a) else findSession st mac n)"
proof -
  obtain act fs bk fh where t: "table_ok st act fs bk fh" using inv by (auto simp: relay_inv_def)
  have room: "NumSessions st < MaxSessions st"
    using cr createSession_full [of st] by (cases "NumSessions st < MaxSessions st") auto
  obtain y fs' a c fh' st'' bk2 where fs: "fs = y # fs'" and ac: "a \<noteq> c"
    and c: "createSession ac cli acMac cliMac acSes st = Some (Some y, st'')"
    and t'': "table_ok st'' (y # act) fs' bk2 fh'"
    and hc: "\<And>i. sh_core (AllHashes st'' i) =
        (if i = c then (Some a, cli, cliMac, s_sesNum (AllSessions st y), Some y)
         else if i = a then (Some c, ac, acMac, acSes, Some y) else sh_core (AllHashes st i))"
    and sc: "\<And>i. s_core (AllSessions st'' i) =
        (if i = y then (Some a, Some c, s_sesNum (AllSessions st y)) else s_core (AllSessions st i))"
    by (rule createSession_obtain [OF t room ifs macs]) blast
  have e: "y = x" "st'' = st'" using c cr by simp_all
  have s: "acHash (AllSessions st' x) = Some a" "clientHash (AllSessions st' x) = Some c"
      "s_sesNum (AllSessions st' x) = s_sesNum (AllSessions st x)"
    using sc [of x] e by (simp_all add: s_core_def)
  have x: "x < MaxSessions st'" "MaxSessions st' \<le> 65534"
      "\<And>i. i < MaxSessions st' \<Longrightarrow> s_sesNum (AllSessions st' i) = htons (of_nat (Suc i))"
    using t'' e by (auto simp: table_ok_def slists_def)
  have "unat (of_nat (Suc x) :: u16) = Suc x" using x by (intro unat_of_nat_u16) simp
  then have "(of_nat (Suc x) :: u16) \<noteq> 0" by auto
  then have "s_sesNum (AllSessions st' x) \<noteq> 0" using x(3) [OF x(1)] by simp
  moreover have "findSession st' mac n =
      (if mac = cliMac \<and> n = s_sesNum (AllSessions st' x) then Some (Some c)
       else if mac = acMac \<and> n = acSes then Some (Some a) else findSession st mac n)" for mac n
    using find_create [OF t ifs macs cr, of mac n] by (simp only: s)
  ultimately show thesis
    using that s hc [of a] hc [of c] ac e by simp
qed

text \<open>
  C26. A PADS from a concentrator opens a path in both directions. When the table has room and the
  (address, session) of the concentrator is new, the relay answers the client with a fresh
  nonzero session number in place of the concentrator's and without the relay tag; from then on
  a session frame from the client with that number leaves to the concentrator with the
  concentrator's number, and a frame from the concentrator with its number leaves to the client
  with the client's number, with the addresses of the outgoing interface and the payload unchanged.
\<close>

theorem pads_opens_path:
  assumes ok: "relay_ok st" and stk: "stack_ok stk" and wf: "wf_packet p" and i: "i < length (Interfaces st)"
    and guard: "unicast_guard acOK st i p" and tgt: "relay_target st clientOK i p = Some (off, k, mac)"
    and new: "session p \<noteq> 0" "findSession st (h_source p) (session p) = Some None"
    and room: "NumSessions st < MaxSessions st" and diff: "mac \<noteq> h_source p"
  shows "\<exists>st' num. relayHandlePADS stk i p (int (pkt_len p + HDR_SIZE)) st = Some (st', [pads_frame st (off, k, mac) num p]) \<and>
     num \<noteq> 0 \<and> relay_ok st' \<and>
     (\<forall>stk frm q sz j. stack_ok stk \<and> receivePacket (u_packet stk) frm = (q, sz) \<and> session_guard st j q sz \<and>
        h_source q = mac \<and> session q = num \<longrightarrow>
        map_option snd (relayGotSessionPacket stk j (Some frm) st') =
        Some [Sent (sessionSock (Interfaces st ! i)) (take (nat sz) (packet_bytes
          (q\<lparr>session := session p, h_source := if_mac (Interfaces st ! i), h_dest := h_source p\<rparr>)))]) \<and>
     (\<forall>stk frm q sz j. stack_ok stk \<and> receivePacket (u_packet stk) frm = (q, sz) \<and> session_guard st j q sz \<and>
        h_source q = h_source p \<and> session q = session p \<longrightarrow>
        map_option snd (relayGotSessionPacket stk j (Some frm) st') =
        Some [Sent (sessionSock (Interfaces st ! k)) (take (nat sz) (packet_bytes
          (q\<lparr>session := num, h_source := if_mac (Interfaces st ! k), h_dest := mac\<rparr>)))])"
proof -
  have inv: "relay_inv st" using ok by (simp add: relay_ok_def)
  note b = relay_target_bound [OF wf tgt]
  have src: "length (h_source p) = 6" using wf by (simp add: wf_packet_def)
  obtain x st' where cr: "createSession i k (h_source p) mac (session p) st = Some (Some x, st')"
    and ok': "relay_ok st'" and ifs: "Interfaces st' = Interfaces st"
    and ps: "pads_session stk i k p off st = Some (st', Inr (s_sesNum (AllSessions st' x)))"
    by (cases rule: pads_session_cases [OF ok stk wf i tgt]) (use new room in auto)
  obtain a c where ac: "sh_core (AllHashes st' a) = (Some c, i, h_source p, session p, Some x)"
      "sh_core (AllHashes st' c) = (Some a, k, mac, s_sesNum (AllSessions st' x), Some x)"
    and nz: "s_sesNum (AllSessions st' x) \<noteq> 0"
    and fd: "\<And>m n. findSession st' m n =
      (if m = mac \<and> n = s_sesNum (AllSessions st' x) then Some (Some c)
       else if m = h_source p \<and> n = session p then Some (Some a) else findSession st m n)"
    by (rule create_entries [OF inv i b(3) src b(7) cr]) blast
  have out: "map_option snd (relayGotSessionPacket stk j (Some frm) st') =
      Some [Sent (sessionSock (Interfaces st ! sh_interface (AllHashes st' pr))) (take (nat sz) (packet_bytes
          (q\<lparr>session := sh_sesNum (AllHashes st' pr), h_source := if_mac (Interfaces st ! sh_interface (AllHashes st' pr)),
             h_dest := peerMac (AllHashes st' pr)\<rparr>)))]"
    if "stack_ok stk" "receivePacket (u_packet stk) frm = (q, sz)" "session_guard st j q sz"
      "findSession st' (h_source q) (session q) = Some (Some e)" "sh_peer (AllHashes st' e) = Some pr" for stk frm q sz j e pr
    by (rule relayGotSessionPacket_found [OF ok' _ that(2) _ that(4)])
      (use that ifs in \<open>auto simp: stack_ok_def session_guard_def peer_frame_def peer_packet_def\<close>)
  have "relayHandlePADS stk i p (int (pkt_len p + HDR_SIZE)) st =
      Some (st', [pads_frame st (off, k, mac) (s_sesNum (AllSessions st' x)) p])"
    unfolding relayHandlePADS_eq [OF ok wf stk i] using guard tgt ps ifs by (simp add: pads_frame_def)
  moreover have "sh_peer (AllHashes st' c) = Some a" "sh_peer (AllHashes st' a) = Some c"
    "sh_interface (AllHashes st' a) = i" "sh_interface (AllHashes st' c) = k"
    "peerMac (AllHashes st' a) = h_source p" "peerMac (AllHashes st' c) = mac"
    "sh_sesNum (AllHashes st' a) = session p" "sh_sesNum (AllHashes st' c) = s_sesNum (AllSessions st' x)"
    using ac by (simp_all add: sh_core_def)
  ultimately show ?thesis
    using nz ok' diff out [where e = c and pr = a] out [where e = a and pr = c] fd
    by (intro exI [of _ st'] exI [of _ "s_sesNum (AllSessions st' x)"] conjI allI impI) auto
qed


text \<open>A PADS from a concentrator behind \<^verbatim>\<open>eth1\<close> for the client 02:00:00:00:00:07 behind \<^verbatim>\<open>eth0\<close>.\<close>

definition sample_pads :: PPPoEPacket where
  "sample_pads =
     \<lparr>h_dest = [2, 0, 0, 0, 0, 2], h_source = [2, 0, 0, 0, 0, 9], h_proto = htons 0x8863,
      pver = 1, ptype = 1, code = CODE_PADS, session = htons 5, plength = htons 14,
      payload = encode_tag (TAG_RELAY_SESSION_ID, relay_id 0 [2, 0, 0, 0, 0, 7]) @ replicate 1486 0\<rparr>"

lemma sample_pads_tags: "packet_tags sample_pads = (0, [(0, 0x0110, [0, 0, 0, 0, 2, 0, 0, 0, 0, 7])])"
  by code_simp

lemma sample_pads_target: "relay_target demo_empty clientOK 1 sample_pads = Some (0, 0, [2, 0, 0, 0, 0, 7])"
proof -
  have "sint (load32 [0, 0, 0, 0, 2, 0, 0, 0, 0, 7]) = 0" by code_simp
  then show ?thesis
    by (simp add: relay_target_def sample_pads_tags demo_empty_def initRelay_def blank_relay_def)
qed

lemma demo_empty_relay_ok: "relay_ok demo_empty"
  using relay_main_ok(1) [OF demo_open_mac demo_main] .

lemma wf_sample_pads: "wf_packet sample_pads" "unicast_guard acOK demo_empty 1 sample_pads"
  by (simp_all add: wf_packet_def sample_pads_def relay_id_def unicast_guard_def demo_empty_def initRelay_def
      blank_relay_def NOT_UNICAST_def)

theorem pads_opens_path_witness:
  "relay_ok demo_empty \<and> stack_ok demo_stack \<and> wf_packet sample_pads \<and> unicast_guard acOK demo_empty 1 sample_pads \<and>
   relay_target demo_empty clientOK 1 sample_pads = Some (0, 0, [2, 0, 0, 0, 0, 7]) \<and>
   findSession demo_empty (h_source sample_pads) (session sample_pads) = Some None \<and>
   (\<exists>st' num. relayHandlePADS demo_stack 1 sample_pads (int (pkt_len sample_pads + HDR_SIZE)) demo_empty =
      Some (st', [pads_frame demo_empty (0, 0, [2, 0, 0, 0, 0, 7]) num sample_pads]) \<and> num \<noteq> 0)"
proof -
  have f: "findSession demo_empty (h_source sample_pads) (session sample_pads) = Some None"
    by (simp add: findSession_find [OF demo_empty_ok])
  have "session sample_pads \<noteq> 0" "[2, 0, 0, 0, 0, 7] \<noteq> h_source sample_pads" by (simp_all add: sample_pads_def)
  with pads_opens_path [OF demo_empty_relay_ok demo_stack_ok wf_sample_pads(1) _ wf_sample_pads(2) sample_pads_target _ f]
  show ?thesis
    using f demo_empty_relay_ok demo_stack_ok wf_sample_pads sample_pads_target by (auto simp: demo_empty_fields)
qed

lemma relay_target_id:
  assumes "find (\<lambda>(off, t, d). t = TAG_RELAY_SESSION_ID) (snd (packet_tags q)) = Some (off, t, relay_id i mac)"
    and "relay_ok st" and "i < length (Interfaces st)" and "length mac = 6" and "allowed (Interfaces st ! i)" and "i \<noteq> j"
  shows "relay_target st allowed j q = Some (off, i, mac)"
proof -
  have "sint (load32 (relay_id i mac)) = int i"
    unfolding relay_id_def load32_le32 by (rule sint_of_nat_u32) (use assms(2,3) in \<open>simp add: relay_ok_def\<close>)
  moreover have "length (relay_id i mac) = 10" "drop 4 (relay_id i mac) = mac"
    using assms(4) by (simp_all add: relay_id_def)
  ultimately show ?thesis
    using assms(3,5,6) unfolding relay_target_def assms(1) by simp
qed

lemma forwarded_frame:
  assumes ok: "relay_ok st" and wf: "wf_packet q" and tgt: "relay_target st allowed j q = Some (off, k, mac)"
  defines "q' \<equiv> fwd_packet st j (off, k, mac) q"
  shows "forwarded allowed st j q (pkt_len q + 20) =
      [Sent (discoverySock (Interfaces st ! k)) (hdr_bytes q' @ pkt_data q')]"
    and "h_dest q' = mac" and "h_source q' = if_mac (Interfaces st ! k)"
    and "bslice (pkt_data q') (off + 4) 10 = relay_id j (h_source q)"
proof -
  note b = relay_target_bound [OF wf tgt]
  have l: "length (payload q) = 1500" "length (h_source q) = 6" using wf by (simp_all add: wf_packet_def)
  have n: "pkt_len q' = pkt_len q" by (simp add: q'_def fwd_packet_def)
  have w: "wf_packet q'"
    using ok wf b by (auto simp: q'_def fwd_packet_def wf_packet_def relay_ok_def)
  show "forwarded allowed st j q (pkt_len q + 20) =
      [Sent (discoverySock (Interfaces st ! k)) (hdr_bytes q' @ pkt_data q')]"
    using tgt take_packet_bytes [OF w] unfolding n by (simp add: forwarded_def q'_def)
  show "h_dest q' = mac" "h_source q' = if_mac (Interfaces st ! k)" by (simp_all add: q'_def fwd_packet_def)
  show "bslice (pkt_data q') (off + 4) 10 = relay_id j (h_source q)"
    using b(1,2) l unfolding pkt_data_def n by (simp add: q'_def fwd_packet_def bslice_def relay_id_def drop_take)
qed

text \<open>
  C27. The relay tag that the relay puts into a PADI brings the answer back. A PADI accepted on
  interface \<^verbatim>\<open>i\<close> goes out on every other concentrator interface with a relay tag as first tag; a
  PADO that arrives on such an interface \<^verbatim>\<open>j\<close> with that tag goes out on \<^verbatim>\<open>i\<close> only, to the client's
  address, and its relay tag now names \<^verbatim>\<open>j\<close> and the concentrator, so that a PADR which echoes
  it goes out on \<^verbatim>\<open>j\<close> to the concentrator.
\<close>

theorem padi_pado_padr_path:
  assumes ok: "relay_ok st" and stk: "stack_ok stk" and ij: "i < length (Interfaces st)" "j < length (Interfaces st)" "i \<noteq> j"
    and wf: "wf_packet p" "wf_packet q" "wf_packet r" and len: "pkt_len q \<le> 1494" "pkt_len r \<le> 1494"
    and padi: "padi_guard st i p" "pkt_len p + 14 \<le> 1494" "\<forall>(off, t, d) \<in> set (snd (packet_tags p)). t \<noteq> TAG_RELAY_SESSION_ID"
    and pado: "unicast_guard acOK st j q"
      "find (\<lambda>(off, t, d). t = TAG_RELAY_SESSION_ID) (snd (packet_tags q)) = Some (off, t, relay_id i (h_source p))"
    and padr: "unicast_guard clientOK st i r"
      "find (\<lambda>(off, t, d). t = TAG_RELAY_SESSION_ID) (snd (packet_tags r)) = Some (off', t', relay_id j (h_source q))"
  shows "(\<exists>fs. relayHandlePADI stk i p (int (pkt_len p + HDR_SIZE)) st = Some (st, fs) \<and> padi_frame st i p j \<in> set fs) \<and>
    (\<exists>q'. relayHandlePADO stk j q (int (pkt_len q + HDR_SIZE)) st =
        Some (st, [Sent (discoverySock (Interfaces st ! i)) (hdr_bytes q' @ pkt_data q')]) \<and>
       h_dest q' = h_source p \<and> h_source q' = if_mac (Interfaces st ! i) \<and>
       bslice (pkt_data q') (off + 4) 10 = relay_id j (h_source q)) \<and>
    (\<exists>r'. relayHandlePADR stk i r (int (pkt_len r + HDR_SIZE)) st =
        Some (st, [Sent (discoverySock (Interfaces st ! j)) (hdr_bytes r' @ pkt_data r')]) \<and>
       h_dest r' = h_source q \<and> h_source r' = if_mac (Interfaces st ! j))"
proof -
  have macs: "\<forall>f \<in> set (Interfaces st). length (if_mac f) = 6" and wt: "wf_tag (u_tag stk)"
    using ok stk by (auto simp: relay_ok_def stack_ok_def)
  have src: "length (h_source p) = 6" "length (h_source q) = 6" using wf by (simp_all add: wf_packet_def)
  have c: "clientOK (Interfaces st ! i)" "acOK (Interfaces st ! j)"
    using padi(1) pado(1) by (simp_all add: padi_guard_def unicast_guard_def)
  have tq: "relay_target st clientOK j q = Some (off, i, h_source p)"
    by (rule relay_target_id [OF pado(2) ok ij(1) src(1) _ ij(3)]) (rule c(1))
  have tr: "relay_target st acOK i r = Some (off', j, h_source q)"
    by (rule relay_target_id [OF padr(2) ok ij(2) src(2) _ ij(3) [symmetric]]) (rule c(2))
  have 1: "padi_frame st i p j \<in> set (padi_out st i p)" using padi c ij by (auto simp: padi_out_def)
  have nq: "nat (int (pkt_len q + HDR_SIZE)) = pkt_len q + 20" and nr: "nat (int (pkt_len r + HDR_SIZE)) = pkt_len r + 20"
    by simp_all
  have 2: "relayHandlePADO stk j q (int (pkt_len q + HDR_SIZE)) st = Some (st, forwarded clientOK st j q (pkt_len q + 20))"
    using relayHandlePADO_eq [OF wf(2) wt, of "int (pkt_len q + HDR_SIZE)" j st] len ij pado(1) unfolding nq by simp
  have 3: "relayHandlePADR stk i r (int (pkt_len r + HDR_SIZE)) st = Some (st, forwarded acOK st i r (pkt_len r + 20))"
    using relayHandlePADR_eq [OF wf(3) wt, of "int (pkt_len r + HDR_SIZE)" i st] len ij padr(1) unfolding nr by simp
  show ?thesis
    using 1 2 3 relayHandlePADI_eq [OF wf(1) wt macs ij(1)]
      forwarded_frame [OF ok wf(2) tq] forwarded_frame [OF ok wf(3) tr] by auto
qed


text \<open>A PADO and a PADR of one discovery exchange through the two interfaces.\<close>

definition sample_pado :: PPPoEPacket where
  "sample_pado = sample_pads\<lparr>code := CODE_PADO, session := 0\<rparr>"

definition sample_client_padi :: PPPoEPacket where
  "sample_client_padi = sample_padi\<lparr>h_source := [2, 0, 0, 0, 0, 7]\<rparr>"

definition sample_padr :: PPPoEPacket where
  "sample_padr = sample_pads\<lparr>h_dest := [2, 0, 0, 0, 0, 1], h_source := [2, 0, 0, 0, 0, 7], code := CODE_PADR, session := 0,
     payload := encode_tag (TAG_RELAY_SESSION_ID, relay_id 1 [2, 0, 0, 0, 0, 9]) @ replicate 1486 0\<rparr>"

lemma sample_exchange:
  "packet_tags sample_pado = (0, [(0, 0x0110, [0, 0, 0, 0, 2, 0, 0, 0, 0, 7])])"
  "packet_tags sample_padr = (0, [(0, 0x0110, [1, 0, 0, 0, 2, 0, 0, 0, 0, 9])])"
  "packet_tags sample_client_padi = (0, [(0, 0x0101, []), (4, 0x0103, [7, 0, 0, 0])])"
  "relay_id 0 [2, 0, 0, 0, 0, 7] = [0, 0, 0, 0, 2, 0, 0, 0, 0, 7]" "relay_id 1 [2, 0, 0, 0, 0, 9] = [1, 0, 0, 0, 2, 0, 0, 0, 0, 9]"
  "pkt_len sample_pado = 14" "pkt_len sample_padr = 14" "pkt_len sample_client_padi = 12"
  "NOT_BROADCAST (h_dest sample_client_padi) = False"
  by code_simp+

lemma sample_exchange_guards:
  "padi_guard demo_empty 0 sample_client_padi" "unicast_guard acOK demo_empty 1 sample_pado"
  "unicast_guard clientOK demo_empty 0 sample_padr" "wf_packet sample_client_padi" "wf_packet sample_pado"
  "wf_packet sample_padr" "h_source sample_client_padi = [2, 0, 0, 0, 0, 7]" "h_source sample_pado = [2, 0, 0, 0, 0, 9]"
  using sample_exchange(9)
  by (simp_all add: padi_guard_def unicast_guard_def demo_empty_def initRelay_def blank_relay_def sample_client_padi_def
      sample_pado_def sample_padr_def sample_pads_def sample_padi_def NOT_UNICAST_def wf_packet_def relay_id_def)

theorem padi_pado_padr_path_witness:
  "relay_ok demo_empty \<and> padi_guard demo_empty 0 sample_client_padi \<and> unicast_guard acOK demo_empty 1 sample_pado \<and>
   unicast_guard clientOK demo_empty 0 sample_padr \<and>
   (\<exists>fs. relayHandlePADI demo_stack 0 sample_client_padi (int (pkt_len sample_client_padi + HDR_SIZE)) demo_empty =
      Some (demo_empty, fs) \<and> padi_frame demo_empty 0 sample_client_padi 1 \<in> set fs)"
  using padi_pado_padr_path [OF demo_empty_relay_ok demo_stack_ok, of 0 1 sample_client_padi sample_pado sample_padr 0 "0x0110" 0 "0x0110"]
    demo_empty_relay_ok sample_exchange sample_exchange_guards by (auto simp: demo_empty_fields)

text \<open>
  A PADT for a known session is sent on to the other end with the other end's session number,
  and ends the session: the invariant is kept, and no lookup finds an entry of it any more. A
  PADT for an unknown session changes nothing and is not forwarded.
\<close>

theorem relayHandlePADT_correct:
  assumes "relay_ok st" and "0 \<le> sz" and "sz \<le> 1520"
  shows "case findSession st (h_source p) (session p) of
      None \<Rightarrow> False
    | Some None \<Rightarrow> relayHandlePADT i p sz st = Some (st, [])
    | Some (Some e) \<Rightarrow> \<exists>pr x st'. sh_peer (AllHashes st e) = Some pr \<and> sh_ses (AllHashes st e) = Some x \<and>
        x \<in> actives st \<and> relayHandlePADT i p sz st = Some (st', [peer_frame st pr p sz]) \<and> relay_ok st' \<and>
        actives st' = actives st - {x} \<and>
        (\<forall>mac n e'. findSession st' mac n = Some (Some e') \<longrightarrow> sh_ses (AllHashes st' e') \<noteq> Some x)"
proof -
  have inv: "relay_inv st" using assms(1) by (simp add: relay_ok_def)
  then obtain r where r: "findSession st (h_source p) (session p) = Some r" using tbl.lookup_total by blast
  show ?thesis
  proof (cases r)
    case None
    then show ?thesis using r relayHandlePADT_unknown by simp
  next
    case (Some e)
    with r have f: "findSession st (h_source p) (session p) = Some (Some e)" by simp
    show ?thesis
      by (rule relayHandlePADT_found [OF assms f, of i]) (use f tbl.gone [OF inv] in auto)
  qed
qed

theorem relayHandlePADT_correct_witness:
  "relay_ok demo_one \<and> (\<exists>res. relayHandlePADT 1 sample_pads 34 demo_one = Some res)"
  using relayHandlePADT_correct [OF demo_one_ok, where sz = 34 and p = sample_pads and i = 1] demo_one_ok by (auto split: option.splits)

end
