(* ===== verification/PPPoE_Conn.thy ===== *)
theory PPPoE_Conn
  imports PPPoE_Packet
begin

unbundle bit_operations_syntax

text \<open>
  The connection of the PPPoE client (\<^verbatim>\<open>PPPoEConnection\<close> of \<^verbatim>\<open>pppoe.h\<close>) and what its phases share:
  building a packet tag by tag with the \<^verbatim>\<open>CHECK_ROOM\<close> guard, \<^verbatim>\<open>sendPADT\<close> and \<^verbatim>\<open>parseLogErrs\<close> of
  \<^verbatim>\<open>common.c\<close>. The two Ethernet types, which are variables in the program, are fields of the
  record; the debug file is not modelled. The process id, and the packet that the code leaves
  uninitialised on the stack, are parameters.
\<close>

section \<open>The connection\<close>

definition STATE_SENT_PADI :: nat where [simp]: "STATE_SENT_PADI = 0"
definition STATE_RECEIVED_PADO :: nat where [simp]: "STATE_RECEIVED_PADO = 1"
definition STATE_SENT_PADR :: nat where [simp]: "STATE_SENT_PADR = 2"
definition STATE_SESSION :: nat where [simp]: "STATE_SESSION = 3"
definition MAX_PADI_ATTEMPTS :: nat where [simp]: "MAX_PADI_ATTEMPTS = 3"
definition PADI_TIMEOUT :: nat where [simp]: "PADI_TIMEOUT = 5"

record PPPoEConnection =
  discoveryState :: nat
  discoverySocket :: int
  sessionSocket :: int
  myEth :: "byte list"
  peerEth :: "byte list"
  c_session :: u16
  ifName :: string
  serviceName :: "byte list option"
  acName :: "byte list option"
  synchronous :: bool
  useHostUniq :: bool
  printACNames :: bool
  skipDiscovery :: bool
  killSession :: bool
  numPADOs :: nat
  cookie :: PPPoETag
  relayId :: PPPoETag
  Eth_PPPOE_Discovery :: u16
  Eth_PPPOE_Session :: u16

section \<open>Building a packet\<close>

text \<open>
  The payload under construction with the cursor and the 16-bit \<^verbatim>\<open>plen\<close>. \<^verbatim>\<open>put_checked\<close> is the
  idiom of the code: when the tag is wanted, \<^verbatim>\<open>CHECK_ROOM\<close> (which makes the caller return
  without sending, \<^verbatim>\<open>Some None\<close>), then \<^verbatim>\<open>memcpy\<close> to the cursor and the two additions.
\<close>

type_synonym builder = "byte list \<times> nat \<times> u16"

definition CHECK_ROOM :: "nat \<Rightarrow> nat \<Rightarrow> bool" where
  "CHECK_ROOM cursor len \<longleftrightarrow> \<not> cursor + len > MAX_PPPOE_PAYLOAD"

definition put_bytes :: "nat \<Rightarrow> byte list \<Rightarrow> builder \<Rightarrow> builder option" where
  "put_bytes n src b =
     (let (pl, cur, plen) = b
      in if length src < n then None
         else do { pl \<leftarrow> memcpy_at pl cur (take n src); Some (pl, cur + n, plen + of_nat n) })"

definition put_checked :: "bool \<Rightarrow> nat \<Rightarrow> byte list \<Rightarrow> builder \<Rightarrow> builder option option" where
  "put_checked wanted n src b =
     (if \<not> wanted then Some (Some b)
      else if CHECK_ROOM (fst (snd b)) n then map_option Some (put_bytes n src b)
      else Some None)"

definition room :: "builder option option \<Rightarrow> (builder \<Rightarrow> 'a list option) \<Rightarrow> 'a list option" where
  "room r k = (case r of None \<Rightarrow> None | Some None \<Rightarrow> Some [] | Some (Some b) \<Rightarrow> k b)"

text \<open>The bytes copied from the local host-unique tag: type, length and the process id.\<close>

definition host_uniq :: "u32 \<Rightarrow> byte list" where
  "host_uniq pid = le16 (htons TAG_HOST_UNIQ) @ le16 (htons 4) @ le32 pid"

definition error_tag :: "byte list \<Rightarrow> byte list" where
  "error_tag msg = le16 (htons TAG_GENERIC_ERROR) @ le16 (htons (of_nat (length msg))) @ msg"

definition finish_packet :: "int \<Rightarrow> PPPoEPacket \<Rightarrow> builder \<Rightarrow> frame list option" where
  "finish_packet sock packet b =
     (let (pl, cur, plen) = b
      in do { frm \<leftarrow> sendPacket sock (packet\<lparr>payload := pl, plength := htons plen\<rparr>) (int (unat plen + HDR_SIZE));
              Some [frm] })"

definition header_packet ::
  "PPPoEPacket \<Rightarrow> byte list \<Rightarrow> byte list \<Rightarrow> u16 \<Rightarrow> byte \<Rightarrow> u16 \<Rightarrow> PPPoEPacket" where
  "header_packet u dst src proto cd ses = u\<lparr>h_dest := dst, h_source := src, h_proto := htons proto,
     pver := 1, ptype := 1, code := cd, session := ses\<rparr>"

definition sendPADT ::
  "PPPoEPacket \<Rightarrow> u32 \<Rightarrow> PPPoEConnection \<Rightarrow> byte list option \<Rightarrow> (PPPoEConnection \<times> frame list) option" where
  "sendPADT u pid conn msg =
     (if c_session conn = 0 then Some (conn, [])
      else (let packet = header_packet u (peerEth conn) (myEth conn) (Eth_PPPOE_Discovery conn) CODE_PADT (c_session conn);
                conn = conn\<lparr>c_session := 0\<rparr>
        in do {
          b \<leftarrow> (if useHostUniq conn then put_bytes (4 + TAG_HDR_SIZE) (host_uniq pid) (payload packet, 0, 0)
                else Some (payload packet, 0, 0));
          b \<leftarrow> (case msg of None \<Rightarrow> Some b
                | Some m \<Rightarrow> if length m + 1 > ETH_DATA_LEN then None
                            else put_bytes (length m + TAG_HDR_SIZE) (error_tag m) b);
          frms \<leftarrow> room (put_checked (ttype (cookie conn) \<noteq> 0) (tag_len (cookie conn) + TAG_HDR_SIZE)
                          (tag_bytes (cookie conn)) b)
                  (\<lambda>b. room (put_checked (ttype (relayId conn) \<noteq> 0) (tag_len (relayId conn) + TAG_HDR_SIZE)
                               (tag_bytes (relayId conn)) b)
                  (\<lambda>b. finish_packet (discoverySocket conn) packet b));
          Some (conn, frms)
        }))"

text \<open>\<^verbatim>\<open>parseLogErrs\<close> logs the error tags; the value behind \<^verbatim>\<open>extra\<close> is the log.\<close>

definition parseLogErrs :: "(int, (u16 \<times> byte list) list) ParseFunc" where
  "parseLogErrs type len data log =
     Inr (if type = TAG_SERVICE_NAME_ERROR \<or> type = TAG_AC_SYSTEM_ERROR \<or> type = TAG_GENERIC_ERROR
          then log @ [(type, data)] else log)"

section \<open>What is built\<close>

text \<open>A builder holds a list of tags when the bytes before the cursor encode them.\<close>

definition holds_in :: "nat \<Rightarrow> builder \<Rightarrow> (u16 \<times> byte list) list \<Rightarrow> bool" where
  "holds_in n b tags \<longleftrightarrow> (case b of (pl, cur, plen) \<Rightarrow> length pl = ETH_DATA_LEN \<and> cur = length (encode_tags tags) \<and>
     cur \<le> n \<and> plen = of_nat cur \<and> take cur pl = encode_tags tags)"

abbreviation holds :: "builder \<Rightarrow> (u16 \<times> byte list) list \<Rightarrow> bool" where
  "holds \<equiv> holds_in MAX_PPPOE_PAYLOAD"

definition pppoe_frame ::
  "byte list \<Rightarrow> byte list \<Rightarrow> u16 \<Rightarrow> byte \<Rightarrow> u16 \<Rightarrow> (u16 \<times> byte list) list \<Rightarrow> byte list" where
  "pppoe_frame dst src proto cd ses tags =
     mk_header dst src proto cd ses (length (encode_tags tags)) @ encode_tags tags"

lemma encode_tags_append [simp]: "encode_tags (as @ bs) = encode_tags as @ encode_tags bs"
  by (simp add: encode_tags_def)

lemma put_bytes_holds_in:
  assumes "holds_in n b tags" and "take (length d + 4) src = encode_tag (ty, d)" and "length d + 4 \<le> length src"
    and "length (encode_tags tags) + (length d + 4) \<le> n" and "n \<le> 1500"
  obtains b' where "put_bytes (length d + 4) src b = Some b'" and "holds_in n b' (tags @ [(ty, d)])"
proof -
  obtain pl cur plen where b: "b = (pl, cur, plen)" by (cases b)
  have h: "length pl = 1500" "cur = length (encode_tags tags)" "plen = of_nat cur" "take cur pl = encode_tags tags"
    using assms(1) by (auto simp: holds_in_def b)
  let ?pl = "take cur pl @ take (length d + 4) src @ drop (cur + (length d + 4)) pl"
  have m: "memcpy_at pl cur (take (length d + 4) src) = Some ?pl"
    using h assms(3-5) by (simp add: memcpy_at_def min_def)
  show thesis
  proof (rule that)
    show "put_bytes (length d + 4) src b = Some (?pl, cur + (length d + 4), plen + of_nat (length d + 4))"
      using m assms(3) by (simp add: put_bytes_def b)
    show "holds_in n (?pl, cur + (length d + 4), plen + of_nat (length d + 4)) (tags @ [(ty, d)])"
      using h assms(2-5) by (simp add: holds_in_def min_def)
  qed
qed

lemma put_bytes_holds:
  assumes "holds b tags" and "take (length d + 4) src = encode_tag (ty, d)" and "length d + 4 \<le> length src"
    and "length (encode_tags tags) + (length d + 4) \<le> 1494"
  obtains b' where "put_bytes (length d + 4) src b = Some b'" and "holds b' (tags @ [(ty, d)])"
  using put_bytes_holds_in [OF assms(1-3)] assms(4) by auto

lemma put_checked_holds:
  assumes "holds b tags" and "take (length d + 4) src = encode_tag (ty, d)" and "length d + 4 \<le> length src"
  shows "\<exists>b'. put_checked True (length d + 4) src b =
      Some (if length (encode_tags (tags @ [(ty, d)])) \<le> 1494 then Some b' else None) \<and>
      (length (encode_tags (tags @ [(ty, d)])) \<le> 1494 \<longrightarrow> holds b' (tags @ [(ty, d)]))"
proof (cases "length (encode_tags tags) + (length d + 4) \<le> 1494")
  case True
  obtain b' where "put_bytes (length d + 4) src b = Some b'" "holds b' (tags @ [(ty, d)])"
    by (rule put_bytes_holds [OF assms True])
  moreover have "fst (snd b) = length (encode_tags tags)" using assms(1) by (auto simp: holds_in_def)
  ultimately show ?thesis using True by (auto simp: put_checked_def CHECK_ROOM_def)
next
  case False
  have "fst (snd b) = length (encode_tags tags)" using assms(1) by (auto simp: holds_in_def)
  then show ?thesis using False by (simp add: put_checked_def CHECK_ROOM_def)
qed

lemma finish_packet_frame_in:
  assumes "holds_in n b tags" and "n \<le> 1500" and "length dst = 6" and "length src = 6" and "wf_packet u"
  shows "finish_packet sock (header_packet u dst src proto cd ses) b =
    Some [Sent sock (pppoe_frame dst src proto cd ses tags)]"
proof -
  obtain pl cur plen where b: "b = (pl, cur, plen)" by (cases b)
  have h: "length pl = 1500" "cur = length (encode_tags tags)" "plen = of_nat cur" "take cur pl = encode_tags tags"
    "cur \<le> 1500"
    using assms(1,2) by (auto simp: holds_in_def b)
  let ?p = "(header_packet u dst src proto cd ses)\<lparr>payload := pl, plength := htons plen\<rparr>"
  have w: "wf_packet ?p" using assms h by (simp add: wf_packet_def header_packet_def)
  have n: "pkt_len ?p = cur" "unat plen = cur" using h by (simp_all add: pkt_len_def unat_of_nat_u16)
  have d: "pkt_data ?p = encode_tags tags" using h n(1) by (simp add: pkt_data_def)
  have hd: "hdr_bytes ?p = mk_header dst src proto cd ses cur"
    using h(3) by (simp add: hdr_bytes_def mk_header_def header_packet_def)
  have "take (cur + 20) (packet_bytes ?p) = pppoe_frame dst src proto cd ses tags"
    using take_packet_bytes [OF w] unfolding n d hd by (simp add: pppoe_frame_def h(2))
  then show ?thesis
    using h(5) unfolding finish_packet_def b prod.case Let_def n(2) by (simp add: sendPacket_def nat_add_distrib)
qed

lemma finish_packet_frame:
  assumes "holds b tags" and "length dst = 6" and "length src = 6" and "wf_packet u"
  shows "finish_packet sock (header_packet u dst src proto cd ses) b =
    Some [Sent sock (pppoe_frame dst src proto cd ses tags)]"
  by (rule finish_packet_frame_in [OF assms(1) _ assms(2-)]) simp


text \<open>The tag that a saved cookie or relay id adds to a packet.\<close>

definition opt_tag :: "PPPoETag \<Rightarrow> (u16 \<times> byte list) list" where
  "opt_tag t = (if ttype t \<noteq> 0 then [(ntohs (ttype t), take (tag_len t) (tpayload t))] else [])"

definition wf_conn :: "PPPoEConnection \<Rightarrow> bool" where
  "wf_conn conn \<longleftrightarrow> length (myEth conn) = 6 \<and> length (peerEth conn) = 6 \<and> wf_tag (cookie conn) \<and> wf_tag (relayId conn) \<and>
     tag_len (cookie conn) \<le> 1500 \<and> tag_len (relayId conn) \<le> 1500"

lemma tag_bytes_encode:
  assumes "wf_tag t" and "tag_len t \<le> 1500"
  shows "take (tag_len t + 4) (tag_bytes t) = encode_tag (ntohs (ttype t), take (tag_len t) (tpayload t))"
proof -
  have l: "length (take (tag_len t) (tpayload t)) = tag_len t" using assms by (simp add: wf_tag_def)
  have "tlength t = htons (of_nat (tag_len t))" by (simp add: tag_len_def)
  then show ?thesis
    using take_tag_bytes(1) [of t "ntohs (ttype t)" "take (tag_len t) (tpayload t)"] l assms(2) by simp
qed

lemma room_opt_tag:
  assumes "holds b tags" and "wf_tag t" and "tag_len t \<le> 1500"
  obtains b' where "room (put_checked (ttype t \<noteq> 0) (tag_len t + TAG_HDR_SIZE) (tag_bytes t) b) k =
      (if length (encode_tags (tags @ opt_tag t)) \<le> 1494 then k b' else Some [])"
    and "length (encode_tags (tags @ opt_tag t)) \<le> 1494 \<Longrightarrow> holds b' (tags @ opt_tag t)"
proof (cases "ttype t = 0")
  case True
  moreover have "length (encode_tags tags) \<le> 1494" using assms(1) by (auto simp: holds_in_def)
  ultimately show thesis
    using that [of b] assms(1) by (simp add: opt_tag_def put_checked_def room_def)
next
  case False
  let ?d = "take (tag_len t) (tpayload t)"
  have l: "length ?d = tag_len t" using assms by (simp add: wf_tag_def)
  have "length ?d + 4 \<le> length (tag_bytes t)" using l assms by (simp add: tag_bytes_def wf_tag_def)
  moreover have "take (length ?d + 4) (tag_bytes t) = encode_tag (ntohs (ttype t), ?d)"
    using tag_bytes_encode [OF assms(2,3)] l by simp
  ultimately obtain b' where "put_checked True (length ?d + 4) (tag_bytes t) b =
      Some (if length (encode_tags (tags @ [(ntohs (ttype t), ?d)])) \<le> 1494 then Some b' else None)"
    "length (encode_tags (tags @ [(ntohs (ttype t), ?d)])) \<le> 1494 \<Longrightarrow> holds b' (tags @ [(ntohs (ttype t), ?d)])"
    using put_checked_holds [OF assms(1)] by blast
  then show thesis
    using that [of b'] False l by (simp add: opt_tag_def room_def)
qed

lemma holds_empty: "length pl = 1500 \<Longrightarrow> holds (pl, 0, 0) []"
  by (simp add: holds_in_def)

lemma host_uniq_encode: "host_uniq pid = encode_tag (TAG_HOST_UNIQ, le32 pid)"
  by (simp add: host_uniq_def encode_tag_def)

lemma error_tag_encode: "error_tag msg = encode_tag (TAG_GENERIC_ERROR, msg)"
  by (simp add: error_tag_def encode_tag_def)

definition uniq_tags :: "u32 \<Rightarrow> PPPoEConnection \<Rightarrow> (u16 \<times> byte list) list" where
  "uniq_tags pid conn = (if useHostUniq conn then [(TAG_HOST_UNIQ, le32 pid)] else [])"

definition padt_tags :: "u32 \<Rightarrow> PPPoEConnection \<Rightarrow> byte list option \<Rightarrow> (u16 \<times> byte list) list" where
  "padt_tags pid conn msg = uniq_tags pid conn @ (case msg of None \<Rightarrow> [] | Some m \<Rightarrow> [(TAG_GENERIC_ERROR, m)]) @
     opt_tag (cookie conn) @ opt_tag (relayId conn)"

lemma put_uniq:
  assumes "holds b []"
  obtains b' where "(if useHostUniq conn then put_bytes (4 + TAG_HDR_SIZE) (host_uniq pid) b else Some b) = Some b'"
    and "holds b' (uniq_tags pid conn)"
proof (cases "useHostUniq conn")
  case True
  then show thesis
    using put_bytes_holds [of b "[]" "le32 pid" "host_uniq pid" TAG_HOST_UNIQ] assms that
    by (auto simp: host_uniq_encode uniq_tags_def)
qed (use assms that in \<open>simp add: uniq_tags_def\<close>)

lemma length_uniq_tags: "length (encode_tags (uniq_tags pid conn)) \<le> 8"
  by (simp add: uniq_tags_def)

lemma put_message:
  assumes "holds b tags" and "length (encode_tags tags) \<le> 8" and "case msg of None \<Rightarrow> True | Some m \<Rightarrow> length m \<le> 1400"
  obtains b' where "(case msg of None \<Rightarrow> Some b
                | Some m \<Rightarrow> if length m + 1 > ETH_DATA_LEN then None
                            else put_bytes (length m + TAG_HDR_SIZE) (error_tag m) b) = Some b'"
    and "holds b' (tags @ (case msg of None \<Rightarrow> [] | Some m \<Rightarrow> [(TAG_GENERIC_ERROR, m)]))"
proof (cases msg)
  case None
  then show thesis using assms that by simp
next
  case (Some m)
  obtain b' where "put_bytes (length m + 4) (error_tag m) b = Some b'" "holds b' (tags @ [(TAG_GENERIC_ERROR, m)])"
    by (rule put_bytes_holds [OF assms(1), of m "error_tag m" TAG_GENERIC_ERROR])
      (use assms Some in \<open>auto simp: error_tag_encode\<close>)
  then show thesis using Some assms(3) that by simp
qed

lemma sendPADT_eq:
  assumes wf: "wf_conn conn" and u: "wf_packet u"
    and msg: "case msg of None \<Rightarrow> True | Some m \<Rightarrow> length m \<le> 1400"
  shows "sendPADT u pid conn msg = Some
    (if c_session conn = 0 then (conn, [])
     else (conn\<lparr>c_session := 0\<rparr>,
           if length (encode_tags (padt_tags pid conn msg)) \<le> 1494
           then [Sent (discoverySocket conn) (pppoe_frame (peerEth conn) (myEth conn) (Eth_PPPOE_Discovery conn)
                   CODE_PADT (c_session conn) (padt_tags pid conn msg))] else []))"
proof (cases "c_session conn = 0")
  case True
  then show ?thesis by (simp add: sendPADT_def)
next
  case False
  let ?c = "conn\<lparr>c_session := 0\<rparr>"
  let ?p = "header_packet u (peerEth conn) (myEth conn) (Eth_PPPOE_Discovery conn) CODE_PADT (c_session conn)"
  have pl: "length (payload ?p) = 1500" using u by (simp add: header_packet_def wf_packet_def)
  obtain b1 where b1: "(if useHostUniq ?c then put_bytes (4 + TAG_HDR_SIZE) (host_uniq pid) (payload ?p, 0, 0)
      else Some (payload ?p, 0, 0)) = Some b1" "holds b1 (uniq_tags pid conn)"
    by (rule put_uniq [OF holds_empty [OF pl], of conn pid]) auto
  obtain b2 where b2: "(case msg of None \<Rightarrow> Some b1
                | Some m \<Rightarrow> if length m + 1 > ETH_DATA_LEN then None
                            else put_bytes (length m + TAG_HDR_SIZE) (error_tag m) b1) = Some b2"
    "holds b2 (uniq_tags pid conn @ (case msg of None \<Rightarrow> [] | Some m \<Rightarrow> [(TAG_GENERIC_ERROR, m)]))"
    by (rule put_message [OF b1(2) length_uniq_tags msg])
  define base where "base = uniq_tags pid conn @ (case msg of None \<Rightarrow> [] | Some m \<Rightarrow> [(TAG_GENERIC_ERROR, m)])"
  have w: "wf_tag (cookie conn)" "wf_tag (relayId conn)" "tag_len (cookie conn) \<le> 1500" "tag_len (relayId conn) \<le> 1500"
    "length (peerEth conn) = 6" "length (myEth conn) = 6"
    using wf by (simp_all add: wf_conn_def)
  let ?fin = "\<lambda>b. finish_packet (discoverySocket conn) ?p b"
  let ?k = "\<lambda>b. room (put_checked (ttype (relayId conn) \<noteq> 0) (tag_len (relayId conn) + TAG_HDR_SIZE)
                               (tag_bytes (relayId conn)) b) ?fin"
  let ?all = "base @ opt_tag (cookie conn) @ opt_tag (relayId conn)"
  obtain b3 where b3: "room (put_checked (ttype (cookie conn) \<noteq> 0) (tag_len (cookie conn) + TAG_HDR_SIZE)
      (tag_bytes (cookie conn)) b2) ?k = (if length (encode_tags (base @ opt_tag (cookie conn))) \<le> 1494 then ?k b3 else Some [])"
    "length (encode_tags (base @ opt_tag (cookie conn))) \<le> 1494 \<Longrightarrow> holds b3 (base @ opt_tag (cookie conn))"
    by (rule room_opt_tag [OF b2(2) w(1,3), of ?k, folded base_def]) blast
  have k: "?k b3 = (if length (encode_tags ?all) \<le> 1494
      then Some [Sent (discoverySocket conn) (pppoe_frame (peerEth conn) (myEth conn) (Eth_PPPOE_Discovery conn)
                   CODE_PADT (c_session conn) ?all)] else Some [])"
    if "length (encode_tags (base @ opt_tag (cookie conn))) \<le> 1494"
    by (rule room_opt_tag [OF b3(2) [OF that] w(2,4), of ?fin])
      (auto simp: finish_packet_frame [OF _ w(5,6) u])
  have r: "room (put_checked (ttype (cookie conn) \<noteq> 0) (tag_len (cookie conn) + TAG_HDR_SIZE)
      (tag_bytes (cookie conn)) b2) ?k = Some (if length (encode_tags ?all) \<le> 1494
      then [Sent (discoverySocket conn) (pppoe_frame (peerEth conn) (myEth conn) (Eth_PPPOE_Discovery conn)
                   CODE_PADT (c_session conn) ?all)] else [])"
    unfolding b3(1) using k by auto
  have all: "padt_tags pid conn msg = ?all" by (simp add: padt_tags_def base_def)
  show ?thesis
    unfolding sendPADT_def Let_def all using False b1(1) b2(1) r by simp
qed

end
