(* ===== verification/PPPoE_Discovery.thy ===== *)
theory PPPoE_Discovery
  imports PPPoE_Conn
begin

unbundle bit_operations_syntax

text \<open>
  The discovery phase of the PPPoE client (\<^verbatim>\<open>discovery.c\<close>): the tag callbacks, \<^verbatim>\<open>sendPADI\<close> and
  \<^verbatim>\<open>sendPADR\<close>, the two wait loops and \<^verbatim>\<open>discovery\<close> itself. What the discovery socket delivers is
  a list of events; after the last one nothing more arrives, so \<^verbatim>\<open>select\<close> times out. The result of
  a function is \<^verbatim>\<open>None\<close> for undefined behaviour, otherwise the actions it performs (frames sent,
  waits with their timeout and, in the session phase, bytes written to the PPP daemon) and either the exit status or its outcome. \<^verbatim>\<open>bpf\<close> tells whether
  the program is built with \<^verbatim>\<open>USE_BPF\<close>; in that build every frame is an event of its own, so that the
  wait before it is kept even when the BPF buffer still holds it (\<^verbatim>\<open>BPF_BUFFER_IS_EMPTY\<close>). A failing
  \<^verbatim>\<open>select\<close> or \<^verbatim>\<open>send\<close>, which ends the program, and output on the terminal and the log are not modelled.
\<close>

section \<open>Definitions\<close>

datatype dev_event = Timeout | Frame "byte list" | RecvFail

datatype action = Tx frame | Select nat | Write "byte list"

type_synonym 'a client_result = "(action list \<times> (int + 'a)) option"

definition then_do :: "'a client_result \<Rightarrow> ('a \<Rightarrow> 'b client_result) \<Rightarrow> 'b client_result" where
  "then_do r k =
     (case r of None \<Rightarrow> None
      | Some (acts, Inl x) \<Rightarrow> Some (acts, Inl x)
      | Some (acts, Inr a) \<Rightarrow> map_option (\<lambda>(acts', r'). (acts @ acts', r')) (k a))"

definition sends :: "frame list option \<Rightarrow> unit client_result" where
  "sends r = map_option (\<lambda>fs. (map Tx fs, Inr ())) r"

definition parseForHostUniq :: "u32 \<Rightarrow> (int, bool) ParseFunc" where
  "parseForHostUniq pid type len data val =
     Inr (if type = TAG_HOST_UNIQ \<and> len = 4 then (if load32 data = pid then True else val) else val)"

definition packetIsForMe :: "u32 \<Rightarrow> PPPoEConnection \<Rightarrow> PPPoEPacket \<Rightarrow> bool option" where
  "packetIsForMe pid conn packet =
     (if \<not> useHostUniq conn then Some True
      else (case parsePacket packet (parseForHostUniq pid) False of
              None \<Rightarrow> None | Some (Inl x) \<Rightarrow> None | Some (Inr (rc, forMe)) \<Rightarrow> Some forMe))"

record PacketCriteria =
  pc_conn :: PPPoEConnection
  acNameOK :: bool
  serviceNameOK :: bool

definition store_tag :: "u16 \<Rightarrow> u16 \<Rightarrow> byte list \<Rightarrow> PPPoETag \<Rightarrow> PPPoETag" where
  "store_tag type len data t =
     \<lparr>ttype = htons type, tlength = htons len, tpayload = data @ drop (length data) (tpayload t)\<rparr>"

definition parsePADOTags :: "(int, PacketCriteria) ParseFunc" where
  "parsePADOTags type len data pc =
     (let conn = pc_conn pc
      in if type = TAG_AC_NAME then
           Inr (if acName conn = Some data then pc\<lparr>acNameOK := True\<rparr> else pc)
         else if type = TAG_SERVICE_NAME then
           Inr (if serviceName conn = Some data then pc\<lparr>serviceNameOK := True\<rparr> else pc)
         else if type = TAG_AC_COOKIE then
           Inr (pc\<lparr>pc_conn := conn\<lparr>cookie := store_tag type len data (cookie conn)\<rparr>\<rparr>)
         else if type = TAG_RELAY_SESSION_ID then
           Inr (pc\<lparr>pc_conn := conn\<lparr>relayId := store_tag type len data (relayId conn)\<rparr>\<rparr>)
         else if type = TAG_SERVICE_NAME_ERROR \<or> type = TAG_AC_SYSTEM_ERROR \<or> type = TAG_GENERIC_ERROR then
           (if printACNames conn then Inr pc else Inl 1)
         else Inr pc)"

definition parsePADSTags :: "(int, PPPoEConnection) ParseFunc" where
  "parsePADSTags type len data conn =
     (if type = TAG_SERVICE_NAME then Inr conn
      else if type = TAG_SERVICE_NAME_ERROR \<or> type = TAG_AC_SYSTEM_ERROR \<or> type = TAG_GENERIC_ERROR then Inl 1
      else if type = TAG_RELAY_SESSION_ID then
        Inr (conn\<lparr>relayId := store_tag type len data (relayId conn)\<rparr>)
      else Inr conn)"

text \<open>The length of the service name, kept in 16 bits.\<close>

definition name_len :: "PPPoEConnection \<Rightarrow> u16" where
  "name_len conn = (case serviceName conn of None \<Rightarrow> 0 | Some n \<Rightarrow> of_nat (length n))"

definition sendPADI :: "PPPoEPacket \<Rightarrow> u32 \<Rightarrow> PPPoEConnection \<Rightarrow> frame list option" where
  "sendPADI u pid conn =
     (let namelen = name_len conn; plen = of_nat TAG_HDR_SIZE + namelen
      in if \<not> CHECK_ROOM 0 (unat plen) then Some []
         else (let packet = header_packet u (replicate 6 0xFF) (myEth conn) (Eth_PPPOE_Discovery conn) CODE_PADI 0
           in do {
             pl \<leftarrow> memcpy_at (payload packet) 0 (le16 TAG_SERVICE_NAME @ le16 (htons namelen));
             if \<not> CHECK_ROOM 0 (unat namelen + TAG_HDR_SIZE) then Some []
             else do {
               pl \<leftarrow> (case serviceName conn of None \<Rightarrow> Some pl | Some n \<Rightarrow> memcpy_at pl TAG_HDR_SIZE n);
               room (put_checked (useHostUniq conn) (4 + TAG_HDR_SIZE) (host_uniq pid) (pl, unat namelen + TAG_HDR_SIZE, plen))
                 (\<lambda>b. finish_packet (discoverySocket conn) packet b)
             }
           }))"

definition sendPADR :: "PPPoEPacket \<Rightarrow> u32 \<Rightarrow> PPPoEConnection \<Rightarrow> frame list option" where
  "sendPADR u pid conn =
     (let namelen = name_len conn; plen = of_nat TAG_HDR_SIZE + namelen
      in if \<not> CHECK_ROOM 0 (unat plen) then Some []
         else (let packet = header_packet u (peerEth conn) (myEth conn) (Eth_PPPOE_Discovery conn) CODE_PADR 0
           in do {
             pl \<leftarrow> memcpy_at (payload packet) 0 (le16 TAG_SERVICE_NAME @ le16 (htons namelen));
             pl \<leftarrow> (case serviceName conn of None \<Rightarrow> Some pl | Some n \<Rightarrow> memcpy_at pl TAG_HDR_SIZE (take (unat namelen) n));
             room (put_checked (useHostUniq conn) (4 + TAG_HDR_SIZE) (host_uniq pid) (pl, unat namelen + TAG_HDR_SIZE, plen))
             (\<lambda>b. room (put_checked (ttype (cookie conn) \<noteq> 0) (tag_len (cookie conn) + TAG_HDR_SIZE)
                          (tag_bytes (cookie conn)) b)
             (\<lambda>b. room (put_checked (ttype (relayId conn) \<noteq> 0) (tag_len (relayId conn) + TAG_HDR_SIZE)
                          (tag_bytes (relayId conn)) b)
             (\<lambda>b. finish_packet (discoverySocket conn) packet b)))
           }))"

text \<open>
  \<^verbatim>\<open>rp_fatal\<close> of \<^verbatim>\<open>pppoe.c\<close>: a PADT with the message when a session is open, then exit.
\<close>

definition rp_fatal :: "PPPoEPacket \<Rightarrow> u32 \<Rightarrow> PPPoEConnection \<Rightarrow> string \<Rightarrow> 'a client_result" where
  "rp_fatal u pid conn str =
     map_option (\<lambda>(conn, fs). (map Tx fs, Inl 1)) (sendPADT u pid conn (Some (cstr str)))"

text \<open>
  A receive in the wait loops, whose return value the code does not look at: a failure leaves the
  packet as it was and the length -1. The length check compares unsigned 32-bit numbers, because
  \<^verbatim>\<open>HDR_SIZE\<close> is a \<^verbatim>\<open>size_t\<close>.
\<close>

definition wait_receive :: "PPPoEPacket \<Rightarrow> dev_event \<Rightarrow> PPPoEPacket \<times> int" where
  "wait_receive packet ev = (case ev of Frame f \<Rightarrow> receivePacket packet f | _ \<Rightarrow> (packet, -1))"

definition bogus_length :: "PPPoEPacket \<Rightarrow> int \<Rightarrow> bool" where
  "bogus_length packet len \<longleftrightarrow> of_nat (pkt_len packet + HDR_SIZE) > (word_of_int len :: u32)"

text \<open>
  One packet in \<^verbatim>\<open>waitForPADO\<close>: \<^verbatim>\<open>Inl\<close> is an exit; otherwise the criteria and whether the loop is
  left by \<^verbatim>\<open>break\<close>.
\<close>

definition pado_packet ::
  "bool \<Rightarrow> u32 \<Rightarrow> PacketCriteria \<Rightarrow> PPPoEPacket \<Rightarrow> int \<Rightarrow> (int + PacketCriteria \<times> bool) option" where
  "pado_packet bpf pid pc packet len =
     (let conn = pc_conn pc
      in if bogus_length packet len then Some (Inr (pc, False))
         else if bpf \<and> etherType packet \<noteq> Eth_PPPOE_Discovery conn then Some (Inr (pc, False))
         else do {
           forMe \<leftarrow> packetIsForMe pid conn packet;
           if \<not> forMe then Some (Inr (pc, False))
           else if code packet = CODE_PADO then
             (if NOT_UNICAST (h_source packet) then Some (Inr (pc, False))
              else do {
                let pc = pc\<lparr>pc_conn := conn\<lparr>numPADOs := numPADOs conn + 1\<rparr>\<rparr>;
                r \<leftarrow> parsePacket packet parsePADOTags pc;
                case r of Inl x \<Rightarrow> Some (Inl x)
                | Inr (rc, pc) \<Rightarrow>
                    if acNameOK pc \<and> serviceNameOK pc then
                      (let pc = pc\<lparr>pc_conn := (pc_conn pc)\<lparr>peerEth := h_source packet\<rparr>\<rparr>
                       in if printACNames (pc_conn pc) then Some (Inr (pc, False))
                          else Some (Inr (pc\<lparr>pc_conn := (pc_conn pc)\<lparr>discoveryState := STATE_RECEIVED_PADO\<rparr>\<rparr>, True)))
                    else Some (Inr (pc, False))
              })
           else Some (Inr (pc, False))
         })"

fun waitForPADO_loop ::
  "bool \<Rightarrow> u32 \<Rightarrow> nat \<Rightarrow> PacketCriteria \<Rightarrow> PPPoEPacket \<Rightarrow> dev_event list \<Rightarrow> (PPPoEConnection \<times> dev_event list) client_result" where
  "waitForPADO_loop bpf pid timeout pc packet [] = Some ([Select timeout], Inr (pc_conn pc, []))"
| "waitForPADO_loop bpf pid timeout pc packet (Timeout # evs) = Some ([Select timeout], Inr (pc_conn pc, evs))"
| "waitForPADO_loop bpf pid timeout pc packet (ev # evs) =
     (let (packet, len) = wait_receive packet ev
      in case pado_packet bpf pid pc packet len of
           None \<Rightarrow> None
         | Some (Inl x) \<Rightarrow> Some ([Select timeout], Inl x)
         | Some (Inr (pc, brk)) \<Rightarrow>
             if brk \<or> discoveryState (pc_conn pc) = STATE_RECEIVED_PADO then Some ([Select timeout], Inr (pc_conn pc, evs))
             else map_option (\<lambda>(acts, r). (Select timeout # acts, r))
                    (waitForPADO_loop bpf pid timeout pc packet evs))"

definition waitForPADO ::
  "bool \<Rightarrow> PPPoEPacket \<Rightarrow> u32 \<Rightarrow> PPPoEConnection \<Rightarrow> nat \<Rightarrow> dev_event list \<Rightarrow> (PPPoEConnection \<times> dev_event list) client_result" where
  "waitForPADO bpf u pid conn timeout evs =
     waitForPADO_loop bpf pid timeout
       \<lparr>pc_conn = conn, acNameOK = (acName conn = None), serviceNameOK = (serviceName conn = None)\<rparr> u evs"

definition pads_packet ::
  "bool \<Rightarrow> u32 \<Rightarrow> PPPoEConnection \<Rightarrow> PPPoEPacket \<Rightarrow> int \<Rightarrow> (int + PPPoEConnection \<times> bool) option" where
  "pads_packet bpf pid conn packet len =
     (if bogus_length packet len then Some (Inr (conn, False))
      else if bpf \<and> etherType packet \<noteq> Eth_PPPOE_Discovery conn then Some (Inr (conn, False))
      else if h_source packet \<noteq> peerEth conn then Some (Inr (conn, False))
      else do {
        forMe \<leftarrow> packetIsForMe pid conn packet;
        if \<not> forMe then Some (Inr (conn, False))
        else if code packet = CODE_PADS then do {
          r \<leftarrow> parsePacket packet parsePADSTags conn;
          case r of Inl x \<Rightarrow> Some (Inl x)
          | Inr (rc, conn) \<Rightarrow> Some (Inr (conn\<lparr>discoveryState := STATE_SESSION\<rparr>, True))
        }
        else Some (Inr (conn, False))
      })"

fun waitForPADS_loop ::
  "bool \<Rightarrow> u32 \<Rightarrow> nat \<Rightarrow> PPPoEConnection \<Rightarrow> PPPoEPacket \<Rightarrow> dev_event list \<Rightarrow> (PPPoEConnection \<times> dev_event list) client_result" where
  "waitForPADS_loop bpf pid timeout conn packet [] = Some ([Select timeout], Inr (conn, []))"
| "waitForPADS_loop bpf pid timeout conn packet (Timeout # evs) = Some ([Select timeout], Inr (conn, evs))"
| "waitForPADS_loop bpf pid timeout conn packet (ev # evs) =
     (let (packet, len) = wait_receive packet ev
      in case pads_packet bpf pid conn packet len of
           None \<Rightarrow> None
         | Some (Inl x) \<Rightarrow> Some ([Select timeout], Inl x)
         | Some (Inr (conn, brk)) \<Rightarrow>
             if brk \<or> discoveryState conn = STATE_SESSION
             then Some ([Select timeout], Inr (conn\<lparr>c_session := session packet\<rparr>, evs))
             else map_option (\<lambda>(acts, r). (Select timeout # acts, r))
                    (waitForPADS_loop bpf pid timeout conn packet evs))"

definition waitForPADS ::
  "bool \<Rightarrow> PPPoEPacket \<Rightarrow> u32 \<Rightarrow> PPPoEConnection \<Rightarrow> nat \<Rightarrow> dev_event list \<Rightarrow> (PPPoEConnection \<times> dev_event list) client_result" where
  "waitForPADS bpf u pid conn timeout evs = waitForPADS_loop bpf pid timeout conn u evs"

text \<open>The PADI loop and the PADR loop of \<^verbatim>\<open>discovery\<close>; \<^verbatim>\<open>n\<close> counts the attempts made so far.\<close>

function padi_loop ::
  "bool \<Rightarrow> PPPoEPacket \<Rightarrow> u32 \<Rightarrow> nat \<Rightarrow> nat \<Rightarrow> PPPoEConnection \<Rightarrow> dev_event list \<Rightarrow>
     (PPPoEConnection \<times> dev_event list) client_result" where
  "padi_loop bpf u pid n timeout conn evs =
     (let n = n + 1
      in if n > MAX_PADI_ATTEMPTS then rp_fatal u pid conn ''Timeout waiting for PADO packets''
         else then_do (sends (sendPADI u pid conn)) (\<lambda>_.
              let conn = conn\<lparr>discoveryState := STATE_SENT_PADI\<rparr>
              in then_do (waitForPADO bpf u pid conn timeout evs) (\<lambda>(conn, evs).
                   let timeout = (if \<not> printACNames conn then timeout * 2 else timeout)
                   in if printACNames conn \<and> numPADOs conn > 0 then Some ([], Inr (conn, evs))
                      else if discoveryState conn = STATE_SENT_PADI then padi_loop bpf u pid n timeout conn evs
                      else Some ([], Inr (conn, evs)))))"
  by pat_completeness auto
termination
  by (relation "measure (\<lambda>(bpf, u, pid, n, timeout, conn, evs). MAX_PADI_ATTEMPTS - n)") auto

declare padi_loop.simps [simp del]

function padr_loop ::
  "bool \<Rightarrow> PPPoEPacket \<Rightarrow> u32 \<Rightarrow> nat \<Rightarrow> nat \<Rightarrow> PPPoEConnection \<Rightarrow> dev_event list \<Rightarrow>
     (PPPoEConnection \<times> dev_event list) client_result" where
  "padr_loop bpf u pid n timeout conn evs =
     (let n = n + 1
      in if n > MAX_PADI_ATTEMPTS then rp_fatal u pid conn ''Timeout waiting for PADS packets''
         else then_do (sends (sendPADR u pid conn)) (\<lambda>_.
              let conn = conn\<lparr>discoveryState := STATE_SENT_PADR\<rparr>
              in then_do (waitForPADS bpf u pid conn timeout evs) (\<lambda>(conn, evs).
                   let timeout = timeout * 2
                   in if discoveryState conn = STATE_SENT_PADR then padr_loop bpf u pid n timeout conn evs
                      else Some ([], Inr (conn, evs)))))"
  by pat_completeness auto
termination
  by (relation "measure (\<lambda>(bpf, u, pid, n, timeout, conn, evs). MAX_PADI_ATTEMPTS - n)") auto

declare padr_loop.simps [simp del]

text \<open>
  \<^verbatim>\<open>openi\<close> stands for \<^verbatim>\<open>openInterface\<close>: the socket and the hardware address for the interface
  name and Ethernet type.
\<close>

definition discovery ::
  "bool \<Rightarrow> (string \<Rightarrow> u16 \<Rightarrow> int \<times> byte list) \<Rightarrow> PPPoEPacket \<Rightarrow> u32 \<Rightarrow> PPPoEConnection \<Rightarrow> dev_event list \<Rightarrow>
     (PPPoEConnection \<times> dev_event list) client_result" where
  "discovery bpf openi u pid conn evs =
     (let (sock, mac) = openi (ifName conn) (Eth_PPPOE_Discovery conn);
          conn = conn\<lparr>discoverySocket := sock, myEth := mac\<rparr>
      in if skipDiscovery conn then
           (let conn = conn\<lparr>discoveryState := STATE_SESSION\<rparr>
            in if killSession conn
               then map_option (\<lambda>(conn, fs). (map Tx fs, Inl 0))
                      (sendPADT u pid conn (Some (cstr ''RP-PPPoE: Session killed manually'')))
               else Some ([], Inr (conn, evs)))
         else then_do (padi_loop bpf u pid 0 PADI_TIMEOUT conn evs) (\<lambda>(conn, evs).
           if printACNames conn then Some ([], Inl 0)
           else then_do (padr_loop bpf u pid 0 PADI_TIMEOUT conn evs) (\<lambda>(conn, evs).
             Some ([], Inr (conn\<lparr>discoveryState := STATE_SESSION\<rparr>, evs)))))"

section \<open>The packets sent\<close>

definition service_tag :: "PPPoEConnection \<Rightarrow> u16 \<times> byte list" where
  "service_tag conn = (TAG_SERVICE_NAME, case serviceName conn of None \<Rightarrow> [] | Some n \<Rightarrow> n)"

lemma name_len_nat: "length (snd (service_tag conn)) \<le> 1490 \<Longrightarrow> unat (name_len conn) = length (snd (service_tag conn))"
  by (simp add: name_len_def service_tag_def unat_of_nat_u16 split: option.splits)

lemma le16_service [simp]: "le16 0x0101 = be_bytes 0x0101"
  by (simp add: le16_def be_bytes_def lo8_def hi8_def)

lemma plen_nat:
  assumes "length (snd (service_tag conn)) \<le> 1490"
  shows "(of_nat TAG_HDR_SIZE + name_len conn :: u16) = of_nat (length (snd (service_tag conn)) + 4)"
    and "unat (of_nat TAG_HDR_SIZE + name_len conn :: u16) = length (snd (service_tag conn)) + 4"
proof -
  have "name_len conn = of_nat (length (snd (service_tag conn)))"
    by (simp add: name_len_def service_tag_def split: option.splits)
  then show e: "(of_nat TAG_HDR_SIZE + name_len conn :: u16) = of_nat (length (snd (service_tag conn)) + 4)" by simp
  show "unat (of_nat TAG_HDR_SIZE + name_len conn :: u16) = length (snd (service_tag conn)) + 4"
    unfolding e by (rule unat_of_nat_u16) (use assms in simp)
qed

lemma service_holds:
  assumes "length pl = 1500" and "length (snd (service_tag conn)) \<le> 1490"
  obtains pl1 pl2 where "memcpy_at pl 0 (le16 TAG_SERVICE_NAME @ le16 (htons (name_len conn))) = Some pl1"
    and "(case serviceName conn of None \<Rightarrow> Some pl1 | Some n \<Rightarrow> memcpy_at pl1 TAG_HDR_SIZE n) = Some pl2"
    and "(case serviceName conn of None \<Rightarrow> Some pl1 | Some n \<Rightarrow> memcpy_at pl1 TAG_HDR_SIZE (take (unat (name_len conn)) n)) = Some pl2"
    and "holds (pl2, unat (name_len conn) + TAG_HDR_SIZE, of_nat TAG_HDR_SIZE + name_len conn) [service_tag conn]"
proof -
  let ?h = "be_bytes 0x0101 @ be_bytes (name_len conn)"
  let ?n = "snd (service_tag conn)"
  let ?pl1 = "?h @ drop 4 pl"
  let ?pl2 = "?h @ ?n @ drop (4 + length ?n) pl"
  have h4: "length ?h = 4" by (simp add: be_bytes_def)
  have 1: "memcpy_at pl 0 (le16 TAG_SERVICE_NAME @ le16 (htons (name_len conn))) = Some ?pl1"
    using assms(1) h4 by (simp add: memcpy_at_def)
  have 2: "(case serviceName conn of None \<Rightarrow> Some ?pl1 | Some n \<Rightarrow> memcpy_at ?pl1 TAG_HDR_SIZE n) = Some ?pl2"
    using assms h4 by (auto simp: memcpy_at_def service_tag_def add.commute split: option.splits)
  have nl: "unat (name_len conn) = length ?n" by (rule name_len_nat [OF assms(2)])
  have 3: "(case serviceName conn of None \<Rightarrow> Some ?pl1 | Some n \<Rightarrow> memcpy_at ?pl1 TAG_HDR_SIZE (take (unat (name_len conn)) n)) = Some ?pl2"
    using 2 unfolding nl by (auto simp: service_tag_def split: option.splits)
  have e: "encode_tags [service_tag conn] = ?h @ ?n"
    by (simp add: encode_tag_def service_tag_def name_len_def split: option.splits)
  have "take (length ?n + 4) ?pl2 = ?h @ ?n" using h4 by simp
  then have 4: "holds (?pl2, unat (name_len conn) + TAG_HDR_SIZE, of_nat TAG_HDR_SIZE + name_len conn) [service_tag conn]"
    using assms h4 plen_nat(1) [OF assms(2)] unfolding holds_in_def prod.case e nl by simp
  show thesis by (rule that [OF 1 2 3 4])
qed

lemma room_uniq:
  assumes "holds b tags"
  obtains b' where "room (put_checked (useHostUniq conn) (4 + TAG_HDR_SIZE) (host_uniq pid) b) k =
      (if length (encode_tags (tags @ uniq_tags pid conn)) \<le> 1494 then k b' else Some [])"
    and "length (encode_tags (tags @ uniq_tags pid conn)) \<le> 1494 \<Longrightarrow> holds b' (tags @ uniq_tags pid conn)"
proof (cases "useHostUniq conn")
  case False
  moreover have "length (encode_tags tags) \<le> 1494" using assms by (auto simp: holds_in_def)
  ultimately show thesis using that [of b] assms by (simp add: uniq_tags_def put_checked_def room_def)
next
  case True
  have "take (length (le32 pid) + 4) (host_uniq pid) = encode_tag (TAG_HOST_UNIQ, le32 pid)"
    by (simp add: host_uniq_encode)
  moreover have "length (le32 pid) + 4 \<le> length (host_uniq pid)" by (simp add: host_uniq_encode)
  ultimately obtain b' where "put_checked True (length (le32 pid) + 4) (host_uniq pid) b =
      Some (if length (encode_tags (tags @ [(TAG_HOST_UNIQ, le32 pid)])) \<le> 1494 then Some b' else None)"
    "length (encode_tags (tags @ [(TAG_HOST_UNIQ, le32 pid)])) \<le> 1494 \<Longrightarrow> holds b' (tags @ [(TAG_HOST_UNIQ, le32 pid)])"
    using put_checked_holds [OF assms] by blast
  then show thesis using that [of b'] True by (simp add: uniq_tags_def room_def)
qed

definition padi_tags :: "u32 \<Rightarrow> PPPoEConnection \<Rightarrow> (u16 \<times> byte list) list" where
  "padi_tags pid conn = service_tag conn # uniq_tags pid conn"

definition padr_tags :: "u32 \<Rightarrow> PPPoEConnection \<Rightarrow> (u16 \<times> byte list) list" where
  "padr_tags pid conn = padi_tags pid conn @ opt_tag (cookie conn) @ opt_tag (relayId conn)"

lemma sendPADI_eq:
  assumes "wf_packet u" and "length (myEth conn) = 6" and "length (snd (service_tag conn)) \<le> 1490"
  shows "sendPADI u pid conn = Some (if length (encode_tags (padi_tags pid conn)) \<le> 1494
    then [Sent (discoverySocket conn) (pppoe_frame (replicate 6 0xFF) (myEth conn) (Eth_PPPOE_Discovery conn)
            CODE_PADI 0 (padi_tags pid conn))] else [])"
proof -
  let ?p = "header_packet u (replicate 6 0xFF) (myEth conn) (Eth_PPPOE_Discovery conn) CODE_PADI 0"
  have pl: "length (payload ?p) = 1500" using assms(1) by (simp add: header_packet_def wf_packet_def)
  obtain pl1 pl2 where m: "memcpy_at (payload ?p) 0 (le16 TAG_SERVICE_NAME @ le16 (htons (name_len conn))) = Some pl1"
    "(case serviceName conn of None \<Rightarrow> Some pl1 | Some n \<Rightarrow> memcpy_at pl1 TAG_HDR_SIZE n) = Some pl2"
    and h: "holds (pl2, unat (name_len conn) + TAG_HDR_SIZE, of_nat TAG_HDR_SIZE + name_len conn) [service_tag conn]"
    by (rule service_holds [OF pl assms(3)]) blast
  have c: "CHECK_ROOM 0 (unat (of_nat TAG_HDR_SIZE + name_len conn :: u16))" "CHECK_ROOM 0 (unat (name_len conn) + TAG_HDR_SIZE)"
    using assms(3) name_len_nat [OF assms(3)] plen_nat(2) [OF assms(3)] by (simp_all add: CHECK_ROOM_def)
  let ?k = "\<lambda>b. finish_packet (discoverySocket conn) ?p b"
  have "room (put_checked (useHostUniq conn) (4 + TAG_HDR_SIZE) (host_uniq pid)
      (pl2, unat (name_len conn) + TAG_HDR_SIZE, of_nat TAG_HDR_SIZE + name_len conn)) ?k =
    Some (if length (encode_tags (padi_tags pid conn)) \<le> 1494
    then [Sent (discoverySocket conn) (pppoe_frame (replicate 6 0xFF) (myEth conn) (Eth_PPPOE_Discovery conn)
            CODE_PADI 0 (padi_tags pid conn))] else [])"
    by (rule room_uniq [OF h, of conn pid ?k])
      (auto simp: padi_tags_def finish_packet_frame [OF _ _ assms(2,1)])
  then show ?thesis
    unfolding sendPADI_def Let_def using c m by simp
qed

lemma sendPADR_eq:
  assumes u: "wf_packet u" and wf: "wf_conn conn" and name: "length (snd (service_tag conn)) \<le> 1490"
  shows "sendPADR u pid conn = Some (if length (encode_tags (padr_tags pid conn)) \<le> 1494
    then [Sent (discoverySocket conn) (pppoe_frame (peerEth conn) (myEth conn) (Eth_PPPOE_Discovery conn)
            CODE_PADR 0 (padr_tags pid conn))] else [])"
proof -
  let ?p = "header_packet u (peerEth conn) (myEth conn) (Eth_PPPOE_Discovery conn) CODE_PADR 0"
  have w: "wf_tag (cookie conn)" "wf_tag (relayId conn)" "tag_len (cookie conn) \<le> 1500" "tag_len (relayId conn) \<le> 1500"
    "length (peerEth conn) = 6" "length (myEth conn) = 6"
    using wf by (simp_all add: wf_conn_def)
  have pl: "length (payload ?p) = 1500" using u by (simp add: header_packet_def wf_packet_def)
  obtain pl1 pl2 where m: "memcpy_at (payload ?p) 0 (le16 TAG_SERVICE_NAME @ le16 (htons (name_len conn))) = Some pl1"
    "(case serviceName conn of None \<Rightarrow> Some pl1 | Some n \<Rightarrow> memcpy_at pl1 TAG_HDR_SIZE (take (unat (name_len conn)) n)) = Some pl2"
    and h: "holds (pl2, unat (name_len conn) + TAG_HDR_SIZE, of_nat TAG_HDR_SIZE + name_len conn) [service_tag conn]"
    by (rule service_holds [OF pl name]) blast
  have c: "CHECK_ROOM 0 (unat (of_nat TAG_HDR_SIZE + name_len conn :: u16))"
    using name plen_nat(2) [OF name] by (simp add: CHECK_ROOM_def)
  let ?f = "\<lambda>b. finish_packet (discoverySocket conn) ?p b"
  let ?r = "\<lambda>b. room (put_checked (ttype (relayId conn) \<noteq> 0) (tag_len (relayId conn) + TAG_HDR_SIZE)
                          (tag_bytes (relayId conn)) b) ?f"
  let ?c = "\<lambda>b. room (put_checked (ttype (cookie conn) \<noteq> 0) (tag_len (cookie conn) + TAG_HDR_SIZE)
                          (tag_bytes (cookie conn)) b) ?r"
  let ?t1 = "padi_tags pid conn" and ?t2 = "padi_tags pid conn @ opt_tag (cookie conn)"
  let ?out = "[Sent (discoverySocket conn) (pppoe_frame (peerEth conn) (myEth conn) (Eth_PPPOE_Discovery conn)
            CODE_PADR 0 (padr_tags pid conn))]"
  have r: "?r b = Some (if length (encode_tags (padr_tags pid conn)) \<le> 1494 then ?out else [])" if "holds b ?t2" for b
    by (rule room_opt_tag [OF that w(2,4), of ?f])
      (auto simp: padr_tags_def finish_packet_frame [OF _ w(5,6) u])
  have cc: "?c b = Some (if length (encode_tags (padr_tags pid conn)) \<le> 1494 then ?out else [])" if "holds b ?t1" for b
    by (rule room_opt_tag [OF that w(1,3), of ?r]) (use r in \<open>auto simp: padr_tags_def\<close>)
  have "room (put_checked (useHostUniq conn) (4 + TAG_HDR_SIZE) (host_uniq pid)
      (pl2, unat (name_len conn) + TAG_HDR_SIZE, of_nat TAG_HDR_SIZE + name_len conn)) ?c =
    Some (if length (encode_tags (padr_tags pid conn)) \<le> 1494 then ?out else [])"
    by (rule room_uniq [OF h, of conn pid ?c]) (use cc in \<open>auto simp: padr_tags_def padi_tags_def\<close>)
  then show ?thesis
    unfolding sendPADR_def Let_def using c m by simp
qed

section \<open>Receiving\<close>

lemma unat_of_nat_u32: "n < 4294967296 \<Longrightarrow> unat (of_nat n :: u32) = n"
  by (simp add: unsigned_of_nat take_bit_nat_eq_self)

lemma bogus_length_nat:
  assumes "n \<le> 1520"
  shows "bogus_length p (int n) \<longleftrightarrow> pkt_len p + 20 > n"
proof -
  have "unat (of_nat (pkt_len p + 20) :: u32) = pkt_len p + 20"
    by (rule unat_of_nat_u32) (use pkt_len_less [of p] in linarith)
  moreover have "unat (of_nat n :: u32) = n" by (rule unat_of_nat_u32) (use assms in simp)
  ultimately show ?thesis
    unfolding bogus_length_def of_int_of_nat_eq HDR_SIZE_def word_less_nat_alt by simp
qed

text \<open>The header fields of a received packet that passes the length check are those of the frame.\<close>

lemma received_header:
  assumes "wf_packet u" and "receivePacket u f = (p, len)" and "\<not> bogus_length p len"
  shows "20 \<le> length f" and "h_source p = bslice f 6 6" and "h_dest p = take 6 f" and "code p = f ! 15"
    and "session p = load16 (f ! 16) (f ! 17)" and "pkt_len p + 20 \<le> length f"
    and "pkt_data p = bslice f 20 (pkt_len p)"
proof -
  define n where "n = min (length f) 1520"
  have r: "p = load_packet (take n f @ drop n (packet_bytes u))" "len = int n"
    using assms(2) by (auto simp: receivePacket_def Let_def n_def)
  have "n \<le> 1520" by (simp add: n_def)
  then have n: "pkt_len p + 20 \<le> n" using assms(3) by (simp add: r(2) bogus_length_nat)
  then show l: "20 \<le> length f" "pkt_len p + 20 \<le> length f" by (simp_all add: n_def)
  have m: "n = length (take n f)" by (simp add: n_def)
  have at: "(take n f @ drop n (packet_bytes u)) ! i = f ! i" if "i < 20" for i
    using that n by (simp add: n_def nth_append)
  show "code p = f ! 15" "session p = load16 (f ! 16) (f ! 17)" by (simp_all add: r(1) load_packet_def at)
  have t: "take 12 (take n f @ drop n (packet_bytes u)) = take 12 f" using n l by (simp add: n_def)
  have "take 6 (drop 6 xs) = drop 6 (take 12 xs)" for xs :: "byte list" by (simp add: take_drop)
  then show "h_source p = bslice f 6 6"
    by (simp only: r(1) load_packet_def PPPoEPacket.simps bslice_def t)
  show "h_dest p = take 6 f" using n l by (simp add: r(1) load_packet_def n_def)
  show "pkt_data p = bslice f 20 (pkt_len p)"
  proof -
    have "payload p = drop 20 (take n f @ drop n (packet_bytes u))"
      by (simp only: r(1) load_packet_def PPPoEPacket.simps)
    also have "\<dots> = drop 20 (take n f) @ drop n (packet_bytes u)" using n m by simp
    finally have "take (pkt_len p) (payload p) = take (pkt_len p) (drop 20 (take n f))"
      using n m by simp
    also have "\<dots> = take (pkt_len p) (drop 20 f)" using n by (simp add: drop_take)
    finally show ?thesis by (simp add: pkt_data_def bslice_def)
  qed
qed

lemma wait_receive_wf: "wf_packet u \<Longrightarrow> wf_packet (fst (wait_receive u ev))"
  using receivePacket_wf(1) [of u] by (auto simp: wait_receive_def split: dev_event.split) (metis prod.collapse)

section \<open>One packet\<close>

text \<open>The fields that discovery does not change.\<close>

definition setup_of :: "PPPoEConnection \<Rightarrow> _" where
  "setup_of conn = (discoverySocket conn, myEth conn, serviceName conn, acName conn, useHostUniq conn, printACNames conn,
     Eth_PPPOE_Discovery conn, Eth_PPPOE_Session conn, synchronous conn, ifName conn, sessionSocket conn)"

lemma setup_of_upd [simp]:
  "setup_of (c\<lparr>cookie := t\<rparr>) = setup_of c" "setup_of (c\<lparr>relayId := t\<rparr>) = setup_of c"
  "setup_of (c\<lparr>numPADOs := n\<rparr>) = setup_of c" "setup_of (c\<lparr>peerEth := m\<rparr>) = setup_of c"
  "setup_of (c\<lparr>discoveryState := k\<rparr>) = setup_of c" "setup_of (c\<lparr>c_session := x\<rparr>) = setup_of c"
  by (simp_all add: setup_of_def)

lemma wf_conn_upd:
  "wf_conn c \<Longrightarrow> wf_tag t \<Longrightarrow> tag_len t \<le> 1500 \<Longrightarrow> wf_conn (c\<lparr>cookie := t\<rparr>)"
  "wf_conn c \<Longrightarrow> wf_tag t \<Longrightarrow> tag_len t \<le> 1500 \<Longrightarrow> wf_conn (c\<lparr>relayId := t\<rparr>)"
  "wf_conn c \<Longrightarrow> length m = 6 \<Longrightarrow> wf_conn (c\<lparr>peerEth := m\<rparr>)"
  "wf_conn (c\<lparr>numPADOs := n\<rparr>) = wf_conn c" "wf_conn (c\<lparr>discoveryState := k\<rparr>) = wf_conn c"
  "wf_conn (c\<lparr>c_session := x\<rparr>) = wf_conn c"
  by (simp_all add: wf_conn_def)

lemma wf_conn_tags: "wf_conn c \<Longrightarrow> wf_tag (cookie c)" "wf_conn c \<Longrightarrow> wf_tag (relayId c)"
  by (simp_all add: wf_conn_def)

lemma store_tag_wf:
  assumes "wf_tag t" and "length d \<le> 1490"
  shows "wf_tag (store_tag type (of_nat (length d)) d t)" and "tag_len (store_tag type (of_nat (length d)) d t) \<le> 1500"
  using assms by (simp_all add: store_tag_def wf_tag_def tag_len_def unat_of_nat_u16)

definition pc_inv :: "PPPoEConnection \<Rightarrow> PacketCriteria \<Rightarrow> bool" where
  "pc_inv c pc \<longleftrightarrow> wf_conn (pc_conn pc) \<and> setup_of (pc_conn pc) = setup_of c \<and> c_session (pc_conn pc) = c_session c \<and>
     discoveryState (pc_conn pc) = discoveryState c"

lemma parsePADOTags_inv:
  assumes "pc_inv c pc" and "length d \<le> 1490" and "parsePADOTags t (of_nat (length d)) d pc = Inr pc'"
  shows "pc_inv c pc'"
  using assms store_tag_wf [OF _ assms(2)]
  unfolding pc_inv_def parsePADOTags_def Let_def
  by (simp split: if_splits) (auto simp: wf_conn_upd wf_conn_tags)

lemma packetIsForMe_some: "wf_packet p \<Longrightarrow> \<exists>b. packetIsForMe pid conn p = Some b"
proof -
  assume wf: "wf_packet p"
  have "walk (parseForHostUniq pid) v ts \<noteq> Inl x" for v ts x
    by (induction "parseForHostUniq pid" v ts rule: walk.induct) (auto simp: parseForHostUniq_def split: sum.splits if_splits)
  then show ?thesis
    using parsePacket_walk [OF wf, of "parseForHostUniq pid" False]
    by (auto simp: packetIsForMe_def split: sum.splits)
qed

lemma pado_packet_ok:
  assumes wf: "wf_packet p" and inv: "wf_conn (pc_conn pc)"
  shows "\<exists>r. pado_packet bpf pid pc p len = Some r \<and> (\<forall>pc' brk. r = Inr (pc', brk) \<longrightarrow>
     wf_conn (pc_conn pc') \<and> setup_of (pc_conn pc') = setup_of (pc_conn pc) \<and> c_session (pc_conn pc') = c_session (pc_conn pc) \<and>
     (if brk then discoveryState (pc_conn pc') = STATE_RECEIVED_PADO \<and> peerEth (pc_conn pc') = h_source p \<and>
        code p = CODE_PADO \<and> \<not> NOT_UNICAST (h_source p) \<and> \<not> bogus_length p len
      else discoveryState (pc_conn pc') = discoveryState (pc_conn pc)))"
proof -
  obtain me where me: "packetIsForMe pid (pc_conn pc) p = Some me" using packetIsForMe_some [OF wf] by blast
  let ?pc = "pc\<lparr>pc_conn := (pc_conn pc)\<lparr>numPADOs := numPADOs (pc_conn pc) + 1\<rparr>\<rparr>"
  have i0: "pc_inv (pc_conn pc) ?pc" using inv by (simp add: pc_inv_def wf_conn_upd)
  have i1: "pc_inv (pc_conn pc) pc'" if "parsePacket p parsePADOTags ?pc = Some (Inr (rc, pc'))" for rc pc'
    by (rule parsePacket_inv [where I = "pc_inv (pc_conn pc)", OF wf that i0]) (rule parsePADOTags_inv)
  obtain r where r: "parsePacket p parsePADOTags ?pc = Some r" by (rule that, rule parsePacket_walk [OF wf])
  have src: "length (h_source p) = 6" using wf by (simp add: wf_packet_def)
  show ?thesis
  proof (cases "bogus_length p len \<or> bpf \<and> etherType p \<noteq> Eth_PPPOE_Discovery (pc_conn pc) \<or> \<not> me \<or>
      code p \<noteq> CODE_PADO \<or> NOT_UNICAST (h_source p)")
    case True
    then have "pado_packet bpf pid pc p len = Some (Inr (pc, False))"
      using me unfolding pado_packet_def Let_def by auto
    then show ?thesis using inv by auto
  next
    case False
    show ?thesis
    proof (cases r)
      case (Inl x)
      then have "pado_packet bpf pid pc p len = Some (Inl x)"
        using False me r by (simp add: pado_packet_def Let_def)
      then show ?thesis by simp
    next
      case (Inr rp)
      obtain rc pc' where rp: "rp = (rc, pc')" by (cases rp)
      have i: "pc_inv (pc_conn pc) pc'" using i1 r Inr rp by simp
      have "pado_packet bpf pid pc p len = Some (Inr
          (if acNameOK pc' \<and> serviceNameOK pc' then
             (let pc = pc'\<lparr>pc_conn := (pc_conn pc')\<lparr>peerEth := h_source p\<rparr>\<rparr>
              in if printACNames (pc_conn pc) then (pc, False)
                 else (pc\<lparr>pc_conn := (pc_conn pc)\<lparr>discoveryState := STATE_RECEIVED_PADO\<rparr>\<rparr>, True))
           else (pc', False)))"
        using False me r Inr rp by (simp add: pado_packet_def Let_def) blast
      then show ?thesis
        using i src False by (simp add: pc_inv_def wf_conn_upd Let_def)
    qed
  qed
qed

definition pads_inv :: "PPPoEConnection \<Rightarrow> PPPoEConnection \<Rightarrow> bool" where
  "pads_inv c conn \<longleftrightarrow> wf_conn conn \<and> setup_of conn = setup_of c \<and> c_session conn = c_session c \<and> peerEth conn = peerEth c \<and>
     discoveryState conn = discoveryState c"

lemma parsePADSTags_inv:
  assumes "pads_inv c conn" and "length d \<le> 1490" and "parsePADSTags t (of_nat (length d)) d conn = Inr conn'"
  shows "pads_inv c conn'"
  using assms store_tag_wf [OF _ assms(2)]
  unfolding pads_inv_def parsePADSTags_def
  by (simp split: if_splits) (auto simp: wf_conn_upd wf_conn_tags)

lemma pads_packet_ok:
  assumes wf: "wf_packet p" and inv: "wf_conn conn"
  shows "\<exists>r. pads_packet bpf pid conn p len = Some r \<and> (\<forall>conn' brk. r = Inr (conn', brk) \<longrightarrow>
     wf_conn conn' \<and> setup_of conn' = setup_of conn \<and> c_session conn' = c_session conn \<and> peerEth conn' = peerEth conn \<and>
     (if brk then discoveryState conn' = STATE_SESSION \<and> peerEth conn = h_source p \<and>
        code p = CODE_PADS \<and> \<not> bogus_length p len
      else conn' = conn))"
proof -
  obtain me where me: "packetIsForMe pid conn p = Some me" using packetIsForMe_some [OF wf] by blast
  have i0: "pads_inv conn conn" using inv by (simp add: pads_inv_def)
  have i1: "pads_inv conn conn'" if "parsePacket p parsePADSTags conn = Some (Inr (rc, conn'))" for rc conn'
    by (rule parsePacket_inv [where I = "pads_inv conn", OF wf that i0]) (rule parsePADSTags_inv)
  obtain r where r: "parsePacket p parsePADSTags conn = Some r" by (rule that, rule parsePacket_walk [OF wf])
  show ?thesis
  proof (cases "bogus_length p len \<or> bpf \<and> etherType p \<noteq> Eth_PPPOE_Discovery conn \<or> \<not> me \<or>
      code p \<noteq> CODE_PADS \<or> h_source p \<noteq> peerEth conn")
    case True
    then have "pads_packet bpf pid conn p len = Some (Inr (conn, False))"
      using me by (auto simp: pads_packet_def)
    then show ?thesis using inv by auto
  next
    case False
    then have "pads_packet bpf pid conn p len = Some (case r of Inl x \<Rightarrow> Inl x
        | Inr (rc, conn') \<Rightarrow> Inr (conn'\<lparr>discoveryState := STATE_SESSION\<rparr>, True))"
      using me r by (cases r) (auto simp: pads_packet_def)
    moreover have "wf_conn conn' \<and> setup_of conn' = setup_of conn \<and> c_session conn' = c_session conn \<and>
        peerEth conn' = peerEth conn" if "r = Inr (rc, conn')" for rc conn'
      using i1 [of rc conn'] r that by (simp add: pads_inv_def)
    ultimately show ?thesis
      using False by (cases r) (auto simp: wf_conn_upd)
  qed
qed

section \<open>The wait loops\<close>

text \<open>The frames that the client acts on, as bytes on the wire.\<close>

definition offer_frame :: "byte list \<Rightarrow> byte list \<Rightarrow> bool" where
  "offer_frame f mac \<longleftrightarrow> 20 \<le> length f \<and> f ! 15 = CODE_PADO \<and> bslice f 6 6 = mac \<and> \<not> NOT_UNICAST mac"

definition confirm_frame :: "byte list \<Rightarrow> byte list \<Rightarrow> u16 \<Rightarrow> bool" where
  "confirm_frame f mac ses \<longleftrightarrow> 20 \<le> length f \<and> f ! 15 = CODE_PADS \<and> bslice f 6 6 = mac \<and>
     load16 (f ! 16) (f ! 17) = ses"

definition keeps :: "PPPoEConnection \<Rightarrow> PPPoEConnection \<Rightarrow> bool" where
  "keeps c c' \<longleftrightarrow> wf_conn c' \<and> setup_of c' = setup_of c"

lemma keeps_trans: "keeps a b \<Longrightarrow> keeps b c \<Longrightarrow> keeps a c"
  by (simp add: keeps_def)

definition pado_post :: "PPPoEConnection \<Rightarrow> dev_event list \<Rightarrow> PPPoEConnection \<Rightarrow> dev_event list \<Rightarrow> bool" where
  "pado_post c evs c' evs' \<longleftrightarrow> keeps c c' \<and> c_session c' = c_session c \<and> set evs' \<subseteq> set evs \<and>
     (discoveryState c' = discoveryState c \<or> discoveryState c' = STATE_RECEIVED_PADO \<and>
        (RecvFail \<in> set evs \<or> (\<exists>f. Frame f \<in> set evs \<and> offer_frame f (peerEth c'))))"

lemma pado_post_step:
  assumes "pado_post c1 evs c' evs'" and "keeps c c1" and "c_session c1 = c_session c" and "discoveryState c1 = discoveryState c"
  shows "pado_post c (e # evs) c' evs'"
  using assms keeps_trans [of c c1 c'] unfolding pado_post_def by (metis insert_iff list.set(2) subset_insertI2)

lemma waitForPADO_loop_ok:
  assumes "wf_packet p" and "wf_conn (pc_conn pc)" and "discoveryState (pc_conn pc) \<noteq> STATE_RECEIVED_PADO"
  shows "\<exists>acts r. waitForPADO_loop bpf pid timeout pc p evs = Some (acts, r) \<and> set acts \<subseteq> {Select timeout} \<and>
    (\<forall>c' evs'. r = Inr (c', evs') \<longrightarrow> pado_post (pc_conn pc) evs c' evs')"
  using assms
proof (induction evs arbitrary: pc p)
  case Nil
  then show ?case by (simp add: pado_post_def keeps_def)
next
  case (Cons ev evs)
  show ?case
  proof (cases "ev = Timeout")
    case True
    then show ?thesis using Cons.prems by (auto simp: pado_post_def keeps_def)
  next
    case False
    obtain q len where q: "wait_receive p ev = (q, len)" by fastforce
    have wq: "wf_packet q" using wait_receive_wf [OF Cons.prems(1), of ev] q by simp
    obtain r where r: "pado_packet bpf pid pc q len = Some r"
      and post: "\<And>pc' brk. r = Inr (pc', brk) \<Longrightarrow>
     wf_conn (pc_conn pc') \<and> setup_of (pc_conn pc') = setup_of (pc_conn pc) \<and> c_session (pc_conn pc') = c_session (pc_conn pc) \<and>
     (if brk then discoveryState (pc_conn pc') = STATE_RECEIVED_PADO \<and> peerEth (pc_conn pc') = h_source q \<and>
        code q = CODE_PADO \<and> \<not> NOT_UNICAST (h_source q) \<and> \<not> bogus_length q len
      else discoveryState (pc_conn pc') = discoveryState (pc_conn pc))"
      using pado_packet_ok [OF wq Cons.prems(2), of bpf pid len] by blast
    have step: "waitForPADO_loop bpf pid timeout pc p (ev # evs) = (case r of
           Inl x \<Rightarrow> Some ([Select timeout], Inl x)
         | Inr (pc, brk) \<Rightarrow>
             if brk \<or> discoveryState (pc_conn pc) = STATE_RECEIVED_PADO then Some ([Select timeout], Inr (pc_conn pc, evs))
             else map_option (\<lambda>(acts, r). (Select timeout # acts, r)) (waitForPADO_loop bpf pid timeout pc q evs))"
      using False q r by (cases ev) simp_all
    show ?thesis
    proof (cases r)
      case (Inl x)
      then show ?thesis using step by simp
    next
      case (Inr pb)
      obtain pc' brk where pb: "pb = (pc', brk)" by (cases pb)
      note P = post [OF Inr [unfolded pb]]
      show ?thesis
      proof (cases brk)
        case True
        have ev: "RecvFail \<in> set (ev # evs) \<or> (\<exists>f. Frame f \<in> set (ev # evs) \<and> offer_frame f (peerEth (pc_conn pc')))"
        proof (cases ev)
          case (Frame f)
          then have "receivePacket p f = (q, len)" using q by (simp add: wait_receive_def)
          from received_header [OF Cons.prems(1) this] True P Frame show ?thesis
            unfolding offer_frame_def by (auto intro!: exI [of _ f])
        qed (use False in auto)
        have "waitForPADO_loop bpf pid timeout pc p (ev # evs) = Some ([Select timeout], Inr (pc_conn pc', evs))"
          using step Inr pb True by simp
        then show ?thesis using P True ev by (auto simp: pado_post_def keeps_def)
      next
        case nb: False
        have d: "discoveryState (pc_conn pc') \<noteq> STATE_RECEIVED_PADO" using P nb Cons.prems(3) by simp
        obtain acts r' where l: "waitForPADO_loop bpf pid timeout pc' q evs = Some (acts, r')" "set acts \<subseteq> {Select timeout}"
          "\<And>c' evs'. r' = Inr (c', evs') \<Longrightarrow> pado_post (pc_conn pc') evs c' evs'"
          using Cons.IH [OF wq _ d] P by blast
        have "waitForPADO_loop bpf pid timeout pc p (ev # evs) = Some (Select timeout # acts, r')"
          using step Inr pb nb d l(1) by simp
        moreover have "pado_post (pc_conn pc) (ev # evs) c' evs'" if "r' = Inr (c', evs')" for c' evs'
          by (rule pado_post_step [OF l(3) [OF that]]) (use P nb in \<open>simp_all add: keeps_def\<close>)
        ultimately show ?thesis using l(2) by simp
      qed
    qed
  qed
qed

definition pads_post :: "PPPoEConnection \<Rightarrow> dev_event list \<Rightarrow> PPPoEConnection \<Rightarrow> dev_event list \<Rightarrow> bool" where
  "pads_post c evs c' evs' \<longleftrightarrow> keeps c c' \<and> peerEth c' = peerEth c \<and> set evs' \<subseteq> set evs \<and>
     (c' = c \<or> discoveryState c' = STATE_SESSION \<and>
        (RecvFail \<in> set evs \<or> (\<exists>f. Frame f \<in> set evs \<and> confirm_frame f (peerEth c') (c_session c'))))"

lemma pads_post_step: "pads_post c evs c' evs' \<Longrightarrow> pads_post c (e # evs) c' evs'"
  by (auto simp: pads_post_def)

lemma waitForPADS_loop_ok:
  assumes "wf_packet p" and "wf_conn conn" and "discoveryState conn \<noteq> STATE_SESSION"
  shows "\<exists>acts r. waitForPADS_loop bpf pid timeout conn p evs = Some (acts, r) \<and> set acts \<subseteq> {Select timeout} \<and>
    (\<forall>c' evs'. r = Inr (c', evs') \<longrightarrow> pads_post conn evs c' evs')"
  using assms
proof (induction evs arbitrary: p)
  case Nil
  then show ?case by (simp add: pads_post_def keeps_def)
next
  case (Cons ev evs)
  show ?case
  proof (cases "ev = Timeout")
    case True
    then show ?thesis using Cons.prems by (auto simp: pads_post_def keeps_def)
  next
    case False
    obtain q len where q: "wait_receive p ev = (q, len)" by fastforce
    have wq: "wf_packet q" using wait_receive_wf [OF Cons.prems(1), of ev] q by simp
    obtain r where r: "pads_packet bpf pid conn q len = Some r"
      and post: "\<And>c' brk. r = Inr (c', brk) \<Longrightarrow>
     wf_conn c' \<and> setup_of c' = setup_of conn \<and> c_session c' = c_session conn \<and> peerEth c' = peerEth conn \<and>
     (if brk then discoveryState c' = STATE_SESSION \<and> peerEth conn = h_source q \<and>
        code q = CODE_PADS \<and> \<not> bogus_length q len
      else c' = conn)"
      using pads_packet_ok [OF wq Cons.prems(2), of bpf pid len] by blast
    have step: "waitForPADS_loop bpf pid timeout conn p (ev # evs) = (case r of
           Inl x \<Rightarrow> Some ([Select timeout], Inl x)
         | Inr (c', brk) \<Rightarrow>
             if brk \<or> discoveryState c' = STATE_SESSION then Some ([Select timeout], Inr (c'\<lparr>c_session := session q\<rparr>, evs))
             else map_option (\<lambda>(acts, r). (Select timeout # acts, r)) (waitForPADS_loop bpf pid timeout c' q evs))"
      using False q r by (cases ev) simp_all
    show ?thesis
    proof (cases r)
      case (Inl x)
      then show ?thesis using step by simp
    next
      case (Inr pb)
      obtain c1 brk where pb: "pb = (c1, brk)" by (cases pb)
      note P = post [OF Inr [unfolded pb]]
      show ?thesis
      proof (cases brk)
        case True
        have ev: "RecvFail \<in> set (ev # evs) \<or> (\<exists>f. Frame f \<in> set (ev # evs) \<and> confirm_frame f (peerEth c1) (session q))"
        proof (cases ev)
          case (Frame f)
          then have "receivePacket p f = (q, len)" using q by (simp add: wait_receive_def)
          from received_header [OF Cons.prems(1) this] True P Frame show ?thesis
            unfolding confirm_frame_def by (auto intro!: exI [of _ f])
        qed (use False in auto)
        have "waitForPADS_loop bpf pid timeout conn p (ev # evs) = Some ([Select timeout], Inr (c1\<lparr>c_session := session q\<rparr>, evs))"
          using step Inr pb True by simp
        then show ?thesis using P True ev by (auto simp: pads_post_def keeps_def wf_conn_upd)
      next
        case nb: False
        have c1: "c1 = conn" using P nb by simp
        obtain acts r' where l: "waitForPADS_loop bpf pid timeout conn q evs = Some (acts, r')" "set acts \<subseteq> {Select timeout}"
          "\<And>c' evs'. r' = Inr (c', evs') \<Longrightarrow> pads_post conn evs c' evs'"
          using Cons.IH [OF wq] Cons.prems by blast
        have "waitForPADS_loop bpf pid timeout conn p (ev # evs) = Some (Select timeout # acts, r')"
          using step Inr pb nb c1 Cons.prems(3) l(1) by simp
        then show ?thesis using l(2,3) pads_post_step by auto
      qed
    qed
  qed
qed

section \<open>The discovery phase\<close>

fun txs :: "action list \<Rightarrow> frame list" where
  "txs [] = []"
| "txs (Tx f # as) = f # txs as"
| "txs (Select t # as) = txs as"
| "txs (Write bs # as) = txs as"

fun waits :: "action list \<Rightarrow> nat list" where
  "waits [] = []"
| "waits (Tx f # as) = waits as"
| "waits (Select t # as) = t # waits as"
| "waits (Write bs # as) = waits as"

lemma txs_append [simp]: "txs (as @ bs) = txs as @ txs bs" "waits (as @ bs) = waits as @ waits bs"
  by (induction "as" rule: txs.induct; simp)+

lemma txs_map [simp]: "txs (map Tx fs) = fs" "waits (map Tx fs) = []"
  by (induction fs) simp_all

lemma select_only: "set acts \<subseteq> {Select t} \<Longrightarrow> txs acts = [] \<and> set (waits acts) \<subseteq> {t}"
  by (induction acts rule: txs.induct) auto

definition padi_sent :: "u32 \<Rightarrow> PPPoEConnection \<Rightarrow> frame" where
  "padi_sent pid conn = Sent (discoverySocket conn) (pppoe_frame (replicate 6 0xFF) (myEth conn)
     (Eth_PPPOE_Discovery conn) CODE_PADI 0 (padi_tags pid conn))"

lemma setup_padi:
  assumes "setup_of c' = setup_of c"
  shows "padi_sent pid c' = padi_sent pid c" and "service_tag c' = service_tag c" and "printACNames c' = printACNames c"
  using assms by (simp_all add: padi_sent_def padi_tags_def service_tag_def uniq_tags_def setup_of_def)

lemma then_do_Inr [simp]:
  "then_do (Some (acts, Inr a)) k = map_option (\<lambda>(acts', r'). (acts @ acts', r')) (k a)"
  "then_do (Some (acts, Inl x)) k = Some (acts, Inl x)"
  by (simp_all add: then_do_def)

lemma rp_fatal_quiet: "c_session conn = 0 \<Longrightarrow> rp_fatal u pid conn str = Some ([], Inl 1)"
  by (simp add: rp_fatal_def sendPADT_def)

definition padi_post :: "u32 \<Rightarrow> nat \<Rightarrow> nat \<Rightarrow> PPPoEConnection \<Rightarrow> dev_event list \<Rightarrow> action list \<Rightarrow> int + PPPoEConnection \<times> dev_event list \<Rightarrow> bool" where
  "padi_post pid m timeout conn evs acts r \<longleftrightarrow> length (txs acts) \<le> m \<and> set (txs acts) \<subseteq> {padi_sent pid conn} \<and>
     set (waits acts) \<subseteq> {timeout * 2 ^ k |k. k < m} \<and>
     (\<forall>c' evs'. r = Inr (c', evs') \<longrightarrow> keeps conn c' \<and> c_session c' = 0 \<and> set evs' \<subseteq> set evs \<and>
        (printACNames c' \<or> discoveryState c' = STATE_RECEIVED_PADO \<and>
           (RecvFail \<in> set evs \<or> (\<exists>f. Frame f \<in> set evs \<and> offer_frame f (peerEth c')))))"

lemma times_pow_step: "m > 0 \<Longrightarrow> {(timeout * 2) * 2 ^ k |k. k < m - 1} \<union> {timeout} \<subseteq> {timeout * 2 ^ k |k. k < (m :: nat)}"
  for timeout :: nat
proof (intro subsetI, elim UnE)
  fix x assume "m > 0" "x \<in> {(timeout * 2) * 2 ^ k |k. k < m - 1}"
  then obtain k where "x = (timeout * 2) * 2 ^ k" "k < m - 1" by blast
  then have "x = timeout * 2 ^ Suc k" "Suc k < m" by auto
  then show "x \<in> {timeout * 2 ^ k |k. k < m}" by blast
next
  fix x assume "m > 0" "x \<in> {timeout}"
  then show "x \<in> {timeout * 2 ^ k |k. k < m}" by (auto intro!: exI [of _ 0])
qed

lemma pow_step_mono: "m > 0 \<Longrightarrow> {timeout * 2 ^ k |k. k < m - 1} \<union> {timeout} \<subseteq> {timeout * 2 ^ k |k. k < (m :: nat)}"
  for timeout :: nat
proof (intro subsetI, elim UnE)
  fix x assume "m > 0" "x \<in> {timeout}"
  then show "x \<in> {timeout * 2 ^ k |k. k < m}" by (auto intro!: exI [of _ 0])
qed (blast intro: less_imp_diff_less less_le_trans diff_le_self)

lemma padi_loop_ok:
  assumes "wf_packet u" and "wf_conn conn" and "c_session conn = 0" and "length (snd (service_tag conn)) \<le> 1490" and "n \<le> 3"
  shows "\<exists>acts r. padi_loop bpf u pid n timeout conn evs = Some (acts, r) \<and> padi_post pid (3 - n) timeout conn evs acts r"
  using assms
proof (induction "3 - n" arbitrary: n timeout conn evs)
  case 0
  then have "n = 3" by simp
  have "padi_loop bpf u pid n timeout conn evs = Some ([], Inl 1)"
    by (subst padi_loop.simps) (simp add: \<open>n = 3\<close> rp_fatal_quiet [OF 0(4)])
  then show ?case by (simp add: padi_post_def)
next
  case (Suc m)
  have n: "Suc n \<le> 3" and m: "m = 3 - (Suc n)" and mn: "3 - n = Suc m" using Suc(2) by simp_all
  define c0 where "c0 = conn\<lparr>discoveryState := STATE_SENT_PADI\<rparr>"
  have c0: "wf_conn c0" "setup_of c0 = setup_of conn" "c_session c0 = 0" "discoveryState c0 = 0"
    using Suc.prems by (simp_all add: c0_def wf_conn_upd)
  have me: "length (myEth conn) = 6" using Suc.prems(2) by (simp add: wf_conn_def)
  define fs where "fs = (if length (encode_tags (padi_tags pid conn)) \<le> 1494 then [padi_sent pid conn] else [])"
  have fs: "sendPADI u pid conn = Some fs" "length fs \<le> 1" "set fs \<subseteq> {padi_sent pid conn}"
    using sendPADI_eq [OF Suc.prems(1) me Suc.prems(4), of pid] by (auto simp: fs_def padi_sent_def)
  obtain as r where w: "waitForPADO bpf u pid c0 timeout evs = Some (as, r)" "set as \<subseteq> {Select timeout}"
    "\<And>c' evs'. r = Inr (c', evs') \<Longrightarrow> pado_post c0 evs c' evs'"
    using waitForPADO_loop_ok [OF Suc.prems(1), of "\<lparr>pc_conn = c0, acNameOK = (acName c0 = None), serviceNameOK = (serviceName c0 = None)\<rparr>" bpf pid timeout evs]
      c0 by (auto simp: waitForPADO_def)
  have wt: "txs as = []" "set (waits as) \<subseteq> {timeout}" using select_only [OF w(2)] by auto
  let ?k = "\<lambda>(conn, evs). let timeout = (if \<not> printACNames conn then timeout * 2 else timeout)
                   in if printACNames conn \<and> numPADOs conn > 0 then Some ([], Inr (conn, evs))
                      else if discoveryState conn = STATE_SENT_PADI then padi_loop bpf u pid (Suc n) timeout conn evs
                      else Some ([], Inr (conn, evs))"
  have step: "padi_loop bpf u pid n timeout conn evs = map_option (\<lambda>(acts', r'). (map Tx fs @ acts', r')) (then_do (Some (as, r)) ?k)"
    using n w(1) [unfolded c0_def] by (subst padi_loop.simps) (simp add: Let_def sends_def fs(1))
  have t0: "timeout \<in> {timeout * 2 ^ k |k. k < Suc m}" by (auto intro!: exI [of _ 0])
  have ws: "set (waits as) \<subseteq> {timeout * 2 ^ k |k. k < Suc m}" using wt(2) t0 by blast
  show ?case
  proof (cases r)
    case (Inl x)
    have "padi_loop bpf u pid n timeout conn evs = Some (map Tx fs @ as, Inl x)" unfolding step Inl by simp
    moreover have "padi_post pid (3 - n) timeout conn evs (map Tx fs @ as) (Inl x)"
      using fs(2,3) wt(1) ws unfolding mn padi_post_def by (simp add: le_SucI)
    ultimately show ?thesis by blast
  next
    case (Inr ce)
    obtain c1 evs1 where ce: "ce = (c1, evs1)" by (cases ce)
    have post: "pado_post c0 evs c1 evs1" using w(3) Inr ce by blast
    have c1: "wf_conn c1" "setup_of c1 = setup_of conn" "c_session c1 = 0" "set evs1 \<subseteq> set evs"
      using post c0 by (simp_all add: pado_post_def keeps_def)
    show ?thesis
    proof (cases "\<not> (printACNames c1 \<and> numPADOs c1 > 0) \<and> discoveryState c1 = STATE_SENT_PADI")
      case False
      then have "padi_loop bpf u pid n timeout conn evs = Some (map Tx fs @ as, Inr (c1, evs1))"
        unfolding step Inr ce by (auto simp: Let_def)
      moreover have "printACNames c1 \<or> discoveryState c1 = STATE_RECEIVED_PADO \<and>
           (RecvFail \<in> set evs \<or> (\<exists>f. Frame f \<in> set evs \<and> offer_frame f (peerEth c1)))"
        using False post c0(4) unfolding pado_post_def by auto
      then have "padi_post pid (3 - n) timeout conn evs (map Tx fs @ as) (Inr (c1, evs1))"
        using fs(2,3) wt(1) ws c1 unfolding mn padi_post_def keeps_def by (simp add: le_SucI)
      ultimately show ?thesis by blast
    next
      case True
      let ?t = "if \<not> printACNames c1 then timeout * 2 else timeout"
      have "length (snd (service_tag c1)) \<le> 1490" using Suc.prems(4) setup_padi(2) [OF c1(2)] by simp
      then obtain acts r' where l: "padi_loop bpf u pid (Suc n) ?t c1 evs1 = Some (acts, r')"
        and lp: "padi_post pid (3 - (Suc n)) ?t c1 evs1 acts r'"
        using Suc.hyps(1) [OF m Suc.prems(1) c1(1,3) _ n] by blast
      have e: "padi_loop bpf u pid n timeout conn evs = Some (map Tx fs @ as @ acts, r')"
        unfolding step Inr ce using True l by (auto simp: Let_def)
      have tt: "{?t * 2 ^ k |k. k < m} \<union> {timeout} \<subseteq> {timeout * 2 ^ k |k. k < Suc m}"
        using times_pow_step [of "Suc m" timeout] pow_step_mono [of "Suc m" timeout] by (cases "printACNames c1") simp_all
      have "set (waits (map Tx fs @ as @ acts)) \<subseteq> {timeout * 2 ^ k |k. k < Suc m}"
        using tt wt(2) lp unfolding padi_post_def m [symmetric] by (simp, blast)
      moreover have "set (txs (map Tx fs @ as @ acts)) \<subseteq> {padi_sent pid conn}" "length (txs (map Tx fs @ as @ acts)) \<le> Suc m"
        using fs wt(1) lp setup_padi(1) [OF c1(2)] unfolding padi_post_def m [symmetric] by auto
      moreover have "keeps conn c' \<and> c_session c' = 0 \<and> set evs' \<subseteq> set evs \<and>
        (printACNames c' \<or> discoveryState c' = STATE_RECEIVED_PADO \<and>
           (RecvFail \<in> set evs \<or> (\<exists>f. Frame f \<in> set evs \<and> offer_frame f (peerEth c'))))" if "r' = Inr (c', evs')" for c' evs'
        using lp that c1(2,4) unfolding padi_post_def keeps_def by auto
      ultimately show ?thesis using e unfolding mn padi_post_def by blast
    qed
  qed
qed

definition padr_sent :: "u32 \<Rightarrow> PPPoEConnection \<Rightarrow> frame" where
  "padr_sent pid conn = Sent (discoverySocket conn) (pppoe_frame (peerEth conn) (myEth conn)
     (Eth_PPPOE_Discovery conn) CODE_PADR 0 (padr_tags pid conn))"

definition padr_post :: "u32 \<Rightarrow> nat \<Rightarrow> nat \<Rightarrow> PPPoEConnection \<Rightarrow> dev_event list \<Rightarrow> action list \<Rightarrow> int + PPPoEConnection \<times> dev_event list \<Rightarrow> bool" where
  "padr_post pid m timeout conn evs acts r \<longleftrightarrow> length (txs acts) \<le> m \<and> set (txs acts) \<subseteq> {padr_sent pid conn} \<and>
     set (waits acts) \<subseteq> {timeout * 2 ^ k |k. k < m} \<and>
     (\<forall>c' evs'. r = Inr (c', evs') \<longrightarrow> keeps conn c' \<and> peerEth c' = peerEth conn \<and> set evs' \<subseteq> set evs \<and>
        discoveryState c' = STATE_SESSION \<and>
        (RecvFail \<in> set evs \<or> (\<exists>f. Frame f \<in> set evs \<and> confirm_frame f (peerEth c') (c_session c'))))"

lemma padr_sent_state [simp]: "padr_sent pid (c\<lparr>discoveryState := k\<rparr>) = padr_sent pid c"
    "service_tag (c\<lparr>discoveryState := k\<rparr>) = service_tag c"
  by (simp_all add: padr_sent_def padr_tags_def padi_tags_def uniq_tags_def service_tag_def)

lemma padr_loop_ok:
  assumes "wf_packet u" and "wf_conn conn" and "c_session conn = 0" and "length (snd (service_tag conn)) \<le> 1490" and "n \<le> 3"
  shows "\<exists>acts r. padr_loop bpf u pid n timeout conn evs = Some (acts, r) \<and> padr_post pid (3 - n) timeout conn evs acts r"
  using assms
proof (induction "3 - n" arbitrary: n timeout conn evs)
  case 0
  then have "n = 3" by simp
  have "padr_loop bpf u pid n timeout conn evs = Some ([], Inl 1)"
    by (subst padr_loop.simps) (simp add: \<open>n = 3\<close> rp_fatal_quiet [OF 0(4)])
  then show ?case by (simp add: padr_post_def)
next
  case (Suc m)
  have n: "Suc n \<le> 3" and m: "m = 3 - Suc n" and mn: "3 - n = Suc m" using Suc(2) by simp_all
  define c0 where "c0 = conn\<lparr>discoveryState := STATE_SENT_PADR\<rparr>"
  have c0: "wf_conn c0" "setup_of c0 = setup_of conn" "c_session c0 = 0" "discoveryState c0 = 2" "peerEth c0 = peerEth conn"
      "padr_sent pid c0 = padr_sent pid conn" "length (snd (service_tag c0)) \<le> 1490"
    using Suc.prems by (simp_all add: c0_def wf_conn_upd)
  define fs where "fs = (if length (encode_tags (padr_tags pid conn)) \<le> 1494 then [padr_sent pid conn] else [])"
  have fs: "sendPADR u pid conn = Some fs" "length fs \<le> 1" "set fs \<subseteq> {padr_sent pid conn}"
    using sendPADR_eq [OF Suc.prems(1,2,4), of pid] by (auto simp: fs_def padr_sent_def)
  obtain as r where w: "waitForPADS bpf u pid c0 timeout evs = Some (as, r)" "set as \<subseteq> {Select timeout}"
    "\<And>c' evs'. r = Inr (c', evs') \<Longrightarrow> pads_post c0 evs c' evs'"
    using waitForPADS_loop_ok [OF Suc.prems(1) c0(1), of bpf pid timeout evs] c0(4) by (auto simp: waitForPADS_def)
  have wt: "txs as = []" "set (waits as) \<subseteq> {timeout}" using select_only [OF w(2)] by auto
  let ?k = "\<lambda>(conn, evs). let timeout = timeout * 2
                   in if discoveryState conn = STATE_SENT_PADR then padr_loop bpf u pid (Suc n) timeout conn evs
                      else Some ([], Inr (conn, evs))"
  have step: "padr_loop bpf u pid n timeout conn evs = map_option (\<lambda>(acts', r'). (map Tx fs @ acts', r')) (then_do (Some (as, r)) ?k)"
    using n w(1) [unfolded c0_def] by (subst padr_loop.simps) (simp add: Let_def sends_def fs(1))
  have t0: "timeout \<in> {timeout * 2 ^ k |k. k < Suc m}" by (auto intro!: exI [of _ 0])
  have ws: "set (waits as) \<subseteq> {timeout * 2 ^ k |k. k < Suc m}" using wt(2) t0 by blast
  show ?case
  proof (cases r)
    case (Inl x)
    have "padr_loop bpf u pid n timeout conn evs = Some (map Tx fs @ as, Inl x)" unfolding step Inl by simp
    moreover have "padr_post pid (3 - n) timeout conn evs (map Tx fs @ as) (Inl x)"
      using fs(2,3) wt(1) ws unfolding mn padr_post_def by (simp add: le_SucI)
    ultimately show ?thesis by blast
  next
    case (Inr ce)
    obtain c1 evs1 where ce: "ce = (c1, evs1)" by (cases ce)
    have post: "pads_post c0 evs c1 evs1" using w(3) Inr ce by blast
    have c1: "keeps conn c1" "peerEth c1 = peerEth conn" "set evs1 \<subseteq> set evs"
      using post c0 by (simp_all add: pads_post_def keeps_def)
    show ?thesis
    proof (cases "discoveryState c1 = STATE_SENT_PADR")
      case False
      then have "padr_loop bpf u pid n timeout conn evs = Some (map Tx fs @ as, Inr (c1, evs1))"
        unfolding step Inr ce by (simp add: Let_def)
      moreover have "discoveryState c1 = STATE_SESSION \<and>
           (RecvFail \<in> set evs \<or> (\<exists>f. Frame f \<in> set evs \<and> confirm_frame f (peerEth c1) (c_session c1)))"
        using False post c0(4) unfolding pads_post_def by auto
      then have "padr_post pid (3 - n) timeout conn evs (map Tx fs @ as) (Inr (c1, evs1))"
        using fs(2,3) wt(1) ws c1 unfolding mn padr_post_def by (simp add: le_SucI)
      ultimately show ?thesis by blast
    next
      case True
      then have same: "c1 = c0" using post unfolding pads_post_def by auto
      obtain acts r' where l: "padr_loop bpf u pid (Suc n) (timeout * 2) c0 evs1 = Some (acts, r')"
        and lp: "padr_post pid (3 - Suc n) (timeout * 2) c0 evs1 acts r'"
        using Suc.hyps(1) [OF m Suc.prems(1) c0(1,3,7) n] by blast
      have e: "padr_loop bpf u pid n timeout conn evs = Some (map Tx fs @ as @ acts, r')"
        unfolding step Inr ce using True l same by (simp add: Let_def)
      have tt: "{(timeout * 2) * 2 ^ k |k. k < m} \<union> {timeout} \<subseteq> {timeout * 2 ^ k |k. k < Suc m}"
        using times_pow_step [of "Suc m" timeout] by simp
      have "set (waits (map Tx fs @ as @ acts)) \<subseteq> {timeout * 2 ^ k |k. k < Suc m}"
        using tt wt(2) lp unfolding padr_post_def m [symmetric] by (simp, blast)
      moreover have "set (txs (map Tx fs @ as @ acts)) \<subseteq> {padr_sent pid conn}" "length (txs (map Tx fs @ as @ acts)) \<le> Suc m"
        using fs wt(1) lp c0(6) unfolding padr_post_def m [symmetric] by auto
      moreover have "keeps conn c' \<and> peerEth c' = peerEth conn \<and> set evs' \<subseteq> set evs \<and> discoveryState c' = STATE_SESSION \<and>
        (RecvFail \<in> set evs \<or> (\<exists>f. Frame f \<in> set evs \<and> confirm_frame f (peerEth c') (c_session c')))"
        if "r' = Inr (c', evs')" for c' evs'
        using lp that c0(2,5) c1(3) unfolding padr_post_def keeps_def by auto
      ultimately show ?thesis using e unfolding mn padr_post_def by blast
    qed
  qed
qed

section \<open>Properties of discovery\<close>

definition blank_tag :: PPPoETag where
  "blank_tag = \<lparr>ttype = 0, tlength = 0, tpayload = replicate 1500 0\<rparr>"

definition sample_conn :: PPPoEConnection where
  "sample_conn = \<lparr>discoveryState = 0, discoverySocket = -1, sessionSocket = -1, myEth = replicate 6 0,
     peerEth = replicate 6 0, c_session = 0, ifName = ''eth0'', serviceName = None, acName = None, synchronous = False,
     useHostUniq = True, printACNames = False, skipDiscovery = False, killSession = False, numPADOs = 0,
     cookie = blank_tag, relayId = blank_tag, Eth_PPPOE_Discovery = ETH_PPPOE_DISCOVERY, Eth_PPPOE_Session = ETH_PPPOE_SESSION\<rparr>"

definition sample_open :: "string \<Rightarrow> u16 \<Rightarrow> int \<times> byte list" where
  "sample_open n t = (7, [2, 0, 0, 0, 0, 1])"

text \<open>The connection of the discovery phase: opened on the discovery socket.\<close>

definition disc_opened :: "(string \<Rightarrow> u16 \<Rightarrow> int \<times> byte list) \<Rightarrow> PPPoEConnection \<Rightarrow> PPPoEConnection" where
  "disc_opened openi conn = conn\<lparr>discoverySocket := fst (openi (ifName conn) (Eth_PPPOE_Discovery conn)),
     myEth := snd (openi (ifName conn) (Eth_PPPOE_Discovery conn))\<rparr>"

lemma replicate_set: "set xs \<subseteq> {x} \<Longrightarrow> xs = replicate (length xs) x"
  by (induction xs) auto

lemma discovery_total:
  assumes "wf_packet u" and "\<forall>n t. length (snd (openi n t)) = 6" and "wf_conn conn" and "c_session conn = 0"
    and "\<not> skipDiscovery conn" and "case serviceName conn of None \<Rightarrow> True | Some n \<Rightarrow> length n \<le> 1490"
  shows "\<exists>acts r m n c. discovery bpf openi u pid conn evs = Some (acts, r) \<and> m \<le> 3 \<and> n \<le> 3 \<and>
    txs acts = replicate m (padi_sent pid (disc_opened openi conn)) @ replicate n (padr_sent pid c) \<and>
    set (waits acts) \<subseteq> {5, 10, 20} \<and>
    (\<forall>c' evs'. r = Inr (c', evs') \<longrightarrow> wf_conn c' \<and> discoveryState c' = STATE_SESSION \<and> peerEth c' = peerEth c \<and> (RecvFail \<notin> set evs \<longrightarrow>
       (\<exists>f. Frame f \<in> set evs \<and> offer_frame f (peerEth c')) \<and>
       (\<exists>f. Frame f \<in> set evs \<and> confirm_frame f (peerEth c') (c_session c'))))"
proof -
  obtain sock mac where o: "openi (ifName conn) (Eth_PPPOE_Discovery conn) = (sock, mac)" by fastforce
  have mac: "length mac = 6" using assms(2) o by (metis snd_conv)
  define c0 where "c0 = conn\<lparr>discoverySocket := sock, myEth := mac\<rparr>"
  have c0_open: "c0 = disc_opened openi conn" by (simp add: c0_def disc_opened_def o)
  have c0: "wf_conn c0" "c_session c0 = 0" "length (snd (service_tag c0)) \<le> 1490"
    using assms mac by (auto simp: c0_def wf_conn_def service_tag_def split: option.splits)
  obtain a1 r1 where p: "padi_loop bpf u pid 0 PADI_TIMEOUT c0 evs = Some (a1, r1)" "padi_post pid 3 PADI_TIMEOUT c0 evs a1 r1"
    using padi_loop_ok [OF assms(1) c0, of 0 bpf pid PADI_TIMEOUT evs] by auto
  have tw: "{5 * 2 ^ k |k. k < (3::nat)} \<subseteq> {5, 10, 20 :: nat}"
    by (auto simp: less_Suc_eq numeral_3_eq_3)
  let ?k = "\<lambda>(conn, evs). if printACNames conn then Some ([], Inl 0)
           else then_do (padr_loop bpf u pid 0 PADI_TIMEOUT conn evs) (\<lambda>(conn, evs).
             Some ([], Inr (conn\<lparr>discoveryState := STATE_SESSION\<rparr>, evs)))"
  have d: "discovery bpf openi u pid conn evs = then_do (Some (a1, r1)) ?k"
    using assms(5) o p(1) by (simp add: discovery_def c0_def)
  have w1: "length (txs a1) \<le> 3" "set (waits a1) \<subseteq> {5, 10, 20}"
    by (use p(2) in \<open>simp add: padi_post_def\<close>, rule order_trans [OF _ tw], use p(2) in \<open>simp add: padi_post_def\<close>)
  have t1: "txs a1 = replicate (length (txs a1)) (padi_sent pid c0)"
    by (rule replicate_set) (use p(2) in \<open>simp add: padi_post_def\<close>)
  have only: ?thesis if "discovery bpf openi u pid conn evs = Some (a1, Inl x)" for x
    unfolding c0_open [symmetric] using that w1 t1
    by (intro exI [of _ a1] exI [of _ "Inl x"] exI [of _ "length (txs a1)"] exI [of _ 0] exI [of _ c0]) simp
  show ?thesis
  proof (cases r1)
    case (Inl x)
    then show ?thesis using d only by simp
  next
    case (Inr ce)
    obtain c1 evs1 where ce: "ce = (c1, evs1)" by (cases ce)
    have P: "keeps c0 c1" "c_session c1 = 0" "set evs1 \<subseteq> set evs" "printACNames c1 \<or> discoveryState c1 = STATE_RECEIVED_PADO \<and>
           (RecvFail \<in> set evs \<or> (\<exists>f. Frame f \<in> set evs \<and> offer_frame f (peerEth c1)))"
      using p(2) Inr ce unfolding padi_post_def by auto
    show ?thesis
    proof (cases "printACNames c1")
      case True
      then show ?thesis using d only Inr ce by simp
    next
      case False
      have "wf_conn c1" "length (snd (service_tag c1)) \<le> 1490"
        using P(1) c0(3) setup_padi(2) [of c1 c0] by (auto simp: keeps_def)
      then obtain a2 r2 where q: "padr_loop bpf u pid 0 PADI_TIMEOUT c1 evs1 = Some (a2, r2)" "padr_post pid 3 PADI_TIMEOUT c1 evs1 a2 r2"
        using padr_loop_ok [OF assms(1) _ P(2), of 0 bpf pid PADI_TIMEOUT evs1] by auto
      have w2: "length (txs a2) \<le> 3" "set (waits a2) \<subseteq> {5, 10, 20}"
        by (use q(2) in \<open>simp add: padr_post_def\<close>, rule order_trans [OF _ tw], use q(2) in \<open>simp add: padr_post_def\<close>)
      have "txs a2 = replicate (length (txs a2)) (padr_sent pid c1)"
        by (rule replicate_set) (use q(2) in \<open>simp add: padr_post_def\<close>)
      then have t: "txs (a1 @ a2) = replicate (length (txs a1)) (padi_sent pid c0) @ replicate (length (txs a2)) (padr_sent pid c1)"
        using t1 by simp
      have w: "set (waits (a1 @ a2)) \<subseteq> {5, 10, 20}" using w1(2) w2(2) by simp
      show ?thesis
      proof (cases r2)
        case (Inl x)
        then have "discovery bpf openi u pid conn evs = Some (a1 @ a2, Inl x)" using d Inr ce False q(1) by simp
        then show ?thesis unfolding c0_open [symmetric] using t w w1(1) w2(1) by blast
      next
        case r2: (Inr ce2)
        obtain c2 evs2 where ce2: "ce2 = (c2, evs2)" by (cases ce2)
        have Q: "peerEth c2 = peerEth c1" "wf_conn c2" "RecvFail \<in> set evs1 \<or> (\<exists>f. Frame f \<in> set evs1 \<and> confirm_frame f (peerEth c2) (c_session c2))"
          using q(2) r2 ce2 unfolding padr_post_def keeps_def by auto
        have "discovery bpf openi u pid conn evs = Some (a1 @ a2, Inr (c2\<lparr>discoveryState := STATE_SESSION\<rparr>, evs2))"
          using d Inr ce False q(1) r2 ce2 by simp
        moreover have "RecvFail \<notin> set evs \<longrightarrow> (\<exists>f. Frame f \<in> set evs \<and> offer_frame f (peerEth c2)) \<and>
            (\<exists>f. Frame f \<in> set evs \<and> confirm_frame f (peerEth c2) (c_session c2))"
          using P(3,4) False Q by auto
        ultimately show ?thesis
          unfolding c0_open [symmetric] using t w w1(1) w2(1) Q(1,2)
          by (intro exI [of _ "a1 @ a2"] exI [of _ "Inr (c2\<lparr>discoveryState := STATE_SESSION\<rparr>, evs2)"] exI [of _ "length (txs a1)"]
              exI [of _ "length (txs a2)"] exI [of _ c1]) (simp add: wf_conn_upd)
      qed
    qed
  qed
qed


lemma wf_sample_conn: "wf_conn sample_conn"
  by (simp add: wf_conn_def sample_conn_def blank_tag_def wf_tag_def tag_len_def)


text \<open>
  When nobody answers, the client sends exactly three PADI packets, waits 5, 10 and 20 seconds
  after them, and exits with status 1.
\<close>

theorem discovery_silence:
  assumes "wf_packet u" and "\<forall>n t. length (snd (openi n t)) = 6" and "c_session conn = 0"
    and "\<not> skipDiscovery conn" and "\<not> printACNames conn"
    and "case serviceName conn of None \<Rightarrow> True | Some n \<Rightarrow> length n \<le> 1400"
  shows "\<exists>f. out_bytes f = pppoe_frame (replicate 6 0xFF) (snd (openi (ifName conn) (Eth_PPPOE_Discovery conn)))
      (Eth_PPPOE_Discovery conn) CODE_PADI 0 (padi_tags pid conn) \<and>
    discovery bpf openi u pid conn [] = Some ([Tx f, Select 5, Tx f, Select 10, Tx f, Select 20], Inl 1)"
proof -
  obtain sock mac where o: "openi (ifName conn) (Eth_PPPOE_Discovery conn) = (sock, mac)" by fastforce
  have mac: "length mac = 6" using assms(2) o by (metis snd_conv)
  define c0 where "c0 = conn\<lparr>discoverySocket := sock, myEth := mac\<rparr>"
  have name: "length (snd (service_tag conn)) \<le> 1400" using assms(6) by (auto simp: service_tag_def split: option.splits)
  have send: "sendPADI u pid (c0\<lparr>discoveryState := k\<rparr>) = Some [padi_sent pid c0]"
      "sendPADI u pid c0 = Some [padi_sent pid c0]" for k
    using sendPADI_eq [OF assms(1), of "c0\<lparr>discoveryState := k\<rparr>" pid] sendPADI_eq [OF assms(1), of c0 pid] name mac
    by (auto simp: c0_def padi_sent_def padi_tags_def uniq_tags_def service_tag_def encode_tag_def be_bytes_def)
  have wait: "waitForPADO bpf u pid (c0\<lparr>discoveryState := 0\<rparr>) t [] = Some ([Select t], Inr (c0\<lparr>discoveryState := 0\<rparr>, []))" for t
    by (simp add: waitForPADO_def)
  have pr: "\<not> printACNames c0" and se: "c_session c0 = 0" using assms(3,5) by (simp_all add: c0_def)
  have fatal: "padi_loop bpf u pid 3 t (c0\<lparr>discoveryState := 0\<rparr>) [] = Some ([], Inl 1)" for t
    by (subst padi_loop.simps) (simp add: rp_fatal_quiet se)
  have l3: "padi_loop bpf u pid 2 t (c0\<lparr>discoveryState := 0\<rparr>) [] = Some ([Tx (padi_sent pid c0), Select t], Inl 1)" for t
    by (subst padi_loop.simps) (simp add: sends_def send wait pr fatal)
  have l2: "padi_loop bpf u pid 1 t (c0\<lparr>discoveryState := 0\<rparr>) [] =
      Some ([Tx (padi_sent pid c0), Select t, Tx (padi_sent pid c0), Select (t * 2)], Inl 1)" for t
    by (subst padi_loop.simps) (simp add: sends_def send wait pr l3 [unfolded numeral_2_eq_2])
  have l1: "padi_loop bpf u pid 0 5 c0 [] =
      Some ([Tx (padi_sent pid c0), Select 5, Tx (padi_sent pid c0), Select 10, Tx (padi_sent pid c0), Select 20], Inl 1)"
    by (subst padi_loop.simps) (simp add: sends_def send wait pr l2 [unfolded One_nat_def])
  have "discovery bpf openi u pid conn [] =
      Some ([Tx (padi_sent pid c0), Select 5, Tx (padi_sent pid c0), Select 10, Tx (padi_sent pid c0), Select 20], Inl 1)"
    using assms(4) o l1 by (simp add: discovery_def c0_def)
  moreover have "out_bytes (padi_sent pid c0) = pppoe_frame (replicate 6 0xFF) (snd (openi (ifName conn) (Eth_PPPOE_Discovery conn)))
      (Eth_PPPOE_Discovery conn) CODE_PADI 0 (padi_tags pid conn)"
    by (simp add: padi_sent_def c0_def o padi_tags_def service_tag_def uniq_tags_def)
  ultimately show ?thesis by blast
qed

theorem discovery_silence_witness:
  "wf_packet sample_padi \<and> (\<forall>n t. length (snd (sample_open n t)) = 6) \<and> c_session sample_conn = 0 \<and>
   \<not> skipDiscovery sample_conn \<and> \<not> printACNames sample_conn \<and>
   (\<exists>f. discovery True sample_open sample_padi 1 sample_conn [] =
      Some ([Tx f, Select 5, Tx f, Select 10, Tx f, Select 20], Inl 1))"
  using discovery_silence [OF wf_sample_padi, of sample_open sample_conn 1 True]
  by (auto simp: sample_open_def sample_conn_def)

end
