(* ===== verification/TCP_Clamp.thy ===== *)
theory TCP_Clamp
  imports PPPoE_Packet
begin

unbundle bit_operations_syntax

text \<open>
  MSS clamping (\<^verbatim>\<open>computeTCPChecksum\<close> and \<^verbatim>\<open>clampMSS\<close> of \<^verbatim>\<open>common.c\<close>). The pointers into the
  packet are offsets into the payload array; a read or write outside it is \<^verbatim>\<open>None\<close>. \<^verbatim>\<open>UINT32_t\<close>
  is 32 bits wide and a 16-bit load is little-endian, as in the i386 build. The reference for
  the checksum is the one's complement sum of RFC 1071, with the carry added back after every
  addition; the code adds into 32 bits and folds the carries at the end.
\<close>

section \<open>Definitions\<close>

text \<open>The bytes of the header and data are added as 16-bit words, a last odd byte alone.\<close>

fun sum_words :: "byte list \<Rightarrow> nat \<Rightarrow> nat \<Rightarrow> u32 \<Rightarrow> u32 option" where
  "sum_words pl addr (Suc (Suc count)) acc =
     do { a \<leftarrow> rd pl addr; b \<leftarrow> rd pl (addr + 1); sum_words pl (addr + 2) count (acc + ucast (load16 a b)) }"
| "sum_words pl addr (Suc 0) acc = do { a \<leftarrow> rd pl addr; Some (acc + ucast a) }"
| "sum_words pl addr 0 acc = Some acc"

lemma unat_drop_16: "unat (drop_bit 16 s) = unat s div 65536" for s :: u32
  by (simp add: drop_bit_eq_div unat_div)

lemma unat_fold_step: "unat ((s AND 0xffff) + drop_bit 16 s) = unat s mod 65536 + unat s div 65536" for s :: u32
proof -
  have m: "(0xffff :: u32) = mask 16" by (simp add: mask_eq_exp_minus_1)
  have a: "unat (s AND 0xffff) = unat s mod 65536"
    unfolding m by (simp add: unsigned_take_bit_eq flip: take_bit_eq_mask) (simp add: take_bit_eq_mod)
  have s: "unat s < 2 ^ 32" using unsigned_less [of s] by simp
  have b: "unat (drop_bit 16 s) = unat s div 65536" by (rule unat_drop_16)
  show ?thesis using s by (subst unat_add_lem [THEN iffD1]) (simp_all add: a b)
qed

lemma drop_bit_16_zero: "drop_bit 16 s = 0 \<longleftrightarrow> unat s < 65536" for s :: u32
proof -
  have "unat (drop_bit 16 s) = unat s div 65536" by (rule unat_drop_16)
  then show ?thesis by (metis div_eq_0_iff unat_eq_zero zero_neq_numeral)
qed

function fold_carries :: "u32 \<Rightarrow> u32" where
  "fold_carries s = (if drop_bit 16 s \<noteq> 0 then fold_carries ((s AND 0xffff) + drop_bit 16 s) else s)"
  by pat_completeness auto

termination fold_carries
proof (relation "measure unat", goal_cases)
  case (2 s)
  then have "1 \<le> unat s div 65536" by (simp add: drop_bit_16_zero)
  moreover have "unat s = unat s mod 65536 + 65536 * (unat s div 65536)" by simp
  ultimately have "unat s mod 65536 + unat s div 65536 < unat s" by linarith
  then show ?case by (simp only: in_measure unat_fold_step)
qed auto

declare fold_carries.simps [simp del]

text \<open>The number of bytes of the TCP header and data, in 16 bits.\<close>

definition tcp_count :: "byte \<Rightarrow> byte \<Rightarrow> byte \<Rightarrow> u16" where
  "tcp_count b0 b2 b3 = of_nat (unat b2 * 256 + unat b3) - of_nat (unat (b0 AND 0x0F) * 4)"

definition pseudo_header :: "byte list \<Rightarrow> byte \<Rightarrow> u16 \<Rightarrow> byte list" where
  "pseudo_header addrs proto count = addrs @ [0, proto, hi8 count, lo8 count]"

definition computeTCPChecksum :: "byte list \<Rightarrow> nat \<Rightarrow> nat \<Rightarrow> u16 option" where
  "computeTCPChecksum pl ipHdr tcpHdr =
     do {
       b2 \<leftarrow> rd pl (ipHdr + 2);
       b3 \<leftarrow> rd pl (ipHdr + 3);
       b0 \<leftarrow> rd pl ipHdr;
       let count = tcp_count b0 b2 b3;
       addrs \<leftarrow> (if ipHdr + 20 \<le> length pl then Some (bslice pl (ipHdr + 12) 8) else None);
       b9 \<leftarrow> rd pl (ipHdr + 9);
       let ph = pseudo_header addrs b9 count;
       let acc = (\<Sum>i\<leftarrow>[0, 2, 4, 6, 8, 10]. ucast (load16 (ph ! i) (ph ! (i + 1))));
       acc \<leftarrow> sum_words pl tcpHdr (unat count) acc;
       Some (ucast (NOT (fold_carries acc) AND 0xFFFF))
     }"

text \<open>How the search for the MSS option ends: none, a bogus length, or its offset.\<close>

datatype mss_scan = NoMss | Bogus | Mss nat

function find_mss :: "byte list \<Rightarrow> nat \<Rightarrow> nat \<Rightarrow> mss_scan option" where
  "find_mss pl opt endHdr =
     (if opt < endHdr then do {
        b \<leftarrow> rd pl opt;
        if b = 0 then Some NoMss
        else if b = 1 then find_mss pl (opt + 1) endHdr
        else do {
          l \<leftarrow> rd pl (opt + 1);
          if b = 2 then (if l \<noteq> 4 then Some Bogus else Some (Mss opt))
          else if l < 2 then Some Bogus
          else find_mss pl (opt + unat l) endHdr
        }
      } else Some NoMss)"
  by pat_completeness auto

termination find_mss
proof (relation "measure (\<lambda>(pl, opt, endHdr). endHdr - opt)", goal_cases)
  case (3 pl opt endHdr b l)
  then have "2 \<le> unat l" by (simp add: word_le_nat_alt not_less)
  then show ?case using 3(1) by simp
qed auto

declare find_mss.simps [simp del]

text \<open>The end of \<^verbatim>\<open>clampMSS\<close>: the MSS option found is lowered and the checksum computed anew.\<close>

definition set_mss :: "PPPoEPacket \<Rightarrow> nat \<Rightarrow> nat \<Rightarrow> nat \<Rightarrow> int \<Rightarrow> PPPoEPacket option" where
  "set_mss packet ipHdr tcpHdr mssopt clampMss =
     (let pl = payload packet; cl = (word_of_int clampMss :: u32)
      in do {
        m2 \<leftarrow> rd pl (mssopt + 2);
        m3 \<leftarrow> rd pl (mssopt + 3);
        let mss = (of_nat (unat m2 * 256 + unat m3) :: u32);
        if mss \<le> cl then Some packet
        else do {
          pl \<leftarrow> memcpy_at pl (mssopt + 2) [ucast (drop_bit 8 cl AND 0xFF)];
          pl \<leftarrow> memcpy_at pl (mssopt + 3) [ucast (cl AND 0xFF)];
          pl \<leftarrow> memcpy_at pl (tcpHdr + 16) [0];
          pl \<leftarrow> memcpy_at pl (tcpHdr + 17) [0];
          csum \<leftarrow> computeTCPChecksum pl ipHdr tcpHdr;
          pl \<leftarrow> memcpy_at pl (tcpHdr + 16) (le16 csum);
          Some (packet\<lparr>payload := pl\<rparr>)
        }
      })"

definition clampMSS :: "PPPoEPacket \<Rightarrow> int \<Rightarrow> PPPoEPacket option" where
  "clampMSS packet clampMss =
     (let pl = payload packet; ipHdr = 2
      in do {
       p0 \<leftarrow> rd pl 0; p1 \<leftarrow> rd pl 1;
       if p0 \<noteq> 0x00 \<or> p1 \<noteq> 0x21 then Some packet
       else if pkt_len packet < 42 then Some packet
       else do {
         b0 \<leftarrow> rd pl ipHdr; b6 \<leftarrow> rd pl (ipHdr + 6); b7 \<leftarrow> rd pl (ipHdr + 7); b9 \<leftarrow> rd pl (ipHdr + 9);
         if b0 AND 0xF0 \<noteq> 0x40 then Some packet
         else if b6 AND 0x1F \<noteq> 0 \<or> b7 \<noteq> 0 then Some packet
         else if b9 \<noteq> 0x06 then Some packet
         else do {
           let tcpHdr = ipHdr + unat (b0 AND 0x0F) * 4;
           flags \<leftarrow> rd pl (tcpHdr + 13);
           if flags AND 0x02 = 0 then Some packet
           else do {
             csum \<leftarrow> computeTCPChecksum pl ipHdr tcpHdr;
             if csum \<noteq> 0 then Some packet
             else do {
               b12 \<leftarrow> rd pl (tcpHdr + 12);
               scan \<leftarrow> find_mss pl (tcpHdr + 20) (tcpHdr + unat (drop_bit 2 (b12 AND 0xF0)));
               (case scan of
                  NoMss \<Rightarrow> Some packet
                | Bogus \<Rightarrow> Some packet
                | Mss mssopt \<Rightarrow> set_mss packet ipHdr tcpHdr mssopt clampMss)
             }
           }
         }
       }
     })"

section \<open>The checksum\<close>

text \<open>One's complement addition of 16-bit numbers, and the sum of a byte sequence.\<close>

definition ones_add :: "nat \<Rightarrow> nat \<Rightarrow> nat" where
  "ones_add a b = (if a + b > 0xFFFF then a + b - 0xFFFF else a + b)"

fun words16 :: "byte list \<Rightarrow> nat list" where
  "words16 (a # b # bs) = unat (load16 a b) # words16 bs"
| "words16 [a] = [unat a]"
| "words16 [] = []"

definition ones_sum :: "byte list \<Rightarrow> nat" where
  "ones_sum bs = foldl ones_add 0 (words16 bs)"

text \<open>The closed form: a nonzero sum is reduced to the range 1 to 65535.\<close>

definition reduce16 :: "nat \<Rightarrow> nat" where
  "reduce16 n = (if n = 0 then 0 else (n - 1) mod 65535 + 1)"

lemma ones_add_reduce: "b \<le> 65535 \<Longrightarrow> ones_add (reduce16 n) b = reduce16 (n + b)"
proof (cases "n = 0")
  case False
  assume b: "b \<le> 65535"
  define m where "m = (n - 1) mod 65535"
  have m: "m < 65535" by (simp add: m_def)
  have "n + b - 1 = (n - 1) + b" using False by simp
  then have e: "(n + b - 1) mod 65535 = (m + b) mod 65535" unfolding m_def by (metis mod_add_left_eq)
  have r: "reduce16 n = m + 1" "reduce16 (n + b) = (m + b) mod 65535 + 1"
    using False e by (simp_all add: reduce16_def m_def)
  show ?thesis
  proof (cases "m + b < 65535")
    case True
    then show ?thesis unfolding r ones_add_def by simp
  next
    case False
    then have "(m + b) mod 65535 = (m + b - 65535) mod 65535" by (simp add: le_mod_geq)
    also have "\<dots> = m + b - 65535" by (rule mod_less) (use m b in linarith)
    finally show ?thesis using False unfolding r ones_add_def by simp
  qed
qed (simp add: ones_add_def reduce16_def)

lemma words16_bound: "\<forall>w\<in>set (words16 bs). w \<le> 65535"
proof (induction bs rule: words16.induct)
  case (1 a b bs)
  then show ?case using unat_u16_less [of "load16 a b"] by (auto simp del: unat_u16_less)
next
  case (2 a)
  then show ?case using unsigned_less [of a, where 'a=nat] by simp
qed simp

lemma foldl_ones_add: "\<forall>w\<in>set ws. w \<le> 65535 \<Longrightarrow> foldl ones_add (reduce16 n) ws = reduce16 (n + sum_list ws)"
  by (induction ws arbitrary: n) (simp_all add: ones_add_reduce add.assoc)

lemma ones_sum_reduce: "ones_sum bs = reduce16 (sum_list (words16 bs))"
  using foldl_ones_add [OF words16_bound, of 0] by (simp add: ones_sum_def reduce16_def)

lemma unat_fold_carries: "unat (fold_carries s) = reduce16 (unat s)"
proof (induction s rule: fold_carries.induct)
  case (1 s)
  show ?case
  proof (cases "drop_bit 16 s = 0")
    case True
    then have "unat s < 65536" by (simp add: drop_bit_16_zero)
    then show ?thesis using True by (subst fold_carries.simps) (auto simp: reduce16_def)
  next
    case False
    let ?q = "unat s div 65536" and ?r = "unat s mod 65536"
    have q: "1 \<le> ?q" using False by (simp add: drop_bit_16_zero)
    have s: "unat s = ?r + ?q * 65536" by simp
    have "unat s - 1 = ?r + ?q - 1 + ?q * 65535" using q s by linarith
    then have "(unat s - 1) mod 65535 = (?r + ?q - 1) mod 65535" by (metis mod_mult_self1)
    then have "reduce16 (?r + ?q) = reduce16 (unat s)" using q s by (auto simp: reduce16_def)
    then show ?thesis using False 1 by (subst fold_carries.simps) (simp add: unat_fold_step)
  qed
qed

lemma sum_words_eq:
  "sum_words pl addr n acc =
     (if n = 0 \<or> addr + n \<le> length pl then Some (acc + of_nat (sum_list (words16 (bslice pl addr n)))) else None)"
proof (induction pl addr n acc rule: sum_words.induct)
  case (1 pl addr count acc)
  show ?case
  proof (cases "addr + Suc (Suc count) \<le> length pl")
    case True
    then have "drop addr pl = pl ! addr # pl ! Suc addr # drop (Suc (Suc addr)) pl"
      by (simp add: Cons_nth_drop_Suc)
    then have "bslice pl addr (Suc (Suc count)) = pl ! addr # pl ! (addr + 1) # bslice pl (addr + 2) count"
      unfolding bslice_def by simp
    then show ?thesis using True 1 by (simp add: rd_nth add.assoc)
  next
    case False
    then show ?thesis using 1 by (cases "addr + 1 < length pl") (auto simp: rd_def)
  qed
next
  case (2 pl addr acc)
  then show ?case by (auto simp: rd_def bslice_def take_Suc_conv_app_nth Cons_nth_drop_Suc [symmetric])
qed (simp add: bslice_def)

lemma words16_append: "even (length xs) \<Longrightarrow> words16 (xs @ ys) = words16 xs @ words16 ys"
  by (induction xs rule: words16.induct) auto

lemma words16_sum_bound: "sum_list (words16 bs) \<le> 65535 * ((length bs + 1) div 2)"
proof (induction bs rule: words16.induct)
  case (1 a b bs)
  have "unat (load16 a b) \<le> 65535" using unat_u16_less [of "load16 a b"] by (simp del: unat_u16_less)
  then show ?case using 1 by simp
next
  case (2 a)
  show ?case using unsigned_less [of a, where 'a=nat] by simp
qed simp

text \<open>The bytes that the checksum of a segment covers: the pseudo header and the segment.\<close>

definition seg_count :: "byte list \<Rightarrow> nat \<Rightarrow> nat" where
  "seg_count pl ipHdr = unat (tcp_count (pl ! ipHdr) (pl ! (ipHdr + 2)) (pl ! (ipHdr + 3)))"

definition checked_bytes :: "byte list \<Rightarrow> nat \<Rightarrow> nat \<Rightarrow> byte list" where
  "checked_bytes pl ipHdr tcpHdr =
     pseudo_header (bslice pl (ipHdr + 12) 8) (pl ! (ipHdr + 9))
       (tcp_count (pl ! ipHdr) (pl ! (ipHdr + 2)) (pl ! (ipHdr + 3))) @ bslice pl tcpHdr (seg_count pl ipHdr)"

lemma pseudo_sum:
  assumes "length ph = 12"
  shows "(\<Sum>i\<leftarrow>[0, 2, 4, 6, 8, 10]. ucast (load16 (ph ! i) (ph ! (i + 1))) :: u32) = of_nat (sum_list (words16 ph))"
proof -
  obtain a b c d e f g h i j k l where "ph = [a, b, c, d, e, f, g, h, i, j, k, l]"
    using assms by (auto simp: numeral_eq_Suc length_Suc_conv)
  then show ?thesis by (simp add: numeral_eq_Suc)
qed

lemma ucast_not_low: "ucast (NOT s AND 0xFFFF) = (NOT (ucast s) :: u16)" for s :: u32
proof -
  have m: "(0xFFFF :: u32) = mask 16" by (simp add: mask_eq_exp_minus_1)
  show ?thesis unfolding m by (rule bit_word_eqI) (auto simp: bit_simps)
qed

lemma length_checked_bytes:
  "ipHdr + 20 \<le> length pl \<Longrightarrow> length (checked_bytes pl ipHdr tcpHdr) \<le> 12 + seg_count pl ipHdr"
  by (simp add: checked_bytes_def pseudo_header_def bslice_def)

lemma computeTCPChecksum_eq:
  assumes "ipHdr + 20 \<le> length pl"
  shows "computeTCPChecksum pl ipHdr tcpHdr =
    (if seg_count pl ipHdr = 0 \<or> tcpHdr + seg_count pl ipHdr \<le> length pl
     then Some (NOT (of_nat (ones_sum (checked_bytes pl ipHdr tcpHdr)))) else None)"
proof -
  define c where "c = tcp_count (pl ! ipHdr) (pl ! (ipHdr + 2)) (pl ! (ipHdr + 3))"
  define ph where "ph = pseudo_header (bslice pl (ipHdr + 12) 8) (pl ! (ipHdr + 9)) c"
  define S where "S = sum_list (words16 (checked_bytes pl ipHdr tcpHdr))"
  have ph: "length ph = 12" using assms by (simp add: ph_def pseudo_header_def length_bslice)
  have cb: "checked_bytes pl ipHdr tcpHdr = ph @ bslice pl tcpHdr (unat c)"
    by (simp add: checked_bytes_def ph_def c_def seg_count_def)
  have S: "S = sum_list (words16 ph) + sum_list (words16 (bslice pl tcpHdr (unat c)))"
    using ph by (simp add: S_def cb words16_append)
  have "length (checked_bytes pl ipHdr tcpHdr) < 12 + 65536"
    using length_checked_bytes [OF assms, of tcpHdr] unat_u16_less [of c] unfolding seg_count_def c_def by linarith
  then have "S \<le> 65535 * 32774"
    using words16_sum_bound [of "checked_bytes pl ipHdr tcpHdr"] unfolding S_def by linarith
  then have u: "unat (of_nat S :: u32) = S" by (simp add: unat_of_nat)
  have f: "ucast (fold_carries (of_nat S)) = (of_nat (ones_sum (checked_bytes pl ipHdr tcpHdr)) :: u16)"
    by (metis S_def of_nat_unat ones_sum_reduce u unat_fold_carries)
  have rd1: "rd pl (ipHdr + 2) = Some (pl ! (ipHdr + 2))" "rd pl (ipHdr + 3) = Some (pl ! (ipHdr + 3))"
    "rd pl ipHdr = Some (pl ! ipHdr)" "rd pl (ipHdr + 9) = Some (pl ! (ipHdr + 9))"
    using assms by (simp_all add: rd_nth)
  have e: "computeTCPChecksum pl ipHdr tcpHdr = do {
       acc \<leftarrow> sum_words pl tcpHdr (unat c) (\<Sum>i\<leftarrow>[0, 2, 4, 6, 8, 10]. ucast (load16 (ph ! i) (ph ! (i + 1))));
       Some (ucast (NOT (fold_carries acc) AND 0xFFFF)) }"
    unfolding computeTCPChecksum_def rd1 Let_def Option.bind.bind_lunit ph_def c_def using assms by (simp only: if_True Option.bind.bind_lunit)
  show ?thesis
    unfolding e pseudo_sum [OF ph] sum_words_eq ucast_not_low seg_count_def c_def [symmetric]
    by (simp add: f [symmetric] S)
qed

section \<open>The search for the option\<close>

text \<open>An offset is reached from another one by walking over options in the header.\<close>

inductive opts_reach :: "byte list \<Rightarrow> nat \<Rightarrow> nat \<Rightarrow> nat \<Rightarrow> bool" for pl endHdr where
  here: "opts_reach pl endHdr opt opt"
| nop: "opt < endHdr \<Longrightarrow> pl ! opt = 1 \<Longrightarrow> opts_reach pl endHdr (opt + 1) m \<Longrightarrow> opts_reach pl endHdr opt m"
| skip: "opt < endHdr \<Longrightarrow> pl ! opt \<notin> {0, 1, 2} \<Longrightarrow> 2 \<le> pl ! (opt + 1) \<Longrightarrow>
    opts_reach pl endHdr (opt + unat (pl ! (opt + 1))) m \<Longrightarrow> opts_reach pl endHdr opt m"

definition mss_option :: "byte list \<Rightarrow> nat \<Rightarrow> nat \<Rightarrow> nat \<Rightarrow> bool" where
  "mss_option pl opt endHdr m \<longleftrightarrow> opts_reach pl endHdr opt m \<and> m < endHdr \<and> pl ! m = 2 \<and> pl ! (m + 1) = 4"

lemma opts_reach_le: "opts_reach pl endHdr opt m \<Longrightarrow> opt \<le> m"
  by (induction rule: opts_reach.induct) auto

lemma find_mss_step:
  assumes "endHdr < length pl"
  shows "find_mss pl opt endHdr =
    (if opt < endHdr then
       if pl ! opt = 0 then Some NoMss
       else if pl ! opt = 1 then find_mss pl (opt + 1) endHdr
       else if pl ! opt = 2 then (if pl ! (opt + 1) \<noteq> 4 then Some Bogus else Some (Mss opt))
       else if pl ! (opt + 1) < 2 then Some Bogus
       else find_mss pl (opt + unat (pl ! (opt + 1))) endHdr
     else Some NoMss)"
  using assms by (subst find_mss.simps) (simp add: rd_nth)

lemma find_mss_total:
  assumes "endHdr < length pl"
  shows "\<exists>s. find_mss pl opt endHdr = Some s \<and> (\<forall>m. s = Mss m \<longrightarrow> mss_option pl opt endHdr m)"
proof (induction "endHdr - opt" arbitrary: opt rule: less_induct)
  case less
  consider "\<not> opt < endHdr" | "opt < endHdr" "pl ! opt = 0" | "opt < endHdr" "pl ! opt = 1"
    | "opt < endHdr" "pl ! opt = 2" | "opt < endHdr" "pl ! opt \<notin> {0, 1, 2}" "pl ! (opt + 1) < 2"
    | "opt < endHdr" "pl ! opt \<notin> {0, 1, 2}" "2 \<le> pl ! (opt + 1)"
    by (cases "opt < endHdr"; cases "pl ! (opt + 1) < 2"; auto simp: not_less)
  then show ?case
  proof cases
    case 3
    then have "endHdr - (opt + 1) < endHdr - opt" by simp
    from less [OF this] obtain s where "find_mss pl (opt + 1) endHdr = Some s"
      "\<forall>m. s = Mss m \<longrightarrow> mss_option pl (opt + 1) endHdr m" by blast
    then show ?thesis using 3 find_mss_step [OF assms, of opt] by (auto simp: mss_option_def intro: opts_reach.nop)
  next
    case 4
    then show ?thesis using find_mss_step [OF assms, of opt] by (auto simp: mss_option_def intro: opts_reach.here)
  next
    case 6
    let ?o = "opt + unat (pl ! (opt + 1))"
    have "2 \<le> unat (pl ! (opt + 1))" using 6(3) by (simp add: word_le_nat_alt)
    then have "endHdr - ?o < endHdr - opt" using 6(1) by simp
    from less [OF this] obtain s where s: "find_mss pl ?o endHdr = Some s"
      "\<forall>m. s = Mss m \<longrightarrow> mss_option pl ?o endHdr m" by blast
    have "find_mss pl opt endHdr = Some s" using 6 s(1) find_mss_step [OF assms, of opt] by (auto simp: not_less)
    then show ?thesis using 6 s(2) by (auto simp: mss_option_def intro: opts_reach.skip)
  qed (simp_all add: find_mss_step [OF assms, of opt])
qed

lemma find_mss_complete:
  assumes "endHdr < length pl" and "mss_option pl opt endHdr m"
  shows "find_mss pl opt endHdr = Some (Mss m)"
proof -
  have m: "m < endHdr" "pl ! m = 2" "pl ! (m + 1) = 4" and "opts_reach pl endHdr opt m"
    using assms(2) by (auto simp: mss_option_def)
  from this(4) m show ?thesis
    by (induction rule: opts_reach.induct) (auto simp: find_mss_step [OF assms(1)] not_less)
qed

section \<open>Clamping\<close>

definition tcp_start :: "byte list \<Rightarrow> nat" where
  "tcp_start pl = 2 + unat (pl ! 2 AND 0x0F) * 4"

definition header_end :: "byte list \<Rightarrow> nat" where
  "header_end pl = tcp_start pl + unat (drop_bit 2 (pl ! (tcp_start pl + 12) AND 0xF0))"

text \<open>An IPv4 first fragment with protocol TCP and the SYN flag, in a packet long enough.\<close>

definition syn_packet :: "PPPoEPacket \<Rightarrow> bool" where
  "syn_packet p \<longleftrightarrow> (let pl = payload p in pl ! 0 = 0 \<and> pl ! 1 = 0x21 \<and> 42 \<le> pkt_len p \<and>
     pl ! 2 AND 0xF0 = 0x40 \<and> pl ! (2 + 6) AND 0x1F = 0 \<and> pl ! (2 + 7) = 0 \<and> pl ! (2 + 9) = 6 \<and>
     pl ! (tcp_start pl + 13) AND 2 \<noteq> 0)"

definition mss_at :: "byte list \<Rightarrow> nat \<Rightarrow> nat" where
  "mss_at pl m = unat (pl ! (m + 2)) * 256 + unat (pl ! (m + 3))"

lemma tcp_start_bounds: "2 \<le> tcp_start pl" "tcp_start pl \<le> 62"
proof -
  have "pl ! 2 AND 0x0F \<le> 0x0F" by (rule word_and_le1)
  then show "tcp_start pl \<le> 62" by (simp add: tcp_start_def word_le_nat_alt)
qed (simp add: tcp_start_def)

lemma header_end_bound: "header_end pl \<le> 122"
proof -
  have "pl ! (tcp_start pl + 12) AND 0xF0 \<le> 0xF0" by (rule word_and_le1)
  then have "unat (drop_bit 2 (pl ! (tcp_start pl + 12) AND 0xF0)) \<le> 60"
    by (simp add: word_le_nat_alt drop_bit_eq_div unat_div div_le_mono [of _ 240 4, simplified])
  then show ?thesis using tcp_start_bounds [of pl] by (simp add: header_end_def)
qed

lemma clampMSS_step:
  assumes "wf_packet p"
  shows "clampMSS p c =
    (if syn_packet p then do {
       csum \<leftarrow> computeTCPChecksum (payload p) 2 (tcp_start (payload p));
       if csum \<noteq> 0 then Some p
       else do {
         scan \<leftarrow> find_mss (payload p) (tcp_start (payload p) + 20) (header_end (payload p));
         (case scan of
            NoMss \<Rightarrow> Some p
          | Bogus \<Rightarrow> Some p
          | Mss m \<Rightarrow> set_mss p 2 (tcp_start (payload p)) m c)
       }
     } else Some p)"
proof -
  have l: "length (payload p) = 1500" using assms by (simp add: wf_packet_def)
  have t: "tcp_start (payload p) + 13 < 1500" "tcp_start (payload p) + 12 < 1500" using tcp_start_bounds [of "payload p"] by simp_all
  have r: "rd (payload p) 0 = Some (payload p ! 0)" "rd (payload p) 1 = Some (payload p ! 1)" "rd (payload p) 2 = Some (payload p ! 2)"
     "rd (payload p) (2 + 6) = Some (payload p ! (2 + 6))" "rd (payload p) (2 + 7) = Some (payload p ! (2 + 7))"
     "rd (payload p) (2 + 9) = Some (payload p ! (2 + 9))"
     "rd (payload p) (tcp_start (payload p) + 13) = Some (payload p ! (tcp_start (payload p) + 13))"
     "rd (payload p) (tcp_start (payload p) + 12) = Some (payload p ! (tcp_start (payload p) + 12))"
    using t l by (simp_all only: rd_nth)
  show ?thesis
    unfolding clampMSS_def Let_def r Option.bind.bind_lunit tcp_start_def [symmetric] syn_packet_def header_end_def
    by (auto simp: not_less)
qed

lemma computeTCPChecksum_syn:
  assumes "wf_packet p"
  shows "computeTCPChecksum (payload p) 2 t =
    (if seg_count (payload p) 2 = 0 \<or> t + seg_count (payload p) 2 \<le> 1500
     then Some (NOT (of_nat (ones_sum (checked_bytes (payload p) 2 t)))) else None)"
  using assms computeTCPChecksum_eq [of 2 "payload p" t] by (simp add: wf_packet_def)

text \<open>The payload with the option set and the checksum field cleared.\<close>

definition lowered :: "byte list \<Rightarrow> nat \<Rightarrow> nat \<Rightarrow> int \<Rightarrow> byte list" where
  "lowered pl t m c =
     pl[m + 2 := ucast (drop_bit 8 (word_of_int c :: u32) AND 0xFF), m + 3 := ucast ((word_of_int c :: u32) AND 0xFF),
        t + 16 := 0, t + 17 := 0]"

lemma memcpy_at_1: "i < length pl \<Longrightarrow> memcpy_at pl i [b] = Some (pl[i := b])"
  by (simp add: memcpy_at_def upd_conv_take_nth_drop)

lemma memcpy_at_2: "Suc i < length pl \<Longrightarrow> memcpy_at pl i [a, b] = Some (pl[i := a, Suc i := b])"
  by (rule sym, auto simp: memcpy_at_def intro!: nth_equalityI simp: nth_append nth_Cons' nth_list_update numeral_2_eq_2 Suc_diff_Suc)

lemma length_lowered [simp]: "length (lowered pl t m c) = length pl"
  by (simp add: lowered_def)

lemma set_mss_eq:
  assumes "wf_packet p" and "m < 122" and "t \<le> 62"
  shows "set_mss p 2 t m c =
    (if (of_nat (mss_at (payload p) m) :: u32) \<le> word_of_int c then Some p
     else map_option (\<lambda>cs. p\<lparr>payload := (lowered (payload p) t m c)[t + 16 := lo8 cs, t + 17 := hi8 cs]\<rparr>)
            (computeTCPChecksum (lowered (payload p) t m c) 2 t))"
proof -
  have l: "length (payload p) = 1500" using assms(1) by (simp add: wf_packet_def)
  let ?cl = "word_of_int c :: u32"
  have r: "rd (payload p) (m + 2) = Some (payload p ! (m + 2))" "rd (payload p) (m + 3) = Some (payload p ! (m + 3))"
    using l assms(2) by (simp_all only: rd_nth)
  have w: "memcpy_at (payload p) (m + 2) [x] \<bind> (\<lambda>pl. memcpy_at pl (m + 3) [y] \<bind> (\<lambda>pl. memcpy_at pl (t + 16) [0] \<bind>
      (\<lambda>pl. memcpy_at pl (t + 17) [0] \<bind> f))) = f ((payload p)[m + 2 := x, m + 3 := y, t + 16 := 0, t + 17 := 0])"
    for x y and f :: "byte list \<Rightarrow> PPPoEPacket option"
    using l assms(2,3) by (simp add: memcpy_at_1)
  have w2: "memcpy_at (lowered (payload p) t m c) (t + 16) (le16 cs) =
      Some ((lowered (payload p) t m c)[t + 16 := lo8 cs, t + 17 := hi8 cs])" for cs
    using l assms(3) memcpy_at_2 [of "t + 16" "lowered (payload p) t m c"] by (simp add: le16_def add.commute)
  show ?thesis
    unfolding set_mss_def Let_def r Option.bind.bind_lunit w lowered_def [symmetric] w2 mss_at_def
    by (simp add: Option.bind_map_option [symmetric] map_conv_bind_option comp_def)
qed

lemma seg_count_upd [simp]: "5 < i \<Longrightarrow> seg_count (pl[i := x]) 2 = seg_count pl 2"
  by (simp add: seg_count_def)

lemma tcp_start_upd [simp]: "2 < i \<Longrightarrow> tcp_start (pl[i := x]) = tcp_start pl"
  by (simp add: tcp_start_def)

lemma bslice_upd_after: "off + n \<le> i \<Longrightarrow> bslice (pl[i := x]) off n = bslice pl off n"
  by (simp add: bslice_def drop_update_swap take_update_cancel)

lemma bslice_upd: "off \<le> i \<Longrightarrow> bslice (pl[i := x]) off n = (bslice pl off n)[i - off := x]"
  by (simp add: bslice_def drop_update_swap take_update_swap)

lemma checked_bytes_upd:
  assumes "22 \<le> t" and "t \<le> i" and "22 \<le> length pl"
  shows "checked_bytes (pl[i := x]) 2 t = (checked_bytes pl 2 t)[i - t + 12 := x]"
proof -
  define ph where "ph = pseudo_header (bslice pl 14 8) (pl ! 11) (tcp_count (pl ! 2) (pl ! 4) (pl ! 5))"
  have l: "length ph = 12" using assms(3) by (simp add: ph_def pseudo_header_def length_bslice)
  have c: "checked_bytes pl 2 t = ph @ bslice pl t (seg_count pl 2)" by (simp add: checked_bytes_def ph_def)
  have "checked_bytes (pl[i := x]) 2 t = ph @ (bslice pl t (seg_count pl 2))[i - t := x]"
    using assms by (simp add: checked_bytes_def ph_def bslice_upd_after bslice_upd)
  then show ?thesis unfolding c by (simp add: list_update_append l)
qed

lemma sum_words16_field:
  assumes "30 \<le> length xs"
  shows "sum_list (words16 (xs[28 := a, 29 := b])) = sum_list (words16 (xs[28 := 0, 29 := 0])) + unat (load16 a b)"
proof -
  have d: "xs[28 := x, 29 := y] = take 28 xs @ [x, y] @ drop 30 xs" for x y
    using assms by (auto intro!: nth_equalityI simp: nth_append nth_Cons' nth_list_update)
  have e: "even (length (take 28 xs))" using assms by simp
  have "load16 0 0 = 0" by (simp add: load16_def)
  then show ?thesis unfolding d by (simp add: words16_append [OF e])
qed

lemma unat_not_u16: "unat (NOT w) = 65535 - unat w" for w :: u16
proof -
  have "NOT w = -1 - w" by (simp add: not_eq_complement)
  moreover have "unat (-1 :: u16) = 65535" by (simp add: unsigned_minus_1_eq_mask mask_eq_exp_minus_1)
  ultimately show ?thesis by (simp add: unat_sub word_order.extremum)
qed

lemma reduce16_bound: "reduce16 n \<le> 65535"
  by (simp add: reduce16_def less_Suc_eq_le [symmetric])

lemma reduce16_complement: "reduce16 (n + (65535 - reduce16 n)) = 65535"
proof (cases "n = 0")
  case False
  define k where "k = (n - 1) mod 65535"
  have k: "k < 65535" by (simp add: k_def)
  have r: "reduce16 n = k + 1" using False by (simp add: reduce16_def k_def)
  have n: "n - 1 = k + (n - 1) div 65535 * 65535" unfolding k_def by simp
  have "n + (65535 - (k + 1)) - 1 = 65534 + (n - 1) div 65535 * 65535" using n k False by linarith
  then have "(n + (65535 - (k + 1)) - 1) mod 65535 = 65534" by (simp only: mod_mult_self1) simp
  then show ?thesis using False unfolding r by (simp add: reduce16_def)
qed (simp add: reduce16_def)

text \<open>Storing the computed checksum in a cleared field makes the segment verify.\<close>

lemma checksum_verifies:
  assumes "length pl = 1500" and "22 \<le> t" and "18 \<le> seg_count pl 2" and "t + seg_count pl 2 \<le> 1500"
    and "pl ! (t + 16) = 0" and "pl ! (t + 17) = 0" and "computeTCPChecksum pl 2 t = Some cs"
  shows "computeTCPChecksum (pl[t + 16 := lo8 cs, t + 17 := hi8 cs]) 2 t = Some 0"
proof -
  let ?xs = "checked_bytes pl 2 t"
  let ?S = "sum_list (words16 ?xs)"
  have xs: "30 \<le> length ?xs"
    using assms(1,3,4) by (simp add: checked_bytes_def pseudo_header_def length_bslice)
  have cs: "cs = NOT (of_nat (reduce16 ?S))"
    using assms(1,3,4,7) computeTCPChecksum_eq [of 2 pl t] by (simp add: ones_sum_reduce)
  have "unat cs = 65535 - reduce16 ?S"
    using reduce16_bound [of ?S] unfolding cs unat_not_u16 by (simp add: unat_of_nat_u16)
  moreover have "?xs = ?xs[28 := 0, 29 := 0]"
  proof -
    have "pl = pl[t + 16 := 0, t + 17 := 0]" using assms(5,6) by (metis list_update_id)
    then have "?xs = checked_bytes (pl[t + 16 := 0, t + 17 := 0]) 2 t" by simp
    then show ?thesis using assms(1,2) by (simp add: checked_bytes_upd)
  qed
  ultimately have "sum_list (words16 (?xs[28 := lo8 cs, 29 := hi8 cs])) = ?S + (65535 - reduce16 ?S)"
    using sum_words16_field [OF xs, of "lo8 cs" "hi8 cs"] by simp
  then have "ones_sum (checked_bytes (pl[t + 16 := lo8 cs, t + 17 := hi8 cs]) 2 t) = 65535"
    using assms(1,2) by (simp add: checked_bytes_upd ones_sum_reduce reduce16_complement)
  then show ?thesis
    using assms(1,4) computeTCPChecksum_eq [of 2 "pl[t + 16 := lo8 cs, t + 17 := hi8 cs]" t] by simp
qed

lemma unat_low_byte: "unat (ucast (x AND 0xFF) :: byte) = unat x mod 256" for x :: u32
proof -
  have m: "(0xFF :: u32) = mask 8" by (simp add: mask_eq_exp_minus_1)
  have "ucast (x AND 0xFF) = (ucast x :: byte)" unfolding m by (rule bit_word_eqI) (auto simp: bit_simps)
  then show ?thesis by (simp add: unsigned_ucast_eq take_bit_eq_mod)
qed

lemma mss_lowered:
  assumes "t + 20 \<le> m" and "m + 3 < length pl" and "0 \<le> c" and "c < 65536"
  shows "mss_at ((lowered pl t m c)[t + 16 := a, t + 17 := b]) m = nat c"
proof -
  let ?w = "word_of_int c :: u32"
  have w: "unat ?w = nat c" using assms(3,4) by (simp add: unat_eq_nat_uint uint_word_of_int)
  have d: "unat (drop_bit 8 ?w) = nat c div 256" by (simp add: drop_bit_eq_div unat_div w)
  have "nat c < 65536" using assms(3,4) by simp
  then have "nat c div 256 mod 256 * 256 + nat c mod 256 = nat c" by (simp add: mod_less less_mult_imp_div_less)
  then show ?thesis using assms(1,2) by (simp add: mss_at_def lowered_def unat_low_byte w d)
qed

lemma seg_count_lowered [simp]: "2 \<le> t \<Longrightarrow> t + 20 \<le> m \<Longrightarrow> seg_count (lowered pl t m c) 2 = seg_count pl 2"
  by (simp add: lowered_def)

text \<open>What \<^verbatim>\<open>clampMSS\<close> does on every packet that is not undefined.\<close>

lemma clampMSS_cases:
  assumes "wf_packet p" and "0 \<le> c" and "c < 65536"
  defines "pl \<equiv> payload p"
  defines "t \<equiv> tcp_start pl"
  shows "(syn_packet p \<and> 1500 < t + seg_count pl 2 \<and> clampMSS p c = None)
    \<or> ((\<not> syn_packet p \<or> t + seg_count pl 2 \<le> 1500) \<and>
       \<not> (syn_packet p \<and> computeTCPChecksum pl 2 t = Some 0 \<and> (\<exists>m. mss_option pl (t + 20) (header_end pl) m \<and> int (mss_at pl m) > c))
       \<and> clampMSS p c = Some p)
    \<or> (\<exists>m cs. syn_packet p \<and> t + seg_count pl 2 \<le> 1500 \<and> computeTCPChecksum pl 2 t = Some 0 \<and>
         mss_option pl (t + 20) (header_end pl) m \<and> int (mss_at pl m) > c \<and>
         computeTCPChecksum (lowered pl t m c) 2 t = Some cs \<and>
         clampMSS p c = Some (p\<lparr>payload := (lowered pl t m c)[t + 16 := lo8 cs, t + 17 := hi8 cs]\<rparr>))"
proof (cases "syn_packet p \<and> t + seg_count pl 2 \<le> 1500")
  case False
  then show ?thesis
    using clampMSS_step [OF assms(1), of c] computeTCPChecksum_syn [OF assms(1)] tcp_start_bounds [of pl]
    by (cases "syn_packet p") (auto simp: t_def pl_def)
next
  case True
  have l: "length pl = 1500" using assms(1) by (simp add: wf_packet_def pl_def)
  have h: "header_end pl < length pl" using header_end_bound [of pl] l by simp
  obtain cs where cs: "computeTCPChecksum pl 2 t = Some cs"
    using True computeTCPChecksum_syn [OF assms(1), of t] by (simp add: pl_def)
  obtain s where s: "find_mss pl (t + 20) (header_end pl) = Some s"
    and sm: "\<forall>m. s = Mss m \<longrightarrow> mss_option pl (t + 20) (header_end pl) m"
    using find_mss_total [OF h] by blast
  have step: "clampMSS p c = (if cs \<noteq> 0 then Some p else (case s of NoMss \<Rightarrow> Some p | Bogus \<Rightarrow> Some p | Mss m \<Rightarrow> set_mss p 2 t m c))"
    using True clampMSS_step [OF assms(1), of c] cs s unfolding t_def pl_def by simp
  have uniq: "s = Mss m" if "mss_option pl (t + 20) (header_end pl) m" for m
    using find_mss_complete [OF h that] s by simp
  show ?thesis
  proof (cases "\<exists>m. cs = 0 \<and> s = Mss m \<and> int (mss_at pl m) > c")
    case False
    have "set_mss p 2 t m c = Some p" if "cs = 0" "s = Mss m" for m
    proof -
      have m: "m < 122" using that sm header_end_bound [of pl] by (auto simp: mss_option_def)
      have "int (mss_at pl m) \<le> c" using False that by auto
      then have "(of_nat (mss_at pl m) :: u32) \<le> word_of_int c"
        using assms(2,3) by (simp add: word_le_def uint_word_of_int unsigned_of_nat take_bit_eq_mod)
      then show ?thesis using set_mss_eq [OF assms(1) m] tcp_start_bounds [of pl] by (simp add: t_def pl_def)
    qed
    then have "clampMSS p c = Some p" unfolding step by (auto split: mss_scan.split)
    then show ?thesis using False True cs uniq by auto
  next
    case True': True
    then obtain m where m: "cs = 0" "s = Mss m" "int (mss_at pl m) > c" by blast
    have mo: "mss_option pl (t + 20) (header_end pl) m" using m(2) sm by blast
    then have mb: "m < 122" "t + 20 \<le> m" using header_end_bound [of pl] opts_reach_le by (auto simp: mss_option_def)
    have "unat (pl ! (m + 2)) < 256" "unat (pl ! (m + 3)) < 256" using unsigned_less [where 'a=nat and 'b=8] by simp_all
    then have "mss_at pl m < 65536" by (simp add: mss_at_def)
    then have "\<not> (of_nat (mss_at pl m) :: u32) \<le> word_of_int c"
      using assms(2,3) m(3) by (simp add: word_le_def uint_word_of_int unsigned_of_nat take_bit_eq_mod)
    moreover have "set_mss p 2 t m c = (if (of_nat (mss_at pl m) :: u32) \<le> word_of_int c then Some p
       else map_option (\<lambda>cs. p\<lparr>payload := (lowered pl t m c)[t + 16 := lo8 cs, t + 17 := hi8 cs]\<rparr>)
            (computeTCPChecksum (lowered pl t m c) 2 t))"
      unfolding pl_def using set_mss_eq [OF assms(1) mb(1)] tcp_start_bounds [of pl] by (simp add: t_def pl_def)
    moreover obtain cs' where "computeTCPChecksum (lowered pl t m c) 2 t = Some cs'"
      using True mb tcp_start_bounds [of pl] l computeTCPChecksum_eq [of 2 "lowered pl t m c" t] by (simp add: t_def)
    ultimately show ?thesis using step m True cs mo by auto
  qed
qed

section \<open>Properties\<close>

text \<open>
  \<^verbatim>\<open>computeTCPChecksum\<close> is the checksum of RFC 1071: the complement of the one's complement
  sum of the pseudo header and the segment, although it adds in 32 bits and folds the carries only
  at the end. It is undefined exactly when the length from the IP header reaches out of the array.
\<close>

theorem computeTCPChecksum_correct:
  assumes "ipHdr + 20 \<le> length pl"
  shows "computeTCPChecksum pl ipHdr tcpHdr =
    (if seg_count pl ipHdr = 0 \<or> tcpHdr + seg_count pl ipHdr \<le> length pl
     then Some (NOT (of_nat (ones_sum (checked_bytes pl ipHdr tcpHdr)))) else None)"
  by (rule computeTCPChecksum_eq [OF assms])

text \<open>A SYN with an MSS option of 1460, as the payload of a session packet.\<close>

definition sample_syn :: "byte list \<Rightarrow> PPPoEPacket" where
  "sample_syn len = \<lparr>h_dest = replicate 6 0, h_source = replicate 6 0, h_proto = 0, pver = 1, ptype = 1, code = 0,
     session = 0, plength = htons 46, payload =
     [0, 0x21, 0x45, 0] @ len @ [0, 0, 0, 0, 64, 6, 0, 0, 10, 0, 0, 1, 10, 0, 0, 2,
      0, 80, 0, 80, 0, 0, 0, 0, 0, 0, 0, 0, 0x60, 2, 0, 0, 0x83, 0x84, 0, 0, 2, 4, 0x05, 0xB4] @ replicate 1454 0\<rparr>"

lemma sample_syn_wf: "wf_packet (sample_syn [a, b])"
  by (simp add: sample_syn_def wf_packet_def)

lemma sample_syn_fields:
  "syn_packet (sample_syn [a, b])" "tcp_start (payload (sample_syn [a, b])) = 22"
  "seg_count (payload (sample_syn [a, b])) 2 = unat (tcp_count 0x45 a b)"
  "header_end (payload (sample_syn [a, b])) = 46"
  by (simp_all add: syn_packet_def sample_syn_def tcp_start_def header_end_def pkt_len_def seg_count_def)

lemma sample_syn_checked: "ones_sum (checked_bytes (payload (sample_syn [0, 44])) 2 22) = 0xFFFF"
proof -
  have "checked_bytes (payload (sample_syn [0, 44])) 2 22 = [10, 0, 0, 1, 10, 0, 0, 2, 0, 6, 0, 24,
      0, 80, 0, 80, 0, 0, 0, 0, 0, 0, 0, 0, 0x60, 2, 0, 0, 0x83, 0x84, 0, 0, 2, 4, 0x05, 0xB4]"
    by (simp add: checked_bytes_def pseudo_header_def sample_syn_def seg_count_def tcp_count_def bslice_def hi8_def lo8_def)
  then show ?thesis by (simp add: ones_sum_def ones_add_def load16_def)
qed

theorem computeTCPChecksum_correct_witness:
  "2 + 20 \<le> length (payload (sample_syn [0, 44])) \<and> ones_sum (checked_bytes (payload (sample_syn [0, 44])) 2 22) = 0xFFFF \<and>
   computeTCPChecksum (payload (sample_syn [0, 44])) 2 22 = Some 0"
proof -
  have l: "2 + 20 \<le> length (payload (sample_syn [0, 44]))" by (simp add: sample_syn_def)
  moreover have "22 + seg_count (payload (sample_syn [0, 44])) 2 \<le> length (payload (sample_syn [0, 44]))"
    by (simp add: sample_syn_def seg_count_def tcp_count_def)
  ultimately show ?thesis using sample_syn_checked computeTCPChecksum_correct [OF l, of 22] by simp
qed

text \<open>The length fields of the IP header: the whole datagram and the header.\<close>

definition ip_total_len :: "byte list \<Rightarrow> nat" where
  "ip_total_len pl = unat (pl ! 4) * 256 + unat (pl ! 5)"

definition ip_hdr_len :: "byte list \<Rightarrow> nat" where
  "ip_hdr_len pl = unat (pl ! 2 AND 0x0F) * 4"

lemma segment_end:
  "1500 < tcp_start pl + seg_count pl 2 \<longleftrightarrow> ip_total_len pl < ip_hdr_len pl \<or> 1498 < ip_total_len pl"
proof -
  let ?T = "ip_total_len pl" and ?h = "ip_hdr_len pl"
  have "unat (pl ! 4) < 256" "unat (pl ! 5) < 256" using unsigned_less [where 'a=nat and 'b=8] by simp_all
  then have T: "?T < 65536" by (simp add: ip_total_len_def)
  have t: "tcp_start pl = 2 + ?h" by (simp add: tcp_start_def ip_hdr_len_def)
  have h: "?h \<le> 60" using tcp_start_bounds [of pl] t by simp
  have "seg_count pl 2 = unat (of_nat ?T - of_nat ?h :: u16)"
    by (simp add: seg_count_def tcp_count_def ip_total_len_def ip_hdr_len_def)
  also have "\<dots> = (if ?h \<le> ?T then ?T - ?h else ?T + 65536 - ?h)"
    using T h by (simp add: unat_sub_if' unat_of_nat_u16)
  finally show ?thesis using T h t by auto
qed

text \<open>
  C40. On which packets MSS clamping reads outside the packet structure: exactly the SYN packets whose IP total
  length is more than the 1498 bytes behind the protocol field, or less than the length of the IP header (the length of
  the segment then wraps around in 16 bits). The field is never compared with the PPPoE length, and the checksum reads
  on behind the structure. On all other packets, whatever the header length, the option list and the TCP header
  length say, every access is in bounds.
\<close>

theorem clampMSS_defined:
  assumes "wf_packet p" and "0 \<le> c" and "c < 65536"
  shows "clampMSS p c = None \<longleftrightarrow> syn_packet p \<and>
    (ip_total_len (payload p) < ip_hdr_len (payload p) \<or> 1498 < ip_total_len (payload p))"
  using clampMSS_cases [OF assms] segment_end [of "payload p"] by auto

theorem clampMSS_defined_witness:
  "wf_packet (sample_syn [0xFF, 0xFF]) \<and> clampMSS (sample_syn [0xFF, 0xFF]) 1412 = None \<and>
   clampMSS (sample_syn [0, 0]) 1412 = None \<and> clampMSS (sample_syn [0, 44]) 1412 \<noteq> None"
proof -
  have "ip_total_len (payload (sample_syn [a, b])) = unat a * 256 + unat b" "ip_hdr_len (payload (sample_syn [a, b])) = 20" for a b
    by (simp_all add: ip_total_len_def ip_hdr_len_def sample_syn_def)
  then show ?thesis
    using clampMSS_defined [of "sample_syn [0xFF, 0xFF]" 1412] clampMSS_defined [of "sample_syn [0, 0]" 1412]
      clampMSS_defined [of "sample_syn [0, 44]" 1412]
    by (simp add: sample_syn_wf sample_syn_fields)
qed

text \<open>
  C31. On every other packet MSS clamping does what it should: when the packet is a SYN with a correct
  checksum and an MSS option (found by walking over the options) above the limit, the option becomes the limit,
  nothing but the option and the checksum field changes, and the checksum is correct again
  provided the IP header has at least 20 bytes and the segment at least 18; otherwise the
  packet is left as it is.
\<close>

theorem clampMSS_correct:
  assumes "wf_packet p" and "0 \<le> c" and "c < 65536" and "clampMSS p c = Some p'"
  shows "if syn_packet p \<and> computeTCPChecksum (payload p) 2 (tcp_start (payload p)) = Some 0 \<and>
      (\<exists>m. mss_option (payload p) (tcp_start (payload p) + 20) (header_end (payload p)) m \<and> int (mss_at (payload p) m) > c)
    then \<exists>m. mss_option (payload p) (tcp_start (payload p) + 20) (header_end (payload p)) m \<and>
      mss_at (payload p') m = nat c \<and>
      p' = p\<lparr>payload := payload p'\<rparr> \<and> length (payload p') = length (payload p) \<and>
      (\<forall>i. i \<notin> {m + 2, m + 3, tcp_start (payload p) + 16, tcp_start (payload p) + 17} \<longrightarrow> payload p' ! i = payload p ! i) \<and>
      (22 \<le> tcp_start (payload p) \<and> 18 \<le> seg_count (payload p) 2 \<longrightarrow>
         computeTCPChecksum (payload p') 2 (tcp_start (payload p)) = Some 0)
    else p' = p"
proof -
  let ?pl = "payload p" and ?t = "tcp_start (payload p)"
  have l: "length ?pl = 1500" using assms(1) by (simp add: wf_packet_def)
  from clampMSS_cases [OF assms(1-3)] assms(4)
  consider (same) "\<not> (syn_packet p \<and> computeTCPChecksum ?pl 2 ?t = Some 0 \<and>
        (\<exists>m. mss_option ?pl (?t + 20) (header_end ?pl) m \<and> int (mss_at ?pl m) > c))" "p' = p"
    | (low) m cs where "syn_packet p" "?t + seg_count ?pl 2 \<le> 1500" "computeTCPChecksum ?pl 2 ?t = Some 0"
        "mss_option ?pl (?t + 20) (header_end ?pl) m" "int (mss_at ?pl m) > c"
        "computeTCPChecksum (lowered ?pl ?t m c) 2 ?t = Some cs"
        "p' = p\<lparr>payload := (lowered ?pl ?t m c)[?t + 16 := lo8 cs, ?t + 17 := hi8 cs]\<rparr>" by auto
  then show ?thesis
  proof cases
    case same
    then show ?thesis by (simp only: if_False)
  next
    case low
    have mb: "m < 122" "?t + 20 \<le> m" using low(4) header_end_bound [of ?pl] opts_reach_le by (auto simp: mss_option_def)
    have m: "mss_at (payload p') m = nat c" using mss_lowered [OF mb(2) _ assms(2,3)] mb(1) l low(7) by simp
    have v: "computeTCPChecksum (payload p') 2 ?t = Some 0" if "22 \<le> ?t" "18 \<le> seg_count ?pl 2"
      using checksum_verifies [OF _ that(1) _ _ _ _ low(6)] that l low(2,7) mb by (simp add: lowered_def)
    have "payload p' ! i = ?pl ! i" if "i \<notin> {m + 2, m + 3, ?t + 16, ?t + 17}" for i
      using that low(7) by (simp add: lowered_def)
    then show ?thesis using low m v by auto
  qed
qed

theorem clampMSS_correct_witness:
  "\<exists>p'. clampMSS (sample_syn [0, 44]) 1412 = Some p' \<and> mss_at (payload (sample_syn [0, 44])) 42 = 1460 \<and>
     mss_at (payload p') 42 = 1412 \<and> computeTCPChecksum (payload p') 2 22 = Some 0"
proof -
  let ?p = "sample_syn [0, 44]"
  have n: "seg_count (payload ?p) 2 = 24" by (simp add: sample_syn_fields tcp_count_def)
  have c: "computeTCPChecksum (payload ?p) 2 22 = Some 0"
    using computeTCPChecksum_syn [OF sample_syn_wf, of 0 44 22] by (simp add: n sample_syn_checked)
  have h: "46 < length (payload ?p)" by (simp add: sample_syn_def)
  have m: "mss_option (payload ?p) 42 46 42"
    unfolding mss_option_def by (intro conjI opts_reach.here) (simp_all add: sample_syn_def)
  have a: "mss_at (payload ?p) 42 = 1460" by (simp add: sample_syn_def mss_at_def)
  obtain p' where p': "clampMSS ?p 1412 = Some p'"
    using clampMSS_cases [OF sample_syn_wf [of 0 44], of 1412] by (auto simp: sample_syn_fields tcp_count_def)
  have u: "m = 42" if "mss_option (payload ?p) 42 46 m" for m
    using find_mss_complete [OF h that] find_mss_complete [OF h m] by simp
  have cond: "syn_packet ?p \<and> computeTCPChecksum (payload ?p) 2 (tcp_start (payload ?p)) = Some 0 \<and>
      (\<exists>m. mss_option (payload ?p) (tcp_start (payload ?p) + 20) (header_end (payload ?p)) m \<and> int (mss_at (payload ?p) m) > 1412)"
    using c m a by (auto simp: sample_syn_fields)
  have "\<exists>m. mss_option (payload ?p) 42 46 m \<and> mss_at (payload p') m = 1412 \<and> computeTCPChecksum (payload p') 2 22 = Some 0"
    using clampMSS_correct [OF sample_syn_wf _ _ p', unfolded if_P [OF cond]] n by (auto simp: sample_syn_fields)
  then show ?thesis using p' a u by blast
qed

end
