(* ===== verification/Reflected_CRC.thy ===== *)
theory Reflected_CRC
  imports Gateway_Prelude
begin

unbundle bit_operations_syntax

text \<open>
  Cyclic redundancy checks in reflected form. \<^verbatim>\<open>crc_register\<close> is the shift register: one step takes the lowest
  bit out and adds the generator polynomial when it was set. \<^verbatim>\<open>table_crc\<close> adds a table with the register after
  eight steps for every byte, and shows that one look-up replaces the eight steps. Both are interpreted on the
  frame check sequence of PPP and on the CRC-32 of the multicast routing daemon.
\<close>

locale crc_register =
  fixes step :: "'a::len word \<Rightarrow> 'a word" and poly :: "'a word"
  assumes step_eq: "step w = drop_bit 1 w XOR (if bit w 0 then poly else 0)"
begin

lemma step_xor: "step (a XOR b) = step a XOR step b"
  by (rule bit_word_eqI) (auto simp: step_eq bit_simps)

lemma steps_xor: "(step ^^ n) (a XOR b) = (step ^^ n) a XOR (step ^^ n) b"
  by (induction n) (simp_all add: step_xor)

lemma steps_shift: "(\<And>i. i < n \<Longrightarrow> \<not> bit w i) \<Longrightarrow> (step ^^ n) w = drop_bit n w"
proof (induction n)
  case (Suc n)
  then have "(step ^^ n) w = drop_bit n w" by simp
  moreover have "\<not> bit (drop_bit n w) 0" using Suc.prems [of n] by (simp add: bit_drop_bit_eq)
  ultimately show ?case unfolding funpow.simps comp_def by (simp add: step_eq [of "drop_bit n w"] drop_bit_drop_bit)
qed simp

lemma steps8: "(step ^^ 8) w = step (step (step (step (step (step (step (step w)))))))"
  by (simp add: numeral_eq_Suc)

end

locale table_crc = crc_register +
  fixes table :: "'a::len word list"
  assumes table_eq: "i < 256 \<Longrightarrow> table ! i = (step ^^ 8) (of_nat i)"
    and width: "8 \<le> LENGTH('a)"
begin

lemma table_step: "drop_bit 8 c XOR table ! unat ((c XOR ucast b) AND 0xff) = (step ^^ 8) (c XOR ucast b)"
  for b :: byte
proof -
  let ?x = "c XOR ucast b :: 'a word"
  have m: "(0xff :: 'a word) = mask 8" by (simp add: mask_eq_exp_minus_1)
  have "unat (take_bit 8 ?x) < 2 ^ 8" unfolding unsigned_take_bit_eq by (rule take_bit_nat_less_exp)
  then have lo: "unat (?x AND 0xff) < 256" unfolding m by (simp add: take_bit_eq_mask)
  have tab: "table ! unat (?x AND 0xff) = (step ^^ 8) (?x AND 0xff)" using table_eq [OF lo] by simp
  have hi: "(step ^^ 8) (?x AND NOT 0xff) = drop_bit 8 (?x AND NOT 0xff)"
    unfolding m by (rule steps_shift) (auto simp: bit_simps)
  have d: "drop_bit 8 (?x AND NOT 0xff) = drop_bit 8 c"
    unfolding m by (rule bit_word_eqI) (auto simp: bit_simps dest: bit_byteD bit_imp_le_length)
  have "?x = (?x AND NOT 0xff) XOR (?x AND 0xff)" by (rule bit_word_eqI) (auto simp: bit_simps)
  then have "(step ^^ 8) ?x = (step ^^ 8) (?x AND NOT 0xff) XOR (step ^^ 8) (?x AND 0xff)" using steps_xor by metis
  then show ?thesis unfolding tab hi d by simp
qed

end

end
