(* ===== verification/PPP_FCS.thy ===== *)
theory PPP_FCS
  imports Reflected_CRC
begin

unbundle bit_operations_syntax

text \<open>
  The frame check sequence of PPP (\<^verbatim>\<open>fcstab\<close> and \<^verbatim>\<open>pppFCS16\<close> of \<^verbatim>\<open>ppp.c\<close>): the table is the one that
  the bit-serial CRC of RFC 1662 generates, so that the table-driven loop computes this CRC.
\<close>

section \<open>The frame check sequence\<close>

definition PPPINITFCS16 :: u16 where [simp]: "PPPINITFCS16 = 0xffff"

definition fcstab :: "u16 list" where
  "fcstab =
     [0x0000, 0x1189, 0x2312, 0x329b, 0x4624, 0x57ad, 0x6536, 0x74bf,
      0x8c48, 0x9dc1, 0xaf5a, 0xbed3, 0xca6c, 0xdbe5, 0xe97e, 0xf8f7,
      0x1081, 0x0108, 0x3393, 0x221a, 0x56a5, 0x472c, 0x75b7, 0x643e,
      0x9cc9, 0x8d40, 0xbfdb, 0xae52, 0xdaed, 0xcb64, 0xf9ff, 0xe876,
      0x2102, 0x308b, 0x0210, 0x1399, 0x6726, 0x76af, 0x4434, 0x55bd,
      0xad4a, 0xbcc3, 0x8e58, 0x9fd1, 0xeb6e, 0xfae7, 0xc87c, 0xd9f5,
      0x3183, 0x200a, 0x1291, 0x0318, 0x77a7, 0x662e, 0x54b5, 0x453c,
      0xbdcb, 0xac42, 0x9ed9, 0x8f50, 0xfbef, 0xea66, 0xd8fd, 0xc974,
      0x4204, 0x538d, 0x6116, 0x709f, 0x0420, 0x15a9, 0x2732, 0x36bb,
      0xce4c, 0xdfc5, 0xed5e, 0xfcd7, 0x8868, 0x99e1, 0xab7a, 0xbaf3,
      0x5285, 0x430c, 0x7197, 0x601e, 0x14a1, 0x0528, 0x37b3, 0x263a,
      0xdecd, 0xcf44, 0xfddf, 0xec56, 0x98e9, 0x8960, 0xbbfb, 0xaa72,
      0x6306, 0x728f, 0x4014, 0x519d, 0x2522, 0x34ab, 0x0630, 0x17b9,
      0xef4e, 0xfec7, 0xcc5c, 0xddd5, 0xa96a, 0xb8e3, 0x8a78, 0x9bf1,
      0x7387, 0x620e, 0x5095, 0x411c, 0x35a3, 0x242a, 0x16b1, 0x0738,
      0xffcf, 0xee46, 0xdcdd, 0xcd54, 0xb9eb, 0xa862, 0x9af9, 0x8b70,
      0x8408, 0x9581, 0xa71a, 0xb693, 0xc22c, 0xd3a5, 0xe13e, 0xf0b7,
      0x0840, 0x19c9, 0x2b52, 0x3adb, 0x4e64, 0x5fed, 0x6d76, 0x7cff,
      0x9489, 0x8500, 0xb79b, 0xa612, 0xd2ad, 0xc324, 0xf1bf, 0xe036,
      0x18c1, 0x0948, 0x3bd3, 0x2a5a, 0x5ee5, 0x4f6c, 0x7df7, 0x6c7e,
      0xa50a, 0xb483, 0x8618, 0x9791, 0xe32e, 0xf2a7, 0xc03c, 0xd1b5,
      0x2942, 0x38cb, 0x0a50, 0x1bd9, 0x6f66, 0x7eef, 0x4c74, 0x5dfd,
      0xb58b, 0xa402, 0x9699, 0x8710, 0xf3af, 0xe226, 0xd0bd, 0xc134,
      0x39c3, 0x284a, 0x1ad1, 0x0b58, 0x7fe7, 0x6e6e, 0x5cf5, 0x4d7c,
      0xc60c, 0xd785, 0xe51e, 0xf497, 0x8028, 0x91a1, 0xa33a, 0xb2b3,
      0x4a44, 0x5bcd, 0x6956, 0x78df, 0x0c60, 0x1de9, 0x2f72, 0x3efb,
      0xd68d, 0xc704, 0xf59f, 0xe416, 0x90a9, 0x8120, 0xb3bb, 0xa232,
      0x5ac5, 0x4b4c, 0x79d7, 0x685e, 0x1ce1, 0x0d68, 0x3ff3, 0x2e7a,
      0xe70e, 0xf687, 0xc41c, 0xd595, 0xa12a, 0xb0a3, 0x8238, 0x93b1,
      0x6b46, 0x7acf, 0x4854, 0x59dd, 0x2d62, 0x3ceb, 0x0e70, 0x1ff9,
      0xf78f, 0xe606, 0xd49d, 0xc514, 0xb1ab, 0xa022, 0x92b9, 0x8330,
      0x7bc7, 0x6a4e, 0x58d5, 0x495c, 0x3de3, 0x2c6a, 0x1ef1, 0x0f78]"

text \<open>The loop reads \<^verbatim>\<open>len\<close> bytes at \<^verbatim>\<open>cp\<close>; \<^verbatim>\<open>None\<close> when the buffer is shorter.\<close>

fun pppFCS16 :: "u16 \<Rightarrow> byte list \<Rightarrow> nat \<Rightarrow> u16 option" where
  "pppFCS16 fcs cp 0 = Some fcs"
| "pppFCS16 fcs [] (Suc len) = None"
| "pppFCS16 fcs (c # cp) (Suc len) =
     pppFCS16 (drop_bit 8 fcs XOR fcstab ! unat ((fcs XOR ucast c) AND 0xff)) cp len"

text \<open>
  The reference: the CRC of RFC 1662 one bit at a time, with the generator polynomial
  \<^verbatim>\<open>x^16 + x^12 + x^5 + 1\<close> in reflected form.
\<close>

definition crc_bit :: "u16 \<Rightarrow> u16" where
  "crc_bit w = drop_bit 1 w XOR (if bit w 0 then 0x8408 else 0)"

definition crc_byte :: "u16 \<Rightarrow> byte \<Rightarrow> u16" where
  "crc_byte fcs c = (crc_bit ^^ 8) (fcs XOR ucast c)"

definition fcs_step :: "u16 \<Rightarrow> byte \<Rightarrow> u16" where
  "fcs_step fcs c = drop_bit 8 fcs XOR fcstab ! unat ((fcs XOR ucast c) AND 0xff)"

lemma pppFCS16_foldl: "len \<le> length cp \<Longrightarrow> pppFCS16 fcs cp len = Some (foldl fcs_step fcs (take len cp))"
  by (induction fcs cp len rule: pppFCS16.induct) (simp_all add: fcs_step_def)

interpretation fcs_register: crc_register crc_bit "0x8408"
  by unfold_locales (simp add: crc_bit_def)

text \<open>The table doubles: the entries with bit \<^verbatim>\<open>k\<close> set are those without it, shifted by one constant.\<close>

definition dbl :: "u16 \<Rightarrow> u16 list \<Rightarrow> u16 list" where
  "dbl e xs = xs @ map ((XOR) e) xs"

definition fcs_table :: "nat \<Rightarrow> u16 list" where
  "fcs_table k = map (\<lambda>i. (crc_bit ^^ 8) (of_nat i)) [0..<2 ^ k]"

lemma fcs_table_Suc:
  assumes "k < 16"
  shows "fcs_table (Suc k) = dbl ((crc_bit ^^ 8) (2 ^ k)) (fcs_table k)"
proof -
  have "(of_nat (2 ^ k + i) :: u16) = 2 ^ k XOR of_nat i" if "i < 2 ^ k" for i
  proof -
    have "\<not> bit i k" using that by (simp add: bit_iff_odd)
    then have d: "\<not> bit (2 ^ k :: u16) n \<or> \<not> bit (of_nat i :: u16) n" for n by (auto simp: bit_simps)
    have "(of_nat (2 ^ k + i) :: u16) = 2 ^ k OR of_nat i" using d by (simp add: disjunctive_add)
    also have "\<dots> = 2 ^ k XOR of_nat i" using d by (intro bit_eqI) (auto simp: bit_or_iff bit_xor_iff)
    finally show ?thesis .
  qed
  then have "map (\<lambda>i. (crc_bit ^^ 8) (of_nat (2 ^ k + i))) [0..<2 ^ k] = map ((XOR) ((crc_bit ^^ 8) (2 ^ k))) (fcs_table k)"
    by (simp add: fcs_table_def fcs_register.steps_xor)
  moreover have "[0..<2 ^ Suc k] = [0..<2 ^ k] @ map (\<lambda>i. i + 2 ^ k) [0..<2 ^ k]"
    using upt_add_eq_append [of 0 "2 ^ k" "2 ^ k"] by (simp only: map_add_upt power_Suc mult_2)
  ultimately show ?thesis unfolding fcs_table_def dbl_def by (simp only: map_append map_map comp_def add.commute [of _ "2 ^ k"])
qed

lemma crc_powers:
  "(crc_bit ^^ 8) 1 = 0x1189" "(crc_bit ^^ 8) 2 = 0x2312" "(crc_bit ^^ 8) 4 = 0x4624" "(crc_bit ^^ 8) 8 = 0x8c48"
  "(crc_bit ^^ 8) 16 = 0x1081" "(crc_bit ^^ 8) 32 = 0x2102" "(crc_bit ^^ 8) 64 = 0x4204" "(crc_bit ^^ 8) 128 = 0x8408"
  "(crc_bit ^^ 8) 0 = 0"
  unfolding fcs_register.steps8 by (simp_all add: crc_bit_def)

lemma fcs_table_eq: "fcs_table 8 = fcstab"
proof -
  have 0: "fcs_table 0 = [0]" by (simp add: fcs_table_def crc_powers)
  have t: "fcs_table 1 = dbl 0x1189 (fcs_table 0)"
    "fcs_table 3 = dbl 0x4624 (fcs_table 2)" "fcs_table 4 = dbl 0x8c48 (fcs_table 3)"
    "fcs_table 5 = dbl 0x1081 (fcs_table 4)" "fcs_table 6 = dbl 0x2102 (fcs_table 5)"
    "fcs_table 7 = dbl 0x4204 (fcs_table 6)" "fcs_table 8 = dbl 0x8408 (fcs_table 7)"
    using fcs_table_Suc [of 0] fcs_table_Suc [of 2] fcs_table_Suc [of 3]
      fcs_table_Suc [of 4] fcs_table_Suc [of 5] fcs_table_Suc [of 6] fcs_table_Suc [of 7]
    by (simp_all add: crc_powers del: funpow.simps)
  have 2: "fcs_table 2 = dbl 0x2312 (fcs_table 1)"
    using fcs_table_Suc [of 1] by (simp add: crc_powers numeral_2_eq_2 del: funpow.simps)
  show ?thesis unfolding t 2 t(1) 0 fcstab_def by (simp add: dbl_def)
qed

lemma fcstab_crc: "i < 256 \<Longrightarrow> fcstab ! i = (crc_bit ^^ 8) (of_nat i)"
  by (simp add: fcs_table_eq [symmetric] fcs_table_def)

interpretation fcs: table_crc crc_bit "0x8408" fcstab
  by unfold_locales (simp_all add: fcstab_crc)

lemma fcs_step_crc: "fcs_step fcs c = crc_byte fcs c"
  by (simp add: fcs_step_def crc_byte_def fcs.table_step)

text \<open>The two bytes that a sender appends, and the value a receiver then finds.\<close>

definition fcs_tail :: "u16 \<Rightarrow> byte list" where
  "fcs_tail fcs = [ucast (fcs AND 0x00ff), ucast (drop_bit 8 fcs AND 0x00ff)]"

lemma good_fcs: "foldl fcs_step fcs (fcs_tail (fcs XOR 0xffff)) = 0xf0b8"
proof -
  have m: "(0xff :: u16) = mask 8" "(0xffff :: u16) = mask 16" by (simp_all add: mask_eq_exp_minus_1)
  have 1: "(fcs XOR ucast (ucast ((fcs XOR 0xffff) AND 0xff) :: byte)) AND 0xff = (0xff :: u16)"
    unfolding m by (rule bit_word_eqI) (auto simp: bit_simps)
  define g where "g = drop_bit 8 fcs XOR 0x0f78"
  have g: "fcs_step fcs (ucast ((fcs XOR 0xffff) AND 0xff)) = g"
    unfolding fcs_step_def 1 by (simp add: g_def fcstab_def)
  have 2: "(g XOR ucast (ucast (drop_bit 8 (fcs XOR 0xffff) AND 0xff) :: byte)) AND 0xff = (0x0f78 XOR 0xff) AND 0xff"
    unfolding g_def m by (rule bit_word_eqI) (auto simp: bit_simps)
  have "drop_bit 8 g = drop_bit 8 (0x0f78 :: u16)"
    unfolding g_def by (rule bit_word_eqI) (auto simp: bit_simps dest: bit_imp_le_length)
  then have "fcs_step g (ucast (drop_bit 8 (fcs XOR 0xffff) AND 0xff)) = 0xf0b8"
    unfolding fcs_step_def 2 by (simp add: fcstab_def)
  then show ?thesis using g by (simp add: fcs_tail_def)
qed

lemma check_steps:
  "fcs_step 0xFFFF 0x31 = 0x2F8D"
  "fcs_step 0x2F8D 0x32 = 0x4D53"
  "fcs_step 0x4D53 0x33 = 0x634B"
  "fcs_step 0x634B 0x34 = 0x8B13"
  "fcs_step 0x8B13 0x35 = 0x44BF"
  "fcs_step 0x44BF 0x36 = 0x198D"
  "fcs_step 0x198D 0x37 = 0x1AC8"
  "fcs_step 0x1AC8 0x38 = 0xF795"
  "fcs_step 0xF795 0x39 = 0x6F91"
  by (simp_all add: fcs_step_def fcstab_def)

text \<open>
  \<^verbatim>\<open>pppFCS16\<close> computes the CRC of RFC 1662: the loop over the table of 256 words gives the
  same as shifting the bits one by one through the generator polynomial, for every start value
  and every buffer.
\<close>

theorem pppFCS16_correct:
  assumes "len \<le> length cp"
  shows "pppFCS16 fcs cp len = Some (foldl crc_byte fcs (take len cp))"
proof -
  have "fcs_step = crc_byte" by (intro ext) (rule fcs_step_crc)
  then show ?thesis using pppFCS16_foldl [OF assms] by simp
qed

theorem pppFCS16_correct_witness:
  "9 \<le> length [0x31, 0x32, 0x33, 0x34, 0x35, 0x36, 0x37, 0x38, 0x39 :: byte] \<and>
   foldl crc_byte PPPINITFCS16 [0x31, 0x32, 0x33, 0x34, 0x35, 0x36, 0x37, 0x38, 0x39] = 0x6F91 \<and>
   pppFCS16 PPPINITFCS16 [0x31, 0x32, 0x33, 0x34, 0x35, 0x36, 0x37, 0x38, 0x39] 9 = Some 0x6F91"
proof -
  have "foldl crc_byte PPPINITFCS16 [0x31, 0x32, 0x33, 0x34, 0x35, 0x36, 0x37, 0x38, 0x39] = 0x6F91"
    by (simp add: fcs_step_crc [symmetric] check_steps)
  then show ?thesis
    using pppFCS16_correct [of 9 "[0x31, 0x32, 0x33, 0x34, 0x35, 0x36, 0x37, 0x38, 0x39]" PPPINITFCS16] by simp
qed

end
