(* ===== verification/PPP_Framing.thy ===== *)
theory PPP_Framing
  imports PPPoE_Discovery TCP_Clamp PPP_FCS
begin

unbundle bit_operations_syntax

text \<open>
  The data path of the PPPoE client between the PPP daemon and the Ethernet: \<^verbatim>\<open>ppp.c\<close> and the
  functions \<^verbatim>\<open>sendSessionPacket\<close>, \<^verbatim>\<open>sessionDiscoveryPacket\<close>, \<^verbatim>\<open>asyncReadFromEth\<close> and \<^verbatim>\<open>syncReadFromEth\<close>
  of \<^verbatim>\<open>pppoe.c\<close>. The result types are those of the discovery phase; an access outside the payload
  array or \<^verbatim>\<open>pppBuf\<close> is \<^verbatim>\<open>None\<close>. The nested loops of \<^verbatim>\<open>asyncReadFromPPP\<close> are kept as they are and
  proved equal to an automaton that takes one byte at a time; framing and unframing are inverse
  to each other.
\<close>

section \<open>Constants and state\<close>

definition FRAME_ESC :: byte where [simp]: "FRAME_ESC = 0x7D"
definition FRAME_FLAG :: byte where [simp]: "FRAME_FLAG = 0x7E"
definition FRAME_ADDR :: byte where [simp]: "FRAME_ADDR = 0xFF"
definition FRAME_CTRL :: byte where [simp]: "FRAME_CTRL = 0x03"
definition FRAME_ENC :: byte where [simp]: "FRAME_ENC = 0x20"
definition READ_CHUNK :: nat where [simp]: "READ_CHUNK = 4096"

datatype ppp_phase = STATE_WAITFOR_FRAME_ADDR | STATE_DROP_PROTO | STATE_BUILDING_PACKET

record ppp =
  PPPState :: ppp_phase
  PPPPacketSize :: nat
  PPPXorValue :: byte

definition initPPP :: ppp where
  "initPPP = \<lparr>PPPState = STATE_WAITFOR_FRAME_ADDR, PPPPacketSize = 0, PPPXorValue = 0\<rparr>"

section \<open>From the PPP daemon to the Ethernet\<close>

text \<open>
  \<^verbatim>\<open>clampMss\<close> is the variable \<^verbatim>\<open>optClampMSS\<close> and zero when the MSS is not to be clamped. The
  packet is returned because clamping changes it.
\<close>

definition sendSessionPacket :: "PPPoEConnection \<Rightarrow> int \<Rightarrow> PPPoEPacket \<Rightarrow> nat \<Rightarrow> (PPPoEPacket \<times> frame) option" where
  "sendSessionPacket conn clampMss packet len =
     (let packet = packet\<lparr>plength := htons (of_nat len)\<rparr>
      in do {
        packet \<leftarrow> (if clampMss \<noteq> 0 then clampMSS packet clampMss else Some packet);
        frm \<leftarrow> sendPacket (sessionSocket conn) packet (int (len + HDR_SIZE));
        Some (packet, frm)
      })"

text \<open>\<^verbatim>\<open>fatalSys\<close> of \<^verbatim>\<open>pppoe.c\<close>: a PADT when a session is open, then exit.\<close>

definition fatalSys :: "PPPoEPacket \<Rightarrow> u32 \<Rightarrow> PPPoEConnection \<Rightarrow> 'a client_result" where
  "fatalSys u pid conn =
     map_option (\<lambda>(conn, fs). (map Tx fs, Inl 1)) (sendPADT u pid conn (Some (cstr ''RP-PPPoE: System call error'')))"

definition end_of_file :: "PPPoEPacket \<Rightarrow> u32 \<Rightarrow> PPPoEConnection \<Rightarrow> string \<Rightarrow> 'a client_result" where
  "end_of_file u pid conn str =
     map_option (\<lambda>(conn, fs). (map Tx fs, Inl 0)) (sendPADT u pid conn (Some (cstr str)))"

text \<open>The result of \<^verbatim>\<open>read\<close> on the PPP daemon: failure, with \<^verbatim>\<open>EAGAIN\<close> or not, or bytes.\<close>

datatype read_result = ReadFails bool | Got "byte list"

text \<open>The three inner loops of \<^verbatim>\<open>asyncReadFromPPP\<close>; the argument is what is left of the buffer.\<close>

fun wait_addr :: "byte list \<Rightarrow> ppp_phase \<times> byte list" where
  "wait_addr [] = (STATE_WAITFOR_FRAME_ADDR, [])"
| "wait_addr (c # cs) = (if c = FRAME_ADDR then (STATE_DROP_PROTO, cs) else wait_addr cs)"

fun drop_proto :: "byte list \<Rightarrow> ppp_phase \<times> byte list" where
  "drop_proto [] = (STATE_DROP_PROTO, [])"
| "drop_proto (c # cs) = (if c = FRAME_CTRL XOR FRAME_ENC then (STATE_BUILDING_PACKET, cs) else drop_proto cs)"

text \<open>The body of the third loop, for one byte.\<close>

definition build_byte ::
  "PPPoEPacket \<Rightarrow> u32 \<Rightarrow> PPPoEConnection \<Rightarrow> int \<Rightarrow> ppp \<Rightarrow> PPPoEPacket \<Rightarrow> byte \<Rightarrow> (ppp \<times> PPPoEPacket) client_result" where
  "build_byte u pid conn clampMss s packet c =
     (if c = FRAME_ESC then Some ([], Inr (s\<lparr>PPPXorValue := FRAME_ENC\<rparr>, packet))
      else if c = FRAME_FLAG then
        (if PPPPacketSize s < 2 then rp_fatal u pid conn ''Packet too short from PPP (asyncReadFromPPP)''
         else (case sendSessionPacket conn clampMss packet (PPPPacketSize s - 2) of
                 None \<Rightarrow> None
               | Some (packet, frm) \<Rightarrow>
                   Some ([Tx frm], Inr (s\<lparr>PPPPacketSize := 0, PPPXorValue := 0, PPPState := STATE_WAITFOR_FRAME_ADDR\<rparr>, packet))))
      else if PPPPacketSize s \<ge> ETH_DATA_LEN - 4 then
        Some ([], Inr (s\<lparr>PPPPacketSize := 0, PPPXorValue := 0, PPPState := STATE_WAITFOR_FRAME_ADDR\<rparr>, packet))
      else (case memcpy_at (payload packet) (PPPPacketSize s) [c XOR PPPXorValue s] of
              None \<Rightarrow> None
            | Some pl \<Rightarrow>
                Some ([], Inr (s\<lparr>PPPPacketSize := PPPPacketSize s + 1, PPPXorValue := 0\<rparr>, packet\<lparr>payload := pl\<rparr>))))"

fun build_packet ::
  "PPPoEPacket \<Rightarrow> u32 \<Rightarrow> PPPoEConnection \<Rightarrow> int \<Rightarrow> ppp \<Rightarrow> PPPoEPacket \<Rightarrow> byte list \<Rightarrow>
     (ppp \<times> PPPoEPacket \<times> byte list) client_result" where
  "build_packet u pid conn clampMss s packet [] = Some ([], Inr (s, packet, []))"
| "build_packet u pid conn clampMss s packet (c # cs) =
     (if PPPState s \<noteq> STATE_BUILDING_PACKET then Some ([], Inr (s, packet, c # cs))
      else then_do (build_byte u pid conn clampMss s packet c)
             (\<lambda>(s, packet). build_packet u pid conn clampMss s packet cs))"

lemma wait_addr_le: "length (snd (wait_addr buf)) \<le> length buf"
  by (induction buf rule: wait_addr.induct) auto

lemma wait_addr_less: "buf \<noteq> [] \<Longrightarrow> length (snd (wait_addr buf)) < length buf"
  using wait_addr_le [of "tl buf"] by (cases buf) (auto simp: less_Suc_eq_le)

lemma drop_proto_le: "length (snd (drop_proto buf)) \<le> length buf"
  by (induction buf rule: drop_proto.induct) auto

lemma drop_proto_less: "buf \<noteq> [] \<Longrightarrow> length (snd (drop_proto buf)) < length buf"
  using drop_proto_le [of "tl buf"] by (cases buf) (auto simp: less_Suc_eq_le)

lemma then_do_eq_Inr:
  "then_do r k = Some (acts, Inr b) \<longleftrightarrow>
     (\<exists>as1 as2 a. r = Some (as1, Inr a) \<and> k a = Some (as2, Inr b) \<and> acts = as1 @ as2)"
  by (auto simp: then_do_def split: option.splits sum.splits)

lemma build_packet_le:
  "build_packet u pid conn clampMss s packet buf = Some (acts, Inr (s', packet', buf')) \<Longrightarrow> length buf' \<le> length buf"
  by (induction buf arbitrary: s packet acts) (fastforce simp: then_do_eq_Inr le_SucI split: if_splits)+

lemma build_packet_less:
  "build_packet u pid conn clampMss s packet buf = Some (acts, Inr (s', packet', buf')) \<Longrightarrow>
    PPPState s = STATE_BUILDING_PACKET \<Longrightarrow> buf \<noteq> [] \<Longrightarrow> length buf' < length buf"
  by (cases buf) (auto simp: then_do_eq_Inr less_Suc_eq_le dest: build_packet_le)

text \<open>The outer loop.\<close>

function async_loop ::
  "PPPoEPacket \<Rightarrow> u32 \<Rightarrow> PPPoEConnection \<Rightarrow> int \<Rightarrow> ppp \<Rightarrow> PPPoEPacket \<Rightarrow> byte list \<Rightarrow> (ppp \<times> PPPoEPacket) client_result" where
  "async_loop u pid conn clampMss s packet buf =
     (if buf = [] then Some ([], Inr (s, packet))
      else (let (ph, buf1) = (if PPPState s = STATE_WAITFOR_FRAME_ADDR then wait_addr buf else (PPPState s, buf))
            in if ph = STATE_WAITFOR_FRAME_ADDR then Some ([], Inr (s\<lparr>PPPState := ph\<rparr>, packet))
               else (let (ph, buf2) = (if ph = STATE_DROP_PROTO then drop_proto buf1 else (ph, buf1))
                     in if ph = STATE_DROP_PROTO then Some ([], Inr (s\<lparr>PPPState := ph\<rparr>, packet))
                        else (case build_packet u pid conn clampMss (s\<lparr>PPPState := ph\<rparr>) packet buf2 of
                                None \<Rightarrow> None
                              | Some (acts, Inl x) \<Rightarrow> Some (acts, Inl x)
                              | Some (acts, Inr (s, packet, buf3)) \<Rightarrow>
                                  map_option (\<lambda>(acts', r). (acts @ acts', r)) (async_loop u pid conn clampMss s packet buf3)))))"
  by pat_completeness auto

lemma wait_addr_phase: "fst (wait_addr buf) = STATE_WAITFOR_FRAME_ADDR \<or> fst (wait_addr buf) = STATE_DROP_PROTO"
  by (induction buf rule: wait_addr.induct) auto

lemma drop_proto_phase: "fst (drop_proto buf) = STATE_DROP_PROTO \<or> fst (drop_proto buf) = STATE_BUILDING_PACKET"
  by (induction buf rule: drop_proto.induct) auto

lemma build_packet_len:
  assumes "build_packet u pid conn clampMss s packet buf2 = Some (acts, Inr (s', packet', buf3))"
    and "length buf2 < length buf \<or> buf2 = buf \<and> PPPState s = STATE_BUILDING_PACKET" and "buf \<noteq> []"
  shows "length buf3 < length buf"
  using assms build_packet_le [OF assms(1)] build_packet_less [OF assms(1)] by auto

text \<open>Each round of the outer loop that gets as far as building a packet makes progress.\<close>

lemma round_progress:
  assumes "buf \<noteq> []"
    and "(if PPPState s = STATE_WAITFOR_FRAME_ADDR then wait_addr buf else (PPPState s, buf)) = (ph, buf1)"
    and "(if ph = STATE_DROP_PROTO then drop_proto buf1 else (ph, buf1)) = (ph2, buf2)"
    and "ph \<noteq> STATE_WAITFOR_FRAME_ADDR"
  shows "length buf2 < length buf \<or> buf2 = buf \<and> ph2 = STATE_BUILDING_PACKET"
proof (cases "PPPState s = STATE_WAITFOR_FRAME_ADDR")
  case True
  then have "length buf1 < length buf" using wait_addr_less [OF assms(1)] assms(2) by simp
  moreover have "length buf2 \<le> length buf1" using drop_proto_le [of buf1] assms(3) by (simp split: if_splits)
  ultimately show ?thesis by simp
next
  case False
  then have "ph = PPPState s" "buf1 = buf" using assms(2) by simp_all
  then show ?thesis using drop_proto_less [OF assms(1)] assms(3,4) by (cases ph) auto
qed

termination async_loop
proof (relation "measure (\<lambda>(u, pid, conn, clampMss, s, packet, buf). length buf)", goal_cases)
  case (2 u pid conn clampMss s packet buf x ph buf1 xa ph2 buf2 r pr acts rr s' sp packet' buf3)
  have "length buf2 < length buf \<or> buf2 = buf \<and> ph2 = STATE_BUILDING_PACKET"
    by (rule round_progress [OF 2(1), of s ph buf1]) (use 2(2-6) in simp_all)
  then have "length buf3 < length buf" using build_packet_len [where buf = buf] 2(1,8-) by fastforce
  then show ?case by simp
qed auto

declare async_loop.simps [simp del]

text \<open>\<^verbatim>\<open>read\<close> returns at most as many bytes as the buffer holds.\<close>

definition asyncReadFromPPP ::
  "PPPoEPacket \<Rightarrow> u32 \<Rightarrow> PPPoEConnection \<Rightarrow> int \<Rightarrow> read_result \<Rightarrow> ppp \<Rightarrow> PPPoEPacket \<Rightarrow> (ppp \<times> PPPoEPacket) client_result" where
  "asyncReadFromPPP u pid conn clampMss rd_res s packet =
     (case rd_res of
        ReadFails again \<Rightarrow> fatalSys u pid conn
      | Got bs \<Rightarrow>
          if bs = [] then end_of_file u pid conn ''RP-PPPoE: EOF in asyncReadFromPPP''
          else async_loop u pid conn clampMss s packet (take READ_CHUNK bs))"

definition syncReadFromPPP ::
  "PPPoEPacket \<Rightarrow> u32 \<Rightarrow> PPPoEConnection \<Rightarrow> int \<Rightarrow> read_result \<Rightarrow> PPPoEPacket \<Rightarrow> PPPoEPacket client_result" where
  "syncReadFromPPP u pid conn clampMss rd_res packet =
     (case rd_res of
        ReadFails again \<Rightarrow>
          if again then rp_fatal u pid conn ''Linux select bug hit!  This message is harmless, but please ask the Linux kernel developers to fix it.''
          else fatalSys u pid conn
      | Got bs \<Rightarrow>
          (let bs = take (ETH_DATA_LEN - PPPOE_OVERHEAD + 2) bs; r = length bs
           in if r = 0 then end_of_file u pid conn ''RP-PPPoE: EOF in syncReadFromPPP''
              else if r < 2 then rp_fatal u pid conn ''too few characters read from PPP (syncReadFromPPP)''
              else (case memcpy_at (payload packet) 0 (drop 2 bs) of
                      None \<Rightarrow> None
                    | Some pl \<Rightarrow>
                        (case sendSessionPacket conn clampMss (packet\<lparr>payload := pl\<rparr>) (r - 2) of
                           None \<Rightarrow> None
                         | Some (packet, frm) \<Rightarrow> Some ([Tx frm], Inr packet)))))"

section \<open>From the Ethernet to the PPP daemon\<close>

text \<open>\<^verbatim>\<open>sessionDiscoveryPacket\<close> of the BPF build, for a packet already received, and of the other builds.\<close>

definition sessionDiscoveryPacket_bpf :: "PPPoEConnection \<Rightarrow> PPPoEPacket \<Rightarrow> unit client_result" where
  "sessionDiscoveryPacket_bpf conn packet =
     (if code packet \<noteq> CODE_PADT then Some ([], Inr ())
      else if session packet \<noteq> c_session conn then Some ([], Inr ())
      else (case parsePacket packet parseLogErrs [] of None \<Rightarrow> None | Some _ \<Rightarrow> Some ([], Inl 0)))"

definition sessionDiscoveryPacket :: "PPPoEPacket \<Rightarrow> PPPoEConnection \<Rightarrow> dev_event \<Rightarrow> unit client_result" where
  "sessionDiscoveryPacket u conn ev =
     (case ev of
        Frame f \<Rightarrow>
          (let (packet, len) = receivePacket u f
           in if bogus_length packet len then Some ([], Inr ())
              else if code packet \<noteq> CODE_PADT then Some ([], Inr ())
              else if session packet \<noteq> c_session conn then Some ([], Inr ())
              else (case parsePacket packet parseLogErrs [] of None \<Rightarrow> None | Some _ \<Rightarrow> Some ([], Inl 0)))
      | _ \<Rightarrow> Some ([], Inr ()))"

text \<open>
  What \<^verbatim>\<open>asyncReadFromEth\<close> and \<^verbatim>\<open>syncReadFromEth\<close> have in common: receiving and checking a packet.
  The result is \<^verbatim>\<open>None\<close> when they return early, otherwise the packet and \<^verbatim>\<open>plen\<close>.
\<close>

definition session_input ::
  "bool \<Rightarrow> PPPoEPacket \<Rightarrow> PPPoEConnection \<Rightarrow> int \<Rightarrow> dev_event \<Rightarrow> (PPPoEPacket \<times> nat) option client_result" where
  "session_input bpf u conn clampMss ev =
     (case ev of
        Frame f \<Rightarrow>
          (let (packet, len) = receivePacket u f
           in if bogus_length packet len then Some ([], Inr None)
              else if bpf \<and> etherType packet \<noteq> Eth_PPPOE_Discovery conn \<and> etherType packet \<noteq> Eth_PPPOE_Session conn
                then Some ([], Inr None)
              else then_do (if bpf \<and> etherType packet = Eth_PPPOE_Discovery conn
                            then sessionDiscoveryPacket_bpf conn packet else Some ([], Inr ())) (\<lambda>_.
                if code packet \<noteq> CODE_SESS then Some ([], Inr None)
                else if pver packet \<noteq> 1 then Some ([], Inr None)
                else if ptype packet \<noteq> 1 then Some ([], Inr None)
                else if h_source packet \<noteq> peerEth conn then Some ([], Inr None)
                else if session packet \<noteq> c_session conn then Some ([], Inr None)
                else (let plen = pkt_len packet
                      in if bogus_length packet len then Some ([], Inr None)
                         else (case (if clampMss \<noteq> 0 then clampMSS packet clampMss else Some packet) of
                                 None \<Rightarrow> None
                               | Some packet \<Rightarrow> Some ([], Inr (Some (packet, plen)))))))
      | _ \<Rightarrow> Some ([], Inr None))"

text \<open>Writing into \<^verbatim>\<open>pppBuf[4096]\<close>, with a byte escaped where the frame needs it.\<close>

definition put1 :: "byte \<Rightarrow> byte list \<Rightarrow> byte list option" where
  "put1 b buf = (if length buf < 4096 then Some (buf @ [b]) else None)"

definition put_escaped1 :: "byte \<Rightarrow> byte list \<Rightarrow> byte list option" where
  "put_escaped1 c buf =
     (if c = FRAME_FLAG \<or> c = FRAME_ADDR \<or> c = FRAME_ESC \<or> c < 0x20
      then do { buf \<leftarrow> put1 FRAME_ESC buf; put1 (c XOR FRAME_ENC) buf }
      else put1 c buf)"

fun put_escaped :: "byte list \<Rightarrow> byte list \<Rightarrow> byte list option" where
  "put_escaped [] buf = Some buf"
| "put_escaped (c # cs) buf = do { buf \<leftarrow> put_escaped1 c buf; put_escaped cs buf }"

definition async_frame :: "PPPoEPacket \<Rightarrow> nat \<Rightarrow> byte list option" where
  "async_frame packet plen =
     do {
       fcs \<leftarrow> pppFCS16 PPPINITFCS16 [FRAME_ADDR, FRAME_CTRL] 2;
       fcs \<leftarrow> pppFCS16 fcs (payload packet) plen;
       let tail = fcs_tail (fcs XOR 0xffff);
       buf \<leftarrow> put1 FRAME_FLAG [];
       buf \<leftarrow> put1 FRAME_ADDR buf;
       buf \<leftarrow> put1 FRAME_ESC buf;
       buf \<leftarrow> put1 (FRAME_CTRL XOR FRAME_ENC) buf;
       buf \<leftarrow> put_escaped (take plen (payload packet)) buf;
       buf \<leftarrow> put_escaped tail buf;
       put1 FRAME_FLAG buf
     }"

text \<open>\<^verbatim>\<open>wok\<close> tells whether the final \<^verbatim>\<open>write\<close> succeeds.\<close>

definition asyncReadFromEth ::
  "bool \<Rightarrow> PPPoEPacket \<Rightarrow> u32 \<Rightarrow> PPPoEConnection \<Rightarrow> int \<Rightarrow> bool \<Rightarrow> dev_event \<Rightarrow> unit client_result" where
  "asyncReadFromEth bpf u pid conn clampMss wok ev =
     then_do (session_input bpf u conn clampMss ev) (\<lambda>r. case r of
       None \<Rightarrow> Some ([], Inr ())
     | Some (packet, plen) \<Rightarrow>
         (case async_frame packet plen of
            None \<Rightarrow> None
          | Some pppBuf \<Rightarrow> if wok then Some ([Write pppBuf], Inr ()) else fatalSys u pid conn))"

definition syncReadFromEth ::
  "bool \<Rightarrow> PPPoEPacket \<Rightarrow> u32 \<Rightarrow> PPPoEConnection \<Rightarrow> int \<Rightarrow> bool \<Rightarrow> dev_event \<Rightarrow> unit client_result" where
  "syncReadFromEth bpf u pid conn clampMss wok ev =
     then_do (session_input bpf u conn clampMss ev) (\<lambda>r. case r of
       None \<Rightarrow> Some ([], Inr ())
     | Some (packet, plen) \<Rightarrow>
         if plen > length (payload packet) then None
         else if wok then Some ([Write ([FRAME_ADDR, FRAME_CTRL] @ take plen (payload packet))], Inr ())
         else fatalSys u pid conn)"

section \<open>The byte automaton\<close>

text \<open>The reference for the nested loops: one transition per byte.\<close>

definition ppp_step ::
  "PPPoEPacket \<Rightarrow> u32 \<Rightarrow> PPPoEConnection \<Rightarrow> int \<Rightarrow> ppp \<times> PPPoEPacket \<Rightarrow> byte \<Rightarrow> (ppp \<times> PPPoEPacket) client_result" where
  "ppp_step u pid conn clampMss sp c = (case sp of (s, packet) \<Rightarrow>
     (case PPPState s of
        STATE_WAITFOR_FRAME_ADDR \<Rightarrow> Some ([], Inr (if c = FRAME_ADDR then s\<lparr>PPPState := STATE_DROP_PROTO\<rparr> else s, packet))
      | STATE_DROP_PROTO \<Rightarrow> Some ([], Inr (if c = FRAME_CTRL XOR FRAME_ENC then s\<lparr>PPPState := STATE_BUILDING_PACKET\<rparr> else s, packet))
      | STATE_BUILDING_PACKET \<Rightarrow> build_byte u pid conn clampMss s packet c))"

fun ppp_run ::
  "PPPoEPacket \<Rightarrow> u32 \<Rightarrow> PPPoEConnection \<Rightarrow> int \<Rightarrow> ppp \<times> PPPoEPacket \<Rightarrow> byte list \<Rightarrow> (ppp \<times> PPPoEPacket) client_result" where
  "ppp_run u pid conn clampMss sp [] = Some ([], Inr sp)"
| "ppp_run u pid conn clampMss sp (c # cs) =
     then_do (ppp_step u pid conn clampMss sp c) (\<lambda>sp. ppp_run u pid conn clampMss sp cs)"

lemma map_option_id [simp]: "map_option id x = x"
  by (cases x) simp_all

lemma then_do_ret [simp]: "then_do (Some ([], Inr a)) k = k a"
  by (auto simp: then_do_def option.map_ident split: option.splits)

lemma then_do_None [simp]: "then_do None k = None"
  by (simp add: then_do_def)

lemma then_do_assoc: "then_do (then_do r k) l = then_do r (\<lambda>a. then_do (k a) l)"
  by (auto simp: then_do_def option.map_comp comp_def case_prod_unfold split: option.splits sum.splits)

lemma then_do_cong_Inr: "(\<And>acts a. r = Some (acts, Inr a) \<Longrightarrow> k a = l a) \<Longrightarrow> then_do r k = then_do r l"
  by (auto simp: then_do_def split: option.splits sum.splits)

lemma ppp_run_append:
  "ppp_run u pid conn clampMss sp (xs @ ys) =
    then_do (ppp_run u pid conn clampMss sp xs) (\<lambda>sp. ppp_run u pid conn clampMss sp ys)"
  by (induction xs arbitrary: sp) (simp_all add: then_do_assoc)

lemma wait_addr_run:
  "PPPState s = STATE_WAITFOR_FRAME_ADDR \<Longrightarrow> ppp_run u pid conn clampMss (s, packet) buf =
    ppp_run u pid conn clampMss (s\<lparr>PPPState := fst (wait_addr buf)\<rparr>, packet) (snd (wait_addr buf))"
  by (induction buf rule: wait_addr.induct) (simp_all add: ppp_step_def)

lemma drop_proto_run:
  "PPPState s = STATE_DROP_PROTO \<Longrightarrow> ppp_run u pid conn clampMss (s, packet) buf =
    ppp_run u pid conn clampMss (s\<lparr>PPPState := fst (drop_proto buf)\<rparr>, packet) (snd (drop_proto buf))"
  by (induction buf rule: drop_proto.induct) (simp_all add: ppp_step_def)

lemma build_packet_run:
  "ppp_run u pid conn clampMss (s, packet) buf =
    then_do (build_packet u pid conn clampMss s packet buf) (\<lambda>(s, packet, buf). ppp_run u pid conn clampMss (s, packet) buf)"
proof (induction buf arbitrary: s packet)
  case (Cons c cs)
  let ?K = "\<lambda>(s, packet, buf). ppp_run u pid conn clampMss (s, packet) buf"
  show ?case
  proof (cases "PPPState s = STATE_BUILDING_PACKET")
    case True
    have "(\<lambda>sp. ppp_run u pid conn clampMss sp cs) =
        (\<lambda>sp. then_do (case sp of (s, packet) \<Rightarrow> build_packet u pid conn clampMss s packet cs) ?K)"
      by (rule ext) (simp add: Cons.IH split: prod.split)
    then show ?thesis using True by (simp add: then_do_assoc ppp_step_def)
  qed simp
qed simp

lemma wait_addr_rest: "fst (wait_addr buf) = STATE_WAITFOR_FRAME_ADDR \<Longrightarrow> snd (wait_addr buf) = []"
  by (induction buf rule: wait_addr.induct) (auto split: if_splits)

lemma drop_proto_rest: "fst (drop_proto buf) = STATE_DROP_PROTO \<Longrightarrow> snd (drop_proto buf) = []"
  by (induction buf rule: drop_proto.induct) (auto split: if_splits)

lemma async_loop_run: "async_loop u pid conn clampMss s packet buf = ppp_run u pid conn clampMss (s, packet) buf"
proof (induction "length buf" arbitrary: s packet buf rule: less_induct)
  case less
  define p1 where "p1 = (if PPPState s = STATE_WAITFOR_FRAME_ADDR then wait_addr buf else (PPPState s, buf))"
  define p2 where "p2 = (if fst p1 = STATE_DROP_PROTO then drop_proto (snd p1) else p1)"
  let ?run = "ppp_run u pid conn clampMss"
  show ?case
  proof (cases "buf = []")
    case False
    have step: "async_loop u pid conn clampMss s packet buf =
       (if fst p1 = STATE_WAITFOR_FRAME_ADDR then Some ([], Inr (s\<lparr>PPPState := fst p1\<rparr>, packet))
        else if fst p2 = STATE_DROP_PROTO then Some ([], Inr (s\<lparr>PPPState := fst p2\<rparr>, packet))
        else then_do (build_packet u pid conn clampMss (s\<lparr>PPPState := fst p2\<rparr>) packet (snd p2))
               (\<lambda>(s, packet, buf). async_loop u pid conn clampMss s packet buf))"
      using False unfolding async_loop.simps [of _ _ _ _ s _ buf] then_do_def case_prod_unfold Let_def by (simp add: p1_def p2_def)
    have r1: "?run (s, packet) buf = ?run (s\<lparr>PPPState := fst p1\<rparr>, packet) (snd p1)"
      using wait_addr_run [of s] by (simp add: p1_def)
    have r2: "?run (s\<lparr>PPPState := fst p1\<rparr>, packet) (snd p1) = ?run (s\<lparr>PPPState := fst p2\<rparr>, packet) (snd p2)"
      using drop_proto_run [of "s\<lparr>PPPState := fst p1\<rparr>"] by (simp add: p2_def)
    consider "fst p1 = STATE_WAITFOR_FRAME_ADDR" "snd p1 = []"
      | "fst p1 \<noteq> STATE_WAITFOR_FRAME_ADDR" "fst p2 = STATE_DROP_PROTO" "snd p2 = []"
      | "fst p1 \<noteq> STATE_WAITFOR_FRAME_ADDR" "fst p2 \<noteq> STATE_DROP_PROTO"
        "length (snd p2) < length buf \<or> snd p2 = buf \<and> fst p2 = STATE_BUILDING_PACKET"
    proof -
      have "fst p1 = STATE_WAITFOR_FRAME_ADDR \<Longrightarrow> snd p1 = []" using wait_addr_rest by (auto simp: p1_def split: if_splits)
      moreover have "fst p2 = STATE_DROP_PROTO \<Longrightarrow> snd p2 = []" using drop_proto_rest by (auto simp: p2_def split: if_splits)
      moreover have "length (snd p2) < length buf \<or> snd p2 = buf \<and> fst p2 = STATE_BUILDING_PACKET"
        if "fst p1 \<noteq> STATE_WAITFOR_FRAME_ADDR"
        by (rule round_progress [OF False, of s "fst p1" "snd p1"]) (use that in \<open>simp_all add: p1_def p2_def\<close>)
      ultimately show thesis using that by blast
    qed
    then show ?thesis
    proof cases
      case 1
      then show ?thesis using step r1 by simp
    next
      case 2
      then show ?thesis using step r1 r2 by simp
    next
      case 3
      let ?b = "build_packet u pid conn clampMss (s\<lparr>PPPState := fst p2\<rparr>) packet (snd p2)"
      have "then_do ?b (\<lambda>(s, packet, buf). async_loop u pid conn clampMss s packet buf) =
            then_do ?b (\<lambda>(s, packet, buf). ?run (s, packet) buf)"
      proof (rule then_do_cong_Inr)
        fix acts a assume b: "?b = Some (acts, Inr a)"
        obtain s' packet' buf' where a: "a = (s', packet', buf')" by (cases a)
        have "length buf' < length buf" by (rule build_packet_len [OF b [unfolded a] _ False]) (use 3(3) in simp)
        then show "(case a of (s, packet, buf) \<Rightarrow> async_loop u pid conn clampMss s packet buf) =
            (case a of (s, packet, buf) \<Rightarrow> ?run (s, packet) buf)" using less a by simp
      qed
      then show ?thesis using step r1 r2 3(1,2) build_packet_run [of u pid conn clampMss "s\<lparr>PPPState := fst p2\<rparr>" packet "snd p2"] by simp
    qed
  qed (simp add: async_loop.simps)
qed

section \<open>Framing and unframing\<close>

definition esc1 :: "byte \<Rightarrow> byte list" where
  "esc1 c = (if c = FRAME_FLAG \<or> c = FRAME_ADDR \<or> c = FRAME_ESC \<or> c < 0x20 then [FRAME_ESC, c XOR FRAME_ENC] else [c])"

definition escape :: "byte list \<Rightarrow> byte list" where
  "escape cs = concat (map esc1 cs)"

definition data_fcs :: "byte list \<Rightarrow> byte list" where
  "data_fcs cs = fcs_tail (foldl fcs_step PPPINITFCS16 ([FRAME_ADDR, FRAME_CTRL] @ cs) XOR 0xffff)"

definition ppp_frame :: "byte list \<Rightarrow> byte list" where
  "ppp_frame cs = [FRAME_FLAG, FRAME_ADDR, FRAME_ESC, FRAME_CTRL XOR FRAME_ENC] @ escape (cs @ data_fcs cs) @ [FRAME_FLAG]"

lemma escape_simps [simp]: "escape [] = []" "escape (c # cs) = esc1 c @ escape cs" "escape (xs @ ys) = escape xs @ escape ys"
  by (simp_all add: escape_def)

lemma length_escape: "length (escape cs) \<le> 2 * length cs"
  by (induction cs) (auto simp: esc1_def)

lemma put1_some [simp]: "length buf < 4096 \<Longrightarrow> put1 b buf = Some (buf @ [b])"
  by (simp add: put1_def)

lemma put_escaped_eq: "length buf + length (escape cs) \<le> 4096 \<Longrightarrow> put_escaped cs buf = Some (buf @ escape cs)"
  by (induction cs arbitrary: buf) (auto simp: put_escaped1_def esc1_def split: if_splits)

lemma length_fcs_tail [simp]: "length (fcs_tail w) = 2"
  by (simp add: fcs_tail_def)

lemma length_data_fcs [simp]: "length (data_fcs cs) = 2"
  by (simp add: data_fcs_def)

lemma async_frame_eq:
  assumes "wf_packet packet" and "plen \<le> 1500"
  shows "async_frame packet plen = Some (ppp_frame (take plen (payload packet)))"
proof -
  let ?d = "take plen (payload packet)"
  have l: "length (payload packet) = 1500" using assms(1) by (simp add: wf_packet_def)
  have "pppFCS16 PPPINITFCS16 [FRAME_ADDR, FRAME_CTRL] 2 = Some (foldl fcs_step PPPINITFCS16 [FRAME_ADDR, FRAME_CTRL])"
    by (subst pppFCS16_foldl) simp_all
  moreover have "pppFCS16 f (payload packet) plen = Some (foldl fcs_step f ?d)" for f
    using assms(2) l by (simp add: pppFCS16_foldl)
  moreover have e: "length (escape ?d) \<le> 3000" "length (escape (data_fcs ?d)) \<le> 4"
    using length_escape [of ?d] length_escape [of "data_fcs ?d"] assms(2) l by simp_all
  moreover have "put_escaped ?d [FRAME_FLAG, FRAME_ADDR, FRAME_ESC, FRAME_CTRL XOR FRAME_ENC] =
      Some ([FRAME_FLAG, FRAME_ADDR, FRAME_ESC, FRAME_CTRL XOR FRAME_ENC] @ escape ?d)"
    using e by (intro put_escaped_eq) simp
  moreover have "put_escaped (data_fcs ?d) ([FRAME_FLAG, FRAME_ADDR, FRAME_ESC, FRAME_CTRL XOR FRAME_ENC] @ escape ?d) =
      Some ([FRAME_FLAG, FRAME_ADDR, FRAME_ESC, FRAME_CTRL XOR FRAME_ENC] @ escape ?d @ escape (data_fcs ?d))"
    using e by (subst put_escaped_eq) simp_all
  ultimately show ?thesis
    unfolding async_frame_def ppp_frame_def by (simp add: data_fcs_def Let_def)
qed

section \<open>What is sent\<close>

definition sess_hdr :: "PPPoEConnection \<Rightarrow> PPPoEPacket \<Rightarrow> bool" where
  "sess_hdr conn p \<longleftrightarrow> h_dest p = peerEth conn \<and> h_source p = myEth conn \<and> h_proto p = htons (Eth_PPPOE_Session conn) \<and>
     pver p = 1 \<and> ptype p = 1 \<and> code p = CODE_SESS \<and> session p = c_session conn"

definition session_frame :: "PPPoEConnection \<Rightarrow> byte list \<Rightarrow> byte list" where
  "session_frame conn bs =
     mk_header (peerEth conn) (myEth conn) (Eth_PPPOE_Session conn) CODE_SESS (c_session conn) (length bs) @ bs"

lemma sess_hdr_upd [simp]:
  "sess_hdr conn (p\<lparr>payload := pl\<rparr>) = sess_hdr conn p" "sess_hdr conn (p\<lparr>plength := n\<rparr>) = sess_hdr conn p"
  by (simp_all add: sess_hdr_def)

lemma wf_packet_upd [simp]:
  "wf_packet (p\<lparr>plength := n\<rparr>) = wf_packet p" "length pl = 1500 \<Longrightarrow> wf_packet p \<Longrightarrow> wf_packet (p\<lparr>payload := pl\<rparr>)"
  by (simp_all add: wf_packet_def)

lemma send_session_frame:
  assumes "wf_packet p" and "sess_hdr conn p" and "len \<le> 1500" and "plength p = htons (of_nat len)"
  shows "sendPacket (sessionSocket conn) p (int (len + HDR_SIZE)) =
    Some (Sent (sessionSocket conn) (session_frame conn (take len (payload p))))"
proof -
  have n: "pkt_len p = len" using assms(3,4) by (simp add: pkt_len_def unat_of_nat_u16)
  have l: "length (take len (payload p)) = len" using assms(1,3) by (simp add: wf_packet_def)
  have "hdr_bytes p = mk_header (peerEth conn) (myEth conn) (Eth_PPPOE_Session conn) CODE_SESS (c_session conn) len"
    using assms(2,4) by (simp add: hdr_bytes_def mk_header_def sess_hdr_def)
  then have "take (len + 20) (packet_bytes p) = session_frame conn (take len (payload p))"
    using take_packet_bytes [OF assms(1)] l by (simp add: n session_frame_def pkt_data_def)
  then show ?thesis using assms(3) by (simp add: sendPacket_def nat_add_distrib)
qed

lemma sendSessionPacket_plain:
  assumes "wf_packet p" and "sess_hdr conn p" and "len \<le> 1500"
  shows "sendSessionPacket conn 0 p len = Some (p\<lparr>plength := htons (of_nat len)\<rparr>,
    Sent (sessionSocket conn) (session_frame conn (take len (payload p))))"
  using send_session_frame [of "p\<lparr>plength := htons (of_nat len)\<rparr>" conn len] assms
  by (simp add: sendSessionPacket_def)

lemma clampMSS_keeps:
  assumes "wf_packet p" and "0 \<le> c" and "c < 65536" and "clampMSS p c = Some p'"
  shows "wf_packet p' \<and> p' = p\<lparr>payload := payload p'\<rparr>"
  using clampMSS_cases [OF assms(1-3)] assms(1,4) by (auto simp: wf_packet_def)

lemma build_plain:
  assumes "wf_packet p" and "PPPState s = STATE_BUILDING_PACKET" and "PPPPacketSize s < 1496" and "c \<noteq> FRAME_ESC" and "c \<noteq> FRAME_FLAG"
  shows "ppp_step u pid conn m (s, p) c =
    Some ([], Inr (s\<lparr>PPPPacketSize := PPPPacketSize s + 1, PPPXorValue := 0\<rparr>, p\<lparr>payload := (payload p)[PPPPacketSize s := c XOR PPPXorValue s]\<rparr>))"
  using assms by (simp add: ppp_step_def build_byte_def memcpy_at_1 wf_packet_def)

lemma xor_enc_ok: "(c = FRAME_FLAG \<or> c = FRAME_ADDR \<or> c = FRAME_ESC \<or> c < 0x20) \<Longrightarrow> c XOR FRAME_ENC \<noteq> FRAME_ESC \<and> c XOR FRAME_ENC \<noteq> FRAME_FLAG"
  for c :: byte
proof -
  assume "c = FRAME_FLAG \<or> c = FRAME_ADDR \<or> c = FRAME_ESC \<or> c < 0x20"
  moreover have False if "c < 0x20" "c XOR 0x20 = d" "d = 0x7D \<or> d = 0x7E" for d
  proof -
    have "c = d XOR 0x20" using that(2) by (auto simp: xor.assoc)
    then show False using that(1,3) by (auto simp: word_less_nat_alt)
  qed
  ultimately show ?thesis by auto
qed

lemma run_esc1:
  assumes "wf_packet p" and "PPPState s = STATE_BUILDING_PACKET" and "PPPPacketSize s < 1496" and "PPPXorValue s = 0"
  shows "ppp_run u pid conn m (s, p) (esc1 c) =
    Some ([], Inr (s\<lparr>PPPPacketSize := PPPPacketSize s + 1\<rparr>, p\<lparr>payload := (payload p)[PPPPacketSize s := c]\<rparr>))"
proof (cases "c = FRAME_FLAG \<or> c = FRAME_ADDR \<or> c = FRAME_ESC \<or> c < 0x20")
  case True
  let ?s = "s\<lparr>PPPXorValue := FRAME_ENC\<rparr>"
  have "ppp_step u pid conn m (s, p) FRAME_ESC = Some ([], Inr (?s, p))"
    using assms(2) by (simp add: ppp_step_def build_byte_def)
  moreover have "ppp_step u pid conn m (?s, p) (c XOR FRAME_ENC) =
      Some ([], Inr (s\<lparr>PPPPacketSize := PPPPacketSize s + 1, PPPXorValue := 0\<rparr>, p\<lparr>payload := (payload p)[PPPPacketSize s := c]\<rparr>))"
    using build_plain [of p ?s "c XOR FRAME_ENC" u pid conn m] assms xor_enc_ok [OF True] by (simp add: xor.assoc)
  moreover have "esc1 c = [FRAME_ESC, c XOR FRAME_ENC]" using True by (simp add: esc1_def)
  ultimately show ?thesis using assms(4) by simp
next
  case False
  then show ?thesis
    using build_plain [of p s c u pid conn m] assms by (simp add: esc1_def)
qed

lemma run_escape:
  assumes "wf_packet p" and "PPPState s = STATE_BUILDING_PACKET" and "PPPPacketSize s + length cs \<le> 1496" and "PPPXorValue s = 0"
  shows "ppp_run u pid conn m (s, p) (escape cs) =
    Some ([], Inr (s\<lparr>PPPPacketSize := PPPPacketSize s + length cs\<rparr>,
      p\<lparr>payload := take (PPPPacketSize s) (payload p) @ cs @ drop (PPPPacketSize s + length cs) (payload p)\<rparr>))"
  using assms
proof (induction cs arbitrary: s p)
  case Nil
  then show ?case by simp
next
  case (Cons c cs)
  let ?n = "PPPPacketSize s"
  let ?s = "s\<lparr>PPPPacketSize := ?n + 1\<rparr>" and ?p = "p\<lparr>payload := (payload p)[?n := c]\<rparr>"
  have n: "?n < 1496" "?n < length (payload p)" using Cons.prems(1,3) by (simp_all add: wf_packet_def)
  have w: "wf_packet ?p" using Cons.prems(1) by (simp add: wf_packet_def)
  have 1: "ppp_run u pid conn m (s, p) (esc1 c) = Some ([], Inr (?s, ?p))"
    by (rule run_esc1) (use Cons.prems n in simp_all)
  have "take (Suc ?n) ((payload p)[?n := c]) = take ?n (payload p) @ [c]"
    using n(2) by (simp add: take_Suc_conv_app_nth)
  then show ?case
    using Cons.IH [OF w, of ?s] Cons.prems n by (simp add: ppp_run_append 1)
qed

text \<open>A frame on the serial line, received while waiting for one, is sent as one session packet.\<close>

lemma run_frame:
  assumes "wf_packet p" and "sess_hdr conn p" and "length cs \<le> 1494"
    and "PPPState s = STATE_WAITFOR_FRAME_ADDR" and "PPPPacketSize s = 0" and "PPPXorValue s = 0"
  shows "\<exists>p'. ppp_run u pid conn 0 (s, p) (ppp_frame cs) =
      Some ([Tx (Sent (sessionSocket conn) (session_frame conn cs))], Inr (s, p')) \<and> wf_packet p' \<and> sess_hdr conn p'"
proof -
  let ?s = "s\<lparr>PPPState := STATE_BUILDING_PACKET\<rparr>" and ?d = "cs @ data_fcs cs"
  let ?p = "p\<lparr>payload := ?d @ drop (length ?d) (payload p)\<rparr>"
  have h: "ppp_run u pid conn 0 (s, p) [FRAME_FLAG, FRAME_ADDR, FRAME_ESC, FRAME_CTRL XOR FRAME_ENC] = Some ([], Inr (?s, p))"
    using assms(4) by (simp add: ppp_step_def)
  have d: "ppp_run u pid conn 0 (?s, p) (escape ?d) = Some ([], Inr (?s\<lparr>PPPPacketSize := length ?d\<rparr>, ?p))"
    using run_escape [of p ?s ?d u pid conn 0] assms by simp
  have w: "wf_packet ?p" using assms(1,3) by (simp add: wf_packet_def)
  have send: "sendSessionPacket conn 0 ?p (length cs) = Some (?p\<lparr>plength := htons (of_nat (length cs))\<rparr>,
      Sent (sessionSocket conn) (session_frame conn cs))"
    using sendSessionPacket_plain [OF w, of conn "length cs"] assms(2,3) by simp
  have "ppp_run u pid conn 0 (?s\<lparr>PPPPacketSize := length ?d\<rparr>, ?p) [FRAME_FLAG] =
      Some ([Tx (Sent (sessionSocket conn) (session_frame conn cs))], Inr (s, ?p\<lparr>plength := htons (of_nat (length cs))\<rparr>))"
    using send assms(4-6) by (simp add: ppp_step_def build_byte_def)
  then show ?thesis
    unfolding ppp_frame_def ppp_run_append h then_do_ret d using w assms(2) by simp
qed

section \<open>Safety of the data path\<close>

text \<open>
  What the client may output in the session phase: session frames to the peer, a PADT for the
  session, and PPP frames to the daemon. \<^verbatim>\<open>runs\<close> says that a function is defined, outputs only such
  things, and that its outcome satisfies a predicate; only MSS clamping may be undefined.
\<close>

definition padt_sent :: "PPPoEConnection \<Rightarrow> frame \<Rightarrow> bool" where
  "padt_sent conn f \<longleftrightarrow> (\<exists>tags. f = Sent (discoverySocket conn)
     (pppoe_frame (peerEth conn) (myEth conn) (Eth_PPPOE_Discovery conn) CODE_PADT (c_session conn) tags))"

definition session_sent :: "PPPoEConnection \<Rightarrow> frame \<Rightarrow> bool" where
  "session_sent conn f \<longleftrightarrow> (\<exists>bs. length bs \<le> 1494 \<and> f = Sent (sessionSocket conn) (session_frame conn bs))"

definition out_ok :: "PPPoEConnection \<Rightarrow> action \<Rightarrow> bool" where
  "out_ok conn a = (case a of
       Tx f \<Rightarrow> session_sent conn f \<or> padt_sent conn f
     | Write bs \<Rightarrow> \<exists>d. length d \<le> 1500 \<and> (bs = ppp_frame d \<or> bs = [FRAME_ADDR, FRAME_CTRL] @ d)
     | Select t \<Rightarrow> True)"

definition runs :: "PPPoEConnection \<Rightarrow> int \<Rightarrow> ('a \<Rightarrow> bool) \<Rightarrow> 'a client_result \<Rightarrow> bool" where
  "runs conn m P r \<longleftrightarrow> m \<noteq> 0 \<and> r = None \<or>
     (\<exists>acts res. r = Some (acts, res) \<and> list_all (out_ok conn) acts \<and> (\<forall>a. res = Inr a \<longrightarrow> P a))"

lemma runs_ret [simp]: "runs conn m P (Some ([], Inr a)) = P a"
  by (simp add: runs_def)

lemma runs_exit [simp]: "runs conn m P (Some ([], Inl x))"
  by (simp add: runs_def)

lemma runs_then:
  assumes "runs conn m P r" and "\<And>a. P a \<Longrightarrow> runs conn m Q (k a)"
  shows "runs conn m Q (then_do r k)"
proof (cases "r = None")
  case True
  then show ?thesis using assms(1) by (simp add: runs_def)
next
  case False
  then obtain acts res where r: "r = Some (acts, res)" "list_all (out_ok conn) acts" "\<forall>a. res = Inr a \<longrightarrow> P a"
    using assms(1) by (auto simp: runs_def)
  show ?thesis
  proof (cases res)
    case (Inl x)
    then show ?thesis using r by (auto simp: runs_def then_do_def)
  next
    case (Inr a)
    then have "runs conn m Q (k a)" using r(3) assms(2) by blast
    then show ?thesis using r Inr by (auto simp: runs_def then_do_def)
  qed
qed

lemma padt_runs:
  assumes "wf_conn conn" and "wf_packet u" and "length str \<le> 1400"
  shows "runs conn m P (map_option (\<lambda>(conn, fs). (map Tx fs, Inl x)) (sendPADT u pid conn (Some (cstr str))))"
  using sendPADT_eq [OF assms(1,2), of "Some (cstr str)" pid] assms(3)
  by (auto simp: runs_def out_ok_def padt_sent_def)

lemma fatal_runs:
  assumes "wf_conn conn" and "wf_packet u"
  shows "runs conn m P (fatalSys u pid conn)" "length str \<le> 1400 \<Longrightarrow> runs conn m P (rp_fatal u pid conn str)"
    "length str \<le> 1400 \<Longrightarrow> runs conn m P (end_of_file u pid conn str)"
  unfolding fatalSys_def rp_fatal_def end_of_file_def by (rule padt_runs [OF assms], simp)+

definition ppp_inv :: "PPPoEConnection \<Rightarrow> ppp \<times> PPPoEPacket \<Rightarrow> bool" where
  "ppp_inv conn sp \<longleftrightarrow> (case sp of (s, p) \<Rightarrow> wf_packet p \<and> sess_hdr conn p \<and> PPPPacketSize s \<le> 1496)"

definition clamp_ok :: "int \<Rightarrow> bool" where
  "clamp_ok m \<longleftrightarrow> 0 \<le> m \<and> m < 65536"

lemma sendSessionPacket_runs:
  assumes "wf_packet p" and "sess_hdr conn p" and "len \<le> 1494" and "clamp_ok m"
  shows "sendSessionPacket conn m p len = None \<and> m \<noteq> 0 \<or>
    (\<exists>p' f. sendSessionPacket conn m p len = Some (p', f) \<and> wf_packet p' \<and> sess_hdr conn p' \<and> session_sent conn f)"
proof (cases "m = 0")
  case True
  then show ?thesis using sendSessionPacket_plain [OF assms(1,2)] assms(1-3)
    by (auto simp: session_sent_def intro!: exI [of _ "take len (payload p)"])
next
  case False
  let ?p = "p\<lparr>plength := htons (of_nat len)\<rparr>"
  show ?thesis
  proof (cases "clampMSS ?p m")
    case None
    then show ?thesis using False by (simp add: sendSessionPacket_def)
  next
    case (Some p')
    have k: "wf_packet p'" "p' = ?p\<lparr>payload := payload p'\<rparr>"
      using clampMSS_keeps [OF _ _ _ Some] assms(1,4) by (auto simp: clamp_ok_def)
    have s: "sess_hdr conn p'" "plength p' = htons (of_nat len)"
      by (subst k(2), use assms(2) in simp)+
    have "sendPacket (sessionSocket conn) p' (int (len + HDR_SIZE)) =
        Some (Sent (sessionSocket conn) (session_frame conn (take len (payload p'))))"
      by (rule send_session_frame) (use k s assms(3) in simp_all)
    then show ?thesis using False Some k(1) s(1) assms(3)
      by (auto simp: sendSessionPacket_def session_sent_def intro!: exI [of _ "take len (payload p')"])
  qed
qed

lemma build_byte_runs:
  assumes "wf_conn conn" and "wf_packet u" and "clamp_ok m" and "ppp_inv conn (s, p)"
  shows "runs conn m (ppp_inv conn) (build_byte u pid conn m s p c)"
proof -
  have p: "wf_packet p" "sess_hdr conn p" "PPPPacketSize s \<le> 1496" using assms(4) by (simp_all add: ppp_inv_def)
  consider "c = FRAME_ESC" | "c = FRAME_FLAG" "PPPPacketSize s < 2" | "c = FRAME_FLAG" "2 \<le> PPPPacketSize s"
    | "c \<noteq> FRAME_ESC" "c \<noteq> FRAME_FLAG" "1496 \<le> PPPPacketSize s" | "c \<noteq> FRAME_ESC" "c \<noteq> FRAME_FLAG" "PPPPacketSize s < 1496"
    by fastforce
  then show ?thesis
  proof cases
    case 2
    then show ?thesis by (simp add: build_byte_def fatal_runs [OF assms(1,2)])
  next
    case 3
    then have n: "PPPPacketSize s - 2 \<le> 1494" using p(3) by simp
    show ?thesis
      using sendSessionPacket_runs [OF p(1,2) n assms(3)] 3
      by (auto simp: build_byte_def runs_def ppp_inv_def out_ok_def)
  next
    case 5
    then have "memcpy_at (payload p) (PPPPacketSize s) [c XOR PPPXorValue s] = Some ((payload p)[PPPPacketSize s := c XOR PPPXorValue s])"
      using p(1) by (intro memcpy_at_1) (simp add: wf_packet_def)
    then show ?thesis using 5 p by (simp add: build_byte_def ppp_inv_def wf_packet_def)
  qed (use p in \<open>simp_all add: build_byte_def ppp_inv_def\<close>)
qed

lemma ppp_run_runs:
  assumes "wf_conn conn" and "wf_packet u" and "clamp_ok m" and "ppp_inv conn sp"
  shows "runs conn m (ppp_inv conn) (ppp_run u pid conn m sp bs)"
  using assms(4)
proof (induction bs arbitrary: sp)
  case (Cons c cs)
  have "runs conn m (ppp_inv conn) (ppp_step u pid conn m sp c)"
    using Cons.prems build_byte_runs [OF assms(1-3)]
    by (cases sp; cases "PPPState (fst sp)") (auto simp: ppp_step_def ppp_inv_def)
  then show ?case using Cons.IH by (auto intro: runs_then)
qed simp

lemma asyncReadFromPPP_runs:
  assumes "wf_conn conn" and "wf_packet u" and "clamp_ok m" and "ppp_inv conn (s, p)"
  shows "runs conn m (ppp_inv conn) (asyncReadFromPPP u pid conn m r s p)"
  using ppp_run_runs [OF assms]
  by (simp add: asyncReadFromPPP_def async_loop_run fatal_runs [OF assms(1,2)] split: read_result.split)

lemma syncReadFromPPP_runs:
  assumes "wf_conn conn" and "wf_packet u" and "clamp_ok m" and "wf_packet p" and "sess_hdr conn p"
  shows "runs conn m (\<lambda>p. wf_packet p \<and> sess_hdr conn p) (syncReadFromPPP u pid conn m r p)"
proof (cases r)
  case (ReadFails again)
  then show ?thesis by (simp add: syncReadFromPPP_def fatal_runs [OF assms(1,2)])
next
  case (Got bs)
  let ?bs = "take 1496 bs"
  consider "length ?bs = 0" | "length ?bs = 1" | "2 \<le> length ?bs" by linarith
  then show ?thesis
  proof cases
    case 1
    then show ?thesis using Got by (simp add: syncReadFromPPP_def fatal_runs [OF assms(1,2)] Let_def min_def split: if_splits)
  next
    case 2
    then show ?thesis using Got by (auto simp: syncReadFromPPP_def fatal_runs [OF assms(1,2)] Let_def min_def split: if_splits)
  next
    case 3
    let ?pl = "drop 2 ?bs @ drop (length ?bs - 2) (payload p)"
    have m: "memcpy_at (payload p) 0 (drop 2 ?bs) = Some ?pl"
      using assms(4) by (simp add: memcpy_at_def wf_packet_def)
    have w: "wf_packet (p\<lparr>payload := ?pl\<rparr>)" "sess_hdr conn (p\<lparr>payload := ?pl\<rparr>)" using assms(4,5) by (simp_all add: wf_packet_def)
    have n: "length ?bs - 2 \<le> 1494" by simp
    show ?thesis
      using sendSessionPacket_runs [OF w n assms(3)] m 3 Got
      by (auto simp: syncReadFromPPP_def Let_def runs_def out_ok_def simp del: length_take)
  qed
qed

section \<open>The Ethernet side\<close>

lemma nibbles_split: "nibbles (ucast b) (ucast (drop_bit 4 b)) = b" for b :: byte
proof (rule bit_word_eqI)
  fix n assume "n < LENGTH(8)"
  then show "bit (nibbles (ucast b) (ucast (drop_bit 4 b))) n = bit b n"
    by (cases "n < 4") (auto simp: nibbles_def bit_simps)
qed

lemma version_type: "ucast b = (1 :: 4 word) \<and> ucast (drop_bit 4 b) = (1 :: 4 word) \<longleftrightarrow> b = (0x11 :: byte)"
proof
  assume "ucast b = (1 :: 4 word) \<and> ucast (drop_bit 4 b) = (1 :: 4 word)"
  then show "b = 0x11" using nibbles_split [of b] nibbles_11 by metis
qed simp

text \<open>The fields of a received frame that has a complete header.\<close>

lemma received_fields:
  assumes "wf_packet u" and "receivePacket u f = (p, len)" and "20 \<le> length f"
  shows "pver p = ucast (f ! 14)" and "ptype p = ucast (drop_bit 4 (f ! 14))" and "code p = f ! 15"
    and "session p = load16 (f ! 16) (f ! 17)" and "pkt_len p = unat (be16 (f ! 18) (f ! 19))" and "h_source p = bslice f 6 6"
    and "etherType p = be16 (f ! 12) (f ! 13)" and "take (min (length f) 1520 - 20) (payload p) = take (min (length f) 1520 - 20) (drop 20 f)"
    and "len = int (min (length f) 1520)"
proof -
  define n where "n = min (length f) 1520"
  have r: "p = load_packet (take n f @ drop n (packet_bytes u))" "len = int n"
    using assms(2) by (auto simp: receivePacket_def Let_def n_def)
  have n: "20 \<le> n" "n \<le> length f" using assms(3) by (simp_all add: n_def)
  have at: "(take n f @ drop n (packet_bytes u)) ! i = f ! i" if "i < 20" for i
    using that n by (simp add: nth_append)
  show "pver p = ucast (f ! 14)" "ptype p = ucast (drop_bit 4 (f ! 14))" "code p = f ! 15"
    "session p = load16 (f ! 16) (f ! 17)" by (simp_all add: r(1) load_packet_def at)
  show "pkt_len p = unat (be16 (f ! 18) (f ! 19))" by (simp add: r(1) load_packet_def at pkt_len_def be16_load16)
  show "etherType p = be16 (f ! 12) (f ! 13)" by (simp add: r(1) load_packet_def at etherType_def be16_load16)
  have t: "take 12 (take n f @ drop n (packet_bytes u)) = take 12 f" using n by simp
  have "take 6 (drop 6 xs) = drop 6 (take 12 xs)" for xs :: "byte list" by (simp add: take_drop)
  then show "h_source p = bslice f 6 6"
    by (simp only: r(1) load_packet_def PPPoEPacket.simps bslice_def t)
  have "payload p = drop 20 (take n f) @ drop n (packet_bytes u)"
    using n by (simp add: r(1) load_packet_def)
  then show "take (min (length f) 1520 - 20) (payload p) = take (min (length f) 1520 - 20) (drop 20 f)"
    using n by (simp add: n_def drop_take)
  show "len = int (min (length f) 1520)" by (simp add: r(2) n_def)
qed

text \<open>The frames that carry data of the session, and the data.\<close>

definition frame_len :: "byte list \<Rightarrow> nat" where
  "frame_len f = unat (be16 (f ! 18) (f ! 19))"

definition for_session :: "PPPoEConnection \<Rightarrow> byte list \<Rightarrow> bool" where
  "for_session conn f \<longleftrightarrow> 20 \<le> length f \<and> frame_len f + 20 \<le> min (length f) 1520 \<and> f ! 14 = 0x11 \<and> f ! 15 = CODE_SESS \<and>
     bslice f 6 6 = peerEth conn \<and> load16 (f ! 16) (f ! 17) = c_session conn"

lemma short_frame_bogus: "receivePacket u f = (p, len) \<Longrightarrow> length f < 20 \<Longrightarrow> bogus_length p len"
  using bogus_length_nat [of "length f" p] by (auto simp: receivePacket_def Let_def)

lemma session_input_eq:
  assumes "wf_packet u" and "receivePacket u f = (p, len)"
  shows "session_input False u conn 0 (Frame f) =
    Some ([], Inr (if for_session conn f then Some (p, frame_len f) else None))"
proof (cases "20 \<le> length f")
  case False
  then show ?thesis using short_frame_bogus [OF assms(2)] assms(2) by (simp add: session_input_def for_session_def)
next
  case True
  note f = received_fields [OF assms True]
  have b: "bogus_length p len \<longleftrightarrow> frame_len f + 20 > min (length f) 1520"
    unfolding f(9) by (subst bogus_length_nat) (simp_all add: f(5) frame_len_def)
  show ?thesis
    using True assms(2) version_type [of "f ! 14"]
    by (auto simp: session_input_def for_session_def b f(1-6) frame_len_def)
qed

lemma session_input_runs:
  assumes "wf_packet u" and "clamp_ok m"
  shows "runs conn m (\<lambda>r. case r of None \<Rightarrow> True | Some (p, n) \<Rightarrow> wf_packet p \<and> n \<le> 1500) (session_input bpf u conn m ev)"
proof (cases ev)
  case (Frame f)
  obtain p len where r: "receivePacket u f = (p, len)" by fastforce
  have w: "wf_packet p" by (rule receivePacket_wf(1) [OF assms(1) r])
  have n: "pkt_len p \<le> 1500" if "\<not> bogus_length p len"
  proof -
    have "len = int (min (length f) 1520)" using r by (auto simp: receivePacket_def Let_def)
    then show ?thesis using that by (simp add: bogus_length_nat)
  qed
  have d: "runs conn m (\<lambda>_. True) (sessionDiscoveryPacket_bpf conn p)"
    using parsePacket_walk [OF w, of parseLogErrs "[]"] by (simp add: sessionDiscoveryPacket_bpf_def)
  have c: "m \<noteq> 0 \<and> (case (if m \<noteq> 0 then clampMSS p m else Some p) of None \<Rightarrow> None
       | Some packet \<Rightarrow> Some ([], Inr (Some (packet, pkt_len p)))) = (None :: (PPPoEPacket \<times> nat) option client_result) \<or>
     (\<exists>p'. wf_packet p' \<and> (case (if m \<noteq> 0 then clampMSS p m else Some p) of None \<Rightarrow> None
       | Some packet \<Rightarrow> Some ([], Inr (Some (packet, pkt_len p)))) = (Some ([], Inr (Some (p', pkt_len p))) :: (PPPoEPacket \<times> nat) option client_result))"
    using w clampMSS_keeps [OF w, of m] assms(2) by (cases "clampMSS p m") (auto simp: clamp_ok_def)
  show ?thesis
  proof (cases "bogus_length p len")
    case False
    then show ?thesis
      unfolding Frame session_input_def using n [OF False] c d
      by (auto simp: r runs_def [of conn m _ None] intro!: runs_then [where P = "\<lambda>_. True"])
  qed (simp add: session_input_def Frame r)
qed (simp_all add: session_input_def)

lemma eth_runs:
  assumes "wf_conn conn" and "wf_packet u" and "clamp_ok m"
  shows "runs conn m (\<lambda>_. True) (asyncReadFromEth bpf u pid conn m wok ev)"
    and "runs conn m (\<lambda>_. True) (syncReadFromEth bpf u pid conn m wok ev)"
proof -
  have w: "runs conn m (\<lambda>_. True) (Some ([Write (ppp_frame (take n (payload p)))], Inr ()))"
      "runs conn m (\<lambda>_. True) (Some ([Write (FRAME_ADDR # FRAME_CTRL # take n (payload p))], Inr ()))"
    if "n \<le> 1500" for n and p :: PPPoEPacket
    using that by (auto simp: runs_def out_ok_def intro!: exI [of _ "take n (payload p)"])
  show "runs conn m (\<lambda>_. True) (asyncReadFromEth bpf u pid conn m wok ev)"
    unfolding asyncReadFromEth_def
    by (rule runs_then [OF session_input_runs [OF assms(2,3)]])
      (auto simp: async_frame_eq w fatal_runs [OF assms(1,2)] simp del: FRAME_ADDR_def FRAME_CTRL_def split: option.splits)
  show "runs conn m (\<lambda>_. True) (syncReadFromEth bpf u pid conn m wok ev)"
    unfolding syncReadFromEth_def
    by (rule runs_then [OF session_input_runs [OF assms(2,3)]])
      (auto simp: w wf_packet_def fatal_runs [OF assms(1,2)] simp del: FRAME_ADDR_def FRAME_CTRL_def split: option.splits)
qed

section \<open>Properties of the data path\<close>

text \<open>
  A frame for the PPP daemon is built within \<^verbatim>\<open>pppBuf\<close> for every packet that fits the structure. It
  consists of the flag, the escaped address and control field, the escaped data and check sequence, and the flag,
  and the check sequence is right: run over address, control, data and check sequence the CRC
  gives \<^verbatim>\<open>0xf0b8\<close>, the good value of RFC 1662.
\<close>

theorem async_frame_correct:
  assumes "wf_packet packet" and "plen \<le> ETH_DATA_LEN"
  shows "\<exists>fcs. async_frame packet plen = Some ([FRAME_FLAG, FRAME_ADDR, FRAME_ESC, FRAME_CTRL XOR FRAME_ENC] @
      escape (take plen (payload packet) @ fcs) @ [FRAME_FLAG]) \<and> length fcs = 2 \<and>
    pppFCS16 PPPINITFCS16 ([FRAME_ADDR, FRAME_CTRL] @ take plen (payload packet) @ fcs) (plen + 4) = Some 0xf0b8"
proof -
  let ?d = "take plen (payload packet)"
  have l: "length ([FRAME_ADDR, FRAME_CTRL] @ ?d @ data_fcs ?d) = plen + 4"
    using assms by (simp add: wf_packet_def)
  have "foldl fcs_step PPPINITFCS16 ([FRAME_ADDR, FRAME_CTRL] @ ?d @ data_fcs ?d) = 0xf0b8"
    using good_fcs [of "foldl fcs_step PPPINITFCS16 ([FRAME_ADDR, FRAME_CTRL] @ ?d)"]
    unfolding data_fcs_def by (simp only: foldl_append)
  then have "pppFCS16 PPPINITFCS16 ([FRAME_ADDR, FRAME_CTRL] @ ?d @ data_fcs ?d) (plen + 4) = Some 0xf0b8"
    using pppFCS16_foldl [of "plen + 4" "[FRAME_ADDR, FRAME_CTRL] @ ?d @ data_fcs ?d" PPPINITFCS16] l by (simp only: order_refl take_all)
  then show ?thesis using async_frame_eq [of packet plen] assms by (intro exI [of _ "data_fcs ?d"]) (simp add: ppp_frame_def)
qed

theorem async_frame_correct_witness:
  "wf_packet sample_padi \<and> (\<exists>fcs. length fcs = 2 \<and> async_frame sample_padi 0 = Some ([0x7E, 0xFF, 0x7D, 0x23] @ escape fcs @ [0x7E]) \<and>
     pppFCS16 0xffff ([0xFF, 0x03] @ fcs) 4 = Some 0xf0b8)"
  using async_frame_correct [OF wf_sample_padi, of 0] by auto

text \<open>
  In the direction from the Ethernet, a frame is handed to the PPP daemon exactly when it carries data of
  this session: a complete header with version and type 1 and code 0, a length within the
  frame, the address of the peer and the session number. What is written is the PPP frame of exactly the data of
  the Ethernet frame; all other frames, truncated ones included, are dropped without any effect.
\<close>

theorem asyncReadFromEth_correct:
  assumes "wf_packet u"
  shows "asyncReadFromEth False u pid conn 0 True (Frame f) =
    Some (if for_session conn f then [Write (ppp_frame (bslice f 20 (frame_len f)))] else [], Inr ())"
proof -
  obtain p len where r: "receivePacket u f = (p, len)" by fastforce
  have w: "wf_packet p" by (rule receivePacket_wf(1) [OF assms r])
  show ?thesis
  proof (cases "for_session conn f")
    case True
    let ?n = "min (length f) 1520 - 20"
    have n: "frame_len f \<le> 1500" "frame_len f \<le> ?n" "20 \<le> length f" using True by (auto simp: for_session_def)
    have "take (frame_len f) (take ?n (payload p)) = take (frame_len f) (take ?n (drop 20 f))"
      using received_fields(8) [OF assms r n(3)] by simp
    then have "take (frame_len f) (payload p) = bslice f 20 (frame_len f)"
      using n(2) by (simp add: bslice_def min_absorb1)
    then show ?thesis
      using True session_input_eq [OF assms r, of conn] async_frame_eq [OF w n(1)] by (simp add: asyncReadFromEth_def)
  next
    case False
    then show ?thesis using session_input_eq [OF assms r, of conn] by (simp add: asyncReadFromEth_def)
  qed
qed

definition sample_data :: "byte list" where
  "sample_data = [0, 0, 0, 0, 0, 0, 0, 0, 0, 0, 0, 0, 0x88, 0x64, 0x11, 0, 0, 0, 0, 3, 0xC0, 0x21, 0x7E]"

theorem asyncReadFromEth_correct_witness:
  "wf_packet sample_padi \<and> for_session sample_conn sample_data \<and>
   asyncReadFromEth False sample_padi 1 sample_conn 0 True (Frame sample_data) = Some ([Write (ppp_frame [0xC0, 0x21, 0x7E])], Inr ()) \<and>
   asyncReadFromEth False sample_padi 1 sample_conn 0 True (Frame (take 22 sample_data)) = Some ([], Inr ())"
proof -
  have c: "peerEth sample_conn = [0, 0, 0, 0, 0, 0]" "c_session sample_conn = 0"
    by (simp_all add: sample_conn_def numeral_eq_Suc)
  have f: "for_session sample_conn sample_data" "bslice sample_data 20 (frame_len sample_data) = [0xC0, 0x21, 0x7E]"
      "\<not> for_session sample_conn (take 22 sample_data)"
    by (simp_all add: for_session_def sample_data_def c frame_len_def be16_def bslice_def load16_def)
  show ?thesis
    using asyncReadFromEth_correct [OF wf_sample_padi, of 1 sample_conn sample_data]
      asyncReadFromEth_correct [OF wf_sample_padi, of 1 sample_conn "take 22 sample_data"] f by simp
qed

text \<open>
  C30. In the direction from the PPP daemon, the nested loops of \<^verbatim>\<open>asyncReadFromPPP\<close> are the automaton that makes
  one transition per byte. The loops always end, for every buffer content.
\<close>

theorem asyncReadFromPPP_automaton:
  assumes "bs \<noteq> []" and "length bs \<le> READ_CHUNK"
  shows "asyncReadFromPPP u pid conn clampMss (Got bs) s packet = ppp_run u pid conn clampMss (s, packet) bs"
  using assms by (simp add: asyncReadFromPPP_def async_loop_run)

theorem asyncReadFromPPP_automaton_witness:
  "[0xFF, 0x23] \<noteq> ([] :: byte list) \<and> length [0xFF, 0x23 :: byte] \<le> READ_CHUNK \<and>
   asyncReadFromPPP sample_padi 1 sample_conn 0 (Got [0xFF, 0x23]) initPPP sample_padi =
     Some ([], Inr (initPPP\<lparr>PPPState := STATE_BUILDING_PACKET\<rparr>, sample_padi))"
  using asyncReadFromPPP_automaton [of "[0xFF, 0x23]" sample_padi 1 sample_conn 0 initPPP sample_padi]
  by (simp add: ppp_step_def initPPP_def)

text \<open>
  It does not matter how the stream from the PPP daemon is cut into reads: reading two
  chunks one after the other has the same effect as reading them at once, also when a frame or an escape
  sequence is split between them.
\<close>

theorem asyncReadFromPPP_chunks:
  assumes "xs \<noteq> []" and "ys \<noteq> []" and "length (xs @ ys) \<le> READ_CHUNK"
  shows "asyncReadFromPPP u pid conn clampMss (Got (xs @ ys)) s packet =
    then_do (asyncReadFromPPP u pid conn clampMss (Got xs) s packet)
      (\<lambda>(s, packet). asyncReadFromPPP u pid conn clampMss (Got ys) s packet)"
  using assms by (simp add: asyncReadFromPPP_def async_loop_run ppp_run_append case_prod_unfold)

theorem asyncReadFromPPP_chunks_witness:
  "length ([0xFF, 0x7D] @ [0x23 :: byte]) \<le> READ_CHUNK \<and>
   asyncReadFromPPP sample_padi 1 sample_conn 0 (Got ([0xFF, 0x7D] @ [0x23])) initPPP sample_padi =
     then_do (asyncReadFromPPP sample_padi 1 sample_conn 0 (Got [0xFF, 0x7D]) initPPP sample_padi)
       (\<lambda>(s, packet). asyncReadFromPPP sample_padi 1 sample_conn 0 (Got [0x23]) s packet)"
  using asyncReadFromPPP_chunks [of "[0xFF, 0x7D]" "[0x23]"] by simp

text \<open>
  C24. Framing and unframing are inverse to each other: when a client that waits for a frame reads
  from its PPP daemon what \<^verbatim>\<open>async_frame\<close> makes of a payload, escapes and check sequence
  included, it sends exactly one Ethernet frame, addressed to the peer and numbered with the
  session, whose payload is the same, and waits for the next frame.
\<close>

theorem async_roundtrip:
  assumes "wf_packet q" and "n \<le> 1494" and "async_frame q n = Some bs"
    and "wf_packet packet" and "sess_hdr conn packet"
  shows "\<exists>packet'. asyncReadFromPPP u pid conn 0 (Got bs) initPPP packet =
      Some ([Tx (Sent (sessionSocket conn) (session_frame conn (take n (payload q))))], Inr (initPPP, packet')) \<and>
    wf_packet packet' \<and> sess_hdr conn packet'"
proof -
  let ?d = "take n (payload q)"
  have bs: "bs = ppp_frame ?d" using async_frame_eq [OF assms(1), of n] assms(2,3) by simp
  have d: "length ?d \<le> 1494" using assms(2) by simp
  have "length (escape (?d @ data_fcs ?d)) \<le> 2 * 1496" using length_escape [of "?d @ data_fcs ?d"] d by simp
  then have l: "length bs \<le> 4096" "bs \<noteq> []" by (simp_all add: bs ppp_frame_def)
  have i: "PPPState initPPP = STATE_WAITFOR_FRAME_ADDR" "PPPPacketSize initPPP = 0" "PPPXorValue initPPP = 0"
    by (simp_all add: initPPP_def)
  show ?thesis
    using run_frame [OF assms(4,5) d i, of u pid] l unfolding bs by (simp add: asyncReadFromPPP_def async_loop_run)
qed

definition sample_out :: PPPoEPacket where
  "sample_out = sample_padi\<lparr>h_dest := replicate 6 0, h_source := replicate 6 0, h_proto := htons ETH_PPPOE_SESSION,
     pver := 1, ptype := 1, code := CODE_SESS, session := 0\<rparr>"

lemma sample_out_ok: "wf_packet sample_out" "sess_hdr sample_conn sample_out"
  using wf_sample_padi by (simp_all add: sample_out_def wf_packet_def sess_hdr_def sample_conn_def)

theorem async_roundtrip_witness:
  "\<exists>bs packet'. async_frame sample_padi 12 = Some bs \<and> wf_packet sample_out \<and> sess_hdr sample_conn sample_out \<and>
     asyncReadFromPPP sample_padi 1 sample_conn 0 (Got bs) initPPP sample_out =
       Some ([Tx (Sent (sessionSocket sample_conn) (session_frame sample_conn (take 12 (payload sample_padi))))], Inr (initPPP, packet'))"
proof -
  obtain bs where "async_frame sample_padi 12 = Some bs" using async_frame_eq [OF wf_sample_padi, of 12] by simp
  then show ?thesis using async_roundtrip [OF wf_sample_padi _ _ sample_out_ok, of 12 bs sample_padi 1] sample_out_ok by auto
qed

end
