(* ===== verification/PPPoE_Client.thy ===== *)
theory PPPoE_Client
  imports PPP_Framing
begin

unbundle bit_operations_syntax

text \<open>
  The PPPoE client as a program (\<^verbatim>\<open>pppoe.c\<close>): the session phase with its select loop, the signal
  handler, the command line and \<^verbatim>\<open>main\<close>. Opening an interface is a parameter; the events of the
  session loop are a list. Writing the pid file and the debug file, the logs and switching the
  line discipline are not modelled.
\<close>

section \<open>The session phase\<close>

text \<open>
  What one \<^verbatim>\<open>select\<close> of the session loop finds: an error, the inactivity timeout, or ready
  descriptors: a read from the PPP daemon, the packets on the session socket (with BPF all that
  are in the buffer, otherwise the code takes one) and one on the discovery socket. Each packet
  comes with the success of the write that may follow.
\<close>

datatype select_event =
    SelectFails
  | SelectTimeout
  | Ready "read_result option" "(dev_event \<times> bool) list" "dev_event option"

definition readFromEth ::
  "bool \<Rightarrow> PPPoEPacket \<Rightarrow> u32 \<Rightarrow> PPPoEConnection \<Rightarrow> int \<Rightarrow> bool \<Rightarrow> dev_event \<Rightarrow> unit client_result" where
  "readFromEth bpf u pid conn clampMss wok ev =
     (if synchronous conn then syncReadFromEth bpf u pid conn clampMss wok ev
      else asyncReadFromEth bpf u pid conn clampMss wok ev)"

fun read_all ::
  "bool \<Rightarrow> PPPoEPacket \<Rightarrow> u32 \<Rightarrow> PPPoEConnection \<Rightarrow> int \<Rightarrow> (dev_event \<times> bool) list \<Rightarrow> unit client_result" where
  "read_all bpf u pid conn clampMss [] = Some ([], Inr ())"
| "read_all bpf u pid conn clampMss ((ev, wok) # evs) =
     then_do (readFromEth bpf u pid conn clampMss wok ev) (\<lambda>_.
       if bpf then read_all bpf u pid conn clampMss evs else Some ([], Inr ()))"

definition readFromPPP ::
  "PPPoEPacket \<Rightarrow> u32 \<Rightarrow> PPPoEConnection \<Rightarrow> int \<Rightarrow> read_result option \<Rightarrow> ppp \<times> PPPoEPacket \<Rightarrow> (ppp \<times> PPPoEPacket) client_result" where
  "readFromPPP u pid conn clampMss r sp =
     (case r of
        None \<Rightarrow> Some ([], Inr sp)
      | Some rd_res \<Rightarrow> (case sp of (s, packet) \<Rightarrow>
          if synchronous conn
          then then_do (syncReadFromPPP u pid conn clampMss rd_res packet) (\<lambda>packet. Some ([], Inr (s, packet)))
          else asyncReadFromPPP u pid conn clampMss rd_res s packet))"

definition session_round ::
  "bool \<Rightarrow> PPPoEPacket \<Rightarrow> u32 \<Rightarrow> PPPoEConnection \<Rightarrow> int \<Rightarrow> select_event \<Rightarrow> ppp \<times> PPPoEPacket \<Rightarrow> (ppp \<times> PPPoEPacket) client_result" where
  "session_round bpf u pid conn clampMss ev sp =
     (case ev of
        SelectFails \<Rightarrow> fatalSys u pid conn
      | SelectTimeout \<Rightarrow> rp_fatal u pid conn ''RP-PPPoE: Inactivity timeout''
      | Ready r eth disc \<Rightarrow>
          then_do (readFromPPP u pid conn clampMss r sp) (\<lambda>sp.
          then_do (read_all bpf u pid conn clampMss eth) (\<lambda>_.
          then_do (case disc of
                     None \<Rightarrow> Some ([], Inr ())
                   | Some d \<Rightarrow> if bpf then Some ([], Inr ()) else sessionDiscoveryPacket u conn d) (\<lambda>_.
          Some ([], Inr sp)))))"

fun session_loop ::
  "bool \<Rightarrow> PPPoEPacket \<Rightarrow> u32 \<Rightarrow> PPPoEConnection \<Rightarrow> int \<Rightarrow> select_event list \<Rightarrow> ppp \<times> PPPoEPacket \<Rightarrow> (ppp \<times> PPPoEPacket) client_result" where
  "session_loop bpf u pid conn clampMss [] sp = Some ([], Inr sp)"
| "session_loop bpf u pid conn clampMss (ev # evs) sp =
     then_do (session_round bpf u pid conn clampMss ev sp) (\<lambda>sp. session_loop bpf u pid conn clampMss evs sp)"

text \<open>
  \<^verbatim>\<open>buffered\<close> are the packets that a BPF device still holds from the discovery phase. The loop
  itself does not end; the list of events is what has happened so far.
\<close>

definition session_phase ::
  "bool \<Rightarrow> (string \<Rightarrow> u16 \<Rightarrow> int \<times> byte list) \<Rightarrow> PPPoEPacket \<Rightarrow> u32 \<Rightarrow> PPPoEConnection \<Rightarrow> int \<Rightarrow> (dev_event \<times> bool) list \<Rightarrow>
     select_event list \<Rightarrow> (ppp \<times> PPPoEPacket) client_result" where
  "session_phase bpf openi u pid conn clampMss buffered evs =
     (let (sock, mac) = openi (ifName conn) (Eth_PPPOE_Session conn);
          conn = conn\<lparr>sessionSocket := sock, myEth := mac\<rparr>;
          packet = u\<lparr>h_dest := peerEth conn, h_source := myEth conn, h_proto := htons (Eth_PPPOE_Session conn),
                     pver := 1, ptype := 1, code := CODE_SESS, session := c_session conn\<rparr>
      in then_do (if bpf then read_all bpf u pid conn clampMss buffered else Some ([], Inr ())) (\<lambda>_.
           session_loop bpf u pid conn clampMss evs (initPPP, packet)))"

definition sigPADT :: "PPPoEPacket \<Rightarrow> u32 \<Rightarrow> PPPoEConnection \<Rightarrow> 'a client_result" where
  "sigPADT u pid conn = end_of_file u pid conn ''RP-PPPoE: Received signal''"

section \<open>The main program\<close>

text \<open>
  The options, each with what \<^verbatim>\<open>sscanf\<close> or \<^verbatim>\<open>strtol\<close> makes of its argument; \<^verbatim>\<open>Opt_D\<close> tells
  whether the debug file can be opened.
\<close>

datatype pppoe_opt =
    Opt_f "(u32 \<times> u32) option"
  | Opt_d
  | Opt_k
  | Opt_e "(u32 \<times> u32 list) option"
  | Opt_p
  | Opt_S "byte list"
  | Opt_C "byte list"
  | Opt_s
  | Opt_U
  | Opt_D bool
  | Opt_T int
  | Opt_m int
  | Opt_I string
  | Opt_V
  | Opt_A
  | Opt_h

record pppoe_settings =
  p_conn :: PPPoEConnection
  p_ifName :: "string option"
  optInactivityTimeout :: int
  optClampMSS :: int
  optSkipSession :: bool

definition pppoe_option :: "pppoe_opt \<Rightarrow> pppoe_settings \<Rightarrow> int + pppoe_settings" where
  "pppoe_option opt st =
     (let conn = p_conn st
      in case opt of
        Opt_f None \<Rightarrow> Inl 1
      | Opt_f (Some (d, s)) \<Rightarrow> Inr (st\<lparr>p_conn := conn\<lparr>Eth_PPPOE_Discovery := ucast d, Eth_PPPOE_Session := ucast s\<rparr>\<rparr>)
      | Opt_d \<Rightarrow> Inr (st\<lparr>optSkipSession := True\<rparr>)
      | Opt_k \<Rightarrow> Inr (st\<lparr>p_conn := conn\<lparr>killSession := True\<rparr>\<rparr>)
      | Opt_e None \<Rightarrow> Inl 1
      | Opt_e (Some (s, m)) \<Rightarrow>
          Inr (st\<lparr>p_conn := conn\<lparr>peerEth := map (\<lambda>i. ucast (m ! i)) [0..<6], c_session := htons (ucast s), skipDiscovery := True\<rparr>\<rparr>)
      | Opt_p \<Rightarrow> Inr st
      | Opt_S n \<Rightarrow> Inr (st\<lparr>p_conn := conn\<lparr>serviceName := Some n\<rparr>\<rparr>)
      | Opt_C n \<Rightarrow> Inr (st\<lparr>p_conn := conn\<lparr>acName := Some n\<rparr>\<rparr>)
      | Opt_s \<Rightarrow> Inr (st\<lparr>p_conn := conn\<lparr>synchronous := True\<rparr>\<rparr>)
      | Opt_U \<Rightarrow> Inr (st\<lparr>p_conn := conn\<lparr>useHostUniq := True\<rparr>\<rparr>)
      | Opt_D ok \<Rightarrow> if ok then Inr st else Inl 1
      | Opt_T n \<Rightarrow> Inr (st\<lparr>optInactivityTimeout := (if n < 0 then 0 else n)\<rparr>)
      | Opt_m n \<Rightarrow> if n < 536 then Inl 1 else if n > 1452 then Inl 1 else Inr (st\<lparr>optClampMSS := n\<rparr>)
      | Opt_I n \<Rightarrow> Inr (st\<lparr>p_ifName := Some n\<rparr>)
      | Opt_V \<Rightarrow> Inl 0
      | Opt_A \<Rightarrow> Inr (st\<lparr>p_conn := conn\<lparr>printACNames := True\<rparr>\<rparr>)
      | Opt_h \<Rightarrow> Inl 0)"

fun pppoe_options :: "pppoe_opt list \<Rightarrow> pppoe_settings \<Rightarrow> int + pppoe_settings" where
  "pppoe_options [] st = Inr st"
| "pppoe_options (opt # opts) st = (case pppoe_option opt st of Inl x \<Rightarrow> Inl x | Inr st \<Rightarrow> pppoe_options opts st)"

text \<open>The connection after \<^verbatim>\<open>memset\<close>, with the initial values of the variables.\<close>

definition pppoe_initial :: pppoe_settings where
  "pppoe_initial = \<lparr>p_conn =
     \<lparr>discoveryState = 0, discoverySocket = -1, sessionSocket = -1, myEth = replicate 6 0, peerEth = replicate 6 0,
      c_session = 0, ifName = '''', serviceName = None, acName = None, synchronous = False, useHostUniq = False,
      printACNames = False, skipDiscovery = False, killSession = False, numPADOs = 0,
      cookie = \<lparr>ttype = 0, tlength = 0, tpayload = replicate ETH_DATA_LEN 0\<rparr>,
      relayId = \<lparr>ttype = 0, tlength = 0, tpayload = replicate ETH_DATA_LEN 0\<rparr>,
      Eth_PPPOE_Discovery = ETH_PPPOE_DISCOVERY, Eth_PPPOE_Session = ETH_PPPOE_SESSION\<rparr>,
     p_ifName = None, optInactivityTimeout = 0, optClampMSS = 0, optSkipSession = False\<rparr>"

definition pppoe_main ::
  "bool \<Rightarrow> (string \<Rightarrow> u16 \<Rightarrow> int \<times> byte list) \<Rightarrow> PPPoEPacket \<Rightarrow> u32 \<Rightarrow> pppoe_opt list \<Rightarrow> dev_event list \<Rightarrow>
     (dev_event \<times> bool) list \<Rightarrow> select_event list \<Rightarrow> (ppp \<times> PPPoEPacket) client_result" where
  "pppoe_main bpf openi u pid opts devs buffered evs =
     (case pppoe_options opts pppoe_initial of
        Inl x \<Rightarrow> Some ([], Inl x)
      | Inr st \<Rightarrow>
          (case (case p_ifName st of Some n \<Rightarrow> Some n | None \<Rightarrow> if bpf then None else Some ''eth0'') of
             None \<Rightarrow> Some ([], Inl 1)
           | Some name \<Rightarrow>
               then_do (discovery bpf openi u pid ((p_conn st)\<lparr>ifName := name\<rparr>) devs) (\<lambda>(conn, devs).
                 if optSkipSession st then Some ([], Inl 0)
                 else session_phase bpf openi u pid conn (optClampMSS st) buffered evs)))"

section \<open>Safety of the session phase\<close>

lemma sessionDiscovery_runs:
  assumes "wf_packet u"
  shows "runs conn m (\<lambda>_. True) (sessionDiscoveryPacket u conn ev)"
proof (cases ev)
  case (Frame f)
  obtain p len where r: "receivePacket u f = (p, len)" by fastforce
  have "wf_packet p" by (rule receivePacket_wf(1) [OF assms r])
  then show ?thesis using parsePacket_walk [of p parseLogErrs "[]"] by (simp add: sessionDiscoveryPacket_def Frame r)
qed (simp_all add: sessionDiscoveryPacket_def)

lemma read_all_runs:
  assumes "wf_conn conn" and "wf_packet u" and "clamp_ok m"
  shows "runs conn m (\<lambda>_. True) (read_all bpf u pid conn m evs)"
proof (induction evs)
  case (Cons e evs)
  obtain ev wok where e: "e = (ev, wok)" by (cases e)
  show ?case
    unfolding e read_all.simps
    by (rule runs_then [where P = "\<lambda>_. True"]) (use eth_runs [OF assms] Cons in \<open>auto simp: readFromEth_def\<close>)
qed simp

lemma readFromPPP_runs:
  assumes "wf_conn conn" and "wf_packet u" and "clamp_ok m" and "ppp_inv conn sp"
  shows "runs conn m (ppp_inv conn) (readFromPPP u pid conn m r sp)"
proof -
  obtain s p where sp: "sp = (s, p)" by (cases sp)
  have p: "wf_packet p" "sess_hdr conn p" "PPPPacketSize s \<le> 1496" using assms(4) by (simp_all add: sp ppp_inv_def)
  have "runs conn m (ppp_inv conn) (then_do (syncReadFromPPP u pid conn m x p) (\<lambda>packet. Some ([], Inr (s, packet))))" for x
    by (rule runs_then [OF syncReadFromPPP_runs [OF assms(1-3) p(1,2)]]) (use p(3) in \<open>simp add: ppp_inv_def\<close>)
  then show ?thesis
    using assms(4) asyncReadFromPPP_runs [OF assms(1-3), of s p] by (simp add: readFromPPP_def sp split: option.split)
qed

lemma session_round_runs:
  assumes "wf_conn conn" and "wf_packet u" and "clamp_ok m" and "ppp_inv conn sp"
  shows "runs conn m (ppp_inv conn) (session_round bpf u pid conn m ev sp)"
proof (cases ev)
  case (Ready r eth disc)
  have d: "runs conn m (\<lambda>_. True) (case disc of None \<Rightarrow> Some ([], Inr ())
      | Some d \<Rightarrow> if bpf then Some ([], Inr ()) else sessionDiscoveryPacket u conn d)"
    using sessionDiscovery_runs [OF assms(2)] by (simp split: option.split)
  show ?thesis
    unfolding Ready session_round_def select_event.case
  proof (rule runs_then [OF readFromPPP_runs [OF assms]])
    fix sp assume "ppp_inv conn sp"
    then show "runs conn m (ppp_inv conn) (then_do (read_all bpf u pid conn m eth) (\<lambda>_. then_do (case disc of None \<Rightarrow> Some ([], Inr ())
      | Some d \<Rightarrow> if bpf then Some ([], Inr ()) else sessionDiscoveryPacket u conn d) (\<lambda>_. Some ([], Inr sp))))"
      by (intro runs_then [OF read_all_runs [OF assms(1-3)]] runs_then [OF d]) simp
  qed
qed (simp_all add: session_round_def fatal_runs [OF assms(1,2)])

lemma session_loop_runs:
  assumes "wf_conn conn" and "wf_packet u" and "clamp_ok m" and "ppp_inv conn sp"
  shows "runs conn m (ppp_inv conn) (session_loop bpf u pid conn m evs sp)"
  using assms(4)
proof (induction evs arbitrary: sp)
  case (Cons ev evs)
  show ?case
    unfolding session_loop.simps by (rule runs_then [OF session_round_runs [OF assms(1-3) Cons.prems]]) (rule Cons.IH)
qed simp

text \<open>The connection of the session phase: opened on the session socket.\<close>

definition opened :: "(string \<Rightarrow> u16 \<Rightarrow> int \<times> byte list) \<Rightarrow> PPPoEConnection \<Rightarrow> PPPoEConnection" where
  "opened openi conn = conn\<lparr>sessionSocket := fst (openi (ifName conn) (Eth_PPPOE_Session conn)),
     myEth := snd (openi (ifName conn) (Eth_PPPOE_Session conn))\<rparr>"

lemma session_phase_runs:
  assumes "wf_conn conn" and "wf_packet u" and "clamp_ok m" and "\<forall>n t. length (snd (openi n t)) = 6"
  shows "runs (opened openi conn) m (ppp_inv (opened openi conn)) (session_phase bpf openi u pid conn m buffered evs)"
proof -
  let ?c = "opened openi conn"
  let ?p = "u\<lparr>h_dest := peerEth ?c, h_source := myEth ?c, h_proto := htons (Eth_PPPOE_Session ?c),
                     pver := 1, ptype := 1, code := CODE_SESS, session := c_session ?c\<rparr>"
  have w: "wf_conn ?c" using assms(1,4) by (simp add: opened_def wf_conn_def)
  then have i: "ppp_inv ?c (initPPP, ?p)"
    using assms(2) by (simp add: ppp_inv_def wf_packet_def sess_hdr_def initPPP_def wf_conn_def)
  have e: "session_phase bpf openi u pid conn m buffered evs =
      then_do (if bpf then read_all bpf u pid ?c m buffered else Some ([], Inr ())) (\<lambda>_. session_loop bpf u pid ?c m evs (initPPP, ?p))"
    unfolding session_phase_def opened_def case_prod_unfold Let_def by (simp only: PPPoEConnection.simps)
  show ?thesis
    unfolding e
    by (rule runs_then [where P = "\<lambda>_. True"])
      (use read_all_runs [OF w assms(2,3)] session_loop_runs [OF w assms(2,3) i] in simp_all)
qed

section \<open>The options\<close>

lemma pppoe_option_inv:
  assumes "pppoe_option opt st = Inr st'"
  shows "(optClampMSS st = 0 \<or> 536 \<le> optClampMSS st \<and> optClampMSS st \<le> 1452) \<and> 0 \<le> optInactivityTimeout st \<Longrightarrow>
      (optClampMSS st' = 0 \<or> 536 \<le> optClampMSS st' \<and> optClampMSS st' \<le> 1452) \<and> 0 \<le> optInactivityTimeout st'"
    and "wf_conn (p_conn st) \<Longrightarrow> wf_conn (p_conn st')"
    and "(\<And>n. opt \<noteq> Opt_m n) \<Longrightarrow> optClampMSS st' = optClampMSS st"
    and "(\<And>n. opt = Opt_S n \<Longrightarrow> length n \<le> 1490) \<Longrightarrow> case_option True (\<lambda>n. length n \<le> 1490) (serviceName (p_conn st)) \<Longrightarrow>
       case_option True (\<lambda>n. length n \<le> 1490) (serviceName (p_conn st'))"
    and "c_session (p_conn st) = 0 \<or> skipDiscovery (p_conn st) \<Longrightarrow> c_session (p_conn st') = 0 \<or> skipDiscovery (p_conn st')"
  using assms by (cases opt; force simp: pppoe_option_def Let_def wf_conn_def split: option.splits prod.splits if_splits)+

lemma pppoe_options_inv:
  assumes "pppoe_options opts st = Inr st'"
  shows "(optClampMSS st = 0 \<or> 536 \<le> optClampMSS st \<and> optClampMSS st \<le> 1452) \<and> 0 \<le> optInactivityTimeout st \<Longrightarrow>
      (optClampMSS st' = 0 \<or> 536 \<le> optClampMSS st' \<and> optClampMSS st' \<le> 1452) \<and> 0 \<le> optInactivityTimeout st'"
    and "wf_conn (p_conn st) \<Longrightarrow> wf_conn (p_conn st')"
    and "(\<And>n. Opt_m n \<notin> set opts) \<Longrightarrow> optClampMSS st' = optClampMSS st"
    and "(\<And>n. Opt_S n \<in> set opts \<Longrightarrow> length n \<le> 1490) \<Longrightarrow> case_option True (\<lambda>n. length n \<le> 1490) (serviceName (p_conn st)) \<Longrightarrow>
       case_option True (\<lambda>n. length n \<le> 1490) (serviceName (p_conn st'))"
    and "c_session (p_conn st) = 0 \<or> skipDiscovery (p_conn st) \<Longrightarrow> c_session (p_conn st') = 0 \<or> skipDiscovery (p_conn st')"
  using assms
proof (induction opts arbitrary: st)
  case (Cons opt opts)
  {
    case 1
    then show ?case using Cons.IH(1) pppoe_option_inv(1) [of opt st] by (auto split: sum.splits)
  next
    case 2
    then show ?case using Cons.IH(2) pppoe_option_inv(2) [of opt st] by (auto split: sum.splits)
  next
    case 3
    then obtain st1 where "pppoe_option opt st = Inr st1" "pppoe_options opts st1 = Inr st'" by (auto split: sum.splits)
    then show ?case using Cons.IH(3) [of st1] pppoe_option_inv(3) [of opt st st1] 3(1) by (metis list.set_intros)
  next
    case 4
    then obtain st1 where "pppoe_option opt st = Inr st1" "pppoe_options opts st1 = Inr st'" by (auto split: sum.splits)
    then show ?case using Cons.IH(4) [of st1] pppoe_option_inv(4) [of opt st st1] 4(1,2) by (metis list.set_intros)
  next
    case 5
    then show ?case using Cons.IH(5) pppoe_option_inv(5) [of opt st] by (auto split: sum.splits)
  }
qed simp_all

lemma discovery_any:
  assumes "wf_packet u" and "\<forall>n t. length (snd (openi n t)) = 6" and "wf_conn conn"
    and "c_session conn = 0 \<or> skipDiscovery conn" and "case serviceName conn of None \<Rightarrow> True | Some n \<Rightarrow> length n \<le> 1490"
  shows "\<exists>acts r. discovery bpf openi u pid conn evs = Some (acts, r) \<and> (\<forall>c' evs'. r = Inr (c', evs') \<longrightarrow> wf_conn c')"
proof (cases "skipDiscovery conn")
  case False
  then show ?thesis using discovery_total [OF assms(1-3) _ False assms(5), of bpf pid evs] assms(4) by metis
next
  case True
  obtain sock mac where o: "openi (ifName conn) (Eth_PPPOE_Discovery conn) = (sock, mac)" by fastforce
  let ?c = "conn\<lparr>discoverySocket := sock, myEth := mac, discoveryState := STATE_SESSION\<rparr>"
  have w: "wf_conn ?c" using assms(2,3) o by (simp add: wf_conn_def) (metis snd_conv)
  obtain c2 fs where s: "sendPADT u pid ?c (Some (cstr ''RP-PPPoE: Session killed manually'')) = Some (c2, fs)"
    using sendPADT_eq [OF w assms(1), of "Some (cstr ''RP-PPPoE: Session killed manually'')" pid] by (simp split: if_splits)
  show ?thesis using True o w s [unfolded STATE_SESSION_def] by (simp add: discovery_def Let_def)
qed

section \<open>Properties of the client\<close>

text \<open>
  C13. The session phase with any limit for the MSS, zero for none, and whatever arrives from the network and from the PPP
  daemon and whichever calls fail. Without MSS clamping it makes no undefined step: all buffer accesses are in
  bounds. (With clamping it can, where \<^verbatim>\<open>clampMSS\<close> reads outside the packet.) With or without, all it ever puts out are data frames of at most
  1494 bytes of payload to the peer with the number of the session, PADT packets for the session, and well-formed PPP
  frames to the daemon, and as long as it runs, the packet buffer has the header of the session and the packet under
  construction fits into it.
\<close>

theorem session_safe:
  assumes "wf_conn conn" and "wf_packet u" and "\<forall>n t. length (snd (openi n t)) = 6" and "0 \<le> m" and "m < 65536"
  shows "case session_phase bpf openi u pid conn m buffered evs of
      None \<Rightarrow> m \<noteq> 0
    | Some (acts, res) \<Rightarrow> list_all (out_ok (opened openi conn)) acts \<and> (\<forall>sp. res = Inr sp \<longrightarrow> ppp_inv (opened openi conn) sp)"
  using session_phase_runs [OF assms(1,2) _ assms(3), of m bpf pid buffered evs] assms(4,5)
  by (auto simp: runs_def clamp_ok_def)

theorem session_safe_witness:
  "wf_conn sample_conn \<and> wf_packet sample_padi \<and>
   (\<exists>acts res. session_phase False sample_open sample_padi 1 sample_conn 0 []
      [Ready (Some (Got [1, 2, 3])) [(Frame sample_data, False)] None, SelectTimeout] = Some (acts, res) \<and>
      list_all (out_ok (opened sample_open sample_conn)) acts)"
  using session_safe [OF wf_sample_conn wf_sample_padi, of sample_open 0 False 1 "[]"
      "[Ready (Some (Got [1, 2, 3])) [(Frame sample_data, False)] None, SelectTimeout]"]
  by (auto simp: sample_open_def wf_sample_conn split: option.splits)

definition padt_for :: "PPPoEConnection \<Rightarrow> byte list \<Rightarrow> bool" where
  "padt_for conn f \<longleftrightarrow> 20 \<le> length f \<and> frame_len f + 20 \<le> min (length f) 1520 \<and> f ! 15 = CODE_PADT \<and>
     load16 (f ! 16) (f ! 17) = c_session conn"

text \<open>
  While a session runs, a frame on the discovery socket ends the client, with status 0,
  exactly when it is a complete PADT that carries the number of the session; every other frame
  is ignored. (The sender of the PADT is not looked at.)
\<close>

theorem sessionDiscoveryPacket_correct:
  assumes "wf_packet u"
  shows "sessionDiscoveryPacket u conn (Frame f) = Some ([], if padt_for conn f then Inl 0 else Inr ())"
proof -
  obtain p len where r: "receivePacket u f = (p, len)" by fastforce
  have w: "wf_packet p" by (rule receivePacket_wf(1) [OF assms r])
  show ?thesis
  proof (cases "20 \<le> length f")
    case False
    then show ?thesis using short_frame_bogus [OF r] by (simp add: sessionDiscoveryPacket_def padt_for_def r)
  next
    case True
    note f = received_fields [OF assms r True]
    have b: "bogus_length p len \<longleftrightarrow> frame_len f + 20 > min (length f) 1520"
      unfolding f(9) by (subst bogus_length_nat) (simp_all add: f(5) frame_len_def)
    show ?thesis
      using True parsePacket_walk [OF w, of parseLogErrs "[]"]
      by (auto simp: sessionDiscoveryPacket_def padt_for_def r b f(3,4))
  qed
qed

theorem sessionDiscoveryPacket_correct_witness:
  "wf_packet sample_padi \<and>
   sessionDiscoveryPacket sample_padi sample_conn (Frame [0, 0, 0, 0, 0, 0, 9, 9, 9, 9, 9, 9, 0x88, 0x63, 0x11, 0xA7, 0, 0, 0, 0]) = Some ([], Inl 0)"
  using sessionDiscoveryPacket_correct [OF wf_sample_padi, of sample_conn "[0, 0, 0, 0, 0, 0, 9, 9, 9, 9, 9, 9, 0x88, 0x63, 0x11, 0xA7, 0, 0, 0, 0]"]
  by (simp add: padt_for_def frame_len_def be16_def load16_def sample_conn_def)

text \<open>
  After the options have been read, the MSS limit is 0 or between 536 and 1452, so that the
  clamped value always fits the option, and the inactivity timeout is not negative.
\<close>

theorem pppoe_options_bounds:
  assumes "pppoe_options opts pppoe_initial = Inr st"
  shows "(optClampMSS st = 0 \<or> 536 \<le> optClampMSS st \<and> optClampMSS st \<le> 1452) \<and> 0 \<le> optInactivityTimeout st"
  by (rule pppoe_options_inv(1) [OF assms]) (simp add: pppoe_initial_def)

theorem pppoe_options_bounds_witness:
  "\<exists>st. pppoe_options [Opt_m 1412, Opt_T (-5), Opt_U] pppoe_initial = Inr st \<and> optClampMSS st = 1412 \<and> optInactivityTimeout st = 0 \<and>
     pppoe_options [Opt_m 1500] pppoe_initial = Inl 1"
proof -
  obtain st where st: "pppoe_options [Opt_m 1412, Opt_T (-5), Opt_U] pppoe_initial = Inr st"
    "optClampMSS st = 1412" "optInactivityTimeout st = 0"
    by (simp add: pppoe_option_def)
  show ?thesis using pppoe_options_bounds [OF st(1)] st by (auto simp: pppoe_option_def)
qed

text \<open>
  The length of the service name is kept in 16 bits, but the whole name is copied: a name that is long enough for the
  length to wrap around to a small number is written past the end of the packet.
\<close>

theorem sendPADI_long_name:
  assumes "wf_packet u" and "serviceName conn = Some n" and "65536 \<le> length n" and "length n mod 65536 \<le> 1490"
  shows "sendPADI u pid conn = None"
proof -
  have l: "unat (name_len conn) = length n mod 65536" using assms(2) by (simp add: name_len_def unat_of_nat)
  have "unat (4 + name_len conn :: u16) = 4 + unat (name_len conn)"
    using l assms(4) by (subst unat_add_lem [THEN iffD1]) simp_all
  moreover have "memcpy_at (payload u) 0 (le16 TAG_SERVICE_NAME @ le16 (htons (name_len conn))) \<noteq> None"
    using assms(1) by (simp add: memcpy_at_def wf_packet_def be_bytes_def)
  ultimately show ?thesis
    using assms l by (auto simp: sendPADI_def header_packet_def CHECK_ROOM_def memcpy_at_def wf_packet_def Let_def)
qed



end
