(* ===== verification/MD5.thy ===== *)
theory MD5
  imports Gateway_Prelude
begin

unbundle bit_operations_syntax

text \<open>
  The MD5 digest of \<^verbatim>\<open>md5.c\<close>, which the PPPoE server uses for its cookies.  The context of the C
  code is the record \<^verbatim>\<open>MD5Context\<close>; \<^verbatim>\<open>MD5Init\<close>, \<^verbatim>\<open>MD5Update\<close>, \<^verbatim>\<open>MD5Final\<close> and the unrolled
  \<^verbatim>\<open>MD5Transform\<close> are the functions of the source.  The lemmas show that any sequence of updates gives
  the digest of the concatenated data in the sense of the padded reference definition \<^verbatim>\<open>md5\<close>, and that the
  unrolled transformation is the loop over the sine table of RFC 1321.
\<close>

section \<open>The transformation\<close>

definition F1 :: "u32 \<Rightarrow> u32 \<Rightarrow> u32 \<Rightarrow> u32" where
  "F1 x y z = z XOR (x AND (y XOR z))"

definition F2 :: "u32 \<Rightarrow> u32 \<Rightarrow> u32 \<Rightarrow> u32" where
  "F2 x y z = F1 z x y"

definition F3 :: "u32 \<Rightarrow> u32 \<Rightarrow> u32 \<Rightarrow> u32" where
  "F3 x y z = x XOR y XOR z"

definition F4 :: "u32 \<Rightarrow> u32 \<Rightarrow> u32 \<Rightarrow> u32" where
  "F4 x y z = y XOR (x OR NOT z)"

definition MD5STEP :: "(u32 \<Rightarrow> u32 \<Rightarrow> u32 \<Rightarrow> u32) \<Rightarrow> u32 \<Rightarrow> u32 \<Rightarrow> u32 \<Rightarrow> u32 \<Rightarrow> u32 \<Rightarrow> nat \<Rightarrow> u32" where
  "MD5STEP f w x y z data s =
     (let w = w + (f x y z + data); w = push_bit s w OR drop_bit (32 - s) w in w + x)"

text \<open>Four consecutive steps, which update \<^verbatim>\<open>a\<close>, \<^verbatim>\<open>d\<close>, \<^verbatim>\<open>c\<close> and \<^verbatim>\<open>b\<close> in this order.\<close>

definition md5_group ::
  "(u32 \<Rightarrow> u32 \<Rightarrow> u32 \<Rightarrow> u32) \<Rightarrow> nat \<times> nat \<times> nat \<times> nat \<Rightarrow> u32 \<Rightarrow> u32 \<Rightarrow> u32 \<Rightarrow> u32 \<Rightarrow>
     u32 \<times> u32 \<times> u32 \<times> u32 \<Rightarrow> u32 \<times> u32 \<times> u32 \<times> u32" where
  "md5_group f sh d0 d1 d2 d3 st =
     (let (s0, s1, s2, s3) = sh; (a, b, c, d) = st;
          a = MD5STEP f a b c d d0 s0;
          d = MD5STEP f d a b c d1 s1;
          c = MD5STEP f c d a b d2 s2;
          b = MD5STEP f b c d a d3 s3
      in (a, b, c, d))"

type_synonym md5_state = "u32 \<times> u32 \<times> u32 \<times> u32"

definition MD5Transform :: "md5_state \<Rightarrow> u32 list \<Rightarrow> md5_state" where
  "MD5Transform buf inp =
     (let (b0, b1, b2, b3) = buf;
          st = (b0, b1, b2, b3);
          st = md5_group F1 (7, 12, 17, 22) (inp ! 0 + 0xd76aa478) (inp ! 1 + 0xe8c7b756) (inp ! 2 + 0x242070db) (inp ! 3 + 0xc1bdceee) st;
          st = md5_group F1 (7, 12, 17, 22) (inp ! 4 + 0xf57c0faf) (inp ! 5 + 0x4787c62a) (inp ! 6 + 0xa8304613) (inp ! 7 + 0xfd469501) st;
          st = md5_group F1 (7, 12, 17, 22) (inp ! 8 + 0x698098d8) (inp ! 9 + 0x8b44f7af) (inp ! 10 + 0xffff5bb1) (inp ! 11 + 0x895cd7be) st;
          st = md5_group F1 (7, 12, 17, 22) (inp ! 12 + 0x6b901122) (inp ! 13 + 0xfd987193) (inp ! 14 + 0xa679438e) (inp ! 15 + 0x49b40821) st;
          st = md5_group F2 (5, 9, 14, 20) (inp ! 1 + 0xf61e2562) (inp ! 6 + 0xc040b340) (inp ! 11 + 0x265e5a51) (inp ! 0 + 0xe9b6c7aa) st;
          st = md5_group F2 (5, 9, 14, 20) (inp ! 5 + 0xd62f105d) (inp ! 10 + 0x02441453) (inp ! 15 + 0xd8a1e681) (inp ! 4 + 0xe7d3fbc8) st;
          st = md5_group F2 (5, 9, 14, 20) (inp ! 9 + 0x21e1cde6) (inp ! 14 + 0xc33707d6) (inp ! 3 + 0xf4d50d87) (inp ! 8 + 0x455a14ed) st;
          st = md5_group F2 (5, 9, 14, 20) (inp ! 13 + 0xa9e3e905) (inp ! 2 + 0xfcefa3f8) (inp ! 7 + 0x676f02d9) (inp ! 12 + 0x8d2a4c8a) st;
          st = md5_group F3 (4, 11, 16, 23) (inp ! 5 + 0xfffa3942) (inp ! 8 + 0x8771f681) (inp ! 11 + 0x6d9d6122) (inp ! 14 + 0xfde5380c) st;
          st = md5_group F3 (4, 11, 16, 23) (inp ! 1 + 0xa4beea44) (inp ! 4 + 0x4bdecfa9) (inp ! 7 + 0xf6bb4b60) (inp ! 10 + 0xbebfbc70) st;
          st = md5_group F3 (4, 11, 16, 23) (inp ! 13 + 0x289b7ec6) (inp ! 0 + 0xeaa127fa) (inp ! 3 + 0xd4ef3085) (inp ! 6 + 0x04881d05) st;
          st = md5_group F3 (4, 11, 16, 23) (inp ! 9 + 0xd9d4d039) (inp ! 12 + 0xe6db99e5) (inp ! 15 + 0x1fa27cf8) (inp ! 2 + 0xc4ac5665) st;
          st = md5_group F4 (6, 10, 15, 21) (inp ! 0 + 0xf4292244) (inp ! 7 + 0x432aff97) (inp ! 14 + 0xab9423a7) (inp ! 5 + 0xfc93a039) st;
          st = md5_group F4 (6, 10, 15, 21) (inp ! 12 + 0x655b59c3) (inp ! 3 + 0x8f0ccc92) (inp ! 10 + 0xffeff47d) (inp ! 1 + 0x85845dd1) st;
          st = md5_group F4 (6, 10, 15, 21) (inp ! 8 + 0x6fa87e4f) (inp ! 15 + 0xfe2ce6e0) (inp ! 6 + 0xa3014314) (inp ! 13 + 0x4e0811a1) st;
          st = md5_group F4 (6, 10, 15, 21) (inp ! 4 + 0xf7537e82) (inp ! 11 + 0xbd3af235) (inp ! 2 + 0x2ad7d2bb) (inp ! 9 + 0xeb86d391) st;
          (a, b, c, d) = st
      in (b0 + a, b1 + b, b2 + c, b3 + d))"

section \<open>The context\<close>

record MD5Context =
  md_buf :: md5_state
  bits0 :: u32
  bits1 :: u32
  md_in :: "byte list"

text \<open>\<^verbatim>\<open>byteReverse\<close>, a loop that runs at least once, and the array read as words of the host.\<close>

fun byteReverse :: "byte list \<Rightarrow> nat \<Rightarrow> byte list option" where
  "byteReverse (b0 # b1 # b2 # b3 # rest) (Suc longs) =
     (let t = push_bit 16 (push_bit 8 (ucast b3) OR ucast b2) OR (push_bit 8 (ucast b1) OR ucast b0) :: u32
      in if longs = 0 then Some (le32 t @ rest) else map_option (\<lambda>r. le32 t @ r) (byteReverse rest longs))"
| "byteReverse _ _ = None"

fun words32 :: "byte list \<Rightarrow> u32 list" where
  "words32 (b0 # b1 # b2 # b3 # rest) = load32 [b0, b1, b2, b3] # words32 rest"
| "words32 _ = []"

definition MD5Init :: "MD5Context \<Rightarrow> MD5Context" where
  "MD5Init ctx = ctx\<lparr>md_buf := (0x67452301, 0xefcdab89, 0x98badcfe, 0x10325476), bits0 := 0, bits1 := 0\<rparr>"

text \<open>A full input buffer is byte-reversed and transformed.\<close>

definition md5_block :: "MD5Context \<Rightarrow> MD5Context option" where
  "md5_block ctx =
     do { inp \<leftarrow> byteReverse (md_in ctx) 16; Some (ctx\<lparr>md_in := inp, md_buf := MD5Transform (md_buf ctx) (words32 inp)\<rparr>) }"

function md5_chunks :: "MD5Context \<Rightarrow> byte list \<Rightarrow> MD5Context option" where
  "md5_chunks ctx buf =
     (if 64 \<le> length buf
      then do {
        inp \<leftarrow> memcpy_at (md_in ctx) 0 (take 64 buf);
        ctx \<leftarrow> md5_block (ctx\<lparr>md_in := inp\<rparr>);
        md5_chunks ctx (drop 64 buf)
      }
      else do { inp \<leftarrow> memcpy_at (md_in ctx) 0 buf; Some (ctx\<lparr>md_in := inp\<rparr>) })"
  by pat_completeness auto
termination
  by (relation "measure (\<lambda>(ctx, buf). length buf)") auto

declare md5_chunks.simps [simp del]

text \<open>\<^verbatim>\<open>len\<close> is the length of \<^verbatim>\<open>buf\<close>, an \<^verbatim>\<open>unsigned\<close>.\<close>

definition MD5Update :: "MD5Context \<Rightarrow> byte list \<Rightarrow> MD5Context option" where
  "MD5Update ctx buf =
     (let len = of_nat (length buf) :: u32;
          t = bits0 ctx;
          ctx = ctx\<lparr>bits0 := t + push_bit 3 len\<rparr>;
          ctx = (if bits0 ctx < t then ctx\<lparr>bits1 := bits1 ctx + 1\<rparr> else ctx);
          ctx = ctx\<lparr>bits1 := bits1 ctx + drop_bit 29 len\<rparr>;
          t = unat (drop_bit 3 t AND 0x3f)
      in if t \<noteq> 0 then
           (if length buf < 64 - t
            then do { inp \<leftarrow> memcpy_at (md_in ctx) t buf; Some (ctx\<lparr>md_in := inp\<rparr>) }
            else do {
              inp \<leftarrow> memcpy_at (md_in ctx) t (take (64 - t) buf);
              ctx \<leftarrow> md5_block (ctx\<lparr>md_in := inp\<rparr>);
              md5_chunks ctx (drop (64 - t) buf)
            })
         else md5_chunks ctx buf)"

definition MD5Final :: "MD5Context \<Rightarrow> byte list option" where
  "MD5Final ctx =
     (let count = unat (drop_bit 3 (bits0 ctx) AND 0x3F); p = count + 1
      in do {
        inp \<leftarrow> memcpy_at (md_in ctx) count [0x80];
        let count = 64 - 1 - count;
        ctx \<leftarrow> (if count < 8
                then do {
                  inp \<leftarrow> memcpy_at inp p (replicate count 0);
                  ctx \<leftarrow> md5_block (ctx\<lparr>md_in := inp\<rparr>);
                  inp \<leftarrow> memcpy_at (md_in ctx) 0 (replicate 56 0);
                  Some (ctx\<lparr>md_in := inp\<rparr>)
                }
                else do { inp \<leftarrow> memcpy_at inp p (replicate (count - 8) 0); Some (ctx\<lparr>md_in := inp\<rparr>) });
        inp \<leftarrow> byteReverse (md_in ctx) 14;
        inp \<leftarrow> memcpy_at inp 56 (le32 (bits0 ctx));
        inp \<leftarrow> memcpy_at inp 60 (le32 (bits1 ctx));
        let (a, b, c, d) = MD5Transform (md_buf ctx) (words32 inp);
        byteReverse (le32 a @ le32 b @ le32 c @ le32 d) 4
      })"

section \<open>The reference\<close>

text \<open>
  RFC 1321: the message is padded with a one bit and zeros to 56 modulo 64 bytes, followed by its
  length in bits as 64 bits, low-order byte first; the blocks of 64 bytes are digested in order.
\<close>

definition le64 :: "nat \<Rightarrow> byte list" where
  "le64 n = le32 (of_nat n) @ le32 (of_nat (n div 2 ^ 32))"

definition md5_pad :: "byte list \<Rightarrow> byte list" where
  "md5_pad m = m @ [0x80] @ replicate ((119 - length m mod 64) mod 64) 0 @ le64 (8 * length m mod 2 ^ 64)"

function blocks64 :: "byte list \<Rightarrow> byte list list" where
  "blocks64 m = (if 64 \<le> length m then take 64 m # blocks64 (drop 64 m) else [])"
  by pat_completeness auto
termination
  by (relation "measure length") auto

declare blocks64.simps [simp del]

definition md5_init :: md5_state where
  "md5_init = (0x67452301, 0xefcdab89, 0x98badcfe, 0x10325476)"

definition md5_absorb :: "md5_state \<Rightarrow> byte list \<Rightarrow> md5_state" where
  "md5_absorb st m = foldl (\<lambda>st b. MD5Transform st (words32 b)) st (blocks64 m)"

definition md5 :: "byte list \<Rightarrow> byte list" where
  "md5 m = (case md5_absorb md5_init (md5_pad m) of (a, b, c, d) \<Rightarrow> le32 a @ le32 b @ le32 c @ le32 d)"

section \<open>The streaming computation\<close>

lemma reverse_word: "push_bit 16 (push_bit 8 (ucast b3) OR ucast b2) OR (push_bit 8 (ucast b1) OR ucast b0) = load32 [b0, b1, b2, b3]"
  for b0 b1 b2 b3 :: byte
  by (rule bit_word_eqI) (auto simp: load32_def bit_simps)

text \<open>On a little-endian host the reversal changes nothing, as its comment says.\<close>

lemma byteReverse_id: "0 < n \<Longrightarrow> 4 * n \<le> length bs \<Longrightarrow> byteReverse bs n = Some bs"
proof (induction bs n rule: byteReverse.induct)
  case (1 b0 b1 b2 b3 rest longs)
  show ?case
  proof (cases "longs = 0")
    case True
    then show ?thesis unfolding byteReverse.simps Let_def reverse_word le32_load by simp
  next
    case False
    then have "byteReverse rest longs = Some rest" using 1 by simp
    then show ?thesis using False unfolding byteReverse.simps Let_def reverse_word le32_load by simp
  qed
qed auto

lemma md5_block_eq:
  "length (md_in ctx) = 64 \<Longrightarrow> md5_block ctx = Some (ctx\<lparr>md_buf := MD5Transform (md_buf ctx) (words32 (md_in ctx))\<rparr>)"
  by (simp add: md5_block_def byteReverse_id)

lemma blocks64_append: "length xs mod 64 = 0 \<Longrightarrow> blocks64 (xs @ ys) = blocks64 xs @ blocks64 ys"
proof (induction xs rule: blocks64.induct)
  case (1 xs)
  show ?case
  proof (cases "64 \<le> length xs")
    case True
    then have "length (drop 64 xs) mod 64 = 0" using 1(2) by (simp add: le_mod_geq [symmetric])
    then show ?thesis using True 1(1) [OF True] by (subst (1 2) blocks64.simps) simp
  next
    case False
    then have "xs = []" using 1(2) by simp
    then show ?thesis by (simp add: blocks64.simps [of "[]"])
  qed
qed

lemma md5_absorb_append: "length xs mod 64 = 0 \<Longrightarrow> md5_absorb st (xs @ ys) = md5_absorb (md5_absorb st xs) ys"
  by (simp add: md5_absorb_def blocks64_append)

lemma md5_absorb_short [simp]: "length xs < 64 \<Longrightarrow> md5_absorb st xs = st"
  by (simp add: md5_absorb_def blocks64.simps)

lemma md5_absorb_block: "length b = 64 \<Longrightarrow> md5_absorb st b = MD5Transform st (words32 b)"
  by (simp add: md5_absorb_def blocks64.simps)

text \<open>The whole blocks of a message and the rest.\<close>

definition whole :: "byte list \<Rightarrow> byte list" where
  "whole m = take (length m - length m mod 64) m"

definition rest64 :: "byte list \<Rightarrow> byte list" where
  "rest64 m = drop (length m - length m mod 64) m"

lemma whole_rest: "m = whole m @ rest64 m" "length (rest64 m) = length m mod 64" "length (whole m) mod 64 = 0"
proof -
  have "(length m - length m mod 64) mod 64 = 0" by (simp add: minus_mod_eq_mult_div)
  then show "length (whole m) mod 64 = 0" by (simp add: whole_def)
qed (simp_all add: whole_def rest64_def)

lemma absorb_whole: "md5_absorb st m = md5_absorb st (whole m)"
  using whole_rest [of m] md5_absorb_append [of "whole m" st "rest64 m"] by simp

text \<open>The context holds the digest of the whole blocks, the rest of the message and its length in bits.\<close>

definition md5_holds :: "MD5Context \<Rightarrow> byte list \<Rightarrow> bool" where
  "md5_holds ctx m \<longleftrightarrow> length (md_in ctx) = 64 \<and> md_buf ctx = md5_absorb md5_init m \<and>
     take (length m mod 64) (md_in ctx) = rest64 m \<and>
     unat (bits1 ctx) * 2 ^ 32 + unat (bits0 ctx) = 8 * length m mod 2 ^ 64"

lemma md5_chunks_eq:
  assumes "length (md_in ctx) = 64"
  shows "\<exists>inp. md5_chunks ctx buf = Some (ctx\<lparr>md_in := inp, md_buf := md5_absorb (md_buf ctx) buf\<rparr>) \<and>
    length inp = 64 \<and> take (length buf mod 64) inp = rest64 buf"
  using assms
proof (induction ctx buf rule: md5_chunks.induct)
  case (1 ctx buf)
  show ?case
  proof (cases "64 \<le> length buf")
    case True
    let ?b = "take 64 buf"
    have m: "memcpy_at (md_in ctx) 0 ?b = Some ?b" using 1(2) True by (simp add: memcpy_at_def)
    let ?c = "ctx\<lparr>md_in := ?b, md_buf := MD5Transform (md_buf ctx) (words32 ?b)\<rparr>"
    have b: "md5_block (ctx\<lparr>md_in := ?b\<rparr>) = Some ?c" using True by (subst md5_block_eq) simp_all
    obtain inp where i: "md5_chunks ?c (drop 64 buf) = Some (?c\<lparr>md_in := inp, md_buf := md5_absorb (md_buf ?c) (drop 64 buf)\<rparr>)"
      "length inp = 64" "take (length (drop 64 buf) mod 64) inp = rest64 (drop 64 buf)"
      using 1(1) [OF True m b] True by auto
    have "md5_absorb (md_buf ctx) buf = md5_absorb (MD5Transform (md_buf ctx) (words32 ?b)) (drop 64 buf)"
      using md5_absorb_append [of ?b "md_buf ctx" "drop 64 buf"] True by (simp add: md5_absorb_block)
    moreover have "length (drop 64 buf) mod 64 = length buf mod 64" using True by (simp add: le_mod_geq)
    moreover have "rest64 (drop 64 buf) = rest64 buf" using True calculation(2) by (simp add: rest64_def)
    ultimately show ?thesis using True m b i by (subst md5_chunks.simps) (auto intro!: exI [of _ inp])
  next
    case False
    then show ?thesis using 1(2) by (subst md5_chunks.simps) (auto simp: memcpy_at_def rest64_def intro!: exI [of _ "buf @ drop (length buf) (md_in ctx)"])
  qed
qed

lemma carry_count:
  fixes b0 b1 :: u32
  assumes "n < 2 ^ 32"
  defines "len \<equiv> of_nat n :: u32"
  defines "nb0 \<equiv> b0 + push_bit 3 len"
  defines "nb1 \<equiv> (if nb0 < b0 then b1 + 1 else b1) + drop_bit 29 len"
  shows "unat nb1 * 2 ^ 32 + unat nb0 = (unat b1 * 2 ^ 32 + unat b0 + 8 * n) mod 2 ^ 64"
proof -
  define H where "H = n div 2 ^ 29"
  define L where "L = 8 * n mod 2 ^ 32"
  have l: "unat len = n" using assms(1) by (simp add: len_def unat_of_nat)
  have "unat (push_bit 3 len) = L"
    by (simp add: push_bit_eq_mult unat_mult_lem unat_word_ariths l L_def mult.commute)
  then have u0: "unat nb0 = (unat b0 + L) mod 2 ^ 32" by (simp add: nb0_def unat_word_ariths)
  have hi: "unat (drop_bit 29 len) = H" by (simp add: drop_bit_eq_div unat_div l H_def)
  have L: "L < 2 ^ 32" by (simp add: L_def)
  have b0: "unat b0 < 2 ^ 32" using unsigned_less [of b0] by simp
  define c :: nat where "c = (if unat b0 + L \<ge> 2 ^ 32 then 1 else 0)"
  have s0: "unat b0 + L = c * 2 ^ 32 + unat nb0"
    using L b0 u0 by (auto simp: c_def le_mod_geq)
  have "nb0 < b0 \<longleftrightarrow> c = 1" using s0 L b0 by (auto simp: word_less_nat_alt c_def)
  then have "unat nb1 = (unat b1 + c + H) mod 2 ^ 32"
    by (auto simp: nb1_def unat_word_ariths hi c_def mod_simps)
  moreover have "8 * n = H * 2 ^ 32 + L"
  proof -
    have "8 * n div 2 ^ 32 = H" unfolding H_def by simp
    then show ?thesis unfolding L_def by (metis div_mult_mod_eq)
  qed
  then have e: "unat b1 * 2 ^ 32 + unat b0 + 8 * n = (unat b1 + c + H) * 2 ^ 32 + unat nb0"
    using s0 by (simp add: algebra_simps)
  moreover have "(x * 2 ^ 32 + unat nb0) mod 2 ^ 64 = (x mod 2 ^ 32) * 2 ^ 32 + unat nb0" for x :: nat
  proof -
    have y: "unat nb0 < 2 ^ 32" using unsigned_less [of nb0] by simp
    have "(x * 2 ^ 32 + unat nb0) mod (2 ^ 32 * 2 ^ 32) = 2 ^ 32 * ((x * 2 ^ 32 + unat nb0) div 2 ^ 32 mod 2 ^ 32) + (x * 2 ^ 32 + unat nb0) mod 2 ^ 32"
      by (rule mod_mult2_eq)
    then show ?thesis using y by (simp add: mult.commute)
  qed
  ultimately show ?thesis by (simp only: e)
qed

lemma pending_count:
  fixes b0 b1 :: u32
  assumes "unat b1 * 2 ^ 32 + unat b0 = 8 * n mod 2 ^ 64"
  shows "unat (drop_bit 3 b0 AND 0x3f) = n mod 64"
proof -
  have m: "(0x3f :: u32) = mask 6" by (simp add: mask_eq_exp_minus_1)
  have "unat (drop_bit 3 b0 AND 0x3f) = unat b0 div 8 mod 64"
    unfolding m by (simp add: unsigned_take_bit_eq drop_bit_eq_div unat_div flip: take_bit_eq_mask) (simp add: take_bit_eq_mod)
  moreover have "unat b0 = 8 * n mod 2 ^ 32"
  proof -
    have "unat b0 = (unat b1 * 2 ^ 32 + unat b0) mod 2 ^ 32" using unsigned_less [of b0, where 'a = nat] by simp
    also have "\<dots> = 8 * n mod 2 ^ 64 mod 2 ^ 32" using assms by simp
    also have "\<dots> = 8 * n mod 2 ^ 32" by (rule mod_mod_cancel) (simp add: dvd_def exI [of _ "2 ^ 32"])
    finally show ?thesis .
  qed
  moreover have "8 * n mod 2 ^ 32 div 8 = n mod 2 ^ 29" using mod_mult_mult1 [of 8 n "2 ^ 29"] by simp
  moreover have "n mod 2 ^ 29 mod 64 = n mod 64" by (rule mod_mod_cancel) (simp add: dvd_def)
  ultimately show ?thesis by simp
qed

lemma rest64_mod: "length xs mod 64 = 0 \<Longrightarrow> rest64 (xs @ ys) = rest64 ys"
proof -
  assume "length xs mod 64 = 0"
  then have "length (xs @ ys) mod 64 = length ys mod 64" by (simp add: mod_add_left_eq [symmetric])
  moreover have "length ys mod 64 \<le> length ys" by simp
  ultimately show ?thesis by (simp add: rest64_def)
qed

lemma rest64_short [simp]: "length xs < 64 \<Longrightarrow> rest64 xs = xs"
  by (simp add: rest64_def)

text \<open>Absorbing more bytes: what is pending is completed to blocks.\<close>

lemma append_pending:
  "md5_absorb md5_init (m @ d) = md5_absorb (md5_absorb md5_init m) (rest64 m @ d)"
  "rest64 (m @ d) = rest64 (rest64 m @ d)"
proof -
  have m: "m = whole m @ rest64 m" "length (whole m) mod 64 = 0" by (fact whole_rest)+
  have "md5_absorb md5_init (whole m @ rest64 m @ d) = md5_absorb (md5_absorb md5_init (whole m)) (rest64 m @ d)"
    by (rule md5_absorb_append [OF m(2)])
  then show "md5_absorb md5_init (m @ d) = md5_absorb (md5_absorb md5_init m) (rest64 m @ d)"
    using m(1) absorb_whole [of md5_init m] by (metis append_assoc)
  show "rest64 (m @ d) = rest64 (rest64 m @ d)"
    using rest64_mod [OF m(2), of "rest64 m @ d"] m(1) by (metis append_assoc)
qed

lemma MD5Update_holds:
  assumes "md5_holds ctx m" and "length d < 2 ^ 32"
  shows "\<exists>ctx'. MD5Update ctx d = Some ctx' \<and> md5_holds ctx' (m @ d)"
proof -
  have h: "length (md_in ctx) = 64" "md_buf ctx = md5_absorb md5_init m" "take (length m mod 64) (md_in ctx) = rest64 m"
    "unat (bits1 ctx) * 2 ^ 32 + unat (bits0 ctx) = 8 * length m mod 2 ^ 64"
    using assms(1) by (simp_all add: md5_holds_def)
  define len where "len = (of_nat (length d) :: u32)"
  define n0 where "n0 = bits0 ctx + push_bit 3 len"
  define n1 where "n1 = (if n0 < bits0 ctx then bits1 ctx + 1 else bits1 ctx) + drop_bit 29 len"
  define c where "c = ctx\<lparr>bits0 := n0, bits1 := n1\<rparr>"
  have bits: "unat n1 * 2 ^ 32 + unat n0 = 8 * length (m @ d) mod 2 ^ 64"
    using carry_count [OF assms(2), of "bits0 ctx" "bits1 ctx"] unfolding n1_def n0_def len_def h(4)
    by (simp only: mod_add_left_eq length_append distrib_left)
  define t where "t = length m mod 64"
  have t: "unat (drop_bit 3 (bits0 ctx) AND 0x3f) = t" using pending_count [OF h(4)] by (simp add: t_def)
  have r: "length (rest64 m) = t" by (simp add: t_def whole_rest)
  have e: "MD5Update ctx d = (if t \<noteq> 0 then
           (if length d < 64 - t
            then do { inp \<leftarrow> memcpy_at (md_in c) t d; Some (c\<lparr>md_in := inp\<rparr>) }
            else do {
              inp \<leftarrow> memcpy_at (md_in c) t (take (64 - t) d);
              c \<leftarrow> md5_block (c\<lparr>md_in := inp\<rparr>);
              md5_chunks c (drop (64 - t) d)
            })
         else md5_chunks c d)"
    unfolding MD5Update_def Let_def t by (simp add: c_def n1_def n0_def len_def)
  have i: "length (md_in c) = 64" "md_buf c = md5_absorb md5_init m" "take t (md_in c) = rest64 m"
    using h by (simp_all add: c_def t_def)
  have goal: "md5_holds (c\<lparr>md_in := inp, md_buf := b\<rparr>) (m @ d)"
    if "length inp = 64" "b = md5_absorb md5_init (m @ d)" "take (length (m @ d) mod 64) inp = rest64 (m @ d)" for inp b
    using that bits by (simp add: md5_holds_def c_def)
  have lm: "length (m @ d) mod 64 = (t + length d) mod 64" by (simp add: t_def mod_add_left_eq)
  consider "t = 0" | "t \<noteq> 0" "length d < 64 - t" | "t \<noteq> 0" "64 - t \<le> length d" by linarith
  then show ?thesis
  proof cases
    case 1
    obtain inp where c: "md5_chunks c d = Some (c\<lparr>md_in := inp, md_buf := md5_absorb (md_buf c) d\<rparr>)"
      "length inp = 64" "take (length d mod 64) inp = rest64 d" using md5_chunks_eq [OF i(1)] by blast
    have "rest64 m = []" using r 1 by simp
    then show ?thesis
      using e 1 c goal [OF c(2), of "md5_absorb (md_buf c) d"] i(2) append_pending [of m d] lm by auto
  next
    case 2
    let ?inp = "take t (md_in c) @ d @ drop (t + length d) (md_in c)"
    have "memcpy_at (md_in c) t d = Some ?inp" using 2 i(1) by (simp add: memcpy_at_def)
    moreover have "(length m + length d) mod 64 = t + length d" using lm 2 by simp
    then have "md5_holds (c\<lparr>md_in := ?inp, md_buf := md_buf c\<rparr>) (m @ d)"
      by (intro goal) (use 2 i r append_pending [of m d] in simp_all)
    ultimately show ?thesis using e 2 by auto
  next
    case 3
    let ?b = "rest64 m @ take (64 - t) d"
    have t64: "t < 64" by (simp add: t_def)
    have lb: "length ?b = 64" using 3 r t64 by simp
    have 1: "memcpy_at (md_in c) t (take (64 - t) d) = Some ?b" using 3 i t64 by (simp add: memcpy_at_def)
    let ?c = "c\<lparr>md_in := ?b, md_buf := MD5Transform (md_buf c) (words32 ?b)\<rparr>"
    have 2: "md5_block (c\<lparr>md_in := ?b\<rparr>) = Some ?c" using lb by (subst md5_block_eq) simp_all
    have ic: "length (md_in ?c) = 64" using lb by simp
    obtain inp where c: "md5_chunks ?c (drop (64 - t) d) = Some (?c\<lparr>md_in := inp, md_buf := md5_absorb (md_buf ?c) (drop (64 - t) d)\<rparr>)"
      "length inp = 64" "take (length (drop (64 - t) d) mod 64) inp = rest64 (drop (64 - t) d)"
      using md5_chunks_eq [OF ic, of "drop (64 - t) d"] by blast
    have s: "rest64 m @ d = ?b @ drop (64 - t) d" by simp
    have a: "md5_absorb (md_buf c) (rest64 m @ d) = md5_absorb (MD5Transform (md_buf c) (words32 ?b)) (drop (64 - t) d)"
      unfolding s by (subst md5_absorb_append) (simp_all only: lb md5_absorb_block, simp)
    have q: "rest64 (rest64 m @ d) = rest64 (drop (64 - t) d)" unfolding s by (rule rest64_mod) (simp only: lb, simp)
    have l: "length (drop (64 - t) d) mod 64 = length (m @ d) mod 64"
    proof -
      have "t + length d = 64 + length (drop (64 - t) d)" using 3 t64 by simp
      then show ?thesis using lm by (metis mod_add_self1)
    qed
    have "md5_holds (c\<lparr>md_in := inp, md_buf := md5_absorb (MD5Transform (md_buf c) (words32 ?b)) (drop (64 - t) d)\<rparr>) (m @ d)"
      by (rule goal [OF c(2)]) (use i(2) a q l c(3) append_pending [of m d] in simp_all)
    then show ?thesis using e 3 1 2 c(1) by simp
  qed
qed

lemma MD5Init_holds: "length (md_in ctx) = 64 \<Longrightarrow> md5_holds (MD5Init ctx) []"
  by (simp add: md5_holds_def MD5Init_def md5_init_def)

lemma pad_split:
  assumes "t = length m mod 64"
  shows "md5_pad m = whole m @ (rest64 m @ [0x80] @ replicate ((119 - t) mod 64) 0 @ le64 (8 * length m mod 2 ^ 64))"
  using whole_rest(1) [of m] unfolding md5_pad_def assms by (metis append_assoc)

lemma le64_bits:
  fixes b0 b1 :: u32
  assumes "unat b1 * 2 ^ 32 + unat b0 = n"
  shows "le64 n = le32 b0 @ le32 b1"
proof -
  have "unat b0 < 2 ^ 32" using unsigned_less [of b0, where 'a = nat] by simp
  then have d: "n div 2 ^ 32 = unat b1" "n mod 2 ^ 32 = unat b0" using assms by auto
  have "of_nat n = b0"
  proof -
    have "unat (of_nat n :: u32) = unat b0" using d(2) by (simp add: unat_of_nat)
    then show ?thesis by (rule unsigned_word_eqI)
  qed
  then show ?thesis using d(1) by (simp add: le64_def)
qed

lemma length_le64 [simp]: "length (le64 n) = 8"
  by (simp add: le64_def)

lemma MD5Final_holds:
  assumes "md5_holds ctx m"
  shows "MD5Final ctx = Some (md5 m)"
proof -
  have h: "length (md_in ctx) = 64" "md_buf ctx = md5_absorb md5_init m" "take (length m mod 64) (md_in ctx) = rest64 m"
    "unat (bits1 ctx) * 2 ^ 32 + unat (bits0 ctx) = 8 * length m mod 2 ^ 64"
    using assms by (simp_all add: md5_holds_def)
  define t where "t = length m mod 64"
  have t: "unat (drop_bit 3 (bits0 ctx) AND 0x3F) = t" using pending_count [OF h(4)] by (simp add: t_def)
  have t64: "t < 64" by (simp add: t_def)
  have r: "length (rest64 m) = t" by (simp add: t_def whole_rest)
  have tk: "take t (md_in ctx) = rest64 m" using h(3) by (simp add: t_def)
  have b: "le64 (8 * length m mod 2 ^ 64) = le32 (bits0 ctx) @ le32 (bits1 ctx)" using le64_bits [OF h(4)] .
  let ?tail = "rest64 m @ [0x80] @ replicate ((119 - t) mod 64) 0 @ le32 (bits0 ctx) @ le32 (bits1 ctx)"
  have pad: "md5_absorb md5_init (md5_pad m) = md5_absorb (md_buf ctx) ?tail"
    unfolding pad_split [OF t_def] b h(2) absorb_whole [of _ m] by (rule md5_absorb_append) (rule whole_rest)
  have fin: "MD5Final ctx = Some (md5 m)"
    if "md5_absorb (md_buf ctx) ?tail = MD5Transform (md_buf c) (words32 inp)"
      and "(if 64 - 1 - t < 8
                then do {
                  inp \<leftarrow> memcpy_at (take t (md_in ctx) @ [0x80] @ drop (t + 1) (md_in ctx)) (t + 1) (replicate (64 - 1 - t) 0);
                  ctx \<leftarrow> md5_block (ctx\<lparr>md_in := inp\<rparr>);
                  inp \<leftarrow> memcpy_at (md_in ctx) 0 (replicate 56 0);
                  Some (ctx\<lparr>md_in := inp\<rparr>)
                }
                else do { inp \<leftarrow> memcpy_at (take t (md_in ctx) @ [0x80] @ drop (t + 1) (md_in ctx)) (t + 1) (replicate (64 - 1 - t - 8) 0);
                          Some (ctx\<lparr>md_in := inp\<rparr>) }) = Some c"
      and "length (md_in c) = 64" and "inp = take 56 (md_in c) @ le32 (bits0 ctx) @ le32 (bits1 ctx)"
      and "bits0 c = bits0 ctx" and "bits1 c = bits1 ctx" for c inp
  proof -
    have w1: "memcpy_at (md_in ctx) t [0x80] = Some (take t (md_in ctx) @ [0x80] @ drop (t + 1) (md_in ctx))"
      using t64 h(1) by (simp add: memcpy_at_def)
    have w2: "byteReverse (md_in c) 14 = Some (md_in c)" using that(3) by (simp add: byteReverse_id)
    have w3: "memcpy_at (md_in c) 56 (le32 (bits0 c)) = Some (take 56 (md_in c) @ le32 (bits0 ctx) @ drop 60 (md_in c))"
      "memcpy_at (take 56 (md_in c) @ le32 (bits0 ctx) @ drop 60 (md_in c)) 60 (le32 (bits1 c)) = Some inp"
      using that(3-6) by (simp_all add: memcpy_at_def)
    obtain x0 x1 x2 x3 where x: "MD5Transform (md_buf c) (words32 inp) = (x0, x1, x2, x3)" by (cases "MD5Transform (md_buf c) (words32 inp)")
    have "MD5Final ctx = byteReverse (le32 x0 @ le32 x1 @ le32 x2 @ le32 x3) 4"
      unfolding MD5Final_def Let_def t w1 Option.bind.bind_lunit that(2) w2 w3 x prod.case ..
    also have "\<dots> = Some (le32 x0 @ le32 x1 @ le32 x2 @ le32 x3)" by (rule byteReverse_id) simp_all
    finally show ?thesis unfolding md5_def pad that(1) x prod.case .
  qed
  show ?thesis
  proof (cases "64 - 1 - t < 8")
    case True
    let ?b1 = "rest64 m @ [0x80] @ replicate (63 - t) 0"
    let ?b2 = "replicate 56 0 @ le32 (bits0 ctx) @ le32 (bits1 ctx)"
    let ?c1 = "ctx\<lparr>md_in := ?b1, md_buf := MD5Transform (md_buf ctx) (words32 ?b1)\<rparr>"
    let ?c = "?c1\<lparr>md_in := replicate 56 0 @ drop 56 ?b1\<rparr>"
    have l1: "length ?b1 = 64" using r t64 by simp
    have z: "(119 - t) mod 64 = (63 - t) + 56" using True t64 by simp
    have tail: "?tail = ?b1 @ ?b2" unfolding z replicate_add by simp
    have a: "md5_absorb (md_buf ctx) ?tail = MD5Transform (MD5Transform (md_buf ctx) (words32 ?b1)) (words32 ?b2)"
      unfolding tail by (subst md5_absorb_append) (simp_all only: l1 md5_absorb_block, simp_all add: md5_absorb_block)
    have m1: "memcpy_at (take t (md_in ctx) @ [0x80] @ drop (t + 1) (md_in ctx)) (t + 1) (replicate (64 - 1 - t) 0) = Some ?b1"
      using h(1) r t64 by (simp add: memcpy_at_def tk)
    have m2: "md5_block (ctx\<lparr>md_in := ?b1\<rparr>) = Some ?c1" using l1 by (subst md5_block_eq) simp_all
    have m3: "memcpy_at (md_in ?c1) 0 (replicate 56 0) = Some (replicate 56 0 @ drop 56 ?b1)" using l1 by (simp add: memcpy_at_def)
    show ?thesis
      by (rule fin [of ?c ?b2]) (use a True m1 m2 m3 l1 in simp_all)
  next
    case False
    let ?b1 = "rest64 m @ [0x80] @ replicate (55 - t) 0"
    let ?c = "ctx\<lparr>md_in := ?b1 @ drop 56 (md_in ctx)\<rparr>"
    have l1: "length ?b1 = 56" using r False by simp
    have z: "(119 - t) mod 64 = 55 - t"
    proof -
      have "119 - t = 64 + (55 - t)" using False by simp
      then show ?thesis by (simp only: mod_add_self1) simp
    qed
    have a: "md5_absorb (md_buf ctx) ?tail = MD5Transform (md_buf ctx) (words32 (?b1 @ le32 (bits0 ctx) @ le32 (bits1 ctx)))"
      unfolding z using l1 by (subst md5_absorb_block [symmetric]) simp_all
    have s56: "56 - t = Suc (55 - t)" using False by simp
    have m1: "memcpy_at (take t (md_in ctx) @ [0x80] @ drop (t + 1) (md_in ctx)) (t + 1) (replicate (64 - 1 - t - 8) 0) =
        Some (?b1 @ drop 56 (md_in ctx))"
      using h(1) r False s56 by (simp add: memcpy_at_def tk)
    show ?thesis
      by (rule fin [of ?c "?b1 @ le32 (bits0 ctx) @ le32 (bits1 ctx)"]) (use a False m1 l1 h(1) r s56 in simp_all)
  qed
qed

section \<open>The rounds\<close>

text \<open>
  The 64 steps as RFC 1321 describes them: the auxiliary functions, the table of the integer parts of
  \<^verbatim>\<open>4294967296 * abs (sin i)\<close>, the word and the rotation used in step \<^verbatim>\<open>i\<close>. A step computes a
  new register and shifts the others.
\<close>

definition rfc_fun :: "nat \<Rightarrow> u32 \<Rightarrow> u32 \<Rightarrow> u32 \<Rightarrow> u32" where
  "rfc_fun r x y z =
     (if r = 0 then (x AND y) OR (NOT x AND z)
      else if r = 1 then (x AND z) OR (y AND NOT z)
      else if r = 2 then x XOR y XOR z
      else y XOR (x OR NOT z))"

definition rfc_table :: "u32 list" where
  "rfc_table =
     [0xd76aa478, 0xe8c7b756, 0x242070db, 0xc1bdceee, 0xf57c0faf, 0x4787c62a, 0xa8304613, 0xfd469501,
      0x698098d8, 0x8b44f7af, 0xffff5bb1, 0x895cd7be, 0x6b901122, 0xfd987193, 0xa679438e, 0x49b40821,
      0xf61e2562, 0xc040b340, 0x265e5a51, 0xe9b6c7aa, 0xd62f105d, 0x02441453, 0xd8a1e681, 0xe7d3fbc8,
      0x21e1cde6, 0xc33707d6, 0xf4d50d87, 0x455a14ed, 0xa9e3e905, 0xfcefa3f8, 0x676f02d9, 0x8d2a4c8a,
      0xfffa3942, 0x8771f681, 0x6d9d6122, 0xfde5380c, 0xa4beea44, 0x4bdecfa9, 0xf6bb4b60, 0xbebfbc70,
      0x289b7ec6, 0xeaa127fa, 0xd4ef3085, 0x04881d05, 0xd9d4d039, 0xe6db99e5, 0x1fa27cf8, 0xc4ac5665,
      0xf4292244, 0x432aff97, 0xab9423a7, 0xfc93a039, 0x655b59c3, 0x8f0ccc92, 0xffeff47d, 0x85845dd1,
      0x6fa87e4f, 0xfe2ce6e0, 0xa3014314, 0x4e0811a1, 0xf7537e82, 0xbd3af235, 0x2ad7d2bb, 0xeb86d391]"

definition rfc_word :: "nat \<Rightarrow> nat" where
  "rfc_word i =
     (if i < 16 then i else if i < 32 then (5 * i + 1) mod 16 else if i < 48 then (3 * i + 5) mod 16 else 7 * i mod 16)"

definition rfc_shift :: "nat \<Rightarrow> nat" where
  "rfc_shift i = [[7, 12, 17, 22], [5, 9, 14, 20], [4, 11, 16, 23], [6, 10, 15, 21]] ! (i div 16) ! (i mod 4)"

definition rfc_step :: "u32 list \<Rightarrow> md5_state \<Rightarrow> nat \<Rightarrow> md5_state" where
  "rfc_step X st i = (case st of (a, b, c, d) \<Rightarrow>
     (d, b + word_rotl (rfc_shift i) (a + rfc_fun (i div 16) b c d + X ! rfc_word i + rfc_table ! i), b, c))"

definition rfc_transform :: "md5_state \<Rightarrow> u32 list \<Rightarrow> md5_state" where
  "rfc_transform st X = (case st of (a0, b0, c0, d0) \<Rightarrow> case foldl (rfc_step X) st [0..<64] of (a, b, c, d) \<Rightarrow>
     (a0 + a, b0 + b, c0 + c, d0 + d))"

lemma aux_functions: "F1 = rfc_fun 0" "F2 = rfc_fun 1" "F3 = rfc_fun 2" "F4 = rfc_fun 3"
  by (intro ext bit_word_eqI; auto simp: F1_def F2_def F3_def F4_def rfc_fun_def bit_simps)+

lemma MD5STEP_rotl: "0 < s \<Longrightarrow> s < 32 \<Longrightarrow> MD5STEP f a b c d (x + k) s = b + word_rotl s (a + f b c d + x + k)"
proof -
  assume s: "0 < s" "s < 32"
  have "push_bit s w OR drop_bit (32 - s) w = word_rotl s w" for w :: u32
  proof (rule bit_word_eqI)
    fix n assume n: "n < LENGTH(32)"
    show "bit (push_bit s w OR drop_bit (32 - s) w) n = bit (word_rotl s w) n"
    proof (cases "n < s")
      case True
      then have "(n + (32 - s)) mod 32 = 32 - s + n" using s by simp
      then show ?thesis using True n s by (simp add: bit_word_rotl_iff bit_or_iff bit_push_bit_iff bit_drop_bit_eq)
    next
      case False
      then have "n + (32 - s) = 32 + (n - s)" using s by simp
      then have "(n + (32 - s)) mod 32 = (n - s) mod 32" by (simp only: mod_add_self1)
      moreover have "\<not> bit w (32 - s + n)" using False s bit_imp_le_length [of w "32 - s + n"] by auto
      ultimately show ?thesis using False n s by (simp add: bit_word_rotl_iff bit_or_iff bit_push_bit_iff bit_drop_bit_eq)
    qed
  qed
  then show ?thesis by (simp add: MD5STEP_def Let_def add.assoc add.commute [of _ b])
qed

lemma rfc_four:
  assumes "i mod 4 = 0" and "i < 64"
  shows "foldl (rfc_step X) st [i, i + 1, i + 2, i + 3] =
    md5_group (rfc_fun (i div 16)) (rfc_shift i, rfc_shift (i + 1), rfc_shift (i + 2), rfc_shift (i + 3))
      (X ! rfc_word i + rfc_table ! i) (X ! rfc_word (i + 1) + rfc_table ! (i + 1))
      (X ! rfc_word (i + 2) + rfc_table ! (i + 2)) (X ! rfc_word (i + 3) + rfc_table ! (i + 3)) st"
proof -
  obtain a b c d where st: "st = (a, b, c, d)" by (cases st)
  have e: "(i + j) div 16 = i div 16" if "j < 4" for j
  proof -
    obtain k where k: "i = 4 * k" using assms(1) by (auto simp: mod_eq_0_iff_dvd)
    have "(4 * k + j) div 4 = k" using that by simp
    then have "(4 * k + j) div (4 * 4) = k div 4" unfolding div_mult2_eq by simp
    moreover have "4 * k div (4 * 4) = k div 4" unfolding div_mult2_eq by simp
    ultimately show ?thesis by (simp add: k)
  qed
  have q: "(i + 1) div 16 = i div 16" "(i + 2) div 16 = i div 16" "(i + 3) div 16 = i div 16" by (rule e; simp)+
  have r: "i div 16 < 4" using assms(2) by simp
  have s: "0 < rfc_shift j \<and> rfc_shift j < 32" if "j div 16 < 4" for j
  proof -
    have "j div 16 = 0 \<or> j div 16 = 1 \<or> j div 16 = 2 \<or> j div 16 = 3" using that by linarith
    moreover have "j mod 4 = 0 \<or> j mod 4 = 1 \<or> j mod 4 = 2 \<or> j mod 4 = 3" by linarith
    ultimately show ?thesis by (auto simp: rfc_shift_def)
  qed
  have m: "MD5STEP f a b c d (x + k) (rfc_shift j) = b + word_rotl (rfc_shift j) (a + f b c d + x + k)"
    if "j div 16 = i div 16" for f a b c d x k j
    using s [of j] that r by (intro MD5STEP_rotl) simp_all
  show ?thesis
    unfolding st foldl_Cons foldl_Nil rfc_step_def prod.case md5_group_def Let_def q m [OF refl] m [OF q(1)] m [OF q(2)] m [OF q(3)] ..
qed

lemma upt64: "[0..<64] = [0, 1, 2, 3] @
      [4, 5, 6, 7] @
      [8, 9, 10, 11] @
      [12, 13, 14, 15] @
      [16, 17, 18, 19] @
      [20, 21, 22, 23] @
      [24, 25, 26, 27] @
      [28, 29, 30, 31] @
      [32, 33, 34, 35] @
      [36, 37, 38, 39] @
      [40, 41, 42, 43] @
      [44, 45, 46, 47] @
      [48, 49, 50, 51] @
      [52, 53, 54, 55] @
      [56, 57, 58, 59] @
      [60, 61, 62, 63]"
  by (simp add: upt_rec)

lemma MD5Transform_rounds: "MD5Transform st X = rfc_transform st X"
proof -
  obtain a b c d where st: "st = (a, b, c, d)" by (cases st)
  show ?thesis
    unfolding st MD5Transform_def rfc_transform_def upt64 foldl_append prod.case Let_def aux_functions
    using rfc_four [of 0 X, unfolded add_0] rfc_four [of 4 X] rfc_four [of 8 X] rfc_four [of 12 X] rfc_four [of 16 X] rfc_four [of 20 X]
      rfc_four [of 24 X] rfc_four [of 28 X] rfc_four [of 32 X] rfc_four [of 36 X] rfc_four [of 40 X] rfc_four [of 44 X]
      rfc_four [of 48 X] rfc_four [of 52 X] rfc_four [of 56 X] rfc_four [of 60 X]
    by (simp add: rfc_shift_def rfc_word_def rfc_table_def del: foldl_Cons)
qed

section \<open>Properties\<close>

fun md5_updates :: "MD5Context \<Rightarrow> byte list list \<Rightarrow> MD5Context option" where
  "md5_updates ctx [] = Some ctx"
| "md5_updates ctx (d # ds) = do { ctx \<leftarrow> MD5Update ctx d; md5_updates ctx ds }"

lemma md5_updates_holds:
  "md5_holds ctx m \<Longrightarrow> \<forall>d\<in>set ds. length d < 2 ^ 32 \<Longrightarrow> \<exists>ctx'. md5_updates ctx ds = Some ctx' \<and> md5_holds ctx' (m @ concat ds)"
proof (induction ds arbitrary: ctx m)
  case (Cons d ds)
  obtain c where c: "MD5Update ctx d = Some c" "md5_holds c (m @ d)"
    using MD5Update_holds [OF Cons.prems(1), of d] Cons.prems(2) by auto
  then show ?case using Cons.IH [OF c(2)] Cons.prems(2) by auto
qed auto

lemma md5_stream_eq:
  assumes "length (md_in ctx) = 64" and "\<forall>d\<in>set ds. length d < 2 ^ 32"
  shows "md5_updates (MD5Init ctx) ds \<bind> MD5Final = Some (md5 (concat ds))"
  using md5_updates_holds [OF MD5Init_holds [OF assms(1)] assms(2)] MD5Final_holds by auto

text \<open>
  C32. Whatever the context contained before and however a message is cut into pieces,
  \<^verbatim>\<open>MD5Init\<close>, \<^verbatim>\<open>MD5Update\<close> for each piece and \<^verbatim>\<open>MD5Final\<close> stay within the context and give the digest that
  RFC 1321 defines for the whole message: padding, the 64-bit length with its carry between the two
  words, and the blocks in order.
\<close>

theorem md5_stream:
  assumes "length (md_in ctx) = 64" and "\<forall>d\<in>set ds. length d < 2 ^ 32"
  shows "md5_updates (MD5Init ctx) ds \<bind> MD5Final = Some (md5 (concat ds))"
  by (rule md5_stream_eq [OF assms])

definition dirty_context :: MD5Context where
  "dirty_context = \<lparr>md_buf = (1, 2, 3, 4), bits0 = 5, bits1 = 6, md_in = replicate 64 7\<rparr>"

theorem md5_stream_witness:
  "length (md_in dirty_context) = 64 \<and>
   md5_updates (MD5Init dirty_context) [[0x61], replicate 70 0x62, []] \<bind> MD5Final = Some (md5 (0x61 # replicate 70 0x62))"
  using md5_stream [of dirty_context "[[0x61], replicate 70 0x62, []]"] by (simp add: dirty_context_def)

text \<open>
  The unrolled \<^verbatim>\<open>MD5Transform\<close> performs the 64 steps of RFC 1321: the optimised auxiliary functions,
  the order of the registers, the words, the constants and the rotations agree with the loop in the
  standard.
\<close>

theorem MD5Transform_correct: "MD5Transform st X = rfc_transform st X"
  by (rule MD5Transform_rounds)

end
