(* ===== verification/PPPoE_Server.thy ===== *)
theory PPPoE_Server
  imports PPPoE_Client MD5
begin

unbundle bit_operations_syntax

text \<open>
  The PPPoE server (\<^verbatim>\<open>pppoe-server.c\<close>): its session slots, the cookies, the handlers of PADI, PADR and
  PADT packets, the command line, the start and the program that a session child executes. The result of
  \<^verbatim>\<open>fork\<close>, the uninitialised packets and digest contexts on the stack, the process id and the paths of the
  build are parameters; the globals are the record \<^verbatim>\<open>server\<close>. The lemmas give each handler in closed form:
  a PADI is answered with a cookie, a PADR is judged by \<^verbatim>\<open>padr_check\<close> and a PADT reaches the child of its
  session. The main loop with its signals is in \<^verbatim>\<open>PPPoE_Server_Loop\<close>.
\<close>

section \<open>The state of the server\<close>

definition IPV4ALEN :: nat where [simp]: "IPV4ALEN = 4"
definition SMALLBUF :: nat where [simp]: "SMALLBUF = 256"
definition DEFAULT_MAX_SESSIONS :: u32 where [simp]: "DEFAULT_MAX_SESSIONS = 64"
definition SEED_LEN :: nat where [simp]: "SEED_LEN = 16"
definition MD5_LEN :: nat where [simp]: "MD5_LEN = 16"
definition COOKIE_LEN :: nat where [simp]: "COOKIE_LEN = 20"

record ClientSession =
  cs_pid :: int
  cs_ip :: "byte list"
  cs_sess :: u16
  cs_eth :: "byte list"

record server =
  Sessions :: "ClientSession list"
  NumSessionSlots :: u32
  SessOffset :: u32
  ReapPending :: bool
  Synchronous :: bool
  CookieSeed :: "byte list"
  IfName :: "string option"
  ACName :: "byte list option"
  PppoeOptions :: string
  LocalIP :: "byte list"
  RemoteIP :: "byte list"
  hostUniq :: PPPoETag
  srv_relayId :: PPPoETag
  receivedCookie :: PPPoETag
  requestedService :: PPPoETag
  UseLinuxKernelModePPPoE :: bool
  srv_Discovery :: u16
  srv_Session :: u16

text \<open>
  What the server does to the outside. \<^verbatim>\<open>Fork\<close> records a successful \<^verbatim>\<open>fork\<close> in the parent, \<^verbatim>\<open>Kill\<close> is a
  SIGTERM, \<^verbatim>\<open>Syslog\<close> the messages of the error level.
\<close>

datatype server_action =
    Send frame
  | Fork int
  | Kill int
  | PipeWrite
  | Execv string "string list"
  | Syslog string

section \<open>The tags\<close>

definition parsePADITags :: "(int, server) ParseFunc" where
  "parsePADITags type len data s =
     Inr (if type = TAG_SERVICE_NAME then s
          else if type = TAG_RELAY_SESSION_ID then s\<lparr>srv_relayId := store_tag type len data (srv_relayId s)\<rparr>
          else if type = TAG_HOST_UNIQ then s\<lparr>hostUniq := store_tag type len data (hostUniq s)\<rparr>
          else s)"

definition parsePADRTags :: "(int, server) ParseFunc" where
  "parsePADRTags type len data s =
     Inr (if type = TAG_RELAY_SESSION_ID then s\<lparr>srv_relayId := store_tag type len data (srv_relayId s)\<rparr>
          else if type = TAG_HOST_UNIQ then s\<lparr>hostUniq := store_tag type len data (hostUniq s)\<rparr>
          else if type = TAG_AC_COOKIE then s\<lparr>receivedCookie := store_tag type len data (receivedCookie s)\<rparr>
          else if type = TAG_SERVICE_NAME then s\<lparr>requestedService := store_tag type len data (requestedService s)\<rparr>
          else s)"

section \<open>The session slots\<close>

text \<open>\<^verbatim>\<open>findSession\<close> of the server gives the index of the slot; a slot outside the array is \<^verbatim>\<open>None\<close>.\<close>

function find_slot :: "ClientSession list \<Rightarrow> u32 \<Rightarrow> int \<Rightarrow> nat \<Rightarrow> nat option option" where
  "find_slot ss n pid i =
     (if i < unat n
      then if i < length ss
           then if cs_pid (ss ! i) = pid then Some (Some i) else find_slot ss n pid (i + 1)
           else None
      else Some None)"
  by pat_completeness auto
termination by (relation "measure (\<lambda>(ss, n, pid, i). unat n - i)") auto

definition srv_findSession :: "int \<Rightarrow> server \<Rightarrow> nat option option" where
  "srv_findSession pid s = find_slot (Sessions s) (NumSessionSlots s) pid 0"

text \<open>
  One round of the loop of \<^verbatim>\<open>reapSessions\<close>, for a child that \<^verbatim>\<open>waitpid\<close> has returned, and the loop over the
  results of \<^verbatim>\<open>waitpid\<close>, which ends at the first that is not positive.
\<close>

definition reap_child :: "int \<Rightarrow> server \<Rightarrow> (server \<times> server_action list) option" where
  "reap_child pid s = do {
     r \<leftarrow> srv_findSession pid s;
     Some (case r of
             None \<Rightarrow> (s, [Syslog ''Child died but couldn't find session!''])
           | Some i \<Rightarrow> (s\<lparr>Sessions := (Sessions s)[i := (Sessions s ! i)\<lparr>cs_pid := 0\<rparr>]\<rparr>, []))
   }"

fun reapSessions :: "int list \<Rightarrow> server \<Rightarrow> (server \<times> server_action list) option" where
  "reapSessions [] s = Some (s, [])"
| "reapSessions (pid # pids) s =
     (if pid > 0
      then do {
        (s, acts) \<leftarrow> reap_child pid s;
        (s, acts') \<leftarrow> reapSessions pids s;
        Some (s, acts @ acts')
      }
      else Some (s, []))"

definition childHandler :: "server \<Rightarrow> server \<times> server_action list" where
  "childHandler s = (if \<not> ReapPending s then (s\<lparr>ReapPending := True\<rparr>, [PipeWrite]) else (s, []))"

section \<open>Cookies and the packets of the server\<close>

text \<open>\<^verbatim>\<open>ctx\<close> is the uninitialised context on the stack, \<^verbatim>\<open>pid\<close> the result of \<^verbatim>\<open>getpid\<close>.\<close>

definition genCookie :: "MD5Context \<Rightarrow> u32 \<Rightarrow> byte list \<Rightarrow> byte list \<Rightarrow> byte list \<Rightarrow> byte list option" where
  "genCookie ctx pid peerEthAddr myEthAddr seed = do {
     ctx \<leftarrow> MD5Update (MD5Init ctx) (take ETH_ALEN peerEthAddr);
     ctx \<leftarrow> MD5Update ctx (take ETH_ALEN myEthAddr);
     ctx \<leftarrow> MD5Update ctx (take SEED_LEN seed);
     digest \<leftarrow> MD5Final ctx;
     Some (digest @ le32 pid)
   }"

text \<open>The unchecked copy of a saved tag behind the cursor, which the PADS packets use.\<close>

definition put_saved :: "PPPoETag \<Rightarrow> builder \<Rightarrow> builder option" where
  "put_saved t b =
     (if ttype t \<noteq> 0 then put_bytes (tag_len t + TAG_HDR_SIZE) (tag_bytes t) b else Some b)"

definition processPADI ::
  "MD5Context \<Rightarrow> PPPoEPacket \<Rightarrow> u32 \<Rightarrow> int \<Rightarrow> byte list \<Rightarrow> PPPoEPacket \<Rightarrow> server \<Rightarrow> (server \<times> server_action list) option" where
  "processPADI ctx u pid sock myAddr packet s =
     (if NOT_UNICAST (h_source packet) then Some (s, [Syslog ''PADI packet from non-unicast source address''])
      else do {
        name \<leftarrow> ACName s;
        let acname_len = length name;
        _ \<leftarrow> (if acname_len > ETH_DATA_LEN then None else Some ());
        let acname = le16 (htons TAG_AC_NAME) @ le16 (htons (of_nat acname_len)) @ name;
        let servname = le16 (htons TAG_SERVICE_NAME) @ le16 0;
        let s = s\<lparr>srv_relayId := (srv_relayId s)\<lparr>ttype := 0\<rparr>, hostUniq := (hostUniq s)\<lparr>ttype := 0\<rparr>\<rparr>;
        r \<leftarrow> parsePacket packet parsePADITags s;
        case r of Inl x \<Rightarrow> None
        | Inr (rc, s) \<Rightarrow> do {
            digest \<leftarrow> genCookie ctx pid (h_source packet) myAddr (CookieSeed s);
            let cookie_tag = le16 (htons TAG_AC_COOKIE) @ le16 (htons (of_nat COOKIE_LEN)) @ digest;
            let pado = header_packet u (h_source packet) myAddr (srv_Discovery s) CODE_PADO 0;
            frms \<leftarrow> room (put_checked True (acname_len + TAG_HDR_SIZE) acname (payload pado, 0, 0))
                    (\<lambda>b. room (put_checked True TAG_HDR_SIZE servname b)
                    (\<lambda>b. room (put_checked True (TAG_HDR_SIZE + COOKIE_LEN) cookie_tag b)
                    (\<lambda>b. room (put_checked (ttype (srv_relayId s) \<noteq> 0) (tag_len (srv_relayId s) + TAG_HDR_SIZE)
                                 (tag_bytes (srv_relayId s)) b)
                    (\<lambda>b. room (put_checked (ttype (hostUniq s) \<noteq> 0) (tag_len (hostUniq s) + TAG_HDR_SIZE)
                                 (tag_bytes (hostUniq s)) b)
                    (\<lambda>b. finish_packet sock pado b)))));
            Some (s, map Send frms)
          }
      })"

text \<open>The index is computed in \<^verbatim>\<open>size_t\<close> and wraps around.\<close>

definition processPADT ::
  "byte list \<Rightarrow> PPPoEPacket \<Rightarrow> server \<Rightarrow> (server \<times> server_action list) option" where
  "processPADT myAddr packet s =
     (if h_dest packet \<noteq> myAddr then Some (s, [])
      else (let i = ucast (ntohs (session packet)) - 1 - SessOffset s
            in if i \<ge> NumSessionSlots s then Some (s, [])
               else if unat i \<ge> length (Sessions s) then None
               else if cs_sess (Sessions s ! unat i) \<noteq> session packet
               then Some (s, [Syslog ''Session index doesn't match session number''])
               else if cs_pid (Sessions s ! unat i) \<noteq> 0
               then do {
                 r \<leftarrow> parsePacket packet parseLogErrs [];
                 case r of Inl x \<Rightarrow> None
                 | Inr (rc, log) \<Rightarrow> Some (s, [Kill (cs_pid (Sessions s ! unat i))])
               }
               else Some (s, [])))"

definition sendErrorPADS ::
  "PPPoEPacket \<Rightarrow> int \<Rightarrow> byte list \<Rightarrow> byte list \<Rightarrow> u16 \<Rightarrow> string \<Rightarrow> server \<Rightarrow> frame list option" where
  "sendErrorPADS u sock source dest errorTag errorMsg s =
     (let elen = length errorMsg;
          pads = header_packet u dest source (srv_Discovery s) CODE_PADS (htons 0);
          err = le16 (htons errorTag) @ le16 (htons (of_nat elen)) @ cstr errorMsg
      in if elen > ETH_DATA_LEN then None
         else do {
           b \<leftarrow> put_bytes (TAG_HDR_SIZE + elen) err (payload pads, 0, 0);
           b \<leftarrow> put_saved (srv_relayId s) b;
           b \<leftarrow> put_saved (hostUniq s) b;
           finish_packet sock pads b
         })"

section \<open>Starting the PPP daemon\<close>

text \<open>
  The conversions \<^verbatim>\<open>%d\<close>, \<^verbatim>\<open>%x\<close> and \<^verbatim>\<open>%02x\<close> of \<^verbatim>\<open>snprintf\<close>, on numbers that are not negative, and its
  truncation to the size of the buffer.
\<close>

definition digit :: "nat \<Rightarrow> char" where
  "digit d = ''0123456789abcdef'' ! d"

function print_base :: "nat \<Rightarrow> nat \<Rightarrow> string" where
  "print_base b n = (if b < 2 \<or> n < b then [digit n] else print_base b (n div b) @ [digit (n mod b)])"
  by pat_completeness auto
termination by (relation "measure snd") auto

definition print_02x :: "byte \<Rightarrow> string" where
  "print_02x w = [digit (unat w div 16), digit (unat w mod 16)]"

definition snprintf :: "nat \<Rightarrow> string \<Rightarrow> string" where
  "snprintf n str = take (n - 1) str"

definition print_mac :: "byte list \<Rightarrow> string" where
  "print_mac e = print_02x (e ! 0) @ '':'' @ print_02x (e ! 1) @ '':'' @ print_02x (e ! 2) @ '':'' @
     print_02x (e ! 3) @ '':'' @ print_02x (e ! 4) @ '':'' @ print_02x (e ! 5)"

definition print_ip :: "byte list \<Rightarrow> string" where
  "print_ip a = print_base 10 (unat (a ! 0)) @ ''.'' @ print_base 10 (unat (a ! 1)) @ ''.'' @
     print_base 10 (unat (a ! 2)) @ ''.'' @ print_base 10 (unat (a ! 3))"

text \<open>The paths are fixed when the program is built. \<^verbatim>\<open>dup_ok\<close> tells whether \<^verbatim>\<open>strdup\<close> finds memory.\<close>

record server_paths =
  PPPD_PATH :: string
  PPPOE_PATH :: string
  PPPOE_SERVER_OPTIONS :: string
  PLUGIN_PATH :: string

text \<open>An interface name that is not set would be a null pointer for \<^verbatim>\<open>%s\<close>.\<close>

definition startPPPDUserMode :: "server_paths \<Rightarrow> bool \<Rightarrow> ClientSession \<Rightarrow> server \<Rightarrow> server_action list option" where
  "startPPPDUserMode paths dup_ok ses s = do {
     ifn \<leftarrow> IfName s;
     let pty = snprintf SMALLBUF (PPPOE_PATH paths @ '' -I '' @ ifn @ '' -e '' @
                 print_base 10 (unat (ntohs (cs_sess ses))) @ '':'' @ print_mac (cs_eth ses) @ PppoeOptions s);
     let ips = snprintf SMALLBUF (print_ip (LocalIP s) @ '':'' @ print_ip (cs_ip ses));
     Some (if \<not> dup_ok then []
           else [Execv (PPPD_PATH paths)
                  ([''pppd'', ''pty'', pty, ''file'', PPPOE_SERVER_OPTIONS paths, ips, ''nodetach'', ''noaccomp'',
                    ''nobsdcomp'', ''nodeflate'', ''nopcomp'', ''novj'', ''novjccomp'', ''default-asyncmap''] @
                   (if Synchronous s then [''sync''] else []))])
   }"

definition startPPPDLinuxKernelMode :: "server_paths \<Rightarrow> bool \<Rightarrow> ClientSession \<Rightarrow> server \<Rightarrow> server_action list option" where
  "startPPPDLinuxKernelMode paths dup_ok ses s = do {
     ifn \<leftarrow> IfName s;
     let name = snprintf SMALLBUF (print_base 10 (unat (ntohs (cs_sess ses))) @ '':'' @ print_mac (cs_eth ses));
     let ips = snprintf SMALLBUF (print_ip (LocalIP s) @ '':'' @ print_ip (cs_ip ses));
     Some (if \<not> dup_ok then []
           else [Execv (PPPD_PATH paths)
                  [''pppd'', ''plugin'', PLUGIN_PATH paths, ifn, ''rp_pppoe_sess'', name, ''file'',
                   PPPOE_SERVER_OPTIONS paths, ips, ''nodetach'', ''noaccomp'', ''nobsdcomp'', ''nodeflate'',
                   ''nopcomp'', ''novj'', ''novjccomp'', ''default-asyncmap'']])
   }"

definition startPPPD :: "server_paths \<Rightarrow> bool \<Rightarrow> ClientSession \<Rightarrow> server \<Rightarrow> server_action list option" where
  "startPPPD paths dup_ok ses s =
     (if UseLinuxKernelModePPPoE s then startPPPDLinuxKernelMode paths dup_ok ses s
      else startPPPDUserMode paths dup_ok ses s)"

section \<open>Opening a session\<close>

text \<open>
  \<^verbatim>\<open>child\<close> is the result of \<^verbatim>\<open>fork\<close>. The last component of the result tells whether the process returns to
  the main loop; the child never does, since \<^verbatim>\<open>startPPPD\<close> ends in \<^verbatim>\<open>execv\<close> or \<^verbatim>\<open>exit\<close>. \<^verbatim>\<open>u\<close> and \<^verbatim>\<open>ue\<close> are
  the uninitialised packets of \<^verbatim>\<open>processPADR\<close> and \<^verbatim>\<open>sendErrorPADS\<close>. The function in three parts: refusing with an
  error PADS, opening the session in the slot that has been found, and the checks before.
\<close>

type_synonym padr_result = "(server \<times> server_action list \<times> bool) option"

definition padr_refuse ::
  "PPPoEPacket \<Rightarrow> int \<Rightarrow> byte list \<Rightarrow> PPPoEPacket \<Rightarrow> u16 \<Rightarrow> string \<Rightarrow> string list \<Rightarrow> server \<Rightarrow> padr_result" where
  "padr_refuse ue sock myAddr packet tag msg logs s =
     map_option (\<lambda>frms. (s, map Syslog logs @ map Send frms, True))
       (sendErrorPADS ue sock myAddr (h_source packet) tag msg s)"

definition padr_open ::
  "server_paths \<Rightarrow> bool \<Rightarrow> PPPoEPacket \<Rightarrow> PPPoEPacket \<Rightarrow> int \<Rightarrow> byte list \<Rightarrow> int \<Rightarrow> PPPoEPacket \<Rightarrow> nat \<Rightarrow> server \<Rightarrow> padr_result" where
  "padr_open paths dup_ok u ue sock myAddr child packet i s =
     (let s = s\<lparr>Sessions := (Sessions s)[i := (Sessions s ! i)\<lparr>cs_eth := h_source packet\<rparr>]\<rparr>
      in if child < 0
         then padr_refuse ue sock myAddr packet TAG_AC_SYSTEM_ERROR ''RP-PPPoE: Server: Unable to start session process'' [] s
         else if child \<noteq> 0
         then Some (s\<lparr>Sessions := (Sessions s)[i := (Sessions s ! i)\<lparr>cs_pid := child\<rparr>]\<rparr>, [Fork child], True)
         else (let pads = header_packet u (h_source packet) myAddr (srv_Discovery s) CODE_PADS (cs_sess (Sessions s ! i));
                   servname = le16 (htons TAG_SERVICE_NAME) @ le16 0
               in do {
                 b \<leftarrow> put_bytes TAG_HDR_SIZE servname (payload pads, 0, 0);
                 b \<leftarrow> put_saved (srv_relayId s) b;
                 b \<leftarrow> put_saved (hostUniq s) b;
                 frms \<leftarrow> finish_packet sock pads b;
                 acts \<leftarrow> startPPPD paths dup_ok (Sessions s ! i) s;
                 Some (s, map Send frms @ acts, False)
               }))"

definition processPADR ::
  "server_paths \<Rightarrow> bool \<Rightarrow> MD5Context \<Rightarrow> PPPoEPacket \<Rightarrow> PPPoEPacket \<Rightarrow> u32 \<Rightarrow> int \<Rightarrow> byte list \<Rightarrow> int \<Rightarrow> PPPoEPacket \<Rightarrow>
     server \<Rightarrow> padr_result" where
  "processPADR paths dup_ok ctx u ue pid sock myAddr child packet s =
     (let s = s\<lparr>srv_relayId := (srv_relayId s)\<lparr>ttype := 0\<rparr>, hostUniq := (hostUniq s)\<lparr>ttype := 0\<rparr>,
                receivedCookie := (receivedCookie s)\<lparr>ttype := 0\<rparr>, requestedService := (requestedService s)\<lparr>ttype := 0\<rparr>\<rparr>
      in if h_dest packet \<noteq> myAddr then Some (s, [], True)
         else if NOT_UNICAST (h_source packet)
         then Some (s, [Syslog ''PADR packet from non-unicast source address''], True)
         else do {
           r \<leftarrow> parsePacket packet parsePADRTags s;
           case r of Inl x \<Rightarrow> None
           | Inr (rc, s) \<Rightarrow>
               if ttype (receivedCookie s) = 0 then Some (s, [], True)
               else if tlength (receivedCookie s) \<noteq> htons (of_nat COOKIE_LEN) then Some (s, [], True)
               else do {
                 cookieBuffer \<leftarrow> genCookie ctx pid (h_source packet) myAddr (CookieSeed s);
                 if take COOKIE_LEN (tpayload (receivedCookie s)) \<noteq> take COOKIE_LEN cookieBuffer then Some (s, [], True)
                 else if ttype (requestedService s) = 0
                 then padr_refuse ue sock myAddr packet TAG_SERVICE_NAME_ERROR ''RP-PPPoE: Server: No service name tag''
                        [''Received PADR packet with no SERVICE_NAME tag''] s
                 else if tlength (requestedService s) \<noteq> 0
                 then padr_refuse ue sock myAddr packet TAG_SERVICE_NAME_ERROR ''RP-PPPoE: Server: Invalid service name tag''
                        [''Received PADR packet asking for unsupported service''] s
                 else do {
                   slot \<leftarrow> srv_findSession 0 s;
                   case slot of
                     None \<Rightarrow> padr_refuse ue sock myAddr packet TAG_AC_SYSTEM_ERROR ''RP-PPPoE: Server: No client slots available''
                               [''No client slots available''] s
                   | Some i \<Rightarrow> padr_open paths dup_ok u ue sock myAddr child packet i s
                 }
               }
         })"

section \<open>The main program\<close>

text \<open>The options with what \<^verbatim>\<open>sscanf\<close> makes of their arguments.\<close>

datatype server_opt =
    Sopt_k
  | Sopt_s
  | Sopt_f "(u32 \<times> u32) option" string
  | Sopt_F
  | Sopt_N "u32 option"
  | Sopt_o "u32 option"
  | Sopt_I string
  | Sopt_C "byte list"
  | Sopt_L "(int \<times> int \<times> int \<times> int) option"
  | Sopt_R "(int \<times> int \<times> int \<times> int) option"
  | Sopt_T string
  | Sopt_m string
  | Sopt_h
  | Sopt_unknown

definition append_option :: "string \<Rightarrow> server \<Rightarrow> server" where
  "append_option str s =
     s\<lparr>PppoeOptions := PppoeOptions s @ snprintf (SMALLBUF - length (PppoeOptions s)) str\<rparr>"

definition read_ip :: "(int \<times> int \<times> int \<times> int) option \<Rightarrow> byte list option" where
  "read_ip arg =
     (case arg of None \<Rightarrow> None
      | Some (a, b, c, d) \<Rightarrow>
          if list_all (\<lambda>x. \<not> (x < 0 \<or> x > 255)) [a, b, c, d] then Some (map word_of_int [a, b, c, d]) else None)"

definition server_option :: "server_opt \<Rightarrow> server \<times> bool \<Rightarrow> int + server \<times> bool" where
  "server_option opt sd =
     (let (s, beDaemon) = sd
      in case opt of
        Sopt_k \<Rightarrow> Inr (s\<lparr>UseLinuxKernelModePPPoE := True\<rparr>, beDaemon)
      | Sopt_s \<Rightarrow> Inr (append_option '' -s'' (s\<lparr>Synchronous := True\<rparr>), beDaemon)
      | Sopt_f None arg \<Rightarrow> Inl 1
      | Sopt_f (Some (d, e)) arg \<Rightarrow>
          Inr (append_option ('' -f '' @ arg) (s\<lparr>srv_Discovery := ucast d, srv_Session := ucast e\<rparr>), beDaemon)
      | Sopt_F \<Rightarrow> Inr (s, False)
      | Sopt_N None \<Rightarrow> Inl 1
      | Sopt_N (Some n) \<Rightarrow> if sint n \<le> 0 then Inl 1 else Inr (s\<lparr>NumSessionSlots := n\<rparr>, beDaemon)
      | Sopt_o None \<Rightarrow> Inl 1
      | Sopt_o (Some n) \<Rightarrow> if sint n < 0 then Inl 1 else Inr (s\<lparr>SessOffset := n\<rparr>, beDaemon)
      | Sopt_I n \<Rightarrow> Inr (s\<lparr>IfName := Some n\<rparr>, beDaemon)
      | Sopt_C n \<Rightarrow> Inr (s\<lparr>ACName := Some n\<rparr>, beDaemon)
      | Sopt_L a \<Rightarrow> (case read_ip a of None \<Rightarrow> Inl 1 | Some ip \<Rightarrow> Inr (s\<lparr>LocalIP := ip\<rparr>, beDaemon))
      | Sopt_R a \<Rightarrow> (case read_ip a of None \<Rightarrow> Inl 1 | Some ip \<Rightarrow> Inr (s\<lparr>RemoteIP := ip\<rparr>, beDaemon))
      | Sopt_T arg \<Rightarrow> Inr (append_option ('' -T '' @ arg) s, beDaemon)
      | Sopt_m arg \<Rightarrow> Inr (append_option ('' -m '' @ arg) s, beDaemon)
      | Sopt_h \<Rightarrow> Inl 0
      | Sopt_unknown \<Rightarrow> Inr (s, beDaemon))"

fun server_options :: "server_opt list \<Rightarrow> server \<times> bool \<Rightarrow> int + server \<times> bool" where
  "server_options [] sd = Inr sd"
| "server_options (opt # opts) sd = (case server_option opt sd of Inl x \<Rightarrow> Inl x | Inr sd \<Rightarrow> server_options opts sd)"

definition zero_tag :: PPPoETag where
  "zero_tag = \<lparr>ttype = 0, tlength = 0, tpayload = replicate ETH_DATA_LEN 0\<rparr>"

definition server_globals :: server where
  "server_globals = \<lparr>Sessions = [], NumSessionSlots = DEFAULT_MAX_SESSIONS, SessOffset = 0, ReapPending = False,
     Synchronous = False, CookieSeed = replicate SEED_LEN 0, IfName = None, ACName = None, PppoeOptions = '''',
     LocalIP = [10, 0, 0, 1], RemoteIP = [10, 67, 15, 1], hostUniq = zero_tag, srv_relayId = zero_tag,
     receivedCookie = zero_tag, requestedService = zero_tag, UseLinuxKernelModePPPoE = False,
     srv_Discovery = ETH_PPPOE_DISCOVERY, srv_Session = ETH_PPPOE_SESSION\<rparr>"

definition next_ip :: "byte list \<Rightarrow> byte list" where
  "next_ip ip =
     (let ip = ip[3 := ip ! 3 + 1]
      in if ip ! 3 = 0 \<or> ip ! 3 = 255
         then (let ip = ip[3 := 1, 2 := ip ! 2 + 1]
               in if ip ! 2 = 0
                  then (let ip = ip[1 := ip ! 1 + 1]
                        in if ip ! 1 = 0 then ip[0 := ip ! 0 + 1] else ip)
                  else ip)
         else ip)"

text \<open>The session slots come zeroed from \<^verbatim>\<open>calloc\<close>; \<^verbatim>\<open>k\<close> slots are left to fill.\<close>

fun fill_sessions :: "nat \<Rightarrow> nat \<Rightarrow> server \<Rightarrow> server" where
  "fill_sessions 0 i s = s"
| "fill_sessions (Suc k) i s =
     fill_sessions k (i + 1)
       (s\<lparr>Sessions := (Sessions s)[i := (Sessions s ! i)\<lparr>cs_pid := 0, cs_ip := RemoteIP s,
            cs_sess := htons (ucast (of_nat i + 1 + SessOffset s :: u32))\<rparr>],
          RemoteIP := next_ip (RemoteIP s)\<rparr>)"

text \<open>The bytes that \<^verbatim>\<open>fread\<close> gets from the random device, or the substitute from the pid and \<^verbatim>\<open>rand\<close>.\<close>

definition cookie_seed :: "byte list option \<Rightarrow> u32 \<Rightarrow> (nat \<Rightarrow> u32) \<Rightarrow> byte list \<Rightarrow> byte list" where
  "cookie_seed urandom pid rnd old =
     (case urandom of
        Some bs \<Rightarrow> take SEED_LEN bs @ drop (length bs) old
      | None \<Rightarrow> [ucast (pid AND 0xFF), ucast (drop_bit 8 pid AND 0xFF)] @
          map (\<lambda>i. ucast (drop_bit (i mod 9) (rnd (i - 2)) AND 0xFF)) [2..<SEED_LEN])"

text \<open>
  \<^verbatim>\<open>main\<close> up to its loop: \<^verbatim>\<open>hostname\<close> is the result of \<^verbatim>\<open>gethostname\<close>, \<^verbatim>\<open>mem\<close> tells whether \<^verbatim>\<open>calloc\<close> succeeds
  and \<^verbatim>\<open>forked\<close> whether both calls of \<^verbatim>\<open>fork\<close> do; the process that goes on is the last child.
\<close>

definition server_main ::
  "byte list option \<Rightarrow> bool \<Rightarrow> bool \<Rightarrow> byte list option \<Rightarrow> u32 \<Rightarrow> (nat \<Rightarrow> u32) \<Rightarrow> server_opt list \<Rightarrow> int + server" where
  "server_main hostname mem forked urandom pid rnd opts =
     (case server_options opts (server_globals, True) of
        Inl x \<Rightarrow> Inl x
      | Inr (s, beDaemon) \<Rightarrow>
          (let s = (if IfName s = None then s\<lparr>IfName := Some ''eth0''\<rparr> else s)
           in case (case ACName s of Some n \<Rightarrow> Some n | None \<Rightarrow> hostname) of
                None \<Rightarrow> Inl 1
              | Some name \<Rightarrow>
                  (let s = s\<lparr>ACName := Some name\<rparr>
                   in if NumSessionSlots s + SessOffset s > 65534 then Inl 1
                      else if \<not> mem then Inl 1
                      else if beDaemon \<and> \<not> forked then Inl 1
                      else (let s = s\<lparr>Sessions := replicate (unat (NumSessionSlots s))
                                        \<lparr>cs_pid = 0, cs_ip = replicate 4 0, cs_sess = 0, cs_eth = replicate 6 0\<rparr>\<rparr>;
                                s = fill_sessions (unat (NumSessionSlots s)) 0 s
                            in Inr (s\<lparr>CookieSeed := cookie_seed urandom pid rnd (CookieSeed s)\<rparr>)))))"

text \<open>A packet in the main loop, after \<^verbatim>\<open>select\<close> has found the socket readable.\<close>

definition server_packet ::
  "server_paths \<Rightarrow> bool \<Rightarrow> MD5Context \<Rightarrow> PPPoEPacket \<Rightarrow> PPPoEPacket \<Rightarrow> u32 \<Rightarrow> int \<Rightarrow> byte list \<Rightarrow> int \<Rightarrow>
     PPPoEPacket \<Rightarrow> dev_event \<Rightarrow> server \<Rightarrow> padr_result" where
  "server_packet paths dup_ok ctx u ue pid sock myAddr child packet ev s =
     (case ev of
        Timeout \<Rightarrow> Some (s, [], True)
      | RecvFail \<Rightarrow> Some (s, [], True)
      | Frame f \<Rightarrow>
          (let (packet, len) = receivePacket packet f
           in if bogus_length packet len then Some (s, [Syslog ''Bogus PPPoE length field''], True)
              else if pver packet \<noteq> 1 \<or> ptype packet \<noteq> 1 then Some (s, [], True)
              else if code packet = CODE_PADI
              then map_option (\<lambda>(s, acts). (s, acts, True)) (processPADI ctx u pid sock myAddr packet s)
              else if code packet = CODE_PADR
              then processPADR paths dup_ok ctx u ue pid sock myAddr child packet s
              else if code packet = CODE_PADT
              then map_option (\<lambda>(s, acts). (s, acts, True)) (processPADT myAddr packet s)
              else Some (s, [], True)))"

section \<open>The session table\<close>

declare find_slot.simps [simp del]

lemma find_slot_find:
  "length ss = unat n \<Longrightarrow> find_slot ss n pid i = Some (find (\<lambda>i. cs_pid (ss ! i) = pid) [i..<length ss])"
proof (induction ss n pid i rule: find_slot.induct)
  case (1 ss n pid i)
  show ?case
  proof (cases "i < length ss")
    case True
    then have "[i..<length ss] = i # [i + 1..<length ss]" by (simp add: upt_conv_Cons)
    then show ?thesis using True 1 by (simp add: find_slot.simps [of ss n pid i])
  qed (use 1 in \<open>simp add: find_slot.simps [of ss n pid i]\<close>)
qed

text \<open>The slot that \<^verbatim>\<open>findSession\<close> gives is the first with the pid.\<close>

definition slot_of :: "int \<Rightarrow> server \<Rightarrow> nat option" where
  "slot_of pid s = find (\<lambda>i. cs_pid (Sessions s ! i) = pid) [0..<length (Sessions s)]"

lemma srv_findSession_eq:
  "length (Sessions s) = unat (NumSessionSlots s) \<Longrightarrow> srv_findSession pid s = Some (slot_of pid s)"
  by (simp add: srv_findSession_def slot_of_def find_slot_find)

lemma slot_of_Some:
  "slot_of pid s = Some i \<Longrightarrow> i < length (Sessions s) \<and> cs_pid (Sessions s ! i) = pid"
  by (auto simp: slot_of_def find_Some_iff)

lemma slot_of_None: "slot_of pid s = None \<longleftrightarrow> pid \<notin> cs_pid ` set (Sessions s)"
  unfolding slot_of_def find_None_iff by (auto simp: image_iff) (metis in_set_conv_nth)

definition table_ok :: "server \<Rightarrow> bool" where
  "table_ok s \<longleftrightarrow> length (Sessions s) = unat (NumSessionSlots s) \<and>
     unat (NumSessionSlots s) + unat (SessOffset s) \<le> 65534 \<and>
     (\<forall>i<length (Sessions s). cs_sess (Sessions s ! i) = htons (of_nat (i + 1 + unat (SessOffset s))) \<and>
        length (cs_ip (Sessions s ! i)) = 4 \<and> length (cs_eth (Sessions s ! i)) = 6 \<and> 0 \<le> cs_pid (Sessions s ! i))"

definition reg_ok :: "PPPoETag \<Rightarrow> bool" where
  "reg_ok t \<longleftrightarrow> wf_tag t \<and> tag_len t \<le> 1500"

definition server_ok :: "server \<Rightarrow> bool" where
  "server_ok s \<longleftrightarrow> table_ok s \<and> reg_ok (srv_relayId s) \<and> reg_ok (hostUniq s) \<and> reg_ok (receivedCookie s) \<and>
     reg_ok (requestedService s) \<and> length (CookieSeed s) = 16 \<and> IfName s \<noteq> None \<and> ACName s \<noteq> None \<and>
     length (LocalIP s) = 4 \<and> length (PppoeOptions s) \<le> 255"

section \<open>The cookie\<close>

definition cookie_for :: "u32 \<Rightarrow> byte list \<Rightarrow> byte list \<Rightarrow> byte list \<Rightarrow> byte list" where
  "cookie_for pid peer my seed = md5 (peer @ my @ seed) @ le32 pid"

lemma length_md5 [simp]: "length (md5 m) = 16"
  by (simp add: md5_def split: prod.split)

lemma length_cookie_for [simp]: "length (cookie_for pid peer my seed) = 20"
  by (simp add: cookie_for_def)

lemma genCookie_eq:
  assumes "length (md_in ctx) = 64" and "length peer = 6" and "length my = 6" and "length seed = 16"
  shows "genCookie ctx pid peer my seed = Some (cookie_for pid peer my seed)"
proof -
  have "(md5_updates (MD5Init ctx) [peer, my, seed] \<bind> MD5Final) \<bind> (\<lambda>digest. Some (digest @ le32 pid)) =
      Some (cookie_for pid peer my seed)"
    by (subst md5_stream_eq) (use assms in \<open>auto simp: cookie_for_def\<close>)
  then show ?thesis using assms(2-4) by (simp add: genCookie_def)
qed

section \<open>The tags of a packet\<close>

definition last_tag :: "u16 \<Rightarrow> (nat \<times> u16 \<times> byte list) list \<Rightarrow> byte list option" where
  "last_tag ty ts = foldl (\<lambda>r (off, t, d). if t = ty then Some d else r) None ts"

lemma last_tag_simps [simp]:
  "last_tag ty [] = None"
  "last_tag ty (ts @ [(off, t, d)]) = (if t = ty then Some d else last_tag ty ts)"
  by (simp_all add: last_tag_def)

lemma walk_append:
  "walk f e (xs @ ys) = (case walk f e xs of Inl x \<Rightarrow> Inl x | Inr e' \<Rightarrow> walk f e' ys)"
  by (induction f e xs rule: walk.induct) (auto split: sum.split)

text \<open>A register after the walk: untouched and cleared, or the last tag of its type.\<close>

definition reg_is :: "u16 \<Rightarrow> byte list option \<Rightarrow> PPPoETag \<Rightarrow> bool" where
  "reg_is ty r t \<longleftrightarrow> reg_ok t \<and>
     (case r of None \<Rightarrow> ttype t = 0
      | Some d \<Rightarrow> ttype t = htons ty \<and> tlength t = htons (of_nat (length d)) \<and> take (length d) (tpayload t) = d \<and>
          length d \<le> 1490)"

lemma store_tag_reg:
  assumes "reg_ok t" and "length d \<le> 1490"
  shows "reg_is ty (Some d) (store_tag ty (of_nat (length d)) d t)"
  using assms by (simp add: reg_is_def reg_ok_def wf_tag_def store_tag_def tag_len_def unat_of_nat_u16)

lemma reg_cleared: "reg_ok t \<Longrightarrow> reg_is ty None (t\<lparr>ttype := 0\<rparr>)"
  by (simp add: reg_is_def reg_ok_def wf_tag_def tag_len_def)

lemma reg_opt_tag:
  assumes "reg_is ty r t" and "ty \<noteq> 0"
  shows "opt_tag t = (case r of None \<Rightarrow> [] | Some d \<Rightarrow> [(ty, d)])"
  using assms by (auto simp: reg_is_def opt_tag_def tag_len_def unat_of_nat_u16 split: option.splits)

lemma reg_len: "reg_is ty (Some d) t \<Longrightarrow> tag_len t = length d"
  by (simp add: reg_is_def tag_len_def unat_of_nat_u16)

lemma reg_set: "ty \<noteq> 0 \<Longrightarrow> reg_is ty r t \<Longrightarrow> ttype t = 0 \<longleftrightarrow> r = None"
  by (auto simp: reg_is_def split: option.splits)

text \<open>All fields but the four registers are kept by the parse functions.\<close>

definition with_regs :: "server \<Rightarrow> server \<Rightarrow> server" where
  "with_regs r s = s\<lparr>srv_relayId := srv_relayId r, hostUniq := hostUniq r, receivedCookie := receivedCookie r,
     requestedService := requestedService r\<rparr>"

lemma with_regs_fields [simp]:
  "Sessions (with_regs r s) = Sessions s" "NumSessionSlots (with_regs r s) = NumSessionSlots s"
  "SessOffset (with_regs r s) = SessOffset s" "CookieSeed (with_regs r s) = CookieSeed s" "ACName (with_regs r s) = ACName s"
  "IfName (with_regs r s) = IfName s" "srv_Discovery (with_regs r s) = srv_Discovery s" "ReapPending (with_regs r s) = ReapPending s"
  "srv_relayId (with_regs r s) = srv_relayId r" "hostUniq (with_regs r s) = hostUniq r"
  "receivedCookie (with_regs r s) = receivedCookie r" "requestedService (with_regs r s) = requestedService r"
  "with_regs r (with_regs q s) = with_regs r s" "with_regs s s = s"
  by (simp_all add: with_regs_def)

definition padr_regs :: "(nat \<times> u16 \<times> byte list) list \<Rightarrow> server \<Rightarrow> bool" where
  "padr_regs ts s \<longleftrightarrow> reg_is TAG_RELAY_SESSION_ID (last_tag TAG_RELAY_SESSION_ID ts) (srv_relayId s) \<and>
     reg_is TAG_HOST_UNIQ (last_tag TAG_HOST_UNIQ ts) (hostUniq s) \<and>
     reg_is TAG_AC_COOKIE (last_tag TAG_AC_COOKIE ts) (receivedCookie s) \<and>
     reg_is TAG_SERVICE_NAME (last_tag TAG_SERVICE_NAME ts) (requestedService s)"

lemma reg_is_ok: "reg_is ty r t \<Longrightarrow> reg_ok t"
  by (simp add: reg_is_def)

lemma walk_PADR:
  assumes "padr_regs [] s" and "\<forall>(off, t, d) \<in> set ts. length d \<le> 1490"
  shows "\<exists>r. walk parsePADRTags s ts = Inr (with_regs r s) \<and> padr_regs ts r"
  using assms(2)
proof (induction ts rule: rev_induct)
  case Nil
  then show ?case using assms(1) by (intro exI [of _ s]) simp
next
  case (snoc x ts)
  obtain off t d where x: "x = (off, t, d)" by (cases x)
  obtain r where r: "walk parsePADRTags s ts = Inr (with_regs r s)" "padr_regs ts r" using snoc by auto
  have d: "length d \<le> 1490" using snoc.prems by (simp add: x)
  note ok = r(2) [unfolded padr_regs_def]
  obtain r' where r': "parsePADRTags t (of_nat (length d)) d (with_regs r s) = Inr (with_regs r' s)" "padr_regs (ts @ [x]) r'"
  proof (rule that)
    let ?s = "case parsePADRTags t (of_nat (length d)) d (with_regs r s) of Inr q \<Rightarrow> q"
    show "parsePADRTags t (of_nat (length d)) d (with_regs r s) = Inr (with_regs ?s s)"
      by (simp add: parsePADRTags_def with_regs_def)
    show "padr_regs (ts @ [x]) ?s"
      using ok d by (auto simp: parsePADRTags_def x padr_regs_def intro!: store_tag_reg dest: reg_is_ok)
  qed
  show ?case
    using r' by (intro exI [of _ r']) (simp add: walk_append r(1) x)
qed

definition padi_regs :: "(nat \<times> u16 \<times> byte list) list \<Rightarrow> server \<Rightarrow> bool" where
  "padi_regs ts s \<longleftrightarrow> reg_is TAG_RELAY_SESSION_ID (last_tag TAG_RELAY_SESSION_ID ts) (srv_relayId s) \<and>
     reg_is TAG_HOST_UNIQ (last_tag TAG_HOST_UNIQ ts) (hostUniq s) \<and> reg_ok (receivedCookie s) \<and> reg_ok (requestedService s)"

lemma walk_PADI:
  assumes "padi_regs [] s" and "\<forall>(off, t, d) \<in> set ts. length d \<le> 1490"
  shows "\<exists>r. walk parsePADITags s ts = Inr (with_regs r s) \<and> padi_regs ts r"
  using assms(2)
proof (induction ts rule: rev_induct)
  case Nil
  then show ?case using assms(1) by (intro exI [of _ s]) simp
next
  case (snoc x ts)
  obtain off t d where x: "x = (off, t, d)" by (cases x)
  obtain r where r: "walk parsePADITags s ts = Inr (with_regs r s)" "padi_regs ts r" using snoc by auto
  have d: "length d \<le> 1490" using snoc.prems by (simp add: x)
  note ok = r(2) [unfolded padi_regs_def]
  obtain r' where r': "parsePADITags t (of_nat (length d)) d (with_regs r s) = Inr (with_regs r' s)" "padi_regs (ts @ [x]) r'"
  proof (rule that)
    let ?s = "case parsePADITags t (of_nat (length d)) d (with_regs r s) of Inr q \<Rightarrow> q"
    show "parsePADITags t (of_nat (length d)) d (with_regs r s) = Inr (with_regs ?s s)"
      by (simp add: parsePADITags_def with_regs_def)
    show "padi_regs (ts @ [x]) ?s"
      using ok d by (auto simp: parsePADITags_def x padi_regs_def intro!: store_tag_reg dest: reg_is_ok)
  qed
  show ?case
    using r' by (intro exI [of _ r']) (simp add: walk_append r(1) x)
qed

text \<open>Tags of different types cannot take more than the packet together.\<close>

definition tag_room :: "u16 \<Rightarrow> (nat \<times> u16 \<times> byte list) list \<Rightarrow> nat" where
  "tag_room ty ts = (case last_tag ty ts of None \<Rightarrow> 0 | Some d \<Rightarrow> length d + 4)"

lemma tag_room_total:
  assumes "distinct [a, b, c, e]"
  shows "tag_room a ts + tag_room b ts + tag_room c ts + tag_room e ts \<le> (\<Sum>(off, t, d) \<leftarrow> ts. length d + 4)"
proof (induction ts rule: rev_induct)
  case Nil
  then show ?case by (simp add: tag_room_def)
next
  case (snoc x ts)
  obtain off t d where x: "x = (off, t, d)" by (cases x)
  have n: "tag_room ty (ts @ [x]) = (if ty = t then length d + 4 else tag_room ty ts)" for ty
    by (simp add: tag_room_def x)
  show ?case using snoc assms unfolding n by (auto simp: x)
qed

lemma scan_tags_total: "(\<Sum>(off, t, d) \<leftarrow> snd (scan_tags pl len off0). length d + 4) \<le> len - off0"
proof (induction pl len off0 rule: scan_tags.induct)
  case (1 pl len off)
  let ?t = "be16 (pl ! off) (pl ! (off + 1))" and ?l = "unat (be16 (pl ! (off + 2)) (pl ! (off + 3)))"
  show ?case
  proof (cases "off < len \<and> ?t \<noteq> 0 \<and> off + ?l + 4 \<le> len")
    case True
    have "(\<Sum>(off, t, d) \<leftarrow> snd (scan_tags pl len (off + 4 + ?l)). length d + 4) \<le> len - (off + 4 + ?l)"
      by (rule 1) (use True in auto)
    moreover have "length (bslice pl (off + 4) ?l) \<le> ?l" by (simp add: bslice_def)
    moreover have "snd (scan_tags pl len off) = (off, ?t, bslice pl (off + 4) ?l) # snd (scan_tags pl len (off + 4 + ?l))"
      using True by (subst scan_tags.simps) (simp add: Let_def split: prod.split)
    moreover have "off + ?l + 4 \<le> len" using True by simp
    ultimately show ?thesis by simp
  qed (auto simp: scan_tags.simps [of pl len off] Let_def)
qed

lemma packet_tags_total: "(\<Sum>(off, t, d) \<leftarrow> snd (packet_tags p). length d + 4) \<le> 1494"
  using scan_tags_total [of "payload p" "pkt_len p" 0] by (simp add: packet_tags_def)

section \<open>Building the packets of the server\<close>

text \<open>A continuation that adds further tags to what a builder holds and sends the packet if it all fits.\<close>

definition builds ::
  "(builder \<Rightarrow> frame list option) \<Rightarrow> (u16 \<times> byte list) list \<Rightarrow> (u16 \<times> byte list) list \<Rightarrow> frame list \<Rightarrow> bool" where
  "builds k tags rest out \<longleftrightarrow>
     (\<forall>b. holds b tags \<longrightarrow> k b = Some (if length (encode_tags (tags @ rest)) \<le> 1494 then out else []))"

lemma le16_0: "le16 0 = be_bytes 0"
  using le16_htons [of 0] by (simp del: le16_htons)

lemma builds_finish:
  assumes "length dst = 6" and "length src = 6" and "wf_packet u"
  shows "builds (\<lambda>b. finish_packet sock (header_packet u dst src proto cd ses) b) tags []
    [Sent sock (pppoe_frame dst src proto cd ses tags)]"
  unfolding builds_def
proof safe
  fix b assume b: "holds b tags"
  then have "length (encode_tags tags) \<le> 1494" by (auto simp: holds_in_def)
  then show "finish_packet sock (header_packet u dst src proto cd ses) b =
      Some (if length (encode_tags (tags @ [])) \<le> 1494 then [Sent sock (pppoe_frame dst src proto cd ses tags)] else [])"
    using finish_packet_frame [OF b assms] by simp
qed

lemma builds_opt:
  assumes "builds k (tags @ opt_tag t) rest out" and "reg_ok t"
  shows "builds (\<lambda>b. room (put_checked (ttype t \<noteq> 0) (tag_len t + TAG_HDR_SIZE) (tag_bytes t) b) k) tags (opt_tag t @ rest) out"
  unfolding builds_def
proof safe
  fix b assume "holds b tags"
  then obtain b' where b': "room (put_checked (ttype t \<noteq> 0) (tag_len t + TAG_HDR_SIZE) (tag_bytes t) b) k =
      (if length (encode_tags (tags @ opt_tag t)) \<le> 1494 then k b' else Some [])"
    "length (encode_tags (tags @ opt_tag t)) \<le> 1494 \<Longrightarrow> holds b' (tags @ opt_tag t)"
    using room_opt_tag assms(2) unfolding reg_ok_def by blast
  show "room (put_checked (ttype t \<noteq> 0) (tag_len t + TAG_HDR_SIZE) (tag_bytes t) b) k =
      Some (if length (encode_tags (tags @ opt_tag t @ rest)) \<le> 1494 then out else [])"
    unfolding b'(1) using assms(1) [unfolded builds_def, rule_format, OF b'(2)] by auto
qed

lemma builds_tag:
  assumes "builds k (tags @ [(ty, d)]) rest out" and "src = encode_tag (ty, d)" and "n = length d + 4"
  shows "builds (\<lambda>b. room (put_checked True n src b) k) tags ((ty, d) # rest) out"
  unfolding builds_def
proof safe
  fix b assume "holds b tags"
  then obtain b' where b': "put_checked True (length d + 4) src b =
      Some (if length (encode_tags (tags @ [(ty, d)])) \<le> 1494 then Some b' else None)"
    "length (encode_tags (tags @ [(ty, d)])) \<le> 1494 \<Longrightarrow> holds b' (tags @ [(ty, d)])"
    using put_checked_holds [of b tags d src ty] assms(2) by auto
  show "room (put_checked True n src b) k = Some (if length (encode_tags (tags @ (ty, d) # rest)) \<le> 1494 then out else [])"
    unfolding assms(3) b'(1) room_def using assms(1) [unfolded builds_def, rule_format, OF b'(2)] by auto
qed

text \<open>An unchecked copy succeeds exactly when the tags fit into the payload array.\<close>

definition puts ::
  "(builder \<Rightarrow> builder option) \<Rightarrow> (u16 \<times> byte list) list \<Rightarrow> (u16 \<times> byte list) list \<Rightarrow> bool" where
  "puts f tags extra \<longleftrightarrow>
     (\<forall>b. holds_in 1500 b tags \<longrightarrow>
        (if length (encode_tags (tags @ extra)) \<le> 1500 then \<exists>b'. f b = Some b' \<and> holds_in 1500 b' (tags @ extra)
         else f b = None))"

lemma putsE:
  assumes "puts f tags extra" and "holds_in 1500 b tags" and "length (encode_tags (tags @ extra)) \<le> 1500"
  obtains b' where "f b = Some b'" and "holds_in 1500 b' (tags @ extra)"
  using assms unfolding puts_def by meson

lemma puts_None:
  "puts f tags extra \<Longrightarrow> holds_in 1500 b tags \<Longrightarrow> \<not> length (encode_tags (tags @ extra)) \<le> 1500 \<Longrightarrow> f b = None"
  unfolding puts_def by meson

lemma puts_tag:
  assumes "take (length d + 4) src = encode_tag (ty, d)" and "length d + 4 \<le> length src"
  shows "puts (put_bytes (length d + 4) src) tags [(ty, d)]"
  unfolding puts_def
proof (intro allI impI)
  fix b assume b: "holds_in 1500 b tags"
  show "if length (encode_tags (tags @ [(ty, d)])) \<le> 1500 then \<exists>b'. put_bytes (length d + 4) src b = Some b' \<and> holds_in 1500 b' (tags @ [(ty, d)])
      else put_bytes (length d + 4) src b = None"
  proof (cases "length (encode_tags tags) + (length d + 4) \<le> 1500")
    case True
    then have "\<exists>b'. put_bytes (length d + 4) src b = Some b' \<and> holds_in 1500 b' (tags @ [(ty, d)])"
      using put_bytes_holds_in [OF b assms True] by blast
    then show ?thesis using True by simp
  next
    case False
    obtain pl cur plen where p: "b = (pl, cur, plen)" by (cases b)
    have "length pl = 1500" "cur = length (encode_tags tags)" using b by (auto simp: holds_in_def p)
    then show ?thesis using False assms(2) by (auto simp: put_bytes_def p memcpy_at_def)
  qed
qed

lemma puts_saved:
  assumes "reg_ok t"
  shows "puts (put_saved t) tags (opt_tag t)"
proof (cases "ttype t = 0")
  case True
  then show ?thesis by (auto simp: puts_def put_saved_def opt_tag_def holds_in_def)
next
  case False
  let ?d = "take (tag_len t) (tpayload t)"
  have l: "length ?d = tag_len t" using assms by (simp add: reg_ok_def wf_tag_def)
  have "puts (put_bytes (length ?d + 4) (tag_bytes t)) tags [(ntohs (ttype t), ?d)]"
  proof (rule puts_tag)
    show "take (length ?d + 4) (tag_bytes t) = encode_tag (ntohs (ttype t), ?d)"
      using tag_bytes_encode [of t] assms l by (simp add: reg_ok_def)
    show "length ?d + 4 \<le> length (tag_bytes t)" using assms l by (simp add: tag_bytes_def wf_tag_def reg_ok_def)
  qed
  moreover have "put_saved t = put_bytes (length ?d + 4) (tag_bytes t)" using False l by (intro ext) (simp add: put_saved_def)
  moreover have "opt_tag t = [(ntohs (ttype t), ?d)]" using False by (simp add: opt_tag_def)
  ultimately show ?thesis by simp
qed

definition saved_tags :: "(nat \<times> u16 \<times> byte list) list \<Rightarrow> (u16 \<times> byte list) list" where
  "saved_tags ts = (case last_tag TAG_RELAY_SESSION_ID ts of None \<Rightarrow> [] | Some d \<Rightarrow> [(TAG_RELAY_SESSION_ID, d)]) @
     (case last_tag TAG_HOST_UNIQ ts of None \<Rightarrow> [] | Some d \<Rightarrow> [(TAG_HOST_UNIQ, d)])"

lemma length_saved_tags: "length (encode_tags (saved_tags ts)) = tag_room TAG_RELAY_SESSION_ID ts + tag_room TAG_HOST_UNIQ ts"
  by (simp add: saved_tags_def tag_room_def split: option.split)

lemma unchecked_pads:
  assumes "wf_packet u" and "length dst = 6" and "length src = 6" and "reg_ok t1" and "reg_ok t2"
    and "err = encode_tag (ty, d)" and "n = length d + 4"
  shows "do { b \<leftarrow> put_bytes n err (payload (header_packet u dst src proto cd ses), 0, 0);
              b \<leftarrow> put_saved t1 b; b \<leftarrow> put_saved t2 b; finish_packet sock (header_packet u dst src proto cd ses) b } =
    (if length (encode_tags ((ty, d) # opt_tag t1 @ opt_tag t2)) \<le> 1500
     then Some [Sent sock (pppoe_frame dst src proto cd ses ((ty, d) # opt_tag t1 @ opt_tag t2))] else None)"
proof -
  let ?p = "header_packet u dst src proto cd ses"
  have h0: "holds_in 1500 (payload ?p, 0, 0) []" using assms(1) by (simp add: holds_in_def header_packet_def wf_packet_def)
  have p0: "puts (put_bytes n err) [] [(ty, d)]" unfolding assms(7) by (rule puts_tag) (simp_all add: assms(6))
  show ?thesis
  proof (cases "length d + 4 \<le> 1500")
    case False
    then have "put_bytes n err (payload ?p, 0, 0) = None" by (intro puts_None [OF p0 h0]) simp
    then show ?thesis using False by simp
  next
    case True
    then obtain b1 where b1: "put_bytes n err (payload ?p, 0, 0) = Some b1" "holds_in 1500 b1 [(ty, d)]"
      using putsE [OF p0 h0] by auto
    show ?thesis
    proof (cases "length (encode_tags ([(ty, d)] @ opt_tag t1)) \<le> 1500")
      case False
      have "put_saved t1 b1 = None" by (rule puts_None [OF puts_saved [OF assms(4)] b1(2) False])
      then show ?thesis using False b1(1) by simp
    next
      case True
      then obtain b2 where b2: "put_saved t1 b1 = Some b2" "holds_in 1500 b2 ([(ty, d)] @ opt_tag t1)"
        using putsE [OF puts_saved [OF assms(4)] b1(2) True] by blast
      show ?thesis
      proof (cases "length (encode_tags (([(ty, d)] @ opt_tag t1) @ opt_tag t2)) \<le> 1500")
        case False
        have "put_saved t2 b2 = None" by (rule puts_None [OF puts_saved [OF assms(5)] b2(2) False])
        then show ?thesis using False b1(1) b2(1) by simp
      next
        case True
        then obtain b3 where b3: "put_saved t2 b2 = Some b3" "holds_in 1500 b3 (([(ty, d)] @ opt_tag t1) @ opt_tag t2)"
          using putsE [OF puts_saved [OF assms(5)] b2(2) True] by blast
        show ?thesis
          using True b1(1) b2(1) b3(1) finish_packet_frame_in [OF b3(2) _ assms(2,3,1)] by simp
      qed
    qed
  qed
qed

section \<open>The handlers\<close>

definition pads_error :: "int \<Rightarrow> byte list \<Rightarrow> byte list \<Rightarrow> u16 \<Rightarrow> u16 \<Rightarrow> string \<Rightarrow> (nat \<times> u16 \<times> byte list) list \<Rightarrow> frame" where
  "pads_error sock peer my disc tag msg ts =
     Sent sock (pppoe_frame peer my disc CODE_PADS 0 ((tag, cstr msg) # saved_tags ts))"

lemma sendErrorPADS_eq:
  assumes "wf_packet u" and "length my = 6" and "length peer = 6" and "length msg \<le> 1000"
    and "reg_is TAG_RELAY_SESSION_ID (last_tag TAG_RELAY_SESSION_ID ts) (srv_relayId s)"
    and "reg_is TAG_HOST_UNIQ (last_tag TAG_HOST_UNIQ ts) (hostUniq s)"
  shows "sendErrorPADS u sock my peer tag msg s =
    (if length msg + 4 + length (encode_tags (saved_tags ts)) \<le> 1500
     then Some [pads_error sock peer my (srv_Discovery s) tag msg ts] else None)"
proof -
  have t: "opt_tag (srv_relayId s) @ opt_tag (hostUniq s) = saved_tags ts"
    by (simp add: saved_tags_def reg_opt_tag [OF assms(5)] reg_opt_tag [OF assms(6)])
  have e: "le16 (htons tag) @ le16 (htons (of_nat (length msg))) @ cstr msg = encode_tag (tag, cstr msg)"
    by (simp add: encode_tag_def)
  note u = unchecked_pads [OF assms(1,3,2) reg_is_ok [OF assms(5)] reg_is_ok [OF assms(6)] e, of "TAG_HDR_SIZE + length msg" "srv_Discovery s" CODE_PADS 0 sock]
  show ?thesis
    using u assms(4) unfolding sendErrorPADS_def Let_def by (simp add: t pads_error_def)
qed

definition pado_tags :: "u32 \<Rightarrow> byte list \<Rightarrow> byte list \<Rightarrow> PPPoEPacket \<Rightarrow> byte list \<Rightarrow> (u16 \<times> byte list) list" where
  "pado_tags pid my name p seed =
     [(TAG_AC_NAME, name), (TAG_SERVICE_NAME, []), (TAG_AC_COOKIE, cookie_for pid (h_source p) my seed)] @
     saved_tags (snd (packet_tags p))"

lemma packet_tags_short: "wf_packet p \<Longrightarrow> \<forall>(off, t, d) \<in> set (snd (packet_tags p)). length d \<le> 1490"
  using packet_tags_bound by fastforce

lemma processPADI_eq:
  assumes s: "server_ok s" and u: "wf_packet u" "wf_packet p" "length my = 6" "length (md_in ctx) = 64"
    and name: "ACName s = Some name" "length name \<le> 1500" and src: "\<not> NOT_UNICAST (h_source p)"
  shows "\<exists>r. padi_regs (snd (packet_tags p)) r \<and>
    processPADI ctx u pid sock my p s = Some (with_regs r s,
      if length (encode_tags (pado_tags pid my name p (CookieSeed s))) \<le> 1494
      then [Send (Sent sock (pppoe_frame (h_source p) my (srv_Discovery s) CODE_PADO 0 (pado_tags pid my name p (CookieSeed s))))]
      else [])"
proof -
  let ?s = "s\<lparr>srv_relayId := (srv_relayId s)\<lparr>ttype := 0\<rparr>, hostUniq := (hostUniq s)\<lparr>ttype := 0\<rparr>\<rparr>"
  let ?ts = "snd (packet_tags p)"
  have "padi_regs [] ?s" using s by (simp add: padi_regs_def server_ok_def reg_cleared)
  then obtain r where r: "walk parsePADITags ?s ?ts = Inr (with_regs r ?s)" "padi_regs ?ts r"
    using walk_PADI packet_tags_short [OF u(2)] by blast
  have parse: "parsePacket p parsePADITags ?s = Some (Inr (fst (packet_tags p), with_regs r ?s))"
    using parsePacket_walk [OF u(2), of parsePADITags ?s] r(1) by simp
  have q: "with_regs r ?s = with_regs r s" by (simp add: with_regs_def)
  have regs: "reg_is TAG_RELAY_SESSION_ID (last_tag TAG_RELAY_SESSION_ID ?ts) (srv_relayId r)"
    "reg_is TAG_HOST_UNIQ (last_tag TAG_HOST_UNIQ ?ts) (hostUniq r)" using r(2) by (simp_all add: padi_regs_def)
  have t: "opt_tag (srv_relayId r) @ opt_tag (hostUniq r) = saved_tags ?ts"
    by (simp add: saved_tags_def reg_opt_tag [OF regs(1)] reg_opt_tag [OF regs(2)])
  have src6: "length (h_source p) = 6" using u(2) by (simp add: wf_packet_def)
  let ?c = "cookie_for pid (h_source p) my (CookieSeed s)"
  have g: "genCookie ctx pid (h_source p) my (CookieSeed s) = Some ?c"
    by (rule genCookie_eq [OF u(4) src6 u(3)]) (use s in \<open>simp add: server_ok_def\<close>)
  let ?h = "header_packet u (h_source p) my (srv_Discovery s) CODE_PADO 0"
  let ?tags = "pado_tags pid my name p (CookieSeed s)"
  have ab: "?tags = (((([] @ [(TAG_AC_NAME, name)]) @ [(TAG_SERVICE_NAME, [])]) @ [(TAG_AC_COOKIE, ?c)]) @ opt_tag (srv_relayId r)) @ opt_tag (hostUniq r)"
    by (simp add: pado_tags_def t)
  note fin = builds_finish [OF src6 u(3,1), of sock "srv_Discovery s" CODE_PADO 0]
  have b: "builds (\<lambda>b. room (put_checked True (length name + TAG_HDR_SIZE)
       (le16 (htons TAG_AC_NAME) @ le16 (htons (of_nat (length name))) @ name) b)
     (\<lambda>b. room (put_checked True TAG_HDR_SIZE (le16 (htons TAG_SERVICE_NAME) @ le16 0) b)
     (\<lambda>b. room (put_checked True (TAG_HDR_SIZE + COOKIE_LEN) (le16 (htons TAG_AC_COOKIE) @ le16 (htons (of_nat COOKIE_LEN)) @ ?c) b)
     (\<lambda>b. room (put_checked (ttype (srv_relayId r) \<noteq> 0) (tag_len (srv_relayId r) + TAG_HDR_SIZE) (tag_bytes (srv_relayId r)) b)
     (\<lambda>b. room (put_checked (ttype (hostUniq r) \<noteq> 0) (tag_len (hostUniq r) + TAG_HDR_SIZE) (tag_bytes (hostUniq r)) b)
     (\<lambda>b. finish_packet sock ?h b))))))
     [] ((TAG_AC_NAME, name) # (TAG_SERVICE_NAME, []) # (TAG_AC_COOKIE, ?c) # opt_tag (srv_relayId r) @ opt_tag (hostUniq r) @ [])
     [Sent sock (pppoe_frame (h_source p) my (srv_Discovery s) CODE_PADO 0 ?tags)]"
    unfolding ab
    by (intro builds_tag builds_opt fin reg_is_ok [OF regs(1)] reg_is_ok [OF regs(2)])
      (simp_all add: encode_tag_def le16_0)
  have h0: "holds (payload ?h, 0, 0) []" using u(1) by (intro holds_empty) (simp add: header_packet_def wf_packet_def)
  note out = b [unfolded builds_def, rule_format, OF h0]
  have l: "[] @ (TAG_AC_NAME, name) # (TAG_SERVICE_NAME, []) # (TAG_AC_COOKIE, ?c) # opt_tag (srv_relayId r) @ opt_tag (hostUniq r) @ [] = ?tags"
    by (simp add: ab)
  show ?thesis
  proof (intro exI conjI, rule r(2))
    have n: "\<not> length name > ETH_DATA_LEN" using name(2) by simp
    have c: "CookieSeed (with_regs r ?s) = CookieSeed s" "srv_Discovery (with_regs r ?s) = srv_Discovery s"
      "srv_relayId (with_regs r ?s) = srv_relayId r" "hostUniq (with_regs r ?s) = hostUniq r" by simp_all
    show "processPADI ctx u pid sock my p s = Some (with_regs r s,
      if length (encode_tags ?tags) \<le> 1494 then [Send (Sent sock (pppoe_frame (h_source p) my (srv_Discovery s) CODE_PADO 0 ?tags))] else [])"
      unfolding processPADI_def Let_def if_not_P [OF src] name(1) bind.bind_lunit if_not_P [OF n] parse sum.case prod.case c g out l
      by (simp only: bind.bind_lunit q) simp
  qed
qed

text \<open>What becomes of a PADR: the decision as a function of the packet and the table.\<close>

datatype padr_verdict = Ignore "string list" | Refuse u16 string "string list" | Accept nat

definition padr_check :: "u32 \<Rightarrow> byte list \<Rightarrow> PPPoEPacket \<Rightarrow> server \<Rightarrow> padr_verdict" where
  "padr_check pid my p s =
     (let ts = snd (packet_tags p)
      in if h_dest p \<noteq> my then Ignore []
         else if NOT_UNICAST (h_source p) then Ignore [''PADR packet from non-unicast source address'']
         else if last_tag TAG_AC_COOKIE ts \<noteq> Some (cookie_for pid (h_source p) my (CookieSeed s)) then Ignore []
         else case last_tag TAG_SERVICE_NAME ts of
             None \<Rightarrow> Refuse TAG_SERVICE_NAME_ERROR ''RP-PPPoE: Server: No service name tag''
                       [''Received PADR packet with no SERVICE_NAME tag'']
           | Some d \<Rightarrow>
               if d \<noteq> [] then Refuse TAG_SERVICE_NAME_ERROR ''RP-PPPoE: Server: Invalid service name tag''
                              [''Received PADR packet asking for unsupported service'']
               else (case slot_of 0 s of
                   None \<Rightarrow> Refuse TAG_AC_SYSTEM_ERROR ''RP-PPPoE: Server: No client slots available'' [''No client slots available'']
                 | Some i \<Rightarrow> Accept i))"

definition refusal ::
  "int \<Rightarrow> byte list \<Rightarrow> PPPoEPacket \<Rightarrow> u16 \<Rightarrow> string \<Rightarrow> string list \<Rightarrow> server \<Rightarrow> padr_result" where
  "refusal sock my p tag msg logs s =
     (let ts = snd (packet_tags p)
      in if length msg + 4 + length (encode_tags (saved_tags ts)) \<le> 1500
         then Some (s, map Syslog logs @ [Send (pads_error sock (h_source p) my (srv_Discovery s) tag msg ts)], True)
         else None)"

definition pads_tags :: "PPPoEPacket \<Rightarrow> (u16 \<times> byte list) list" where
  "pads_tags p = (TAG_SERVICE_NAME, []) # saved_tags (snd (packet_tags p))"

definition set_eth :: "nat \<Rightarrow> byte list \<Rightarrow> server \<Rightarrow> server" where
  "set_eth i e s = s\<lparr>Sessions := (Sessions s)[i := (Sessions s ! i)\<lparr>cs_eth := e\<rparr>]\<rparr>"

definition set_pid :: "nat \<Rightarrow> int \<Rightarrow> server \<Rightarrow> server" where
  "set_pid i c s = s\<lparr>Sessions := (Sessions s)[i := (Sessions s ! i)\<lparr>cs_pid := c\<rparr>]\<rparr>"

definition padr_spec ::
  "server_paths \<Rightarrow> bool \<Rightarrow> u32 \<Rightarrow> int \<Rightarrow> byte list \<Rightarrow> int \<Rightarrow> PPPoEPacket \<Rightarrow> server \<Rightarrow> server \<Rightarrow>
     padr_result" where
  "padr_spec paths dup_ok pid sock my child p s t =
     (case padr_check pid my p s of
        Ignore logs \<Rightarrow> Some (t, map Syslog logs, True)
      | Refuse tag msg logs \<Rightarrow> refusal sock my p tag msg logs t
      | Accept i \<Rightarrow>
          (let t = set_eth i (h_source p) t
           in if child < 0
              then refusal sock my p TAG_AC_SYSTEM_ERROR ''RP-PPPoE: Server: Unable to start session process'' [] t
              else if child \<noteq> 0 then Some (set_pid i child t, [Fork child], True)
              else map_option (\<lambda>acts. (t, Send (Sent sock (pppoe_frame (h_source p) my (srv_Discovery s) CODE_PADS
                       (cs_sess (Sessions s ! i)) (pads_tags p))) # acts, False)) (startPPPD paths dup_ok (Sessions t ! i) t)))"

lemma cookie_reg:
  assumes "reg_is TAG_AC_COOKIE r t" and "length c = 20"
  shows "(ttype t = 0 \<or> tlength t \<noteq> htons (of_nat COOKIE_LEN) \<or> take COOKIE_LEN (tpayload t) \<noteq> take COOKIE_LEN c) \<longleftrightarrow> r \<noteq> Some c"
proof (cases r)
  case (Some d)
  then have d: "ttype t \<noteq> 0" "tlength t = htons (of_nat (length d))" "take (length d) (tpayload t) = d" "length d \<le> 1490"
    using assms(1) by (auto simp: reg_is_def)
  have "(of_nat (length d) :: u16) = of_nat 20 \<longleftrightarrow> length d = 20" using d(4) by (subst of_nat_u16_inj) auto
  then show ?thesis using d Some assms(2) by auto
qed (use assms in \<open>simp add: reg_is_def\<close>)

lemma service_reg:
  assumes "reg_is TAG_SERVICE_NAME (Some d) t"
  shows "tlength t = 0 \<longleftrightarrow> d = []"
proof -
  have "(of_nat (length d) :: u16) = of_nat 0 \<longleftrightarrow> length d = 0" using assms by (subst of_nat_u16_inj) (auto simp: reg_is_def)
  then show ?thesis using assms by (auto simp: reg_is_def)
qed

lemma pads_tags_fit:
  assumes "padr_check pid my p s = Accept i"
  shows "length (encode_tags (pads_tags p)) \<le> 1474"
proof -
  let ?ts = "snd (packet_tags p)"
  have "last_tag TAG_SERVICE_NAME ?ts = Some []"
    "last_tag TAG_AC_COOKIE ?ts = Some (cookie_for pid (h_source p) my (CookieSeed s))"
    using assms by (auto simp: padr_check_def Let_def split: if_splits option.splits)
  then have "tag_room TAG_SERVICE_NAME ?ts = 4" "tag_room TAG_AC_COOKIE ?ts = 24" by (simp_all add: tag_room_def)
  moreover have "tag_room TAG_RELAY_SESSION_ID ?ts + tag_room TAG_HOST_UNIQ ?ts + tag_room TAG_AC_COOKIE ?ts + tag_room TAG_SERVICE_NAME ?ts \<le> 1494"
    by (rule order_trans [OF tag_room_total packet_tags_total]) simp
  ultimately show ?thesis by (simp add: pads_tags_def length_saved_tags)
qed

lemma padr_refuse_eq:
  assumes "wf_packet ue" and "wf_packet p" and "length my = 6" and "padr_regs (snd (packet_tags p)) s" and "length msg \<le> 1000"
  shows "padr_refuse ue sock my p tag msg logs s = refusal sock my p tag msg logs s"
proof -
  have src6: "length (h_source p) = 6" using assms(2) by (simp add: wf_packet_def)
  show ?thesis
    using sendErrorPADS_eq [OF assms(1,3) src6 assms(5), of "snd (packet_tags p)" s sock tag] assms(4)
    by (simp add: padr_refuse_def refusal_def padr_regs_def)
qed

lemma padr_regs_with [simp]: "padr_regs ts (with_regs r s) = padr_regs ts r" "padr_regs ts (set_eth i e s) = padr_regs ts s"
  by (simp_all add: padr_regs_def set_eth_def)

lemma padr_open_eq:
  assumes u: "wf_packet u" "wf_packet ue" "wf_packet p" "length my = 6" and r: "padr_regs (snd (packet_tags p)) s"
    and fit: "length (encode_tags (pads_tags p)) \<le> 1474" and i: "i < length (Sessions s)"
  shows "padr_open paths dup_ok u ue sock my child p i s =
    (let t = set_eth i (h_source p) s
     in if child < 0
        then refusal sock my p TAG_AC_SYSTEM_ERROR ''RP-PPPoE: Server: Unable to start session process'' [] t
        else if child \<noteq> 0 then Some (set_pid i child t, [Fork child], True)
        else map_option (\<lambda>acts. (t, Send (Sent sock (pppoe_frame (h_source p) my (srv_Discovery s) CODE_PADS
                 (cs_sess (Sessions s ! i)) (pads_tags p))) # acts, False)) (startPPPD paths dup_ok (Sessions t ! i) t))"
proof -
  let ?t = "set_eth i (h_source p) s" and ?ts = "snd (packet_tags p)"
  have src6: "length (h_source p) = 6" using u(3) by (simp add: wf_packet_def)
  have err: "padr_refuse ue sock my p TAG_AC_SYSTEM_ERROR ''RP-PPPoE: Server: Unable to start session process'' [] ?t =
      refusal sock my p TAG_AC_SYSTEM_ERROR ''RP-PPPoE: Server: Unable to start session process'' [] ?t"
    by (rule padr_refuse_eq [OF u(2,3,4)]) (use r in simp_all)
  note regs = r [unfolded padr_regs_def]
  have rs: "reg_is TAG_RELAY_SESSION_ID (last_tag TAG_RELAY_SESSION_ID ?ts) (srv_relayId s)"
    "reg_is TAG_HOST_UNIQ (last_tag TAG_HOST_UNIQ ?ts) (hostUniq s)" using regs by blast+
  have o: "opt_tag (srv_relayId s) @ opt_tag (hostUniq s) = saved_tags ?ts"
    by (simp add: saved_tags_def reg_opt_tag [OF rs(1)] reg_opt_tag [OF rs(2)])
  let ?ses = "cs_sess (Sessions s ! i)"
  let ?h = "header_packet u (h_source p) my (srv_Discovery s) CODE_PADS ?ses"
  have "do { b \<leftarrow> put_bytes TAG_HDR_SIZE (le16 (htons TAG_SERVICE_NAME) @ le16 0) (payload ?h, 0, 0);
      b \<leftarrow> put_saved (srv_relayId s) b; b \<leftarrow> put_saved (hostUniq s) b; finish_packet sock ?h b } =
      Some [Sent sock (pppoe_frame (h_source p) my (srv_Discovery s) CODE_PADS ?ses (pads_tags p))]" (is "?build = _")
    using unchecked_pads [OF u(1) src6 u(4), of "srv_relayId s" "hostUniq s" "le16 (htons TAG_SERVICE_NAME) @ le16 0" TAG_SERVICE_NAME "[]" TAG_HDR_SIZE "srv_Discovery s" CODE_PADS ?ses sock]
      regs fit by (auto simp: pads_tags_def o encode_tag_def le16_0 dest: reg_is_ok)
  then have pads: "(?build \<bind> (\<lambda>frms. k frms)) = k [Sent sock (pppoe_frame (h_source p) my (srv_Discovery s) CODE_PADS ?ses (pads_tags p))]"
    for k :: "frame list \<Rightarrow> 'a option" by simp
  show ?thesis
    using err pads [of "\<lambda>frms. startPPPD paths dup_ok (Sessions ?t ! i) ?t \<bind> (\<lambda>acts. Some (?t, map Send frms @ acts, False))"] i
    by (auto simp: padr_open_def Let_def set_eth_def set_pid_def map_option_case split: option.split)
qed

lemma processPADR_eq:
  assumes s: "server_ok s" and u: "wf_packet u" "wf_packet ue" "wf_packet p" "length my = 6" "length (md_in ctx) = 64"
  shows "\<exists>r. reg_ok (srv_relayId r) \<and> reg_ok (hostUniq r) \<and> reg_ok (receivedCookie r) \<and> reg_ok (requestedService r) \<and>
    processPADR paths dup_ok ctx u ue pid sock my child p s = padr_spec paths dup_ok pid sock my child p s (with_regs r s)"
proof -
  let ?s = "s\<lparr>srv_relayId := (srv_relayId s)\<lparr>ttype := 0\<rparr>, hostUniq := (hostUniq s)\<lparr>ttype := 0\<rparr>,
                receivedCookie := (receivedCookie s)\<lparr>ttype := 0\<rparr>, requestedService := (requestedService s)\<lparr>ttype := 0\<rparr>\<rparr>"
  let ?ts = "snd (packet_tags p)"
  have p0: "padr_regs [] ?s" using s by (simp add: padr_regs_def server_ok_def reg_cleared)
  have s0: "with_regs ?s s = ?s" by (simp add: with_regs_def)
  show ?thesis
  proof (cases "h_dest p \<noteq> my \<or> NOT_UNICAST (h_source p)")
    case True
    define logs where "logs = (if h_dest p \<noteq> my then [] else [''PADR packet from non-unicast source address''])"
    have "padr_check pid my p s = Ignore logs" using True by (auto simp: padr_check_def logs_def Let_def)
    then have "padr_spec paths dup_ok pid sock my child p s (with_regs ?s s) = Some (?s, map Syslog logs, True)"
      unfolding padr_spec_def s0 by simp
    moreover have "processPADR paths dup_ok ctx u ue pid sock my child p s = Some (?s, map Syslog logs, True)"
      using True by (auto simp: processPADR_def logs_def)
    moreover have "reg_ok (srv_relayId ?s)" "reg_ok (hostUniq ?s)" "reg_ok (receivedCookie ?s)" "reg_ok (requestedService ?s)"
      using p0 unfolding padr_regs_def by (blast dest: reg_is_ok)+
    ultimately show ?thesis by metis
  next
    case False
    obtain r where r: "walk parsePADRTags ?s ?ts = Inr (with_regs r ?s)" "padr_regs ?ts r"
      using walk_PADR [OF p0] packet_tags_short [OF u(3)] by blast
    have parse: "parsePacket p parsePADRTags ?s = Some (Inr (fst (packet_tags p), with_regs r s))"
      using parsePacket_walk [OF u(3), of parsePADRTags ?s] r(1) by (simp add: with_regs_def)
    note regs = r(2) [unfolded padr_regs_def]
    let ?t = "with_regs r s"
    have src6: "length (h_source p) = 6" using u(3) by (simp add: wf_packet_def)
    let ?c = "cookie_for pid (h_source p) my (CookieSeed s)"
    have g: "genCookie ctx pid (h_source p) my (CookieSeed s) = Some ?c"
      using genCookie_eq [OF u(5) src6 u(4)] s by (simp add: server_ok_def)
    have slot: "srv_findSession 0 ?t = Some (slot_of 0 s)"
      using s srv_findSession_eq [of ?t 0] by (simp add: server_ok_def table_ok_def slot_of_def)
    have err: "padr_refuse ue sock my p tag msg logs ?t = refusal sock my p tag msg logs ?t" if "length msg \<le> 1000" for tag msg logs
      by (rule padr_refuse_eq [OF u(2,3,4) _ that]) (use r(2) in simp)
    have "processPADR paths dup_ok ctx u ue pid sock my child p s = padr_spec paths dup_ok pid sock my child p s ?t"
    proof (cases "last_tag TAG_AC_COOKIE ?ts = Some ?c")
      case bad: False
      then have "padr_spec paths dup_ok pid sock my child p s ?t = Some (?t, [], True)"
        using False by (simp add: padr_spec_def padr_check_def)
      moreover have "ttype (receivedCookie r) = 0 \<or> tlength (receivedCookie r) \<noteq> htons (of_nat COOKIE_LEN) \<or> take COOKIE_LEN (tpayload (receivedCookie r)) \<noteq> take COOKIE_LEN ?c"
        using cookie_reg [of "last_tag TAG_AC_COOKIE ?ts" "receivedCookie r" ?c] regs bad by simp
      ultimately show ?thesis
        using False g by (auto simp: processPADR_def parse Let_def simp del: COOKIE_LEN_def)
    next
      case good: True
      have k: "ttype (receivedCookie r) \<noteq> 0" "tlength (receivedCookie r) = htons (of_nat COOKIE_LEN)" "take COOKIE_LEN (tpayload (receivedCookie r)) = take COOKIE_LEN ?c"
        using cookie_reg [of "last_tag TAG_AC_COOKIE ?ts" "receivedCookie r" ?c] regs good by simp_all
      have sv: "ttype (requestedService r) = 0 \<longleftrightarrow> last_tag TAG_SERVICE_NAME ?ts = None"
        using regs by (intro reg_set [of TAG_SERVICE_NAME]) auto
      have sl: "tlength (requestedService r) = 0 \<longleftrightarrow> d = []" if "last_tag TAG_SERVICE_NAME ?ts = Some d" for d
        using regs that by (intro service_reg) simp
      have op: "padr_open paths dup_ok u ue sock my child p i ?t = padr_spec paths dup_ok pid sock my child p s ?t"
        if "padr_check pid my p s = Accept i" for i
      proof -
        have i: "i < length (Sessions ?t)"
          using that slot_of_Some [of 0 s i] by (auto simp: padr_check_def Let_def split: if_splits option.splits)
        show ?thesis
          using padr_open_eq [OF u(1-4) _ pads_tags_fit [OF that] i, of paths dup_ok sock child] r(2) that by (auto simp: padr_spec_def Let_def)
      qed
      have body: "processPADR paths dup_ok ctx u ue pid sock my child p s =
         (if last_tag TAG_SERVICE_NAME ?ts = None
          then refusal sock my p TAG_SERVICE_NAME_ERROR ''RP-PPPoE: Server: No service name tag''
                 [''Received PADR packet with no SERVICE_NAME tag''] ?t
          else if tlength (requestedService r) \<noteq> 0
          then refusal sock my p TAG_SERVICE_NAME_ERROR ''RP-PPPoE: Server: Invalid service name tag''
                 [''Received PADR packet asking for unsupported service''] ?t
          else case slot_of 0 s of
              None \<Rightarrow> refusal sock my p TAG_AC_SYSTEM_ERROR ''RP-PPPoE: Server: No client slots available'' [''No client slots available''] ?t
            | Some i \<Rightarrow> padr_open paths dup_ok u ue sock my child p i ?t)"
        using False k by (simp add: processPADR_def parse g slot sv err Let_def del: COOKIE_LEN_def cong: if_cong option.case_cong)
      show ?thesis
      proof (cases "last_tag TAG_SERVICE_NAME ?ts")
        case None
        then show ?thesis unfolding body using False good by (simp add: padr_spec_def padr_check_def)
      next
        case (Some d)
        show ?thesis
        proof (cases "d = [] \<and> slot_of 0 s \<noteq> None")
          case True
          then obtain i where i: "slot_of 0 s = Some i" by auto
          then have "padr_check pid my p s = Accept i" using False good Some True by (simp add: padr_check_def)
          from op [OF this] show ?thesis unfolding body using Some sl [OF Some] True i by simp
        next
          case no: False
          then show ?thesis
            unfolding body using False good Some sl [OF Some] by (auto simp: padr_spec_def padr_check_def split: option.split)
        qed
      qed
    qed
    then show ?thesis using regs by (blast dest: reg_is_ok)
  qed
qed

section \<open>Terminating and reaping sessions\<close>

lemma sess_inj:
  assumes "table_ok s" and "i < length (Sessions s)" and "j < length (Sessions s)" and "cs_sess (Sessions s ! i) = cs_sess (Sessions s ! j)"
  shows "i = j"
proof -
  have "(of_nat (i + 1 + unat (SessOffset s)) :: u16) = of_nat (j + 1 + unat (SessOffset s))"
    using assms by (simp add: table_ok_def)
  then show ?thesis using assms(1-3) by (subst (asm) of_nat_u16_inj) (auto simp: table_ok_def)
qed

lemma sess_number:
  assumes "table_ok s" and "i < length (Sessions s)"
  shows "unat (ntohs (cs_sess (Sessions s ! i))) = i + 1 + unat (SessOffset s)" and "ntohs (cs_sess (Sessions s ! i)) \<noteq> 0"
    and "ntohs (cs_sess (Sessions s ! i)) \<noteq> 0xFFFF"
proof -
  have b: "i + 1 + unat (SessOffset s) \<le> 65534" using assms by (simp add: table_ok_def)
  show n: "unat (ntohs (cs_sess (Sessions s ! i))) = i + 1 + unat (SessOffset s)"
    using assms b by (simp add: table_ok_def unat_of_nat_u16 del: of_nat_add of_nat_Suc)
  show "ntohs (cs_sess (Sessions s ! i)) \<noteq> 0" using n by (metis unat_0 add_gr_0 less_numeral_extra(1,3))
  show "ntohs (cs_sess (Sessions s ! i)) \<noteq> 0xFFFF"
  proof
    assume "ntohs (cs_sess (Sessions s ! i)) = 0xFFFF"
    then have "unat (ntohs (cs_sess (Sessions s ! i))) = unat (0xFFFF :: u16)" by simp
    then show False using n b by simp
  qed
qed

text \<open>The computation of the index in 32 bits: a number below the offset wraps to a large index.\<close>

lemma padt_index:
  fixes n :: u16 and off k :: u32
  assumes "unat k + unat off \<le> 65534"
  defines "i \<equiv> ucast n - 1 - off"
  shows "i < k \<longleftrightarrow> unat off < unat n \<and> unat n \<le> unat off + unat k" and "i < k \<Longrightarrow> unat i = unat n - 1 - unat off"
proof -
  have n: "uint (ucast n :: u32) = uint n"
    using unsigned_less [of n, where 'a = int] by (simp add: unsigned_ucast_eq take_bit_int_eq_self)
  have u: "uint i = (uint n - 1 - uint off) mod 4294967296"
    unfolding i_def by (simp add: uint_word_ariths n mod_simps)
  have e: "uint n = int (unat n)" "uint off = int (unat off)" "uint k = int (unat k)" "uint i = int (unat i)" by simp_all
  have r: "0 \<le> uint n" "uint n < 65536" "0 \<le> uint off" "uint off \<le> 65534" "uint k \<le> 65534" "0 \<le> uint k"
    using assms(1) unat_u16_less [of n] unfolding e by linarith+
  have a: "uint i = uint n - 1 - uint off" if "uint off < uint n"
    unfolding u by (rule mod_pos_pos_trivial) (use r that in linarith)+
  have b: "uint i \<ge> 65535" if "\<not> uint off < uint n"
  proof -
    have "uint i = uint n - 1 - uint off + 4294967296"
      unfolding u by (subst mod_add_self2 [symmetric], rule mod_pos_pos_trivial) (use r that in linarith)+
    then show ?thesis using r by linarith
  qed
  show k: "i < k \<longleftrightarrow> unat off < unat n \<and> unat n \<le> unat off + unat k"
  proof (cases "uint off < uint n")
    case True
    then show ?thesis using a [OF True] r unfolding word_less_def e by linarith
  next
    case False
    then show ?thesis using b [OF False] r unfolding word_less_def e by linarith
  qed
  show "unat i = unat n - 1 - unat off" if "i < k"
  proof -
    have "uint off < uint n" using that k unfolding e by linarith
    from a [OF this] this show ?thesis unfolding e by linarith
  qed
qed

text \<open>The child to which a PADT for a session number is passed on.\<close>

definition session_child :: "server \<Rightarrow> u16 \<Rightarrow> int option" where
  "session_child s n =
     (case find (\<lambda>c. cs_sess c = n \<and> cs_pid c \<noteq> 0) (Sessions s) of None \<Rightarrow> None | Some c \<Rightarrow> Some (cs_pid c))"

lemma session_child_nth:
  assumes "table_ok s" and "i < length (Sessions s)"
  shows "session_child s (cs_sess (Sessions s ! i)) = (if cs_pid (Sessions s ! i) = 0 then None else Some (cs_pid (Sessions s ! i)))"
proof (cases "cs_pid (Sessions s ! i) = 0")
  case True
  then have "find (\<lambda>c. cs_sess c = cs_sess (Sessions s ! i) \<and> cs_pid c \<noteq> 0) (Sessions s) = None"
    using sess_inj [OF assms(1)] assms(2) by (auto simp: find_None_iff in_set_conv_nth)
  then show ?thesis using True by (simp add: session_child_def)
next
  case False
  then have "find (\<lambda>c. cs_sess c = cs_sess (Sessions s ! i) \<and> cs_pid c \<noteq> 0) (Sessions s) = Some (Sessions s ! i)"
    using sess_inj [OF assms(1)] assms(2)
    by (auto simp: find_Some_iff intro!: exI [of _ i]) (metis less_irrefl_nat order.strict_trans)
  then show ?thesis using False by (simp add: session_child_def)
qed

lemma walk_log: "\<exists>log'. walk parseLogErrs log ts = Inr log'"
  by (induction "parseLogErrs" log ts rule: walk.induct) (simp_all add: parseLogErrs_def)

lemma processPADT_eq:
  assumes "table_ok s" and "wf_packet p"
  shows "processPADT my p s = Some (s, if h_dest p = my then (case session_child s (session p) of None \<Rightarrow> [] | Some c \<Rightarrow> [Kill c]) else [])"
proof (cases "h_dest p = my")
  case True
  let ?i = "ucast (ntohs (session p)) - 1 - SessOffset s"
  let ?n = "ntohs (session p)"
  have t: "length (Sessions s) = unat (NumSessionSlots s)" "unat (NumSessionSlots s) + unat (SessOffset s) \<le> 65534"
    using assms(1) by (simp_all add: table_ok_def)
  note ix = padt_index [OF t(2), of ?n]
  show ?thesis
  proof (cases "?i < NumSessionSlots s")
    case in_range: True
    have n: "unat (SessOffset s) < unat ?n" "unat ?n \<le> unat (SessOffset s) + unat (NumSessionSlots s)" using ix(1) in_range by auto
    have i: "unat ?i = unat ?n - 1 - unat (SessOffset s)" by (rule ix(2) [OF in_range])
    have l: "unat ?i < length (Sessions s)" using n t i by simp
    have "unat ?i + 1 + unat (SessOffset s) = unat ?n" using i n by simp
    then have "cs_sess (Sessions s ! unat ?i) = htons (of_nat (unat ?n))" using assms(1) l by (simp add: table_ok_def del: of_nat_add of_nat_Suc)
    then have e: "cs_sess (Sessions s ! unat ?i) = session p" by simp
    have c: "session_child s (session p) = (if cs_pid (Sessions s ! unat ?i) = 0 then None else Some (cs_pid (Sessions s ! unat ?i)))"
      using session_child_nth [OF assms(1) l] unfolding e .
    obtain log where log: "walk parseLogErrs [] (snd (packet_tags p)) = Inr log"
      using walk_log by blast
    have pp: "parsePacket p parseLogErrs [] = Some (Inr (fst (packet_tags p), log))"
      using parsePacket_walk [OF assms(2), of parseLogErrs "[]"] log by simp
    show ?thesis using True in_range l e pp by (auto simp: processPADT_def c Let_def)
  next
    case False
    have "find (\<lambda>c. cs_sess c = session p \<and> cs_pid c \<noteq> 0) (Sessions s) = None"
    proof (rule ccontr)
      assume "find (\<lambda>c. cs_sess c = session p \<and> cs_pid c \<noteq> 0) (Sessions s) \<noteq> None"
      then obtain j where j: "j < length (Sessions s)" "cs_sess (Sessions s ! j) = session p"
        by (auto simp: find_Some_iff)
      have "unat ?n = j + 1 + unat (SessOffset s)" using sess_number(1) [OF assms(1) j(1)] j(2) by simp
      then show False using False ix(1) j(1) t by auto
    qed
    then show ?thesis using True False by (simp add: processPADT_def session_child_def linorder_not_less)
  qed
qed (simp add: processPADT_def)

lemma reap_child_eq:
  assumes "table_ok s"
  shows "reap_child c s = Some (case slot_of c s of None \<Rightarrow> (s, [Syslog ''Child died but couldn't find session!'']) | Some i \<Rightarrow> (set_pid i 0 s, []))"
  using srv_findSession_eq [of s c] assms by (simp add: reap_child_def table_ok_def set_pid_def cong: option.case_cong)

lemma table_ok_upd:
  assumes "table_ok s" and "i < length (Sessions s)" and "cs_sess c = cs_sess (Sessions s ! i)" and "length (cs_ip c) = 4"
    and "length (cs_eth c) = 6" and "0 \<le> cs_pid c"
  shows "table_ok (s\<lparr>Sessions := (Sessions s)[i := c]\<rparr>)"
  using assms by (auto simp: table_ok_def nth_list_update)

lemma set_eth_ok:
  assumes "table_ok s" and "i < length (Sessions s)" and "length e = 6"
  shows "table_ok (set_eth i e s)"
  unfolding set_eth_def by (rule table_ok_upd) (use assms in \<open>auto simp: table_ok_def\<close>)

lemma set_pid_ok:
  assumes "table_ok s" and "i < length (Sessions s)" and "0 \<le> c"
  shows "table_ok (set_pid i c s)"
  unfolding set_pid_def by (rule table_ok_upd) (use assms in \<open>auto simp: table_ok_def\<close>)

section \<open>Properties of the handlers\<close>

text \<open>A server with two slots, one of them free, and the packets of the examples.\<close>

definition sample_server :: server where
  "sample_server = server_globals\<lparr>NumSessionSlots := 2, CookieSeed := replicate 16 7, IfName := Some ''eth0'', ACName := Some [65, 67],
     Sessions := [\<lparr>cs_pid = 0, cs_ip = [10, 67, 15, 1], cs_sess = htons (of_nat 1), cs_eth = [0, 0, 0, 0, 0, 0]\<rparr>,
                  \<lparr>cs_pid = 77, cs_ip = [10, 67, 15, 2], cs_sess = htons (of_nat 2), cs_eth = [2, 0, 0, 0, 0, 9]\<rparr>]\<rparr>"

definition sample_paths :: server_paths where
  "sample_paths = \<lparr>PPPD_PATH = ''/usr/sbin/pppd'', PPPOE_PATH = ''/usr/sbin/pppoe'',
     PPPOE_SERVER_OPTIONS = ''/etc/ppp/pppoe-server-options'', PLUGIN_PATH = ''/etc/ppp/plugins/rp-pppoe.so''\<rparr>"

definition packet_with :: "byte \<Rightarrow> u16 \<Rightarrow> byte list \<Rightarrow> byte list \<Rightarrow> (u16 \<times> byte list) list \<Rightarrow> PPPoEPacket" where
  "packet_with cd ses dst src tags =
     \<lparr>h_dest = dst, h_source = src, h_proto = htons ETH_PPPOE_DISCOVERY, pver = 1, ptype = 1, code = cd, session = ses,
      plength = htons (of_nat (length (encode_tags tags))),
      payload = encode_tags tags @ replicate (1500 - length (encode_tags tags)) 0\<rparr>"

lemma zero_tag_ok [simp]: "reg_ok zero_tag"
  by (simp add: reg_ok_def wf_tag_def zero_tag_def tag_len_def)

lemma sample_server_ok: "server_ok sample_server"
  by (auto simp: server_ok_def table_ok_def sample_server_def server_globals_def nth_Cons split: nat.splits)

lemma sample_slot: "slot_of 0 sample_server = Some 0"
  by (simp add: slot_of_def sample_server_def)

lemma last_tag_map: "last_tag ty ts = foldl (\<lambda>r (t, d). if t = ty then Some d else r) None (map snd ts)"
proof -
  have "foldl (\<lambda>r (off, t, d). if t = ty then Some d else r) x ts = foldl (\<lambda>r (t, d). if t = ty then Some d else r) x (map snd ts)" for x
    by (induction ts arbitrary: x) auto
  then show ?thesis by (simp add: last_tag_def)
qed

lemma packet_with_tags:
  assumes "length dst = 6" and "length src = 6" and "length (encode_tags tags) \<le> 1494" and "\<forall>(t, d) \<in> set tags. t \<noteq> 0 \<and> length d < 65536"
  shows "wf_packet (packet_with cd ses dst src tags)"
    and "last_tag ty (snd (packet_tags (packet_with cd ses dst src tags))) = foldl (\<lambda>r (t, d). if t = ty then Some d else r) None tags"
proof -
  let ?p = "packet_with cd ses dst src tags"
  show "wf_packet ?p" using assms by (simp add: wf_packet_def packet_with_def)
  have l: "pkt_len ?p = length (encode_tags tags)" using assms(3) by (simp add: pkt_len_def packet_with_def unat_of_nat_u16)
  have "map snd (snd (packet_tags ?p)) = tags"
    using scan_tags_encode [OF assms(4), of "[]" "replicate (1500 - length (encode_tags tags)) 0"] assms(3) l
    by (simp add: packet_tags_def) (simp add: packet_with_def)
  then show "last_tag ty (snd (packet_tags ?p)) = foldl (\<lambda>r (t, d). if t = ty then Some d else r) None tags"
    by (simp add: last_tag_map)
qed

text \<open>
  C14. What the server makes of a PADR is decided by \<^verbatim>\<open>padr_check\<close>: a packet for another station, from a
  group address or without the cookie that this server issues to the sender is dropped without an answer;
  a missing or non-empty service name and a full table are refused with an error PADS; otherwise the
  first free slot gets the address of the client and, in the parent, the pid of the child, while the child
  answers with a PADS that carries the number of the slot and then executes the PPP daemon. Only the
  tag registers change besides. The PADS is not checked for room, but the cookie that a PADR must carry
  makes sure that it fits.
\<close>

theorem processPADR_correct:
  assumes "server_ok s" and "wf_packet u" and "wf_packet ue" and "wf_packet p" and "length my = 6" and "length (md_in ctx) = 64"
  shows "\<exists>r. processPADR paths dup_ok ctx u ue pid sock my child p s = padr_spec paths dup_ok pid sock my child p s (with_regs r s) \<and>
    (\<forall>i. padr_check pid my p s = Accept i \<longrightarrow> length (encode_tags (pads_tags p)) \<le> MAX_PPPOE_PAYLOAD)"
  using processPADR_eq [OF assms, of paths dup_ok pid sock child] pads_tags_fit [of pid my p s] by fastforce

definition sample_padr :: "(u16 \<times> byte list) list \<Rightarrow> PPPoEPacket" where
  "sample_padr tags = packet_with CODE_PADR 0 [2, 0, 0, 0, 0, 1] [2, 0, 0, 0, 0, 2] tags"

definition sample_cookie :: "byte list" where
  "sample_cookie = cookie_for 1 [2, 0, 0, 0, 0, 2] [2, 0, 0, 0, 0, 1] (replicate 16 7)"

lemma length_sample_cookie [simp]: "length sample_cookie = 20"
  by (simp add: sample_cookie_def)

lemma sample_padr_wf: "length (encode_tags tags) \<le> 1494 \<Longrightarrow> \<forall>(t, d) \<in> set tags. t \<noteq> 0 \<and> length d < 65536 \<Longrightarrow> wf_packet (sample_padr tags)"
  unfolding sample_padr_def by (rule packet_with_tags(1)) auto

lemma sample_padr_last:
  assumes "length (encode_tags tags) \<le> 1494" and "\<forall>(t, d) \<in> set tags. t \<noteq> 0 \<and> length d < 65536"
  shows "last_tag ty (snd (packet_tags (sample_padr tags))) = foldl (\<lambda>r (t, d). if t = ty then Some d else r) None tags"
  unfolding sample_padr_def by (rule packet_with_tags(2) [OF _ _ assms]) auto

lemma sample_padr_addr: "h_dest (sample_padr tags) = [2, 0, 0, 0, 0, 1]" "h_source (sample_padr tags) = [2, 0, 0, 0, 0, 2]"
  by (simp_all add: sample_padr_def packet_with_def)

lemma sample_padr_check:
  assumes "length (encode_tags tags) \<le> 1494" and "\<forall>(t, d) \<in> set tags. t \<noteq> 0 \<and> length d < 65536"
  shows "padr_check 1 [2, 0, 0, 0, 0, 1] (sample_padr tags) sample_server =
    (if foldl (\<lambda>r (t, d). if t = TAG_AC_COOKIE then Some d else r) None tags \<noteq> Some sample_cookie then Ignore []
     else case foldl (\<lambda>r (t, d). if t = TAG_SERVICE_NAME then Some d else r) None tags of
        None \<Rightarrow> Refuse TAG_SERVICE_NAME_ERROR ''RP-PPPoE: Server: No service name tag'' [''Received PADR packet with no SERVICE_NAME tag'']
      | Some d \<Rightarrow> if d \<noteq> [] then Refuse TAG_SERVICE_NAME_ERROR ''RP-PPPoE: Server: Invalid service name tag''
                       [''Received PADR packet asking for unsupported service''] else Accept 0)"
proof -
  have "CookieSeed sample_server = replicate 16 7" by (simp add: sample_server_def)
  moreover have "\<not> NOT_UNICAST [2, 0, 0, 0, 0, 2]" by (simp add: NOT_UNICAST_def)
  ultimately show ?thesis
    unfolding padr_check_def Let_def sample_padr_addr sample_padr_last [OF assms] sample_slot sample_cookie_def
    by (simp split: option.split)
qed

theorem processPADR_correct_witness:
  "\<exists>r. processPADR sample_paths True dirty_context
       sample_padi sample_padi 1 3 [2, 0, 0, 0, 0, 1] 99 (sample_padr [(TAG_AC_COOKIE, sample_cookie), (TAG_SERVICE_NAME, [])]) sample_server =
     Some (set_pid 0 99 (set_eth 0 [2, 0, 0, 0, 0, 2] (with_regs r sample_server)), [Fork 99], True)"
proof -
  let ?tags = "[(TAG_AC_COOKIE, sample_cookie), (TAG_SERVICE_NAME, [])]"
  have "wf_packet (sample_padr ?tags)" by (rule sample_padr_wf) auto
  moreover have "padr_check 1 [2, 0, 0, 0, 0, 1] (sample_padr ?tags) sample_server = Accept 0"
    by (subst sample_padr_check) auto
  ultimately show ?thesis
    using processPADR_correct [OF sample_server_ok wf_sample_padi wf_sample_padi, of "sample_padr ?tags" "[2, 0, 0, 0, 0, 1]" dirty_context _ True 1 3 99]
    by (simp add: dirty_context_def padr_spec_def sample_padr_addr)
qed

definition padr_refused :: "u32 \<Rightarrow> byte list \<Rightarrow> int \<Rightarrow> PPPoEPacket \<Rightarrow> server \<Rightarrow> string option" where
  "padr_refused pid my child p s =
     (case padr_check pid my p s of
        Ignore logs \<Rightarrow> None
      | Refuse tag msg logs \<Rightarrow> Some msg
      | Accept i \<Rightarrow> if child < 0 then Some ''RP-PPPoE: Server: Unable to start session process'' else None)"

lemma startPPPD_defined: "IfName s \<noteq> None \<Longrightarrow> startPPPD paths dup_ok ses s \<noteq> None"
  by (auto simp: startPPPD_def startPPPDLinuxKernelMode_def startPPPDUserMode_def)

lemma padr_spec_None:
  assumes "IfName t \<noteq> None"
  shows "padr_spec paths dup_ok pid sock my child p s t = None \<longleftrightarrow>
    (\<exists>msg. padr_refused pid my child p s = Some msg \<and> length msg + 4 + length (encode_tags (saved_tags (snd (packet_tags p)))) > 1500)"
proof (cases "padr_check pid my p s")
  case (Accept i)
  have "startPPPD paths dup_ok ses (set_eth i e t) \<noteq> None" for ses e
    by (rule startPPPD_defined) (use assms in \<open>simp add: set_eth_def\<close>)
  then show ?thesis using Accept by (auto simp: padr_spec_def padr_refused_def refusal_def Let_def)
qed (auto simp: padr_spec_def padr_refused_def refusal_def Let_def)

text \<open>
  C33. \<^verbatim>\<open>sendErrorPADS\<close> copies the relay and host tags of the PADR without a check for room: the
  handling of a PADR is undefined, by a write behind the payload of the packet on the stack, exactly when the PADR is
  refused and the message with the copied tags exceeds 1500 bytes. A client with a valid cookie can
  bring this about.
\<close>

theorem processPADR_defined:
  assumes "server_ok s" and "wf_packet u" and "wf_packet ue" and "wf_packet p" and "length my = 6" and "length (md_in ctx) = 64"
  shows "processPADR paths dup_ok ctx u ue pid sock my child p s = None \<longleftrightarrow>
    (\<exists>msg. padr_refused pid my child p s = Some msg \<and> length msg + 4 + length (encode_tags (saved_tags (snd (packet_tags p)))) > ETH_DATA_LEN)"
proof -
  obtain r where r: "processPADR paths dup_ok ctx u ue pid sock my child p s = padr_spec paths dup_ok pid sock my child p s (with_regs r s)"
    using processPADR_eq [OF assms] by blast
  have "IfName (with_regs r s) \<noteq> None" using assms(1) by (simp add: server_ok_def)
  then show ?thesis unfolding r by (simp add: padr_spec_None)
qed

theorem processPADR_defined_witness:
  "processPADR sample_paths True dirty_context sample_padi sample_padi 1 3 [2, 0, 0, 0, 0, 1] 99
     (sample_padr [(TAG_AC_COOKIE, sample_cookie), (TAG_RELAY_SESSION_ID, replicate 1466 0)]) sample_server = None"
proof -
  let ?tags = "[(TAG_AC_COOKIE, sample_cookie), (TAG_RELAY_SESSION_ID, replicate 1466 0)]"
  have w: "length (encode_tags ?tags) \<le> 1494" "\<forall>(t, d) \<in> set ?tags. t \<noteq> 0 \<and> length d < 65536" by auto
  have "padr_refused 1 [2, 0, 0, 0, 0, 1] 99 (sample_padr ?tags) sample_server = Some ''RP-PPPoE: Server: No service name tag''"
    unfolding padr_refused_def sample_padr_check [OF w] by simp
  moreover have "length (encode_tags (saved_tags (snd (packet_tags (sample_padr ?tags))))) = 1470"
    unfolding saved_tags_def sample_padr_last [OF w] by simp
  ultimately show ?thesis
    using processPADR_defined [OF sample_server_ok wf_sample_padi wf_sample_padi sample_padr_wf [OF w], of "[2, 0, 0, 0, 0, 1]" dirty_context sample_paths True 1 3 99]
    by (simp add: dirty_context_def)
qed

text \<open>
  C15. The handshake: the PADO that answers a PADI from a unicast address carries one cookie, and any PADR that
  the same client sends back with this cookie as its last and with the empty service name is accepted as
  long as a slot is free. The parent then keeps the client's address and the child in the first free slot;
  the child sends a PADS with the number of this slot and the tags of the PADR. None of the steps is undefined.
\<close>

theorem handshake:
  assumes s: "server_ok s" and u: "wf_packet u" "wf_packet ue" "wf_packet p" "length my = 6" "length (md_in ctx) = 64"
    and p: "\<not> NOT_UNICAST (h_source p)" "ACName s = Some name"
    and fits: "length (encode_tags (pado_tags pid my name p (CookieSeed s))) \<le> MAX_PPPOE_PAYLOAD"
    and free: "slot_of 0 s = Some i"
  shows "\<exists>s1 tags c. processPADI ctx u pid sock my p s =
      Some (s1, [Send (Sent sock (pppoe_frame (h_source p) my (srv_Discovery s) CODE_PADO 0 tags))]) \<and>
    filter (\<lambda>t. fst t = TAG_AC_COOKIE) tags = [(TAG_AC_COOKIE, c)] \<and>
    (\<forall>q child. wf_packet q \<and> h_dest q = my \<and> h_source q = h_source p \<and> last_tag TAG_AC_COOKIE (snd (packet_tags q)) = Some c \<and>
       last_tag TAG_SERVICE_NAME (snd (packet_tags q)) = Some [] \<and> 0 < child \<longrightarrow>
       (\<exists>s2. processPADR paths dup_ok ctx u ue pid sock my child q s1 = Some (s2, [Fork child], True) \<and>
          Sessions s2 = (Sessions s)[i := (Sessions s ! i)\<lparr>cs_eth := h_source p, cs_pid := child\<rparr>]) \<and>
       (\<exists>s3 acts. processPADR paths dup_ok ctx u ue pid sock my 0 q s1 =
          Some (s3, Send (Sent sock (pppoe_frame (h_source p) my (srv_Discovery s) CODE_PADS (cs_sess (Sessions s ! i)) (pads_tags q))) # acts, False)))"
proof -
  have n: "length name \<le> 1500" using fits by (simp add: pado_tags_def)
  obtain r where r: "padi_regs (snd (packet_tags p)) r" "processPADI ctx u pid sock my p s = Some (with_regs r s,
      [Send (Sent sock (pppoe_frame (h_source p) my (srv_Discovery s) CODE_PADO 0 (pado_tags pid my name p (CookieSeed s))))])"
    using processPADI_eq [OF s u(1,3,4,5) p(2) n p(1), of pid sock] fits by auto
  let ?c = "cookie_for pid (h_source p) my (CookieSeed s)"
  have ok: "server_ok (with_regs r s)"
    using s r(1) by (auto simp: server_ok_def table_ok_def padi_regs_def with_regs_def dest: reg_is_ok)
  have f: "filter (\<lambda>t. fst t = TAG_AC_COOKIE) (pado_tags pid my name p (CookieSeed s)) = [(TAG_AC_COOKIE, ?c)]"
    by (auto simp: pado_tags_def saved_tags_def split: option.split)
  have i: "i < length (Sessions s)" using slot_of_Some [OF free] by simp
  {
    fix q child assume q: "wf_packet q" "h_dest q = my" "h_source q = h_source p" "last_tag TAG_AC_COOKIE (snd (packet_tags q)) = Some ?c"
      "last_tag TAG_SERVICE_NAME (snd (packet_tags q)) = Some []" and c: "0 < (child :: int)"
    have a: "padr_check pid my q (with_regs r s) = Accept i"
      using q p(1) free by (simp add: padr_check_def slot_of_def)
    obtain t where t: "processPADR paths dup_ok ctx u ue pid sock my child q (with_regs r s) =
        padr_spec paths dup_ok pid sock my child q (with_regs r s) (with_regs t (with_regs r s))"
      using processPADR_eq [OF ok u(1,2) q(1) u(4,5), of paths dup_ok pid sock child] by blast
    have e: "(Sessions s)[i := (Sessions s ! i)\<lparr>cs_eth := h_source p, cs_pid := child\<rparr>] =
        Sessions (set_pid i child (set_eth i (h_source p) (with_regs t s)))"
      using i by (simp add: set_pid_def set_eth_def)
    have g: "\<exists>s2. processPADR paths dup_ok ctx u ue pid sock my child q (with_regs r s) = Some (s2, [Fork child], True) \<and>
        Sessions s2 = (Sessions s)[i := (Sessions s ! i)\<lparr>cs_eth := h_source p, cs_pid := child\<rparr>]"
      unfolding t e using a c by (simp add: padr_spec_def q(3))
    obtain t0 where t0: "processPADR paths dup_ok ctx u ue pid sock my 0 q (with_regs r s) =
        padr_spec paths dup_ok pid sock my 0 q (with_regs r s) (with_regs t0 (with_regs r s))"
      using processPADR_eq [OF ok u(1,2) q(1) u(4,5), of paths dup_ok pid sock 0] by blast
    have "startPPPD paths dup_ok ses (set_eth i (h_source p) (with_regs t0 s)) \<noteq> None" for ses
      by (rule startPPPD_defined) (use s in \<open>simp add: set_eth_def server_ok_def\<close>)
    then have "\<exists>s3 acts. processPADR paths dup_ok ctx u ue pid sock my 0 q (with_regs r s) =
          Some (s3, Send (Sent sock (pppoe_frame (h_source p) my (srv_Discovery s) CODE_PADS (cs_sess (Sessions s ! i)) (pads_tags q))) # acts, False)"
      unfolding t0 using a by (auto simp: padr_spec_def q(3) Let_def)
    note g this
  }
  then show ?thesis using r(2) f by blast
qed

theorem handshake_witness:
  "\<exists>s1 tags c. processPADI dirty_context sample_padi 1 3 [2, 0, 0, 0, 0, 1] (sample_padr []) sample_server =
      Some (s1, [Send (Sent 3 (pppoe_frame [2, 0, 0, 0, 0, 2] [2, 0, 0, 0, 0, 1] ETH_PPPOE_DISCOVERY CODE_PADO 0 tags))]) \<and>
    filter (\<lambda>t. fst t = TAG_AC_COOKIE) tags = [(TAG_AC_COOKIE, c)]"
proof -
  have l: "last_tag ty (snd (packet_tags (sample_padr []))) = None" for ty by (subst sample_padr_last) auto
  have "wf_packet (sample_padr [])" by (rule sample_padr_wf) auto
  moreover have "length (encode_tags (pado_tags 1 [2, 0, 0, 0, 0, 1] [65, 67] (sample_padr []) (CookieSeed sample_server))) \<le> 1494"
    unfolding pado_tags_def saved_tags_def l by simp
  moreover have "\<not> NOT_UNICAST (h_source (sample_padr []))" by (simp add: sample_padr_addr NOT_UNICAST_def)
  moreover have "ACName sample_server = Some [65, 67]" "srv_Discovery sample_server = ETH_PPPOE_DISCOVERY"
    by (simp_all add: sample_server_def server_globals_def)
  ultimately show ?thesis
    using handshake [OF sample_server_ok wf_sample_padi wf_sample_padi _ _ _ _ _ _ sample_slot, of "sample_padr []" "[2, 0, 0, 0, 0, 1]" dirty_context "[65, 67]" 1 3 sample_paths True]
    by (simp add: dirty_context_def sample_padr_addr) blast
qed

text \<open>
  A PADT directed at the server makes it terminate exactly the child, if there is one, of the session whose
  number the packet carries, and never another process. The computation of the slot in unsigned arithmetic
  is safe for every number, also below the offset, and always finds the slot with this number. (The sender
  is not compared with the client of the session.)
\<close>

theorem processPADT_correct:
  assumes "table_ok s" and "wf_packet p"
  shows "processPADT my p s = Some (s, if h_dest p = my then (case session_child s (session p) of None \<Rightarrow> [] | Some c \<Rightarrow> [Kill c]) else [])"
  by (rule processPADT_eq [OF assms])

theorem processPADT_correct_witness:
  "processPADT [2, 0, 0, 0, 0, 1] (packet_with CODE_PADT (htons (of_nat 2)) [2, 0, 0, 0, 0, 1] [2, 0, 0, 0, 0, 9] []) sample_server = Some (sample_server, [Kill 77]) \<and>
   processPADT [2, 0, 0, 0, 0, 1] (packet_with CODE_PADT 0 [2, 0, 0, 0, 0, 1] [2, 0, 0, 0, 0, 9] []) sample_server = Some (sample_server, [])"
proof -
  let ?p = "\<lambda>n. packet_with CODE_PADT n [2, 0, 0, 0, 0, 1] [2, 0, 0, 0, 0, 9] []"
  have t: "table_ok sample_server" using sample_server_ok by (simp add: server_ok_def)
  have w: "wf_packet (?p n)" for n by (rule packet_with_tags(1)) auto
  have d: "h_dest (?p n) = [2, 0, 0, 0, 0, 1]" "session (?p n) = n" for n by (simp_all add: packet_with_def)
  have c: "session_child sample_server (htons (of_nat 2)) = Some 77" "session_child sample_server 0 = None"
    by (simp_all add: session_child_def sample_server_def)
  show ?thesis
    using processPADT_correct [OF t w, of "[2, 0, 0, 0, 0, 1]" "htons (of_nat 2)"] processPADT_correct [OF t w, of "[2, 0, 0, 0, 0, 1]" 0]
    unfolding d c by simp
qed

section \<open>Handing the session over to the client program\<close>

text \<open>
  The child runs \<^verbatim>\<open>pppoe -e session:address\<close> under the PPP daemon. \<^verbatim>\<open>scan_e\<close> is the call
  \<^verbatim>\<open>sscanf(optarg, "%u:%2x:%2x:%2x:%2x:%2x:%2x", ...)\<close> of \<^verbatim>\<open>pppoe.c\<close> on texts without white space, signs and
  prefixes before the numbers.
\<close>

definition digit_value :: "char \<Rightarrow> nat" where
  "digit_value c =
     (let n = of_char c
      in if 48 \<le> n \<and> n \<le> 57 then n - 48
         else if 97 \<le> n \<and> n \<le> 102 then n - 87
         else if 65 \<le> n \<and> n \<le> 70 then n - 55
         else 16)"

definition scan_num :: "nat \<Rightarrow> nat \<Rightarrow> string \<Rightarrow> (u32 \<times> string) option" where
  "scan_num base width str =
     (let ds = takeWhile (\<lambda>c. digit_value c < base) (take width str)
      in if ds = [] then None
         else Some (of_nat (foldl (\<lambda>n c. n * base + digit_value c) 0 ds), drop (length ds) str))"

definition scan_colon :: "string \<Rightarrow> string option" where
  "scan_colon str = (case str of [] \<Rightarrow> None | c # cs \<Rightarrow> if c = CHR '':'' then Some cs else None)"

definition scan_e :: "string \<Rightarrow> (u32 \<times> u32 list) option" where
  "scan_e str = do {
     (s, r) \<leftarrow> scan_num 10 (length str) str;
     r \<leftarrow> scan_colon r; (m0, r) \<leftarrow> scan_num 16 2 r;
     r \<leftarrow> scan_colon r; (m1, r) \<leftarrow> scan_num 16 2 r;
     r \<leftarrow> scan_colon r; (m2, r) \<leftarrow> scan_num 16 2 r;
     r \<leftarrow> scan_colon r; (m3, r) \<leftarrow> scan_num 16 2 r;
     r \<leftarrow> scan_colon r; (m4, r) \<leftarrow> scan_num 16 2 r;
     r \<leftarrow> scan_colon r; (m5, r) \<leftarrow> scan_num 16 2 r;
     Some (s, [m0, m1, m2, m3, m4, m5])
   }"

definition handover :: "ClientSession \<Rightarrow> string" where
  "handover ses = print_base 10 (unat (ntohs (cs_sess ses))) @ '':'' @ print_mac (cs_eth ses)"

lemma digit_value_digit [simp]: "d < 16 \<Longrightarrow> digit_value (digit d) = d"
proof -
  have "\<forall>d \<in> {..<16}. digit_value (digit d) = d" by code_simp
  then show "d < 16 \<Longrightarrow> digit_value (digit d) = d" by simp
qed

declare print_base.simps [simp del]

lemma print_base_value:
  assumes "2 \<le> b" and "b \<le> 16"
  shows "foldl (\<lambda>n c. n * b + digit_value c) 0 (print_base b n) = n \<and> (\<forall>c \<in> set (print_base b n). digit_value c < b) \<and> print_base b n \<noteq> []"
  using assms
proof (induction b n rule: print_base.induct)
  case (1 b n)
  show ?case
  proof (cases "n < b")
    case True
    then show ?thesis using 1 by (simp add: print_base.simps [of b n])
  next
    case False
    have m: "n mod b < 16" "n mod b < b" using 1(3) 1(2) mod_less_divisor [of b n] by linarith+
    have ih: "foldl (\<lambda>n c. n * b + digit_value c) 0 (print_base b (n div b)) = n div b"
      "\<forall>c \<in> set (print_base b (n div b)). digit_value c < b" using 1 False by auto
    have "print_base b n = print_base b (n div b) @ [digit (n mod b)]"
      using False 1(2) by (simp add: print_base.simps [of b n])
    then show ?thesis using ih m by simp
  qed
qed

lemma scan_decimal:
  assumes "digit_value c \<ge> 10"
  shows "scan_num 10 (length (print_base 10 n @ c # rest)) (print_base 10 n @ c # rest) = Some (of_nat n, c # rest)"
proof -
  note v = print_base_value [of 10 n, simplified]
  have t: "takeWhile (\<lambda>c. digit_value c < 10) (print_base 10 n @ c # rest) = print_base 10 n"
    using v assms by (subst takeWhile_append2) auto
  have a: "take (length (print_base 10 n @ c # rest)) (print_base 10 n @ c # rest) = print_base 10 n @ c # rest" by (rule take_all) simp
  show ?thesis unfolding scan_num_def a t Let_def using v by simp
qed

lemma scan_02x: "scan_num 16 2 (print_02x b @ rest) = Some (ucast b, rest)"
proof -
  have l: "unat b < 256" using unsigned_less [of b, where 'a = nat] by simp
  then have d: "unat b div 16 < 16" "unat b mod 16 < 16" by auto
  have e: "unat b div 16 * 16 + unat b mod 16 = unat b" by simp
  have "(of_nat (unat b) :: u32) = ucast b" by simp
  then show ?thesis using d e by (simp add: scan_num_def print_02x_def numeral_2_eq_2)
qed

lemma scan_colon_simp [simp]: "scan_colon (CHR '':'' # r) = Some r"
  by (simp add: scan_colon_def)

lemma ucast_ucast_byte: "ucast (ucast (b :: byte) :: u32) = b"
  by (rule bit_word_eqI) (simp add: bit_simps)

lemma ucast_ucast_u16: "ucast (ucast (w :: u16) :: u32) = w"
  by (rule bit_word_eqI) (simp add: bit_simps)

lemma scan_handover:
  assumes "length (cs_eth ses) = 6"
  shows "scan_e (handover ses) = Some (of_nat (unat (ntohs (cs_sess ses))), map ucast (cs_eth ses))"
proof -
  have c: "digit_value CHR '':'' \<ge> 10" by code_simp
  have e: "map ucast (cs_eth ses) = [ucast (cs_eth ses ! 0), ucast (cs_eth ses ! 1), ucast (cs_eth ses ! 2), ucast (cs_eth ses ! 3), ucast (cs_eth ses ! 4), ucast (cs_eth ses ! 5)]"
    by (subst list_of_6 [OF assms]) simp
  show ?thesis
    unfolding scan_e_def handover_def print_mac_def e
    by (simp add: scan_decimal [OF c] scan_02x scan_02x [of _ "[]", simplified] del: length_append)
qed

text \<open>
  The server and the client program agree on the session: when the command line fits the buffer of 256 bytes, the
  PPP daemon is told to run the client program with \<^verbatim>\<open>-e\<close> and a text from which the client reads exactly
  the session number of the PADS and the Ethernet address of the peer, and so skips discovery and uses
  that session.
\<close>

theorem session_handover:
  assumes "length (cs_eth ses) = 6" and "IfName s = Some ifn"
    and "length (PPPOE_PATH paths) + length ifn + length (handover ses) + length (PppoeOptions s) + 8 \<le> 255"
  shows "(\<exists>argv. startPPPDUserMode paths True ses s = Some [Execv (PPPD_PATH paths) argv] \<and> take 2 argv = [''pppd'', ''pty''] \<and>
      argv ! 2 = PPPOE_PATH paths @ '' -I '' @ ifn @ '' -e '' @ handover ses @ PppoeOptions s) \<and>
    (\<exists>st'. pppoe_option (Opt_e (scan_e (handover ses))) st = Inr st' \<and> c_session (p_conn st') = cs_sess ses \<and>
      peerEth (p_conn st') = cs_eth ses \<and> skipDiscovery (p_conn st'))"
proof -
  have m: "map (\<lambda>i. ucast (map ucast (cs_eth ses) ! i :: u32)) [0..<6] = cs_eth ses"
    by (rule nth_equalityI) (use assms(1) in \<open>simp_all add: ucast_ucast_byte\<close>)
  have n: "ucast (of_nat (unat (ntohs (cs_sess ses))) :: u32) = ntohs (cs_sess ses)" by (simp add: ucast_ucast_u16)
  have "take 255 (PPPOE_PATH paths @ '' -I '' @ ifn @ '' -e '' @ handover ses @ PppoeOptions s) =
      PPPOE_PATH paths @ '' -I '' @ ifn @ '' -e '' @ handover ses @ PppoeOptions s"
    by (rule take_all) (use assms(3) in simp)
  then have "startPPPDUserMode paths True ses s = Some [Execv (PPPD_PATH paths) ([''pppd'', ''pty'',
      PPPOE_PATH paths @ '' -I '' @ ifn @ '' -e '' @ handover ses @ PppoeOptions s, ''file'', PPPOE_SERVER_OPTIONS paths,
      snprintf SMALLBUF (print_ip (LocalIP s) @ '':'' @ print_ip (cs_ip ses)), ''nodetach'', ''noaccomp'',
      ''nobsdcomp'', ''nodeflate'', ''nopcomp'', ''novj'', ''novjccomp'', ''default-asyncmap''] @ (if Synchronous s then [''sync''] else []))]"
    using assms(2) by (simp add: startPPPDUserMode_def snprintf_def handover_def)
  moreover have "pppoe_option (Opt_e (scan_e (handover ses))) st = Inr (st\<lparr>p_conn := (p_conn st)\<lparr>peerEth := cs_eth ses,
      c_session := cs_sess ses, skipDiscovery := True\<rparr>\<rparr>)"
    unfolding scan_handover [OF assms(1)] pppoe_option_def Let_def pppoe_opt.case option.case prod.case m n htons_htons ..
  ultimately show ?thesis by simp
qed

theorem session_handover_witness:
  "\<exists>argv st'. startPPPDUserMode sample_paths True (Sessions sample_server ! 1) sample_server = Some [Execv ''/usr/sbin/pppd'' argv] \<and>
     argv ! 2 = ''/usr/sbin/pppoe -I eth0 -e 2:02:00:00:00:00:09'' \<and>
     pppoe_option (Opt_e (scan_e ''2:02:00:00:00:00:09'')) pppoe_initial = Inr st' \<and> c_session (p_conn st') = htons 2"
proof -
  have h: "handover (Sessions sample_server ! 1) = ''2:02:00:00:00:00:09''" by code_simp
  have s: "cs_sess (Sessions sample_server ! 1) = htons 2" "length (cs_eth (Sessions sample_server ! 1)) = 6" "IfName sample_server = Some ''eth0''"
    "PppoeOptions sample_server = []" by (simp_all add: sample_server_def server_globals_def)
  have p: "PPPOE_PATH sample_paths = ''/usr/sbin/pppoe''" "PPPD_PATH sample_paths = ''/usr/sbin/pppd''" by (simp_all add: sample_paths_def)
  show ?thesis
    using session_handover [OF s(2,3), of sample_paths pppoe_initial] unfolding h s p by auto
qed

end
