(* ===== verification/PPPoE_Server_Loop.thy ===== *)
theory PPPoE_Server_Loop
  imports PPPoE_Server
begin

unbundle bit_operations_syntax

text \<open>
  The start and the main loop of the PPPoE server: \<^verbatim>\<open>main\<close> of \<^verbatim>\<open>pppoe-server.c\<close> establishes the invariant
  \<^verbatim>\<open>server_ok\<close>; \<^verbatim>\<open>server_step\<close> is the loop in the steps between which a SIGCHLD can arrive. The lemmas
  show that the slots are in use by exactly the children of the server, that no ended child is forgotten and
  that the addresses of the pool are distinct.
\<close>

section \<open>The start of the server\<close>

definition setup_ok :: "server \<Rightarrow> bool" where
  "setup_ok s \<longleftrightarrow> reg_ok (srv_relayId s) \<and> reg_ok (hostUniq s) \<and> reg_ok (receivedCookie s) \<and> reg_ok (requestedService s) \<and>
     length (CookieSeed s) = 16 \<and> length (LocalIP s) = 4 \<and> length (RemoteIP s) = 4 \<and> length (PppoeOptions s) \<le> 255 \<and>
     unat (NumSessionSlots s) < 2 ^ 31 \<and> unat (SessOffset s) < 2 ^ 31 \<and> \<not> ReapPending s"

lemma read_ip_length: "read_ip a = Some ip \<Longrightarrow> length ip = 4"
  by (auto simp: read_ip_def split: option.splits if_splits)

lemma append_option_ok [simp]: "setup_ok s \<Longrightarrow> setup_ok (append_option str s)"
  by (auto simp: setup_ok_def append_option_def snprintf_def)

lemma sint_nonneg_unat: "0 \<le> sint (n :: u32) \<Longrightarrow> unat n < 2 ^ 31"
proof (rule ccontr)
  assume s: "0 \<le> sint n" and "\<not> unat n < 2 ^ 31"
  then have "2147483648 \<le> unat n" by simp
  moreover have "uint n = int (unat n)" by simp
  ultimately have "2147483648 \<le> uint n" by linarith
  moreover have "uint n < 2 ^ 32" using unsigned_less [of n, where 'a = int] by simp
  ultimately have "uint n div 2147483648 = 1" by simp
  then have "bit (uint n) 31" by (simp add: bit_iff_odd del: uint_nat)
  then show False using s by (simp add: sint_uint)
qed

lemma server_option_ok:
  assumes "server_option opt (s, d) = Inr (s', d')" and "setup_ok s"
  shows "setup_ok s'"
proof (cases opt)
  case (Sopt_N n)
  then show ?thesis
    using assms sint_nonneg_unat [of "the n"] by (auto simp: server_option_def setup_ok_def split: option.splits if_splits)
next
  case (Sopt_o n)
  then show ?thesis
    using assms sint_nonneg_unat [of "the n"] by (auto simp: server_option_def setup_ok_def split: option.splits if_splits)
next
  case (Sopt_f v arg)
  then show ?thesis
    using assms by (auto simp: server_option_def split: option.splits intro!: append_option_ok) (auto simp: setup_ok_def)
next
  case Sopt_s
  then show ?thesis
    using assms by (auto simp: server_option_def intro!: append_option_ok) (auto simp: setup_ok_def)
next
  case (Sopt_T arg)
  then show ?thesis using assms by (auto simp: server_option_def intro!: append_option_ok)
next
  case (Sopt_m arg)
  then show ?thesis using assms by (auto simp: server_option_def intro!: append_option_ok)
next
  case (Sopt_L a)
  then show ?thesis using assms by (auto simp: server_option_def setup_ok_def read_ip_length split: option.splits)
next
  case (Sopt_R a)
  then show ?thesis using assms by (auto simp: server_option_def setup_ok_def read_ip_length split: option.splits)
qed (use assms in \<open>auto simp: server_option_def setup_ok_def\<close>)

lemma server_options_ok:
  assumes "server_options opts sd = Inr sd'" and "setup_ok (fst sd)"
  shows "setup_ok (fst sd')"
  using assms
proof (induction opts arbitrary: sd)
  case (Cons opt opts)
  then obtain sd1 where o: "server_option opt sd = Inr sd1" "server_options opts sd1 = Inr sd'" by (auto split: sum.splits)
  have "setup_ok (fst sd1)" by (rule server_option_ok [of opt "fst sd" "snd sd" _ "snd sd1"]) (use o(1) Cons.prems(2) in auto)
  then show ?case using Cons.IH o(2) by blast
qed simp

lemma ucast_number:
  assumes "i + 1 + unat off \<le> 65534"
  shows "ucast (of_nat i + 1 + off :: u32) = (of_nat (i + 1 + unat off) :: u16)"
proof -
  have "of_nat i + 1 + off = (of_nat (i + 1 + unat off) :: u32)" by (simp del: of_nat_unat) (simp)
  moreover have "take_bit 32 (i + 1 + unat off) = i + 1 + unat off" using assms by (simp add: take_bit_nat_eq_self)
  ultimately show ?thesis by (simp add: unsigned_of_nat del: of_nat_add of_nat_Suc)
qed

text \<open>The slots as they are filled from the \<^verbatim>\<open>i\<close>-th on.\<close>

lemma fill_sessions_keeps:
  "\<exists>ss ip. fill_sessions k i s = s\<lparr>Sessions := ss, RemoteIP := ip\<rparr> \<and> length ss = length (Sessions s)"
proof (induction k arbitrary: i s)
  case (Suc k)
  obtain ss ip where "fill_sessions (Suc k) i s = (s\<lparr>Sessions := (Sessions s)[i := (Sessions s ! i)\<lparr>cs_pid := 0, cs_ip := RemoteIP s,
            cs_sess := htons (ucast (of_nat i + 1 + SessOffset s :: u32))\<rparr>],
          RemoteIP := next_ip (RemoteIP s)\<rparr>)\<lparr>Sessions := ss, RemoteIP := ip\<rparr>" "length ss = length (Sessions s)"
    using Suc.IH [of "i + 1" "s\<lparr>Sessions := (Sessions s)[i := (Sessions s ! i)\<lparr>cs_pid := 0, cs_ip := RemoteIP s,
            cs_sess := htons (ucast (of_nat i + 1 + SessOffset s :: u32))\<rparr>],
          RemoteIP := next_ip (RemoteIP s)\<rparr>"] by auto
  then show ?case by auto
next
  case 0
  show ?case by (rule exI [of _ "Sessions s"], rule exI [of _ "RemoteIP s"]) simp
qed

lemma fill_sessions_nth:
  "i + k = length (Sessions s) \<Longrightarrow> j < length (Sessions s) \<Longrightarrow>
   Sessions (fill_sessions k i s) ! j =
     (if j < i then Sessions s ! j
      else (Sessions s ! j)\<lparr>cs_pid := 0, cs_ip := (next_ip ^^ (j - i)) (RemoteIP s),
             cs_sess := htons (ucast (of_nat j + 1 + SessOffset s :: u32))\<rparr>)"
proof (induction k arbitrary: i s)
  case (Suc k)
  let ?s = "s\<lparr>Sessions := (Sessions s)[i := (Sessions s ! i)\<lparr>cs_pid := 0, cs_ip := RemoteIP s,
            cs_sess := htons (ucast (of_nat i + 1 + SessOffset s :: u32))\<rparr>],
          RemoteIP := next_ip (RemoteIP s)\<rparr>"
  have "Sessions (fill_sessions k (i + 1) ?s) ! j =
     (if j < i + 1 then Sessions ?s ! j
      else (Sessions ?s ! j)\<lparr>cs_pid := 0, cs_ip := (next_ip ^^ (j - (i + 1))) (RemoteIP ?s),
             cs_sess := htons (ucast (of_nat j + 1 + SessOffset ?s :: u32))\<rparr>)"
    by (rule Suc.IH) (use Suc.prems in auto)
  moreover have "(next_ip ^^ (j - (i + 1))) (next_ip (RemoteIP s)) = (next_ip ^^ (j - i)) (RemoteIP s)" if "i < j"
  proof -
    have "j - i = Suc (j - (i + 1))" using that by simp
    then show ?thesis by (simp add: funpow_swap1)
  qed
  moreover have "fill_sessions (Suc k) i s = fill_sessions k (i + 1) ?s" by simp
  ultimately show ?case using Suc.prems by (cases "j = i") (auto simp: nth_list_update simp del: fill_sessions.simps)
qed simp

lemma length_next_ip [simp]: "length (next_ip ip) = length ip"
  by (simp add: next_ip_def Let_def)

lemma length_next_ips [simp]: "length ((next_ip ^^ n) ip) = length ip"
  by (induction n) simp_all

text \<open>The state in which the main loop starts.\<close>

definition fresh_server :: "server \<Rightarrow> byte list \<Rightarrow> bool" where
  "fresh_server s ip \<longleftrightarrow> server_ok s \<and> \<not> ReapPending s \<and>
     (\<forall>i<length (Sessions s). cs_pid (Sessions s ! i) = 0 \<and> cs_ip (Sessions s ! i) = (next_ip ^^ i) ip)"

lemma cookie_seed_length: "length old = 16 \<Longrightarrow> (case urandom of None \<Rightarrow> True | Some bs \<Rightarrow> length bs \<le> 16) \<Longrightarrow> length (cookie_seed urandom pid rnd old) = 16"
  by (auto simp: cookie_seed_def split: option.splits)

lemma server_main_fresh:
  assumes "server_main hostname mem forked urandom pid rnd opts = Inr s" and "case urandom of None \<Rightarrow> True | Some bs \<Rightarrow> length bs \<le> 16"
  obtains s0 d where "server_options opts (server_globals, True) = Inr (s0, d)" and "length (RemoteIP s0) = 4"
    and "fresh_server s (RemoteIP s0)" and "ACName s = (case ACName s0 of None \<Rightarrow> hostname | x \<Rightarrow> x)"
    and "NumSessionSlots s = NumSessionSlots s0" and "SessOffset s = SessOffset s0"
proof -
  obtain s0 d where o: "server_options opts (server_globals, True) = Inr (s0, d)"
    using assms(1) by (auto simp: server_main_def split: sum.splits)
  have "setup_ok server_globals" by (simp add: setup_ok_def server_globals_def)
  then have k: "setup_ok s0" using server_options_ok [OF o] by simp
  define name where "name = (case ACName s0 of None \<Rightarrow> hostname | x \<Rightarrow> x)"
  define s1 where "s1 = (if IfName s0 = None then s0\<lparr>IfName := Some ''eth0''\<rparr> else s0)\<lparr>ACName := name\<rparr>"
  define s2 where "s2 = s1\<lparr>Sessions := replicate (unat (NumSessionSlots s1)) \<lparr>cs_pid = 0, cs_ip = replicate 4 0, cs_sess = 0, cs_eth = replicate 6 0\<rparr>\<rparr>"
  define s3 where "s3 = fill_sessions (unat (NumSessionSlots s2)) 0 s2"
  have m: "NumSessionSlots s1 + SessOffset s1 \<le> 65534" "s = s3\<lparr>CookieSeed := cookie_seed urandom pid rnd (CookieSeed s3)\<rparr>" "name \<noteq> None"
    using assms(1) o unfolding s3_def s2_def s1_def name_def
    by (auto simp: server_main_def Let_def linorder_not_less split: if_splits option.splits)
  have f: "NumSessionSlots s2 = NumSessionSlots s0" "SessOffset s2 = SessOffset s0" "RemoteIP s2 = RemoteIP s0" "CookieSeed s2 = CookieSeed s0"
    "srv_relayId s2 = srv_relayId s0" "hostUniq s2 = hostUniq s0" "receivedCookie s2 = receivedCookie s0" "requestedService s2 = requestedService s0"
    "IfName s2 \<noteq> None" "ACName s2 = name" "LocalIP s2 = LocalIP s0" "PppoeOptions s2 = PppoeOptions s0" "ReapPending s2 = ReapPending s0"
    "length (Sessions s2) = unat (NumSessionSlots s0)" "NumSessionSlots s1 = NumSessionSlots s0" "SessOffset s1 = SessOffset s0"
    by (auto simp: s2_def s1_def)
  obtain ss ip where r: "s3 = s2\<lparr>Sessions := ss, RemoteIP := ip\<rparr>" "length ss = unat (NumSessionSlots s0)"
    using fill_sessions_keeps [of "unat (NumSessionSlots s2)" 0 s2] f(14) unfolding s3_def by auto
  have n: "unat (NumSessionSlots s0) + unat (SessOffset s0) \<le> 65534"
  proof -
    have "unat (NumSessionSlots s0 + SessOffset s0) = unat (NumSessionSlots s0) + unat (SessOffset s0)"
      using k by (intro unat_add_lem [THEN iffD1]) (simp add: setup_ok_def)
    moreover have "unat (NumSessionSlots s0 + SessOffset s0) \<le> 65534" using m(1) f(15,16) by (simp add: word_le_nat_alt)
    ultimately show ?thesis by simp
  qed
  have z: "Sessions s2 ! i = \<lparr>cs_pid = 0, cs_ip = replicate 4 0, cs_sess = 0, cs_eth = replicate 6 0\<rparr>" if "i < unat (NumSessionSlots s0)" for i
    using that f(14) by (simp add: s2_def)
  have c: "Sessions s ! i = \<lparr>cs_pid = 0, cs_ip = (next_ip ^^ i) (RemoteIP s0), cs_sess = htons (of_nat (i + 1 + unat (SessOffset s0))), cs_eth = replicate 6 0\<rparr>"
    if "i < unat (NumSessionSlots s0)" for i
  proof -
    have "Sessions s3 ! i = (Sessions s2 ! i)\<lparr>cs_pid := 0, cs_ip := (next_ip ^^ i) (RemoteIP s2), cs_sess := htons (ucast (of_nat i + 1 + SessOffset s2 :: u32))\<rparr>"
      unfolding s3_def using fill_sessions_nth [of 0 "unat (NumSessionSlots s2)" s2 i] that f by simp
    moreover have "ucast (of_nat i + 1 + SessOffset s0 :: u32) = (of_nat (i + 1 + unat (SessOffset s0)) :: u16)"
      by (rule ucast_number) (use that n in simp)
    ultimately show ?thesis using z [OF that] f by (simp add: m(2) del: of_nat_add of_nat_Suc)
  qed
  have t: "table_ok s"
    using r n c f k by (auto simp: table_ok_def m(2) setup_ok_def simp del: of_nat_add of_nat_Suc)
  have "server_ok s"
    using t r f k m(3) cookie_seed_length [OF _ assms(2), of "CookieSeed s0" pid rnd] by (simp add: server_ok_def m(2) setup_ok_def)
  moreover have "\<not> ReapPending s" using r f k by (simp add: m(2) setup_ok_def)
  ultimately have "fresh_server s (RemoteIP s0)" using c r by (simp add: fresh_server_def) (simp add: m(2))
  moreover have "length (RemoteIP s0) = 4" using k by (simp add: setup_ok_def)
  ultimately show thesis
    using that o r f by (simp add: m(2) name_def)
qed

section \<open>The main loop with its signals\<close>

text \<open>
  The main loop in the steps between which a SIGCHLD can be delivered: \<^verbatim>\<open>select\<close>, reading the pipe,
  testing and clearing \<^verbatim>\<open>ReapPending\<close>, one \<^verbatim>\<open>waitpid\<close> after the other, and the packet. The flags
  tell whether \<^verbatim>\<open>select\<close> found the pipe and the socket readable. The rest of the state is what the kernel
  keeps: the bytes in the pipe, the children that run, those that have ended and not been waited for, and
  a pending SIGCHLD, of which there is at most one.
\<close>

datatype loop_pc = AtSelect | Selected bool bool | Check bool | Reaping bool | Receive bool

record machine =
  m_server :: server
  m_pc :: loop_pc
  m_pipe :: nat
  m_live :: "int set"
  m_zombies :: "int set"
  m_signal :: bool

record server_env =
  e_paths :: server_paths
  e_pid :: u32
  e_sock :: int
  e_my :: "byte list"

definition new_children :: "server_action list \<Rightarrow> int set" where
  "new_children acts = {c. Fork c \<in> set acts}"

inductive server_step :: "server_env \<Rightarrow> machine \<Rightarrow> server_action list \<Rightarrow> machine \<Rightarrow> bool" for E where
  child_exits: "c \<in> m_live m \<Longrightarrow>
    server_step E m [] (m\<lparr>m_live := m_live m - {c}, m_zombies := insert c (m_zombies m), m_signal := True\<rparr>)"
| sigchld: "m_signal m \<Longrightarrow> childHandler (m_server m) = (s, acts) \<Longrightarrow>
    server_step E m acts (m\<lparr>m_signal := False, m_server := s, m_pipe := m_pipe m + length acts\<rparr>)"
| select: "m_pc m = AtSelect \<Longrightarrow> 0 < m_pipe m \<or> sock_ready \<Longrightarrow>
    server_step E m [] (m\<lparr>m_pc := Selected (0 < m_pipe m) sock_ready\<rparr>)"
| clear_pipe: "m_pc m = Selected pipe_ready sock_ready \<Longrightarrow>
    server_step E m [] (m\<lparr>m_pc := Check sock_ready, m_pipe := (if pipe_ready then m_pipe m - min (m_pipe m) SMALLBUF else m_pipe m)\<rparr>)"
| check_pending: "m_pc m = Check sock_ready \<Longrightarrow> ReapPending (m_server m) \<Longrightarrow>
    server_step E m [] (m\<lparr>m_pc := Reaping sock_ready, m_server := (m_server m)\<lparr>ReapPending := False\<rparr>\<rparr>)"
| check_none: "m_pc m = Check sock_ready \<Longrightarrow> \<not> ReapPending (m_server m) \<Longrightarrow> server_step E m [] (m\<lparr>m_pc := Receive sock_ready\<rparr>)"
| reap: "m_pc m = Reaping sock_ready \<Longrightarrow> c \<in> m_zombies m \<Longrightarrow> reap_child c (m_server m) = Some (s, acts) \<Longrightarrow>
    server_step E m acts (m\<lparr>m_server := s, m_zombies := m_zombies m - {c}\<rparr>)"
| reap_done: "m_pc m = Reaping sock_ready \<Longrightarrow> m_zombies m = {} \<Longrightarrow> server_step E m [] (m\<lparr>m_pc := Receive sock_ready\<rparr>)"
| receive_none: "m_pc m = Receive False \<Longrightarrow> server_step E m [] (m\<lparr>m_pc := AtSelect\<rparr>)"
| receive: "m_pc m = Receive True \<Longrightarrow> wf_packet u \<Longrightarrow> wf_packet ue \<Longrightarrow> wf_packet pk \<Longrightarrow> length (md_in ctx) = 64 \<Longrightarrow>
    child \<noteq> 0 \<Longrightarrow> child \<notin> m_live m \<union> m_zombies m \<Longrightarrow>
    server_packet (e_paths E) dup_ok ctx u ue (e_pid E) (e_sock E) (e_my E) child pk ev (m_server m) = Some (s, acts, True) \<Longrightarrow>
    server_step E m acts (m\<lparr>m_server := s, m_pc := AtSelect, m_live := m_live m \<union> new_children acts\<rparr>)"

inductive_cases server_step_cases: "server_step E m acts m'"

definition start_machine :: "server \<Rightarrow> machine" where
  "start_machine s = \<lparr>m_server = s, m_pc = AtSelect, m_pipe = 0, m_live = {}, m_zombies = {}, m_signal = False\<rparr>"

inductive server_reach :: "server_env \<Rightarrow> machine \<Rightarrow> bool" for E where
  start: "server_main hostname mem forked urandom (e_pid E) rnd opts = Inr s \<Longrightarrow>
    (case urandom of None \<Rightarrow> True | Some bs \<Rightarrow> length bs \<le> 16) \<Longrightarrow> server_reach E (start_machine s)"
| step: "server_reach E m \<Longrightarrow> server_step E m acts m' \<Longrightarrow> server_reach E m'"

text \<open>The slots are in use by exactly the children, each by one.\<close>

definition pids :: "server \<Rightarrow> int list" where
  "pids s = map cs_pid (Sessions s)"

definition pids_ok :: "int list \<Rightarrow> int set \<Rightarrow> bool" where
  "pids_ok l ps \<longleftrightarrow> set l - {0} = ps \<and> distinct (filter (\<lambda>p. p \<noteq> 0) l)"

text \<open>How many bytes the pipe can hold: at most two, so that the handler never blocks.\<close>

fun pipe_bound :: "loop_pc \<Rightarrow> bool \<Rightarrow> nat" where
  "pipe_bound AtSelect pending = (if pending then 2 else 1)"
| "pipe_bound (Selected pipe_ready sock_ready) pending = (if pending then 1 else 0) + (if pipe_ready then 1 else 0)"
| "pipe_bound (Check sock_ready) pending = (if pending then 1 else 0)"
| "pipe_bound (Reaping sock_ready) pending = (if pending then 2 else 1)"
| "pipe_bound (Receive sock_ready) pending = (if pending then 2 else 1)"

lemma pipe_bound_pending: "pipe_bound pc True = pipe_bound pc False + 1"
  by (cases pc) auto

definition wake_ok :: "machine \<Rightarrow> bool" where
  "wake_ok m \<longleftrightarrow> (m_zombies m \<noteq> {} \<longrightarrow> m_signal m \<or> ReapPending (m_server m) \<or> (\<exists>sr. m_pc m = Reaping sr)) \<and>
     (ReapPending (m_server m) \<longrightarrow> 0 < m_pipe m \<or> (\<exists>sr. m_pc m = Check sr)) \<and>
     m_pipe m \<le> pipe_bound (m_pc m) (ReapPending (m_server m))"

definition machine_ok :: "machine \<Rightarrow> bool" where
  "machine_ok m \<longleftrightarrow> server_ok (m_server m) \<and> pids_ok (pids (m_server m)) (m_live m \<union> m_zombies m) \<and> m_live m \<inter> m_zombies m = {} \<and> wake_ok m"

subsection \<open>What the operations keep\<close>

lemma pids_simps [simp]:
  "pids (with_regs r s) = pids s"
  "pids (set_eth i e s) = pids s"
  "i < length (Sessions s) \<Longrightarrow> pids (set_pid i c s) = (pids s)[i := c]"
  "pids (s\<lparr>ReapPending := b\<rparr>) = pids s"
proof -
  show "pids (set_eth i e s) = pids s"
  proof (cases "i < length (Sessions s)")
    case True
    then show ?thesis by (intro nth_equalityI) (auto simp: pids_def set_eth_def nth_list_update)
  qed (simp add: pids_def set_eth_def list_update_beyond)
qed (simp_all add: pids_def set_pid_def map_update)

lemma update_split:
  assumes "i < length l"
  obtains xs ys where "l = xs @ l ! i # ys" and "\<And>c. l[i := c] = xs @ c # ys"
  using that [of "take i l" "drop (Suc i) l"] id_take_nth_drop [OF assms] upd_conv_take_nth_drop [OF assms] by metis

lemma pids_claim:
  assumes "pids_ok l ps" and "i < length l" and "l ! i = 0" and "c \<notin> ps" and "c \<noteq> 0"
  shows "pids_ok (l[i := c]) (insert c ps)"
proof -
  obtain xs ys where l: "l = xs @ 0 # ys" "\<And>c. l[i := c] = xs @ c # ys" using update_split [OF assms(2)] assms(3) by metis
  show ?thesis using assms(1,4,5) unfolding l(2) by (auto simp: pids_ok_def l(1))
qed

lemma pids_release:
  assumes "pids_ok l ps" and "i < length l" and "l ! i = c" and "c \<noteq> 0"
  shows "pids_ok (l[i := 0]) (ps - {c})"
proof -
  obtain xs ys where l: "l = xs @ c # ys" "\<And>c. l[i := c] = xs @ c # ys" using update_split [OF assms(2)] assms(3) by metis
  show ?thesis using assms(1,4) unfolding l(2) by (auto simp: pids_ok_def l(1))
qed

lemma server_ok_cong:
  assumes "server_ok s" and "table_ok t" and "reg_ok (srv_relayId t)" and "reg_ok (hostUniq t)" and "reg_ok (receivedCookie t)"
    and "reg_ok (requestedService t)" and "CookieSeed t = CookieSeed s" and "IfName t = IfName s" and "ACName t = ACName s"
    and "LocalIP t = LocalIP s" and "PppoeOptions t = PppoeOptions s"
  shows "server_ok t"
  using assms by (simp add: server_ok_def)

lemma table_ok_fields:
  "table_ok (with_regs r s) = table_ok s" "table_ok (s\<lparr>ReapPending := b\<rparr>) = table_ok s"
  by (simp_all add: table_ok_def)

lemma set_fields [simp]:
  "srv_relayId (set_pid i c s) = srv_relayId s" "hostUniq (set_pid i c s) = hostUniq s"
  "receivedCookie (set_pid i c s) = receivedCookie s" "requestedService (set_pid i c s) = requestedService s"
  "CookieSeed (set_pid i c s) = CookieSeed s" "IfName (set_pid i c s) = IfName s" "ACName (set_pid i c s) = ACName s"
  "LocalIP (set_pid i c s) = LocalIP s" "PppoeOptions (set_pid i c s) = PppoeOptions s" "ReapPending (set_pid i c s) = ReapPending s"
  "srv_relayId (set_eth i e s) = srv_relayId s" "hostUniq (set_eth i e s) = hostUniq s"
  "receivedCookie (set_eth i e s) = receivedCookie s" "requestedService (set_eth i e s) = requestedService s"
  "CookieSeed (set_eth i e s) = CookieSeed s" "IfName (set_eth i e s) = IfName s" "ACName (set_eth i e s) = ACName s"
  "LocalIP (set_eth i e s) = LocalIP s" "PppoeOptions (set_eth i e s) = PppoeOptions s" "ReapPending (set_eth i e s) = ReapPending s"
  "length (Sessions (set_eth i e s)) = length (Sessions s)" "LocalIP (with_regs r s) = LocalIP s" "PppoeOptions (with_regs r s) = PppoeOptions s"
  by (simp_all add: set_pid_def set_eth_def with_regs_def)

lemma set_pid_server_ok:
  "server_ok s \<Longrightarrow> i < length (Sessions s) \<Longrightarrow> 0 \<le> c \<Longrightarrow> server_ok (set_pid i c s)"
  by (rule server_ok_cong [of s]) (auto simp: server_ok_def intro: set_pid_ok)

lemma set_eth_server_ok:
  "server_ok s \<Longrightarrow> i < length (Sessions s) \<Longrightarrow> length e = 6 \<Longrightarrow> server_ok (set_eth i e s)"
  by (rule server_ok_cong [of s]) (auto simp: server_ok_def intro: set_eth_ok)

lemma with_regs_server_ok:
  "server_ok s \<Longrightarrow> reg_ok (srv_relayId r) \<Longrightarrow> reg_ok (hostUniq r) \<Longrightarrow> reg_ok (receivedCookie r) \<Longrightarrow> reg_ok (requestedService r) \<Longrightarrow>
   server_ok (with_regs r s)"
  by (rule server_ok_cong [of s]) (auto simp: server_ok_def table_ok_fields)

text \<open>How a packet changes the table in the parent: not at all, or by one new child in a free slot.\<close>

lemma padr_spec_keeps:
  assumes "server_ok s" and "server_ok t" and "t = with_regs r s" and "wf_packet p" and "child \<noteq> 0"
    and "padr_spec paths dup_ok pid sock my child p s t = Some (s', acts, True)"
  shows "server_ok s' \<and> ReapPending s' = ReapPending s \<and>
    (pids s' = pids s \<and> new_children acts = {} \<or>
     (\<exists>i < length (pids s). 0 < child \<and> pids s ! i = 0 \<and> pids s' = (pids s)[i := child] \<and> new_children acts = {child}))"
proof -
  have e: "length (h_source p) = 6" using assms(4) by (simp add: wf_packet_def)
  have t: "pids t = pids s" "ReapPending t = ReapPending s" "Sessions t = Sessions s" by (simp_all add: assms(3))
  have ref: "s' = q \<and> new_children acts = {}" if "refusal sock my p tag msg logs q = Some (s', acts, True)" for tag msg logs q
    using that by (auto simp: refusal_def new_children_def Let_def split: if_splits)
  show ?thesis
  proof (cases "padr_check pid my p s")
    case (Accept i)
    then have "slot_of 0 s = Some i" by (auto simp: padr_check_def Let_def split: if_splits option.splits)
    then have i: "i < length (Sessions t)" "cs_pid (Sessions t ! i) = 0" using slot_of_Some t(3) by auto
    let ?q = "set_eth i (h_source p) t"
    have q: "server_ok ?q" by (rule set_eth_server_ok [OF assms(2) i(1) e])
    show ?thesis
    proof (cases "child < 0")
      case True
      then have "s' = ?q \<and> new_children acts = {}" using assms(6) Accept ref by (simp add: padr_spec_def)
      then show ?thesis using q t by simp
    next
      case False
      then have "s' = set_pid i child ?q" "acts = [Fork child]" using assms(5,6) Accept by (auto simp: padr_spec_def)
      moreover have "server_ok (set_pid i child ?q)" by (rule set_pid_server_ok [OF q]) (use i False in simp_all)
      moreover have "i < length (pids s)" "pids s ! i = 0" using i t by (simp_all add: pids_def)
      moreover have "pids (set_pid i child ?q) = (pids s)[i := child]" using i t by simp
      ultimately show ?thesis using t False assms(5) by (auto simp: new_children_def intro!: exI [of _ i])
    qed
  next
    case (Ignore logs)
    then have "s' = t" "new_children acts = {}" using assms(6) by (auto simp: padr_spec_def new_children_def)
    then show ?thesis using assms(2) t by simp
  next
    case (Refuse tag msg logs)
    then have "s' = t \<and> new_children acts = {}" using assms(6) ref by (simp add: padr_spec_def)
    then show ?thesis using assms(2) t by simp
  qed
qed

lemma server_packet_keeps:
  assumes s: "server_ok s" and u: "wf_packet u" "wf_packet ue" "wf_packet pk" "length my = 6" "length (md_in ctx) = 64" and c: "child \<noteq> 0"
    and r: "server_packet paths dup_ok ctx u ue pid sock my child pk ev s = Some (s', acts, True)"
  shows "server_ok s' \<and> ReapPending s' = ReapPending s \<and>
    (pids s' = pids s \<and> new_children acts = {} \<or>
     (\<exists>i < length (pids s). 0 < child \<and> pids s ! i = 0 \<and> pids s' = (pids s)[i := child] \<and> new_children acts = {child}))"
proof (cases ev)
  case (Frame f)
  obtain p len where p: "receivePacket pk f = (p, len)" by fastforce
  have w: "wf_packet p" by (rule receivePacket_wf(1) [OF u(3) p])
  have t: "table_ok s" using s by (simp add: server_ok_def)
  let ?live = "\<not> bogus_length p len \<and> pver p = 1 \<and> ptype p = 1"
  consider (i) "?live" "code p = CODE_PADI" | (r) "?live" "code p = CODE_PADR" | (t) "?live" "code p = CODE_PADT"
    | (n) "\<not> ?live \<or> code p \<noteq> CODE_PADI \<and> code p \<noteq> CODE_PADR \<and> code p \<noteq> CODE_PADT" by blast
  then show ?thesis
  proof cases
    case i
    then have o: "processPADI ctx u pid sock my p s = Some (s', acts)" using r by (auto simp: server_packet_def Frame p)
    show ?thesis
    proof (cases "NOT_UNICAST (h_source p)")
      case True
      then show ?thesis using o s by (auto simp: processPADI_def new_children_def)
    next
      case False
      obtain name where name: "ACName s = Some name" using s by (auto simp: server_ok_def)
      have len: "length name \<le> 1500" using o False name by (cases "1500 < length name") (auto simp: processPADI_def Let_def)
      obtain q where "padi_regs (snd (packet_tags p)) q" "s' = with_regs q s" "new_children acts = {}"
        using processPADI_eq [OF s u(1) w u(4,5) name len False, of pid sock] o by (auto simp: new_children_def split: if_splits)
      then show ?thesis using s by (auto simp: padi_regs_def intro!: with_regs_server_ok dest: reg_is_ok)
    qed
  next
    case r': r
    then have o: "processPADR paths dup_ok ctx u ue pid sock my child p s = Some (s', acts, True)" using r by (auto simp: server_packet_def Frame p)
    obtain q where q: "reg_ok (srv_relayId q)" "reg_ok (hostUniq q)" "reg_ok (receivedCookie q)" "reg_ok (requestedService q)"
      "padr_spec paths dup_ok pid sock my child p s (with_regs q s) = Some (s', acts, True)"
      using processPADR_eq [OF s u(1,2) w u(4,5), of paths dup_ok pid sock child] o by auto
    show ?thesis by (rule padr_spec_keeps [OF s with_regs_server_ok [OF s q(1-4)] refl w c q(5)])
  next
    case t': t
    then have "processPADT my p s = Some (s', acts)" using r by (auto simp: server_packet_def Frame p)
    then have "s' = s" "new_children acts = {}"
      using processPADT_eq [OF t w, of my] by (auto simp: new_children_def split: if_splits option.splits)
    then show ?thesis using s by simp
  next
    case n
    then have "s' = s" "new_children acts = {}" using r by (auto simp: server_packet_def Frame p new_children_def split: if_splits)
    then show ?thesis using s by simp
  qed
qed (use r s in \<open>auto simp: server_packet_def new_children_def\<close>)

lemma server_ok_reap [simp]: "server_ok (s\<lparr>ReapPending := b\<rparr>) = server_ok s"
  by (simp add: server_ok_def table_ok_def)

lemma childHandler_eq:
  "childHandler s = (s\<lparr>ReapPending := True\<rparr>, if ReapPending s then [] else [PipeWrite])"
  by (simp add: childHandler_def)

text \<open>A child that \<^verbatim>\<open>waitpid\<close> returns is found in the table.\<close>

lemma reap_found:
  assumes "server_ok s" and "pids_ok (pids s) ps" and "c \<in> ps"
  obtains i where "i < length (Sessions s)" and "reap_child c s = Some (set_pid i 0 s, [])"
    and "server_ok (set_pid i 0 s)" and "pids_ok (pids (set_pid i 0 s)) (ps - {c})"
proof -
  have t: "table_ok s" using assms(1) by (simp add: server_ok_def)
  have c: "c \<in> cs_pid ` set (Sessions s)" "c \<noteq> 0" using assms(2,3) by (auto simp: pids_ok_def pids_def)
  then obtain i where i: "slot_of c s = Some i" using slot_of_None [of c s] by (cases "slot_of c s") auto
  note ix = slot_of_Some [OF i]
  have "pids_ok ((pids s)[i := 0]) (ps - {c})" by (rule pids_release [OF assms(2)]) (use ix c in \<open>auto simp: pids_def\<close>)
  then show thesis
    using that [of i] ix reap_child_eq [OF t, of c] i set_pid_server_ok [OF assms(1), of i 0] by simp
qed

lemmas machine_ok_simps = machine_ok_def wake_ok_def

lemma server_step_ok:
  assumes "server_step E m acts m'" and "machine_ok m" and "length (e_my E) = 6"
  shows "machine_ok m' \<and> (case m_pc m of Reaping _ \<Rightarrow> Syslog ''Child died but couldn't find session!'' \<notin> set acts | _ \<Rightarrow> True)"
  using assms
proof (cases rule: server_step.cases)
  case (child_exits c)
  have u: "m_live m - {c} \<union> insert c (m_zombies m) = m_live m \<union> m_zombies m" using child_exits(3) by auto
  have k: "server_ok (m_server m)" "pids_ok (pids (m_server m)) (m_live m \<union> m_zombies m)" "m_live m \<inter> m_zombies m = {}" "wake_ok m"
    using assms(2) by (auto simp: machine_ok_def)
  have w: "wake_ok m'" using k(4) by (simp add: wake_ok_def child_exits(2))
  have "(m_live m - {c}) \<inter> insert c (m_zombies m) = {}" using k(3) by auto
  moreover have proj: "m_server m' = m_server m" "m_live m' = m_live m - {c}" "m_zombies m' = insert c (m_zombies m)"
    by (simp_all add: child_exits(2))
  ultimately have "machine_ok m'" using k(1,2) w unfolding machine_ok_def proj u by blast
  then show ?thesis by (simp add: child_exits(1) split: loop_pc.split)
next
  case (sigchld s)
  then show ?thesis
    using assms(2) by (auto simp: machine_ok_simps childHandler_eq pipe_bound_pending split: loop_pc.split if_splits)
next
  case (select sr)
  then show ?thesis
    using assms(2) by (auto simp: machine_ok_simps split: bool.splits)
next
  case (clear_pipe pr sr)
  then show ?thesis
    using assms(2) by (auto simp: machine_ok_simps split: bool.splits if_splits)
next
  case (check_pending sr)
  then show ?thesis
    using assms(2) by (auto simp: machine_ok_simps)
next
  case (check_none sr)
  then show ?thesis
    using assms(2) by (auto simp: machine_ok_simps)
next
  case (reap sr c s)
  let ?ps = "m_live m \<union> m_zombies m"
  have k: "server_ok (m_server m)" "pids_ok (pids (m_server m)) ?ps" "c \<in> ?ps" "m_live m \<inter> m_zombies m = {}"
    using assms(2) reap by (auto simp: machine_ok_def)
  obtain i where i: "reap_child c (m_server m) = Some (set_pid i 0 (m_server m), [])" "server_ok (set_pid i 0 (m_server m))"
    "pids_ok (pids (set_pid i 0 (m_server m))) (?ps - {c})"
    using reap_found [OF k(1-3)] by metis
  have a: "acts = []" "s = set_pid i 0 (m_server m)" using reap(4) i(1) by simp_all
  have proj: "m_server m' = s" "m_live m' = m_live m" "m_zombies m' = m_zombies m - {c}"
    by (simp_all add: reap(1))
  have w: "wake_ok m'" using assms(2) by (simp add: machine_ok_simps reap(1,2) a(2))
  have "?ps - {c} = m_live m \<union> (m_zombies m - {c})" "m_live m \<inter> (m_zombies m - {c}) = {}" using k(4) reap(3) by blast+
  then have "machine_ok m'" using i(2,3) w unfolding machine_ok_def proj a(2) by simp
  then show ?thesis by (simp add: a(1) split: loop_pc.split)
next
  case (reap_done sr)
  then show ?thesis
    using assms(2) by (auto simp: machine_ok_simps)
next
  case receive_none
  then show ?thesis
    using assms(2) by (auto simp: machine_ok_simps)
next
  case (receive u ue pk ctx child dup_ok ev s)
  have k: "server_ok (m_server m)" "pids_ok (pids (m_server m)) (m_live m \<union> m_zombies m)" "m_live m \<inter> m_zombies m = {}" "wake_ok m"
    using assms(2) by (auto simp: machine_ok_def)
  note p = server_packet_keeps [OF k(1) receive(3-5) assms(3) receive(6,7,9)]
  have w: "wake_ok m'" using k(4) p receive(1,2) by (auto simp: wake_ok_def)
  have c: "pids_ok (pids s) (m_live m \<union> new_children acts \<union> m_zombies m) \<and> (m_live m \<union> new_children acts) \<inter> m_zombies m = {}"
  proof (cases "new_children acts = {}")
    case True
    then show ?thesis using p k by auto
  next
    case False
    then obtain i where i: "i < length (pids (m_server m))" "0 < child" "pids (m_server m) ! i = 0" "pids s = (pids (m_server m))[i := child]"
      "new_children acts = {child}" using p by auto
    have "pids_ok (pids s) (insert child (m_live m \<union> m_zombies m))"
      unfolding i(4) by (rule pids_claim [OF k(2) i(1,3) receive(8)]) (use i(2) in simp)
    then show ?thesis using i(5) receive(8) k(3) by auto
  qed
  show ?thesis using w c p receive(1,2) by (simp add: machine_ok_def)
qed

lemma start_machine_ok:
  assumes "fresh_server s ip"
  shows "machine_ok (start_machine s)"
proof -
  have "set (pids s) - {0} = {}" "filter (\<lambda>p. p \<noteq> 0) (pids s) = []"
    using assms by (auto simp: fresh_server_def pids_def in_set_conv_nth filter_empty_conv)
  then show ?thesis using assms by (simp add: machine_ok_simps start_machine_def fresh_server_def pids_ok_def)
qed

lemma server_reach_ok:
  assumes "server_reach E m" and "length (e_my E) = 6"
  shows "machine_ok m"
  using assms
proof (induction rule: server_reach.induct)
  case (start hostname mem forked urandom rnd opts s)
  show ?case by (rule server_main_fresh [OF start(1,2)]) (rule start_machine_ok)
next
  case (step m acts m')
  then show ?case using server_step_ok [OF step.hyps(2)] by blast
qed

subsection \<open>Reaping goes on\<close>

definition steps :: "server_env \<Rightarrow> machine \<Rightarrow> machine \<Rightarrow> bool" where
  "steps E = (\<lambda>m m'. \<exists>acts. server_step E m acts m')\<^sup>*\<^sup>*"

lemma steps_refl [simp]: "steps E m m"
  by (simp add: steps_def)

lemma steps_step: "server_step E m acts m1 \<Longrightarrow> steps E m1 m2 \<Longrightarrow> steps E m m2"
  unfolding steps_def by (rule converse_rtranclp_into_rtranclp) auto

lemma zombies_finite: "machine_ok m \<Longrightarrow> finite (m_zombies m)"
  by (auto simp: machine_ok_def pids_ok_def intro: finite_subset [of _ "set (pids (m_server m))"])

lemma reap_all:
  assumes "machine_ok m" and "m_pc m = Reaping sr" and "length (e_my E) = 6"
  shows "\<exists>m'. steps E m m' \<and> m_zombies m' = {} \<and> m_live m' = m_live m"
  using assms
proof (induction "card (m_zombies m)" arbitrary: m)
  case 0
  then show ?case using zombies_finite [of m] by (intro exI [of _ m]) simp
next
  case (Suc n)
  then obtain c where c: "c \<in> m_zombies m" by fastforce
  have k: "server_ok (m_server m)" "pids_ok (pids (m_server m)) (m_live m \<union> m_zombies m)"
    using Suc.prems(1) by (simp_all add: machine_ok_def)
  obtain i where i: "reap_child c (m_server m) = Some (set_pid i 0 (m_server m), [])"
    by (rule reap_found [OF k]) (use c in auto)
  let ?m = "m\<lparr>m_server := set_pid i 0 (m_server m), m_zombies := m_zombies m - {c}\<rparr>"
  have st: "server_step E m [] ?m" by (rule server_step.reap [OF Suc.prems(2) c i])
  have "card (m_zombies ?m) = n" using Suc.hyps(2) c zombies_finite [OF Suc.prems(1)] by simp
  then obtain m' where "steps E ?m m'" "m_zombies m' = {}" "m_live m' = m_live m"
    using Suc.hyps(1) [of ?m] server_step_ok [OF st Suc.prems(1,3)] Suc.prems(2,3) by auto
  then show ?case using steps_step [OF st] by blast
qed

lemma reap_from_check:
  assumes "machine_ok m" and "m_pc m = Check sr" and "ReapPending (m_server m)" and "length (e_my E) = 6"
  shows "\<exists>m'. steps E m m' \<and> m_zombies m' = {} \<and> m_live m' = m_live m"
proof -
  let ?m = "m\<lparr>m_pc := Reaping sr, m_server := (m_server m)\<lparr>ReapPending := False\<rparr>\<rparr>"
  have st: "server_step E m [] ?m" by (rule server_step.check_pending [OF assms(2,3)])
  obtain m' where "steps E ?m m'" "m_zombies m' = {}" "m_live m' = m_live m"
    using reap_all [of ?m sr E] server_step_ok [OF st assms(1,4)] assms(4) by auto
  then show ?thesis using steps_step [OF st] by blast
qed

lemma reap_from_selected:
  assumes "machine_ok m" and "m_pc m = Selected pr sr" and "ReapPending (m_server m)" and "length (e_my E) = 6"
  shows "\<exists>m'. steps E m m' \<and> m_zombies m' = {} \<and> m_live m' = m_live m"
proof -
  let ?m = "m\<lparr>m_pc := Check sr, m_pipe := (if pr then m_pipe m - min (m_pipe m) SMALLBUF else m_pipe m)\<rparr>"
  have st: "server_step E m [] ?m" by (rule server_step.clear_pipe [OF assms(2)])
  obtain m' where "steps E ?m m'" "m_zombies m' = {}" "m_live m' = m_live m"
    using reap_from_check [of ?m sr E] server_step_ok [OF st assms(1,4)] assms(3,4) by auto
  then show ?thesis using steps_step [OF st] by blast
qed

lemma reap_from_select:
  assumes "machine_ok m" and "m_pc m = AtSelect" and "ReapPending (m_server m)" and "length (e_my E) = 6"
  shows "\<exists>m'. steps E m m' \<and> m_zombies m' = {} \<and> m_live m' = m_live m"
proof -
  have "0 < m_pipe m" using assms(1-3) by (auto simp: machine_ok_def wake_ok_def)
  then have st: "server_step E m [] (m\<lparr>m_pc := Selected (0 < m_pipe m) False\<rparr>)"
    by (intro server_step.select [OF assms(2)]) simp
  obtain m' where "steps E (m\<lparr>m_pc := Selected (0 < m_pipe m) False\<rparr>) m'" "m_zombies m' = {}" "m_live m' = m_live m"
    using reap_from_selected [of "m\<lparr>m_pc := Selected (0 < m_pipe m) False\<rparr>" "0 < m_pipe m" False E] server_step_ok [OF st assms(1,4)] assms(3,4) by auto
  then show ?thesis using steps_step [OF st] by blast
qed

lemma reap_pending:
  assumes "machine_ok m" and "ReapPending (m_server m)" and "length (e_my E) = 6"
  shows "\<exists>m'. steps E m m' \<and> m_zombies m' = {} \<and> m_live m' = m_live m"
proof (cases "m_pc m")
  case (Receive sr)
  have st: "server_step E m [] (m\<lparr>m_pc := AtSelect\<rparr>)"
  proof (cases sr)
    case True
    obtain u where u: "wf_packet u" using wf_sample_padi by blast
    obtain ctx :: MD5Context where ctx: "length (md_in ctx) = 64" by (metis MD5Context.select_convs(4) length_replicate)
    have "finite (m_live m \<union> m_zombies m)"
      using assms(1) by (auto simp: machine_ok_def pids_ok_def intro: finite_subset [of _ "set (pids (m_server m))"])
    then obtain child :: int where child: "child \<notin> m_live m \<union> m_zombies m \<union> {0}"
      using ex_new_if_finite [of "m_live m \<union> m_zombies m \<union> {0}"] infinite_UNIV_int by auto
    have "server_step E m [] (m\<lparr>m_server := m_server m, m_pc := AtSelect, m_live := m_live m \<union> new_children []\<rparr>)"
      by (rule server_step.receive [of m u u u ctx child E True RecvFail])
        (use Receive True u ctx child in \<open>auto simp: server_packet_def\<close>)
    then show ?thesis by (simp add: new_children_def)
  next
    case False
    then show ?thesis using server_step.receive_none [of m E] Receive by simp
  qed
  obtain m' where "steps E (m\<lparr>m_pc := AtSelect\<rparr>) m'" "m_zombies m' = {}" "m_live m' = m_live m"
    using reap_from_select [of "m\<lparr>m_pc := AtSelect\<rparr>" E] server_step_ok [OF st assms(1,3)] assms(2,3) by auto
  then show ?thesis using steps_step [OF st] by blast
qed (use assms reap_all reap_from_check reap_from_selected reap_from_select in blast)+

lemma reap_eventually:
  assumes "machine_ok m" and "length (e_my E) = 6"
  shows "\<exists>m'. steps E m m' \<and> m_zombies m' = {} \<and> m_live m' = m_live m"
proof -
  consider "m_zombies m = {}" | "m_signal m" | "ReapPending (m_server m)" | sr where "m_pc m = Reaping sr"
    using assms(1) by (auto simp: machine_ok_def wake_ok_def)
  then show ?thesis
  proof cases
    case 1
    then show ?thesis by (intro exI [of _ m]) simp
  next
    case 2
    obtain s acts where h: "childHandler (m_server m) = (s, acts)" by fastforce
    let ?m = "m\<lparr>m_signal := False, m_server := s, m_pipe := m_pipe m + length acts\<rparr>"
    have st: "server_step E m acts ?m" by (rule server_step.sigchld [OF 2 h])
    have "ReapPending (m_server ?m)" using h by (auto simp: childHandler_eq)
    then obtain m' where "steps E ?m m'" "m_zombies m' = {}" "m_live m' = m_live m"
      using reap_pending [of ?m E] server_step_ok [OF st assms] assms(2) by auto
    then show ?thesis using steps_step [OF st] by blast
  next
    case 3
    then show ?thesis using reap_pending assms by blast
  next
    case 4
    then show ?thesis using reap_all assms by blast
  qed
qed

section \<open>The address pool\<close>

text \<open>The position of an address whose last byte is neither 0 nor 255 in the order of the pool.\<close>

definition ip_rank :: "byte list \<Rightarrow> nat" where
  "ip_rank ip = ((unat (ip ! 0) * 256 + unat (ip ! 1)) * 256 + unat (ip ! 2)) * 254 + (unat (ip ! 3) - 1)"

definition host_ip :: "byte list \<Rightarrow> bool" where
  "host_ip ip \<longleftrightarrow> length ip = 4 \<and> 1 \<le> unat (ip ! 3) \<and> unat (ip ! 3) \<le> 254"

lemma byte_less: "unat (b :: byte) < 256"
  using unsigned_less [of b, where 'a = nat] by simp

lemma byte_inc: "unat (b + 1 :: byte) = (if unat b = 255 then 0 else unat b + 1)" "(b + 1 = 0) = (unat b = 255)" "(b + 1 = 255) = (unat b = 254)"
proof -
  note l = byte_less [of b]
  show u: "unat (b + 1) = (if unat b = 255 then 0 else unat b + 1)"
    using l by (simp add: unat_word_ariths)
  show "(b + 1 = 0) = (unat b = 255)" using u by (metis unat_eq_0 nat.distinct(1) add_is_0 one_neq_zero)
  have "(b + 1 = 255) = (unat (b + 1) = unat (255 :: byte))" by (simp only: word_unat_eq_iff)
  then show "(b + 1 = 255) = (unat b = 254)" using u l by auto
qed

lemma next_ip_host:
  assumes "length ip = 4" and "1 \<le> unat (ip ! 3)" and "unat (ip ! 3) \<le> 254"
  shows "host_ip (next_ip ip)" and "ip_rank (next_ip ip) = (ip_rank ip + 1) mod 4261412864"
proof -
  obtain a b c d where ip: "ip = [a, b, c, d]" using assms(1) by (auto simp: length_Suc_conv numeral_eq_Suc)
  note r = byte_less [of a] byte_less [of b] byte_less [of c]
  have d: "1 \<le> unat d" "unat d \<le> 254" using assms by (simp_all add: ip)
  have d1: "unat (1 :: byte) = 1" by simp
  have n: "next_ip ip =
      (if unat d = 254 then if unat c = 255 then if unat b = 255 then [a + 1, b + 1, c + 1, 1] else [a, b + 1, c + 1, 1] else [a, b, c + 1, 1]
       else [a, b, c, d + 1])"
    using d by (simp add: ip next_ip_def Let_def byte_inc(2,3) numeral_3_eq_3 numeral_2_eq_2)
  show "host_ip (next_ip ip)" unfolding n host_ip_def using d byte_inc(1) [of d] by auto
  show "ip_rank (next_ip ip) = (ip_rank ip + 1) mod 4261412864"
    unfolding n using r d by (auto simp: ip_rank_def ip byte_inc(1))
qed

lemma rank_bound: "a < 256 \<Longrightarrow> b < 256 \<Longrightarrow> c < 256 \<Longrightarrow> d \<le> 253 \<Longrightarrow> ((a * 256 + b) * 256 + c) * 254 + d < (4261412864 :: nat)"
proof -
  assume l: "a < 256" "b < 256" "c < 256" "d \<le> 253"
  define q where "q = a * 256 + b"
  define r where "r = q * 256 + c"
  have "q \<le> 65535" using l by (simp add: q_def)
  then have "r \<le> 16777215" using l by (simp add: r_def)
  then show ?thesis using l unfolding q_def [symmetric] r_def [symmetric] by simp
qed

lemma next_ips:
  assumes "host_ip ip"
  shows "host_ip ((next_ip ^^ n) ip) \<and> ip_rank ((next_ip ^^ n) ip) = (ip_rank ip + n) mod 4261412864"
proof (induction n)
  case 0
  have "unat (ip ! 3) - 1 \<le> 253" using assms by (auto simp: host_ip_def)
  then have "ip_rank ip < 4261412864"
    unfolding ip_rank_def by (rule rank_bound [OF byte_less byte_less byte_less])
  then show ?case using assms by simp
next
  case (Suc n)
  then have "host_ip (next_ip ((next_ip ^^ n) ip))"
    "ip_rank (next_ip ((next_ip ^^ n) ip)) = (ip_rank ((next_ip ^^ n) ip) + 1) mod 4261412864"
    using next_ip_host [of "(next_ip ^^ n) ip"] by (auto simp: host_ip_def)
  then show ?case using Suc by (simp add: mod_simps add.commute add.left_commute)
qed

lemma mod_shift_less:
  assumes "(x + i) mod m = (x + j) mod (m :: nat)" and "j < i"
  shows "m \<le> i"
proof -
  have "m dvd (x + i) - (x + j)" using assms by (intro mod_eq_dvd_iff_nat [THEN iffD1]) auto
  then show ?thesis using assms(2) by (auto dest: dvd_imp_le)
qed

lemma pool_distinct:
  assumes "host_ip ip" and "i < 65536" and "j < 65536" and "(next_ip ^^ i) ip = (next_ip ^^ j) ip"
  shows "i = j"
proof -
  have "(ip_rank ip + i) mod 4261412864 = (ip_rank ip + j) mod 4261412864"
    using next_ips [OF assms(1)] assms(4) by metis
  from mod_shift_less [OF this] mod_shift_less [OF this [symmetric]] show ?thesis
    using assms(2,3) by (cases i j rule: linorder_cases) auto
qed

section \<open>The sessions as an abstract table\<close>

text \<open>
  The specification: a table from session numbers to the child and the address of the client, in which a
  step opens a session with a fresh number and a child that has no session, closes one, or does nothing.
\<close>

type_synonym session_map = "u16 \<rightharpoonup> int \<times> byte list"

inductive session_spec :: "session_map \<Rightarrow> session_map \<Rightarrow> bool" where
  unchanged: "session_spec t t"
| opened: "t n = None \<Longrightarrow> \<forall>k e'. t k \<noteq> Some (c, e') \<Longrightarrow> 0 < c \<Longrightarrow> n \<noteq> 0 \<Longrightarrow> session_spec t (t(n \<mapsto> (c, e)))"
| closed: "t n = Some x \<Longrightarrow> session_spec t (t(n := None))"

definition sessions_of :: "server \<Rightarrow> session_map" where
  "sessions_of s n = map_option (\<lambda>c. (cs_pid c, cs_eth c)) (find (\<lambda>c. ntohs (cs_sess c) = n \<and> cs_pid c \<noteq> 0) (Sessions s))"

lemma sessions_of_None:
  "\<not> (\<exists>i<length (Sessions s). ntohs (cs_sess (Sessions s ! i)) = n \<and> cs_pid (Sessions s ! i) \<noteq> 0) \<Longrightarrow> sessions_of s n = None"
  by (auto simp: sessions_of_def find_None_iff in_set_conv_nth)

lemma sessions_of_slot:
  assumes "table_ok s" and "i < length (Sessions s)"
  shows "sessions_of s (ntohs (cs_sess (Sessions s ! i))) =
    (if cs_pid (Sessions s ! i) = 0 then None else Some (cs_pid (Sessions s ! i), cs_eth (Sessions s ! i)))"
proof (cases "cs_pid (Sessions s ! i) = 0")
  case True
  have "sessions_of s (ntohs (cs_sess (Sessions s ! i))) = None"
    by (rule sessions_of_None) (use sess_inj [OF assms(1)] assms(2) True in \<open>auto dest: arg_cong [of _ _ htons]\<close>)
  then show ?thesis using True by simp
next
  case False
  have "find (\<lambda>c. ntohs (cs_sess c) = ntohs (cs_sess (Sessions s ! i)) \<and> cs_pid c \<noteq> 0) (Sessions s) = Some (Sessions s ! i)"
    unfolding find_Some_iff
  proof (intro exI [of _ i] conjI allI impI)
    fix j assume "j < i"
    then show "\<not> (ntohs (cs_sess (Sessions s ! j)) = ntohs (cs_sess (Sessions s ! i)) \<and> cs_pid (Sessions s ! j) \<noteq> 0)"
      using sess_inj [OF assms(1), of i j] assms(2) by auto
  qed (use assms False in auto)
  then show ?thesis using False by (simp add: sessions_of_def)
qed

lemma sessions_of_pid:
  assumes "table_ok s" and "sessions_of s n = Some (c, e)"
  shows "c \<in> set (pids s) - {0}"
  using assms by (auto simp: sessions_of_def pids_def find_Some_iff)

text \<open>The slots other than one that is updated keep their entries.\<close>

lemma sessions_of_upd:
  assumes "table_ok s" and "i < length (Sessions s)" and "cs_sess c = cs_sess (Sessions s ! i)"
    and "table_ok (s\<lparr>Sessions := (Sessions s)[i := c]\<rparr>)"
  shows "sessions_of (s\<lparr>Sessions := (Sessions s)[i := c]\<rparr>) =
    (sessions_of s)(ntohs (cs_sess c) := (if cs_pid c = 0 then None else Some (cs_pid c, cs_eth c)))"
proof (rule ext)
  fix n
  let ?s = "s\<lparr>Sessions := (Sessions s)[i := c]\<rparr>"
  show "sessions_of ?s n = ((sessions_of s)(ntohs (cs_sess c) := (if cs_pid c = 0 then None else Some (cs_pid c, cs_eth c)))) n"
  proof (cases "n = ntohs (cs_sess c)")
    case True
    then show ?thesis using sessions_of_slot [OF assms(4), of i] assms(2,3) by simp
  next
    case False
    have e: "(\<exists>j<length (Sessions ?s). ntohs (cs_sess (Sessions ?s ! j)) = n \<and> cs_pid (Sessions ?s ! j) \<noteq> 0) \<longleftrightarrow>
        (\<exists>j<length (Sessions s). ntohs (cs_sess (Sessions s ! j)) = n \<and> cs_pid (Sessions s ! j) \<noteq> 0)"
      using False assms(2,3) by (auto simp: nth_list_update)
    show ?thesis
    proof (cases "\<exists>j<length (Sessions s). ntohs (cs_sess (Sessions s ! j)) = n \<and> cs_pid (Sessions s ! j) \<noteq> 0")
      case True
      then obtain j where j: "j < length (Sessions s)" "ntohs (cs_sess (Sessions s ! j)) = n" by blast
      then have "j \<noteq> i" using False assms(3) by auto
      moreover have "cs_sess (Sessions ?s ! j) = cs_sess (Sessions s ! j)" using j(1) \<open>j \<noteq> i\<close> by simp
      ultimately show ?thesis
        using sessions_of_slot [OF assms(4), of j] sessions_of_slot [OF assms(1) j(1)] j False by simp
    next
      case no: False
      then have "sessions_of s n = None" by (rule sessions_of_None)
      moreover have "sessions_of ?s n = None" by (rule sessions_of_None) (use no e in blast)
      ultimately show ?thesis using False by simp
    qed
  qed
qed

lemma sessions_of_set_pid:
  assumes "table_ok s" and "i < length (Sessions s)" and "0 \<le> c"
  shows "sessions_of (set_pid i c s) = (sessions_of s)(ntohs (cs_sess (Sessions s ! i)) := (if c = 0 then None else Some (c, cs_eth (Sessions s ! i))))"
  using sessions_of_upd [OF assms(1,2), of "(Sessions s ! i)\<lparr>cs_pid := c\<rparr>"] set_pid_ok [OF assms] by (simp add: set_pid_def)

lemma sessions_of_set_eth:
  assumes "table_ok s" and "i < length (Sessions s)" and "length e = 6" and "cs_pid (Sessions s ! i) = 0"
  shows "sessions_of (set_eth i e s) = sessions_of s"
  using sessions_of_upd [OF assms(1,2), of "(Sessions s ! i)\<lparr>cs_eth := e\<rparr>"] set_eth_ok [OF assms(1-3)] sessions_of_slot [OF assms(1,2)] assms(4)
  by (simp add: set_eth_def fun_upd_idem)

lemma sessions_of_cong: "Sessions s = Sessions t \<Longrightarrow> sessions_of s = sessions_of t"
  by (simp add: sessions_of_def fun_eq_iff)

lemma padr_spec_refines:
  assumes s: "server_ok s" and t: "t = with_regs r s" and p: "wf_packet p" and c: "child \<noteq> 0" "child \<notin> set (pids s) - {0}"
    and r: "padr_spec paths dup_ok pid sock my child p s t = Some (s', acts, True)"
  shows "session_spec (sessions_of s) (sessions_of s')"
proof -
  have e: "length (h_source p) = 6" using p by (simp add: wf_packet_def)
  have ts: "Sessions t = Sessions s" "table_ok t" "table_ok s" using s by (simp_all add: t server_ok_def table_ok_fields)
  have tt: "sessions_of t = sessions_of s" by (rule sessions_of_cong [OF ts(1)])
  have ref: "s' = q" if "refusal sock my p tag msg logs q = Some (s', acts, True)" for tag msg logs q
    using that by (auto simp: refusal_def Let_def split: if_splits)
  show ?thesis
  proof (cases "padr_check pid my p s")
    case (Accept i)
    then have "slot_of 0 s = Some i" by (auto simp: padr_check_def Let_def split: if_splits option.splits)
    then have i: "i < length (Sessions t)" "cs_pid (Sessions t ! i) = 0" using slot_of_Some ts(1) by auto
    let ?q = "set_eth i (h_source p) t"
    have q: "sessions_of ?q = sessions_of s" using sessions_of_set_eth [OF ts(2) i(1) e i(2)] tt by simp
    show ?thesis
    proof (cases "child < 0")
      case True
      then have "s' = ?q" using r Accept ref by (simp add: padr_spec_def)
      then show ?thesis using q session_spec.unchanged by simp
    next
      case False
      then have s': "s' = set_pid i child ?q" using c r Accept by (auto simp: padr_spec_def)
      have qt: "table_ok ?q" "i < length (Sessions ?q)" using set_eth_ok [OF ts(2) i(1) e] i(1) by simp_all
      have n: "cs_sess (Sessions ?q ! i) = cs_sess (Sessions s ! i)" "cs_pid (Sessions ?q ! i) = 0"
        using i ts(1) by (simp_all add: set_eth_def)
      have o: "sessions_of s' = (sessions_of s)(ntohs (cs_sess (Sessions s ! i)) \<mapsto> (child, cs_eth (Sessions ?q ! i)))"
        unfolding s' using sessions_of_set_pid [OF qt, of child] False c(1) q n(1) by simp
      show ?thesis
        unfolding o
      proof (rule session_spec.opened)
        show "sessions_of s (ntohs (cs_sess (Sessions s ! i))) = None"
          using sessions_of_slot [OF ts(3), of i] i ts(1) by simp
        show "\<forall>k e'. sessions_of s k \<noteq> Some (child, e')" using sessions_of_pid [OF ts(3)] c(2) by blast
        show "0 < child" using False c(1) by simp
        show "ntohs (cs_sess (Sessions s ! i)) \<noteq> 0" using sess_number(2) [OF ts(3), of i] i(1) ts(1) by simp
      qed
    qed
  next
    case (Ignore logs)
    then have "s' = t" using r by (simp add: padr_spec_def)
    then show ?thesis using tt session_spec.unchanged by simp
  next
    case (Refuse tag msg logs)
    then have "s' = t" using r ref by (simp add: padr_spec_def)
    then show ?thesis using tt session_spec.unchanged by simp
  qed
qed

lemma processPADI_sessions:
  assumes "processPADI ctx u pid sock my p s = Some (s', acts)" and "server_ok s" and "wf_packet u" and "wf_packet p" and "length my = 6"
    and "length (md_in ctx) = 64"
  shows "Sessions s' = Sessions s"
proof (cases "NOT_UNICAST (h_source p)")
  case True
  then show ?thesis using assms(1) by (simp add: processPADI_def)
next
  case False
  obtain name where name: "ACName s = Some name" using assms(2) by (auto simp: server_ok_def)
  have len: "length name \<le> 1500" using assms(1) False name by (cases "1500 < length name") (auto simp: processPADI_def Let_def)
  show ?thesis using processPADI_eq [OF assms(2-6) name len False, of pid sock] assms(1) by (auto split: if_splits)
qed

lemma server_packet_refines:
  assumes s: "server_ok s" and u: "wf_packet u" "wf_packet ue" "wf_packet pk" "length my = 6" "length (md_in ctx) = 64"
    and c: "child \<noteq> 0" "child \<notin> set (pids s) - {0}"
    and r: "server_packet paths dup_ok ctx u ue pid sock my child pk ev s = Some (s', acts, True)"
  shows "session_spec (sessions_of s) (sessions_of s')"
proof -
  have same: "session_spec (sessions_of s) (sessions_of s')" if "Sessions s' = Sessions s"
    using sessions_of_cong [OF that] session_spec.unchanged by simp
  show ?thesis
  proof (cases ev)
    case (Frame f)
    obtain p len where p: "receivePacket pk f = (p, len)" by fastforce
    have w: "wf_packet p" by (rule receivePacket_wf(1) [OF u(3) p])
    show ?thesis
    proof (cases "\<not> bogus_length p len \<and> pver p = 1 \<and> ptype p = 1 \<and> code p = CODE_PADR")
      case True
      then have "processPADR paths dup_ok ctx u ue pid sock my child p s = Some (s', acts, True)" using r by (auto simp: server_packet_def Frame p)
      then obtain q where "padr_spec paths dup_ok pid sock my child p s (with_regs q s) = Some (s', acts, True)"
        using processPADR_eq [OF s u(1,2) w u(4,5), of paths dup_ok pid sock child] by auto
      then show ?thesis by (rule padr_spec_refines [OF s refl w c])
    next
      case False
      have "Sessions s' = Sessions s"
      proof (cases "\<not> bogus_length p len \<and> pver p = 1 \<and> ptype p = 1 \<and> code p = CODE_PADI")
        case True
        then have "processPADI ctx u pid sock my p s = Some (s', acts)" using r by (auto simp: server_packet_def Frame p)
        from processPADI_sessions [OF this s u(1) w u(4,5)] show ?thesis .
      next
        case other: False
        have "processPADT my p s = Some (t, a) \<Longrightarrow> t = s" for t a
          using processPADT_eq [of s p my] s w by (auto simp: server_ok_def)
        then show ?thesis using r False other by (auto simp: server_packet_def Frame p split: if_splits)
      qed
      then show ?thesis by (rule same)
    qed
  qed (use r same in \<open>auto simp: server_packet_def\<close>)
qed

lemma server_step_refines:
  assumes "server_step E m acts m'" and "machine_ok m" and "length (e_my E) = 6"
  shows "session_spec (sessions_of (m_server m)) (sessions_of (m_server m'))"
  using assms(1)
proof (cases rule: server_step.cases)
  case (sigchld s)
  have "sessions_of s = sessions_of (m_server m)" using sigchld by (intro sessions_of_cong) (auto simp: childHandler_eq)
  then show ?thesis using session_spec.unchanged by (simp add: sigchld(1))
next
  case (check_pending sr)
  have "sessions_of (m_server m') = sessions_of (m_server m)" using check_pending by (intro sessions_of_cong) simp
  then show ?thesis using session_spec.unchanged by simp
next
  case (reap sr c s)
  have k: "server_ok (m_server m)" "pids_ok (pids (m_server m)) (m_live m \<union> m_zombies m)" "c \<in> m_live m \<union> m_zombies m"
    using assms(2) reap(3) by (auto simp: machine_ok_def)
  have t: "table_ok (m_server m)" using k(1) by (simp add: server_ok_def)
  have "c \<in> cs_pid ` set (Sessions (m_server m))" "c \<noteq> 0" using k(2,3) by (auto simp: pids_ok_def pids_def)
  then obtain i where i: "slot_of c (m_server m) = Some i" using slot_of_None [of c] by (cases "slot_of c (m_server m)") auto
  note ix = slot_of_Some [OF i]
  have "s = set_pid i 0 (m_server m)" using reap(4) reap_child_eq [OF t, of c] i by simp
  then have e: "sessions_of (m_server m') = (sessions_of (m_server m))(ntohs (cs_sess (Sessions (m_server m) ! i)) := None)"
    using sessions_of_set_pid [OF t, of i 0] ix by (simp add: reap(1))
  show ?thesis
    unfolding e by (rule session_spec.closed) (use sessions_of_slot [OF t, of i] ix \<open>c \<noteq> 0\<close> in simp)
next
  case (receive u ue pk ctx child dup_ok ev s)
  have k: "server_ok (m_server m)" "set (pids (m_server m)) - {0} = m_live m \<union> m_zombies m"
    using assms(2) by (auto simp: machine_ok_def pids_ok_def)
  have f: "child \<notin> set (pids (m_server m)) - {0}" unfolding k(2) by (rule receive(8))
  have "session_spec (sessions_of (m_server m)) (sessions_of s)"
    by (rule server_packet_refines [OF k(1) receive(3-5) assms(3) receive(6,7) f receive(9)])
  then show ?thesis by (simp add: receive(1))
qed (simp_all add: session_spec.unchanged)

section \<open>Properties of the server\<close>

definition sample_env :: server_env where
  "sample_env = \<lparr>e_paths = sample_paths, e_pid = 1, e_sock = 3, e_my = [2, 0, 0, 0, 0, 1]\<rparr>"

definition sample_start :: server where
  "sample_start = server_globals\<lparr>NumSessionSlots := 1, CookieSeed := replicate 16 7, IfName := Some ''eth0'', ACName := Some [65, 67],
     RemoteIP := [10, 67, 15, 2],
     Sessions := [\<lparr>cs_pid = 0, cs_ip = [10, 67, 15, 1], cs_sess = htons (of_nat 1), cs_eth = [0, 0, 0, 0, 0, 0]\<rparr>]\<rparr>"

lemma sample_main:
  "server_main None True True (Some (replicate 16 7)) 1 (\<lambda>_. 0) [Sopt_N (Some 1), Sopt_C [65, 67], Sopt_F] = Inr sample_start"
  by code_simp

text \<open>A reachable state in which a session has been opened, and one in which its child has ended.\<close>

lemma sample_reach: "server_reach sample_env (start_machine sample_start)"
  by (rule server_reach.start [of None True True "Some (replicate 16 7)" _ "\<lambda>_. 0" "[Sopt_N (Some 1), Sopt_C [65, 67], Sopt_F]"])
    (simp_all add: sample_env_def sample_main)

lemma receive_image:
  assumes "wf_packet u" and "wf_packet p"
  shows "receivePacket u (packet_bytes p) = (p, 1520)"
proof -
  have l: "length (packet_bytes p) = 1520" "length (packet_bytes u) = 1520" using assms by (simp_all add: buffer_simps)
  show ?thesis using l load_packet_image [OF assms(2)] by (simp add: receivePacket_def)
qed

definition sample_request :: PPPoEPacket where
  "sample_request = sample_padr [(TAG_AC_COOKIE, sample_cookie), (TAG_SERVICE_NAME, [])]"

lemma sample_request_wf: "wf_packet sample_request"
  unfolding sample_request_def by (rule sample_padr_wf) auto

lemma sample_start_ok: "server_ok sample_start" "slot_of 0 sample_start = Some 0"
proof -
  show "server_ok sample_start"
    by (auto simp: server_ok_def table_ok_def sample_start_def server_globals_def)
  show "slot_of 0 sample_start = Some 0" by (simp add: slot_of_def sample_start_def)
qed

text \<open>The request of a client, received in the main loop, opens the session of the only slot.\<close>

lemma sample_accept:
  obtains r where "server_packet sample_paths True dirty_context sample_padi sample_padi 1 3 [2, 0, 0, 0, 0, 1] 99 sample_padi
      (Frame (packet_bytes sample_request)) sample_start = Some (set_pid 0 99 (set_eth 0 [2, 0, 0, 0, 0, 2] (with_regs r sample_start)), [Fork 99], True)"
proof -
  have l: "last_tag ty (snd (packet_tags sample_request)) =
      foldl (\<lambda>r (t, d). if t = ty then Some d else r) None [(TAG_AC_COOKIE, sample_cookie), (TAG_SERVICE_NAME, [])]" for ty
    unfolding sample_request_def by (rule sample_padr_last) auto
  have a: "h_dest sample_request = [2, 0, 0, 0, 0, 1]" "h_source sample_request = [2, 0, 0, 0, 0, 2]"
    by (simp_all add: sample_request_def sample_padr_addr)
  have "padr_check 1 [2, 0, 0, 0, 0, 1] sample_request sample_start = Accept 0"
    unfolding padr_check_def Let_def a l sample_start_ok(2)
    by (simp add: sample_cookie_def NOT_UNICAST_def) (simp add: sample_start_def)
  moreover obtain r where "processPADR sample_paths True dirty_context sample_padi sample_padi 1 3 [2, 0, 0, 0, 0, 1] 99 sample_request sample_start =
      padr_spec sample_paths True 1 3 [2, 0, 0, 0, 0, 1] 99 sample_request sample_start (with_regs r sample_start)"
    using processPADR_eq [OF sample_start_ok(1) wf_sample_padi wf_sample_padi sample_request_wf, of "[2, 0, 0, 0, 0, 1]" dirty_context sample_paths True 1 3 99]
    by (auto simp: dirty_context_def)
  moreover have "\<not> bogus_length sample_request 1520"
  proof -
    have "pkt_len sample_request = 28"
      by (simp add: pkt_len_def sample_request_def sample_padr_def packet_with_def)
    then show ?thesis using bogus_length_nat [of 1520 sample_request] by simp
  qed
  moreover have "pver sample_request = 1" "ptype sample_request = 1" "code sample_request = CODE_PADR"
    by (simp_all add: sample_request_def sample_padr_def packet_with_def)
  ultimately show thesis
    using that [of r] receive_image [OF wf_sample_padi sample_request_wf] a(2) by (simp add: server_packet_def padr_spec_def)
qed

text \<open>A run in which a session is opened and its child ends.\<close>

lemma sample_run:
  obtains m where "server_reach sample_env m" and "m_zombies m = {99}" and "m_live m = {}" and "m_pc m = AtSelect" and "m_signal m"
    and "sessions_of (m_server m) 1 = Some (99, [2, 0, 0, 0, 0, 2])"
proof -
  obtain r where r: "server_packet sample_paths True dirty_context sample_padi sample_padi 1 3 [2, 0, 0, 0, 0, 1] 99 sample_padi
      (Frame (packet_bytes sample_request)) sample_start = Some (set_pid 0 99 (set_eth 0 [2, 0, 0, 0, 0, 2] (with_regs r sample_start)), [Fork 99], True)"
    by (rule sample_accept)
  let ?s = "set_pid 0 99 (set_eth 0 [2, 0, 0, 0, 0, 2] (with_regs r sample_start))"
  let ?m = "\<lambda>pc. \<lparr>m_server = sample_start, m_pc = pc, m_pipe = 0, m_live = {}, m_zombies = {}, m_signal = False\<rparr>"
  have 0: "server_reach sample_env (?m AtSelect)" using sample_reach by (simp add: start_machine_def)
  have "server_step sample_env (?m AtSelect) [] (?m (Selected False True))"
    using server_step.select [of "?m AtSelect" True sample_env] by simp
  from server_reach.step [OF 0 this] have 1: "server_reach sample_env (?m (Selected False True))" .
  have "server_step sample_env (?m (Selected False True)) [] (?m (Check True))"
    using server_step.clear_pipe [of "?m (Selected False True)" False True sample_env] by simp
  from server_reach.step [OF 1 this] have 2: "server_reach sample_env (?m (Check True))" .
  have "server_step sample_env (?m (Check True)) [] (?m (Receive True))"
    using server_step.check_none [of "?m (Check True)" True sample_env] by (simp add: sample_start_def server_globals_def)
  from server_reach.step [OF 2 this] have 3: "server_reach sample_env (?m (Receive True))" .
  let ?n = "\<lparr>m_server = ?s, m_pc = AtSelect, m_pipe = 0, m_live = {99}, m_zombies = {}, m_signal = False\<rparr>"
  have "server_step sample_env (?m (Receive True)) [Fork 99] ?n"
    using server_step.receive [of "?m (Receive True)" sample_padi sample_padi sample_padi dirty_context 99 sample_env True "Frame (packet_bytes sample_request)" ?s "[Fork 99]"] r
    by (simp add: sample_env_def dirty_context_def new_children_def)
  from server_reach.step [OF 3 this] have 4: "server_reach sample_env ?n" .
  let ?z = "\<lparr>m_server = ?s, m_pc = AtSelect, m_pipe = 0, m_live = {}, m_zombies = {99}, m_signal = True\<rparr>"
  have "server_step sample_env ?n [] ?z" using server_step.child_exits [of 99 ?n sample_env] by simp
  from server_reach.step [OF 4 this] have "server_reach sample_env ?z" .
  moreover have "sessions_of ?s 1 = Some (99, [2, 0, 0, 0, 0, 2])"
    by (simp add: sessions_of_def set_pid_def set_eth_def sample_start_def)
  ultimately show thesis using that [of ?z] by simp
qed

text \<open>
  C25. In every reachable state of the server, with children ending and signals arriving at any point of the main
  loop, the table has its fixed session numbers (one more than the offset and the index, never 0 or
  0xFFFF), the pids in the slots are those of the children that run or have not been waited for, each
  in one slot, and a child that \<^verbatim>\<open>waitpid\<close> returns is always found.
\<close>

theorem server_invariant:
  assumes "server_reach E m" and "length (e_my E) = 6"
  shows "table_ok (m_server m) \<and> set (pids (m_server m)) - {0} = m_live m \<union> m_zombies m \<and>
    distinct (filter (\<lambda>p. p \<noteq> 0) (pids (m_server m))) \<and> m_live m \<inter> m_zombies m = {} \<and>
    (\<forall>c\<in>m_zombies m. \<exists>i. reap_child c (m_server m) = Some (set_pid i 0 (m_server m), []))"
proof -
  have k: "server_ok (m_server m)" "pids_ok (pids (m_server m)) (m_live m \<union> m_zombies m)" "m_live m \<inter> m_zombies m = {}"
    using server_reach_ok [OF assms] by (simp_all add: machine_ok_def)
  then have "\<exists>i. reap_child c (m_server m) = Some (set_pid i 0 (m_server m), [])" if "c \<in> m_zombies m" for c
    using reap_found [OF k(1,2), of c] that by blast
  then show ?thesis using k by (simp add: server_ok_def pids_ok_def)
qed

theorem server_invariant_witness:
  "\<exists>m. server_reach sample_env m \<and> m_zombies m = {99} \<and> set (pids (m_server m)) - {0} = {99}"
proof -
  obtain m where m: "server_reach sample_env m" "m_zombies m = {99}" "m_live m = {}" by (rule sample_run)
  have "length (e_my sample_env) = 6" by (simp add: sample_env_def)
  from server_invariant [OF m(1) this] show ?thesis using m by auto
qed

text \<open>
  C5. No ended child is forgotten: whenever the main loop is about to wait in \<^verbatim>\<open>select\<close> and a child has ended whose
  signal has been delivered, the pipe is readable, so \<^verbatim>\<open>select\<close> returns at once; the pipe never holds
  more than two bytes, so the signal handler never blocks; and from every reachable state, without any
  further packet, the loop gets to a state in which all ended children have been waited for.
\<close>

theorem server_reaps:
  assumes "server_reach E m" and "length (e_my E) = 6"
  shows "(m_pc m = AtSelect \<and> m_zombies m \<noteq> {} \<and> \<not> m_signal m \<longrightarrow> 0 < m_pipe m) \<and> m_pipe m \<le> 2 \<and>
    (\<exists>m'. steps E m m' \<and> m_zombies m' = {} \<and> m_live m' = m_live m)"
proof -
  have k: "machine_ok m" by (rule server_reach_ok [OF assms])
  then have w: "wake_ok m" by (simp add: machine_ok_def)
  have "pipe_bound (m_pc m) b \<le> 2" for b by (cases "m_pc m") auto
  then have "m_pipe m \<le> 2" using w by (auto simp: wake_ok_def intro: order_trans)
  then show ?thesis using w reap_eventually [OF k assms(2)] by (auto simp: wake_ok_def)
qed

theorem server_reaps_witness:
  "\<exists>m m'. server_reach sample_env m \<and> m_zombies m = {99} \<and> steps sample_env m m' \<and> m_zombies m' = {}"
proof -
  obtain m where m: "server_reach sample_env m" "m_zombies m = {99}" "m_live m = {}" by (rule sample_run)
  have "length (e_my sample_env) = 6" by (simp add: sample_env_def)
  from server_reaps [OF m(1) this] show ?thesis using m by blast
qed

text \<open>
  C4. The server implements the specification of a session table: seen as a table from session numbers to the
  child and the address of its client, every step of the program opens one session, under a number that is
  not in use and for a child that has none, closes one, or changes nothing.
\<close>

theorem server_refines:
  assumes "server_reach E m" and "length (e_my E) = 6" and "server_step E m acts m'"
  shows "session_spec (sessions_of (m_server m)) (sessions_of (m_server m'))"
  by (rule server_step_refines [OF assms(3) server_reach_ok [OF assms(1,2)] assms(2)])

theorem server_refines_witness:
  "\<exists>m acts m'. server_reach sample_env m \<and> sessions_of (m_server m) 1 = Some (99, [2, 0, 0, 0, 0, 2]) \<and>
     server_step sample_env m acts m' \<and> session_spec (sessions_of (m_server m)) (sessions_of (m_server m'))"
proof -
  obtain m where m: "server_reach sample_env m" "m_zombies m = {99}" "m_pc m = AtSelect" "m_signal m" "sessions_of (m_server m) 1 = Some (99, [2, 0, 0, 0, 0, 2])"
    by (rule sample_run)
  have l: "length (e_my sample_env) = 6" by (simp add: sample_env_def)
  obtain s acts where h: "childHandler (m_server m) = (s, acts)" by fastforce
  note st = server_step.sigchld [OF m(4) h, of sample_env]
  from server_refines [OF m(1) l st] show ?thesis using m(1,5) st by blast
qed

text \<open>
  After the options have been read the server starts with at most 65534 slots, all free, whose numbers
  follow the offset and are distinct; if the first address of the pool ends in 1 to 254, the
  addresses of the clients are pairwise distinct and none ends in 0 or 255.
\<close>

theorem server_main_correct:
  assumes "server_main hostname mem forked urandom pid rnd opts = Inr s" and "case urandom of None \<Rightarrow> True | Some bs \<Rightarrow> length bs \<le> 16"
  shows "server_ok s \<and> \<not> ReapPending s \<and> length (Sessions s) \<le> 65534 \<and>
    (\<exists>ip. length ip = 4 \<and> (\<forall>i<length (Sessions s). cs_pid (Sessions s ! i) = 0 \<and> cs_ip (Sessions s ! i) = (next_ip ^^ i) ip) \<and>
       (host_ip ip \<longrightarrow> distinct (map cs_ip (Sessions s)) \<and> (\<forall>c\<in>set (Sessions s). host_ip (cs_ip c)))) \<and>
    distinct (map cs_sess (Sessions s))"
proof -
  obtain s0 :: server where f: "length (RemoteIP s0) = 4" "fresh_server s (RemoteIP s0)"
  proof (rule server_main_fresh [OF assms])
    fix s0 :: server assume "length (RemoteIP s0) = 4" "fresh_server s (RemoteIP s0)"
    then show thesis by (rule that)
  qed
  let ?ip = "RemoteIP s0"
  have k: "server_ok s" "\<not> ReapPending s" and c: "\<forall>i<length (Sessions s). cs_pid (Sessions s ! i) = 0 \<and> cs_ip (Sessions s ! i) = (next_ip ^^ i) ?ip"
    using f(2) by (simp_all add: fresh_server_def)
  have t: "table_ok s" using k(1) by (simp add: server_ok_def)
  have n: "length (Sessions s) \<le> 65534" using t by (simp add: table_ok_def)
  have i: "distinct (map cs_ip (Sessions s)) \<and> (\<forall>c\<in>set (Sessions s). host_ip (cs_ip c))" if h: "host_ip ?ip"
  proof
    show "distinct (map cs_ip (Sessions s))"
      unfolding distinct_conv_nth using c n pool_distinct [OF h] by fastforce
    show "\<forall>c\<in>set (Sessions s). host_ip (cs_ip c)" using c next_ips [OF h] by (auto simp: in_set_conv_nth)
  qed
  have "distinct (map cs_sess (Sessions s))" unfolding distinct_conv_nth using sess_inj [OF t] by auto
  then show ?thesis using k n f(1) c i by blast
qed

theorem server_main_correct_witness:
  "server_main None True True (Some (replicate 16 7)) 1 (\<lambda>_. 0) [Sopt_N (Some 1), Sopt_C [65, 67], Sopt_F] = Inr sample_start \<and>
   server_ok sample_start \<and> distinct (map cs_sess (Sessions sample_start))"
  using server_main_correct [OF sample_main] sample_main by simp

end
