(* ===== verification/Callouts.thy ===== *)
theory Callouts
  imports Gateway_Prelude
begin

text \<open>
  The timers of the multicast routing daemon \<^verbatim>\<open>pim6sd\<close>: the callout queue of \<^verbatim>\<open>callout.c\<close>, in which every entry
  holds the time to the entry before it, and the part of the main loop (\<^verbatim>\<open>main.c\<close>) that ages the queue by the
  clock. The locale \<^verbatim>\<open>timer_service\<close> is the interface of the timers; it is interpreted on the queue, and what a
  run of timer operations guarantees is proved in it. The times are C \<^verbatim>\<open>int\<close>s; they are only added up to a time
  that some caller asked for (\<^verbatim>\<open>schedule\<close> holds these sums), so they are integers here. \<^verbatim>\<open>mem\<close> tells whether
  \<^verbatim>\<open>malloc\<close> succeeds.
\<close>

section \<open>The queue\<close>

text \<open>
  An entry of the queue holds the time to the entry before it. A function pointer is a name and NULL is
  \<^verbatim>\<open>None\<close>; the chain of pointers is a list.
\<close>

record ('f, 'd) timeout_q =
  tq_id :: "u32"
  tq_func :: "'f option"
  tq_data :: "'d option"
  tq_time :: int

record ('f, 'd) callouts =
  co_id :: "u32"
  co_Q :: "('f, 'd) timeout_q list"

text \<open>\<^verbatim>\<open>callout_init\<close> forgets the queue; the counter of the identifiers goes on.\<close>

definition callout_init :: "('f, 'd) callouts \<Rightarrow> ('f, 'd) callouts" where
  "callout_init c = c\<lparr>co_Q := []\<rparr>"

fun free_all_callouts :: "('f, 'd) timeout_q list \<Rightarrow> ('f, 'd) timeout_q list" where
  "free_all_callouts [] = []"
| "free_all_callouts (p # Q) = free_all_callouts Q"

text \<open>
  The first loop of \<^verbatim>\<open>age_callout_queue\<close>: the entries that have expired, in order, and the rest of the
  queue. The second loop calls the functions; a function can itself use the queue, so it maps the queue and the
  state of the rest of the program.
\<close>

fun expire :: "int \<Rightarrow> ('f, 'd) timeout_q list \<Rightarrow> ('f, 'd) timeout_q list \<times> ('f, 'd) timeout_q list" where
  "expire elapsed_time [] = ([], [])"
| "expire elapsed_time (p # Q) =
     (if tq_time p > elapsed_time then ([], p\<lparr>tq_time := tq_time p - elapsed_time\<rparr> # Q)
      else (let (expQ, rest) = expire (elapsed_time - tq_time p) Q in (p # expQ, rest)))"

fun run_expired ::
  "('f \<Rightarrow> 'd option \<Rightarrow> ('f, 'd) callouts \<times> 'w \<Rightarrow> ('f, 'd) callouts \<times> 'w) \<Rightarrow> ('f, 'd) timeout_q list \<Rightarrow>
     ('f, 'd) callouts \<times> 'w \<Rightarrow> ('f, 'd) callouts \<times> 'w" where
  "run_expired call [] s = s"
| "run_expired call (p # expQ) s =
     run_expired call expQ (case tq_func p of None \<Rightarrow> s | Some f \<Rightarrow> call f (tq_data p) s)"

definition age_callout_queue ::
  "('f \<Rightarrow> 'd option \<Rightarrow> ('f, 'd) callouts \<times> 'w \<Rightarrow> ('f, 'd) callouts \<times> 'w) \<Rightarrow> int \<Rightarrow>
     ('f, 'd) callouts \<times> 'w \<Rightarrow> ('f, 'd) callouts \<times> 'w" where
  "age_callout_queue call elapsed_time s =
     (let (c, w) = s; (expQ, rest) = expire elapsed_time (co_Q c)
      in run_expired call expQ (c\<lparr>co_Q := rest\<rparr>, w))"

definition timer_nextTimer :: "('f, 'd) callouts \<Rightarrow> int" where
  "timer_nextTimer c =
     (case co_Q c of [] \<Rightarrow> -1 | p # Q \<Rightarrow> if tq_time p < 0 then 0 else tq_time p)"

text \<open>The walk of \<^verbatim>\<open>timer_setTimer\<close> to the place of the new entry.\<close>

fun insert_node :: "('f, 'd) timeout_q \<Rightarrow> ('f, 'd) timeout_q list \<Rightarrow> ('f, 'd) timeout_q list" where
  "insert_node node [] = [node]"
| "insert_node node (p # Q) =
     (if tq_time node < tq_time p then node # p\<lparr>tq_time := tq_time p - tq_time node\<rparr> # Q
      else p # insert_node (node\<lparr>tq_time := tq_time node - tq_time p\<rparr>) Q)"

definition timer_setTimer ::
  "bool \<Rightarrow> int \<Rightarrow> 'f option \<Rightarrow> 'd option \<Rightarrow> ('f, 'd) callouts \<Rightarrow> int \<times> ('f, 'd) callouts" where
  "timer_setTimer mem delay action data c =
     (if \<not> mem then (-1, c)
      else (let n = co_id c + 1; n = (if n = 0 then n + 1 else n);
                node = \<lparr>tq_id = n, tq_func = action, tq_data = data, tq_time = delay\<rparr>
            in (sint n, c\<lparr>co_id := n, co_Q := insert_node node (co_Q c)\<rparr>)))"

fun left_loop :: "u32 \<Rightarrow> int \<Rightarrow> ('f, 'd) timeout_q list \<Rightarrow> int" where
  "left_loop timer_id left [] = -1"
| "left_loop timer_id left (p # Q) =
     (let left = left + tq_time p in if tq_id p = timer_id then left else left_loop timer_id left Q)"

definition timer_leftTimer :: "u32 \<Rightarrow> ('f, 'd) callouts \<Rightarrow> int" where
  "timer_leftTimer timer_id c = (if timer_id = 0 then -1 else left_loop timer_id 0 (co_Q c))"

fun unlink_node :: "u32 \<Rightarrow> ('f, 'd) timeout_q list \<Rightarrow> ('f, 'd) timeout_q list" where
  "unlink_node timer_id [] = []"
| "unlink_node timer_id (p # Q) =
     (if tq_id p = timer_id
      then (case Q of [] \<Rightarrow> [] | q # Q' \<Rightarrow> q\<lparr>tq_time := tq_time q + tq_time p\<rparr> # Q')
      else p # unlink_node timer_id Q)"

definition cleared_data :: "u32 \<Rightarrow> ('f, 'd) timeout_q list \<Rightarrow> 'd option" where
  "cleared_data timer_id Q = (case find (\<lambda>p. tq_id p = timer_id) Q of None \<Rightarrow> None | Some p \<Rightarrow> tq_data p)"

text \<open>Clearing a timer also releases its data: the first component is the pointer given to \<^verbatim>\<open>free\<close>.\<close>

definition timer_clearTimer :: "u32 \<Rightarrow> ('f, 'd) callouts \<Rightarrow> 'd option \<times> ('f, 'd) callouts" where
  "timer_clearTimer timer_id c =
     (if timer_id = 0 then (None, c)
      else (cleared_data timer_id (co_Q c), c\<lparr>co_Q := unlink_node timer_id (co_Q c)\<rparr>))"

section \<open>The schedule\<close>

text \<open>What the queue stands for: the timers with the time that is left for each.\<close>

type_synonym ('f, 'd) schedule = "(int \<times> u32 \<times> 'f option \<times> 'd option) list"

fun schedule_from :: "int \<Rightarrow> ('f, 'd) timeout_q list \<Rightarrow> ('f, 'd) schedule" where
  "schedule_from t [] = []"
| "schedule_from t (p # Q) = (t + tq_time p, tq_id p, tq_func p, tq_data p) # schedule_from (t + tq_time p) Q"

abbreviation schedule :: "('f, 'd) timeout_q list \<Rightarrow> ('f, 'd) schedule" where
  "schedule \<equiv> schedule_from 0"

definition delay_by :: "int \<Rightarrow> ('f, 'd) schedule \<Rightarrow> ('f, 'd) schedule" where
  "delay_by e = map (\<lambda>(t, x). (t + e, x))"

text \<open>The times never go back.\<close>

definition queue_ok :: "('f, 'd) timeout_q list \<Rightarrow> bool" where
  "queue_ok Q \<longleftrightarrow> list_all (\<lambda>p. 0 \<le> tq_time p) Q"

lemma schedule_shift: "schedule_from (s + t) Q = delay_by s (schedule_from t Q)"
  by (induction Q arbitrary: t) (simp_all add: delay_by_def add.assoc)

lemma schedule_shift0: "schedule_from s Q = delay_by s (schedule Q)"
  using schedule_shift [of s 0 Q] by simp

lemma schedule_ge: "queue_ok Q \<Longrightarrow> (t, x) \<in> set (schedule_from s Q) \<Longrightarrow> s \<le> t"
  by (induction Q arbitrary: s) (fastforce simp: queue_ok_def)+

lemma schedule_sorted: "queue_ok Q \<Longrightarrow> sorted (map fst (schedule_from s Q))"
proof (induction Q arbitrary: s)
  case (Cons p Q)
  then show ?case using schedule_ge [of Q _ _ "s + tq_time p"] by (auto simp: queue_ok_def)
qed simp

lemma schedule_insert:
  "schedule_from s (insert_node node Q) =
     takeWhile (\<lambda>(t, _). t \<le> s + tq_time node) (schedule_from s Q) @ (s + tq_time node, tq_id node, tq_func node, tq_data node) #
     dropWhile (\<lambda>(t, _). t \<le> s + tq_time node) (schedule_from s Q)"
proof (induction node Q arbitrary: s rule: insert_node.induct)
  case (2 node p Q)
  show ?case
  proof (cases "tq_time node < tq_time p")
    case False
    then show ?thesis using 2 [OF False, of "s + tq_time p"] by simp
  qed simp
qed simp

lemma insert_ok: "queue_ok Q \<Longrightarrow> 0 \<le> tq_time node \<Longrightarrow> queue_ok (insert_node node Q)"
  by (induction node Q rule: insert_node.induct) (auto simp: queue_ok_def)

lemma expire_schedule:
  "schedule_from s (fst (expire e Q)) = takeWhile (\<lambda>(t, _). t \<le> s + e) (schedule_from s Q) \<and>
   schedule_from (s + e) (snd (expire e Q)) = dropWhile (\<lambda>(t, _). t \<le> s + e) (schedule_from s Q)"
proof (induction e Q arbitrary: s rule: expire.induct)
  case (2 e p Q)
  show ?case
  proof (cases "tq_time p > e")
    case False
    then show ?thesis using 2 [OF False, of "s + tq_time p"] by (simp add: case_prod_unfold Let_def)
  qed (simp add: add.commute add.left_commute)
qed simp

lemma expire_ok: "queue_ok Q \<Longrightarrow> queue_ok (fst (expire e Q)) \<and> queue_ok (snd (expire e Q))"
  by (induction e Q rule: expire.induct) (auto simp: queue_ok_def case_prod_unfold Let_def)

lemma unlink_schedule:
  "schedule_from s (unlink_node i Q) =
     takeWhile (\<lambda>(t, j, _). j \<noteq> i) (schedule_from s Q) @ tl (dropWhile (\<lambda>(t, j, _). j \<noteq> i) (schedule_from s Q))"
proof (induction i Q arbitrary: s rule: unlink_node.induct)
  case (2 i p Q)
  show ?case
  proof (cases "tq_id p = i")
    case True
    then show ?thesis by (simp add: add.commute add.left_commute split: list.split)
  qed (use 2 in simp)
qed simp

lemma unlink_ok: "queue_ok Q \<Longrightarrow> queue_ok (unlink_node i Q)"
  by (induction i Q rule: unlink_node.induct) (auto simp: queue_ok_def split: list.splits)

lemma left_schedule:
  "left_loop i s Q = (case find (\<lambda>(t, j, _). j = i) (schedule_from s Q) of None \<Rightarrow> -1 | Some (t, _) \<Rightarrow> t)"
  by (induction i s Q rule: left_loop.induct) (auto simp: Let_def)

lemma next_schedule: "queue_ok (co_Q c) \<Longrightarrow> timer_nextTimer c = (case schedule (co_Q c) of [] \<Rightarrow> -1 | (t, _) # _ \<Rightarrow> t)"
  by (auto simp: timer_nextTimer_def queue_ok_def split: list.splits)

section \<open>The interface of the timers\<close>

text \<open>
  What the rest of the daemon relies on: a queue stands for a list of pending timers, ordered by the time
  that is left; setting adds a timer behind those that are due no later, clearing removes the first with the
  identifier, and ageing takes out the due timers in order and lets the others come closer.
\<close>

datatype ('i, 'a) timer_op = Set int 'a | Clear 'i | Age int

fun op_ok :: "('i, 'a) timer_op \<Rightarrow> bool" where
  "op_ok (Set d x) = (0 \<le> d)"
| "op_ok (Clear i) = True"
| "op_ok (Age e) = (0 \<le> e)"

fun elapsed :: "('i, 'a) timer_op list \<Rightarrow> int" where
  "elapsed [] = 0"
| "elapsed (Age e # ops) = e + elapsed ops"
| "elapsed (_ # ops) = elapsed ops"

lemma elapsed_ge: "list_all op_ok ops \<Longrightarrow> 0 \<le> elapsed ops"
  by (induction ops rule: elapsed.induct) auto

lemma elapsed_0: "(\<And>e. Age e \<notin> set ops) \<Longrightarrow> elapsed ops = 0"
  by (induction ops rule: elapsed.induct) auto

lemma sorted_takeWhile_le:
  "sorted (map fst xs) \<Longrightarrow> takeWhile (\<lambda>(t, _). t \<le> e) xs = filter (\<lambda>(t, _). t \<le> e) xs" for e :: int
proof (induction xs)
  case (Cons x xs)
  then have "filter (\<lambda>(t, _). t \<le> e) xs = []" if "\<not> fst x \<le> e" using that by (force simp: filter_empty_conv)
  then show ?case using Cons by (simp add: case_prod_unfold)
qed simp

lemma sorted_dropWhile_le:
  "sorted (map fst xs) \<Longrightarrow> dropWhile (\<lambda>(t, _). t \<le> e) xs = filter (\<lambda>(t, _). e < t) xs" for e :: int
proof (induction xs)
  case (Cons x xs)
  then have "filter (\<lambda>(t, _). e < t) xs = xs" if "\<not> fst x \<le> e" using that by (force simp: filter_id_conv)
  then show ?case using Cons by (simp add: case_prod_unfold)
qed simp

lemma filter_split: "filter P (takeWhile Q xs) @ filter P (dropWhile Q xs) = filter P xs"
  by (metis filter_append takeWhile_dropWhile_id)

locale timer_service =
  fixes inv :: "'q \<Rightarrow> bool"
    and pending :: "'q \<Rightarrow> (int \<times> 'i \<times> 'a) list"
    and fresh :: "'q \<Rightarrow> 'i"
    and set_timer :: "int \<Rightarrow> 'a \<Rightarrow> 'q \<Rightarrow> 'q"
    and clear_timer :: "'i \<Rightarrow> 'q \<Rightarrow> 'q"
    and age :: "int \<Rightarrow> 'q \<Rightarrow> ('i \<times> 'a) list \<times> 'q"
  assumes sorted_pending: "inv q \<Longrightarrow> sorted (map fst (pending q))"
    and inv_set: "inv q \<Longrightarrow> 0 \<le> d \<Longrightarrow> inv (set_timer d x q)"
    and inv_clear: "inv q \<Longrightarrow> inv (clear_timer i q)"
    and inv_age: "inv q \<Longrightarrow> inv (snd (age e q))"
    and pending_set: "inv q \<Longrightarrow> pending (set_timer d x q) =
      takeWhile (\<lambda>(t, _). t \<le> d) (pending q) @ (d, fresh q, x) # dropWhile (\<lambda>(t, _). t \<le> d) (pending q)"
    and pending_clear: "inv q \<Longrightarrow> pending (clear_timer i q) =
      takeWhile (\<lambda>(t, j, _). j \<noteq> i) (pending q) @ tl (dropWhile (\<lambda>(t, j, _). j \<noteq> i) (pending q))"
    and fired_age: "inv q \<Longrightarrow> fst (age e q) = map snd (takeWhile (\<lambda>(t, _). t \<le> e) (pending q))"
    and pending_age: "inv q \<Longrightarrow>
      pending (snd (age e q)) = map (\<lambda>(t, x). (t - e, x)) (dropWhile (\<lambda>(t, _). t \<le> e) (pending q))"
begin

lemma fired_due: "inv q \<Longrightarrow> fst (age e q) = map snd (filter (\<lambda>(t, _). t \<le> e) (pending q))"
  by (simp add: fired_age sorted_takeWhile_le sorted_pending)

lemma pending_rest:
  "inv q \<Longrightarrow> pending (snd (age e q)) = map (\<lambda>(t, x). (t - e, x)) (filter (\<lambda>(t, _). e < t) (pending q))"
  by (simp add: pending_age sorted_dropWhile_le sorted_pending)

lemma set_set: "inv q \<Longrightarrow> set (pending (set_timer d x q)) = insert (d, fresh q, x) (set (pending q))"
proof -
  let ?P = "\<lambda>(t, _). t \<le> d"
  have "set (takeWhile ?P (pending q)) \<union> set (dropWhile ?P (pending q)) = set (pending q)"
    by (metis set_append takeWhile_dropWhile_id)
  moreover assume "inv q"
  ultimately show ?thesis by (simp add: pending_set)
qed

lemma set_clear:
  "inv q \<Longrightarrow> (d, j, x) \<in> set (pending q) \<Longrightarrow> j \<noteq> i \<Longrightarrow> (d, j, x) \<in> set (pending (clear_timer i q))"
proof -
  assume a: "inv q" "(d, j, x) \<in> set (pending q)" "j \<noteq> i"
  let ?P = "\<lambda>(t, j, _). j \<noteq> i"
  have "(d, j, x) \<in> set (takeWhile ?P (pending q)) \<union> set (dropWhile ?P (pending q))"
    using a(2) by (metis set_append takeWhile_dropWhile_id)
  moreover have "hd (dropWhile ?P (pending q)) \<noteq> (d, j, x)" if "dropWhile ?P (pending q) \<noteq> []"
    using hd_dropWhile [OF that] a(3) by auto
  ultimately show ?thesis using a(1) by (cases "dropWhile ?P (pending q)") (auto simp: pending_clear)
qed

text \<open>A run: the timers that fired, in order, and the queue after it.\<close>

fun run :: "('i, 'a) timer_op list \<Rightarrow> 'q \<Rightarrow> ('i \<times> 'a) list \<times> 'q" where
  "run [] q = ([], q)"
| "run (Set d x # ops) q = run ops (set_timer d x q)"
| "run (Clear i # ops) q = run ops (clear_timer i q)"
| "run (Age e # ops) q = (let (fs, q) = age e q; (gs, q) = run ops q in (fs @ gs, q))"

lemma run_inv: "inv q \<Longrightarrow> list_all op_ok ops \<Longrightarrow> inv (snd (run ops q))"
proof (induction ops q rule: run.induct)
  case (4 e ops q)
  obtain fs q' where a: "age e q = (fs, q')" by (cases "age e q")
  then show ?case using 4 inv_age [of q e] by (simp add: case_prod_unfold Let_def)
qed (simp_all add: inv_set inv_clear)

text \<open>No timer that is set in a run gets the identifier \<^verbatim>\<open>i\<close>.\<close>

fun unused :: "'i \<Rightarrow> ('i, 'a) timer_op list \<Rightarrow> 'q \<Rightarrow> bool" where
  "unused i [] q = True"
| "unused i (Set d x # ops) q = (fresh q \<noteq> i \<and> unused i ops (set_timer d x q))"
| "unused i (Clear j # ops) q = unused i ops (clear_timer j q)"
| "unused i (Age e # ops) q = unused i ops (snd (age e q))"

abbreviation of_id :: "'i \<Rightarrow> (int \<times> 'i \<times> 'a) list \<Rightarrow> (int \<times> 'i \<times> 'a) list" where
  "of_id i \<equiv> filter (\<lambda>(t, j, x). j = i)"

lemma of_id_set:
  assumes "inv q" and "fresh q \<noteq> i"
  shows "of_id i (pending (set_timer d x q)) = of_id i (pending q)"
  using assms by (simp add: pending_set filter_split)

lemma of_id_clear:
  assumes "inv q" and "j \<noteq> i"
  shows "of_id i (pending (clear_timer j q)) = of_id i (pending q)"
proof -
  let ?P = "\<lambda>(t, k, _). k \<noteq> j"
  have "of_id i (tl (dropWhile ?P (pending q))) = of_id i (dropWhile ?P (pending q))"
  proof (cases "dropWhile ?P (pending q)")
    case (Cons y ys)
    then have "\<not> ?P y" by (metis hd_dropWhile list.discI list.sel(1))
    then show ?thesis using Cons assms(2) by auto
  next
    case Nil
    show ?thesis unfolding Nil by simp
  qed
  then show ?thesis using assms(1) by (simp add: pending_clear filter_split)
qed

lemma of_id_age:
  assumes "inv q"
  shows "filter (\<lambda>(j, x). j = i) (fst (age e q)) = map snd (filter (\<lambda>(t, _). t \<le> e) (of_id i (pending q)))"
    and "of_id i (pending (snd (age e q))) = map (\<lambda>(t, x). (t - e, x)) (filter (\<lambda>(t, _). e < t) (of_id i (pending q)))"
  by (simp_all add: fired_due [OF assms] pending_rest [OF assms] filter_map o_def case_prod_unfold conj_commute)

lemma run_never:
  assumes "inv q" and "list_all op_ok ops" and "unused i ops q" and "Clear i \<notin> set ops" and "of_id i (pending q) = []"
  shows "filter (\<lambda>(j, x). j = i) (fst (run ops q)) = []"
  using assms
proof (induction ops q rule: run.induct)
  case (4 e ops q)
  obtain fs q' where a: "age e q = (fs, q')" by (cases "age e q")
  have f: "filter (\<lambda>(j, x). j = i) fs = []" "of_id i (pending q') = []" "inv q'"
    using of_id_age [OF 4(2), of i e] inv_age [OF 4(2), of e] 4(6) a by simp_all
  have "filter (\<lambda>(j, x). j = i) (fst (run ops q')) = []"
    by (rule 4(1) [OF a [symmetric] refl f(3)]) (use 4(3-5) a f(2) in simp_all)
  then show ?case using f(1) a by (simp add: case_prod_unfold Let_def)
qed (auto simp: inv_set inv_clear of_id_set of_id_clear)

text \<open>The only timer with its identifier fires once, when its time has come, and is pending until then.\<close>

lemma run_once:
  assumes "inv q" and "list_all op_ok ops" and "unused i ops q" and "Clear i \<notin> set ops" and "of_id i (pending q) = [(d, i, x)]"
  shows "if d \<le> elapsed ops \<and> (\<exists>e. Age e \<in> set ops) then filter (\<lambda>(j, x). j = i) (fst (run ops q)) = [(i, x)]
         else filter (\<lambda>(j, x). j = i) (fst (run ops q)) = [] \<and> of_id i (pending (snd (run ops q))) = [(d - elapsed ops, i, x)]"
  using assms
proof (induction ops q arbitrary: d rule: run.induct)
  case (2 d' x' ops q)
  have "inv (set_timer d' x' q)" "of_id i (pending (set_timer d' x' q)) = [(d, i, x)]"
    using 2(2-) by (simp_all add: inv_set of_id_set)
  then show ?case using 2(1) [of d] 2(3-5) by simp
next
  case (3 j ops q)
  have "inv (clear_timer j q)" "of_id i (pending (clear_timer j q)) = [(d, i, x)]"
    using 3(2-) of_id_clear [of q j i] by (auto simp: inv_clear)
  then show ?case using 3(1) [of d] 3(3-5) by simp
next
  case (4 e ops q)
  obtain fs q' where a: "age e q = (fs, q')" by (cases "age e q")
  have i: "inv q'" using inv_age [of q e] 4(2) a by simp
  have p: "list_all op_ok ops" "unused i ops q'" "Clear i \<notin> set ops" using 4(3-5) a by simp_all
  note f = of_id_age [OF 4(2), of i e, unfolded a fst_conv snd_conv 4(6)]
  have r: "run (Age e # ops) q = (fs @ fst (run ops q'), snd (run ops q'))" by (simp add: a case_prod_unfold Let_def)
  show ?case
  proof (cases "d \<le> e")
    case True
    then show ?thesis using f run_never [OF i p] elapsed_ge [OF p(1)] unfolding r by auto
  next
    case False
    then have "of_id i (pending q') = [(d - e, i, x)]" "filter (\<lambda>(j, x). j = i) fs = []" using f by simp_all
    then show ?thesis using 4(1) [OF a [symmetric] refl i p] False elapsed_0 [of ops] unfolding r
      by (auto simp: diff_diff_eq split: if_splits)
  qed
qed simp

end

section \<open>The queue provides the interface\<close>

definition callouts_ok :: "('f, 'd) callouts \<Rightarrow> bool" where
  "callouts_ok c \<longleftrightarrow> queue_ok (co_Q c) \<and> list_all (\<lambda>p. tq_id p \<noteq> 0) (co_Q c)"

definition next_id :: "('f, 'd) callouts \<Rightarrow> u32" where
  "next_id c = (if co_id c + 1 = 0 then 1 else co_id c + 1)"

definition age_queue ::
  "int \<Rightarrow> ('f, 'd) callouts \<Rightarrow> (u32 \<times> 'f option \<times> 'd option) list \<times> ('f, 'd) callouts" where
  "age_queue e c = (map (\<lambda>p. (tq_id p, tq_func p, tq_data p)) (fst (expire e (co_Q c))), c\<lparr>co_Q := snd (expire e (co_Q c))\<rparr>)"

abbreviation set_timer :: "int \<Rightarrow> 'f option \<times> 'd option \<Rightarrow> ('f, 'd) callouts \<Rightarrow> ('f, 'd) callouts" where
  "set_timer d x c \<equiv> snd (timer_setTimer True d (fst x) (snd x) c)"

lemma setTimer_eq:
  "timer_setTimer True d f x c =
     (sint (next_id c), c\<lparr>co_id := next_id c,
        co_Q := insert_node \<lparr>tq_id = next_id c, tq_func = f, tq_data = x, tq_time = d\<rparr> (co_Q c)\<rparr>)"
  by (simp add: timer_setTimer_def next_id_def Let_def)

lemma next_id_nonzero: "next_id c \<noteq> 0"
  by (simp add: next_id_def)

lemma insert_ids: "list_all (\<lambda>p. tq_id p \<noteq> 0) Q \<Longrightarrow> tq_id node \<noteq> 0 \<Longrightarrow> list_all (\<lambda>p. tq_id p \<noteq> 0) (insert_node node Q)"
  by (induction node Q rule: insert_node.induct) auto

lemma expire_ids: "list_all (\<lambda>p. tq_id p \<noteq> 0) Q \<Longrightarrow> list_all (\<lambda>p. tq_id p \<noteq> 0) (snd (expire e Q))"
  by (induction e Q rule: expire.induct) (auto simp: case_prod_unfold Let_def)

lemma unlink_ids: "list_all (\<lambda>p. tq_id p \<noteq> 0) Q \<Longrightarrow> list_all (\<lambda>p. tq_id p \<noteq> 0) (unlink_node i Q)"
  by (induction i Q rule: unlink_node.induct) (auto split: list.splits)

lemma schedule_snd: "map snd (schedule_from s Q) = map (\<lambda>p. (tq_id p, tq_func p, tq_data p)) Q"
  by (induction Q arbitrary: s) auto

lemma schedule_ids: "(t, i, x) \<in> set (schedule_from s Q) \<Longrightarrow> list_all (\<lambda>p. tq_id p \<noteq> 0) Q \<Longrightarrow> i \<noteq> 0"
  by (induction Q arbitrary: s) auto

lemma schedule_rest:
  "schedule (snd (expire e Q)) = map (\<lambda>(t, x). (t - e, x)) (dropWhile (\<lambda>(t, _). t \<le> e) (schedule Q))"
proof -
  have "delay_by e (schedule (snd (expire e Q))) = dropWhile (\<lambda>(t, _). t \<le> e) (schedule Q)"
    using expire_schedule [of 0 e Q] schedule_shift0 [of e "snd (expire e Q)"] by simp
  moreover have "map (\<lambda>(t, x). (t - e, x)) (delay_by e S) = S" for S :: "('a, 'b) schedule"
    by (induction S) (auto simp: delay_by_def)
  ultimately show ?thesis by metis
qed

lemma clear_zero:
  "list_all (\<lambda>p. tq_id p \<noteq> 0) Q \<Longrightarrow>
   takeWhile (\<lambda>(t, j, _). j \<noteq> 0) (schedule_from s Q) @ tl (dropWhile (\<lambda>(t, j, _). j \<noteq> 0) (schedule_from s Q)) =
   schedule_from s Q"
  by (induction Q arbitrary: s) auto

interpretation timers: timer_service callouts_ok "\<lambda>c. schedule (co_Q c)" next_id set_timer
  "\<lambda>i c. snd (timer_clearTimer i c)" age_queue
proof (unfold_locales, goal_cases)
  case (1 q) then show ?case by (simp add: callouts_ok_def schedule_sorted)
next
  case (2 q d x) then show ?case by (simp add: callouts_ok_def setTimer_eq insert_ok insert_ids next_id_nonzero)
next
  case (3 q i) then show ?case by (simp add: callouts_ok_def timer_clearTimer_def unlink_ok unlink_ids)
next
  case (4 q e) then show ?case by (simp add: callouts_ok_def age_queue_def expire_ok expire_ids)
next
  case (5 q d x) then show ?case by (simp add: setTimer_eq schedule_insert)
next
  case (6 q i)
  then show ?case by (cases "i = 0") (simp_all add: callouts_ok_def timer_clearTimer_def unlink_schedule clear_zero)
next
  case (7 q e)
  then show ?case using expire_schedule [of 0 e "co_Q q"] schedule_snd [of 0 "fst (expire e (co_Q q))"]
    by (simp add: age_queue_def)
next
  case (8 q e) then show ?case by (simp add: age_queue_def schedule_rest)
qed

text \<open>
  \<^verbatim>\<open>age_callout_queue\<close> first takes the due timers out of the queue and then calls their functions, which may
  set and clear timers themselves.
\<close>

definition call_entry ::
  "('f \<Rightarrow> 'd option \<Rightarrow> 's \<Rightarrow> 's) \<Rightarrow> u32 \<times> 'f option \<times> 'd option \<Rightarrow> 's \<Rightarrow> 's" where
  "call_entry call x s = (case fst (snd x) of None \<Rightarrow> s | Some f \<Rightarrow> call f (snd (snd x)) s)"

lemma run_expired_fold:
  "run_expired call expQ s = fold (call_entry call) (map (\<lambda>p. (tq_id p, tq_func p, tq_data p)) expQ) s"
  by (induction call expQ s rule: run_expired.induct) (auto simp: call_entry_def split: option.split)

lemma age_callout_queue_eq:
  "age_callout_queue call e (c, w) = fold (call_entry call) (fst (age_queue e c)) (snd (age_queue e c), w)"
  by (simp add: age_callout_queue_def run_expired_fold age_queue_def case_prod_unfold Let_def)

text \<open>
  A piece of the daemon that uses the queue only through \<^verbatim>\<open>timer_setTimer\<close> and \<^verbatim>\<open>timer_clearTimer\<close>: what it does
  to the queue is a run of these, which can depend on its data and on the state of the daemon. It does not
  clear the timer \<^verbatim>\<open>i\<close> and sets at most \<^verbatim>\<open>n\<close> timers.
\<close>

fun sets :: "('i, 'a) timer_op list \<Rightarrow> nat" where
  "sets [] = 0"
| "sets (Set d x # ops) = Suc (sets ops)"
| "sets (_ # ops) = sets ops"

definition uses_queue :: "nat \<Rightarrow> u32 \<Rightarrow> (('f, 'd) callouts \<times> 'w \<Rightarrow> ('f, 'd) callouts \<times> 'w) \<Rightarrow> bool" where
  "uses_queue n i g \<longleftrightarrow> (\<forall>c w. \<exists>ops. fst (g (c, w)) = snd (timers.run ops c) \<and> list_all op_ok ops \<and>
     (\<forall>e. Age e \<notin> set ops) \<and> Clear i \<notin> set ops \<and> sets ops \<le> n)"

lemma run_append:
  "timers.run (xs @ ys) c =
     (fst (timers.run xs c) @ fst (timers.run ys (snd (timers.run xs c))), snd (timers.run ys (snd (timers.run xs c))))"
proof (induction xs arbitrary: c)
  case (Cons op xs)
  show ?case by (cases op) (simp_all add: Cons case_prod_unfold Let_def)
qed simp

lemma run_no_age: "(\<And>e. Age e \<notin> set ops) \<Longrightarrow> fst (timers.run ops c) = []"
proof (induction ops arbitrary: c)
  case (Cons op ops)
  then show ?case by (cases op) auto
qed simp

lemma elapsed_append: "elapsed (xs @ ys) = elapsed xs + elapsed ys"
  by (induction xs rule: elapsed.induct) auto

lemma sets_append: "sets (xs @ ys) = sets xs + sets ys"
  by (induction xs rule: sets.induct) auto

lemma calls_run:
  assumes "\<And>f x. uses_queue n i (call f x)"
  shows "\<exists>ops. fst (fold (call_entry call) xs (c, w)) = snd (timers.run ops c) \<and> list_all op_ok ops \<and>
     (\<forall>e. Age e \<notin> set ops) \<and> Clear i \<notin> set ops \<and> sets ops \<le> n * length xs"
proof (induction xs arbitrary: c w)
  case Nil
  show ?case by (rule exI [of _ "[]"]) simp
next
  case (Cons x xs)
  obtain c' w' where s: "call_entry call x (c, w) = (c', w')" by (cases "call_entry call x (c, w)")
  have "\<exists>ops. c' = snd (timers.run ops c) \<and> list_all op_ok ops \<and> (\<forall>e. Age e \<notin> set ops) \<and> Clear i \<notin> set ops \<and> sets ops \<le> n"
  proof (cases "fst (snd x)")
    case None
    then show ?thesis using s by (intro exI [of _ "[]"]) (simp add: call_entry_def)
  next
    case (Some f)
    then have "c' = fst (call f (snd (snd x)) (c, w))" using s by (simp add: call_entry_def)
    then show ?thesis using assms [of f "snd (snd x)", unfolded uses_queue_def, rule_format, of c w] by simp
  qed
  then obtain o1 where 1: "c' = snd (timers.run o1 c)" "list_all op_ok o1" "\<forall>e. Age e \<notin> set o1"
    "Clear i \<notin> set o1" "sets o1 \<le> n" by blast
  obtain o2 where 2: "fst (fold (call_entry call) xs (c', w')) = snd (timers.run o2 c')" "list_all op_ok o2"
    "\<forall>e. Age e \<notin> set o2" "Clear i \<notin> set o2" "sets o2 \<le> n * length xs" using Cons by blast
  show ?case using 1 2 s by (intro exI [of _ "o1 @ o2"]) (auto simp: run_append sets_append)
qed

lemma age_run:
  assumes "\<And>f x. uses_queue n i (call f x)" and "0 \<le> e"
  shows "\<exists>ops. fst (age_callout_queue call e (c, w)) = snd (timers.run ops c) \<and>
     fst (timers.run ops c) = fst (age_queue e c) \<and> list_all op_ok ops \<and> elapsed ops = e \<and> Age e \<in> set ops \<and>
     Clear i \<notin> set ops \<and> sets ops \<le> n * length (fst (age_queue e c))"
proof -
  obtain ops where o: "fst (fold (call_entry call) (fst (age_queue e c)) (snd (age_queue e c), w)) =
      snd (timers.run ops (snd (age_queue e c)))" "list_all op_ok ops" "\<forall>e. Age e \<notin> set ops"
    "Clear i \<notin> set ops" "sets ops \<le> n * length (fst (age_queue e c))"
    using calls_run [of n i call, OF assms(1)] by meson
  then show ?thesis using assms(2) run_no_age [of ops] elapsed_0 [of ops]
    by (intro exI [of _ "Age e # ops"]) (auto simp: age_callout_queue_eq case_prod_unfold Let_def)
qed

text \<open>
  The identifiers are the numbers from 1 to 2^32 - 1 in turn, so an identifier comes back only after that many
  timers have been set.
\<close>

definition id_gap :: "u32 \<Rightarrow> u32 \<Rightarrow> int" where
  "id_gap i j = (uint j - uint i) mod (2 ^ 32 - 1)"

lemma id_gap_next: "co_id c \<noteq> 0 \<Longrightarrow> id_gap i (next_id c) = (id_gap i (co_id c) + 1) mod (2 ^ 32 - 1)"
proof -
  let ?u = "uint (co_id c)"
  have u: "0 \<le> ?u" "?u < 2 ^ 32" using uint_lt2p [of "co_id c"] by simp_all
  have w: "uint (co_id c + 1) = (?u + 1) mod 2 ^ 32" by (simp add: uint_word_ariths)
  have e: "(uint (next_id c) - (?u + 1)) mod (2 ^ 32 - 1) = 0"
  proof (cases "?u + 1 = 2 ^ 32")
    case True
    then have "uint (co_id c + 1) = 0" unfolding w by simp
    then have "co_id c + 1 = 0" by (simp only: uint_0_iff)
    then show ?thesis using True by (simp add: next_id_def)
  next
    case False
    then have "uint (co_id c + 1) = ?u + 1" using u unfolding w by simp
    moreover from this have "co_id c + 1 \<noteq> 0" using u(1) by (metis add_le_same_cancel1 not_one_le_zero uint_0_iff)
    ultimately show ?thesis by (simp add: next_id_def)
  qed
  have "uint (next_id c) - uint i = (uint (next_id c) - (?u + 1)) + ((?u - uint i) + 1)" by simp
  then have "id_gap i (next_id c) = ((uint (next_id c) - (?u + 1)) mod (2 ^ 32 - 1) + ((?u - uint i) + 1)) mod (2 ^ 32 - 1)"
    unfolding id_gap_def by (metis mod_add_left_eq)
  then show ?thesis unfolding e id_gap_def by (simp add: mod_simps)
qed

lemma unused_few:
  assumes "co_id c \<noteq> 0" and "id_gap i (co_id c) + int (sets ops) < 2 ^ 32 - 1"
  shows "timers.unused i ops c"
  using assms
proof (induction ops arbitrary: c)
  case (Cons op ops)
  show ?case
  proof (cases op)
    case (Set d x)
    let ?g = "id_gap i (co_id c)"
    have g: "0 \<le> ?g" by (simp add: id_gap_def)
    have l: "?g + 1 < 2 ^ 32 - 1" using Cons.prems(2) Set by simp
    have n: "id_gap i (next_id c) = ?g + 1" using id_gap_next [OF Cons.prems(1), of i] g l by simp
    then have "next_id c \<noteq> i" using g by (auto simp: id_gap_def)
    moreover have "timers.unused i ops (set_timer d x c)"
      by (rule Cons.IH) (use Cons.prems(2) Set n in \<open>simp_all add: setTimer_eq next_id_nonzero\<close>)
    ultimately show ?thesis using Set by simp
  next
    case (Clear j)
    have "co_id (snd (timer_clearTimer j c)) = co_id c" by (simp add: timer_clearTimer_def)
    then show ?thesis using Cons Clear by simp
  next
    case (Age e)
    have "co_id (snd (age_queue e c)) = co_id c" by (simp add: age_queue_def)
    then show ?thesis using Cons Age by simp
  qed
qed simp

section \<open>The clock of the main loop\<close>

text \<open>
  The \<^verbatim>\<open>do\<close> loop of \<^verbatim>\<open>main\<close> that ages the queue. \<^verbatim>\<open>now\<close> are the values that \<^verbatim>\<open>gettimeofday\<close> will return, and
  the loop is \<^verbatim>\<open>None\<close> when they do not suffice for it to end. The first component of the result lists the
  arguments with which \<^verbatim>\<open>age_callout_queue\<close> is called.
\<close>

record timeval =
  tv_sec :: int
  tv_usec :: int

record loop_clock =
  lasttime :: timeval
  difftime :: timeval

function carry_usec :: "timeval \<Rightarrow> timeval" where
  "carry_usec d =
     (if tv_usec d \<ge> 1000000 then carry_usec (d\<lparr>tv_sec := tv_sec d + 1, tv_usec := tv_usec d - 1000000\<rparr>) else d)"
  by pat_completeness auto
termination by (relation "measure (\<lambda>d. nat (tv_usec d))") auto

declare carry_usec.simps [simp del]

definition clock_step :: "timeval \<Rightarrow> int \<Rightarrow> loop_clock \<Rightarrow> int list \<times> loop_clock" where
  "clock_step curtime secs k =
     (let d = \<lparr>tv_sec = tv_sec curtime - tv_sec (lasttime k),
               tv_usec = tv_usec (difftime k) + (tv_usec curtime - tv_usec (lasttime k))\<rparr>;
          d = carry_usec d;
          d = (if tv_usec d < 0 then d\<lparr>tv_sec := tv_sec d - 1, tv_usec := tv_usec d + 1000000\<rparr> else d)
      in (if secs = 0 \<or> tv_sec d > 0 then [tv_sec d] else [], \<lparr>lasttime = curtime, difftime = d\<rparr>))"

function time_loop :: "timeval list \<Rightarrow> int \<Rightarrow> int \<Rightarrow> loop_clock \<Rightarrow> (int list \<times> int \<times> loop_clock \<times> timeval list) option" where
  "time_loop now n secs k = do {
     (curtime, n, now) \<leftarrow>
       (if n = 0 then Some (\<lparr>tv_sec = tv_sec (lasttime k) + secs, tv_usec = tv_usec (lasttime k)\<rparr>, -1, now)
        else (case now of [] \<Rightarrow> None | t # now \<Rightarrow> Some (t, n, now)));
     (case clock_step curtime secs k of (ages, k) \<Rightarrow>
       if tv_sec (difftime k) > 0
       then do { (ages', n, k, now) \<leftarrow> time_loop now n (-1) k; Some (ages @ ages', n, k, now) }
       else Some (ages, n, k, now)) }"
  by pat_completeness auto
termination
  by (relation "measure (\<lambda>(now, n, secs, k). 2 * length now + (if n = 0 then 1 else 0))")
    (auto split: if_splits list.splits)

declare time_loop.simps [simp del]

text \<open>
  A round of the main loop after \<^verbatim>\<open>select\<close> has returned \<^verbatim>\<open>n\<close>; \<^verbatim>\<open>handlers\<close> stands for the input handlers, which
  are called through function pointers as the timer functions are.
\<close>

definition main_round ::
  "('f \<Rightarrow> 'd option \<Rightarrow> ('f, 'd) callouts \<times> 'w \<Rightarrow> ('f, 'd) callouts \<times> 'w) \<Rightarrow>
   (('f, 'd) callouts \<times> 'w \<Rightarrow> ('f, 'd) callouts \<times> 'w) \<Rightarrow> timeval list \<Rightarrow> int \<Rightarrow>
   ('f, 'd) callouts \<times> 'w \<Rightarrow> loop_clock \<Rightarrow> (int list \<times> (('f, 'd) callouts \<times> 'w) \<times> loop_clock) option" where
  "main_round call handlers now n s k =
     (let secs = timer_nextTimer (fst s)
      in if n < 0 then Some ([], s, k)
         else do {
           (ages, n, k, now) \<leftarrow> time_loop now n secs k;
           let s = fold (age_callout_queue call) ages s;
           Some (ages, if n > 0 then handlers s else s, k) })"

definition us :: "timeval \<Rightarrow> int" where
  "us t = 1000000 * tv_sec t + tv_usec t"

lemma carry_us:
  "us (carry_usec d) = us d \<and> tv_usec (carry_usec d) < 1000000 \<and>
   (0 \<le> tv_usec d \<longrightarrow> 0 \<le> tv_usec (carry_usec d)) \<and> (tv_usec d < 0 \<longrightarrow> carry_usec d = d)"
proof (induction d rule: carry_usec.induct)
  case (1 d)
  show ?case
  proof (cases "tv_usec d \<ge> 1000000")
    case True
    then show ?thesis using 1 by (subst (1 2 3 4) carry_usec.simps) (auto simp: us_def)
  next
    case False
    then show ?thesis by (subst (1 2 3 4) carry_usec.simps) auto
  qed
qed

text \<open>The microseconds that are kept are those of a second that has begun.\<close>

definition clock_ok :: "loop_clock \<Rightarrow> bool" where
  "clock_ok k \<longleftrightarrow> 0 \<le> tv_usec (difftime k) \<and> tv_usec (difftime k) < 1000000 \<and>
     0 \<le> tv_usec (lasttime k) \<and> tv_usec (lasttime k) < 1000000"

definition time_ok :: "timeval \<Rightarrow> bool" where
  "time_ok t \<longleftrightarrow> 0 \<le> tv_usec t \<and> tv_usec t < 1000000"

lemma clock_step_time:
  assumes "clock_ok k" and "time_ok t" and "us (lasttime k) \<le> us t" and "clock_step t secs k = (ages, k')"
  shows "clock_ok k'" and "lasttime k' = t" and "list_all (\<lambda>e. 0 \<le> e) ages" and "0 \<le> tv_sec (difftime k')"
    and "1000000 * sum_list ages + tv_usec (difftime k') = us t - us (lasttime k) + tv_usec (difftime k)"
    and "sum_list ages = tv_sec (difftime k')" and "secs = 0 \<Longrightarrow> ages \<noteq> []"
proof -
  define d where "d = \<lparr>tv_sec = tv_sec t - tv_sec (lasttime k),
               tv_usec = tv_usec (difftime k) + (tv_usec t - tv_usec (lasttime k))\<rparr>"
  define d' where "d' = (if tv_usec (carry_usec d) < 0
    then (carry_usec d)\<lparr>tv_sec := tv_sec (carry_usec d) - 1, tv_usec := tv_usec (carry_usec d) + 1000000\<rparr> else carry_usec d)"
  have r: "ages = (if secs = 0 \<or> tv_sec d' > 0 then [tv_sec d'] else [])" "k' = \<lparr>lasttime = t, difftime = d'\<rparr>"
  proof -
    have "clock_step t secs k = (if secs = 0 \<or> tv_sec d' > 0 then [tv_sec d'] else [], \<lparr>lasttime = t, difftime = d'\<rparr>)"
      by (simp only: clock_step_def Let_def d'_def d_def)
    then show "ages = (if secs = 0 \<or> tv_sec d' > 0 then [tv_sec d'] else [])" "k' = \<lparr>lasttime = t, difftime = d'\<rparr>"
      using assms(4) by simp_all
  qed
  have u: "us d = us t - us (lasttime k) + tv_usec (difftime k)" by (simp add: d_def us_def)
  have b: "-1000000 < tv_usec d" using assms(1,2) by (simp add: d_def clock_ok_def time_ok_def)
  have c: "us (carry_usec d) = us d" "tv_usec (carry_usec d) < 1000000" "0 \<le> tv_usec d \<Longrightarrow> 0 \<le> tv_usec (carry_usec d)"
    "tv_usec d < 0 \<Longrightarrow> carry_usec d = d" using carry_us [of d] b by auto
  have d': "0 \<le> tv_usec d'" "tv_usec d' < 1000000" "us d' = us d"
    using b c unfolding d'_def us_def by (cases "tv_usec d < 0"; auto)+
  then have s: "0 \<le> tv_sec d'" using u assms(1,3) by (simp add: us_def clock_ok_def)
  show "clock_ok k'" "lasttime k' = t" "0 \<le> tv_sec (difftime k')" using r d' s assms(2) by (auto simp: clock_ok_def time_ok_def)
  show "list_all (\<lambda>e. 0 \<le> e) ages" "sum_list ages = tv_sec (difftime k')" "secs = 0 \<Longrightarrow> ages \<noteq> []" using r s by auto
  show "1000000 * sum_list ages + tv_usec (difftime k') = us t - us (lasttime k) + tv_usec (difftime k)"
    using r s d' u by (auto simp: us_def)
qed

text \<open>
  Readings that do not go back. When \<^verbatim>\<open>select\<close> has timed out, the first round takes the time it asked for
  instead of a reading, and the readings come after it.
\<close>

definition clock_runs :: "timeval list \<Rightarrow> int \<Rightarrow> int \<Rightarrow> loop_clock \<Rightarrow> bool" where
  "clock_runs now n secs k \<longleftrightarrow> list_all time_ok now \<and>
     sorted ((us (lasttime k) + (if n = 0 then 1000000 * secs else 0)) # map us now) \<and> (n = 0 \<longrightarrow> 0 \<le> secs)"

lemma time_loop_step:
  assumes "clock_ok k" and "clock_runs now n secs k" and "now \<noteq> [] \<or> n = 0"
  obtains t now' ages k' where "clock_step t secs k = (ages, k')" "time_ok t" "us (lasttime k) \<le> us t"
    "clock_ok k'" "clock_runs now' (if n = 0 then -1 else n) (-1) k'"
    "time_loop now n secs k = (if tv_sec (difftime k') > 0
       then do { (ages', n, k, now) \<leftarrow> time_loop now' (if n = 0 then -1 else n) (-1) k'; Some (ages @ ages', n, k, now) }
       else Some (ages, if n = 0 then -1 else n, k', now'))"
    "now' = (if n = 0 then now else tl now)" "t = (if n = 0 then \<lparr>tv_sec = tv_sec (lasttime k) + secs, tv_usec = tv_usec (lasttime k)\<rparr> else hd now)"
proof -
  define t where "t = (if n = 0 then \<lparr>tv_sec = tv_sec (lasttime k) + secs, tv_usec = tv_usec (lasttime k)\<rparr> else hd now)"
  define now' where "now' = (if n = 0 then now else tl now)"
  obtain ages k' where s: "clock_step t secs k = (ages, k')" by (cases "clock_step t secs k")
  have now: "n \<noteq> 0 \<Longrightarrow> now = hd now # tl now" using assms(3) by simp
  have t: "time_ok t" "us (lasttime k) \<le> us t"
    using assms by (cases now; auto simp: t_def clock_runs_def time_ok_def clock_ok_def us_def)+
  note k = clock_step_time [OF assms(1) t s]
  have r: "clock_runs now' (if n = 0 then -1 else n) (-1) k'"
    using assms(2,3) k(2) by (cases now) (auto simp: clock_runs_def now'_def t_def us_def)
  have "time_loop now n secs k = (if tv_sec (difftime k') > 0
       then do { (ages', n, k, now) \<leftarrow> time_loop now' (if n = 0 then -1 else n) (-1) k'; Some (ages @ ages', n, k, now) }
       else Some (ages, if n = 0 then -1 else n, k', now'))"
    by (subst time_loop.simps) (use s assms(3) in \<open>cases now; auto simp: t_def now'_def\<close>)
  then show ?thesis using that s t k(1) r now'_def t_def by blast
qed

definition loop_left :: "timeval list \<Rightarrow> int \<Rightarrow> nat" where
  "loop_left now n = 2 * length now + (if n = 0 then 1 else 0)"

lemma loop_left_less: "now \<noteq> [] \<or> n = 0 \<Longrightarrow> loop_left (if n = 0 then now else tl now) (if n = 0 then -1 else n) < loop_left now n"
  by (cases now) (auto simp: loop_left_def)

lemma time_loop_time:
  assumes "clock_ok k" and "clock_runs now n secs k" and "time_loop now n secs k = Some (ages, n', k', now')"
  shows "clock_ok k' \<and> list_all (\<lambda>e. 0 \<le> e) ages \<and> (secs = 0 \<longrightarrow> ages \<noteq> []) \<and>
    1000000 * sum_list ages + tv_usec (difftime k') = us (lasttime k') - us (lasttime k) + tv_usec (difftime k)"
  using assms
proof (induction "loop_left now n" arbitrary: now n secs k ages rule: less_induct)
  case less
  have ne: "now \<noteq> [] \<or> n = 0" using less(4) by (subst (asm) time_loop.simps) (auto split: if_splits list.splits)
  obtain t now1 a1 k1 where s: "clock_step t secs k = (a1, k1)" "time_ok t" "us (lasttime k) \<le> us t" "clock_ok k1"
    "clock_runs now1 (if n = 0 then -1 else n) (-1) k1"
    and tl: "time_loop now n secs k = (if tv_sec (difftime k1) > 0
       then do { (ages', n, k, now) \<leftarrow> time_loop now1 (if n = 0 then -1 else n) (-1) k1; Some (a1 @ ages', n, k, now) }
       else Some (a1, if n = 0 then -1 else n, k1, now1))"
    and d: "now1 = (if n = 0 then now else tl now)"
      "t = (if n = 0 then \<lparr>tv_sec = tv_sec (lasttime k) + secs, tv_usec = tv_usec (lasttime k)\<rparr> else hd now)"
    by (rule time_loop_step [OF less(2,3) ne])
  note k1 = clock_step_time [OF less(2) s(2,3,1)]
  show ?case
  proof (cases "tv_sec (difftime k1) > 0")
    case True
    then obtain a2 where r: "time_loop now1 (if n = 0 then -1 else n) (-1) k1 = Some (a2, n', k', now')" "ages = a1 @ a2"
      using less(4) [unfolded tl] by (auto simp: bind_eq_Some_conv)
    have "loop_left now1 (if n = 0 then -1 else n) < loop_left now n" using loop_left_less [OF ne] d(1) by simp
    from less(1) [OF this s(4,5) r(1)] show ?thesis using k1 r(2) by auto
  next
    case False
    then show ?thesis using tl less(4) k1 s by auto
  qed
qed

text \<open>The loop goes on only while every reading is at least about a second after the one before it.\<close>

lemma time_loop_ends:
  assumes "clock_ok k" and "clock_runs now n secs k" and "now \<noteq> []"
    and "us (last now) < us (lasttime k) - tv_usec (difftime k) + 1000000 * int (length now)"
  shows "time_loop now n secs k \<noteq> None"
  using assms
proof (induction "loop_left now n" arbitrary: now n secs k rule: less_induct)
  case less
  have ne: "now \<noteq> [] \<or> n = 0" using less(4) by simp
  obtain t now1 a1 k1 where s: "clock_step t secs k = (a1, k1)" "time_ok t" "us (lasttime k) \<le> us t" "clock_ok k1"
    "clock_runs now1 (if n = 0 then -1 else n) (-1) k1"
    and tl: "time_loop now n secs k = (if tv_sec (difftime k1) > 0
       then do { (ages', n, k, now) \<leftarrow> time_loop now1 (if n = 0 then -1 else n) (-1) k1; Some (a1 @ ages', n, k, now) }
       else Some (a1, if n = 0 then -1 else n, k1, now1))"
    and d: "now1 = (if n = 0 then now else tl now)"
      "t = (if n = 0 then \<lparr>tv_sec = tv_sec (lasttime k) + secs, tv_usec = tv_usec (lasttime k)\<rparr> else hd now)"
    by (rule time_loop_step [OF less(2,3) ne])
  note k1 = clock_step_time [OF less(2) s(2,3,1)]
  show ?case
  proof (cases "tv_sec (difftime k1) > 0")
    case True
    have g: "us (lasttime k1) - tv_usec (difftime k1) \<ge> us (lasttime k) - tv_usec (difftime k) + 1000000"
      using k1(5,6) True unfolding k1(2) by linarith
    have l: "loop_left now1 (if n = 0 then -1 else n) < loop_left now n" using loop_left_less [OF ne] d(1) by simp
    have n1: "now1 \<noteq> []"
    proof
      assume "now1 = []"
      then have n: "n \<noteq> 0" "length now = 1" using d(1) less(4) by (auto simp: tl_Nil split: if_splits)
      then have "last now = t" using d(2) by (cases now) auto
      then show False using less(5) g n k1(1,2) by (simp add: clock_ok_def)
    qed
    have "us (last now1) < us (lasttime k1) - tv_usec (difftime k1) + 1000000 * int (length now1)"
    proof (cases "n = 0")
      case True then show ?thesis using less(5) g d(1) by simp
    next
      case False
      then have "last now1 = last now" "int (length now1) = int (length now) - 1" using d(1) n1 less(4) by (cases now; simp)+
      then show ?thesis using less(5) g by simp
    qed
    from less(1) [OF l s(4,5) n1 this] show ?thesis using tl True by auto
  next
    case False
    then show ?thesis using tl by simp
  qed
qed

lemma main_round_time_eq:
  assumes "clock_ok k" and "clock_runs now n (timer_nextTimer (fst s)) k" and "main_round call handlers now n s k = Some (ages, s', k')"
  shows "clock_ok k' \<and> list_all (\<lambda>e. 0 \<le> e) ages \<and>
    1000000 * sum_list ages + tv_usec (difftime k') = us (lasttime k') - us (lasttime k) + tv_usec (difftime k)"
proof (cases "n < 0")
  case True
  then show ?thesis using assms by (auto simp: main_round_def)
next
  case False
  then obtain n' now' where "time_loop now n (timer_nextTimer (fst s)) k = Some (ages, n', k', now')"
    using assms(3) by (auto simp: main_round_def Let_def bind_eq_Some_conv)
  from time_loop_time [OF assms(1,2) this] show ?thesis by simp
qed

lemma main_round_ends:
  assumes "clock_ok k" and "clock_runs now n (timer_nextTimer (fst s)) k" and "now \<noteq> []"
    and "us (last now) < us (lasttime k) - tv_usec (difftime k) + 1000000 * int (length now)"
  shows "main_round call handlers now n s k \<noteq> None"
  using time_loop_ends [OF assms] by (auto simp: main_round_def Let_def)

section \<open>Timers over time\<close>

text \<open>
  What happens to the queue while the daemon runs: it is aged, and input handlers run. \<^verbatim>\<open>fired_in\<close> lists the
  entries whose functions are called on the way.
\<close>

datatype ('f, 'd, 'w) queue_step = AgeBy int | Handle "('f, 'd) callouts \<times> 'w \<Rightarrow> ('f, 'd) callouts \<times> 'w"

fun do_steps :: "('f \<Rightarrow> 'd option \<Rightarrow> ('f, 'd) callouts \<times> 'w \<Rightarrow> ('f, 'd) callouts \<times> 'w) \<Rightarrow> ('f, 'd, 'w) queue_step list \<Rightarrow>
    ('f, 'd) callouts \<times> 'w \<Rightarrow> ('f, 'd) callouts \<times> 'w" where
  "do_steps call [] s = s"
| "do_steps call (AgeBy e # steps) s = do_steps call steps (age_callout_queue call e s)"
| "do_steps call (Handle h # steps) s = do_steps call steps (h s)"

fun fired_in :: "('f \<Rightarrow> 'd option \<Rightarrow> ('f, 'd) callouts \<times> 'w \<Rightarrow> ('f, 'd) callouts \<times> 'w) \<Rightarrow> ('f, 'd, 'w) queue_step list \<Rightarrow>
    ('f, 'd) callouts \<times> 'w \<Rightarrow> (u32 \<times> 'f option \<times> 'd option) list" where
  "fired_in call [] s = []"
| "fired_in call (AgeBy e # steps) s = fst (age_queue e (fst s)) @ fired_in call steps (age_callout_queue call e s)"
| "fired_in call (Handle h # steps) s = fired_in call steps (h s)"

fun aged :: "('f, 'd, 'w) queue_step list \<Rightarrow> int list" where
  "aged [] = []"
| "aged (AgeBy e # steps) = e # aged steps"
| "aged (Handle h # steps) = aged steps"

definition steps_ok :: "nat \<Rightarrow> u32 \<Rightarrow> ('f \<Rightarrow> 'd option \<Rightarrow> ('f, 'd) callouts \<times> 'w \<Rightarrow> ('f, 'd) callouts \<times> 'w) \<Rightarrow>
    ('f, 'd, 'w) queue_step list \<Rightarrow> bool" where
  "steps_ok n i call steps \<longleftrightarrow> (\<forall>f x. uses_queue n i (call f x)) \<and>
     list_all (\<lambda>s. case s of AgeBy e \<Rightarrow> 0 \<le> e | Handle h \<Rightarrow> uses_queue n i h) steps"

lemma steps_run:
  assumes "steps_ok n i call steps"
  shows "\<exists>ops. fst (do_steps call steps (c, w)) = snd (timers.run ops c) \<and>
    fst (timers.run ops c) = fired_in call steps (c, w) \<and> list_all op_ok ops \<and> elapsed ops = sum_list (aged steps) \<and>
    ((\<exists>e. Age e \<in> set ops) \<longleftrightarrow> aged steps \<noteq> []) \<and> Clear i \<notin> set ops \<and>
    sets ops \<le> n * (length (fired_in call steps (c, w)) + length steps)"
  using assms
proof (induction steps arbitrary: c w)
  case Nil
  show ?case by (rule exI [of _ "[]"]) simp
next
  case (Cons s steps)
  have u: "\<And>f x. uses_queue n i (call f x)" and so: "steps_ok n i call steps" using Cons.prems by (simp_all add: steps_ok_def)
  show ?case
  proof (cases s)
    case (AgeBy e)
    obtain c' w' where s': "age_callout_queue call e (c, w) = (c', w')" by (cases "age_callout_queue call e (c, w)")
    obtain o1 where 1: "c' = snd (timers.run o1 c)" "fst (timers.run o1 c) = fst (age_queue e c)" "list_all op_ok o1"
      "elapsed o1 = e" "Age e \<in> set o1" "Clear i \<notin> set o1" "sets o1 \<le> n * length (fst (age_queue e c))"
      using age_run [of n i call e c w, OF u] Cons.prems AgeBy s' by (auto simp: steps_ok_def)
    obtain o2 where 2: "fst (do_steps call steps (c', w')) = snd (timers.run o2 c')"
      "fst (timers.run o2 c') = fired_in call steps (c', w')" "list_all op_ok o2" "elapsed o2 = sum_list (aged steps)"
      "Clear i \<notin> set o2" "sets o2 \<le> n * (length (fired_in call steps (c', w')) + length steps)"
      using Cons.IH [OF so, of c' w'] by blast
    have S: "sets (o1 @ o2) \<le> n * (length (fst (age_queue e c) @ fired_in call steps (c', w')) + length (s # steps))"
      using 1(7) 2(6) by (simp add: sets_append distrib_left)
    have R: "timers.run (o1 @ o2) c = (fst (age_queue e c) @ fired_in call steps (c', w'), fst (do_steps call steps (c', w')))"
      using 1(1,2) 2(1,2) by (simp add: run_append)
    have D: "do_steps call (s # steps) (c, w) = do_steps call steps (c', w')" "aged (s # steps) = e # aged steps"
      "fired_in call (s # steps) (c, w) = fst (age_queue e c) @ fired_in call steps (c', w')" using s' AgeBy by simp_all
    have "list_all op_ok (o1 @ o2)" "elapsed (o1 @ o2) = e + sum_list (aged steps)" "\<exists>e. Age e \<in> set (o1 @ o2)" "Clear i \<notin> set (o1 @ o2)"
      using 1(3-6) 2(3-5) by (auto simp: elapsed_append)
    then show ?thesis unfolding D using R S by (intro exI [of _ "o1 @ o2"]) simp
  next
    case (Handle h)
    obtain c' w' where s': "h (c, w) = (c', w')" by (cases "h (c, w)")
    have "uses_queue n i h" using Cons.prems Handle by (simp add: steps_ok_def)
    then obtain o1 where 1: "c' = snd (timers.run o1 c)" "list_all op_ok o1" "\<forall>e. Age e \<notin> set o1" "Clear i \<notin> set o1" "sets o1 \<le> n"
      using s' unfolding uses_queue_def by (auto dest!: spec [of _ c] spec [of _ w])
    obtain o2 where 2: "fst (do_steps call steps (c', w')) = snd (timers.run o2 c')"
      "fst (timers.run o2 c') = fired_in call steps (c', w')" "list_all op_ok o2" "elapsed o2 = sum_list (aged steps)"
      "(\<exists>e. Age e \<in> set o2) \<longleftrightarrow> aged steps \<noteq> []"
      "Clear i \<notin> set o2" "sets o2 \<le> n * (length (fired_in call steps (c', w')) + length steps)"
      using Cons.IH [OF so, of c' w'] by blast
    have S: "sets (o1 @ o2) \<le> n * (length (fired_in call steps (c', w')) + length (s # steps))"
      using 1(5) 2(7) by (simp add: sets_append)
    have R: "timers.run (o1 @ o2) c = (fired_in call steps (c', w'), fst (do_steps call steps (c', w')))"
      using 1(1,3) 2(1,2) run_no_age [of o1 c] by (simp add: run_append)
    have D: "do_steps call (s # steps) (c, w) = do_steps call steps (c', w')" "aged (s # steps) = aged steps"
      "fired_in call (s # steps) (c, w) = fired_in call steps (c', w')" using s' Handle by simp_all
    have "list_all op_ok (o1 @ o2)" "elapsed (o1 @ o2) = sum_list (aged steps)"
      "(\<exists>e. Age e \<in> set (o1 @ o2)) \<longleftrightarrow> aged steps \<noteq> []" "Clear i \<notin> set (o1 @ o2)"
      using 1(2-4) 2(3-6) elapsed_0 [of o1] by (auto simp: elapsed_append)
    then show ?thesis unfolding D using R S by (intro exI [of _ "o1 @ o2"]) simp
  qed
qed

section \<open>Setting and clearing\<close>

lemma left_insert:
  "i \<notin> tq_id ` set Q \<Longrightarrow>
   left_loop i s (insert_node node Q) = (if i = tq_id node then s + tq_time node else left_loop i s Q)"
  by (induction node Q arbitrary: s rule: insert_node.induct) (auto simp: Let_def)

lemma left_insert_other: "i \<noteq> tq_id node \<Longrightarrow> left_loop i s (insert_node node Q) = left_loop i s Q"
  by (induction node Q arbitrary: s rule: insert_node.induct) (auto simp: Let_def)

lemma unlink_insert: "tq_id node \<notin> tq_id ` set Q \<Longrightarrow> unlink_node (tq_id node) (insert_node node Q) = Q"
  by (induction node Q rule: insert_node.induct) auto

lemma cleared_insert: "tq_id node \<notin> tq_id ` set Q \<Longrightarrow> cleared_data (tq_id node) (insert_node node Q) = tq_data node"
  by (induction node Q rule: insert_node.induct) (auto simp: cleared_data_def)

section \<open>Properties\<close>

text \<open>
  C29. Ageing the queue by \<^verbatim>\<open>elapsed_time\<close> calls the functions of exactly the timers that are due, in the order of
  their times and in the order of their setting when the times are equal, after the queue has been left with
  exactly the other timers, each \<^verbatim>\<open>elapsed_time\<close> closer.
\<close>

theorem age_callout_queue_correct:
  assumes "callouts_ok c"
  shows "\<exists>c'. callouts_ok c' \<and>
    schedule (co_Q c') = map (\<lambda>(t, x). (t - elapsed_time, x)) (filter (\<lambda>(t, _). elapsed_time < t) (schedule (co_Q c))) \<and>
    age_callout_queue call elapsed_time (c, w) =
      fold (call_entry call) (map snd (filter (\<lambda>(t, _). t \<le> elapsed_time) (schedule (co_Q c)))) (c', w)"
  using timers.inv_age [OF assms, of elapsed_time] timers.pending_rest [OF assms, of elapsed_time]
    timers.fired_due [OF assms, of elapsed_time] age_callout_queue_eq [of call elapsed_time c w]
  by (intro exI [of _ "snd (age_queue elapsed_time c)"]) simp

text \<open>A queue with three timers and a callback that sets its timer again.\<close>

definition sample_callouts :: "(string, string) callouts" where
  "sample_callouts =
     snd (timer_setTimer True 3 (Some ''DelVif'') (Some ''cbk'') (snd (timer_setTimer True 3 (Some ''SendQuery'') None
       (snd (timer_setTimer True 5 (Some ''timer'') None \<lparr>co_id = 0xFFFFFFFE, co_Q = []\<rparr>)))))"

definition sample_call :: "string \<Rightarrow> string option \<Rightarrow> (string, string) callouts \<times> string list \<Rightarrow>
    (string, string) callouts \<times> string list" where
  "sample_call f x s = (case s of (c, w) \<Rightarrow> (snd (timer_setTimer True 5 (Some f) x c), w @ [f]))"

lemma sample_callouts_ok: "callouts_ok sample_callouts"
  by code_simp

lemma sample_call_uses: "uses_queue 1 i (sample_call f x)"
  unfolding uses_queue_def
proof (intro allI)
  fix c :: "(string, string) callouts" and w
  show "\<exists>ops. fst (sample_call f x (c, w)) = snd (timers.run ops c) \<and> list_all op_ok ops \<and> (\<forall>e. Age e \<notin> set ops) \<and>
     Clear i \<notin> set ops \<and> sets ops \<le> 1"
    by (rule exI [of _ "[Set 5 (Some f, x)]"]) (simp add: sample_call_def)
qed

theorem age_callout_queue_correct_witness:
  "snd (age_callout_queue sample_call 3 (sample_callouts, [])) = [''SendQuery'', ''DelVif''] \<and>
   (\<exists>c'. schedule (co_Q c') = [(2, 0xFFFFFFFF, Some ''timer'', None)] \<and> callouts_ok c' \<and>
     age_callout_queue sample_call 3 (sample_callouts, []) =
       fold (call_entry sample_call) [(1, Some ''SendQuery'', None), (2, Some ''DelVif'', Some ''cbk'')] (c', []))"
proof -
  have s: "map snd (filter (\<lambda>(t, _). t \<le> 3) (schedule (co_Q sample_callouts))) =
      [(1, Some ''SendQuery'', None), (2, Some ''DelVif'', Some ''cbk'')]"
    "map (\<lambda>(t, x). (t - 3, x)) (filter (\<lambda>(t, _). 3 < t) (schedule (co_Q sample_callouts))) = [(2, 0xFFFFFFFF, Some ''timer'', None)]"
    by code_simp+
  have "snd (age_callout_queue sample_call 3 (sample_callouts, [])) = [''SendQuery'', ''DelVif'']" by code_simp
  then show ?thesis using age_callout_queue_correct [OF sample_callouts_ok, of 3 sample_call "[]"] unfolding s by blast
qed


text \<open>A timer of 4 is set; a handler sets another one between two agings by 2, and the called functions are set again.\<close>

definition sample_steps :: "int \<Rightarrow> (string, string, string list) queue_step list" where
  "sample_steps e = [AgeBy 2, Handle (sample_call ''Accept'' None), AgeBy e]"


text \<open>
  A timer that is set gets an identifier other than 0, is reported with its full delay and leaves the
  times of all other timers as they are; clearing it gives the schedule from before back.
\<close>

theorem timer_set_left_clear:
  assumes "callouts_ok c" and "0 \<le> delay" and "i = next_id c" and "i \<notin> tq_id ` set (co_Q c)"
  shows "case timer_setTimer True delay f x c of (r, c') \<Rightarrow>
    r = sint i \<and> i \<noteq> 0 \<and> callouts_ok c' \<and> timer_leftTimer i c' = delay \<and>
    (\<forall>j. j \<noteq> i \<longrightarrow> timer_leftTimer j c' = timer_leftTimer j c) \<and>
    timer_clearTimer i c' = (x, c\<lparr>co_id := i\<rparr>)"
proof -
  let ?node = "\<lparr>tq_id = i, tq_func = f, tq_data = x, tq_time = delay\<rparr>"
  have "callouts_ok (snd (timer_setTimer True delay f x c))" using timers.inv_set [OF assms(1,2), of "(f, x)"] by simp
  moreover have "i \<noteq> 0" using assms(3) next_id_nonzero by simp
  ultimately show ?thesis using assms(3,4) left_insert [OF assms(4), of 0 ?node] left_insert_other [of _ ?node 0 "co_Q c"]
      unlink_insert [of ?node "co_Q c"] cleared_insert [of ?node "co_Q c"]
    by (auto simp: setTimer_eq timer_leftTimer_def timer_clearTimer_def)
qed

theorem timer_set_left_clear_witness:
  "case timer_setTimer True 4 (Some ''SendQuery'') (Some ''cbk2'') sample_callouts of (r, c') \<Rightarrow>
    r = 3 \<and> callouts_ok c' \<and> timer_leftTimer 3 c' = 4 \<and> timer_leftTimer 0xFFFFFFFF c' = 5 \<and>
    timer_clearTimer 3 c' = (Some ''cbk2'', sample_callouts\<lparr>co_id := 3\<rparr>)"
proof -
  have "3 = next_id sample_callouts" "3 \<notin> tq_id ` set (co_Q sample_callouts)" "timer_leftTimer 0xFFFFFFFF sample_callouts = 5"
    by code_simp+
  then show ?thesis using timer_set_left_clear [OF sample_callouts_ok, of 4 3 "Some ''cbk2''" "Some ''SendQuery''"] by auto
qed

text \<open>
  C36. The clock of the main loop does not drift: in every round the seconds by which the queue is aged,
  together with the microseconds that are carried over, are exactly the time that has passed since the round
  before. The round ends when the clock readings are less than a second apart on average.
\<close>

theorem main_round_time:
  assumes "clock_ok k" and "clock_runs now n (timer_nextTimer (fst s)) k" and "now \<noteq> []"
    and "us (last now) < us (lasttime k) - tv_usec (difftime k) + 1000000 * int (length now)"
  shows "\<exists>ages s' k'. main_round call handlers now n s k = Some (ages, s', k') \<and> clock_ok k' \<and>
    list_all (\<lambda>e. 0 \<le> e) ages \<and>
    1000000 * sum_list ages + tv_usec (difftime k') = us (lasttime k') - us (lasttime k) + tv_usec (difftime k)"
proof -
  obtain ages s' k' where "main_round call handlers now n s k = Some (ages, s', k')"
    using main_round_ends [OF assms, of call handlers] by auto
  with main_round_time_eq [OF assms(1,2) this] show ?thesis by blast
qed

theorem main_round_time_witness:
  "main_round sample_call id [\<lparr>tv_sec = 12, tv_usec = 600000\<rparr>, \<lparr>tv_sec = 12, tv_usec = 600500\<rparr>, \<lparr>tv_sec = 12, tv_usec = 600900\<rparr>] 1 (sample_callouts, [])
     \<lparr>lasttime = \<lparr>tv_sec = 10, tv_usec = 700000\<rparr>, difftime = \<lparr>tv_sec = 0, tv_usec = 200000\<rparr>\<rparr> =
   Some ([2], (fst (age_callout_queue sample_call 2 (sample_callouts, [])), []),
     \<lparr>lasttime = \<lparr>tv_sec = 12, tv_usec = 600500\<rparr>, difftime = \<lparr>tv_sec = 0, tv_usec = 100500\<rparr>\<rparr>) \<and>
   1000000 * 2 + 100500 = us \<lparr>tv_sec = 12, tv_usec = 600500\<rparr> - us \<lparr>tv_sec = 10, tv_usec = 700000\<rparr> + 200000"
proof -
  let ?k = "\<lparr>lasttime = \<lparr>tv_sec = 10, tv_usec = 700000\<rparr>, difftime = \<lparr>tv_sec = 0, tv_usec = 200000\<rparr>\<rparr>"
  let ?now = "[\<lparr>tv_sec = 12, tv_usec = 600000\<rparr>, \<lparr>tv_sec = 12, tv_usec = 600500\<rparr>, \<lparr>tv_sec = 12, tv_usec = 600900\<rparr>]"
  have m: "main_round sample_call id ?now 1 (sample_callouts, []) ?k =
    Some ([2], (fst (age_callout_queue sample_call 2 (sample_callouts, [])), []),
     \<lparr>lasttime = \<lparr>tv_sec = 12, tv_usec = 600500\<rparr>, difftime = \<lparr>tv_sec = 0, tv_usec = 100500\<rparr>\<rparr>)"
    by code_simp
  have "clock_ok ?k" "clock_runs ?now 1 (timer_nextTimer (fst (sample_callouts, [] :: string list))) ?k" "?now \<noteq> []"
    "us (last ?now) < us (lasttime ?k) - tv_usec (difftime ?k) + 1000000 * int (length ?now)"
    by (simp_all add: clock_ok_def clock_runs_def time_ok_def us_def)
  from main_round_time [OF this, of sample_call id] m show ?thesis by simp
qed

end
