(* ===== verification/IPv6_Addr.thy ===== *)
theory IPv6_Addr
  imports Gateway_Prelude
begin

unbundle bit_operations_syntax

text \<open>
  IPv6 addresses in the multicast routing daemon \<^verbatim>\<open>pim6sd\<close> (\<^verbatim>\<open>inet6.c\<close> and the mask macros of \<^verbatim>\<open>pimd.h\<close>): the
  comparison functions, which compare an address as four 32-bit words, the prefix functions, and prefix
  lengths and masks. An address is its 16 bytes; \<^verbatim>\<open>in6_num\<close> is the 128-bit number they stand for, and the
  functions are shown to compute its order and its leading bits. The lists of addresses of an interface are
  lists; \<^verbatim>\<open>sa6_fmt\<close>, \<^verbatim>\<open>inet6_fmt\<close>, \<^verbatim>\<open>net6name\<close> and \<^verbatim>\<open>ifindex2str\<close>, which format addresses with the name service,
  are not modelled.
\<close>

section \<open>Addresses\<close>

type_synonym in6_addr = "byte list"

record sockaddr_in6 =
  sin6_addr :: in6_addr
  sin6_scope_id :: u32

definition in6_ok :: "sockaddr_in6 \<Rightarrow> bool" where
  "in6_ok sa \<longleftrightarrow> length (sin6_addr sa) = 16"

text \<open>The address classes of the system headers.\<close>

definition IN6_IS_ADDR_UNSPECIFIED :: "in6_addr \<Rightarrow> bool" where
  "IN6_IS_ADDR_UNSPECIFIED a \<longleftrightarrow> a = replicate 16 0"

definition IN6_IS_ADDR_MULTICAST :: "in6_addr \<Rightarrow> bool" where
  "IN6_IS_ADDR_MULTICAST a \<longleftrightarrow> a ! 0 = 0xff"

definition IN6_IS_ADDR_MC_NODELOCAL :: "in6_addr \<Rightarrow> bool" where
  "IN6_IS_ADDR_MC_NODELOCAL a \<longleftrightarrow> IN6_IS_ADDR_MULTICAST a \<and> a ! 1 AND 0x0f = 0x01"

definition IN6_IS_ADDR_MC_LINKLOCAL :: "in6_addr \<Rightarrow> bool" where
  "IN6_IS_ADDR_MC_LINKLOCAL a \<longleftrightarrow> IN6_IS_ADDR_MULTICAST a \<and> a ! 1 AND 0x0f = 0x02"

definition IN6_IS_ADDR_MC_SITELOCAL :: "in6_addr \<Rightarrow> bool" where
  "IN6_IS_ADDR_MC_SITELOCAL a \<longleftrightarrow> IN6_IS_ADDR_MULTICAST a \<and> a ! 1 AND 0x0f = 0x05"

definition IN6_IS_ADDR_LINKLOCAL :: "in6_addr \<Rightarrow> bool" where
  "IN6_IS_ADDR_LINKLOCAL a \<longleftrightarrow> a ! 0 = 0xfe \<and> a ! 1 AND 0xc0 = 0x80"

definition IN6_IS_ADDR_SITELOCAL :: "in6_addr \<Rightarrow> bool" where
  "IN6_IS_ADDR_SITELOCAL a \<longleftrightarrow> a ! 0 = 0xfe \<and> a ! 1 AND 0xc0 = 0xc0"

text \<open>The fields of \<^verbatim>\<open>struct uvif\<close> that the functions below read.\<close>

record phaddr =
  pa_addr :: sockaddr_in6
  pa_rmt_addr :: sockaddr_in6
  pa_prefix :: sockaddr_in6
  pa_subnetmask :: in6_addr

record uvif_addrs =
  uv_ifindex :: u32
  uv_siteid :: u32
  uv_addrs :: "phaddr list"

definition inet6_uvif2scopeid :: "sockaddr_in6 \<Rightarrow> 'a uvif_addrs_scheme \<Rightarrow> u32" where
  "inet6_uvif2scopeid sa v =
     (if IN6_IS_ADDR_MULTICAST (sin6_addr sa)
      then if IN6_IS_ADDR_MC_LINKLOCAL (sin6_addr sa) then uv_ifindex v
           else if IN6_IS_ADDR_MC_SITELOCAL (sin6_addr sa) then uv_siteid v else 0
      else if IN6_IS_ADDR_LINKLOCAL (sin6_addr sa) then uv_ifindex v
           else if IN6_IS_ADDR_SITELOCAL (sin6_addr sa) then uv_siteid v else 0)"

definition inet6_equal :: "sockaddr_in6 \<Rightarrow> sockaddr_in6 \<Rightarrow> bool" where
  "inet6_equal sa1 sa2 \<longleftrightarrow> sin6_scope_id sa1 = sin6_scope_id sa2 \<and> sin6_addr sa1 = sin6_addr sa2"

fun localif_loop :: "sockaddr_in6 \<Rightarrow> phaddr list \<Rightarrow> bool" where
  "localif_loop sa [] = False"
| "localif_loop sa (pa # pas) = (if inet6_equal sa (pa_addr pa) then True else localif_loop sa pas)"

definition inet6_localif_address :: "sockaddr_in6 \<Rightarrow> 'a uvif_addrs_scheme \<Rightarrow> bool" where
  "inet6_localif_address sa v = localif_loop sa (uv_addrs v)"

definition inet6_valid_host :: "sockaddr_in6 \<Rightarrow> bool" where
  "inet6_valid_host addr = (if IN6_IS_ADDR_MULTICAST (sin6_addr addr) then False else True)"

text \<open>
  \<^verbatim>\<open>ntohl\<close> reverses the four bytes of a word; \<^verbatim>\<open>s32\<close> is the \<^verbatim>\<open>i\<close>-th 32-bit word of an address in host order.
\<close>

definition ntohl :: "u32 \<Rightarrow> u32" where
  "ntohl w = load32 (rev (le32 w))"

definition s32 :: "in6_addr \<Rightarrow> nat \<Rightarrow> u32" where
  "s32 a i = ntohl (load32 (take 4 (drop (i * 4) a)))"

fun lessthan_loop :: "in6_addr \<Rightarrow> in6_addr \<Rightarrow> nat list \<Rightarrow> bool" where
  "lessthan_loop a b [] = False"
| "lessthan_loop a b (i # is) =
     (if s32 a i > s32 b i then False else if s32 a i < s32 b i then True else lessthan_loop a b is)"

definition inet6_lessthan :: "sockaddr_in6 \<Rightarrow> sockaddr_in6 \<Rightarrow> bool" where
  "inet6_lessthan sa1 sa2 =
     (if sin6_scope_id sa1 < sin6_scope_id sa2 then True
      else if sin6_scope_id sa1 = sin6_scope_id sa2 then lessthan_loop (sin6_addr sa1) (sin6_addr sa2) [0, 1, 2, 3]
      else False)"

fun greaterthan_loop :: "in6_addr \<Rightarrow> in6_addr \<Rightarrow> nat list \<Rightarrow> bool" where
  "greaterthan_loop a b [] = False"
| "greaterthan_loop a b (i # is) =
     (if s32 a i < s32 b i then False else if s32 a i > s32 b i then True else greaterthan_loop a b is)"

definition inet6_greaterthan :: "sockaddr_in6 \<Rightarrow> sockaddr_in6 \<Rightarrow> bool" where
  "inet6_greaterthan sa1 sa2 =
     (if sin6_scope_id sa1 > sin6_scope_id sa2 then True
      else if sin6_scope_id sa1 = sin6_scope_id sa2 then greaterthan_loop (sin6_addr sa1) (sin6_addr sa2) [0, 1, 2, 3]
      else False)"

fun prefix_loop :: "in6_addr \<Rightarrow> in6_addr \<Rightarrow> in6_addr \<Rightarrow> nat list \<Rightarrow> bool" where
  "prefix_loop a b m [] = True"
| "prefix_loop a b m (i # is) = (if (a ! i XOR b ! i) AND m ! i \<noteq> 0 then False else prefix_loop a b m is)"

definition inet6_match_prefix :: "sockaddr_in6 \<Rightarrow> sockaddr_in6 \<Rightarrow> in6_addr \<Rightarrow> bool" where
  "inet6_match_prefix sa1 sa2 m =
     (if sin6_scope_id sa1 \<noteq> sin6_scope_id sa2 then False else prefix_loop (sin6_addr sa1) (sin6_addr sa2) m [0..<16])"

definition inet6_same_prefix :: "sockaddr_in6 \<Rightarrow> sockaddr_in6 \<Rightarrow> in6_addr \<Rightarrow> bool" where
  "inet6_same_prefix sa1 sa2 m = prefix_loop (sin6_addr sa1) (sin6_addr sa2) m [0..<16]"

fun plen_loop :: "in6_addr \<Rightarrow> int \<Rightarrow> int" where
  "plen_loop [] masklen = masklen"
| "plen_loop (p # lim) masklen =
     plen_loop lim
      (if p = 0xff then masklen + 8
       else if p = 0xfe then masklen + 7
       else if p = 0xfc then masklen + 6
       else if p = 0xf8 then masklen + 5
       else if p = 0xf0 then masklen + 4
       else if p = 0xe0 then masklen + 3
       else if p = 0xc0 then masklen + 2
       else if p = 0x80 then masklen + 1
       else masklen)"

definition inet6_mask2plen :: "in6_addr \<Rightarrow> int" where
  "inet6_mask2plen m = plen_loop m 0"

text \<open>
  The macros of \<^verbatim>\<open>pimd.h\<close> that turn a prefix length into a mask and back. A length of more than 128 writes
  behind the mask: \<^verbatim>\<open>None\<close>.
\<close>

definition maskarray :: "byte list" where
  "maskarray = [0x80, 0xc0, 0xe0, 0xf0, 0xf8, 0xfc, 0xfe, 0xff]"

definition MASKLEN_TO_MASK6 :: "nat \<Rightarrow> in6_addr option" where
  "MASKLEN_TO_MASK6 masklen =
     (let bytelen = masklen div 8; bitlen = masklen mod 8
      in do {
        mask6 \<leftarrow> memcpy_at (replicate 16 0) 0 (replicate bytelen 0xff);
        if bitlen \<noteq> 0 then memcpy_at mask6 bytelen [maskarray ! (bitlen - 1)] else Some mask6 })"

fun masklen_word :: "nat \<Rightarrow> u32 \<Rightarrow> byte \<Rightarrow> byte" where
  "masklen_word 0 tmp_mask tmp_masklen = tmp_masklen"
| "masklen_word (Suc kl) tmp_mask tmp_masklen =
     (if tmp_masklen > 0
      then if tmp_mask AND 1 \<noteq> 0 then tmp_masklen else masklen_word kl (drop_bit 1 tmp_mask) (tmp_masklen - 1)
      else tmp_masklen)"

definition MASK_TO_MASKLEN6 :: "in6_addr \<Rightarrow> byte" where
  "MASK_TO_MASKLEN6 m = fold (\<lambda>i tmp_masklen. masklen_word 32 (s32 m i) tmp_masklen) [0, 1, 2, 3] 128"

section \<open>Masks\<close>

definition mask_byte :: "nat \<Rightarrow> byte" where
  "mask_byte c = (if c = 0 then 0 else maskarray ! (c - 1))"

lemma mask_byte_bit: "c \<le> 8 \<Longrightarrow> bit (mask_byte c) j \<longleftrightarrow> j < 8 \<and> 8 \<le> j + c"
proof -
  assume "c \<le> 8"
  then have c: "c = 0 \<or> c = 1 \<or> c = 2 \<or> c = 3 \<or> c = 4 \<or> c = 5 \<or> c = 6 \<or> c = 7 \<or> c = 8" by arith
  show ?thesis
  proof (cases "j < 8")
    case True
    then have "j = 0 \<or> j = 1 \<or> j = 2 \<or> j = 3 \<or> j = 4 \<or> j = 5 \<or> j = 6 \<or> j = 7" by arith
    then show ?thesis using c by (elim disjE) (simp_all add: mask_byte_def maskarray_def bit_iff_odd_drop_bit)
  next
    case False
    then show ?thesis using bit_imp_le_length [of "mask_byte c" j] by auto
  qed
qed

lemma MASKLEN_TO_MASK6_eq:
  "MASKLEN_TO_MASK6 n = (if n \<le> 128 then Some (map (\<lambda>k. mask_byte (min 8 (n - 8 * k))) [0..<16]) else None)"
proof (cases "n \<le> 128")
  case True
  define q r where qr: "q = n div 8" "r = n mod 8"
  have n: "n = 8 * q + r" "r < 8" by (simp_all add: qr)
  have "r = 0 \<or> q < 16" "q \<le> 16" using True n by auto
  then have m: "MASKLEN_TO_MASK6 n = Some (take 16 (replicate q 0xff @ [mask_byte r] @ replicate (15 - q) 0))"
    unfolding MASKLEN_TO_MASK6_def Let_def qr [symmetric]
    by (auto simp: memcpy_at_def mask_byte_def simp flip: replicate_Suc intro!: arg_cong2 [where f = "(@)"])
  have "take 16 (replicate q 0xff @ [mask_byte r] @ replicate (15 - q) 0) = map (\<lambda>k. mask_byte (min 8 (n - 8 * k))) [0..<16]"
  proof (rule nth_equalityI)
    show "length (take 16 (replicate q 0xff @ [mask_byte r] @ replicate (15 - q) 0)) =
      length (map (\<lambda>k. mask_byte (min 8 (n - 8 * k))) [0..<16])" using \<open>q \<le> 16\<close> by simp
    fix k assume k: "k < length (take 16 (replicate q 0xff @ [mask_byte r] @ replicate (15 - q) 0))"
    then have k16: "k < 16" using \<open>q \<le> 16\<close> by simp
    have f: "mask_byte 8 = 0xff" "mask_byte 0 = 0" by (simp_all add: mask_byte_def maskarray_def)
    consider "k < q" | "k = q" | "q < k" by linarith
    then show "take 16 (replicate q 0xff @ [mask_byte r] @ replicate (15 - q) 0) ! k =
        map (\<lambda>k. mask_byte (min 8 (n - 8 * k))) [0..<16] ! k"
    proof cases
      case 1 then have "min 8 (n - 8 * k) = 8" using n by simp
      then show ?thesis using 1 k16 f by (simp add: nth_append)
    next
      case 2 then have "min 8 (n - 8 * k) = r" using n by simp
      then show ?thesis using 2 k16 by (simp add: nth_append)
    next
      case 3 then have "min 8 (n - 8 * k) = 0" using n by simp
      then show ?thesis using 3 k16 f by (simp add: nth_append)
    qed
  qed
  then show ?thesis using m True by simp
next
  case False
  then have "16 < n div 8 \<or> n div 8 = 16 \<and> n mod 8 \<noteq> 0" by presburger
  then show ?thesis using False unfolding MASKLEN_TO_MASK6_def Let_def by (auto simp: memcpy_at_def)
qed

lemma mask_length: "MASKLEN_TO_MASK6 n = Some m \<Longrightarrow> length m = 16"
  by (auto simp: MASKLEN_TO_MASK6_eq split: if_splits)

lemma mask_bit:
  assumes "MASKLEN_TO_MASK6 n = Some m" and "k < 16" and "j < 8"
  shows "bit (m ! k) j \<longleftrightarrow> 8 * k + (7 - j) < n"
proof -
  have "m ! k = mask_byte (min 8 (n - 8 * k))" using assms by (auto simp: MASKLEN_TO_MASK6_eq split: if_splits)
  then show ?thesis using assms(3) by (auto simp: mask_byte_bit)
qed

lemma s32_bit:
  assumes "length a = 16" and "i < 4"
  shows "bit (s32 a i) j \<longleftrightarrow> j < 32 \<and> bit (a ! (4 * i + 3 - j div 8)) (j mod 8)"
proof -
  obtain b0 b1 b2 b3 where t: "take 4 (drop (i * 4) a) = [b0, b1, b2, b3]"
    "b0 = a ! (4 * i)" "b1 = a ! (4 * i + 1)" "b2 = a ! (4 * i + 2)" "b3 = a ! (4 * i + 3)"
  proof
    show "take 4 (drop (i * 4) a) = [a ! (4 * i), a ! (4 * i + 1), a ! (4 * i + 2), a ! (4 * i + 3)]"
    proof (rule nth_equalityI)
      fix l assume "l < length (take 4 (drop (i * 4) a))"
      then have "l = 0 \<or> l = 1 \<or> l = 2 \<or> l = 3" by auto
      then show "take 4 (drop (i * 4) a) ! l = [a ! (4 * i), a ! (4 * i + 1), a ! (4 * i + 2), a ! (4 * i + 3)] ! l"
        using assms by (elim disjE) (simp_all add: add.commute mult.commute)
    qed (use assms in simp)
  qed simp_all
  have s: "s32 a i = load32 [b3, b2, b1, b0]" by (simp add: s32_def ntohl_def t(1) le32_load)
  show ?thesis
  proof (cases "j < 32")
    case True
    then consider "j < 8" | "8 \<le> j \<and> j < 16" | "16 \<le> j \<and> j < 24" | "24 \<le> j \<and> j < 32" by fastforce
    then show ?thesis
    proof cases
      case 1 then show ?thesis by (auto simp: s load32_def bit_simps t)
    next
      case 2 then have "j div 8 = 1" "j mod 8 = j - 8" by (auto simp: mod_if)
      with 2 show ?thesis by (auto simp: s load32_def bit_simps t dest: bit_byteD)
    next
      case 3 then have "j div 8 = 2" "j mod 8 = j - 16" by (auto simp: mod_if)
      with 3 show ?thesis by (auto simp: s load32_def bit_simps t dest: bit_byteD)
    next
      case 4 then have "j div 8 = 3" "j mod 8 = j - 24" by (auto simp: mod_if)
      with 4 show ?thesis by (auto simp: s load32_def bit_simps t dest: bit_byteD)
    qed
  next
    case False
    then show ?thesis using bit_imp_le_length [of "s32 a i" j] by auto
  qed
qed

lemma masklen_word_eq:
  assumes "t \<le> kl" and "\<And>j. j < t \<Longrightarrow> \<not> bit w j" and "t < kl \<Longrightarrow> bit w t" and "t \<le> unat l"
  shows "masklen_word kl w l = l - of_nat t"
  using assms
proof (induction kl w l arbitrary: t rule: masklen_word.induct)
  case (2 kl w l)
  have b0: "w AND 1 \<noteq> 0 \<longleftrightarrow> bit w 0" by (simp add: and_one_eq odd_iff_mod_2_eq_one bit_0)
  show ?case
  proof (cases t)
    case 0
    then show ?thesis using 2(4) b0 by simp
  next
    case (Suc t')
    have l: "0 < l" "t' \<le> unat (l - 1)"
    proof -
      show "0 < l" using 2(5) Suc by (simp add: word_less_nat_alt)
      then show "t' \<le> unat (l - 1)" using 2(5) Suc by (simp add: unat_sub word_le_nat_alt)
    qed
    have n: "\<not> w AND 1 \<noteq> 0" using 2(3) [of 0] Suc b0 by simp
    have "masklen_word kl (drop_bit 1 w) (l - 1) = l - 1 - of_nat t'"
      using 2(1) [OF l(1) n, of t'] 2(2,3,4) Suc l by (simp add: bit_drop_bit_eq)
    then show ?thesis using l n Suc by simp
  qed
qed simp

lemma mask_word_bit:
  assumes "MASKLEN_TO_MASK6 n = Some m" and "i < 4" and "j < 32"
  shows "bit (s32 m i) j \<longleftrightarrow> 32 * i + 31 - j < n"
proof -
  have d: "j = 8 * (j div 8) + j mod 8" "j mod 8 < 8" "j div 8 < 4" using assms(3) by auto
  have "bit (s32 m i) j \<longleftrightarrow> bit (m ! (4 * i + 3 - j div 8)) (j mod 8)"
    using s32_bit [OF mask_length [OF assms(1)] assms(2), of j] assms(3) by simp
  also have "\<dots> \<longleftrightarrow> 8 * (4 * i + 3 - j div 8) + (7 - j mod 8) < n" using mask_bit [OF assms(1)] assms(2) d by simp
  also have "8 * (4 * i + 3 - j div 8) + (7 - j mod 8) = 32 * i + 31 - j" using d by linarith
  finally show ?thesis .
qed

lemma masklen_steps:
  assumes "MASKLEN_TO_MASK6 n = Some m" and "i < 4" and "32 - min 32 (n - 32 * i) \<le> x" and "x \<le> 128"
  shows "masklen_word 32 (s32 m i) (of_nat x) = of_nat (x - (32 - min 32 (n - 32 * i)))"
proof -
  note b = mask_word_bit [OF assms(1,2)]
  have u: "unat (of_nat x :: byte) = x" using assms(4) by (simp add: unat_of_nat)
  have "masklen_word 32 (s32 m i) (of_nat x) = of_nat x - of_nat (32 - min 32 (n - 32 * i))"
  proof (rule masklen_word_eq)
    fix j assume "j < 32 - min 32 (n - 32 * i)"
    then show "\<not> bit (s32 m i) j" using b [of j] by auto
  next
    assume "32 - min 32 (n - 32 * i) < 32"
    then show "bit (s32 m i) (32 - min 32 (n - 32 * i))" using b by auto
  qed (use assms(3) u in simp_all)
  then show ?thesis using assms(3) by (simp add: of_nat_diff)
qed

lemma masklen_roundtrip: "n \<le> 128 \<Longrightarrow> \<exists>m. MASKLEN_TO_MASK6 n = Some m \<and> MASK_TO_MASKLEN6 m = of_nat n"
proof -
  assume n: "n \<le> 128"
  then obtain m where m: "MASKLEN_TO_MASK6 n = Some m" by (simp add: MASKLEN_TO_MASK6_eq)
  define t where "t i = 32 - min 32 (n - 32 * i)" for i
  have t: "t 0 \<le> 32" "t 1 \<le> 32" "t 2 \<le> 32" "128 - t 0 - t 1 - t 2 - t 3 = n" "t 3 \<le> 32"
    using n by (auto simp: t_def)
  have "MASK_TO_MASKLEN6 m = masklen_word 32 (s32 m 3) (masklen_word 32 (s32 m 2) (masklen_word 32 (s32 m 1) (masklen_word 32 (s32 m 0) (of_nat 128))))"
    by (simp add: MASK_TO_MASKLEN6_def)
  also have "\<dots> = of_nat (128 - t 0 - t 1 - t 2 - t 3)"
    using masklen_steps [OF m, of 0 128] masklen_steps [OF m, of 1 "128 - t 0"] masklen_steps [OF m, of 2 "128 - t 0 - t 1"]
      masklen_steps [OF m, of 3 "128 - t 0 - t 1 - t 2"] t(1,2,3,5) unfolding t_def [symmetric] by simp
  finally show ?thesis using m t(4) by auto
qed

lemma plen_loop_map: "plen_loop (map (\<lambda>k. mask_byte (f k)) ks) l = l + int (sum_list (map f ks))" if "\<And>k. f k \<le> 8" for l
proof (induction ks arbitrary: l)
  case (Cons k ks)
  have "f k = 0 \<or> f k = 1 \<or> f k = 2 \<or> f k = 3 \<or> f k = 4 \<or> f k = 5 \<or> f k = 6 \<or> f k = 7 \<or> f k = 8" using that [of k] by arith
  then have "plen_loop (mask_byte (f k) # bs) l = plen_loop bs (l + int (f k))" for bs
    by (elim disjE) (simp_all add: mask_byte_def maskarray_def)
  then show ?case by (simp add: Cons)
qed simp

lemma mask2plen_roundtrip: "MASKLEN_TO_MASK6 n = Some m \<Longrightarrow> inet6_mask2plen m = int n"
proof -
  assume a: "MASKLEN_TO_MASK6 n = Some m"
  then have "m = map (\<lambda>k. mask_byte (min 8 (n - 8 * k))) [0..<16]" and n: "n \<le> 128"
    by (auto simp: MASKLEN_TO_MASK6_eq split: if_splits)
  then have "inet6_mask2plen m = int (sum_list (map (\<lambda>k. min 8 (n - 8 * k)) [0..<16]))"
    using plen_loop_map [of "\<lambda>k. min 8 (n - 8 * k)" "[0..<16]" 0] by (simp add: inet6_mask2plen_def)
  also have "sum_list (map (\<lambda>k. min 8 (n - 8 * k)) [0..<k]) = min (8 * k) n" for k
    by (induction k) auto
  then have "sum_list (map (\<lambda>k. min 8 (n - 8 * k)) [0..<16]) = n" using n by simp
  finally show ?thesis .
qed

section \<open>The order of the addresses\<close>

text \<open>An address as a number, the first byte being the most significant one.\<close>

definition in6_num :: "in6_addr \<Rightarrow> int" where
  "in6_num a = horner_sum uint 256 (rev a)"

lemma octet_cases:
  assumes "(n :: nat) < 32"
  obtains "n < 8" "n div 8 = 0" "n mod 8 = n" | "8 \<le> n" "n < 16" "n div 8 = 1" "n mod 8 = n - 8"
    | "16 \<le> n" "n < 24" "n div 8 = 2" "n mod 8 = n - 16" | "24 \<le> n" "n < 32" "n div 8 = 3" "n mod 8 = n - 24"
proof -
  consider "n < 8" | "8 \<le> n \<and> n < 16" | "16 \<le> n \<and> n < 24" | "24 \<le> n \<and> n < 32" using assms by fastforce
  then show thesis by cases (use that in \<open>auto simp: mod_if\<close>)
qed

lemma uint_load32: "uint (load32 [b0, b1, b2, b3]) = uint b0 + 256 * (uint b1 + 256 * (uint b2 + 256 * uint b3))"
proof -
  define h where "h = horner_sum uint (2 ^ 8) [b0, b1, b2, b3]"
  have hb: "bit h n \<longleftrightarrow> n div 8 < Suc (Suc (Suc (Suc 0))) \<and> bit ([b0, b1, b2, b3] ! (n div 8)) (n mod 8)" for n
    using bit_horner_sum_uint_exp_iff [of "[b0, b1, b2, b3]" n] by (simp add: h_def)
  have "load32 [b0, b1, b2, b3] = word_of_int h"
  proof (rule bit_word_eqI)
    fix n assume n: "n < LENGTH(32)"
    then have "n < 32" by simp
    then consider "n < 8" "n div 8 = 0" "n mod 8 = n" | "8 \<le> n" "n < 16" "n div 8 = 1" "n mod 8 = n - 8"
      | "16 \<le> n" "n < 24" "n div 8 = 2" "n mod 8 = n - 16" | "24 \<le> n" "n < 32" "n div 8 = 3" "n mod 8 = n - 24"
      by (rule octet_cases)
    then show "bit (load32 [b0, b1, b2, b3]) n = bit (word_of_int h :: u32) n"
      by cases (auto simp: load32_def bit_simps hb dest: bit_byteD)
  qed
  moreover have h: "h = uint b0 + 256 * (uint b1 + 256 * (uint b2 + 256 * uint b3))" by (simp add: h_def)
  moreover have "0 \<le> h" "h < 2 ^ 32"
  proof -
    have u: "uint b < 256" "0 \<le> uint b" for b :: byte
    proof -
      have "uint b < 2 ^ LENGTH(8)" by (rule unsigned_less)
      then show "uint b < 256" "0 \<le> uint b" by simp_all
    qed
    from u [of b0] u [of b1] u [of b2] u [of b3] show "0 \<le> h" "h < 2 ^ 32" unfolding h by simp_all
  qed
  then have "uint (word_of_int h :: u32) = h" by (simp add: unsigned_of_int take_bit_int_eq_self)
  ultimately show ?thesis by simp
qed

lemma list16:
  "length a = 16 \<Longrightarrow> a = [a ! 0, a ! 1, a ! 2, a ! 3, a ! 4, a ! 5, a ! 6, a ! 7, a ! 8, a ! 9, a ! 10, a ! 11, a ! 12, a ! 13, a ! 14, a ! 15]"
  by (rule nth_equalityI) (auto simp: less_Suc_eq numeral_eq_Suc)

lemma in6_num_words:
  assumes "length a = 16"
  shows "in6_num a = uint (s32 a 3) + 4294967296 * (uint (s32 a 2) + 4294967296 * (uint (s32 a 1) + 4294967296 * uint (s32 a 0)))"
  unfolding s32_def in6_num_def
  by (subst (1 2 3 4 5) list16 [OF assms])
    (simp del: nth_Cons_0 nth_Cons_Suc nth_Cons_numeral add: ntohl_def le32_load uint_load32)


lemma uint_u32: "0 \<le> uint w" "uint w < 4294967296" for w :: u32
proof -
  have "uint w < 2 ^ LENGTH(32)" by (rule unsigned_less)
  then show "0 \<le> uint w" "uint w < 4294967296" by simp_all
qed

lemma digit_less:
  "0 \<le> x \<Longrightarrow> x < d \<Longrightarrow> 0 \<le> y \<Longrightarrow> y < d \<Longrightarrow> x + d * h < y + d * k \<longleftrightarrow> h < k \<or> h = k \<and> x < y" for x y d h k :: int
proof -
  assume a: "0 \<le> x" "x < d" "0 \<le> y" "y < d"
  have "d * h + d \<le> d * k" if "h < k" for h k :: int
  proof -
    have "d * (h + 1) \<le> d * k" using that a by (intro mult_left_mono) auto
    then show ?thesis by (simp add: algebra_simps)
  qed
  from this [of h k] this [of k h] show ?thesis using a by (cases h k rule: linorder_cases) auto
qed

lemma digit_eq: "0 \<le> x \<Longrightarrow> x < d \<Longrightarrow> 0 \<le> y \<Longrightarrow> y < d \<Longrightarrow> x + d * h = y + d * k \<longleftrightarrow> h = k \<and> x = y" for x y d h k :: int
  using digit_less [of x d y h k] digit_less [of y d x k h] by auto

lemma lessthan_num: "length a = 16 \<Longrightarrow> length b = 16 \<Longrightarrow> lessthan_loop a b [0, 1, 2, 3] \<longleftrightarrow> in6_num a < in6_num b"
  by (simp only: in6_num_words digit_less digit_eq uint_u32 lessthan_loop.simps word_less_def word_uint_eq_iff) auto

lemma greaterthan_loop_less: "greaterthan_loop a b is = lessthan_loop b a is"
  by (induction "is") auto

lemma in6_num_inj: "length a = 16 \<Longrightarrow> length b = 16 \<Longrightarrow> in6_num a = in6_num b \<longleftrightarrow> a = b"
proof
  assume l: "length a = 16" "length b = 16" and e: "in6_num a = in6_num b"
  have "rev a = rev b"
  proof (rule nth_equalityI)
    fix k assume k: "k < length (rev a)"
    show "rev a ! k = rev b ! k"
    proof (rule bit_word_eqI)
      fix j assume "j < LENGTH(8)"
      then have j: "(8 * k + j) div 8 = k" "(8 * k + j) mod 8 = j" by auto
      have n: "bit (in6_num c) (8 * k + j) \<longleftrightarrow> bit (rev c ! k) j" if "length c = 16" for c
        using bit_horner_sum_uint_exp_iff [of "rev c" "8 * k + j"] j k l that by (simp add: in6_num_def)
      then show "bit (rev a ! k) j = bit (rev b ! k) j" using e l by metis
    qed
  qed (use l in simp)
  then show "a = b" by simp
qed simp

definition in6_key :: "sockaddr_in6 \<Rightarrow> int \<times> int" where
  "in6_key sa = (uint (sin6_scope_id sa), in6_num (sin6_addr sa))"

text \<open>The key of an address decides equality and order.\<close>

lemma key_equal: "in6_ok a \<Longrightarrow> in6_ok b \<Longrightarrow> inet6_equal a b \<longleftrightarrow> in6_key a = in6_key b"
  by (auto simp: inet6_equal_def in6_key_def in6_ok_def in6_num_inj word_uint_eq_iff)

lemma key_less: "in6_ok a \<Longrightarrow> in6_ok b \<Longrightarrow> inet6_lessthan a b \<longleftrightarrow> fst (in6_key a) < fst (in6_key b) \<or>
    fst (in6_key a) = fst (in6_key b) \<and> snd (in6_key a) < snd (in6_key b)"
  by (auto simp: inet6_lessthan_def in6_key_def in6_ok_def lessthan_num word_less_def word_uint_eq_iff
    simp del: lessthan_loop.simps One_nat_def)

lemma greaterthan_less: "inet6_greaterthan a b = inet6_lessthan b a"
  by (auto simp: inet6_greaterthan_def inet6_lessthan_def greaterthan_loop_less)

lemma equal_eq: "inet6_equal a b \<longleftrightarrow> a = b"
  by (auto simp: inet6_equal_def)

lemma prefix_loop_iff: "prefix_loop a b m is \<longleftrightarrow> (\<forall>i \<in> set is. (a ! i XOR b ! i) AND m ! i = 0)"
  by (induction "is") auto

lemma in6_num_bit: "length a = 16 \<Longrightarrow> bit (in6_num a) n \<longleftrightarrow> n < 128 \<and> bit (a ! (15 - n div 8)) (n mod 8)"
proof -
  assume l: "length a = 16"
  then have "n div 8 < 16 \<Longrightarrow> rev a ! (n div 8) = a ! (15 - n div 8)" by (simp add: rev_nth)
  moreover have "n div 8 < 16 \<longleftrightarrow> n < 128" by auto
  ultimately show ?thesis using bit_horner_sum_uint_exp_iff [of "rev a" n] l by (auto simp: in6_num_def)
qed

lemma prefix_loop_num:
  assumes "length a = 16" and "length b = 16" and "MASKLEN_TO_MASK6 n = Some m"
  shows "prefix_loop a b m [0..<16] \<longleftrightarrow> in6_num a div 2 ^ (128 - n) = in6_num b div 2 ^ (128 - n)"
proof -
  have n: "n \<le> 128" using assms(3) by (simp add: MASKLEN_TO_MASK6_eq split: if_splits)
  have "prefix_loop a b m [0..<16] \<longleftrightarrow> (\<forall>k < 16. \<forall>j < 8. 8 * k + (7 - j) < n \<longrightarrow> bit (a ! k) j = bit (b ! k) j)"
  proof -
    have "(a ! k XOR b ! k) AND m ! k = 0 \<longleftrightarrow> (\<forall>j < 8. 8 * k + (7 - j) < n \<longrightarrow> bit (a ! k) j = bit (b ! k) j)"
      if "k < 16" for k
    proof -
      have "(a ! k XOR b ! k) AND m ! k = 0 \<longleftrightarrow> (\<forall>j < 8. \<not> bit ((a ! k XOR b ! k) AND m ! k) j)"
        by (auto simp: bit_eq_iff [of _ 0] dest: bit_byteD)
      also have "\<dots> \<longleftrightarrow> (\<forall>j < 8. 8 * k + (7 - j) < n \<longrightarrow> bit (a ! k) j = bit (b ! k) j)"
        using mask_bit [OF assms(3) that] by (auto simp: bit_and_iff bit_xor_iff)
      finally show ?thesis .
    qed
    then show ?thesis by (auto simp: prefix_loop_iff)
  qed
  also have "\<dots> \<longleftrightarrow> (\<forall>i. 128 - n \<le> i \<longrightarrow> bit (in6_num a) i = bit (in6_num b) i)"
  proof (rule iffI; intro allI impI)
    fix i assume h: "\<forall>k < 16. \<forall>j < 8. 8 * k + (7 - j) < n \<longrightarrow> bit (a ! k) j = bit (b ! k) j" and i: "128 - n \<le> i"
    show "bit (in6_num a) i = bit (in6_num b) i"
    proof (cases "i < 128")
      case True
      then have "i div 8 < 16" "i = 8 * (i div 8) + i mod 8" "i mod 8 < 8" by auto
      then have "8 * (15 - i div 8) + (7 - i mod 8) < n" using i True n by linarith
      then show ?thesis using h True assms(1,2) by (simp add: in6_num_bit)
    qed (simp add: assms(1,2) in6_num_bit)
  next
    fix k j :: nat
    assume h: "\<forall>i. 128 - n \<le> i \<longrightarrow> bit (in6_num a) i = bit (in6_num b) i" and kj: "k < 16" "j < 8" "8 * k + (7 - j) < n"
    define i where "i = 8 * (15 - k) + j"
    have "i div 8 = 15 - k" "i mod 8 = j" "i < 128" using kj by (auto simp: i_def)
    moreover have "15 - (15 - k) = k" using kj by simp
    moreover have "128 - n \<le> i" using kj unfolding i_def by linarith
    ultimately show "bit (a ! k) j = bit (b ! k) j" using h [rule_format, of i] assms(1,2) by (simp add: in6_num_bit)
  qed
  also have "\<dots> \<longleftrightarrow> drop_bit (128 - n) (in6_num a) = drop_bit (128 - n) (in6_num b)"
    by (auto simp: bit_eq_iff [of "drop_bit _ _"] bit_drop_bit_eq) (metis le_add_diff_inverse)+
  finally show ?thesis by (simp add: drop_bit_eq_div)
qed

section \<open>Properties\<close>

text \<open>
  C37. The comparisons of socket addresses are one linear order: by the scope identifier and then by the
  address as a 128-bit number. Of \<^verbatim>\<open>inet6_lessthan\<close>, \<^verbatim>\<open>inet6_equal\<close> and \<^verbatim>\<open>inet6_greaterthan\<close> exactly one holds.
\<close>

theorem inet6_order:
  assumes "in6_ok a" and "in6_ok b"
  shows "(inet6_lessthan a b \<longleftrightarrow> sin6_scope_id a < sin6_scope_id b \<or>
      sin6_scope_id a = sin6_scope_id b \<and> in6_num (sin6_addr a) < in6_num (sin6_addr b)) \<and>
    (inet6_greaterthan a b \<longleftrightarrow> inet6_lessthan b a) \<and>
    (inet6_equal a b \<longleftrightarrow> \<not> inet6_lessthan a b \<and> \<not> inet6_greaterthan a b) \<and>
    \<not> (inet6_lessthan a b \<and> inet6_greaterthan a b)"
proof (intro conjI)
  note l = key_less [OF assms] and g = key_less [OF assms(2,1)]
  show "inet6_lessthan a b \<longleftrightarrow> sin6_scope_id a < sin6_scope_id b \<or>
      sin6_scope_id a = sin6_scope_id b \<and> in6_num (sin6_addr a) < in6_num (sin6_addr b)"
    unfolding l by (simp add: in6_key_def word_less_def word_uint_eq_iff)
  show "inet6_equal a b \<longleftrightarrow> \<not> inet6_lessthan a b \<and> \<not> inet6_greaterthan a b"
    unfolding greaterthan_less l g key_equal [OF assms] by (auto simp: prod_eq_iff)
  show "\<not> (inet6_lessthan a b \<and> inet6_greaterthan a b)" unfolding greaterthan_less l g by auto
qed (rule greaterthan_less)

text \<open>The addresses 2001:db8::1 and 2001:db8:0:1::\<close>

definition sample_addr1 :: sockaddr_in6 where
  "sample_addr1 = \<lparr>sin6_addr = [0x20, 0x01, 0x0d, 0xb8, 0, 0, 0, 0, 0, 0, 0, 0, 0, 0, 0, 1], sin6_scope_id = 0\<rparr>"

definition sample_addr2 :: sockaddr_in6 where
  "sample_addr2 = \<lparr>sin6_addr = [0x20, 0x01, 0x0d, 0xb8, 0, 0, 0, 1, 0, 0, 0, 0, 0, 0, 0, 0], sin6_scope_id = 0\<rparr>"

theorem inet6_order_witness:
  "inet6_lessthan sample_addr1 sample_addr2 \<and> inet6_greaterthan sample_addr2 sample_addr1 \<and>
   \<not> inet6_equal sample_addr1 sample_addr2 \<and> in6_num (sin6_addr sample_addr1) < in6_num (sin6_addr sample_addr2)"
proof -
  have ok: "in6_ok sample_addr1" "in6_ok sample_addr2" by (simp_all add: in6_ok_def sample_addr1_def sample_addr2_def)
  have l: "inet6_lessthan sample_addr1 sample_addr2" by code_simp
  then show ?thesis using inet6_order [OF ok] inet6_order [OF ok(2,1)]
    by (simp add: sample_addr1_def sample_addr2_def)
qed

text \<open>
  C38. A prefix length of at most 128 is turned into the mask of its leading bits: two addresses match under
  the mask exactly when the leading bits of their numbers are the same, and both ways to get the length of
  the mask give it back. A longer prefix is written outside the mask.
\<close>

theorem prefix_masks:
  assumes "in6_ok a" and "in6_ok b"
  shows "case MASKLEN_TO_MASK6 n of None \<Rightarrow> 128 < n
    | Some m \<Rightarrow> n \<le> 128 \<and> inet6_mask2plen m = int n \<and> unat (MASK_TO_MASKLEN6 m) = n \<and>
        (inet6_same_prefix a b m \<longleftrightarrow> in6_num (sin6_addr a) div 2 ^ (128 - n) = in6_num (sin6_addr b) div 2 ^ (128 - n)) \<and>
        (inet6_match_prefix a b m \<longleftrightarrow> sin6_scope_id a = sin6_scope_id b \<and> inet6_same_prefix a b m)"
proof (cases "MASKLEN_TO_MASK6 n")
  case None
  then show ?thesis by (simp add: MASKLEN_TO_MASK6_eq split: if_splits)
next
  case (Some m)
  then have n: "n \<le> 128" by (simp add: MASKLEN_TO_MASK6_eq split: if_splits)
  have "unat (MASK_TO_MASKLEN6 m) = n" using masklen_roundtrip [OF n] n Some by (auto simp: unat_of_nat)
  then show ?thesis using Some n mask2plen_roundtrip [OF Some] prefix_loop_num [OF _ _ Some] assms
    by (simp add: in6_ok_def inet6_same_prefix_def inet6_match_prefix_def)
qed

theorem prefix_masks_witness:
  "MASKLEN_TO_MASK6 129 = None \<and>
   MASKLEN_TO_MASK6 44 = Some [0xff, 0xff, 0xff, 0xff, 0xff, 0xf0, 0, 0, 0, 0, 0, 0, 0, 0, 0, 0] \<and>
   inet6_mask2plen [0xff, 0xff, 0xff, 0xff, 0xff, 0xf0, 0, 0, 0, 0, 0, 0, 0, 0, 0, 0] = 44 \<and>
   unat (MASK_TO_MASKLEN6 [0xff, 0xff, 0xff, 0xff, 0xff, 0xf0, 0, 0, 0, 0, 0, 0, 0, 0, 0, 0]) = 44 \<and>
   inet6_same_prefix sample_addr1 sample_addr2 [0xff, 0xff, 0xff, 0xff, 0xff, 0xf0, 0, 0, 0, 0, 0, 0, 0, 0, 0, 0] \<and>
   in6_num (sin6_addr sample_addr1) div 2 ^ 84 = in6_num (sin6_addr sample_addr2) div 2 ^ 84"
proof -
  have m: "MASKLEN_TO_MASK6 44 = Some [0xff, 0xff, 0xff, 0xff, 0xff, 0xf0, 0, 0, 0, 0, 0, 0, 0, 0, 0, 0]" by code_simp
  have ok: "in6_ok sample_addr1" "in6_ok sample_addr2" by (simp_all add: in6_ok_def sample_addr1_def sample_addr2_def)
  have s: "inet6_same_prefix sample_addr1 sample_addr2 [0xff, 0xff, 0xff, 0xff, 0xff, 0xf0, 0, 0, 0, 0, 0, 0, 0, 0, 0, 0]"
    by code_simp
  have "MASKLEN_TO_MASK6 129 = None" by code_simp
  then show ?thesis using prefix_masks [OF ok, of 44] m s by simp
qed

end
