(* ===== verification/PIM_CRC.thy ===== *)
theory PIM_CRC
  imports Reflected_CRC
begin

unbundle bit_operations_syntax

text \<open>
  The CRC of \<^verbatim>\<open>crc.c\<close>, which \<^verbatim>\<open>pim6sd\<close> hashes addresses with. The table is computed at the first use and kept in
  global variables, which are the state here. The interface \<^verbatim>\<open>table_crc\<close> is interpreted on the table.
\<close>

section \<open>The CRC\<close>

record crc_state =
  crc_table :: "u32 list"
  crc_table_computed :: bool

fun crc_entry :: "nat \<Rightarrow> u32 \<Rightarrow> u32" where
  "crc_entry 0 c = c"
| "crc_entry (Suc k) c = crc_entry k (if c AND 1 \<noteq> 0 then 0xedb88320 XOR drop_bit 1 c else drop_bit 1 c)"

definition make_crc_table :: "crc_state \<Rightarrow> crc_state" where
  "make_crc_table st = st\<lparr>crc_table := map (\<lambda>n. crc_entry 8 (of_nat n)) [0..<256], crc_table_computed := True\<rparr>"

fun crc_loop :: "u32 list \<Rightarrow> u32 \<Rightarrow> byte list \<Rightarrow> nat \<Rightarrow> u32 option" where
  "crc_loop tab c buf 0 = Some c"
| "crc_loop tab c [] (Suc len) = None"
| "crc_loop tab c (b # buf) (Suc len) = crc_loop tab (tab ! unat ((c XOR ucast b) AND 0xff) XOR drop_bit 8 c) buf len"

definition update_crc :: "crc_state \<Rightarrow> u32 \<Rightarrow> byte list \<Rightarrow> nat \<Rightarrow> (u32 \<times> crc_state) option" where
  "update_crc st crc buf len =
     (let st = (if \<not> crc_table_computed st then make_crc_table st else st)
      in do { c \<leftarrow> crc_loop (crc_table st) crc buf len; Some (c, st) })"

definition crc :: "crc_state \<Rightarrow> byte list \<Rightarrow> nat \<Rightarrow> (u32 \<times> crc_state) option" where
  "crc st buf len = do { (c, st) \<leftarrow> update_crc st 0xffffffff buf len; Some (c XOR 0xffffffff, st) }"

text \<open>The reference: the CRC-32 one bit at a time.\<close>

definition crc32_bit :: "u32 \<Rightarrow> u32" where
  "crc32_bit w = drop_bit 1 w XOR (if bit w 0 then 0xedb88320 else 0)"

definition crc32 :: "byte list \<Rightarrow> u32" where
  "crc32 bs = foldl (\<lambda>c b. (crc32_bit ^^ 8) (c XOR ucast b)) 0xffffffff bs XOR 0xffffffff"

definition crc_ok :: "crc_state \<Rightarrow> bool" where
  "crc_ok st \<longleftrightarrow> (crc_table_computed st \<longrightarrow> crc_table st = map (\<lambda>n. crc_entry 8 (of_nat n)) [0..<256])"

lemma crc_entry_bits: "crc_entry k c = (crc32_bit ^^ k) c"
proof (induction k c rule: crc_entry.induct)
  case (2 k c)
  have "(if c AND 1 \<noteq> 0 then 0xedb88320 XOR drop_bit 1 c else drop_bit 1 c) = crc32_bit c"
    by (simp add: crc32_bit_def and_one_eq odd_iff_mod_2_eq_one bit_0 xor.commute)
  then show ?case using 2 by (simp add: funpow_swap1)
qed simp

interpretation crc32_table: table_crc crc32_bit "0xedb88320" "map (\<lambda>n. crc_entry 8 (of_nat n)) [0..<256]"
  by unfold_locales (simp_all add: crc32_bit_def crc_entry_bits)

lemma crc_loop_eq:
  "len \<le> length buf \<Longrightarrow> crc_loop (map (\<lambda>n. crc_entry 8 (of_nat n)) [0..<256]) c buf len =
     Some (foldl (\<lambda>c b. (crc32_bit ^^ 8) (c XOR ucast b)) c (take len buf))"
  by (induction "map (\<lambda>n. crc_entry 8 (of_nat n) :: u32) [0..<256]" c buf len rule: crc_loop.induct)
    (simp_all only: crc_loop.simps crc32_table.table_step xor.commute [of _ "drop_bit 8 _"] take_Suc_Cons take_0
      foldl.simps length_Cons Suc_le_mono list.size(3) not_less_eq_eq)

lemma crc_eq:
  assumes "crc_ok st" and "len \<le> length buf"
  shows "crc st buf len = Some (crc32 (take len buf), if crc_table_computed st then st else make_crc_table st)"
  using assms crc_loop_eq [OF assms(2), of "0xffffffff"]
  by (auto simp: crc_def update_crc_def Let_def crc_ok_def make_crc_table_def crc32_def)

lemma crc32_steps:
  "(crc32_bit ^^ 8) (0xFFFFFFFF XOR ucast (0x31 :: byte)) = 0x7C231048"
  "(crc32_bit ^^ 8) (0x7C231048 XOR ucast (0x32 :: byte)) = 0xB0ACBB32"
  "(crc32_bit ^^ 8) (0xB0ACBB32 XOR ucast (0x33 :: byte)) = 0x77B79C2D"
  "(crc32_bit ^^ 8) (0x77B79C2D XOR ucast (0x34 :: byte)) = 0x641C1F5C"
  "(crc32_bit ^^ 8) (0x641C1F5C XOR ucast (0x35 :: byte)) = 0x340AC5E3"
  "(crc32_bit ^^ 8) (0x340AC5E3 XOR ucast (0x36 :: byte)) = 0xF68D2C9E"
  "(crc32_bit ^^ 8) (0xF68D2C9E XOR ucast (0x37 :: byte)) = 0xAFFC9660"
  "(crc32_bit ^^ 8) (0xAFFC9660 XOR ucast (0x38 :: byte)) = 0x651F2550"
  "(crc32_bit ^^ 8) (0x651F2550 XOR ucast (0x39 :: byte)) = 0x340BC6D9"
  unfolding crc32_table.steps8 by (simp_all add: crc32_bit_def)

text \<open>
  \<^verbatim>\<open>crc\<close> computes the CRC-32 of the buffer, as shifting the bits one by one through the generator polynomial
  gives it, whether or not the table has been made before, and leaves a table that is right.
\<close>

theorem crc_correct:
  assumes "crc_ok st" and "len \<le> length buf"
  shows "\<exists>st'. crc st buf len = Some (crc32 (take len buf), st') \<and> crc_ok st' \<and> crc_table_computed st'"
  using crc_eq [OF assms] assms(1) by (auto simp: crc_ok_def make_crc_table_def)

theorem crc_correct_witness:
  "\<exists>st'. crc \<lparr>crc_table = replicate 256 0, crc_table_computed = False\<rparr> [0x31, 0x32, 0x33, 0x34, 0x35, 0x36, 0x37, 0x38, 0x39] 9 =
     Some (0xCBF43926, st') \<and> crc_ok st'"
proof -
  have "crc32 [0x31, 0x32, 0x33, 0x34, 0x35, 0x36, 0x37, 0x38, 0x39] = 0xCBF43926"
    unfolding crc32_def foldl.simps crc32_steps by simp
  then show ?thesis
    using crc_correct [of "\<lparr>crc_table = replicate 256 0, crc_table_computed = False\<rparr>" 9
        "[0x31, 0x32, 0x33, 0x34, 0x35, 0x36, 0x37, 0x38, 0x39]"] by (auto simp: crc_ok_def)
qed

end
