(* ===== verification/RP_Set.thy ===== *)
theory RP_Set
  imports IPv6_Addr PIM_CRC "HOL-Library.Product_Lexorder"
begin

unbundle bit_operations_syntax

text \<open>
  The RP set of the multicast routing daemon \<^verbatim>\<open>pim6sd\<close> (\<^verbatim>\<open>rp.c\<close>, structures of \<^verbatim>\<open>mrt.h\<close>): the candidate RPs, the group
  prefixes, the entries that tie an RP to a prefix, and the groups in use. Every structure lives in a store
  indexed by pointers; the lists that the code links through \<^verbatim>\<open>prev\<close> and \<^verbatim>\<open>next\<close> fields (the two global lists, the chain of
  entries of a prefix, the chain of entries of an RP, the groups of an entry) are lists of pointers. \<^verbatim>\<open>malloc\<close> gives
  out a pointer that is not in use and does not fail. The interfaces of the daemon come in as the result \<^verbatim>\<open>route\<close> of
  \<^verbatim>\<open>local_address\<close> and \<^verbatim>\<open>set_incoming\<close>, and the work on the routing entries of a group is recorded as an effect.

  \<^verbatim>\<open>rp_ok\<close> is the invariant of these structures. The choice of the RP of a group is shown to be the first one in the
  order of priority, origin, hash value and address among all entries of the matching prefixes, whatever order
  the lists have, so that all routers with the same set choose the same RP.
\<close>

section \<open>Candidate RPs and group prefixes\<close>

record rpentry =
  rp_address :: sockaddr_in6
  rp_incoming :: nat
  rp_upstream :: "nat option"
  rp_metric :: u32
  rp_preference :: u32
  rp_timer :: u16

record cand_rp =
  rp_grp_chain :: "nat list"
  rpentry_of :: rpentry

record grp_mask =
  grp_rp_chain :: "nat list"
  group_addr :: sockaddr_in6
  group_mask :: in6_addr
  hash_mask :: in6_addr
  gm_fragment_tag :: u16
  group_rp_number :: byte

record rp_grp_entry =
  grplink :: "nat list"
  advholdtime :: u16
  holdtime :: u16
  rg_fragment_tag :: u16
  rg_priority :: byte
  rg_origin :: byte
  rg_group :: nat
  rg_rp :: nat

record grpentry =
  ge_group :: sockaddr_in6
  ge_rpaddr :: sockaddr_in6
  active_rp_grp :: "nat option"

definition RP_ORIGIN_STATIC :: byte where [simp]: "RP_ORIGIN_STATIC = 0"
definition RP_ORIGIN_BSR :: byte where [simp]: "RP_ORIGIN_BSR = 1"

text \<open>
  The structures live in stores indexed by pointers; \<^verbatim>\<open>rp_fresh\<close> is a pointer that \<^verbatim>\<open>malloc\<close> has not given out. The
  functions work on the pair of lists in use or on the pair for the segments of a bootstrap message.
\<close>

datatype rp_lists = Current | Segmented

record rp_state =
  cands :: "nat \<Rightarrow> cand_rp"
  masks :: "nat \<Rightarrow> grp_mask"
  ents :: "nat \<Rightarrow> rp_grp_entry"
  grps :: "nat \<Rightarrow> grpentry"
  grplist :: "nat list"
  cand_rp_list :: "rp_lists \<Rightarrow> nat list"
  grp_mask_list :: "rp_lists \<Rightarrow> nat list"
  rp_fresh :: nat
  rp_crc :: crc_state

text \<open>What happens to the routing entries of the groups, which are not part of this state.\<close>

datatype rp_effect = Change_interfaces nat nat | Delete_grpentry nat

text \<open>
  The walk through an ordered list, which the functions share: on past the elements that come first, to the
  element looked for or to the place where it belongs.
\<close>

fun search_chain :: "('a \<Rightarrow> bool) \<Rightarrow> ('a \<Rightarrow> bool) \<Rightarrow> 'a list \<Rightarrow> 'a list \<times> 'a option \<times> 'a list" where
  "search_chain before found [] = ([], None, [])"
| "search_chain before found (x # xs) =
     (if before x then (let (as, f, bs) = search_chain before found xs in (x # as, f, bs))
      else if found x then ([], Some x, xs) else ([], None, x # xs))"

definition cand_address :: "rp_state \<Rightarrow> nat \<Rightarrow> sockaddr_in6" where
  "cand_address st c = rp_address (rpentry_of (cands st c))"

text \<open>
  \<^verbatim>\<open>route\<close> is what \<^verbatim>\<open>local_address\<close> and \<^verbatim>\<open>set_incoming\<close> find for an address: nothing when it is one of the router's
  own, otherwise the interface, the upstream neighbour, the metric and the preference.
\<close>

type_synonym route_lookup = "sockaddr_in6 \<Rightarrow> (nat \<times> nat option \<times> u32 \<times> u32) option"

definition new_rpentry :: "route_lookup \<Rightarrow> nat \<Rightarrow> sockaddr_in6 \<Rightarrow> rpentry" where
  "new_rpentry route reg_vif_num address =
     (case route address of
        None \<Rightarrow> \<lparr>rp_address = address, rp_incoming = reg_vif_num, rp_upstream = None, rp_metric = NOT 0,
                 rp_preference = NOT 0, rp_timer = 0\<rparr>
      | Some (iif, nbr, met, pref) \<Rightarrow> \<lparr>rp_address = address, rp_incoming = iif, rp_upstream = nbr, rp_metric = met,
                 rp_preference = pref, rp_timer = 0\<rparr>)"

definition add_cand_rp :: "route_lookup \<Rightarrow> nat \<Rightarrow> rp_lists \<Rightarrow> sockaddr_in6 \<Rightarrow> rp_state \<Rightarrow> nat \<times> rp_state" where
  "add_cand_rp route reg_vif_num used address st =
     (case search_chain (\<lambda>c. inet6_greaterthan (cand_address st c) address) (\<lambda>c. inet6_equal (cand_address st c) address)
             (cand_rp_list st used) of
        (as, Some cand, bs) \<Rightarrow> (cand, st)
      | (as, None, bs) \<Rightarrow>
          (let cand_rp_new = rp_fresh st
           in (cand_rp_new,
               st\<lparr>cands := (cands st)(cand_rp_new := \<lparr>rp_grp_chain = [], rpentry_of = new_rpentry route reg_vif_num address\<rparr>),
                  cand_rp_list := (cand_rp_list st)(used := as @ cand_rp_new # bs), rp_fresh := rp_fresh st + 1\<rparr>)))"

text \<open>The prefix under a mask, with the scope left out of the comparison.\<close>

definition prefix_of :: "in6_addr \<Rightarrow> in6_addr \<Rightarrow> sockaddr_in6" where
  "prefix_of addr m = \<lparr>sin6_addr = map (\<lambda>i. addr ! i AND m ! i) [0..<16], sin6_scope_id = 0\<rparr>"

definition mask_prefix :: "rp_state \<Rightarrow> nat \<Rightarrow> sockaddr_in6" where
  "mask_prefix st m = prefix_of (sin6_addr (group_addr (masks st m))) (group_mask (masks st m))"

definition add_grp_mask :: "rp_lists \<Rightarrow> sockaddr_in6 \<Rightarrow> in6_addr \<Rightarrow> in6_addr \<Rightarrow> rp_state \<Rightarrow> nat \<times> rp_state" where
  "add_grp_mask used addr gmask hmask st =
     (let prefix_h = prefix_of (sin6_addr addr) gmask
      in case search_chain (\<lambda>m. inet6_greaterthan (mask_prefix st m) prefix_h) (\<lambda>m. inet6_equal (mask_prefix st m) prefix_h)
                (grp_mask_list st used) of
        (as, Some m, bs) \<Rightarrow> (m, st)
      | (as, None, bs) \<Rightarrow>
          (let grp_mask_tmp = rp_fresh st
           in (grp_mask_tmp,
               st\<lparr>masks := (masks st)(grp_mask_tmp := \<lparr>grp_rp_chain = [], group_addr = addr, group_mask = gmask,
                    hash_mask = hmask, gm_fragment_tag = 0, group_rp_number = 0\<rparr>),
                  grp_mask_list := (grp_mask_list st)(used := as @ grp_mask_tmp # bs), rp_fresh := rp_fresh st + 1\<rparr>)))"

section \<open>The choice of the RP for a group\<close>

definition SEED1 :: u32 where "SEED1 = 1103515245"
definition SEED2 :: u32 where "SEED2 = 12345"

definition RP_HASH_VALUE2 :: "u32 \<Rightarrow> u32 \<Rightarrow> u32" where
  "RP_HASH_VALUE2 P C = (SEED1 * ((SEED1 * P + SEED2) XOR C) + SEED2) mod 0x80000000"

definition masked_grp :: "in6_addr \<Rightarrow> in6_addr \<Rightarrow> in6_addr" where
  "masked_grp g m = map (\<lambda>i. g ! i AND m ! i) [0..<16]"

text \<open>The best entry so far, with the copies of its fields that the loops compare; the address starts uninitialised.\<close>

record best_rp =
  best_entry :: "nat option"
  best_priority :: byte
  best_origin :: byte
  best_hash_value :: u32
  best_address_h :: sockaddr_in6

primrec match_chain ::
  "sockaddr_in6 \<Rightarrow> in6_addr \<Rightarrow> rp_state \<Rightarrow> nat list \<Rightarrow> best_rp \<Rightarrow> crc_state \<Rightarrow> (best_rp \<times> crc_state) option" where
  "match_chain grp hmask st [] b k = Some (b, k)"
| "match_chain grp hmask st (e # es) b k =
     (let ent = ents st e; pri = rg_priority ent; org = rg_origin ent
      in if best_priority b < pri then Some (b, k)
         else if best_priority b = pri \<and> best_origin b < org then Some (b, k)
         else (let curr_address_h = cand_address st (rg_rp ent)
           in do {
             (p, k) \<leftarrow> crc k (masked_grp (sin6_addr grp) hmask) 16;
             (c, k) \<leftarrow> crc k (sin6_addr curr_address_h) 16;
             let curr_hash_value = RP_HASH_VALUE2 p c;
             if best_priority b = pri \<and> best_origin b = org \<and>
                (curr_hash_value < best_hash_value b \<or>
                 curr_hash_value = best_hash_value b \<and> inet6_lessthan curr_address_h (best_address_h b))
             then match_chain grp hmask st es b k
             else match_chain grp hmask st es
                \<lparr>best_entry = Some e, best_priority = pri, best_origin = org, best_hash_value = curr_hash_value,
                  best_address_h = curr_address_h\<rparr> k }))"

primrec match_masks :: "sockaddr_in6 \<Rightarrow> rp_state \<Rightarrow> nat list \<Rightarrow> best_rp \<Rightarrow> crc_state \<Rightarrow> (best_rp \<times> crc_state) option" where
  "match_masks grp st [] b k = Some (b, k)"
| "match_masks grp st (m # ms) b k =
     (if \<not> inet6_equal (prefix_of (sin6_addr grp) (group_mask (masks st m))) (mask_prefix st m)
      then match_masks grp st ms b k
      else do {
        (b, k) \<leftarrow> match_chain grp (hash_mask (masks st m)) st (grp_rp_chain (masks st m)) b k;
        match_masks grp st ms b k })"

definition rp_grp_match :: "sockaddr_in6 \<Rightarrow> sockaddr_in6 \<Rightarrow> rp_state \<Rightarrow> (nat option \<times> rp_state) option" where
  "rp_grp_match uninit grp st =
     (if grp_mask_list st Current = [] then Some (None, st)
      else do {
        (b, k) \<leftarrow> match_masks grp st (grp_mask_list st Current)
          \<lparr>best_entry = None, best_priority = NOT 0, best_origin = NOT 0, best_hash_value = 0, best_address_h = uninit\<rparr>
          (rp_crc st);
        Some (best_entry b, st\<lparr>rp_crc := k\<rparr>) })"

definition rp_match :: "sockaddr_in6 \<Rightarrow> sockaddr_in6 \<Rightarrow> rp_state \<Rightarrow> (rpentry option \<times> rp_state) option" where
  "rp_match uninit grp st = do {
     (e, st) \<leftarrow> rp_grp_match uninit grp st;
     Some (case e of Some e \<Rightarrow> Some (rpentry_of (cands st (rg_rp (ents st e)))) | None \<Rightarrow> None, st) }"

definition rp_find :: "sockaddr_in6 \<Rightarrow> rp_state \<Rightarrow> nat option" where
  "rp_find addr st =
     (case search_chain (\<lambda>c. inet6_greaterthan (cand_address st c) addr) (\<lambda>c. inet6_equal (cand_address st c) addr)
             (cand_rp_list st Current) of (_, f, _) \<Rightarrow> f)"

section \<open>Mapping groups to RPs\<close>

text \<open>
  Taking a group out of the list of the groups that use the same entry, and deleting it; what \<^verbatim>\<open>delete_grpentry\<close> does
  with the routing entries of the group is the effect.
\<close>

definition unlink_group :: "nat \<Rightarrow> rp_state \<Rightarrow> rp_state" where
  "unlink_group g st =
     (case active_rp_grp (grps st g) of
        None \<Rightarrow> st
      | Some a \<Rightarrow> st\<lparr>ents := (ents st)(a := (ents st a)\<lparr>grplink := remove1 g (grplink (ents st a))\<rparr>)\<rparr>)"

definition delete_grpentry :: "nat \<Rightarrow> rp_state \<Rightarrow> rp_effect list \<times> rp_state" where
  "delete_grpentry g st =
     (let st = st\<lparr>grplist := remove1 g (grplist st)\<rparr> in ([Delete_grpentry g], unlink_group g st))"

definition link_group :: "nat \<Rightarrow> nat \<Rightarrow> rp_state \<Rightarrow> rp_state" where
  "link_group g e st =
     st\<lparr>grps := (grps st)(g := (grps st g)\<lparr>ge_rpaddr := cand_address st (rg_rp (ents st e)), active_rp_grp := Some e\<rparr>),
        ents := (ents st)(e := (ents st e)\<lparr>grplink := g # grplink (ents st e)\<rparr>)\<rparr>"

definition remap_grpentry :: "sockaddr_in6 \<Rightarrow> nat \<Rightarrow> rp_state \<Rightarrow> (rp_effect list \<times> rp_state) option" where
  "remap_grpentry uninit g st =
     (let st = unlink_group g st
      in do {
        (e, st) \<leftarrow> rp_grp_match uninit (ge_group (grps st g)) st;
        (case e of
           None \<Rightarrow> Some (delete_grpentry g st)
         | Some e \<Rightarrow> Some ([Change_interfaces g e], link_group g e st)) })"

fun remap_groups :: "sockaddr_in6 \<Rightarrow> nat list \<Rightarrow> rp_state \<Rightarrow> (rp_effect list \<times> rp_state) option" where
  "remap_groups uninit [] st = Some ([], st)"
| "remap_groups uninit (g # gs) st = do {
     (fs, st) \<leftarrow> remap_grpentry uninit g st;
     (fs', st) \<leftarrow> remap_groups uninit gs st;
     Some (fs @ fs', st) }"

text \<open>The loop at the end of \<^verbatim>\<open>add_rp_grp_entry\<close> over the entries that may have been the best before.\<close>

fun remap_chain :: "sockaddr_in6 \<Rightarrow> byte \<Rightarrow> byte \<Rightarrow> nat list \<Rightarrow> rp_state \<Rightarrow> (rp_effect list \<times> rp_state) option" where
  "remap_chain uninit pri org [] st = Some ([], st)"
| "remap_chain uninit pri org (e # es) st =
     (if rg_priority (ents st e) > pri then Some ([], st)
      else if rg_origin (ents st e) > org then Some ([], st)
      else do {
        (fs, st) \<leftarrow> remap_groups uninit (grplink (ents st e)) st;
        (fs', st) \<leftarrow> remap_chain uninit pri org es st;
        Some (fs @ fs', st) })"

definition entry_before :: "rp_state \<Rightarrow> byte \<Rightarrow> byte \<Rightarrow> sockaddr_in6 \<Rightarrow> nat \<Rightarrow> bool" where
  "entry_before st pri org addr e =
     (if rg_priority (ents st e) < pri then True
      else if rg_priority (ents st e) > pri then False
      else if rg_origin (ents st e) < org then True
      else if rg_origin (ents st e) > org then False
      else inet6_greaterthan (cand_address st (rg_rp (ents st e))) addr)"

definition entry_found :: "rp_state \<Rightarrow> byte \<Rightarrow> byte \<Rightarrow> sockaddr_in6 \<Rightarrow> nat \<Rightarrow> bool" where
  "entry_found st pri org addr e \<longleftrightarrow> rg_priority (ents st e) = pri \<and> rg_origin (ents st e) = org \<and>
     \<not> inet6_lessthan (cand_address st (rg_rp (ents st e))) addr"

text \<open>The second half of \<^verbatim>\<open>add_rp_grp_entry\<close>: refreshing or linking the entry for a prefix and an RP.\<close>

definition link_rp_grp_entry ::
  "sockaddr_in6 \<Rightarrow> nat \<Rightarrow> nat \<Rightarrow> sockaddr_in6 \<Rightarrow> byte \<Rightarrow> byte \<Rightarrow> u16 \<Rightarrow> u16 \<Rightarrow> rp_state \<Rightarrow>
     (nat option \<times> rp_effect list \<times> rp_state) option" where
  "link_rp_grp_entry uninit m c rp_addr rp_priority rp_origin rp_holdtime fragment_tag st =
     (let chain = grp_rp_chain (masks st m);
          old_highest_priority = (case chain of [] \<Rightarrow> NOT 0 | e # _ \<Rightarrow> rg_priority (ents st e));
          old_highest_origin = (case chain of [] \<Rightarrow> NOT 0 | e # _ \<Rightarrow> rg_origin (ents st e))
      in case search_chain (entry_before st rp_priority rp_origin rp_addr) (entry_found st rp_priority rp_origin rp_addr) chain of
           (as, Some e, bs) \<Rightarrow>
             Some (Some e, [], st\<lparr>ents := (ents st)(e := (ents st e)\<lparr>holdtime := rp_holdtime,
               advholdtime := rp_holdtime, rg_fragment_tag := fragment_tag\<rparr>)\<rparr>)
         | (as, None, bs) \<Rightarrow>
             (let new = rp_fresh st;
                  st = st\<lparr>ents := (ents st)(new := \<lparr>grplink = [], advholdtime = rp_holdtime, holdtime = rp_holdtime,
                            rg_fragment_tag = fragment_tag, rg_priority = rp_priority, rg_origin = rp_origin,
                            rg_group = m, rg_rp = c\<rparr>),
                          masks := (masks st)(m := (masks st m)\<lparr>grp_rp_chain := as @ new # bs,
                            group_rp_number := group_rp_number (masks st m) + 1\<rparr>),
                          cands := (cands st)(c := (cands st c)\<lparr>rp_grp_chain := new # rp_grp_chain (cands st c)\<rparr>),
                          rp_fresh := rp_fresh st + 1\<rparr>;
                  best = ents st (hd (as @ new # bs))
              in if rg_priority best = rp_priority \<or> rg_origin best = rp_origin
                 then do {
                   (fs, st) \<leftarrow> remap_chain uninit old_highest_priority old_highest_origin (as @ new # bs) st;
                   Some (Some new, fs, st) }
                 else Some (Some new, [], st)))"

definition add_rp_grp_entry ::
  "sockaddr_in6 \<Rightarrow> route_lookup \<Rightarrow> nat \<Rightarrow> rp_lists \<Rightarrow> sockaddr_in6 \<Rightarrow> byte \<Rightarrow> byte \<Rightarrow> u16 \<Rightarrow> sockaddr_in6 \<Rightarrow> in6_addr \<Rightarrow>
     in6_addr \<Rightarrow> u16 \<Rightarrow> rp_state \<Rightarrow> (nat option \<times> rp_effect list \<times> rp_state) option" where
  "add_rp_grp_entry uninit route reg_vif_num used rp_addr rp_priority rp_origin rp_holdtime grp gmask bsr_hash_mask fragment_tag st =
     (if \<not> inet6_valid_host rp_addr then Some (None, [], st)
      else if \<not> IN6_IS_ADDR_MULTICAST (sin6_addr grp) then Some (None, [], st)
      else (let (m, st) = add_grp_mask used grp gmask bsr_hash_mask st;
                (c, st) = add_cand_rp route reg_vif_num used rp_addr st;
                st = st\<lparr>cands := (cands st)(c := (cands st c)\<lparr>rpentry_of := (rpentry_of (cands st c))\<lparr>rp_timer := rp_holdtime\<rparr>\<rparr>),
                        masks := (masks st)(m := (masks st m)\<lparr>gm_fragment_tag := fragment_tag\<rparr>)\<rparr>
            in link_rp_grp_entry uninit m c rp_addr rp_priority rp_origin rp_holdtime fragment_tag st))"

section \<open>Ordered chains\<close>

lemma search_chain_split:
  "search_chain before found xs = (as, f, bs) \<Longrightarrow>
   xs = as @ (case f of None \<Rightarrow> [] | Some x \<Rightarrow> [x]) @ bs \<and> (\<forall>x \<in> set as. before x) \<and>
   (case f of None \<Rightarrow> bs = [] \<or> \<not> before (hd bs) \<and> \<not> found (hd bs) | Some x \<Rightarrow> \<not> before x \<and> found x)"
  by (induction before found xs arbitrary: as rule: search_chain.induct)
    (auto simp: Let_def split: if_splits prod.splits option.splits)

text \<open>A chain that is strictly ordered by a key, and an element that belongs at a place in it.\<close>

lemma search_chain_ordered:
  fixes key :: "'a \<Rightarrow> 'k :: linorder"
  assumes "search_chain before found xs = (as, f, bs)" and "sorted_wrt (\<lambda>a b. key a < key b) xs"
    and "\<And>x. x \<in> set xs \<Longrightarrow> before x \<longleftrightarrow> key x < k" and "\<And>x. x \<in> set xs \<Longrightarrow> \<not> before x \<Longrightarrow> found x \<longleftrightarrow> key x = k"
  shows "xs = as @ (case f of None \<Rightarrow> [] | Some x \<Rightarrow> [x]) @ bs" and "\<forall>x \<in> set as. key x < k" and "\<forall>x \<in> set bs. k < key x"
    and "f = Some x \<Longrightarrow> key x = k" and "f = None \<Longrightarrow> k \<notin> key ` set xs"
proof -
  note s = search_chain_split [OF assms(1)]
  show x: "xs = as @ (case f of None \<Rightarrow> [] | Some x \<Rightarrow> [x]) @ bs" using s by simp
  show a: "\<forall>x \<in> set as. key x < k" using s assms(3) x by auto
  show f: "f = Some x \<Longrightarrow> key x = k" for x using s assms(4) x by auto
  show b: "\<forall>x \<in> set bs. k < key x"
  proof (cases f)
    case None
    show ?thesis
    proof (cases bs)
      case (Cons y ys)
      then have "\<not> key y < k" "key y \<noteq> k" using s None assms(3,4) x by auto
      moreover have "\<forall>z \<in> set ys. key y < key z" using assms(2) x None Cons by (simp add: sorted_wrt_append)
      ultimately show ?thesis using Cons by force
    qed simp
  next
    case (Some y)
    then show ?thesis using f [OF Some] assms(2) x by (simp add: sorted_wrt_append)
  qed
  show "f = None \<Longrightarrow> k \<notin> key ` set xs" using a b x by auto
qed

lemma sorted_wrt_insert:
  fixes key :: "'a \<Rightarrow> 'k :: linorder"
  assumes "sorted_wrt (\<lambda>a b. key a < key b) (as @ bs)" and "\<forall>x \<in> set as. key x < key y" and "\<forall>x \<in> set bs. key y < key x"
  shows "sorted_wrt (\<lambda>a b. key a < key b) (as @ y # bs)"
  using assms by (auto simp: sorted_wrt_append)

lemma sorted_wrt_cong_key:
  "sorted_wrt (\<lambda>a b. key a < key b) xs \<Longrightarrow> (\<And>x. x \<in> set xs \<Longrightarrow> key' x = key x) \<Longrightarrow> sorted_wrt (\<lambda>a b. key' a < key' b) xs"
  for key key' :: "'a \<Rightarrow> 'k :: linorder"
  by (induction xs) auto

lemma sorted_wrt_distinct: "sorted_wrt (\<lambda>a b. key a < key b) xs \<Longrightarrow> distinct xs" for key :: "'a \<Rightarrow> 'k :: linorder"
  by (induction xs) auto

section \<open>Keys\<close>

text \<open>Addresses are ordered with the bigger first, so their keys are negated.\<close>

definition addr_key :: "sockaddr_in6 \<Rightarrow> int \<times> int" where
  "addr_key a = (- fst (in6_key a), - snd (in6_key a))"

definition entry_key :: "rp_state \<Rightarrow> nat \<Rightarrow> int \<times> int \<times> int \<times> int" where
  "entry_key st e = (uint (rg_priority (ents st e)), uint (rg_origin (ents st e)), addr_key (cand_address st (rg_rp (ents st e))))"

lemma addr_key_greater: "in6_ok a \<Longrightarrow> in6_ok b \<Longrightarrow> inet6_greaterthan a b \<longleftrightarrow> addr_key a < addr_key b"
  by (auto simp: greaterthan_less key_less addr_key_def less_prod_def)

lemma addr_key_eq: "in6_ok a \<Longrightarrow> in6_ok b \<Longrightarrow> addr_key a = addr_key b \<longleftrightarrow> a = b"
  using key_equal [of a b] by (auto simp: addr_key_def equal_eq prod_eq_iff)

lemma prefix_of_ok [simp]: "in6_ok (prefix_of a m)"
  by (simp add: in6_ok_def prefix_of_def)

lemma entry_before_key:
  assumes "in6_ok (cand_address st (rg_rp (ents st e)))" and "in6_ok addr"
  shows "entry_before st pri org addr e \<longleftrightarrow> entry_key st e < (uint pri, uint org, addr_key addr)"
    and "\<not> entry_before st pri org addr e \<Longrightarrow>
      entry_found st pri org addr e \<longleftrightarrow> entry_key st e = (uint pri, uint org, addr_key addr)"
proof -
  show b: "entry_before st pri org addr e \<longleftrightarrow> entry_key st e < (uint pri, uint org, addr_key addr)"
    using addr_key_greater [OF assms] by (auto simp: entry_before_def entry_key_def less_prod_def word_less_def word_uint_eq_iff)
  assume "\<not> entry_before st pri org addr e"
  then show "entry_found st pri org addr e \<longleftrightarrow> entry_key st e = (uint pri, uint org, addr_key addr)"
    using addr_key_greater [OF assms] addr_key_greater [OF assms(2,1)] addr_key_eq [OF assms]
    unfolding b by (auto simp: entry_found_def entry_key_def word_uint_eq_iff greaterthan_less)
qed

section \<open>The best RP\<close>

text \<open>
  What an entry offers for a group, as the record the loops keep, and its rank: the smallest priority value
  first, then the smallest origin value, then the biggest hash value and the biggest address.
\<close>

definition rp_hash :: "sockaddr_in6 \<Rightarrow> in6_addr \<Rightarrow> sockaddr_in6 \<Rightarrow> u32" where
  "rp_hash grp hmask rp = RP_HASH_VALUE2 (crc32 (masked_grp (sin6_addr grp) hmask)) (crc32 (sin6_addr rp))"

definition offer :: "sockaddr_in6 \<Rightarrow> in6_addr \<Rightarrow> rp_state \<Rightarrow> nat \<Rightarrow> best_rp" where
  "offer grp hmask st e =
     (let rp = cand_address st (rg_rp (ents st e))
      in \<lparr>best_entry = Some e, best_priority = rg_priority (ents st e), best_origin = rg_origin (ents st e),
          best_hash_value = rp_hash grp hmask rp, best_address_h = rp\<rparr>)"

definition rank :: "best_rp \<Rightarrow> int \<times> int \<times> int \<times> int \<times> int" where
  "rank b = (- uint (best_priority b), - uint (best_origin b), uint (best_hash_value b), in6_key (best_address_h b))"

definition better :: "best_rp \<Rightarrow> best_rp \<Rightarrow> best_rp" where
  "better b r = (if rank r < rank b then b else r)"

definition mask_offers :: "sockaddr_in6 \<Rightarrow> rp_state \<Rightarrow> nat \<Rightarrow> best_rp list" where
  "mask_offers grp st m =
     (if inet6_equal (prefix_of (sin6_addr grp) (group_mask (masks st m))) (mask_prefix st m)
      then map (offer grp (hash_mask (masks st m)) st) (grp_rp_chain (masks st m)) else [])"

definition offers :: "sockaddr_in6 \<Rightarrow> rp_state \<Rightarrow> best_rp list" where
  "offers grp st = concat (map (mask_offers grp st) (grp_mask_list st Current))"

text \<open>An entry refers to an RP with a proper address and has one of the two origins.\<close>

definition entry_ok :: "rp_state \<Rightarrow> nat \<Rightarrow> bool" where
  "entry_ok st e \<longleftrightarrow> in6_ok (cand_address st (rg_rp (ents st e))) \<and> rg_origin (ents st e) < 2"

definition best_ok :: "best_rp \<Rightarrow> bool" where
  "best_ok b \<longleftrightarrow> in6_ok (best_address_h b) \<and> best_origin b < 2 \<or> best_entry b = None \<and> best_priority b = 255 \<and> best_origin b = 255"

lemma offer_ok: "entry_ok st e \<Longrightarrow> best_ok (offer grp hmask st e)"
  by (simp add: entry_ok_def best_ok_def offer_def Let_def)

lemma masked_length [simp]: "length (masked_grp g m) = 16"
  by (simp add: masked_grp_def)

text \<open>The test of the loop compares the ranks.\<close>

lemma uint_byte: "0 \<le> uint b" "uint b \<le> 255" for b :: byte
proof -
  have "uint b < 2 ^ LENGTH(8)" by (rule unsigned_less)
  then show "0 \<le> uint b" "uint b \<le> 255" by simp_all
qed

lemma rank_test:
  assumes "best_ok b" and "entry_ok st e" and "r = offer grp hmask st e"
    and "\<not> best_priority b < best_priority r" and "\<not> (best_priority b = best_priority r \<and> best_origin b < best_origin r)"
  shows "(best_priority b = best_priority r \<and> best_origin b = best_origin r \<and>
      (best_hash_value r < best_hash_value b \<or>
       best_hash_value r = best_hash_value b \<and> inet6_lessthan (best_address_h r) (best_address_h b))) \<longleftrightarrow> rank r < rank b"
proof -
  have o: "in6_ok (best_address_h r)" "best_origin r < 2" using assms(2,3) by (simp_all add: entry_ok_def offer_def Let_def)
  show ?thesis
  proof (cases "best_origin b = 255")
    case True
    then have "best_origin b \<noteq> best_origin r" using o(2) by auto
    then show ?thesis using assms(4,5)
      by (auto simp: rank_def less_prod_def word_less_def word_uint_eq_iff)
  next
    case False
    then have "in6_ok (best_address_h b)" using assms(1) by (auto simp: best_ok_def)
    then have "inet6_lessthan (best_address_h r) (best_address_h b) \<longleftrightarrow> in6_key (best_address_h r) < in6_key (best_address_h b)"
      using key_less [OF o(1)] by (auto simp: less_prod_def)
    then show ?thesis using assms(4,5)
      by (auto simp: rank_def less_prod_def word_less_def word_uint_eq_iff)
  qed
qed

lemma rank_break:
  assumes "best_priority b < best_priority r \<or> best_priority b = best_priority r \<and> best_origin b < best_origin r"
  shows "rank r < rank b"
  using assms by (auto simp: rank_def less_prod_def word_less_def)

lemma foldl_same: "(\<And>x. x \<in> set xs \<Longrightarrow> f b x = b) \<Longrightarrow> foldl f b xs = b"
  by (induction xs) auto

lemma better_break:
  assumes "sorted_wrt (\<lambda>a b. entry_key st a < entry_key st b) (e # es)"
    and "best_priority b < rg_priority (ents st e) \<or> best_priority b = rg_priority (ents st e) \<and> best_origin b < rg_origin (ents st e)"
  shows "foldl better b (map (offer grp hmask st) (e # es)) = b"
proof -
  have "better b (offer grp hmask st e') = b" if "e' \<in> set (e # es)" for e'
  proof -
    have "entry_key st e \<le> entry_key st e'" using that assms(1) by auto
    then have "best_priority b < rg_priority (ents st e') \<or> best_priority b = rg_priority (ents st e') \<and> best_origin b < rg_origin (ents st e')"
      using assms(2) by (auto simp: entry_key_def less_eq_prod_def word_less_def word_uint_eq_iff)
    then have "rank (offer grp hmask st e') < rank b" by (intro rank_break) (simp add: offer_def Let_def)
    then show ?thesis by (simp add: better_def)
  qed
  then show ?thesis by (intro foldl_same) auto
qed

lemma match_chain_best:
  assumes "crc_ok k" and "best_ok b" and "\<forall>e \<in> set es. entry_ok st e"
    and "sorted_wrt (\<lambda>a b. entry_key st a < entry_key st b) es"
  shows "\<exists>k'. crc_ok k' \<and> best_ok (foldl better b (map (offer grp hmask st) es)) \<and>
    match_chain grp hmask st es b k = Some (foldl better b (map (offer grp hmask st) es), k')"
  using assms
proof (induction es arbitrary: b k)
  case (Cons e es)
  let ?r = "offer grp hmask st e"
  let ?rp = "cand_address st (rg_rp (ents st e))"
  have l: "length (sin6_addr ?rp) = 16" using Cons(4) by (simp add: entry_ok_def in6_ok_def)
  show ?case
  proof (cases "best_priority b < rg_priority (ents st e) \<or> best_priority b = rg_priority (ents st e) \<and> best_origin b < rg_origin (ents st e)")
    case True
    then show ?thesis using Cons(2,3) better_break [OF Cons(5) True, of grp hmask] by (auto simp: Let_def)
  next
    case False
    obtain k1 where 1: "crc k (masked_grp (sin6_addr grp) hmask) 16 = Some (crc32 (masked_grp (sin6_addr grp) hmask), k1)" "crc_ok k1"
      using crc_eq [OF Cons(2), of 16 "masked_grp (sin6_addr grp) hmask"] Cons(2) by (auto simp: crc_ok_def make_crc_table_def)
    obtain k2 where 2: "crc k1 (sin6_addr ?rp) 16 = Some (crc32 (sin6_addr ?rp), k2)" "crc_ok k2"
      using crc_eq [OF 1(2), of 16 "sin6_addr ?rp"] 1(2) l by (auto simp: crc_ok_def make_crc_table_def)
    have t: "(best_priority b = rg_priority (ents st e) \<and> best_origin b = rg_origin (ents st e) \<and>
      (rp_hash grp hmask ?rp < best_hash_value b \<or>
       rp_hash grp hmask ?rp = best_hash_value b \<and> inet6_lessthan ?rp (best_address_h b))) \<longleftrightarrow> rank ?r < rank b"
      using rank_test [OF Cons(3), of st e ?r grp hmask] Cons(4) False by (simp add: offer_def Let_def)
    have m: "match_chain grp hmask st (e # es) b k = match_chain grp hmask st es (better b ?r) k2"
      using False 1 2 t by (auto simp: Let_def better_def offer_def rp_hash_def)
    have "best_ok (better b ?r)" using Cons(3,4) offer_ok [of st e grp hmask] by (simp add: better_def)
    from Cons(1) [OF 2(2) this] Cons(4,5) m show ?thesis by auto
  qed
qed simp

lemma better_foldl:
  "(foldl better b rs = b \<or> foldl better b rs \<in> set rs) \<and> rank b \<le> rank (foldl better b rs) \<and>
   (\<forall>r \<in> set rs. rank r \<le> rank (foldl better b rs))"
proof (induction rs arbitrary: b)
  case (Cons r rs)
  have "rank b \<le> rank (better b r)" "rank r \<le> rank (better b r)" "better b r = b \<or> better b r = r"
    by (auto simp: better_def)
  then show ?case using Cons [of "better b r"] by (auto intro: order_trans)
qed simp

lemma match_masks_best:
  assumes "crc_ok k" and "best_ok b" and "\<forall>m \<in> set ms. \<forall>e \<in> set (grp_rp_chain (masks st m)). entry_ok st e"
    and "\<forall>m \<in> set ms. sorted_wrt (\<lambda>a b. entry_key st a < entry_key st b) (grp_rp_chain (masks st m))"
  shows "\<exists>k'. crc_ok k' \<and> best_ok (foldl better b (concat (map (mask_offers grp st) ms))) \<and>
    match_masks grp st ms b k = Some (foldl better b (concat (map (mask_offers grp st) ms)), k')"
  using assms
proof (induction ms arbitrary: b k)
  case (Cons m ms)
  show ?case
  proof (cases "inet6_equal (prefix_of (sin6_addr grp) (group_mask (masks st m))) (mask_prefix st m)")
    case True
    obtain k1 where 1: "crc_ok k1" "best_ok (foldl better b (mask_offers grp st m))"
      "match_chain grp (hash_mask (masks st m)) st (grp_rp_chain (masks st m)) b k = Some (foldl better b (mask_offers grp st m), k1)"
      using match_chain_best [OF Cons(2,3), of "grp_rp_chain (masks st m)" st grp "hash_mask (masks st m)"] Cons(4,5) True
      by (auto simp: mask_offers_def)
    then show ?thesis using Cons(1) [OF 1(1,2)] Cons(4,5) True by simp
  next
    case False
    then show ?thesis using Cons(1) [OF Cons(2,3)] Cons(4,5) by (simp add: mask_offers_def)
  qed
qed simp

definition start_best :: "sockaddr_in6 \<Rightarrow> best_rp" where
  "start_best uninit = \<lparr>best_entry = None, best_priority = NOT 0, best_origin = NOT 0, best_hash_value = 0, best_address_h = uninit\<rparr>"

definition chains_ok :: "rp_state \<Rightarrow> bool" where
  "chains_ok st \<longleftrightarrow> crc_ok (rp_crc st) \<and> (\<forall>m \<in> set (grp_mask_list st Current).
     (\<forall>e \<in> set (grp_rp_chain (masks st m)). entry_ok st e) \<and>
     sorted_wrt (\<lambda>a b. entry_key st a < entry_key st b) (grp_rp_chain (masks st m)))"

lemma rp_grp_match_best:
  assumes "chains_ok st"
  shows "\<exists>k. crc_ok k \<and> rp_grp_match uninit grp st =
    Some (best_entry (foldl better (start_best uninit) (offers grp st)), st\<lparr>rp_crc := k\<rparr>)"
proof (cases "grp_mask_list st Current = []")
  case True
  then show ?thesis using assms
    by (intro exI [of _ "rp_crc st"]) (simp add: rp_grp_match_def offers_def start_best_def chains_ok_def)
next
  case False
  have "best_ok (start_best uninit)" by (simp add: best_ok_def start_best_def)
  then obtain k where "crc_ok k" "match_masks grp st (grp_mask_list st Current) (start_best uninit) (rp_crc st) =
      Some (foldl better (start_best uninit) (offers grp st), k)"
    using match_masks_best [of "rp_crc st" "start_best uninit" "grp_mask_list st Current" st grp] assms
    by (auto simp: chains_ok_def offers_def)
  then show ?thesis using False by (auto simp: rp_grp_match_def start_best_def)
qed

lemma start_rank: "best_origin r < 2 \<Longrightarrow> rank (start_best uninit) < rank r"
proof -
  assume a: "best_origin r < 2"
  have "uint (NOT 0 :: byte) = 255" by code_simp
  moreover have "uint (best_origin r) < 2" using a by (simp add: word_less_def)
  moreover have "uint (best_priority r) \<le> 255" by (rule uint_byte)
  ultimately show ?thesis by (auto simp: rank_def start_best_def less_prod_def)
qed

text \<open>The result in terms of the offers alone.\<close>

lemma offers_ok: "chains_ok st \<Longrightarrow> r \<in> set (offers grp st) \<Longrightarrow> best_origin r < 2 \<and> in6_ok (best_address_h r) \<and>
    (\<exists>m e. r = offer grp (hash_mask (masks st m)) st e \<and> m \<in> set (grp_mask_list st Current) \<and> e \<in> set (grp_rp_chain (masks st m)))"
  by (fastforce simp: offers_def mask_offers_def chains_ok_def entry_ok_def offer_def Let_def split: if_splits)

lemma best_of_offers:
  assumes "chains_ok st" and "offers grp st \<noteq> []"
  shows "\<exists>r \<in> set (offers grp st). foldl better (start_best uninit) (offers grp st) = r \<and>
    (\<forall>r' \<in> set (offers grp st). rank r' \<le> rank r)"
proof -
  let ?f = "foldl better (start_best uninit) (offers grp st)"
  note b = better_foldl [of "start_best uninit" "offers grp st"]
  obtain r0 where r0: "r0 \<in> set (offers grp st)" using assms(2) by (cases "offers grp st") auto
  then have "rank (start_best uninit) < rank ?f" using offers_ok [OF assms(1) r0] less_le_trans [OF start_rank [of r0 uninit]] b by blast
  then have "?f \<noteq> start_best uninit" by auto
  then show ?thesis using b by auto
qed

section \<open>The invariant of the RP set\<close>

definition mask_ok :: "rp_state \<Rightarrow> rp_lists \<Rightarrow> nat \<Rightarrow> bool" where
  "mask_ok st u m \<longleftrightarrow>
     sorted_wrt (\<lambda>a b. entry_key st a < entry_key st b) (grp_rp_chain (masks st m)) \<and>
     (\<forall>e \<in> set (grp_rp_chain (masks st m)). e < rp_fresh st \<and> rg_group (ents st e) = m \<and>
        rg_rp (ents st e) \<in> set (cand_rp_list st u) \<and> rg_origin (ents st e) < 2) \<and>
     group_rp_number (masks st m) = of_nat (length (grp_rp_chain (masks st m)))"

definition cand_ok :: "rp_state \<Rightarrow> rp_lists \<Rightarrow> nat \<Rightarrow> bool" where
  "cand_ok st u c \<longleftrightarrow> in6_ok (cand_address st c) \<and> distinct (rp_grp_chain (cands st c)) \<and>
     set (rp_grp_chain (cands st c)) =
       {e. rg_rp (ents st e) = c \<and> (\<exists>m \<in> set (grp_mask_list st u). e \<in> set (grp_rp_chain (masks st m)))}"

definition lists_ok :: "rp_state \<Rightarrow> rp_lists \<Rightarrow> bool" where
  "lists_ok st u \<longleftrightarrow>
     sorted_wrt (\<lambda>a b. addr_key (cand_address st a) < addr_key (cand_address st b)) (cand_rp_list st u) \<and>
     sorted_wrt (\<lambda>a b. addr_key (mask_prefix st a) < addr_key (mask_prefix st b)) (grp_mask_list st u) \<and>
     (\<forall>c \<in> set (cand_rp_list st u). c < rp_fresh st \<and> cand_ok st u c) \<and>
     (\<forall>m \<in> set (grp_mask_list st u). m < rp_fresh st \<and> mask_ok st u m)"

definition rp_ok :: "rp_state \<Rightarrow> bool" where
  "rp_ok st \<longleftrightarrow> lists_ok st Current \<and> lists_ok st Segmented \<and> crc_ok (rp_crc st) \<and>
     set (cand_rp_list st Current) \<inter> set (cand_rp_list st Segmented) = {} \<and>
     set (grp_mask_list st Current) \<inter> set (grp_mask_list st Segmented) = {}"

lemma rp_ok_lists: "rp_ok st \<Longrightarrow> lists_ok st u"
  by (cases u) (simp_all add: rp_ok_def)

lemma rp_ok_disjoint:
  assumes "rp_ok st"
  shows "x \<in> set (cand_rp_list st u) \<Longrightarrow> x \<in> set (cand_rp_list st v) \<Longrightarrow> u = v"
    and "x \<in> set (grp_mask_list st u) \<Longrightarrow> x \<in> set (grp_mask_list st v) \<Longrightarrow> u = v"
  using assms by (cases u; cases v; auto simp: rp_ok_def)+

lemma entries_ok: "lists_ok st u \<Longrightarrow> m \<in> set (grp_mask_list st u) \<Longrightarrow> e \<in> set (grp_rp_chain (masks st m)) \<Longrightarrow> entry_ok st e"
  by (auto simp: lists_ok_def mask_ok_def cand_ok_def entry_ok_def)

lemma rp_ok_chains: "rp_ok st \<Longrightarrow> chains_ok st"
  using entries_ok [of st Current] by (auto simp: chains_ok_def rp_ok_def lists_ok_def mask_ok_def)

text \<open>What the invariant depends on.\<close>

lemma rp_ok_frame:
  assumes "rp_ok st" and "cand_rp_list st' = cand_rp_list st" and "grp_mask_list st' = grp_mask_list st"
    and "rp_fresh st' = rp_fresh st" and "crc_ok (rp_crc st')"
    and "\<And>c. cand_address st' c = cand_address st c \<and> rp_grp_chain (cands st' c) = rp_grp_chain (cands st c)"
    and "\<And>m. mask_prefix st' m = mask_prefix st m \<and> grp_rp_chain (masks st' m) = grp_rp_chain (masks st m) \<and>
       group_rp_number (masks st' m) = group_rp_number (masks st m)"
    and "\<And>e. rg_priority (ents st' e) = rg_priority (ents st e) \<and> rg_origin (ents st' e) = rg_origin (ents st e) \<and>
       rg_group (ents st' e) = rg_group (ents st e) \<and> rg_rp (ents st' e) = rg_rp (ents st e)"
  shows "rp_ok st'"
proof -
  have "entry_key st' = entry_key st" using assms(6,8) by (auto simp: entry_key_def)
  then have "lists_ok st' u = lists_ok st u" for u using assms(2-8) by (simp add: lists_ok_def mask_ok_def cand_ok_def)
  then show ?thesis using assms by (simp add: rp_ok_def)
qed

definition new_mask :: "rp_lists \<Rightarrow> nat list \<Rightarrow> nat list \<Rightarrow> grp_mask \<Rightarrow> rp_state \<Rightarrow> rp_state" where
  "new_mask u as bs gm st = st\<lparr>masks := (masks st)(rp_fresh st := gm),
     grp_mask_list := (grp_mask_list st)(u := as @ rp_fresh st # bs), rp_fresh := rp_fresh st + 1\<rparr>"

lemma new_mask_ok:
  assumes "rp_ok st" and l: "grp_mask_list st u = as @ bs" and "grp_rp_chain gm = []" and "group_rp_number gm = 0"
    and k: "k = addr_key (prefix_of (sin6_addr (group_addr gm)) (group_mask gm))"
    and "\<forall>x \<in> set as. addr_key (mask_prefix st x) < k" and "\<forall>x \<in> set bs. k < addr_key (mask_prefix st x)"
  shows "rp_ok (new_mask u as bs gm st)"
proof -
  let ?st = "new_mask u as bs gm st" and ?n = "rp_fresh st"
  have lt: "c < ?n" if "c \<in> set (cand_rp_list st v) \<or> c \<in> set (grp_mask_list st v)" for c v
    using rp_ok_lists [OF assms(1), of v] that by (auto simp: lists_ok_def)
  have c: "cand_address ?st = cand_address st" "entry_key ?st = entry_key st"
    by (auto simp: new_mask_def cand_address_def entry_key_def)
  have p: "mask_prefix ?st m = (if m = ?n then prefix_of (sin6_addr (group_addr gm)) (group_mask gm) else mask_prefix st m)" for m
    by (simp add: new_mask_def mask_prefix_def)
  have "lists_ok ?st v" for v
  proof -
    note lv = rp_ok_lists [OF assms(1), of v]
    have ms: "set (grp_mask_list ?st v) = set (grp_mask_list st v) \<union> (if v = u then {?n} else {})"
      using l by (auto simp: new_mask_def)
    have mk: "mask_ok ?st v m" if "m \<in> set (grp_mask_list ?st v)" for m
    proof (cases "m = ?n")
      case True
      then show ?thesis using assms(3,4) by (simp add: mask_ok_def new_mask_def)
    next
      case False
      then have "mask_ok st v m" using that ms lv by (auto simp: lists_ok_def split: if_splits)
      then show ?thesis using False unfolding mask_ok_def c by (auto simp: new_mask_def)
    qed
    have old: "grp_rp_chain (masks ?st m) = grp_rp_chain (masks st m)" if "m \<in> set (grp_mask_list st v)" for m
      using lt [of m v] that by (auto simp: new_mask_def)
    have new: "grp_rp_chain (masks ?st ?n) = []" using assms(3) by (simp add: new_mask_def)
    have ck: "cand_ok ?st v x" if "x \<in> set (cand_rp_list st v)" for x
    proof -
      have "cand_ok st v x" using that lv by (simp add: lists_ok_def)
      moreover have "(\<exists>m \<in> set (grp_mask_list ?st v). e \<in> set (grp_rp_chain (masks ?st m))) \<longleftrightarrow>
        (\<exists>m \<in> set (grp_mask_list st v). e \<in> set (grp_rp_chain (masks st m)))" for e
        unfolding ms using old new by auto
      ultimately show ?thesis unfolding cand_ok_def c by (simp add: new_mask_def)
    qed
    have so: "sorted_wrt (\<lambda>a b. addr_key (mask_prefix ?st a) < addr_key (mask_prefix ?st b)) (grp_mask_list ?st v)"
    proof -
      have "sorted_wrt (\<lambda>a b. addr_key (mask_prefix ?st a) < addr_key (mask_prefix ?st b)) (grp_mask_list st v)"
      proof (rule sorted_wrt_cong_key)
        show "sorted_wrt (\<lambda>a b. addr_key (mask_prefix st a) < addr_key (mask_prefix st b)) (grp_mask_list st v)"
          using lv by (simp add: lists_ok_def)
        show "addr_key (mask_prefix ?st x) = addr_key (mask_prefix st x)" if "x \<in> set (grp_mask_list st v)" for x
          using lt [of x v] that p [of x] by simp
      qed
      moreover have "mask_prefix ?st x = mask_prefix st x" if "x \<in> set as \<union> set bs" for x
        using that l lt [of x u] p [of x] by auto
      ultimately show ?thesis using assms(6,7) l sorted_wrt_insert [of "\<lambda>x. addr_key (mask_prefix ?st x)" as bs ?n]
        p [of ?n] k by (cases "v = u") (auto simp: new_mask_def)
    qed
    have "cand_rp_list ?st v = cand_rp_list st v" by (simp add: new_mask_def)
    moreover have "m < rp_fresh ?st" if "m \<in> set (grp_mask_list ?st v) \<union> set (cand_rp_list st v)" for m
      using that ms lt [of m v] by (auto simp: new_mask_def split: if_splits)
    ultimately show ?thesis using lv mk ck so unfolding lists_ok_def c by simp
  qed
  then show ?thesis using assms(1) l lt by (cases u) (fastforce simp: rp_ok_def new_mask_def)+
qed

lemma add_grp_mask_ok:
  assumes "rp_ok st" and "add_grp_mask u grp gmask hmask st = (m, st')"
  shows "rp_ok st'" and "mask_prefix st' m = prefix_of (sin6_addr grp) gmask"
    and "m \<in> set (grp_mask_list st u) \<and> st' = st \<or>
      (\<exists>as bs. grp_mask_list st u = as @ bs \<and> m = rp_fresh st \<and>
        st' = new_mask u as bs \<lparr>grp_rp_chain = [], group_addr = grp, group_mask = gmask, hash_mask = hmask,
          gm_fragment_tag = 0, group_rp_number = 0\<rparr> st)"
proof -
  let ?p = "prefix_of (sin6_addr grp) gmask"
  let ?before = "\<lambda>m. inet6_greaterthan (mask_prefix st m) ?p" and ?found = "\<lambda>m. inet6_equal (mask_prefix st m) ?p"
  let ?gm = "\<lparr>grp_rp_chain = [], group_addr = grp, group_mask = gmask, hash_mask = hmask, gm_fragment_tag = 0, group_rp_number = 0\<rparr>"
  obtain as f bs where s: "search_chain ?before ?found (grp_mask_list st u) = (as, f, bs)"
    by (cases "search_chain ?before ?found (grp_mask_list st u)")
  have sorted: "sorted_wrt (\<lambda>a b. addr_key (mask_prefix st a) < addr_key (mask_prefix st b)) (grp_mask_list st u)"
    using rp_ok_lists [OF assms(1), of u] by (simp add: lists_ok_def)
  have ok: "in6_ok (mask_prefix st m)" for m by (simp add: mask_prefix_def)
  have b: "?before x \<longleftrightarrow> addr_key (mask_prefix st x) < addr_key ?p" "?found x \<longleftrightarrow> addr_key (mask_prefix st x) = addr_key ?p" for x
    using addr_key_greater [OF ok] addr_key_eq [OF ok] by (auto simp: equal_eq)
  note o = search_chain_ordered [OF s sorted b]
  have "rp_ok st' \<and> mask_prefix st' m = ?p \<and> (m \<in> set (grp_mask_list st u) \<and> st' = st \<or>
      (\<exists>as bs. grp_mask_list st u = as @ bs \<and> m = rp_fresh st \<and> st' = new_mask u as bs ?gm st))"
  proof (cases f)
    case None
    then have r: "m = rp_fresh st" "st' = new_mask u as bs ?gm st" "grp_mask_list st u = as @ bs"
      using assms(2) s o(1) by (auto simp: add_grp_mask_def new_mask_def Let_def)
    then have "rp_ok st'" using new_mask_ok [OF assms(1) r(3), of ?gm "addr_key ?p"] o(2,3) by simp
    moreover have "mask_prefix st' m = ?p" using r by (simp add: new_mask_def mask_prefix_def)
    ultimately show ?thesis using r by auto
  next
    case (Some x)
    then have "m = x" "st' = st" "x \<in> set (grp_mask_list st u)" using assms(2) s o(1) by (simp_all add: add_grp_mask_def Let_def)
    moreover have "mask_prefix st x = ?p" using o(4) [OF Some] addr_key_eq [OF ok] by simp
    ultimately show ?thesis using assms(1) by simp
  qed
  then show "rp_ok st'" "mask_prefix st' m = ?p" "m \<in> set (grp_mask_list st u) \<and> st' = st \<or>
      (\<exists>as bs. grp_mask_list st u = as @ bs \<and> m = rp_fresh st \<and> st' = new_mask u as bs ?gm st)" by auto
qed

definition new_cand :: "rp_lists \<Rightarrow> nat list \<Rightarrow> nat list \<Rightarrow> rpentry \<Rightarrow> rp_state \<Rightarrow> rp_state" where
  "new_cand u as bs r st = st\<lparr>cands := (cands st)(rp_fresh st := \<lparr>rp_grp_chain = [], rpentry_of = r\<rparr>),
     cand_rp_list := (cand_rp_list st)(u := as @ rp_fresh st # bs), rp_fresh := rp_fresh st + 1\<rparr>"

lemma new_cand_ok:
  assumes "rp_ok st" and l: "cand_rp_list st u = as @ bs" and "in6_ok (rp_address r)" and k: "k = addr_key (rp_address r)"
    and "\<forall>x \<in> set as. addr_key (cand_address st x) < k" and "\<forall>x \<in> set bs. k < addr_key (cand_address st x)"
  shows "rp_ok (new_cand u as bs r st)"
proof -
  let ?st = "new_cand u as bs r st" and ?n = "rp_fresh st"
  have lt: "c < ?n" if "c \<in> set (cand_rp_list st v) \<or> c \<in> set (grp_mask_list st v)" for c v
    using rp_ok_lists [OF assms(1), of v] that by (auto simp: lists_ok_def)
  have ca: "cand_address ?st c = (if c = ?n then rp_address r else cand_address st c)" for c
    by (simp add: new_cand_def cand_address_def)
  have f: "masks ?st = masks st" "ents ?st = ents st" "grp_mask_list ?st = grp_mask_list st" "mask_prefix ?st = mask_prefix st"
    by (auto simp: new_cand_def mask_prefix_def)
  have "lists_ok ?st v" for v
  proof -
    note lv = rp_ok_lists [OF assms(1), of v]
    have cs: "set (cand_rp_list ?st v) = set (cand_rp_list st v) \<union> (if v = u then {?n} else {})"
      using l by (auto simp: new_cand_def)
    have rp: "rg_rp (ents st e) \<in> set (cand_rp_list st v)" if "m \<in> set (grp_mask_list st v)" "e \<in> set (grp_rp_chain (masks st m))" for m e
      using that lv by (auto simp: lists_ok_def mask_ok_def)
    have ek: "entry_key ?st e = entry_key st e" if "m \<in> set (grp_mask_list st v)" "e \<in> set (grp_rp_chain (masks st m))" for m e
      using lt [of "rg_rp (ents st e)" v] rp [OF that] by (auto simp: entry_key_def f ca)
    have mk: "mask_ok ?st v m" if m: "m \<in> set (grp_mask_list st v)" for m
    proof -
      have "mask_ok st v m" using m lv by (simp add: lists_ok_def)
      then show ?thesis using ek [OF m] sorted_wrt_cong_key [of "entry_key st" "grp_rp_chain (masks st m)" "entry_key ?st"]
        by (auto simp: mask_ok_def f cs) (auto simp: new_cand_def less_Suc_eq)
    qed
    have ck: "cand_ok ?st v x" if "x \<in> set (cand_rp_list ?st v)" for x
    proof (cases "x = ?n")
      case True
      have "{e. rg_rp (ents st e) = ?n \<and> (\<exists>m \<in> set (grp_mask_list st v). e \<in> set (grp_rp_chain (masks st m)))} = {}"
        using rp lt by fastforce
      then show ?thesis using True assms(3) by (simp add: cand_ok_def f ca) (simp add: new_cand_def)
    next
      case False
      then have "cand_ok st v x" using that cs lv by (auto simp: lists_ok_def split: if_splits)
      then show ?thesis using False by (simp add: cand_ok_def f ca) (simp add: new_cand_def)
    qed
    have so: "sorted_wrt (\<lambda>a b. addr_key (cand_address ?st a) < addr_key (cand_address ?st b)) (cand_rp_list ?st v)"
    proof -
      have "sorted_wrt (\<lambda>a b. addr_key (cand_address ?st a) < addr_key (cand_address ?st b)) (cand_rp_list st v)"
      proof (rule sorted_wrt_cong_key)
        show "sorted_wrt (\<lambda>a b. addr_key (cand_address st a) < addr_key (cand_address st b)) (cand_rp_list st v)"
          using lv by (simp add: lists_ok_def)
        show "addr_key (cand_address ?st x) = addr_key (cand_address st x)" if "x \<in> set (cand_rp_list st v)" for x
          using lt [of x v] that ca [of x] by simp
      qed
      moreover have "cand_address ?st x = cand_address st x" if "x \<in> set as \<union> set bs" for x
        using that l lt [of x u] ca [of x] by auto
      ultimately show ?thesis using assms(5,6) l sorted_wrt_insert [of "\<lambda>x. addr_key (cand_address ?st x)" as bs ?n]
        ca [of ?n] k by (cases "v = u") (auto simp: new_cand_def)
    qed
    have "m < rp_fresh ?st" if "m \<in> set (cand_rp_list ?st v) \<union> set (grp_mask_list st v)" for m
      using that cs lt [of m v] by (auto simp: new_cand_def split: if_splits)
    then show ?thesis using lv mk ck so unfolding lists_ok_def f by simp
  qed
  then show ?thesis using assms(1) l lt by (cases u) (fastforce simp: rp_ok_def new_cand_def)+
qed

lemma add_cand_rp_ok:
  assumes "rp_ok st" and "in6_ok addr" and "add_cand_rp route reg u addr st = (c, st')"
  shows "rp_ok st'" and "cand_address st' c = addr"
    and "c \<in> set (cand_rp_list st u) \<and> st' = st \<or>
      (\<exists>as bs r. cand_rp_list st u = as @ bs \<and> c = rp_fresh st \<and> rp_address r = addr \<and> st' = new_cand u as bs r st)"
proof -
  let ?before = "\<lambda>c. inet6_greaterthan (cand_address st c) addr" and ?found = "\<lambda>c. inet6_equal (cand_address st c) addr"
  obtain as f bs where s: "search_chain ?before ?found (cand_rp_list st u) = (as, f, bs)"
    by (cases "search_chain ?before ?found (cand_rp_list st u)")
  have l: "sorted_wrt (\<lambda>a b. addr_key (cand_address st a) < addr_key (cand_address st b)) (cand_rp_list st u)"
    and ok: "x \<in> set (cand_rp_list st u) \<Longrightarrow> in6_ok (cand_address st x)" for x
    using rp_ok_lists [OF assms(1), of u] by (auto simp: lists_ok_def cand_ok_def)
  have b: "?before x \<longleftrightarrow> addr_key (cand_address st x) < addr_key addr" "?found x \<longleftrightarrow> addr_key (cand_address st x) = addr_key addr"
    if "x \<in> set (cand_rp_list st u)" for x
    using addr_key_greater [OF ok [OF that] assms(2)] addr_key_eq [OF ok [OF that] assms(2)] by (auto simp: equal_eq)
  note o = search_chain_ordered [OF s l b]
  have "rp_ok st' \<and> cand_address st' c = addr \<and> (c \<in> set (cand_rp_list st u) \<and> st' = st \<or>
      (\<exists>as bs r. cand_rp_list st u = as @ bs \<and> c = rp_fresh st \<and> rp_address r = addr \<and> st' = new_cand u as bs r st))"
  proof (cases f)
    case None
    let ?r = "new_rpentry route reg addr"
    have r: "rp_address ?r = addr" by (simp add: new_rpentry_def split: option.split prod.split)
    have st: "c = rp_fresh st" "st' = new_cand u as bs ?r st" "cand_rp_list st u = as @ bs"
      using assms(3) s o(1) None by (auto simp: add_cand_rp_def new_cand_def Let_def)
    then have "rp_ok st'" using new_cand_ok [OF assms(1) st(3), of ?r "addr_key addr"] o(2,3) assms(2) r by simp
    moreover have "cand_address st' c = addr" using r st by (simp add: new_cand_def cand_address_def)
    ultimately show ?thesis using r st by blast
  next
    case (Some x)
    then have "c = x" "st' = st" "x \<in> set (cand_rp_list st u)" using assms(3) s o(1) by (simp_all add: add_cand_rp_def)
    moreover have "cand_address st x = addr" using o(4) [OF _ _ Some] addr_key_eq [OF ok assms(2)] calculation(3) by simp
    ultimately show ?thesis using assms(1) by simp
  qed
  then show "rp_ok st'" "cand_address st' c = addr" "c \<in> set (cand_rp_list st u) \<and> st' = st \<or>
      (\<exists>as bs r. cand_rp_list st u = as @ bs \<and> c = rp_fresh st \<and> rp_address r = addr \<and> st' = new_cand u as bs r st)" by auto
qed

definition new_entry :: "nat \<Rightarrow> nat \<Rightarrow> nat list \<Rightarrow> nat list \<Rightarrow> rp_grp_entry \<Rightarrow> rp_state \<Rightarrow> rp_state" where
  "new_entry m c as bs ent st = st\<lparr>ents := (ents st)(rp_fresh st := ent),
     masks := (masks st)(m := (masks st m)\<lparr>grp_rp_chain := as @ rp_fresh st # bs, group_rp_number := group_rp_number (masks st m) + 1\<rparr>),
     cands := (cands st)(c := (cands st c)\<lparr>rp_grp_chain := rp_fresh st # rp_grp_chain (cands st c)\<rparr>),
     rp_fresh := rp_fresh st + 1\<rparr>"

lemma new_entry_simps:
  "cand_address (new_entry m c as bs ent st) = cand_address st" "mask_prefix (new_entry m c as bs ent st) = mask_prefix st"
  "cand_rp_list (new_entry m c as bs ent st) = cand_rp_list st" "grp_mask_list (new_entry m c as bs ent st) = grp_mask_list st"
  "rp_fresh (new_entry m c as bs ent st) = Suc (rp_fresh st)" "rp_crc (new_entry m c as bs ent st) = rp_crc st"
  "ents (new_entry m c as bs ent st) e = (if e = rp_fresh st then ent else ents st e)"
  "grp_rp_chain (masks (new_entry m c as bs ent st) m') = (if m' = m then as @ rp_fresh st # bs else grp_rp_chain (masks st m'))"
  "group_rp_number (masks (new_entry m c as bs ent st) m') =
     (if m' = m then group_rp_number (masks st m) + 1 else group_rp_number (masks st m'))"
  "rp_grp_chain (cands (new_entry m c as bs ent st) c') =
     (if c' = c then rp_fresh st # rp_grp_chain (cands st c) else rp_grp_chain (cands st c'))"
  "hash_mask (masks (new_entry m c as bs ent st) m') = hash_mask (masks st m')"
  by (auto simp: new_entry_def cand_address_def mask_prefix_def)

lemma new_entry_ok:
  assumes "rp_ok st" and m: "m \<in> set (grp_mask_list st u)" and c: "c \<in> set (cand_rp_list st u)"
    and l: "grp_rp_chain (masks st m) = as @ bs" and ent: "rg_group ent = m" "rg_rp ent = c" "rg_origin ent < 2"
    and k: "k = (uint (rg_priority ent), uint (rg_origin ent), addr_key (cand_address st c))"
    and ab: "\<forall>x \<in> set as. entry_key st x < k" "\<forall>x \<in> set bs. k < entry_key st x"
  shows "rp_ok (new_entry m c as bs ent st)"
proof -
  let ?st = "new_entry m c as bs ent st" and ?n = "rp_fresh st"
  have lt: "e < ?n" if "m' \<in> set (grp_mask_list st v)" "e \<in> set (grp_rp_chain (masks st m'))" for e m' v
    using rp_ok_lists [OF assms(1), of v] that by (auto simp: lists_ok_def mask_ok_def)
  have ek: "entry_key ?st e = (if e = ?n then k else entry_key st e)" for e
    using k ent by (simp add: entry_key_def new_entry_simps)
  have "lists_ok ?st v" for v
  proof -
    note lv = rp_ok_lists [OF assms(1), of v]
    have mk: "mask_ok ?st v m'" if m': "m' \<in> set (grp_mask_list st v)" for m'
    proof -
      have o: "mask_ok st v m'" using m' lv by (simp add: lists_ok_def)
      have so: "sorted_wrt (\<lambda>a b. entry_key ?st a < entry_key ?st b) (grp_rp_chain (masks st m'))"
      proof (rule sorted_wrt_cong_key)
        show "sorted_wrt (\<lambda>a b. entry_key st a < entry_key st b) (grp_rp_chain (masks st m'))" using o by (simp add: mask_ok_def)
        show "entry_key ?st x = entry_key st x" if "x \<in> set (grp_rp_chain (masks st m'))" for x
          using lt [OF m' that] ek by simp
      qed
      show ?thesis
      proof (cases "m' = m")
        case False
        then show ?thesis using o so lt [OF m'] by (force simp: mask_ok_def new_entry_simps)
      next
        case True
        then have "v = u" using rp_ok_disjoint(2) [OF assms(1)] m m' by blast
        have old: "x \<noteq> ?n" if "x \<in> set as \<union> set bs" for x using lt [OF m, of x] that l by auto
        then have "sorted_wrt (\<lambda>a b. entry_key ?st a < entry_key ?st b) (as @ ?n # bs)"
          using so ab l True by (intro sorted_wrt_insert) (auto simp: ek)
        then show ?thesis using True o ent c l \<open>v = u\<close> by (auto simp: mask_ok_def new_entry_simps less_Suc_eq)
      qed
    qed
    have ck: "cand_ok ?st v c'" if c': "c' \<in> set (cand_rp_list st v)" for c'
    proof -
      have o: "cand_ok st v c'" using c' lv by (simp add: lists_ok_def)
      have in_chain: "(\<exists>m' \<in> set (grp_mask_list st v). e \<in> set (grp_rp_chain (masks ?st m'))) \<longleftrightarrow>
        (\<exists>m' \<in> set (grp_mask_list st v). e \<in> set (grp_rp_chain (masks st m'))) \<or> e = ?n \<and> m \<in> set (grp_mask_list st v)" for e
      proof -
        have i: "e \<in> set (grp_rp_chain (masks ?st m')) \<longleftrightarrow> e \<in> set (grp_rp_chain (masks st m')) \<or> m' = m \<and> e = ?n" for m'
          using l by (auto simp: new_entry_simps)
        show ?thesis unfolding i by blast
      qed
      have n: "\<not> (\<exists>m' \<in> set (grp_mask_list st v). ?n \<in> set (grp_rp_chain (masks st m')))" using lt by blast
      have cm: "c \<in> set (cand_rp_list st v) \<longleftrightarrow> m \<in> set (grp_mask_list st v)"
        using rp_ok_disjoint [OF assms(1)] m c by blast
      have S: "{e. rg_rp (ents ?st e) = c' \<and> (\<exists>m' \<in> set (grp_mask_list st v). e \<in> set (grp_rp_chain (masks ?st m')))} =
        {e. rg_rp (ents st e) = c' \<and> (\<exists>m' \<in> set (grp_mask_list st v). e \<in> set (grp_rp_chain (masks st m')))} \<union>
        (if c' = c then {?n} else {})"
        unfolding in_chain using n ent(2) c' cm by (auto simp: new_entry_simps)
      show ?thesis using o n unfolding cand_ok_def new_entry_simps(1,4,10) S by auto
    qed
    show ?thesis using lv mk ck unfolding lists_ok_def new_entry_simps(1-5) by (simp add: less_Suc_eq)
  qed
  then show ?thesis using assms(1) by (simp add: rp_ok_def new_entry_simps)
qed

section \<open>Remapping groups\<close>

text \<open>Remapping changes only the lists of groups behind the entries, the groups and the table of the CRC.\<close>

definition same_rps :: "rp_state \<Rightarrow> rp_state \<Rightarrow> bool" where
  "same_rps st st' \<longleftrightarrow> cands st' = cands st \<and> masks st' = masks st \<and> cand_rp_list st' = cand_rp_list st \<and>
     grp_mask_list st' = grp_mask_list st \<and> rp_fresh st' = rp_fresh st \<and>
     (\<forall>e. (ents st' e)\<lparr>grplink := []\<rparr> = (ents st e)\<lparr>grplink := []\<rparr>)"

lemma same_rps_fields:
  assumes "same_rps st st'"
  shows "rg_priority (ents st' e) = rg_priority (ents st e)" "rg_origin (ents st' e) = rg_origin (ents st e)"
    "rg_group (ents st' e) = rg_group (ents st e)" "rg_rp (ents st' e) = rg_rp (ents st e)"
    "cand_address st' = cand_address st" "mask_prefix st' = mask_prefix st" "masks st' = masks st"
    "cand_rp_list st' = cand_rp_list st" "grp_mask_list st' = grp_mask_list st" "cands st' = cands st"
proof -
  have e: "(ents st' e)\<lparr>grplink := []\<rparr> = (ents st e)\<lparr>grplink := []\<rparr>" using assms by (simp add: same_rps_def)
  from arg_cong [OF e, of rg_priority] arg_cong [OF e, of rg_origin] arg_cong [OF e, of rg_group] arg_cong [OF e, of rg_rp]
  show "rg_priority (ents st' e) = rg_priority (ents st e)" "rg_origin (ents st' e) = rg_origin (ents st e)"
    "rg_group (ents st' e) = rg_group (ents st e)" "rg_rp (ents st' e) = rg_rp (ents st e)" by simp_all
qed (use assms in \<open>auto simp: same_rps_def cand_address_def mask_prefix_def\<close>)

lemma same_rps_ok: "rp_ok st \<Longrightarrow> same_rps st st' \<Longrightarrow> crc_ok (rp_crc st') \<Longrightarrow> rp_ok st'"
  by (rule rp_ok_frame [of st]) (simp_all add: same_rps_fields, simp_all add: same_rps_def)

lemma same_rps_trans: "same_rps a b \<Longrightarrow> same_rps b c \<Longrightarrow> same_rps a c"
  by (simp add: same_rps_def)

lemma same_rps_refl: "same_rps st st"
  by (simp add: same_rps_def)

lemma same_rps_offers: "same_rps st st' \<Longrightarrow> offers grp st' = offers grp st"
proof -
  assume s: "same_rps st st'"
  have "offer g h st' = offer g h st" for g h using same_rps_fields [OF s] by (intro ext) (simp add: offer_def)
  then have "mask_offers grp st' = mask_offers grp st" using same_rps_fields [OF s] by (intro ext) (simp add: mask_offers_def)
  then show ?thesis using same_rps_fields [OF s] by (simp add: offers_def)
qed

lemma same_rps_chains: "chains_ok st \<Longrightarrow> same_rps st st' \<Longrightarrow> crc_ok (rp_crc st') \<Longrightarrow> chains_ok st'"
proof -
  assume c: "chains_ok st" and s: "same_rps st st'" and k: "crc_ok (rp_crc st')"
  have "entry_key st' = entry_key st" using same_rps_fields [OF s] by (intro ext) (simp add: entry_key_def)
  then show ?thesis using c k same_rps_fields [OF s] by (simp add: chains_ok_def entry_ok_def)
qed

text \<open>The entries a group can be mapped to.\<close>

definition entries_of :: "rp_state \<Rightarrow> rp_lists \<Rightarrow> nat set" where
  "entries_of st u = (\<Union>m \<in> set (grp_mask_list st u). set (grp_rp_chain (masks st m)))"

lemma same_rps_entries: "same_rps st st' \<Longrightarrow> entries_of st' u = entries_of st u"
  by (simp add: entries_of_def same_rps_fields)

lemma same_rps_group_ops:
  "same_rps st (unlink_group g st)" "same_rps st (link_group g e st)" "same_rps st (snd (delete_grpentry g st))"
  "same_rps st (st\<lparr>rp_crc := k\<rparr>)" "same_rps st (st\<lparr>grplist := gs\<rparr>)"
  by (auto simp: same_rps_def unlink_group_def link_group_def delete_grpentry_def Let_def split: option.split)

lemma group_ops_fields [simp]:
  "rp_crc (unlink_group g st) = rp_crc st" "grps (unlink_group g st) = grps st" "grplist (unlink_group g st) = grplist st"
  "rp_crc (link_group g e st) = rp_crc st" "grplist (link_group g e st) = grplist st"
  "rp_crc (snd (delete_grpentry g st)) = rp_crc st" "grps (snd (delete_grpentry g st)) = grps st"
  by (simp_all add: unlink_group_def link_group_def delete_grpentry_def Let_def split: option.split)

text \<open>Remapping deletes the group when no prefix matches, and otherwise moves it to the best entry.\<close>

lemma remap_grpentry_cases:
  assumes "chains_ok st"
  obtains k where "crc_ok k" "offers (ge_group (grps st g)) st = []"
      "remap_grpentry uninit g st = Some (delete_grpentry g ((unlink_group g st)\<lparr>rp_crc := k\<rparr>))"
  | k e r where "crc_ok k" "r \<in> set (offers (ge_group (grps st g)) st)" "\<forall>r' \<in> set (offers (ge_group (grps st g)) st). rank r' \<le> rank r"
      "best_entry r = Some e" "e \<in> entries_of st Current"
      "remap_grpentry uninit g st = Some ([Change_interfaces g e], link_group g e ((unlink_group g st)\<lparr>rp_crc := k\<rparr>))"
proof -
  let ?st1 = "unlink_group g st" and ?grp = "ge_group (grps st g)"
  note s1 = same_rps_group_ops(1) [of st g]
  have c1: "chains_ok ?st1" using same_rps_chains [OF assms s1] assms by (simp add: chains_ok_def)
  obtain k where k: "crc_ok k" "rp_grp_match uninit ?grp ?st1 =
      Some (best_entry (foldl better (start_best uninit) (offers ?grp ?st1)), ?st1\<lparr>rp_crc := k\<rparr>)"
    using rp_grp_match_best [OF c1] by blast
  have run: "remap_grpentry uninit g st = (case best_entry (foldl better (start_best uninit) (offers ?grp st)) of
      None \<Rightarrow> Some (delete_grpentry g (?st1\<lparr>rp_crc := k\<rparr>))
    | Some e \<Rightarrow> Some ([Change_interfaces g e], link_group g e (?st1\<lparr>rp_crc := k\<rparr>)))"
    using k(2) same_rps_offers [OF s1, of ?grp] by (simp add: remap_grpentry_def Let_def)
  show ?thesis
  proof (cases "offers ?grp st = []")
    case True
    then show ?thesis using that(1) [OF k(1)] run by (simp add: start_best_def)
  next
    case False
    then obtain r where r: "r \<in> set (offers ?grp st)" "foldl better (start_best uninit) (offers ?grp st) = r"
      "\<forall>r' \<in> set (offers ?grp st). rank r' \<le> rank r"
      using best_of_offers [OF assms False, of uninit] by blast
    have "\<exists>e. best_entry r = Some e \<and> e \<in> entries_of st Current"
      using r(1) by (auto simp: offers_def mask_offers_def offer_def Let_def entries_of_def split: if_splits)
    then obtain e where "best_entry r = Some e" "e \<in> entries_of st Current" by blast
    then show ?thesis using that(2) [OF k(1) r(1,3)] run r(2) by simp
  qed
qed

lemma remap_grpentry_run:
  assumes "chains_ok st"
  shows "\<exists>fs st'. remap_grpentry uninit g st = Some (fs, st') \<and> same_rps st st' \<and> chains_ok st'"
proof -
  have d: "\<exists>fs st'. delete_grpentry g st1 = (fs, st') \<and> same_rps st1 st' \<and> rp_crc st' = rp_crc st1" for st1
    using same_rps_group_ops(3) [of st1 g] group_ops_fields(6) [of g st1] by (cases "delete_grpentry g st1") auto
  have s: "same_rps st ((unlink_group g st)\<lparr>rp_crc := k\<rparr>)" for k
    using same_rps_trans [OF same_rps_group_ops(1,4)] by blast
  show ?thesis
  proof (rule remap_grpentry_cases [OF assms, of g uninit], goal_cases)
    case (1 k)
    then show ?case using d [of "(unlink_group g st)\<lparr>rp_crc := k\<rparr>"] same_rps_trans [OF s [of k]] same_rps_chains [OF assms] by fastforce
  next
    case (2 k e r)
    have "same_rps st (link_group g e ((unlink_group g st)\<lparr>rp_crc := k\<rparr>))" using same_rps_trans [OF s same_rps_group_ops(2)] .
    then show ?case using 2 same_rps_chains [OF assms] by simp
  qed
qed

lemma remap_groups_run: "chains_ok st \<Longrightarrow> \<exists>fs st'. remap_groups uninit gs st = Some (fs, st') \<and> same_rps st st' \<and> chains_ok st'"
proof (induction gs arbitrary: st)
  case (Cons g gs)
  obtain fs st1 where 1: "remap_grpentry uninit g st = Some (fs, st1)" "same_rps st st1" "chains_ok st1"
    using remap_grpentry_run [OF Cons(2)] by blast
  obtain fs' st2 where 2: "remap_groups uninit gs st1 = Some (fs', st2)" "same_rps st1 st2" "chains_ok st2"
    using Cons(1) [OF 1(3)] by blast
  show ?case using 1 2 same_rps_trans [OF 1(2) 2(2)] by simp
qed (simp add: same_rps_refl)

lemma remap_chain_run:
  "chains_ok st \<Longrightarrow> \<exists>fs st'. remap_chain uninit pri org es st = Some (fs, st') \<and> same_rps st st' \<and> chains_ok st'"
proof (induction es arbitrary: st)
  case (Cons e es)
  obtain fs st1 where 1: "remap_groups uninit (grplink (ents st e)) st = Some (fs, st1)" "same_rps st st1" "chains_ok st1"
    using remap_groups_run [OF Cons(2)] by blast
  obtain fs' st2 where 2: "remap_chain uninit pri org es st1 = Some (fs', st2)" "same_rps st1 st2" "chains_ok st2"
    using Cons(1) [OF 1(3)] by blast
  show ?case using 1 2 same_rps_trans [OF 1(2) 2(2)] Cons(2) same_rps_refl by auto
qed (simp add: same_rps_refl)

lemma rp_ok_same: "rp_ok st \<Longrightarrow> same_rps st st' \<Longrightarrow> chains_ok st' \<Longrightarrow> rp_ok st'"
  by (rule same_rps_ok) (simp_all add: chains_ok_def)

section \<open>Agreement\<close>

text \<open>The RP set without its pointers and without the order of its lists.\<close>

definition rp_table :: "rp_state \<Rightarrow> (in6_addr \<times> sockaddr_in6 \<times> in6_addr \<times> sockaddr_in6 \<times> byte \<times> byte) set" where
  "rp_table st = (\<Union>m \<in> set (grp_mask_list st Current). (\<lambda>e. (group_mask (masks st m), mask_prefix st m, hash_mask (masks st m),
     cand_address st (rg_rp (ents st e)), rg_priority (ents st e), rg_origin (ents st e))) ` set (grp_rp_chain (masks st m)))"

definition table_rank :: "sockaddr_in6 \<Rightarrow> in6_addr \<times> sockaddr_in6 \<times> in6_addr \<times> sockaddr_in6 \<times> byte \<times> byte \<Rightarrow> int \<times> int \<times> int \<times> int \<times> int" where
  "table_rank grp t = (case t of (gmask, prefix, hmask, rp, pri, org) \<Rightarrow> (- uint pri, - uint org, uint (rp_hash grp hmask rp), in6_key rp))"

definition matching :: "sockaddr_in6 \<Rightarrow> rp_state \<Rightarrow> (in6_addr \<times> sockaddr_in6 \<times> in6_addr \<times> sockaddr_in6 \<times> byte \<times> byte) set" where
  "matching grp st = {t \<in> rp_table st. prefix_of (sin6_addr grp) (fst t) = fst (snd t)}"

lemma offers_table: "(\<lambda>r. (rank r, best_address_h r)) ` set (offers grp st) = (\<lambda>t. (table_rank grp t, fst (snd (snd (snd t))))) ` matching grp st"
proof -
  have "(\<lambda>r. (rank r, best_address_h r)) ` set (mask_offers grp st m) = (\<lambda>t. (table_rank grp t, fst (snd (snd (snd t))))) `
      {t \<in> (\<lambda>e. (group_mask (masks st m), mask_prefix st m, hash_mask (masks st m),
     cand_address st (rg_rp (ents st e)), rg_priority (ents st e), rg_origin (ents st e))) ` set (grp_rp_chain (masks st m)).
       prefix_of (sin6_addr grp) (fst t) = fst (snd t)}" for m
  proof (cases "prefix_of (sin6_addr grp) (group_mask (masks st m)) = mask_prefix st m")
    case True
    then have "{t \<in> (\<lambda>e. (group_mask (masks st m), mask_prefix st m, hash_mask (masks st m),
     cand_address st (rg_rp (ents st e)), rg_priority (ents st e), rg_origin (ents st e))) ` set (grp_rp_chain (masks st m)).
       prefix_of (sin6_addr grp) (fst t) = fst (snd t)} = (\<lambda>e. (group_mask (masks st m), mask_prefix st m, hash_mask (masks st m),
     cand_address st (rg_rp (ents st e)), rg_priority (ents st e), rg_origin (ents st e))) ` set (grp_rp_chain (masks st m))" by auto
    then show ?thesis using True
      by (simp add: mask_offers_def equal_eq image_image offer_def rank_def table_rank_def Let_def)
  next
    case False
    then show ?thesis by (auto simp: mask_offers_def equal_eq)
  qed
  then show ?thesis unfolding offers_def matching_def rp_table_def by (auto simp: image_UN)
qed

lemma offers_empty: "offers grp st = [] \<longleftrightarrow> matching grp st = {}"
  using arg_cong [OF offers_table [of grp st], of "\<lambda>S. S = {}"] by simp

text \<open>The choice in terms of the table.\<close>

lemma rp_grp_match_table:
  assumes "rp_ok st"
  shows "\<exists>e k. rp_grp_match uninit grp st = Some (e, st\<lparr>rp_crc := k\<rparr>) \<and> crc_ok k \<and>
    (case e of None \<Rightarrow> matching grp st = {}
     | Some e \<Rightarrow> \<exists>t \<in> matching grp st. (\<forall>t' \<in> matching grp st. table_rank grp t' \<le> table_rank grp t) \<and>
         cand_address st (rg_rp (ents st e)) = fst (snd (snd (snd t))))"
proof -
  note ch = rp_ok_chains [OF assms]
  let ?f = "foldl better (start_best uninit) (offers grp st)"
  obtain k where k: "crc_ok k" "rp_grp_match uninit grp st = Some (best_entry ?f, st\<lparr>rp_crc := k\<rparr>)"
    using rp_grp_match_best [OF ch] by blast
  show ?thesis
  proof (cases "offers grp st = []")
    case True
    then have "best_entry ?f = None" by (simp add: start_best_def)
    moreover have "matching grp st = {}" using True offers_empty by simp
    ultimately show ?thesis using k by (intro exI [of _ None] exI [of _ k]) simp
  next
    case False
    then obtain r where r: "r \<in> set (offers grp st)" "?f = r" "\<forall>r' \<in> set (offers grp st). rank r' \<le> rank r"
      using best_of_offers [OF ch False, of uninit] by blast
    obtain e where e: "best_entry r = Some e" "best_address_h r = cand_address st (rg_rp (ents st e))"
      using offers_ok [OF ch r(1)] by (auto simp: offer_def Let_def)
    have "(rank r, best_address_h r) \<in> (\<lambda>t. (table_rank grp t, fst (snd (snd (snd t))))) ` matching grp st"
      unfolding offers_table [symmetric] using r(1) by blast
    then obtain t where t: "t \<in> matching grp st" "rank r = table_rank grp t" "best_address_h r = fst (snd (snd (snd t)))" by auto
    have "table_rank grp t' \<le> table_rank grp t" if "t' \<in> matching grp st" for t'
    proof -
      have "(table_rank grp t', fst (snd (snd (snd t')))) \<in> (\<lambda>r. (rank r, best_address_h r)) ` set (offers grp st)"
        unfolding offers_table using that by blast
      then show ?thesis using r(3) t(2) by auto
    qed
    then have "\<exists>t \<in> matching grp st. (\<forall>t' \<in> matching grp st. table_rank grp t' \<le> table_rank grp t) \<and>
         cand_address st (rg_rp (ents st e)) = fst (snd (snd (snd t)))" using e t by metis
    then show ?thesis using k r(2) e(1) by (intro exI [of _ "Some e"] exI [of _ k]) simp
  qed
qed

lemma table_ok: "rp_ok st \<Longrightarrow> t \<in> rp_table st \<Longrightarrow> in6_ok (fst (snd (snd (snd t))))"
  using entries_ok [of st Current] by (auto simp: rp_table_def entry_ok_def rp_ok_def)

section \<open>Properties\<close>

text \<open>
  C23. For every group \<^verbatim>\<open>rp_grp_match\<close> returns an entry whose RP has the smallest priority value of all RPs that are
  offered for a prefix of the group, among these the smallest origin value, then the biggest hash value and
  then the biggest address; it returns nothing only when no RP is offered. The loops may stop at the first
  worse entry because the entries of a prefix are kept in order.
\<close>

theorem rp_grp_match_correct:
  assumes "rp_ok st"
  shows "\<exists>e k. rp_grp_match uninit grp st = Some (e, st\<lparr>rp_crc := k\<rparr>) \<and>
    (case e of None \<Rightarrow> matching grp st = {}
     | Some e \<Rightarrow> \<exists>t \<in> matching grp st. (\<forall>t' \<in> matching grp st. table_rank grp t' \<le> table_rank grp t) \<and>
         cand_address st (rg_rp (ents st e)) = fst (snd (snd (snd t))))"
  using rp_grp_match_table [OF assms, of uninit grp] by blast

text \<open>
  A router with two candidate RPs for all groups, the one with the bigger address being less preferred; \<^verbatim>\<open>n\<close> is
  where \<^verbatim>\<open>malloc\<close> has put the structures.
\<close>

definition all_groups :: in6_addr where
  "all_groups = 0xff # replicate 15 0"

definition sample_rps :: "nat \<Rightarrow> rp_state" where
  "sample_rps n = \<lparr>
     cands = (\<lambda>c. if c = n + 1 then \<lparr>rp_grp_chain = [n + 4], rpentry_of = new_rpentry (\<lambda>_. None) 0 sample_addr1\<rparr>
              else \<lparr>rp_grp_chain = [n + 3], rpentry_of = new_rpentry (\<lambda>_. None) 0 sample_addr2\<rparr>),
     masks = (\<lambda>_. \<lparr>grp_rp_chain = [n + 4, n + 3], group_addr = \<lparr>sin6_addr = all_groups, sin6_scope_id = 0\<rparr>,
       group_mask = all_groups, hash_mask = replicate 16 0xff, gm_fragment_tag = 7, group_rp_number = 2\<rparr>),
     ents = (\<lambda>e. \<lparr>grplink = [], advholdtime = 150, holdtime = 150, rg_fragment_tag = 7,
       rg_priority = (if e = n + 3 then 20 else 10), rg_origin = 1, rg_group = n, rg_rp = (if e = n + 3 then n + 2 else n + 1)\<rparr>),
     grps = (\<lambda>_. \<lparr>ge_group = \<lparr>sin6_addr = 0xff # 0x0e # replicate 13 0 @ [1], sin6_scope_id = 0\<rparr>,
       ge_rpaddr = \<lparr>sin6_addr = replicate 16 0, sin6_scope_id = 0\<rparr>, active_rp_grp = None\<rparr>), grplist = [],
     cand_rp_list = (\<lambda>u. if u = Current then [n + 2, n + 1] else []), grp_mask_list = (\<lambda>u. if u = Current then [n] else []),
     rp_fresh = n + 5, rp_crc = \<lparr>crc_table = replicate 256 0, crc_table_computed = False\<rparr>\<rparr>"

definition sample_group :: sockaddr_in6 where
  "sample_group = \<lparr>sin6_addr = 0xff # 0x0e # replicate 13 0 @ [1], sin6_scope_id = 0\<rparr>"

lemma sample_fields:
  "cand_address (sample_rps n) c = (if c = n + 1 then sample_addr1 else sample_addr2)"
  "grp_mask_list (sample_rps n) u = (if u = Current then [n] else [])" "grp_rp_chain (masks (sample_rps n) m) = [n + 4, n + 3]"
  "group_mask (masks (sample_rps n) m) = all_groups" "hash_mask (masks (sample_rps n) m) = replicate 16 0xff"
  "sin6_addr (group_addr (masks (sample_rps n) m)) = all_groups"
  "rg_rp (ents (sample_rps n) e) = (if e = n + 3 then n + 2 else n + 1)"
  "rg_priority (ents (sample_rps n) e) = (if e = n + 3 then 20 else 10)" "rg_origin (ents (sample_rps n) e) = 1"
  "rg_group (ents (sample_rps n) e) = n" "cand_rp_list (sample_rps n) u = (if u = Current then [n + 2, n + 1] else [])"
  "rp_fresh (sample_rps n) = n + 5" "crc_table_computed (rp_crc (sample_rps n)) = False"
  "group_rp_number (masks (sample_rps n) m) = 2"
  "rp_grp_chain (cands (sample_rps n) c) = (if c = n + 1 then [n + 4] else [n + 3])"
  by (simp_all add: cand_address_def sample_rps_def new_rpentry_def)

lemma sample_keys: "addr_key sample_addr2 < addr_key sample_addr1"
  using addr_key_greater [of sample_addr2 sample_addr1]
  by (simp add: in6_ok_def sample_addr1_def sample_addr2_def) code_simp

lemma sample_addr_ok: "in6_ok sample_addr1" "in6_ok sample_addr2"
  by (simp_all add: in6_ok_def sample_addr1_def sample_addr2_def)

lemma sample_rps_ok: "rp_ok (sample_rps n)"
proof -
  have "entry_key (sample_rps n) (n + 4) < entry_key (sample_rps n) (n + 3)"
    by (simp add: entry_key_def sample_fields less_prod_def)
  moreover have "{e. rg_rp (ents (sample_rps n) e) = c \<and> (e = n + 4 \<or> e = n + 3)} = (if c = n + 1 then {n + 4} else if c = n + 2 then {n + 3} else {})" for c
    by (auto simp: sample_fields)
  ultimately show ?thesis using sample_addr_ok sample_keys
    by (simp add: rp_ok_def lists_ok_def mask_ok_def cand_ok_def sample_fields crc_ok_def)
qed

definition sample_table :: "(in6_addr \<times> sockaddr_in6 \<times> in6_addr \<times> sockaddr_in6 \<times> byte \<times> byte) list" where
  "sample_table = [(all_groups, prefix_of all_groups all_groups, replicate 16 0xff, sample_addr1, 10, 1),
     (all_groups, prefix_of all_groups all_groups, replicate 16 0xff, sample_addr2, 20, 1)]"

lemma sample_rps_table: "rp_table (sample_rps n) = set sample_table"
  by (simp add: rp_table_def mask_prefix_def sample_fields sample_table_def)

theorem rp_grp_match_correct_witness:
  "\<exists>e k. rp_grp_match sample_addr2 sample_group (sample_rps 0) = Some (Some e, (sample_rps 0)\<lparr>rp_crc := k\<rparr>) \<and>
     cand_address (sample_rps 0) (rg_rp (ents (sample_rps 0) e)) = sample_addr1"
proof -
  let ?st = "sample_rps 0" and ?t1 = "sample_table ! 0" and ?t2 = "sample_table ! 1"
  have t: "set sample_table = {?t1, ?t2}" by (simp add: sample_table_def)
  have "prefix_of (sin6_addr sample_group) all_groups = prefix_of all_groups all_groups" by code_simp
  then have m: "matching sample_group ?st = {?t1, ?t2}" unfolding matching_def sample_rps_table t by (auto simp: sample_table_def)
  have "\<not> table_rank sample_group ?t1 \<le> table_rank sample_group ?t2"
    by (simp add: table_rank_def sample_table_def less_eq_prod_def)
  then have best: "t = ?t1" if "t \<in> {?t1, ?t2}" "\<forall>t' \<in> {?t1, ?t2}. table_rank sample_group t' \<le> table_rank sample_group t" for t using that by auto
  obtain e k where e: "rp_grp_match sample_addr2 sample_group ?st = Some (e, ?st\<lparr>rp_crc := k\<rparr>)"
    "case e of None \<Rightarrow> matching sample_group ?st = {}
     | Some e \<Rightarrow> \<exists>t \<in> matching sample_group ?st. (\<forall>t' \<in> matching sample_group ?st. table_rank sample_group t' \<le> table_rank sample_group t) \<and>
         cand_address ?st (rg_rp (ents ?st e)) = fst (snd (snd (snd t)))"
    using rp_grp_match_correct [OF sample_rps_ok, of sample_addr2 sample_group] by blast
  show ?thesis
  proof (cases e)
    case None
    then show ?thesis using e(2) m by simp
  next
    case (Some e')
    have c: "\<exists>t \<in> matching sample_group ?st. (\<forall>t' \<in> matching sample_group ?st. table_rank sample_group t' \<le> table_rank sample_group t) \<and>
         cand_address ?st (rg_rp (ents ?st e')) = fst (snd (snd (snd t)))" using e(2) unfolding Some option.case .
    obtain t where t: "t \<in> {?t1, ?t2}" "\<forall>t' \<in> {?t1, ?t2}. table_rank sample_group t' \<le> table_rank sample_group t"
      "cand_address ?st (rg_rp (ents ?st e')) = fst (snd (snd (snd t)))"
      using c unfolding m by (elim bexE conjE) (rule that)
    have "cand_address ?st (rg_rp (ents ?st e')) = sample_addr1"
      unfolding t(3) best [OF t(1,2)] by (simp add: sample_table_def)
    then show ?thesis using e(1) Some by blast
  qed
qed

text \<open>The rows of the table that match a group determine the answer for it.\<close>

lemma rp_match_matching:
  assumes "rp_ok st" and "rp_ok st'" and "matching grp st = matching grp st'"
  shows "map_option (map_option rp_address \<circ> fst) (rp_match uninit grp st) =
    map_option (map_option rp_address \<circ> fst) (rp_match uninit' grp st') \<and> rp_match uninit grp st \<noteq> None"
proof -
  obtain e k where e: "rp_grp_match uninit grp st = Some (e, st\<lparr>rp_crc := k\<rparr>)" "case e of None \<Rightarrow> matching grp st = {}
     | Some e \<Rightarrow> \<exists>t \<in> matching grp st. (\<forall>t' \<in> matching grp st. table_rank grp t' \<le> table_rank grp t) \<and>
         cand_address st (rg_rp (ents st e)) = fst (snd (snd (snd t)))"
    using rp_grp_match_table [OF assms(1)] by blast
  obtain e' k' where e': "rp_grp_match uninit' grp st' = Some (e', st'\<lparr>rp_crc := k'\<rparr>)" "case e' of None \<Rightarrow> matching grp st' = {}
     | Some e \<Rightarrow> \<exists>t \<in> matching grp st'. (\<forall>t' \<in> matching grp st'. table_rank grp t' \<le> table_rank grp t) \<and>
         cand_address st' (rg_rp (ents st' e)) = fst (snd (snd (snd t)))"
    using rp_grp_match_table [OF assms(2)] by blast
  note m = assms(3) [symmetric]
  have uniq: "fst (snd (snd (snd t))) = fst (snd (snd (snd t')))"
    if "t \<in> matching grp st" "t' \<in> matching grp st" "table_rank grp t = table_rank grp t'" for t t'
    using that table_ok [OF assms(1)] key_equal by (auto simp: table_rank_def matching_def equal_eq split: prod.splits)
  have "map_option (\<lambda>e. cand_address st (rg_rp (ents st e))) e = map_option (\<lambda>e. cand_address st' (rg_rp (ents st' e))) e'"
    using e(2) e'(2) uniq unfolding m by (cases e; cases e') (force dest: antisym)+
  then show ?thesis using e(1) e'(1) by (cases e; cases e') (simp_all add: rp_match_def cand_address_def)
qed

lemma rp_match_determined:
  assumes "rp_ok st" and "rp_ok st'" and "rp_table st = rp_table st'"
  shows "map_option (map_option rp_address \<circ> fst) (rp_match uninit grp st) =
    map_option (map_option rp_address \<circ> fst) (rp_match uninit' grp st') \<and> rp_match uninit grp st \<noteq> None"
  by (rule rp_match_matching) (use assms in \<open>simp_all add: matching_def\<close>)

text \<open>
  C10. Routers with the same RP set choose the same RP for every group, no matter in which order the RPs were
  learnt: the address of the RP that \<^verbatim>\<open>rp_match\<close> gives depends only on the RPs, prefixes, hash masks, priorities and
  origins, not on the lists that hold them or on uninitialised memory.
\<close>

theorem rp_match_agrees:
  assumes "rp_ok st" and "rp_ok st'" and "rp_table st = rp_table st'"
  shows "map_option (map_option rp_address \<circ> fst) (rp_match uninit grp st) =
    map_option (map_option rp_address \<circ> fst) (rp_match uninit' grp st') \<and> rp_match uninit grp st \<noteq> None"
  by (rule rp_match_determined [OF assms])

theorem rp_match_agrees_witness:
  "map_option (map_option rp_address \<circ> fst) (rp_match sample_addr1 sample_group (sample_rps 0)) =
    map_option (map_option rp_address \<circ> fst) (rp_match sample_addr2 sample_group (sample_rps 100)) \<and>
   rp_match sample_addr1 sample_group (sample_rps 0) \<noteq> None"
  using rp_match_agrees [OF sample_rps_ok sample_rps_ok, of 0 100 sample_addr1 sample_group sample_addr2] sample_rps_table by simp

text \<open>
  Only the masked prefixes are compared, not the masks: a second prefix under a longer mask with the same
  masked address is taken for the first one.
\<close>

lemma add_grp_mask_merges:
  "add_grp_mask Current \<lparr>sin6_addr = all_groups, sin6_scope_id = 0\<rparr> (0xff # 0xff # replicate 14 0) (replicate 16 0xff) (sample_rps 0) =
     (0, sample_rps 0)"
proof -
  have "prefix_of all_groups (0xff # 0xff # replicate 14 0) = prefix_of all_groups all_groups" by code_simp
  then have "mask_prefix (sample_rps 0) 0 = prefix_of all_groups (0xff # 0xff # replicate 14 0)"
    by (simp add: mask_prefix_def sample_fields)
  moreover have "\<not> inet6_greaterthan p p" if "in6_ok p" for p using addr_key_greater [OF that that] by simp
  ultimately show ?thesis by (simp add: add_grp_mask_def sample_fields equal_eq del: replicate.simps)
qed

end
