(* ===== verification/RP_Groups.thy ===== *)
theory RP_Groups
  imports RP_Set
begin

text \<open>
  The groups of \<^verbatim>\<open>pim6sd\<close> and the RP entries they use: the ordered list of groups (\<^verbatim>\<open>mrt.c\<close>: \<^verbatim>\<open>search_grplist\<close>,
  \<^verbatim>\<open>find_group\<close>, \<^verbatim>\<open>create_grpentry\<close>, the group part of \<^verbatim>\<open>delete_grpentry\<close>), the part of \<^verbatim>\<open>find_route\<close> that maps a group to
  its RP, and the invariant that ties the groups to the entries while \<^verbatim>\<open>remap_grpentry\<close> moves them. The routing entries
  of a group are not part of the model.
\<close>

section \<open>The groups\<close>

definition search_grplist :: "sockaddr_in6 \<Rightarrow> rp_state \<Rightarrow> nat list \<times> nat option \<times> nat list" where
  "search_grplist grp st =
     search_chain (\<lambda>g. inet6_lessthan (ge_group (grps st g)) grp) (\<lambda>g. inet6_equal (ge_group (grps st g)) grp) (grplist st)"

definition find_group :: "sockaddr_in6 \<Rightarrow> rp_state \<Rightarrow> nat option" where
  "find_group grp st =
     (if \<not> IN6_IS_ADDR_MULTICAST (sin6_addr grp) then None else (case search_grplist grp st of (_, f, _) \<Rightarrow> f))"

definition create_grpentry :: "sockaddr_in6 \<Rightarrow> rp_state \<Rightarrow> nat \<times> rp_state" where
  "create_grpentry grp st =
     (case search_grplist grp st of
        (as, Some g, bs) \<Rightarrow> (g, st)
      | (as, None, bs) \<Rightarrow>
          (let g = rp_fresh st
           in (g, st\<lparr>grps := (grps st)(g := \<lparr>ge_group = grp, ge_rpaddr = \<lparr>sin6_addr = replicate 16 0, sin6_scope_id = 0\<rparr>,
                        active_rp_grp = None\<rparr>),
                     grplist := as @ g # bs, rp_fresh := rp_fresh st + 1\<rparr>)))"

text \<open>
  The part of \<^verbatim>\<open>find_route\<close> that finds the RP of a group for which a routing entry is created. \<^verbatim>\<open>has_routes\<close> tells which
  groups have routing entries already. The result is the group, or nothing when the route is refused.
\<close>

definition find_route_rp ::
  "sockaddr_in6 \<Rightarrow> nat \<Rightarrow> (nat \<Rightarrow> bool) \<Rightarrow> sockaddr_in6 \<Rightarrow> rp_state \<Rightarrow> (nat option \<times> rp_effect list \<times> rp_state) option" where
  "find_route_rp uninit reg_vif_num has_routes grp st =
     (let (g, st) = create_grpentry grp st
      in do {
        (e, st) \<leftarrow>
          (case active_rp_grp (grps st g) of
             Some e \<Rightarrow> Some (Some e, st)
           | None \<Rightarrow> do {
               (m, st) \<leftarrow> rp_grp_match uninit grp st;
               Some (m, case m of None \<Rightarrow> st | Some e \<Rightarrow> link_group g e st) });
        (case e of
           None \<Rightarrow> Some (if has_routes g then (None, [], st) else (let (fs, st) = delete_grpentry g st in (None, fs, st)))
         | Some e \<Rightarrow>
             (let rp = rpentry_of (cands st (rg_rp (ents st e)))
              in if rp_upstream rp = None \<and> rp_incoming rp \<noteq> reg_vif_num
                 then (let (fs, st) = delete_grpentry g st in Some (None, fs, st))
                 else Some (Some g, [], st))) })"

section \<open>The groups and the entries they use\<close>

text \<open>
  \<^verbatim>\<open>links_ok X st\<close>: the list of the groups is ordered, every group refers to an entry in \<^verbatim>\<open>X\<close> or to none, and the list of
  each entry in \<^verbatim>\<open>X\<close> holds exactly the groups that refer to it.
\<close>

definition links_ok :: "nat set \<Rightarrow> rp_state \<Rightarrow> bool" where
  "links_ok X st \<longleftrightarrow>
     sorted_wrt (\<lambda>a b. addr_key (ge_group (grps st b)) < addr_key (ge_group (grps st a))) (grplist st) \<and>
     (\<forall>g \<in> set (grplist st). g < rp_fresh st \<and> in6_ok (ge_group (grps st g))) \<and>
     (\<forall>e \<in> X. distinct (grplink (ents st e)) \<and>
        set (grplink (ents st e)) = {g \<in> set (grplist st). active_rp_grp (grps st g) = Some e}) \<and>
     (\<forall>g \<in> set (grplist st). \<forall>e. active_rp_grp (grps st g) = Some e \<longrightarrow>
        e \<in> X \<and> ge_rpaddr (grps st g) = cand_address st (rg_rp (ents st e)))"

lemma links_distinct: "links_ok X st \<Longrightarrow> distinct (grplist st)"
  unfolding links_ok_def using sorted_wrt_distinct [of "\<lambda>g. addr_key (ge_group (grps st g))" "rev (grplist st)"]
  by (simp add: sorted_wrt_rev)

lemma links_at:
  assumes "links_ok X st" and "e \<in> X"
  shows "distinct (grplink (ents st e))" "set (grplink (ents st e)) = {g \<in> set (grplist st). active_rp_grp (grps st g) = Some e}"
  using assms by (auto simp: links_ok_def)

lemma sorted_wrt_remove1: "sorted_wrt P xs \<Longrightarrow> sorted_wrt P (remove1 x xs)"
  by (induction xs) (auto dest: subsetD [OF set_remove1_subset])

lemma unlink_group_at:
  "grplink (ents (unlink_group g st) e) =
     (if active_rp_grp (grps st g) = Some e then remove1 g (grplink (ents st e)) else grplink (ents st e))"
  by (auto simp: unlink_group_def split: option.split)

lemma unlink_group_link:
  assumes "links_ok X st" and "e \<in> X" and "g \<in> set (grplist st)"
  shows "grplink (ents (unlink_group g st) e) = remove1 g (grplink (ents st e))"
proof (cases "active_rp_grp (grps st g) = Some e")
  case False
  then have "g \<notin> set (grplink (ents st e))" using links_at(2) [OF assms(1,2)] by simp
  then show ?thesis using False by (simp add: unlink_group_at remove1_idem)
qed (simp add: unlink_group_at)

lemma unlink_group_rest:
  "cands (unlink_group g st) = cands st" "rg_rp (ents (unlink_group g st) e) = rg_rp (ents st e)"
  "rp_fresh (unlink_group g st) = rp_fresh st"
  by (auto simp: unlink_group_def split: option.split)

text \<open>Moving a group to an entry, and deleting it.\<close>

lemma link_group_links:
  assumes "links_ok X st" and "e \<in> X" and "g \<in> set (grplist st)"
  shows "links_ok X (link_group g e ((unlink_group g st)\<lparr>rp_crc := k\<rparr>))"
proof -
  let ?st = "link_group g e ((unlink_group g st)\<lparr>rp_crc := k\<rparr>)"
  have grp: "ge_group (grps ?st h) = ge_group (grps st h)" for h by (simp add: link_group_def)
  have act: "active_rp_grp (grps ?st h) = (if h = g then Some e else active_rp_grp (grps st h))" for h by (simp add: link_group_def)
  have addr: "ge_rpaddr (grps ?st h) = (if h = g then cand_address st (rg_rp (ents st e)) else ge_rpaddr (grps st h))" for h
    using unlink_group_rest [of g st] by (simp add: link_group_def cand_address_def)
  have rest: "grplist ?st = grplist st" "rp_fresh ?st = rp_fresh st" "cand_address ?st = cand_address st" "rg_rp (ents ?st f) = rg_rp (ents st f)" for f
    using unlink_group_rest [of g st] by (simp_all add: link_group_def cand_address_def fun_eq_iff)
  have lnk: "grplink (ents ?st f) = (if f = e then g # remove1 g (grplink (ents st f)) else remove1 g (grplink (ents st f)))" if "f \<in> X" for f
    using unlink_group_link [OF assms(1) that assms(3)] by (auto simp: link_group_def)
  have "distinct (grplink (ents ?st f)) \<and> set (grplink (ents ?st f)) = {h \<in> set (grplist st). active_rp_grp (grps ?st h) = Some f}"
    if "f \<in> X" for f
    using links_at [OF assms(1) that] assms(3) set_remove1_eq [OF links_at(1) [OF assms(1) that], of g]
    unfolding lnk [OF that] act by (cases "f = e") auto
  then show ?thesis using assms unfolding links_ok_def rest grp act addr by simp
qed

lemma delete_grpentry_links:
  assumes "links_ok X st" and "g \<in> set (grplist st)"
  shows "links_ok X (snd (delete_grpentry g st))"
proof -
  let ?s1 = "st\<lparr>grplist := remove1 g (grplist st)\<rparr>" and ?st = "snd (delete_grpentry g st)"
  have st: "?st = unlink_group g ?s1" by (simp add: delete_grpentry_def Let_def)
  have "unlink_group g ?s1 = (unlink_group g st)\<lparr>grplist := remove1 g (grplist st)\<rparr>" by (simp add: unlink_group_def split: option.split)
  then have lnk: "grplink (ents ?st e) = remove1 g (grplink (ents st e))" if "e \<in> X" for e
    using unlink_group_link [OF assms(1) that assms(2)] by (simp add: st)
  have rest: "grplist ?st = remove1 g (grplist st)" "rp_fresh ?st = rp_fresh st" "cand_address ?st = cand_address st"
    "rg_rp (ents ?st f) = rg_rp (ents st f)" "grps ?st = grps st" for f
    using unlink_group_rest [of g ?s1] by (simp_all add: st cand_address_def fun_eq_iff)
  have ge: "set (remove1 g (grplist st)) = set (grplist st) - {g}" using links_distinct [OF assms(1)] by (rule set_remove1_eq)
  have "distinct (grplink (ents ?st f)) \<and> set (grplink (ents ?st f)) = {h \<in> set (remove1 g (grplist st)). active_rp_grp (grps st h) = Some f}"
    if "f \<in> X" for f
    using links_at [OF assms(1) that] by (auto simp: ge lnk [OF that])
  then show ?thesis using assms sorted_wrt_remove1 unfolding links_ok_def rest by (auto simp: ge)
qed

lemma unlink_group_twice:
  assumes "links_ok X st" and "g \<in> set (grplist st)"
  shows "unlink_group g (unlink_group g st) = unlink_group g st"
proof (cases "active_rp_grp (grps st g)")
  case (Some a)
  then have "a \<in> X" using assms by (auto simp: links_ok_def)
  then have "remove1 g (remove1 g (grplink (ents st a))) = remove1 g (grplink (ents st a))"
    using links_at(1) [OF assms(1)] by (intro remove1_idem) (simp add: set_remove1_eq)
  then show ?thesis using Some by (simp add: unlink_group_def)
qed (simp add: unlink_group_def)

lemma delete_group_links:
  assumes "links_ok X st" and "g \<in> set (grplist st)"
  shows "links_ok X (snd (delete_grpentry g ((unlink_group g st)\<lparr>rp_crc := k\<rparr>)))"
proof -
  have s: "unlink_group g (s\<lparr>rp_crc := k\<rparr>) = (unlink_group g s)\<lparr>rp_crc := k\<rparr>"
    "unlink_group g (s\<lparr>grplist := gs\<rparr>) = (unlink_group g s)\<lparr>grplist := gs\<rparr>" for s gs
    by (simp_all add: unlink_group_def split: option.split)
  have "snd (delete_grpentry g ((unlink_group g st)\<lparr>rp_crc := k\<rparr>)) = (snd (delete_grpentry g st))\<lparr>rp_crc := k\<rparr>"
    by (simp add: delete_grpentry_def Let_def s unlink_group_twice [OF assms])
  then show ?thesis using delete_grpentry_links [OF assms] by (simp add: links_ok_def cand_address_def)
qed

text \<open>Remapping keeps the links, and moves a group only to entries of the prefixes in use.\<close>

lemma remap_grpentry_links:
  assumes "chains_ok st" and "links_ok X st" and "entries_of st Current \<subseteq> X" and "g \<in> set (grplist st)"
    and "remap_grpentry uninit g st = Some (fs, st')"
  shows "links_ok X st'" "set (grplist st) - {g} \<subseteq> set (grplist st')" "set (grplist st') \<subseteq> set (grplist st)"
    "\<And>h. h \<in> set (grplist st') \<Longrightarrow> active_rp_grp (grps st' h) = Some e \<Longrightarrow>
       h \<noteq> g \<and> active_rp_grp (grps st h) = Some e \<or> e \<in> entries_of st Current"
proof -
  have d: "set (remove1 g (grplist st)) = set (grplist st) - {g}" using links_distinct [OF assms(2)] by (rule set_remove1_eq)
  have "links_ok X st' \<and> set (grplist st) - {g} \<subseteq> set (grplist st') \<and> set (grplist st') \<subseteq> set (grplist st) \<and>
    (\<forall>h \<in> set (grplist st'). active_rp_grp (grps st' h) = Some e \<longrightarrow>
       h \<noteq> g \<and> active_rp_grp (grps st h) = Some e \<or> e \<in> entries_of st Current)"
  proof (rule remap_grpentry_cases [OF assms(1), of g uninit], goal_cases)
    case (1 k)
    then have st': "st' = snd (delete_grpentry g ((unlink_group g st)\<lparr>rp_crc := k\<rparr>))" using assms(5) by (auto dest: sym)
    have "grplist st' = remove1 g (grplist st)" by (simp add: st' delete_grpentry_def Let_def)
    moreover have "grps st' = grps st" by (simp add: st')
    ultimately show ?case using delete_group_links [OF assms(2,4), of k] d by (auto simp: st' [symmetric])
  next
    case (2 k f r)
    then have st': "st' = link_group g f ((unlink_group g st)\<lparr>rp_crc := k\<rparr>)" using assms(5) by simp
    moreover have "f \<in> X" using 2(5) assms(3) by blast
    ultimately have "links_ok X st'" using link_group_links [OF assms(2) _ assms(4)] by simp
    moreover have "grplist st' = grplist st" by (simp add: st')
    moreover have "active_rp_grp (grps st' h) = (if h = g then Some f else active_rp_grp (grps st h))" for h
      by (simp add: st' link_group_def)
    ultimately show ?case using 2(5) by (auto split: if_splits)
  qed
  then show "links_ok X st'" "set (grplist st) - {g} \<subseteq> set (grplist st')" "set (grplist st') \<subseteq> set (grplist st)"
    "\<And>h. h \<in> set (grplist st') \<Longrightarrow> active_rp_grp (grps st' h) = Some e \<Longrightarrow>
       h \<noteq> g \<and> active_rp_grp (grps st h) = Some e \<or> e \<in> entries_of st Current" by blast+
qed

lemma remap_groups_links:
  assumes "chains_ok st" and "links_ok X st" and "entries_of st Current \<subseteq> X" and "set gs \<subseteq> set (grplist st)" and "distinct gs"
  shows "\<exists>fs st'. remap_groups uninit gs st = Some (fs, st') \<and> same_rps st st' \<and> chains_ok st' \<and> links_ok X st' \<and>
    set (grplist st') \<subseteq> set (grplist st) \<and>
    (\<forall>h \<in> set (grplist st'). \<forall>e. active_rp_grp (grps st' h) = Some e \<longrightarrow>
       h \<notin> set gs \<and> active_rp_grp (grps st h) = Some e \<or> e \<in> entries_of st Current)"
  using assms
proof (induction gs arbitrary: st)
  case (Cons g gs)
  obtain fs st1 where 1: "remap_grpentry uninit g st = Some (fs, st1)" "same_rps st st1" "chains_ok st1"
    using remap_grpentry_run [OF Cons(2)] by blast
  have g: "g \<in> set (grplist st)" using Cons(5) by simp
  note l = remap_grpentry_links [OF Cons(2-4) g 1(1)]
  have e: "entries_of st1 Current = entries_of st Current" by (rule same_rps_entries [OF 1(2)])
  have "set gs \<subseteq> set (grplist st1)" using Cons(5,6) l(2) by auto
  then obtain fs' st2 where 2: "remap_groups uninit gs st1 = Some (fs', st2)" "same_rps st1 st2" "chains_ok st2" "links_ok X st2"
    "set (grplist st2) \<subseteq> set (grplist st1)"
    "\<And>h e. h \<in> set (grplist st2) \<Longrightarrow> active_rp_grp (grps st2 h) = Some e \<Longrightarrow>
       h \<notin> set gs \<and> active_rp_grp (grps st1 h) = Some e \<or> e \<in> entries_of st Current"
    using Cons(1) [OF 1(3) l(1)] Cons(4,6) e by auto
  have "remap_groups uninit (g # gs) st = Some (fs @ fs', st2)" using 1(1) 2(1) by simp
  moreover have "h \<notin> set (g # gs) \<and> active_rp_grp (grps st h) = Some e \<or> e \<in> entries_of st Current"
    if "h \<in> set (grplist st2)" "active_rp_grp (grps st2 h) = Some e" for h e
    using 2(6) [OF that] l(4) [of h e] 2(5) that(1) by auto
  ultimately show ?case using same_rps_trans [OF 1(2) 2(2)] 2(3,4,5) l(3) by blast
qed (simp add: same_rps_refl)

text \<open>
  \<^verbatim>\<open>groups_ok P st\<close>: the groups refer to entries of the prefixes in use, or to the entries \<^verbatim>\<open>P\<close> that have left the lists and
  whose groups are still to be remapped.
\<close>

definition all_entries :: "rp_state \<Rightarrow> nat set" where
  "all_entries st = entries_of st Current \<union> entries_of st Segmented"

definition groups_ok :: "nat set \<Rightarrow> rp_state \<Rightarrow> bool" where
  "groups_ok P st \<longleftrightarrow> links_ok (all_entries st \<union> P) st \<and>
     (\<forall>g \<in> set (grplist st). \<forall>e. active_rp_grp (grps st g) = Some e \<longrightarrow> e \<in> entries_of st Current \<union> P)"

lemma links_frame:
  assumes "links_ok X st" and "grps st' = grps st" and "grplist st' = grplist st" and "rp_fresh st \<le> rp_fresh st'"
    and "\<And>e. e \<in> X \<Longrightarrow> grplink (ents st' e) = grplink (ents st e)"
    and "\<And>e. e \<in> X \<Longrightarrow> cand_address st' (rg_rp (ents st' e)) = cand_address st (rg_rp (ents st e))"
  shows "links_ok X st'"
  using assms(1) unfolding links_ok_def assms(2,3) by (auto simp: assms(5,6) dest: order.strict_trans2 [OF _ assms(4)])

lemma links_shrink:
  assumes "links_ok X st" and "Y \<subseteq> X" and "\<And>g e. g \<in> set (grplist st) \<Longrightarrow> active_rp_grp (grps st g) = Some e \<Longrightarrow> e \<in> Y"
  shows "links_ok Y st"
  using assms unfolding links_ok_def by blast

lemma groups_keep:
  assumes "groups_ok P st" and "grps st' = grps st" and "grplist st' = grplist st" and "rp_fresh st \<le> rp_fresh st'"
    and "\<And>e. e \<in> all_entries st \<union> P \<Longrightarrow> grplink (ents st' e) = grplink (ents st e)"
    and "\<And>e. e \<in> all_entries st \<union> P \<Longrightarrow> cand_address st' (rg_rp (ents st' e)) = cand_address st (rg_rp (ents st e))"
    and "all_entries st' \<union> P' = all_entries st \<union> P" and "entries_of st Current \<union> P \<subseteq> entries_of st' Current \<union> P'"
  shows "groups_ok P' st'"
  unfolding groups_ok_def
proof
  show "links_ok (all_entries st' \<union> P') st'"
    unfolding assms(7) by (rule links_frame [OF _ assms(2-6)]) (use assms(1) in \<open>simp add: groups_ok_def\<close>)
  show "\<forall>g \<in> set (grplist st'). \<forall>e. active_rp_grp (grps st' g) = Some e \<longrightarrow> e \<in> entries_of st' Current \<union> P'"
    using assms(1-3,8) unfolding groups_ok_def by auto
qed

text \<open>The groups of an entry that has left the lists are remapped: then nothing refers to it.\<close>

lemma remap_pending:
  assumes "chains_ok st" and "groups_ok (insert e P) st" and "e \<notin> entries_of st Current"
  shows "\<exists>fs st'. remap_groups uninit (grplink (ents st e)) st = Some (fs, st') \<and> same_rps st st' \<and> chains_ok st' \<and> groups_ok P st'"
proof -
  let ?X = "all_entries st \<union> insert e P"
  have l: "links_ok ?X st" using assms(2) by (simp add: groups_ok_def)
  have sub: "entries_of st Current \<subseteq> ?X" by (auto simp: all_entries_def)
  note le = links_at [OF l, of e]
  obtain fs st' where st': "remap_groups uninit (grplink (ents st e)) st = Some (fs, st')" "same_rps st st'" "chains_ok st'"
    "links_ok ?X st'" "set (grplist st') \<subseteq> set (grplist st)"
    "\<And>h f. h \<in> set (grplist st') \<Longrightarrow> active_rp_grp (grps st' h) = Some f \<Longrightarrow>
       h \<notin> set (grplink (ents st e)) \<and> active_rp_grp (grps st h) = Some f \<or> f \<in> entries_of st Current"
    using remap_groups_links [OF assms(1) l sub, of "grplink (ents st e)" uninit] le by auto
  have f: "f \<in> entries_of st Current \<union> P" if "h \<in> set (grplist st')" "active_rp_grp (grps st' h) = Some f" for h f
    using st'(6) [OF that] assms(2) le(2) that(1) st'(5) unfolding groups_ok_def by blast
  note en = same_rps_entries [OF st'(2)]
  have "links_ok (all_entries st \<union> P) st'"
    by (rule links_shrink [OF st'(4)]) (use f in \<open>auto simp: all_entries_def\<close>)
  then have "groups_ok P st'" using f by (auto simp: groups_ok_def all_entries_def en)
  then show ?thesis using st'(1-3) by blast
qed

text \<open>What a deletion leaves alone.\<close>

definition same_data :: "rp_state \<Rightarrow> rp_state \<Rightarrow> bool" where
  "same_data st st' \<longleftrightarrow> cand_address st' = cand_address st \<and> rp_fresh st' = rp_fresh st \<and>
     (\<forall>m. group_addr (masks st' m) = group_addr (masks st m) \<and> group_mask (masks st' m) = group_mask (masks st m) \<and>
        hash_mask (masks st' m) = hash_mask (masks st m) \<and> gm_fragment_tag (masks st' m) = gm_fragment_tag (masks st m)) \<and>
     (\<forall>e. (ents st' e)\<lparr>grplink := []\<rparr> = (ents st e)\<lparr>grplink := []\<rparr>)"

lemma same_data_trans: "same_data a b \<Longrightarrow> same_data b c \<Longrightarrow> same_data a c"
  by (simp add: same_data_def)

lemma same_rps_data: "same_rps a b \<Longrightarrow> same_data a b"
  by (simp add: same_data_def same_rps_def cand_address_def fun_eq_iff)

lemma same_data_refl: "same_data st st"
  by (simp add: same_data_def)

lemma same_data_fields:
  assumes "same_data st st'"
  shows "rg_priority (ents st' e) = rg_priority (ents st e)" "rg_origin (ents st' e) = rg_origin (ents st e)"
    "rg_group (ents st' e) = rg_group (ents st e)" "rg_rp (ents st' e) = rg_rp (ents st e)" "holdtime (ents st' e) = holdtime (ents st e)"
    "rg_fragment_tag (ents st' e) = rg_fragment_tag (ents st e)"
    "cand_address st' = cand_address st" "mask_prefix st' = mask_prefix st" "rp_fresh st' = rp_fresh st"
proof -
  have e: "(ents st' e)\<lparr>grplink := []\<rparr> = (ents st e)\<lparr>grplink := []\<rparr>" using assms by (simp add: same_data_def)
  from arg_cong [OF e, of rg_priority] arg_cong [OF e, of rg_origin] arg_cong [OF e, of rg_group] arg_cong [OF e, of rg_rp]
    arg_cong [OF e, of holdtime] arg_cong [OF e, of rg_fragment_tag]
  show "rg_priority (ents st' e) = rg_priority (ents st e)" "rg_origin (ents st' e) = rg_origin (ents st e)"
    "rg_group (ents st' e) = rg_group (ents st e)" "rg_rp (ents st' e) = rg_rp (ents st e)" "holdtime (ents st' e) = holdtime (ents st e)"
    "rg_fragment_tag (ents st' e) = rg_fragment_tag (ents st e)" by simp_all
qed (use assms in \<open>auto simp: same_data_def mask_prefix_def fun_eq_iff\<close>)

end
