(* ===== verification/RP_Delete.thy ===== *)
theory RP_Delete
  imports RP_Groups
begin

text \<open>
  The functions of \<^verbatim>\<open>rp.c\<close> that delete entries, prefixes and RPs. Freed structures stay in their stores and are in no
  list any more. Each deletion is split into the removal of one entry, of an empty prefix and of an RP without
  entries, and keeps the invariants of the set and of the groups.
\<close>

section \<open>Deleting entries\<close>

text \<open>
  \<^verbatim>\<open>delete_rp_entry\<close> is called for an RP whose last entry has been removed. Its loop over the entries of the RP is
  reached only through \<^verbatim>\<open>delete_rp\<close>, which is not used; it is not modelled, and an RP with entries is \<^verbatim>\<open>None\<close>.
\<close>

definition delete_rp_entry :: "rp_lists \<Rightarrow> nat \<Rightarrow> rp_state \<Rightarrow> rp_state option" where
  "delete_rp_entry used c st =
     (if rp_grp_chain (cands st c) \<noteq> [] then None
      else Some (st\<lparr>cand_rp_list := (cand_rp_list st)(used := remove1 c (cand_rp_list st used))\<rparr>))"

definition unlink_rp_grp :: "nat \<Rightarrow> rp_state \<Rightarrow> rp_state" where
  "unlink_rp_grp e st =
     (let c = rg_rp (ents st e)
      in st\<lparr>cands := (cands st)(c := (cands st c)\<lparr>rp_grp_chain := remove1 e (rp_grp_chain (cands st c))\<rparr>)\<rparr>)"

definition unlink_grp_rp :: "nat \<Rightarrow> rp_state \<Rightarrow> rp_state" where
  "unlink_grp_rp e st =
     (let m = rg_group (ents st e)
      in st\<lparr>masks := (masks st)(m := (masks st m)\<lparr>grp_rp_chain := remove1 e (grp_rp_chain (masks st m))\<rparr>)\<rparr>)"

definition drop_rp :: "rp_lists \<Rightarrow> nat \<Rightarrow> rp_state \<Rightarrow> rp_state option" where
  "drop_rp used c st = (if rp_grp_chain (cands st c) = [] then delete_rp_entry used c st else Some st)"

text \<open>The loop of \<^verbatim>\<open>delete_grp_mask_entry\<close> over the entries of the prefix.\<close>

primrec delete_entries :: "sockaddr_in6 \<Rightarrow> rp_lists \<Rightarrow> nat list \<Rightarrow> rp_state \<Rightarrow> (rp_effect list \<times> rp_state) option" where
  "delete_entries uninit used [] st = Some ([], st)"
| "delete_entries uninit used (e # es) st = do {
     (fs, st) \<leftarrow> remap_groups uninit (grplink (ents st e)) st;
     st \<leftarrow> drop_rp used (rg_rp (ents st e)) (unlink_rp_grp e st);
     (fs', st) \<leftarrow> delete_entries uninit used es st;
     Some (fs @ fs', st) }"

definition delete_grp_mask_entry :: "sockaddr_in6 \<Rightarrow> rp_lists \<Rightarrow> nat \<Rightarrow> rp_state \<Rightarrow> (rp_effect list \<times> rp_state) option" where
  "delete_grp_mask_entry uninit used m st =
     delete_entries uninit used (grp_rp_chain (masks st m))
       (st\<lparr>grp_mask_list := (grp_mask_list st)(used := remove1 m (grp_mask_list st used))\<rparr>)"

definition delete_rp_grp_entry :: "sockaddr_in6 \<Rightarrow> rp_lists \<Rightarrow> nat \<Rightarrow> rp_state \<Rightarrow> (rp_effect list \<times> rp_state) option" where
  "delete_rp_grp_entry uninit used e st =
     (let m = rg_group (ents st e); c = rg_rp (ents st e);
          st = st\<lparr>masks := (masks st)(m := (masks st m)\<lparr>group_rp_number := group_rp_number (masks st m) - 1\<rparr>)\<rparr>;
          st = unlink_grp_rp e (unlink_rp_grp e st)
      in do {
        (fs, st) \<leftarrow> (if grp_rp_chain (masks st m) = [] then delete_grp_mask_entry uninit used m st else Some ([], st));
        st \<leftarrow> drop_rp used c st;
        (fs', st) \<leftarrow> remap_groups uninit (grplink (ents st e)) st;
        Some (fs @ fs', st) })"

text \<open>
  The scope ids of the addresses that \<^verbatim>\<open>delete_grp_mask\<close> compares are not initialised: \<^verbatim>\<open>s1\<close> and \<^verbatim>\<open>s2\<close>.
\<close>

definition delete_grp_mask ::
  "u32 \<Rightarrow> u32 \<Rightarrow> sockaddr_in6 \<Rightarrow> rp_lists \<Rightarrow> sockaddr_in6 \<Rightarrow> in6_addr \<Rightarrow> rp_state \<Rightarrow> (rp_effect list \<times> rp_state) option" where
  "delete_grp_mask s1 s2 uninit used addr gmask st =
     (let prefix_h = (prefix_of (sin6_addr addr) gmask)\<lparr>sin6_scope_id := s1\<rparr>
      in case search_chain (\<lambda>m. inet6_greaterthan ((mask_prefix st m)\<lparr>sin6_scope_id := s2\<rparr>) prefix_h)
                (\<lambda>m. sin6_addr (group_addr (masks st m)) = sin6_addr addr \<and> group_mask (masks st m) = gmask)
                (grp_mask_list st used) of
        (_, None, _) \<Rightarrow> Some ([], st)
      | (_, Some m, _) \<Rightarrow> delete_grp_mask_entry uninit used m st)"

text \<open>\<^verbatim>\<open>delete_rp_list\<close> frees everything and leaves the groups without an RP.\<close>

definition clear_group :: "nat \<Rightarrow> rp_state \<Rightarrow> rp_state" where
  "clear_group g st = st\<lparr>grps := (grps st)(g := (grps st g)\<lparr>active_rp_grp := None,
     ge_rpaddr := \<lparr>sin6_addr = replicate 16 0, sin6_scope_id = 0\<rparr>\<rparr>)\<rparr>"

definition clear_entry :: "nat \<Rightarrow> rp_state \<Rightarrow> rp_state" where
  "clear_entry e st = fold clear_group (grplink (ents st e)) st"

definition clear_rp :: "nat \<Rightarrow> rp_state \<Rightarrow> rp_state" where
  "clear_rp c st = fold clear_entry (rp_grp_chain (cands st c)) st"

definition delete_rp_list :: "rp_lists \<Rightarrow> rp_state \<Rightarrow> rp_state" where
  "delete_rp_list used st =
     (let st = fold clear_rp (cand_rp_list st used) st
      in st\<lparr>cand_rp_list := (cand_rp_list st)(used := []), grp_mask_list := (grp_mask_list st)(used := [])\<rparr>)"

section \<open>Removing entries, prefixes and RPs from the lists\<close>

definition cut_entry :: "nat \<Rightarrow> rp_state \<Rightarrow> rp_state" where
  "cut_entry e st =
     (let m = rg_group (ents st e); c = rg_rp (ents st e)
      in st\<lparr>masks := (masks st)(m := (masks st m)\<lparr>grp_rp_chain := remove1 e (grp_rp_chain (masks st m)),
               group_rp_number := group_rp_number (masks st m) - 1\<rparr>),
            cands := (cands st)(c := (cands st c)\<lparr>rp_grp_chain := remove1 e (rp_grp_chain (cands st c))\<rparr>)\<rparr>)"

definition cut_mask :: "rp_lists \<Rightarrow> nat \<Rightarrow> grp_mask \<Rightarrow> rp_state \<Rightarrow> rp_state" where
  "cut_mask u m x st =
     st\<lparr>grp_mask_list := (grp_mask_list st)(u := remove1 m (grp_mask_list st u)), masks := (masks st)(m := x)\<rparr>"

definition cut_cand :: "rp_lists \<Rightarrow> nat \<Rightarrow> rp_state \<Rightarrow> rp_state" where
  "cut_cand u c st = st\<lparr>cand_rp_list := (cand_rp_list st)(u := remove1 c (cand_rp_list st u))\<rparr>"

lemma mask_ok_entry:
  assumes "rp_ok st" and "m \<in> set (grp_mask_list st u)" and "e \<in> set (grp_rp_chain (masks st m))"
  shows "rg_group (ents st e) = m" "rg_rp (ents st e) \<in> set (cand_rp_list st u)" "e < rp_fresh st" "rg_origin (ents st e) < 2"
    "distinct (grp_rp_chain (masks st m))"
proof -
  have "mask_ok st u m" using assms(2) rp_ok_lists [OF assms(1), of u] by (simp add: lists_ok_def)
  then show "rg_group (ents st e) = m" "rg_rp (ents st e) \<in> set (cand_rp_list st u)" "e < rp_fresh st" "rg_origin (ents st e) < 2"
    "distinct (grp_rp_chain (masks st m))"
    using assms(3) sorted_wrt_distinct [of "entry_key st"] by (auto simp: mask_ok_def)
qed

lemma cand_ok_chain:
  assumes "rp_ok st" and "c \<in> set (cand_rp_list st u)"
  shows "distinct (rp_grp_chain (cands st c))" "set (rp_grp_chain (cands st c)) = {e \<in> entries_of st u. rg_rp (ents st e) = c}"
  using assms rp_ok_lists [OF assms(1), of u] by (auto simp: lists_ok_def cand_ok_def entries_of_def)

lemma rp_ok_distinct:
  assumes "rp_ok st"
  shows "distinct (cand_rp_list st u)" "distinct (grp_mask_list st u)"
  using rp_ok_lists [OF assms, of u] sorted_wrt_distinct [of "\<lambda>c. addr_key (cand_address st c)"]
    sorted_wrt_distinct [of "\<lambda>m. addr_key (mask_prefix st m)"] by (auto simp: lists_ok_def)

lemma lists_okI:
  assumes "sorted_wrt (\<lambda>a b. addr_key (cand_address st a) < addr_key (cand_address st b)) (cand_rp_list st u)"
    and "sorted_wrt (\<lambda>a b. addr_key (mask_prefix st a) < addr_key (mask_prefix st b)) (grp_mask_list st u)"
    and "\<And>c. c \<in> set (cand_rp_list st u) \<Longrightarrow> c < rp_fresh st \<and> in6_ok (cand_address st c) \<and> distinct (rp_grp_chain (cands st c)) \<and>
       set (rp_grp_chain (cands st c)) = {e \<in> entries_of st u. rg_rp (ents st e) = c}"
    and "\<And>m. m \<in> set (grp_mask_list st u) \<Longrightarrow> m < rp_fresh st \<and> mask_ok st u m"
  shows "lists_ok st u"
  using assms unfolding lists_ok_def cand_ok_def entries_of_def by (auto simp: Bex_def)

lemma lists_okD:
  assumes "rp_ok st"
  shows "sorted_wrt (\<lambda>a b. addr_key (cand_address st a) < addr_key (cand_address st b)) (cand_rp_list st u)"
    "sorted_wrt (\<lambda>a b. addr_key (mask_prefix st a) < addr_key (mask_prefix st b)) (grp_mask_list st u)"
    "c \<in> set (cand_rp_list st u) \<Longrightarrow> c < rp_fresh st \<and> in6_ok (cand_address st c)"
    "m \<in> set (grp_mask_list st u) \<Longrightarrow> m < rp_fresh st \<and> mask_ok st u m"
  using rp_ok_lists [OF assms, of u] by (auto simp: lists_ok_def cand_ok_def)

lemma cut_entry_fields [simp]:
  "ents (cut_entry e st) = ents st" "grps (cut_entry e st) = grps st" "grplist (cut_entry e st) = grplist st"
  "cand_rp_list (cut_entry e st) = cand_rp_list st" "grp_mask_list (cut_entry e st) = grp_mask_list st"
  "rp_fresh (cut_entry e st) = rp_fresh st" "rp_crc (cut_entry e st) = rp_crc st"
  "cand_address (cut_entry e st) = cand_address st" "mask_prefix (cut_entry e st) = mask_prefix st"
  "hash_mask (masks (cut_entry e st) m) = hash_mask (masks st m)"
  by (auto simp: cut_entry_def cand_address_def mask_prefix_def Let_def fun_eq_iff)

lemma cut_entry_chain:
  "grp_rp_chain (masks (cut_entry e st) m) =
     (if m = rg_group (ents st e) then remove1 e (grp_rp_chain (masks st m)) else grp_rp_chain (masks st m))"
  "rp_grp_chain (cands (cut_entry e st) c) =
     (if c = rg_rp (ents st e) then remove1 e (rp_grp_chain (cands st c)) else rp_grp_chain (cands st c))"
  by (auto simp: cut_entry_def Let_def)

lemma cut_entry_entries:
  assumes "rp_ok st" and "m \<in> set (grp_mask_list st u)" and "e \<in> set (grp_rp_chain (masks st m))"
  shows "entries_of (cut_entry e st) v = entries_of st v - {e}"
proof -
  have "set (grp_rp_chain (masks (cut_entry e st) n)) = set (grp_rp_chain (masks st n)) - {e}" if "n \<in> set (grp_mask_list st v)" for n
    using mask_ok_entry [OF assms] mask_ok_entry(1) [OF assms(1) that, of e] by (auto simp: cut_entry_chain set_remove1_eq)
  then show ?thesis by (auto simp: entries_of_def)
qed

lemma cut_entry_ok:
  assumes "rp_ok st" and "m \<in> set (grp_mask_list st u)" and "e \<in> set (grp_rp_chain (masks st m))"
  shows "rp_ok (cut_entry e st)"
proof -
  let ?st = "cut_entry e st"
  note me = mask_ok_entry [OF assms] and ent = cut_entry_entries [OF assms]
  have key: "entry_key ?st = entry_key st" by (simp add: entry_key_def fun_eq_iff)
  have m: "mask_ok ?st v n" if "n \<in> set (grp_mask_list st v)" for v n
  proof -
    have o: "mask_ok st v n" using lists_okD(4) [OF assms(1) that] by simp
    show ?thesis
    proof (cases "n = m")
      case True
      have "0 < length (grp_rp_chain (masks st m))" using assms(3) by (cases "grp_rp_chain (masks st m)") auto
      then have "of_nat (length (grp_rp_chain (masks st m)) - 1) = (of_nat (length (grp_rp_chain (masks st m))) - 1 :: byte)"
        by (cases "length (grp_rp_chain (masks st m))") simp_all
      then show ?thesis using o me sorted_wrt_remove1 unfolding mask_ok_def key cut_entry_chain True
        by (auto simp: cut_entry_def Let_def length_remove1 assms(3) dest: subsetD [OF set_remove1_subset])
    next
      case False
      then show ?thesis using o me(1) unfolding mask_ok_def key cut_entry_chain by (simp add: cut_entry_def Let_def)
    qed
  qed
  have c: "distinct (rp_grp_chain (cands ?st c)) \<and> set (rp_grp_chain (cands ?st c)) = {f \<in> entries_of ?st v. rg_rp (ents ?st f) = c}"
    if "c \<in> set (cand_rp_list st v)" for v c
  proof (cases "c = rg_rp (ents st e)")
    case True
    have "set (remove1 e (rp_grp_chain (cands st c))) = set (rp_grp_chain (cands st c)) - {e}"
      using cand_ok_chain(1) [OF assms(1) that] by (rule set_remove1_eq)
    then show ?thesis using True cand_ok_chain [OF assms(1) that] unfolding ent cut_entry_chain cut_entry_fields by auto
  next
    case False
    then show ?thesis using cand_ok_chain [OF assms(1) that] unfolding ent cut_entry_chain cut_entry_fields by auto
  qed
  have "lists_ok ?st v" for v
    using lists_okD [OF assms(1), where u = v] m c by (intro lists_okI) simp_all
  then show ?thesis using assms(1) by (simp add: rp_ok_def)
qed

lemma cut_mask_fields [simp]:
  "ents (cut_mask u m x st) = ents st" "grps (cut_mask u m x st) = grps st" "grplist (cut_mask u m x st) = grplist st"
  "cand_rp_list (cut_mask u m x st) = cand_rp_list st" "rp_fresh (cut_mask u m x st) = rp_fresh st"
  "rp_crc (cut_mask u m x st) = rp_crc st" "cand_address (cut_mask u m x st) = cand_address st" "cands (cut_mask u m x st) = cands st"
  "grp_mask_list (cut_mask u m x st) v = (if v = u then remove1 m (grp_mask_list st u) else grp_mask_list st v)"
  "n \<noteq> m \<Longrightarrow> masks (cut_mask u m x st) n = masks st n" "n \<noteq> m \<Longrightarrow> mask_prefix (cut_mask u m x st) n = mask_prefix st n"
  by (auto simp: cut_mask_def cand_address_def mask_prefix_def fun_eq_iff)

lemma cut_mask_list:
  assumes "rp_ok st" and "m \<in> set (grp_mask_list st u)"
  shows "set (grp_mask_list (cut_mask u m x st) v) = set (grp_mask_list st v) - {m}"
  using rp_ok_disjoint(2) [OF assms(1,2), of v] rp_ok_distinct(2) [OF assms(1)] by (auto simp: set_remove1_eq)

lemma cut_mask_entries:
  assumes "rp_ok st" and "m \<in> set (grp_mask_list st u)" and "grp_rp_chain (masks st m) = []"
  shows "entries_of (cut_mask u m x st) v = entries_of st v"
proof -
  have "entries_of (cut_mask u m x st) v = (\<Union>n \<in> set (grp_mask_list st v) - {m}. set (grp_rp_chain (masks st n)))"
    unfolding entries_of_def cut_mask_list [OF assms(1,2)] by auto
  also have "\<dots> = entries_of st v" using assms(3) by (auto simp: entries_of_def)
  finally show ?thesis .
qed

lemma sorted_wrt_cong_set: "(\<And>a b. a \<in> set xs \<Longrightarrow> b \<in> set xs \<Longrightarrow> P a b = Q a b) \<Longrightarrow> sorted_wrt P xs = sorted_wrt Q xs"
  by (induction xs) auto

lemma cut_mask_ok:
  assumes "rp_ok st" and "m \<in> set (grp_mask_list st u)" and "grp_rp_chain (masks st m) = []"
  shows "rp_ok (cut_mask u m x st)"
proof -
  let ?st = "cut_mask u m x st"
  note l = cut_mask_list [OF assms(1,2), of x] and ent = cut_mask_entries [OF assms, of x]
  have key: "entry_key ?st = entry_key st" by (simp add: entry_key_def fun_eq_iff)
  have n: "n < rp_fresh ?st \<and> mask_ok ?st v n" if "n \<in> set (grp_mask_list ?st v)" for v n
    using lists_okD(4) [OF assms(1), of n v] that l unfolding mask_ok_def key by auto
  have sub: "sorted_wrt P (grp_mask_list ?st v)" if "sorted_wrt P (grp_mask_list st v)" for P v
    using that by (auto simp: sorted_wrt_remove1)
  have srt: "sorted_wrt (\<lambda>a b. addr_key (mask_prefix ?st a) < addr_key (mask_prefix ?st b)) (grp_mask_list ?st v)" for v
    using sub [OF lists_okD(2) [OF assms(1)]] l by (subst sorted_wrt_cong_set [where Q = "\<lambda>a b. addr_key (mask_prefix st a) < addr_key (mask_prefix st b)"]) auto
  have "lists_ok ?st v" for v
    using lists_okD(1,3) [OF assms(1), where u = v] cand_ok_chain [OF assms(1)] srt [of v] n by (intro lists_okI) (simp_all add: ent)
  moreover have "set (grp_mask_list ?st Current) \<inter> set (grp_mask_list ?st Segmented) = {}"
    using assms(1) l by (auto simp: rp_ok_def)
  ultimately show ?thesis using assms(1) by (simp add: rp_ok_def)
qed

lemma cut_cand_fields [simp]:
  "ents (cut_cand u c st) = ents st" "grps (cut_cand u c st) = grps st" "grplist (cut_cand u c st) = grplist st"
  "grp_mask_list (cut_cand u c st) = grp_mask_list st" "rp_fresh (cut_cand u c st) = rp_fresh st"
  "rp_crc (cut_cand u c st) = rp_crc st" "cand_address (cut_cand u c st) = cand_address st" "cands (cut_cand u c st) = cands st"
  "masks (cut_cand u c st) = masks st" "mask_prefix (cut_cand u c st) = mask_prefix st" "entries_of (cut_cand u c st) = entries_of st"
  "cand_rp_list (cut_cand u c st) v = (if v = u then remove1 c (cand_rp_list st u) else cand_rp_list st v)"
  by (auto simp: cut_cand_def cand_address_def mask_prefix_def entries_of_def fun_eq_iff)

lemma cut_cand_ok:
  assumes "rp_ok st" and "c \<in> set (cand_rp_list st u)" and "rp_grp_chain (cands st c) = []"
  shows "rp_ok (cut_cand u c st)"
proof -
  let ?st = "cut_cand u c st"
  have l: "set (cand_rp_list ?st v) = set (cand_rp_list st v) - {c}" for v
    using rp_ok_disjoint(1) [OF assms(1,2), of v] rp_ok_distinct(1) [OF assms(1)] by (auto simp: set_remove1_eq)
  have key: "entry_key ?st = entry_key st" by (simp add: entry_key_def fun_eq_iff)
  have n: "m < rp_fresh ?st \<and> mask_ok ?st v m" if "m \<in> set (grp_mask_list st v)" for v m
  proof -
    have "rg_rp (ents st e) \<noteq> c" if e: "e \<in> set (grp_rp_chain (masks st m))" for e
    proof
      assume r: "rg_rp (ents st e) = c"
      then have "c \<in> set (cand_rp_list st v)" using mask_ok_entry(2) [OF assms(1) \<open>m \<in> _\<close> e] by simp
      moreover have "e \<in> entries_of st v" using e \<open>m \<in> _\<close> by (auto simp: entries_of_def)
      ultimately show False using cand_ok_chain(2) [OF assms(1), of c v] r assms(3) by auto
    qed
    then show ?thesis using lists_okD(4) [OF assms(1) that] unfolding mask_ok_def key l by auto
  qed
  have "lists_ok ?st v" for v
    using lists_okD [OF assms(1), where u = v] cand_ok_chain [OF assms(1)] n l
    by (intro lists_okI) (auto simp: sorted_wrt_remove1 split: if_splits)
  moreover have "set (cand_rp_list ?st Current) \<inter> set (cand_rp_list ?st Segmented) = {}"
    using assms(1) l by (auto simp: rp_ok_def)
  ultimately show ?thesis using assms(1) by (simp add: rp_ok_def)
qed

section \<open>Deletion keeps the invariants\<close>

lemma cut_data: "same_data st (cut_entry e st)" "same_data st (cut_mask u m (masks st m) st)" "same_data st (cut_cand u c st)"
  by (auto simp: same_data_def cut_entry_def cut_mask_def cut_cand_def cand_address_def fun_eq_iff Let_def)

lemma cut_entry_eq:
  "unlink_grp_rp e (unlink_rp_grp e (st\<lparr>masks := (masks st)(rg_group (ents st e) :=
     (masks st (rg_group (ents st e)))\<lparr>group_rp_number := group_rp_number (masks st (rg_group (ents st e))) - 1\<rparr>)\<rparr>)) = cut_entry e st"
  by (auto intro!: rp_state.equality grp_mask.equality ext simp: unlink_grp_rp_def unlink_rp_grp_def cut_entry_def Let_def)

lemma drop_rp_eq: "drop_rp u c st = Some (if rp_grp_chain (cands st c) = [] then cut_cand u c st else st)"
  by (simp add: drop_rp_def delete_rp_entry_def cut_cand_def)

lemma delete_empty_mask: "grp_rp_chain (masks st m) = [] \<Longrightarrow> delete_grp_mask_entry uninit u m st = Some ([], cut_mask u m (masks st m) st)"
  by (simp add: delete_grp_mask_entry_def cut_mask_def)

lemma groups_move:
  assumes "groups_ok P st" and "grps st' = grps st" and "grplist st' = grplist st" and "rp_fresh st' = rp_fresh st"
    and "ents st' = ents st" and "cand_address st' = cand_address st"
    and "all_entries st' \<union> P' = all_entries st \<union> P" and "entries_of st Current \<union> P \<subseteq> entries_of st' Current \<union> P'"
  shows "groups_ok P' st'"
  by (rule groups_keep [OF assms(1-3)]) (use assms in simp_all)

lemma entries_ofI: "m \<in> set (grp_mask_list st u) \<Longrightarrow> e \<in> set (grp_rp_chain (masks st m)) \<Longrightarrow> e \<in> entries_of st u"
  by (auto simp: entries_of_def)

lemma entries_disjoint:
  assumes "rp_ok st" and "e \<in> entries_of st u" and "e \<in> entries_of st v"
  shows "u = v"
proof -
  obtain m n where "m \<in> set (grp_mask_list st u)" "e \<in> set (grp_rp_chain (masks st m))" "n \<in> set (grp_mask_list st v)" "e \<in> set (grp_rp_chain (masks st n))"
    using assms(2,3) by (auto simp: entries_of_def)
  then show ?thesis using mask_ok_entry(1) [OF assms(1)] rp_ok_disjoint(2) [OF assms(1), of m u v] by metis
qed

theorem delete_rp_grp_entry_ok:
  assumes "rp_ok st" and "groups_ok {} st" and "m \<in> set (grp_mask_list st u)" and "e \<in> set (grp_rp_chain (masks st m))"
  shows "\<exists>fs st'. delete_rp_grp_entry uninit u e st = Some (fs, st') \<and> rp_ok st' \<and> groups_ok {} st' \<and> same_data st st' \<and>
    (\<forall>v. entries_of st' v = entries_of st v - {e}) \<and> (\<forall>n. n \<noteq> m \<longrightarrow> masks st' n = masks st n) \<and>
    (\<forall>v. set (grp_mask_list st v) - {m} \<subseteq> set (grp_mask_list st' v))"
proof -
  note me = mask_ok_entry [OF assms(1,3,4)]
  let ?c = "rg_rp (ents st e)"
  define s1 where "s1 = cut_entry e st"
  define s2 where "s2 = (if grp_rp_chain (masks s1 m) = [] then cut_mask u m (masks s1 m) s1 else s1)"
  define s3 where "s3 = (if rp_grp_chain (cands s2 ?c) = [] then cut_cand u ?c s2 else s2)"
  have l1: "m \<in> set (grp_mask_list s1 u)" "?c \<in> set (cand_rp_list s1 u)" using assms(3) me(2) by (simp_all add: s1_def)
  have 1: "rp_ok s1" "\<And>v. entries_of s1 v = entries_of st v - {e}"
    using cut_entry_ok [OF assms(1,3,4)] cut_entry_entries [OF assms(1,3,4)] by (simp_all add: s1_def)
  have 2: "rp_ok s2" "\<And>v. entries_of s2 v = entries_of st v - {e}"
    using cut_mask_ok [OF 1(1) l1(1)] cut_mask_entries [OF 1(1) l1(1)] 1 by (simp_all add: s2_def)
  have 3: "rp_ok s3" "\<And>v. entries_of s3 v = entries_of st v - {e}"
    using cut_cand_ok [OF 2(1), of ?c u] l1(2) 2 by (auto simp: s3_def s2_def)
  have f: "grps s3 = grps st" "grplist s3 = grplist st" "rp_fresh s3 = rp_fresh st" "ents s3 = ents st" "cand_address s3 = cand_address st"
    by (simp_all add: s1_def s2_def s3_def)
  have d: "same_data st s3"
    using cut_data(1) [of st e] cut_data(2) [of s1 u m] cut_data(3) [of s2 u ?c] by (auto simp: s1_def [symmetric] s2_def s3_def dest: same_data_trans)
  have "e \<in> entries_of st u" using assms(3,4) by (rule entries_ofI)
  then have "groups_ok {e} s3"
    by (intro groups_move [OF assms(2) f]) (cases u; auto simp: all_entries_def 3(2))+
  then obtain fs st' where r: "remap_groups uninit (grplink (ents s3 e)) s3 = Some (fs, st')" "same_rps s3 st'" "chains_ok st'" "groups_ok {} st'"
    using remap_pending [OF rp_ok_chains [OF 3(1)]] 3(2) by blast
  have "delete_rp_grp_entry uninit u e st = Some (fs, st')"
    using r(1) unfolding delete_rp_grp_entry_def Let_def cut_entry_eq s1_def [symmetric]
    by (auto simp: me(1) delete_empty_mask drop_rp_eq s2_def s3_def split: if_splits)
  moreover have "rp_ok st'" using rp_ok_same [OF 3(1) r(2,3)] .
  moreover have "same_data st st'" using same_data_trans [OF d same_rps_data [OF r(2)]] .
  moreover have "masks st' n = masks st n" if "n \<noteq> m" for n
    using same_rps_fields(7) [OF r(2)] that by (simp add: s3_def s2_def s1_def cut_entry_def cut_mask_def cut_cand_def Let_def me(1))
  moreover have "set (grp_mask_list st v) - {m} \<subseteq> set (grp_mask_list st' v)" for v
    using same_rps_fields(9) [OF r(2)] by (auto simp: s3_def s2_def s1_def cut_entry_def cut_mask_def cut_cand_def Let_def) (metis in_set_remove1)+
  ultimately show ?thesis using r(4) 3(2) same_rps_entries [OF r(2)] by auto
qed


text \<open>
  While the entries of a prefix are deleted, the prefix is out of the list but its entries are still in the chains
  of their RPs. \<^verbatim>\<open>with_mask\<close> puts the prefix back with the entries that are left; that state satisfies the invariant.
\<close>

definition with_mask :: "rp_lists \<Rightarrow> nat \<Rightarrow> nat list \<Rightarrow> nat list \<Rightarrow> rp_state \<Rightarrow> rp_state" where
  "with_mask u m ms es st = st\<lparr>grp_mask_list := (grp_mask_list st)(u := ms),
     masks := (masks st)(m := (masks st m)\<lparr>grp_rp_chain := es, group_rp_number := of_nat (length es)\<rparr>)\<rparr>"

lemma with_mask_fields [simp]:
  "ents (with_mask u m ms es st) = ents st" "cands (with_mask u m ms es st) = cands st" "cand_address (with_mask u m ms es st) = cand_address st"
  "cand_rp_list (with_mask u m ms es st) = cand_rp_list st" "rp_crc (with_mask u m ms es st) = rp_crc st" "grp_mask_list (with_mask u m ms es st) u = ms"
  "v \<noteq> u \<Longrightarrow> grp_mask_list (with_mask u m ms es st) v = grp_mask_list st v" "grp_rp_chain (masks (with_mask u m ms es st) m) = es"
  "n \<noteq> m \<Longrightarrow> masks (with_mask u m ms es st) n = masks st n"
  by (auto simp: with_mask_def cand_address_def fun_eq_iff)

lemma with_mask_entries:
  assumes "rp_ok (with_mask u m ms es st)" and "m \<in> set ms" and "grp_mask_list st u = remove1 m ms"
  shows "entries_of (with_mask u m ms es st) v = entries_of st v \<union> (if v = u then set es else {})" "set es \<inter> entries_of st v = {}"
    and "chains_ok st"
proof -
  let ?g = "with_mask u m ms es st"
  have d: "distinct ms" using rp_ok_distinct(2) [OF assms(1), of u] by simp
  have nm: "m \<notin> set (grp_mask_list st w)" for w
    using rp_ok_disjoint(2) [OF assms(1), of m u w] assms(2,3) d by (cases "w = u") auto
  have l: "set (grp_mask_list ?g w) = (if w = u then insert m (set (grp_mask_list st w)) else set (grp_mask_list st w))" for w
    using assms(2,3) d by auto
  have same: "masks ?g n = masks st n" if "n \<in> set (grp_mask_list st w)" for n w using that nm [of w] by (cases "n = m") auto
  show "entries_of ?g v = entries_of st v \<union> (if v = u then set es else {})"
    unfolding entries_of_def l using same [of _ v] by auto
  show "set es \<inter> entries_of st v = {}"
  proof (rule ccontr)
    assume "set es \<inter> entries_of st v \<noteq> {}"
    then obtain e n where e: "e \<in> set es" "n \<in> set (grp_mask_list st v)" "e \<in> set (grp_rp_chain (masks st n))" by (auto simp: entries_of_def)
    then have "n \<in> set (grp_mask_list ?g v)" "e \<in> set (grp_rp_chain (masks ?g n))" using l same [OF e(2)] by auto
    then have "n = m" using mask_ok_entry(1) [OF assms(1), of n v e] mask_ok_entry(1) [OF assms(1), of m u e] e(1) assms(2) by simp
    then show False using e(2) nm by blast
  qed
  have key: "entry_key ?g = entry_key st" "entry_ok ?g = entry_ok st" by (simp_all add: entry_key_def entry_ok_def fun_eq_iff)
  have c: "crc_ok (rp_crc st)" "\<And>n. n \<in> set (grp_mask_list ?g Current) \<Longrightarrow> (\<forall>e \<in> set (grp_rp_chain (masks ?g n)). entry_ok st e) \<and>
     sorted_wrt (\<lambda>a b. entry_key st a < entry_key st b) (grp_rp_chain (masks ?g n))"
    using rp_ok_chains [OF assms(1)] unfolding chains_ok_def key by auto
  show "chains_ok st" unfolding chains_ok_def
  proof (intro conjI ballI c(1))
    fix n assume n: "n \<in> set (grp_mask_list st Current)"
    then have "n \<in> set (grp_mask_list ?g Current)" unfolding l by simp
    from c(2) [OF this] show "sorted_wrt (\<lambda>a b. entry_key st a < entry_key st b) (grp_rp_chain (masks st n))"
      "\<And>e. e \<in> set (grp_rp_chain (masks st n)) \<Longrightarrow> entry_ok st e" using same [OF n] by auto
  qed
qed

lemma with_mask_nil:
  assumes "grp_mask_list st u = remove1 m ms"
  shows "cut_mask u m (masks st m) (with_mask u m ms [] st) = st"
proof -
  have "(grp_mask_list st)(u := remove1 m ms) = grp_mask_list st" by (simp add: assms [symmetric])
  then show ?thesis by (simp add: cut_mask_def with_mask_def)
qed

lemma with_mask_same: "same_rps st st' \<Longrightarrow> same_rps (with_mask u m ms es st) (with_mask u m ms es st')"
  by (simp add: same_rps_def with_mask_def)

lemma with_mask_cut:
  assumes "rg_group (ents st e) = m"
  shows "with_mask u m ms es (unlink_rp_grp e st) = cut_entry e (with_mask u m ms (e # es) st)"
  using assms by (auto intro!: rp_state.equality grp_mask.equality ext simp: with_mask_def unlink_rp_grp_def cut_entry_def Let_def)

lemma with_mask_cut_cand: "with_mask u m ms es (cut_cand w c st) = cut_cand w c (with_mask u m ms es st)"
  by (simp add: with_mask_def cut_cand_def)

lemma unlink_rp_grp_fields [simp]:
  "ents (unlink_rp_grp e st) = ents st" "grps (unlink_rp_grp e st) = grps st" "grplist (unlink_rp_grp e st) = grplist st"
  "rp_fresh (unlink_rp_grp e st) = rp_fresh st" "cand_address (unlink_rp_grp e st) = cand_address st"
  "grp_mask_list (unlink_rp_grp e st) = grp_mask_list st" "cand_rp_list (unlink_rp_grp e st) = cand_rp_list st"
  "entries_of (unlink_rp_grp e st) = entries_of st" "same_data st (unlink_rp_grp e st)" "rp_crc (unlink_rp_grp e st) = rp_crc st"
  by (auto simp: unlink_rp_grp_def cand_address_def entries_of_def same_data_def fun_eq_iff Let_def)

lemma delete_entries_ok:
  assumes "rp_ok (with_mask u m ms es st)" and "m \<in> set ms" and "grp_mask_list st u = remove1 m ms" and "groups_ok (set es) st"
  shows "\<exists>fs st'. delete_entries uninit u es st = Some (fs, st') \<and> rp_ok st' \<and> groups_ok {} st' \<and> same_data st st' \<and>
    grp_mask_list st' = grp_mask_list st \<and> (\<forall>v. entries_of st' v = entries_of st v)"
  using assms
proof (induction es arbitrary: st)
  case Nil
  have "rp_ok st"
    using cut_mask_ok [OF Nil(1), of m u "masks st m"] Nil(2) by (simp add: with_mask_nil [OF Nil(3)])
  then show ?case using Nil(4) by (simp add: same_data_refl)
next
  case (Cons e es)
  note w = with_mask_entries [OF Cons(2-4)]
  have "insert e (set es) = set (e # es)" by simp
  then obtain fs s1 where r: "remap_groups uninit (grplink (ents st e)) st = Some (fs, s1)" "same_rps st s1" "chains_ok s1" "groups_ok (set es) s1"
    using remap_pending [OF w(3), of e "set es" uninit] Cons(5) w(2) [of Current] by auto
  have ok1: "rp_ok (with_mask u m ms (e # es) s1)"
    using same_rps_ok [OF Cons(2) with_mask_same [OF r(2)]] r(3) by (simp add: chains_ok_def)
  have me: "rg_group (ents s1 e) = m" "rg_rp (ents s1 e) \<in> set (cand_rp_list s1 u)"
    using mask_ok_entry [OF ok1, of m u e] Cons(3) by simp_all
  let ?c = "rg_rp (ents s1 e)"
  define s2 where "s2 = unlink_rp_grp e s1"
  have ok2: "rp_ok (with_mask u m ms es s2)"
    using cut_entry_ok [OF ok1, of m u e] Cons(3) by (simp add: s2_def with_mask_cut [OF me(1)])
  define s3 where "s3 = (if rp_grp_chain (cands s2 ?c) = [] then cut_cand u ?c s2 else s2)"
  have ok3: "rp_ok (with_mask u m ms es s3)"
    using ok2 cut_cand_ok [OF ok2, of ?c u] me(2) by (simp add: s3_def with_mask_cut_cand s2_def)
  have f: "grps s3 = grps s1" "grplist s3 = grplist s1" "rp_fresh s3 = rp_fresh s1" "ents s3 = ents s1" "cand_address s3 = cand_address s1"
    "entries_of s3 = entries_of s1" "grp_mask_list s3 = grp_mask_list s1"
    by (simp_all add: s2_def s3_def)
  have g3: "groups_ok (set es) s3" by (rule groups_move [OF r(4) f(1-5)]) (simp_all add: all_entries_def f(6))
  have gm: "grp_mask_list s3 = grp_mask_list st" using f(7) same_rps_fields [OF r(2)] by simp
  have d: "same_data st s3"
    using same_data_trans [OF same_rps_data [OF r(2)]] cut_data(3) [of s2 u ?c] same_data_trans [of s1 s2] unlink_rp_grp_fields(9) [of s1 e]
    by (auto simp: s3_def s2_def)
  obtain fs' st' where i: "delete_entries uninit u es s3 = Some (fs', st')" "rp_ok st'" "groups_ok {} st'" "same_data s3 st'"
    "grp_mask_list st' = grp_mask_list s3" "\<And>v. entries_of st' v = entries_of s3 v"
    using Cons(1) [OF ok3 Cons(3) _ g3] Cons(4) gm by auto
  have "delete_entries uninit u (e # es) st = Some (fs @ fs', st')"
    using r(1) i(1) by (auto simp: drop_rp_eq s2_def s3_def split: if_splits)
  then show ?case using i(2-6) same_data_trans [OF d i(4)] gm f(6) same_rps_entries [OF r(2)] by auto
qed

lemma delete_grp_mask_entry_ok:
  assumes "rp_ok st" and "groups_ok {} st" and "m \<in> set (grp_mask_list st u)"
  shows "\<exists>fs st'. delete_grp_mask_entry uninit u m st = Some (fs, st') \<and> rp_ok st' \<and> groups_ok {} st' \<and> same_data st st' \<and>
    grp_mask_list st' = (grp_mask_list st)(u := remove1 m (grp_mask_list st u)) \<and>
    (\<forall>v. entries_of st' v = entries_of st v - set (grp_rp_chain (masks st m)))"
proof -
  let ?es = "grp_rp_chain (masks st m)" and ?ms = "grp_mask_list st u"
  define s1 where "s1 = st\<lparr>grp_mask_list := (grp_mask_list st)(u := remove1 m ?ms)\<rparr>"
  have "(masks st m)\<lparr>grp_rp_chain := ?es, group_rp_number := of_nat (length ?es)\<rparr> = masks st m"
    using lists_okD(4) [OF assms(1,3)] by (intro grp_mask.equality) (simp_all add: mask_ok_def)
  then have w: "with_mask u m ?ms ?es s1 = st" by (simp add: with_mask_def s1_def fun_upd_triv)
  have l: "grp_mask_list s1 u = remove1 m ?ms" by (simp add: s1_def)
  note we = with_mask_entries [of u m ?ms ?es s1, unfolded w, OF assms(1,3) l]
  have f: "grps s1 = grps st" "grplist s1 = grplist st" "rp_fresh s1 = rp_fresh st" "ents s1 = ents st" "cand_address s1 = cand_address st"
    by (simp_all add: s1_def cand_address_def fun_eq_iff)
  have g: "groups_ok (set ?es) s1"
    by (rule groups_move [OF assms(2) f]) (use we(1) [of Current] we(1) [of Segmented] in \<open>cases u; auto simp: all_entries_def\<close>)+
  have d: "same_data st s1" by (simp add: s1_def same_data_def cand_address_def fun_eq_iff)
  obtain fs st' where r: "delete_entries uninit u ?es s1 = Some (fs, st')" "rp_ok st'" "groups_ok {} st'" "same_data s1 st'"
    "grp_mask_list st' = grp_mask_list s1" "\<And>v. entries_of st' v = entries_of s1 v"
    using delete_entries_ok [OF _ assms(3) l g, of uninit] w assms(1) by auto
  have "entries_of s1 v = entries_of st v - set ?es" for v
    using we(1,2) [of v] entries_disjoint [OF assms(1)] entries_ofI [OF assms(3)] by (cases "v = u") auto
  then have "\<forall>v. entries_of st' v = entries_of st v - set ?es" using r(6) by simp
  moreover have "delete_grp_mask_entry uninit u m st = Some (fs, st')"
    using r(1) by (simp add: delete_grp_mask_entry_def s1_def)
  ultimately show ?thesis using r(2,3) same_data_trans [OF d r(4)] r(5) by (auto simp: s1_def)
qed

lemma delete_grp_mask_ok:
  assumes "rp_ok st" and "groups_ok {} st"
  shows "\<exists>fs st'. delete_grp_mask s1 s2 uninit u addr gmask st = Some (fs, st') \<and> rp_ok st' \<and> groups_ok {} st' \<and> same_data st st' \<and>
    ((\<exists>m \<in> set (grp_mask_list st u). sin6_addr (group_addr (masks st m)) = sin6_addr addr \<and> group_mask (masks st m) = gmask \<and>
        grp_mask_list st' = (grp_mask_list st)(u := remove1 m (grp_mask_list st u)) \<and>
        (\<forall>v. entries_of st' v = entries_of st v - set (grp_rp_chain (masks st m)))) \<or>
     fs = [] \<and> st' = st \<and> (s1 = s2 \<longrightarrow> (\<forall>m \<in> set (grp_mask_list st u).
       sin6_addr (group_addr (masks st m)) = sin6_addr addr \<longrightarrow> group_mask (masks st m) \<noteq> gmask)))"
proof -
  let ?p = "prefix_of (sin6_addr addr) gmask"
  let ?b = "\<lambda>m. inet6_greaterthan ((mask_prefix st m)\<lparr>sin6_scope_id := s2\<rparr>) (?p\<lparr>sin6_scope_id := s1\<rparr>)"
  let ?f = "\<lambda>m. sin6_addr (group_addr (masks st m)) = sin6_addr addr \<and> group_mask (masks st m) = gmask"
  obtain as f bs where sc: "search_chain ?b ?f (grp_mask_list st u) = (as, f, bs)" by (cases "search_chain ?b ?f (grp_mask_list st u)")
  note sp = search_chain_split [OF sc]
  show ?thesis
  proof (cases f)
    case (Some m)
    then have m: "m \<in> set (grp_mask_list st u)" "?f m" using sp by auto
    then show ?thesis using delete_grp_mask_entry_ok [OF assms m(1), of uninit] sc Some by (fastforce simp: delete_grp_mask_def)
  next
    case None
    have "\<not> ?f n" if s: "s1 = s2" and n: "n \<in> set (grp_mask_list st u)" for n
    proof
      assume fn: "?f n"
      then have k: "mask_prefix st n = ?p" by (simp add: mask_prefix_def)
      have scope: "sin6_scope_id (mask_prefix st x) = 0" for x by (simp add: mask_prefix_def prefix_of_def)
      have b: "?b x \<longleftrightarrow> addr_key (mask_prefix st x) < addr_key ?p" for x
        using addr_key_greater [of "(mask_prefix st x)\<lparr>sin6_scope_id := s2\<rparr>" "?p\<lparr>sin6_scope_id := s1\<rparr>"] scope
        by (simp add: s in6_ok_def mask_prefix_def prefix_of_def addr_key_def in6_key_def less_prod_def)
      have "n \<notin> set as" using sp b [of n] k by auto
      then obtain y ys where bs: "bs = y # ys" "n \<in> set bs" "\<not> ?b y" "\<not> ?f y" using sp None n by (cases bs) auto
      have "sorted_wrt (\<lambda>a b. addr_key (mask_prefix st a) < addr_key (mask_prefix st b)) (as @ y # ys)"
        using lists_okD(2) [OF assms(1), of u] sp None bs(1) by simp
      then show False using bs b [of y] k fn by (auto simp: sorted_wrt_append)
    qed
    then show ?thesis using sc None assms by (auto simp: delete_grp_mask_def same_data_refl)
  qed
qed

lemma clear_group_fields [simp]:
  "ents (clear_group g st) = ents st" "cands (clear_group g st) = cands st" "masks (clear_group g st) = masks st"
  "grplist (clear_group g st) = grplist st" "cand_rp_list (clear_group g st) = cand_rp_list st"
  "grp_mask_list (clear_group g st) = grp_mask_list st" "rp_fresh (clear_group g st) = rp_fresh st" "rp_crc (clear_group g st) = rp_crc st"
  by (simp_all add: clear_group_def)

lemma clear_groups_fields [simp]:
  "ents (fold clear_group gs st) = ents st" "cands (fold clear_group gs st) = cands st" "masks (fold clear_group gs st) = masks st"
  "grplist (fold clear_group gs st) = grplist st" "cand_rp_list (fold clear_group gs st) = cand_rp_list st"
  "grp_mask_list (fold clear_group gs st) = grp_mask_list st" "rp_fresh (fold clear_group gs st) = rp_fresh st"
  "rp_crc (fold clear_group gs st) = rp_crc st"
  by (induction gs arbitrary: st) simp_all

lemma clear_groups_grps:
  "grps (fold clear_group gs st) g = (if g \<in> set gs then (grps st g)\<lparr>active_rp_grp := None,
     ge_rpaddr := \<lparr>sin6_addr = replicate 16 0, sin6_scope_id = 0\<rparr>\<rparr> else grps st g)"
  by (induction gs arbitrary: st) (auto simp: clear_group_def)

lemma clear_entries_eq: "fold clear_entry es st = fold clear_group (concat (map (\<lambda>e. grplink (ents st e)) es)) st"
  by (induction es arbitrary: st) (simp_all add: clear_entry_def)

lemma clear_rps_eq:
  "fold clear_rp cs st = fold clear_group (concat (map (\<lambda>e. grplink (ents st e)) (concat (map (\<lambda>c. rp_grp_chain (cands st c)) cs)))) st"
  by (induction cs arbitrary: st) (simp_all add: clear_rp_def clear_entries_eq)

lemma delete_rp_list_ok:
  assumes "rp_ok st" and "groups_ok {} st"
  shows "rp_ok (delete_rp_list u st)" "groups_ok {} (delete_rp_list u st)" "same_data st (delete_rp_list u st)"
    "entries_of (delete_rp_list u st) v = (if v = u then {} else entries_of st v)"
    "grp_mask_list (delete_rp_list u st) v = (if v = u then [] else grp_mask_list st v)"
proof -
  let ?st = "delete_rp_list u st"
  define gs where "gs = concat (map (\<lambda>e. grplink (ents st e)) (concat (map (\<lambda>c. rp_grp_chain (cands st c)) (cand_rp_list st u))))"
  have f: "ents ?st = ents st" "cands ?st = cands st" "masks ?st = masks st" "grplist ?st = grplist st" "rp_fresh ?st = rp_fresh st"
    "rp_crc ?st = rp_crc st" "cand_rp_list ?st = (cand_rp_list st)(u := [])" "grp_mask_list ?st = (grp_mask_list st)(u := [])"
    "cand_address ?st = cand_address st" "mask_prefix ?st = mask_prefix st"
    by (simp_all add: delete_rp_list_def clear_rps_eq cand_address_def mask_prefix_def fun_eq_iff)
  have g: "grps ?st g = (if g \<in> set gs then (grps st g)\<lparr>active_rp_grp := None,
     ge_rpaddr := \<lparr>sin6_addr = replicate 16 0, sin6_scope_id = 0\<rparr>\<rparr> else grps st g)" for g
    by (simp add: delete_rp_list_def clear_rps_eq clear_groups_grps gs_def)
  show ent: "entries_of ?st v = (if v = u then {} else entries_of st v)" for v by (simp add: entries_of_def f)
  show "grp_mask_list ?st v = (if v = u then [] else grp_mask_list st v)" by (simp add: f)
  show "same_data st ?st" by (simp add: same_data_def f)
  have key: "entry_key ?st = entry_key st" by (simp add: entry_key_def f fun_eq_iff)
  have "lists_ok ?st v" for v
  proof (cases "v = u")
    case True
    then show ?thesis by (simp add: lists_ok_def f)
  next
    case False
    then have "lists_ok ?st v = lists_ok st v" by (simp add: lists_ok_def mask_ok_def cand_ok_def key f)
    then show ?thesis using rp_ok_lists [OF assms(1)] by simp
  qed
  then show "rp_ok ?st" using assms(1) by (simp add: rp_ok_def f)
  have cs: "(\<Union>c \<in> set (cand_rp_list st u). set (rp_grp_chain (cands st c))) = entries_of st u"
    using cand_ok_chain(2) [OF assms(1), of _ u] mask_ok_entry(2) [OF assms(1)] by (auto simp: entries_of_def)
  have l: "links_ok (all_entries st) st" and cur: "\<And>g e. g \<in> set (grplist st) \<Longrightarrow> active_rp_grp (grps st g) = Some e \<Longrightarrow> e \<in> entries_of st Current"
    using assms(2) by (auto simp: groups_ok_def)
  have "e \<in> all_entries st" if "e \<in> entries_of st u" for e using that by (cases u) (auto simp: all_entries_def)
  then have gs: "set gs = {g \<in> set (grplist st). \<exists>e \<in> entries_of st u. active_rp_grp (grps st g) = Some e}"
    using links_at(2) [OF l] unfolding gs_def by (auto simp: cs [symmetric])
  have act: "active_rp_grp (grps ?st h) = Some e \<longleftrightarrow> active_rp_grp (grps st h) = Some e \<and> e \<notin> entries_of st u" if "h \<in> set (grplist st)" for h e
    using that by (auto simp: g gs)
  have all: "all_entries ?st = all_entries st - entries_of st u"
    unfolding all_entries_def ent using entries_disjoint [OF assms(1), of _ Current Segmented] by (cases u) auto
  have "links_ok (all_entries ?st) ?st"
  proof -
    have gg: "ge_group (grps ?st h) = ge_group (grps st h)" for h by (simp add: g)
    have ad: "ge_rpaddr (grps ?st h) = ge_rpaddr (grps st h)" if "active_rp_grp (grps ?st h) = Some e" for h e
      using that by (simp add: g split: if_splits)
    show ?thesis using l act unfolding links_ok_def f all gg by (auto simp: ad)
  qed
  then show "groups_ok {} ?st" using act cur unfolding groups_ok_def f(4) by (auto simp: ent)
qed

end
