(* ===== verification/RP_Change.thy ===== *)
theory RP_Change
  imports RP_Delete
begin

unbundle bit_operations_syntax

text \<open>
  The RP set under all its operations: adding an entry (\<^verbatim>\<open>add_rp_grp_entry\<close> of \<^verbatim>\<open>rp.c\<close>), deleting, and the creation and
  deletion of groups, as functions on the invariant, as changes of the set of offered RPs, and as a step relation whose
  reachable states are safe.
\<close>

section \<open>What the set says about an entry\<close>

record rp_info =
  i_prefix :: sockaddr_in6
  i_gmask :: in6_addr
  i_hmask :: in6_addr
  i_rp :: sockaddr_in6
  i_priority :: byte
  i_origin :: byte
  i_holdtime :: u16
  i_advholdtime :: u16
  i_tag :: u16

definition info :: "rp_state \<Rightarrow> nat \<Rightarrow> rp_info" where
  "info st e =
     (let ent = ents st e; m = rg_group ent
      in \<lparr>i_prefix = mask_prefix st m, i_gmask = group_mask (masks st m), i_hmask = hash_mask (masks st m),
          i_rp = cand_address st (rg_rp ent), i_priority = rg_priority ent, i_origin = rg_origin ent,
          i_holdtime = holdtime ent, i_advholdtime = advholdtime ent, i_tag = rg_fragment_tag ent\<rparr>)"

definition offer_of :: "rp_info \<Rightarrow> sockaddr_in6 \<times> sockaddr_in6 \<times> byte \<times> byte" where
  "offer_of i = (i_prefix i, i_rp i, i_priority i, i_origin i)"

definition mask_infos :: "rp_state \<Rightarrow> rp_lists \<Rightarrow> (sockaddr_in6 \<times> in6_addr \<times> in6_addr) set" where
  "mask_infos st u = (\<lambda>m. (mask_prefix st m, group_mask (masks st m), hash_mask (masks st m))) ` set (grp_mask_list st u)"

lemma info_cong:
  assumes "(ents st' e)\<lparr>grplink := []\<rparr> = (ents st e)\<lparr>grplink := []\<rparr>" and "cand_address st' (rg_rp (ents st e)) = cand_address st (rg_rp (ents st e))"
    and "mask_prefix st' (rg_group (ents st e)) = mask_prefix st (rg_group (ents st e))"
    and "group_mask (masks st' (rg_group (ents st e))) = group_mask (masks st (rg_group (ents st e)))"
    and "hash_mask (masks st' (rg_group (ents st e))) = hash_mask (masks st (rg_group (ents st e)))"
  shows "info st' e = info st e"
  using assms(2-5) arg_cong [OF assms(1), of rg_group] arg_cong [OF assms(1), of rg_rp] arg_cong [OF assms(1), of rg_priority]
    arg_cong [OF assms(1), of rg_origin] arg_cong [OF assms(1), of holdtime] arg_cong [OF assms(1), of advholdtime]
    arg_cong [OF assms(1), of rg_fragment_tag]
  by (simp add: info_def Let_def)

lemma same_data_info: "same_data st st' \<Longrightarrow> info st' = info st"
  by (intro ext info_cong) (simp_all add: same_data_fields, simp_all add: same_data_def)

lemma same_rps_info: "same_rps st st' \<Longrightarrow> info st' = info st" "same_rps st st' \<Longrightarrow> mask_infos st' u = mask_infos st u"
  using same_data_info [OF same_rps_data] by (auto simp: mask_infos_def same_rps_fields)

lemma all_entriesE:
  assumes "e \<in> all_entries st"
  obtains u where "e \<in> entries_of st u"
  using assms by (auto simp: all_entries_def)

lemma entries_all: "e \<in> entries_of st u \<Longrightarrow> e \<in> all_entries st"
  by (cases u) (auto simp: all_entries_def)

lemma entry_below:
  assumes "rp_ok st" and "e \<in> all_entries st"
  shows "e < rp_fresh st" "rg_rp (ents st e) < rp_fresh st" "rg_group (ents st e) < rp_fresh st"
proof -
  obtain u m where "m \<in> set (grp_mask_list st u)" "e \<in> set (grp_rp_chain (masks st m))"
    using assms(2) by (auto simp: all_entries_def entries_of_def)
  then show "e < rp_fresh st" "rg_rp (ents st e) < rp_fresh st" "rg_group (ents st e) < rp_fresh st"
    using mask_ok_entry [OF assms(1)] lists_okD(3,4) [OF assms(1)] by metis+
qed

text \<open>A step that changes neither the entries nor what is known of them.\<close>

definition keeps_rps :: "rp_state \<Rightarrow> rp_state \<Rightarrow> bool" where
  "keeps_rps st st' \<longleftrightarrow> rp_ok st' \<and> groups_ok {} st' \<and> rp_fresh st \<le> rp_fresh st' \<and>
     (\<forall>v. entries_of st' v = entries_of st v) \<and> (\<forall>e \<in> all_entries st. info st' e = info st e)"

lemma keeps_all: "keeps_rps st st' \<Longrightarrow> all_entries st' = all_entries st"
  by (simp add: keeps_rps_def all_entries_def)

lemma keeps_rps_trans: "keeps_rps a b \<Longrightarrow> keeps_rps b c \<Longrightarrow> keeps_rps a c"
  using keeps_all [of a b] by (auto simp: keeps_rps_def)

lemma keeps_refl: "rp_ok st \<Longrightarrow> groups_ok {} st \<Longrightarrow> keeps_rps st st"
  by (simp add: keeps_rps_def)

lemma keepsI:
  assumes "rp_ok st" and "groups_ok {} st" and "rp_ok st'" and "grps st' = grps st" and "grplist st' = grplist st" and "rp_fresh st \<le> rp_fresh st'"
    and "\<And>v. entries_of st' v = entries_of st v"
    and "\<And>e. e < rp_fresh st \<Longrightarrow> ents st' e = ents st e"
    and "\<And>c. c < rp_fresh st \<Longrightarrow> cand_address st' c = cand_address st c"
    and "\<And>m. m < rp_fresh st \<Longrightarrow> mask_prefix st' m = mask_prefix st m \<and> group_mask (masks st' m) = group_mask (masks st m) \<and>
      hash_mask (masks st' m) = hash_mask (masks st m)"
  shows "keeps_rps st st'"
proof -
  have a: "all_entries st' = all_entries st" by (simp add: all_entries_def assms(7))
  note b = entry_below [OF assms(1)]
  have "groups_ok {} st'"
    by (rule groups_keep [OF assms(2,4,5,6)]) (use b assms(8,9) in \<open>auto simp: a assms(7)\<close>)
  moreover have "info st' e = info st e" if "e \<in> all_entries st" for e
    by (rule info_cong) (use b [OF that] assms(8-10) in auto)
  ultimately show ?thesis using assms(3,6,7) by (simp add: keeps_rps_def)
qed

lemma sorted_key_inj:
  fixes key :: "'a \<Rightarrow> 'k :: order"
  shows "sorted_wrt (\<lambda>a b. key a < key b) xs \<Longrightarrow> a \<in> set xs \<Longrightarrow> b \<in> set xs \<Longrightarrow> key a = key b \<Longrightarrow> a = b"
proof (induction xs)
  case (Cons x xs)
  then show ?case by (cases "a = x"; cases "b = x") fastforce+
qed simp

lemma add_grp_mask_keeps:
  assumes "rp_ok st" and "groups_ok {} st" and "add_grp_mask u grp gmask hmask st = (m, st')"
  shows "keeps_rps st st'" "m \<in> set (grp_mask_list st' u)" "mask_prefix st' m = prefix_of (sin6_addr grp) gmask"
    "cand_rp_list st' = cand_rp_list st"
    "\<exists>gm hm. (\<forall>v. mask_infos st' v = mask_infos st v \<union> (if v = u then {(prefix_of (sin6_addr grp) gmask, gm, hm)} else {})) \<and>
       group_mask (masks st' m) = gm \<and> hash_mask (masks st' m) = hm \<and>
       ((prefix_of (sin6_addr grp) gmask, gm, hm) \<in> mask_infos st u \<or>
        prefix_of (sin6_addr grp) gmask \<notin> fst ` mask_infos st u \<and> gm = gmask \<and> hm = hmask)"
proof -
  let ?p = "prefix_of (sin6_addr grp) gmask"
  note a = add_grp_mask_ok [OF assms(1,3)]
  show "mask_prefix st' m = ?p" by (rule a(2))
  let ?gm = "\<lparr>grp_rp_chain = [], group_addr = grp, group_mask = gmask, hash_mask = hmask, gm_fragment_tag = 0, group_rp_number = 0\<rparr>"
  have below: "n < rp_fresh st" if "n \<in> set (grp_mask_list st v)" for n v using lists_okD(4) [OF assms(1) that] by simp
  from a(3) have "keeps_rps st st' \<and> m \<in> set (grp_mask_list st' u) \<and> cand_rp_list st' = cand_rp_list st \<and>
    (\<exists>gm hm. (\<forall>v. mask_infos st' v = mask_infos st v \<union> (if v = u then {(?p, gm, hm)} else {})) \<and>
       group_mask (masks st' m) = gm \<and> hash_mask (masks st' m) = hm \<and>
       ((?p, gm, hm) \<in> mask_infos st u \<or> ?p \<notin> fst ` mask_infos st u \<and> gm = gmask \<and> hm = hmask))"
  proof (elim disjE conjE exE)
    assume m: "m \<in> set (grp_mask_list st u)" and st': "st' = st"
    have i: "(?p, group_mask (masks st m), hash_mask (masks st m)) \<in> mask_infos st u"
      using m a(2) by (force simp: mask_infos_def st')
    then have "mask_infos st' v = mask_infos st v \<union> (if v = u then {(?p, group_mask (masks st m), hash_mask (masks st m))} else {})" for v
      by (auto simp: st')
    then show ?thesis using i m keeps_refl [OF assms(1,2)] by (auto simp: st')
  next
    fix as bs assume l: "grp_mask_list st u = as @ bs" and m: "m = rp_fresh st" and st': "st' = new_mask u as bs ?gm st"
    have ml: "set (grp_mask_list st' v) = set (grp_mask_list st v) \<union> (if v = u then {rp_fresh st} else {})" for v
      using l by (auto simp: st' new_mask_def)
    have mk: "masks st' n = (if n = rp_fresh st then ?gm else masks st n)" for n by (simp add: st' new_mask_def)
    have pf: "mask_prefix st' n = (if n = rp_fresh st then ?p else mask_prefix st n)" for n by (simp add: mask_prefix_def mk)
    have sm: "masks st' n = masks st n" if "n \<in> set (grp_mask_list st v)" for n v using below [OF that] by (simp add: mk)
    have e: "entries_of st' v = entries_of st v" for v
    proof -
      have "(\<Union>n \<in> set (grp_mask_list st v). set (grp_rp_chain (masks st' n))) = entries_of st v"
        unfolding entries_of_def using sm [of _ v] by simp
      then show ?thesis unfolding entries_of_def [of st'] ml by (simp add: mk)
    qed
    have k: "keeps_rps st st'"
      by (rule keepsI [OF assms(1,2) a(1)]) (simp_all add: e mk pf, simp_all add: st' new_mask_def cand_address_def)
    have mi: "mask_infos st' v = mask_infos st v \<union> (if v = u then {(?p, gmask, hmask)} else {})" for v
    proof -
      have "(\<lambda>m. (mask_prefix st' m, group_mask (masks st' m), hash_mask (masks st' m))) ` set (grp_mask_list st v) = mask_infos st v"
        unfolding mask_infos_def using below [of _ v] by (intro image_cong) (auto simp: mk pf)
      then show ?thesis unfolding mask_infos_def [of st'] ml image_Un
        by (cases "v = u") (simp_all add: mk [of "rp_fresh st"] pf [of "rp_fresh st"])
    qed
    have "?p \<notin> fst ` mask_infos st u"
    proof
      assume "?p \<in> fst ` mask_infos st u"
      then obtain n where n: "n \<in> set (grp_mask_list st u)" "mask_prefix st n = ?p" by (auto simp: mask_infos_def)
      then have "n \<in> set (grp_mask_list st' u)" "rp_fresh st \<in> set (grp_mask_list st' u)" "mask_prefix st' n = mask_prefix st' (rp_fresh st)"
        using ml [of u] below [OF n(1)] by (auto simp: pf)
      then have "n = rp_fresh st" by (intro sorted_key_inj [OF lists_okD(2) [OF a(1), of u]]) simp_all
      then show False using below [OF n(1)] by simp
    qed
    then show ?thesis using k mi ml [of u] by (auto simp: m mk, simp_all add: st' new_mask_def)
  qed
  then show "keeps_rps st st'" "m \<in> set (grp_mask_list st' u)" "cand_rp_list st' = cand_rp_list st"
    "\<exists>gm hm. (\<forall>v. mask_infos st' v = mask_infos st v \<union> (if v = u then {(?p, gm, hm)} else {})) \<and>
       group_mask (masks st' m) = gm \<and> hash_mask (masks st' m) = hm \<and>
       ((?p, gm, hm) \<in> mask_infos st u \<or> ?p \<notin> fst ` mask_infos st u \<and> gm = gmask \<and> hm = hmask)" by blast+
qed

text \<open>The timer of the RP and the tag of the prefix are set.\<close>

definition touch :: "nat \<Rightarrow> nat \<Rightarrow> u16 \<Rightarrow> u16 \<Rightarrow> rp_state \<Rightarrow> rp_state" where
  "touch m c hold tag st =
     st\<lparr>cands := (cands st)(c := (cands st c)\<lparr>rpentry_of := (rpentry_of (cands st c))\<lparr>rp_timer := hold\<rparr>\<rparr>),
        masks := (masks st)(m := (masks st m)\<lparr>gm_fragment_tag := tag\<rparr>)\<rparr>"

lemma touch_simps:
  "cand_address (touch m c hold tag st) = cand_address st" "mask_prefix (touch m c hold tag st) = mask_prefix st"
  "rp_grp_chain (cands (touch m c hold tag st) c') = rp_grp_chain (cands st c')"
  "grp_rp_chain (masks (touch m c hold tag st) m') = grp_rp_chain (masks st m')"
  "group_rp_number (masks (touch m c hold tag st) m') = group_rp_number (masks st m')"
  "ents (touch m c hold tag st) = ents st" "cand_rp_list (touch m c hold tag st) = cand_rp_list st"
  "grp_mask_list (touch m c hold tag st) = grp_mask_list st" "rp_fresh (touch m c hold tag st) = rp_fresh st"
  "rp_crc (touch m c hold tag st) = rp_crc st"
  by (auto simp: touch_def cand_address_def mask_prefix_def)

lemma touch_ok: "rp_ok st \<Longrightarrow> rp_ok (touch m c hold tag st)"
  by (rule rp_ok_frame [of st]) (simp_all add: touch_simps rp_ok_def)

lemma add_cand_rp_keeps:
  assumes "rp_ok st" and "groups_ok {} st" and "in6_ok addr" and "add_cand_rp route reg u addr st = (c, st')"
  shows "keeps_rps st st'" "c \<in> set (cand_rp_list st' u)" "cand_address st' c = addr" "grp_mask_list st' = grp_mask_list st" "masks st' = masks st"
proof -
  note a = add_cand_rp_ok [OF assms(1,3,4)]
  show "cand_address st' c = addr" by (rule a(2))
  from a(3) have "keeps_rps st st' \<and> c \<in> set (cand_rp_list st' u) \<and> grp_mask_list st' = grp_mask_list st \<and> masks st' = masks st"
  proof (elim disjE conjE exE)
    fix as bs r assume "cand_rp_list st u = as @ bs" "c = rp_fresh st" and st': "st' = new_cand u as bs r st"
    moreover have "keeps_rps st st'"
      by (rule keepsI [OF assms(1,2) a(1)]) (simp_all add: st' new_cand_def cand_address_def mask_prefix_def entries_of_def)
    ultimately show ?thesis by (simp add: new_cand_def)
  qed (use keeps_refl [OF assms(1,2)] in simp)
  then show "keeps_rps st st'" "c \<in> set (cand_rp_list st' u)" "grp_mask_list st' = grp_mask_list st" "masks st' = masks st" by blast+
qed

lemma touch_keeps:
  assumes "rp_ok st" and "groups_ok {} st"
  shows "keeps_rps st (touch m c hold tag st)"
  by (rule keepsI [OF assms touch_ok [OF assms(1)]]) (simp_all add: touch_simps entries_of_def, simp_all add: touch_def)

text \<open>Remapping the groups of entries that are in the lists.\<close>

lemma remap_chain_groups:
  assumes "rp_ok st" and "groups_ok {} st" and "set es \<subseteq> all_entries st"
  shows "\<exists>fs st'. remap_chain uninit pri org es st = Some (fs, st') \<and> same_rps st st' \<and> rp_ok st' \<and> groups_ok {} st'"
  using assms
proof (induction es arbitrary: st)
  case (Cons e es)
  let ?gs = "grplink (ents st e)"
  have l: "links_ok (all_entries st) st" using Cons(3) by (simp add: groups_ok_def)
  have sub: "entries_of st Current \<subseteq> all_entries st" by (auto simp: all_entries_def)
  obtain fs s1 where 1: "remap_groups uninit ?gs st = Some (fs, s1)" "same_rps st s1" "chains_ok s1" "links_ok (all_entries st) s1"
    "set (grplist s1) \<subseteq> set (grplist st)"
    "\<And>h f. h \<in> set (grplist s1) \<Longrightarrow> active_rp_grp (grps s1 h) = Some f \<Longrightarrow>
       h \<notin> set ?gs \<and> active_rp_grp (grps st h) = Some f \<or> f \<in> entries_of st Current"
    using remap_groups_links [OF rp_ok_chains [OF Cons(2)] l sub, of ?gs uninit] links_at [OF l, of e] Cons(4) by auto
  note en = same_rps_entries [OF 1(2)]
  have a: "all_entries s1 = all_entries st" by (simp add: all_entries_def en)
  have "f \<in> entries_of s1 Current" if "h \<in> set (grplist s1)" "active_rp_grp (grps s1 h) = Some f" for h f
    using 1(6) [OF that] 1(5) that(1) Cons(3) by (auto simp: groups_ok_def en)
  then have g1: "groups_ok {} s1" using 1(4) by (simp add: groups_ok_def a)
  have ok1: "rp_ok s1" using rp_ok_same [OF Cons(2) 1(2,3)] .
  obtain fs' st' where 2: "remap_chain uninit pri org es s1 = Some (fs', st')" "same_rps s1 st'" "rp_ok st'" "groups_ok {} st'"
    using Cons(1) [OF ok1 g1] Cons(4) a by auto
  show ?case using 1(1) 2 same_rps_trans [OF 1(2) 2(2)] Cons(2,3) same_rps_refl by auto
qed (simp add: same_rps_refl)

text \<open>A new entry.\<close>

lemma new_entry_groups:
  assumes "rp_ok st" and "groups_ok {} st" and "m \<in> set (grp_mask_list st u)" and "grp_rp_chain (masks st m) = as @ bs"
    and "grplink ent = []"
  shows "groups_ok {} (new_entry m c as bs ent st)"
    "entries_of (new_entry m c as bs ent st) v = entries_of st v \<union> (if v = u then {rp_fresh st} else {})"
    "\<And>e. e \<in> all_entries st \<Longrightarrow> info (new_entry m c as bs ent st) e = info st e"
proof -
  let ?st = "new_entry m c as bs ent st" and ?e = "rp_fresh st"
  note b = entry_below [OF assms(1)]
  show ent: "entries_of ?st v = entries_of st v \<union> (if v = u then {?e} else {})" for v
  proof (cases "v = u")
    case True
    have "set (grp_rp_chain (masks ?st n)) = set (grp_rp_chain (masks st n)) \<union> (if n = m then {?e} else {})" for n
      using assms(4) by (auto simp: new_entry_simps)
    then show ?thesis using True assms(3) by (auto simp: entries_of_def new_entry_simps(4) split: if_splits)
  next
    case False
    then have "m \<notin> set (grp_mask_list st v)" using rp_ok_disjoint(2) [OF assms(1,3), of v] by blast
    then show ?thesis using False by (auto simp: entries_of_def new_entry_simps split: if_splits)
  qed
  have all: "all_entries ?st = insert ?e (all_entries st)" by (cases u) (auto simp: all_entries_def ent)
  have g: "grps ?st = grps st" "grplist ?st = grplist st" by (simp_all add: new_entry_def)
  have cur: "e \<in> entries_of st Current" if "h \<in> set (grplist st)" "active_rp_grp (grps st h) = Some e" for h e
    using assms(2) that by (auto simp: groups_ok_def)
  have l: "links_ok (all_entries st) ?st"
    by (rule links_frame [OF _ g]) (use assms(2) b in \<open>auto simp: groups_ok_def new_entry_simps\<close>)
  have "{h \<in> set (grplist ?st). active_rp_grp (grps ?st h) = Some ?e} = {}"
    using cur b(1) entries_all [of _ st Current] by (fastforce simp: g)
  then have "links_ok (all_entries ?st) ?st"
    using l assms(5) unfolding links_ok_def all by (auto simp: new_entry_simps)
  then show "groups_ok {} ?st" using cur by (auto simp: groups_ok_def ent g)
  show "info ?st e = info st e" if "e \<in> all_entries st" for e
    by (rule info_cong) (use b [OF that] in \<open>simp_all add: new_entry_simps, simp_all add: new_entry_def\<close>)
qed

text \<open>
  The second half of \<^verbatim>\<open>add_rp_grp_entry\<close>: the entry for the prefix \<^verbatim>\<open>m\<close> and the RP \<^verbatim>\<open>c\<close> is refreshed, or a new one is linked
  and the groups of the prefix are remapped.
\<close>

lemma link_rp_grp_entry_ok:
  assumes "rp_ok st" and "groups_ok {} st" and "m \<in> set (grp_mask_list st u)" and "c \<in> set (cand_rp_list st u)"
    and "cand_address st c = addr" and "in6_ok addr" and "org < 2"
  shows "\<exists>e fs st'. link_rp_grp_entry uninit m c addr pri org hold tag st = Some (Some e, fs, st') \<and> rp_ok st' \<and> groups_ok {} st' \<and>
    rp_fresh st \<le> rp_fresh st' \<and> (\<forall>v. entries_of st' v = entries_of st v \<union> (if v = u then {e} else {})) \<and>
    (\<forall>v. mask_infos st' v = mask_infos st v) \<and> (\<forall>f \<in> all_entries st - {e}. info st' f = info st f) \<and>
    info st' e = \<lparr>i_prefix = mask_prefix st m, i_gmask = group_mask (masks st m), i_hmask = hash_mask (masks st m), i_rp = addr,
      i_priority = pri, i_origin = org, i_holdtime = hold, i_advholdtime = hold, i_tag = tag\<rparr> \<and>
    (e \<in> all_entries st \<longrightarrow> offer_of (info st e) = offer_of (info st' e)) \<and>
    rg_group (ents st' e) = m \<and> grp_mask_list st' = grp_mask_list st \<and> (\<forall>n. gm_fragment_tag (masks st' n) = gm_fragment_tag (masks st n) \<and> mask_prefix st' n = mask_prefix st n)"
proof -
  let ?chain = "grp_rp_chain (masks st m)"
  let ?before = "entry_before st pri org addr" and ?found = "entry_found st pri org addr"
  let ?k = "(uint pri, uint org, addr_key addr)"
  let ?oldp = "case ?chain of [] \<Rightarrow> NOT 0 | e # _ \<Rightarrow> rg_priority (ents st e)"
  let ?oldo = "case ?chain of [] \<Rightarrow> NOT 0 | e # _ \<Rightarrow> rg_origin (ents st e)"
  obtain as f bs where sc: "search_chain ?before ?found ?chain = (as, f, bs)" by (cases "search_chain ?before ?found ?chain")
  have so: "sorted_wrt (\<lambda>a b. entry_key st a < entry_key st b) ?chain"
    and ok: "x \<in> set ?chain \<Longrightarrow> in6_ok (cand_address st (rg_rp (ents st x)))" for x
    using lists_okD(4) [OF assms(1,3)] entries_ok [OF rp_ok_lists [OF assms(1)] assms(3)] by (auto simp: mask_ok_def entry_ok_def)
  note o = search_chain_ordered [OF sc so entry_before_key [OF ok assms(6), of _ pri org]]
  show ?thesis
  proof (cases f)
    case (Some e)
    define st' where "st' = st\<lparr>ents := (ents st)(e := (ents st e)\<lparr>holdtime := hold, advholdtime := hold, rg_fragment_tag := tag\<rparr>)\<rparr>"
    have e: "e \<in> set ?chain" using o(1) Some by simp
    note me = mask_ok_entry [OF assms(1,3) e]
    have "entry_key st e = ?k" using o(4) [of e] Some by simp
    then have k: "rg_priority (ents st e) = pri" "rg_origin (ents st e) = org" "cand_address st (rg_rp (ents st e)) = addr"
      using addr_key_eq [OF ok [OF e] assms(6)] by (simp_all add: entry_key_def word_uint_eq_iff)
    have r: "rp_ok st'" using assms(1) by (rule rp_ok_frame) (use assms(1) in \<open>simp_all add: st'_def rp_ok_def cand_address_def mask_prefix_def\<close>)
    have en: "entries_of st' v = entries_of st v" for v by (simp add: st'_def entries_of_def)
    have g: "groups_ok {} st'"
      by (rule groups_keep [OF assms(2)]) (simp_all add: en all_entries_def, simp_all add: st'_def cand_address_def)
    have i: "info st' x = info st x" if "x \<noteq> e" for x
      by (rule info_cong) (use that in \<open>simp_all add: st'_def cand_address_def mask_prefix_def\<close>)
    have "info st' e = \<lparr>i_prefix = mask_prefix st m, i_gmask = group_mask (masks st m), i_hmask = hash_mask (masks st m), i_rp = addr,
      i_priority = pri, i_origin = org, i_holdtime = hold, i_advholdtime = hold, i_tag = tag\<rparr>"
      using me(1) k by (simp add: st'_def info_def cand_address_def mask_prefix_def)
    moreover have "link_rp_grp_entry uninit m c addr pri org hold tag st = Some (Some e, [], st')"
      unfolding link_rp_grp_entry_def Let_def sc st'_def using Some by simp
    moreover have "mask_infos st' v = mask_infos st v" for v by (simp add: st'_def mask_infos_def mask_prefix_def)
    moreover have "entries_of st' v = entries_of st v \<union> (if v = u then {e} else {})" for v
      using entries_ofI [OF assms(3) e] by (auto simp: en)
    moreover have "rp_fresh st \<le> rp_fresh st'" by (simp add: st'_def)
    moreover have "offer_of (info st e) = offer_of (info st' e)"
      by (simp add: st'_def offer_of_def info_def Let_def cand_address_def mask_prefix_def)
    moreover have "rg_group (ents st' e) = m" "grp_mask_list st' = grp_mask_list st"
      "gm_fragment_tag (masks st' n) = gm_fragment_tag (masks st n) \<and> mask_prefix st' n = mask_prefix st n" for n
      using me(1) by (simp_all add: st'_def mask_prefix_def)
    ultimately show ?thesis using r g i by blast
  next
    case None
    let ?ent = "\<lparr>grplink = [], advholdtime = hold, holdtime = hold, rg_fragment_tag = tag, rg_priority = pri,
                                rg_origin = org, rg_group = m, rg_rp = c\<rparr>"
    let ?e = "rp_fresh st"
    define s1 where "s1 = new_entry m c as bs ?ent st"
    have l: "?chain = as @ bs" using o(1) None by simp
    have ok1: "rp_ok s1" unfolding s1_def
      by (rule new_entry_ok [OF assms(1,3,4) l, where k = ?k]) (use assms(5,7) o(2,3) in simp_all)
    have gl: "grplink ?ent = []" by simp
    note ne = new_entry_groups [OF assms(1-3) l gl, where c = c]
    have mi: "mask_infos s1 v = mask_infos st v" for v
      by (auto simp: s1_def mask_infos_def new_entry_simps) (auto simp: new_entry_def)
    have i: "info s1 ?e = \<lparr>i_prefix = mask_prefix st m, i_gmask = group_mask (masks st m), i_hmask = hash_mask (masks st m), i_rp = addr,
      i_priority = pri, i_origin = org, i_holdtime = hold, i_advholdtime = hold, i_tag = tag\<rparr>"
      using assms(5) by (simp add: s1_def info_def new_entry_simps) (simp add: new_entry_def)
    have below: "x \<noteq> ?e" if "x \<in> all_entries st" for x using entry_below(1) [OF assms(1) that] by simp
    have chain: "set (as @ ?e # bs) \<subseteq> all_entries s1"
    proof -
      have "m \<in> set (grp_mask_list s1 u)" "grp_rp_chain (masks s1 m) = as @ ?e # bs" using assms(3) by (simp_all add: s1_def new_entry_simps)
      then show ?thesis using entries_all entries_ofI by (metis subsetI)
    qed
    obtain fs s2 where r: "remap_chain uninit ?oldp ?oldo (as @ ?e # bs) s1 = Some (fs, s2)" "same_rps s1 s2" "rp_ok s2" "groups_ok {} s2"
      using remap_chain_groups [OF ok1 _ chain, of uninit ?oldp ?oldo] ne(1) unfolding s1_def by blast
    have fin: "rp_fresh st \<le> rp_fresh s \<and> (\<forall>v. entries_of s v = entries_of st v \<union> (if v = u then {?e} else {})) \<and>
      (\<forall>v. mask_infos s v = mask_infos st v) \<and> (\<forall>f \<in> all_entries st - {?e}. info s f = info st f) \<and> info s ?e = info s1 ?e \<and>
      rg_group (ents s ?e) = m \<and> grp_mask_list s = grp_mask_list st \<and>
      (\<forall>n. gm_fragment_tag (masks s n) = gm_fragment_tag (masks st n) \<and> mask_prefix s n = mask_prefix st n)"
      if "same_rps s1 s" for s
    proof -
      have x: "rg_group (ents s ?e) = m" "grp_mask_list s = grp_mask_list st"
        "gm_fragment_tag (masks s n) = gm_fragment_tag (masks st n) \<and> mask_prefix s n = mask_prefix st n" for n
        using same_rps_fields [OF that] by (simp_all add: s1_def new_entry_def mask_prefix_def)
      have "rp_fresh s = Suc (rp_fresh st)" using that by (simp add: same_rps_def s1_def new_entry_simps)
      then show ?thesis using same_rps_entries [OF that] same_rps_info [OF that] ne(2,3) mi x unfolding s1_def [symmetric] by simp
    qed
    have "link_rp_grp_entry uninit m c addr pri org hold tag st =
      (if rg_priority (ents s1 (hd (as @ ?e # bs))) = pri \<or> rg_origin (ents s1 (hd (as @ ?e # bs))) = org
       then do { (fs, st) \<leftarrow> remap_chain uninit ?oldp ?oldo (as @ ?e # bs) s1; Some (Some ?e, fs, st) } else Some (Some ?e, [], s1))"
      unfolding link_rp_grp_entry_def Let_def sc s1_def new_entry_def using None by simp
    then have "link_rp_grp_entry uninit m c addr pri org hold tag st = Some (Some ?e, fs, s2) \<or>
      link_rp_grp_entry uninit m c addr pri org hold tag st = Some (Some ?e, [], s1)" using r(1) by simp
    then show ?thesis
      using fin [OF r(2)] fin [OF same_rps_refl] r(3,4) ok1 ne(1) i below unfolding s1_def [symmetric] by metis
  qed
qed

lemma add_rp_grp_entry_more:
  assumes "rp_ok st" and "groups_ok {} st" and "in6_ok rp_addr" and "org < 2"
    and "inet6_valid_host rp_addr" and "IN6_IS_ADDR_MULTICAST (sin6_addr grp)"
  shows "\<exists>e fs st' gm hm. add_rp_grp_entry uninit route reg u rp_addr pri org hold grp gmask hmask tag st = Some (Some e, fs, st') \<and>
    rp_ok st' \<and> groups_ok {} st' \<and> (\<forall>v. entries_of st' v = entries_of st v \<union> (if v = u then {e} else {})) \<and>
    (\<forall>f \<in> all_entries st - {e}. info st' f = info st f) \<and>
    info st' e = \<lparr>i_prefix = prefix_of (sin6_addr grp) gmask, i_gmask = gm, i_hmask = hm, i_rp = rp_addr,
      i_priority = pri, i_origin = org, i_holdtime = hold, i_advholdtime = hold, i_tag = tag\<rparr> \<and>
    (\<forall>v. mask_infos st' v = mask_infos st v \<union> (if v = u then {(prefix_of (sin6_addr grp) gmask, gm, hm)} else {})) \<and>
    ((prefix_of (sin6_addr grp) gmask, gm, hm) \<in> mask_infos st u \<or>
       prefix_of (sin6_addr grp) gmask \<notin> fst ` mask_infos st u \<and> gm = gmask \<and> hm = hmask) \<and>
    (e \<in> all_entries st \<longrightarrow> offer_of (info st e) = offer_of (info st' e)) \<and>
    (\<forall>v. set (grp_mask_list st' v) = set (grp_mask_list st v) \<union> (if v = u then {rg_group (ents st' e)} else {})) \<and>
    (\<forall>n. gm_fragment_tag (masks st' n) = (if n = rg_group (ents st' e) then tag else gm_fragment_tag (masks st n))) \<and>
    (\<forall>n. n \<noteq> rg_group (ents st' e) \<longrightarrow> mask_prefix st' n = mask_prefix st n)"
proof -
  let ?p = "prefix_of (sin6_addr grp) gmask"
  obtain m s1 where 1: "add_grp_mask u grp gmask hmask st = (m, s1)" by (cases "add_grp_mask u grp gmask hmask st")
  note a = add_grp_mask_keeps [OF assms(1,2) 1]
  have g1: "rp_ok s1" "groups_ok {} s1" using a(1) by (simp_all add: keeps_rps_def)
  obtain c s2 where 2: "add_cand_rp route reg u rp_addr s1 = (c, s2)" by (cases "add_cand_rp route reg u rp_addr s1")
  note b = add_cand_rp_keeps [OF g1 assms(3) 2]
  have g2: "rp_ok s2" "groups_ok {} s2" using b(1) by (simp_all add: keeps_rps_def)
  define s3 where "s3 = touch m c hold tag s2"
  have k: "keeps_rps st s3" unfolding s3_def by (rule keeps_rps_trans [OF a(1) keeps_rps_trans [OF b(1) touch_keeps [OF g2]]])
  have m3: "m \<in> set (grp_mask_list s3 u)" "c \<in> set (cand_rp_list s3 u)" "cand_address s3 c = rp_addr" "mask_prefix s3 m = ?p"
    using a(2,3) b(2-5) by (simp_all add: s3_def touch_simps mask_prefix_def)
  have mm: "group_mask (masks s3 n) = group_mask (masks s1 n)" "hash_mask (masks s3 n) = hash_mask (masks s1 n)" "mask_prefix s3 n = mask_prefix s1 n"
    "grp_mask_list s3 = grp_mask_list s1" for n
    using b(4,5) by (auto simp: s3_def touch_def mask_prefix_def)
  then have mi: "mask_infos s3 v = mask_infos s1 v" for v by (simp add: mask_infos_def)
  obtain gm hm where gh: "\<And>v. mask_infos s1 v = mask_infos st v \<union> (if v = u then {(?p, gm, hm)} else {})"
    "group_mask (masks s1 m) = gm" "hash_mask (masks s1 m) = hm"
    "(?p, gm, hm) \<in> mask_infos st u \<or> ?p \<notin> fst ` mask_infos st u \<and> gm = gmask \<and> hm = hmask"
    using a(5) by blast
  have g3: "rp_ok s3" "groups_ok {} s3" and en: "\<And>v. entries_of s3 v = entries_of st v" and inf: "\<And>e. e \<in> all_entries st \<Longrightarrow> info s3 e = info st e"
    using k by (simp_all add: keeps_rps_def)
  have all: "all_entries s3 = all_entries st" by (rule keeps_all [OF k])
  obtain e fs st' where l: "link_rp_grp_entry uninit m c rp_addr pri org hold tag s3 = Some (Some e, fs, st')" "rp_ok st'" "groups_ok {} st'"
    "\<And>v. entries_of st' v = entries_of s3 v \<union> (if v = u then {e} else {})" "\<And>v. mask_infos st' v = mask_infos s3 v"
    "\<And>f. f \<in> all_entries s3 - {e} \<Longrightarrow> info st' f = info s3 f"
    "info st' e = \<lparr>i_prefix = ?p, i_gmask = gm, i_hmask = hm, i_rp = rp_addr,
      i_priority = pri, i_origin = org, i_holdtime = hold, i_advholdtime = hold, i_tag = tag\<rparr>"
    "e \<in> all_entries s3 \<Longrightarrow> offer_of (info s3 e) = offer_of (info st' e)"
    "rg_group (ents st' e) = m" "grp_mask_list st' = grp_mask_list s3" "\<And>n. gm_fragment_tag (masks st' n) = gm_fragment_tag (masks s3 n) \<and> mask_prefix st' n = mask_prefix s3 n"
    using link_rp_grp_entry_ok [OF g3 m3(1-3) assms(3,4), of uninit pri hold tag] unfolding m3(4) mm(1,2) gh(2,3) by blast
  have "add_rp_grp_entry uninit route reg u rp_addr pri org hold grp gmask hmask tag st = Some (Some e, fs, st')"
    using assms(5,6) l(1) by (simp add: add_rp_grp_entry_def 1 2 s3_def touch_def)
  moreover have "\<forall>v. entries_of st' v = entries_of st v \<union> (if v = u then {e} else {})" using l(4) en by simp
  moreover have "\<forall>f \<in> all_entries st - {e}. info st' f = info st f" using l(6) inf all by simp
  moreover have "\<forall>v. mask_infos st' v = mask_infos st v \<union> (if v = u then {(?p, gm, hm)} else {})" using l(5) mi gh(1) by simp
  moreover have "e \<in> all_entries st \<longrightarrow> offer_of (info st e) = offer_of (info st' e)" using l(8) inf all by simp
  moreover have "\<forall>v. set (grp_mask_list st' v) = set (grp_mask_list st v) \<union> (if v = u then {rg_group (ents st' e)} else {})"
    "\<forall>n. gm_fragment_tag (masks st' n) = (if n = rg_group (ents st' e) then tag else gm_fragment_tag (masks st n))"
    "\<forall>n. n \<noteq> rg_group (ents st' e) \<longrightarrow> mask_prefix st' n = mask_prefix st n"
    using add_grp_mask_ok(3) [OF assms(1) 1] l(9-11) mm(3,4) b(5) by (auto simp: new_mask_def s3_def touch_def mask_prefix_def)
  ultimately show ?thesis using l(2,3,7) gh(4) by blast
qed

lemma add_rp_grp_entry_full:
  assumes "rp_ok st" and "groups_ok {} st" and "in6_ok rp_addr" and "org < 2"
    and "inet6_valid_host rp_addr" and "IN6_IS_ADDR_MULTICAST (sin6_addr grp)"
  shows "\<exists>e fs st' gm hm. add_rp_grp_entry uninit route reg u rp_addr pri org hold grp gmask hmask tag st = Some (Some e, fs, st') \<and>
    rp_ok st' \<and> groups_ok {} st' \<and> (\<forall>v. entries_of st' v = entries_of st v \<union> (if v = u then {e} else {})) \<and>
    (\<forall>f \<in> all_entries st - {e}. info st' f = info st f) \<and>
    info st' e = \<lparr>i_prefix = prefix_of (sin6_addr grp) gmask, i_gmask = gm, i_hmask = hm, i_rp = rp_addr,
      i_priority = pri, i_origin = org, i_holdtime = hold, i_advholdtime = hold, i_tag = tag\<rparr> \<and>
    (\<forall>v. mask_infos st' v = mask_infos st v \<union> (if v = u then {(prefix_of (sin6_addr grp) gmask, gm, hm)} else {})) \<and>
    ((prefix_of (sin6_addr grp) gmask, gm, hm) \<in> mask_infos st u \<or>
       prefix_of (sin6_addr grp) gmask \<notin> fst ` mask_infos st u \<and> gm = gmask \<and> hm = hmask) \<and>
    (e \<in> all_entries st \<longrightarrow> offer_of (info st e) = offer_of (info st' e))"
  using add_rp_grp_entry_more [OF assms, of uninit route reg u pri hold gmask hmask tag] by (elim exE conjE) (intro exI conjI, assumption+)

text \<open>The RP set as a relation: which RPs are offered for a prefix, with which priority and origin.\<close>

definition mask_rps :: "rp_state \<Rightarrow> nat \<Rightarrow> (sockaddr_in6 \<times> sockaddr_in6 \<times> byte \<times> byte) set" where
  "mask_rps st m = (\<lambda>e. (mask_prefix st m, cand_address st (rg_rp (ents st e)), rg_priority (ents st e), rg_origin (ents st e))) `
     set (grp_rp_chain (masks st m))"

definition rp_offers :: "rp_state \<Rightarrow> rp_lists \<Rightarrow> (sockaddr_in6 \<times> sockaddr_in6 \<times> byte \<times> byte) set" where
  "rp_offers st u = (\<Union>m \<in> set (grp_mask_list st u). mask_rps st m)"

lemma rp_offers_infos:
  assumes "rp_ok st"
  shows "rp_offers st u = (\<lambda>e. offer_of (info st e)) ` entries_of st u"
proof -
  have "mask_rps st m = (\<lambda>e. offer_of (info st e)) ` set (grp_rp_chain (masks st m))" if "m \<in> set (grp_mask_list st u)" for m
    unfolding mask_rps_def using mask_ok_entry(1) [OF assms that] by (intro image_cong) (auto simp: offer_of_def info_def Let_def)
  then show ?thesis by (auto simp: rp_offers_def entries_of_def)
qed

lemma offer_inj:
  assumes "rp_ok st"
  shows "inj_on (\<lambda>e. offer_of (info st e)) (entries_of st u)"
proof (rule inj_onI)
  fix e f assume ef: "e \<in> entries_of st u" "f \<in> entries_of st u" and o: "offer_of (info st e) = offer_of (info st f)"
  obtain m n where mn: "m \<in> set (grp_mask_list st u)" "e \<in> set (grp_rp_chain (masks st m))" "n \<in> set (grp_mask_list st u)" "f \<in> set (grp_rp_chain (masks st n))"
    using ef by (auto simp: entries_of_def)
  note g = mask_ok_entry(1) [OF assms mn(1,2)] mask_ok_entry(1) [OF assms mn(3,4)]
  have "m = n" by (rule sorted_key_inj [OF lists_okD(2) [OF assms] mn(1,3)]) (use o g in \<open>simp add: offer_of_def info_def Let_def\<close>)
  moreover have "entry_key st e = entry_key st f" using o by (simp add: offer_of_def info_def Let_def entry_key_def)
  moreover have "sorted_wrt (\<lambda>a b. entry_key st a < entry_key st b) (grp_rp_chain (masks st m))"
    using lists_okD(4) [OF assms mn(1)] by (simp add: mask_ok_def)
  ultimately show "e = f" using sorted_key_inj [of "entry_key st"] mn(2,4) by blast
qed

section \<open>Creating and deleting groups\<close>

lemma delete_grpentry_ok:
  assumes "rp_ok st" and "groups_ok {} st" and "g \<in> set (grplist st)"
  shows "keeps_rps st (snd (delete_grpentry g st))"
proof -
  let ?st = "snd (delete_grpentry g st)"
  note s = same_rps_group_ops(3) [of st g]
  have ok: "rp_ok ?st" using same_rps_ok [OF assms(1) s] assms(1) by (simp add: rp_ok_def)
  have "links_ok (all_entries st) ?st" using delete_grpentry_links [OF _ assms(3)] assms(2) by (simp add: groups_ok_def)
  moreover have "set (grplist ?st) \<subseteq> set (grplist st)" by (simp add: delete_grpentry_def Let_def set_remove1_subset)
  moreover have "entries_of ?st v = entries_of st v" for v by (rule same_rps_entries [OF s])
  ultimately have "groups_ok {} ?st" using assms(2) by (auto simp: groups_ok_def all_entries_def)
  moreover have "rp_fresh ?st = rp_fresh st" using s by (simp add: same_rps_def)
  ultimately show ?thesis using ok same_rps_entries [OF s] same_rps_info(1) [OF s] by (simp add: keeps_rps_def)
qed

lemma lessthan_key: "in6_ok a \<Longrightarrow> in6_ok b \<Longrightarrow> inet6_lessthan a b \<longleftrightarrow> addr_key b < addr_key a"
  using addr_key_greater [of b a] by (simp add: greaterthan_less)

lemma search_grplist_ordered:
  assumes "links_ok X st" and "in6_ok grp" and "search_grplist grp st = (as, f, bs)"
  shows "grplist st = as @ (case f of None \<Rightarrow> [] | Some x \<Rightarrow> [x]) @ bs"
    and "\<forall>x \<in> set as. addr_key grp < addr_key (ge_group (grps st x))" and "\<forall>x \<in> set bs. addr_key (ge_group (grps st x)) < addr_key grp"
    and "f = Some g \<Longrightarrow> ge_group (grps st g) = grp" and "f = None \<Longrightarrow> h \<in> set (grplist st) \<Longrightarrow> ge_group (grps st h) \<noteq> grp"
proof -
  let ?key = "\<lambda>g. (- fst (addr_key (ge_group (grps st g))), - snd (addr_key (ge_group (grps st g))))"
  let ?k = "(- fst (addr_key grp), - snd (addr_key grp))"
  have neg: "(- fst a, - snd a) < (- fst b, - snd b) \<longleftrightarrow> b < a" "(- fst a, - snd a) = (- fst b, - snd b) \<longleftrightarrow> a = b" for a b :: "int \<times> int"
    by (auto simp: less_prod_def prod_eq_iff)
  have s: "sorted_wrt (\<lambda>a b. ?key a < ?key b) (grplist st)" and ok: "x \<in> set (grplist st) \<Longrightarrow> in6_ok (ge_group (grps st x))" for x
    using assms(1) unfolding neg by (auto simp: links_ok_def)
  note o = search_chain_ordered [OF assms(3) [unfolded search_grplist_def] s, of ?k, unfolded neg]
  have b: "inet6_lessthan (ge_group (grps st x)) grp \<longleftrightarrow> addr_key grp < addr_key (ge_group (grps st x))"
    "inet6_equal (ge_group (grps st x)) grp \<longleftrightarrow> addr_key (ge_group (grps st x)) = addr_key grp" if "x \<in> set (grplist st)" for x
    using lessthan_key [OF ok [OF that] assms(2)] addr_key_eq [OF ok [OF that] assms(2)] by (simp_all add: equal_eq)
  note o = o [OF b(1) b(2)]
  show r: "grplist st = as @ (case f of None \<Rightarrow> [] | Some x \<Rightarrow> [x]) @ bs" "\<forall>x \<in> set as. addr_key grp < addr_key (ge_group (grps st x))"
    "\<forall>x \<in> set bs. addr_key (ge_group (grps st x)) < addr_key grp" by (rule o(1-3); assumption)+
  show "ge_group (grps st g) = grp" if "f = Some g"
    using o(4) that r(1) addr_key_eq [OF ok assms(2), of g] by auto
  show "ge_group (grps st h) \<noteq> grp" if "f = None" "h \<in> set (grplist st)" using o(5) that by fastforce
qed

lemma create_grpentry_ok:
  assumes "rp_ok st" and "groups_ok {} st" and "in6_ok grp" and "create_grpentry grp st = (g, st')"
  shows "keeps_rps st st'" "g \<in> set (grplist st')" "ge_group (grps st' g) = grp"
proof -
  obtain as f bs where sc: "search_grplist grp st = (as, f, bs)" by (cases "search_grplist grp st")
  have l: "links_ok (all_entries st) st" using assms(2) by (simp add: groups_ok_def)
  note o = search_grplist_ordered [OF l assms(3) sc]
  have "keeps_rps st st' \<and> g \<in> set (grplist st') \<and> ge_group (grps st' g) = grp"
  proof (cases f)
    case (Some h)
    then show ?thesis using assms(4) o(1,4) sc keeps_refl [OF assms(1,2)] by (auto simp: create_grpentry_def)
  next
    case None
    let ?e = "\<lparr>ge_group = grp, ge_rpaddr = \<lparr>sin6_addr = replicate 16 0, sin6_scope_id = 0\<rparr>, active_rp_grp = None\<rparr>"
    have g: "g = rp_fresh st" and st': "st' = st\<lparr>grps := (grps st)(g := ?e), grplist := as @ g # bs, rp_fresh := rp_fresh st + 1\<rparr>"
      using assms(4) sc None by (auto simp: create_grpentry_def Let_def)
    have gl: "grplist st = as @ bs" using o(1) None by simp
    have below: "h < g" if "h \<in> set (grplist st)" for h using l that by (auto simp: links_ok_def g)
    have gr: "grps st' h = grps st h" if "h \<in> set (grplist st)" for h using below [OF that] by (simp add: st')
    have new: "grps st' g = ?e" "grplist st' = as @ g # bs" "rp_fresh st' = Suc (rp_fresh st)" by (simp_all add: st')
    have fr: "ents st' = ents st" "cand_address st' = cand_address st" "entries_of st' v = entries_of st v" for v
      by (simp_all add: st' cand_address_def entries_of_def fun_eq_iff)
    have so: "sorted_wrt (\<lambda>a b. addr_key (ge_group (grps st' b)) < addr_key (ge_group (grps st' a))) (as @ g # bs)"
    proof -
      have "sorted_wrt (\<lambda>a b. addr_key (ge_group (grps st' b)) < addr_key (ge_group (grps st' a))) (as @ bs) =
          sorted_wrt (\<lambda>a b. addr_key (ge_group (grps st b)) < addr_key (ge_group (grps st a))) (as @ bs)"
        by (rule sorted_wrt_cong_set) (use gr in \<open>auto simp: gl\<close>)
      then have "sorted_wrt (\<lambda>a b. addr_key (ge_group (grps st' b)) < addr_key (ge_group (grps st' a))) (as @ bs)"
        using l gl by (simp add: links_ok_def)
      then show ?thesis using o(2,3) gr by (simp add: sorted_wrt_append new(1) gl)
    qed
    have act: "{h \<in> set (grplist st'). active_rp_grp (grps st' h) = Some e} = {h \<in> set (grplist st). active_rp_grp (grps st h) = Some e}" for e
      using gr by (auto simp: new gl)
    have "links_ok (all_entries st) st'"
      unfolding links_ok_def act fr
    proof (intro conjI)
      show "sorted_wrt (\<lambda>a b. addr_key (ge_group (grps st' b)) < addr_key (ge_group (grps st' a))) (grplist st')" using so by (simp add: new)
      show "\<forall>h \<in> set (grplist st'). h < rp_fresh st' \<and> in6_ok (ge_group (grps st' h))"
        using l gr assms(3) new(1) by (auto simp: links_ok_def new(2,3) gl g less_Suc_eq)
      show "\<forall>e \<in> all_entries st. distinct (grplink (ents st e)) \<and> set (grplink (ents st e)) = {h \<in> set (grplist st). active_rp_grp (grps st h) = Some e}"
        using l by (simp add: links_ok_def)
      show "\<forall>h \<in> set (grplist st'). \<forall>e. active_rp_grp (grps st' h) = Some e \<longrightarrow> e \<in> all_entries st \<and>
          ge_rpaddr (grps st' h) = cand_address st (rg_rp (ents st e))"
        using l gr by (auto simp: links_ok_def new gl)
    qed
    moreover have "\<forall>h \<in> set (grplist st'). \<forall>e. active_rp_grp (grps st' h) = Some e \<longrightarrow> e \<in> entries_of st Current"
      using assms(2) gr by (auto simp: groups_ok_def new gl)
    ultimately have "groups_ok {} st'" by (simp add: groups_ok_def all_entries_def fr)
    moreover have "rp_ok st'"
    proof -
      have "entry_key st' = entry_key st" by (simp add: entry_key_def fr fun_eq_iff)
      then have "lists_ok st v \<Longrightarrow> lists_ok st' v" for v
        by (auto simp: lists_ok_def mask_ok_def cand_ok_def fr less_Suc_eq) (auto simp: st' mask_prefix_def less_Suc_eq)
      then show ?thesis using assms(1) by (auto simp: rp_ok_def st')
    qed
    moreover have "info st' e = info st e" for e by (rule info_cong) (simp_all add: fr, simp_all add: st' mask_prefix_def)
    ultimately show ?thesis by (simp add: keeps_rps_def new fr)
  qed
  then show "keeps_rps st st'" "g \<in> set (grplist st')" "ge_group (grps st' g) = grp" by blast+
qed

lemma offers_cong:
  assumes "cands st' = cands st" and "ents st' = ents st" and "masks st' = masks st" and "grp_mask_list st' = grp_mask_list st"
  shows "offers h st' = offers h st"
proof -
  have "offer g x st' = offer g x st" for g x by (intro ext) (simp add: offer_def cand_address_def assms)
  then have "mask_offers h st' = mask_offers h st" by (intro ext) (simp add: mask_offers_def mask_prefix_def assms)
  then show ?thesis by (simp add: offers_def assms)
qed

lemma create_grpentry_frame:
  "create_grpentry grp st = (g, st') \<Longrightarrow> cands st' = cands st \<and> ents st' = ents st \<and> offers h st' = offers h st"
  using offers_cong [of st' st h] by (auto simp: create_grpentry_def Let_def split: prod.splits option.splits)

lemma rp_grp_match_entry:
  assumes "chains_ok st"
  shows "\<exists>m k. rp_grp_match uninit grp st = Some (m, st\<lparr>rp_crc := k\<rparr>) \<and> crc_ok k \<and> (\<forall>e. m = Some e \<longrightarrow> e \<in> entries_of st Current) \<and>
    (m = None \<longrightarrow> offers grp st = [])"
proof -
  obtain k where k: "crc_ok k" "rp_grp_match uninit grp st = Some (best_entry (foldl better (start_best uninit) (offers grp st)), st\<lparr>rp_crc := k\<rparr>)"
    using rp_grp_match_best [OF assms] by blast
  have "e \<in> entries_of st Current" if "best_entry (foldl better (start_best uninit) (offers grp st)) = Some e" for e
  proof (cases "offers grp st = []")
    case True
    then show ?thesis using that by (simp add: start_best_def)
  next
    case False
    then obtain r where "r \<in> set (offers grp st)" "foldl better (start_best uninit) (offers grp st) = r"
      using best_of_offers [OF assms False, of uninit] by blast
    then show ?thesis using that by (auto simp: offers_def mask_offers_def offer_def Let_def entries_of_def split: if_splits)
  qed
  moreover have "offers grp st = []" if "best_entry (foldl better (start_best uninit) (offers grp st)) = None"
  proof (rule ccontr)
    assume ne: "offers grp st \<noteq> []"
    then obtain r where "r \<in> set (offers grp st)" "foldl better (start_best uninit) (offers grp st) = r"
      using best_of_offers [OF assms ne, of uninit] by blast
    then show False using that by (auto simp: offers_def mask_offers_def offer_def Let_def split: if_splits)
  qed
  ultimately show ?thesis
    by (intro exI [of _ "best_entry (foldl better (start_best uninit) (offers grp st))"] exI [of _ k]) (use k in simp)
qed

text \<open>
  The RP of a group for a new route: it fails only when no RP is known for the group or the RP cannot be reached.
\<close>

lemma find_route_rp_ok:
  assumes "rp_ok st" and "groups_ok {} st" and "in6_ok grp"
  shows "\<exists>r fs st'. find_route_rp uninit reg has_routes grp st = Some (r, fs, st') \<and> keeps_rps st st' \<and>
    (\<forall>g. r = Some g \<longrightarrow> g \<in> set (grplist st') \<and> ge_group (grps st' g) = grp \<and> active_rp_grp (grps st' g) \<noteq> None) \<and>
    (r = None \<longrightarrow> offers grp st = [] \<or> (\<exists>e \<in> entries_of st Current. rp_upstream (rpentry_of (cands st (rg_rp (ents st e)))) = None \<and>
       rp_incoming (rpentry_of (cands st (rg_rp (ents st e)))) \<noteq> reg))"
proof -
  obtain g s1 where c: "create_grpentry grp st = (g, s1)" by (cases "create_grpentry grp st")
  note cr = create_grpentry_ok [OF assms c] and fr = create_grpentry_frame [OF c]
  have ok1: "rp_ok s1" "groups_ok {} s1" using cr(1) by (simp_all add: keeps_rps_def)
  have rp: "\<exists>e s2. (case active_rp_grp (grps s1 g) of Some e \<Rightarrow> Some (Some e, s1)
      | None \<Rightarrow> do { (m, st) \<leftarrow> rp_grp_match uninit grp s1; Some (m, case m of None \<Rightarrow> st | Some e \<Rightarrow> link_group g e st) }) = Some (e, s2) \<and>
    keeps_rps s1 s2 \<and> grplist s2 = grplist s1 \<and> ge_group (grps s2 g) = grp \<and> (\<forall>f. e = Some f \<longrightarrow> active_rp_grp (grps s2 g) = Some f) \<and>
    cands s2 = cands s1 \<and> (\<forall>f. rg_rp (ents s2 f) = rg_rp (ents s1 f)) \<and> (e = None \<longrightarrow> offers grp s1 = [])"
  proof (cases "active_rp_grp (grps s1 g)")
    case None
    obtain m k where m: "rp_grp_match uninit grp s1 = Some (m, s1\<lparr>rp_crc := k\<rparr>)" "crc_ok k" "\<And>e. m = Some e \<Longrightarrow> e \<in> entries_of s1 Current"
      "m = None \<Longrightarrow> offers grp s1 = []"
      using rp_grp_match_entry [OF rp_ok_chains [OF ok1(1)]] by blast
    define s2 where "s2 = (case m of None \<Rightarrow> s1\<lparr>rp_crc := k\<rparr> | Some e \<Rightarrow> link_group g e (s1\<lparr>rp_crc := k\<rparr>))"
    have u: "unlink_group g s1 = s1" using None by (simp add: unlink_group_def)
    have s: "same_rps s1 s2" using same_rps_trans [OF same_rps_group_ops(4) same_rps_group_ops(2)] same_rps_group_ops(4)
      by (auto simp: s2_def split: option.split)
    have l: "links_ok (all_entries s1) s1" using ok1(2) by (simp add: groups_ok_def)
    have l2: "links_ok (all_entries s1) s2"
      using link_group_links [OF l entries_all [OF m(3)] cr(2), of _ k] links_frame [OF l, of "s1\<lparr>rp_crc := k\<rparr>"]
      by (auto simp: s2_def u cand_address_def split: option.split)
    have "rp_ok s2" using same_rps_ok [OF ok1(1) s] m(2) by (auto simp: s2_def split: option.split)
    moreover have "groups_ok {} s2"
      using l2 ok1(2) m(3) unfolding groups_ok_def all_entries_def same_rps_entries [OF s]
      by (auto simp: s2_def link_group_def split: option.splits if_splits)
    moreover have "rp_fresh s2 = rp_fresh s1" using s by (simp add: same_rps_def)
    ultimately have "keeps_rps s1 s2" using same_rps_entries [OF s] same_rps_info(1) [OF s] by (simp add: keeps_rps_def)
    then show ?thesis using m(1,4) None cr(3) by (auto simp: s2_def link_group_def split: option.split)
  qed (use cr(3) keeps_refl [OF ok1] in auto)
  then obtain e s2 where s2: "(case active_rp_grp (grps s1 g) of Some e \<Rightarrow> Some (Some e, s1)
      | None \<Rightarrow> do { (m, st) \<leftarrow> rp_grp_match uninit grp s1; Some (m, case m of None \<Rightarrow> st | Some e \<Rightarrow> link_group g e st) }) = Some (e, s2)"
    "keeps_rps s1 s2" "grplist s2 = grplist s1" "ge_group (grps s2 g) = grp" "\<And>f. e = Some f \<Longrightarrow> active_rp_grp (grps s2 g) = Some f"
    "cands s2 = cands s1" "\<And>f. rg_rp (ents s2 f) = rg_rp (ents s1 f)" "e = None \<Longrightarrow> offers grp s1 = []" by blast
  have ok2: "rp_ok s2" "groups_ok {} s2" using s2(2) by (simp_all add: keeps_rps_def)
  have k2: "keeps_rps st s2" by (rule keeps_rps_trans [OF cr(1) s2(2)])
  have k3: "keeps_rps st (snd (delete_grpentry g s2))" using keeps_rps_trans [OF k2 delete_grpentry_ok [OF ok2]] cr(2) s2(3) by simp
  have cur: "f \<in> entries_of st Current" if "e = Some f" for f
    using s2(5) [OF that] s2(3) cr(2) ok2(2) k2 by (auto simp: groups_ok_def keeps_rps_def)
  obtain fs s3 where "delete_grpentry g s2 = (fs, s3)" by fastforce
  then show ?thesis using k2 k3 cr(2) s2(3-8) fr cur by (cases e) (auto simp: find_route_rp_def c s2(1) Let_def split: prod.split)
qed

section \<open>The RP set as a state machine\<close>

definition rp_inv :: "rp_state \<Rightarrow> bool" where
  "rp_inv st \<longleftrightarrow> rp_ok st \<and> groups_ok {} st"

definition rp_empty :: "rp_state \<Rightarrow> bool" where
  "rp_empty st \<longleftrightarrow> grplist st = [] \<and> (\<forall>u. cand_rp_list st u = [] \<and> grp_mask_list st u = []) \<and> \<not> crc_table_computed (rp_crc st)"

text \<open>
  The operations that the rest of the daemon calls: configuration, bootstrap and advertisement messages and timers
  change the set, new routes and their ends change the groups.
\<close>

inductive rp_step :: "sockaddr_in6 \<Rightarrow> route_lookup \<Rightarrow> nat \<Rightarrow> rp_state \<Rightarrow> rp_state \<Rightarrow> bool" for uninit route reg where
  Add: "in6_ok rp_addr \<Longrightarrow> org < 2 \<Longrightarrow>
     add_rp_grp_entry uninit route reg u rp_addr pri org hold grp gmask hmask tag st = Some (e, fs, st') \<Longrightarrow> rp_step uninit route reg st st'"
| Delete_entry: "e \<in> entries_of st u \<Longrightarrow> delete_rp_grp_entry uninit u e st = Some (fs, st') \<Longrightarrow> rp_step uninit route reg st st'"
| Delete_prefix: "delete_grp_mask s1 s2 uninit u addr gmask st = Some (fs, st') \<Longrightarrow> rp_step uninit route reg st st'"
| Delete_list: "rp_step uninit route reg st (delete_rp_list u st)"
| New_route: "in6_ok grp \<Longrightarrow> find_route_rp uninit reg has_routes grp st = Some (r, fs, st') \<Longrightarrow> rp_step uninit route reg st st'"
| Delete_group: "g \<in> set (grplist st) \<Longrightarrow> delete_grpentry g st = (fs, st') \<Longrightarrow> rp_step uninit route reg st st'"

inductive_cases rp_stepE: "rp_step uninit route reg st st'"

lemma rp_empty_inv: "rp_empty st \<Longrightarrow> rp_inv st"
  by (simp add: rp_empty_def rp_inv_def rp_ok_def lists_ok_def crc_ok_def groups_ok_def links_ok_def all_entries_def entries_of_def)

lemma delete_entry_inv:
  assumes "rp_inv st" and "e \<in> entries_of st u"
  shows "\<exists>fs st'. delete_rp_grp_entry uninit u e st = Some (fs, st') \<and> rp_inv st' \<and> same_data st st' \<and>
    (\<forall>v. entries_of st' v = entries_of st v - {e}) \<and> (\<forall>n. n \<noteq> rg_group (ents st e) \<longrightarrow> masks st' n = masks st n) \<and>
    (\<forall>v. set (grp_mask_list st v) - {rg_group (ents st e)} \<subseteq> set (grp_mask_list st' v))"
proof -
  obtain m where "m \<in> set (grp_mask_list st u)" "e \<in> set (grp_rp_chain (masks st m))" using assms(2) by (auto simp: entries_of_def)
  moreover from this have "rg_group (ents st e) = m" using mask_ok_entry(1) [of st m u e] assms(1) by (simp add: rp_inv_def)
  ultimately show ?thesis using delete_rp_grp_entry_ok [of st m u e uninit] assms(1) unfolding rp_inv_def by blast
qed

lemma add_rp_grp_entry_inv:
  assumes "rp_inv st" and "in6_ok rp_addr" and "org < 2"
  shows "\<exists>e fs st'. add_rp_grp_entry uninit route reg u rp_addr pri org hold grp gmask hmask tag st = Some (e, fs, st') \<and> rp_inv st' \<and>
    (e = None \<longrightarrow> fs = [] \<and> st' = st)"
proof (cases "inet6_valid_host rp_addr \<and> IN6_IS_ADDR_MULTICAST (sin6_addr grp)")
  case True
  then obtain e fs st' where "add_rp_grp_entry uninit route reg u rp_addr pri org hold grp gmask hmask tag st = Some (Some e, fs, st')"
    "rp_ok st'" "groups_ok {} st'"
    using add_rp_grp_entry_full [OF _ _ assms(2,3), of st grp uninit route reg u pri hold gmask hmask tag] assms(1) unfolding rp_inv_def by blast
  then show ?thesis by (auto simp: rp_inv_def)
qed (use assms(1) in \<open>auto simp: add_rp_grp_entry_def\<close>)

lemma delete_grp_mask_inv:
  "rp_inv st \<Longrightarrow> \<exists>fs st'. delete_grp_mask s1 s2 uninit u addr gmask st = Some (fs, st') \<and> rp_inv st' \<and> same_data st st'"
  using delete_grp_mask_ok [of st s1 s2 uninit u addr gmask] unfolding rp_inv_def by blast

lemma find_route_rp_inv:
  "rp_inv st \<Longrightarrow> in6_ok grp \<Longrightarrow> \<exists>r fs st'. find_route_rp uninit reg has_routes grp st = Some (r, fs, st') \<and> rp_inv st' \<and>
    (\<forall>v. entries_of st' v = entries_of st v)"
  using find_route_rp_ok [of st grp uninit reg has_routes] unfolding rp_inv_def keeps_rps_def by blast

lemma rp_step_inv: "rp_step uninit route reg st st' \<Longrightarrow> rp_inv st \<Longrightarrow> rp_inv st'"
proof (erule rp_stepE, goal_cases)
  case (1 rp_addr org u pri hold grp gmask hmask tag e fs)
  then show ?case using add_rp_grp_entry_inv [of st rp_addr org uninit route reg u pri hold grp gmask hmask tag] by auto
next
  case (2 e u fs)
  then show ?case using delete_entry_inv [of st e u uninit] by auto
next
  case (3 s1 s2 u addr gmask fs)
  then show ?case using delete_grp_mask_inv [of st s1 s2 uninit u addr gmask] by auto
next
  case (4 u)
  then show ?case using delete_rp_list_ok [of st u] by (simp add: rp_inv_def)
next
  case (5 grp has_routes r fs)
  then show ?case using find_route_rp_inv [of st grp uninit reg has_routes] by auto
next
  case (6 g fs)
  then show ?case using delete_grpentry_ok [of st g] by (auto simp: rp_inv_def keeps_rps_def)
qed

lemma rp_reach_inv: "(rp_step uninit route reg)\<^sup>*\<^sup>* st0 st \<Longrightarrow> rp_inv st0 \<Longrightarrow> rp_inv st"
  by (induction rule: rtranclp_induct) (auto dest: rp_step_inv)

text \<open>
  C16. However the RP set is changed from the empty one, every group refers to an entry that is in the set, with the
  address of its RP, and the list of the entry holds the group: no group is left with an entry that has been freed.
  All operations are defined in such a state: none dereferences a pointer that is not there and none deletes an RP
  that still has entries.
\<close>

theorem rp_set_safe:
  assumes "rp_empty st0" and "(rp_step uninit route reg)\<^sup>*\<^sup>* st0 st"
  shows "(\<forall>g \<in> set (grplist st). \<forall>e. active_rp_grp (grps st g) = Some e \<longrightarrow>
      e \<in> entries_of st Current \<and> g \<in> set (grplink (ents st e)) \<and> ge_rpaddr (grps st g) = cand_address st (rg_rp (ents st e))) \<and>
    (\<forall>u addr pri org hold grp gmask hmask tag. in6_ok addr \<longrightarrow> org < 2 \<longrightarrow>
      add_rp_grp_entry uninit route reg u addr pri org hold grp gmask hmask tag st \<noteq> None) \<and>
    (\<forall>u e. e \<in> entries_of st u \<longrightarrow> delete_rp_grp_entry uninit u e st \<noteq> None) \<and>
    (\<forall>s1 s2 u addr gmask. delete_grp_mask s1 s2 uninit u addr gmask st \<noteq> None) \<and>
    (\<forall>has_routes grp. in6_ok grp \<longrightarrow> find_route_rp uninit reg has_routes grp st \<noteq> None)"
proof -
  have inv: "rp_inv st" using rp_reach_inv [OF assms(2) rp_empty_inv [OF assms(1)]] .
  have 1: "e \<in> entries_of st Current \<and> g \<in> set (grplink (ents st e)) \<and> ge_rpaddr (grps st g) = cand_address st (rg_rp (ents st e))"
    if "g \<in> set (grplist st)" "active_rp_grp (grps st g) = Some e" for g e
    using inv that links_at(2) [of "all_entries st" st e] unfolding rp_inv_def groups_ok_def links_ok_def by auto
  have 2: "add_rp_grp_entry uninit route reg u addr pri org hold grp gmask hmask tag st \<noteq> None" if "in6_ok addr" "org < 2"
    for u addr pri org hold grp gmask hmask tag
    using add_rp_grp_entry_inv [OF inv that, of uninit route reg u pri hold grp gmask hmask tag] by auto
  have 3: "delete_rp_grp_entry uninit u e st \<noteq> None" if "e \<in> entries_of st u" for u e
    using delete_entry_inv [OF inv that, of uninit] by auto
  have 4: "delete_grp_mask s1 s2 uninit u addr gmask st \<noteq> None" for s1 s2 u addr gmask
    using delete_grp_mask_inv [OF inv, of s1 s2 uninit u addr gmask] by auto
  have 5: "find_route_rp uninit reg has_routes grp st \<noteq> None" if "in6_ok grp" for has_routes grp
    using find_route_rp_inv [OF inv that, of uninit reg has_routes] by auto
  show ?thesis by (intro conjI ballI allI impI) (use 1 2 3 4 5 in simp_all)
qed

definition rps_none :: rp_state where
  "rps_none = (sample_rps 0)\<lparr>cand_rp_list := (\<lambda>_. []), grp_mask_list := (\<lambda>_. []), rp_crc := \<lparr>crc_table = [], crc_table_computed = False\<rparr>\<rparr>"

lemma rps_none_empty: "rp_empty rps_none"
  by (simp add: rp_empty_def rps_none_def sample_rps_def)

lemma offers_nonempty:
  assumes "m \<in> set (grp_mask_list st Current)" and "e \<in> set (grp_rp_chain (masks st m))"
    and "prefix_of (sin6_addr grp) (group_mask (masks st m)) = mask_prefix st m"
  shows "offers grp st \<noteq> []"
proof -
  have "inet6_equal (prefix_of (sin6_addr grp) (group_mask (masks st m))) (mask_prefix st m)"
    using assms(3) by (simp add: equal_eq)
  then have "mask_offers grp st m \<noteq> []" using assms(2) by (auto simp: mask_offers_def)
  then show ?thesis using assms(1) by (auto simp: offers_def)
qed

lemma sample_rp_reach:
  "\<exists>st g e. (rp_step sample_addr1 (\<lambda>_. None) 0)\<^sup>*\<^sup>* rps_none st \<and> g \<in> set (grplist st) \<and> active_rp_grp (grps st g) = Some e"
proof -
  let ?grp = "\<lparr>sin6_addr = all_groups, sin6_scope_id = 0\<rparr>"
  have inv: "rp_ok rps_none" "groups_ok {} rps_none" using rp_empty_inv [OF rps_none_empty] by (simp_all add: rp_inv_def)
  have v: "inet6_valid_host sample_addr2" "IN6_IS_ADDR_MULTICAST all_groups" by code_simp+
  obtain e fs s1 where a: "add_rp_grp_entry sample_addr1 (\<lambda>_. None) 0 Current sample_addr2 5 1 150 ?grp all_groups all_groups 8 rps_none = Some (e, fs, s1)"
    "rp_inv s1"
    using add_rp_grp_entry_inv [OF rp_empty_inv [OF rps_none_empty] sample_addr_ok(2), of 1 sample_addr1 "\<lambda>_. None" 0 Current 5 150 ?grp all_groups all_groups 8]
    by auto
  have c: "grp_mask_list s1 Current = [5]" "grp_rp_chain (masks s1 5) = [7]" "mask_prefix s1 5 = prefix_of all_groups all_groups"
    "group_mask (masks s1 5) = all_groups" "rg_rp (ents s1 7) = 6" "rp_incoming (rpentry_of (cands s1 6)) = 0"
    using a(1) v by (auto simp: add_rp_grp_entry_def add_grp_mask_def add_cand_rp_def link_rp_grp_entry_def rps_none_def sample_rps_def new_rpentry_def
        mask_prefix_def Let_def split: if_splits)
  have "prefix_of (sin6_addr sample_group) all_groups = prefix_of all_groups all_groups" by code_simp
  then have o: "offers sample_group s1 \<noteq> []" by (intro offers_nonempty [of 5 s1 7]) (simp_all add: c)
  have en: "entries_of s1 Current = {7}" by (simp add: entries_of_def c)
  have "in6_ok sample_group" by (simp add: in6_ok_def sample_group_def)
  then obtain g fs' s2 where f: "find_route_rp sample_addr1 0 (\<lambda>_. False) sample_group s1 = Some (Some g, fs', s2)" "g \<in> set (grplist s2)"
    "active_rp_grp (grps s2 g) \<noteq> None"
    using find_route_rp_ok [of s1 sample_group sample_addr1 0 "\<lambda>_. False"] a(2) o en c(5,6) unfolding rp_inv_def by auto
  have "rp_step sample_addr1 (\<lambda>_. None) 0 rps_none s1" using a(1) by (intro rp_step.Add [OF sample_addr_ok(2)]) simp_all
  moreover have "rp_step sample_addr1 (\<lambda>_. None) 0 s1 s2" using f(1) \<open>in6_ok sample_group\<close> by (intro rp_step.New_route)
  ultimately have "(rp_step sample_addr1 (\<lambda>_. None) 0)\<^sup>*\<^sup>* rps_none s2" by (meson rtranclp.rtrancl_into_rtrancl rtranclp.rtrancl_refl)
  then show ?thesis using f(2,3) by blast
qed

theorem rp_set_safe_witness:
  "\<exists>st g e. (rp_step sample_addr1 (\<lambda>_. None) 0)\<^sup>*\<^sup>* rps_none st \<and> g \<in> set (grplist st) \<and> active_rp_grp (grps st g) = Some e \<and>
     e \<in> entries_of st Current \<and> g \<in> set (grplink (ents st e)) \<and> delete_rp_grp_entry sample_addr1 Current e st \<noteq> None"
proof -
  obtain st g e where s: "(rp_step sample_addr1 (\<lambda>_. None) 0)\<^sup>*\<^sup>* rps_none st" "g \<in> set (grplist st)" "active_rp_grp (grps st g) = Some e"
    using sample_rp_reach by blast
  note t = rp_set_safe [OF rps_none_empty s(1)]
  have e: "e \<in> entries_of st Current" "g \<in> set (grplink (ents st e))" using t s(2,3) by simp_all
  then have "delete_rp_grp_entry sample_addr1 Current e st \<noteq> None" using t by simp
  with s e show ?thesis by blast
qed

text \<open>
  C17. Adding an entry keeps the invariant of the RP set (both pairs of lists in their orders, both chains through every
  entry consistent, the count of a prefix exact, the groups mapped to entries that exist) and adds exactly the
  offered RP to the set: nothing is lost, entries that are there already are only refreshed, and all groups are
  remapped without failing. It refuses a multicast RP address and a group prefix that is not multicast.
\<close>

theorem add_rp_grp_entry_correct:
  assumes "rp_inv st" and "in6_ok rp_addr" and "org < 2"
  shows "\<exists>e fs st'. add_rp_grp_entry uninit route reg u rp_addr pri org hold grp gmask hmask tag st = Some (e, fs, st') \<and>
    rp_inv st' \<and>
    (if inet6_valid_host rp_addr \<and> IN6_IS_ADDR_MULTICAST (sin6_addr grp)
     then e \<noteq> None \<and> rp_offers st' u = insert (prefix_of (sin6_addr grp) gmask, rp_addr, pri, org) (rp_offers st u) \<and>
       (\<forall>v. v \<noteq> u \<longrightarrow> rp_offers st' v = rp_offers st v)
     else e = None \<and> fs = [] \<and> st' = st)"
proof (cases "inet6_valid_host rp_addr \<and> IN6_IS_ADDR_MULTICAST (sin6_addr grp)")
  case True
  have ok: "rp_ok st" "groups_ok {} st" using assms(1) by (simp_all add: rp_inv_def)
  obtain e fs st' gm hm where r: "add_rp_grp_entry uninit route reg u rp_addr pri org hold grp gmask hmask tag st = Some (Some e, fs, st')"
    "rp_ok st'" "groups_ok {} st'" "\<And>v. entries_of st' v = entries_of st v \<union> (if v = u then {e} else {})"
    "\<And>f. f \<in> all_entries st - {e} \<Longrightarrow> info st' f = info st f"
    "info st' e = \<lparr>i_prefix = prefix_of (sin6_addr grp) gmask, i_gmask = gm, i_hmask = hm, i_rp = rp_addr,
      i_priority = pri, i_origin = org, i_holdtime = hold, i_advholdtime = hold, i_tag = tag\<rparr>"
    "e \<in> all_entries st \<Longrightarrow> offer_of (info st e) = offer_of (info st' e)"
    using add_rp_grp_entry_full [OF ok assms(2,3), of grp uninit route reg u pri hold gmask hmask tag] True by blast
  have old: "offer_of (info st' f) = offer_of (info st f)" if "f \<in> entries_of st v" for f v
  proof (cases "f = e")
    case True
    then show ?thesis using r(7) entries_all [OF that] by simp
  next
    case False
    then show ?thesis using r(5) [of f] entries_all [OF that] by simp
  qed
  have "(\<lambda>f. offer_of (info st' f)) ` entries_of st v = (\<lambda>f. offer_of (info st f)) ` entries_of st v" for v
    by (rule image_cong) (use old in auto)
  then have "rp_offers st' v = rp_offers st v \<union> (if v = u then {(prefix_of (sin6_addr grp) gmask, rp_addr, pri, org)} else {})" for v
    using r(6) unfolding rp_offers_infos [OF r(2)] rp_offers_infos [OF ok(1)] r(4) by (simp add: image_Un offer_of_def)
  then show ?thesis using r(1-3) True by (simp add: rp_inv_def)
next
  case False
  then show ?thesis using assms(1) by (auto simp: add_rp_grp_entry_def)
qed


lemma sample_rps_groups: "rp_inv (sample_rps n)"
  using sample_rps_ok [of n] by (simp add: rp_inv_def groups_ok_def links_ok_def all_entries_def entries_of_def sample_fields)
    (auto simp: sample_rps_def)

theorem add_rp_grp_entry_correct_witness:
  "\<exists>e fs st'. add_rp_grp_entry sample_addr1 (\<lambda>_. None) 0 Current sample_addr2 5 1 150
      \<lparr>sin6_addr = all_groups, sin6_scope_id = 0\<rparr> all_groups all_groups 8 (sample_rps 0) = Some (Some e, fs, st') \<and> rp_inv st' \<and>
    rp_offers st' Current = {(prefix_of all_groups all_groups, sample_addr2, 5, 1), (prefix_of all_groups all_groups, sample_addr1, 10, 1),
      (prefix_of all_groups all_groups, sample_addr2, 20, 1)}"
proof -
  have "rp_offers (sample_rps 0) Current = {(prefix_of all_groups all_groups, sample_addr1, 10, 1),
      (prefix_of all_groups all_groups, sample_addr2, 20, 1)}"
    by (simp add: rp_offers_def mask_rps_def mask_prefix_def sample_fields)
  moreover have "inet6_valid_host sample_addr2" "IN6_IS_ADDR_MULTICAST all_groups" by code_simp+
  ultimately show ?thesis
    using add_rp_grp_entry_correct [OF sample_rps_groups [of 0] sample_addr_ok(2), of 1 sample_addr1 "\<lambda>_. None" 0 Current 5 150
        "\<lparr>sin6_addr = all_groups, sin6_scope_id = 0\<rparr>" all_groups all_groups 8] by auto
qed

text \<open>
  C18. Deleting an entry takes exactly its RP out of the set of its prefix and keeps the invariant; afterwards the entry is
  in no list and no group refers to it. A prefix or an RP that loses its last entry leaves its list too.
\<close>

theorem delete_rp_grp_entry_correct:
  assumes "rp_inv st" and "e \<in> entries_of st u"
  shows "\<exists>fs st'. delete_rp_grp_entry uninit u e st = Some (fs, st') \<and> rp_inv st' \<and>
    rp_offers st' u = rp_offers st u - {offer_of (info st e)} \<and> (\<forall>v. v \<noteq> u \<longrightarrow> rp_offers st' v = rp_offers st v) \<and>
    (\<forall>v. e \<notin> entries_of st' v) \<and> (\<forall>g \<in> set (grplist st'). active_rp_grp (grps st' g) \<noteq> Some e)"
proof -
  obtain fs st' where r: "delete_rp_grp_entry uninit u e st = Some (fs, st')" "rp_inv st'" "same_data st st'"
    "\<And>v. entries_of st' v = entries_of st v - {e}"
    using delete_entry_inv [OF assms, of uninit] by blast
  have ok: "rp_ok st" "rp_ok st'" "groups_ok {} st'" using assms(1) r(2) by (simp_all add: rp_inv_def)
  have o: "rp_offers st' v = (\<lambda>f. offer_of (info st f)) ` (entries_of st v - {e})" for v
    unfolding rp_offers_infos [OF ok(2)] same_data_info [OF r(3)] r(4) ..
  have "rp_offers st' u = rp_offers st u - {offer_of (info st e)}"
    unfolding o rp_offers_infos [OF ok(1)] using offer_inj [OF ok(1), of u] assms(2) by (simp add: inj_on_image_set_diff [where C = "entries_of st u"])
  moreover have "rp_offers st' v = rp_offers st v" if "v \<noteq> u" for v
  proof -
    have "e \<notin> entries_of st v" using entries_disjoint [OF ok(1) assms(2)] that by blast
    then show ?thesis unfolding o rp_offers_infos [OF ok(1)] by simp
  qed
  moreover have "active_rp_grp (grps st' g) \<noteq> Some e" if "g \<in> set (grplist st')" for g
    using ok(3) that r(4) by (auto simp: groups_ok_def)
  ultimately show ?thesis using r(1,2,4) by auto
qed

theorem delete_rp_grp_entry_correct_witness:
  "\<exists>fs st'. delete_rp_grp_entry sample_addr1 Current 4 (sample_rps 0) = Some (fs, st') \<and> rp_inv st' \<and>
     rp_offers st' Current = {(prefix_of all_groups all_groups, sample_addr2, 20, 1)}"
proof -
  have "rp_offers (sample_rps 0) Current = {(prefix_of all_groups all_groups, sample_addr1, 10, 1),
      (prefix_of all_groups all_groups, sample_addr2, 20, 1)}"
    by (simp add: rp_offers_def mask_rps_def mask_prefix_def sample_fields)
  moreover have "4 \<in> entries_of (sample_rps 0) Current" by (simp add: entries_of_def sample_fields)
  moreover have "offer_of (info (sample_rps 0) 4) = (prefix_of all_groups all_groups, sample_addr1, 10, 1)"
    by (simp add: offer_of_def info_def Let_def mask_prefix_def sample_fields)
  ultimately show ?thesis using delete_rp_grp_entry_correct [OF sample_rps_groups [of 0], of 4 Current sample_addr1] by auto
qed

end
