(* ===== verification/PIM_Vif.thy ===== *)
theory PIM_Vif
  imports RP_Change
begin

unbundle bit_operations_syntax

text \<open>
  The interfaces of \<^verbatim>\<open>pim6sd\<close> with their addresses and PIM neighbours, and the lookups over them (\<^verbatim>\<open>vif.c\<close>), the way
  towards an RP (\<^verbatim>\<open>set_incoming\<close> of \<^verbatim>\<open>route.c\<close>) and the updates of the RPs when neighbours come (\<^verbatim>\<open>update_rp_neighbor\<close> of
  \<^verbatim>\<open>rp.c\<close>) and go (\<^verbatim>\<open>delete_pim6_nbr\<close> of \<^verbatim>\<open>pim6_proto.c\<close>). The array \<^verbatim>\<open>uvifs\<close> up to \<^verbatim>\<open>numvifs\<close> is a list; \<^verbatim>\<open>uv_linklocal\<close> is the
  address it points to.
\<close>

section \<open>Interfaces\<close>

text \<open>\<^verbatim>\<open>MAXMIFS\<close> and \<^verbatim>\<open>MIFF_REGISTER\<close> are constants of the kernel.\<close>

definition NO_VIF :: nat where "NO_VIF = 64"
definition MIFF_REGISTER :: u32 where "MIFF_REGISTER = 0x1"
definition VIFF_DOWN :: u32 where "VIFF_DOWN = 0x000100"
definition VIFF_DISABLED :: u32 where "VIFF_DISABLED = 0x000200"
definition VIFF_DR :: u32 where "VIFF_DR = 0x040000"
definition VIFF_NONBRS :: u32 where "VIFF_NONBRS = 0x080000"
definition VIFF_PIM_NBR :: u32 where "VIFF_PIM_NBR = 0x200000"
definition VIFF_POINT_TO_POINT :: u32 where "VIFF_POINT_TO_POINT = 0x400000"

lemmas viff_defs = MIFF_REGISTER_def VIFF_DOWN_def VIFF_DISABLED_def VIFF_DR_def VIFF_NONBRS_def VIFF_PIM_NBR_def VIFF_POINT_TO_POINT_def

text \<open>A neighbour is known by its address; \<^verbatim>\<open>nbr_ptr\<close> is the pointer that routing entries keep.\<close>

record pim_nbr_entry =
  nbr_ptr :: nat
  nbr_address :: sockaddr_in6
  aux_addrs :: "sockaddr_in6 list"
  nbr_vifi :: nat
  nbr_timer :: u16

record uvif = uvif_addrs +
  uv_flags :: u32
  uv_linklocal :: "sockaddr_in6 option"
  uv_pim_neighbors :: "pim_nbr_entry list"
  uv_pim_hello_timer :: u16
  uv_local_pref :: u32
  uv_local_metric :: u32
  uv_in_pim6_hello :: "64 word"
  uv_in_pim6_bootsrap :: "64 word"
  uv_out_pim6_hello :: "64 word"
  uv_out_pim6_bootsrap :: "64 word"
  uv_pim6_nbr_timo :: "64 word"

definition vif_off :: "uvif \<Rightarrow> bool" where
  "vif_off v \<longleftrightarrow> uv_flags v AND (VIFF_DISABLED OR VIFF_DOWN OR MIFF_REGISTER) \<noteq> 0"

text \<open>The loops over the addresses of one interface end the search with a result or go on (\<^verbatim>\<open>None\<close>).\<close>

fun direct_addrs :: "sockaddr_in6 \<Rightarrow> u32 \<Rightarrow> nat \<Rightarrow> phaddr list \<Rightarrow> nat option" where
  "direct_addrs src flags vifi [] = None"
| "direct_addrs src flags vifi (p # ps) =
     (if inet6_equal src (pa_addr p) then Some NO_VIF
      else if flags AND VIFF_POINT_TO_POINT \<noteq> 0 \<and> inet6_equal src (pa_rmt_addr p) then Some vifi
      else if inet6_match_prefix src (pa_prefix p) (pa_subnetmask p) then Some vifi
      else direct_addrs src flags vifi ps)"

fun find_direct :: "sockaddr_in6 \<Rightarrow> nat \<Rightarrow> uvif list \<Rightarrow> nat" where
  "find_direct src vifi [] = NO_VIF"
| "find_direct src vifi (v # vs) =
     (if vif_off v then find_direct src (vifi + 1) vs
      else (case direct_addrs src (uv_flags v) vifi (uv_addrs v) of Some r \<Rightarrow> r | None \<Rightarrow> find_direct src (vifi + 1) vs))"

definition find_vif_direct :: "sockaddr_in6 \<Rightarrow> uvif list \<Rightarrow> nat" where
  "find_vif_direct src uvifs = find_direct src 0 uvifs"

fun local_from :: "sockaddr_in6 \<Rightarrow> nat \<Rightarrow> uvif list \<Rightarrow> nat" where
  "local_from src vifi [] = NO_VIF"
| "local_from src vifi (v # vs) =
     (if vif_off v then local_from src (vifi + 1) vs
      else if inet6_localif_address src v then vifi
      else local_from src (vifi + 1) vs)"

definition local_address :: "sockaddr_in6 \<Rightarrow> uvif list \<Rightarrow> nat" where
  "local_address src uvifs = local_from src 0 uvifs"

fun direct_local_addrs :: "sockaddr_in6 \<Rightarrow> u32 \<Rightarrow> phaddr list \<Rightarrow> bool" where
  "direct_local_addrs src flags [] = False"
| "direct_local_addrs src flags (p # ps) =
     (if inet6_equal src (pa_addr p) \<or> inet6_match_prefix src (pa_prefix p) (pa_subnetmask p) then True
      else if flags AND VIFF_POINT_TO_POINT \<noteq> 0 \<and> inet6_equal src (pa_rmt_addr p) then True
      else direct_local_addrs src flags ps)"

fun direct_local_from :: "sockaddr_in6 \<Rightarrow> nat \<Rightarrow> uvif list \<Rightarrow> nat" where
  "direct_local_from src vifi [] = NO_VIF"
| "direct_local_from src vifi (v # vs) =
     (if vif_off v then direct_local_from src (vifi + 1) vs
      else if direct_local_addrs src (uv_flags v) (uv_addrs v) then vifi
      else direct_local_from src (vifi + 1) vs)"

definition find_vif_direct_local :: "sockaddr_in6 \<Rightarrow> uvif list \<Rightarrow> nat" where
  "find_vif_direct_local src uvifs = direct_local_from src 0 uvifs"

definition global_addr :: "phaddr \<Rightarrow> bool" where
  "global_addr p \<longleftrightarrow> \<not> IN6_IS_ADDR_LINKLOCAL (sin6_addr (pa_addr p)) \<and> \<not> IN6_IS_ADDR_SITELOCAL (sin6_addr (pa_addr p))"

fun max_global_loop :: "phaddr list \<Rightarrow> phaddr option \<Rightarrow> phaddr option" where
  "max_global_loop [] pmax = pmax"
| "max_global_loop (p # ps) pmax =
     max_global_loop ps
       (case pmax of
          None \<Rightarrow> if global_addr p then Some p else None
        | Some m \<Rightarrow> if inet6_lessthan (pa_addr m) (pa_addr p) \<and> global_addr p then Some p else Some m)"

definition max_global_address :: "uvif list \<Rightarrow> sockaddr_in6 option" where
  "max_global_address uvifs =
     map_option pa_addr (fold (\<lambda>v pmax. if vif_off v then pmax else max_global_loop (uv_addrs v) pmax) uvifs None)"

definition uv_global :: "nat \<Rightarrow> uvif list \<Rightarrow> sockaddr_in6 option" where
  "uv_global vifi uvifs = map_option pa_addr (find global_addr (uv_addrs (uvifs ! vifi)))"

section \<open>The way to an address\<close>

text \<open>
  \<^verbatim>\<open>k_req_incoming\<close> asks the kernel for the route to an address: the interface (\<^verbatim>\<open>NO_VIF\<close> for none) and the next hop. It is
  a parameter.
\<close>

type_synonym rpf_lookup = "sockaddr_in6 \<Rightarrow> nat \<times> sockaddr_in6"

fun find_nbr :: "sockaddr_in6 \<Rightarrow> pim_nbr_entry list \<Rightarrow> nat option" where
  "find_nbr a [] = None"
| "find_nbr a (n # ns) =
     (if inet6_equal a (nbr_address n) then Some (nbr_ptr n)
      else if \<exists>pa \<in> set (aux_addrs n). inet6_equal a pa then Some (nbr_ptr n)
      else find_nbr a ns)"

text \<open>\<^verbatim>\<open>set_incoming\<close> for an RP (\<^verbatim>\<open>PIM_IIF_RP\<close>). Without a route the upstream neighbour stays what it was.\<close>

definition rp_neighbor :: "nat \<Rightarrow> sockaddr_in6 \<Rightarrow> uvif list \<Rightarrow> rpentry \<Rightarrow> bool \<times> rpentry" where
  "rp_neighbor iif neighbor_addr uvifs r =
     (case find_nbr neighbor_addr (uv_pim_neighbors (uvifs ! iif)) of
        Some n \<Rightarrow> (True, r\<lparr>rp_incoming := iif, rp_upstream := Some n\<rparr>)
      | None \<Rightarrow> (False, r\<lparr>rp_incoming := iif, rp_upstream := None\<rparr>))"

definition set_incoming :: "rpf_lookup \<Rightarrow> uvif list \<Rightarrow> rpentry \<Rightarrow> bool \<times> rpentry" where
  "set_incoming rpf uvifs r =
     (let source = rp_address r; r = r\<lparr>rp_metric := 0, rp_preference := 0\<rparr>; l = local_address source uvifs
      in if l \<noteq> NO_VIF then (True, r\<lparr>rp_incoming := l, rp_upstream := None\<rparr>)
         else (let d = find_vif_direct source uvifs
           in if d \<noteq> NO_VIF then rp_neighbor d source uvifs r
              else (let (iif, nbr) = rpf source
                in if iif = NO_VIF \<or> IN6_IS_ADDR_UNSPECIFIED (sin6_addr nbr) then (False, r\<lparr>rp_incoming := NO_VIF\<rparr>)
                   else rp_neighbor iif nbr uvifs
                          (r\<lparr>rp_preference := uv_local_pref (uvifs ! iif), rp_metric := uv_local_metric (uvifs ! iif)\<rparr>))))"

text \<open>What \<^verbatim>\<open>add_cand_rp\<close> makes of it for a new RP.\<close>

definition route_of :: "rpf_lookup \<Rightarrow> uvif list \<Rightarrow> route_lookup" where
  "route_of rpf uvifs address =
     (if local_address address uvifs \<noteq> NO_VIF then None
      else (let r = snd (set_incoming rpf uvifs \<lparr>rp_address = address, rp_incoming = NO_VIF, rp_upstream = None,
                   rp_metric = NOT 0, rp_preference = NOT 0, rp_timer = 0\<rparr>)
        in Some (rp_incoming r, rp_upstream r, rp_metric r, rp_preference r)))"

definition refresh_rp :: "rpf_lookup \<Rightarrow> nat \<Rightarrow> uvif list \<Rightarrow> rpentry \<Rightarrow> rpentry" where
  "refresh_rp rpf reg_vif_num uvifs r =
     (if rp_upstream r \<noteq> None \<or> rp_incoming r = reg_vif_num then r else snd (set_incoming rpf uvifs r))"

text \<open>A loop over \<^verbatim>\<open>cand_rp_list\<close> that changes the entry of each RP.\<close>

definition for_rps :: "(rpentry \<Rightarrow> rpentry) \<Rightarrow> rp_state \<Rightarrow> rp_state" where
  "for_rps f st =
     fold (\<lambda>c st. st\<lparr>cands := (cands st)(c := (cands st c)\<lparr>rpentry_of := f (rpentry_of (cands st c))\<rparr>)\<rparr>) (cand_rp_list st Current) st"

definition update_rp_neighbor :: "rpf_lookup \<Rightarrow> nat \<Rightarrow> uvif list \<Rightarrow> rp_state \<Rightarrow> rp_state" where
  "update_rp_neighbor rpf reg_vif_num uvifs st = for_rps (refresh_rp rpf reg_vif_num uvifs) st"

text \<open>The RP part of \<^verbatim>\<open>delete_pim6_nbr\<close>: RPs behind the neighbour are looked up again.\<close>

definition reroute_rp :: "rpf_lookup \<Rightarrow> nat \<Rightarrow> uvif list \<Rightarrow> nat \<Rightarrow> rpentry \<Rightarrow> rpentry" where
  "reroute_rp rpf reg_vif_num uvifs nbr r =
     (if rp_upstream r \<noteq> Some nbr then r
      else if local_address (rp_address r) uvifs = NO_VIF then snd (set_incoming rpf uvifs r)
      else r\<lparr>rp_incoming := reg_vif_num, rp_upstream := None\<rparr>)"

definition reroute_rps :: "rpf_lookup \<Rightarrow> nat \<Rightarrow> uvif list \<Rightarrow> nat \<Rightarrow> rp_state \<Rightarrow> rp_state" where
  "reroute_rps rpf reg_vif_num uvifs nbr st = for_rps (reroute_rp rpf reg_vif_num uvifs nbr) st"

section \<open>Lookups\<close>

lemma localif_loop_iff: "localif_loop sa ps \<longleftrightarrow> (\<exists>p \<in> set ps. inet6_equal sa (pa_addr p))"
  by (induction sa ps rule: localif_loop.induct) auto

definition own_address :: "sockaddr_in6 \<Rightarrow> uvif \<Rightarrow> bool" where
  "own_address a v \<longleftrightarrow> \<not> vif_off v \<and> (\<exists>p \<in> set (uv_addrs v). inet6_equal a (pa_addr p))"

lemma local_from_spec:
  "(\<exists>i < length vs. local_from a n vs = n + i \<and> own_address a (vs ! i)) \<or> local_from a n vs = NO_VIF \<and> (\<forall>v \<in> set vs. \<not> own_address a v)"
proof (induction a n vs rule: local_from.induct)
  case (2 a n v vs)
  have o: "own_address a v \<longleftrightarrow> \<not> vif_off v \<and> inet6_localif_address a v" by (simp add: own_address_def inet6_localif_address_def localif_loop_iff)
  show ?case
  proof (cases "own_address a v")
    case False
    then have "local_from a n (v # vs) = local_from a (n + 1) vs" using o by auto
    then show ?thesis using 2 False o by (cases "vif_off v") (fastforce intro: exI [of _ "Suc _"])+
  qed (auto simp: o)
qed simp

lemma local_address_iff: "length uvifs \<le> NO_VIF \<Longrightarrow> local_address a uvifs = NO_VIF \<longleftrightarrow> (\<forall>v \<in> set uvifs. \<not> own_address a v)"
  using local_from_spec [of uvifs a 0] by (auto simp: local_address_def)

lemma direct_addrs_spec: "direct_addrs a fl n ps = Some r \<Longrightarrow> r = n \<or> r = NO_VIF"
  by (induction a fl n ps rule: direct_addrs.induct) (auto split: if_splits)

lemma find_direct_bound: "find_direct a n vs = NO_VIF \<or> (\<exists>i < length vs. find_direct a n vs = n + i \<and> \<not> vif_off (vs ! i))"
proof (induction a n vs rule: find_direct.induct)
  case (2 a n v vs)
  show ?case
  proof (cases "vif_off v \<or> direct_addrs a (uv_flags v) n (uv_addrs v) = None")
    case True
    then have "find_direct a n (v # vs) = find_direct a (n + 1) vs" by auto
    then show ?thesis using 2 True by (cases "vif_off v") (fastforce intro: exI [of _ "Suc _"])+
  next
    case False
    then show ?thesis using direct_addrs_spec [of a "uv_flags v" n "uv_addrs v"] by auto
  qed
qed simp

lemma find_vif_direct_bound: "find_vif_direct a uvifs \<noteq> NO_VIF \<Longrightarrow> find_vif_direct a uvifs < length uvifs \<and> \<not> vif_off (uvifs ! find_vif_direct a uvifs)"
  using find_direct_bound [of a 0 uvifs] by (auto simp: find_vif_direct_def)

lemma find_nbr_member: "find_nbr a ns = Some p \<Longrightarrow> p \<in> nbr_ptr ` set ns"
  by (induction a ns rule: find_nbr.induct) (auto split: if_splits)

section \<open>Updating the RPs\<close>

lemma fold_cands:
  assumes "distinct cs"
  shows "fold (\<lambda>c st. st\<lparr>cands := (cands st)(c := (cands st c)\<lparr>rpentry_of := f (rpentry_of (cands st c))\<rparr>)\<rparr>) cs st =
    st\<lparr>cands := \<lambda>c. if c \<in> set cs then (cands st c)\<lparr>rpentry_of := f (rpentry_of (cands st c))\<rparr> else cands st c\<rparr>"
  using assms
proof (induction cs arbitrary: st)
  case (Cons c cs)
  then show ?case by (simp del: fun_upd_apply) (intro rp_state.equality, auto simp: fun_eq_iff)
qed simp

lemma for_rps_eq:
  assumes "rp_ok st"
  shows "for_rps f st = st\<lparr>cands := \<lambda>c. if c \<in> set (cand_rp_list st Current) then (cands st c)\<lparr>rpentry_of := f (rpentry_of (cands st c))\<rparr> else cands st c\<rparr>"
  unfolding for_rps_def by (rule fold_cands [OF rp_ok_distinct(1) [OF assms]])

lemma for_rps_keeps:
  assumes "rp_inv st" and "\<And>r. rp_address (f r) = rp_address r"
  shows "keeps_rps st (for_rps f st)" "rp_table (for_rps f st) = rp_table st"
proof -
  have ok: "rp_ok st" "groups_ok {} st" using assms(1) by (simp_all add: rp_inv_def)
  have a: "cand_address (for_rps f st) = cand_address st" by (auto simp: for_rps_eq [OF ok(1)] cand_address_def assms(2))
  have "rp_ok (for_rps f st)"
    by (rule rp_ok_frame [OF ok(1)]) (use ok(1) in \<open>simp_all add: a, simp_all add: for_rps_eq mask_prefix_def rp_ok_def\<close>)
  then show "keeps_rps st (for_rps f st)"
    by (rule keepsI [OF ok]) (simp_all add: a, simp_all add: for_rps_eq [OF ok(1)] entries_of_def mask_prefix_def)
  show "rp_table (for_rps f st) = rp_table st"
    unfolding rp_table_def a by (simp add: for_rps_eq [OF ok(1)] mask_prefix_def)
qed

lemma set_incoming_address: "rp_address (snd (set_incoming rpf uvifs r)) = rp_address r"
  by (auto simp: set_incoming_def rp_neighbor_def Let_def split: option.split prod.split)

lemma update_rp_neighbor_keeps:
  assumes "rp_inv st"
  shows "keeps_rps st (update_rp_neighbor rpf reg uvifs st)" "rp_table (update_rp_neighbor rpf reg uvifs st) = rp_table st"
  unfolding update_rp_neighbor_def by (rule for_rps_keeps [OF assms]; simp add: refresh_rp_def set_incoming_address)+

lemma reroute_rps_keeps:
  assumes "rp_inv st"
  shows "keeps_rps st (reroute_rps rpf reg uvifs nbr st)" "rp_table (reroute_rps rpf reg uvifs nbr st) = rp_table st"
  unfolding reroute_rps_def by (rule for_rps_keeps [OF assms]; simp add: reroute_rp_def set_incoming_address)+

section \<open>The address of the router\<close>

lemma lessthan_in6_key: "in6_ok a \<Longrightarrow> in6_ok b \<Longrightarrow> inet6_lessthan a b \<longleftrightarrow> in6_key a < in6_key b"
  by (auto simp: key_less less_prod_def)

lemma max_global_loop_append: "max_global_loop (ps @ qs) m = max_global_loop qs (max_global_loop ps m)"
  by (induction ps m rule: max_global_loop.induct) auto

lemma max_global_loop_spec:
  assumes "\<forall>p \<in> set ps \<union> set_option pmax. in6_ok (pa_addr p)" and "\<forall>p \<in> set_option pmax. global_addr p"
  shows "case max_global_loop ps pmax of
      None \<Rightarrow> pmax = None \<and> (\<forall>p \<in> set ps. \<not> global_addr p)
    | Some q \<Rightarrow> global_addr q \<and> q \<in> set ps \<union> set_option pmax \<and>
        (\<forall>p \<in> set ps \<union> set_option pmax. global_addr p \<longrightarrow> in6_key (pa_addr p) \<le> in6_key (pa_addr q))"
  using assms
proof (induction ps pmax rule: max_global_loop.induct)
  case (2 p ps pmax)
  define m where "m = (case pmax of None \<Rightarrow> if global_addr p then Some p else None
      | Some m \<Rightarrow> if inet6_lessthan (pa_addr m) (pa_addr p) \<and> global_addr p then Some p else Some m)"
  have m: "set_option m \<subseteq> insert p (set_option pmax)" "\<forall>q \<in> set_option m. global_addr q" "m = None \<longrightarrow> pmax = None \<and> \<not> global_addr p"
    "\<forall>q. m = Some q \<longrightarrow> (\<forall>x \<in> insert p (set_option pmax). global_addr x \<longrightarrow> in6_key (pa_addr x) \<le> in6_key (pa_addr q))"
    using 2(2,3) by (auto simp: m_def lessthan_in6_key split: option.splits if_splits)
  have "case max_global_loop ps m of
      None \<Rightarrow> m = None \<and> (\<forall>p \<in> set ps. \<not> global_addr p)
    | Some q \<Rightarrow> global_addr q \<and> q \<in> set ps \<union> set_option m \<and>
        (\<forall>p \<in> set ps \<union> set_option m. global_addr p \<longrightarrow> in6_key (pa_addr p) \<le> in6_key (pa_addr q))"
    unfolding m_def by (rule 2(1); fold m_def) (use 2(2) m(1,2) in auto)
  moreover have "max_global_loop (p # ps) pmax = max_global_loop ps m" by (simp add: m_def)
  ultimately show ?case using m by (cases m; cases "max_global_loop ps m") (auto dest: order_trans)
qed (auto split: option.split)

text \<open>The address that the router uses as candidate is the greatest global address of the interfaces that are up.\<close>

lemma max_global_address_correct:
  assumes "\<forall>v \<in> set uvifs. \<forall>p \<in> set (uv_addrs v). in6_ok (pa_addr p)"
  shows "case max_global_address uvifs of
      None \<Rightarrow> \<forall>v \<in> set uvifs. \<not> vif_off v \<longrightarrow> (\<forall>p \<in> set (uv_addrs v). \<not> global_addr p)
    | Some a \<Rightarrow> (\<exists>v \<in> set uvifs. \<not> vif_off v \<and> (\<exists>p \<in> set (uv_addrs v). global_addr p \<and> pa_addr p = a)) \<and>
        (\<forall>v \<in> set uvifs. \<not> vif_off v \<longrightarrow> (\<forall>p \<in> set (uv_addrs v). global_addr p \<longrightarrow> \<not> inet6_lessthan a (pa_addr p)))"
proof -
  let ?ps = "concat (map uv_addrs (filter (\<lambda>v. \<not> vif_off v) uvifs))"
  have "fold (\<lambda>v pmax. if vif_off v then pmax else max_global_loop (uv_addrs v) pmax) uvifs m = max_global_loop ?ps m" for m
    by (induction uvifs arbitrary: m) (auto simp: max_global_loop_append)
  then have e: "max_global_address uvifs = map_option pa_addr (max_global_loop ?ps None)" by (simp add: max_global_address_def)
  have ok: "in6_ok (pa_addr p)" if "p \<in> set ?ps" for p using that assms by auto
  show ?thesis
  proof (cases "max_global_loop ?ps None")
    case None
    then show ?thesis using e max_global_loop_spec [of ?ps None] ok by auto
  next
    case (Some q)
    then have q: "global_addr q" "q \<in> set ?ps" "\<And>p. p \<in> set ?ps \<Longrightarrow> global_addr p \<Longrightarrow> in6_key (pa_addr p) \<le> in6_key (pa_addr q)"
      using max_global_loop_spec [of ?ps None] ok by auto
    have "\<not> inet6_lessthan (pa_addr q) (pa_addr p)" if "p \<in> set ?ps" "global_addr p" for p
      using q(3) [OF that] ok [OF that(1)] ok [OF q(2)] by (simp add: lessthan_in6_key not_less)
    then show ?thesis using e Some q(1,2) by auto
  qed
qed

end
