(* ===== verification/PIM_BSR.thy ===== *)
theory PIM_BSR
  imports RP_Set
begin

unbundle bit_operations_syntax

text \<open>
  The election state of the bootstrap router in \<^verbatim>\<open>pim6sd\<close>: the initial delay of a candidate and the setup of the
  election variables (\<^verbatim>\<open>rp.c\<close>), and the bootstrap timer of \<^verbatim>\<open>age_misc\<close> (\<^verbatim>\<open>timer.c\<close>). The global variables are the record
  \<^verbatim>\<open>bsr\<close>; the address the host chooses and \<^verbatim>\<open>RANDOM()\<close> are arguments; the end of the daemon is \<^verbatim>\<open>None\<close>.
\<close>

section \<open>The bootstrap router\<close>

record bsr =
  curr_bsr_fragment_tag :: u16
  curr_bsr_priority :: byte
  curr_bsr_address :: sockaddr_in6
  curr_bsr_hash_mask :: in6_addr
  pim_bootstrap_timer :: u16
  my_bsr_priority :: byte
  my_bsr_address :: sockaddr_in6
  my_bsr_hash_mask :: in6_addr
  my_bsr_period :: u16
  cand_bsr_flag :: bool

definition PIM_BOOTSTRAP_TIMEOUT :: u16 where [simp]: "PIM_BOOTSTRAP_TIMEOUT = 160"
definition RP_DEFAULT_IPV6_HASHMASKLEN :: nat where [simp]: "RP_DEFAULT_IPV6_HASHMASKLEN = 126"

definition sockaddr6_any :: sockaddr_in6 where
  "sockaddr6_any = \<lparr>sin6_addr = replicate 16 0, sin6_scope_id = 0\<rparr>"

text \<open>
  The bytes of the addresses are compared as \<^verbatim>\<open>char\<close>, which is signed; a negative difference ends the daemon
  (\<^verbatim>\<open>log_msg\<close> with \<^verbatim>\<open>LOG_ERR\<close> calls \<^verbatim>\<open>exit\<close>): \<^verbatim>\<open>None\<close>. The inner loop runs over all bits of the first difference.
\<close>

fun diff_bits :: "int \<Rightarrow> nat list \<Rightarrow> int \<Rightarrow> int" where
  "diff_bits diff [] log_of_2 = log_of_2"
| "diff_bits diff (j # js) log_of_2 =
     (let m = (if j = 0 then -128 else 2 ^ (7 - j))
      in diff_bits diff js (if m AND diff = 0 then log_of_2 - 1 else log_of_2))"

fun addr_log :: "byte list \<Rightarrow> byte list \<Rightarrow> int \<Rightarrow> int option" where
  "addr_log (c # cs) (m # ms) log_of_2 =
     (let diff = sint c - sint m
      in if diff < 0 then None
         else if diff = 0 then addr_log cs ms (log_of_2 - 8)
         else Some (diff_bits diff [0..<8] log_of_2))"
| "addr_log _ _ log_of_2 = Some log_of_2"

definition bootstrap_initial_delay :: "bsr \<Rightarrow> u16 option" where
  "bootstrap_initial_delay b =
     (let bestPriority = max (curr_bsr_priority b) (my_bsr_priority b)
      in do {
        AddrDelay \<leftarrow>
          (if bestPriority = my_bsr_priority b
           then do { log_of_2 \<leftarrow> addr_log (sin6_addr (curr_bsr_address b)) (sin6_addr (my_bsr_address b)) 128;
                     Some (log_of_2 div 64) }
           else Some (2 - uint (drop_bit 7 (sin6_addr (my_bsr_address b) ! 0))));
        let Delay = 1 + uint bestPriority - uint (my_bsr_priority b);
        Some (word_of_int (5 + 2 * Delay + AddrDelay)) })"

text \<open>\<^verbatim>\<open>sa6\<close> is the address of the configured interface or the biggest global address, \<^verbatim>\<open>r\<close> is \<^verbatim>\<open>RANDOM()\<close>.\<close>

definition init_bsr6 :: "sockaddr_in6 \<Rightarrow> u16 \<Rightarrow> bsr \<Rightarrow> bsr option" where
  "init_bsr6 sa6 r b =
     (let b = b\<lparr>my_bsr_address := sa6\<rparr>
      in if \<not> cand_bsr_flag b
         then do {
           m \<leftarrow> MASKLEN_TO_MASK6 RP_DEFAULT_IPV6_HASHMASKLEN;
           Some (b\<lparr>curr_bsr_fragment_tag := 0, curr_bsr_priority := 0, curr_bsr_address := sockaddr6_any,
                   curr_bsr_hash_mask := m, pim_bootstrap_timer := PIM_BOOTSTRAP_TIMEOUT\<rparr>) }
         else (let b = b\<lparr>curr_bsr_fragment_tag := r, curr_bsr_priority := my_bsr_priority b,
                         curr_bsr_address := my_bsr_address b, curr_bsr_hash_mask := my_bsr_hash_mask b\<rparr>
           in do { d \<leftarrow> bootstrap_initial_delay b; Some (b\<lparr>pim_bootstrap_timer := d\<rparr>) }))"

definition TIMER_INFINITY :: u16 where [simp]: "TIMER_INFINITY = 0xffff"

definition TIMEOUT :: "u32 \<Rightarrow> u16 \<Rightarrow> bool \<times> u16" where
  "TIMEOUT timer_interval timer =
     (if timer = TIMER_INFINITY then (False, timer)
      else (let timer = timer - ucast (min (ucast timer) timer_interval) in (timer = 0, timer)))"

text \<open>The bootstrap timer in \<^verbatim>\<open>age_misc\<close>; the flag tells whether a bootstrap message is sent.\<close>

definition bootstrap_timeout :: "u32 \<Rightarrow> u16 \<Rightarrow> bsr \<Rightarrow> (bool \<times> bsr) option" where
  "bootstrap_timeout timer_interval r b =
     (let (expired, t) = TIMEOUT timer_interval (pim_bootstrap_timer b); b = b\<lparr>pim_bootstrap_timer := t\<rparr>
      in if \<not> expired then Some (False, b)
         else if \<not> cand_bsr_flag b
         then do {
           m \<leftarrow> MASKLEN_TO_MASK6 RP_DEFAULT_IPV6_HASHMASKLEN;
           Some (False, b\<lparr>curr_bsr_fragment_tag := 0, curr_bsr_priority := 0, curr_bsr_address := sockaddr6_any,
                   curr_bsr_hash_mask := m, pim_bootstrap_timer := PIM_BOOTSTRAP_TIMEOUT\<rparr>) }
         else if inet6_equal (curr_bsr_address b) (my_bsr_address b)
         then Some (True, b\<lparr>pim_bootstrap_timer := my_bsr_period b\<rparr>)
         else do {
           d \<leftarrow> bootstrap_initial_delay b;
           Some (False, b\<lparr>pim_bootstrap_timer := d, curr_bsr_fragment_tag := r, curr_bsr_priority := my_bsr_priority b,
                   curr_bsr_address := my_bsr_address b, curr_bsr_hash_mask := my_bsr_hash_mask b\<rparr>) })"

lemma diff_bits_range: "l - int (length js) \<le> diff_bits d js l \<and> diff_bits d js l \<le> l"
  by (induction d js l rule: diff_bits.induct) (auto simp: Let_def)

text \<open>The comparison fails at the first byte that differs.\<close>

lemma addr_log_None:
  "length a = length b \<Longrightarrow> addr_log a b l = None \<longleftrightarrow>
     (\<exists>k < length a. take k a = take k b \<and> sint (a ! k) < sint (b ! k))"
proof (induction a b l rule: addr_log.induct)
  case (1 c cs m ms l)
  have "sint c = sint m \<longleftrightarrow> c = m" using signed_word_eqI [of c m] by auto
  then show ?case using 1 by (auto simp: Let_def Ex_less_Suc2)
qed auto

lemma addr_log_range: "length a = length b \<Longrightarrow> addr_log a b l = Some r \<Longrightarrow> l - 8 * int (length a) \<le> r \<and> r \<le> l"
proof (induction a b l rule: addr_log.induct)
  case (1 c cs m ms l)
  then show ?case using diff_bits_range [of l "[0..<8]" "sint c - sint m"] by (auto simp: Let_def split: if_splits)
qed auto


lemma bootstrap_initial_delay_cases:
  assumes "in6_ok (curr_bsr_address b)" and "in6_ok (my_bsr_address b)"
  obtains (ends) "curr_bsr_priority b \<le> my_bsr_priority b"
      "addr_log (sin6_addr (curr_bsr_address b)) (sin6_addr (my_bsr_address b)) 128 = None" "bootstrap_initial_delay b = None"
  | (delay) a where "my_bsr_priority b < curr_bsr_priority b \<or>
        addr_log (sin6_addr (curr_bsr_address b)) (sin6_addr (my_bsr_address b)) 128 \<noteq> None"
      "bootstrap_initial_delay b =
         Some (word_of_int (5 + 2 * (1 + uint (max (curr_bsr_priority b) (my_bsr_priority b)) - uint (my_bsr_priority b)) + a))"
      "0 \<le> a" "a \<le> 2"
proof -
  let ?c = "sin6_addr (curr_bsr_address b)" and ?m = "sin6_addr (my_bsr_address b)"
  let ?best = "max (curr_bsr_priority b) (my_bsr_priority b)"
  have l: "length ?c = 16" "length ?m = 16" using assms by (simp_all add: in6_ok_def)
  have best: "?best = my_bsr_priority b \<longleftrightarrow> curr_bsr_priority b \<le> my_bsr_priority b" by (auto simp: max_def)
  show thesis
  proof (cases "?best = my_bsr_priority b")
    case True
    show thesis
    proof (cases "addr_log ?c ?m 128")
      case None
      then show thesis using True best by (intro ends) (simp_all add: bootstrap_initial_delay_def Let_def)
    next
      case (Some x)
      then have "0 \<le> x" "x \<le> 128" using addr_log_range [of ?c ?m 128 x] l by simp_all
      then show thesis using True Some by (intro delay [of "x div 64"]) (auto simp: bootstrap_initial_delay_def Let_def)
    qed
  next
    case False
    let ?a = "2 - uint (drop_bit 7 (?m ! 0))"
    have "uint (drop_bit 7 (?m ! 0)) = uint (?m ! 0) div 128" by (simp add: drop_bit_eq_div uint_div)
    then have "0 \<le> ?a" "?a \<le> 2" using uint_byte [of "?m ! 0"] uint_ge_0 [of "drop_bit 7 (?m ! 0)"] by linarith+
    then show thesis using False best by (intro delay [of ?a]) (auto simp: bootstrap_initial_delay_def Let_def)
  qed
qed

text \<open>
  C39. What the initial delay of a candidate bootstrap router really is. The daemon ends instead of computing it if and
  only if the own priority is not the lower one and the first byte in which the addresses differ is smaller in
  the current router's address when both are read as signed numbers. Otherwise the delay is
  \<^verbatim>\<open>5 + 2 (1 + best - mine)\<close> plus at most 2 for the address, so between 7 and 519 seconds; the comment in the code has the
  logarithm of \<^verbatim>\<open>1 + best - mine\<close> there, which the code computes and does not use.
\<close>

theorem bootstrap_initial_delay_correct:
  assumes "in6_ok (curr_bsr_address b)" and "in6_ok (my_bsr_address b)"
  shows "(bootstrap_initial_delay b = None \<longleftrightarrow> curr_bsr_priority b \<le> my_bsr_priority b \<and>
      (\<exists>k < 16. take k (sin6_addr (curr_bsr_address b)) = take k (sin6_addr (my_bsr_address b)) \<and>
         sint (sin6_addr (curr_bsr_address b) ! k) < sint (sin6_addr (my_bsr_address b) ! k))) \<and>
    (\<forall>d. bootstrap_initial_delay b = Some d \<longrightarrow>
      (\<exists>a \<in> {0, 1, 2}. uint d = 5 + 2 * (1 + uint (max (curr_bsr_priority b) (my_bsr_priority b)) - uint (my_bsr_priority b)) + a) \<and>
      7 \<le> uint d \<and> uint d \<le> 519)"
proof -
  let ?c = "sin6_addr (curr_bsr_address b)" and ?m = "sin6_addr (my_bsr_address b)"
  let ?best = "max (curr_bsr_priority b) (my_bsr_priority b)"
  define D where "D = 1 + uint ?best - uint (my_bsr_priority b)"
  have l: "length ?c = 16" "length ?m = 16" using assms by (simp_all add: in6_ok_def)
  have "uint (my_bsr_priority b) \<le> uint ?best" by (simp add: max_def word_le_def)
  then have D: "1 \<le> D" "D \<le> 256" using uint_byte [of ?best] uint_byte [of "my_bsr_priority b"] unfolding D_def by linarith+
  have g: "uint (word_of_int x :: u16) = x" if "0 \<le> x" "x < 65536" for x using that by (simp add: unsigned_of_int take_bit_int_eq_self)
  have none: "addr_log ?c ?m 128 = None \<longleftrightarrow> (\<exists>k < 16. take k ?c = take k ?m \<and> sint (?c ! k) < sint (?m ! k))"
    using addr_log_None [of ?c ?m 128] l by simp
  show ?thesis
  proof (rule bootstrap_initial_delay_cases [OF assms], goal_cases)
    case 1
    then show ?thesis using none by simp
  next
    case (2 a)
    note delay = 2 [folded D_def]
    have u: "uint (word_of_int (5 + 2 * D + a) :: u16) = 5 + 2 * D + a" by (rule g) (use D delay in linarith)+
    have "a \<in> {0, 1, 2}" using delay(3,4) by auto
    then have "\<exists>a \<in> {0, 1, 2}. uint (word_of_int (5 + 2 * D + a) :: u16) = 5 + 2 * D + a" using u by blast
    moreover have "7 \<le> 5 + 2 * D + a" "5 + 2 * D + a \<le> 519" using D delay(3,4) by linarith+
    ultimately show ?thesis using delay none u \<open>a \<in> {0, 1, 2}\<close> unfolding D_def [symmetric] by auto
  qed
qed

text \<open>
  A candidate at 2001:db8:0:1:: with priority 5, and its view of a bootstrap router at 2001:db8:80:: with
  priority \<^verbatim>\<open>p\<close> that has timed out.
\<close>

definition sample_bsr :: "byte \<Rightarrow> bsr" where
  "sample_bsr p = \<lparr>curr_bsr_fragment_tag = 3, curr_bsr_priority = p,
     curr_bsr_address = \<lparr>sin6_addr = [0x20, 0x01, 0x0d, 0xb8, 0, 0x80, 0, 0, 0, 0, 0, 0, 0, 0, 0, 0], sin6_scope_id = 0\<rparr>,
     curr_bsr_hash_mask = replicate 16 0xff, pim_bootstrap_timer = 2, my_bsr_priority = 5, my_bsr_address = sample_addr2,
     my_bsr_hash_mask = replicate 16 0xff, my_bsr_period = 60, cand_bsr_flag = True\<rparr>"

text \<open>Although its address is the bigger one, the comparison takes it for the smaller and the daemon ends.\<close>

lemma bootstrap_timeout_exits:
  "bootstrap_timeout 5 0 (sample_bsr 5) = None \<and> inet6_greaterthan (curr_bsr_address (sample_bsr 5)) (my_bsr_address (sample_bsr 5))"
  by code_simp

theorem bootstrap_initial_delay_correct_witness:
  "bootstrap_initial_delay (sample_bsr 9) = Some 17 \<and> bootstrap_initial_delay (sample_bsr 5) = None \<and>
   (\<exists>a \<in> {0, 1, 2}. 17 = 5 + 2 * (1 + 9 - 5) + (a :: int)) \<and>
   (\<exists>k < 16. take k (sin6_addr (curr_bsr_address (sample_bsr 5))) = take k (sin6_addr (my_bsr_address (sample_bsr 5))) \<and>
         sint (sin6_addr (curr_bsr_address (sample_bsr 5)) ! k) < sint (sin6_addr (my_bsr_address (sample_bsr 5)) ! k))"
proof -
  have d: "bootstrap_initial_delay (sample_bsr 9) = Some 17" "bootstrap_initial_delay (sample_bsr 5) = None" by code_simp+
  have m: "uint (max (curr_bsr_priority (sample_bsr 9)) (my_bsr_priority (sample_bsr 9))) = 9" "uint (my_bsr_priority (sample_bsr 9)) = 5"
    "uint (17 :: u16) = 17" by code_simp+
  have ok: "in6_ok (curr_bsr_address (sample_bsr p))" "in6_ok (my_bsr_address (sample_bsr p))" for p
    by (simp_all add: in6_ok_def sample_bsr_def sample_addr2_def)
  have "\<exists>a \<in> {0, 1, 2}. 17 = 5 + 2 * (1 + 9 - 5) + (a :: int)"
    using bootstrap_initial_delay_correct [OF ok, of 9] d(1) m by metis
  then show ?thesis using d bootstrap_initial_delay_correct [OF ok, of 5] by blast
qed

end
