(* ===== verification/PIM_Wire.thy ===== *)
theory PIM_Wire
  imports IPv6_Addr
begin

unbundle bit_operations_syntax

text \<open>
  The macros of \<^verbatim>\<open>pimd.h\<close> that read and write the fields of PIM messages. Reading is from a position in the receive buffer
  and \<^verbatim>\<open>None\<close> behind its end; writing gives the bytes. The locale \<^verbatim>\<open>wire_field\<close> states that a field is read back as it was
  written; the message theories rest on its interpretations.
\<close>

section \<open>Macros for packets\<close>

definition GET_HOSTSHORT :: "byte list \<Rightarrow> nat \<Rightarrow> u16 option" where
  "GET_HOSTSHORT buf cp = do {
     a \<leftarrow> rd buf cp;
     b \<leftarrow> rd buf (cp + 1);
     Some (push_bit 8 (ucast a) OR ucast b) }"

definition PUT_HOSTSHORT :: "u16 \<Rightarrow> byte list" where
  "PUT_HOSTSHORT val = [ucast (drop_bit 8 val), ucast val]"

definition ADDRF_IPv6 :: byte where "ADDRF_IPv6 = 2"
definition ADDRT_IPv6 :: byte where "ADDRT_IPv6 = 0"

record pim6_encod_uni_addr =
  eu_family :: byte
  eu_type :: byte
  unicast_addr :: in6_addr

record pim6_encod_grp_addr =
  eg_family :: byte
  eg_type :: byte
  eg_reserved :: byte
  eg_masklen :: byte
  mcast_addr :: in6_addr

text \<open>Copying \<^verbatim>\<open>sizeof(struct in6_addr)\<close> bytes out of the buffer.\<close>

definition get_in6 :: "byte list \<Rightarrow> nat \<Rightarrow> in6_addr option" where
  "get_in6 buf cp = (if cp + 16 \<le> length buf then Some (bslice buf cp 16) else None)"

definition GET_EUADDR6 :: "byte list \<Rightarrow> nat \<Rightarrow> pim6_encod_uni_addr option" where
  "GET_EUADDR6 buf cp = do {
     f \<leftarrow> rd buf cp;
     t \<leftarrow> rd buf (cp + 1);
     a \<leftarrow> get_in6 buf (cp + 2);
     Some \<lparr>eu_family = f, eu_type = t, unicast_addr = a\<rparr> }"

definition PUT_EUADDR6 :: "in6_addr \<Rightarrow> byte list" where
  "PUT_EUADDR6 addr = [ADDRF_IPv6, ADDRT_IPv6] @ addr"

definition GET_EGADDR6 :: "byte list \<Rightarrow> nat \<Rightarrow> pim6_encod_grp_addr option" where
  "GET_EGADDR6 buf cp = do {
     f \<leftarrow> rd buf cp;
     t \<leftarrow> rd buf (cp + 1);
     r \<leftarrow> rd buf (cp + 2);
     m \<leftarrow> rd buf (cp + 3);
     a \<leftarrow> get_in6 buf (cp + 4);
     Some \<lparr>eg_family = f, eg_type = t, eg_reserved = r, eg_masklen = m, mcast_addr = a\<rparr> }"

definition PUT_EGADDR6 :: "in6_addr \<Rightarrow> byte \<Rightarrow> byte \<Rightarrow> byte list option" where
  "PUT_EGADDR6 addr masklen reserved = do {
     maskaddr \<leftarrow> MASKLEN_TO_MASK6 (unat masklen);
     Some ([ADDRF_IPv6, ADDRT_IPv6, reserved, masklen] @ map (\<lambda>i. maskaddr ! i AND addr ! i) [0..<16]) }"

section \<open>Fields\<close>

text \<open>
  A field of a fixed length: what is written is read back, at any place in a packet. The lemmas describe a packet by
  what is left of it from a position on.
\<close>

locale wire_field =
  fixes put :: "'a \<Rightarrow> byte list" and get :: "byte list \<Rightarrow> nat \<Rightarrow> 'a option" and len :: nat and ok :: "'a \<Rightarrow> bool"
  assumes put_length: "ok a \<Longrightarrow> length (put a) = len"
    and get_put: "ok a \<Longrightarrow> get (xs @ put a @ ys) (length xs) = Some a"
begin

lemma get_at: "ok a \<Longrightarrow> drop p buf = put a @ ys \<Longrightarrow> p \<le> length buf \<Longrightarrow> get buf p = Some a"
  using get_put [of a "take p buf" ys] append_take_drop_id [of p buf] by simp

lemma drop_at: "ok a \<Longrightarrow> drop p buf = put a @ ys \<Longrightarrow> drop (p + len) buf = ys"
  using put_length [of a] drop_drop [of len p buf] by (simp add: add.commute)

lemma fits:
  assumes "ok a" and "drop p buf = put a @ ys" and "p \<le> length buf"
  shows "p + len \<le> length buf"
proof -
  have "length buf - p = length (put a @ ys)" unfolding assms(2) [symmetric] by simp
  then show ?thesis using put_length [OF assms(1)] assms(3) by simp
qed

lemma put_inj: "ok a \<Longrightarrow> ok b \<Longrightarrow> put a = put b \<Longrightarrow> a = b"
  using get_put [of a "[]" "[]"] get_put [of b "[]" "[]"] by simp

lemma length_puts: "\<forall>a \<in> set as. ok a \<Longrightarrow> length (concat (map put as)) = len * length as"
  by (induction as) (auto simp: put_length)

end

lemma rd_append: "rd (xs @ ys) (length xs + k) = rd ys k"
  by (simp add: rd_def nth_append)

lemma get_in6_append: "length a = 16 \<Longrightarrow> get_in6 (xs @ a @ ys) (length xs) = Some a"
  by (simp add: get_in6_def bslice_def)

interpretation hs: wire_field PUT_HOSTSHORT GET_HOSTSHORT 2 "\<lambda>_. True"
proof
  fix a :: u16 and xs ys :: "byte list"
  have "push_bit 8 (ucast (ucast (drop_bit 8 a) :: byte)) OR ucast (ucast a :: byte) = a"
    by (rule bit_word_eqI) (auto simp: bit_simps)
  then show "GET_HOSTSHORT (xs @ PUT_HOSTSHORT a @ ys) (length xs) = Some a"
    by (simp add: GET_HOSTSHORT_def PUT_HOSTSHORT_def rd_def nth_append)
qed (simp add: PUT_HOSTSHORT_def)

interpretation eu: wire_field "\<lambda>e. PUT_EUADDR6 (unicast_addr e)" GET_EUADDR6 18
  "\<lambda>e. eu_family e = ADDRF_IPv6 \<and> eu_type e = ADDRT_IPv6 \<and> length (unicast_addr e) = 16"
proof
  fix e :: pim6_encod_uni_addr and xs ys
  assume a: "eu_family e = ADDRF_IPv6 \<and> eu_type e = ADDRT_IPv6 \<and> length (unicast_addr e) = 16"
  then show "GET_EUADDR6 (xs @ PUT_EUADDR6 (unicast_addr e) @ ys) (length xs) = Some e"
    using get_in6_append [of "unicast_addr e" "xs @ [ADDRF_IPv6, ADDRT_IPv6]" ys]
    by (simp add: GET_EUADDR6_def PUT_EUADDR6_def rd_def nth_append)
qed (simp add: PUT_EUADDR6_def)

text \<open>A group is written with the bits outside the mask cleared.\<close>

definition eg_ok :: "pim6_encod_grp_addr \<Rightarrow> bool" where
  "eg_ok e \<longleftrightarrow> eg_family e = ADDRF_IPv6 \<and> eg_type e = ADDRT_IPv6 \<and> unat (eg_masklen e) \<le> 128 \<and> length (mcast_addr e) = 16 \<and>
     (\<forall>m. MASKLEN_TO_MASK6 (unat (eg_masklen e)) = Some m \<longrightarrow> map (\<lambda>i. m ! i AND mcast_addr e ! i) [0..<16] = mcast_addr e)"

definition put_eg :: "pim6_encod_grp_addr \<Rightarrow> byte list" where
  "put_eg e = [eg_family e, eg_type e, eg_reserved e, eg_masklen e] @ mcast_addr e"

lemma PUT_EGADDR6_eq: "eg_ok e \<Longrightarrow> PUT_EGADDR6 (mcast_addr e) (eg_masklen e) (eg_reserved e) = Some (put_eg e)"
  by (auto simp: PUT_EGADDR6_def eg_ok_def put_eg_def MASKLEN_TO_MASK6_eq)

interpretation eg: wire_field put_eg GET_EGADDR6 20 eg_ok
proof
  fix e :: pim6_encod_grp_addr and xs ys
  assume a: "eg_ok e"
  then show "GET_EGADDR6 (xs @ put_eg e @ ys) (length xs) = Some e"
    using get_in6_append [of "mcast_addr e" "xs @ [eg_family e, eg_type e, eg_reserved e, eg_masklen e]" ys]
    by (simp add: GET_EGADDR6_def put_eg_def rd_def nth_append eg_ok_def eval_nat_numeral)
qed (simp add: put_eg_def eg_ok_def)

end
