(* ===== verification/PIM_Bootstrap.thy ===== *)
theory PIM_Bootstrap
  imports PIM_Vif PIM_BSR PIM_Wire
begin

unbundle bit_operations_syntax

text \<open>
  Bootstrap messages and advertisements of candidate RPs (\<^verbatim>\<open>pim6_proto.c\<close>, \<^verbatim>\<open>create_pim6_bootstrap_message\<close> of \<^verbatim>\<open>rp.c\<close>) and the
  timers behind them (\<^verbatim>\<open>age_misc\<close> of \<^verbatim>\<open>timer.c\<close>), on the state of the daemon: interfaces, RP set and bootstrap router. \<^verbatim>\<open>None\<close> is
  an access outside the receive buffer or through NULL. Every handler keeps the invariant of the state (\<^verbatim>\<open>pim_inv\<close>), whatever
  the message holds.
\<close>

section \<open>The state of the daemon\<close>

record pim_state =
  uvifs :: "uvif list"
  rps :: rp_state
  bs :: bsr
  cand_rp_flag :: bool
  pim_cand_rp_adv_timer :: u16
  my_cand_rp_adv_period :: u16
  my_cand_rp_address :: sockaddr_in6
  my_cand_rp_priority :: byte
  my_cand_rp_holdtime :: u16
  cand_rp_adv_message :: "byte list"
  pim_hello_period :: u16
  pim_hello_holdtime :: u16
  nbr_fresh :: nat

text \<open>
  What a handler finds outside: the answers of the kernel to \<^verbatim>\<open>k_req_incoming\<close>, the register interface, and the contents of
  variables on the stack that are used without being set, as a function of the place in the message.
\<close>

record pim_env =
  env_rpf :: rpf_lookup
  env_reg :: nat
  env_uninit :: sockaddr_in6
  env_junk :: "nat \<Rightarrow> u32 \<times> u32"
  env_scope :: u32

datatype pim_effect = Rp_effect rp_effect | Send_pim6 sockaddr_in6 sockaddr_in6 byte "byte list" | Lost_dr nat | Nbr_gone pim_nbr_entry

definition PIM_HELLO :: byte where "PIM_HELLO = 0"
definition PIM_BOOTSTRAP :: byte where "PIM_BOOTSTRAP = 4"
definition PIM_CAND_RP_ADV :: byte where "PIM_CAND_RP_ADV = 8"

definition RECV_BUF_SIZE :: nat where "RECV_BUF_SIZE = 64 * 1024"

definition allpim6routers_group :: sockaddr_in6 where
  "allpim6routers_group = \<lparr>sin6_addr = [0xff, 0x02, 0, 0, 0, 0, 0, 0, 0, 0, 0, 0, 0, 0, 0, 0x0d], sin6_scope_id = 0\<rparr>"

definition sockaddr6_d :: sockaddr_in6 where
  "sockaddr6_d = \<lparr>sin6_addr = 0xff # replicate 15 0, sin6_scope_id = 0\<rparr>"

definition ALL_MCAST_GROUPS_LENGTH :: nat where "ALL_MCAST_GROUPS_LENGTH = 8"

text \<open>The length of the PIM header that the checks count (\<^verbatim>\<open>PIM_MINLEN\<close>) and the one that is skipped.\<close>

definition PIM_MINLEN :: nat where "PIM_MINLEN = 8"
definition sizeof_pim :: nat where "sizeof_pim = 4"

section \<open>Bootstrap messages\<close>

definition put_rp :: "rp_state \<Rightarrow> nat \<Rightarrow> byte list" where
  "put_rp st e =
     PUT_EUADDR6 (sin6_addr (cand_address st (rg_rp (ents st e)))) @ PUT_HOSTSHORT (advholdtime (ents st e)) @ [rg_priority (ents st e), 0]"

definition put_grp_mask :: "rp_state \<Rightarrow> nat \<Rightarrow> byte list option" where
  "put_grp_mask st m =
     (let es = filter (\<lambda>e. rg_origin (ents st e) = RP_ORIGIN_BSR) (grp_rp_chain (masks st m))
      in if es = [] then Some []
         else do {
           eg \<leftarrow> PUT_EGADDR6 (sin6_addr (group_addr (masks st m))) (MASK_TO_MASKLEN6 (group_mask (masks st m))) 0;
           Some (eg @ [group_rp_number (masks st m), group_rp_number (masks st m)] @ PUT_HOSTSHORT 0 @ concat (map (put_rp st) es)) })"

fun put_grp_masks :: "rp_state \<Rightarrow> nat list \<Rightarrow> byte list option" where
  "put_grp_masks st [] = Some []"
| "put_grp_masks st (m # ms) = do { g \<leftarrow> put_grp_mask st m; gs \<leftarrow> put_grp_masks st ms; Some (g @ gs) }"

definition create_pim6_bootstrap_message :: "pim_state \<Rightarrow> (byte list \<times> pim_state) option" where
  "create_pim6_bootstrap_message st =
     (if IN6_IS_ADDR_UNSPECIFIED (sin6_addr (curr_bsr_address (bs st))) then Some ([], st)
      else (let b = bs st;
                b = (if inet6_equal (curr_bsr_address b) (my_bsr_address b)
                     then b\<lparr>curr_bsr_fragment_tag := curr_bsr_fragment_tag b + 1\<rparr> else b)
        in do {
          gs \<leftarrow> put_grp_masks (rps st) (grp_mask_list (rps st) Current);
          let msg = PUT_HOSTSHORT (curr_bsr_fragment_tag b) @ [MASK_TO_MASKLEN6 (curr_bsr_hash_mask b), curr_bsr_priority b] @
                      PUT_EUADDR6 (sin6_addr (curr_bsr_address b)) @ gs;
          if sizeof_pim + length msg > RECV_BUF_SIZE then None else Some (msg, st\<lparr>bs := b\<rparr>) }))"

text \<open>Sending on every interface that is up; without a link-local address it dereferences NULL.\<close>

fun bootstrap_out :: "byte list \<Rightarrow> uvif list \<Rightarrow> (pim_effect list \<times> uvif list) option" where
  "bootstrap_out msg [] = Some ([], [])"
| "bootstrap_out msg (v # vs) =
     (if vif_off v then do { (fs, vs) \<leftarrow> bootstrap_out msg vs; Some (fs, v # vs) }
      else do {
        ll \<leftarrow> uv_linklocal v;
        (fs, vs) \<leftarrow> bootstrap_out msg vs;
        Some (Send_pim6 ll allpim6routers_group PIM_BOOTSTRAP msg # fs, v\<lparr>uv_out_pim6_bootsrap := uv_out_pim6_bootsrap v + 1\<rparr> # vs) })"

definition send_pim6_bootstrap :: "pim_state \<Rightarrow> (pim_effect list \<times> pim_state) option" where
  "send_pim6_bootstrap st = do {
     (msg, st) \<leftarrow> create_pim6_bootstrap_message st;
     if msg = [] then Some ([], st)
     else do { (fs, vs) \<leftarrow> bootstrap_out msg (uvifs st); Some (fs, st\<lparr>uvifs := vs\<rparr>) } }"

section \<open>Receiving a bootstrap message\<close>

text \<open>The four \<^verbatim>\<open>GET\<close> macros for one RP: address, holdtime and priority.\<close>

definition get_rp :: "byte list \<Rightarrow> nat \<Rightarrow> (in6_addr \<times> u16 \<times> byte) option" where
  "get_rp buf p = do {
     eu \<leftarrow> GET_EUADDR6 buf p;
     hold \<leftarrow> GET_HOSTSHORT buf (p + 18);
     pri \<leftarrow> rd buf (p + 20);
     _ \<leftarrow> rd buf (p + 21);
     Some (unicast_addr eu, hold, pri) }"

text \<open>What stays the same while the groups of a message are read.\<close>

record boot_ctx =
  bc_env :: pim_env
  bc_vifs :: "uvif list"
  bc_vif :: uvif
  bc_hash_mask :: in6_addr
  bc_tag :: u16
  bc_buf :: "byte list"
  bc_max :: nat

definition add_bsr_entry ::
  "boot_ctx \<Rightarrow> rp_lists \<Rightarrow> sockaddr_in6 \<Rightarrow> byte \<Rightarrow> u16 \<Rightarrow> in6_addr \<Rightarrow> in6_addr \<Rightarrow> rp_state \<Rightarrow> (rp_effect list \<times> rp_state) option" where
  "add_bsr_entry c used rp pri hold grp gmask st =
     map_option snd (add_rp_grp_entry (env_uninit (bc_env c)) (route_of (env_rpf (bc_env c)) (bc_vifs c)) (env_reg (bc_env c)) used rp pri
       RP_ORIGIN_BSR hold \<lparr>sin6_addr = grp, sin6_scope_id = inet6_uvif2scopeid \<lparr>sin6_addr = grp, sin6_scope_id = 0\<rparr> (bc_vif c)\<rparr>
       gmask (bc_hash_mask c) (bc_tag c) st)"

text \<open>
  The loop for a complete list. The flag tells that the message ends too early (\<^verbatim>\<open>goto garbage_collect\<close>). \<^verbatim>\<open>sc\<close> is
  \<^verbatim>\<open>rpp_.sin6_scope_id\<close>, which the loop for partial lists does not set.
\<close>

fun add_all_rps ::
  "boot_ctx \<Rightarrow> in6_addr \<Rightarrow> in6_addr \<Rightarrow> nat \<Rightarrow> nat \<Rightarrow> u32 \<Rightarrow> rp_state \<Rightarrow> (rp_effect list \<times> bool \<times> u32 \<times> rp_state) option" where
  "add_all_rps c grp gmask 0 p sc st = Some ([], False, sc, st)"
| "add_all_rps c grp gmask (Suc n) p sc st =
     (if p + 18 + 4 > bc_max c then Some ([], True, sc, st)
      else do {
        (a, hold, pri) \<leftarrow> get_rp (bc_buf c) p;
        if IN6_IS_ADDR_LINKLOCAL a \<or> IN6_IS_ADDR_SITELOCAL a then add_all_rps c grp gmask n (p + 22) sc st
        else do {
          (fs, st) \<leftarrow> add_bsr_entry c Current \<lparr>sin6_addr = a, sin6_scope_id = 0\<rparr> pri hold grp gmask st;
          (fs', r) \<leftarrow> add_all_rps c grp gmask n (p + 22) 0 st;
          Some (fs @ fs', r) } })"

text \<open>The loops for partial lists, without a check of the length.\<close>

fun add_frag_rps ::
  "boot_ctx \<Rightarrow> rp_lists \<Rightarrow> u32 \<Rightarrow> in6_addr \<Rightarrow> in6_addr \<Rightarrow> nat \<Rightarrow> nat \<Rightarrow> rp_state \<Rightarrow> (rp_effect list \<times> rp_state) option" where
  "add_frag_rps c used sc grp gmask 0 p st = Some ([], st)"
| "add_frag_rps c used sc grp gmask (Suc n) p st = do {
     (a, hold, pri) \<leftarrow> get_rp (bc_buf c) p;
     (fs, st) \<leftarrow> add_bsr_entry c used \<lparr>sin6_addr = a, sin6_scope_id = sc\<rparr> pri hold grp gmask st;
     (fs', st) \<leftarrow> add_frag_rps c used sc grp gmask n (p + 22) st;
     Some (fs @ fs', st) }"

text \<open>The entries that have been saved from earlier segments.\<close>

fun add_saved_rps :: "boot_ctx \<Rightarrow> in6_addr \<Rightarrow> in6_addr \<Rightarrow> nat list \<Rightarrow> rp_state \<Rightarrow> (rp_effect list \<times> rp_state) option" where
  "add_saved_rps c grp gmask [] st = Some ([], st)"
| "add_saved_rps c grp gmask (e # es) st = do {
     (fs, st) \<leftarrow> add_bsr_entry c Current (cand_address st (rg_rp (ents st e))) (rg_priority (ents st e)) (holdtime (ents st e)) grp gmask st;
     (fs', st) \<leftarrow> add_saved_rps c grp gmask es st;
     Some (fs @ fs', st) }"

text \<open>The prefix among the segments; the scopes of the compared addresses are not set.\<close>

definition find_segment :: "u32 \<times> u32 \<Rightarrow> in6_addr \<Rightarrow> in6_addr \<Rightarrow> rp_state \<Rightarrow> nat option" where
  "find_segment junk grp gmask st =
     find (\<lambda>m. \<not> inet6_greaterthan ((mask_prefix st m)\<lparr>sin6_scope_id := snd junk\<rparr>) ((prefix_of grp gmask)\<lparr>sin6_scope_id := fst junk\<rparr>))
       (grp_mask_list st Segmented)"

definition segment_complete :: "rp_state \<Rightarrow> in6_addr \<Rightarrow> in6_addr \<Rightarrow> nat \<Rightarrow> nat \<Rightarrow> nat \<Rightarrow> bool" where
  "segment_complete st grp gmask count frag m \<longleftrightarrow>
     sin6_addr (group_addr (masks st m)) = grp \<and> group_mask (masks st m) = gmask \<and> unat (group_rp_number (masks st m)) + frag = count"

definition boot_segment ::
  "boot_ctx \<Rightarrow> in6_addr \<Rightarrow> in6_addr \<Rightarrow> nat \<Rightarrow> nat \<Rightarrow> nat \<Rightarrow> u32 \<Rightarrow> rp_state \<Rightarrow> (rp_effect list \<times> u32 \<times> rp_state) option" where
  "boot_segment c grp gmask count frag p sc st =
     (case find_segment (env_junk (bc_env c) 0) grp gmask st of
        Some m \<Rightarrow>
          if segment_complete st grp gmask count frag m
          then do {
            (fs1, st) \<leftarrow> add_frag_rps c Current 0 grp gmask frag p st;
            (fs2, st) \<leftarrow> add_saved_rps c grp gmask (grp_rp_chain (masks st m)) st;
            (fs3, st) \<leftarrow> (case env_junk (bc_env c) p of (s1, s2) \<Rightarrow>
               delete_grp_mask s1 s2 (env_uninit (bc_env c)) Segmented \<lparr>sin6_addr = grp, sin6_scope_id = 0\<rparr> gmask st);
            Some (fs1 @ fs2 @ fs3, if frag = 0 then sc else 0, st) }
          else do { (fs, st) \<leftarrow> add_frag_rps c Segmented sc grp gmask frag p st; Some (fs, sc, st) }
      | None \<Rightarrow> do { (fs, st) \<leftarrow> add_frag_rps c Segmented sc grp gmask frag p st; Some (fs, sc, st) })"

text \<open>
  One group of the message, from the position \<^verbatim>\<open>p\<close>; the result has the number of RPs that have been passed. A prefix of
  narrow scope is left without passing its RPs.
\<close>

definition boot_group ::
  "boot_ctx \<Rightarrow> nat \<Rightarrow> u32 \<Rightarrow> rp_state \<Rightarrow> (rp_effect list \<times> bool \<times> nat \<times> u32 \<times> rp_state) option" where
  "boot_group c p sc st = do {
     eg \<leftarrow> GET_EGADDR6 (bc_buf c) p;
     count \<leftarrow> rd (bc_buf c) (p + 20);
     frag \<leftarrow> rd (bc_buf c) (p + 21);
     _ \<leftarrow> GET_HOSTSHORT (bc_buf c) (p + 22);
     gmask \<leftarrow> MASKLEN_TO_MASK6 (unat (eg_masklen eg));
     let grp = mcast_addr eg;
     if IN6_IS_ADDR_MC_NODELOCAL grp \<or> IN6_IS_ADDR_MC_LINKLOCAL grp then Some ([], False, 0, sc, st)
     else if count = 0 then do {
       (fs, st) \<leftarrow> (case env_junk (bc_env c) p of (s1, s2) \<Rightarrow>
          delete_grp_mask s1 s2 (env_uninit (bc_env c)) Current \<lparr>sin6_addr = grp, sin6_scope_id = 0\<rparr> gmask st);
       Some (fs, False, 0, sc, st) }
     else if count = frag then do {
       (fs, gc, sc, st) \<leftarrow> add_all_rps c grp gmask (unat frag) (p + 24) sc st;
       Some (fs, gc, unat frag, sc, st) }
     else do {
       (fs, sc, st) \<leftarrow> boot_segment c grp gmask (unat count) (unat frag) (p + 24) sc st;
       Some (fs, False, unat frag, sc, st) } }"

function boot_loop :: "boot_ctx \<Rightarrow> nat \<Rightarrow> u32 \<Rightarrow> rp_state \<Rightarrow> (rp_effect list \<times> rp_state) option" where
  "boot_loop c p sc st =
     (if p + 24 \<le> bc_max c
      then do {
        (fs, gc, n, sc, st) \<leftarrow> boot_group c p sc st;
        if gc then Some (fs, st)
        else do { (fs', st) \<leftarrow> boot_loop c (p + 24 + 22 * n) sc st; Some (fs @ fs', st) } }
      else Some ([], st))"
  by pat_completeness auto
termination by (relation "measure (\<lambda>(c, p, sc, st). bc_max c - p)") auto

declare boot_loop.simps [simp del]

text \<open>Garbage collection: entries of a prefix in this message that it did not refresh.\<close>

fun collect_entries :: "sockaddr_in6 \<Rightarrow> rp_lists \<Rightarrow> u16 \<Rightarrow> nat list \<Rightarrow> rp_state \<Rightarrow> (rp_effect list \<times> rp_state) option" where
  "collect_entries uninit used tag [] st = Some ([], st)"
| "collect_entries uninit used tag (e # es) st =
     (if rg_origin (ents st e) \<noteq> RP_ORIGIN_BSR then collect_entries uninit used tag es st
      else if rg_fragment_tag (ents st e) \<noteq> tag
      then do {
        (fs, st) \<leftarrow> delete_rp_grp_entry uninit used e st;
        (fs', st) \<leftarrow> collect_entries uninit used tag es st;
        Some (fs @ fs', st) }
      else collect_entries uninit used tag es st)"

fun collect_masks :: "sockaddr_in6 \<Rightarrow> rp_lists \<Rightarrow> u16 \<Rightarrow> nat list \<Rightarrow> rp_state \<Rightarrow> (rp_effect list \<times> rp_state) option" where
  "collect_masks uninit used tag [] st = Some ([], st)"
| "collect_masks uninit used tag (m # ms) st =
     (if gm_fragment_tag (masks st m) = tag
      then do {
        (fs, st) \<leftarrow> collect_entries uninit used tag (grp_rp_chain (masks st m)) st;
        (fs', st) \<leftarrow> collect_masks uninit used tag ms st;
        Some (fs @ fs', st) }
      else collect_masks uninit used tag ms st)"

definition garbage_collect :: "sockaddr_in6 \<Rightarrow> u16 \<Rightarrow> rp_state \<Rightarrow> (rp_effect list \<times> rp_state) option" where
  "garbage_collect uninit tag st = do {
     (fs, st) \<leftarrow> collect_masks uninit Current tag (grp_mask_list st Current) st;
     (fs', st) \<leftarrow> collect_masks uninit Segmented tag (grp_mask_list st Segmented) st;
     Some (fs @ fs', st) }"

text \<open>
  The interface towards the bootstrap router: inside, \<^verbatim>\<open>None\<close> is a message that is ignored. The neighbours are in
  descending order of their addresses.
\<close>

fun is_neighbor :: "sockaddr_in6 \<Rightarrow> pim_nbr_entry list \<Rightarrow> bool" where
  "is_neighbor a [] = False"
| "is_neighbor a (n # ns) =
     (if inet6_lessthan a (nbr_address n) then is_neighbor a ns else inet6_equal a (nbr_address n))"

fun linklocal_vif :: "sockaddr_in6 \<Rightarrow> nat \<Rightarrow> uvif list \<Rightarrow> nat option option" where
  "linklocal_vif dst mifi [] = Some None"
| "linklocal_vif dst mifi (v # vs) =
     (if vif_off v then linklocal_vif dst (mifi + 1) vs
      else do { ll \<leftarrow> uv_linklocal v; if inet6_equal ll dst then Some (Some mifi) else linklocal_vif dst (mifi + 1) vs })"

definition bootstrap_iif :: "pim_env \<Rightarrow> sockaddr_in6 \<Rightarrow> sockaddr_in6 \<Rightarrow> sockaddr_in6 \<Rightarrow> pim_state \<Rightarrow> nat option option" where
  "bootstrap_iif env src dst new_bsr_address st =
     (if sin6_addr dst = sin6_addr allpim6routers_group
      then (let (iif, nbr) = env_rpf env new_bsr_address
        in if iif = NO_VIF \<or> IN6_IS_ADDR_UNSPECIFIED (sin6_addr nbr) then Some None
           else if length (uvifs st) \<le> iif then None
           else if vif_off (uvifs st ! iif) then Some None
           else Some (if is_neighbor src (uv_pim_neighbors (uvifs st ! iif)) then Some iif else None))
      else if local_address dst (uvifs st) = NO_VIF then Some None
      else if cand_rp_list (rps st) Current \<noteq> [] then Some None
      else linklocal_vif dst 0 (uvifs st))"

fun forward_bootstrap :: "nat \<Rightarrow> byte list \<Rightarrow> nat \<Rightarrow> uvif list \<Rightarrow> pim_effect list option" where
  "forward_bootstrap incoming msg mifi [] = Some []"
| "forward_bootstrap incoming msg mifi (v # vs) =
     (if mifi = incoming \<or> vif_off v \<or> uv_flags v AND VIFF_NONBRS \<noteq> 0 then forward_bootstrap incoming msg (mifi + 1) vs
      else do {
        ll \<leftarrow> uv_linklocal v;
        fs \<leftarrow> forward_bootstrap incoming msg (mifi + 1) vs;
        Some (Send_pim6 ll allpim6routers_group PIM_BOOTSTRAP msg # fs) })"

definition PIM6_BOOTSTRAP_MINLEN :: nat where "PIM6_BOOTSTRAP_MINLEN = PIM_MINLEN + 18"

text \<open>From the forwarding of an accepted message on.\<close>

definition accept_bootstrap ::
  "pim_env \<Rightarrow> nat \<Rightarrow> nat \<Rightarrow> u16 \<Rightarrow> byte \<Rightarrow> byte \<Rightarrow> sockaddr_in6 \<Rightarrow> byte list \<Rightarrow> nat \<Rightarrow> pim_state \<Rightarrow> (pim_effect list \<times> pim_state) option" where
  "accept_bootstrap env mifi incoming tag hash_masklen priority new_bsr_address buf datalen st =
     (let st = (if cand_rp_flag st \<and> \<not> inet6_equal new_bsr_address (curr_bsr_address (bs st)) then st\<lparr>pim_cand_rp_adv_timer := 0\<rparr> else st)
      in do {
        out \<leftarrow> forward_bootstrap incoming (bslice buf sizeof_pim (datalen - sizeof_pim)) 0 (uvifs st);
        let rs = (if tag \<noteq> curr_bsr_fragment_tag (bs st) \<or> inet6_equal new_bsr_address (curr_bsr_address (bs st))
                  then delete_rp_list Segmented (rps st) else rps st);
        hmask \<leftarrow> MASKLEN_TO_MASK6 (unat hash_masklen);
        let b = (bs st)\<lparr>curr_bsr_address := new_bsr_address, curr_bsr_priority := priority, curr_bsr_fragment_tag := tag,
                        curr_bsr_hash_mask := hmask, pim_bootstrap_timer := PIM_BOOTSTRAP_TIMEOUT\<rparr>;
        (fs, rs) \<leftarrow> boot_loop \<lparr>bc_env = env, bc_vifs = uvifs st, bc_vif = uvifs st ! mifi, bc_hash_mask = hmask, bc_tag = tag,
                       bc_buf = buf, bc_max = datalen\<rparr> (sizeof_pim + 22) (env_scope env) rs;
        (fs', rs) \<leftarrow> garbage_collect (env_uninit env) tag rs;
        Some (out @ map Rp_effect (fs @ fs'), st\<lparr>bs := b, rps := rs\<rparr>) })"

definition receive_pim6_bootstrap ::
  "pim_env \<Rightarrow> sockaddr_in6 \<Rightarrow> sockaddr_in6 \<Rightarrow> byte list \<Rightarrow> nat \<Rightarrow> pim_state \<Rightarrow> (bool \<times> pim_effect list \<times> pim_state) option" where
  "receive_pim6_bootstrap env src dst buf datalen st =
     (let mifi = find_vif_direct src (uvifs st)
      in if mifi = NO_VIF then Some (False, [], st)
         else if datalen < PIM6_BOOTSTRAP_MINLEN then Some (False, [], st)
         else (let v = uvifs st ! mifi;
                   v = v\<lparr>uv_in_pim6_bootsrap := uv_in_pim6_bootsrap v + 1\<rparr>;
                   st = st\<lparr>uvifs := (uvifs st)[mifi := v]\<rparr>
           in do {
             tag \<leftarrow> GET_HOSTSHORT buf sizeof_pim;
             hash_masklen \<leftarrow> rd buf (sizeof_pim + 2);
             priority \<leftarrow> rd buf (sizeof_pim + 3);
             eu \<leftarrow> GET_EUADDR6 buf (sizeof_pim + 4);
             let a = unicast_addr eu;
             if IN6_IS_ADDR_MULTICAST a \<or> IN6_IS_ADDR_LINKLOCAL a \<or> IN6_IS_ADDR_SITELOCAL a then Some (False, [], st)
             else (let new_bsr_address = \<lparr>sin6_addr = a, sin6_scope_id = inet6_uvif2scopeid \<lparr>sin6_addr = a, sin6_scope_id = 0\<rparr> v\<rparr>
               in if local_address new_bsr_address (uvifs st) \<noteq> NO_VIF then Some (False, [], st)
                  else if curr_bsr_priority (bs st) > priority \<or>
                    curr_bsr_priority (bs st) = priority \<and> inet6_greaterthan (curr_bsr_address (bs st)) new_bsr_address
                  then Some (False, [], st)
                  else do {
                    iif \<leftarrow> bootstrap_iif env src dst new_bsr_address st;
                    (case iif of
                       None \<Rightarrow> Some (False, [], st)
                     | Some incoming \<Rightarrow> do {
                         (fs, st) \<leftarrow> accept_bootstrap env mifi incoming tag hash_masklen priority new_bsr_address buf datalen st;
                         Some (True, fs, st) }) }) }))"

section \<open>Advertisements of candidate RPs\<close>

definition PIM6_CAND_RP_ADV_MINLEN :: nat where "PIM6_CAND_RP_ADV_MINLEN = PIM_MINLEN + 18"

definition add_cand_entry ::
  "pim_env \<Rightarrow> sockaddr_in6 \<Rightarrow> byte \<Rightarrow> u16 \<Rightarrow> sockaddr_in6 \<Rightarrow> in6_addr \<Rightarrow> pim_state \<Rightarrow> (pim_effect list \<times> pim_state) option" where
  "add_cand_entry env rp pri hold grp gmask st = do {
     (_, fs, rs) \<leftarrow> add_rp_grp_entry (env_uninit env) (route_of (env_rpf env) (uvifs st)) (env_reg env) Current rp pri RP_ORIGIN_BSR hold grp
        gmask (my_bsr_hash_mask (bs st)) (curr_bsr_fragment_tag (bs st)) (rps st);
     Some (map Rp_effect fs, st\<lparr>rps := rs\<rparr>) }"

fun adv_prefixes ::
  "pim_env \<Rightarrow> byte list \<Rightarrow> sockaddr_in6 \<Rightarrow> byte \<Rightarrow> u16 \<Rightarrow> nat \<Rightarrow> int \<Rightarrow> nat \<Rightarrow> pim_state \<Rightarrow> (bool \<times> pim_effect list \<times> pim_state) option" where
  "adv_prefixes env buf rp pri hold 0 datalen p st = Some (True, [], st)"
| "adv_prefixes env buf rp pri hold (Suc n) datalen p st =
     (if datalen < 20 then Some (False, [], st)
      else do {
        eg \<leftarrow> GET_EGADDR6 buf p;
        gmask \<leftarrow> MASKLEN_TO_MASK6 (unat (eg_masklen eg));
        (fs, st) \<leftarrow> add_cand_entry env rp pri hold \<lparr>sin6_addr = mcast_addr eg, sin6_scope_id = 0\<rparr> gmask st;
        (r, fs', st) \<leftarrow> adv_prefixes env buf rp pri hold n (datalen - 20) (p + 20) st;
        Some (r, fs @ fs', st) })"

definition receive_pim6_cand_rp_adv :: "pim_env \<Rightarrow> byte list \<Rightarrow> nat \<Rightarrow> pim_state \<Rightarrow> (bool \<times> pim_effect list \<times> pim_state) option" where
  "receive_pim6_cand_rp_adv env buf datalen st =
     (if cand_bsr_flag (bs st) \<and> \<not> inet6_equal (curr_bsr_address (bs st)) (my_bsr_address (bs st)) then Some (False, [], st)
      else if datalen < PIM6_CAND_RP_ADV_MINLEN then Some (False, [], st)
      else do {
        prefix_cnt \<leftarrow> rd buf sizeof_pim;
        priority \<leftarrow> rd buf (sizeof_pim + 1);
        holdtime \<leftarrow> GET_HOSTSHORT buf (sizeof_pim + 2);
        eu \<leftarrow> GET_EUADDR6 buf (sizeof_pim + 4);
        if IN6_IS_ADDR_LINKLOCAL (unicast_addr eu) then Some (False, [], st)
        else (let rpp = \<lparr>sin6_addr = unicast_addr eu, sin6_scope_id = 0\<rparr>
          in if prefix_cnt = 0
             then do {
               gmask \<leftarrow> MASKLEN_TO_MASK6 ALL_MCAST_GROUPS_LENGTH;
               (fs, st) \<leftarrow> add_cand_entry env rpp priority holdtime sockaddr6_d gmask st;
               Some (True, fs, st) }
             else adv_prefixes env buf rpp priority holdtime (unat prefix_cnt) (int datalen - int PIM6_CAND_RP_ADV_MINLEN) (sizeof_pim + 22) st) })"

text \<open>The bootstrap router adds its own prefixes itself.\<close>

fun own_prefixes :: "pim_env \<Rightarrow> byte list \<Rightarrow> nat \<Rightarrow> nat \<Rightarrow> pim_state \<Rightarrow> (pim_effect list \<times> pim_state) option" where
  "own_prefixes env buf 0 p st = Some ([], st)"
| "own_prefixes env buf (Suc n) p st = do {
     eg \<leftarrow> GET_EGADDR6 buf p;
     gmask \<leftarrow> MASKLEN_TO_MASK6 (unat (eg_masklen eg));
     (fs, st) \<leftarrow> add_cand_entry env (my_cand_rp_address st) (my_cand_rp_priority st) (my_cand_rp_holdtime st)
        \<lparr>sin6_addr = mcast_addr eg, sin6_scope_id = 0\<rparr> gmask st;
     (fs', st) \<leftarrow> own_prefixes env buf n (p + 20) st;
     Some (fs @ fs', st) }"

definition send_pim6_cand_rp_adv :: "pim_env \<Rightarrow> pim_state \<Rightarrow> (bool \<times> pim_effect list \<times> pim_state) option" where
  "send_pim6_cand_rp_adv env st =
     (if \<not> inet6_valid_host (curr_bsr_address (bs st)) then Some (False, [], st)
      else if inet6_equal (curr_bsr_address (bs st)) (my_bsr_address (bs st))
      then do {
        prefix_cnt \<leftarrow> rd (cand_rp_adv_message st) 0;
        (fs, st) \<leftarrow>
          (if prefix_cnt = 0
           then do {
             gmask \<leftarrow> MASKLEN_TO_MASK6 ALL_MCAST_GROUPS_LENGTH;
             add_cand_entry env (my_cand_rp_address st) (my_cand_rp_priority st) (my_cand_rp_holdtime st) sockaddr6_d gmask st }
           else own_prefixes env (cand_rp_adv_message st) (unat prefix_cnt) (4 + 18) st);
        Some (True, fs, st) }
      else Some (True, [Send_pim6 (my_cand_rp_address st) (curr_bsr_address (bs st)) PIM_CAND_RP_ADV (cand_rp_adv_message st)], st))"

section \<open>Timers\<close>

text \<open>\<^verbatim>\<open>age_misc\<close>: the entries whose holdtime is over, the advertisements and the bootstrap timer.\<close>

fun age_entries :: "sockaddr_in6 \<Rightarrow> u32 \<Rightarrow> nat list \<Rightarrow> rp_state \<Rightarrow> (rp_effect list \<times> rp_state) option" where
  "age_entries uninit interval [] st = Some ([], st)"
| "age_entries uninit interval (e # es) st =
     (let (expired, t) = TIMEOUT interval (holdtime (ents st e));
          st = st\<lparr>ents := (ents st)(e := (ents st e)\<lparr>holdtime := t\<rparr>)\<rparr>
      in if expired
         then do {
           (fs, st) \<leftarrow> delete_rp_grp_entry uninit Current e st;
           (fs', st) \<leftarrow> age_entries uninit interval es st;
           Some (fs @ fs', st) }
         else age_entries uninit interval es st)"

fun age_masks :: "sockaddr_in6 \<Rightarrow> u32 \<Rightarrow> nat list \<Rightarrow> rp_state \<Rightarrow> (rp_effect list \<times> rp_state) option" where
  "age_masks uninit interval [] st = Some ([], st)"
| "age_masks uninit interval (m # ms) st = do {
     (fs, st) \<leftarrow> age_entries uninit interval (grp_rp_chain (masks st m)) st;
     (fs', st) \<leftarrow> age_masks uninit interval ms st;
     Some (fs @ fs', st) }"

definition age_cand_rp_adv :: "pim_env \<Rightarrow> u32 \<Rightarrow> pim_state \<Rightarrow> (pim_effect list \<times> pim_state) option" where
  "age_cand_rp_adv env interval st =
     (if \<not> cand_rp_flag st then Some ([], st)
      else (let (expired, t) = TIMEOUT interval (pim_cand_rp_adv_timer st); st = st\<lparr>pim_cand_rp_adv_timer := t\<rparr>
        in if expired
           then do {
             (_, fs, st) \<leftarrow> send_pim6_cand_rp_adv env st;
             Some (fs, st\<lparr>pim_cand_rp_adv_timer := my_cand_rp_adv_period st\<rparr>) }
           else Some ([], st)))"

definition age_misc :: "pim_env \<Rightarrow> u32 \<Rightarrow> u16 \<Rightarrow> pim_state \<Rightarrow> (pim_effect list \<times> pim_state) option" where
  "age_misc env interval r st = do {
     (fs1, rs) \<leftarrow> age_masks (env_uninit env) interval (grp_mask_list (rps st) Current) (rps st);
     (fs2, st) \<leftarrow> age_cand_rp_adv env interval (st\<lparr>rps := rs\<rparr>);
     (send, b) \<leftarrow> bootstrap_timeout interval r (bs st);
     let st = st\<lparr>bs := b\<rparr>;
     (fs3, st) \<leftarrow> (if send then send_pim6_bootstrap st else Some ([], st));
     Some (map Rp_effect fs1 @ fs2 @ fs3, st) }"

section \<open>Every message keeps the RP set in order\<close>

lemma get_rp_ok: "get_rp buf p = Some (a, hold, pri) \<Longrightarrow> length a = 16"
  by (auto simp: get_rp_def GET_EUADDR6_def get_in6_def bslice_def Option.bind_eq_Some_conv split: if_splits)

text \<open>What only grows while entries are added.\<close>

definition grows :: "rp_state \<Rightarrow> rp_state \<Rightarrow> bool" where
  "grows st st' \<longleftrightarrow> (\<forall>v. entries_of st v \<subseteq> entries_of st' v \<and> set (grp_mask_list st v) \<subseteq> set (grp_mask_list st' v))"

lemma grows_trans: "grows a b \<Longrightarrow> grows b c \<Longrightarrow> grows a c"
  unfolding grows_def by blast

lemma add_bsr_entry_more:
  assumes "rp_inv st" and "length (sin6_addr rp) = 16" and "inet6_valid_host rp" and "IN6_IS_ADDR_MULTICAST grp"
  shows "\<exists>e fs st' gm hm. add_bsr_entry c u rp pri hold grp gmask st = Some (fs, st') \<and>
    rp_ok st' \<and> groups_ok {} st' \<and> (\<forall>v. entries_of st' v = entries_of st v \<union> (if v = u then {e} else {})) \<and>
    (\<forall>f \<in> all_entries st - {e}. info st' f = info st f) \<and>
    info st' e = \<lparr>i_prefix = prefix_of grp gmask, i_gmask = gm, i_hmask = hm, i_rp = rp,
      i_priority = pri, i_origin = RP_ORIGIN_BSR, i_holdtime = hold, i_advholdtime = hold, i_tag = bc_tag c\<rparr> \<and>
    (\<forall>v. mask_infos st' v = mask_infos st v \<union> (if v = u then {(prefix_of grp gmask, gm, hm)} else {})) \<and>
    ((prefix_of grp gmask, gm, hm) \<in> mask_infos st u \<or>
       prefix_of grp gmask \<notin> fst ` mask_infos st u \<and> gm = gmask \<and> hm = bc_hash_mask c) \<and>
    (e \<in> all_entries st \<longrightarrow> offer_of (info st e) = offer_of (info st' e)) \<and>
    (\<forall>v. set (grp_mask_list st' v) = set (grp_mask_list st v) \<union> (if v = u then {rg_group (ents st' e)} else {})) \<and>
    (\<forall>n. gm_fragment_tag (masks st' n) = (if n = rg_group (ents st' e) then bc_tag c else gm_fragment_tag (masks st n))) \<and>
    (\<forall>n. n \<noteq> rg_group (ents st' e) \<longrightarrow> mask_prefix st' n = mask_prefix st n)"
proof -
  let ?g = "\<lparr>sin6_addr = grp, sin6_scope_id = inet6_uvif2scopeid \<lparr>sin6_addr = grp, sin6_scope_id = 0\<rparr> (bc_vif c)\<rparr>"
  have ok: "rp_ok st" "groups_ok {} st" "in6_ok rp" "RP_ORIGIN_BSR < 2" using assms by (simp_all add: rp_inv_def in6_ok_def)
  have g: "IN6_IS_ADDR_MULTICAST (sin6_addr ?g)" using assms(4) by simp
  show ?thesis
    using add_rp_grp_entry_more [OF ok assms(3) g, of "env_uninit (bc_env c)" "route_of (env_rpf (bc_env c)) (bc_vifs c)" "env_reg (bc_env c)" u pri hold gmask
        "bc_hash_mask c" "bc_tag c"]
    by (elim exE conjE) (intro exI conjI, simp add: add_bsr_entry_def, (assumption | simp)+)
qed

lemma add_bsr_entry_inv:
  assumes "rp_inv st" and "length (sin6_addr rp) = 16"
  shows "\<exists>fs st'. add_bsr_entry c u rp pri hold grp gmask st = Some (fs, st') \<and> rp_inv st' \<and> grows st st'"
proof (cases "inet6_valid_host rp \<and> IN6_IS_ADDR_MULTICAST grp")
  case True
  then show ?thesis using add_bsr_entry_more [OF assms, of grp c u pri hold gmask] unfolding rp_inv_def grows_def by fastforce
next
  case False
  then show ?thesis using assms(1) by (auto simp: add_bsr_entry_def add_rp_grp_entry_def grows_def)
qed

lemma add_all_rps_inv: "add_all_rps c grp gmask n p sc st = Some (fs, gc, sc', st') \<Longrightarrow> rp_inv st \<Longrightarrow> rp_inv st'"
proof (induction c grp gmask n p sc st arbitrary: fs rule: add_all_rps.induct)
  case (2 c grp gmask n p sc st)
  show ?case
  proof (cases "p + 18 + 4 > bc_max c")
    case False
    then obtain a hold pri where g: "get_rp (bc_buf c) p = Some (a, hold, pri)" using "2.prems"(1) by (auto simp: Option.bind_eq_Some_conv)
    show ?thesis
    proof (cases "IN6_IS_ADDR_LINKLOCAL a \<or> IN6_IS_ADDR_SITELOCAL a")
      case True
      then show ?thesis using "2.IH"(1) [OF False g refl refl] "2.prems" False g by auto
    next
      case ll: False
      obtain fs1 s1 where s1: "add_bsr_entry c Current \<lparr>sin6_addr = a, sin6_scope_id = 0\<rparr> pri hold grp gmask st = Some (fs1, s1)" "rp_inv s1"
        using add_bsr_entry_inv [OF "2.prems"(2), of "\<lparr>sin6_addr = a, sin6_scope_id = 0\<rparr>" c Current pri hold grp gmask] get_rp_ok [OF g] by auto
      have "\<exists>fs'. add_all_rps c grp gmask n (p + 22) 0 s1 = Some (fs', gc, sc', st')"
        using "2.prems"(1) False g ll s1(1) by (auto simp: Option.bind_eq_Some_conv)
      then show ?thesis using "2.IH"(2) [OF False g refl refl ll s1(1) refl] s1(2) by blast
    qed
  qed (use "2.prems" in auto)
qed simp

lemma add_frag_rps_inv:
  "add_frag_rps c u sc grp gmask n p st = Some (fs, st') \<Longrightarrow> rp_inv st \<Longrightarrow> rp_inv st' \<and> grows st st'"
proof (induction n arbitrary: p st fs)
  case (Suc n)
  then obtain a hold pri where g: "get_rp (bc_buf c) p = Some (a, hold, pri)" by (auto simp: Option.bind_eq_Some_conv)
  obtain fs1 s1 where s1: "add_bsr_entry c u \<lparr>sin6_addr = a, sin6_scope_id = sc\<rparr> pri hold grp gmask st = Some (fs1, s1)" "rp_inv s1" "grows st s1"
    using add_bsr_entry_inv [OF Suc.prems(2), of "\<lparr>sin6_addr = a, sin6_scope_id = sc\<rparr>" c u pri hold grp gmask] get_rp_ok [OF g] by auto
  then obtain fs2 where "add_frag_rps c u sc grp gmask n (p + 22) s1 = Some (fs2, st')"
    using Suc.prems(1) g by (auto simp: Option.bind_eq_Some_conv)
  then show ?case using Suc.IH [OF _ s1(2)] s1(3) grows_trans by blast
qed (simp add: grows_def)

lemma entry_address_ok: "rp_inv st \<Longrightarrow> e \<in> entries_of st u \<Longrightarrow> length (sin6_addr (cand_address st (rg_rp (ents st e)))) = 16"
  using entries_ok [of st u] rp_ok_lists [of st u] by (auto simp: rp_inv_def entries_of_def entry_ok_def in6_ok_def)

lemma add_saved_rps_inv:
  "rp_inv st \<Longrightarrow> set es \<subseteq> entries_of st u \<Longrightarrow> \<exists>fs st'. add_saved_rps c grp gmask es st = Some (fs, st') \<and> rp_inv st'"
proof (induction es arbitrary: st)
  case (Cons e es)
  then obtain fs1 s1 where s1: "add_bsr_entry c Current (cand_address st (rg_rp (ents st e))) (rg_priority (ents st e)) (holdtime (ents st e)) grp gmask st = Some (fs1, s1)"
      "rp_inv s1" "grows st s1"
    using add_bsr_entry_inv [OF Cons.prems(1) entry_address_ok [OF Cons.prems(1), of e u], of c Current "rg_priority (ents st e)" "holdtime (ents st e)" grp gmask] by auto
  then show ?case using Cons.IH [OF s1(2)] Cons.prems(2) s1(3) by (fastforce simp: grows_def)
qed simp

lemma find_segment_member: "find_segment junk grp gmask st = Some m \<Longrightarrow> m \<in> set (grp_mask_list st Segmented)"
  by (auto simp: find_segment_def find_Some_iff)

lemma boot_segment_inv:
  assumes "boot_segment c grp gmask count frag p sc st = Some (fs, sc', st')" and "rp_inv st"
  shows "rp_inv st'"
proof -
  obtain j1 j2 where j: "env_junk (bc_env c) p = (j1, j2)" by fastforce
  consider m s1 fs1 s2 fs2 fs3 where "find_segment (env_junk (bc_env c) 0) grp gmask st = Some m"
      "add_frag_rps c Current 0 grp gmask frag p st = Some (fs1, s1)" "add_saved_rps c grp gmask (grp_rp_chain (masks s1 m)) s1 = Some (fs2, s2)"
      "delete_grp_mask j1 j2 (env_uninit (bc_env c)) Segmented \<lparr>sin6_addr = grp, sin6_scope_id = 0\<rparr> gmask s2 = Some (fs3, st')"
    | fs1 where "add_frag_rps c Segmented sc grp gmask frag p st = Some (fs1, st')"
    using assms(1) by (auto simp: boot_segment_def j Option.bind_eq_Some_conv split: option.splits if_splits prod.splits)
  then show ?thesis
  proof cases
    case 1
    have s1: "rp_inv s1" "grows st s1" using add_frag_rps_inv [OF 1(2) assms(2)] by simp_all
    have "m \<in> set (grp_mask_list s1 Segmented)" using find_segment_member [OF 1(1)] s1(2) by (auto simp: grows_def)
    then have "set (grp_rp_chain (masks s1 m)) \<subseteq> entries_of s1 Segmented" by (auto simp: entries_of_def)
    then have "rp_inv s2" using add_saved_rps_inv [OF s1(1), of _ Segmented c grp gmask] 1(3) by fastforce
    then show ?thesis using delete_grp_mask_inv [of s2 j1 j2 "env_uninit (bc_env c)" Segmented "\<lparr>sin6_addr = grp, sin6_scope_id = 0\<rparr>" gmask] 1(4) by auto
  next
    case 2
    then show ?thesis using add_frag_rps_inv [OF 2 assms(2)] by simp
  qed
qed

lemma boot_group_inv:
  assumes "boot_group c p sc st = Some (fs, gc, n, sc', st')" and "rp_inv st"
  shows "rp_inv st'"
proof -
  obtain j1 j2 where j: "env_junk (bc_env c) p = (j1, j2)" by fastforce
  consider "st' = st"
    | fs1 grp gmask where "delete_grp_mask j1 j2 (env_uninit (bc_env c)) Current \<lparr>sin6_addr = grp, sin6_scope_id = 0\<rparr> gmask st = Some (fs1, st')"
    | fs1 grp gmask frag where "add_all_rps c grp gmask frag (p + 24) sc st = Some (fs1, gc, sc', st')"
    | fs1 grp gmask count frag where "boot_segment c grp gmask count frag (p + 24) sc st = Some (fs1, sc', st')"
    using assms(1) by (auto simp: boot_group_def j Let_def Option.bind_eq_Some_conv split: if_splits)
  then show ?thesis
  proof cases
    case (2 fs1 grp gmask)
    then show ?thesis
      using delete_grp_mask_inv [OF assms(2), of j1 j2 "env_uninit (bc_env c)" Current "\<lparr>sin6_addr = grp, sin6_scope_id = 0\<rparr>" gmask] by auto
  next
    case (3 fs1 grp gmask frag)
    then show ?thesis by (rule add_all_rps_inv [OF _ assms(2)])
  next
    case (4 fs1 grp gmask count frag)
    then show ?thesis by (rule boot_segment_inv [OF _ assms(2)])
  qed (use assms(2) in simp)
qed

lemma boot_loop_inv: "boot_loop c p sc st = Some (fs, st') \<Longrightarrow> rp_inv st \<Longrightarrow> rp_inv st'"
proof (induction c p sc st arbitrary: fs rule: boot_loop.induct)
  case (1 c p sc st)
  show ?case
  proof (cases "p + 24 \<le> bc_max c")
    case True
    then obtain fs1 gc n sc1 s1 where g: "boot_group c p sc st = Some (fs1, gc, n, sc1, s1)"
      using 1(2) by (subst (asm) boot_loop.simps) (auto simp: Option.bind_eq_Some_conv)
    have inv: "rp_inv s1" using boot_group_inv [OF g 1(3)] .
    show ?thesis
    proof (cases gc)
      case True
      then show ?thesis using 1(2) g \<open>p + 24 \<le> bc_max c\<close> inv by (subst (asm) boot_loop.simps) auto
    next
      case False
      then obtain fs2 where "boot_loop c (p + 24 + 22 * n) sc1 s1 = Some (fs2, st')"
        using 1(2) g True by (subst (asm) boot_loop.simps) (auto simp: Option.bind_eq_Some_conv)
      then show ?thesis using "1.IH" [OF True g refl refl refl refl False] inv by blast
    qed
  qed (use 1(2,3) in \<open>simp add: boot_loop.simps\<close>)
qed

text \<open>Garbage collection deletes exactly the entries that are stale.\<close>

definition stale :: "u16 \<Rightarrow> rp_state \<Rightarrow> nat \<Rightarrow> bool" where
  "stale tag st e \<longleftrightarrow> rg_origin (ents st e) = RP_ORIGIN_BSR \<and> rg_fragment_tag (ents st e) \<noteq> tag"

definition trims :: "nat set \<Rightarrow> nat set \<Rightarrow> rp_state \<Rightarrow> rp_state \<Rightarrow> bool" where
  "trims D M st st' \<longleftrightarrow> rp_inv st' \<and> same_data st st' \<and> (\<forall>v. entries_of st' v = entries_of st v - D) \<and>
     (\<forall>n. n \<notin> M \<longrightarrow> masks st' n = masks st n) \<and> (\<forall>v. set (grp_mask_list st v) - M \<subseteq> set (grp_mask_list st' v))"

lemma trims_refl: "rp_inv st \<Longrightarrow> trims {} M st st"
  by (auto simp: trims_def same_data_refl)

lemma trims_trans: "trims D M a b \<Longrightarrow> trims E N b c \<Longrightarrow> trims (D \<union> E) (M \<union> N) a c"
  unfolding trims_def using same_data_trans [of a b c] by (auto simp: Diff_eq) blast+

lemma trims_subset: "trims D M a b \<Longrightarrow> M \<subseteq> N \<Longrightarrow> trims D N a b"
  unfolding trims_def by blast

lemma same_data_stale: "same_data a b \<Longrightarrow> stale tag b e = stale tag a e"
  by (simp add: stale_def same_data_fields)

lemma collect_entries_ok:
  assumes "rp_inv st" and "distinct es" and "set es \<subseteq> entries_of st u" and "\<forall>e \<in> set es. rg_group (ents st e) = m"
  shows "\<exists>fs st'. collect_entries uninit u tag es st = Some (fs, st') \<and> trims {e \<in> set es. stale tag st e} {m} st st'"
  using assms
proof (induction es arbitrary: st)
  case Nil
  then show ?case using trims_refl by simp
next
  case (Cons e es)
  show ?case
  proof (cases "stale tag st e")
    case True
    obtain fs1 s1 where 1: "delete_rp_grp_entry uninit u e st = Some (fs1, s1)" "trims {e} {m} st s1"
      using delete_entry_inv [OF Cons.prems(1), of e u uninit] Cons.prems(3,4) unfolding trims_def by auto
    have d: "same_data st s1" "rp_inv s1" "\<And>v. entries_of s1 v = entries_of st v - {e}" using 1(2) by (simp_all add: trims_def)
    obtain fs2 s2 where 2: "collect_entries uninit u tag es s1 = Some (fs2, s2)" "trims {e \<in> set es. stale tag s1 e} {m} s1 s2"
      using Cons.IH [OF d(2)] Cons.prems(2-4) d(3) by (auto simp: same_data_fields [OF d(1)] subset_Diff_insert)
    have "{e} \<union> {e \<in> set es. stale tag s1 e} = {x \<in> set (e # es). stale tag st x}"
      using True by (auto simp: same_data_stale [OF d(1)])
    then show ?thesis using trims_trans [OF 1(2) 2(2)] True 1(1) 2(1) by (auto simp: stale_def)
  next
    case False
    then have "{x \<in> set (e # es). stale tag st x} = {e \<in> set es. stale tag st e}" by auto
    then show ?thesis using Cons.IH [OF Cons.prems(1)] Cons.prems(2-4) False by (auto simp: stale_def)
  qed
qed

definition tag_of :: "rp_state \<Rightarrow> nat \<Rightarrow> u16" where
  "tag_of st e = gm_fragment_tag (masks st (rg_group (ents st e)))"

lemma same_data_tag: "same_data a b \<Longrightarrow> tag_of b e = tag_of a e"
  by (simp add: tag_of_def same_data_fields) (simp add: same_data_def)

lemma chain_entries:
  assumes "rp_inv st" and "m \<in> set (grp_mask_list st u)"
  shows "distinct (grp_rp_chain (masks st m))" "set (grp_rp_chain (masks st m)) = {e \<in> entries_of st u. rg_group (ents st e) = m}"
proof -
  have ok: "rp_ok st" using assms(1) by (simp add: rp_inv_def)
  show "distinct (grp_rp_chain (masks st m))"
    using lists_okD(4) [OF ok assms(2)] sorted_wrt_distinct [of "entry_key st"] by (auto simp: mask_ok_def)
  show "set (grp_rp_chain (masks st m)) = {e \<in> entries_of st u. rg_group (ents st e) = m}"
    using mask_ok_entry(1) [OF ok] assms(2) by (auto simp: entries_of_def)
qed

lemma collect_masks_ok:
  assumes "rp_inv st" and "distinct ms" and "set ms \<subseteq> set (grp_mask_list st u)"
  shows "\<exists>fs st'. collect_masks uninit u tag ms st = Some (fs, st') \<and>
    trims {e \<in> entries_of st u. rg_group (ents st e) \<in> set ms \<and> tag_of st e = tag \<and> stale tag st e} (set ms) st st'"
  using assms
proof (induction ms arbitrary: st)
  case Nil
  then show ?case using trims_refl by simp
next
  case (Cons m ms)
  have m: "m \<in> set (grp_mask_list st u)" using Cons.prems(3) by simp
  note ch = chain_entries [OF Cons.prems(1) m]
  have a: "set (grp_rp_chain (masks st m)) \<subseteq> entries_of st u" "\<forall>e \<in> set (grp_rp_chain (masks st m)). rg_group (ents st e) = m" using ch(2) by auto
  let ?D = "\<lambda>st ms. {e \<in> entries_of st u. rg_group (ents st e) \<in> set ms \<and> tag_of st e = tag \<and> stale tag st e}"
  show ?case
  proof (cases "gm_fragment_tag (masks st m) = tag")
    case True
    obtain fs1 s1 where 1: "collect_entries uninit u tag (grp_rp_chain (masks st m)) st = Some (fs1, s1)"
        "trims {e \<in> set (grp_rp_chain (masks st m)). stale tag st e} {m} st s1"
      using collect_entries_ok [OF Cons.prems(1) ch(1) a, of uninit tag] by blast
    have d: "same_data st s1" "rp_inv s1" "entries_of s1 u = entries_of st u - {e \<in> set (grp_rp_chain (masks st m)). stale tag st e}"
      "set (grp_mask_list st u) - {m} \<subseteq> set (grp_mask_list s1 u)" using 1(2) by (simp_all add: trims_def)
    have sub: "set ms \<subseteq> set (grp_mask_list s1 u)" using d(4) Cons.prems(2,3) by auto
    obtain fs2 s2 where 2: "collect_masks uninit u tag ms s1 = Some (fs2, s2)" "trims (?D s1 ms) (set ms) s1 s2"
      using Cons.IH [OF d(2) _ sub] Cons.prems(2) by auto
    have gm: "gm_fragment_tag (masks s1 n) = gm_fragment_tag (masks st n)" for n using d(1) by (simp add: same_data_def)
    have "{e \<in> set (grp_rp_chain (masks st m)). stale tag st e} \<union> ?D s1 ms = ?D st (m # ms)"
      using True Cons.prems(2,3) ch(2)
      by (auto simp: d(3) same_data_fields [OF d(1)] same_data_stale [OF d(1)] gm tag_of_def)
    then have "trims (?D st (m # ms)) (set (m # ms)) st s2" using trims_trans [OF 1(2) 2(2)] by simp
    then show ?thesis using True 1(1) 2(1) by simp
  next
    case False
    then have "?D st (m # ms) = ?D st ms" by (auto simp: tag_of_def)
    then show ?thesis using Cons.IH [OF Cons.prems(1)] Cons.prems(2,3) False trims_subset [of _ "set ms" _ _ "set (m # ms)"] by fastforce
  qed
qed

lemma garbage_collect_ok:
  assumes "rp_inv st"
  shows "\<exists>fs st'. garbage_collect uninit tag st = Some (fs, st') \<and> rp_inv st' \<and> same_data st st' \<and>
    (\<forall>v. entries_of st' v = {e \<in> entries_of st v. \<not> (tag_of st e = tag \<and> stale tag st e)})"
proof -
  let ?D = "\<lambda>st u. {e \<in> entries_of st u. rg_group (ents st e) \<in> set (grp_mask_list st u) \<and> tag_of st e = tag \<and> stale tag st e}"
  have d: "distinct (grp_mask_list s u)" if "rp_inv s" for s u using rp_ok_distinct(2) that by (simp add: rp_inv_def)
  have g: "rg_group (ents s e) \<in> set (grp_mask_list s u)" if "rp_inv s" "e \<in> entries_of s u" for s e u
    using that mask_ok_entry(1) by (auto simp: rp_inv_def entries_of_def)
  obtain fs1 s1 where 1: "collect_masks uninit Current tag (grp_mask_list st Current) st = Some (fs1, s1)" "trims (?D st Current) (set (grp_mask_list st Current)) st s1"
    using collect_masks_ok [OF assms d [OF assms, of Current] subset_refl] by blast
  have t1: "rp_inv s1" "same_data st s1" "\<And>v. entries_of s1 v = entries_of st v - ?D st Current" using 1(2) by (simp_all add: trims_def)
  obtain fs2 s2 where 2: "collect_masks uninit Segmented tag (grp_mask_list s1 Segmented) s1 = Some (fs2, s2)" "trims (?D s1 Segmented) (set (grp_mask_list s1 Segmented)) s1 s2"
    using collect_masks_ok [OF t1(1) d [OF t1(1), of Segmented] subset_refl] by blast
  have t2: "rp_inv s2" "same_data s1 s2" "\<And>v. entries_of s2 v = entries_of s1 v - ?D s1 Segmented" using 2(2) by (simp_all add: trims_def)
  have D: "?D s u = {e \<in> entries_of s u. tag_of s e = tag \<and> stale tag s e}" if "rp_inv s" for s u using g [OF that] by auto
  have dis: "e \<notin> entries_of st w" if "e \<in> entries_of st v" "v \<noteq> w" for e v w
    using entries_disjoint [of st e v w] that assms by (auto simp: rp_inv_def)
  have "entries_of s2 v = {e \<in> entries_of st v. \<not> (tag_of st e = tag \<and> stale tag st e)}" for v
    unfolding t2(3) D [OF t1(1)] unfolding t1(3) D [OF assms] same_data_tag [OF t1(2)] same_data_stale [OF t1(2)]
    using dis [of _ v] by (cases v) auto
  then show ?thesis using 1(1) 2(1) t2(1) same_data_trans [OF t1(2) t2(2)] by (simp add: garbage_collect_def)
qed

section \<open>Aging\<close>

definition set_hold :: "u32 \<Rightarrow> nat set \<Rightarrow> rp_state \<Rightarrow> rp_state" where
  "set_hold interval X st =
     st\<lparr>ents := \<lambda>e. if e \<in> X then (ents st e)\<lparr>holdtime := snd (TIMEOUT interval (holdtime (ents st e)))\<rparr> else ents st e\<rparr>"

lemma set_hold_fields [simp]:
  "masks (set_hold i X st) = masks st" "cands (set_hold i X st) = cands st" "grp_mask_list (set_hold i X st) = grp_mask_list st"
  "cand_rp_list (set_hold i X st) = cand_rp_list st" "rp_fresh (set_hold i X st) = rp_fresh st" "rp_crc (set_hold i X st) = rp_crc st"
  "grps (set_hold i X st) = grps st" "grplist (set_hold i X st) = grplist st"
  "entries_of (set_hold i X st) = entries_of st" "cand_address (set_hold i X st) = cand_address st"
  "mask_prefix (set_hold i X st) = mask_prefix st"
  "rg_group (ents (set_hold i X st) e) = rg_group (ents st e)" "rg_rp (ents (set_hold i X st) e) = rg_rp (ents st e)"
  "rg_priority (ents (set_hold i X st) e) = rg_priority (ents st e)" "rg_origin (ents (set_hold i X st) e) = rg_origin (ents st e)"
  "rg_fragment_tag (ents (set_hold i X st) e) = rg_fragment_tag (ents st e)" "advholdtime (ents (set_hold i X st) e) = advholdtime (ents st e)"
  "grplink (ents (set_hold i X st) e) = grplink (ents st e)"
  "holdtime (ents (set_hold i X st) e) = (if e \<in> X then snd (TIMEOUT i (holdtime (ents st e))) else holdtime (ents st e))"
  by (auto simp: set_hold_def entries_of_def cand_address_def mask_prefix_def fun_eq_iff)

lemma set_hold_inv: "rp_inv st \<Longrightarrow> rp_inv (set_hold i X st)"
proof -
  assume a: "rp_inv st"
  then have ok: "rp_ok st" "groups_ok {} st" by (simp_all add: rp_inv_def)
  have "rp_ok (set_hold i X st)" by (rule rp_ok_frame [OF ok(1)]) (use ok(1) in \<open>simp_all add: rp_ok_def\<close>)
  moreover have "groups_ok {} (set_hold i X st)" by (rule groups_keep [OF ok(2)]) (simp_all add: all_entries_def)
  ultimately show ?thesis by (simp add: rp_inv_def)
qed

lemma set_hold_insert: "e \<notin> X \<Longrightarrow> set_hold i X (set_hold i {e} st) = set_hold i (insert e X) st"
  by (auto simp: set_hold_def intro!: rp_state.equality ext)

lemma trims_set_hold:
  assumes "trims D M a b"
  shows "trims D M (set_hold i X a) (set_hold i X b)"
proof -
  have d: "same_data a b" "rp_inv b" using assms by (simp_all add: trims_def)
  have "same_data (set_hold i X a) (set_hold i X b)"
    unfolding same_data_def
  proof (intro conjI allI)
    fix e
    have e: "(ents b e)\<lparr>grplink := []\<rparr> = (ents a e)\<lparr>grplink := []\<rparr>" using d(1) by (simp add: same_data_def)
    from arg_cong [OF e, of advholdtime] have "advholdtime (ents b e) = advholdtime (ents a e)" by simp
    then show "(ents (set_hold i X b) e)\<lparr>grplink := []\<rparr> = (ents (set_hold i X a) e)\<lparr>grplink := []\<rparr>"
      by (intro rp_grp_entry.equality) (simp_all add: same_data_fields [OF d(1)])
  qed (use d(1) in \<open>simp_all add: same_data_def\<close>)
  then show ?thesis using assms set_hold_inv [OF d(2)] by (simp add: trims_def)
qed

lemma TIMEOUT_iff: "fst (TIMEOUT i t) \<longleftrightarrow> t \<noteq> TIMER_INFINITY \<and> unat t \<le> unat i"
proof (cases "t = TIMER_INFINITY")
  case False
  have u: "unat (ucast t :: u32) = unat t" by (simp add: unsigned_ucast_eq take_bit_nat_eq_self less_trans [OF unat_u16_less])
  have "unat (min (ucast t) i) = min (unat t) (unat i)" by (simp add: min_def word_le_nat_alt u)
  then have "unat (ucast (min (ucast t) i) :: u16) = min (unat t) (unat i)" using unat_u16_less [of t] by (simp add: unsigned_ucast_eq take_bit_nat_eq_self min_less_iff_disj)
  then have "t - ucast (min (ucast t) i) = 0 \<longleftrightarrow> unat t = min (unat t) (unat i)"
    by (metis eq_iff_diff_eq_0 word_unat_eq_iff)
  then show ?thesis using False by (auto simp: TIMEOUT_def Let_def min_def)
qed (simp add: TIMEOUT_def)

lemma age_entries_ok:
  assumes "rp_inv st" and "distinct es" and "set es \<subseteq> entries_of st Current" and "\<forall>e \<in> set es. rg_group (ents st e) = m"
  shows "\<exists>fs st'. age_entries uninit i es st = Some (fs, st') \<and>
    trims {e \<in> set es. fst (TIMEOUT i (holdtime (ents st e)))} {m} (set_hold i (set es) st) st'"
  using assms
proof (induction es arbitrary: st)
  case Nil
  then show ?case using trims_refl [OF set_hold_inv [OF Nil(1)], of "{m}" i "{}"] by (simp add: set_hold_def)
next
  case (Cons e es)
  have e: "e \<notin> set es" using Cons.prems(2) by simp
  define s0 where "s0 = set_hold i {e} st"
  have s0: "s0 = st\<lparr>ents := (ents st)(e := (ents st e)\<lparr>holdtime := snd (TIMEOUT i (holdtime (ents st e)))\<rparr>)\<rparr>"
    by (auto simp: s0_def set_hold_def intro!: rp_state.equality ext)
  have inv: "rp_inv s0" unfolding s0_def by (rule set_hold_inv [OF Cons.prems(1)])
  have h: "holdtime (ents s0 x) = holdtime (ents st x)" if "x \<in> set es" for x using that e by (auto simp: s0_def)
  show ?case
  proof (cases "fst (TIMEOUT i (holdtime (ents st e)))")
    case True
    obtain fs1 s1 where 1: "delete_rp_grp_entry uninit Current e s0 = Some (fs1, s1)" "trims {e} {m} s0 s1"
      using delete_entry_inv [OF inv, of e Current uninit] Cons.prems(3,4) unfolding trims_def by (auto simp: s0_def)
    have d: "same_data s0 s1" "rp_inv s1" "\<And>v. entries_of s1 v = entries_of st v - {e}" using 1(2) by (simp_all add: trims_def s0_def)
    obtain fs2 s2 where 2: "age_entries uninit i es s1 = Some (fs2, s2)"
        "trims {e \<in> set es. fst (TIMEOUT i (holdtime (ents s1 e)))} {m} (set_hold i (set es) s1) s2"
      using Cons.IH [OF d(2)] Cons.prems(2-4) d(3) by (auto simp: same_data_fields [OF d(1)] s0_def subset_Diff_insert)
    have "{e} \<union> {e \<in> set es. fst (TIMEOUT i (holdtime (ents s1 e)))} = {x \<in> set (e # es). fst (TIMEOUT i (holdtime (ents st x)))}"
      using True h by (auto simp: same_data_fields [OF d(1)])
    then have "trims {x \<in> set (e # es). fst (TIMEOUT i (holdtime (ents st x)))} {m} (set_hold i (set (e # es)) st) s2"
      using trims_trans [OF trims_set_hold [OF 1(2), of i "set es"] 2(2)] set_hold_insert [OF e, of i st] by (simp add: s0_def)
    moreover have "age_entries uninit i (e # es) st = Some (fs1 @ fs2, s2)"
      using True 1(1) 2(1) by (auto simp: Let_def s0 split: prod.split)
    ultimately show ?thesis by blast
  next
    case False
    obtain fs2 s2 where 2: "age_entries uninit i es s0 = Some (fs2, s2)"
        "trims {e \<in> set es. fst (TIMEOUT i (holdtime (ents s0 e)))} {m} (set_hold i (set es) s0) s2"
      using Cons.IH [OF inv] Cons.prems(2-4) by (auto simp: s0_def)
    have "{e \<in> set es. fst (TIMEOUT i (holdtime (ents s0 e)))} = {x \<in> set (e # es). fst (TIMEOUT i (holdtime (ents st x)))}"
      using False h by auto
    then have "trims {x \<in> set (e # es). fst (TIMEOUT i (holdtime (ents st x)))} {m} (set_hold i (set (e # es)) st) s2"
      using 2(2) set_hold_insert [OF e, of i st] by (simp add: s0_def)
    moreover have "age_entries uninit i (e # es) st = Some (fs2, s2)"
      using False 2(1) by (auto simp: Let_def s0 split: prod.split)
    ultimately show ?thesis by blast
  qed
qed

lemma set_hold_union: "X \<inter> Y = {} \<Longrightarrow> set_hold i Y (set_hold i X st) = set_hold i (X \<union> Y) st"
  by (auto simp: set_hold_def intro!: rp_state.equality ext)

lemma age_masks_ok:
  assumes "rp_inv st" and "distinct ms" and "set ms \<subseteq> set (grp_mask_list st Current)"
  defines "X \<equiv> {e \<in> entries_of st Current. rg_group (ents st e) \<in> set ms}"
  shows "\<exists>fs st'. age_masks uninit i ms st = Some (fs, st') \<and>
    trims {e \<in> X. fst (TIMEOUT i (holdtime (ents st e)))} (set ms) (set_hold i X st) st'"
  using assms(1-3) unfolding X_def
proof (induction ms arbitrary: st)
  case Nil
  then show ?case using trims_refl [OF set_hold_inv [OF Nil(1)], of "{}" i "{}"] by (simp add: set_hold_def)
next
  case (Cons m ms)
  have m: "m \<in> set (grp_mask_list st Current)" using Cons.prems(3) by simp
  note ch = chain_entries [OF Cons.prems(1) m]
  let ?C = "set (grp_rp_chain (masks st m))" and ?X = "\<lambda>st ms. {e \<in> entries_of st Current. rg_group (ents st e) \<in> set ms}"
    and ?D = "\<lambda>st A. {e \<in> A. fst (TIMEOUT i (holdtime (ents st e)))}"
  have a: "?C \<subseteq> entries_of st Current" "\<forall>e \<in> ?C. rg_group (ents st e) = m" using ch(2) by auto
  obtain fs1 s1 where 1: "age_entries uninit i (grp_rp_chain (masks st m)) st = Some (fs1, s1)" "trims (?D st ?C) {m} (set_hold i ?C st) s1"
    using age_entries_ok [OF Cons.prems(1) ch(1) a, of uninit i] by blast
  have d: "same_data (set_hold i ?C st) s1" "rp_inv s1" "entries_of s1 Current = entries_of st Current - ?D st ?C"
    "set (grp_mask_list st Current) - {m} \<subseteq> set (grp_mask_list s1 Current)" using 1(2) by (simp_all add: trims_def)
  have sub: "set ms \<subseteq> set (grp_mask_list s1 Current)" using d(4) Cons.prems(2,3) by auto
  obtain fs2 s2 where 2: "age_masks uninit i ms s1 = Some (fs2, s2)" "trims (?D s1 (?X s1 ms)) (set ms) (set_hold i (?X s1 ms) s1) s2"
    using Cons.IH [OF d(2) _ sub] Cons.prems(2) by auto
  have x: "?X s1 ms = ?X st ms" using Cons.prems(2) a(2) by (auto simp: d(3) same_data_fields [OF d(1)])
  have n: "?C \<inter> ?X st ms = {}" "?C \<union> ?X st ms = ?X st (m # ms)" using Cons.prems(2) ch(2) by auto
  have "holdtime (ents s1 e) = holdtime (ents st e)" if "e \<in> ?X st ms" for e using that n(1) by (auto simp: same_data_fields [OF d(1)])
  then have "?D st ?C \<union> ?D s1 (?X s1 ms) = ?D st (?X st (m # ms))" unfolding n(2) [symmetric] x by auto
  then have "trims (?D st (?X st (m # ms))) (set (m # ms)) (set_hold i (?X st (m # ms)) st) s2"
    using trims_trans [OF trims_set_hold [OF 1(2), of i "?X st ms"] 2(2) [unfolded x]] set_hold_union [OF n(1), of i st] n(2) x by simp
  then show ?case using 1(1) 2(1) by auto
qed

lemma same_data_hold: "same_data a b \<Longrightarrow> info b e = info a e"
  using same_data_info by simp

lemma set_hold_info: "info (set_hold i X st) e = (if e \<in> X then (info st e)\<lparr>i_holdtime := snd (TIMEOUT i (holdtime (ents st e)))\<rparr> else info st e)"
  by (simp add: info_def Let_def)

lemma age_rps_ok:
  assumes "rp_inv st"
  shows "\<exists>fs st'. age_masks uninit i (grp_mask_list st Current) st = Some (fs, st') \<and> rp_inv st' \<and>
    entries_of st' Current = {e \<in> entries_of st Current. \<not> fst (TIMEOUT i (holdtime (ents st e)))} \<and>
    entries_of st' Segmented = entries_of st Segmented \<and>
    (\<forall>e. info st' e = (if e \<in> entries_of st Current then (info st e)\<lparr>i_holdtime := snd (TIMEOUT i (i_holdtime (info st e)))\<rparr> else info st e))"
proof -
  let ?X = "entries_of st Current"
  have ok: "rp_ok st" using assms by (simp add: rp_inv_def)
  have g: "rg_group (ents st e) \<in> set (grp_mask_list st Current)" if "e \<in> ?X" for e
    using that mask_ok_entry(1) [OF ok] by (auto simp: entries_of_def)
  then have x: "{e \<in> ?X. rg_group (ents st e) \<in> set (grp_mask_list st Current)} = ?X" by auto
  obtain fs st' where r: "age_masks uninit i (grp_mask_list st Current) st = Some (fs, st')"
      "trims {e \<in> ?X. fst (TIMEOUT i (holdtime (ents st e)))} (set (grp_mask_list st Current)) (set_hold i ?X st) st'"
    using age_masks_ok [OF assms rp_ok_distinct(2) [OF ok] subset_refl] unfolding x by blast
  have "e \<notin> ?X" if "e \<in> entries_of st Segmented" for e using entries_disjoint [OF ok that, of Current] by auto
  then have "entries_of st' Segmented = entries_of st Segmented" using r(2) by (auto simp: trims_def)
  moreover have "info st' e = (if e \<in> ?X then (info st e)\<lparr>i_holdtime := snd (TIMEOUT i (i_holdtime (info st e)))\<rparr> else info st e)" for e
    using r(2) same_data_hold [of "set_hold i ?X st" st' e] by (simp add: trims_def set_hold_info) (simp add: info_def Let_def)
  ultimately show ?thesis using r by (auto simp: trims_def)
qed

section \<open>The invariant of the daemon\<close>

definition vif_ok :: "uvif \<Rightarrow> bool" where
  "vif_ok v \<longleftrightarrow> (\<not> vif_off v \<longrightarrow> uv_linklocal v \<noteq> None)"

definition pim_inv :: "pim_state \<Rightarrow> bool" where
  "pim_inv st \<longleftrightarrow> rp_inv (rps st) \<and> in6_ok (curr_bsr_address (bs st)) \<and> in6_ok (my_bsr_address (bs st)) \<and>
     in6_ok (my_cand_rp_address st) \<and> length (uvifs st) \<le> NO_VIF"

lemma GET_EUADDR6_length: "GET_EUADDR6 buf p = Some eu \<Longrightarrow> length (unicast_addr eu) = 16"
  by (auto simp: GET_EUADDR6_def get_in6_def bslice_def Option.bind_eq_Some_conv split: if_splits)

lemma accept_bootstrap_inv:
  assumes "accept_bootstrap env mifi inc tag hl pri a buf n st = Some (fs, st')" and "pim_inv st" and "length (sin6_addr a) = 16"
  shows "pim_inv st' \<and> curr_bsr_address (bs st') = a \<and> curr_bsr_priority (bs st') = pri \<and> curr_bsr_fragment_tag (bs st') = tag \<and>
    my_bsr_address (bs st') = my_bsr_address (bs st) \<and> pim_bootstrap_timer (bs st') = PIM_BOOTSTRAP_TIMEOUT \<and> uvifs st' = uvifs st"
proof -
  define s0 where "s0 = (if cand_rp_flag st \<and> \<not> inet6_equal a (curr_bsr_address (bs st)) then st\<lparr>pim_cand_rp_adv_timer := 0\<rparr> else st)"
  have s0: "pim_inv s0" "bs s0 = bs st" "uvifs s0 = uvifs st" "rps s0 = rps st" using assms(2) by (simp_all add: s0_def pim_inv_def)
  define rs where "rs = (if tag \<noteq> curr_bsr_fragment_tag (bs st) \<or> inet6_equal a (curr_bsr_address (bs st)) then delete_rp_list Segmented (rps st) else rps st)"
  have rs: "rp_inv rs" using assms(2) delete_rp_list_ok [of "rps st" Segmented] by (simp add: rs_def pim_inv_def rp_inv_def)
  obtain hm c fs1 r1 fs2 r2 where r: "boot_loop c (sizeof_pim + 22) (env_scope env) rs = Some (fs1, r1)"
     "garbage_collect (env_uninit env) tag r1 = Some (fs2, r2)"
     "st' = s0\<lparr>bs := (bs st)\<lparr>curr_bsr_address := a, curr_bsr_priority := pri, curr_bsr_fragment_tag := tag,
                        curr_bsr_hash_mask := hm, pim_bootstrap_timer := PIM_BOOTSTRAP_TIMEOUT\<rparr>, rps := r2\<rparr>"
    using assms(1) unfolding accept_bootstrap_def Let_def s0_def [symmetric] unfolding s0(2,4) unfolding rs_def [symmetric]
    by (auto simp del: PIM_BOOTSTRAP_TIMEOUT_def simp: Option.bind_eq_Some_conv)
  have "rp_inv r2" using garbage_collect_ok [OF boot_loop_inv [OF r(1) rs], of "env_uninit env" tag] r(2) by auto
  then show ?thesis using s0 assms(3) by (simp add: r(3) pim_inv_def in6_ok_def)
qed

text \<open>
  Whatever a bootstrap message holds, it keeps the invariant; it is accepted only from a bootstrap router that is not less
  preferred than the current one, and otherwise changes nothing but a counter.
\<close>

lemma receive_bootstrap_cases:
  assumes "receive_pim6_bootstrap env src dst buf n st = Some (r, fs, st')" and "pim_inv st"
  shows "pim_inv st' \<and> (if r then
      \<not> curr_bsr_priority (bs st') < curr_bsr_priority (bs st) \<and>
      (curr_bsr_priority (bs st') = curr_bsr_priority (bs st) \<longrightarrow> \<not> inet6_greaterthan (curr_bsr_address (bs st)) (curr_bsr_address (bs st'))) \<and>
      pim_bootstrap_timer (bs st') = PIM_BOOTSTRAP_TIMEOUT \<and> my_bsr_address (bs st') = my_bsr_address (bs st)
    else fs = [] \<and> bs st' = bs st \<and> rps st' = rps st)"
proof -
  let ?mifi = "find_vif_direct src (uvifs st)"
  let ?v = "(uvifs st ! ?mifi)\<lparr>uv_in_pim6_bootsrap := uv_in_pim6_bootsrap (uvifs st ! ?mifi) + 1\<rparr>"
  define s0 where "s0 = st\<lparr>uvifs := (uvifs st)[?mifi := ?v]\<rparr>"
  have s0: "pim_inv s0" "bs s0 = bs st" "rps s0 = rps st" using assms(2) by (simp_all add: s0_def pim_inv_def)
  define nb where "nb = (\<lambda>eu :: pim6_encod_uni_addr. \<lparr>sin6_addr = unicast_addr eu, sin6_scope_id = inet6_uvif2scopeid \<lparr>sin6_addr = unicast_addr eu, sin6_scope_id = 0\<rparr> ?v\<rparr>)"
  define worse where "worse = (\<lambda>pri a. curr_bsr_priority (bs st) > pri \<or> curr_bsr_priority (bs st) = pri \<and> inet6_greaterthan (curr_bsr_address (bs st)) a)"
  have nb: "\<lparr>sin6_addr = unicast_addr eu, sin6_scope_id = inet6_uvif2scopeid \<lparr>sin6_addr = unicast_addr eu, sin6_scope_id = 0\<rparr> ?v\<rparr> = nb eu" for eu
    by (simp add: nb_def)
  have worse: "curr_bsr_priority (bs st) > pri \<or> curr_bsr_priority (bs st) = pri \<and> inet6_greaterthan (curr_bsr_address (bs st)) a \<longleftrightarrow> worse pri a" for pri a
    by (simp add: worse_def)
  consider "st' = st" "fs = []" "\<not> r" | "st' = s0" "fs = []" "\<not> r"
    | tag hl pri eu inc where "GET_EUADDR6 buf (sizeof_pim + 4) = Some eu" "\<not> worse pri (nb eu)"
      "accept_bootstrap env ?mifi inc tag hl pri (nb eu) buf n s0 = Some (fs, st')" "r"
    using assms(1) unfolding receive_pim6_bootstrap_def Let_def s0_def [symmetric] unfolding s0(2) nb worse
    by (auto simp: Option.bind_eq_Some_conv split: if_splits option.splits)
  then show ?thesis
  proof cases
    case (3 tag hl pri eu inc)
    note a = accept_bootstrap_inv [OF 3(3) s0(1)]
    show ?thesis using a 3(2,4) GET_EUADDR6_length [OF 3(1)] s0(2) by (auto simp: nb_def worse_def)
  qed (use assms(2) s0 in simp_all)
qed

text \<open>Advertisements and timers.\<close>

definition only_rps :: "pim_state \<Rightarrow> pim_state \<Rightarrow> bool" where
  "only_rps st st' \<longleftrightarrow> (\<exists>rs. st' = st\<lparr>rps := rs\<rparr> \<and> rp_inv rs)"

lemma only_rps_inv: "only_rps st st' \<Longrightarrow> pim_inv st \<Longrightarrow> pim_inv st'"
  by (auto simp: only_rps_def pim_inv_def)

lemma only_rps_trans: "only_rps a b \<Longrightarrow> only_rps b c \<Longrightarrow> only_rps a c"
  by (auto simp: only_rps_def)

lemma only_rps_refl: "rp_inv (rps st) \<Longrightarrow> only_rps st st"
  by (auto simp: only_rps_def intro!: exI [of _ "rps st"])

lemma add_cand_entry_inv:
  assumes "rp_inv (rps st)" and "length (sin6_addr rp) = 16"
  shows "\<exists>fs st'. add_cand_entry env rp pri hold grp gmask st = Some (fs, st') \<and> only_rps st st'"
proof -
  have "\<exists>e fs rs. add_rp_grp_entry (env_uninit env) (route_of (env_rpf env) (uvifs st)) (env_reg env) Current rp pri RP_ORIGIN_BSR hold grp
        gmask (my_bsr_hash_mask (bs st)) (curr_bsr_fragment_tag (bs st)) (rps st) = Some (e, fs, rs) \<and> rp_inv rs \<and> (e = None \<longrightarrow> fs = [] \<and> rs = rps st)"
    by (rule add_rp_grp_entry_inv [OF assms(1)]) (use assms(2) in \<open>simp_all add: in6_ok_def\<close>)
  then show ?thesis by (elim exE conjE) (simp add: add_cand_entry_def only_rps_def, blast)
qed

lemma only_rps_rps: "only_rps a b \<Longrightarrow> rp_inv (rps b)"
  by (auto simp: only_rps_def)

lemma adv_prefixes_inv:
  "adv_prefixes env buf rp pri hold n d p st = Some (r, fs, st') \<Longrightarrow> rp_inv (rps st) \<Longrightarrow> length (sin6_addr rp) = 16 \<Longrightarrow> only_rps st st'"
proof (induction n arbitrary: d p st fs)
  case (Suc n)
  show ?case
  proof (cases "d < 20")
    case False
    obtain grp gmask fs1 s1 fs2 where a: "add_cand_entry env rp pri hold \<lparr>sin6_addr = grp, sin6_scope_id = 0\<rparr> gmask st = Some (fs1, s1)"
      "adv_prefixes env buf rp pri hold n (d - 20) (p + 20) s1 = Some (r, fs2, st')"
      using Suc.prems(1) False by (auto simp: Option.bind_eq_Some_conv)
    have "only_rps st s1" using add_cand_entry_inv [OF Suc.prems(2,3)] a(1) by (metis option.inject prod.inject)
    then show ?thesis using Suc.IH [OF a(2) only_rps_rps Suc.prems(3)] only_rps_trans by blast
  qed (use Suc.prems only_rps_refl in auto)
qed (simp add: only_rps_refl)

lemma own_prefixes_inv:
  "own_prefixes env buf n p st = Some (fs, st') \<Longrightarrow> rp_inv (rps st) \<Longrightarrow> in6_ok (my_cand_rp_address st) \<Longrightarrow> only_rps st st'"
proof (induction n arbitrary: p st fs)
  case (Suc n)
  obtain grp gmask fs1 s1 fs2 where a: "add_cand_entry env (my_cand_rp_address st) (my_cand_rp_priority st) (my_cand_rp_holdtime st)
        \<lparr>sin6_addr = grp, sin6_scope_id = 0\<rparr> gmask st = Some (fs1, s1)" "own_prefixes env buf n (p + 20) s1 = Some (fs2, st')"
    using Suc.prems(1) by (auto simp: Option.bind_eq_Some_conv)
  have "length (sin6_addr (my_cand_rp_address st)) = 16" using Suc.prems(3) by (simp add: in6_ok_def)
  then have o: "only_rps st s1" using add_cand_entry_inv [OF Suc.prems(2)] a(1) by (metis option.inject prod.inject)
  then have "in6_ok (my_cand_rp_address s1)" using Suc.prems(3) by (auto simp: only_rps_def)
  then show ?case using Suc.IH [OF a(2) only_rps_rps [OF o]] only_rps_trans [OF o] by blast
qed (simp add: only_rps_refl)

lemma receive_cand_rp_adv_inv:
  assumes "receive_pim6_cand_rp_adv env buf n st = Some (r, fs, st')" and "pim_inv st"
  shows "only_rps st st'"
proof -
  have i: "rp_inv (rps st)" using assms(2) by (simp add: pim_inv_def)
  consider "st' = st"
    | eu pri hold grp gmask where "GET_EUADDR6 buf (sizeof_pim + 4) = Some eu"
        "add_cand_entry env \<lparr>sin6_addr = unicast_addr eu, sin6_scope_id = 0\<rparr> pri hold grp gmask st = Some (fs, st')"
    | eu pri hold cnt d where "GET_EUADDR6 buf (sizeof_pim + 4) = Some eu"
        "adv_prefixes env buf \<lparr>sin6_addr = unicast_addr eu, sin6_scope_id = 0\<rparr> pri hold cnt d (sizeof_pim + 22) st = Some (r, fs, st')"
    using assms(1) by (auto simp: receive_pim6_cand_rp_adv_def Let_def Option.bind_eq_Some_conv split: if_splits)
  then show ?thesis
  proof cases
    case (2 eu pri hold grp gmask)
    then show ?thesis using add_cand_entry_inv [OF i, of "\<lparr>sin6_addr = unicast_addr eu, sin6_scope_id = 0\<rparr>" env pri hold grp gmask] GET_EUADDR6_length [OF 2(1)] by auto
  next
    case (3 eu pri hold cnt d)
    then show ?thesis using adv_prefixes_inv [OF 3(2) i] GET_EUADDR6_length [OF 3(1)] by simp
  qed (simp add: only_rps_refl i)
qed

lemma send_cand_rp_adv_inv:
  assumes "send_pim6_cand_rp_adv env st = Some (r, fs, st')" and "pim_inv st"
  shows "only_rps st st'"
proof -
  have i: "rp_inv (rps st)" "length (sin6_addr (my_cand_rp_address st)) = 16" "in6_ok (my_cand_rp_address st)"
    using assms(2) by (simp_all add: pim_inv_def in6_ok_def)
  consider "st' = st"
    | gmask where "add_cand_entry env (my_cand_rp_address st) (my_cand_rp_priority st) (my_cand_rp_holdtime st) sockaddr6_d gmask st = Some (fs, st')"
    | n where "own_prefixes env (cand_rp_adv_message st) n (4 + 18) st = Some (fs, st')"
    using assms(1) by (auto simp: send_pim6_cand_rp_adv_def Option.bind_eq_Some_conv split: if_splits)
  then show ?thesis
  proof cases
    case (2 gmask)
    then show ?thesis using add_cand_entry_inv [OF i(1,2)] by (metis option.inject prod.inject)
  next
    case (3 n)
    then show ?thesis using own_prefixes_inv i by blast
  qed (simp add: only_rps_refl i)
qed

lemma bootstrap_out_length: "bootstrap_out msg vs = Some (fs, vs') \<Longrightarrow> length vs' = length vs"
  by (induction vs arbitrary: fs vs') (auto simp: Option.bind_eq_Some_conv split: if_splits)

lemma create_bootstrap_inv: "create_pim6_bootstrap_message st = Some (msg, st') \<Longrightarrow> pim_inv st \<Longrightarrow> pim_inv st' \<and> rps st' = rps st \<and> uvifs st' = uvifs st"
  by (auto simp: create_pim6_bootstrap_message_def Let_def Option.bind_eq_Some_conv pim_inv_def split: if_splits)

lemma send_bootstrap_inv:
  assumes "send_pim6_bootstrap st = Some (fs, st')" and "pim_inv st"
  shows "pim_inv st' \<and> rps st' = rps st"
proof -
  obtain msg s where m: "create_pim6_bootstrap_message st = Some (msg, s)" using assms(1) by (auto simp: send_pim6_bootstrap_def Option.bind_eq_Some_conv)
  have "st' = s \<or> (\<exists>vs. bootstrap_out msg (uvifs s) = Some (fs, vs) \<and> st' = s\<lparr>uvifs := vs\<rparr>)"
    using assms(1) m by (auto simp: send_pim6_bootstrap_def Option.bind_eq_Some_conv split: if_splits)
  then show ?thesis using create_bootstrap_inv [OF m assms(2)] bootstrap_out_length [of msg "uvifs s" fs] by (auto simp: pim_inv_def)
qed

lemma bootstrap_timeout_ok:
  "bootstrap_timeout i r b = Some (send, b') \<Longrightarrow> in6_ok (curr_bsr_address b) \<Longrightarrow> in6_ok (my_bsr_address b) \<Longrightarrow>
   in6_ok (curr_bsr_address b') \<and> my_bsr_address b' = my_bsr_address b"
  by (auto simp: bootstrap_timeout_def Let_def Option.bind_eq_Some_conv in6_ok_def sockaddr6_any_def split: if_splits prod.splits)

lemma age_misc_inv:
  assumes "age_misc env i r st = Some (fs, st')" and "pim_inv st"
  shows "pim_inv st'"
proof -
  obtain fs1 rs fs2 s1 send b where a: "age_masks (env_uninit env) i (grp_mask_list (rps st) Current) (rps st) = Some (fs1, rs)"
    "age_cand_rp_adv env i (st\<lparr>rps := rs\<rparr>) = Some (fs2, s1)" "bootstrap_timeout i r (bs s1) = Some (send, b)"
    "(if send then \<exists>fs3. send_pim6_bootstrap (s1\<lparr>bs := b\<rparr>) = Some (fs3, st') else st' = s1\<lparr>bs := b\<rparr>)"
    using assms(1) by (auto simp: age_misc_def Let_def Option.bind_eq_Some_conv split: if_splits)
  have "rp_inv rs" using age_rps_ok [of "rps st" "env_uninit env" i] a(1) assms(2) by (auto simp: pim_inv_def)
  then have s0: "pim_inv (st\<lparr>rps := rs\<rparr>)" using assms(2) by (simp add: pim_inv_def)
  have "pim_inv s1"
  proof -
    obtain e t where t: "TIMEOUT i (pim_cand_rp_adv_timer st) = (e, t)" by fastforce
    let ?s = "st\<lparr>rps := rs, pim_cand_rp_adv_timer := t\<rparr>"
    have "pim_inv ?s" using s0 by (simp add: pim_inv_def)
    moreover have "s1 = st\<lparr>rps := rs\<rparr> \<or> s1 = ?s \<or> (\<exists>r f s. send_pim6_cand_rp_adv env ?s = Some (r, f, s) \<and> s1 = s\<lparr>pim_cand_rp_adv_timer := my_cand_rp_adv_period s\<rparr>)"
      using a(2) t by (auto simp: age_cand_rp_adv_def Let_def Option.bind_eq_Some_conv split: if_splits)
    ultimately show ?thesis using s0 send_cand_rp_adv_inv only_rps_inv by (fastforce simp: pim_inv_def)
  qed
  moreover from this have "pim_inv (s1\<lparr>bs := b\<rparr>)" using bootstrap_timeout_ok [OF a(3)] by (simp add: pim_inv_def)
  ultimately show ?thesis using a(4) send_bootstrap_inv by (auto split: if_splits)
qed

section \<open>Election and aging\<close>

text \<open>
  A router with one interface on the link \<^verbatim>\<open>fe80::/64\<close>, for examples.
\<close>

definition sample_ll :: "byte \<Rightarrow> sockaddr_in6" where
  "sample_ll n = \<lparr>sin6_addr = [0xfe, 0x80] @ replicate 13 0 @ [n], sin6_scope_id = 2\<rparr>"

definition sample_vif :: "byte \<Rightarrow> pim_nbr_entry list \<Rightarrow> uvif" where
  "sample_vif n nbrs = \<lparr>uv_ifindex = 2, uv_siteid = 0,
     uv_addrs = [\<lparr>pa_addr = sample_ll n, pa_rmt_addr = sockaddr6_any, pa_prefix = sample_ll 0, pa_subnetmask = replicate 8 0xff @ replicate 8 0\<rparr>],
     uv_flags = 0, uv_linklocal = Some (sample_ll n), uv_pim_neighbors = nbrs, uv_pim_hello_timer = 30, uv_local_pref = 101,
     uv_local_metric = 1024, uv_in_pim6_hello = 0, uv_in_pim6_bootsrap = 0, uv_out_pim6_hello = 0, uv_out_pim6_bootsrap = 0, uv_pim6_nbr_timo = 0\<rparr>"

definition sample_nbr :: "byte \<Rightarrow> pim_nbr_entry" where
  "sample_nbr n = \<lparr>nbr_ptr = 0, nbr_address = sample_ll n, aux_addrs = [], nbr_vifi = 0, nbr_timer = 105\<rparr>"

definition sample_router :: "byte \<Rightarrow> pim_nbr_entry list \<Rightarrow> rp_state \<Rightarrow> byte \<Rightarrow> pim_state" where
  "sample_router n nbrs rs p = \<lparr>uvifs = [sample_vif n nbrs], rps = rs, bs = sample_bsr p, cand_rp_flag = False, pim_cand_rp_adv_timer = 0,
     my_cand_rp_adv_period = 60, my_cand_rp_address = sample_addr1, my_cand_rp_priority = 0, my_cand_rp_holdtime = 150,
     cand_rp_adv_message = [], pim_hello_period = 30, pim_hello_holdtime = 105, nbr_fresh = 1\<rparr>"

definition sample_env :: pim_env where
  "sample_env = \<lparr>env_rpf = (\<lambda>_. (0, sample_ll 1)), env_reg = 1, env_uninit = sample_addr1, env_junk = (\<lambda>_. (0, 0)), env_scope = 0\<rparr>"

lemma sample_router_inv: "rp_inv rs \<Longrightarrow> pim_inv (sample_router n nbrs rs p)"
  by (simp add: pim_inv_def sample_router_def sample_bsr_def in6_ok_def sample_addr1_def sample_addr2_def NO_VIF_def)

text \<open>
  C11. No bootstrap message can replace the current bootstrap router by one that is less preferred: a message is accepted only
  for a router with a higher priority, or with the same priority and an address that is not smaller, and then the bootstrap timer
  starts again. A message that is not accepted changes neither the bootstrap router nor the RP set and is not forwarded.
  Whatever the message holds, the invariant of the state is kept.
\<close>

theorem bootstrap_election:
  assumes "receive_pim6_bootstrap env src dst buf n st = Some (r, fs, st')" and "pim_inv st"
  shows "pim_inv st' \<and> (if r then
      \<not> curr_bsr_priority (bs st') < curr_bsr_priority (bs st) \<and>
      (curr_bsr_priority (bs st') = curr_bsr_priority (bs st) \<longrightarrow> \<not> inet6_greaterthan (curr_bsr_address (bs st)) (curr_bsr_address (bs st'))) \<and>
      pim_bootstrap_timer (bs st') = PIM_BOOTSTRAP_TIMEOUT \<and> my_bsr_address (bs st') = my_bsr_address (bs st)
    else fs = [] \<and> bs st' = bs st \<and> rps st' = rps st)"
  by (rule receive_bootstrap_cases [OF assms])

text \<open>A message of the same priority from a bootstrap router with a greater address, without any RPs.\<close>

definition sample_boot :: "byte list" where
  "sample_boot = [0x24, 0, 0, 0, 0, 9, 128, 5] @ PUT_EUADDR6 [0x30, 0x01, 0x0d, 0xb8, 0, 0, 0, 1, 0, 0, 0, 0, 0, 0, 0, 9]"

theorem bootstrap_election_witness:
  "case receive_pim6_bootstrap sample_env (sample_ll 1) allpim6routers_group sample_boot 26 (sample_router 2 [sample_nbr 1] rps_none 5) of
     Some (r, fs, st') \<Rightarrow> r \<and> pim_inv st' \<and>
       \<not> inet6_greaterthan (curr_bsr_address (bs (sample_router 2 [sample_nbr 1] rps_none 5))) (curr_bsr_address (bs st'))
   | None \<Rightarrow> False"
proof -
  let ?s = "sample_router 2 [sample_nbr 1] rps_none 5"
  have "case receive_pim6_bootstrap sample_env (sample_ll 1) allpim6routers_group sample_boot 26 ?s of
      Some (r, fs, st') \<Rightarrow> r \<and> curr_bsr_priority (bs st') = curr_bsr_priority (bs ?s) | None \<Rightarrow> False" by code_simp
  then obtain fs st' where r: "receive_pim6_bootstrap sample_env (sample_ll 1) allpim6routers_group sample_boot 26 ?s = Some (True, fs, st')"
    "curr_bsr_priority (bs st') = curr_bsr_priority (bs ?s)" by (auto split: option.splits)
  then show ?thesis using bootstrap_election [OF r(1) sample_router_inv [OF rp_empty_inv [OF rps_none_empty]]] by simp
qed

text \<open>
  C20. The periodic pass over the RP set removes exactly the RPs whose holdtime is over and lowers the holdtime of the others;
  RPs with an infinite holdtime stay. It never fails, keeps the invariant of the set, so that the groups of the removed RPs are
  mapped to those that are left, and does not touch the segments of a message that is still incomplete.
\<close>

theorem age_rp_set_correct:
  assumes "rp_inv st"
  shows "\<exists>fs st'. age_masks uninit i (grp_mask_list st Current) st = Some (fs, st') \<and> rp_inv st' \<and>
    entries_of st' Current = {e \<in> entries_of st Current. holdtime (ents st e) = TIMER_INFINITY \<or> unat i < unat (holdtime (ents st e))} \<and>
    (\<forall>e \<in> entries_of st' Current. info st' e = (info st e)\<lparr>i_holdtime := snd (TIMEOUT i (i_holdtime (info st e)))\<rparr>) \<and>
    rp_offers st' Segmented = rp_offers st Segmented"
proof -
  obtain fs st' where r: "age_masks uninit i (grp_mask_list st Current) st = Some (fs, st')" "rp_inv st'"
    "entries_of st' Current = {e \<in> entries_of st Current. \<not> fst (TIMEOUT i (holdtime (ents st e)))}" "entries_of st' Segmented = entries_of st Segmented"
    "\<And>e. info st' e = (if e \<in> entries_of st Current then (info st e)\<lparr>i_holdtime := snd (TIMEOUT i (i_holdtime (info st e)))\<rparr> else info st e)"
    using age_rps_ok [OF assms] by blast
  have ok: "rp_ok st" "rp_ok st'" using assms r(2) by (simp_all add: rp_inv_def)
  have "e \<notin> entries_of st Current" if "e \<in> entries_of st Segmented" for e using entries_disjoint [OF ok(1) that, of Current] by auto
  then have "rp_offers st' Segmented = rp_offers st Segmented"
    unfolding rp_offers_infos [OF ok(1)] rp_offers_infos [OF ok(2)] r(4) by (intro image_cong) (auto simp: r(5))
  moreover have "entries_of st' Current = {e \<in> entries_of st Current. holdtime (ents st e) = TIMER_INFINITY \<or> unat i < unat (holdtime (ents st e))}"
    unfolding r(3) TIMEOUT_iff by auto
  ultimately show ?thesis using r(1,2,5) by (intro exI [of _ fs] exI [of _ st']) (auto simp: r(3))
qed

theorem age_rp_set_correct_witness:
  "\<exists>fs st'. age_masks sample_addr1 200 [0] (sample_rps 0) = Some (fs, st') \<and> rp_inv st' \<and> entries_of st' Current = {}"
proof -
  have "holdtime (ents (sample_rps 0) e) = 150" for e by (simp add: sample_rps_def)
  then show ?thesis using age_rp_set_correct [OF sample_rps_groups [of 0], of sample_addr1 200] by (auto simp: sample_fields)
qed

end
