(* ===== verification/PIM_Sync.thy ===== *)
theory PIM_Sync
  imports PIM_Bootstrap
begin

unbundle bit_operations_syntax

text \<open>
  What a bootstrap message does to the router that accepts it: the message is read back as the list of prefixes and RPs that
  was written, the RPs are installed, those that the bootstrap router has withdrawn are removed, and sender and receiver
  agree on the RP of every group about which the receiver has learnt nothing else.
\<close>

section \<open>What a message says\<close>

text \<open>A message as a list of prefixes (mask length and address) with their RPs (address, holdtime, priority).\<close>

type_synonym rp_item = "in6_addr \<times> u16 \<times> byte"
type_synonym group_item = "byte \<times> in6_addr \<times> rp_item list"

definition enc_rp :: "rp_item \<Rightarrow> byte list" where
  "enc_rp r = (case r of (a, hold, pri) \<Rightarrow> PUT_EUADDR6 a @ PUT_HOSTSHORT hold @ [pri, 0])"

definition eg_of :: "byte \<Rightarrow> in6_addr \<Rightarrow> pim6_encod_grp_addr" where
  "eg_of ml grp = \<lparr>eg_family = ADDRF_IPv6, eg_type = ADDRT_IPv6, eg_reserved = 0, eg_masklen = ml, mcast_addr = grp\<rparr>"

definition enc_group :: "group_item \<Rightarrow> byte list" where
  "enc_group g = (case g of (ml, grp, rs) \<Rightarrow>
     put_eg (eg_of ml grp) @ [of_nat (length rs), of_nat (length rs)] @ PUT_HOSTSHORT 0 @ concat (map enc_rp rs))"

definition rp_item_ok :: "rp_item \<Rightarrow> bool" where
  "rp_item_ok r \<longleftrightarrow> (case r of (a, hold, pri) \<Rightarrow> length a = 16 \<and> \<not> IN6_IS_ADDR_LINKLOCAL a \<and> \<not> IN6_IS_ADDR_SITELOCAL a \<and>
     \<not> IN6_IS_ADDR_MULTICAST a)"

definition group_item_ok :: "group_item \<Rightarrow> bool" where
  "group_item_ok g \<longleftrightarrow> (case g of (ml, grp, rs) \<Rightarrow> eg_ok (eg_of ml grp) \<and> IN6_IS_ADDR_MULTICAST grp \<and>
     \<not> IN6_IS_ADDR_MC_NODELOCAL grp \<and> \<not> IN6_IS_ADDR_MC_LINKLOCAL grp \<and> rs \<noteq> [] \<and> length rs < 256 \<and> (\<forall>r \<in> set rs. rp_item_ok r))"

interpretation er: wire_field enc_rp get_rp 22 rp_item_ok
proof
  fix r :: rp_item and xs ys
  obtain a hold pri where r: "r = (a, hold, pri)" by (cases r)
  assume "rp_item_ok r"
  then have a: "length a = 16" by (simp add: rp_item_ok_def r)
  let ?e = "\<lparr>eu_family = ADDRF_IPv6, eu_type = ADDRT_IPv6, unicast_addr = a\<rparr>"
  have "GET_EUADDR6 (xs @ enc_rp r @ ys) (length xs) = Some ?e"
    using eu.get_put [of ?e xs "PUT_HOSTSHORT hold @ [pri, 0] @ ys"] a by (simp add: enc_rp_def r)
  moreover have "GET_HOSTSHORT (xs @ enc_rp r @ ys) (length xs + 18) = Some hold"
    using hs.get_put [where a = hold and xs = "xs @ PUT_EUADDR6 a" and ys = "[pri, 0] @ ys"] a by (simp add: enc_rp_def r PUT_EUADDR6_def)
  moreover have "rd (xs @ enc_rp r @ ys) (length xs + 20) = Some pri" "rd (xs @ enc_rp r @ ys) (length xs + 21) = Some 0"
    using a by (simp_all add: enc_rp_def r rd_def nth_append PUT_EUADDR6_def PUT_HOSTSHORT_def)
  ultimately show "get_rp (xs @ enc_rp r @ ys) (length xs) = Some r" by (simp add: get_rp_def r)
  show "length (enc_rp r) = 22" using a by (simp add: enc_rp_def r PUT_EUADDR6_def PUT_HOSTSHORT_def)
qed

text \<open>The entries that a message adds, one after the other.\<close>

type_synonym load_item = "in6_addr \<times> in6_addr \<times> rp_item"

fun load_rps :: "boot_ctx \<Rightarrow> load_item list \<Rightarrow> rp_state \<Rightarrow> (rp_effect list \<times> rp_state) option" where
  "load_rps c [] st = Some ([], st)"
| "load_rps c ((grp, gmask, a, hold, pri) # xs) st = do {
     (fs, st) \<leftarrow> add_bsr_entry c Current \<lparr>sin6_addr = a, sin6_scope_id = 0\<rparr> pri hold grp gmask st;
     (fs', st) \<leftarrow> load_rps c xs st;
     Some (fs @ fs', st) }"

lemma load_rps_append:
  "load_rps c (xs @ ys) st = do { (fs, st) \<leftarrow> load_rps c xs st; (fs', st) \<leftarrow> load_rps c ys st; Some (fs @ fs', st) }"
proof (induction c xs st rule: load_rps.induct)
  case (2 c grp gmask a hold pri xs st)
  show ?case
  proof (cases "add_bsr_entry c Current \<lparr>sin6_addr = a, sin6_scope_id = 0\<rparr> pri hold grp gmask st")
    case (Some x)
    then obtain fs s where x: "add_bsr_entry c Current \<lparr>sin6_addr = a, sin6_scope_id = 0\<rparr> pri hold grp gmask st = Some (fs, s)" by (cases x) simp
    show ?thesis
    proof (cases "load_rps c xs s")
      case (Some y)
      then show ?thesis using 2 [OF x refl] x by (cases y; cases "load_rps c ys (snd y)") auto
    qed (use 2 [OF x refl] x in simp)
  qed simp
qed simp

lemma add_all_rps_load:
  assumes "\<forall>r \<in> set rs. rp_item_ok r" and "drop p (bc_buf c) = concat (map enc_rp rs) @ rest" and "p \<le> length (bc_buf c)"
    and "p + 22 * length rs \<le> bc_max c"
  shows "add_all_rps c grp gmask (length rs) p sc st =
    map_option (\<lambda>(fs, st). (fs, False, if rs = [] then sc else 0, st)) (load_rps c (map (\<lambda>r. (grp, gmask, r)) rs) st)"
  using assms
proof (induction rs arbitrary: p sc st)
  case (Cons r rs)
  obtain a hold pri where r: "r = (a, hold, pri)" by (cases r)
  have ok: "rp_item_ok r" using Cons.prems(1) by simp
  have d: "drop p (bc_buf c) = enc_rp r @ (concat (map enc_rp rs) @ rest)" using Cons.prems(2) by simp
  have g: "get_rp (bc_buf c) p = Some (a, hold, pri)" using er.get_at [OF ok d Cons.prems(3)] by (simp add: r)
  have n: "add_all_rps c grp gmask (length rs) (p + 22) 0 s =
    map_option (\<lambda>(fs, st). (fs, False, if rs = [] then 0 else 0, st)) (load_rps c (map (\<lambda>r. (grp, gmask, r)) rs) s)" for s
    by (rule Cons.IH) (use Cons.prems er.drop_at [OF ok d] er.fits [OF ok d Cons.prems(3)] in simp_all)
  have "p + 18 + 4 \<le> bc_max c" using Cons.prems(4) by simp
  then show ?case using g ok n by (auto simp: r rp_item_ok_def option.map_comp split: option.split Option.bind_split)
qed simp

definition gmask_of :: "byte \<Rightarrow> in6_addr" where
  "gmask_of ml = (case MASKLEN_TO_MASK6 (unat ml) of Some m \<Rightarrow> m | None \<Rightarrow> [])"

definition items_of :: "group_item \<Rightarrow> load_item list" where
  "items_of g = (case g of (ml, grp, rs) \<Rightarrow> map (\<lambda>r. (grp, gmask_of ml, r)) rs)"

lemma length_enc_group: "group_item_ok (ml, grp, rs) \<Longrightarrow> length (enc_group (ml, grp, rs)) = 24 + 22 * length rs"
  using eg.put_length [of "eg_of ml grp"] er.length_puts [of rs] by (auto simp: enc_group_def group_item_ok_def PUT_HOSTSHORT_def)

lemma boot_group_enc:
  assumes "group_item_ok (ml, grp, rs)" and "drop p (bc_buf c) = enc_group (ml, grp, rs) @ rest" and "p \<le> length (bc_buf c)"
    and "p + 24 + 22 * length rs \<le> bc_max c"
  shows "boot_group c p sc st = map_option (\<lambda>(fs, st). (fs, False, length rs, 0, st)) (load_rps c (items_of (ml, grp, rs)) st)"
proof -
  let ?n = "of_nat (length rs) :: byte" and ?tail = "concat (map enc_rp rs) @ rest"
  have ok: "eg_ok (eg_of ml grp)" "IN6_IS_ADDR_MULTICAST grp" "\<not> IN6_IS_ADDR_MC_NODELOCAL grp" "\<not> IN6_IS_ADDR_MC_LINKLOCAL grp"
    "rs \<noteq> []" "length rs < 256" "\<forall>r \<in> set rs. rp_item_ok r" using assms(1) by (auto simp: group_item_ok_def)
  have d0: "drop p (bc_buf c) = put_eg (eg_of ml grp) @ (?n # ?n # PUT_HOSTSHORT 0 @ ?tail)" using assms(2) by (simp add: enc_group_def)
  have d1: "drop (p + 20) (bc_buf c) = ?n # ?n # PUT_HOSTSHORT 0 @ ?tail" by (rule eg.drop_at [OF ok(1) d0])
  have l1: "p + 20 \<le> length (bc_buf c)" by (rule eg.fits [OF ok(1) d0 assms(3)])
  have dn: "drop (p + 20 + k) (bc_buf c) = drop k (?n # ?n # PUT_HOSTSHORT 0 @ ?tail)" for k
    using d1 drop_drop [of k "p + 20" "bc_buf c"] by (simp add: add.commute)
  have len: "length (bc_buf c) - (p + 20) = length (?n # ?n # PUT_HOSTSHORT 0 @ ?tail)" unfolding d1 [symmetric] by simp
  have r: "rd (bc_buf c) (p + 20) = Some ?n" "rd (bc_buf c) (p + 21) = Some ?n"
    using len l1 dn [of 0] dn [of 1] by (auto simp: rd_def nth_via_drop add.commute [of 21])
  have d3: "drop (p + 22) (bc_buf c) = PUT_HOSTSHORT 0 @ ?tail" using dn [of 2] by (simp add: numeral_2_eq_2 add.commute [of 22])
  have l3: "p + 22 \<le> length (bc_buf c)" using len l1 by simp
  have h: "GET_HOSTSHORT (bc_buf c) (p + 22) = Some 0" using hs.get_at [OF TrueI d3 l3] by simp
  have d4: "drop (p + 24) (bc_buf c) = ?tail" using hs.drop_at [OF TrueI d3] by (simp add: add.commute [of 24])
  have l4: "p + 24 \<le> length (bc_buf c)" using hs.fits [OF TrueI d3 l3] by simp
  obtain m where m: "MASKLEN_TO_MASK6 (unat ml) = Some m" using ok(1) by (auto simp: eg_ok_def eg_of_def MASKLEN_TO_MASK6_eq)
  have g: "GET_EGADDR6 (bc_buf c) p = Some (eg_of ml grp)" by (rule eg.get_at [OF ok(1) d0 assms(3)])
  have n: "unat ?n = length rs" using ok(6) by (simp add: unat_of_nat)
  have n0: "?n \<noteq> 0" using n ok(5) by auto
  have "add_all_rps c grp m (length rs) (p + 24) sc st =
      map_option (\<lambda>(fs, st). (fs, False, if rs = [] then sc else 0, st)) (load_rps c (map (\<lambda>r. (grp, m, r)) rs) st)"
    by (rule add_all_rps_load [OF ok(7) d4 l4]) (use assms(4) in simp)
  then show ?thesis using g r h m n0 ok(3-5) unfolding boot_group_def items_of_def gmask_of_def n
    by (simp add: eg_of_def Let_def n) (cases "load_rps c (map (\<lambda>r. (grp, m, r)) rs) st"; auto)
qed

lemma boot_loop_enc:
  assumes "\<forall>g \<in> set gs. group_item_ok g" and "drop p (bc_buf c) = concat (map enc_group gs) @ rest" and "p \<le> length (bc_buf c)"
    and "bc_max c = p + length (concat (map enc_group gs))"
  shows "boot_loop c p sc st = load_rps c (concat (map items_of gs)) st"
  using assms
proof (induction gs arbitrary: p sc st)
  case Nil
  then show ?case by (simp add: boot_loop.simps)
next
  case (Cons g gs)
  obtain ml grp rs where g: "g = (ml, grp, rs)" by (cases g)
  have ok: "group_item_ok (ml, grp, rs)" using Cons.prems(1) g by simp
  note len = length_enc_group [OF ok]
  have d: "drop p (bc_buf c) = enc_group (ml, grp, rs) @ (concat (map enc_group gs) @ rest)" using Cons.prems(2) g by simp
  have l: "length (bc_buf c) - p = length (enc_group (ml, grp, rs) @ (concat (map enc_group gs) @ rest))" unfolding d [symmetric] by simp
  have mx: "bc_max c = p + (24 + 22 * length rs) + length (concat (map enc_group gs))" using Cons.prems(4) len g by simp
  have b: "boot_group c p sc st = map_option (\<lambda>(fs, st). (fs, False, length rs, 0, st)) (load_rps c (items_of g) st)"
    unfolding g by (rule boot_group_enc [OF ok d Cons.prems(3)]) (use mx in simp)
  have d': "drop (p + 24 + 22 * length rs) (bc_buf c) = concat (map enc_group gs) @ rest"
    using d len drop_drop [of "24 + 22 * length rs" p "bc_buf c"] by (simp add: add_ac)
  have n: "boot_loop c (p + 24 + 22 * length rs) 0 s = load_rps c (concat (map items_of gs)) s" for s
    by (rule Cons.IH [OF _ d']) (use Cons.prems(1,3) mx l len in simp_all)
  have "p + 24 \<le> bc_max c" using mx by simp
  then show ?case using b n by (subst boot_loop.simps) (cases "load_rps c (items_of g) st", auto simp: load_rps_append split: prod.splits)
qed

section \<open>What a message changes\<close>

definition item_prefix :: "load_item \<Rightarrow> sockaddr_in6" where
  "item_prefix x = (case x of (grp, gmask, r) \<Rightarrow> prefix_of grp gmask)"

definition item_offer :: "load_item \<Rightarrow> sockaddr_in6 \<times> sockaddr_in6 \<times> byte \<times> byte" where
  "item_offer x = (case x of (grp, gmask, a, hold, pri) \<Rightarrow> (prefix_of grp gmask, \<lparr>sin6_addr = a, sin6_scope_id = 0\<rparr>, pri, RP_ORIGIN_BSR))"

definition item_mask :: "in6_addr \<Rightarrow> load_item \<Rightarrow> sockaddr_in6 \<times> in6_addr \<times> in6_addr" where
  "item_mask hmask x = (case x of (grp, gmask, r) \<Rightarrow> (prefix_of grp gmask, gmask, hmask))"

definition load_item_ok :: "load_item \<Rightarrow> bool" where
  "load_item_ok x \<longleftrightarrow> (case x of (grp, gmask, r) \<Rightarrow> IN6_IS_ADDR_MULTICAST grp \<and> rp_item_ok r)"

text \<open>\<^verbatim>\<open>loaded c X st0 st\<close>: the items \<^verbatim>\<open>X\<close> of a message have been added to \<^verbatim>\<open>st0\<close>.\<close>

definition loaded :: "boot_ctx \<Rightarrow> load_item set \<Rightarrow> rp_state \<Rightarrow> rp_state \<Rightarrow> bool" where
  "loaded c X st0 st \<longleftrightarrow> rp_inv st \<and>
     (\<forall>e \<in> entries_of st0 Current. e \<in> entries_of st Current \<and> offer_of (info st e) = offer_of (info st0 e)) \<and>
     (\<forall>e \<in> entries_of st Current. if offer_of (info st e) \<in> item_offer ` X then i_tag (info st e) = bc_tag c
        else e \<in> entries_of st0 Current \<and> info st e = info st0 e) \<and>
     (\<forall>y \<in> item_offer ` X. \<exists>e \<in> entries_of st Current. offer_of (info st e) = y) \<and>
     (\<forall>m \<in> set (grp_mask_list st Current). gm_fragment_tag (masks st m) = bc_tag c \<longleftrightarrow> mask_prefix st m \<in> item_prefix ` X) \<and>
     mask_infos st Current \<subseteq> mask_infos st0 Current \<union> item_mask (bc_hash_mask c) ` X"

lemma loadedD:
  assumes "loaded c X st0 st"
  shows "rp_inv st" "\<And>e. e \<in> entries_of st0 Current \<Longrightarrow> e \<in> entries_of st Current \<and> offer_of (info st e) = offer_of (info st0 e)"
    "\<And>e. e \<in> entries_of st Current \<Longrightarrow> offer_of (info st e) \<in> item_offer ` X \<Longrightarrow> i_tag (info st e) = bc_tag c"
    "\<And>e. e \<in> entries_of st Current \<Longrightarrow> offer_of (info st e) \<notin> item_offer ` X \<Longrightarrow> e \<in> entries_of st0 Current \<and> info st e = info st0 e"
    "\<And>y. y \<in> item_offer ` X \<Longrightarrow> \<exists>e \<in> entries_of st Current. offer_of (info st e) = y"
    "\<And>m. m \<in> set (grp_mask_list st Current) \<Longrightarrow> gm_fragment_tag (masks st m) = bc_tag c \<longleftrightarrow> mask_prefix st m \<in> item_prefix ` X"
    "mask_infos st Current \<subseteq> mask_infos st0 Current \<union> item_mask (bc_hash_mask c) ` X"
  using assms unfolding loaded_def by (blast, blast, metis, metis, blast, blast, blast)

lemma load_item:
  assumes "loaded c X st0 st" and "load_item_ok x" and "x = (grp, gmask, a, hold, pri)"
  shows "\<exists>fs st'. add_bsr_entry c Current \<lparr>sin6_addr = a, sin6_scope_id = 0\<rparr> pri hold grp gmask st = Some (fs, st') \<and> loaded c (insert x X) st0 st'"
proof -
  note L = loadedD [OF assms(1)]
  let ?rp = "\<lparr>sin6_addr = a, sin6_scope_id = 0\<rparr>" and ?p = "prefix_of grp gmask"
  have v: "length (sin6_addr ?rp) = 16" "inet6_valid_host ?rp" "IN6_IS_ADDR_MULTICAST grp"
    using assms(2) by (simp_all add: assms(3) load_item_ok_def rp_item_ok_def inet6_valid_host_def)
  obtain e fs st' gm hm where q: "add_bsr_entry c Current ?rp pri hold grp gmask st = Some (fs, st')" "rp_ok st'" "groups_ok {} st'"
    "\<forall>v. entries_of st' v = entries_of st v \<union> (if v = Current then {e} else {})"
    "\<forall>f \<in> all_entries st - {e}. info st' f = info st f"
    "info st' e = \<lparr>i_prefix = ?p, i_gmask = gm, i_hmask = hm, i_rp = ?rp, i_priority = pri, i_origin = RP_ORIGIN_BSR,
       i_holdtime = hold, i_advholdtime = hold, i_tag = bc_tag c\<rparr>"
    "\<forall>v. mask_infos st' v = mask_infos st v \<union> (if v = Current then {(?p, gm, hm)} else {})"
    "(?p, gm, hm) \<in> mask_infos st Current \<or> ?p \<notin> fst ` mask_infos st Current \<and> gm = gmask \<and> hm = bc_hash_mask c"
    "e \<in> all_entries st \<longrightarrow> offer_of (info st e) = offer_of (info st' e)"
    "\<forall>v. set (grp_mask_list st' v) = set (grp_mask_list st v) \<union> (if v = Current then {rg_group (ents st' e)} else {})"
    "\<forall>n. gm_fragment_tag (masks st' n) = (if n = rg_group (ents st' e) then bc_tag c else gm_fragment_tag (masks st n))"
    "\<forall>n. n \<noteq> rg_group (ents st' e) \<longrightarrow> mask_prefix st' n = mask_prefix st n"
    using add_bsr_entry_more [OF L(1) v, of c Current pri hold gmask] by (elim exE conjE) (rule that)
  note r = q [rule_format]
  have inv: "rp_inv st'" using r(2,3) by (simp add: rp_inv_def)
  have o: "offer_of (info st' e) = item_offer x" unfolding r(6) by (simp add: offer_of_def item_offer_def assms(3))
  have inj: "f = g" if "f \<in> entries_of st' Current" "g \<in> entries_of st' Current" "offer_of (info st' f) = offer_of (info st' g)" for f g
    using inj_onD [OF offer_inj [OF r(2), of Current]] that by blast
  have all: "f \<in> all_entries st" if "f \<in> entries_of st Current" for f using entries_all [OF that] .
  have A: "f \<in> entries_of st' Current \<and> offer_of (info st' f) = offer_of (info st0 f)" if "f \<in> entries_of st0 Current" for f
    using L(2) [OF that] r(4) [of Current] r(5) [of f] r(9) all [of f] by (cases "f = e") auto
  have B: "if offer_of (info st' f) \<in> item_offer ` insert x X then i_tag (info st' f) = bc_tag c
      else f \<in> entries_of st0 Current \<and> info st' f = info st0 f" if f: "f \<in> entries_of st' Current" for f
  proof (cases "f = e")
    case True
    then show ?thesis using o r(6) by simp
  next
    case False
    then have s: "f \<in> entries_of st Current" "info st' f = info st f" using f r(4) [of Current] r(5) [of f] all by auto
    have "offer_of (info st' f) \<noteq> item_offer x" using inj [OF f, of e] r(4) [of Current] o False by auto
    then show ?thesis using L(3,4) [OF s(1)] s(2) by auto
  qed
  have C: "\<exists>f \<in> entries_of st' Current. offer_of (info st' f) = y" if "y \<in> item_offer ` insert x X" for y
  proof (cases "y = item_offer x")
    case True
    then show ?thesis using o r(4) [of Current] by auto
  next
    case False
    then have "y \<in> item_offer ` X" using that by simp
    then obtain f where "f \<in> entries_of st Current" "offer_of (info st f) = y" using L(5) [of y] by blast
    then have "f \<in> entries_of st' Current \<and> offer_of (info st' f) = y" using r(4) [of Current] r(5) [of f] r(9) all [of f] by (cases "f = e") auto
    then show ?thesis by blast
  qed
  have pe: "mask_prefix st' (rg_group (ents st' e)) = ?p" using arg_cong [OF r(6), of i_prefix] by (simp add: info_def Let_def)
  have D: "gm_fragment_tag (masks st' m) = bc_tag c \<longleftrightarrow> mask_prefix st' m \<in> item_prefix ` insert x X" if m: "m \<in> set (grp_mask_list st' Current)" for m
  proof (cases "m = rg_group (ents st' e)")
    case True
    then show ?thesis using pe r(11) by (simp add: item_prefix_def assms(3))
  next
    case False
    have "mask_prefix st' m \<noteq> ?p"
      using sorted_key_inj [OF lists_okD(2) [OF r(2)] m, of "rg_group (ents st' e)"] r(10) [of Current] pe False by auto
    moreover have "m \<in> set (grp_mask_list st Current)" using m r(10) [of Current] False by auto
    ultimately show ?thesis using L(6) [of m] r(11,12) False by (auto simp: item_prefix_def assms(3))
  qed
  have E: "mask_infos st' Current \<subseteq> mask_infos st0 Current \<union> item_mask (bc_hash_mask c) ` insert x X"
    using L(7) r(7) [of Current] r(8) by (auto simp: item_mask_def assms(3))
  show ?thesis using r(1) inv A B C D E unfolding loaded_def by blast
qed

lemma loaded_start:
  assumes "rp_inv st" and "\<forall>m \<in> set (grp_mask_list st Current). gm_fragment_tag (masks st m) \<noteq> bc_tag c"
  shows "loaded c {} st st"
  using assms by (simp add: loaded_def)

lemma load_rps_ok:
  assumes "loaded c X st0 st" and "\<forall>x \<in> set xs. load_item_ok x"
  shows "\<exists>fs st'. load_rps c xs st = Some (fs, st') \<and> loaded c (X \<union> set xs) st0 st'"
  using assms
proof (induction c xs st arbitrary: X rule: load_rps.induct)
  case (2 c grp gmask a hold pri xs st)
  let ?x = "(grp, gmask, a, hold, pri)"
  obtain fs s1 where 1: "add_bsr_entry c Current \<lparr>sin6_addr = a, sin6_scope_id = 0\<rparr> pri hold grp gmask st = Some (fs, s1)" "loaded c (insert ?x X) st0 s1"
    using load_item [OF "2.prems"(1) _ refl, of grp gmask a hold pri] "2.prems"(2) by auto
  then show ?case using "2.IH" [OF 1(1) refl 1(2)] "2.prems"(2) by auto
qed simp

text \<open>
  The RP set after a message: of the prefixes in it, what was learnt from a bootstrap router and is not in the message is
  gone; everything in the message is there; other prefixes and static RPs are as before.
\<close>

definition fresh_tag :: "u16 \<Rightarrow> rp_state \<Rightarrow> bool" where
  "fresh_tag tag st \<longleftrightarrow> (\<forall>m \<in> set (grp_mask_list st Current). gm_fragment_tag (masks st m) \<noteq> tag) \<and>
     (\<forall>e \<in> entries_of st Current. rg_fragment_tag (ents st e) \<noteq> tag)"

lemma load_collect:
  assumes "rp_inv st" and "fresh_tag (bc_tag c) st" and "\<forall>x \<in> set xs. load_item_ok x"
  shows "\<exists>fs s1 fs' st'. load_rps c xs st = Some (fs, s1) \<and> garbage_collect uninit (bc_tag c) s1 = Some (fs', st') \<and> rp_inv st' \<and>
    rp_offers st' Current = item_offer ` set xs \<union>
      {y \<in> rp_offers st Current. fst y \<notin> item_prefix ` set xs \<or> snd (snd (snd y)) \<noteq> RP_ORIGIN_BSR} \<and>
    (\<forall>e \<in> entries_of st' Current. (i_prefix (info st' e), i_gmask (info st' e), i_hmask (info st' e)) \<in>
       mask_infos st Current \<union> item_mask (bc_hash_mask c) ` set xs)"
proof -
  have t: "\<forall>m \<in> set (grp_mask_list st Current). gm_fragment_tag (masks st m) \<noteq> bc_tag c" using assms(2) by (simp add: fresh_tag_def)
  then obtain fs s1 where 1: "load_rps c xs st = Some (fs, s1)" "loaded c (set xs) st s1"
    using load_rps_ok [OF loaded_start [OF assms(1) t] assms(3)] by auto
  note L = loadedD [OF 1(2)]
  obtain fs' st' where 2: "garbage_collect uninit (bc_tag c) s1 = Some (fs', st')" "rp_inv st'" "same_data s1 st'"
    "\<And>v. entries_of st' v = {e \<in> entries_of s1 v. \<not> (tag_of s1 e = bc_tag c \<and> stale (bc_tag c) s1 e)}"
    using garbage_collect_ok [OF L(1)] by blast
  have ok: "rp_ok st" "rp_ok s1" "rp_ok st'" using assms(1) L(1) 2(2) by (simp_all add: rp_inv_def)
  have tg: "tag_of s1 e = bc_tag c \<longleftrightarrow> i_prefix (info s1 e) \<in> item_prefix ` set xs" if "e \<in> entries_of s1 Current" for e
  proof -
    have "rg_group (ents s1 e) \<in> set (grp_mask_list s1 Current)" using that mask_ok_entry(1) [OF ok(2)] by (auto simp: entries_of_def)
    then show ?thesis using L(6) by (simp add: tag_of_def info_def Let_def)
  qed
  have st: "stale (bc_tag c) s1 e \<longleftrightarrow> i_origin (info s1 e) = RP_ORIGIN_BSR \<and> i_tag (info s1 e) \<noteq> bc_tag c" for e
    by (simp add: stale_def info_def Let_def)
  have old: "i_tag (info st e) \<noteq> bc_tag c" if "e \<in> entries_of st Current" for e
    using assms(2) that by (simp add: fresh_tag_def info_def Let_def)
  have i: "info st' = info s1" using same_data_info [OF 2(3)] .
  have keep: "e \<in> entries_of st' Current \<longleftrightarrow> e \<in> entries_of s1 Current \<and>
      (offer_of (info s1 e) \<in> item_offer ` set xs \<or> i_prefix (info s1 e) \<notin> item_prefix ` set xs \<or> i_origin (info s1 e) \<noteq> RP_ORIGIN_BSR)" for e
    unfolding 2(4) using tg [of e] st [of e] L(3,4) [of e] old [of e] by auto
  have "y \<in> rp_offers st' Current \<longleftrightarrow> y \<in> item_offer ` set xs \<or>
      y \<in> rp_offers st Current \<and> (fst y \<notin> item_prefix ` set xs \<or> snd (snd (snd y)) \<noteq> RP_ORIGIN_BSR)" for y
  proof
    assume "y \<in> rp_offers st' Current"
    then obtain e where e: "e \<in> entries_of st' Current" "y = offer_of (info s1 e)" unfolding rp_offers_infos [OF ok(3)] i by auto
    then show "y \<in> item_offer ` set xs \<or> y \<in> rp_offers st Current \<and> (fst y \<notin> item_prefix ` set xs \<or> snd (snd (snd y)) \<noteq> RP_ORIGIN_BSR)"
      using keep [of e] L(4) [of e] unfolding rp_offers_infos [OF ok(1)] by (auto simp: offer_of_def)
  next
    assume a: "y \<in> item_offer ` set xs \<or> y \<in> rp_offers st Current \<and> (fst y \<notin> item_prefix ` set xs \<or> snd (snd (snd y)) \<noteq> RP_ORIGIN_BSR)"
    have "\<exists>e \<in> entries_of s1 Current. y = offer_of (info s1 e)"
      using a L(5) [of y] L(2) unfolding rp_offers_infos [OF ok(1)] by (metis (no_types, lifting) imageE)
    then obtain e where e: "e \<in> entries_of s1 Current" "y = offer_of (info s1 e)" by blast
    then have "e \<in> entries_of st' Current" using keep [of e] a by (auto simp: offer_of_def)
    then show "y \<in> rp_offers st' Current" unfolding rp_offers_infos [OF ok(3)] i using e(2) by auto
  qed
  then have "rp_offers st' Current = item_offer ` set xs \<union>
      {y \<in> rp_offers st Current. fst y \<notin> item_prefix ` set xs \<or> snd (snd (snd y)) \<noteq> RP_ORIGIN_BSR}" by (intro set_eqI) (simp only: Un_iff mem_Collect_eq)
  moreover have "(i_prefix (info st' e), i_gmask (info st' e), i_hmask (info st' e)) \<in> mask_infos st Current \<union> item_mask (bc_hash_mask c) ` set xs"
    if "e \<in> entries_of st' Current" for e
  proof -
    have "e \<in> entries_of s1 Current" using that 2(4) by simp
    then have "rg_group (ents s1 e) \<in> set (grp_mask_list s1 Current)" using mask_ok_entry(1) [OF ok(2)] by (auto simp: entries_of_def)
    then have "(i_prefix (info s1 e), i_gmask (info s1 e), i_hmask (info s1 e)) \<in> mask_infos s1 Current"
      by (auto simp: mask_infos_def info_def Let_def)
    then show ?thesis using L(7) i by auto
  qed
  ultimately show ?thesis using 1(1) 2(1,2) by blast
qed

section \<open>From the bootstrap router to the other routers\<close>

text \<open>
  An RP set that a bootstrap message can carry: contiguous masks, prefixes beyond the link, at most 255 RPs for each, learnt
  from advertisements and with global unicast addresses, and the hash mask of the bootstrap router.
\<close>

definition plain_mask :: "in6_addr \<Rightarrow> bool" where
  "plain_mask m \<longleftrightarrow> (\<exists>n \<le> 128. MASKLEN_TO_MASK6 n = Some m)"

definition rp_announceable :: "rp_state \<Rightarrow> nat \<Rightarrow> bool" where
  "rp_announceable st e \<longleftrightarrow> rg_origin (ents st e) = RP_ORIGIN_BSR \<and> sin6_scope_id (cand_address st (rg_rp (ents st e))) = 0 \<and>
     (let a = sin6_addr (cand_address st (rg_rp (ents st e)))
      in \<not> IN6_IS_ADDR_LINKLOCAL a \<and> \<not> IN6_IS_ADDR_SITELOCAL a \<and> \<not> IN6_IS_ADDR_MULTICAST a)"

definition grp_announceable :: "in6_addr \<Rightarrow> rp_state \<Rightarrow> nat \<Rightarrow> bool" where
  "grp_announceable hmask st m \<longleftrightarrow> plain_mask (group_mask (masks st m)) \<and> hash_mask (masks st m) = hmask \<and>
     (let p = sin6_addr (mask_prefix st m)
      in IN6_IS_ADDR_MULTICAST p \<and> \<not> IN6_IS_ADDR_MC_NODELOCAL p \<and> \<not> IN6_IS_ADDR_MC_LINKLOCAL p) \<and>
     grp_rp_chain (masks st m) \<noteq> [] \<and> length (grp_rp_chain (masks st m)) < 256 \<and>
     (\<forall>e \<in> set (grp_rp_chain (masks st m)). rp_announceable st e)"

definition announceable :: "in6_addr \<Rightarrow> rp_state \<Rightarrow> bool" where
  "announceable hmask st \<longleftrightarrow> plain_mask hmask \<and> (\<forall>m \<in> set (grp_mask_list st Current). grp_announceable hmask st m)"

definition rp_item_of :: "rp_state \<Rightarrow> nat \<Rightarrow> rp_item" where
  "rp_item_of st e = (sin6_addr (cand_address st (rg_rp (ents st e))), advholdtime (ents st e), rg_priority (ents st e))"

definition group_item_of :: "rp_state \<Rightarrow> nat \<Rightarrow> group_item" where
  "group_item_of st m = (MASK_TO_MASKLEN6 (group_mask (masks st m)), sin6_addr (mask_prefix st m), map (rp_item_of st) (grp_rp_chain (masks st m)))"

lemma plain_masklen:
  assumes "plain_mask m"
  shows "MASKLEN_TO_MASK6 (unat (MASK_TO_MASKLEN6 m)) = Some m" "unat (MASK_TO_MASKLEN6 m) \<le> 128"
proof -
  obtain n where n: "n \<le> 128" "MASKLEN_TO_MASK6 n = Some m" using assms by (auto simp: plain_mask_def)
  then have "MASK_TO_MASKLEN6 m = of_nat n" using masklen_roundtrip [of n] by auto
  then have "unat (MASK_TO_MASKLEN6 m) = n" using n(1) by (simp add: unat_of_nat)
  then show "MASKLEN_TO_MASK6 (unat (MASK_TO_MASKLEN6 m)) = Some m" "unat (MASK_TO_MASKLEN6 m) \<le> 128" using n by simp_all
qed

lemma prefix_of_prefix: "prefix_of (sin6_addr (prefix_of a m)) m = prefix_of a m"
  by (simp add: prefix_of_def and.assoc)

lemma put_grp_mask_enc:
  assumes "rp_inv st" and "m \<in> set (grp_mask_list st Current)" and "grp_announceable hmask st m"
  shows "put_grp_mask st m = Some (enc_group (group_item_of st m))" "group_item_ok (group_item_of st m)"
    "set (items_of (group_item_of st m)) = (\<lambda>e. (sin6_addr (mask_prefix st m), group_mask (masks st m), rp_item_of st e)) ` set (grp_rp_chain (masks st m))"
proof -
  let ?m = "masks st m" let ?p = "mask_prefix st m" let ?es = "grp_rp_chain ?m" let ?ml = "MASK_TO_MASKLEN6 (group_mask ?m)"
  have a: "plain_mask (group_mask ?m)" "?es \<noteq> []" "length ?es < 256" "\<And>e. e \<in> set ?es \<Longrightarrow> rp_announceable st e"
    using assms(3) by (simp_all add: grp_announceable_def)
  note pm = plain_masklen [OF a(1)]
  have ok: "rp_ok st" using assms(1) by (simp add: rp_inv_def)
  have lm: "length (group_mask ?m) = 16" using mask_length [OF pm(1)] .
  have n: "group_rp_number ?m = of_nat (length ?es)" using lists_okD(4) [OF ok assms(2)] by (simp add: mask_ok_def)
  have f: "filter (\<lambda>e. rg_origin (ents st e) = RP_ORIGIN_BSR) ?es = ?es" using a(4) by (intro filter_True) (simp add: rp_announceable_def)
  have rp: "map (put_rp st) ?es = map (enc_rp \<circ> rp_item_of st) ?es"
    by (simp add: put_rp_def enc_rp_def rp_item_of_def)
  have pre: "sin6_addr ?p = map (\<lambda>i. group_mask ?m ! i AND sin6_addr (group_addr ?m) ! i) [0..<16]"
    by (simp add: mask_prefix_def prefix_of_def and.commute)
  have "PUT_EGADDR6 (sin6_addr (group_addr ?m)) ?ml 0 = Some (put_eg (eg_of ?ml (sin6_addr ?p)))"
    by (simp add: PUT_EGADDR6_def pm(1) put_eg_def eg_of_def pre)
  then show "put_grp_mask st m = Some (enc_group (group_item_of st m))"
    using a(2) n unfolding put_grp_mask_def Let_def f rp by (simp add: enc_group_def group_item_of_def)
  have "length (sin6_addr (cand_address st (rg_rp (ents st e)))) = 16" if "e \<in> set ?es" for e
    using entry_address_ok [OF assms(1) entries_ofI [OF assms(2) that]] .
  then have "rp_item_ok (rp_item_of st e)" if "e \<in> set ?es" for e
    using a(4) [OF that] that by (simp add: rp_item_ok_def rp_item_of_def rp_announceable_def Let_def)
  moreover have "eg_ok (eg_of ?ml (sin6_addr ?p))"
    using pm by (simp add: eg_ok_def eg_of_def pre and.left_commute)
  ultimately show "group_item_ok (group_item_of st m)"
    using assms(3) by (auto simp: group_item_ok_def group_item_of_def grp_announceable_def Let_def)
  show "set (items_of (group_item_of st m)) = (\<lambda>e. (sin6_addr ?p, group_mask ?m, rp_item_of st e)) ` set ?es"
    by (auto simp: items_of_def group_item_of_def gmask_of_def pm(1))
qed

lemma put_grp_masks_enc:
  assumes "\<And>m. m \<in> set ms \<Longrightarrow> put_grp_mask st m = Some (enc_group (group_item_of st m))"
  shows "put_grp_masks st ms = Some (concat (map enc_group (map (group_item_of st) ms)))"
  using assms by (induction ms) auto

text \<open>What the message says is what the sender's set says.\<close>

definition message_items :: "rp_state \<Rightarrow> load_item list" where
  "message_items st = concat (map items_of (map (group_item_of st) (grp_mask_list st Current)))"

lemma message_items_set:
  assumes "rp_inv st" and "announceable hmask st"
  shows "item_offer ` set (message_items st) = rp_offers st Current"
    "item_prefix ` set (message_items st) = fst ` rp_offers st Current"
    "item_mask hmask ` set (message_items st) = mask_infos st Current"
    "\<forall>x \<in> set (message_items st). load_item_ok x"
proof -
  have ok: "rp_ok st" using assms(1) by (simp add: rp_inv_def)
  have an: "grp_announceable hmask st m" if "m \<in> set (grp_mask_list st Current)" for m using assms(2) that by (simp add: announceable_def)
  have s: "set (message_items st) = (\<Union>m \<in> set (grp_mask_list st Current).
      (\<lambda>e. (sin6_addr (mask_prefix st m), group_mask (masks st m), rp_item_of st e)) ` set (grp_rp_chain (masks st m)))"
    using put_grp_mask_enc(3) [OF assms(1) _ an] by (auto simp: message_items_def)
  have p: "prefix_of (sin6_addr (mask_prefix st m)) (group_mask (masks st m)) = mask_prefix st m" for m
    by (simp add: mask_prefix_def prefix_of_prefix)
  have o: "item_offer (sin6_addr (mask_prefix st m), group_mask (masks st m), rp_item_of st e) =
      (mask_prefix st m, cand_address st (rg_rp (ents st e)), rg_priority (ents st e), rg_origin (ents st e))"
    if "m \<in> set (grp_mask_list st Current)" "e \<in> set (grp_rp_chain (masks st m))" for m e
  proof -
    have "rp_announceable st e" using an [OF that(1)] that(2) by (simp add: grp_announceable_def)
    then show ?thesis by (simp add: item_offer_def rp_item_of_def p rp_announceable_def)
  qed
  show i: "item_offer ` set (message_items st) = rp_offers st Current"
    unfolding s rp_offers_def mask_rps_def image_UN image_image by (intro SUP_cong refl image_cong) (rule o)
  have q: "item_prefix x = fst (item_offer x)" for x by (simp add: item_prefix_def item_offer_def split: prod.split)
  show "item_prefix ` set (message_items st) = fst ` rp_offers st Current" unfolding i [symmetric] image_image by (simp add: q)
  have ne: "grp_rp_chain (masks st m) \<noteq> []" "hash_mask (masks st m) = hmask" if "m \<in> set (grp_mask_list st Current)" for m
    using an [OF that] by (simp_all add: grp_announceable_def)
  have "item_mask hmask ` set (message_items st) = (\<Union>m \<in> set (grp_mask_list st Current). (\<lambda>e. (mask_prefix st m, group_mask (masks st m), hmask)) ` set (grp_rp_chain (masks st m)))"
    unfolding s image_UN image_image by (simp add: item_mask_def p)
  also have "\<dots> = mask_infos st Current" using ne unfolding mask_infos_def by (auto simp: image_constant_conv)
  finally show "item_mask hmask ` set (message_items st) = mask_infos st Current" .
  show "\<forall>x \<in> set (message_items st). load_item_ok x"
  proof
    fix x assume "x \<in> set (message_items st)"
    then obtain m e where m: "m \<in> set (grp_mask_list st Current)" "e \<in> set (grp_rp_chain (masks st m))"
      "x = (sin6_addr (mask_prefix st m), group_mask (masks st m), rp_item_of st e)" unfolding s by blast
    have "group_item_ok (group_item_of st m)" using put_grp_mask_enc(2) [OF assms(1) m(1) an [OF m(1)]] .
    then show "load_item_ok x" using m(2,3) by (auto simp: load_item_ok_def group_item_ok_def group_item_of_def)
  qed
qed

text \<open>Counting a message changes nothing that the checks look at.\<close>

definition forget :: "uvif \<Rightarrow> uvif" where
  "forget v = v\<lparr>uv_in_pim6_bootsrap := 0\<rparr>"

lemma forget_simps [simp]:
  "vif_off (forget v) = vif_off v" "uv_addrs (forget v) = uv_addrs v" "uv_flags (forget v) = uv_flags v" "uv_linklocal (forget v) = uv_linklocal v"
  "uv_pim_neighbors (forget v) = uv_pim_neighbors v" "forget (v\<lparr>uv_in_pim6_bootsrap := x\<rparr>) = forget v"
  by (simp_all add: forget_def vif_off_def)

lemma forget_loops:
  "local_from a n (map forget vs) = local_from a n vs" "linklocal_vif a n (map forget vs) = linklocal_vif a n vs"
  "forward_bootstrap i msg n (map forget vs) = forward_bootstrap i msg n vs"
  by (induction vs arbitrary: n) (auto simp: inet6_localif_address_def intro!: Option.bind_cong)

lemma forget_iif:
  assumes "map forget (uvifs st') = map forget (uvifs st)" and "rps st' = rps st"
  shows "bootstrap_iif env src dst a st' = bootstrap_iif env src dst a st"
proof -
  have l: "length (uvifs st') = length (uvifs st)" using arg_cong [OF assms(1), of length] by simp
  have "forget (uvifs st' ! i) = forget (uvifs st ! i)" if "i < length (uvifs st)" for i
    using arg_cong [OF assms(1), of "\<lambda>xs. xs ! i"] that l by simp
  then have n: "vif_off (uvifs st' ! i) = vif_off (uvifs st ! i)" "uv_pim_neighbors (uvifs st' ! i) = uv_pim_neighbors (uvifs st ! i)"
    if "i < length (uvifs st)" for i using that by (metis forget_simps(1), metis forget_simps(5))
  show ?thesis
    using forget_loops(1) [of dst 0 "uvifs st'"] forget_loops(1) [of dst 0 "uvifs st"] forget_loops(2) [of dst 0 "uvifs st'"] forget_loops(2) [of dst 0 "uvifs st"]
    unfolding bootstrap_iif_def Let_def local_address_def assms l by (cases "env_rpf env a") (auto simp: n)
qed

text \<open>When a router accepts a message from \<^verbatim>\<open>src\<close> about the bootstrap router with the address \<^verbatim>\<open>a\<close> and the priority \<^verbatim>\<open>pri\<close>.\<close>

definition accepts :: "pim_env \<Rightarrow> sockaddr_in6 \<Rightarrow> sockaddr_in6 \<Rightarrow> sockaddr_in6 \<Rightarrow> byte \<Rightarrow> pim_state \<Rightarrow> bool" where
  "accepts env src dst a pri st \<longleftrightarrow> find_vif_direct src (uvifs st) \<noteq> NO_VIF \<and>
     \<not> IN6_IS_ADDR_MULTICAST (sin6_addr a) \<and> \<not> IN6_IS_ADDR_LINKLOCAL (sin6_addr a) \<and> \<not> IN6_IS_ADDR_SITELOCAL (sin6_addr a) \<and>
     local_address a (uvifs st) = NO_VIF \<and>
     \<not> (curr_bsr_priority (bs st) > pri \<or> curr_bsr_priority (bs st) = pri \<and> inet6_greaterthan (curr_bsr_address (bs st)) a) \<and>
     (case bootstrap_iif env src dst a st of Some (Some inc) \<Rightarrow> True | _ \<Rightarrow> False) \<and> (\<forall>v \<in> set (uvifs st). vif_ok v)"

lemma forward_defined: "\<forall>v \<in> set vs. vif_ok v \<Longrightarrow> \<exists>fs. forward_bootstrap i msg n vs = Some fs"
proof (induction vs arbitrary: n)
  case (Cons v vs)
  then obtain fs where "forward_bootstrap i msg (n + 1) vs = Some fs" by fastforce
  then show ?case using Cons.prems by (auto simp: vif_ok_def)
qed simp

lemma rp_table_infos:
  assumes "rp_ok st"
  shows "rp_table st = (\<lambda>e. (i_gmask (info st e), i_prefix (info st e), i_hmask (info st e), i_rp (info st e), i_priority (info st e), i_origin (info st e))) ` entries_of st Current"
proof -
  have "(\<lambda>e. (group_mask (masks st m), mask_prefix st m, hash_mask (masks st m), cand_address st (rg_rp (ents st e)), rg_priority (ents st e), rg_origin (ents st e))) `
      set (grp_rp_chain (masks st m)) =
    (\<lambda>e. (i_gmask (info st e), i_prefix (info st e), i_hmask (info st e), i_rp (info st e), i_priority (info st e), i_origin (info st e))) ` set (grp_rp_chain (masks st m))"
    if "m \<in> set (grp_mask_list st Current)" for m
    by (rule image_cong) (use mask_ok_entry(1) [OF assms that] in \<open>simp_all add: info_def Let_def\<close>)
  then show ?thesis unfolding rp_table_def entries_of_def image_UN by simp
qed

lemma info_mask:
  assumes "rp_ok st" and "e \<in> entries_of st u"
  shows "(i_prefix (info st e), i_gmask (info st e), i_hmask (info st e)) \<in> mask_infos st u"
proof -
  have "rg_group (ents st e) \<in> set (grp_mask_list st u)" using assms mask_ok_entry(1) [OF assms(1)] by (auto simp: entries_of_def)
  then show ?thesis by (auto simp: mask_infos_def info_def Let_def)
qed

lemma mask_infos_unique:
  assumes "rp_ok st" and "(p, gm, hm) \<in> mask_infos st u" and "(p, gm', hm') \<in> mask_infos st u"
  shows "gm = gm' \<and> hm = hm'"
proof -
  obtain m m' where "m \<in> set (grp_mask_list st u)" "m' \<in> set (grp_mask_list st u)" "mask_prefix st m = p" "mask_prefix st m' = p"
    "gm = group_mask (masks st m)" "hm = hash_mask (masks st m)" "gm' = group_mask (masks st m')" "hm' = hash_mask (masks st m')"
    using assms(2,3) by (auto simp: mask_infos_def)
  moreover from this have "m = m'" by (intro sorted_key_inj [OF lists_okD(2) [OF assms(1)]]) auto
  ultimately show ?thesis by simp
qed

text \<open>Offers and the masks of their prefixes determine the table.\<close>

lemma rp_table_offers:
  assumes "rp_ok st"
  shows "(gm, p, h, a, pri, org) \<in> rp_table st \<longleftrightarrow> (p, a, pri, org) \<in> rp_offers st Current \<and> (p, gm, h) \<in> mask_infos st Current"
proof
  assume "(gm, p, h, a, pri, org) \<in> rp_table st"
  then show "(p, a, pri, org) \<in> rp_offers st Current \<and> (p, gm, h) \<in> mask_infos st Current"
    unfolding rp_table_infos [OF assms] rp_offers_infos [OF assms] using info_mask [OF assms] by (auto simp: offer_of_def)
next
  assume r: "(p, a, pri, org) \<in> rp_offers st Current \<and> (p, gm, h) \<in> mask_infos st Current"
  then obtain e where e: "e \<in> entries_of st Current" "offer_of (info st e) = (p, a, pri, org)" unfolding rp_offers_infos [OF assms] by auto
  then have "gm = i_gmask (info st e) \<and> h = i_hmask (info st e)"
    using mask_infos_unique [OF assms conjunct2 [OF r]] info_mask [OF assms e(1)] by (simp add: offer_of_def)
  then show "(gm, p, h, a, pri, org) \<in> rp_table st"
    unfolding rp_table_infos [OF assms] using e by (intro image_eqI [of _ _ e]) (simp_all add: offer_of_def)
qed

lemma offer_mask:
  assumes "rp_ok st" and "(p, a, pri, org) \<in> rp_offers st Current"
    and "\<forall>e \<in> entries_of st Current. (i_prefix (info st e), i_gmask (info st e), i_hmask (info st e)) \<in> M"
  shows "\<exists>gm h. (p, gm, h) \<in> mask_infos st Current \<and> (p, gm, h) \<in> M"
  using assms(2,3) info_mask [OF assms(1)] unfolding rp_offers_infos [OF assms(1)] by (fastforce simp: offer_of_def)

text \<open>The part of the handler after the checks, on the message of a router with the set \<^verbatim>\<open>s\<close>.\<close>

lemma accept_bootstrap_message:
  assumes "pim_inv r" and "\<forall>v \<in> set (uvifs r). vif_ok v" and "length (sin6_addr a) = 16"
    and "rp_inv s" and "announceable hm s" and "fresh_tag tag (rps r)"
    and "drop 26 buf = concat (map enc_group (map (group_item_of s) (grp_mask_list s Current))) @ junk" and "26 \<le> length buf"
    and "n = 26 + length (concat (map enc_group (map (group_item_of s) (grp_mask_list s Current))))"
  shows "\<exists>fs r'. accept_bootstrap env mifi inc tag (MASK_TO_MASKLEN6 hm) pri a buf n r = Some (fs, r') \<and> pim_inv r' \<and>
    curr_bsr_hash_mask (bs r') = hm \<and>
    rp_offers (rps r') Current = rp_offers s Current \<union>
      {y \<in> rp_offers (rps r) Current. fst y \<notin> fst ` rp_offers s Current \<or> snd (snd (snd y)) \<noteq> RP_ORIGIN_BSR} \<and>
    (\<forall>e \<in> entries_of (rps r') Current. (i_prefix (info (rps r') e), i_gmask (info (rps r') e), i_hmask (info (rps r') e)) \<in>
       mask_infos (rps r) Current \<union> mask_infos s Current)"
proof -
  define s0 where "s0 = (if cand_rp_flag r \<and> \<not> inet6_equal a (curr_bsr_address (bs r)) then r\<lparr>pim_cand_rp_adv_timer := 0\<rparr> else r)"
  have s0: "bs s0 = bs r" "uvifs s0 = uvifs r" "rps s0 = rps r" by (simp_all add: s0_def)
  define rs where "rs = (if tag \<noteq> curr_bsr_fragment_tag (bs r) \<or> inet6_equal a (curr_bsr_address (bs r)) then delete_rp_list Segmented (rps r) else rps r)"
  have inv: "rp_ok (rps r)" "groups_ok {} (rps r)" using assms(1) by (simp_all add: pim_inv_def rp_inv_def)
  note del = delete_rp_list_ok [OF inv, of Segmented]
  have rs: "rp_inv rs" "same_data (rps r) rs" "entries_of rs Current = entries_of (rps r) Current" "grp_mask_list rs Current = grp_mask_list (rps r) Current"
    using del inv same_data_refl [of "rps r"] by (auto simp: rs_def rp_inv_def)
  have sd: "info rs = info (rps r)" "mask_prefix rs = mask_prefix (rps r)" "group_mask (masks rs m) = group_mask (masks (rps r) m)"
    "hash_mask (masks rs m) = hash_mask (masks (rps r) m)" "gm_fragment_tag (masks rs m) = gm_fragment_tag (masks (rps r) m)"
    "rg_fragment_tag (ents rs e) = rg_fragment_tag (ents (rps r) e)" for m e
    using same_data_info [OF rs(2)] same_data_fields [OF rs(2)] rs(2) by (simp_all add: same_data_def)
  have f: "fresh_tag tag rs" using assms(6) by (simp add: fresh_tag_def rs(3,4) sd)
  have off: "rp_offers rs Current = rp_offers (rps r) Current"
    using rs(1) unfolding rp_offers_infos [OF inv(1)] by (subst rp_offers_infos) (simp_all add: rp_inv_def rs(3) sd(1))
  have mi: "mask_infos rs Current = mask_infos (rps r) Current" by (simp add: mask_infos_def rs(4) sd)
  have hm: "MASKLEN_TO_MASK6 (unat (MASK_TO_MASKLEN6 hm)) = Some hm" using plain_masklen [of hm] assms(5) by (simp add: announceable_def)
  define c where "c = \<lparr>bc_env = env, bc_vifs = uvifs r, bc_vif = uvifs r ! mifi, bc_hash_mask = hm, bc_tag = tag, bc_buf = buf, bc_max = n\<rparr>"
  have c: "bc_buf c = buf" "bc_max c = n" "bc_tag c = tag" "bc_hash_mask c = hm" by (simp_all add: c_def)
  have an: "grp_announceable hm s m" if "m \<in> set (grp_mask_list s Current)" for m using assms(5) that by (simp add: announceable_def)
  have go: "\<forall>g \<in> set (map (group_item_of s) (grp_mask_list s Current)). group_item_ok g" using put_grp_mask_enc(2) [OF assms(4) _ an] by auto
  have bl: "boot_loop c 26 (env_scope env) rs = load_rps c (message_items s) rs"
    unfolding message_items_def by (rule boot_loop_enc [OF go]) (use assms(7-9) c in simp_all)
  note mi' = message_items_set [OF assms(4,5)]
  have f': "fresh_tag (bc_tag c) rs" using f c by simp
  obtain fs1 r1 fs2 r2 where l: "load_rps c (message_items s) rs = Some (fs1, r1)" "garbage_collect (env_uninit env) tag r1 = Some (fs2, r2)" "rp_inv r2"
    "rp_offers r2 Current = rp_offers s Current \<union> {y \<in> rp_offers (rps r) Current. fst y \<notin> fst ` rp_offers s Current \<or> snd (snd (snd y)) \<noteq> RP_ORIGIN_BSR}"
    "\<forall>e \<in> entries_of r2 Current. (i_prefix (info r2 e), i_gmask (info r2 e), i_hmask (info r2 e)) \<in> mask_infos (rps r) Current \<union> mask_infos s Current"
    using load_collect [OF rs(1) f' mi'(4), of "env_uninit env"] unfolding mi'(1,2) c mi'(3) off mi by blast
  obtain out where out: "forward_bootstrap inc (bslice buf sizeof_pim (n - sizeof_pim)) 0 (uvifs r) = Some out" using forward_defined [OF assms(2)] by blast
  let ?b = "(bs r)\<lparr>curr_bsr_address := a, curr_bsr_priority := pri, curr_bsr_fragment_tag := tag,
                        curr_bsr_hash_mask := hm, pim_bootstrap_timer := PIM_BOOTSTRAP_TIMEOUT\<rparr>"
  have p: "sizeof_pim + 22 = 26" by (simp add: sizeof_pim_def)
  have "accept_bootstrap env mifi inc tag (MASK_TO_MASKLEN6 hm) pri a buf n r = Some (out @ map Rp_effect (fs1 @ fs2), s0\<lparr>bs := ?b, rps := r2\<rparr>)"
    unfolding accept_bootstrap_def Let_def s0_def [symmetric] unfolding s0 p unfolding rs_def [symmetric]
    using out hm bl l(1,2) by (simp add: c_def)
  moreover have "pim_inv (s0\<lparr>bs := ?b, rps := r2\<rparr>)" using assms(1,3) l(3) by (simp add: pim_inv_def s0_def in6_ok_def)
  ultimately show ?thesis using l(4,5) by auto
qed

text \<open>What the message of a bootstrap router looks like.\<close>

lemma create_message:
  assumes "create_pim6_bootstrap_message s = Some (msg, s')" and "msg \<noteq> []" and "rp_inv (rps s)" and "announceable (curr_bsr_hash_mask (bs s)) (rps s)"
  shows "msg = PUT_HOSTSHORT (curr_bsr_fragment_tag (bs s')) @ [MASK_TO_MASKLEN6 (curr_bsr_hash_mask (bs s)), curr_bsr_priority (bs s)] @
      PUT_EUADDR6 (sin6_addr (curr_bsr_address (bs s))) @ concat (map enc_group (map (group_item_of (rps s)) (grp_mask_list (rps s) Current)))"
    "rps s' = rps s"
proof -
  have "grp_announceable (curr_bsr_hash_mask (bs s)) (rps s) m" if "m \<in> set (grp_mask_list (rps s) Current)" for m
    using assms(4) that by (simp add: announceable_def)
  then have "put_grp_masks (rps s) (grp_mask_list (rps s) Current) = Some (concat (map enc_group (map (group_item_of (rps s)) (grp_mask_list (rps s) Current))))"
    using put_grp_mask_enc(1) [OF assms(3)] by (intro put_grp_masks_enc) blast
  then show "msg = PUT_HOSTSHORT (curr_bsr_fragment_tag (bs s')) @ [MASK_TO_MASKLEN6 (curr_bsr_hash_mask (bs s)), curr_bsr_priority (bs s)] @
      PUT_EUADDR6 (sin6_addr (curr_bsr_address (bs s))) @ concat (map enc_group (map (group_item_of (rps s)) (grp_mask_list (rps s) Current)))"
    "rps s' = rps s"
    using assms(1,2) by (auto simp: create_pim6_bootstrap_message_def Let_def split: if_splits)
qed

lemma message_fields:
  assumes "length hdr = 4" and "length a = 16"
    and "buf = hdr @ (PUT_HOSTSHORT tag @ [hl, pri] @ PUT_EUADDR6 a @ gs) @ junk"
  shows "GET_HOSTSHORT buf sizeof_pim = Some tag" "rd buf (sizeof_pim + 2) = Some hl" "rd buf (sizeof_pim + 3) = Some pri"
    "GET_EUADDR6 buf (sizeof_pim + 4) = Some \<lparr>eu_family = ADDRF_IPv6, eu_type = ADDRT_IPv6, unicast_addr = a\<rparr>"
    "drop 26 buf = gs @ junk" "26 + length gs \<le> length buf"
proof -
  let ?e = "\<lparr>eu_family = ADDRF_IPv6, eu_type = ADDRT_IPv6, unicast_addr = a\<rparr>"
  show "GET_HOSTSHORT buf sizeof_pim = Some tag"
    using hs.get_put [where a = tag and xs = hdr and ys = "[hl, pri] @ PUT_EUADDR6 a @ gs @ junk"] assms(1) by (simp add: assms(3) sizeof_pim_def)
  show "rd buf (sizeof_pim + 2) = Some hl" "rd buf (sizeof_pim + 3) = Some pri"
    using assms(1) by (simp_all add: assms(3) sizeof_pim_def rd_def nth_append PUT_HOSTSHORT_def)
  show "GET_EUADDR6 buf (sizeof_pim + 4) = Some ?e"
    using eu.get_put [of ?e "hdr @ PUT_HOSTSHORT tag @ [hl, pri]" "gs @ junk"] assms(1,2) by (simp add: assms(3) sizeof_pim_def PUT_HOSTSHORT_def)
  show "drop 26 buf = gs @ junk" "26 + length gs \<le> length buf"
    using assms(1,2) by (simp_all add: assms(3) PUT_HOSTSHORT_def PUT_EUADDR6_def)
qed

lemma map_forget_update: "i < length vs \<Longrightarrow> map forget (vs[i := (vs ! i)\<lparr>uv_in_pim6_bootsrap := x\<rparr>]) = map forget vs"
  by (simp add: map_update list_update_same_conv)

text \<open>An acceptable message from its checks on.\<close>

lemma receive_accepts:
  assumes "accepts env src dst \<lparr>sin6_addr = a, sin6_scope_id = 0\<rparr> pri r" and "length hdr = 4" and "length a = 16"
    and "buf = hdr @ (PUT_HOSTSHORT tag @ [hl, pri] @ PUT_EUADDR6 a @ gs) @ junk" and "n = 26 + length gs"
  defines "mifi \<equiv> find_vif_direct src (uvifs r)"
  defines "r0 \<equiv> r\<lparr>uvifs := (uvifs r)[mifi := (uvifs r ! mifi)\<lparr>uv_in_pim6_bootsrap := uv_in_pim6_bootsrap (uvifs r ! mifi) + 1\<rparr>]\<rparr>"
  obtains inc where "receive_pim6_bootstrap env src dst buf n r =
      map_option (Pair True) (accept_bootstrap env mifi inc tag hl pri \<lparr>sin6_addr = a, sin6_scope_id = 0\<rparr> buf n r0)"
    and "\<forall>v \<in> set (uvifs r0). vif_ok v"
proof -
  let ?a = "\<lparr>sin6_addr = a, sin6_scope_id = 0\<rparr>" let ?v = "(uvifs r ! mifi)\<lparr>uv_in_pim6_bootsrap := uv_in_pim6_bootsrap (uvifs r ! mifi) + 1\<rparr>"
  obtain inc where a: "mifi \<noteq> NO_VIF" "\<not> IN6_IS_ADDR_MULTICAST a" "\<not> IN6_IS_ADDR_LINKLOCAL a" "\<not> IN6_IS_ADDR_SITELOCAL a"
      "local_address ?a (uvifs r) = NO_VIF" "\<not> (curr_bsr_priority (bs r) > pri \<or> curr_bsr_priority (bs r) = pri \<and> inet6_greaterthan (curr_bsr_address (bs r)) ?a)"
      "bootstrap_iif env src dst ?a r = Some (Some inc)" "\<And>v. v \<in> set (uvifs r) \<Longrightarrow> vif_ok v"
    using assms(1) unfolding accepts_def mifi_def [symmetric] by (auto split: option.splits)
  have m: "mifi < length (uvifs r)" using find_vif_direct_bound a(1) unfolding mifi_def by blast
  have f: "map forget (uvifs r0) = map forget (uvifs r)" using map_forget_update [OF m] by (simp add: r0_def)
  have l: "local_address ?a (uvifs r0) = NO_VIF"
    using forget_loops(1) [of ?a 0 "uvifs r0"] forget_loops(1) [of ?a 0 "uvifs r"] a(5) unfolding f local_address_def by simp
  have i: "bootstrap_iif env src dst ?a r0 = Some (Some inc)" using forget_iif [OF f] a(7) by (simp add: r0_def)
  have b: "bs r0 = bs r" by (simp add: r0_def)
  have sc: "inet6_uvif2scopeid \<lparr>sin6_addr = a, sin6_scope_id = 0\<rparr> ?v = 0" using a(2-4) by (simp add: inet6_uvif2scopeid_def)
  have n: "\<not> n < PIM6_BOOTSTRAP_MINLEN" by (simp add: assms(5) PIM6_BOOTSTRAP_MINLEN_def PIM_MINLEN_def)
  note g = message_fields [OF assms(2-4)]
  have "vif_ok v" if "v \<in> set (uvifs r0)" for v
  proof -
    have "forget v \<in> forget ` set (uvifs r)" using that f by (metis imageI set_map)
    then obtain w where "w \<in> set (uvifs r)" "forget v = forget w" by blast
    then show ?thesis using a(8) [of w] forget_simps(1,4) unfolding vif_ok_def by metis
  qed
  moreover have "receive_pim6_bootstrap env src dst buf n r = map_option (Pair True) (accept_bootstrap env mifi inc tag hl pri ?a buf n r0)"
    unfolding receive_pim6_bootstrap_def Let_def mifi_def [symmetric] unfolding r0_def [symmetric]
    using a(1-4,6) n g(1-4) l i sc b by (simp add: split: Option.bind_split option.split)
  ultimately show thesis using that by blast
qed

lemma bootstrap_received:
  assumes "pim_inv s" and "announceable (curr_bsr_hash_mask (bs s)) (rps s)"
    and "create_pim6_bootstrap_message s = Some (msg, s')" and "msg \<noteq> []"
    and "pim_inv r" and "accepts env src dst ((curr_bsr_address (bs s))\<lparr>sin6_scope_id := 0\<rparr>) (curr_bsr_priority (bs s)) r"
    and "fresh_tag (curr_bsr_fragment_tag (bs s')) (rps r)" and "length hdr = 4"
  shows "\<exists>fs r'. receive_pim6_bootstrap env src dst (hdr @ msg @ junk) (4 + length msg) r = Some (True, fs, r') \<and> pim_inv r' \<and>
    curr_bsr_address (bs r') = (curr_bsr_address (bs s))\<lparr>sin6_scope_id := 0\<rparr> \<and> curr_bsr_priority (bs r') = curr_bsr_priority (bs s) \<and>
    curr_bsr_fragment_tag (bs r') = curr_bsr_fragment_tag (bs s') \<and> curr_bsr_hash_mask (bs r') = curr_bsr_hash_mask (bs s) \<and>
    pim_bootstrap_timer (bs r') = PIM_BOOTSTRAP_TIMEOUT \<and>
    rp_offers (rps r') Current = rp_offers (rps s) Current \<union>
      {y \<in> rp_offers (rps r) Current. fst y \<notin> fst ` rp_offers (rps s) Current \<or> snd (snd (snd y)) \<noteq> RP_ORIGIN_BSR} \<and>
    (\<forall>e \<in> entries_of (rps r') Current. (i_prefix (info (rps r') e), i_gmask (info (rps r') e), i_hmask (info (rps r') e)) \<in>
       mask_infos (rps r) Current \<union> mask_infos (rps s) Current)"
proof -
  define a where "a = sin6_addr (curr_bsr_address (bs s))"
  have a: "(curr_bsr_address (bs s))\<lparr>sin6_scope_id := 0\<rparr> = \<lparr>sin6_addr = a, sin6_scope_id = 0\<rparr>" by (simp add: a_def)
  have i: "rp_inv (rps s)" "length a = 16" using assms(1) by (simp_all add: pim_inv_def in6_ok_def a_def)
  let ?gs = "concat (map enc_group (map (group_item_of (rps s)) (grp_mask_list (rps s) Current)))"
  define n where "n = 4 + length msg"
  define buf where "buf = hdr @ msg @ junk"
  note m = create_message(1) [OF assms(3,4) i(1) assms(2), folded a_def]
  have n: "n = 26 + length ?gs" by (simp add: n_def m PUT_HOSTSHORT_def PUT_EUADDR6_def i(2))
  note g = message_fields [OF assms(8) i(2) buf_def [unfolded m]]
  define mifi where "mifi = find_vif_direct src (uvifs r)"
  define r0 where "r0 = r\<lparr>uvifs := (uvifs r)[mifi := (uvifs r ! mifi)\<lparr>uv_in_pim6_bootsrap := uv_in_pim6_bootsrap (uvifs r ! mifi) + 1\<rparr>]\<rparr>"
  obtain inc where inc: "receive_pim6_bootstrap env src dst buf n r = map_option (Pair True)
      (accept_bootstrap env mifi inc (curr_bsr_fragment_tag (bs s')) (MASK_TO_MASKLEN6 (curr_bsr_hash_mask (bs s))) (curr_bsr_priority (bs s)) \<lparr>sin6_addr = a, sin6_scope_id = 0\<rparr> buf n r0)"
      "\<forall>v \<in> set (uvifs r0). vif_ok v"
    using receive_accepts [OF assms(6) [unfolded a] assms(8) i(2) buf_def [unfolded m] n] unfolding r0_def mifi_def by blast
  have r0: "pim_inv r0" "rps r0 = rps r" using assms(5) by (simp_all add: r0_def pim_inv_def)
  obtain fs r' where f: "accept_bootstrap env mifi inc (curr_bsr_fragment_tag (bs s')) (MASK_TO_MASKLEN6 (curr_bsr_hash_mask (bs s))) (curr_bsr_priority (bs s))
      \<lparr>sin6_addr = a, sin6_scope_id = 0\<rparr> buf n r0 = Some (fs, r')" "curr_bsr_hash_mask (bs r') = curr_bsr_hash_mask (bs s)"
    "rp_offers (rps r') Current = rp_offers (rps s) Current \<union>
      {y \<in> rp_offers (rps r) Current. fst y \<notin> fst ` rp_offers (rps s) Current \<or> snd (snd (snd y)) \<noteq> RP_ORIGIN_BSR}"
    "\<forall>e \<in> entries_of (rps r') Current. (i_prefix (info (rps r') e), i_gmask (info (rps r') e), i_hmask (info (rps r') e)) \<in>
       mask_infos (rps r) Current \<union> mask_infos (rps s) Current"
    using accept_bootstrap_message [OF r0(1) inc(2) _ i(1) assms(2) _ g(5) _ n, of "\<lparr>sin6_addr = a, sin6_scope_id = 0\<rparr>"
      "curr_bsr_fragment_tag (bs s')" env mifi inc "curr_bsr_priority (bs s)"] i(2) assms(7) g(6) unfolding r0(2) by auto
  note v = accept_bootstrap_inv [OF f(1) r0(1)]
  have "receive_pim6_bootstrap env src dst buf n r = Some (True, fs, r')" unfolding inc(1) f(1) by simp
  moreover have "pim_inv r' \<and> curr_bsr_address (bs r') = \<lparr>sin6_addr = a, sin6_scope_id = 0\<rparr> \<and> curr_bsr_priority (bs r') = curr_bsr_priority (bs s) \<and>
    curr_bsr_fragment_tag (bs r') = curr_bsr_fragment_tag (bs s') \<and> pim_bootstrap_timer (bs r') = PIM_BOOTSTRAP_TIMEOUT"
    using v i(2) by simp
  ultimately show ?thesis using f(2-4) unfolding a n_def buf_def by blast
qed

text \<open>
  C8. A bootstrap message installs the RP set of the bootstrap router: a router that accepts it has the bootstrap router's
  address, priority, hash mask and fragment tag, and for every prefix in the message exactly the RPs that the bootstrap router
  has; RPs that were withdrawn are removed, other prefixes and configured RPs stay. This holds for every RP set
  that \<^verbatim>\<open>create_pim6_bootstrap_message\<close> can announce and whatever follows the message in the buffer.
\<close>

theorem bootstrap_installs:
  assumes "pim_inv s" and "announceable (curr_bsr_hash_mask (bs s)) (rps s)"
    and "create_pim6_bootstrap_message s = Some (msg, s')" and "msg \<noteq> []"
    and "pim_inv r" and "accepts env src dst ((curr_bsr_address (bs s))\<lparr>sin6_scope_id := 0\<rparr>) (curr_bsr_priority (bs s)) r"
    and "fresh_tag (curr_bsr_fragment_tag (bs s')) (rps r)" and "length hdr = 4"
  shows "\<exists>fs r'. receive_pim6_bootstrap env src dst (hdr @ msg @ junk) (4 + length msg) r = Some (True, fs, r') \<and> pim_inv r' \<and>
    curr_bsr_address (bs r') = (curr_bsr_address (bs s))\<lparr>sin6_scope_id := 0\<rparr> \<and> curr_bsr_priority (bs r') = curr_bsr_priority (bs s) \<and>
    curr_bsr_fragment_tag (bs r') = curr_bsr_fragment_tag (bs s') \<and> curr_bsr_hash_mask (bs r') = curr_bsr_hash_mask (bs s) \<and>
    rp_offers (rps r') Current = rp_offers (rps s) Current \<union>
      {y \<in> rp_offers (rps r) Current. fst y \<notin> fst ` rp_offers (rps s) Current \<or> snd (snd (snd y)) \<noteq> RP_ORIGIN_BSR}"
  using bootstrap_received [OF assms] by blast

text \<open>Every announced prefix has an RP.\<close>

lemma announceable_prefix:
  assumes "announceable hm s" and "(p, gm, h) \<in> mask_infos s Current"
  shows "p \<in> fst ` rp_offers s Current"
proof -
  obtain m where m: "m \<in> set (grp_mask_list s Current)" "p = mask_prefix s m" using assms(2) by (auto simp: mask_infos_def)
  then obtain e where e: "e \<in> set (grp_rp_chain (masks s m))" using assms(1) by (fastforce simp: announceable_def grp_announceable_def)
  then have "(mask_prefix s m, cand_address s (rg_rp (ents s e)), rg_priority (ents s e), rg_origin (ents s e)) \<in> rp_offers s Current"
    using m(1) by (auto simp: rp_offers_def mask_rps_def)
  then show ?thesis unfolding m(2) by force
qed

text \<open>
  What a router knows besides the message does not concern a group: the prefixes that are in the message have the masks of
  the message and no configured RP, and no other prefix covers the group.
\<close>

definition only_announced :: "sockaddr_in6 \<Rightarrow> rp_state \<Rightarrow> rp_state \<Rightarrow> bool" where
  "only_announced grp r s \<longleftrightarrow>
     (\<forall>(p, gm, h) \<in> mask_infos r Current. (p, gm, h) \<in> mask_infos s Current \<or>
        p \<notin> fst ` rp_offers s Current \<and> prefix_of (sin6_addr grp) gm \<noteq> p) \<and>
     (\<forall>y \<in> rp_offers r Current. fst y \<in> fst ` rp_offers s Current \<longrightarrow> snd (snd (snd y)) = RP_ORIGIN_BSR)"

lemma only_announcedD:
  assumes "only_announced grp r s"
  shows "(p, gm, h) \<in> mask_infos r Current \<Longrightarrow> prefix_of (sin6_addr grp) gm = p \<Longrightarrow> (p, gm, h) \<in> mask_infos s Current"
    and "(p, gm, h) \<in> mask_infos r Current \<Longrightarrow> p \<in> fst ` rp_offers s Current \<Longrightarrow> (p, gm, h) \<in> mask_infos s Current"
    and "(p, a, pri, org) \<in> rp_offers r Current \<Longrightarrow> p \<in> fst ` rp_offers s Current \<Longrightarrow> org = RP_ORIGIN_BSR"
proof -
  have a: "\<forall>x \<in> mask_infos r Current. case x of (p, gm, h) \<Rightarrow> (p, gm, h) \<in> mask_infos s Current \<or>
      p \<notin> fst ` rp_offers s Current \<and> prefix_of (sin6_addr grp) gm \<noteq> p"
    and b: "\<forall>y \<in> rp_offers r Current. fst y \<in> fst ` rp_offers s Current \<longrightarrow> snd (snd (snd y)) = RP_ORIGIN_BSR"
    using assms unfolding only_announced_def by blast+
  show "(p, gm, h) \<in> mask_infos s Current" if "(p, gm, h) \<in> mask_infos r Current" "prefix_of (sin6_addr grp) gm = p"
    using bspec [OF a that(1)] that(2) by simp
  show "(p, gm, h) \<in> mask_infos s Current" if "(p, gm, h) \<in> mask_infos r Current" "p \<in> fst ` rp_offers s Current"
    using bspec [OF a that(1)] that(2) by simp
  show "org = RP_ORIGIN_BSR" if "(p, a, pri, org) \<in> rp_offers r Current" "p \<in> fst ` rp_offers s Current"
    using bspec [OF b that(1)] that(2) by simp
qed

lemma matching_received:
  assumes "rp_ok r'" and "rp_ok s" and "announceable hm s" and "only_announced grp r s"
    and "rp_offers r' Current = rp_offers s Current \<union>
      {y \<in> rp_offers r Current. fst y \<notin> fst ` rp_offers s Current \<or> snd (snd (snd y)) \<noteq> RP_ORIGIN_BSR}"
    and "\<forall>e \<in> entries_of r' Current. (i_prefix (info r' e), i_gmask (info r' e), i_hmask (info r' e)) \<in> mask_infos r Current \<union> mask_infos s Current"
  shows "matching grp r' = matching grp s"
proof -
  note D = only_announcedD [OF assms(4)]
  have "(gm, p, h, a, pri, org) \<in> rp_table r' \<longleftrightarrow> (gm, p, h, a, pri, org) \<in> rp_table s"
    if g: "prefix_of (sin6_addr grp) gm = p" for gm p h a pri org
  proof
    assume "(gm, p, h, a, pri, org) \<in> rp_table r'"
    then have t: "(p, a, pri, org) \<in> rp_offers r' Current" "(p, gm, h) \<in> mask_infos r' Current" by (simp_all add: rp_table_offers [OF assms(1)])
    have "(p, gm, h) \<in> mask_infos r Current \<union> mask_infos s Current"
      using offer_mask [OF assms(1) t(1) assms(6)] mask_infos_unique [OF assms(1) t(2)] by blast
    then have i: "(p, gm, h) \<in> mask_infos s Current" using D(1) [OF _ g] by blast
    have "org = RP_ORIGIN_BSR" if "(p, a, pri, org) \<in> rp_offers r Current" by (rule D(3) [OF that announceable_prefix [OF assms(3) i]])
    then have "(p, a, pri, org) \<in> rp_offers s Current" using t(1) announceable_prefix [OF assms(3) i] unfolding assms(5) by auto
    then show "(gm, p, h, a, pri, org) \<in> rp_table s" using i by (simp add: rp_table_offers [OF assms(2)])
  next
    assume "(gm, p, h, a, pri, org) \<in> rp_table s"
    then have t: "(p, a, pri, org) \<in> rp_offers s Current" "(p, gm, h) \<in> mask_infos s Current" by (simp_all add: rp_table_offers [OF assms(2)])
    have o: "(p, a, pri, org) \<in> rp_offers r' Current" using t(1) by (simp add: assms(5))
    obtain gm' h' where m: "(p, gm', h') \<in> mask_infos r' Current" "(p, gm', h') \<in> mask_infos r Current \<union> mask_infos s Current"
      using offer_mask [OF assms(1) o assms(6)] by blast
    have "(p, gm', h') \<in> mask_infos s Current" using m(2) D(2) announceable_prefix [OF assms(3) t(2)] by blast
    then have "gm' = gm \<and> h' = h" using mask_infos_unique [OF assms(2) _ t(2)] by blast
    then show "(gm, p, h, a, pri, org) \<in> rp_table r'" using o m(1) by (simp add: rp_table_offers [OF assms(1)])
  qed
  then show ?thesis unfolding matching_def by auto
qed

text \<open>
  C7. Agreement on the RP of a group: the bootstrap router, whose RP set a message can carry, sends its message; a router
  that accepts it, has not seen its fragment tag before and knows nothing else about the group (the prefixes of the message
  have its masks and no configured RP, and no other prefix covers the group) then gives the same RP for it in
  \<^verbatim>\<open>rp_match\<close>. Other prefixes and their RPs do not matter.
\<close>

theorem bootstrap_agrees:
  assumes "pim_inv s" and "announceable (curr_bsr_hash_mask (bs s)) (rps s)"
    and "create_pim6_bootstrap_message s = Some (msg, s')" and "msg \<noteq> []"
    and "pim_inv r" and "accepts env src dst ((curr_bsr_address (bs s))\<lparr>sin6_scope_id := 0\<rparr>) (curr_bsr_priority (bs s)) r"
    and "fresh_tag (curr_bsr_fragment_tag (bs s')) (rps r)" and "length hdr = 4"
  shows "\<exists>fs r'. receive_pim6_bootstrap env src dst (hdr @ msg @ junk) (4 + length msg) r = Some (True, fs, r') \<and>
    (\<forall>grp u u'. only_announced grp (rps r) (rps s) \<longrightarrow> rp_match u grp (rps r') \<noteq> None \<and>
       map_option (map_option rp_address \<circ> fst) (rp_match u grp (rps r')) = map_option (map_option rp_address \<circ> fst) (rp_match u' grp (rps s)))"
proof -
  obtain fs r' where r: "receive_pim6_bootstrap env src dst (hdr @ msg @ junk) (4 + length msg) r = Some (True, fs, r')" "pim_inv r'"
    "rp_offers (rps r') Current = rp_offers (rps s) Current \<union>
      {y \<in> rp_offers (rps r) Current. fst y \<notin> fst ` rp_offers (rps s) Current \<or> snd (snd (snd y)) \<noteq> RP_ORIGIN_BSR}"
    "\<forall>e \<in> entries_of (rps r') Current. (i_prefix (info (rps r') e), i_gmask (info (rps r') e), i_hmask (info (rps r') e)) \<in>
       mask_infos (rps r) Current \<union> mask_infos (rps s) Current"
    using bootstrap_received [OF assms, of junk] by blast
  have ok: "rp_ok (rps r')" "rp_ok (rps s)" using assms(1) r(2) by (simp_all add: pim_inv_def rp_inv_def)
  show ?thesis using r(1) rp_match_matching [OF ok matching_received [OF ok assms(2) _ r(3,4)]] by blast
qed

lemma sample_announceable: "announceable (replicate 16 0xff) (sample_rps n)"
proof -
  have m: "MASKLEN_TO_MASK6 8 = Some all_groups" "MASKLEN_TO_MASK6 128 = Some (replicate 16 0xff)" by code_simp+
  have "plain_mask all_groups" unfolding plain_mask_def by (rule exI [of _ 8]) (simp add: m)
  moreover have "plain_mask (replicate 16 0xff)" unfolding plain_mask_def by (rule exI [of _ 128]) (simp add: m)
  moreover have "IN6_IS_ADDR_MULTICAST (sin6_addr (prefix_of all_groups all_groups))" "\<not> IN6_IS_ADDR_MC_NODELOCAL (sin6_addr (prefix_of all_groups all_groups))"
    "\<not> IN6_IS_ADDR_MC_LINKLOCAL (sin6_addr (prefix_of all_groups all_groups))"
    "\<not> IN6_IS_ADDR_LINKLOCAL (sin6_addr sample_addr1)" "\<not> IN6_IS_ADDR_SITELOCAL (sin6_addr sample_addr1)" "\<not> IN6_IS_ADDR_MULTICAST (sin6_addr sample_addr1)"
    "\<not> IN6_IS_ADDR_LINKLOCAL (sin6_addr sample_addr2)" "\<not> IN6_IS_ADDR_SITELOCAL (sin6_addr sample_addr2)" "\<not> IN6_IS_ADDR_MULTICAST (sin6_addr sample_addr2)"
    "sin6_scope_id sample_addr1 = 0" "sin6_scope_id sample_addr2 = 0" by code_simp+
  ultimately show ?thesis
    by (simp add: announceable_def grp_announceable_def rp_announceable_def sample_fields mask_prefix_def RP_ORIGIN_BSR_def Let_def)
qed

lemma sample_tags: "gm_fragment_tag (masks (sample_rps n) m) = 7" "rg_fragment_tag (ents (sample_rps n) e) = 7"
  by (simp_all add: sample_rps_def)

lemma sample_message:
  obtains msg s' where "create_pim6_bootstrap_message (sample_router 1 [] (sample_rps 0) 9) = Some (msg, s')" "msg \<noteq> []"
    "curr_bsr_fragment_tag (bs s') = 3"
proof -
  have "(case put_grp_masks (sample_rps 0) (grp_mask_list (sample_rps 0) Current) of Some gs \<Rightarrow> length gs = 68 | None \<Rightarrow> False)" by code_simp
  then obtain gs where g: "put_grp_masks (sample_rps 0) (grp_mask_list (sample_rps 0) Current) = Some gs" "length gs = 68" by (auto split: option.splits)
  have u: "\<not> IN6_IS_ADDR_UNSPECIFIED (sin6_addr (curr_bsr_address (sample_bsr 9)))" "\<not> inet6_equal (curr_bsr_address (sample_bsr 9)) (my_bsr_address (sample_bsr 9))"
    by code_simp+
  have "length (sin6_addr (curr_bsr_address (sample_bsr 9))) = 16" "curr_bsr_fragment_tag (sample_bsr 9) = 3" by (simp_all add: sample_bsr_def)
  then show thesis using that g u
    by (simp add: create_pim6_bootstrap_message_def Let_def sample_router_def sizeof_pim_def RECV_BUF_SIZE_def PUT_HOSTSHORT_def PUT_EUADDR6_def)
qed

lemma sample_accepts:
  "accepts sample_env (sample_ll 1) allpim6routers_group ((curr_bsr_address (sample_bsr 9))\<lparr>sin6_scope_id := 0\<rparr>) 9
     (sample_router 2 [sample_nbr 1] rs 5)"
  unfolding accepts_def sample_router_def by code_simp

theorem bootstrap_installs_witness:
  "\<exists>msg s' fs r'. create_pim6_bootstrap_message (sample_router 1 [] (sample_rps 0) 9) = Some (msg, s') \<and>
     receive_pim6_bootstrap sample_env (sample_ll 1) allpim6routers_group ([0x24, 0, 0, 0] @ msg @ []) (4 + length msg)
       (sample_router 2 [sample_nbr 1] rps_none 5) = Some (True, fs, r') \<and>
     rp_offers (rps r') Current = rp_offers (sample_rps 0) Current"
proof -
  obtain msg s' where m: "create_pim6_bootstrap_message (sample_router 1 [] (sample_rps 0) 9) = Some (msg, s')" "msg \<noteq> []" "curr_bsr_fragment_tag (bs s') = 3"
    by (rule sample_message)
  let ?s = "sample_router 1 [] (sample_rps 0) 9" and ?r = "sample_router 2 [sample_nbr 1] rps_none 5"
  have f: "rps ?s = sample_rps 0" "rps ?r = rps_none" "bs ?s = sample_bsr 9" "curr_bsr_hash_mask (sample_bsr 9) = replicate 16 0xff" "curr_bsr_priority (sample_bsr 9) = 9"
    by (simp_all add: sample_router_def sample_bsr_def)
  have hdr: "length [0x24, 0, 0, 0 :: byte] = 4" by simp
  have e: "grp_mask_list rps_none Current = []" by (simp add: rps_none_def)
  have "fresh_tag (curr_bsr_fragment_tag (bs s')) (rps ?r)" by (simp add: fresh_tag_def f e entries_of_def)
  moreover have "announceable (curr_bsr_hash_mask (bs ?s)) (rps ?s)" using sample_announceable [of 0] by (simp add: f)
  moreover have "accepts sample_env (sample_ll 1) allpim6routers_group ((curr_bsr_address (bs ?s))\<lparr>sin6_scope_id := 0\<rparr>) (curr_bsr_priority (bs ?s)) ?r"
    using sample_accepts [of rps_none] by (simp add: f)
  ultimately obtain fs r' where "receive_pim6_bootstrap sample_env (sample_ll 1) allpim6routers_group ([0x24, 0, 0, 0] @ msg @ []) (4 + length msg) ?r = Some (True, fs, r')"
    "rp_offers (rps r') Current = rp_offers (rps ?s) Current \<union>
      {y \<in> rp_offers (rps ?r) Current. fst y \<notin> fst ` rp_offers (rps ?s) Current \<or> snd (snd (snd y)) \<noteq> RP_ORIGIN_BSR}"
    using bootstrap_installs [OF sample_router_inv [OF sample_rps_groups] _ m(1,2) sample_router_inv [OF rp_empty_inv [OF rps_none_empty]] _ _ hdr] by blast
  moreover have "rp_offers (rps ?r) Current = {}" by (simp add: rp_offers_def e f)
  ultimately show ?thesis using m(1) unfolding f by auto
qed

theorem bootstrap_agrees_witness:
  "\<exists>msg s' fs r'. create_pim6_bootstrap_message (sample_router 1 [] (sample_rps 0) 9) = Some (msg, s') \<and>
     receive_pim6_bootstrap sample_env (sample_ll 1) allpim6routers_group ([0x24, 0, 0, 0] @ msg @ [0]) (4 + length msg)
       (sample_router 2 [sample_nbr 1] (sample_rps 100) 5) = Some (True, fs, r') \<and>
     map_option (map_option rp_address \<circ> fst) (rp_match sample_addr1 sample_group (rps r')) =
     map_option (map_option rp_address \<circ> fst) (rp_match sample_addr1 sample_group (sample_rps 0))"
proof -
  obtain msg s' where m: "create_pim6_bootstrap_message (sample_router 1 [] (sample_rps 0) 9) = Some (msg, s')" "msg \<noteq> []" "curr_bsr_fragment_tag (bs s') = 3"
    by (rule sample_message)
  let ?s = "sample_router 1 [] (sample_rps 0) 9" and ?r = "sample_router 2 [sample_nbr 1] (sample_rps 100) 5"
  have f: "rps ?s = sample_rps 0" "rps ?r = sample_rps 100" "bs ?s = sample_bsr 9" "curr_bsr_hash_mask (sample_bsr 9) = replicate 16 0xff" "curr_bsr_priority (sample_bsr 9) = 9"
    by (simp_all add: sample_router_def sample_bsr_def)
  have "fresh_tag (curr_bsr_fragment_tag (bs s')) (rps ?r)" by (simp add: fresh_tag_def f m(3) sample_tags)
  moreover have "announceable (curr_bsr_hash_mask (bs ?s)) (rps ?s)" using sample_announceable [of 0] by (simp add: f)
  moreover have "accepts sample_env (sample_ll 1) allpim6routers_group ((curr_bsr_address (bs ?s))\<lparr>sin6_scope_id := 0\<rparr>) (curr_bsr_priority (bs ?s)) ?r"
    using sample_accepts [of "sample_rps 100"] by (simp add: f)
  ultimately have "\<exists>fs r'. receive_pim6_bootstrap sample_env (sample_ll 1) allpim6routers_group ([0x24, 0, 0, 0] @ msg @ [0]) (4 + length msg) ?r = Some (True, fs, r') \<and>
     (\<forall>grp u u'. only_announced grp (rps ?r) (rps ?s) \<longrightarrow> rp_match u grp (rps r') \<noteq> None \<and>
       map_option (map_option rp_address \<circ> fst) (rp_match u grp (rps r')) = map_option (map_option rp_address \<circ> fst) (rp_match u' grp (rps ?s)))"
    by (intro bootstrap_agrees [OF sample_router_inv [OF sample_rps_groups] _ m(1,2) sample_router_inv [OF sample_rps_groups]]) simp_all
  moreover have "only_announced sample_group (sample_rps 100) (sample_rps 0)"
    by (simp add: only_announced_def mask_infos_def rp_offers_def mask_rps_def sample_fields mask_prefix_def RP_ORIGIN_BSR_def)
  ultimately show ?thesis using m(1) unfolding f by blast
qed

end
