(* ===== verification/PIM_Hello.thy ===== *)
theory PIM_Hello
  imports PIM_Bootstrap
begin

unbundle bit_operations_syntax

text \<open>
  Hello messages and the neighbours of an interface (\<^verbatim>\<open>pim6_proto.c\<close>), their aging (\<^verbatim>\<open>age_vifs\<close> of \<^verbatim>\<open>timer.c\<close>) and the start and stop
  of an interface (\<^verbatim>\<open>vif.c\<close>). A hello message is read back as it was written, and every operation keeps the neighbours
  in order and the flags of the interface exact, \<^verbatim>\<open>VIFF_DR\<close> of the designated router among them (\<^verbatim>\<open>vif_inv\<close>).
\<close>

section \<open>Hello messages\<close>

definition PIM_MESSAGE_HELLO_HOLDTIME :: u16 where "PIM_MESSAGE_HELLO_HOLDTIME = 1"
definition PIM_MESSAGE_HELLO_HOLDTIME_LENGTH :: u16 where "PIM_MESSAGE_HELLO_HOLDTIME_LENGTH = 2"
definition PIM_MESSAGE_HELLO_HOLDTIME_FOREVER :: u16 where "PIM_MESSAGE_HELLO_HOLDTIME_FOREVER = 0xffff"
definition PIM_MESSAGE_HELLO_ADDR_LIST :: u16 where "PIM_MESSAGE_HELLO_ADDR_LIST = 24"
definition PIM_MESSAGE_HELLO_ADDRESSES :: u16 where "PIM_MESSAGE_HELLO_ADDRESSES = 65001"

text \<open>Of the additional addresses only \<^verbatim>\<open>pa_addr\<close> is used.\<close>

record pim_hello_options =
  opt_holdtime :: u16
  opt_addrs :: "sockaddr_in6 list"

text \<open>
  The loops of \<^verbatim>\<open>parse_pim6_hello\<close>. \<^verbatim>\<open>None\<close> is a read behind the receive buffer, \<^verbatim>\<open>Some None\<close> the result FALSE. The length of
  an address list is not compared with the end of the message, and the data of an unknown option is read as
  further options.
\<close>

function parse_addrs :: "byte list \<Rightarrow> in6_addr \<Rightarrow> nat \<Rightarrow> nat \<Rightarrow> sockaddr_in6 list \<Rightarrow> sockaddr_in6 list option option" where
  "parse_addrs buf src lim p addrs =
     (if p < lim
      then do {
        family \<leftarrow> rd buf p;
        if family \<noteq> ADDRF_IPv6 then Some None
        else if p + 18 > lim then Some None
        else do {
          eu \<leftarrow> GET_EUADDR6 buf p;
          let a = unicast_addr eu;
          parse_addrs buf src lim (p + 18)
            (if a = src then addrs
             else if list_ex (\<lambda>x. sin6_addr x = a) addrs then addrs
             else \<lparr>sin6_addr = a, sin6_scope_id = 0\<rparr> # addrs) } }
      else Some (Some addrs))"
  by pat_completeness auto
termination by (relation "measure (\<lambda>(buf, src, lim, p, addrs). lim - p)") auto

function parse_options ::
  "byte list \<Rightarrow> in6_addr \<Rightarrow> nat \<Rightarrow> nat \<Rightarrow> bool \<Rightarrow> pim_hello_options \<Rightarrow> pim_hello_options option option" where
  "parse_options buf src end p ok opts =
     (if p + 4 \<le> end
      then do {
        option_type \<leftarrow> GET_HOSTSHORT buf p;
        option_length \<leftarrow> GET_HOSTSHORT buf (p + 2);
        if option_type = PIM_MESSAGE_HELLO_HOLDTIME
        then if option_length \<noteq> PIM_MESSAGE_HELLO_HOLDTIME_LENGTH then Some None
             else do { h \<leftarrow> GET_HOSTSHORT buf (p + 4); parse_options buf src end (p + 6) True (opts\<lparr>opt_holdtime := h\<rparr>) }
        else if option_type = PIM_MESSAGE_HELLO_ADDRESSES \<or> option_type = PIM_MESSAGE_HELLO_ADDR_LIST
        then do {
          r \<leftarrow> parse_addrs buf src (p + 4 + unat option_length) (p + 4) (opt_addrs opts);
          (case r of
             None \<Rightarrow> Some None
           | Some addrs \<Rightarrow> parse_options buf src end (p + 4 + unat option_length) ok (opts\<lparr>opt_addrs := addrs\<rparr>)) }
        else parse_options buf src end (p + 4) ok opts }
      else Some (if p \<noteq> end then None else if ok then Some opts else None))"
  by pat_completeness auto
termination by (relation "measure (\<lambda>(buf, src, end, p, ok, opts). end - p)") auto

declare parse_addrs.simps [simp del] parse_options.simps [simp del]

definition parse_pim6_hello :: "byte list \<Rightarrow> nat \<Rightarrow> sockaddr_in6 \<Rightarrow> pim_hello_options option option" where
  "parse_pim6_hello buf datalen src =
     parse_options buf (sin6_addr src) datalen sizeof_pim False \<lparr>opt_holdtime = 0, opt_addrs = []\<rparr>"

text \<open>The list of addresses is written under the option that is assigned for it and, for old routers, once more.\<close>

definition hello_addrs :: "sockaddr_in6 \<Rightarrow> uvif \<Rightarrow> byte list" where
  "hello_addrs ll v = concat (map (\<lambda>pa. PUT_EUADDR6 (sin6_addr (pa_addr pa))) (filter (\<lambda>pa. \<not> inet6_equal ll (pa_addr pa)) (uv_addrs v)))"

definition hello_message :: "sockaddr_in6 \<Rightarrow> uvif \<Rightarrow> u16 \<Rightarrow> byte list" where
  "hello_message ll v hold =
     PUT_HOSTSHORT PIM_MESSAGE_HELLO_HOLDTIME @ PUT_HOSTSHORT PIM_MESSAGE_HELLO_HOLDTIME_LENGTH @ PUT_HOSTSHORT hold @
     (let addrs = hello_addrs ll v; len = PUT_HOSTSHORT (of_nat (length addrs))
      in if length addrs > 0
         then PUT_HOSTSHORT PIM_MESSAGE_HELLO_ADDR_LIST @ len @ addrs @ PUT_HOSTSHORT PIM_MESSAGE_HELLO_ADDRESSES @ len @ addrs
         else [])"

definition send_pim6_hello :: "u16 \<Rightarrow> u16 \<Rightarrow> uvif \<Rightarrow> (pim_effect list \<times> uvif) option" where
  "send_pim6_hello period hold v = do {
     ll \<leftarrow> uv_linklocal v;
     let msg = hello_message ll v hold;
     if sizeof_pim + length msg > RECV_BUF_SIZE then None
     else Some ([Send_pim6 ll allpim6routers_group PIM_HELLO msg],
                v\<lparr>uv_pim_hello_timer := period, uv_out_pim6_hello := uv_out_pim6_hello v + 1\<rparr>) }"

section \<open>Neighbours\<close>

definition set_vif :: "nat \<Rightarrow> uvif \<Rightarrow> pim_state \<Rightarrow> pim_state" where
  "set_vif mifi v st = st\<lparr>uvifs := (uvifs st)[mifi := v]\<rparr>"

definition set_pim6_nbr_param :: "pim_nbr_entry \<Rightarrow> pim_hello_options \<Rightarrow> pim_nbr_entry" where
  "set_pim6_nbr_param nbr opts = nbr\<lparr>nbr_timer := opt_holdtime opts, aux_addrs := opt_addrs opts\<rparr>"

text \<open>Writing through a pointer to a neighbour.\<close>

definition put_nbr :: "pim_nbr_entry \<Rightarrow> pim_state \<Rightarrow> pim_state" where
  "put_nbr nbr st =
     (let v = uvifs st ! nbr_vifi nbr
      in set_vif (nbr_vifi nbr) (v\<lparr>uv_pim_neighbors := map (\<lambda>n. if nbr_ptr n = nbr_ptr nbr then nbr else n) (uv_pim_neighbors v)\<rparr>) st)"

text \<open>
  \<^verbatim>\<open>delete_pim6_nbr\<close>: the list and the designated router, and then the RPs behind the neighbour. \<^verbatim>\<open>Nbr_gone\<close> stands for the update
  of the sources and routing entries.
\<close>

definition drop_nbr :: "pim_nbr_entry \<Rightarrow> uvif \<Rightarrow> uvif option" where
  "drop_nbr nbr v =
     (let ns = filter (\<lambda>n. nbr_ptr n \<noteq> nbr_ptr nbr) (uv_pim_neighbors v);
          v = v\<lparr>uv_pim_neighbors := ns\<rparr>
      in if ns = [] then Some (v\<lparr>uv_flags := (uv_flags v AND NOT VIFF_PIM_NBR) OR (VIFF_NONBRS OR VIFF_DR)\<rparr>)
         else do {
           ll \<leftarrow> uv_linklocal v;
           Some (if inet6_greaterthan ll (nbr_address (hd ns)) then v\<lparr>uv_flags := uv_flags v OR VIFF_DR\<rparr> else v) })"

definition delete_pim6_nbr :: "pim_env \<Rightarrow> pim_nbr_entry \<Rightarrow> pim_state \<Rightarrow> (pim_effect list \<times> pim_state) option" where
  "delete_pim6_nbr env nbr st = do {
     v \<leftarrow> drop_nbr nbr (uvifs st ! nbr_vifi nbr);
     let st = set_vif (nbr_vifi nbr) v st;
     Some ([Nbr_gone nbr], st\<lparr>rps := reroute_rps (env_rpf env) (env_reg env) (uvifs st) (nbr_ptr nbr) (rps st)\<rparr>) }"

text \<open>
  The part of \<^verbatim>\<open>receive_pim6_hello\<close> for a new neighbour between \<^verbatim>\<open>ps\<close> and \<^verbatim>\<open>rs\<close>. \<^verbatim>\<open>Lost_dr\<close> stands for the removal of the
  register interface from the routes of the sources on the interface.
\<close>

definition new_pim6_nbr ::
  "pim_env \<Rightarrow> sockaddr_in6 \<Rightarrow> nat \<Rightarrow> pim_hello_options \<Rightarrow> pim_nbr_entry list \<Rightarrow> pim_nbr_entry list \<Rightarrow> pim_state \<Rightarrow>
   (pim_effect list \<times> pim_state) option" where
  "new_pim6_nbr env src mifi opts ps rs st =
     (let v = uvifs st ! mifi;
          nbr = set_pim6_nbr_param \<lparr>nbr_ptr = nbr_fresh st, nbr_address = src, aux_addrs = [], nbr_vifi = mifi, nbr_timer = 0\<rparr> opts;
          v = v\<lparr>uv_pim_neighbors := ps @ nbr # rs, uv_flags := (uv_flags v AND NOT VIFF_NONBRS) OR VIFF_PIM_NBR\<rparr>
      in do {
        (fs, v) \<leftarrow> send_pim6_hello (pim_hello_period st) (pim_hello_holdtime st) v;
        let st = set_vif mifi v (st\<lparr>nbr_fresh := nbr_fresh st + 1\<rparr>);
        let st = st\<lparr>rps := update_rp_neighbor (env_rpf env) (env_reg env) (uvifs st) (rps st)\<rparr>;
        if uv_flags v AND VIFF_DR \<noteq> 0
        then do {
          (msg, st) \<leftarrow> create_pim6_bootstrap_message st;
          ll \<leftarrow> uv_linklocal v;
          let fs = fs @ (if msg = [] then [] else [Send_pim6 ll src PIM_BOOTSTRAP msg]);
          if inet6_lessthan ll (nbr_address (hd (uv_pim_neighbors v)))
          then Some (fs @ [Lost_dr mifi], set_vif mifi (v\<lparr>uv_flags := uv_flags v AND NOT VIFF_DR\<rparr>) st)
          else Some (fs, st) }
        else Some (fs, st) })"

definition receive_pim6_hello ::
  "pim_env \<Rightarrow> sockaddr_in6 \<Rightarrow> byte list \<Rightarrow> nat \<Rightarrow> pim_state \<Rightarrow> (bool \<times> pim_effect list \<times> pim_state) option" where
  "receive_pim6_hello env src buf datalen st =
     (let mifi = find_vif_direct src (uvifs st)
      in if mifi = NO_VIF then Some (False, [], st)
         else (let v = uvifs st ! mifi;
                   v = v\<lparr>uv_in_pim6_hello := uv_in_pim6_hello v + 1\<rparr>;
                   st = set_vif mifi v st
           in if vif_off v then Some (False, [], st)
              else do {
                r \<leftarrow> parse_pim6_hello buf datalen src;
                (case r of
                   None \<Rightarrow> Some (False, [], st)
                 | Some opts \<Rightarrow>
                     (case search_chain (\<lambda>n. inet6_lessthan src (nbr_address n)) (\<lambda>n. inet6_equal src (nbr_address n))
                             (uv_pim_neighbors v) of
                        (ps, Some nbr, rs) \<Rightarrow>
                          if opt_holdtime opts = 0
                          then do { (fs, st) \<leftarrow> delete_pim6_nbr env nbr st; Some (True, fs, st) }
                          else Some (True, [], put_nbr (set_pim6_nbr_param nbr opts) st)
                      | (ps, None, rs) \<Rightarrow> do {
                          (fs, st) \<leftarrow> new_pim6_nbr env src mifi opts ps rs st;
                          Some (True, fs, st) })) }))"

section \<open>Aging of the interfaces\<close>

text \<open>The PIM part of \<^verbatim>\<open>age_vifs\<close>; \<^verbatim>\<open>check_vif_state\<close> and the MLD querier are not modelled.\<close>

fun age_nbrs :: "pim_env \<Rightarrow> u32 \<Rightarrow> nat \<Rightarrow> pim_nbr_entry list \<Rightarrow> pim_state \<Rightarrow> (pim_effect list \<times> pim_state) option" where
  "age_nbrs env interval mifi [] st = Some ([], st)"
| "age_nbrs env interval mifi (n # ns) st =
     (if nbr_timer n = PIM_MESSAGE_HELLO_HOLDTIME_FOREVER then age_nbrs env interval mifi ns st
      else (let (expired, t) = TIMEOUT interval (nbr_timer n);
                n = n\<lparr>nbr_timer := t\<rparr>;
                st = put_nbr n st
        in if \<not> expired then age_nbrs env interval mifi ns st
           else (let v = uvifs st ! mifi
             in do {
               (fs, st) \<leftarrow> delete_pim6_nbr env n (set_vif mifi (v\<lparr>uv_pim6_nbr_timo := uv_pim6_nbr_timo v + 1\<rparr>) st);
               (fs', st) \<leftarrow> age_nbrs env interval mifi ns st;
               Some (fs @ fs', st) })))"

definition age_vif :: "pim_env \<Rightarrow> u32 \<Rightarrow> nat \<Rightarrow> pim_state \<Rightarrow> (pim_effect list \<times> pim_state) option" where
  "age_vif env interval mifi st =
     (if vif_off (uvifs st ! mifi) then Some ([], st)
      else do {
        (fs, st) \<leftarrow> age_nbrs env interval mifi (uv_pim_neighbors (uvifs st ! mifi)) st;
        let v = uvifs st ! mifi;
        let (expired, t) = TIMEOUT interval (uv_pim_hello_timer v);
        let v = v\<lparr>uv_pim_hello_timer := t\<rparr>;
        if expired
        then do { (fs', v) \<leftarrow> send_pim6_hello (pim_hello_period st) (pim_hello_holdtime st) v; Some (fs @ fs', set_vif mifi v st) }
        else Some (fs, set_vif mifi v st) })"

fun age_vif_list :: "pim_env \<Rightarrow> u32 \<Rightarrow> nat list \<Rightarrow> pim_state \<Rightarrow> (pim_effect list \<times> pim_state) option" where
  "age_vif_list env interval [] st = Some ([], st)"
| "age_vif_list env interval (i # is) st = do {
     (fs, st) \<leftarrow> age_vif env interval i st;
     (fs', st) \<leftarrow> age_vif_list env interval is st;
     Some (fs @ fs', st) }"

definition age_vifs :: "pim_env \<Rightarrow> u32 \<Rightarrow> pim_state \<Rightarrow> (pim_effect list \<times> pim_state) option" where
  "age_vifs env interval st = age_vif_list env interval [0..<length (uvifs st)] st"

section \<open>Starting and stopping an interface\<close>

text \<open>
  The PIM part of \<^verbatim>\<open>start_vif\<close> and \<^verbatim>\<open>stop_vif\<close>; the calls into the kernel and MLD are not modelled. \<^verbatim>\<open>r\<close> is the answer of
  \<^verbatim>\<open>RANDOM\<close>. Starting an interface writes its link-local address into the querier.
\<close>

definition VIFF_QUERIER :: u32 where "VIFF_QUERIER = 0x000400"

definition start_vif :: "nat \<Rightarrow> nat \<Rightarrow> pim_state \<Rightarrow> (pim_effect list \<times> pim_state) option" where
  "start_vif r vifi st =
     (let v = uvifs st ! vifi
      in if uv_flags v AND MIFF_REGISTER \<noteq> 0 then Some ([], set_vif vifi (v\<lparr>uv_flags := uv_flags v AND NOT VIFF_DOWN\<rparr>) st)
         else (let v = v\<lparr>uv_flags := (uv_flags v OR VIFF_DR OR VIFF_NONBRS) AND NOT VIFF_DOWN,
                         uv_pim_hello_timer := of_nat (1 + r mod unat (pim_hello_period st))\<rparr>;
                   v = v\<lparr>uv_flags := uv_flags v OR VIFF_QUERIER\<rparr>
           in do {
             _ \<leftarrow> uv_linklocal v;
             (fs, v) \<leftarrow> send_pim6_hello (pim_hello_period st) (pim_hello_holdtime st) v;
             Some (fs, set_vif vifi v st) }))"

fun delete_nbrs :: "pim_env \<Rightarrow> pim_nbr_entry list \<Rightarrow> pim_state \<Rightarrow> (pim_effect list \<times> pim_state) option" where
  "delete_nbrs env [] st = Some ([], st)"
| "delete_nbrs env (n # ns) st = do {
     (fs, st) \<leftarrow> delete_pim6_nbr env n st;
     (fs', st) \<leftarrow> delete_nbrs env ns st;
     Some (fs @ fs', st) }"

definition stop_vif :: "pim_env \<Rightarrow> nat \<Rightarrow> pim_state \<Rightarrow> (pim_effect list \<times> pim_state) option" where
  "stop_vif env vifi st =
     (let v = uvifs st ! vifi;
          v = v\<lparr>uv_flags := (uv_flags v AND NOT VIFF_DR AND NOT VIFF_QUERIER AND NOT VIFF_NONBRS) OR VIFF_DOWN\<rparr>;
          st = set_vif vifi v st
      in do {
        (fs, st) \<leftarrow>
          (if uv_flags v AND MIFF_REGISTER = 0
           then do {
             (fs, st) \<leftarrow> delete_nbrs env (uv_pim_neighbors v) (set_vif vifi (v\<lparr>uv_pim_hello_timer := 0\<rparr>) st);
             Some (fs, set_vif vifi ((uvifs st ! vifi)\<lparr>uv_pim_neighbors := []\<rparr>) st) }
           else Some ([], st));
        Some (fs, set_vif vifi ((uvifs st ! vifi)\<lparr>uv_addrs := [], uv_linklocal := None\<rparr>) st) })"

section \<open>The invariant of the interfaces\<close>

lemma flag_bits:
  "x AND VIFF_DR = 0 \<longleftrightarrow> \<not> bit x 18" "x AND VIFF_NONBRS = 0 \<longleftrightarrow> \<not> bit x 19" "x AND VIFF_PIM_NBR = 0 \<longleftrightarrow> \<not> bit x 21"
  "x AND MIFF_REGISTER = 0 \<longleftrightarrow> \<not> bit x 0"
  "bit VIFF_DR n \<longleftrightarrow> n = 18" "bit VIFF_NONBRS n \<longleftrightarrow> n = 19" "bit VIFF_PIM_NBR n \<longleftrightarrow> n = 21" "bit VIFF_DOWN n \<longleftrightarrow> n = 8"
  "bit VIFF_QUERIER n \<longleftrightarrow> n = 10"
proof -
  have e: "VIFF_DR = 2 ^ 18" "VIFF_NONBRS = 2 ^ 19" "VIFF_PIM_NBR = 2 ^ 21" "MIFF_REGISTER = 2 ^ 0" "VIFF_DOWN = 2 ^ 8" "VIFF_QUERIER = 2 ^ 10"
    by (simp_all add: VIFF_DR_def VIFF_NONBRS_def VIFF_PIM_NBR_def MIFF_REGISTER_def VIFF_DOWN_def VIFF_QUERIER_def)
  show "x AND VIFF_DR = 0 \<longleftrightarrow> \<not> bit x 18" "x AND VIFF_NONBRS = 0 \<longleftrightarrow> \<not> bit x 19" "x AND VIFF_PIM_NBR = 0 \<longleftrightarrow> \<not> bit x 21"
    "x AND MIFF_REGISTER = 0 \<longleftrightarrow> \<not> bit x 0" unfolding e by (rule and_exp_eq_0_iff_not_bit)+
  show "bit VIFF_DR n \<longleftrightarrow> n = 18" "bit VIFF_NONBRS n \<longleftrightarrow> n = 19" "bit VIFF_PIM_NBR n \<longleftrightarrow> n = 21" "bit VIFF_DOWN n \<longleftrightarrow> n = 8"
    "bit VIFF_QUERIER n \<longleftrightarrow> n = 10" unfolding e bit_exp_iff by auto
qed

lemma vif_off_bits: "vif_off v \<longleftrightarrow> bit (uv_flags v) 0 \<or> bit (uv_flags v) 8 \<or> bit (uv_flags v) 9"
proof -
  have e: "VIFF_DISABLED = 2 ^ 9" "VIFF_DOWN = 2 ^ 8" "MIFF_REGISTER = 2 ^ 0" by (simp_all add: VIFF_DISABLED_def VIFF_DOWN_def MIFF_REGISTER_def)
  show ?thesis unfolding vif_off_def e bit.conj_disj_distrib or_eq_0_iff and_exp_eq_0_iff_not_bit by auto
qed

text \<open>
  The neighbours of an interface are in descending order of their addresses and different from the router, and the flags of an
  interface that is up say whether there are neighbours and whether the router is the designated one.
\<close>

definition vif_inv :: "nat \<Rightarrow> nat \<Rightarrow> uvif \<Rightarrow> bool" where
  "vif_inv fresh i v \<longleftrightarrow>
     sorted_wrt (\<lambda>a b. addr_key (nbr_address a) < addr_key (nbr_address b)) (uv_pim_neighbors v) \<and> distinct (map nbr_ptr (uv_pim_neighbors v)) \<and>
     (\<forall>n \<in> set (uv_pim_neighbors v). in6_ok (nbr_address n) \<and> nbr_vifi n = i \<and> nbr_ptr n < fresh) \<and>
     (\<forall>ll. uv_linklocal v = Some ll \<longrightarrow> in6_ok ll \<and> ll \<in> pa_addr ` set (uv_addrs v)) \<and>
     (bit (uv_flags v) 21 \<longleftrightarrow> uv_pim_neighbors v \<noteq> []) \<and>
     (if vif_off v then uv_pim_neighbors v = []
      else (\<exists>ll. uv_linklocal v = Some ll \<and> ll \<notin> nbr_address ` set (uv_pim_neighbors v) \<and>
        (bit (uv_flags v) 18 \<longleftrightarrow> (\<forall>n \<in> set (uv_pim_neighbors v). inet6_lessthan (nbr_address n) ll)) \<and>
        (bit (uv_flags v) 19 \<longleftrightarrow> uv_pim_neighbors v = [])))"

definition hello_inv :: "pim_state \<Rightarrow> bool" where
  "hello_inv st \<longleftrightarrow> pim_inv st \<and> (\<forall>i < length (uvifs st). vif_inv (nbr_fresh st) i (uvifs st ! i))"

text \<open>It depends on four fields.\<close>

definition vif_core :: "uvif \<Rightarrow> sockaddr_in6 option \<times> phaddr list \<times> u32 \<times> pim_nbr_entry list" where
  "vif_core v = (uv_linklocal v, uv_addrs v, uv_flags v, uv_pim_neighbors v)"

lemma vif_inv_core: "vif_core v' = vif_core v \<Longrightarrow> vif_inv n i v' = vif_inv n i v"
  by (simp add: vif_inv_def vif_core_def vif_off_def)

lemma hello_inv_core:
  assumes "hello_inv st" and "pim_inv st'" and "map vif_core (uvifs st') = map vif_core (uvifs st)" and "nbr_fresh st' = nbr_fresh st"
  shows "hello_inv st'"
proof -
  have l: "length (uvifs st') = length (uvifs st)" using arg_cong [OF assms(3), of length] by simp
  have "vif_core (uvifs st' ! i) = vif_core (uvifs st ! i)" if "i < length (uvifs st)" for i
    using arg_cong [OF assms(3), of "\<lambda>xs. xs ! i"] that l by simp
  then have "vif_inv (nbr_fresh st) i (uvifs st' ! i) = vif_inv (nbr_fresh st) i (uvifs st ! i)" if "i < length (uvifs st)" for i
    using that by (intro vif_inv_core)
  then show ?thesis using assms(1,2,4) by (simp add: hello_inv_def l)
qed

lemma hello_inv_set_vif:
  assumes "hello_inv st" and "i < length (uvifs st) \<Longrightarrow> vif_inv (nbr_fresh st) i v"
  shows "hello_inv (set_vif i v st)"
  unfolding hello_inv_def
proof (intro conjI allI impI)
  show "pim_inv (set_vif i v st)" using assms(1) by (simp add: hello_inv_def set_vif_def pim_inv_def)
  fix j assume "j < length (uvifs (set_vif i v st))"
  then show "vif_inv (nbr_fresh (set_vif i v st)) j (uvifs (set_vif i v st) ! j)"
    using assms by (cases "i = j") (simp_all add: hello_inv_def set_vif_def)
qed

lemma hello_inv_rps: "hello_inv st \<Longrightarrow> rp_inv rs \<Longrightarrow> hello_inv (st\<lparr>rps := rs\<rparr>)"
  by (auto simp: hello_inv_def pim_inv_def)

lemma keeps_inv: "keeps_rps st st' \<Longrightarrow> rp_inv st'"
  by (simp add: keeps_rps_def rp_inv_def)

lemma vif_inv_on:
  assumes "vif_inv n i v" and "\<not> vif_off v"
  obtains ll where "uv_linklocal v = Some ll" "in6_ok ll" "ll \<notin> nbr_address ` set (uv_pim_neighbors v)"
    "bit (uv_flags v) 18 \<longleftrightarrow> (\<forall>n \<in> set (uv_pim_neighbors v). inet6_lessthan (nbr_address n) ll)" "bit (uv_flags v) 19 \<longleftrightarrow> uv_pim_neighbors v = []"
  using assms by (auto simp: vif_inv_def)

text \<open>The first neighbour has the greatest address.\<close>

lemma first_neighbour:
  assumes "sorted_wrt (\<lambda>a b. addr_key (nbr_address a) < addr_key (nbr_address b)) ns" and "ns \<noteq> []" and "\<forall>n \<in> set ns. in6_ok (nbr_address n)"
    and "in6_ok ll" and "ll \<notin> nbr_address ` set ns"
  shows "(\<forall>n \<in> set ns. inet6_lessthan (nbr_address n) ll) \<longleftrightarrow> inet6_greaterthan ll (nbr_address (hd ns))"
    "\<not> inet6_greaterthan ll (nbr_address (hd ns)) \<longleftrightarrow> inet6_lessthan ll (nbr_address (hd ns))"
proof -
  have h: "hd ns \<in> set ns" using assms(2) by simp
  have le: "addr_key (nbr_address (hd ns)) \<le> addr_key (nbr_address n)" if "n \<in> set ns" for n
    using that assms(1,2) by (cases ns) auto
  have k: "inet6_lessthan (nbr_address n) ll \<longleftrightarrow> addr_key ll < addr_key (nbr_address n)" if "n \<in> set ns" for n
    using addr_key_greater [of ll "nbr_address n"] assms(3,4) that by (simp add: greaterthan_less)
  show "(\<forall>n \<in> set ns. inet6_lessthan (nbr_address n) ll) \<longleftrightarrow> inet6_greaterthan ll (nbr_address (hd ns))"
    unfolding greaterthan_less using h k le by (auto dest: less_le_trans)
  show "\<not> inet6_greaterthan ll (nbr_address (hd ns)) \<longleftrightarrow> inet6_lessthan ll (nbr_address (hd ns))"
    using addr_key_greater [of ll "nbr_address (hd ns)"] addr_key_greater [of "nbr_address (hd ns)" ll] assms(3-5) h
      addr_key_eq [of ll "nbr_address (hd ns)"]
    by (auto simp: greaterthan_less)
qed

lemma drop_nbr_inv:
  assumes "vif_inv f i v" and "nbr_ptr nbr \<in> nbr_ptr ` set (uv_pim_neighbors v)"
  shows "\<exists>v'. drop_nbr nbr v = Some v' \<and> vif_inv f i v' \<and> uv_pim_neighbors v' = filter (\<lambda>n. nbr_ptr n \<noteq> nbr_ptr nbr) (uv_pim_neighbors v)"
proof -
  define ns where "ns = filter (\<lambda>n. nbr_ptr n \<noteq> nbr_ptr nbr) (uv_pim_neighbors v)"
  have on: "\<not> vif_off v" "uv_pim_neighbors v \<noteq> []" using assms by (auto simp: vif_inv_def split: if_splits)
  obtain ll where ll: "uv_linklocal v = Some ll" "in6_ok ll" "ll \<notin> nbr_address ` set (uv_pim_neighbors v)"
    "bit (uv_flags v) 18 \<longleftrightarrow> (\<forall>n \<in> set (uv_pim_neighbors v). inet6_lessthan (nbr_address n) ll)" "bit (uv_flags v) 19 \<longleftrightarrow> uv_pim_neighbors v = []"
    by (rule vif_inv_on [OF assms(1) on(1)])
  have sub: "set ns \<subseteq> set (uv_pim_neighbors v)" by (auto simp: ns_def)
  have s: "sorted_wrt (\<lambda>a b. addr_key (nbr_address a) < addr_key (nbr_address b)) ns" "distinct (map nbr_ptr ns)"
    "\<forall>n \<in> set ns. in6_ok (nbr_address n) \<and> nbr_vifi n = i \<and> nbr_ptr n < f"
    using assms(1) by (auto simp: vif_inv_def ns_def sorted_wrt_filter distinct_map_filter)
  have ad: "in6_ok l \<and> l \<in> pa_addr ` set (uv_addrs v)" if "uv_linklocal v = Some l" for l using assms(1) that by (simp add: vif_inv_def)
  have lln: "ll \<notin> nbr_address ` set ns" using ll(3) sub by blast
  show ?thesis
  proof (cases "ns = []")
    case True
    define v' where "v' = v\<lparr>uv_pim_neighbors := [], uv_flags := (uv_flags v AND NOT VIFF_PIM_NBR) OR (VIFF_NONBRS OR VIFF_DR)\<rparr>"
    have "drop_nbr nbr v = Some v'" using True by (simp add: drop_nbr_def Let_def ns_def [symmetric] v'_def)
    moreover have "vif_inv f i v'" using on(1) ll(1,2) ad by (auto simp: vif_inv_def v'_def vif_off_bits bit_simps flag_bits)
    ultimately show ?thesis using True by (simp add: v'_def ns_def)
  next
    case False
    note fn = first_neighbour [OF s(1) False _ ll(2) lln]
    define w where "w \<longleftrightarrow> inet6_greaterthan ll (nbr_address (hd ns))"
    have w: "w \<longleftrightarrow> (\<forall>n \<in> set ns. inet6_lessthan (nbr_address n) ll)" using fn(1) s(3) by (simp add: w_def)
    have d: "bit (uv_flags v) 18 \<Longrightarrow> w" using ll(4) w sub by auto
    define v' where "v' = v\<lparr>uv_pim_neighbors := ns, uv_flags := if w then uv_flags v OR VIFF_DR else uv_flags v\<rparr>"
    have "drop_nbr nbr v = Some v'"
      using False ll(1) by (simp add: drop_nbr_def Let_def ns_def [symmetric] w_def [symmetric] v'_def)
    moreover have b: "bit (uv_flags v') n \<longleftrightarrow> bit (uv_flags v) n \<or> n = 18 \<and> w" for n by (simp add: v'_def bit_simps flag_bits)
    have nb: "bit (uv_flags v) 21" using assms(1) on(2) by (simp add: vif_inv_def)
    have "vif_inv f i v'"
      unfolding vif_inv_def vif_off_bits b
      using on ll(1,2,5) s ad lln d w False nb unfolding vif_off_bits by (simp add: v'_def) blast
    ultimately show ?thesis by (simp add: v'_def ns_def)
  qed
qed

lemma reroute_inv: "rp_inv rs \<Longrightarrow> rp_inv (reroute_rps rpf reg vs n rs)"
  by (rule keeps_inv [OF reroute_rps_keeps(1)])

lemma delete_nbr_inv:
  assumes "hello_inv st" and "nbr_vifi nbr < length (uvifs st)" and "nbr_ptr nbr \<in> nbr_ptr ` set (uv_pim_neighbors (uvifs st ! nbr_vifi nbr))"
  shows "\<exists>fs st' v'. delete_pim6_nbr env nbr st = Some (fs, st') \<and> hello_inv st' \<and> uvifs st' = (uvifs st)[nbr_vifi nbr := v'] \<and>
    uv_pim_neighbors v' = filter (\<lambda>n. nbr_ptr n \<noteq> nbr_ptr nbr) (uv_pim_neighbors (uvifs st ! nbr_vifi nbr)) \<and>
    rp_table (rps st') = rp_table (rps st)"
proof -
  let ?i = "nbr_vifi nbr"
  have "vif_inv (nbr_fresh st) ?i (uvifs st ! ?i)" using assms(1,2) by (simp add: hello_inv_def)
  then obtain v' where v: "drop_nbr nbr (uvifs st ! ?i) = Some v'" "vif_inv (nbr_fresh st) ?i v'"
    "uv_pim_neighbors v' = filter (\<lambda>n. nbr_ptr n \<noteq> nbr_ptr nbr) (uv_pim_neighbors (uvifs st ! ?i))" using drop_nbr_inv assms(3) by blast
  define s1 where "s1 = set_vif ?i v' st"
  have r: "rp_inv (rps st)" "rps s1 = rps st" using assms(1) by (simp_all add: hello_inv_def pim_inv_def s1_def set_vif_def)
  have "hello_inv s1" unfolding s1_def by (rule hello_inv_set_vif [OF assms(1) v(2)])
  then have "hello_inv (s1\<lparr>rps := reroute_rps (env_rpf env) (env_reg env) (uvifs s1) (nbr_ptr nbr) (rps st)\<rparr>)"
    using reroute_inv [OF r(1)] by (rule hello_inv_rps)
  then show ?thesis using v(1,3) reroute_rps_keeps(2) [OF r(1)] r(2)
    by (simp add: delete_pim6_nbr_def Let_def s1_def [symmetric]) (auto simp: s1_def set_vif_def)
qed

lemma put_nbr_inv:
  assumes "hello_inv st" and "nbr \<in> set (uv_pim_neighbors (uvifs st ! i))" and "i < length (uvifs st)"
    and "nbr_ptr n = nbr_ptr nbr" and "nbr_address n = nbr_address nbr" and "nbr_vifi n = nbr_vifi nbr"
  shows "hello_inv (put_nbr n st)" "uvifs (put_nbr n st) = (uvifs st)[i := (uvifs st ! i)\<lparr>uv_pim_neighbors :=
      map (\<lambda>x. if nbr_ptr x = nbr_ptr n then n else x) (uv_pim_neighbors (uvifs st ! i))\<rparr>]"
    "nbr_fresh (put_nbr n st) = nbr_fresh st" "rps (put_nbr n st) = rps st"
proof -
  let ?v = "uvifs st ! i" let ?ns = "uv_pim_neighbors ?v"
  define g where "g = (\<lambda>x. if nbr_ptr x = nbr_ptr n then n else x)"
  have inv: "vif_inv (nbr_fresh st) i ?v" using assms(1,3) by (simp add: hello_inv_def)
  have i: "nbr_vifi n = i" using inv assms(2,6) by (simp add: vif_inv_def)
  have x: "nbr_address (g x) = nbr_address x" "nbr_ptr (g x) = nbr_ptr x" "nbr_vifi (g x) = nbr_vifi x" if "x \<in> set ?ns" for x
  proof -
    have "x = nbr" if "nbr_ptr x = nbr_ptr n" using inv assms(2,4) \<open>x \<in> set ?ns\<close> that by (simp add: vif_inv_def) (metis distinct_map inj_onD)
    then show "nbr_address (g x) = nbr_address x" "nbr_ptr (g x) = nbr_ptr x" "nbr_vifi (g x) = nbr_vifi x" using assms(4-6) by (auto simp: g_def)
  qed
  have p: "put_nbr n st = set_vif i (?v\<lparr>uv_pim_neighbors := map g ?ns\<rparr>) st" by (simp add: put_nbr_def i Let_def g_def)
  have m: "distinct (map (nbr_ptr \<circ> g) ?ns) = distinct (map nbr_ptr ?ns)" "nbr_address ` set (map g ?ns) = nbr_address ` set ?ns"
    using x(1,2) by (simp_all add: image_image cong: map_cong)
  have "sorted_wrt (\<lambda>a b. addr_key (nbr_address a) < addr_key (nbr_address b)) (map g ?ns) =
      sorted_wrt (\<lambda>a b. addr_key (nbr_address a) < addr_key (nbr_address b)) ?ns"
    using x(1) by (simp add: sorted_wrt_iff_nth_less)
  then have "vif_inv (nbr_fresh st) i (?v\<lparr>uv_pim_neighbors := map g ?ns\<rparr>)"
    using inv m x unfolding vif_inv_def vif_off_bits by simp
  then show "hello_inv (put_nbr n st)" unfolding p by (intro hello_inv_set_vif [OF assms(1)])
  show "uvifs (put_nbr n st) = (uvifs st)[i := ?v\<lparr>uv_pim_neighbors := map (\<lambda>x. if nbr_ptr x = nbr_ptr n then n else x) ?ns\<rparr>]"
    "nbr_fresh (put_nbr n st) = nbr_fresh st" "rps (put_nbr n st) = rps st" unfolding p by (simp_all add: set_vif_def g_def)
qed

lemma send_hello_core: "send_pim6_hello p h v = Some (fs, v') \<Longrightarrow> vif_core v' = vif_core v"
  by (auto simp: send_pim6_hello_def Let_def vif_core_def Option.bind_eq_Some_conv split: if_splits)

lemma vif_inv_fresh: "vif_inv f i v \<Longrightarrow> f \<le> f' \<Longrightarrow> vif_inv f' i v"
  by (auto simp: vif_inv_def)

lemma hello_inv_fresh: "hello_inv st \<Longrightarrow> nbr_fresh st \<le> f \<Longrightarrow> hello_inv (st\<lparr>nbr_fresh := f\<rparr>)"
  by (auto simp: hello_inv_def pim_inv_def intro: vif_inv_fresh)

text \<open>A new neighbour in its place; the router stays the designated one when it has a greater address.\<close>

lemma add_nbr_inv:
  assumes "vif_inv f i v" and "\<not> vif_off v" and "uv_pim_neighbors v = ps @ rs"
    and "\<forall>n \<in> set ps. addr_key (nbr_address n) < addr_key (nbr_address nbr)" and "\<forall>n \<in> set rs. addr_key (nbr_address nbr) < addr_key (nbr_address n)"
    and "in6_ok (nbr_address nbr)" and "uv_linklocal v = Some ll" and "nbr_address nbr \<noteq> ll" and "nbr_ptr nbr = f" and "nbr_vifi nbr = i"
    and "vif_core v' = (Some ll, uv_addrs v, flags, ps @ nbr # rs)"
    and "\<And>n. bit flags n \<longleftrightarrow> (if n = 18 then bit (uv_flags v) 18 \<and> \<not> inet6_lessthan ll (nbr_address (hd (ps @ nbr # rs))) else n \<noteq> 19 \<and> (n = 21 \<or> bit (uv_flags v) n))"
  shows "vif_inv (Suc f) i v'"
proof -
  let ?ns = "ps @ nbr # rs"
  have v': "uv_linklocal v' = Some ll" "uv_addrs v' = uv_addrs v" "uv_flags v' = flags" "uv_pim_neighbors v' = ?ns"
    using assms(11) by (simp_all add: vif_core_def)
  obtain l where l: "uv_linklocal v = Some l" "in6_ok l" "l \<notin> nbr_address ` set (uv_pim_neighbors v)"
    "bit (uv_flags v) 18 \<longleftrightarrow> (\<forall>n \<in> set (uv_pim_neighbors v). inet6_lessthan (nbr_address n) l)"
    by (rule vif_inv_on [OF assms(1,2)]) blast
  have ll: "l = ll" using l(1) assms(7) by simp
  have inv: "sorted_wrt (\<lambda>a b. addr_key (nbr_address a) < addr_key (nbr_address b)) (ps @ rs)" "distinct (map nbr_ptr (ps @ rs))"
    "\<forall>n \<in> set (ps @ rs). in6_ok (nbr_address n) \<and> nbr_vifi n = i \<and> nbr_ptr n < f" "in6_ok ll \<and> ll \<in> pa_addr ` set (uv_addrs v)"
    using assms(1,3,7) by (simp_all add: vif_inv_def)
  have s: "sorted_wrt (\<lambda>a b. addr_key (nbr_address a) < addr_key (nbr_address b)) ?ns" using inv(1) assms(4,5) by (auto simp: sorted_wrt_append)
  have d: "distinct (map nbr_ptr ?ns)" using inv(2,3) assms(9) by force
  have o: "\<forall>n \<in> set ?ns. in6_ok (nbr_address n) \<and> nbr_vifi n = i \<and> nbr_ptr n < Suc f" using inv(3) assms(6,9,10) by (auto simp: less_Suc_eq)
  have nl: "ll \<notin> nbr_address ` set ?ns" using l(3) assms(3,8) ll by auto
  have f: "(\<forall>n \<in> set ?ns. inet6_lessthan (nbr_address n) ll) \<longleftrightarrow> \<not> inet6_lessthan ll (nbr_address (hd ?ns))"
    using first_neighbour [OF s _ _ _ nl] o inv(4) by auto
  have dr: "bit flags 18 \<longleftrightarrow> (\<forall>n \<in> set ?ns. inet6_lessthan (nbr_address n) ll)"
    unfolding assms(12) f [symmetric] using l(4) assms(3) ll by auto
  have off: "vif_off v' \<longleftrightarrow> vif_off v" by (simp add: vif_off_bits v'(3) assms(12))
  have fl: "bit flags 21" "\<not> bit flags 19" by (simp_all add: assms(12))
  show ?thesis unfolding vif_inv_def off v' using s d o nl dr fl inv(4) assms(2) by auto
qed

lemma update_rp_inv: "rp_inv rs \<Longrightarrow> rp_inv (update_rp_neighbor rpf reg vs rs)"
  by (rule keeps_inv [OF update_rp_neighbor_keeps(1)])

lemma new_nbr_inv:
  assumes "new_pim6_nbr env src i opts ps rs st = Some (fs, st')" and "hello_inv st" and "i < length (uvifs st)" and "\<not> vif_off (uvifs st ! i)"
    and "uv_pim_neighbors (uvifs st ! i) = ps @ rs"
    and "\<forall>n \<in> set ps. addr_key (nbr_address n) < addr_key src" and "\<forall>n \<in> set rs. addr_key src < addr_key (nbr_address n)"
    and "in6_ok src" and "uv_linklocal (uvifs st ! i) \<noteq> Some src"
  shows "hello_inv st' \<and> (\<exists>n. nbr_address n = src \<and> nbr_timer n = opt_holdtime opts \<and> uv_pim_neighbors (uvifs st' ! i) = ps @ n # rs)"
proof -
  define nbr where "nbr = set_pim6_nbr_param \<lparr>nbr_ptr = nbr_fresh st, nbr_address = src, aux_addrs = [], nbr_vifi = i, nbr_timer = 0\<rparr> opts"
  define v0 where "v0 = uvifs st ! i"
  define fl where "fl = (uv_flags v0 AND NOT VIFF_NONBRS) OR VIFF_PIM_NBR"
  define v1 where "v1 = v0\<lparr>uv_pim_neighbors := ps @ nbr # rs, uv_flags := fl\<rparr>"
  have nbr: "nbr_address nbr = src" "nbr_ptr nbr = nbr_fresh st" "nbr_vifi nbr = i" "nbr_timer nbr = opt_holdtime opts"
    by (simp_all add: nbr_def set_pim6_nbr_param_def)
  obtain fs1 v2 where v2: "send_pim6_hello (pim_hello_period st) (pim_hello_holdtime st) v1 = Some (fs1, v2)"
    using assms(1) unfolding new_pim6_nbr_def Let_def nbr_def [symmetric] v0_def [symmetric] fl_def [symmetric] v1_def [symmetric]
    by (auto simp: Option.bind_eq_Some_conv)
  define st1 where "st1 = set_vif i v2 (st\<lparr>nbr_fresh := nbr_fresh st + 1\<rparr>)"
  define st2 where "st2 = st1\<lparr>rps := update_rp_neighbor (env_rpf env) (env_reg env) (uvifs st1) (rps st1)\<rparr>"
  have p1: "pim_inv st1" using assms(2) by (simp add: st1_def set_vif_def hello_inv_def pim_inv_def)
  then have p2: "pim_inv st2" using update_rp_inv by (simp add: st2_def pim_inv_def)
  have i0: "vif_inv (nbr_fresh st) i v0" "\<not> vif_off v0" using assms(2-4) by (simp_all add: hello_inv_def v0_def)
  obtain ll where ll: "uv_linklocal v0 = Some ll" by (rule vif_inv_on [OF i0])
  have c2: "vif_core v2 = (Some ll, uv_addrs v0, fl, ps @ nbr # rs)" using send_hello_core [OF v2] ll by (simp add: v1_def vif_core_def)
  then have ll2: "uv_linklocal v2 = Some ll" "uv_flags v2 = fl" "uv_pim_neighbors v2 = ps @ nbr # rs" by (simp_all add: vif_core_def)
  have bits: "bit fl n \<longleftrightarrow> n \<noteq> 19 \<and> (n = 21 \<or> bit (uv_flags v0) n)" for n by (auto simp: fl_def bit_simps flag_bits dest: bit_imp_le_length)
  define lost where "lost \<longleftrightarrow> bit fl 18 \<and> inet6_lessthan ll (nbr_address (hd (ps @ nbr # rs)))"
  define v3 where "v3 = (if lost then v2\<lparr>uv_flags := fl AND NOT VIFF_DR\<rparr> else v2)"
  have r: "map vif_core (uvifs st') = map vif_core ((uvifs st)[i := v3]) \<and> nbr_fresh st' = nbr_fresh st + 1 \<and> pim_inv st'"
  proof (cases "bit fl 18")
    case True
    obtain msg st3 where m: "create_pim6_bootstrap_message st2 = Some (msg, st3)"
      "st' = (if lost then set_vif i v3 st3 else st3)"
      using assms(1) True v2 ll2 unfolding new_pim6_nbr_def Let_def nbr_def [symmetric] v0_def [symmetric] fl_def [symmetric] v1_def [symmetric]
      by (auto simp: Option.bind_eq_Some_conv st1_def st2_def flag_bits lost_def v3_def split: if_splits)
    note c = create_bootstrap_inv [OF m(1) p2]
    have n: "nbr_fresh st3 = nbr_fresh st2" using m(1)
      by (auto simp: create_pim6_bootstrap_message_def Let_def Option.bind_eq_Some_conv split: if_splits)
    have u: "uvifs st3 = (uvifs st)[i := v2]" "nbr_fresh st3 = nbr_fresh st + 1" using c n by (simp_all add: st2_def st1_def set_vif_def)
    have "pim_inv st'" using c m(2) by (auto simp: pim_inv_def set_vif_def)
    then show ?thesis using m(2) u by (simp add: v3_def set_vif_def)
  next
    case False
    then have "st' = st2" "\<not> lost" using assms(1) v2 ll2 unfolding new_pim6_nbr_def Let_def nbr_def [symmetric] v0_def [symmetric] fl_def [symmetric] v1_def [symmetric]
      by (auto simp: Option.bind_eq_Some_conv st1_def st2_def flag_bits lost_def)
    then show ?thesis using p2 by (simp add: v3_def st2_def st1_def set_vif_def)
  qed
  have "vif_inv (Suc (nbr_fresh st)) i v3"
  proof (rule add_nbr_inv [where v = v0 and nbr = nbr and flags = "uv_flags v3"])
    show "vif_core v3 = (Some ll, uv_addrs v0, uv_flags v3, ps @ nbr # rs)" using c2 by (simp add: v3_def vif_core_def)
    show "bit (uv_flags v3) n \<longleftrightarrow> (if n = 18 then bit (uv_flags v0) 18 \<and> \<not> inet6_lessthan ll (nbr_address (hd (ps @ nbr # rs))) else n \<noteq> 19 \<and> (n = 21 \<or> bit (uv_flags v0) n))" for n
      using bits [of n] bits [of 18] ll2(2) by (auto simp: v3_def lost_def bit_simps flag_bits dest: bit_imp_le_length)
  qed (use assms ll nbr in \<open>auto simp: v0_def hello_inv_def\<close>)
  then have "hello_inv (set_vif i v3 (st\<lparr>nbr_fresh := nbr_fresh st + 1\<rparr>))"
    using hello_inv_fresh [OF assms(2), of "nbr_fresh st + 1"] by (intro hello_inv_set_vif) simp_all
  then have "hello_inv st'" using r by (elim hello_inv_core) (simp_all add: set_vif_def)
  moreover have "uv_pim_neighbors (uvifs st' ! i) = ps @ nbr # rs"
  proof -
    have "map vif_core (uvifs st') ! i = map vif_core ((uvifs st)[i := v3]) ! i" "length (uvifs st') = length (uvifs st)"
      using r arg_cong [of _ _ length] by (simp, metis length_list_update length_map)
    then have "vif_core (uvifs st' ! i) = vif_core v3" using assms(3) by simp
    then show ?thesis using ll2(3) by (simp add: vif_core_def v3_def split: if_splits)
  qed
  ultimately show ?thesis using nbr(1,4) by blast
qed

lemma not_own_linklocal:
  assumes "hello_inv st" and "i < length (uvifs st)" and "\<not> vif_off (uvifs st ! i)" and "local_address src (uvifs st) = NO_VIF"
  shows "uv_linklocal (uvifs st ! i) \<noteq> Some src"
proof
  assume l: "uv_linklocal (uvifs st ! i) = Some src"
  have n: "length (uvifs st) \<le> NO_VIF" "vif_inv (nbr_fresh st) i (uvifs st ! i)" using assms(1,2) by (simp_all add: hello_inv_def pim_inv_def)
  then have "\<not> own_address src v" if "v \<in> set (uvifs st)" for v
    using local_from_spec [of "uvifs st" src 0] assms(4) that by (auto simp: local_address_def)
  then have "\<not> own_address src (uvifs st ! i)" using assms(2) by simp
  then show False using n(2) l assms(3) by (auto simp: own_address_def vif_inv_def equal_eq)
qed

lemma receive_hello_inv:
  assumes "receive_pim6_hello env src buf n st = Some (r, fs, st')" and "hello_inv st" and "in6_ok src" and "local_address src (uvifs st) = NO_VIF"
  shows "hello_inv st'"
proof (cases "find_vif_direct src (uvifs st) = NO_VIF")
  case False
  define i where "i = find_vif_direct src (uvifs st)"
  define v where "v = (uvifs st ! i)\<lparr>uv_in_pim6_hello := uv_in_pim6_hello (uvifs st ! i) + 1\<rparr>"
  define s0 where "s0 = set_vif i v st"
  have i: "i < length (uvifs st)" "\<not> vif_off (uvifs st ! i)" using find_vif_direct_bound [OF False] by (simp_all add: i_def)
  have v: "vif_core v = vif_core (uvifs st ! i)" "uv_pim_neighbors v = uv_pim_neighbors (uvifs st ! i)" "uv_linklocal v = uv_linklocal (uvifs st ! i)"
    "\<not> vif_off v" using i(2) by (simp_all add: v_def vif_core_def vif_off_def)
  have inv: "vif_inv (nbr_fresh st) i v" using vif_inv_core [OF v(1)] assms(2) i(1) by (simp add: hello_inv_def)
  have s0: "hello_inv s0" unfolding s0_def by (rule hello_inv_set_vif [OF assms(2) inv])
  have u: "uvifs s0 ! i = v" "i < length (uvifs s0)" using i(1) by (simp_all add: s0_def set_vif_def)
  obtain ps f rs where c: "search_chain (\<lambda>n. inet6_lessthan src (nbr_address n)) (\<lambda>n. inet6_equal src (nbr_address n)) (uv_pim_neighbors v) = (ps, f, rs)"
    by (cases "search_chain (\<lambda>n. inet6_lessthan src (nbr_address n)) (\<lambda>n. inet6_equal src (nbr_address n)) (uv_pim_neighbors v)")
  have k: "inet6_lessthan src (nbr_address x) \<longleftrightarrow> addr_key (nbr_address x) < addr_key src" "inet6_equal src (nbr_address x) \<longleftrightarrow> addr_key (nbr_address x) = addr_key src"
    if "x \<in> set (uv_pim_neighbors v)" for x
    using addr_key_greater [of "nbr_address x" src] addr_key_eq [of "nbr_address x" src] inv that assms(3) by (auto simp: vif_inv_def greaterthan_less equal_eq)
  have so: "sorted_wrt (\<lambda>a b. addr_key (nbr_address a) < addr_key (nbr_address b)) (uv_pim_neighbors v)" using inv by (simp add: vif_inv_def)
  note o = search_chain_ordered [OF c so k(1) k(2)]
  consider "st' = s0"
    | nbr where "f = Some nbr" "delete_pim6_nbr env nbr s0 = Some (fs, st')"
    | nbr opts where "f = Some nbr" "st' = put_nbr (set_pim6_nbr_param nbr opts) s0"
    | opts where "f = None" "new_pim6_nbr env src i opts ps rs s0 = Some (fs, st')"
    using assms(1) False unfolding receive_pim6_hello_def Let_def i_def [symmetric] v_def [symmetric] s0_def [symmetric] c
    by (cases f) (auto simp: Option.bind_eq_Some_conv split: if_splits option.splits)
  then show ?thesis
  proof cases
    case (2 nbr)
    then have m: "nbr \<in> set (uv_pim_neighbors v)" using o(1) by auto
    then have "nbr_vifi nbr = i" using inv by (simp add: vif_inv_def)
    then show ?thesis using delete_nbr_inv [OF s0, of nbr env] 2(2) u m by auto
  next
    case (3 nbr opts)
    then have "nbr \<in> set (uv_pim_neighbors (uvifs s0 ! i))" using o(1) u by auto
    then show ?thesis unfolding 3(2) by (rule put_nbr_inv [OF s0 _ u(2)]) (simp_all add: set_pim6_nbr_param_def)
  next
    case (4 opts)
    then show ?thesis using new_nbr_inv [OF 4(2) s0 u(2)] o(1-3) u v(3,4) assms(3) not_own_linklocal [OF assms(2) i assms(4)] by simp
  qed (use s0 in simp)
qed (use assms in \<open>simp add: receive_pim6_hello_def\<close>)

text \<open>What aging leaves of a neighbour.\<close>

definition aged :: "u32 \<Rightarrow> pim_nbr_entry \<Rightarrow> pim_nbr_entry list" where
  "aged interval n = (if fst (TIMEOUT interval (nbr_timer n)) then [] else [n\<lparr>nbr_timer := snd (TIMEOUT interval (nbr_timer n))\<rparr>])"

lemma map_put_nbr:
  assumes "distinct (map nbr_ptr (ds @ n # ns))" and "nbr_ptr n' = nbr_ptr n"
  shows "map (\<lambda>x. if nbr_ptr x = nbr_ptr n' then n' else x) (ds @ n # ns) = ds @ n' # ns"
    "filter (\<lambda>x. nbr_ptr x \<noteq> nbr_ptr n') (ds @ n' # ns) = ds @ ns"
proof -
  have n: "nbr_ptr x \<noteq> nbr_ptr n'" if "x \<in> set (ds @ ns)" for x using assms that by (force simp: image_iff)
  then show "map (\<lambda>x. if nbr_ptr x = nbr_ptr n' then n' else x) (ds @ n # ns) = ds @ n' # ns" using assms(2) by (simp add: map_idI)
  have "filter (\<lambda>x. nbr_ptr x \<noteq> nbr_ptr n') (ds @ ns) = ds @ ns" using n by (rule filter_True [OF ballI])
  then show "filter (\<lambda>x. nbr_ptr x \<noteq> nbr_ptr n') (ds @ n' # ns) = ds @ ns" by simp
qed

lemma age_nbrs_spec:
  assumes "hello_inv st" and "i < length (uvifs st)" and "uv_pim_neighbors (uvifs st ! i) = ds @ ns"
  shows "\<exists>fs st' v'. age_nbrs env interval i ns st = Some (fs, st') \<and> hello_inv st' \<and> uvifs st' = (uvifs st)[i := v'] \<and>
    uv_pim_neighbors v' = ds @ concat (map (aged interval) ns) \<and> rp_table (rps st') = rp_table (rps st)"
  using assms
proof (induction ns arbitrary: ds st)
  case Nil
  then show ?case by (auto intro!: exI [of _ "uvifs st ! i"])
next
  case (Cons n ns)
  have inv: "vif_inv (nbr_fresh st) i (uvifs st ! i)" using Cons.prems(1,2) by (simp add: hello_inv_def)
  then have d: "distinct (map nbr_ptr (ds @ n # ns))" "nbr_vifi n = i" using Cons.prems(3) by (simp_all add: vif_inv_def)
  obtain e t where t: "TIMEOUT interval (nbr_timer n) = (e, t)" by fastforce
  define n' where "n' = n\<lparr>nbr_timer := t\<rparr>"
  have n': "nbr_ptr n' = nbr_ptr n" "nbr_vifi n' = i" by (simp_all add: n'_def d(2))
  note mp = map_put_nbr [OF d(1) n'(1)]
  show ?case
  proof (cases "nbr_timer n = PIM_MESSAGE_HELLO_HOLDTIME_FOREVER")
    case True
    then have "TIMEOUT interval (nbr_timer n) = (False, nbr_timer n)" by (simp add: TIMEOUT_def PIM_MESSAGE_HELLO_HOLDTIME_FOREVER_def)
    then have "aged interval n = [n]" by (simp add: aged_def)
    then show ?thesis using Cons.IH [OF Cons.prems(1,2), of "ds @ [n]"] Cons.prems(3) True by simp
  next
    case False
    define s1 where "s1 = put_nbr n' st"
    have "n \<in> set (uv_pim_neighbors (uvifs st ! i))" using Cons.prems(3) by simp
    note p = put_nbr_inv [OF Cons.prems(1) this Cons.prems(2), of n', folded s1_def]
    have s1: "hello_inv s1" "rps s1 = rps st" "uvifs s1 = (uvifs st)[i := (uvifs st ! i)\<lparr>uv_pim_neighbors := ds @ n' # ns\<rparr>]"
      using p mp(1) Cons.prems(3) by (simp_all add: n'_def)
    have u1: "uv_pim_neighbors (uvifs s1 ! i) = ds @ n' # ns" "i < length (uvifs s1)" using Cons.prems(2) by (simp_all add: s1(3))
    show ?thesis
    proof (cases e)
      case nexp: False
      have "aged interval n = [n']" using t nexp by (simp add: aged_def n'_def)
      moreover have "age_nbrs env interval i (n # ns) st = age_nbrs env interval i ns s1" using False nexp t by (simp add: Let_def n'_def s1_def)
      ultimately show ?thesis using Cons.IH [OF s1(1) u1(2), of "ds @ [n']"] u1(1) s1(2,3) by auto
    next
      case True
      define v1 where "v1 = uvifs s1 ! i"
      define s2 where "s2 = set_vif i (v1\<lparr>uv_pim6_nbr_timo := uv_pim6_nbr_timo v1 + 1\<rparr>) s1"
      have "vif_inv (nbr_fresh s1) i v1" using s1(1) u1(2) by (simp add: hello_inv_def v1_def)
      then have "vif_inv (nbr_fresh s1) i (v1\<lparr>uv_pim6_nbr_timo := uv_pim6_nbr_timo v1 + 1\<rparr>)"
        by (subst vif_inv_core [of _ v1]) (simp_all add: vif_core_def)
      then have s2: "hello_inv s2" "rps s2 = rps st" unfolding s2_def using hello_inv_set_vif [OF s1(1)] s1(2) by (simp_all add: set_vif_def)
      have u2: "uv_pim_neighbors (uvifs s2 ! i) = ds @ n' # ns" "i < length (uvifs s2)" using u1 by (simp_all add: s2_def set_vif_def v1_def)
      obtain fs s3 v3 where 3: "delete_pim6_nbr env n' s2 = Some (fs, s3)" "hello_inv s3" "uvifs s3 = (uvifs s2)[i := v3]" "uv_pim_neighbors v3 = ds @ ns"
        "rp_table (rps s3) = rp_table (rps st)"
        using delete_nbr_inv [OF s2(1), of n' env] u2 n'(2) mp(2) s2(2) by auto
      have u3: "uv_pim_neighbors (uvifs s3 ! i) = ds @ ns" "i < length (uvifs s3)" using 3(3,4) u2(2) by simp_all
      obtain fs' s4 v4 where 4: "age_nbrs env interval i ns s3 = Some (fs', s4)" "hello_inv s4" "uvifs s4 = (uvifs s3)[i := v4]"
        "uv_pim_neighbors v4 = ds @ concat (map (aged interval) ns)" "rp_table (rps s4) = rp_table (rps s3)"
        using Cons.IH [OF 3(2) u3(2,1)] by blast
      have "aged interval n = []" using t True by (simp add: aged_def)
      moreover have "age_nbrs env interval i (n # ns) st = Some (fs @ fs', s4)"
        using False True t 3(1) 4(1) by (simp add: Let_def n'_def s1_def [unfolded n'_def, symmetric] v1_def [symmetric] s2_def [symmetric])
      moreover have "uvifs s4 = (uvifs st)[i := v4]" using 4(3) 3(3) by (simp add: s2_def set_vif_def s1(3))
      ultimately show ?thesis using 4(2,4,5) 3(5) by auto
    qed
  qed
qed

lemma age_vif_spec:
  assumes "age_vif env interval i st = Some (fs, st')" and "hello_inv st" and "i < length (uvifs st)"
  shows "hello_inv st' \<and> (\<exists>v'. uvifs st' = (uvifs st)[i := v'] \<and> uv_pim_neighbors v' = concat (map (aged interval) (uv_pim_neighbors (uvifs st ! i))))"
proof (cases "vif_off (uvifs st ! i)")
  case True
  then have "uv_pim_neighbors (uvifs st ! i) = []" using assms(2,3) by (simp add: hello_inv_def vif_inv_def)
  then show ?thesis using assms True by (auto simp: age_vif_def intro!: exI [of _ "uvifs st ! i"])
next
  case False
  obtain fs1 s1 v1 where 1: "age_nbrs env interval i (uv_pim_neighbors (uvifs st ! i)) st = Some (fs1, s1)" "hello_inv s1" "uvifs s1 = (uvifs st)[i := v1]"
      "uv_pim_neighbors v1 = concat (map (aged interval) (uv_pim_neighbors (uvifs st ! i)))"
    using age_nbrs_spec [OF assms(2,3), of "[]" "uv_pim_neighbors (uvifs st ! i)" env interval] by auto
  have u: "uvifs s1 ! i = v1" "i < length (uvifs s1)" using 1(3) assms(3) by simp_all
  obtain e t where t: "TIMEOUT interval (uv_pim_hello_timer v1) = (e, t)" by fastforce
  have "\<exists>v2. st' = set_vif i v2 s1 \<and> vif_core v2 = vif_core v1"
    using assms(1) False 1(1) u t send_hello_core
    by (auto simp: age_vif_def Let_def Option.bind_eq_Some_conv vif_core_def split: if_splits)
  then obtain v2 where v2: "st' = set_vif i v2 s1" "vif_core v2 = vif_core v1" by blast
  have "vif_inv (nbr_fresh s1) i (uvifs s1 ! i)" using 1(2) u(2) by (simp add: hello_inv_def)
  then have "vif_inv (nbr_fresh s1) i v2" unfolding u(1) using vif_inv_core [OF v2(2), of "nbr_fresh s1" i] by (rule iffD2 [rotated])
  then have "hello_inv st'" unfolding v2(1) by (intro hello_inv_set_vif [OF 1(2)])
  moreover have "uvifs st' = (uvifs st)[i := v2]" by (simp add: v2(1) set_vif_def 1(3))
  moreover have "uv_pim_neighbors v2 = concat (map (aged interval) (uv_pim_neighbors (uvifs st ! i)))" using v2(2) 1(4) by (simp add: vif_core_def)
  ultimately show ?thesis by (intro conjI exI [of _ v2])
qed

lemma age_vif_list_spec:
  assumes "age_vif_list env interval is st = Some (fs, st')" and "hello_inv st" and "distinct is" and "set is \<subseteq> {..<length (uvifs st)}"
  shows "hello_inv st' \<and> length (uvifs st') = length (uvifs st) \<and> (\<forall>j < length (uvifs st). uv_pim_neighbors (uvifs st' ! j) =
    (if j \<in> set is then concat (map (aged interval) (uv_pim_neighbors (uvifs st ! j))) else uv_pim_neighbors (uvifs st ! j)))"
  using assms
proof (induction "is" arbitrary: st fs)
  case (Cons i "is")
  obtain fs1 s1 fs2 where 1: "age_vif env interval i st = Some (fs1, s1)" "age_vif_list env interval is s1 = Some (fs2, st')"
    using Cons.prems(1) by (auto simp: Option.bind_eq_Some_conv)
  have il: "i < length (uvifs st)" using Cons.prems(4) by simp
  obtain v' where v: "hello_inv s1" "uvifs s1 = (uvifs st)[i := v']" "uv_pim_neighbors v' = concat (map (aged interval) (uv_pim_neighbors (uvifs st ! i)))"
    using age_vif_spec [OF 1(1) Cons.prems(2) il] by blast
  have "set is \<subseteq> {..<length (uvifs s1)}" "distinct is" using Cons.prems(3,4) v(2) by auto
  note r = Cons.IH [OF 1(2) v(1) this(2,1)]
  have "uv_pim_neighbors (uvifs st' ! j) = (if j \<in> set (i # is) then concat (map (aged interval) (uv_pim_neighbors (uvifs st ! j))) else uv_pim_neighbors (uvifs st ! j))"
    if "j < length (uvifs st)" for j
    using r that v(2,3) Cons.prems(3) by (cases "j = i") auto
  then show ?case using r v(2) by simp
qed simp

lemma drop_nbr_frame:
  assumes "drop_nbr n v = Some v'"
  shows "uv_pim_neighbors v' = filter (\<lambda>x. nbr_ptr x \<noteq> nbr_ptr n) (uv_pim_neighbors v)" "k \<in> {0, 8, 9} \<Longrightarrow> bit (uv_flags v') k = bit (uv_flags v) k"
    "uv_pim_neighbors v' = [] \<Longrightarrow> \<not> bit (uv_flags v') 21"
  using assms by (auto simp: drop_nbr_def Let_def Option.bind_eq_Some_conv bit_simps flag_bits split: if_splits)

lemma delete_nbrs_frame:
  assumes "delete_nbrs env ns st = Some (fs, st')" and "pim_inv st" and "i < length (uvifs st)" and "\<forall>n \<in> set ns. nbr_vifi n = i"
    and "set (map nbr_ptr (uv_pim_neighbors (uvifs st ! i))) \<subseteq> set (map nbr_ptr ns)" and "ns \<noteq> []"
  shows "pim_inv st' \<and> nbr_fresh st' = nbr_fresh st \<and> (\<exists>v'. uvifs st' = (uvifs st)[i := v'] \<and> \<not> bit (uv_flags v') 21 \<and>
      (\<forall>k \<in> {0, 8}. bit (uv_flags v') k = bit (uv_flags (uvifs st ! i)) k))"
  using assms
proof (induction ns arbitrary: st fs)
  case (Cons n ns)
  obtain fs1 s1 fs2 where 1: "delete_pim6_nbr env n st = Some (fs1, s1)" "delete_nbrs env ns s1 = Some (fs2, st')"
    using Cons.prems(1) by (auto simp: Option.bind_eq_Some_conv)
  have n: "nbr_vifi n = i" using Cons.prems(4) by simp
  obtain v1 where v1: "drop_nbr n (uvifs st ! i) = Some v1" "uvifs s1 = (uvifs st)[i := v1]" "nbr_fresh s1 = nbr_fresh st" "pim_inv s1"
    using 1(1) Cons.prems(2) reroute_inv by (auto simp: delete_pim6_nbr_def Let_def n Option.bind_eq_Some_conv set_vif_def pim_inv_def)
  have u: "uvifs s1 ! i = v1" "i < length (uvifs s1)" using v1(2) Cons.prems(3) by simp_all
  note f = drop_nbr_frame [OF v1(1)]
  have sub: "set (map nbr_ptr (uv_pim_neighbors v1)) \<subseteq> set (map nbr_ptr ns)" using Cons.prems(5) f(1) by auto
  show ?case
  proof (cases "ns = []")
    case True
    then have "uv_pim_neighbors v1 = []" "st' = s1" using sub 1(2) by auto
    then show ?thesis using v1 f(2,3) by auto
  next
    case False
    have "\<forall>n \<in> set ns. nbr_vifi n = i" using Cons.prems(4) by simp
    then show ?thesis using Cons.IH [OF 1(2) v1(4) u(2) _ _ False] sub u v1(2,3) f(2) by auto
  qed
qed simp

lemma stop_vif_inv:
  assumes "stop_vif env i st = Some (fs, st')" and "hello_inv st" and "i < length (uvifs st)"
  shows "hello_inv st' \<and> (\<exists>v'. uvifs st' = (uvifs st)[i := v'] \<and> uv_linklocal v' = None \<and> uv_pim_neighbors v' = [] \<and>
    bit (uv_flags v') 0 = bit (uv_flags (uvifs st ! i)) 0)"
proof -
  define v where "v = uvifs st ! i"
  define v0 where "v0 = v\<lparr>uv_flags := (uv_flags v AND NOT VIFF_DR AND NOT VIFF_QUERIER AND NOT VIFF_NONBRS) OR VIFF_DOWN\<rparr>"
  have inv: "vif_inv (nbr_fresh st) i v" using assms(2,3) by (simp add: hello_inv_def v_def)
  have b: "bit (uv_flags v0) 8" "bit (uv_flags v0) 0 = bit (uv_flags v) 0" "bit (uv_flags v0) 21 = bit (uv_flags v) 21" by (auto simp: v0_def bit_simps flag_bits)
  have "\<exists>s1 v1. st' = set_vif i v1 s1 \<and> pim_inv s1 \<and> nbr_fresh s1 = nbr_fresh st \<and> length (uvifs s1) = length (uvifs st) \<and>
      (\<forall>j < length (uvifs st). j \<noteq> i \<longrightarrow> uvifs s1 ! j = uvifs st ! j) \<and> uv_pim_neighbors v1 = [] \<and> uv_linklocal v1 = None \<and> \<not> bit (uv_flags v1) 21 \<and> bit (uv_flags v1) 8 \<and> bit (uv_flags v1) 0 = bit (uv_flags v) 0 \<and>
      (uvifs s1)[i := v1] = (uvifs st)[i := v1]"
  proof (cases "bit (uv_flags v) 0")
    case True
    then have "uv_pim_neighbors v = []" "\<not> bit (uv_flags v) 21" using inv by (simp_all add: vif_inv_def vif_off_bits)
    moreover have "st' = set_vif i (v0\<lparr>uv_addrs := [], uv_linklocal := None\<rparr>) (set_vif i v0 st)"
      using assms(1,3) True b(2) unfolding stop_vif_def Let_def v_def [symmetric] v0_def [symmetric] by (simp add: flag_bits) (simp add: set_vif_def)
    moreover have "pim_inv (set_vif i v0 st)" using assms(2) by (simp add: hello_inv_def pim_inv_def set_vif_def)
    ultimately show ?thesis using b by (intro exI [of _ "set_vif i v0 st"]) (auto simp: set_vif_def v0_def)
  next
    case False
    define w where "w = v0\<lparr>uv_pim_hello_timer := 0\<rparr>"
    define s0 where "s0 = set_vif i w (set_vif i v0 st)"
    have s0: "pim_inv s0" "nbr_fresh s0 = nbr_fresh st" "uvifs s0 = (uvifs st)[i := w]" "i < length (uvifs s0)"
      using assms(2,3) by (simp_all add: s0_def set_vif_def hello_inv_def pim_inv_def)
    have n: "uv_pim_neighbors v0 = uv_pim_neighbors v" "uv_pim_neighbors w = uv_pim_neighbors v" "uv_flags w = uv_flags v0" by (simp_all add: v0_def w_def)
    obtain fs1 s1 where 1: "delete_nbrs env (uv_pim_neighbors v) s0 = Some (fs1, s1)"
      "st' = set_vif i ((uvifs (set_vif i ((uvifs s1 ! i)\<lparr>uv_pim_neighbors := []\<rparr>) s1) ! i)\<lparr>uv_addrs := [], uv_linklocal := None\<rparr>)
         (set_vif i ((uvifs s1 ! i)\<lparr>uv_pim_neighbors := []\<rparr>) s1)"
      using assms(1) False b(2) n(1) unfolding stop_vif_def Let_def v_def [symmetric] v0_def [symmetric] w_def [symmetric] s0_def [symmetric]
      by (auto simp: flag_bits Option.bind_eq_Some_conv)
    have "pim_inv s1 \<and> nbr_fresh s1 = nbr_fresh st \<and> (\<exists>v'. uvifs s1 = (uvifs st)[i := v'] \<and> \<not> bit (uv_flags v') 21 \<and> bit (uv_flags v') 8 \<and>
        bit (uv_flags v') 0 = bit (uv_flags v) 0)"
    proof (cases "uv_pim_neighbors v = []")
      case True
      then have "s1 = s0" "\<not> bit (uv_flags v) 21" using 1(1) inv by (simp_all add: vif_inv_def)
      then show ?thesis using s0 b n(3) by auto
    next
      case False
      have "\<forall>n \<in> set (uv_pim_neighbors v). nbr_vifi n = i" using inv by (simp add: vif_inv_def)
      then show ?thesis using delete_nbrs_frame [OF 1(1) s0(1,4) _ _ False] s0 n b by auto
    qed
    then obtain v' where v': "pim_inv s1" "nbr_fresh s1 = nbr_fresh st" "uvifs s1 = (uvifs st)[i := v']" "\<not> bit (uv_flags v') 21" "bit (uv_flags v') 8"
      "bit (uv_flags v') 0 = bit (uv_flags v) 0" by blast
    then show ?thesis using assms(3)
      by (intro exI [of _ s1] exI [of _ "v'\<lparr>uv_pim_neighbors := [], uv_addrs := [], uv_linklocal := None\<rparr>"]) (simp add: 1(2) set_vif_def)
  qed
  then obtain s1 v1 where r: "st' = set_vif i v1 s1" "pim_inv s1" "nbr_fresh s1 = nbr_fresh st" "uv_pim_neighbors v1 = []" "uv_linklocal v1 = None"
      "\<not> bit (uv_flags v1) 21" "bit (uv_flags v1) 8" "(uvifs s1)[i := v1] = (uvifs st)[i := v1]" "bit (uv_flags v1) 0 = bit (uv_flags (uvifs st ! i)) 0"
    by (auto simp: v_def)
  have "vif_inv (nbr_fresh st) i v1" using r(4-7) by (simp add: vif_inv_def vif_off_bits)
  then have "hello_inv (set_vif i v1 st)" by (rule hello_inv_set_vif [OF assms(2)])
  moreover have "uvifs st' = (uvifs st)[i := v1]" "pim_inv st'" "nbr_fresh st' = nbr_fresh st"
    using r(1-3,8) assms(2) by (simp_all add: set_vif_def pim_inv_def hello_inv_def)
  ultimately have "hello_inv st'" by (elim hello_inv_core) (simp_all add: set_vif_def)
  then show ?thesis using r(4,5,9) \<open>uvifs st' = (uvifs st)[i := v1]\<close> by blast
qed

section \<open>What a hello message says\<close>

definition add_addr :: "in6_addr \<Rightarrow> in6_addr \<Rightarrow> sockaddr_in6 list \<Rightarrow> sockaddr_in6 list" where
  "add_addr src a addrs =
     (if a = src then addrs else if list_ex (\<lambda>x. sin6_addr x = a) addrs then addrs else \<lparr>sin6_addr = a, sin6_scope_id = 0\<rparr> # addrs)"

definition eu_of :: "in6_addr \<Rightarrow> pim6_encod_uni_addr" where
  "eu_of a = \<lparr>eu_family = ADDRF_IPv6, eu_type = ADDRT_IPv6, unicast_addr = a\<rparr>"

lemma eu_of: "unicast_addr (eu_of a) = a" "eu_family (eu_of a) = ADDRF_IPv6" "eu_type (eu_of a) = ADDRT_IPv6"
  by (simp_all add: eu_of_def)

lemma parse_addrs_enc:
  assumes "\<forall>a \<in> set as. length a = 16" and "drop p buf = concat (map PUT_EUADDR6 as) @ rest" and "p \<le> length buf"
  shows "parse_addrs buf src (p + 18 * length as) p addrs = Some (Some (fold (add_addr src) as addrs))"
  using assms
proof (induction as arbitrary: p addrs)
  case Nil
  then show ?case by (simp add: parse_addrs.simps)
next
  case (Cons a as)
  have ok: "eu_family (eu_of a) = ADDRF_IPv6 \<and> eu_type (eu_of a) = ADDRT_IPv6 \<and> length (unicast_addr (eu_of a)) = 16"
    using Cons.prems(1) by (simp add: eu_of)
  have d: "drop p buf = PUT_EUADDR6 (unicast_addr (eu_of a)) @ (concat (map PUT_EUADDR6 as) @ rest)" using Cons.prems(2) by (simp add: eu_of)
  note g = eu.get_at [OF ok d Cons.prems(3)] and n = eu.drop_at [OF ok d] and f = eu.fits [OF ok d Cons.prems(3)]
  have "rd buf p = Some ADDRF_IPv6" using d f nth_drop [of p buf 0] by (simp add: rd_def PUT_EUADDR6_def)
  moreover have "parse_addrs buf src (p + 18 + 18 * length as) (p + 18) (add_addr src a addrs) =
      Some (Some (fold (add_addr src) as (add_addr src a addrs)))" using Cons.IH [OF _ n f] Cons.prems(1) by simp
  ultimately show ?case using g by (subst parse_addrs.simps) (simp add: eu_of Let_def add_addr_def [symmetric] add.assoc)
qed

lemma add_addr_set: "set (add_addr src a addrs) = set addrs \<union> (if a = src \<or> a \<in> sin6_addr ` set addrs then {} else {\<lparr>sin6_addr = a, sin6_scope_id = 0\<rparr>})"
  by (auto simp: add_addr_def list_ex_iff)

lemma fold_add_addr:
  assumes "\<forall>x \<in> set addrs. sin6_scope_id x = 0"
  shows "set (fold (add_addr src) as addrs) = set addrs \<union> (\<lambda>a. \<lparr>sin6_addr = a, sin6_scope_id = 0\<rparr>) ` (set as - {src})"
    "distinct addrs \<Longrightarrow> distinct (fold (add_addr src) as addrs)"
proof -
  have "set (fold (add_addr src) as addrs) = set addrs \<union> (\<lambda>a. \<lparr>sin6_addr = a, sin6_scope_id = 0\<rparr>) ` (set as - {src}) \<and>
    (distinct addrs \<longrightarrow> distinct (fold (add_addr src) as addrs))" using assms
  proof (induction as arbitrary: addrs)
    case (Cons a as)
    have s: "\<lparr>sin6_addr = a, sin6_scope_id = 0\<rparr> \<in> set addrs" if "a \<in> sin6_addr ` set addrs" using that Cons.prems by (metis (mono_tags) imageE sockaddr_in6.surjective old.unit.exhaust)
    have z: "\<forall>x \<in> set (add_addr src a addrs). sin6_scope_id x = 0" using Cons.prems by (auto simp: add_addr_set)
    have d: "distinct addrs \<longrightarrow> distinct (add_addr src a addrs)" by (auto simp: add_addr_def list_ex_iff)
    show ?case using Cons.IH [OF z] d s by (auto simp: add_addr_set split: if_splits)
  qed simp
  then show "set (fold (add_addr src) as addrs) = set addrs \<union> (\<lambda>a. \<lparr>sin6_addr = a, sin6_scope_id = 0\<rparr>) ` (set as - {src})"
    "distinct addrs \<Longrightarrow> distinct (fold (add_addr src) as addrs)" by simp_all
qed

text \<open>One option with the list of addresses.\<close>

lemma parse_addr_option:
  assumes "\<forall>a \<in> set as. length a = 16" and "18 * length as < 65536" and "ty = PIM_MESSAGE_HELLO_ADDR_LIST \<or> ty = PIM_MESSAGE_HELLO_ADDRESSES"
    and "drop p buf = PUT_HOSTSHORT ty @ PUT_HOSTSHORT (of_nat (18 * length as)) @ concat (map PUT_EUADDR6 as) @ rest" and "p \<le> length buf"
    and "p + 4 + 18 * length as \<le> end"
  shows "parse_options buf src end p ok opts =
      parse_options buf src end (p + 4 + 18 * length as) ok (opts\<lparr>opt_addrs := fold (add_addr src) as (opt_addrs opts)\<rparr>)"
    "drop (p + 4 + 18 * length as) buf = rest" "p + 4 + 18 * length as \<le> length buf"
proof -
  define w :: u16 where "w = of_nat (18 * length as)"
  note d = assms(4) [folded w_def]
  note g1 = hs.get_at [OF TrueI d assms(5)] and n1 = hs.drop_at [OF TrueI d] and f1 = hs.fits [OF TrueI d assms(5)]
  note g2 = hs.get_at [OF TrueI n1 f1] and n2 = hs.drop_at [OF TrueI n1] and f2 = hs.fits [OF TrueI n1 f1]
  have n3: "drop (p + 4) buf = concat (map PUT_EUADDR6 as) @ rest" "p + 4 \<le> length buf"
    using n2 f2 unfolding add.assoc [of p 2 2] by simp_all
  have u: "unat w = 18 * length as" unfolding w_def using assms(2) by (subst unat_of_nat) (simp only: len_num1 len_bit0, simp)
  have t: "ty \<noteq> PIM_MESSAGE_HELLO_HOLDTIME" "ty = PIM_MESSAGE_HELLO_ADDRESSES \<or> ty = PIM_MESSAGE_HELLO_ADDR_LIST"
    using assms(3) by (auto simp: PIM_MESSAGE_HELLO_HOLDTIME_def PIM_MESSAGE_HELLO_ADDRESSES_def PIM_MESSAGE_HELLO_ADDR_LIST_def)
  note pa = parse_addrs_enc [OF assms(1) n3, of src "opt_addrs opts"]
  show "parse_options buf src end p ok opts =
      parse_options buf src end (p + 4 + 18 * length as) ok (opts\<lparr>opt_addrs := fold (add_addr src) as (opt_addrs opts)\<rparr>)"
    using g1 g2 t pa assms(6) by (subst parse_options.simps) (simp add: u)
  have l: "length (concat (map PUT_EUADDR6 as)) = 18 * length as" using assms(1) by (induction as) (auto simp: PUT_EUADDR6_def)
  have "drop (18 * length as) (drop (p + 4) buf) = rest" unfolding n3(1) using l by simp
  then show "drop (p + 4 + 18 * length as) buf = rest" by (simp add: add.commute)
  have "length (drop (p + 4) buf) \<ge> 18 * length as" unfolding n3(1) using l by simp
  then show "p + 4 + 18 * length as \<le> length buf" using n3(2) by simp
qed

lemma fold_add_addr_twice:
  "\<forall>x \<in> set addrs. sin6_scope_id x = 0 \<Longrightarrow> set (fold (add_addr src) as (fold (add_addr src) as addrs)) = set addrs \<union> (\<lambda>a. \<lparr>sin6_addr = a, sin6_scope_id = 0\<rparr>) ` (set as - {src})"
  using fold_add_addr(1) [of "fold (add_addr src) as addrs" src as] by (simp add: fold_add_addr(1) [of addrs src as] ball_Un)

text \<open>
  C19. A hello message is understood as it was meant: whatever follows it in the buffer, the receiver finds the holdtime of the
  sender and exactly the further addresses of its interface, each of them once, although the list is sent under two options.
\<close>

theorem hello_roundtrip:
  assumes "\<forall>pa \<in> set (uv_addrs v). length (sin6_addr (pa_addr pa)) = 16" and "18 * length (uv_addrs v) < 65536" and "length hdr = 4"
  shows "\<exists>opts. parse_pim6_hello (hdr @ hello_message ll v hold @ junk) (4 + length (hello_message ll v hold)) src = Some (Some opts) \<and>
    opt_holdtime opts = hold \<and> distinct (opt_addrs opts) \<and>
    set (opt_addrs opts) = {\<lparr>sin6_addr = a, sin6_scope_id = 0\<rparr> |a. a \<noteq> sin6_addr src \<and> (\<exists>pa \<in> set (uv_addrs v). pa_addr pa \<noteq> ll \<and> a = sin6_addr (pa_addr pa))}"
proof -
  define as where "as = map (\<lambda>pa. sin6_addr (pa_addr pa)) (filter (\<lambda>pa. \<not> inet6_equal ll (pa_addr pa)) (uv_addrs v))"
  let ?s = "sin6_addr src"
  define buf where "buf = hdr @ hello_message ll v hold @ junk"
  define e where "e = 4 + length (hello_message ll v hold)"
  have ha: "hello_addrs ll v = concat (map PUT_EUADDR6 as)" by (simp add: hello_addrs_def as_def comp_def)
  have a16: "\<forall>a \<in> set as. length a = 16" using assms(1) by (auto simp: as_def)
  have l: "length (concat (map PUT_EUADDR6 as)) = 18 * length as" using a16 by (induction as) (auto simp: PUT_EUADDR6_def)
  have "length as \<le> length (uv_addrs v)" by (simp add: as_def)
  then have n: "18 * length as < 65536" using assms(2) by linarith
  define tl where "tl = (if as = [] then [] else PUT_HOSTSHORT PIM_MESSAGE_HELLO_ADDR_LIST @ PUT_HOSTSHORT (of_nat (18 * length as)) @ concat (map PUT_EUADDR6 as) @
    PUT_HOSTSHORT PIM_MESSAGE_HELLO_ADDRESSES @ PUT_HOSTSHORT (of_nat (18 * length as)) @ concat (map PUT_EUADDR6 as))"
  have msg: "hello_message ll v hold = PUT_HOSTSHORT PIM_MESSAGE_HELLO_HOLDTIME @ PUT_HOSTSHORT PIM_MESSAGE_HELLO_HOLDTIME_LENGTH @ PUT_HOSTSHORT hold @ tl"
    unfolding hello_message_def Let_def ha l tl_def by (cases as) simp_all
  have e: "e = 10 + length tl" by (simp add: e_def msg PUT_HOSTSHORT_def)
  have d0: "drop 4 buf = PUT_HOSTSHORT PIM_MESSAGE_HELLO_HOLDTIME @ PUT_HOSTSHORT PIM_MESSAGE_HELLO_HOLDTIME_LENGTH @ PUT_HOSTSHORT hold @ tl @ junk"
    "4 \<le> length buf" using assms(3) by (simp_all add: buf_def msg)
  note g1 = hs.get_at [OF TrueI d0] and n1 = hs.drop_at [OF TrueI d0(1)] and f1 = hs.fits [OF TrueI d0]
  note g2 = hs.get_at [OF TrueI n1 f1] and n2 = hs.drop_at [OF TrueI n1] and f2 = hs.fits [OF TrueI n1 f1]
  note g3 = hs.get_at [OF TrueI n2 f2] and n3 = hs.drop_at [OF TrueI n2] and f3 = hs.fits [OF TrueI n2 f2]
  have d1: "drop 10 buf = tl @ junk" "10 \<le> length buf" using n3 f3 by simp_all
  define o1 where "o1 = \<lparr>opt_holdtime = hold, opt_addrs = []\<rparr>"
  have "parse_options buf ?s e 4 False \<lparr>opt_holdtime = 0, opt_addrs = []\<rparr> = parse_options buf ?s e 10 True o1"
    using g1 g2 g3 e by (subst parse_options.simps) (simp add: o1_def)
  then have p1: "parse_pim6_hello buf e src = parse_options buf ?s e 10 True o1" by (simp add: parse_pim6_hello_def sizeof_pim_def)
  define o2 where "o2 = o1\<lparr>opt_addrs := fold (add_addr ?s) as (fold (add_addr ?s) as [])\<rparr>"
  have fin: "parse_options buf ?s e e True os = Some (Some os)" for os by (subst parse_options.simps) simp
  have "parse_options buf ?s e 10 True o1 = Some (Some o2)"
  proof (cases "as = []")
    case True
    then show ?thesis using fin [of o1] e by (simp add: tl_def o2_def o1_def)
  next
    case False
    have t1: "drop 10 buf = PUT_HOSTSHORT PIM_MESSAGE_HELLO_ADDR_LIST @ PUT_HOSTSHORT (of_nat (18 * length as)) @ concat (map PUT_EUADDR6 as) @
        (PUT_HOSTSHORT PIM_MESSAGE_HELLO_ADDRESSES @ PUT_HOSTSHORT (of_nat (18 * length as)) @ concat (map PUT_EUADDR6 as) @ junk)"
      using d1(1) False by (simp add: tl_def)
    have e2: "e = 10 + 4 + 18 * length as + 4 + 18 * length as" using e False l by (simp add: tl_def PUT_HOSTSHORT_def)
    have le: "10 + 4 + 18 * length as \<le> e" by (simp add: e2)
    note r1 = parse_addr_option [OF a16 n disjI1 [OF refl] t1 d1(2) le]
    note r2 = parse_addr_option [OF a16 n disjI2 [OF refl] r1(2,3) eq_refl [OF e2 [symmetric]]]
    show ?thesis unfolding r1(1) r2(1) unfolding e2 [symmetric] fin by (simp add: o2_def o1_def)
  qed
  then have "parse_pim6_hello buf e src = Some (Some o2)" using p1 by simp
  moreover have "opt_holdtime o2 = hold" by (simp add: o2_def o1_def)
  moreover have "distinct (opt_addrs o2)"
    using fold_add_addr(2) [of "[]" ?s as] fold_add_addr(2) [of "fold (add_addr ?s) as []" ?s as] fold_add_addr(1) [of "[]" ?s as] by (simp add: o2_def)
  moreover have "set (opt_addrs o2) = {\<lparr>sin6_addr = a, sin6_scope_id = 0\<rparr> |a. a \<noteq> ?s \<and> (\<exists>pa \<in> set (uv_addrs v). pa_addr pa \<noteq> ll \<and> a = sin6_addr (pa_addr pa))}"
    using fold_add_addr_twice [of "[]" ?s as] by (auto simp: o2_def as_def equal_eq)
  ultimately show ?thesis unfolding buf_def [symmetric] e_def [symmetric] by blast
qed

definition sample_addrs_vif :: uvif where
  "sample_addrs_vif = (sample_vif 1 [])\<lparr>uv_addrs := uv_addrs (sample_vif 1 []) @
     [\<lparr>pa_addr = sample_addr1, pa_rmt_addr = sockaddr6_any, pa_prefix = sample_addr1, pa_subnetmask = replicate 8 0xff @ replicate 8 0\<rparr>]\<rparr>"

theorem hello_roundtrip_witness:
  "\<exists>opts. parse_pim6_hello ([0x20, 0, 0, 0] @ hello_message (sample_ll 1) sample_addrs_vif 105 @ [7]) (4 + length (hello_message (sample_ll 1) sample_addrs_vif 105)) (sample_ll 1) =
     Some (Some opts) \<and> opt_holdtime opts = 105 \<and> sample_addr1 \<in> set (opt_addrs opts)"
proof -
  have a: "\<forall>pa \<in> set (uv_addrs sample_addrs_vif). length (sin6_addr (pa_addr pa)) = 16" "18 * length (uv_addrs sample_addrs_vif) < 65536"
    by (simp_all add: sample_addrs_vif_def sample_vif_def sample_ll_def sample_addr1_def)
  have "\<exists>pa \<in> set (uv_addrs sample_addrs_vif). pa_addr pa \<noteq> sample_ll 1 \<and> pa_addr pa = sample_addr1" "sin6_addr sample_addr1 \<noteq> sin6_addr (sample_ll 1)"
    "sample_addr1 = \<lparr>sin6_addr = sin6_addr sample_addr1, sin6_scope_id = 0\<rparr>"
    by (simp_all add: sample_addrs_vif_def sample_addr1_def sample_ll_def)
  then have "sample_addr1 \<in> {\<lparr>sin6_addr = a, sin6_scope_id = 0\<rparr> |a. a \<noteq> sin6_addr (sample_ll 1) \<and>
      (\<exists>pa \<in> set (uv_addrs sample_addrs_vif). pa_addr pa \<noteq> sample_ll 1 \<and> a = sin6_addr (pa_addr pa))}"
    by (intro CollectI exI [of _ "sin6_addr sample_addr1"]) (metis (no_types))
  then show ?thesis using hello_roundtrip [OF a, of "[0x20, 0, 0, 0]" "sample_ll 1" 105 "[7]" "sample_ll 1"] by auto
qed

end
