(* ===== verification/PIM_Daemon.thy ===== *)
theory PIM_Daemon
  imports PIM_Hello
begin

unbundle bit_operations_syntax

text \<open>
  The daemon as a step relation over its messages and timers (\<^verbatim>\<open>pim_step\<close>), the invariant of its reachable states, the
  choice of the designated router of a link, and what happens to an interface that goes down and up again.
\<close>

lemma start_vif_inv:
  assumes "start_vif r i st = Some (fs, st')" and "hello_inv st" and "i < length (uvifs st)" and "vif_off (uvifs st ! i)"
  shows "hello_inv st'"
proof -
  define v where "v = uvifs st ! i"
  have inv: "vif_inv (nbr_fresh st) i v" using assms(2,3) by (simp add: hello_inv_def v_def)
  have n: "uv_pim_neighbors v = []" "\<not> bit (uv_flags v) 21" "vif_off v" using inv assms(4) by (simp_all add: vif_inv_def v_def)
  have ad: "in6_ok ll \<and> ll \<in> pa_addr ` set (uv_addrs v)" if "uv_linklocal v = Some ll" for ll using inv that by (simp add: vif_inv_def)
  show ?thesis
  proof (cases "bit (uv_flags v) 0")
    case True
    then have "st' = set_vif i (v\<lparr>uv_flags := uv_flags v AND NOT VIFF_DOWN\<rparr>) st"
      using assms(1) by (simp add: start_vif_def Let_def v_def [symmetric] flag_bits)
    moreover have "vif_inv (nbr_fresh st) i (v\<lparr>uv_flags := uv_flags v AND NOT VIFF_DOWN\<rparr>)"
      using n True ad by (simp add: vif_inv_def vif_off_bits bit_simps flag_bits)
    ultimately show ?thesis using hello_inv_set_vif [OF assms(2)] by simp
  next
    case False
    define w where "w = v\<lparr>uv_flags := (uv_flags v OR VIFF_DR OR VIFF_NONBRS) AND NOT VIFF_DOWN, uv_pim_hello_timer := of_nat (1 + r mod unat (pim_hello_period st))\<rparr>"
    define w' where "w' = w\<lparr>uv_flags := uv_flags w OR VIFF_QUERIER\<rparr>"
    obtain ll v2 where v2: "uv_linklocal w' = Some ll" "send_pim6_hello (pim_hello_period st) (pim_hello_holdtime st) w' = Some (fs, v2)" "st' = set_vif i v2 st"
      using assms(1) False unfolding start_vif_def Let_def v_def [symmetric] w_def [symmetric] w'_def [symmetric]
      by (auto simp: flag_bits Option.bind_eq_Some_conv)
    have f: "uv_linklocal w' = uv_linklocal v" "uv_addrs w' = uv_addrs v" "uv_pim_neighbors w' = []" "bit (uv_flags w') 18" "bit (uv_flags w') 19"
      "\<not> bit (uv_flags w') 21" using n by (simp_all add: w'_def w_def bit_simps flag_bits)
    have "vif_inv (nbr_fresh st) i w'" unfolding vif_inv_def f(1-3) using f(4-6) v2(1) ad by (simp add: f(1))
    then have "vif_inv (nbr_fresh st) i v2" using vif_inv_core [OF send_hello_core [OF v2(2)]] by simp
    then show ?thesis using hello_inv_set_vif [OF assms(2)] v2(3) by simp
  qed
qed

text \<open>Bootstrap messages, advertisements and their timers do not touch the interfaces but for counters.\<close>

lemma bootstrap_out_core: "bootstrap_out msg vs = Some (fs, vs') \<Longrightarrow> map vif_core vs' = map vif_core vs"
  by (induction vs arbitrary: fs vs') (auto simp: Option.bind_eq_Some_conv vif_core_def split: if_splits)

lemma create_bootstrap_core: "create_pim6_bootstrap_message st = Some (msg, st') \<Longrightarrow> uvifs st' = uvifs st \<and> nbr_fresh st' = nbr_fresh st"
  by (auto simp: create_pim6_bootstrap_message_def Let_def Option.bind_eq_Some_conv split: if_splits)

lemma send_bootstrap_core:
  assumes "send_pim6_bootstrap st = Some (fs, st')"
  shows "map vif_core (uvifs st') = map vif_core (uvifs st) \<and> nbr_fresh st' = nbr_fresh st"
  using assms create_bootstrap_core bootstrap_out_core
  by (auto simp: send_pim6_bootstrap_def Option.bind_eq_Some_conv split: if_splits)

lemma only_rps_core: "only_rps st st' \<Longrightarrow> uvifs st' = uvifs st \<and> nbr_fresh st' = nbr_fresh st"
  by (auto simp: only_rps_def)

lemma accept_bootstrap_core:
  "accept_bootstrap env mifi inc tag hl pri a buf n st = Some (fs, st') \<Longrightarrow> uvifs st' = uvifs st \<and> nbr_fresh st' = nbr_fresh st"
  by (auto simp: accept_bootstrap_def Let_def Option.bind_eq_Some_conv)

lemma receive_bootstrap_core:
  assumes "receive_pim6_bootstrap env src dst buf n st = Some (r, fs, st')"
  shows "map vif_core (uvifs st') = map vif_core (uvifs st) \<and> nbr_fresh st' = nbr_fresh st"
proof -
  let ?i = "find_vif_direct src (uvifs st)"
  let ?v = "(uvifs st ! ?i)\<lparr>uv_in_pim6_bootsrap := uv_in_pim6_bootsrap (uvifs st ! ?i) + 1\<rparr>"
  define s0 where "s0 = st\<lparr>uvifs := (uvifs st)[?i := ?v]\<rparr>"
  have "vif_core ?v = vif_core (uvifs st ! ?i)" by (simp add: vif_core_def)
  then have s0: "map vif_core (uvifs s0) = map vif_core (uvifs st)" "nbr_fresh s0 = nbr_fresh st"
    by (cases "?i < length (uvifs st)") (simp_all add: s0_def map_update list_update_same_conv list_update_beyond)
  have "st' = st \<or> st' = s0 \<or> (\<exists>inc tag hl pri a. accept_bootstrap env ?i inc tag hl pri a buf n s0 = Some (fs, st'))"
    using assms unfolding receive_pim6_bootstrap_def Let_def s0_def [symmetric]
    by (auto simp: Option.bind_eq_Some_conv split: if_splits option.splits)
  then show ?thesis using s0 accept_bootstrap_core by fastforce
qed

lemma age_misc_core:
  assumes "age_misc env i r st = Some (fs, st')" and "pim_inv st"
  shows "map vif_core (uvifs st') = map vif_core (uvifs st) \<and> nbr_fresh st' = nbr_fresh st"
proof -
  obtain fs1 rs fs2 s1 send b where a: "age_masks (env_uninit env) i (grp_mask_list (rps st) Current) (rps st) = Some (fs1, rs)"
    "age_cand_rp_adv env i (st\<lparr>rps := rs\<rparr>) = Some (fs2, s1)" "bootstrap_timeout i r (bs s1) = Some (send, b)"
    "(if send then \<exists>fs3. send_pim6_bootstrap (s1\<lparr>bs := b\<rparr>) = Some (fs3, st') else st' = s1\<lparr>bs := b\<rparr>)"
    using assms(1) by (auto simp: age_misc_def Let_def Option.bind_eq_Some_conv split: if_splits)
  have "rp_inv rs" using age_rps_ok [of "rps st" "env_uninit env" i] a(1) assms(2) by (auto simp: pim_inv_def)
  obtain e t where t: "TIMEOUT i (pim_cand_rp_adv_timer st) = (e, t)" by fastforce
  let ?s = "st\<lparr>rps := rs, pim_cand_rp_adv_timer := t\<rparr>"
  have "pim_inv ?s" using assms(2) \<open>rp_inv rs\<close> by (simp add: pim_inv_def)
  moreover have "s1 = st\<lparr>rps := rs\<rparr> \<or> s1 = ?s \<or> (\<exists>r f s. send_pim6_cand_rp_adv env ?s = Some (r, f, s) \<and> s1 = s\<lparr>pim_cand_rp_adv_timer := my_cand_rp_adv_period s\<rparr>)"
    using a(2) t by (auto simp: age_cand_rp_adv_def Let_def Option.bind_eq_Some_conv split: if_splits)
  ultimately have "uvifs s1 = uvifs st \<and> nbr_fresh s1 = nbr_fresh st" using send_cand_rp_adv_inv only_rps_core by fastforce
  then show ?thesis using a(4) send_bootstrap_core by (fastforce split: if_splits)
qed

section \<open>The daemon\<close>

text \<open>
  The messages and timers of the daemon in any order. Each step has its own environment. Hello messages do not come from the
  router itself.
\<close>

inductive pim_step :: "pim_state \<Rightarrow> pim_state \<Rightarrow> bool" where
  Bootstrap: "receive_pim6_bootstrap env src dst buf n st = Some (r, fs, st') \<Longrightarrow> pim_step st st'"
| Cand_rp_adv: "receive_pim6_cand_rp_adv env buf n st = Some (r, fs, st') \<Longrightarrow> pim_step st st'"
| Hello: "in6_ok src \<Longrightarrow> local_address src (uvifs st) = NO_VIF \<Longrightarrow> receive_pim6_hello env src buf n st = Some (r, fs, st') \<Longrightarrow> pim_step st st'"
| Misc: "age_misc env i rnd st = Some (fs, st') \<Longrightarrow> pim_step st st'"
| Vifs: "age_vifs env i st = Some (fs, st') \<Longrightarrow> pim_step st st'"
| Up: "i < length (uvifs st) \<Longrightarrow> vif_off (uvifs st ! i) \<Longrightarrow> start_vif rnd i st = Some (fs, st') \<Longrightarrow> pim_step st st'"
| Down: "i < length (uvifs st) \<Longrightarrow> stop_vif env i st = Some (fs, st') \<Longrightarrow> pim_step st st'"

inductive_cases pim_stepE: "pim_step st st'"

text \<open>
  The RPs of the configuration file (\<^verbatim>\<open>static_rp_config\<close> of \<^verbatim>\<open>cfparse.y\<close>); the list has the entries of \<^verbatim>\<open>static_rp\<close>.
\<close>

record staticrp =
  srp_paddr :: sockaddr_in6
  srp_plen :: byte
  srp_rpaddr :: sockaddr_in6
  srp_priority :: byte

fun static_rp_loop :: "sockaddr_in6 \<Rightarrow> route_lookup \<Rightarrow> nat \<Rightarrow> staticrp list \<Rightarrow> rp_state \<Rightarrow> rp_state option" where
  "static_rp_loop uninit route reg [] st = Some st"
| "static_rp_loop uninit route reg (entry # al) st = do {
     grp_mask \<leftarrow> MASKLEN_TO_MASK6 (unat (srp_plen entry));
     bsr_mask \<leftarrow> MASKLEN_TO_MASK6 8;
     (_, _, st) \<leftarrow> add_rp_grp_entry uninit route reg Current (srp_rpaddr entry) (srp_priority entry) RP_ORIGIN_STATIC TIMER_INFINITY
                    (srp_paddr entry) grp_mask bsr_mask 0 st;
     static_rp_loop uninit route reg al st }"

definition static_rp_config ::
  "sockaddr_in6 \<Rightarrow> route_lookup \<Rightarrow> nat \<Rightarrow> bool \<Rightarrow> bool \<Rightarrow> staticrp list \<Rightarrow> rp_state \<Rightarrow> (int \<times> rp_state) option" where
  "static_rp_config uninit route reg cand_rp cand_bsr static_rp st =
     (if cand_rp \<and> static_rp \<noteq> [] then Some (-1, st)
      else if cand_bsr \<and> static_rp \<noteq> [] then Some (-1, st)
      else do { st \<leftarrow> static_rp_loop uninit route reg static_rp st; Some (0, st) })"

lemma static_rp_loop_inv:
  "static_rp_loop uninit route reg al st = Some st' \<Longrightarrow> rp_inv st \<Longrightarrow> \<forall>entry \<in> set al. in6_ok (srp_rpaddr entry) \<Longrightarrow> rp_inv st'"
proof (induction al arbitrary: st)
  case (Cons entry al)
  then obtain gm bm e fs st1 where "add_rp_grp_entry uninit route reg Current (srp_rpaddr entry) (srp_priority entry) RP_ORIGIN_STATIC
      TIMER_INFINITY (srp_paddr entry) gm bm 0 st = Some (e, fs, st1)" "static_rp_loop uninit route reg al st1 = Some st'"
    by (auto simp: Option.bind_eq_Some_conv)
  moreover from this have "rp_step uninit route reg st st1" using Cons.prems(3) by (intro rp_step.Add) auto
  ultimately show ?case using Cons.IH [of st1] Cons.prems(2,3) rp_step_inv by auto
qed simp

lemma static_rp_config_inv:
  "static_rp_config uninit route reg cand_rp cand_bsr al st = Some (r, st') \<Longrightarrow> rp_inv st \<Longrightarrow>
    \<forall>entry \<in> set al. in6_ok (srp_rpaddr entry) \<Longrightarrow> rp_inv st'"
  using static_rp_loop_inv by (auto simp: static_rp_config_def Option.bind_eq_Some_conv split: if_splits)

text \<open>
  The state after the configuration has been read and \<^verbatim>\<open>start_all_vifs\<close> has run, before any message: the RP set is what
  \<^verbatim>\<open>static_rp_config\<close> makes of the empty one, and the interfaces that are up have no neighbours and the flags that
  \<^verbatim>\<open>start_vif\<close> sets. The interfaces themselves come from the kernel.
\<close>

definition pim_started :: "pim_state \<Rightarrow> bool" where
  "pim_started st \<longleftrightarrow>
     (\<exists>st0 uninit route reg cand_rp cand_bsr al r. rp_empty st0 \<and> (\<forall>entry \<in> set al. in6_ok (srp_rpaddr entry)) \<and>
        static_rp_config uninit route reg cand_rp cand_bsr al st0 = Some (r, rps st)) \<and>
     in6_ok (curr_bsr_address (bs st)) \<and> in6_ok (my_bsr_address (bs st)) \<and> in6_ok (my_cand_rp_address st) \<and>
     length (uvifs st) \<le> NO_VIF \<and>
     (\<forall>v \<in> set (uvifs st). uv_pim_neighbors v = [] \<and> uv_flags v AND VIFF_PIM_NBR = 0 \<and>
        (\<forall>ll. uv_linklocal v = Some ll \<longrightarrow> in6_ok ll \<and> ll \<in> pa_addr ` set (uv_addrs v)) \<and>
        (\<not> vif_off v \<longrightarrow> uv_linklocal v \<noteq> None \<and> uv_flags v AND VIFF_DR \<noteq> 0 \<and> uv_flags v AND VIFF_NONBRS \<noteq> 0))"

lemma pim_started_inv:
  assumes "pim_started st"
  shows "hello_inv st"
proof -
  have "rp_inv (rps st)" using assms static_rp_config_inv rp_empty_inv unfolding pim_started_def by blast
  then show ?thesis using assms by (auto simp: pim_started_def hello_inv_def pim_inv_def vif_inv_def flag_bits)
qed

lemma pim_step_inv:
  assumes "pim_step st st'" and "hello_inv st"
  shows "hello_inv st'"
  using assms(1)
proof cases
  case Bootstrap
  have "pim_inv st'" using receive_bootstrap_cases [OF Bootstrap] assms(2) by (simp add: hello_inv_def)
  then show ?thesis using hello_inv_core [OF assms(2)] receive_bootstrap_core [OF Bootstrap] by simp
next
  case Cand_rp_adv
  have "only_rps st st'" using receive_cand_rp_adv_inv [OF Cand_rp_adv] assms(2) by (simp add: hello_inv_def)
  then show ?thesis using hello_inv_core [OF assms(2)] only_rps_core only_rps_inv assms(2) by (simp add: hello_inv_def)
next
  case Hello
  then show ?thesis using receive_hello_inv assms(2) by blast
next
  case Misc
  have "pim_inv st" using assms(2) by (simp add: hello_inv_def)
  then show ?thesis using hello_inv_core [OF assms(2)] age_misc_inv [OF Misc] age_misc_core [OF Misc] by simp
next
  case (Vifs env i fs)
  then show ?thesis using age_vif_list_spec [of env i "[0..<length (uvifs st)]" st fs st'] assms(2) by (simp add: age_vifs_def atLeast0LessThan)
next
  case Up
  then show ?thesis using start_vif_inv assms(2) by blast
next
  case Down
  then show ?thesis using stop_vif_inv assms(2) by blast
qed

lemma pim_reach_inv: "pim_step\<^sup>*\<^sup>* st st' \<Longrightarrow> hello_inv st \<Longrightarrow> hello_inv st'"
  by (induction rule: rtranclp_induct) (auto intro: pim_step_inv)

section \<open>The designated router\<close>

text \<open>
  C6. From the start of the daemon, with any configured RPs, whatever bootstrap messages, advertisements and hello messages come in, however time passes and
  interfaces go up and down: the neighbours of an interface are kept in descending order, none twice; the flags of an
  interface that is up say exactly whether it has neighbours and whether this router has the greatest address on
  the link and so is the designated one; the RP set keeps its invariant and an RP can be chosen for every group.
\<close>

theorem pim_reach_safe:
  assumes "pim_started st0" and "pim_step\<^sup>*\<^sup>* st0 st"
  shows "(\<forall>v \<in> set (uvifs st). sorted_wrt (\<lambda>a b. inet6_greaterthan (nbr_address a) (nbr_address b)) (uv_pim_neighbors v) \<and>
      (\<not> vif_off v \<longrightarrow> (\<exists>ll. uv_linklocal v = Some ll \<and>
        (uv_flags v AND VIFF_DR \<noteq> 0 \<longleftrightarrow> (\<forall>n \<in> set (uv_pim_neighbors v). inet6_greaterthan ll (nbr_address n))) \<and>
        (uv_flags v AND VIFF_NONBRS \<noteq> 0 \<longleftrightarrow> uv_pim_neighbors v = []) \<and>
        (uv_flags v AND VIFF_PIM_NBR \<noteq> 0 \<longleftrightarrow> uv_pim_neighbors v \<noteq> [])))) \<and>
    rp_inv (rps st) \<and> (\<forall>uninit grp. rp_match uninit grp (rps st) \<noteq> None)"
proof -
  have inv: "hello_inv st" using pim_reach_inv [OF assms(2) pim_started_inv [OF assms(1)]] .
  then have rp: "rp_inv (rps st)" by (simp add: hello_inv_def pim_inv_def)
  have v: "sorted_wrt (\<lambda>a b. inet6_greaterthan (nbr_address a) (nbr_address b)) (uv_pim_neighbors v) \<and>
      (\<not> vif_off v \<longrightarrow> (\<exists>ll. uv_linklocal v = Some ll \<and>
        (uv_flags v AND VIFF_DR \<noteq> 0 \<longleftrightarrow> (\<forall>n \<in> set (uv_pim_neighbors v). inet6_greaterthan ll (nbr_address n))) \<and>
        (uv_flags v AND VIFF_NONBRS \<noteq> 0 \<longleftrightarrow> uv_pim_neighbors v = []) \<and>
        (uv_flags v AND VIFF_PIM_NBR \<noteq> 0 \<longleftrightarrow> uv_pim_neighbors v \<noteq> [])))" if m: "v \<in> set (uvifs st)" for v
  proof -
    obtain i where i: "vif_inv (nbr_fresh st) i v" using inv m unfolding hello_inv_def in_set_conv_nth by metis
    have "sorted_wrt (\<lambda>a b. inet6_greaterthan (nbr_address a) (nbr_address b)) (uv_pim_neighbors v)"
      by (rule sorted_wrt_mono_rel [of _ "\<lambda>a b. addr_key (nbr_address a) < addr_key (nbr_address b)"]) (use i addr_key_greater in \<open>auto simp: vif_inv_def\<close>)
    then show ?thesis using i by (auto simp: vif_inv_def flag_bits greaterthan_less)
  qed
  have "rp_match uninit grp (rps st) \<noteq> None" for uninit grp
    using rp_match_determined [of "rps st" "rps st" uninit grp uninit] rp by (simp add: rp_inv_def)
  then show ?thesis using v rp by blast
qed

text \<open>Two routers on one link that hear each other.\<close>

definition sample_started :: "byte \<Rightarrow> pim_state" where
  "sample_started k = (sample_router k [] rps_none 9)\<lparr>uvifs := [(sample_vif k [])\<lparr>uv_flags := VIFF_DR OR VIFF_NONBRS\<rparr>],
     bs := (sample_bsr 9)\<lparr>curr_bsr_address := sockaddr6_any\<rparr>\<rparr>"

definition sample_hello :: "byte list" where
  "sample_hello = [0x20, 0, 0, 0, 0, 1, 0, 2, 0, 105]"

lemma no_static_rps:
  "\<exists>st0 uninit route reg cand_rp cand_bsr al r. rp_empty st0 \<and> (\<forall>entry \<in> set al. in6_ok (srp_rpaddr entry)) \<and>
     static_rp_config uninit route reg cand_rp cand_bsr al st0 = Some (r, rps_none)"
  by (rule exI [of _ rps_none], rule exI [of _ sample_addr1], rule exI [of _ "\<lambda>_. None"], rule exI [of _ 0], rule exI [of _ False],
      rule exI [of _ False], rule exI [of _ "[]"]) (simp add: rps_none_empty static_rp_config_def)

lemma sample_started_ok: "pim_started (sample_started k)"
  using no_static_rps
  by (auto simp: pim_started_def sample_started_def sample_router_def sample_vif_def sample_ll_def in6_ok_def sample_bsr_def sample_addr1_def
    sample_addr2_def sockaddr6_any_def NO_VIF_def VIFF_DR_def VIFF_NONBRS_def VIFF_PIM_NBR_def)

lemma send_hello_small:
  "uv_linklocal v = Some ll \<Longrightarrow> hello_addrs ll v = [] \<Longrightarrow> \<exists>fs. send_pim6_hello p h v =
     Some (fs, v\<lparr>uv_pim_hello_timer := p, uv_out_pim6_hello := uv_out_pim6_hello v + 1\<rparr>)"
  by (simp add: send_pim6_hello_def hello_message_def Let_def PUT_HOSTSHORT_def sizeof_pim_def RECV_BUF_SIZE_def)

lemma new_nbr_defined:
  assumes "uv_linklocal (uvifs st ! i) = Some ll" and "hello_addrs ll (uvifs st ! i) = []" and "i < length (uvifs st)"
    and "IN6_IS_ADDR_UNSPECIFIED (sin6_addr (curr_bsr_address (bs st)))"
  shows "\<exists>fs st' v'. new_pim6_nbr env src i opts ps rs st = Some (fs, st') \<and> uvifs st' = (uvifs st)[i := v'] \<and> uv_linklocal v' = Some ll"
proof -
  let ?v = "(uvifs st ! i)\<lparr>uv_pim_neighbors := ps @ set_pim6_nbr_param \<lparr>nbr_ptr = nbr_fresh st, nbr_address = src, aux_addrs = [], nbr_vifi = i, nbr_timer = 0\<rparr> opts # rs,
    uv_flags := (uv_flags (uvifs st ! i) AND NOT VIFF_NONBRS) OR VIFF_PIM_NBR\<rparr>"
  have "hello_addrs ll ?v = []" using assms(2) by (simp add: hello_addrs_def)
  then obtain fs where "send_pim6_hello (pim_hello_period st) (pim_hello_holdtime st) ?v =
      Some (fs, ?v\<lparr>uv_pim_hello_timer := pim_hello_period st, uv_out_pim6_hello := uv_out_pim6_hello ?v + 1\<rparr>)" using send_hello_small [of ?v ll] assms(1) by auto
  then show ?thesis using assms(1,3,4)
    by (auto simp: new_pim6_nbr_def Let_def set_vif_def create_pim6_bootstrap_message_def)
qed

lemma sample_hears:
  assumes "(k, j) \<in> {(1, 2), (2, 1)}"
  shows "\<exists>st. pim_step (sample_started k) st \<and> (\<exists>v. uvifs st = [v] \<and> uv_linklocal v = Some (sample_ll k) \<and> \<not> vif_off v \<and>
    nbr_address ` set (uv_pim_neighbors v) = {sample_ll j} \<and> map nbr_timer (uv_pim_neighbors v) = [105])"
proof -
  define s where "s = sample_started k"
  have inv: "hello_inv s" unfolding s_def by (rule pim_started_inv [OF sample_started_ok])
  have c: "find_vif_direct (sample_ll j) (uvifs s) = 0" "local_address (sample_ll j) (uvifs s) = NO_VIF" "sample_ll k \<noteq> sample_ll j"
    "parse_pim6_hello sample_hello 10 (sample_ll j) = Some (Some \<lparr>opt_holdtime = 105, opt_addrs = []\<rparr>)"
    using assms unfolding s_def by (elim insertE emptyE Pair_inject; hypsubst; code_simp)+
  define v where "v = (uvifs s ! 0)\<lparr>uv_in_pim6_hello := uv_in_pim6_hello (uvifs s ! 0) + 1\<rparr>"
  define s0 where "s0 = set_vif 0 v s"
  have v: "uv_pim_neighbors v = []" "uv_linklocal v = Some (sample_ll k)" "\<not> vif_off v" "hello_addrs (sample_ll k) v = []" "uvifs s0 = [v]"
    "vif_core v = vif_core (uvifs s ! 0)"
    by (simp_all add: v_def s0_def set_vif_def s_def sample_started_def sample_vif_def vif_off_bits flag_bits bit_simps hello_addrs_def equal_eq vif_core_def)
  have l: "length (uvifs s) = 1" by (simp add: s_def sample_started_def)
  have "vif_inv (nbr_fresh s) 0 v" unfolding vif_inv_core [OF v(6)] using inv l by (simp add: hello_inv_def)
  then have s0: "hello_inv s0" unfolding s0_def by (intro hello_inv_set_vif [OF inv])
  have b: "IN6_IS_ADDR_UNSPECIFIED (sin6_addr (curr_bsr_address (bs s0)))"
    by (simp add: s0_def set_vif_def s_def sample_started_def sockaddr6_any_def) code_simp
  obtain fs st' v' where n: "new_pim6_nbr sample_env (sample_ll j) 0 \<lparr>opt_holdtime = 105, opt_addrs = []\<rparr> [] [] s0 = Some (fs, st')" "uvifs st' = [v']" "uv_linklocal v' = Some (sample_ll k)"
    using new_nbr_defined [of s0 0 "sample_ll k" sample_env "sample_ll j" _ "[]" "[]"] v b by fastforce
  have ok: "in6_ok (sample_ll j)" by (simp add: in6_ok_def sample_ll_def)
  have "NO_VIF \<noteq> 0" by (simp add: NO_VIF_def)
  then have "receive_pim6_hello sample_env (sample_ll j) sample_hello 10 s = Some (True, fs, st')"
    unfolding receive_pim6_hello_def Let_def c(1) v_def [symmetric] s0_def [symmetric] using v(1,3) c(4) n(1) by simp
  then have "pim_step s st'" using c(2) ok by (intro pim_step.Hello)
  moreover have nn: "hello_inv st'" "\<exists>n. nbr_address n = sample_ll j \<and> nbr_timer n = 105 \<and> uv_pim_neighbors v' = [n]"
    using new_nbr_inv [OF n(1) s0] v ok c(3) n(2) by auto
  moreover have "\<not> vif_off v'" using nn n(2) by (auto simp: hello_inv_def vif_inv_def split: if_splits)
  ultimately show ?thesis unfolding s_def using n(2,3) by (intro exI [of _ st'] conjI exI [of _ v']) auto
qed

theorem pim_reach_safe_witness:
  "\<exists>st v. pim_step\<^sup>*\<^sup>* (sample_started 1) st \<and> uvifs st = [v] \<and> uv_flags v AND VIFF_DR = 0 \<and> uv_flags v AND VIFF_NONBRS = 0 \<and> rp_match sample_addr1 sample_group (rps st) \<noteq> None"
proof -
  obtain st v where s: "pim_step (sample_started 1) st" "uvifs st = [v]" "uv_linklocal v = Some (sample_ll 1)" "\<not> vif_off v"
    "nbr_address ` set (uv_pim_neighbors v) = {sample_ll 2}" using sample_hears [of 1 2] by auto
  have "\<not> inet6_greaterthan (sample_ll 1) (sample_ll 2)" by code_simp
  moreover have "\<exists>n \<in> set (uv_pim_neighbors v). nbr_address n = sample_ll 2" using s(5) by (metis imageE singletonI)
  ultimately show ?thesis using pim_reach_safe [OF sample_started_ok r_into_rtranclp [of pim_step, OF s(1)]] s r_into_rtranclp [of pim_step, OF s(1)]
    by (intro exI [of _ st] exI [of _ v]) auto
qed

lemma same_scope_greater:
  assumes "length a = 16" and "length b = 16"
  shows "inet6_greaterthan \<lparr>sin6_addr = a, sin6_scope_id = s\<rparr> \<lparr>sin6_addr = b, sin6_scope_id = s\<rparr> \<longleftrightarrow> in6_num b < in6_num a"
  using assms by (simp add: greaterthan_less key_less in6_ok_def in6_key_def)

text \<open>
  C9. There is exactly one designated router on a link: when \<^verbatim>\<open>n\<close> routers have heard the hello messages of each other and of nobody
  else (each knows the addresses of the others, with the scope of its own interface), exactly one of them has
  \<^verbatim>\<open>VIFF_DR\<close> set on that interface. The routers are in any states that they can reach from their start.
\<close>

theorem one_designated_router:
  fixes n :: nat
  assumes "0 < n" and "\<And>k. k < n \<Longrightarrow> pim_started (s0 k)" and "\<And>k. k < n \<Longrightarrow> pim_step\<^sup>*\<^sup>* (s0 k) (st k)"
    and "\<And>k. k < n \<Longrightarrow> v k \<in> set (uvifs (st k)) \<and> \<not> vif_off (v k) \<and> uv_linklocal (v k) = Some \<lparr>sin6_addr = a k, sin6_scope_id = sc k\<rparr>"
    and "\<And>k. k < n \<Longrightarrow> nbr_address ` set (uv_pim_neighbors (v k)) = (\<lambda>j. \<lparr>sin6_addr = a j, sin6_scope_id = sc k\<rparr>) ` ({..<n} - {k})"
    and "inj_on a {..<n}"
  shows "\<exists>!k. k < n \<and> uv_flags (v k) AND VIFF_DR \<noteq> 0"
proof -
  have inv: "\<exists>i. vif_inv (nbr_fresh (st k)) i (v k)" if "k < n" for k
    using pim_reach_inv [OF assms(3) [OF that] pim_started_inv [OF assms(2) [OF that]]] assms(4) [OF that] unfolding hello_inv_def in_set_conv_nth by metis
  have l: "length (a k) = 16" if "k < n" for k using inv [OF that] assms(4) [OF that] by (auto simp: vif_inv_def in6_ok_def)
  have dr: "uv_flags (v k) AND VIFF_DR \<noteq> 0 \<longleftrightarrow> (\<forall>j < n. j \<noteq> k \<longrightarrow> in6_num (a j) < in6_num (a k))" if k: "k < n" for k
  proof -
    have "uv_flags (v k) AND VIFF_DR \<noteq> 0 \<longleftrightarrow> (\<forall>x \<in> nbr_address ` set (uv_pim_neighbors (v k)). inet6_lessthan x \<lparr>sin6_addr = a k, sin6_scope_id = sc k\<rparr>)"
      using inv [OF k] assms(4) [OF k] by (auto simp: vif_inv_def flag_bits)
    also have "\<dots> \<longleftrightarrow> (\<forall>j < n. j \<noteq> k \<longrightarrow> in6_num (a j) < in6_num (a k))"
      unfolding assms(5) [OF k] using same_scope_greater [OF l [OF k] l] by (auto simp: greaterthan_less)
    finally show ?thesis .
  qed
  have ne: "in6_num (a j) \<noteq> in6_num (a k)" if "j < n" "k < n" "j \<noteq> k" for j k
    using in6_num_inj [OF l [OF that(1)] l [OF that(2)]] assms(6) that by (auto dest: inj_onD)
  let ?M = "Max ((\<lambda>k. in6_num (a k)) ` {..<n})"
  have f: "finite ((\<lambda>k. in6_num (a k)) ` {..<n})" "(\<lambda>k. in6_num (a k)) ` {..<n} \<noteq> {}" using assms(1) by auto
  obtain m where "m < n" "in6_num (a m) = ?M" using Max_in [OF f] by auto
  then have m: "m < n" "\<And>j. j < n \<Longrightarrow> in6_num (a j) \<le> in6_num (a m)" using Max_ge [OF f(1)] by simp_all
  show ?thesis
  proof (rule ex1I [of _ m])
    show "m < n \<and> uv_flags (v m) AND VIFF_DR \<noteq> 0" using m ne [OF _ m(1)] dr [OF m(1)] by (auto simp: order.strict_iff_order)
    fix k assume k: "k < n \<and> uv_flags (v k) AND VIFF_DR \<noteq> 0"
    then show "k = m" using dr [of k] m by (metis linorder_not_less)
  qed
qed

theorem one_designated_router_witness:
  "\<exists>st1 st2 v1 v2. pim_step (sample_started 1) st1 \<and> pim_step (sample_started 2) st2 \<and> uvifs st1 = [v1] \<and> uvifs st2 = [v2] \<and>
     (uv_flags v1 AND VIFF_DR \<noteq> 0) \<noteq> (uv_flags v2 AND VIFF_DR \<noteq> 0)"
proof -
  obtain st1 v1 where 1: "pim_step (sample_started 1) st1" "uvifs st1 = [v1]" "uv_linklocal v1 = Some (sample_ll 1)" "\<not> vif_off v1"
    "nbr_address ` set (uv_pim_neighbors v1) = {sample_ll 2}" using sample_hears [of 1 2] by auto
  obtain st2 v2 where 2: "pim_step (sample_started 2) st2" "uvifs st2 = [v2]" "uv_linklocal v2 = Some (sample_ll 2)" "\<not> vif_off v2"
    "nbr_address ` set (uv_pim_neighbors v2) = {sample_ll 1}" using sample_hears [of 2 1] by auto
  define a where "a = (\<lambda>k :: nat. sin6_addr (sample_ll (of_nat k + 1)))"
  have a: "\<lparr>sin6_addr = a 0, sin6_scope_id = 2\<rparr> = sample_ll 1" "\<lparr>sin6_addr = a (Suc 0), sin6_scope_id = 2\<rparr> = sample_ll 2" by (simp_all add: a_def sample_ll_def)
  have d: "{..<2 :: nat} = {0, Suc 0}" by auto
  have "a 0 \<noteq> a (Suc 0)" by (simp add: a_def sample_ll_def)
  then have i: "inj_on a {..<2}" by (simp add: d)
  let ?st = "\<lambda>k :: nat. if k = 0 then st1 else st2" and ?v = "\<lambda>k :: nat. if k = 0 then v1 else v2"
  have e: "{0 :: nat, Suc 0} - {0} = {Suc 0}" "{0 :: nat, Suc 0} - {Suc 0} = {0}" by auto
  have "\<exists>!k. k < 2 \<and> uv_flags (?v k) AND VIFF_DR \<noteq> 0"
    by (rule one_designated_router [where ?s0.0 = "\<lambda>k. sample_started (of_nat k + 1)" and st = ?st and a = a and sc = "\<lambda>_. 2"])
      (use 1 2 a i sample_started_ok in \<open>auto simp: less_2_cases_iff d e numeral_2_eq_2 [symmetric] intro: r_into_rtranclp\<close>)
  then have "(uv_flags v1 AND VIFF_DR \<noteq> 0) \<noteq> (uv_flags v2 AND VIFF_DR \<noteq> 0)"
    by (metis One_nat_def less_2_cases_iff zero_neq_one)
  then show ?thesis using 1(1,2) 2(1,2) by blast
qed

text \<open>
  C21. The periodic pass over the interfaces removes exactly the neighbours whose timer runs out and lowers the timers of the
  others, on every interface; neighbours with an infinite holdtime stay. The designated router is chosen again, so that the invariant
  of the interfaces holds afterwards.
\<close>

theorem age_vifs_correct:
  assumes "age_vifs env interval st = Some (fs, st')" and "hello_inv st"
  shows "hello_inv st' \<and> length (uvifs st') = length (uvifs st) \<and>
    (\<forall>j < length (uvifs st). map nbr_address (uv_pim_neighbors (uvifs st' ! j)) =
       map nbr_address (filter (\<lambda>n. nbr_timer n = TIMER_INFINITY \<or> unat interval < unat (nbr_timer n)) (uv_pim_neighbors (uvifs st ! j))))"
proof -
  have "age_vif_list env interval [0..<length (uvifs st)] st = Some (fs, st')" using assms(1) by (simp add: age_vifs_def)
  note r = age_vif_list_spec [OF this assms(2)]
  have "map nbr_address (concat (map (aged interval) ns)) = map nbr_address (filter (\<lambda>n. nbr_timer n = TIMER_INFINITY \<or> unat interval < unat (nbr_timer n)) ns)" for ns
    by (induction ns) (auto simp: aged_def TIMEOUT_iff)
  then show ?thesis using r by (simp add: atLeast0LessThan)
qed

text \<open>A neighbour with a greater address that is not heard any more.\<close>

definition sample_aging :: pim_state where
  "sample_aging = (sample_router 1 [] rps_none 9)\<lparr>uvifs := [(sample_vif 1 [(sample_nbr 2)\<lparr>nbr_timer := 10\<rparr>])\<lparr>uv_flags := VIFF_PIM_NBR\<rparr>]\<rparr>"

lemma sample_aging_inv: "hello_inv sample_aging"
proof -
  let ?v = "(sample_vif 1 [(sample_nbr 2)\<lparr>nbr_timer := 10\<rparr>])\<lparr>uv_flags := VIFF_PIM_NBR\<rparr>"
  have "\<not> inet6_lessthan (sample_ll 2) (sample_ll 1)" "sample_ll 1 \<noteq> sample_ll 2" by code_simp+
  then have "vif_inv 1 0 ?v" by (simp add: vif_inv_def sample_vif_def sample_nbr_def vif_off_bits flag_bits, simp add: in6_ok_def sample_ll_def)
  moreover have "pim_inv sample_aging"
    using sample_router_inv [OF rp_empty_inv [OF rps_none_empty], of 1 "[]" 9] by (simp add: sample_aging_def pim_inv_def sample_router_def)
  ultimately show ?thesis by (simp add: hello_inv_def sample_aging_def sample_router_def)
qed

theorem age_vifs_correct_witness:
  "case age_vifs sample_env 20 sample_aging of
     Some (fs, st') \<Rightarrow> hello_inv st' \<and> uv_pim_neighbors (uvifs st' ! 0) = [] | None \<Rightarrow> False"
proof -
  have "age_vifs sample_env 20 sample_aging \<noteq> None" by code_simp
  then obtain fs st' where r: "age_vifs sample_env 20 sample_aging = Some (fs, st')" by auto
  have "length (uvifs sample_aging) = 1" "map nbr_timer (uv_pim_neighbors (uvifs sample_aging ! 0)) = [10]"
    by (simp_all add: sample_aging_def sample_vif_def)
  then show ?thesis using age_vifs_correct [OF r sample_aging_inv] r by (auto simp: filter_empty_conv)
qed

text \<open>
  C22. A physical interface that has gone down cannot come up again: stopping it frees its addresses and clears the pointer to the
  link-local one, which starting it dereferences. The daemon then ends with an access through NULL, whatever has happened before.
\<close>

theorem restart_vif_fails:
  assumes "hello_inv st" and "i < length (uvifs st)" and "uv_flags (uvifs st ! i) AND MIFF_REGISTER = 0" and "stop_vif env i st = Some (fs, st')"
  shows "hello_inv st' \<and> vif_off (uvifs st' ! i) \<and> start_vif r i st' = None"
proof -
  obtain v' where v: "hello_inv st'" "uvifs st' = (uvifs st)[i := v']" "uv_linklocal v' = None" "bit (uv_flags v') 0 = bit (uv_flags (uvifs st ! i)) 0"
    using stop_vif_inv [OF assms(4,1,2)] by blast
  have u: "uvifs st' ! i = v'" "i < length (uvifs st')" using v(2) assms(2) by simp_all
  have "vif_inv (nbr_fresh st') i v'" using v(1) u by (auto simp: hello_inv_def)
  then have "vif_off v'" using v(3) by (auto simp: vif_inv_def split: if_splits)
  moreover have "uv_flags v' AND MIFF_REGISTER = 0" using v(4) assms(3) by (simp add: flag_bits)
  ultimately show ?thesis using v(1,3) u by (simp add: start_vif_def Let_def)
qed

theorem restart_vif_fails_witness:
  "\<exists>fs st'. stop_vif sample_env 0 (sample_started 1) = Some (fs, st') \<and> start_vif 7 0 st' = None"
proof -
  have h: "hello_inv (sample_started 1)" by (rule pim_started_inv [OF sample_started_ok])
  have r: "0 < length (uvifs (sample_started 1))" "uv_flags (uvifs (sample_started 1) ! 0) AND MIFF_REGISTER = 0" by code_simp+
  have "stop_vif sample_env 0 (sample_started 1) \<noteq> None"
    by (simp add: stop_vif_def Let_def sample_started_def sample_vif_def set_vif_def)
  then obtain fs st' where "stop_vif sample_env 0 (sample_started 1) = Some (fs, st')" by auto
  then show ?thesis using restart_vif_fails [OF h r] by blast
qed

end
