(* ===== verification/Spec2Isabelle.thy ===== *)
theory Spec2Isabelle
  imports Relay PPPoE_Server_Loop Callouts PIM_Sync PIM_Daemon
begin

text \<open>
  A verification of the network programs of the floppy gateway \<^verbatim>\<open>fdgw\<close> that are kept in its source tree: the
  PPPoE suite \<^verbatim>\<open>rp-pppoe\<close> (\<^verbatim>\<open>src/gnu/rp-pppoe/src\<close>: client, access concentrator, relay) and the core of the IPv6
  multicast routing daemon \<^verbatim>\<open>pim6sd\<close> (\<^verbatim>\<open>src/usr.sbin/pim6sd/pim6sd\<close>: timers, addresses, the set of rendezvous points, the
  election of the bootstrap router and its messages, the neighbours of a link).

  The programs and how they interact. The PPPoE client finds a concentrator (\<^verbatim>\<open>discovery.c\<close>), then carries frames
  between the PPP daemon and the Ethernet (\<^verbatim>\<open>ppp.c\<close>, \<^verbatim>\<open>pppoe.c\<close>), limiting the TCP segment size on the way
  (\<^verbatim>\<open>common.c\<close>). The server (\<^verbatim>\<open>pppoe-server.c\<close>) answers discovery packets with cookies (\<^verbatim>\<open>md5.c\<close>), keeps a table of
  session slots and starts one PPP daemon, with one client program, for each session. The relay (\<^verbatim>\<open>relay.c\<close>) joins
  two Ethernets: it routes discovery packets with a tag of its own and translates the session numbers. All three
  share the packet layer. The multicast daemon waits for packets and for its timers (\<^verbatim>\<open>main.c\<close>, \<^verbatim>\<open>callout.c\<close>), and
  maps every multicast group to a rendezvous point by a hash (\<^verbatim>\<open>rp.c\<close>, \<^verbatim>\<open>crc.c\<close>, \<^verbatim>\<open>inet6.c\<close>) over a set that the
  elected bootstrap router distributes.

  Foundations.
  \<^item> \<^verbatim>\<open>Gateway_Prelude\<close>: words and byte order of the i386 build, byte buffers with bounds. An access outside a
    buffer, a NULL pointer or the end of the process by an error is \<^verbatim>\<open>None\<close>, so that to be defined is a theorem.
  \<^item> \<^verbatim>\<open>Linked_Lists\<close>: singly and doubly linked lists in an array of structures, with locales for stores of links.
  \<^item> \<^verbatim>\<open>Reflected_CRC\<close>: the locales of a CRC register and of a byte table for it; interpreted by \<^verbatim>\<open>PPP_FCS\<close> and \<^verbatim>\<open>PIM_CRC\<close>.

  The PPPoE suite.
  \<^item> \<^verbatim>\<open>PPPoE_Packet\<close> (\<^verbatim>\<open>pppoe.h\<close>, \<^verbatim>\<open>common.c\<close>, \<^verbatim>\<open>if.c\<close>): the packet with its fixed buffer, \<^verbatim>\<open>parsePacket\<close> and \<^verbatim>\<open>findTag\<close> against
    a reference scan of the tags, editing of packets, the memory image that is sent and received.
  \<^item> \<^verbatim>\<open>Relay_Table\<close>, \<^verbatim>\<open>Relay\<close> (\<^verbatim>\<open>relay.c\<close>): the session table with all its links, every handler, a round of the main loop as
    one function and the daemon as a step relation. Every reachable state satisfies the table invariant, no round
    on any input has an undefined access (memory and the interface table are read through checked accesses), and the paths of discovery and session frames are the intended ones.
  \<^item> \<^verbatim>\<open>PPPoE_Conn\<close>, \<^verbatim>\<open>PPPoE_Discovery\<close> (\<^verbatim>\<open>discovery.c\<close>): the discovery phase on a finite list of events (frames and
    failures, then silence), which are consumed; the bounds on the number of PADI and PADR packets and the waiting times, and what is accepted.
  \<^item> \<^verbatim>\<open>TCP_Clamp\<close> (\<^verbatim>\<open>common.c\<close>): the checksum against RFC 1071, the clamping and exactly when it reads out of bounds.
  \<^item> \<^verbatim>\<open>PPP_FCS\<close>, \<^verbatim>\<open>PPP_Framing\<close> (\<^verbatim>\<open>ppp.c\<close>): the frame check sequence, framing and unframing, their round trip, and the equivalence of the
    nested loops with a byte automaton.
  \<^item> \<^verbatim>\<open>PPPoE_Client\<close> (\<^verbatim>\<open>pppoe.c\<close>): the session loop and the whole program from the command line.
  \<^item> \<^verbatim>\<open>MD5\<close> (\<^verbatim>\<open>md5.c\<close>): streaming and transformation against RFC 1321.
  \<^item> \<^verbatim>\<open>PPPoE_Server\<close>, \<^verbatim>\<open>PPPoE_Server_Loop\<close> (\<^verbatim>\<open>pppoe-server.c\<close>): handlers, slots, processes and signals as a step relation; the refinement
    of an abstract table of sessions, and that ended children are always reaped.

  The multicast daemon.
  \<^item> \<^verbatim>\<open>Callouts\<close> (\<^verbatim>\<open>callout.c\<close>, \<^verbatim>\<open>main.c\<close>): the queue of relative times stands for a schedule; the locale \<^verbatim>\<open>timer_service\<close> states what
    its users rely on: a timer is called once, when its time has come and not before. Also the loop of \<^verbatim>\<open>main\<close> that converts elapsed time into aging of the queue.
  \<^item> \<^verbatim>\<open>IPv6_Addr\<close> (\<^verbatim>\<open>inet6.c\<close>, \<^verbatim>\<open>pimd.h\<close>) and \<^verbatim>\<open>PIM_CRC\<close> (\<^verbatim>\<open>crc.c\<close>): comparison as 128-bit numbers, masks; the CRC.
  \<^item> \<^verbatim>\<open>RP_Set\<close> (\<^verbatim>\<open>rp.c\<close>): the set of rendezvous points, its invariant, adding of entries, and the choice of the RP, which depends
    only on the set and not on the order or layout of the lists.
  \<^item> \<^verbatim>\<open>RP_Groups\<close> (\<^verbatim>\<open>mrt.c\<close>), \<^verbatim>\<open>RP_Delete\<close> (\<^verbatim>\<open>rp.c\<close>), \<^verbatim>\<open>RP_Change\<close>: the list of the groups and the entries they use, the deletion of
    entries, prefixes and whole lists, and the set as a step relation: every change keeps the invariant, adds or removes exactly
    the RP that is meant, and leaves no group with an entry that has been freed.
  \<^item> \<^verbatim>\<open>PIM_BSR\<close> (\<^verbatim>\<open>rp.c\<close>, \<^verbatim>\<open>timer.c\<close>): the state of the bootstrap election and its timer.
  \<^item> \<^verbatim>\<open>PIM_Vif\<close> (\<^verbatim>\<open>vif.c\<close>, \<^verbatim>\<open>route.c\<close>): the interfaces with their addresses and neighbours, and the way to an RP. \<^verbatim>\<open>PIM_Wire\<close> (\<^verbatim>\<open>pimd.h\<close>):
    the macros for the fields of messages; the locale \<^verbatim>\<open>wire_field\<close> states that a field is read back as it was written.
  \<^item> \<^verbatim>\<open>PIM_Bootstrap\<close> (\<^verbatim>\<open>pim6_proto.c\<close>, \<^verbatim>\<open>rp.c\<close>, \<^verbatim>\<open>timer.c\<close>): bootstrap messages, advertisements of candidate RPs and \<^verbatim>\<open>age_misc\<close> on the state
    of the daemon. Every handler keeps the invariant, the election never gets worse by a message, aging removes exactly the
    RPs whose time is over. Stack variables that the code uses without setting them are fields of the environment.
  \<^item> \<^verbatim>\<open>PIM_Sync\<close>: a message is read back as what was written; it installs the RP set of its sender, and sender and receiver then
    choose the same RP for every group about which the receiver knows nothing else.
  \<^item> \<^verbatim>\<open>PIM_Hello\<close> (\<^verbatim>\<open>pim6_proto.c\<close>, \<^verbatim>\<open>timer.c\<close>, \<^verbatim>\<open>vif.c\<close>): hello messages, the neighbours of an interface with their timers, starting and stopping of
    interfaces. \<^verbatim>\<open>PIM_Daemon\<close>: all of it as a step relation, from the RPs of the configuration file (\<^verbatim>\<open>cfparse.y\<close>); in every reachable state the neighbours are in order, the flags
    of the interfaces are exact and the RP set is intact; a link has exactly one designated router.

  Bounds. There is no fuel: loops over input recurse on the list of what is still to come, walks along linked
  lists are either over lists of pointers or, in the relay, partial functions proved to end from the invariant.
  Machine integers have the width of the source where wrap-around can matter (tag and session fields, counters,
  checksums, hash values) and are integers where the theorems bound them.

  Not modelled: what is outside the process (sockets, \<^verbatim>\<open>fork\<close>, \<^verbatim>\<open>exec\<close>, files, the clock; they are arguments of the
  definitions), logging and usage texts, the BPF and DLPI variants of the packet layer; in \<^verbatim>\<open>pim6sd\<close> the routing
  table with the kernel interface, the protocol messages about it (Register, Join/Prune, Assert), MLD and the
  rest of the configuration; the programs \<^verbatim>\<open>stone\<close>,
  \<^verbatim>\<open>transproxy\<close>, \<^verbatim>\<open>ttcp\<close> and \<^verbatim>\<open>pppoe-sniff\<close>, and the scripts that build the floppy image.
\<close>

end
